(* ===== verification/Prelude.thy ===== *)
theory Prelude
  imports Main "HOL-Library.Word"
begin

text \<open>
  Shared vocabulary of the development: the integer types of
  \<^verbatim>\<open>src/src/include/common/types/types.h\<close>, the errors the modelled code can raise, the
  result type \<open>'a res\<close> with its sequencing operators, and generic facts on loops over
  index ranges, checked array access and bits of machine words.

  An exception of the source is the left injection of \<open>'a res\<close>. A failed
  \<^verbatim>\<open>KU_ASSERT\<close> throws an \<^verbatim>\<open>InternalException\<close> in checked builds and is the
  error \<open>AssertFail\<close>; a dereferenced null pointer and an array access out of range,
  undefined behaviour in the source, are the errors \<open>NullDeref\<close> and
  \<open>OutOfBounds\<close>, so that a theorem concluding \<open>Inr\<close> also shows their absence.
\<close>

unbundle bit_operations_syntax

named_theorems res_simps \<open>evaluation of the result operators\<close>

section \<open>Types\<close>

type_synonym u64 = "64 word"
type_synonym u32 = "32 word"
type_synonym transaction_t = u64

definition INVALID_TRANSACTION :: transaction_t where
  "INVALID_TRANSACTION = - 1"

text \<open>
  Timestamps of commits are below \<^verbatim>\<open>Transaction::START_TRANSACTION_ID\<close>, the
  identifiers of transactions above it.
\<close>

definition START_TRANSACTION_ID :: transaction_t where
  "START_TRANSACTION_ID = push_bit 63 1"

section \<open>Errors and results\<close>

datatype err =
    AssertFail
  | NullDeref
  | OutOfBounds
  | RuntimeException string
  | InternalException string
  | CatalogException string
  | TransactionManagerException string
  | CheckpointException string
  | StorageException string
  | ConversionException string
  | OverflowException string
  | BufferManagerException string

type_synonym 'a res = "err + 'a"

definition bindR :: "'a res \<Rightarrow> ('a \<Rightarrow> 'b res) \<Rightarrow> 'b res" where
  "bindR m f = (case m of Inl e \<Rightarrow> Inl e | Inr x \<Rightarrow> f x)"

definition assertR :: "bool \<Rightarrow> unit res" where
  "assertR b = (if b then Inr () else Inl AssertFail)"

definition nthR :: "'a list \<Rightarrow> nat \<Rightarrow> 'a res" where
  "nthR xs i = (if i < length xs then Inr (xs ! i) else Inl OutOfBounds)"

definition updR :: "'a list \<Rightarrow> nat \<Rightarrow> 'a \<Rightarrow> 'a list res" where
  "updR xs i x = (if i < length xs then Inr (xs[i := x]) else Inl OutOfBounds)"

definition derefR :: "'a option \<Rightarrow> 'a res" where
  "derefR p = (case p of None \<Rightarrow> Inl NullDeref | Some x \<Rightarrow> Inr x)"

fun foldR :: "('a \<Rightarrow> 's \<Rightarrow> 's res) \<Rightarrow> 'a list \<Rightarrow> 's \<Rightarrow> 's res" where
  "foldR f [] s = Inr s"
| "foldR f (x # xs) s = bindR (f x s) (foldR f xs)"

text \<open>Code with a loop that may not end: no result is \<open>None\<close>.\<close>

definition bindP :: "'a res option \<Rightarrow> ('a \<Rightarrow> 'b res option) \<Rightarrow> 'b res option" where
  "bindP m f = (case m of None \<Rightarrow> None | Some (Inl e) \<Rightarrow> Some (Inl e) | Some (Inr x) \<Rightarrow> f x)"

lemma bindP_simps [simp, res_simps]:
  "bindP None f = None"
  "bindP (Some (Inl e)) f = Some (Inl e)"
  "bindP (Some (Inr x)) f = f x"
  by (simp_all add: bindP_def)

text \<open>
  Code that changes its state before it throws: the state is kept with the error.
\<close>

definition bindS :: "'s \<times> 'a res \<Rightarrow> ('a \<Rightarrow> 's \<Rightarrow> 's \<times> 'b res) \<Rightarrow> 's \<times> 'b res" where
  "bindS m f = (case m of (s, Inl e) \<Rightarrow> (s, Inl e) | (s, Inr x) \<Rightarrow> f x s)"

text \<open>A caller that gives the state up with the error.\<close>

definition unlessThrown :: "'s \<times> 'a res \<Rightarrow> ('s \<times> 'a) res" where
  "unlessThrown m = (case m of (s, Inl e) \<Rightarrow> Inl e | (s, Inr x) \<Rightarrow> Inr (s, x))"

lemma unlessThrown_simps [simp, res_simps]:
  "unlessThrown (s, Inl e) = Inl e"
  "unlessThrown (s, Inr x) = Inr (s, x)"
  by (simp_all add: unlessThrown_def)

lemma unlessThrown_eq: "unlessThrown m = Inr p \<longleftrightarrow> m = (fst p, Inr (snd p))" "unlessThrown m = Inl e \<longleftrightarrow> snd m = Inl e"
  by (cases m; cases "snd m"; cases p; auto simp: unlessThrown_def)+

lemma bindS_simps [simp, res_simps]:
  "bindS (s, Inl e) f = (s, Inl e)"
  "bindS (s, Inr x) f = f x s"
  by (simp_all add: bindS_def)

lemma bindS_eq_Inr [simp]: "bindS m f = (s', Inr y) \<longleftrightarrow> (\<exists>s x. m = (s, Inr x) \<and> f x s = (s', Inr y))"
  by (cases m; cases "snd m") auto

lemma bindR_simps [simp, res_simps]:
  "bindR (Inl e) f = Inl e"
  "bindR (Inr x) f = f x"
  by (simp_all add: bindR_def)

lemma bindR_eq_Inr [simp]: "bindR m f = Inr y \<longleftrightarrow> (\<exists>x. m = Inr x \<and> f x = Inr y)"
  by (cases m) auto

lemma assertR_simps [simp, res_simps]:
  "assertR True = Inr ()"
  "assertR False = Inl AssertFail"
  by (simp_all add: assertR_def)

lemma assertR_eq_Inr [simp]: "assertR b = Inr u \<longleftrightarrow> b"
  by (simp add: assertR_def)

lemma nthR_in [simp]: "i < length xs \<Longrightarrow> nthR xs i = Inr (xs ! i)"
  by (simp add: nthR_def)

lemma updR_in [simp]: "i < length xs \<Longrightarrow> updR xs i x = Inr (xs[i := x])"
  by (simp add: updR_def)

lemma derefR_simps [simp, res_simps]:
  "derefR None = Inl NullDeref"
  "derefR (Some x) = Inr x"
  by (simp_all add: derefR_def)

lemma bindR_cong [fundef_cong]:
  "m = m' \<Longrightarrow> (\<And>x. m' = Inr x \<Longrightarrow> f x = f' x) \<Longrightarrow> bindR m f = bindR m' f'"
  by (cases m') auto

lemma foldR_append: "foldR f (xs @ ys) s = bindR (foldR f xs s) (foldR f ys)"
proof (induction xs arbitrary: s)
  case Nil
  then show ?case by simp
next
  case (Cons x xs)
  then show ?case by (cases "f x s") simp_all
qed

lemma foldR_cong:
  "(\<And>x s. x \<in> set xs \<Longrightarrow> f x s = g x s) \<Longrightarrow> foldR f xs s = foldR g xs s"
proof (induction xs arbitrary: s)
  case (Cons x xs)
  then show ?case by (cases "g x s") simp_all
qed simp

text \<open>
  A loop keeps an invariant indexed by the number of iterations done; the rule gives the
  result of the loop and so its termination without an error.
\<close>

lemma foldR_upt_invariant:
  assumes "I i s" and "i \<le> j"
    and "\<And>k s. i \<le> k \<Longrightarrow> k < j \<Longrightarrow> I k s \<Longrightarrow> \<exists>s'. f k s = Inr s' \<and> I (Suc k) s'"
  shows "\<exists>s'. foldR f [i..<j] s = Inr s' \<and> I j s'"
  using assms(2)
proof (induction j rule: dec_induct)
  case base
  then show ?case using assms(1) by simp
next
  case (step n)
  then obtain t where "foldR f [i..<n] s = Inr t" "I n t" by blast
  moreover from this step obtain t' where "f n t = Inr t'" "I (Suc n) t'"
    using assms(3) [of n t] by auto
  ultimately show ?case using step by (auto simp: foldR_append)
qed

text \<open>Filling the index range from \<open>i\<close> to \<open>j\<close> of an array with one value.\<close>

definition fillR :: "'a list \<Rightarrow> nat \<Rightarrow> nat \<Rightarrow> 'a \<Rightarrow> 'a list res" where
  "fillR xs i j x = foldR (\<lambda>k ys. updR ys k x) [i..<j] xs"

lemma fillR_in:
  assumes "j \<le> length xs"
  shows "fillR xs i j x = Inr (map (\<lambda>k. if i \<le> k \<and> k < j then x else xs ! k) [0..<length xs])"
proof (cases "i \<le> j")
  case True
  let ?ys = "\<lambda>n. map (\<lambda>k. if i \<le> k \<and> k < n then x else xs ! k) [0..<length xs]"
  have "\<exists>s'. foldR (\<lambda>k ys. updR ys k x) [i..<j] xs = Inr s' \<and> s' = ?ys j"
    using True assms
    by (intro foldR_upt_invariant [where I = "\<lambda>n ys. ys = ?ys n"])
       (auto intro!: nth_equalityI simp: nth_list_update)
  then show ?thesis by (simp add: fillR_def)
next
  case False
  then show ?thesis by (auto simp: fillR_def intro!: nth_equalityI)
qed

lemma fillR_ok:
  assumes "j \<le> length xs"
  shows "\<exists>ys. fillR xs i j x = Inr ys \<and> length ys = length xs \<and>
    (\<forall>k < length xs. ys ! k = (if i \<le> k \<and> k < j then x else xs ! k))"
  using fillR_in [OF assms] by auto

lemma ex_range_split:
  fixes i j n :: nat
  assumes "i + j \<le> n"
  shows "(\<exists>k < j. P (i + k)) \<or> (\<exists>k. i + j \<le> k \<and> k < n \<and> P k) \<longleftrightarrow> (\<exists>k. i \<le> k \<and> k < n \<and> P k)"
proof -
  have "(\<exists>k < j. P (i + k)) \<longleftrightarrow> (\<exists>k. i \<le> k \<and> k < i + j \<and> P k)"
    by (metis add_less_cancel_left le_add1 le_add_diff_inverse)
  then show ?thesis using assms by (meson le_add1 le_trans not_less order_less_le_trans)
qed

section \<open>Quotient and remainder\<close>

definition getQuotientRemainder :: "nat \<Rightarrow> nat \<Rightarrow> nat \<times> nat" where
  "getQuotientRemainder i divisor = (i div divisor, i mod divisor)"

lemma unat_of_nat_32: "n < 2 ^ 32 \<Longrightarrow> unat (of_nat n :: u32) = n"
  by (simp add: unsigned_of_nat take_bit_nat_eq_self)

end
