(* ===== verification/Null_Mask.thy ===== *)
theory Null_Mask
  imports Prelude
begin

text \<open>
  The null mask of \<^verbatim>\<open>src/src/include/common/null_mask.h\<close> and
  \<^verbatim>\<open>src/src/common/null_mask.cpp\<close>: one bit per value, packed into 64-bit
  entries, with bulk operations that work on whole entries and on bytes, and the flag
  \<^verbatim>\<open>mayContainNulls\<close> that lets a reader skip the bits.

  The entries a pointer addresses are a list of 64-bit words; bit positions and counts,
  which never reach the width of their types, are natural numbers, with the truncation to
  32 bits where the code passes a 64-bit offset as a 32-bit position. Byte addresses are
  little-endian, as on the platforms the code is built for.
\<close>

section \<open>Mask tables\<close>

definition NULL_BITMASKS_WITH_SINGLE_ONE :: "u64 list" where
  "NULL_BITMASKS_WITH_SINGLE_ONE = [
    0x1, 0x2, 0x4, 0x8, 0x10, 0x20, 0x40, 0x80, 0x100, 0x200, 0x400, 0x800, 0x1000, 0x2000,
     0x4000, 0x8000, 0x10000, 0x20000, 0x40000, 0x80000, 0x100000, 0x200000, 0x400000,
     0x800000, 0x1000000, 0x2000000, 0x4000000, 0x8000000, 0x10000000, 0x20000000,
     0x40000000, 0x80000000, 0x100000000, 0x200000000, 0x400000000, 0x800000000,
     0x1000000000, 0x2000000000, 0x4000000000, 0x8000000000, 0x10000000000, 0x20000000000,
     0x40000000000, 0x80000000000, 0x100000000000, 0x200000000000, 0x400000000000,
     0x800000000000, 0x1000000000000, 0x2000000000000, 0x4000000000000, 0x8000000000000,
     0x10000000000000, 0x20000000000000, 0x40000000000000, 0x80000000000000,
     0x100000000000000, 0x200000000000000, 0x400000000000000, 0x800000000000000,
     0x1000000000000000, 0x2000000000000000, 0x4000000000000000, 0x8000000000000000]"

definition NULL_BITMASKS_WITH_SINGLE_ZERO :: "u64 list" where
  "NULL_BITMASKS_WITH_SINGLE_ZERO = [
    0xfffffffffffffffe, 0xfffffffffffffffd, 0xfffffffffffffffb, 0xfffffffffffffff7,
     0xffffffffffffffef, 0xffffffffffffffdf, 0xffffffffffffffbf, 0xffffffffffffff7f,
     0xfffffffffffffeff, 0xfffffffffffffdff, 0xfffffffffffffbff, 0xfffffffffffff7ff,
     0xffffffffffffefff, 0xffffffffffffdfff, 0xffffffffffffbfff, 0xffffffffffff7fff,
     0xfffffffffffeffff, 0xfffffffffffdffff, 0xfffffffffffbffff, 0xfffffffffff7ffff,
     0xffffffffffefffff, 0xffffffffffdfffff, 0xffffffffffbfffff, 0xffffffffff7fffff,
     0xfffffffffeffffff, 0xfffffffffdffffff, 0xfffffffffbffffff, 0xfffffffff7ffffff,
     0xffffffffefffffff, 0xffffffffdfffffff, 0xffffffffbfffffff, 0xffffffff7fffffff,
     0xfffffffeffffffff, 0xfffffffdffffffff, 0xfffffffbffffffff, 0xfffffff7ffffffff,
     0xffffffefffffffff, 0xffffffdfffffffff, 0xffffffbfffffffff, 0xffffff7fffffffff,
     0xfffffeffffffffff, 0xfffffdffffffffff, 0xfffffbffffffffff, 0xfffff7ffffffffff,
     0xffffefffffffffff, 0xffffdfffffffffff, 0xffffbfffffffffff, 0xffff7fffffffffff,
     0xfffeffffffffffff, 0xfffdffffffffffff, 0xfffbffffffffffff, 0xfff7ffffffffffff,
     0xffefffffffffffff, 0xffdfffffffffffff, 0xffbfffffffffffff, 0xff7fffffffffffff,
     0xfeffffffffffffff, 0xfdffffffffffffff, 0xfbffffffffffffff, 0xf7ffffffffffffff,
     0xefffffffffffffff, 0xdfffffffffffffff, 0xbfffffffffffffff, 0x7fffffffffffffff]"

definition NULL_LOWER_MASKS :: "u64 list" where
  "NULL_LOWER_MASKS = [
    0x0, 0x1, 0x3, 0x7, 0xf, 0x1f, 0x3f, 0x7f, 0xff, 0x1ff, 0x3ff, 0x7ff, 0xfff, 0x1fff,
     0x3fff, 0x7fff, 0xffff, 0x1ffff, 0x3ffff, 0x7ffff, 0xfffff, 0x1fffff, 0x3fffff,
     0x7fffff, 0xffffff, 0x1ffffff, 0x3ffffff, 0x7ffffff, 0xfffffff, 0x1fffffff, 0x3fffffff,
     0x7fffffff, 0xffffffff, 0x1ffffffff, 0x3ffffffff, 0x7ffffffff, 0xfffffffff,
     0x1fffffffff, 0x3fffffffff, 0x7fffffffff, 0xffffffffff, 0x1ffffffffff, 0x3ffffffffff,
     0x7ffffffffff, 0xfffffffffff, 0x1fffffffffff, 0x3fffffffffff, 0x7fffffffffff,
     0xffffffffffff, 0x1ffffffffffff, 0x3ffffffffffff, 0x7ffffffffffff, 0xfffffffffffff,
     0x1fffffffffffff, 0x3fffffffffffff, 0x7fffffffffffff, 0xffffffffffffff,
     0x1ffffffffffffff, 0x3ffffffffffffff, 0x7ffffffffffffff, 0xfffffffffffffff,
     0x1fffffffffffffff, 0x3fffffffffffffff, 0x7fffffffffffffff, 0xffffffffffffffff]"

definition NULL_HIGH_MASKS :: "u64 list" where
  "NULL_HIGH_MASKS = [
    0x0, 0x8000000000000000, 0xc000000000000000, 0xe000000000000000, 0xf000000000000000,
     0xf800000000000000, 0xfc00000000000000, 0xfe00000000000000, 0xff00000000000000,
     0xff80000000000000, 0xffc0000000000000, 0xffe0000000000000, 0xfff0000000000000,
     0xfff8000000000000, 0xfffc000000000000, 0xfffe000000000000, 0xffff000000000000,
     0xffff800000000000, 0xffffc00000000000, 0xffffe00000000000, 0xfffff00000000000,
     0xfffff80000000000, 0xfffffc0000000000, 0xfffffe0000000000, 0xffffff0000000000,
     0xffffff8000000000, 0xffffffc000000000, 0xffffffe000000000, 0xfffffff000000000,
     0xfffffff800000000, 0xfffffffc00000000, 0xfffffffe00000000, 0xffffffff00000000,
     0xffffffff80000000, 0xffffffffc0000000, 0xffffffffe0000000, 0xfffffffff0000000,
     0xfffffffff8000000, 0xfffffffffc000000, 0xfffffffffe000000, 0xffffffffff000000,
     0xffffffffff800000, 0xffffffffffc00000, 0xffffffffffe00000, 0xfffffffffff00000,
     0xfffffffffff80000, 0xfffffffffffc0000, 0xfffffffffffe0000, 0xffffffffffff0000,
     0xffffffffffff8000, 0xffffffffffffc000, 0xffffffffffffe000, 0xfffffffffffff000,
     0xfffffffffffff800, 0xfffffffffffffc00, 0xfffffffffffffe00, 0xffffffffffffff00,
     0xffffffffffffff80, 0xffffffffffffffc0, 0xffffffffffffffe0, 0xfffffffffffffff0,
     0xfffffffffffffff8, 0xfffffffffffffffc, 0xfffffffffffffffe, 0xffffffffffffffff]"

definition NO_NULL_ENTRY :: u64 where
  "NO_NULL_ENTRY = 0"

definition ALL_NULL_ENTRY :: u64 where
  "ALL_NULL_ENTRY = NOT NO_NULL_ENTRY"

abbreviation (input) NUM_BITS_PER_NULL_ENTRY_LOG2 :: nat where
  "NUM_BITS_PER_NULL_ENTRY_LOG2 \<equiv> 6"

abbreviation (input) NUM_BITS_PER_NULL_ENTRY :: nat where
  "NUM_BITS_PER_NULL_ENTRY \<equiv> 64"

section \<open>Operations on entries\<close>

definition getNullEntryAndBitPos :: "nat \<Rightarrow> nat \<times> nat" where
  "getNullEntryAndBitPos pos =
     (let nullEntryPos = drop_bit NUM_BITS_PER_NULL_ENTRY_LOG2 pos
      in (nullEntryPos, pos - push_bit NUM_BITS_PER_NULL_ENTRY_LOG2 nullEntryPos))"

text \<open>The static members take the position as a 32-bit integer.\<close>

definition isNull_static :: "u64 list \<Rightarrow> nat \<Rightarrow> bool res" where
  "isNull_static nullEntries pos =
     (let (entryPos, bitPosInEntry) = getNullEntryAndBitPos (take_bit 32 pos) in
      bindR (nthR nullEntries entryPos) (\<lambda>e.
      Inr (e AND NULL_BITMASKS_WITH_SINGLE_ONE ! bitPosInEntry \<noteq> 0)))"

definition setNull_static :: "u64 list \<Rightarrow> nat \<Rightarrow> bool \<Rightarrow> u64 list res" where
  "setNull_static nullEntries pos isNull =
     (let pos = take_bit 32 pos;
          entryPos = drop_bit NUM_BITS_PER_NULL_ENTRY_LOG2 pos;
          bitPosInEntry = pos - push_bit NUM_BITS_PER_NULL_ENTRY_LOG2 entryPos in
      bindR (nthR nullEntries entryPos) (\<lambda>e.
      if isNull then updR nullEntries entryPos (e OR NULL_BITMASKS_WITH_SINGLE_ONE ! bitPosInEntry)
      else updR nullEntries entryPos (e AND NULL_BITMASKS_WITH_SINGLE_ZERO ! bitPosInEntry)))"

text \<open>
  One iteration of the loop of \<^verbatim>\<open>copyUnaligned\<close>: the number of bits taken from
  the current source entry, these bits shifted to their place in the destination entry, and
  the positions to continue from.
\<close>

definition copyUnaligned_part ::
  "u64 \<Rightarrow> nat \<Rightarrow> nat \<Rightarrow> nat \<Rightarrow> nat \<Rightarrow> nat \<Rightarrow> nat \<times> u64 \<times> nat \<times> nat \<times> nat \<times> nat" where
  "copyUnaligned_part srcNullMaskEntry numBitsLeft srcNullEntryPos srcNullBitPos
       dstNullEntryPos dstNullBitPos =
     (if dstNullBitPos < srcNullBitPos then
        let num = min (NUM_BITS_PER_NULL_ENTRY - srcNullBitPos) numBitsLeft;
            e = srcNullMaskEntry
                AND NOT (NULL_HIGH_MASKS ! (NUM_BITS_PER_NULL_ENTRY - (srcNullBitPos + num)));
            e = drop_bit (srcNullBitPos - dstNullBitPos) e;
            e = e AND NOT (NULL_LOWER_MASKS ! dstNullBitPos)
        in (num, e, srcNullEntryPos + 1, 0, dstNullEntryPos, dstNullBitPos + num)
      else if dstNullBitPos > srcNullBitPos then
        let num = min (NUM_BITS_PER_NULL_ENTRY - dstNullBitPos) numBitsLeft;
            e = srcNullMaskEntry AND NOT (NULL_LOWER_MASKS ! srcNullBitPos);
            e = push_bit (dstNullBitPos - srcNullBitPos) e;
            e = e AND NOT (NULL_HIGH_MASKS ! (NUM_BITS_PER_NULL_ENTRY - (dstNullBitPos + num)))
        in (num, e, srcNullEntryPos, srcNullBitPos + num, dstNullEntryPos + 1, 0)
      else
        let num = min (NUM_BITS_PER_NULL_ENTRY - dstNullBitPos) numBitsLeft;
            e = srcNullMaskEntry AND NOT (NULL_LOWER_MASKS ! srcNullBitPos);
            e = e AND NOT (NULL_HIGH_MASKS ! (NUM_BITS_PER_NULL_ENTRY - (dstNullBitPos + num)))
        in (num, e, srcNullEntryPos + 1, 0, dstNullEntryPos + 1, 0))"

text \<open>
  An iteration that takes no bit moves a position that had run past its entry, so the loop
  ends whatever positions it starts from.
\<close>

definition positionOverrun :: "nat \<Rightarrow> nat \<Rightarrow> nat" where
  "positionOverrun srcNullBitPos dstNullBitPos =
     of_bool (64 \<le> srcNullBitPos) + of_bool (64 \<le> dstNullBitPos)"

lemma copyUnaligned_part_progress:
  assumes "copyUnaligned_part e rest sE sB dE dB = (num, e', sE', sB', dE', dB')" "0 < rest"
  shows "0 < num \<or> positionOverrun sB' dB' < positionOverrun sB dB"
proof (cases "dB < sB")
  case True
  with assms show ?thesis by (cases "64 \<le> sB") (auto simp: copyUnaligned_part_def positionOverrun_def Let_def)
next
  case False
  with assms show ?thesis
    by (cases "dB = sB"; cases "64 \<le> dB")
       (auto simp: copyUnaligned_part_def positionOverrun_def Let_def)
qed

function copyUnaligned_loop ::
  "u64 list \<Rightarrow> nat \<Rightarrow> bool \<Rightarrow> nat \<Rightarrow> bool \<Rightarrow> nat \<Rightarrow> nat \<Rightarrow> nat \<Rightarrow> nat \<Rightarrow> u64 list \<Rightarrow>
     (u64 list \<times> bool) res" where
  "copyUnaligned_loop srcNullEntries numBitsToCopy invert bitPos hasNullInSrcNullMask
       srcNullEntryPos srcNullBitPos dstNullEntryPos dstNullBitPos dstNullEntries =
     (if bitPos < numBitsToCopy then
        bindR (nthR srcNullEntries srcNullEntryPos) (\<lambda>srcEntry.
        case copyUnaligned_part (if invert then NOT srcEntry else srcEntry)
               (numBitsToCopy - bitPos) srcNullEntryPos srcNullBitPos
               dstNullEntryPos dstNullBitPos of
          (num, e, srcE, srcB, dstE, dstB) \<Rightarrow>
        bindR (nthR dstNullEntries dstNullEntryPos) (\<lambda>d.
        let d = d AND NOT (push_bit dstNullBitPos (NULL_LOWER_MASKS ! num));
            d = (if e \<noteq> 0 then d OR e else d)
        in bindR (updR dstNullEntries dstNullEntryPos d) (\<lambda>dst.
           copyUnaligned_loop srcNullEntries numBitsToCopy invert (bitPos + num)
             (hasNullInSrcNullMask \<or> e \<noteq> 0) srcE srcB dstE dstB dst)))
      else Inr (dstNullEntries, hasNullInSrcNullMask))"
  by pat_completeness auto
termination
  by (relation "measures
        [\<lambda>(src, n, inv, bitPos, h, sE, sB, dE, dB, dst). n - bitPos,
         \<lambda>(src, n, inv, bitPos, h, sE, sB, dE, dB, dst). positionOverrun sB dB]")
     (auto dest!: sym [of _ "copyUnaligned_part _ _ _ _ _ _"] copyUnaligned_part_progress)

declare copyUnaligned_loop.simps [simp del]

definition copyUnaligned ::
  "u64 list \<Rightarrow> nat \<Rightarrow> u64 list \<Rightarrow> nat \<Rightarrow> nat \<Rightarrow> bool \<Rightarrow> (u64 list \<times> bool) res" where
  "copyUnaligned srcNullEntries srcOffset dstNullEntries dstOffset numBitsToCopy invert =
     (let (srcNullEntryPos, srcNullBitPos) = getNullEntryAndBitPos srcOffset;
          (dstNullEntryPos, dstNullBitPos) = getNullEntryAndBitPos dstOffset
      in copyUnaligned_loop srcNullEntries numBitsToCopy invert 0 False
           srcNullEntryPos srcNullBitPos dstNullEntryPos dstNullBitPos dstNullEntries)"

text \<open>The byte view of the entries used by the aligned copy.\<close>

definition readByte :: "u64 list \<Rightarrow> nat \<Rightarrow> 8 word res" where
  "readByte xs k = bindR (nthR xs (k div 8)) (\<lambda>e. Inr (ucast (drop_bit (8 * (k mod 8)) e)))"

definition writeByte :: "u64 list \<Rightarrow> nat \<Rightarrow> 8 word \<Rightarrow> u64 list res" where
  "writeByte xs k b =
     bindR (nthR xs (k div 8)) (\<lambda>e.
     updR xs (k div 8)
       ((e AND NOT (push_bit (8 * (k mod 8)) 255)) OR push_bit (8 * (k mod 8)) (ucast b)))"

definition memcpyBytes :: "u64 list \<Rightarrow> nat \<Rightarrow> u64 list \<Rightarrow> nat \<Rightarrow> nat \<Rightarrow> u64 list res" where
  "memcpyBytes dst dstByte src srcByte n =
     foldR (\<lambda>k d. bindR (readByte src (srcByte + k)) (\<lambda>b. writeByte d (dstByte + k) b)) [0..<n] dst"

fun anyByteSet :: "u64 list \<Rightarrow> nat \<Rightarrow> nat \<Rightarrow> bool res" where
  "anyByteSet src srcByte 0 = Inr False"
| "anyByteSet src srcByte (Suc n) =
     bindR (readByte src srcByte) (\<lambda>b. if b \<noteq> 0 then Inr True else anyByteSet src (srcByte + 1) n)"

text \<open>
  The part of the byte-aligned copy after the first, partial byte: whole bytes with
  \<^verbatim>\<open>memcpy\<close>, then the bits left in the last byte.
\<close>

definition alignedCopy ::
  "u64 list \<Rightarrow> nat \<Rightarrow> u64 list \<Rightarrow> nat \<Rightarrow> nat \<Rightarrow> nat \<Rightarrow> (u64 list \<times> bool) res" where
  "alignedCopy src srcOff dst dstOff n first =
     (let srcByte = (srcOff + first) div 8; dstByte = (dstOff + first) div 8;
          bytes = (n - first) div 8; lastStart = first + bytes * 8;
          numLast = n - first - bytes * 8 in
      bindR (memcpyBytes dst dstByte src srcByte bytes) (\<lambda>dst.
      bindR (anyByteSet src srcByte bytes) (\<lambda>inBytes.
      if numLast > 0 then
        bindR (copyUnaligned src (srcOff + lastStart) dst (dstOff + lastStart) numLast False)
          (\<lambda>(dst, inLast). Inr (dst, inLast \<or> inBytes))
      else Inr (dst, inBytes))))"

definition copyNullMask ::
  "u64 list \<Rightarrow> nat \<Rightarrow> u64 list \<Rightarrow> nat \<Rightarrow> nat \<Rightarrow> bool \<Rightarrow> (u64 list \<times> bool) res" where
  "copyNullMask srcNullEntries srcOffset dstNullEntries dstOffset numBitsToCopy invert =
     (if numBitsToCopy \<le> 3 then
        foldR (\<lambda>i (dst, anyNull).
          bindR (isNull_static srcNullEntries (srcOffset + i)) (\<lambda>isNull.
          bindR (setNull_static dst (dstOffset + i) (isNull \<noteq> invert)) (\<lambda>dst.
          Inr (dst, anyNull \<or> isNull)))) [0..<numBitsToCopy] (dstNullEntries, False)
      else if \<not> invert \<and> srcOffset mod 8 = dstOffset mod 8 \<and> numBitsToCopy \<ge> 8
              \<and> numBitsToCopy - srcOffset mod 8 \<ge> 8 then
        (if srcOffset \<noteq> 0 then
           (let numBitsInFirstByte = 8 - srcOffset mod 8 in
            bindR (copyUnaligned srcNullEntries srcOffset dstNullEntries dstOffset
                     numBitsInFirstByte False) (\<lambda>(dst, inFirst).
            bindR (alignedCopy srcNullEntries srcOffset dst dstOffset numBitsToCopy
                     numBitsInFirstByte) (\<lambda>(dst, inRest).
            Inr (dst, inRest \<or> inFirst))))
         else alignedCopy srcNullEntries srcOffset dstNullEntries dstOffset numBitsToCopy 0)
      else copyUnaligned srcNullEntries srcOffset dstNullEntries dstOffset numBitsToCopy invert)"

definition setNullRange :: "u64 list \<Rightarrow> nat \<Rightarrow> nat \<Rightarrow> bool \<Rightarrow> u64 list res" where
  "setNullRange nullEntries offset numBitsToSet isNull =
     (if numBitsToSet = 0 then Inr nullEntries
      else
        let (firstEntryPos, firstBitPos) = getNullEntryAndBitPos offset;
            (lastEntryPos, lastBitPos) = getNullEntryAndBitPos (offset + numBitsToSet) in
        bindR (if lastEntryPos > firstEntryPos + 1
               then fillR nullEntries (firstEntryPos + 1) lastEntryPos
                      (if isNull then ALL_NULL_ENTRY else NO_NULL_ENTRY)
               else Inr nullEntries) (\<lambda>nullEntries.
        bindR (nthR nullEntries firstEntryPos) (\<lambda>e.
        if firstEntryPos = lastEntryPos then
          (if isNull
           then updR nullEntries firstEntryPos
                  (e OR (NOT (NULL_LOWER_MASKS ! firstBitPos)
                         AND NOT (NULL_HIGH_MASKS ! (NUM_BITS_PER_NULL_ENTRY - lastBitPos))))
           else updR nullEntries firstEntryPos
                  (e AND (NULL_LOWER_MASKS ! firstBitPos
                          OR NULL_HIGH_MASKS ! (NUM_BITS_PER_NULL_ENTRY - lastBitPos))))
        else
          (if isNull then
             bindR (updR nullEntries firstEntryPos (e OR NOT (NULL_LOWER_MASKS ! firstBitPos)))
               (\<lambda>nullEntries.
             if lastBitPos > 0 then
               bindR (nthR nullEntries lastEntryPos) (\<lambda>l.
               updR nullEntries lastEntryPos (l OR NULL_LOWER_MASKS ! lastBitPos))
             else Inr nullEntries)
           else
             bindR (updR nullEntries firstEntryPos (e AND NULL_LOWER_MASKS ! firstBitPos))
               (\<lambda>nullEntries.
             if lastBitPos > 0 then
               bindR (nthR nullEntries lastEntryPos) (\<lambda>l.
               updR nullEntries lastEntryPos (l AND NOT (NULL_LOWER_MASKS ! lastBitPos)))
             else Inr nullEntries)))))"

fun entriesEqual :: "u64 list \<Rightarrow> u64 \<Rightarrow> nat list \<Rightarrow> bool res" where
  "entriesEqual nullEntries baseline [] = Inr True"
| "entriesEqual nullEntries baseline (i # is) =
     bindR (nthR nullEntries i) (\<lambda>e.
     if e \<noteq> baseline then Inr False else entriesEqual nullEntries baseline is)"

text \<open>The part of \<^verbatim>\<open>getMinMax\<close> after the first, possibly partial, entry.\<close>

definition getMinMax_rest :: "u64 list \<Rightarrow> nat \<Rightarrow> bool \<Rightarrow> bool \<Rightarrow> (bool \<times> bool) res" where
  "getMinMax_rest nullEntries numValues mn mx =
     (let baseline = (if mn then NOT 0 else 0) in
      bindR (entriesEqual nullEntries baseline [0..<numValues div NUM_BITS_PER_NULL_ENTRY]) (\<lambda>same.
      if \<not> same then Inr (False, True)
      else
        let nullEntries = drop (numValues div NUM_BITS_PER_NULL_ENTRY) nullEntries;
            numValues = numValues mod NUM_BITS_PER_NULL_ENTRY in
        if numValues > 0 then
          bindR (nthR nullEntries 0) (\<lambda>e.
          let m = NULL_LOWER_MASKS ! numValues; masked = e AND m in
          if masked = 0 then Inr (False, mx)
          else if masked = m then Inr (mn, True)
          else Inr (False, True))
        else Inr (mn, mx)))"

definition getMinMax :: "u64 list \<Rightarrow> nat \<Rightarrow> nat \<Rightarrow> (bool \<times> bool) res" where
  "getMinMax nullEntries offset numValues =
     (let nullEntries = drop (offset div NUM_BITS_PER_NULL_ENTRY) nullEntries;
          offset = offset mod NUM_BITS_PER_NULL_ENTRY in
      if offset + numValues \<le> NUM_BITS_PER_NULL_ENTRY then
        bindR (nthR nullEntries 0) (\<lambda>e.
        let m = NULL_HIGH_MASKS ! (NUM_BITS_PER_NULL_ENTRY - offset)
                AND NULL_LOWER_MASKS ! (offset + numValues);
            masked = e AND m in
        if masked = 0 then Inr (False, False)
        else if masked = m then Inr (True, True)
        else Inr (False, True))
      else if offset > 0 then
        bindR (nthR nullEntries 0) (\<lambda>e.
        let m = NULL_HIGH_MASKS ! (NUM_BITS_PER_NULL_ENTRY - offset); masked = e AND m;
            numValues = numValues - (NUM_BITS_PER_NULL_ENTRY - offset) in
        if masked = 0 then getMinMax_rest (drop 1 nullEntries) numValues False False
        else if masked = m then getMinMax_rest (drop 1 nullEntries) numValues True True
        else Inr (False, True))
      else
        bindR (isNull_static nullEntries 0) (\<lambda>b. getMinMax_rest nullEntries numValues b b))"

definition popcount :: "u64 \<Rightarrow> nat" where
  "popcount w = length (filter (bit w) [0..<64])"

section \<open>The class\<close>

record null_mask =
  nullData :: "u64 list"
  mayContainNulls :: bool

definition NullMask_new :: "nat \<Rightarrow> null_mask" where
  "NullMask_new capacity =
     (let numNullEntries = (capacity + NUM_BITS_PER_NULL_ENTRY - 1) div NUM_BITS_PER_NULL_ENTRY
      in \<lparr>nullData = replicate numNullEntries NO_NULL_ENTRY, mayContainNulls = False\<rparr>)"

definition setAllNonNull :: "null_mask \<Rightarrow> null_mask" where
  "setAllNonNull m =
     (if \<not> mayContainNulls m then m
      else m\<lparr>nullData := replicate (length (nullData m)) NO_NULL_ENTRY, mayContainNulls := False\<rparr>)"

definition setAllNull :: "null_mask \<Rightarrow> null_mask" where
  "setAllNull m =
     m\<lparr>nullData := replicate (length (nullData m)) ALL_NULL_ENTRY, mayContainNulls := True\<rparr>"

definition hasNoNullsGuarantee :: "null_mask \<Rightarrow> bool" where
  "hasNoNullsGuarantee m = (\<not> mayContainNulls m)"

definition getNumNullBits :: "u64 list \<Rightarrow> nat" where
  "getNumNullBits d = length d * NUM_BITS_PER_NULL_ENTRY"

definition setNull :: "null_mask \<Rightarrow> nat \<Rightarrow> bool \<Rightarrow> null_mask res" where
  "setNull m pos isNull =
     bindR (assertR (pos < getNumNullBits (nullData m))) (\<lambda>_.
     bindR (setNull_static (nullData m) pos isNull) (\<lambda>d.
     let m = m\<lparr>nullData := d\<rparr> in
     Inr (if isNull then m\<lparr>mayContainNulls := True\<rparr> else m)))"

definition isNull :: "null_mask \<Rightarrow> nat \<Rightarrow> bool res" where
  "isNull m pos =
     bindR (assertR (pos < getNumNullBits (nullData m))) (\<lambda>_.
     isNull_static (nullData m) pos)"

definition getNumNullEntries :: "u64 \<Rightarrow> u64" where
  "getNumNullEntries numNullBits =
     drop_bit NUM_BITS_PER_NULL_ENTRY_LOG2 numNullBits
     + (if numNullBits - push_bit NUM_BITS_PER_NULL_ENTRY_LOG2 numNullBits = 0 then 0 else 1)"

definition copyFromNullBits ::
  "null_mask \<Rightarrow> u64 list \<Rightarrow> nat \<Rightarrow> nat \<Rightarrow> nat \<Rightarrow> bool \<Rightarrow> (null_mask \<times> bool) res" where
  "copyFromNullBits m srcNullEntries srcOffset dstOffset numBitsToCopy invert =
     bindR (assertR (dstOffset + numBitsToCopy \<le> getNumNullBits (nullData m))) (\<lambda>_.
     bindR (copyNullMask srcNullEntries srcOffset (nullData m) dstOffset numBitsToCopy invert)
       (\<lambda>(d, any).
     if any then Inr (m\<lparr>nullData := d, mayContainNulls := True\<rparr>, True)
     else Inr (m\<lparr>nullData := d\<rparr>, False)))"

definition setNullFromRange :: "null_mask \<Rightarrow> nat \<Rightarrow> nat \<Rightarrow> bool \<Rightarrow> null_mask res" where
  "setNullFromRange m offset numBitsToSet null =
     (let m = (if null then m\<lparr>mayContainNulls := True\<rparr> else m) in
      bindR (assertR (offset + numBitsToSet \<le> getNumNullBits (nullData m))) (\<lambda>_.
      bindR (setNullRange (nullData m) offset numBitsToSet null) (\<lambda>d.
      Inr (m\<lparr>nullData := d\<rparr>))))"

definition copyFrom ::
  "null_mask \<Rightarrow> null_mask \<Rightarrow> nat \<Rightarrow> nat \<Rightarrow> nat \<Rightarrow> bool \<Rightarrow> (null_mask \<times> bool) res" where
  "copyFrom m nullMask srcOffset dstOffset numBitsToCopy invert =
     (if hasNoNullsGuarantee nullMask then
        bindR (setNullFromRange m dstOffset numBitsToCopy invert) (\<lambda>m. Inr (m, invert))
      else copyFromNullBits m (nullData nullMask) srcOffset dstOffset numBitsToCopy invert)"

text \<open>
  \<^verbatim>\<open>resize\<close> copies all old entries into the new buffer, so a smaller capacity
  writes past its end.
\<close>

definition resize :: "null_mask \<Rightarrow> nat \<Rightarrow> null_mask res" where
  "resize m capacity =
     (let numNullEntries = (capacity + NUM_BITS_PER_NULL_ENTRY - 1) div NUM_BITS_PER_NULL_ENTRY in
      if length (nullData m) \<le> numNullEntries
      then Inr (m\<lparr>nullData := nullData m @ replicate (numNullEntries - length (nullData m)) 0\<rparr>)
      else Inl OutOfBounds)"

definition orAssign :: "null_mask \<Rightarrow> null_mask \<Rightarrow> null_mask res" where
  "orAssign m other =
     bindR (assertR (length (nullData other) = length (nullData m))) (\<lambda>_.
     bindR (foldR (\<lambda>i d. bindR (nthR d i) (\<lambda>a. bindR (nthR (nullData other) i) (\<lambda>b. updR d i (a OR b))))
              [0..<length (nullData m)] (nullData m)) (\<lambda>d.
     Inr (m\<lparr>nullData := d\<rparr>)))"

definition countNulls :: "null_mask \<Rightarrow> nat" where
  "countNulls m = foldl (\<lambda>sum entry. sum + popcount entry) 0 (nullData m)"

section \<open>The tables hold the masks they are named after\<close>

lemma upt_64: "[0..<64] =
    [0, 1, 2, 3, 4, 5, 6, 7, 8, 9, 10, 11, 12, 13, 14, 15, 16, 17, 18, 19, 20, 21, 22, 23, 24, 25,
     26, 27, 28, 29, 30, 31, 32, 33, 34, 35, 36, 37, 38, 39, 40, 41, 42, 43, 44, 45, 46, 47, 48, 49,
     50, 51, 52, 53, 54, 55, 56, 57, 58, 59, 60, 61, 62, 63 :: nat]"
  by code_simp

lemma single_one_table: "NULL_BITMASKS_WITH_SINGLE_ONE = map (\<lambda>i. push_bit i 1) [0..<64]"
  by (simp add: NULL_BITMASKS_WITH_SINGLE_ONE_def upt_64)

lemma single_zero_table: "NULL_BITMASKS_WITH_SINGLE_ZERO = map (\<lambda>i. NOT (push_bit i 1)) [0..<64]"
  by (simp add: NULL_BITMASKS_WITH_SINGLE_ZERO_def upt_64)

lemma lower_table: "NULL_LOWER_MASKS = map mask ([0..<64] @ [64])"
  by (simp add: NULL_LOWER_MASKS_def upt_64 mask_eq_exp_minus_1)

lemma high_table: "NULL_HIGH_MASKS = map (\<lambda>i. NOT (mask (64 - i))) ([0..<64] @ [64])"
  by (simp add: NULL_HIGH_MASKS_def upt_64 mask_eq_exp_minus_1)

lemma nth_upt_65: "i \<le> 64 \<Longrightarrow> ([0..<64] @ [64]) ! i = i"
  by (cases "i < 64") (simp_all add: nth_append)

lemma bit_single_one [simp]:
  "i < 64 \<Longrightarrow> bit (NULL_BITMASKS_WITH_SINGLE_ONE ! i) j \<longleftrightarrow> j = i"
  by (auto simp: single_one_table bit_simps)

lemma bit_single_zero [simp]:
  "i < 64 \<Longrightarrow> bit (NULL_BITMASKS_WITH_SINGLE_ZERO ! i) j \<longleftrightarrow> j < 64 \<and> j \<noteq> i"
  by (auto simp: single_zero_table bit_simps)

lemma bit_lower_mask [simp]: "i \<le> 64 \<Longrightarrow> bit (NULL_LOWER_MASKS ! i) j \<longleftrightarrow> j < i"
  by (auto simp: lower_table nth_upt_65 bit_simps simp del: map_append)

lemma bit_high_mask [simp]:
  "i \<le> 64 \<Longrightarrow> bit (NULL_HIGH_MASKS ! i) j \<longleftrightarrow> 64 - i \<le> j \<and> j < 64"
  by (auto simp: high_table nth_upt_65 bit_simps simp del: map_append)

section \<open>Bit by bit\<close>

text \<open>The null bit at a position, and the positions an operation leaves as they are.\<close>

definition nullbit :: "u64 list \<Rightarrow> nat \<Rightarrow> bool" where
  "nullbit xs p = bit (xs ! (p div 64)) (p mod 64)"

lemma getNullEntryAndBitPos_eq [simp]: "getNullEntryAndBitPos p = (p div 64, p mod 64)"
  by (simp add: getNullEntryAndBitPos_def Let_def drop_bit_eq_div push_bit_eq_mult
      minus_div_mult_eq_mod)

lemma entry_pos_less: "p < 64 * n \<Longrightarrow> p div 64 < n" for p :: nat
  by (simp add: less_mult_imp_div_less mult.commute)

lemma take_bit_32_small: "p < 2 ^ 32 \<Longrightarrow> take_bit 32 p = p" for p :: nat
  by (simp add: take_bit_nat_eq_self)

lemma and_single_one_nonzero [simp]:
  "i < 64 \<Longrightarrow> (e AND NULL_BITMASKS_WITH_SINGLE_ONE ! i = 0) \<longleftrightarrow> \<not> bit e i" for e :: u64
  by (auto simp: bit_eq_iff [of _ "0 :: u64"] bit_simps)

lemma isNull_static_eq:
  assumes "p < 64 * length xs" "p < 2 ^ 32"
  shows "isNull_static xs p = Inr (nullbit xs p)"
  using assms by (simp add: isNull_static_def take_bit_32_small entry_pos_less nullbit_def)

lemma nullbit_update:
  "p div 64 < length xs \<Longrightarrow>
     nullbit (xs[i := e]) p = (if p div 64 = i then bit e (p mod 64) else nullbit xs p)"
  by (simp add: nullbit_def nth_list_update)

lemma setNull_static_ok:
  assumes "p < 64 * length xs" "p < 2 ^ 32"
  shows "\<exists>ys. setNull_static xs p b = Inr ys \<and> length ys = length xs \<and>
           (\<forall>q < 64 * length xs. nullbit ys q = (if q = p then b else nullbit xs q))"
proof -
  let ?e = "xs ! (p div 64)"
  let ?w = "if b then ?e OR NULL_BITMASKS_WITH_SINGLE_ONE ! (p mod 64)
            else ?e AND NULL_BITMASKS_WITH_SINGLE_ZERO ! (p mod 64)"
  have "setNull_static xs p b = Inr (xs[p div 64 := ?w])"
    using assms
    by (simp add: setNull_static_def Let_def take_bit_32_small entry_pos_less drop_bit_eq_div
        push_bit_eq_mult minus_div_mult_eq_mod)
  moreover have "nullbit (xs[p div 64 := ?w]) q = (if q = p then b else nullbit xs q)"
    if "q < 64 * length xs" for q
  proof (cases "q div 64 = p div 64")
    case True
    then have "q = p \<longleftrightarrow> q mod 64 = p mod 64"
      by (metis div_mult_mod_eq)
    with True that show ?thesis
      by (auto simp: nullbit_update entry_pos_less bit_simps nullbit_def)
  next
    case False
    with that show ?thesis by (auto simp: nullbit_update entry_pos_less)
  qed
  ultimately show ?thesis by auto
qed

subsection \<open>Copying\<close>

lemma copyUnaligned_part_positions:
  assumes "copyUnaligned_part e rest sE sB dE dB = (num, e', sE', sB', dE', dB')"
    and "0 < rest" "sB < 64" "dB < 64"
  shows "0 < num" "num \<le> rest" "dB + num \<le> 64" "sB + num \<le> 64" "sB' < 64" "dB' < 64"
    and "num < rest \<Longrightarrow> 64 * sE' + sB' = 64 * sE + sB + num"
    and "num < rest \<Longrightarrow> 64 * dE' + dB' = 64 * dE + dB + num"
  using assms
  by (auto simp: copyUnaligned_part_def Let_def min_def split: if_splits)

lemma copyUnaligned_part_bits:
  assumes "copyUnaligned_part e rest sE sB dE dB = (num, e', sE', sB', dE', dB')"
    and "0 < rest" "sB < 64" "dB < 64"
  shows "bit e' (dB + k) \<longleftrightarrow> k < num \<and> bit e (sB + k)" and "j < dB \<Longrightarrow> \<not> bit e' j"
proof -
  have pos: "dB + num \<le> 64" "sB + num \<le> 64"
    using copyUnaligned_part_positions [OF assms] by auto
  consider (lt) "dB < sB" | (gt) "sB < dB" | (eq) "dB = sB" by linarith
  then have "(bit e' (dB + k) \<longleftrightarrow> k < num \<and> bit e (sB + k)) \<and> (j < dB \<longrightarrow> \<not> bit e' j)"
  proof cases
    case lt
    then have "e' = drop_bit (sB - dB) (e AND NOT (NULL_HIGH_MASKS ! (64 - (sB + num))))
        AND NOT (NULL_LOWER_MASKS ! dB)"
      using assms by (auto simp: copyUnaligned_part_def Let_def)
    with lt pos assms show ?thesis
      by (auto simp: bit_simps dest: bit_imp_le_length)
  next
    case gt
    then have "e' = push_bit (dB - sB) (e AND NOT (NULL_LOWER_MASKS ! sB))
        AND NOT (NULL_HIGH_MASKS ! (64 - (dB + num)))"
      using assms by (auto simp: copyUnaligned_part_def Let_def)
    with gt pos assms show ?thesis
      by (auto simp: bit_simps ac_simps dest: bit_imp_le_length)
  next
    case eq
    then have "e' = (e AND NOT (NULL_LOWER_MASKS ! sB)) AND NOT (NULL_HIGH_MASKS ! (64 - (dB + num)))"
      using assms by (auto simp: copyUnaligned_part_def Let_def)
    with eq pos assms show ?thesis
      by (auto simp: bit_simps dest: bit_imp_le_length)
  qed
  then show "bit e' (dB + k) \<longleftrightarrow> k < num \<and> bit e (sB + k)" and "j < dB \<Longrightarrow> \<not> bit e' j"
    by auto
qed

lemma nullbit_at: "b < 64 \<Longrightarrow> nullbit xs (64 * e + b) = bit (xs ! e) b"
  by (simp add: nullbit_def)

text \<open>Writing the taken bits into the destination entry changes exactly their positions.\<close>

lemma copyUnaligned_write:
  assumes part: "copyUnaligned_part (if invert then NOT (src ! sE) else src ! sE) rest sE sB dE dB
      = (num, e, sE', sB', dE', dB')"
    and bounds: "0 < rest" "sB < 64" "dB < 64" "dE < length dst"
    and p: "p < 64 * length dst"
  defines "d \<equiv> (dst ! dE AND NOT (push_bit dB (NULL_LOWER_MASKS ! num))) OR e"
  shows "nullbit (dst[dE := d]) p =
    (if 64 * dE + dB \<le> p \<and> p < 64 * dE + dB + num
     then nullbit src (64 * sE + sB + (p - (64 * dE + dB))) \<noteq> invert else nullbit dst p)"
proof -
  note pos = copyUnaligned_part_positions [OF part bounds(1-3)]
  note bits = copyUnaligned_part_bits [OF part bounds(1-3)]
  show ?thesis
  proof (cases "p div 64 = dE")
    case False
    then have "\<not> (64 * dE + dB \<le> p \<and> p < 64 * dE + dB + num)"
      using pos(3) by auto
    with False p show ?thesis by (auto simp: nullbit_update entry_pos_less)
  next
    case True
    define b where "b = p mod 64"
    have b: "b < 64" "p = 64 * dE + b" using True by (auto simp: b_def)
    have "nullbit (dst[dE := d]) p = bit d b"
      using p True by (simp add: nullbit_update entry_pos_less b_def)
    also have "\<dots> = (if dB \<le> b \<and> b < dB + num then bit (src ! sE) (sB + (b - dB)) \<noteq> invert
        else bit (dst ! dE) b)"
    proof (cases "dB \<le> b")
      case False
      then show ?thesis using bits(2) b by (auto simp: d_def bit_simps)
    next
      case True
      then have "bit e b \<longleftrightarrow> b - dB < num \<and> bit (if invert then NOT (src ! sE) else src ! sE) (sB + (b - dB))"
        using bits(1) [of "b - dB"] by simp
      with True b pos show ?thesis by (auto simp: d_def bit_simps)
    qed
    also have "\<dots> = (if 64 * dE + dB \<le> p \<and> p < 64 * dE + dB + num
        then nullbit src (64 * sE + sB + (p - (64 * dE + dB))) \<noteq> invert else nullbit dst p)"
    proof (cases "dB \<le> b \<and> b < dB + num")
      case True
      then have "64 * sE + sB + (p - (64 * dE + dB)) = 64 * sE + (sB + (b - dB))"
        and "sB + (b - dB) < 64"
        using b pos(4) by auto
      with True b show ?thesis by (auto simp only: nullbit_at) auto
    next
      case False
      with b show ?thesis by (auto simp: nullbit_at)
    qed
    finally show ?thesis .
  qed
qed

lemma copyUnaligned_part_zero:
  assumes part: "copyUnaligned_part (if invert then NOT (src ! sE) else src ! sE) rest sE sB dE dB
      = (num, e, sE', sB', dE', dB')"
    and bounds: "0 < rest" "sB < 64" "dB < 64"
  shows "e \<noteq> 0 \<longleftrightarrow> (\<exists>k < num. nullbit src (64 * sE + sB + k) \<noteq> invert)"
proof -
  note pos = copyUnaligned_part_positions [OF part bounds]
  note bits = copyUnaligned_part_bits [OF part bounds]
  have "e \<noteq> 0 \<longleftrightarrow> (\<exists>j. bit e j)"
    using bit_imp_le_length [of e] by (force simp: bit_eq_iff)
  also have "\<dots> \<longleftrightarrow> (\<exists>k. bit e (dB + k))"
    using bits(2) by (metis le_add_diff_inverse not_le)
  also have "\<dots> \<longleftrightarrow> (\<exists>k < num. nullbit src (64 * sE + sB + k) \<noteq> invert)"
    using pos(4) by (auto simp: bits(1) nullbit_at add.assoc bit_simps)
  finally show ?thesis .
qed

lemma copyUnaligned_loop_spec:
  assumes "srcOff + n \<le> 64 * length src" "dstOff + n \<le> 64 * length dst"
    and "sB < 64" "dB < 64" "bitPos \<le> n"
    and "bitPos < n \<Longrightarrow> 64 * sE + sB = srcOff + bitPos"
    and "bitPos < n \<Longrightarrow> 64 * dE + dB = dstOff + bitPos"
  shows "\<exists>dst'. copyUnaligned_loop src n invert bitPos h sE sB dE dB dst =
      Inr (dst', h \<or> (\<exists>k. bitPos \<le> k \<and> k < n \<and> nullbit src (srcOff + k) \<noteq> invert)) \<and>
    length dst' = length dst \<and>
    (\<forall>p < 64 * length dst. nullbit dst' p =
      (if dstOff + bitPos \<le> p \<and> p < dstOff + n then nullbit src (srcOff + (p - dstOff)) \<noteq> invert
       else nullbit dst p))"
  using assms
proof (induction "n - bitPos" arbitrary: bitPos h sE sB dE dB dst rule: less_induct)
  case less
  show ?case
  proof (cases "bitPos < n")
    case False
    with less.prems show ?thesis by (auto simp: copyUnaligned_loop.simps)
  next
    case True
    define entry where "entry = (if invert then NOT (src ! sE) else src ! sE)"
    obtain num e sE' sB' dE' dB' where
      part: "copyUnaligned_part entry (n - bitPos) sE sB dE dB = (num, e, sE', sB', dE', dB')"
      by (metis prod_cases6)
    have at: "64 * sE + sB = srcOff + bitPos" "64 * dE + dB = dstOff + bitPos"
      using less.prems True by auto
    have inE: "sE < length src" "dE < length dst"
      using at less.prems(1,2) True by auto
    note pos = copyUnaligned_part_positions [OF part _ less.prems(3,4)]
    have num: "0 < num" "num \<le> n - bitPos" using pos(1,2) True by auto
    define d where "d = (dst ! dE AND NOT (push_bit dB (NULL_LOWER_MASKS ! num))) OR e"
    define dst1 where "dst1 = dst[dE := d]"
    have step: "copyUnaligned_loop src n invert bitPos h sE sB dE dB dst =
        copyUnaligned_loop src n invert (bitPos + num) (h \<or> e \<noteq> 0) sE' sB' dE' dB' dst1"
      using True inE part
      by (subst copyUnaligned_loop.simps) (auto simp: entry_def d_def dst1_def Let_def)
    have written: "nullbit dst1 p = (if dstOff + bitPos \<le> p \<and> p < dstOff + bitPos + num
          then nullbit src (srcOff + (p - dstOff)) \<noteq> invert else nullbit dst p)"
      if "p < 64 * length dst" for p
      using copyUnaligned_write [OF part [unfolded entry_def] _ less.prems(3,4) inE(2) that] True
      by (simp add: at d_def dst1_def)
    have zero: "e \<noteq> 0 \<longleftrightarrow> (\<exists>k < num. nullbit src (srcOff + bitPos + k) \<noteq> invert)"
      using copyUnaligned_part_zero [OF part [unfolded entry_def] _ less.prems(3,4)] True
      by (simp add: at)
    have len: "length dst1 = length dst" by (simp add: dst1_def)
    have "\<exists>dst'. copyUnaligned_loop src n invert (bitPos + num) (h \<or> e \<noteq> 0) sE' sB' dE' dB' dst1 =
        Inr (dst', (h \<or> e \<noteq> 0) \<or>
          (\<exists>k. bitPos + num \<le> k \<and> k < n \<and> nullbit src (srcOff + k) \<noteq> invert)) \<and>
      length dst' = length dst1 \<and>
      (\<forall>p < 64 * length dst1. nullbit dst' p =
        (if dstOff + (bitPos + num) \<le> p \<and> p < dstOff + n then nullbit src (srcOff + (p - dstOff)) \<noteq> invert
         else nullbit dst1 p))"
      using less.prems num True pos by (intro less.hyps) (auto simp: len at)
    then obtain dst' where rest:
        "copyUnaligned_loop src n invert (bitPos + num) (h \<or> e \<noteq> 0) sE' sB' dE' dB' dst1 =
         Inr (dst', (h \<or> e \<noteq> 0) \<or>
          (\<exists>k. bitPos + num \<le> k \<and> k < n \<and> nullbit src (srcOff + k) \<noteq> invert))"
        "length dst' = length dst"
        "\<And>p. p < 64 * length dst \<Longrightarrow> nullbit dst' p =
          (if dstOff + (bitPos + num) \<le> p \<and> p < dstOff + n then nullbit src (srcOff + (p - dstOff)) \<noteq> invert
           else nullbit dst1 p)"
      by (auto simp: len)
    have flag: "(h \<or> e \<noteq> 0) \<or> (\<exists>k. bitPos + num \<le> k \<and> k < n \<and> nullbit src (srcOff + k) \<noteq> invert)
      \<longleftrightarrow> h \<or> (\<exists>k. bitPos \<le> k \<and> k < n \<and> nullbit src (srcOff + k) \<noteq> invert)"
      using ex_range_split [of bitPos num n "\<lambda>k. nullbit src (srcOff + k) \<noteq> invert"] num True
      by (auto simp: zero add.assoc)
    have "copyUnaligned_loop src n invert bitPos h sE sB dE dB dst =
        Inr (dst', h \<or> (\<exists>k. bitPos \<le> k \<and> k < n \<and> nullbit src (srcOff + k) \<noteq> invert))"
      unfolding step rest(1) by (simp only: flag)
    moreover have "nullbit dst' p = (if dstOff + bitPos \<le> p \<and> p < dstOff + n
        then nullbit src (srcOff + (p - dstOff)) \<noteq> invert else nullbit dst p)"
      if "p < 64 * length dst" for p
      using that num True by (auto simp: rest(3) written)
    ultimately show ?thesis using rest(2) by blast
  qed
qed

text \<open>
  The effect every copy has: the bits of the destination range are the (possibly inverted)
  bits of the source range, no other bit changes.
\<close>

definition copiedBits ::
  "u64 list \<Rightarrow> nat \<Rightarrow> u64 list \<Rightarrow> nat \<Rightarrow> nat \<Rightarrow> bool \<Rightarrow> u64 list \<Rightarrow> bool" where
  "copiedBits src srcOff dst dstOff n invert dst' \<longleftrightarrow>
     length dst' = length dst \<and>
     (\<forall>p < 64 * length dst. nullbit dst' p =
       (if dstOff \<le> p \<and> p < dstOff + n then nullbit src (srcOff + (p - dstOff)) \<noteq> invert
        else nullbit dst p))"

lemma copyUnaligned_ok:
  assumes "srcOff + n \<le> 64 * length src" "dstOff + n \<le> 64 * length dst"
  shows "\<exists>dst'. copyUnaligned src srcOff dst dstOff n invert =
      Inr (dst', \<exists>k < n. nullbit src (srcOff + k) \<noteq> invert) \<and>
    copiedBits src srcOff dst dstOff n invert dst'"
  using copyUnaligned_loop_spec [OF assms, of "srcOff mod 64" "dstOff mod 64" 0
      "srcOff div 64" "dstOff div 64" invert False]
  by (auto simp: copyUnaligned_def copiedBits_def)

lemma copiedBits_trans:
  assumes "copiedBits src s dst d n invert dst1" "copiedBits src (s + n) dst1 (d + n) m invert dst2"
  shows "copiedBits src s dst d (n + m) invert dst2"
  using assms by (auto simp: copiedBits_def)

lemma byte_position: "i < 8 \<Longrightarrow> nullbit xs (8 * k + i) = bit (xs ! (k div 8)) (8 * (k mod 8) + i)"
proof -
  assume "i < 8"
  moreover have "8 * k + i = 64 * (k div 8) + (8 * (k mod 8) + i)"
    using div_mult_mod_eq [of k 8] by linarith
  moreover have "8 * (k mod 8) + i < 64"
    using \<open>i < 8\<close> mod_less_divisor [of 8 k] by linarith
  ultimately show ?thesis by (simp only: nullbit_at)
qed

lemma readByte_ok:
  assumes "k < 8 * length xs"
  shows "\<exists>b. readByte xs k = Inr b \<and> (\<forall>i < 8. bit b i = nullbit xs (8 * k + i))"
proof -
  have "k div 8 < length xs" using assms by (simp add: less_mult_imp_div_less mult.commute)
  then show ?thesis by (auto simp: readByte_def byte_position bit_simps)
qed

lemma mask_8: "(255 :: u64) = mask 8"
  by (simp add: mask_eq_exp_minus_1)

lemma writeByte_ok:
  assumes k: "k < 8 * length xs"
  shows "\<exists>ys. writeByte xs k b = Inr ys \<and> length ys = length xs \<and>
    (\<forall>p < 64 * length xs. nullbit ys p =
      (if 8 * k \<le> p \<and> p < 8 * k + 8 then bit b (p - 8 * k) else nullbit xs p))"
proof -
  define m where "m = 8 * (k mod 8)"
  define e where "e = (xs ! (k div 8) AND NOT (push_bit m 255)) OR push_bit m (ucast b)"
  have in_range: "k div 8 < length xs" using k by (simp add: less_mult_imp_div_less mult.commute)
  have "writeByte xs k b = Inr (xs[k div 8 := e])"
    using in_range by (simp add: writeByte_def e_def m_def)
  moreover have "nullbit (xs[k div 8 := e]) p =
      (if 8 * k \<le> p \<and> p < 8 * k + 8 then bit b (p - 8 * k) else nullbit xs p)"
    if "p < 64 * length xs" for p
  proof (cases "p div 64 = k div 8")
    case False
    then have "\<not> (8 * k \<le> p \<and> p < 8 * k + 8)" by linarith
    with False that show ?thesis by (auto simp: nullbit_update entry_pos_less)
  next
    case True
    define j where "j = p mod 64"
    have p: "p = 64 * (k div 8) + j" "j < 64" using div_mult_mod_eq [of p 64] True by (simp_all add: j_def)
    have k8: "8 * k = 64 * (k div 8) + m"
      using div_mult_mod_eq [of k 8] unfolding m_def by linarith
    have "nullbit (xs[k div 8 := e]) p = bit e j"
      using True that by (simp add: nullbit_update entry_pos_less j_def)
    also have "\<dots> = (if m \<le> j \<and> j < m + 8 then bit b (j - m) else bit (xs ! (k div 8)) j)"
      using p(2) bit_imp_le_length [of b "j - m"] unfolding e_def mask_8 by (auto simp: bit_simps)
    finally show ?thesis
      using p k8 by (auto simp: nullbit_at)
  qed
  ultimately show ?thesis by auto
qed

lemma memcpyBytes_ok:
  assumes "srcByte + n \<le> 8 * length src" "dstByte + n \<le> 8 * length dst"
  shows "\<exists>dst'. memcpyBytes dst dstByte src srcByte n = Inr dst' \<and>
    copiedBits src (8 * srcByte) dst (8 * dstByte) (8 * n) False dst'"
  unfolding memcpyBytes_def
proof (rule foldR_upt_invariant [where
      I = "\<lambda>k d. copiedBits src (8 * srcByte) dst (8 * dstByte) (8 * k) False d"])
  show "copiedBits src (8 * srcByte) dst (8 * dstByte) (8 * 0) False dst"
    by (auto simp: copiedBits_def)
next
  fix k d
  assume k: "k < n" and inv: "copiedBits src (8 * srcByte) dst (8 * dstByte) (8 * k) False d"
  have len: "length d = length dst" using inv by (simp add: copiedBits_def)
  obtain b where b: "readByte src (srcByte + k) = Inr b"
      "\<And>i. i < 8 \<Longrightarrow> bit b i = nullbit src (8 * (srcByte + k) + i)"
    using readByte_ok [of "srcByte + k" src] assms k by auto
  obtain d' where d': "writeByte d (dstByte + k) b = Inr d'" "length d' = length d"
      "\<And>p. p < 64 * length d \<Longrightarrow> nullbit d' p =
        (if 8 * (dstByte + k) \<le> p \<and> p < 8 * (dstByte + k) + 8 then bit b (p - 8 * (dstByte + k))
         else nullbit d p)"
    using writeByte_ok [of "dstByte + k" d b] assms k len by auto
  have "copiedBits src (8 * srcByte + 8 * k) d (8 * dstByte + 8 * k) 8 False d'"
    using d' b(2) by (auto simp: copiedBits_def distrib_left)
  with inv have "copiedBits src (8 * srcByte) dst (8 * dstByte) (8 * Suc k) False d'"
    using copiedBits_trans [of src "8 * srcByte" dst "8 * dstByte" "8 * k" False d 8 d']
    by (simp add: add.commute)
  with b d' show "\<exists>s'. bindR (readByte src (srcByte + k)) (writeByte d (dstByte + k)) = Inr s' \<and>
      copiedBits src (8 * srcByte) dst (8 * dstByte) (8 * Suc k) False s'"
    by simp
qed simp

lemma ex_less_add: "(\<exists>k < m. P k) \<or> (\<exists>k < n. P (m + k)) \<longleftrightarrow> (\<exists>k < m + n. P k)" for m n :: nat
  by (metis le_add_diff_inverse nat_add_left_cancel_less not_le trans_less_add1)

lemma ex_byte_split:
  "(\<exists>i < 8. nullbit src (8 * byte + i)) \<or> (\<exists>k < 8 * n. nullbit src (8 * (byte + 1) + k))
    \<longleftrightarrow> (\<exists>k < 8 * Suc n. nullbit src (8 * byte + k))"
  using ex_less_add [of 8 "\<lambda>k. nullbit src (8 * byte + k)" "8 * n"]
  by (simp add: distrib_left add.assoc add.left_commute)

lemma anyByteSet_ok:
  assumes "srcByte + n \<le> 8 * length src"
  shows "anyByteSet src srcByte n = Inr (\<exists>k < 8 * n. nullbit src (8 * srcByte + k))"
  using assms
proof (induction src srcByte n rule: anyByteSet.induct)
  case (1 src srcByte)
  then show ?case by simp
next
  case (2 src srcByte n)
  obtain b where b: "readByte src srcByte = Inr b"
      "\<And>i. i < 8 \<Longrightarrow> bit b i = nullbit src (8 * srcByte + i)"
    using readByte_ok [of srcByte src] 2 by auto
  have "b \<noteq> 0 \<longleftrightarrow> (\<exists>i < 8. nullbit src (8 * srcByte + i))"
    using b(2) bit_imp_le_length [of b] by (force simp: bit_eq_iff)
  moreover have "anyByteSet src (srcByte + 1) n =
      Inr (\<exists>k < 8 * n. nullbit src (8 * (srcByte + 1) + k))" if "b = 0"
    using "2.IH" [OF b(1)] that "2.prems" by simp
  moreover have "(\<exists>i < 8. nullbit src (8 * srcByte + i))
      \<or> (\<exists>k < 8 * n. nullbit src (8 * (srcByte + 1) + k))
      \<longleftrightarrow> (\<exists>k < 8 * Suc n. nullbit src (8 * srcByte + k))"
    by (rule ex_byte_split)
  ultimately show ?case using b(1) by auto
qed

lemma copiedBits_length: "copiedBits src s dst d n invert dst' \<Longrightarrow> length dst' = length dst"
  by (simp add: copiedBits_def)

lemma copyNullMask_few:
  assumes "srcOff + n \<le> 64 * length src" "dstOff + n \<le> 64 * length dst"
    and "64 * length src \<le> 2 ^ 32" "64 * length dst \<le> 2 ^ 32"
  shows "\<exists>st. foldR (\<lambda>i (dst, anyNull).
          bindR (isNull_static src (srcOff + i)) (\<lambda>null.
          bindR (setNull_static dst (dstOff + i) (null \<noteq> invert)) (\<lambda>dst.
          Inr (dst, anyNull \<or> null)))) [0..<n] (dst, False) = Inr st \<and>
      copiedBits src srcOff dst dstOff n invert (fst st) \<and>
      snd st = (\<exists>k < n. nullbit src (srcOff + k))"
proof (rule foldR_upt_invariant [where I = "\<lambda>i st. copiedBits src srcOff dst dstOff i invert (fst st)
      \<and> snd st = (\<exists>k < i. nullbit src (srcOff + k))"])
  show "copiedBits src srcOff dst dstOff 0 invert (fst (dst, False))
      \<and> snd (dst, False) = (\<exists>k < 0. nullbit src (srcOff + k))"
    by (auto simp: copiedBits_def)
next
  fix i st
  assume i: "i < n" and inv: "copiedBits src srcOff dst dstOff i invert (fst st)
      \<and> snd st = (\<exists>k < i. nullbit src (srcOff + k))"
  let ?null = "nullbit src (srcOff + i)"
  have len: "length (fst st) = length dst" using inv by (simp add: copiedBits_def)
  have src: "isNull_static src (srcOff + i) = Inr ?null"
    using assms i by (intro isNull_static_eq) auto
  obtain d where d: "setNull_static (fst st) (dstOff + i) (?null \<noteq> invert) = Inr d"
      "length d = length dst" "\<And>q. q < 64 * length dst \<Longrightarrow>
        nullbit d q = (if q = dstOff + i then ?null \<noteq> invert else nullbit (fst st) q)"
    using setNull_static_ok [of "dstOff + i" "fst st" "?null \<noteq> invert"] assms i len by auto
  have "copiedBits src (srcOff + i) (fst st) (dstOff + i) 1 invert d"
    using d len by (auto simp: copiedBits_def)
  then have "copiedBits src srcOff dst dstOff (Suc i) invert d"
    using copiedBits_trans [of src srcOff dst dstOff i invert "fst st" 1 d] inv by simp
  moreover have "(snd st \<or> ?null) = (\<exists>k < Suc i. nullbit src (srcOff + k))"
    using inv by (auto simp: less_Suc_eq)
  ultimately show "\<exists>s'. (case st of (dst, anyNull) \<Rightarrow>
          bindR (isNull_static src (srcOff + i)) (\<lambda>null.
          bindR (setNull_static dst (dstOff + i) (null \<noteq> invert)) (\<lambda>dst.
          Inr (dst, anyNull \<or> null)))) = Inr s' \<and>
      copiedBits src srcOff dst dstOff (Suc i) invert (fst s') \<and>
      snd s' = (\<exists>k < Suc i. nullbit src (srcOff + k))"
    using src d(1) by (cases st) simp
qed simp

lemma alignedCopy_ok:
  assumes "srcOff + n \<le> 64 * length src" "dstOff + n \<le> 64 * length dst" "first \<le> n"
    and "(srcOff + first) mod 8 = 0" "(dstOff + first) mod 8 = 0"
  shows "\<exists>dst'. alignedCopy src srcOff dst dstOff n first =
      Inr (dst', \<exists>k < n - first. nullbit src (srcOff + first + k)) \<and>
    copiedBits src (srcOff + first) dst (dstOff + first) (n - first) False dst'"
proof -
  define sb db bytes where "sb = (srcOff + first) div 8" and "db = (dstOff + first) div 8"
    and "bytes = (n - first) div 8"
  define rest where "rest = n - first - bytes * 8"
  have pos: "srcOff + first = 8 * sb" "dstOff + first = 8 * db" "n - first = 8 * bytes + rest"
    using assms(4,5) by (auto simp: sb_def db_def bytes_def rest_def)
  have bound: "8 * sb + (8 * bytes + rest) \<le> 64 * length src"
      "8 * db + (8 * bytes + rest) \<le> 64 * length dst"
    using assms(1-3) pos by linarith+
  obtain d1 where d1: "memcpyBytes dst db src sb bytes = Inr d1"
      "copiedBits src (8 * sb) dst (8 * db) (8 * bytes) False d1"
    using memcpyBytes_ok [of sb bytes src db dst] bound by auto
  have any: "anyByteSet src sb bytes = Inr (\<exists>k < 8 * bytes. nullbit src (8 * sb + k))"
    using bound by (intro anyByteSet_ok) auto
  obtain d2 where d2: "copyUnaligned src (8 * sb + 8 * bytes) d1 (8 * db + 8 * bytes) rest False =
        Inr (d2, \<exists>k < rest. nullbit src (8 * sb + 8 * bytes + k))"
      "copiedBits src (8 * sb + 8 * bytes) d1 (8 * db + 8 * bytes) rest False d2"
    using copyUnaligned_ok [of "8 * sb + 8 * bytes" rest src "8 * db + 8 * bytes" d1 False]
      bound copiedBits_length [OF d1(2)] by auto
  have start: "srcOff + (first + bytes * 8) = 8 * sb + 8 * bytes"
      "dstOff + (first + bytes * 8) = 8 * db + 8 * bytes"
    using pos by linarith+
  have eq: "alignedCopy src srcOff dst dstOff n first =
      bindR (memcpyBytes dst db src sb bytes) (\<lambda>dst.
      bindR (anyByteSet src sb bytes) (\<lambda>inBytes.
      if rest > 0 then
        bindR (copyUnaligned src (8 * sb + 8 * bytes) dst (8 * db + 8 * bytes) rest False)
          (\<lambda>(dst, inLast). Inr (dst, inLast \<or> inBytes))
      else Inr (dst, inBytes)))"
    unfolding alignedCopy_def Let_def sb_def [symmetric] db_def [symmetric] bytes_def [symmetric]
      rest_def [symmetric] start ..
  show ?thesis
  proof (cases "rest = 0")
    case True
    then show ?thesis using eq d1 any pos by simp
  next
    case False
    have "(\<exists>k < rest. nullbit src (8 * sb + 8 * bytes + k)) \<or> (\<exists>k < 8 * bytes. nullbit src (8 * sb + k))
        \<longleftrightarrow> (\<exists>k < 8 * bytes + rest. nullbit src (8 * sb + k))"
      using ex_less_add [of "8 * bytes" "\<lambda>k. nullbit src (8 * sb + k)" rest] by (auto simp: add.assoc)
    then show ?thesis
      using False eq d1(1) any d2(1) copiedBits_trans [OF d1(2) d2(2)] pos by simp
  qed
qed

lemma byte_boundary: "(x + (8 - x mod 8)) mod 8 = 0" for x :: nat
  by presburger

lemma copyNullMask_aligned:
  assumes bounds: "srcOff + n \<le> 64 * length src" "dstOff + n \<le> 64 * length dst"
    and n: "3 < n" and aligned: "srcOff mod 8 = dstOff mod 8" "8 \<le> n" "8 \<le> n - srcOff mod 8"
  shows "\<exists>dst'. copyNullMask src srcOff dst dstOff n False =
      Inr (dst', \<exists>k < n. nullbit src (srcOff + k)) \<and> copiedBits src srcOff dst dstOff n False dst'"
proof (cases "srcOff = 0")
  case True
  then have "dstOff mod 8 = 0" using aligned by simp
  then show ?thesis
    using True n aligned alignedCopy_ok [of srcOff n src dstOff dst 0] bounds
    by (simp add: copyNullMask_def)
next
  case False
  define f where "f = 8 - srcOff mod 8"
  have f: "f \<le> n" using aligned(2) unfolding f_def by (rule order_trans [rotated]) simp
  have boundary: "(srcOff + f) mod 8 = 0" "(dstOff + f) mod 8 = 0"
    using aligned(1) byte_boundary [of srcOff] byte_boundary [of dstOff] by (simp_all add: f_def)
  obtain d1 where d1: "copyUnaligned src srcOff dst dstOff f False =
        Inr (d1, \<exists>k < f. nullbit src (srcOff + k))" "copiedBits src srcOff dst dstOff f False d1"
    using copyUnaligned_ok [of srcOff f src dstOff dst False] bounds f by auto
  obtain d2 where d2: "alignedCopy src srcOff d1 dstOff n f =
        Inr (d2, \<exists>k < n - f. nullbit src (srcOff + f + k))"
      "copiedBits src (srcOff + f) d1 (dstOff + f) (n - f) False d2"
    using alignedCopy_ok [of srcOff n src dstOff d1 f] bounds f boundary copiedBits_length [OF d1(2)] by auto
  have "(\<exists>k < n - f. nullbit src (srcOff + f + k)) \<or> (\<exists>k < f. nullbit src (srcOff + k))
      \<longleftrightarrow> (\<exists>k < n. nullbit src (srcOff + k))"
    using ex_less_add [of f "\<lambda>k. nullbit src (srcOff + k)" "n - f"] f
    by (auto simp: add.assoc)
  moreover have "copyNullMask src srcOff dst dstOff n False =
      bindR (copyUnaligned src srcOff dst dstOff f False) (\<lambda>(dst, inFirst).
      bindR (alignedCopy src srcOff dst dstOff n f) (\<lambda>(dst, inRest). Inr (dst, inRest \<or> inFirst)))"
    using False n aligned unfolding copyNullMask_def Let_def f_def by simp
  ultimately show ?thesis
    using copiedBits_trans [OF d1(2) d2(2)] f d1(1) d2(1) by simp
qed

lemma copyNullMask_copied:
  assumes "srcOff + n \<le> 64 * length src" "dstOff + n \<le> 64 * length dst"
    and "64 * length src \<le> 2 ^ 32" "64 * length dst \<le> 2 ^ 32"
  shows "\<exists>dst'. copyNullMask src srcOff dst dstOff n invert =
      Inr (dst', \<exists>k < n. nullbit src (srcOff + k) \<noteq> (invert \<and> 3 < n)) \<and>
    copiedBits src srcOff dst dstOff n invert dst'"
proof (cases "n \<le> 3")
  case True
  then show ?thesis using copyNullMask_few [OF assms] by (auto simp: copyNullMask_def)
next
  case False
  show ?thesis
  proof (cases "\<not> invert \<and> srcOff mod 8 = dstOff mod 8 \<and> 8 \<le> n \<and> 8 \<le> n - srcOff mod 8")
    case True
    then show ?thesis using copyNullMask_aligned [of srcOff n src dstOff dst] assms False by auto
  next
    case unaligned: False
    then show ?thesis
      using copyUnaligned_ok [OF assms(1,2), of invert] False by (auto simp: copyNullMask_def)
  qed
qed

text \<open>
  C39. Copying a range of null bits between two bitmaps is exact on every path
  (\<^verbatim>\<open>copyNullMask\<close> picks one by the length, the relative byte alignment and the
  inversion): each bit of the target range becomes the corresponding source bit, inverted if
  asked, every other bit of the target keeps its value and no access leaves the two buffers. The
  flag returned says whether a copied bit is null; for at most three bits it says whether a
  source bit is null, inverted or not.
\<close>

theorem copyNullMask_exact:
  assumes "srcOff + n \<le> 64 * length src" "dstOff + n \<le> 64 * length dst"
    and "64 * length src \<le> 2 ^ 32" "64 * length dst \<le> 2 ^ 32"
  shows "\<exists>dst'. copyNullMask src srcOff dst dstOff n invert =
      Inr (dst', \<exists>k < n. nullbit src (srcOff + k) \<noteq> (invert \<and> 3 < n)) \<and>
    length dst' = length dst \<and>
    (\<forall>p < 64 * length dst. nullbit dst' p = (if dstOff \<le> p \<and> p < dstOff + n
       then nullbit src (srcOff + (p - dstOff)) \<noteq> invert else nullbit dst p))"
  using copyNullMask_copied [OF assms, of invert] by (auto simp: copiedBits_def)

theorem copyNullMask_exact_witness:
  "\<exists>dst'. copyNullMask [5, 7] 3 [0, 0, 1] 11 80 False =
      Inr (dst', \<exists>k < 80. nullbit [5, 7] (3 + k) \<noteq> (False \<and> 3 < (80 :: nat))) \<and>
    length dst' = length [0, 0, 1 :: u64] \<and>
    (\<forall>p < 64 * length [0, 0, 1 :: u64]. nullbit dst' p = (if 11 \<le> p \<and> p < 11 + 80
       then nullbit [5, 7] (3 + (p - 11)) \<noteq> False else nullbit [0, 0, 1] p))"
  by (rule copyNullMask_exact) simp_all

section \<open>Ranges\<close>

lemma position_le:
  "b < 64 \<Longrightarrow> i < 64 \<Longrightarrow> 64 * e + b \<le> 64 * q + i \<longleftrightarrow> e < q \<or> e = q \<and> b \<le> i"
  "b < 64 \<Longrightarrow> i < 64 \<Longrightarrow> 64 * e + b < 64 * q + i \<longleftrightarrow> e < q \<or> e = q \<and> b < i" for e b q i :: nat
  by (cases e q rule: linorder_cases; simp; linarith)+

lemma setNullRange_bit:
  assumes n: "0 < n" and bound: "off + n \<le> 64 * length xs"
  shows "\<exists>ys. setNullRange xs off n b = Inr ys \<and> length ys = length xs \<and>
    (\<forall>p < 64 * length xs. nullbit ys p = (if off \<le> p \<and> p < off + n then b else nullbit xs p))"
proof -
  define fe fb le lb where "fe = off div 64" and "fb = off mod 64" and "le = (off + n) div 64"
    and "lb = (off + n) mod 64"
  have pos: "off = 64 * fe + fb" "off + n = 64 * le + lb" "fb < 64" "lb < 64"
    by (simp_all add: fe_def fb_def le_def lb_def)
  have fe_in: "fe < length xs" and le_in: "le \<le> length xs" "0 < lb \<Longrightarrow> le < length xs" and "fe \<le> le"
    using pos n bound by linarith+
  define mid where "mid = (if b then ALL_NULL_ENTRY else NO_NULL_ENTRY)"
  define zs where "zs = (if fe + 1 < le
      then map (\<lambda>k. if fe + 1 \<le> k \<and> k < le then mid else xs ! k) [0..<length xs] else xs)"
  define w1 where "w1 = (if b then xs ! fe OR NOT (NULL_LOWER_MASKS ! fb) else xs ! fe AND NULL_LOWER_MASKS ! fb)"
  define w0 where "w0 = (if b
      then xs ! fe OR (NOT (NULL_LOWER_MASKS ! fb) AND NOT (NULL_HIGH_MASKS ! (64 - lb)))
      else xs ! fe AND (NULL_LOWER_MASKS ! fb OR NULL_HIGH_MASKS ! (64 - lb)))"
  define w2 where "w2 = (if b then xs ! le OR NULL_LOWER_MASKS ! lb else xs ! le AND NOT (NULL_LOWER_MASKS ! lb))"
  have zs: "length zs = length xs" "zs ! fe = xs ! fe" "0 < lb \<Longrightarrow> zs ! le = xs ! le"
    "\<And>k. k < length xs \<Longrightarrow> zs ! k = (if fe < k \<and> k < le then mid else xs ! k)"
    using fe_in le_in by (auto simp: zs_def)
  have w: "bit w0 i = (if fb \<le> i \<and> i < lb then b else bit (xs ! fe) i)"
      "bit w1 i = (if fb \<le> i then b else bit (xs ! fe) i)"
      "bit w2 i = (if i < lb then b else bit (xs ! le) i)" "bit mid i = b" if "i < 64" for i
    using that pos(3,4)
    by (auto simp: w0_def w1_def w2_def mid_def ALL_NULL_ENTRY_def NO_NULL_ENTRY_def bit_simps)
  have fill: "(if le > fe + 1 then fillR xs (fe + 1) le mid else Inr xs) = Inr zs"
    using le_in(1) by (auto simp: zs_def fillR_in)
  show ?thesis
  proof (cases "fe = le")
    case True
    have "setNullRange xs off n b = Inr (zs[fe := w0])"
      using n fill True zs(1,2) fe_in unfolding setNullRange_def w0_def mid_def
      by (simp add: fe_def [symmetric] fb_def [symmetric] le_def [symmetric] lb_def [symmetric])
    moreover have "nullbit (zs[fe := w0]) p = (if off \<le> p \<and> p < off + n then b else nullbit xs p)"
      if "p < 64 * length xs" for p
    proof -
      define q i where "q = p div 64" and "i = p mod 64"
      have p: "p = 64 * q + i" "i < 64" "q < length xs"
        using that by (simp_all add: q_def i_def entry_pos_less)
      have "off \<le> p \<and> p < off + n \<longleftrightarrow> q = fe \<and> fb \<le> i \<and> i < lb"
        unfolding p(1) pos(2) unfolding pos(1) using p(2) pos(3,4) True by (auto simp: position_le)
      moreover have "zs ! q = xs ! q" using zs(4) [OF p(3)] True by (auto split: if_splits)
      ultimately show ?thesis
        using p(2,3) zs(1) w(1) [OF p(2)] True
        by (cases "q = fe") (auto simp: nullbit_def nth_list_update q_def [symmetric] i_def [symmetric])
    qed
    ultimately show ?thesis using zs(1) by auto
  next
    case False
    then have lt: "fe < le" using \<open>fe \<le> le\<close> by simp
    define ys where "ys = (if 0 < lb then zs[fe := w1, le := w2] else zs[fe := w1])"
    have "setNullRange xs off n b = Inr ys"
      using n fill lt zs(1-3) fe_in le_in(2) unfolding setNullRange_def w1_def w2_def mid_def ys_def
      by (simp add: fe_def [symmetric] fb_def [symmetric] le_def [symmetric] lb_def [symmetric])
    moreover have "nullbit ys p = (if off \<le> p \<and> p < off + n then b else nullbit xs p)"
      if "p < 64 * length xs" for p
    proof -
      define q i where "q = p div 64" and "i = p mod 64"
      have p: "p = 64 * q + i" "i < 64" "q < length xs"
        using that by (simp_all add: q_def i_def entry_pos_less)
      have "off \<le> p \<and> p < off + n \<longleftrightarrow>
          q = fe \<and> fb \<le> i \<or> fe < q \<and> q < le \<or> q = le \<and> i < lb"
        unfolding p(1) pos(2) unfolding pos(1) using p(2) pos(3,4) lt by (auto simp: position_le)
      then show ?thesis
        using p(2,3) zs(1) zs(4) [OF p(3)] w(2-4) [OF p(2)] lt
        by (cases "q = fe"; cases "q = le") (auto simp: nullbit_def ys_def nth_list_update q_def [symmetric] i_def [symmetric])
    qed
    ultimately show ?thesis using zs(1) by (auto simp: ys_def)
  qed
qed

text \<open>
  Setting a range writes the flag to every bit of the range and to no other bit, whether the
  range lies in one entry, ends at an entry boundary or spans several entries.
\<close>

theorem setNullRange_exact:
  assumes "off + n \<le> 64 * length xs"
  shows "\<exists>ys. setNullRange xs off n b = Inr ys \<and> length ys = length xs \<and>
    (\<forall>p < 64 * length xs. nullbit ys p = (if off \<le> p \<and> p < off + n then b else nullbit xs p))"
  using setNullRange_bit [of n off xs b] assms by (cases "n = 0") (auto simp: setNullRange_def)

theorem setNullRange_exact_witness:
  "\<exists>ys. setNullRange [3, 0, 9] 60 100 True = Inr ys \<and> length ys = length [3, 0, 9 :: u64] \<and>
    (\<forall>p < 64 * length [3, 0, 9 :: u64]. nullbit ys p =
       (if 60 \<le> p \<and> p < 60 + 100 then True else nullbit [3, 0, 9] p))"
  by (rule setNullRange_exact) simp

section \<open>Minimum and maximum of a range of bits\<close>

lemma nullbit_drop: "nullbit (drop k xs) p = nullbit xs (64 * k + p)" if "64 * k + p < 64 * length xs"
proof -
  have "(64 * k + p) div 64 = k + p div 64" "(64 * k + p) mod 64 = p mod 64" by simp_all
  moreover have "k + p div 64 < length xs" using that entry_pos_less [of "64 * k + p"] by simp
  ultimately show ?thesis by (simp add: nullbit_def)
qed

lemma masked_zero: "(e AND m = 0) \<longleftrightarrow> (\<forall>i < 64. bit m i \<longrightarrow> \<not> bit e i)" for e m :: u64
  using bit_imp_le_length [of e] by (force simp: bit_eq_iff [of _ "0 :: u64"] bit_simps)

lemma masked_full: "(e AND m = m) \<longleftrightarrow> (\<forall>i < 64. bit m i \<longrightarrow> bit e i)" for e m :: u64
  using bit_imp_le_length [of m] by (force simp: bit_eq_iff [of _ m] bit_simps)

text \<open>All bits, some bit of a range.\<close>

definition allBits :: "u64 list \<Rightarrow> nat \<Rightarrow> nat \<Rightarrow> bool" where
  "allBits xs i j \<longleftrightarrow> (\<forall>p \<in> {i..<j}. nullbit xs p)"

definition someBit :: "u64 list \<Rightarrow> nat \<Rightarrow> nat \<Rightarrow> bool" where
  "someBit xs i j \<longleftrightarrow> (\<exists>p \<in> {i..<j}. nullbit xs p)"

lemma bits_split:
  assumes "i \<le> j" "j \<le> k"
  shows "allBits xs i k \<longleftrightarrow> allBits xs i j \<and> allBits xs j k"
    and "someBit xs i k \<longleftrightarrow> someBit xs i j \<or> someBit xs j k"
  unfolding allBits_def someBit_def ivl_disj_un_two(3) [OF assms, symmetric] by auto

lemma bits_nonempty: "i < j \<Longrightarrow> allBits xs i j \<Longrightarrow> someBit xs i j"
  by (auto simp: allBits_def someBit_def)

lemma entry_bits:
  assumes "\<And>i. i < 64 \<Longrightarrow> bit m i \<longleftrightarrow> lo \<le> i \<and> i < hi" "hi \<le> 64"
  shows "(xs ! e AND m = 0) \<longleftrightarrow> \<not> someBit xs (64 * e + lo) (64 * e + hi)"
    and "(xs ! e AND m = m) \<longleftrightarrow> allBits xs (64 * e + lo) (64 * e + hi)"
proof -
  have "{64 * e + lo..<64 * e + hi} = (\<lambda>i. 64 * e + i) ` {lo..<hi}"
    by (simp add: add.commute)
  then have "someBit xs (64 * e + lo) (64 * e + hi) \<longleftrightarrow> (\<exists>i \<in> {lo..<hi}. bit (xs ! e) i)"
    "allBits xs (64 * e + lo) (64 * e + hi) \<longleftrightarrow> (\<forall>i \<in> {lo..<hi}. bit (xs ! e) i)"
    using assms(2) by (simp_all only: someBit_def allBits_def) (auto simp: nullbit_at simp del: image_add_atLeastLessThan)
  then show "(xs ! e AND m = 0) \<longleftrightarrow> \<not> someBit xs (64 * e + lo) (64 * e + hi)"
    and "(xs ! e AND m = m) \<longleftrightarrow> allBits xs (64 * e + lo) (64 * e + hi)"
    using assms by (auto simp: masked_zero masked_full)
qed

lemma bits_drop:
  assumes "64 * k + j \<le> 64 * length xs"
  shows "allBits (drop k xs) i j = allBits xs (64 * k + i) (64 * k + j)"
    and "someBit (drop k xs) i j = someBit xs (64 * k + i) (64 * k + j)"
proof -
  have "{64 * k + i..<64 * k + j} = (\<lambda>p. 64 * k + p) ` {i..<j}" by (simp add: add.commute)
  then show "allBits (drop k xs) i j = allBits xs (64 * k + i) (64 * k + j)"
    and "someBit (drop k xs) i j = someBit xs (64 * k + i) (64 * k + j)"
    using assms by (simp_all only: someBit_def allBits_def)
      (auto simp: nullbit_drop simp del: image_add_atLeastLessThan)
qed

lemma entriesEqual_ok:
  "\<forall>i \<in> set is. i < length xs \<Longrightarrow>
    entriesEqual xs baseline is = Inr (\<forall>i \<in> set is. xs ! i = baseline)"
  by (induction "is") auto

lemma full_entries:
  assumes "k \<le> length xs"
  shows "allBits xs 0 (64 * k) \<longleftrightarrow> (\<forall>i < k. xs ! i = NOT 0)"
    and "someBit xs 0 (64 * k) \<longleftrightarrow> (\<exists>i < k. xs ! i \<noteq> 0)"
  using assms
proof (induction k)
  case 0
  case 1 show ?case by (simp add: allBits_def)
  case 2 show ?case by (simp add: someBit_def)
next
  case (Suc k)
  have full: "bit (NOT 0 :: u64) i \<longleftrightarrow> 0 \<le> i \<and> i < 64" if "i < 64" for i
    using that by (simp add: bit_simps)
  note entry = entry_bits [of "NOT 0" 0 64 xs k, OF full]
  case 1
  then show ?case
    using Suc.IH(1) bits_split(1) [of 0 "64 * k" "64 * Suc k" xs] entry(2)
    by (auto simp: less_Suc_eq add.commute)
  case 2
  then show ?case
    using Suc.IH(2) bits_split(2) [of 0 "64 * k" "64 * Suc k" xs] entry(1)
    by (auto simp: less_Suc_eq add.commute)
qed

lemma getMinMax_rest_ok:
  assumes "n \<le> 64 * length xs"
  shows "getMinMax_rest xs n v v = Inr (v \<and> allBits xs 0 n, v \<or> someBit xs 0 n)"
proof -
  define k r where "k = n div 64" and "r = n mod 64"
  have n: "n = 64 * k + r" "r < 64" by (simp_all add: k_def r_def)
  have k: "k \<le> length xs" "0 < r \<Longrightarrow> k < length xs" using n assms by linarith+
  define same where "same \<longleftrightarrow> (\<forall>i < k. xs ! i = (if v then NOT 0 else 0))"
  have split: "allBits xs 0 n \<longleftrightarrow> (\<forall>i < k. xs ! i = NOT 0) \<and> allBits xs (64 * k + 0) (64 * k + r)"
      "someBit xs 0 n \<longleftrightarrow> (\<exists>i < k. xs ! i \<noteq> 0) \<or> someBit xs (64 * k + 0) (64 * k + r)"
    using bits_split [of 0 "64 * k" n xs] full_entries [OF k(1)] n(1) by auto
  have low: "bit (NULL_LOWER_MASKS ! r) i \<longleftrightarrow> 0 \<le> i \<and> i < r" for i using n(2) by simp
  note last = entry_bits [of "NULL_LOWER_MASKS ! r" 0 r xs k, OF low less_imp_le [OF n(2)]]
  have eq: "getMinMax_rest xs n v v = (if \<not> same then Inr (False, True)
      else if r > 0 then
        (if xs ! k AND NULL_LOWER_MASKS ! r = 0 then Inr (False, v)
         else if xs ! k AND NULL_LOWER_MASKS ! r = NULL_LOWER_MASKS ! r then Inr (v, True)
         else Inr (False, True))
      else Inr (v, v))"
    using k unfolding getMinMax_rest_def k_def [symmetric] r_def [symmetric] same_def Let_def
    by (simp add: entriesEqual_ok)
  show ?thesis
  proof (cases "r = 0")
    case True
    then have "allBits xs (64 * k + 0) (64 * k + r)" "\<not> someBit xs (64 * k + 0) (64 * k + r)"
      by (auto simp: allBits_def someBit_def)
    then show ?thesis using True eq split by (auto simp: same_def)
  next
    case False
    then have "allBits xs (64 * k + 0) (64 * k + r) \<Longrightarrow> someBit xs (64 * k + 0) (64 * k + r)"
      by (intro bits_nonempty) auto
    then show ?thesis using False eq split last by (auto simp: same_def)
  qed
qed

lemma getMinMax_one_entry:
  assumes "o' + n \<le> 64" "0 < n" "e < length xs"
  shows "getMinMax xs (64 * e + o') n =
    Inr (allBits xs (64 * e + o') (64 * e + (o' + n)), someBit xs (64 * e + o') (64 * e + (o' + n)))"
proof -
  have o': "o' < 64" using assms by simp
  let ?m = "NULL_HIGH_MASKS ! (64 - o') AND NULL_LOWER_MASKS ! (o' + n)"
  have bits: "bit ?m i \<longleftrightarrow> o' \<le> i \<and> i < o' + n" if "i < 64" for i
    using that assms o' by (auto simp: bit_simps)
  have "getMinMax xs (64 * e + o') n = (if xs ! e AND ?m = 0 then Inr (False, False)
      else if xs ! e AND ?m = ?m then Inr (True, True) else Inr (False, True))"
    using assms o' unfolding getMinMax_def Let_def by simp
  then show ?thesis
    using entry_bits [of ?m o' "o' + n" xs e, OF bits assms(1)] assms(2)
      bits_nonempty [of "64 * e + o'" "64 * e + (o' + n)" xs] by auto
qed

lemma getMinMax_entries:
  assumes "64 < o' + n" "0 < o'" "o' < 64" "64 * e + o' + n \<le> 64 * length xs"
  shows "getMinMax xs (64 * e + o') n =
    Inr (allBits xs (64 * e + o') (64 * e + o' + n), someBit xs (64 * e + o') (64 * e + o' + n))"
proof -
  let ?m = "NULL_HIGH_MASKS ! (64 - o')"
  define r where "r = n - (64 - o')"
  have r: "64 * e + o' + n = 64 * (e + 1) + r" "64 * e + 64 = 64 * (e + 1) + 0" "e < length xs"
    using assms by (auto simp: r_def)
  have bits: "bit ?m i \<longleftrightarrow> o' \<le> i \<and> i < 64" if "i < 64" for i using that assms by simp
  note first = entry_bits [of ?m o' 64 xs e, OF bits order_refl]
  have eq: "getMinMax xs (64 * e + o') n =
      (if xs ! e AND ?m = 0 then getMinMax_rest (drop (e + 1) xs) r False False
       else if xs ! e AND ?m = ?m then getMinMax_rest (drop (e + 1) xs) r True True
       else Inr (False, True))"
    using assms r(3) unfolding getMinMax_def Let_def r_def by (simp add: drop_Suc)
  have bound: "64 * (e + 1) + r \<le> 64 * length xs" using assms(4) r(1) by linarith
  then have rest: "getMinMax_rest (drop (e + 1) xs) r v v =
      Inr (v \<and> allBits xs (64 * (e + 1) + 0) (64 * (e + 1) + r),
           v \<or> someBit xs (64 * (e + 1) + 0) (64 * (e + 1) + r))" for v
    using bits_drop [OF bound, of 0] by (subst getMinMax_rest_ok) auto
  have le: "64 * e + o' \<le> 64 * e + 64" "64 * e + 64 \<le> 64 * e + o' + n" using assms by linarith+
  note whole = bits_split [OF le, of xs]
  have "allBits xs (64 * e + o') (64 * e + 64) \<Longrightarrow> someBit xs (64 * e + o') (64 * e + 64)"
    using assms(3) by (intro bits_nonempty) auto
  then show ?thesis
    unfolding whole eq rest unfolding r(1) r(2) [symmetric] using first by auto
qed

text \<open>
  \<^verbatim>\<open>getMinMax\<close> computes the minimum and maximum of a non-empty range of null
  bits as booleans: whether all of them are set and whether one of them is. The masks, the
  comparison of whole entries against a baseline and the early exits agree with that.
\<close>

theorem getMinMax_correct:
  assumes "0 < n" "off + n \<le> 64 * length xs"
  shows "getMinMax xs off n =
    Inr ((\<forall>p \<in> {off..<off + n}. nullbit xs p), (\<exists>p \<in> {off..<off + n}. nullbit xs p))"
proof -
  define e f where "e = off div 64" and "f = off mod 64"
  have off: "off = 64 * e + f" "f < 64" by (simp_all add: e_def f_def)
  have e: "e < length xs" using assms off by linarith
  consider "f + n \<le> 64" | "64 < f + n" "0 < f" | "64 < f + n" "f = 0" by linarith
  then have "getMinMax xs off n = Inr (allBits xs off (off + n), someBit xs off (off + n))"
  proof cases
    case 1
    then show ?thesis using getMinMax_one_entry [of f n e xs] assms(1) e off(1) by (simp add: add.assoc)
  next
    case 2
    then show ?thesis using getMinMax_entries [of f n e xs] assms(2) off by simp
  next
    case 3
    let ?v = "nullbit (drop e xs) 0"
    have bound: "64 * e + n \<le> 64 * length xs" using assms off 3 by simp
    have "getMinMax xs off n = getMinMax_rest (drop e xs) n ?v ?v"
      using 3 off e isNull_static_eq [of 0 "drop e xs"] unfolding getMinMax_def Let_def by simp
    also have "\<dots> = Inr (?v \<and> allBits (drop e xs) 0 n, ?v \<or> someBit (drop e xs) 0 n)"
      using bound by (intro getMinMax_rest_ok) simp
    also have "\<dots> = Inr (allBits (drop e xs) 0 n, someBit (drop e xs) 0 n)"
      using assms(1) by (auto simp: allBits_def someBit_def)
    finally show ?thesis using bits_drop [OF bound, of 0] off 3 by simp
  qed
  then show ?thesis by (simp add: allBits_def someBit_def)
qed

theorem getMinMax_correct_witness:
  "getMinMax [0, NOT 0, 255] 64 72 =
    Inr ((\<forall>p \<in> {64..<64 + 72}. nullbit [0, NOT 0, 255] p),
         (\<exists>p \<in> {64..<64 + 72}. nullbit [0, NOT 0, 255] p))"
  by (rule getMinMax_correct) simp_all

section \<open>The class\<close>

text \<open>
  The class invariant: a mask that does not claim it may contain nulls contains none. It is what
  \<^verbatim>\<open>hasNoNullsGuarantee\<close> promises to every caller that then skips the bits.
\<close>

definition nulls_flagged :: "null_mask \<Rightarrow> bool" where
  "nulls_flagged m \<longleftrightarrow> mayContainNulls m \<or> (\<forall>p < 64 * length (nullData m). \<not> nullbit (nullData m) p)"

datatype mask_op =
    SetNull nat bool
  | SetAllNull
  | SetAllNonNull
  | SetNullFromRange nat nat bool
  | CopyFromNullBits "u64 list" nat nat nat bool
  | CopyFrom null_mask nat nat nat bool
  | Resize nat
  | OrAssign null_mask

fun exec_op :: "mask_op \<Rightarrow> null_mask \<Rightarrow> null_mask res" where
  "exec_op (SetNull p b) m = setNull m p b"
| "exec_op SetAllNull m = Inr (setAllNull m)"
| "exec_op SetAllNonNull m = Inr (setAllNonNull m)"
| "exec_op (SetNullFromRange i n b) m = setNullFromRange m i n b"
| "exec_op (CopyFromNullBits src i j n invert) m =
     bindR (copyFromNullBits m src i j n invert) (\<lambda>r. Inr (fst r))"
| "exec_op (CopyFrom src i j n invert) m = bindR (copyFrom m src i j n invert) (\<lambda>r. Inr (fst r))"
| "exec_op (Resize n) m = resize m n"
| "exec_op (OrAssign other) m = orAssign m other"

text \<open>
  The operations that keep the flag right: not \<^verbatim>\<open>operator|=\<close>, and not the inverted
  copy of at most three bits. A source range lies inside its buffer.
\<close>

fun flag_safe :: "mask_op \<Rightarrow> bool" where
  "flag_safe (CopyFromNullBits src i j n invert) \<longleftrightarrow>
     i + n \<le> 64 * length src \<and> 64 * length src \<le> 2 ^ 32 \<and> (invert \<longrightarrow> 3 < n)"
| "flag_safe (CopyFrom src i j n invert) \<longleftrightarrow>
     i + n \<le> 64 * length (nullData src) \<and> 64 * length (nullData src) \<le> 2 ^ 32 \<and> (invert \<longrightarrow> 3 < n)"
| "flag_safe (OrAssign other) \<longleftrightarrow> False"
| "flag_safe _ \<longleftrightarrow> True"

definition in_u32 :: "null_mask \<Rightarrow> bool" where
  "in_u32 m \<longleftrightarrow> 64 * length (nullData m) \<le> 2 ^ 32"

lemma nullbit_replicate: "p < 64 * n \<Longrightarrow> nullbit (replicate n e) p = bit e (p mod 64)"
  by (simp add: nullbit_def entry_pos_less)

lemma flagged_setNull: "nulls_flagged m \<Longrightarrow> in_u32 m \<Longrightarrow> setNull m p b = Inr m' \<Longrightarrow> nulls_flagged m'"
  using setNull_static_ok [of p "nullData m" b]
  by (cases b)
    (auto simp: setNull_def nulls_flagged_def getNumNullBits_def in_u32_def Let_def split: if_splits)

lemma flagged_setAll:
  "nulls_flagged m \<Longrightarrow> nulls_flagged (setAllNonNull m)"
  "nulls_flagged (setAllNull m)"
  by (cases "mayContainNulls m";
      auto simp: setAllNonNull_def setAllNull_def nulls_flagged_def nullbit_replicate NO_NULL_ENTRY_def)+

lemma flagged_setNullFromRange:
  "nulls_flagged m \<Longrightarrow> setNullFromRange m i n b = Inr m' \<Longrightarrow> nulls_flagged m'"
  using setNullRange_bit [of n i "nullData m" b]
  by (cases "n = 0")
    (auto simp: setNullFromRange_def setNullRange_def [of _ _ 0] nulls_flagged_def getNumNullBits_def
      Let_def split: if_splits)

lemma flagged_copyFromNullBits:
  assumes "nulls_flagged m" "in_u32 m" "i + n \<le> 64 * length src" "64 * length src \<le> 2 ^ 32"
    and "invert \<longrightarrow> 3 < n" "copyFromNullBits m src i j n invert = Inr (m', r)"
  shows "nulls_flagged m'"
proof -
  have "j + n \<le> 64 * length (nullData m)"
    using assms(6) by (simp add: copyFromNullBits_def getNumNullBits_def mult.commute)
  with assms obtain d where d: "copyNullMask src i (nullData m) j n invert =
        Inr (d, \<exists>k < n. nullbit src (i + k) \<noteq> (invert \<and> 3 < n))"
      "copiedBits src i (nullData m) j n invert d"
    using copyNullMask_copied [of i n src j "nullData m" invert] by (auto simp: in_u32_def)
  have "nullbit (nullData m) p" if "nullbit d p" "p < 64 * length d"
      "\<not> (\<exists>k < n. nullbit src (i + k) \<noteq> invert)" for p
  proof -
    have "\<not> (j \<le> p \<and> p < j + n)"
    proof
      assume *: "j \<le> p \<and> p < j + n"
      then have "nullbit src (i + (p - j)) \<noteq> invert" using that d(2) by (auto simp: copiedBits_def)
      moreover have "p - j < n" using * by auto
      ultimately show False using that(3) by blast
    qed
    then show ?thesis using that(1,2) d(2) by (auto simp: copiedBits_def)
  qed
  then have clear: "\<not> nullbit d p" if "p < 64 * length d" "\<not> nullbit (nullData m) p"
      "\<not> (\<exists>k < n. nullbit src (i + k) \<noteq> invert)" for p
    using that by blast
  have "(\<exists>k < n. nullbit src (i + k) \<noteq> (invert \<and> 3 < n)) \<longleftrightarrow> (\<exists>k < n. nullbit src (i + k) \<noteq> invert)"
    using assms(5) by auto
  then have "nullData m' = d \<and> mayContainNulls m' = (mayContainNulls m \<or> (\<exists>k < n. nullbit src (i + k) \<noteq> invert))"
    using assms(6) d(1) by (auto simp: copyFromNullBits_def split: if_splits)
  moreover have "length d = length (nullData m)" using d(2) by (simp add: copiedBits_def)
  ultimately show ?thesis using assms(1) clear unfolding nulls_flagged_def by metis
qed

lemma flagged_copyFrom:
  assumes "nulls_flagged m" "in_u32 m" "flag_safe (CopyFrom src i j n invert)"
    and "copyFrom m src i j n invert = Inr (m', r)"
  shows "nulls_flagged m'"
  using assms flagged_setNullFromRange [of m j n invert m']
    flagged_copyFromNullBits [of m i n "nullData src" invert j m' r]
  by (auto simp: copyFrom_def split: if_splits)

lemma nullbit_append:
  "p < 64 * (length xs + n) \<Longrightarrow>
    nullbit (xs @ replicate n 0) p \<longleftrightarrow> p < 64 * length xs \<and> nullbit xs p"
  by (auto simp: nullbit_def nth_append entry_pos_less div_less_iff_less_mult mult.commute
      less_diff_conv2 not_less)

lemma flagged_resize: "nulls_flagged m \<Longrightarrow> resize m c = Inr m' \<Longrightarrow> nulls_flagged m'"
  by (auto simp: resize_def nulls_flagged_def nullbit_append Let_def split: if_splits)

text \<open>
  The flag of a mask stays right: after every operation of the class but
  \<^verbatim>\<open>operator|=\<close> and the inverted copy of at most three bits, a mask without the
  \<^verbatim>\<open>mayContainNulls\<close> flag holds no null bit, given that it was so before. Positions
  are \<^verbatim>\<open>uint32_t\<close>, so the mask has at most \<open>2\<^sup>3\<^sup>2\<close> bits.
\<close>

theorem nulls_flagged_preserved:
  assumes "nulls_flagged m" "in_u32 m" "flag_safe op" "exec_op op m = Inr m'"
  shows "nulls_flagged m'"
proof (cases op)
  case (CopyFromNullBits src i j n invert)
  then show ?thesis
    using assms flagged_copyFromNullBits [of m i n src invert j] by auto
next
  case (CopyFrom src i j n invert)
  then show ?thesis using assms flagged_copyFrom [of m src i j n invert] by auto
qed (use assms in \<open>auto intro: flagged_setNull flagged_setAll flagged_setNullFromRange flagged_resize\<close>)

theorem nulls_flagged_preserved_witness:
  "\<exists>m'. exec_op (CopyFromNullBits [6] 1 0 5 True) (NullMask_new 64) = Inr m' \<and> nulls_flagged m'"
proof -
  have "exec_op (CopyFromNullBits [6] 1 0 5 True) (NullMask_new 64) =
      Inr \<lparr>nullData = [28], mayContainNulls = True\<rparr>"
    by code_simp
  moreover have "nulls_flagged (NullMask_new 64)"
    by (simp add: nulls_flagged_def NullMask_new_def nullbit_def NO_NULL_ENTRY_def)
  moreover have "in_u32 (NullMask_new 64)" by (simp add: in_u32_def NullMask_new_def)
  ultimately show ?thesis
    using nulls_flagged_preserved [of "NullMask_new 64" "CopyFromNullBits [6] 1 0 5 True"] by auto
qed

text \<open>
  Reading back a bit: after setting the null flag of a position, that position reads as set
  and every other position reads as before.
\<close>

theorem isNull_setNull:
  assumes "p < getNumNullBits (nullData m)" "q < getNumNullBits (nullData m)" "in_u32 m"
  shows "\<exists>m'. setNull m p b = Inr m' \<and> isNull m' q = (if q = p then Inr b else isNull m q)"
proof -
  have "p < 2 ^ 32" "q < 2 ^ 32"
    using assms by (auto simp: getNumNullBits_def in_u32_def)
  with assms obtain ys where ys: "setNull_static (nullData m) p b = Inr ys"
      "length ys = length (nullData m)" "nullbit ys q = (if q = p then b else nullbit (nullData m) q)"
    using setNull_static_ok [of p "nullData m" b] by (auto simp: getNumNullBits_def mult.commute)
  let ?m = "if b then m\<lparr>nullData := ys, mayContainNulls := True\<rparr> else m\<lparr>nullData := ys\<rparr>"
  have "setNull m p b = Inr ?m" using ys(1) assms(1) by (simp add: setNull_def Let_def)
  moreover have "isNull ?m q = (if q = p then Inr b else isNull m q)"
    using ys(2,3) assms(2) \<open>q < 2 ^ 32\<close>
    by (cases "q = p") (auto simp: isNull_def getNumNullBits_def isNull_static_eq mult.commute)
  ultimately show ?thesis by blast
qed

theorem isNull_setNull_witness:
  "\<exists>m'. setNull (NullMask_new 100) 70 True = Inr m' \<and>
     isNull m' 70 = (if (70 :: nat) = 70 then Inr True else isNull (NullMask_new 100) 70)"
  by (rule isNull_setNull) (simp_all add: NullMask_new_def getNumNullBits_def in_u32_def)

lemma popcount_card: "popcount w = card {i \<in> {..<64}. bit w i}"
proof -
  have "{i \<in> {..<64}. bit w i} = set (filter (bit w) [0..<64])" by auto
  moreover have "card (set (filter (bit w) [0..<64])) = popcount w"
    unfolding popcount_def by (rule distinct_card) simp
  ultimately show ?thesis by simp
qed

lemma countNulls_sum: "countNulls m = (\<Sum>e \<leftarrow> nullData m. popcount e)"
proof -
  have "foldl (\<lambda>sum entry. sum + popcount entry) k xs = k + (\<Sum>e \<leftarrow> xs. popcount e)" for k xs
    by (induction xs arbitrary: k) simp_all
  then show ?thesis by (simp add: countNulls_def)
qed

lemma popcount_total: "(\<Sum>e \<leftarrow> xs. popcount e) = card {p \<in> {..<64 * length xs}. nullbit xs p}"
proof (induction xs rule: rev_induct)
  case Nil
  then show ?case by simp
next
  case (snoc e xs)
  let ?n = "64 * length xs" and ?old = "{p \<in> {..<64 * length xs}. nullbit xs p}"
  have "{p \<in> {..<64 * length (xs @ [e])}. nullbit (xs @ [e]) p} =
      ?old \<union> (\<lambda>i. ?n + i) ` {i \<in> {..<64}. bit e i}" (is "?l = ?r")
  proof (rule set_eqI)
    fix p
    show "p \<in> ?l \<longleftrightarrow> p \<in> ?r"
    proof (cases "p < ?n")
      case True
      then show ?thesis by (auto simp: nullbit_def nth_append entry_pos_less)
    next
      case False
      then obtain i where "p = ?n + i" by (metis le_add_diff_inverse not_less)
      then show ?thesis by (auto simp: nullbit_def nth_append)
    qed
  qed
  moreover have "card ((\<lambda>i. ?n + i) ` {i \<in> {..<64}. bit e i}) = popcount e"
    by (simp add: card_image popcount_card)
  moreover have "?old \<inter> (\<lambda>i. ?n + i) ` {i \<in> {..<64}. bit e i} = {}" by auto
  ultimately show ?case using snoc.IH by (simp add: card_Un_disjoint)
qed

text \<open>
  \<^verbatim>\<open>countNulls\<close> adds up the population counts of the entries and gets the number
  of positions whose null bit is set.
\<close>

theorem countNulls_correct:
  "countNulls m = card {p \<in> {..<getNumNullBits (nullData m)}. nullbit (nullData m) p}"
  by (simp add: countNulls_sum popcount_total getNumNullBits_def mult.commute)

lemma round_up_64: "(64 * q + r + 63) div 64 = q + (if r = 0 then 0 else 1)" if "r < 64" for q r :: nat
proof (cases "r = 0")
  case False
  then have "64 * q + r + 63 = (r - 1) + 64 * (q + 1)" by simp
  then show ?thesis using that False by (simp only: div_mult_self2) simp
qed simp

lemma sub_shift_zero: "n - push_bit 6 n = 0 \<longleftrightarrow> n = 0" for n :: u64
proof
  assume "n - push_bit 6 n = 0"
  moreover have "push_bit 6 n = 64 * n" by (simp add: push_bit_eq_mult mult.commute)
  moreover have "(64 - 1) * n = 64 * n - n" by (simp only: left_diff_distrib mult_1)
  ultimately have "63 * n = 0" by simp
  then have "(17275522227759738815 * 63) * n = 0" by (simp only: mult.assoc mult_zero_right)
  moreover have "17275522227759738815 * 63 = (1 :: u64)" by simp
  ultimately show "n = 0" by (simp only: mult_1)
qed simp

text \<open>
  What \<^verbatim>\<open>getNumNullEntries\<close> returns. It shifts left where a remainder by 64 is
  meant, so the test is true only for zero: every other count gets one entry more than its whole
  entries, which is one too many exactly when the count is a positive multiple of 64.
\<close>

theorem getNumNullEntries_value:
  "unat (getNumNullEntries n) = unat n div 64 + (if n = 0 then 0 else 1)
   \<and> (unat (getNumNullEntries n) = (unat n + 63) div 64 \<longleftrightarrow> n = 0 \<or> 0 < unat n mod 64)"
proof -
  have lt: "unat n < 2 ^ 64" using unsigned_less [of n] by simp
  have whole: "unat (drop_bit 6 n) = unat n div 64" 
    by (simp only: unat_drop_bit_eq) (simp add: drop_bit_eq_div)
  have "unat (drop_bit 6 n + 1) = unat n div 64 + 1"
    using lt whole by (simp add: unat_word_ariths)
  with whole have "unat (getNumNullEntries n) = unat n div 64 + (if n = 0 then 0 else 1)"
    by (simp add: getNumNullEntries_def sub_shift_zero del: right_minus_eq)
  moreover have "n = 0 \<longleftrightarrow> unat n = 0" by (simp add: unat_eq_zero)
  moreover have "(unat n + 63) div 64 = unat n div 64 + (if unat n mod 64 = 0 then 0 else 1)"
    using round_up_64 [of "unat n mod 64" "unat n div 64"] by simp
  ultimately show ?thesis by auto
qed

text \<open>
  The inverted copy of at most three bits can write a null into a mask and leave it without
  the \<^verbatim>\<open>mayContainNulls\<close> flag: the short path reports the source bits instead of the
  copied ones, so a bit read as non-null and stored as null is not reported. A caller that asks
  \<^verbatim>\<open>hasNoNullsGuarantee\<close> is then told there are no nulls, while the bit reads as
  null.
\<close>

theorem inverted_short_copy_loses_flag:
  "\<exists>m'. copyFrom (NullMask_new 64) \<lparr>nullData = [0], mayContainNulls = True\<rparr> 0 0 1 True = Inr (m', False)
     \<and> hasNoNullsGuarantee m' \<and> isNull m' 0 = Inr True"
  by (simp add: copyFrom_def copyFromNullBits_def copyNullMask_def NullMask_new_def
      hasNoNullsGuarantee_def getNumNullBits_def isNull_def isNull_static_def setNull_static_def
      NO_NULL_ENTRY_def single_one_table)

text \<open>
  \<^verbatim>\<open>operator|=\<close> takes the nulls of another mask over and leaves the flag as it
  was, so a mask that was free of nulls keeps promising so.
\<close>

lemma or_loses_flag:
  "\<exists>m'. orAssign (NullMask_new 64) \<lparr>nullData = [1], mayContainNulls = True\<rparr> = Inr m'
     \<and> hasNoNullsGuarantee m' \<and> isNull m' 0 = Inr True"
  by (simp add: orAssign_def NullMask_new_def hasNoNullsGuarantee_def getNumNullBits_def isNull_def
      isNull_static_def NO_NULL_ENTRY_def single_one_table)

end
