(* ===== verification/Serialization.thy ===== *)
theory Serialization
  imports Prelude
begin

text \<open>
  \<^verbatim>\<open>common/serializer/serializer.h\<close>, \<^verbatim>\<open>deserializer.h\<close> and their
  \<^verbatim>\<open>.cpp\<close> files. A serializer appends bytes to a stream and a deserializer consumes
  them from the front, so a serialized value is a byte list and a deserialization function takes
  the bytes left and returns the value with the bytes it has not read. Trivially copyable values
  are written as their object representation, which is little endian on the supported hosts.
  The debugging tags are written only in builds that ask for them: the parameter
  \<open>dbg\<close> is that build flag.

  The locale \<open>serializable\<close> is the contract of a pair of functions: reading back what
  was written returns the value and leaves what follows untouched. Its lemmas lift the contract to
  the containers, for every element type at once.
\<close>

unbundle bit_operations_syntax

type_synonym u8 = "8 word"
type_synonym 'a reader = "u8 list \<Rightarrow> ('a \<times> u8 list) res"

section \<open>Values\<close>

definition readBytes :: "nat \<Rightarrow> u8 list reader" where
  "readBytes n bs = (if n \<le> length bs then Inr (take n bs, drop n bs) else Inl OutOfBounds)"

text \<open>The bytes of a word of \<open>n\<close> bytes, lowest first.\<close>

definition leBytes :: "nat \<Rightarrow> 'a::len word \<Rightarrow> u8 list" where
  "leBytes n w = map (\<lambda>i. ucast (drop_bit (8 * i) w)) [0..<n]"

fun leWord :: "u8 list \<Rightarrow> 'a::len word" where
  "leWord [] = 0"
| "leWord (b # bs) = ucast b OR push_bit 8 (leWord bs)"

definition serializeU64 :: "u64 \<Rightarrow> u8 list" where
  "serializeU64 w = leBytes 8 w"

definition deserializeU64 :: "u64 reader" where
  "deserializeU64 bs = bindR (readBytes 8 bs) (\<lambda>(v, bs). Inr (leWord v, bs))"

definition serializeU32 :: "u32 \<Rightarrow> u8 list" where
  "serializeU32 w = leBytes 4 w"

definition deserializeU32 :: "u32 reader" where
  "deserializeU32 bs = bindR (readBytes 4 bs) (\<lambda>(v, bs). Inr (leWord v, bs))"

definition serializeU8 :: "u8 \<Rightarrow> u8 list" where
  "serializeU8 w = [w]"

definition deserializeU8 :: "u8 reader" where
  "deserializeU8 bs = bindR (readBytes 1 bs) (\<lambda>(v, bs). Inr (hd v, bs))"

definition serializeBool :: "bool \<Rightarrow> u8 list" where
  "serializeBool b = [if b then 1 else 0]"

definition deserializeBool :: "bool reader" where
  "deserializeBool bs = bindR (readBytes 1 bs) (\<lambda>(v, bs). Inr (hd v \<noteq> 0, bs))"

text \<open>Strings: the length and the characters. A \<^verbatim>\<open>std::string\<close> is its bytes.\<close>

definition serializeString :: "u8 list \<Rightarrow> u8 list" where
  "serializeString value = serializeU64 (of_nat (length value)) @ value"

definition deserializeString :: "u8 list reader" where
  "deserializeString bs =
     bindR (deserializeU64 bs) (\<lambda>(valueLength, bs). readBytes (unat valueLength) bs)"

definition writeDebuggingInfo :: "bool \<Rightarrow> u8 list \<Rightarrow> u8 list" where
  "writeDebuggingInfo dbg value = (if dbg then serializeString value else [])"

definition validateDebuggingInfo :: "bool \<Rightarrow> u8 list \<Rightarrow> unit reader" where
  "validateDebuggingInfo dbg expectedVal bs =
     (if dbg then
        bindR (deserializeString bs) (\<lambda>(value, bs).
        bindR (assertR (value = expectedVal)) (\<lambda>_. Inr ((), bs)))
      else Inr ((), bs))"

definition tag :: "string \<Rightarrow> u8 list" where
  "tag s = map of_char s"

section \<open>Containers\<close>

fun readMany :: "'a reader \<Rightarrow> nat \<Rightarrow> 'a list reader" where
  "readMany d 0 bs = Inr ([], bs)"
| "readMany d (Suc n) bs =
     bindR (d bs) (\<lambda>(x, bs). bindR (readMany d n bs) (\<lambda>(xs, bs). Inr (x # xs, bs)))"

definition serializeOptionalValue :: "('a \<Rightarrow> u8 list) \<Rightarrow> 'a option \<Rightarrow> u8 list" where
  "serializeOptionalValue s value =
     serializeBool (value = None) @ (case value of None \<Rightarrow> [] | Some v \<Rightarrow> s v)"

definition deserializeOptionalValue :: "'a reader \<Rightarrow> 'a option reader" where
  "deserializeOptionalValue d bs =
     bindR (deserializeBool bs) (\<lambda>(isNull, bs).
     if \<not> isNull then bindR (d bs) (\<lambda>(v, bs). Inr (Some v, bs)) else Inr (None, bs))"

definition serializeVector :: "('a \<Rightarrow> u8 list) \<Rightarrow> 'a list \<Rightarrow> u8 list" where
  "serializeVector s values =
     serializeU64 (of_nat (length values)) @ concat (map s values)"

definition deserializeVector :: "'a reader \<Rightarrow> 'a list reader" where
  "deserializeVector d bs =
     bindR (deserializeU64 bs) (\<lambda>(vectorSize, bs). readMany d (unat vectorSize) bs)"

definition serializeArray :: "('a \<Rightarrow> u8 list) \<Rightarrow> 'a list \<Rightarrow> u8 list" where
  "serializeArray s values = concat (map s values)"

definition deserializeArray :: "'a reader \<Rightarrow> nat \<Rightarrow> 'a list reader" where
  "deserializeArray d arraySize bs = readMany d arraySize bs"

text \<open>
  A map is written in its iteration order, so the model takes the list of its entries.
  \<^verbatim>\<open>emplace\<close> keeps the entry that is already there.
\<close>

definition serializeMap :: "('k \<Rightarrow> u8 list) \<Rightarrow> ('v \<Rightarrow> u8 list) \<Rightarrow> ('k \<times> 'v) list \<Rightarrow> u8 list" where
  "serializeMap sk sv values =
     serializeU64 (of_nat (length values)) @ concat (map (\<lambda>(k, v). sk k @ sv v) values)"

definition emplace :: "'k \<times> 'v \<Rightarrow> ('k \<rightharpoonup> 'v) \<Rightarrow> ('k \<rightharpoonup> 'v)" where
  "emplace kv m = (if m (fst kv) = None then m(fst kv \<mapsto> snd kv) else m)"

definition deserializeMap :: "'k reader \<Rightarrow> 'v reader \<Rightarrow> ('k \<rightharpoonup> 'v) reader" where
  "deserializeMap dk dv bs =
     bindR (deserializeU64 bs) (\<lambda>(mapSize, bs).
     bindR (readMany (\<lambda>bs. bindR (dk bs) (\<lambda>(k, bs). bindR (dv bs) (\<lambda>(v, bs). Inr ((k, v), bs))))
              (unat mapSize) bs) (\<lambda>(entries, bs).
     Inr (fold emplace entries Map.empty, bs)))"

definition serializeUnorderedSet :: "('a \<Rightarrow> u8 list) \<Rightarrow> 'a list \<Rightarrow> u8 list" where
  "serializeUnorderedSet s values =
     serializeU64 (of_nat (length values)) @ concat (map s values)"

definition deserializeUnorderedSet :: "'a reader \<Rightarrow> 'a set reader" where
  "deserializeUnorderedSet d bs =
     bindR (deserializeU64 bs) (\<lambda>(setSize, bs).
     bindR (readMany d (unat setSize) bs) (\<lambda>(values, bs). Inr (set values, bs)))"

section \<open>The contract\<close>

locale serializable =
  fixes ser :: "'a \<Rightarrow> u8 list" and deser :: "'a reader" and valid :: "'a \<Rightarrow> bool"
  assumes round_trip: "valid x \<Longrightarrow> deser (ser x @ rest) = Inr (x, rest)"
begin

lemma many_round_trip:
  "\<forall>x \<in> set xs. valid x \<Longrightarrow> readMany deser (length xs) (concat (map ser xs) @ rest) = Inr (xs, rest)"
  by (induction xs) (simp_all add: round_trip)

lemma array_round_trip:
  "\<forall>x \<in> set xs. valid x \<Longrightarrow>
    deserializeArray deser (length xs) (serializeArray ser xs @ rest) = Inr (xs, rest)"
  by (simp add: deserializeArray_def serializeArray_def many_round_trip)

end

lemma bit_leWord:
  "bit (leWord bs :: 'a::len word) i \<longleftrightarrow> i < LENGTH('a) \<and> i div 8 < length bs \<and> bit (bs ! (i div 8)) (i mod 8)"
proof (induction bs arbitrary: i)
  case Nil
  then show ?case by simp
next
  case (Cons b bs)
  show ?case
  proof (cases "i < 8")
    case True
    then show ?thesis using Cons bit_imp_le_length [of b i] by (auto simp: bit_simps)
  next
    case False
    then have "i div 8 = Suc ((i - 8) div 8)" "i mod 8 = (i - 8) mod 8"
      by (simp_all add: le_div_geq le_mod_geq)
    then show ?thesis using Cons [of "i - 8"] False bit_imp_le_length [of b i]
      by (auto simp: bit_simps)
  qed
qed

lemma leWord_leBytes: "LENGTH('a) \<le> 8 * n \<Longrightarrow> leWord (leBytes n w) = (w :: 'a::len word)"
  by (rule bit_eqI) (auto simp: bit_leWord leBytes_def bit_simps less_mult_imp_div_less mult.commute
      dest: bit_imp_le_length)

lemma length_leBytes [simp]: "length (leBytes n w) = n"
  by (simp add: leBytes_def)

lemma readBytes_append [simp]: "readBytes (length xs) (xs @ rest) = Inr (xs, rest)"
  by (simp add: readBytes_def)

interpretation ser_u64: serializable serializeU64 deserializeU64 "\<lambda>_. True"
  by unfold_locales
    (simp add: serializeU64_def deserializeU64_def readBytes_def leWord_leBytes)

interpretation ser_u32: serializable serializeU32 deserializeU32 "\<lambda>_. True"
  by unfold_locales
    (simp add: serializeU32_def deserializeU32_def readBytes_def leWord_leBytes)

interpretation ser_u8: serializable serializeU8 deserializeU8 "\<lambda>_. True"
  by unfold_locales (simp add: serializeU8_def deserializeU8_def readBytes_def)

interpretation ser_bool: serializable serializeBool deserializeBool "\<lambda>_. True"
  by unfold_locales (simp add: serializeBool_def deserializeBool_def readBytes_def)

text \<open>A length of the address space is written and read as it is.\<close>

lemma unat_of_nat_64: "n < 2 ^ 64 \<Longrightarrow> unat (of_nat n :: u64) = n"
  by (simp add: unsigned_of_nat take_bit_nat_eq_self)

interpretation ser_string: serializable serializeString deserializeString "\<lambda>s. length s < 2 ^ 64"
proof unfold_locales
  fix x rest :: "u8 list"
  assume "length x < 2 ^ 64"
  then have "unat (of_nat (length x) :: u64) = length x" by (rule unat_of_nat_64)
  then show "deserializeString (serializeString x @ rest) = Inr (x, rest)"
    by (simp only: serializeString_def deserializeString_def append_assoc
        ser_u64.round_trip bindR_simps prod.case readBytes_append)
qed

lemma debugging_info_round_trip:
  "length t < 2 ^ 64 \<Longrightarrow> validateDebuggingInfo dbg t (writeDebuggingInfo dbg t @ rest) = Inr ((), rest)"
  by (simp add: validateDebuggingInfo_def writeDebuggingInfo_def ser_string.round_trip)

context serializable
begin

lemma optional_round_trip:
  "(case x of None \<Rightarrow> True | Some v \<Rightarrow> valid v) \<Longrightarrow>
    deserializeOptionalValue deser (serializeOptionalValue ser x @ rest) = Inr (x, rest)"
  by (cases x) (simp_all add: deserializeOptionalValue_def serializeOptionalValue_def
      ser_bool.round_trip round_trip)

lemma vector_round_trip:
  "length xs < 2 ^ 64 \<Longrightarrow> \<forall>x \<in> set xs. valid x \<Longrightarrow>
    deserializeVector deser (serializeVector ser xs @ rest) = Inr (xs, rest)"
  by (simp add: deserializeVector_def serializeVector_def ser_u64.round_trip unat_of_nat_64
      many_round_trip)

lemma set_round_trip:
  "length xs < 2 ^ 64 \<Longrightarrow> \<forall>x \<in> set xs. valid x \<Longrightarrow>
    deserializeUnorderedSet deser (serializeUnorderedSet ser xs @ rest) = Inr (set xs, rest)"
  by (simp add: deserializeUnorderedSet_def serializeUnorderedSet_def ser_u64.round_trip
      unat_of_nat_64 many_round_trip)

end

text \<open>
  Maps: the contract of the keys and that of the values give the contract of the entries, and so
  of the map.
\<close>

lemma fold_emplace:
  "distinct (map fst kvs) \<Longrightarrow> dom m \<inter> fst ` set kvs = {} \<Longrightarrow> fold emplace kvs m = m ++ map_of kvs"
proof (induction kvs arbitrary: m)
  case Nil
  then show ?case by simp
next
  case (Cons kv kvs)
  obtain k v where kv: "kv = (k, v)" by (cases kv)
  have "emplace kv m = m(k \<mapsto> v)" using Cons.prems kv by (auto simp: emplace_def)
  moreover have disjoint: "dom (m(k \<mapsto> v)) \<inter> fst ` set kvs = {}" using Cons.prems kv by auto
  moreover have "fold emplace kvs (m(k \<mapsto> v)) = m(k \<mapsto> v) ++ map_of kvs"
    by (rule Cons.IH [OF _ disjoint]) (use Cons.prems(1) in simp)
  ultimately have "fold emplace (kv # kvs) m = m(k \<mapsto> v) ++ map_of kvs"
    by simp
  also have "\<dots> = m ++ map_of (kv # kvs)"
    using Cons.prems(1) kv by (simp add: map_add_upd_left dom_map_of_conv_image_fst)
  finally show ?case .
qed

locale serializable_entry =
  k: serializable serk deserk validk + v: serializable serv deserv validv
  for serk :: "'k \<Rightarrow> u8 list" and deserk validk and serv :: "'v \<Rightarrow> u8 list" and deserv validv
begin

lemma map_round_trip:
  assumes "length kvs < 2 ^ 64" "distinct (map fst kvs)"
    and "\<forall>(x, y) \<in> set kvs. validk x \<and> validv y"
  shows "deserializeMap deserk deserv (serializeMap serk serv kvs @ rest) = Inr (map_of kvs, rest)"
proof -
  let ?d = "\<lambda>bs. bindR (deserk bs) (\<lambda>(k, bs). bindR (deserv bs) (\<lambda>(v, bs). Inr ((k, v), bs)))"
  have "readMany ?d (length kvs) (concat (map (\<lambda>(k, v). serk k @ serv v) kvs) @ rest) = Inr (kvs, rest)"
    using assms(3) by (induction kvs) (auto simp: k.round_trip v.round_trip)
  moreover have "fold emplace kvs Map.empty = map_of kvs"
    using fold_emplace [OF assms(2), of Map.empty] by simp
  ultimately show ?thesis
    using assms(1) by (simp add: deserializeMap_def serializeMap_def ser_u64.round_trip unat_of_nat_64)
qed

end

interpretation ser_name_ids: serializable_entry
  serializeString deserializeString "\<lambda>s. length s < 2 ^ 64" serializeU64 deserializeU64 "\<lambda>_. True"
  by unfold_locales

text \<open>
  A vector of strings, the form in which names are stored in the catalog and in the log,
  reads back as it was written, with the bytes after it left in the stream.
\<close>

theorem string_vector_round_trip:
  assumes "length xs < 2 ^ 64" "\<forall>s \<in> set xs. length s < 2 ^ 64"
  shows "deserializeVector deserializeString (serializeVector serializeString xs @ rest) = Inr (xs, rest)"
  using assms by (rule ser_string.vector_round_trip)

theorem string_vector_round_trip_witness:
  "deserializeVector deserializeString (serializeVector serializeString [tag ''abc'', []] @ [7]) =
    Inr ([tag ''abc'', []], [7])"
  by (rule string_vector_round_trip) (simp_all add: tag_def)

end
