(* ===== verification/Byte_Streams.thy ===== *)
theory Byte_Streams
  imports Serialization
begin

text \<open>
  The writers and readers behind the serializers: \<^verbatim>\<open>BufferWriter\<close>,
  \<^verbatim>\<open>BufferReader\<close>, \<^verbatim>\<open>BufferedFileWriter\<close>,
  \<^verbatim>\<open>BufferedFileReader\<close> and \<^verbatim>\<open>InMemFileWriter\<close> of
  \<^verbatim>\<open>common/serializer\<close>. Each keeps buffers and offsets; each is shown to be a byte
  stream that grows at its end or shrinks at its front. The contracts are the locales
  \<open>byte_writer\<close> and \<open>byte_reader\<close>, interpreted by the five classes.

  A file is its list of bytes: \<open>writeFile\<close> and \<open>readFromFile\<close> model
  \<^verbatim>\<open>FileInfo\<close> over \<^verbatim>\<open>LocalFileSystem\<close> when the system call
  succeeds. The page size is a constant of the build and a parameter \<open>P\<close> here; the
  contents of a freshly allocated, uninitialised page are the parameter \<open>fresh\<close>.
\<close>

section \<open>Memory and files\<close>

definition copyInto :: "u8 list \<Rightarrow> nat \<Rightarrow> u8 list \<Rightarrow> u8 list res" where
  "copyInto dst off bs =
     (if off + length bs \<le> length dst
      then Inr (take off dst @ bs @ drop (off + length bs) dst) else Inl OutOfBounds)"

definition copyFromMem :: "u8 list \<Rightarrow> nat \<Rightarrow> nat \<Rightarrow> u8 list res" where
  "copyFromMem src off n = (if off + n \<le> length src then Inr (take n (drop off src)) else Inl OutOfBounds)"

definition writeFile :: "u8 list \<Rightarrow> nat \<Rightarrow> u8 list \<Rightarrow> u8 list" where
  "writeFile file off bs =
     take off (file @ replicate (off - length file) 0) @ bs @ drop (off + length bs) file"

definition readFromFile :: "u8 list \<Rightarrow> nat \<Rightarrow> nat \<Rightarrow> u8 list res" where
  "readFromFile file numBytes off =
     bindR (assertR (length file \<ge> off + numBytes)) (\<lambda>_. Inr (take numBytes (drop off file)))"

section \<open>BufferWriter and BufferReader\<close>

record buffer_writer =
  maximumSize :: nat
  blobData :: "u8 list"
  blobSize :: nat

definition BufferWriter_new :: "nat \<Rightarrow> buffer_writer" where
  "BufferWriter_new numBytes = \<lparr>maximumSize = numBytes, blobData = replicate numBytes 0, blobSize = 0\<rparr>"

text \<open>The doubling loop of \<^verbatim>\<open>BufferWriter::write\<close>; \<open>None\<close> is not returning.\<close>

partial_function (option) growTo :: "nat \<Rightarrow> nat \<Rightarrow> nat option" where
  "growTo numBytes need = (if need > numBytes * 2 then growTo (numBytes * 2) need else Some (numBytes * 2))"

definition BufferWriter_write :: "buffer_writer \<Rightarrow> u8 list \<Rightarrow> buffer_writer res option" where
  "BufferWriter_write w bs =
     (case (if blobSize w + length bs \<ge> maximumSize w
            then (case growTo (maximumSize w) (blobSize w + length bs) of
                    None \<Rightarrow> None
                  | Some numBytes \<Rightarrow> Some (bindR (copyFromMem (blobData w) 0 (blobSize w)) (\<lambda>old.
                      bindR (copyInto (replicate numBytes 0) 0 old) (\<lambda>d.
                      Inr (w\<lparr>maximumSize := numBytes, blobData := d\<rparr>)))))
            else Some (Inr w)) of
        None \<Rightarrow> None
      | Some grown \<Rightarrow> Some (bindR grown (\<lambda>w.
          bindR (copyInto (blobData w) (blobSize w) bs) (\<lambda>d.
          Inr (w\<lparr>blobData := d, blobSize := blobSize w + length bs\<rparr>)))))"

definition BufferWriter_clear :: "buffer_writer \<Rightarrow> buffer_writer" where
  "BufferWriter_clear w = w\<lparr>blobSize := 0\<rparr>"

record buffer_reader =
  readData :: "u8 list"
  dataSize :: nat
  readSize :: nat

definition BufferReader_read :: "buffer_reader \<Rightarrow> nat \<Rightarrow> (u8 list \<times> buffer_reader) res" where
  "BufferReader_read r numBytes =
     bindR (copyFromMem (readData r) (readSize r) numBytes) (\<lambda>bs.
     Inr (bs, r\<lparr>readSize := readSize r + numBytes\<rparr>))"

definition BufferReader_finished :: "buffer_reader \<Rightarrow> bool" where
  "BufferReader_finished r = (readSize r \<ge> dataSize r)"

section \<open>BufferedFileWriter\<close>

record file_writer =
  wbuffer :: "u8 list"
  wfileOffset :: nat
  wbufferOffset :: nat
  wfile :: "u8 list"

definition BufferedFileWriter_new :: "nat \<Rightarrow> u8 list \<Rightarrow> file_writer" where
  "BufferedFileWriter_new P file =
     \<lparr>wbuffer = replicate P 0, wfileOffset = 0, wbufferOffset = 0, wfile = file\<rparr>"

definition fw_flush :: "nat \<Rightarrow> file_writer \<Rightarrow> file_writer" where
  "fw_flush P w =
     (if wbufferOffset w = 0 then w
      else w\<lparr>wfile := writeFile (wfile w) (wfileOffset w) (take (wbufferOffset w) (wbuffer w)),
             wfileOffset := wfileOffset w + wbufferOffset w,
             wbufferOffset := 0, wbuffer := replicate P 0\<rparr>)"

definition fw_write :: "nat \<Rightarrow> file_writer \<Rightarrow> u8 list \<Rightarrow> file_writer res" where
  "fw_write P w bs =
     (if length bs > P then
        let w = fw_flush P w in
        Inr (w\<lparr>wfile := writeFile (wfile w) (wfileOffset w) bs,
               wfileOffset := wfileOffset w + length bs\<rparr>)
      else if wbufferOffset w + length bs \<le> P then
        bindR (copyInto (wbuffer w) (wbufferOffset w) bs) (\<lambda>b.
        Inr (w\<lparr>wbuffer := b, wbufferOffset := wbufferOffset w + length bs\<rparr>))
      else
        let toCopy = P - wbufferOffset w in
        bindR (copyInto (wbuffer w) (wbufferOffset w) (take toCopy bs)) (\<lambda>b.
        let w = fw_flush P (w\<lparr>wbuffer := b, wbufferOffset := wbufferOffset w + toCopy\<rparr>);
            remaining = length bs - toCopy in
        bindR (copyInto (wbuffer w) 0 (take remaining (drop toCopy bs))) (\<lambda>b.
        Inr (w\<lparr>wbuffer := b, wbufferOffset := wbufferOffset w + remaining\<rparr>))))"

definition fw_resetOffsets :: "file_writer \<Rightarrow> file_writer" where
  "fw_resetOffsets w = w\<lparr>wfileOffset := 0, wbufferOffset := 0\<rparr>"

definition fw_clear :: "file_writer \<Rightarrow> file_writer" where
  "fw_clear w = fw_resetOffsets (w\<lparr>wfile := []\<rparr>)"

definition fw_getSize :: "file_writer \<Rightarrow> nat" where
  "fw_getSize w = length (wfile w) + wbufferOffset w"

definition fw_setFileOffset :: "file_writer \<Rightarrow> nat \<Rightarrow> file_writer" where
  "fw_setFileOffset w off = w\<lparr>wfileOffset := off\<rparr>"

section \<open>BufferedFileReader\<close>

record file_reader =
  rbuffer :: "u8 list"
  rfileOffset :: nat
  rbufferOffset :: nat
  rfile :: "u8 list"
  rfileSize :: nat
  rbufferSize :: nat

definition readNextPage :: "nat \<Rightarrow> file_reader \<Rightarrow> file_reader res" where
  "readNextPage P r =
     (if rfileSize r \<le> rfileOffset r
      then Inl (RuntimeException ''Reading past the end of the file'')
      else
        let numBytes = min (rfileSize r - rfileOffset r) P in
        bindR (readFromFile (rfile r) numBytes (rfileOffset r)) (\<lambda>bs.
        bindR (copyInto (rbuffer r) 0 bs) (\<lambda>b.
        Inr (r\<lparr>rbufferSize := numBytes, rbuffer := b, rfileOffset := rfileOffset r + numBytes,
               rbufferOffset := 0\<rparr>))))"

definition BufferedFileReader_new :: "nat \<Rightarrow> u8 list \<Rightarrow> file_reader res" where
  "BufferedFileReader_new P file =
     readNextPage P \<lparr>rbuffer = replicate P 0, rfileOffset = 0, rbufferOffset = 0, rfile = file,
                     rfileSize = length file, rbufferSize = 0\<rparr>"

definition fr_read :: "nat \<Rightarrow> file_reader \<Rightarrow> nat \<Rightarrow> (u8 list \<times> file_reader) res" where
  "fr_read P r numBytes =
     (if numBytes > P then
        let off = rfileOffset r - rbufferSize r + rbufferOffset r in
        bindR (readFromFile (rfile r) numBytes off) (\<lambda>bs.
        Inr (bs, r\<lparr>rfileOffset := off + numBytes, rbufferOffset := rbufferSize r\<rparr>))
      else if rbufferOffset r + numBytes \<le> rbufferSize r then
        bindR (copyFromMem (rbuffer r) (rbufferOffset r) numBytes) (\<lambda>bs.
        Inr (bs, r\<lparr>rbufferOffset := rbufferOffset r + numBytes\<rparr>))
      else
        let toCopy = (if rbufferOffset r \<le> rbufferSize r then rbufferSize r - rbufferOffset r
                      else 2 ^ 64 + rbufferSize r - rbufferOffset r) in
        bindR (copyFromMem (rbuffer r) (rbufferOffset r) toCopy) (\<lambda>bs.
        bindR (readNextPage P (r\<lparr>rbufferOffset := rbufferOffset r + toCopy\<rparr>)) (\<lambda>r.
        let remaining = numBytes - toCopy in
        bindR (copyFromMem (rbuffer r) 0 remaining) (\<lambda>bs'.
        Inr (bs @ bs', r\<lparr>rbufferOffset := rbufferOffset r + remaining\<rparr>)))))"

definition fr_finished :: "file_reader \<Rightarrow> bool" where
  "fr_finished r = (rbufferOffset r \<ge> rbufferSize r \<and> rfileSize r \<le> rfileOffset r)"

definition fr_resetReadOffset :: "file_reader \<Rightarrow> nat \<Rightarrow> file_reader" where
  "fr_resetReadOffset r off = r\<lparr>rfileOffset := off, rbufferOffset := 0, rbufferSize := 0\<rparr>"

definition fr_getReadOffset :: "file_reader \<Rightarrow> nat" where
  "fr_getReadOffset r = rfileOffset r - rbufferSize r + rbufferOffset r"

section \<open>InMemFileWriter\<close>

record mem_writer =
  mpages :: "u8 list list"
  mpageOffset :: nat

definition InMemFileWriter_new :: mem_writer where
  "InMemFileWriter_new = \<lparr>mpages = [], mpageOffset = 0\<rparr>"

definition needNewBuffer :: "nat \<Rightarrow> mem_writer \<Rightarrow> nat \<Rightarrow> bool" where
  "needNewBuffer P w numBytes = (mpages w = [] \<or> mpageOffset w + numBytes > P)"

text \<open>Copying the next \<open>toCopy\<close> bytes to the page offset of the last page.\<close>

definition mw_copyToLast :: "u8 list \<Rightarrow> nat \<Rightarrow> nat \<Rightarrow> mem_writer \<Rightarrow> mem_writer res" where
  "mw_copyToLast bs remaining toCopy w =
     bindR (copyFromMem bs (length bs - remaining) toCopy) (\<lambda>part.
     bindR (copyInto (last (mpages w)) (mpageOffset w) part) (\<lambda>page.
     Inr (w\<lparr>mpages := butlast (mpages w) @ [page]\<rparr>)))"

text \<open>One round of the loop of \<^verbatim>\<open>write\<close>: the bytes remaining and the new state.\<close>

definition mw_round :: "nat \<Rightarrow> u8 list \<Rightarrow> u8 list \<Rightarrow> nat \<Rightarrow> mem_writer \<Rightarrow> (nat \<times> mem_writer) res" where
  "mw_round P fresh bs remaining w =
     bindR (if needNewBuffer P w (length bs) then
              bindR (if mpages w = [] then Inr (remaining, w)
                     else
                       let toCopy = min (length bs) (P - mpageOffset w) in
                       bindR (mw_copyToLast bs remaining toCopy w) (\<lambda>w.
                       Inr (remaining - toCopy, w))) (\<lambda>(remaining, w).
              Inr (remaining, w\<lparr>mpages := mpages w @ [fresh], mpageOffset := 0\<rparr>))
            else Inr (remaining, w)) (\<lambda>(remaining, w).
     let toCopy = min remaining (P - mpageOffset w) in
     bindR (mw_copyToLast bs remaining toCopy w) (\<lambda>w.
     Inr (remaining - toCopy, w\<lparr>mpageOffset := mpageOffset w + toCopy\<rparr>)))"

partial_function (option) mw_loop ::
  "nat \<Rightarrow> u8 list \<Rightarrow> u8 list \<Rightarrow> nat \<Rightarrow> mem_writer \<Rightarrow> mem_writer res option" where
  "mw_loop P fresh bs remaining w =
     (if remaining > 0
      then (case mw_round P fresh bs remaining w of
              Inl e \<Rightarrow> Some (Inl e)
            | Inr st \<Rightarrow> mw_loop P fresh bs (fst st) (snd st))
      else Some (Inr w))"

definition mw_write :: "nat \<Rightarrow> u8 list \<Rightarrow> mem_writer \<Rightarrow> u8 list \<Rightarrow> mem_writer res option" where
  "mw_write P fresh w bs = mw_loop P fresh bs (length bs) w"

definition mw_getSize :: "nat \<Rightarrow> mem_writer \<Rightarrow> nat" where
  "mw_getSize P w = (if length (mpages w) > 1 then P * (length (mpages w) - 1) else 0) + mpageOffset w"

definition mw_clear :: "mem_writer \<Rightarrow> mem_writer" where
  "mw_clear w = w\<lparr>mpages := [], mpageOffset := 0\<rparr>"

definition mw_flush :: "nat \<Rightarrow> mem_writer \<Rightarrow> file_writer \<Rightarrow> file_writer res" where
  "mw_flush P w out =
     foldR (\<lambda>i out.
       let sizeToFlush = (if i = length (mpages w) - 1 then mpageOffset w else P) in
       bindR (nthR (mpages w) i) (\<lambda>page.
       bindR (copyFromMem page 0 sizeToFlush) (fw_write P out))) [0..<length (mpages w)] out"

section \<open>The contracts\<close>

fun writeMany :: "('w \<Rightarrow> u8 list \<Rightarrow> 'w res option) \<Rightarrow> 'w \<Rightarrow> u8 list list \<Rightarrow> 'w res option" where
  "writeMany wr w [] = Some (Inr w)"
| "writeMany wr w (bs # bss) =
     (case wr w bs of
        None \<Rightarrow> None | Some (Inl e) \<Rightarrow> Some (Inl e) | Some (Inr w') \<Rightarrow> writeMany wr w' bss)"

locale byte_writer =
  fixes wr :: "'w \<Rightarrow> u8 list \<Rightarrow> 'w res option" and content :: "'w \<Rightarrow> u8 list" and ok :: "'w \<Rightarrow> bool"
  assumes write_appends: "ok w \<Longrightarrow> \<exists>w'. wr w bs = Some (Inr w') \<and> ok w' \<and> content w' = content w @ bs"
begin

lemma writeMany_appends:
  "ok w \<Longrightarrow> \<exists>w'. writeMany wr w bss = Some (Inr w') \<and> ok w' \<and> content w' = content w @ concat bss"
proof (induction bss arbitrary: w)
  case (Cons bs bss)
  obtain w1 where "wr w bs = Some (Inr w1)" "ok w1" "content w1 = content w @ bs"
    using write_appends [OF Cons.prems] by blast
  with Cons.IH [of w1] show ?case by auto
qed simp

end

fun readPieces ::
  "('r \<Rightarrow> nat \<Rightarrow> (u8 list \<times> 'r) res) \<Rightarrow> 'r \<Rightarrow> nat list \<Rightarrow> (u8 list list \<times> 'r) res" where
  "readPieces rd r [] = Inr ([], r)"
| "readPieces rd r (n # ns) =
     bindR (rd r n) (\<lambda>(bs, r). bindR (readPieces rd r ns) (\<lambda>(bss, r). Inr (bs # bss, r)))"

locale byte_reader =
  fixes rd :: "'r \<Rightarrow> nat \<Rightarrow> (u8 list \<times> 'r) res" and unread :: "'r \<Rightarrow> u8 list" and ok :: "'r \<Rightarrow> bool"
  assumes read_takes: "ok r \<Longrightarrow> n \<le> length (unread r) \<Longrightarrow>
    \<exists>r'. rd r n = Inr (take n (unread r), r') \<and> ok r' \<and> unread r' = drop n (unread r)"
begin

text \<open>A reader of this contract can stand for the byte list a deserializer consumes.\<close>

lemma implements_readBytes:
  "ok r \<Longrightarrow> readBytes n (unread r) = Inr (bs, rest) \<Longrightarrow> \<exists>r'. rd r n = Inr (bs, r') \<and> ok r' \<and> unread r' = rest"
  using read_takes [of r n] by (auto simp: readBytes_def split: if_splits)

lemma readPieces_takes:
  "ok r \<Longrightarrow> unread r = concat bss @ rest \<Longrightarrow>
    \<exists>r'. readPieces rd r (map length bss) = Inr (bss, r') \<and> ok r' \<and> unread r' = rest"
proof (induction bss arbitrary: r)
  case (Cons bs bss)
  obtain r1 where "rd r (length bs) = Inr (bs, r1)" "ok r1" "unread r1 = concat bss @ rest"
    using read_takes [OF Cons.prems(1), of "length bs"] Cons.prems(2) by auto
  with Cons.IH [of r1] show ?case by auto
qed simp

end

lemma copyInto_ok [simp]:
  "off + length bs \<le> length dst \<Longrightarrow> copyInto dst off bs = Inr (take off dst @ bs @ drop (off + length bs) dst)"
  by (simp add: copyInto_def)

lemma copyFromMem_ok [simp]: "off + n \<le> length src \<Longrightarrow> copyFromMem src off n = Inr (take n (drop off src))"
  by (simp add: copyFromMem_def)

section \<open>BufferWriter and BufferReader keep a stream\<close>

lemma growTo_enough:
  assumes "0 < m"
  shows "\<exists>m'. growTo m need = Some m' \<and> need \<le> m' \<and> m \<le> m'"
  using assms
proof (induction "need - m" arbitrary: m rule: less_induct)
  case less
  show ?case
  proof (cases "need > m * 2")
    case True
    with less.prems have "need - m * 2 < need - m" "0 < m * 2" by auto
    from less.hyps [OF this] True show ?thesis by (subst growTo.simps) auto
  next
    case False
    then show ?thesis by (subst growTo.simps) auto
  qed
qed

definition bw_ok :: "buffer_writer \<Rightarrow> bool" where
  "bw_ok w \<longleftrightarrow> 0 < maximumSize w \<and> length (blobData w) = maximumSize w \<and> blobSize w \<le> maximumSize w"

definition bw_content :: "buffer_writer \<Rightarrow> u8 list" where
  "bw_content w = take (blobSize w) (blobData w)"

interpretation buffer_writer: byte_writer BufferWriter_write bw_content bw_ok
proof unfold_locales
  fix w bs
  assume ok: "bw_ok w"
  show "\<exists>w'. BufferWriter_write w bs = Some (Inr w') \<and> bw_ok w' \<and> bw_content w' = bw_content w @ bs"
  proof (cases "blobSize w + length bs \<ge> maximumSize w")
    case True
    obtain m where m: "growTo (maximumSize w) (blobSize w + length bs) = Some m"
        "blobSize w + length bs \<le> m" "maximumSize w \<le> m"
      using growTo_enough [of "maximumSize w" "blobSize w + length bs"] ok by (auto simp: bw_ok_def)
    then show ?thesis
      using True ok by (auto simp: BufferWriter_write_def bw_ok_def bw_content_def)
  next
    case False
    then show ?thesis
      using ok by (auto simp: BufferWriter_write_def bw_ok_def bw_content_def)
  qed
qed

definition br_ok :: "buffer_reader \<Rightarrow> bool" where
  "br_ok r \<longleftrightarrow> length (readData r) = dataSize r \<and> readSize r \<le> dataSize r"

definition br_unread :: "buffer_reader \<Rightarrow> u8 list" where
  "br_unread r = drop (readSize r) (readData r)"

interpretation buffer_reader: byte_reader BufferReader_read br_unread br_ok
  by unfold_locales (auto simp: BufferReader_read_def br_ok_def br_unread_def add.commute)

section \<open>BufferedFileWriter keeps a stream\<close>

definition fw_ok :: "nat \<Rightarrow> file_writer \<Rightarrow> bool" where
  "fw_ok P w \<longleftrightarrow> length (wbuffer w) = P \<and> wbufferOffset w \<le> P \<and> wfileOffset w \<le> length (wfile w)"

definition fw_content :: "file_writer \<Rightarrow> u8 list" where
  "fw_content w = take (wfileOffset w) (wfile w) @ take (wbufferOffset w) (wbuffer w)"

lemma take_writeFile:
  "off \<le> length file \<Longrightarrow> take (off + length bs) (writeFile file off bs) = take off file @ bs"
  by (simp add: writeFile_def)

lemma length_writeFile: "off \<le> length file \<Longrightarrow> off + length bs \<le> length (writeFile file off bs)"
  by (simp add: writeFile_def)

lemma fw_flush_keeps:
  assumes "fw_ok P w"
  shows "fw_ok P (fw_flush P w)" "fw_content (fw_flush P w) = fw_content w"
    "wbufferOffset (fw_flush P w) = 0"
  using assms take_writeFile [of "wfileOffset w" "wfile w" "take (wbufferOffset w) (wbuffer w)"]
    length_writeFile [of "wfileOffset w" "wfile w" "take (wbufferOffset w) (wbuffer w)"]
  by (auto simp: fw_ok_def fw_content_def fw_flush_def)

lemma fw_direct:
  fixes bs :: "u8 list"
  assumes "fw_ok P w" "wbufferOffset w = 0"
  defines "w' \<equiv> w\<lparr>wfile := writeFile (wfile w) (wfileOffset w) bs, wfileOffset := wfileOffset w + length bs\<rparr>"
  shows "fw_ok P w'" "fw_content w' = fw_content w @ bs"
  using assms take_writeFile [of "wfileOffset w" "wfile w" bs]
    length_writeFile [of "wfileOffset w" "wfile w" bs]
  by (auto simp: fw_ok_def fw_content_def)

lemma fw_buffered:
  assumes "fw_ok P w" "wbufferOffset w + length bs \<le> P"
  defines "w' \<equiv> w\<lparr>wbuffer := take (wbufferOffset w) (wbuffer w) @ bs @ drop (wbufferOffset w + length bs) (wbuffer w),
    wbufferOffset := wbufferOffset w + length bs\<rparr>"
  shows "fw_ok P w'" "fw_content w' = fw_content w @ bs"
    "copyInto (wbuffer w) (wbufferOffset w) bs = Inr (wbuffer w')"
  using assms by (auto simp: fw_ok_def fw_content_def)

lemma fw_write_appends:
  assumes ok: "fw_ok P w"
  shows "\<exists>w'. fw_write P w bs = Inr w' \<and> fw_ok P w' \<and> fw_content w' = fw_content w @ bs"
proof -
  consider (large) "length bs > P" | (fits) "length bs \<le> P" "wbufferOffset w + length bs \<le> P"
    | (split) "length bs \<le> P" "\<not> wbufferOffset w + length bs \<le> P" by linarith
  then show ?thesis
  proof cases
    case large
    then show ?thesis
      using fw_direct [OF fw_flush_keeps(1,3) [OF ok], of bs] fw_flush_keeps(2) [OF ok]
      by (auto simp: fw_write_def Let_def)
  next
    case fits
    then show ?thesis using fw_buffered [OF ok fits(2)] by (auto simp: fw_write_def)
  next
    case split
    define k where "k = P - wbufferOffset w"
    have k: "wbufferOffset w + length (take k bs) \<le> P" "length (take k bs) = k"
      using split ok by (auto simp: k_def fw_ok_def)
    define w1 where "w1 = w\<lparr>wbuffer := take (wbufferOffset w) (wbuffer w) @ take k bs @
        drop (wbufferOffset w + k) (wbuffer w), wbufferOffset := wbufferOffset w + k\<rparr>"
    note first = fw_buffered [OF ok k(1), unfolded k(2), folded w1_def]
    let ?w2 = "fw_flush P w1"
    note flushed = fw_flush_keeps [OF first(1)]
    have rest: "wbufferOffset ?w2 + length (drop k bs) \<le> P" using flushed(3) split(1) by simp
    note second = fw_buffered [OF flushed(1) rest]
    have "fw_write P w bs = Inr (?w2\<lparr>wbuffer := drop k bs @ drop (length (drop k bs)) (wbuffer ?w2),
        wbufferOffset := length (drop k bs)\<rparr>)"
      using split first(3) second(3) flushed(3)
      by (simp add: fw_write_def Let_def k_def [symmetric] w1_def)
    then show ?thesis using second(1,2) first(2) flushed(2,3) by auto
  qed
qed

interpretation file_writer: byte_writer "\<lambda>w bs. Some (fw_write P w bs)" fw_content "fw_ok P" for P
  by unfold_locales (use fw_write_appends in blast)

section \<open>BufferedFileReader reads the file in order\<close>

definition fr_ok :: "nat \<Rightarrow> file_reader \<Rightarrow> bool" where
  "fr_ok P r \<longleftrightarrow> length (rbuffer r) = P \<and> rbufferOffset r \<le> rbufferSize r \<and> rbufferSize r \<le> P
     \<and> rbufferSize r \<le> rfileOffset r \<and> rfileOffset r \<le> rfileSize r \<and> rfileSize r = length (rfile r)
     \<and> drop (rbufferOffset r) (take (rbufferSize r) (rbuffer r)) =
         take (rbufferSize r - rbufferOffset r) (drop (fr_getReadOffset r) (rfile r))"

definition fr_unread :: "file_reader \<Rightarrow> u8 list" where
  "fr_unread r = drop (fr_getReadOffset r) (rfile r)"

lemma readNextPage_ok:
  assumes "length (rbuffer r) = P" "rfileSize r = length (rfile r)" "rfileOffset r < rfileSize r"
  defines "n \<equiv> min (rfileSize r - rfileOffset r) P"
  shows "\<exists>r'. readNextPage P r = Inr r' \<and> fr_ok P r' \<and> fr_getReadOffset r' = rfileOffset r
    \<and> rfile r' = rfile r \<and> rbufferOffset r' = 0 \<and> rbufferSize r' = n
    \<and> take n (rbuffer r') = take n (drop (rfileOffset r) (rfile r))"
proof -
  have "readFromFile (rfile r) n (rfileOffset r) = Inr (take n (drop (rfileOffset r) (rfile r)))"
    using assms by (simp add: readFromFile_def)
  moreover have "n \<le> length (rbuffer r)" "n \<le> length (rfile r) - rfileOffset r"
    using assms by (auto simp: n_def)
  moreover define r' where "r' = r\<lparr>rbufferSize := n,
      rbuffer := take n (drop (rfileOffset r) (rfile r)) @ drop n (rbuffer r),
      rfileOffset := rfileOffset r + n, rbufferOffset := 0\<rparr>"
  ultimately have "readNextPage P r = Inr r'"
    using assms(3) unfolding readNextPage_def Let_def n_def [symmetric] by (simp add: min_def)
  moreover have "fr_ok P r'"
    using assms(1-3) \<open>n \<le> length (rbuffer r)\<close> \<open>n \<le> length (rfile r) - rfileOffset r\<close>
    by (auto simp: fr_ok_def fr_getReadOffset_def r'_def)
  ultimately show ?thesis
    using \<open>n \<le> length (rfile r) - rfileOffset r\<close> by (auto simp: fr_getReadOffset_def r'_def)
qed

lemma fr_advance:
  assumes ok: "fr_ok P r" and n: "rbufferOffset r + n \<le> rbufferSize r"
  shows "fr_ok P (r\<lparr>rbufferOffset := rbufferOffset r + n\<rparr>)"
    and "fr_unread (r\<lparr>rbufferOffset := rbufferOffset r + n\<rparr>) = drop n (fr_unread r)"
proof -
  let ?r = "r\<lparr>rbufferOffset := rbufferOffset r + n\<rparr>" and ?pos = "fr_getReadOffset r"
  let ?left = "rbufferSize r - rbufferOffset r"
  have pos': "fr_getReadOffset ?r = ?pos + n" by (simp add: fr_getReadOffset_def)
  have "drop (rbufferOffset r + n) (take (rbufferSize r) (rbuffer r)) =
      drop n (drop (rbufferOffset r) (take (rbufferSize r) (rbuffer r)))"
    by (simp add: add.commute)
  also have "\<dots> = drop n (take ?left (drop ?pos (rfile r)))"
    using ok by (simp add: fr_ok_def)
  also have "\<dots> = take (rbufferSize r - (rbufferOffset r + n)) (drop (?pos + n) (rfile r))"
    by (simp add: drop_take add.commute)
  finally show "fr_ok P ?r" using ok n unfolding fr_ok_def pos' by simp
  show "fr_unread ?r = drop n (fr_unread r)" unfolding fr_unread_def pos' by (simp add: add.commute)
qed

lemma take_append_drop_take: "take k xs @ take m (drop k xs) = take (k + m) xs"
  by (metis take_add)

lemma fr_read_takes:
  assumes ok: "fr_ok P r" and n: "n \<le> length (fr_unread r)"
  shows "\<exists>r'. fr_read P r n = Inr (take n (fr_unread r), r') \<and> fr_ok P r' \<and> fr_unread r' = drop n (fr_unread r)"
proof -
  let ?pos = "fr_getReadOffset r" and ?left = "rbufferSize r - rbufferOffset r"
  have pos: "?pos + ?left = rfileOffset r" "?pos \<le> length (rfile r)"
    using ok by (auto simp: fr_ok_def fr_getReadOffset_def)
  have n': "?pos + n \<le> length (rfile r)" using n pos(2) by (simp add: fr_unread_def)
  consider (large) "n > P" | (fits) "n \<le> P" "rbufferOffset r + n \<le> rbufferSize r"
    | (split) "n \<le> P" "\<not> rbufferOffset r + n \<le> rbufferSize r" by linarith
  then show ?thesis
  proof cases
    case large
    then show ?thesis
      using ok n' by (auto simp: fr_read_def readFromFile_def Let_def fr_ok_def fr_unread_def
          fr_getReadOffset_def add.commute)
  next
    case fits
    have "take n (drop (rbufferOffset r) (rbuffer r)) =
        take n (drop (rbufferOffset r) (take (rbufferSize r) (rbuffer r)))"
      using fits by (simp add: drop_take)
    also have "\<dots> = take n (drop ?pos (rfile r))"
      using ok fits by (simp add: fr_ok_def min_def)
    finally have bytes: "take n (drop (rbufferOffset r) (rbuffer r)) = take n (drop ?pos (rfile r))" .
    then have "fr_read P r n = Inr (take n (fr_unread r), r\<lparr>rbufferOffset := rbufferOffset r + n\<rparr>)"
      using ok fits by (simp add: fr_read_def fr_ok_def fr_unread_def)
    then show ?thesis using fr_advance [OF ok fits(2)] by blast
  next
    case split
    let ?r = "r\<lparr>rbufferOffset := rbufferOffset r + ?left\<rparr>"
    have le: "rbufferOffset r \<le> rbufferSize r" using ok by (simp add: fr_ok_def)
    have lt: "rfileOffset ?r < rfileSize ?r" using split n' pos ok by (auto simp: fr_ok_def)
    obtain r' where r': "readNextPage P ?r = Inr r'" "fr_ok P r'"
        "fr_getReadOffset r' = rfileOffset r" "rfile r' = rfile r" "rbufferOffset r' = 0"
        "rbufferSize r' = min (rfileSize r - rfileOffset r) P"
        "take (rbufferSize r') (rbuffer r') = take (rbufferSize r') (drop (rfileOffset r) (rfile r))"
      using readNextPage_ok [of ?r P] lt ok by (auto simp: fr_ok_def)
    let ?m = "n - ?left"
    have m: "?m \<le> rbufferSize r'" using split n' pos ok r'(6) by (auto simp: fr_ok_def)
    have first: "copyFromMem (rbuffer r) (rbufferOffset r) ?left = Inr (take ?left (drop ?pos (rfile r)))"
      using ok by (auto simp: fr_ok_def drop_take)
    have "take ?m (rbuffer r') = take ?m (take (rbufferSize r') (rbuffer r'))"
      using m by (simp add: min_def)
    also have "\<dots> = take ?m (drop (rfileOffset r) (rfile r))" unfolding r'(7) using m by (simp add: min_def)
    finally have second: "copyFromMem (rbuffer r') 0 ?m = Inr (take ?m (drop (rfileOffset r) (rfile r)))"
      using m r'(2) by (simp add: fr_ok_def)
    have "take ?left (drop ?pos (rfile r)) @ take ?m (drop (rfileOffset r) (rfile r)) =
        take n (drop ?pos (rfile r))"
      using take_append_drop_take [of ?left "drop ?pos (rfile r)" ?m] split pos(1)
      by (simp add: add.commute)
    then have "fr_read P r n = Inr (take n (fr_unread r), r'\<lparr>rbufferOffset := rbufferOffset r' + ?m\<rparr>)"
      using le split first second r'(1) by (simp add: fr_read_def Let_def fr_unread_def)
    moreover have "drop ?m (fr_unread r') = drop n (fr_unread r)"
    proof -
      have "?m + rfileOffset r = n + ?pos" using split(2) pos(1) by arith
      then show ?thesis unfolding fr_unread_def r'(3,4) drop_drop by (simp only:)
    qed
    moreover have "rbufferOffset r' + ?m \<le> rbufferSize r'" using m r'(5) by simp
    ultimately show ?thesis using fr_advance [OF r'(2), of ?m] by auto
  qed
qed

interpretation file_reader: byte_reader "fr_read P" fr_unread "fr_ok P" for P
  by unfold_locales (rule fr_read_takes)

section \<open>InMemFileWriter keeps a stream\<close>

definition mw_ok :: "nat \<Rightarrow> mem_writer \<Rightarrow> bool" where
  "mw_ok P w \<longleftrightarrow> (\<forall>p \<in> set (mpages w). length p = P) \<and> mpageOffset w \<le> P \<and> (mpages w = [] \<longrightarrow> mpageOffset w = 0)"

definition mw_content :: "mem_writer \<Rightarrow> u8 list" where
  "mw_content w = concat (butlast (mpages w)) @ take (mpageOffset w) (last (mpages w))"

lemma mw_copyToLast_ok:
  assumes ok: "mw_ok P w" "mpages w \<noteq> []" and k: "k \<le> remaining" "remaining \<le> length bs"
    and room: "mpageOffset w + k \<le> P"
  shows "\<exists>w'. mw_copyToLast bs remaining k w = Inr w' \<and> mpages w' \<noteq> [] \<and> mpageOffset w' = mpageOffset w
    \<and> mw_ok P (w'\<lparr>mpageOffset := mpageOffset w + k\<rparr>)
    \<and> mw_content (w'\<lparr>mpageOffset := mpageOffset w + k\<rparr>) =
        mw_content w @ take k (drop (length bs - remaining) bs)"
proof -
  let ?part = "take k (drop (length bs - remaining) bs)"
  have len: "length ?part = k" using k by simp
  have "length (last (mpages w)) = P" using ok by (auto simp: mw_ok_def)
  moreover from this have "copyInto (last (mpages w)) (mpageOffset w) ?part =
      Inr (take (mpageOffset w) (last (mpages w)) @ ?part @ drop (mpageOffset w + k) (last (mpages w)))"
    using room len by simp
  ultimately show ?thesis
    using k room len ok
    by (auto simp: mw_copyToLast_def mw_ok_def mw_content_def dest: in_set_butlastD)
qed

text \<open>Starting a new page once the last one is full.\<close>

lemma mw_new_page:
  assumes ok: "mw_ok P w" and full: "mpages w = [] \<or> mpageOffset w = P" and fresh: "length fresh = P"
  shows "mw_ok P (w\<lparr>mpages := mpages w @ [fresh], mpageOffset := 0\<rparr>)"
    and "mw_content (w\<lparr>mpages := mpages w @ [fresh], mpageOffset := 0\<rparr>) = mw_content w"
proof -
  have "concat (butlast (mpages w)) @ last (mpages w) = concat (mpages w)" if "mpages w \<noteq> []"
    using that by (metis append_butlast_last_id concat_append concat.simps append_Nil2)
  moreover have "take P (last (mpages w)) = last (mpages w)" if "mpages w \<noteq> []"
    using ok that by (simp add: mw_ok_def)
  ultimately show "mw_content (w\<lparr>mpages := mpages w @ [fresh], mpageOffset := 0\<rparr>) = mw_content w"
    using ok full by (cases "mpages w = []") (auto simp: mw_ok_def mw_content_def)
  show "mw_ok P (w\<lparr>mpages := mpages w @ [fresh], mpageOffset := 0\<rparr>)"
    using ok fresh by (auto simp: mw_ok_def)
qed

text \<open>The copy at the end of a round, with \<open>remaining\<close> bytes still to be written.\<close>

lemma mw_tail_ok:
  assumes ok: "mw_ok P w" "mpages w \<noteq> []" and rem: "remaining \<le> length bs"
  defines "k \<equiv> min remaining (P - mpageOffset w)"
  shows "\<exists>w'. mw_copyToLast bs remaining k w = Inr w' \<and> mpageOffset w' = mpageOffset w \<and> mpages w' \<noteq> []
    \<and> mw_ok P (w'\<lparr>mpageOffset := mpageOffset w' + k\<rparr>)
    \<and> mw_content (w'\<lparr>mpageOffset := mpageOffset w' + k\<rparr>) =
        mw_content w @ take k (drop (length bs - remaining) bs)"
proof -
  have "k \<le> remaining" "mpageOffset w + k \<le> P" using ok by (auto simp: k_def mw_ok_def)
  then show ?thesis using mw_copyToLast_ok [OF ok, of k remaining bs] rem by auto
qed

lemma mw_round_ok:
  assumes P: "0 < P" "length fresh = P" and ok: "mw_ok P w"
    and rem: "0 < remaining" "remaining \<le> length bs"
    and full: "remaining = length bs \<or> mpages w \<noteq> [] \<and> mpageOffset w = P"
  shows "\<exists>rem' w'. mw_round P fresh bs remaining w = Inr (rem', w') \<and> rem' < remaining \<and> mw_ok P w' \<and> 0 < mpageOffset w'
    \<and> (0 < rem' \<longrightarrow> mpages w' \<noteq> [] \<and> mpageOffset w' = P)
    \<and> mw_content w' = mw_content w @ take (remaining - rem') (drop (length bs - remaining) bs)"
proof -
  consider (room) "mpages w \<noteq> []" "mpageOffset w + length bs \<le> P" | (empty) "mpages w = []"
    | (next_page) "mpages w \<noteq> []" "mpageOffset w + length bs > P" by linarith
  then show ?thesis
  proof cases
    case room
    then have all: "remaining = length bs" "min remaining (P - mpageOffset w) = remaining"
      using full rem by auto
    obtain w' where "mw_copyToLast bs remaining remaining w = Inr w'" "mpageOffset w' = mpageOffset w"
        "mw_ok P (w'\<lparr>mpageOffset := mpageOffset w' + remaining\<rparr>)"
        "mw_content (w'\<lparr>mpageOffset := mpageOffset w' + remaining\<rparr>) = mw_content w @ bs"
      using mw_tail_ok [OF ok room(1) rem(2)] all by auto
    then show ?thesis
      using room rem all by (auto simp: mw_round_def needNewBuffer_def Let_def)
  next
    case empty
    let ?w = "w\<lparr>mpages := mpages w @ [fresh], mpageOffset := 0\<rparr>" and ?k = "min remaining P"
    note new = mw_new_page [OF ok disjI1 [OF empty] P(2)]
    obtain w' where "mw_copyToLast bs remaining ?k ?w = Inr w'" "mpageOffset w' = 0" "mpages w' \<noteq> []"
        "mw_ok P (w'\<lparr>mpageOffset := mpageOffset w' + ?k\<rparr>)"
        "mw_content (w'\<lparr>mpageOffset := mpageOffset w' + ?k\<rparr>) =
          mw_content w @ take ?k (drop (length bs - remaining) bs)"
      using mw_tail_ok [OF new(1) _ rem(2)] new(2) by auto
    then show ?thesis
      using empty rem(1) P(1) by (auto simp: mw_round_def needNewBuffer_def Let_def min_def)
  next
    case next_page
    let ?k1 = "P - mpageOffset w" and ?n = "length bs"
    have k1: "min ?n ?k1 = ?k1" "?k1 < remaining" "mpageOffset w + ?k1 = P"
      using next_page full rem ok by (auto simp: mw_ok_def)
    obtain w1 where w1: "mw_copyToLast bs remaining ?k1 w = Inr w1"
        "mw_ok P (w1\<lparr>mpageOffset := P\<rparr>)"
        "mw_content (w1\<lparr>mpageOffset := P\<rparr>) = mw_content w @ take ?k1 (drop (?n - remaining) bs)"
      using mw_copyToLast_ok [OF ok next_page(1), of ?k1 remaining bs] k1 rem by auto
    let ?w2 = "w1\<lparr>mpages := mpages w1 @ [fresh], mpageOffset := 0\<rparr>"
    let ?rem = "remaining - ?k1" let ?k2 = "min ?rem P"
    note new = mw_new_page [OF w1(2) disjI2 P(2), simplified]
    have le: "?rem \<le> ?n" using rem(2) by simp
    obtain w' where w': "mw_copyToLast bs ?rem ?k2 ?w2 = Inr w'" "mpageOffset w' = 0" "mpages w' \<noteq> []"
        "mw_ok P (w'\<lparr>mpageOffset := mpageOffset w' + ?k2\<rparr>)"
        "mw_content (w'\<lparr>mpageOffset := mpageOffset w' + ?k2\<rparr>) =
          mw_content (w1\<lparr>mpageOffset := P\<rparr>) @ take ?k2 (drop (?n - ?rem) bs)"
      using mw_tail_ok [OF new(1) _ le] new(2) by auto
    have drop: "drop (?n - ?rem) bs = drop ?k1 (drop (?n - remaining) bs)"
      using k1(2) rem(2) by (simp add: add.commute)
    have "mw_round P fresh bs remaining w = Inr (?rem - ?k2, w'\<lparr>mpageOffset := mpageOffset w' + ?k2\<rparr>)"
      using next_page k1(1) w1(1) w'(1) by (simp add: mw_round_def needNewBuffer_def Let_def)
    moreover have "mw_content (w'\<lparr>mpageOffset := mpageOffset w' + ?k2\<rparr>) =
        mw_content w @ take (remaining - (?rem - ?k2)) (drop (?n - remaining) bs)"
    proof -
      have "remaining - (?rem - ?k2) = ?k1 + ?k2" using k1(2) by simp
      then show ?thesis unfolding w'(5) w1(3) drop by (simp only: take_add append_assoc)
    qed
    ultimately show ?thesis using w'(2-4) k1(2) P(1) rem(1) by (auto simp: min_def)
  qed
qed

lemma mw_loop_ok:
  assumes P: "0 < P" "length fresh = P" and "mw_ok P w" "remaining \<le> length bs"
    and "remaining = 0 \<or> remaining = length bs \<or> mpages w \<noteq> [] \<and> mpageOffset w = P"
  shows "\<exists>w'. mw_loop P fresh bs remaining w = Some (Inr w') \<and> mw_ok P w'
    \<and> mw_content w' = mw_content w @ drop (length bs - remaining) bs \<and> (w' = w \<or> 0 < mpageOffset w')"
  using assms(3-)
proof (induction remaining arbitrary: w rule: less_induct)
  case (less remaining)
  show ?case
  proof (cases "remaining = 0")
    case True
    then show ?thesis using less.prems by (subst mw_loop.simps) simp
  next
    case False
    then obtain rem' w' where round: "mw_round P fresh bs remaining w = Inr (rem', w')" "rem' < remaining"
        "mw_ok P w'" "0 < rem' \<longrightarrow> mpages w' \<noteq> [] \<and> mpageOffset w' = P"
        "mw_content w' = mw_content w @ take (remaining - rem') (drop (length bs - remaining) bs)" "0 < mpageOffset w'"
      using mw_round_ok [OF P less.prems(1), of remaining bs] less.prems by auto
    obtain w2 where w2: "mw_loop P fresh bs rem' w' = Some (Inr w2)" "mw_ok P w2"
        "mw_content w2 = mw_content w' @ drop (length bs - rem') bs" "w2 = w' \<or> 0 < mpageOffset w2"
      using less.IH [OF round(2,3)] round(2,4) less.prems(2) by auto
    have "drop (length bs - rem') bs = drop (remaining - rem') (drop (length bs - remaining) bs)"
      using round(2) less.prems(2) by simp
    then have "mw_content w2 = mw_content w @ drop (length bs - remaining) bs"
      unfolding w2(3) round(5) by (simp only: append_assoc append_take_drop_id)
    then show ?thesis
      using False round(1,6) w2(1,2,4) by (subst mw_loop.simps) auto
  qed
qed

locale page_size =
  fixes P :: nat and fresh :: "u8 list"
  assumes page_pos: "0 < P" and fresh_page: "length fresh = P"
begin

sublocale mem_writer: byte_writer "mw_write P fresh" mw_content "mw_ok P"
proof unfold_locales
  fix w bs
  assume "mw_ok P w"
  then show "\<exists>w'. mw_write P fresh w bs = Some (Inr w') \<and> mw_ok P w' \<and> mw_content w' = mw_content w @ bs"
    using mw_loop_ok [OF page_pos fresh_page, of w "length bs" bs] by (auto simp: mw_write_def)
qed

end

context page_size
begin

lemma mem_writer_fills:
  assumes "mw_ok P w"
  shows "\<exists>w'. writeMany (mw_write P fresh) w bss = Some (Inr w') \<and> mw_ok P w' \<and> mw_content w' = mw_content w @ concat bss
    \<and> (w' = w \<or> 0 < mpageOffset w')"
  using assms
proof (induction bss arbitrary: w)
  case (Cons bs bss)
  obtain w1 where w1: "mw_write P fresh w bs = Some (Inr w1)" "mw_ok P w1" "mw_content w1 = mw_content w @ bs" "w1 = w \<or> 0 < mpageOffset w1"
    using mw_loop_ok [OF page_pos fresh_page Cons.prems, of "length bs" bs] by (auto simp: mw_write_def)
  then show ?case using Cons.IH [OF w1(2)] by auto
qed simp

text \<open>Writing takes no more new pages than the bytes need.\<close>

lemma mem_writer_pages:
  assumes "mw_ok P w" "length (concat bss) \<le> n * P"
  shows "\<exists>w'. writeMany (mw_write P fresh) w bss = Some (Inr w') \<and> length (mpages w') \<le> length (mpages w) + n"
proof -
  have content: "length (mw_content v) = (length (mpages v) - 1) * P + mpageOffset v" if "mw_ok P v" for v
  proof (cases "mpages v = []")
    case False
    have "length (concat (butlast (mpages v))) = (length (mpages v) - 1) * P"
    proof -
      have "\<forall>p \<in> set (butlast (mpages v)). length p = P" using that by (auto simp: mw_ok_def dest: in_set_butlastD)
      then have "map length (butlast (mpages v)) = replicate (length (mpages v) - 1) P" by (auto intro!: nth_equalityI)
      then show ?thesis by (simp add: length_concat sum_list_replicate)
    qed
    then show ?thesis using False that by (simp add: mw_content_def mw_ok_def)
  qed (use that in \<open>simp add: mw_content_def mw_ok_def\<close>)
  obtain w' where w': "writeMany (mw_write P fresh) w bss = Some (Inr w')" "mw_ok P w'" "mw_content w' = mw_content w @ concat bss"
    "w' = w \<or> 0 < mpageOffset w'" using mem_writer_fills [OF assms(1)] by blast
  have "length (mpages w') \<le> length (mpages w) + n" if "0 < mpageOffset w'"
  proof -
    have "(length (mpages w') - 1) * P < length (mw_content w')" using content [OF w'(2)] that by simp
    also have "\<dots> \<le> length (mw_content w) + n * P" using assms(2) by (simp add: w'(3))
    also have "\<dots> \<le> (length (mpages w) + n) * P"
      using content [OF assms(1)] assms(1) by (cases "mpages w = []") (auto simp: mw_ok_def algebra_simps diff_mult_distrib Suc_leI dest: le_Suc_ex)
    finally have "length (mpages w') - 1 < length (mpages w) + n" by simp
    then show ?thesis by simp
  qed
  then show ?thesis using w'(1,4) by auto
qed

lemma mem_writer_stores:
  "\<exists>w. writeMany (mw_write P fresh) InMemFileWriter_new bss = Some (Inr w) \<and> mw_ok P w \<and> mw_content w = concat bss"
proof -
  have "mw_ok P InMemFileWriter_new" "mw_content InMemFileWriter_new = []"
    by (simp_all add: mw_ok_def mw_content_def InMemFileWriter_new_def)
  then show ?thesis using mem_writer.writeMany_appends [of InMemFileWriter_new bss] by auto
qed

end

interpretation default_page: page_size 4096 "replicate 4096 0"
  by unfold_locales simp_all

lemma concat_take_nth: "i < length xss \<Longrightarrow> concat (take (Suc i) xss) = concat (take i xss) @ xss ! i"
  by (simp add: take_Suc_conv_app_nth)

lemma mw_flush_appends:
  assumes ok: "mw_ok P w" and out: "fw_ok P out"
  shows "\<exists>out'. mw_flush P w out = Inr out' \<and> fw_ok P out' \<and> fw_content out' = fw_content out @ mw_content w"
proof (cases "mpages w = []")
  case True
  then show ?thesis using ok out by (auto simp: mw_flush_def mw_content_def mw_ok_def)
next
  case False
  define n where "n = length (mpages w) - 1"
  define written where "written i = (if i \<le> n then concat (take i (mpages w)) else mw_content w)" for i
  have n: "length (mpages w) = Suc n" using False by (simp add: n_def)
  have content: "mw_content w = concat (take n (mpages w)) @ take (mpageOffset w) (mpages w ! n)"
    using False n by (simp add: mw_content_def butlast_conv_take last_conv_nth)
  have "\<exists>out'. foldR (\<lambda>i out.
       let sizeToFlush = (if i = length (mpages w) - 1 then mpageOffset w else P) in
       bindR (nthR (mpages w) i) (\<lambda>page.
       bindR (copyFromMem page 0 sizeToFlush) (fw_write P out))) [0..<Suc n] out = Inr out'
     \<and> fw_ok P out' \<and> fw_content out' = fw_content out @ written (Suc n)"
  proof (rule foldR_upt_invariant [where I = "\<lambda>i o'. fw_ok P o' \<and> fw_content o' = fw_content out @ written i"])
    show "fw_ok P out \<and> fw_content out = fw_content out @ written 0" using out by (simp add: written_def)
  next
    fix i o'
    assume i: "i < Suc n" and inv: "fw_ok P o' \<and> fw_content o' = fw_content out @ written i"
    let ?k = "if i = n then mpageOffset w else P"
    have page: "length (mpages w ! i) = P" using ok i n by (simp add: mw_ok_def)
    then have k: "?k \<le> length (mpages w ! i)" using ok by (simp add: mw_ok_def)
    obtain o2 where "fw_write P o' (take ?k (mpages w ! i)) = Inr o2" "fw_ok P o2"
        "fw_content o2 = fw_content o' @ take ?k (mpages w ! i)"
      using fw_write_appends inv by blast
    moreover have "written (Suc i) = written i @ take ?k (mpages w ! i)"
      using i n page content by (cases "i = n") (auto simp: written_def concat_take_nth)
    ultimately show "\<exists>s'. (let sizeToFlush = (if i = length (mpages w) - 1 then mpageOffset w else P) in
         bindR (nthR (mpages w) i) (\<lambda>page. bindR (copyFromMem page 0 sizeToFlush) (fw_write P o'))) = Inr s'
       \<and> fw_ok P s' \<and> fw_content s' = fw_content out @ written (Suc i)"
      using i n inv k by (simp add: Let_def n_def [symmetric])
  qed simp
  then show ?thesis by (simp add: mw_flush_def n written_def)
qed

section \<open>Through the file and back\<close>

lemma fw_at_end:
  assumes "fw_ok P w" "wfileOffset w = length (wfile w)"
  shows "fw_write P w bs = Inr w' \<Longrightarrow> wfileOffset w' = length (wfile w')"
    and "wfileOffset (fw_flush P w) = length (wfile (fw_flush P w))"
  using assms
  by (auto simp: fw_ok_def fw_write_def fw_flush_def writeFile_def Let_def copyInto_def split: if_splits)

lemma writeMany_at_end:
  assumes "fw_ok P w" "wfileOffset w = length (wfile w)"
    and "writeMany (\<lambda>w bs. Some (fw_write P w bs)) w bss = Some (Inr w')"
  shows "wfileOffset w' = length (wfile w')"
  using assms
proof (induction bss arbitrary: w)
  case (Cons bs bss)
  obtain w1 where w1: "fw_write P w bs = Inr w1" "fw_ok P w1"
    using fw_write_appends [OF Cons.prems(1)] by blast
  with Cons.prems show ?case using Cons.IH [OF w1(2) fw_at_end(1) [OF Cons.prems(1,2) w1(1)]] by simp
qed simp

lemma fr_new_ok:
  assumes "0 < P" "file \<noteq> []"
  shows "\<exists>r. BufferedFileReader_new P file = Inr r \<and> fr_ok P r \<and> fr_unread r = file"
  using readNextPage_ok [of "\<lparr>rbuffer = replicate P 0, rfileOffset = 0, rbufferOffset = 0, rfile = file,
      rfileSize = length file, rbufferSize = 0\<rparr>" P] assms
  by (auto simp: BufferedFileReader_new_def fr_unread_def)

lemma fr_finished_iff: "fr_ok P r \<Longrightarrow> fr_finished r \<longleftrightarrow> fr_unread r = []"
  by (auto simp: fr_ok_def fr_finished_def fr_unread_def fr_getReadOffset_def)

text \<open>
  C40. Bytes written through a \<^verbatim>\<open>BufferedFileWriter\<close> to an empty file and read back
  through a \<^verbatim>\<open>BufferedFileReader\<close> are the same bytes in the same order, whatever the
  sizes of the pieces are against the page size: small pieces that share a page, pieces that
  straddle a page boundary and pieces larger than the buffer, which bypass it. The reader then
  reports that it is finished.
\<close>

theorem file_round_trip:
  assumes "0 < P" "concat bss \<noteq> []"
  shows "\<exists>w r r'. writeMany (\<lambda>w bs. Some (fw_write P w bs)) (BufferedFileWriter_new P []) bss = Some (Inr w)
    \<and> BufferedFileReader_new P (wfile (fw_flush P w)) = Inr r
    \<and> readPieces (fr_read P) r (map length bss) = Inr (bss, r') \<and> fr_finished r'"
proof -
  let ?w0 = "BufferedFileWriter_new P []"
  have start: "fw_ok P ?w0" "fw_content ?w0 = []" "wfileOffset ?w0 = length (wfile ?w0)"
    by (simp_all add: fw_ok_def fw_content_def BufferedFileWriter_new_def)
  obtain w where w: "writeMany (\<lambda>w bs. Some (fw_write P w bs)) ?w0 bss = Some (Inr w)" "fw_ok P w"
      "fw_content w = concat bss"
    using file_writer.writeMany_appends [OF start(1)] start(2) by fastforce
  have "wfileOffset (fw_flush P w) = length (wfile (fw_flush P w))"
    by (rule fw_at_end(2) [OF w(2) writeMany_at_end [OF start(1,3) w(1)]])
  then have stored: "wfile (fw_flush P w) = concat bss"
    using fw_flush_keeps [OF w(2)] w(3) by (simp add: fw_content_def)
  obtain r where r: "BufferedFileReader_new P (concat bss) = Inr r" "fr_ok P r" "fr_unread r = concat bss"
    using fr_new_ok assms by blast
  obtain r' where "readPieces (fr_read P) r (map length bss) = Inr (bss, r')" "fr_ok P r'" "fr_unread r' = []"
    using file_reader.readPieces_takes [OF r(2), of bss "[]"] r(3) by auto
  then show ?thesis using w(1) r(1) stored fr_finished_iff by auto
qed

theorem file_round_trip_witness:
  "\<exists>w r r'. writeMany (\<lambda>w bs. Some (fw_write 4 w bs)) (BufferedFileWriter_new 4 []) [[1, 2, 3], [4, 5], [6, 7, 8, 9, 10]]
      = Some (Inr w)
    \<and> BufferedFileReader_new 4 (wfile (fw_flush 4 w)) = Inr r
    \<and> readPieces (fr_read 4) r (map length [[1, 2, 3], [4, 5], [6, 7, 8, 9, 10 :: u8]]) =
        Inr ([[1, 2, 3], [4, 5], [6, 7, 8, 9, 10]], r') \<and> fr_finished r'"
  by (rule file_round_trip) simp_all

text \<open>
  An \<^verbatim>\<open>InMemFileWriter\<close> always returns from \<^verbatim>\<open>write\<close>, and
  flushing it to a \<^verbatim>\<open>BufferedFileWriter\<close> appends exactly the bytes that were
  written to it, independent of the contents of the pages it allocated and of how the pieces
  fall on them.
\<close>

theorem mem_writer_flush:
  assumes "0 < P" "length fresh = P" "fw_ok P out"
  shows "\<exists>w out'. writeMany (mw_write P fresh) InMemFileWriter_new bss = Some (Inr w)
    \<and> mw_flush P w out = Inr out' \<and> fw_ok P out' \<and> fw_content out' = fw_content out @ concat bss"
proof -
  obtain w where "writeMany (mw_write P fresh) InMemFileWriter_new bss = Some (Inr w)" "mw_ok P w"
      "mw_content w = concat bss"
    using page_size.mem_writer_stores [OF page_size.intro [OF assms(1,2)]] by blast
  then show ?thesis using mw_flush_appends [OF _ assms(3)] by metis
qed

theorem mem_writer_flush_witness:
  "\<exists>w out'. writeMany (mw_write 3 [7, 7, 7]) InMemFileWriter_new [[1, 2], [3, 4, 5, 6]] = Some (Inr w)
    \<and> mw_flush 3 w (BufferedFileWriter_new 3 []) = Inr out' \<and> fw_ok 3 out'
    \<and> fw_content out' = fw_content (BufferedFileWriter_new 3 []) @ concat [[1, 2], [3, 4, 5, 6]]"
  by (rule mem_writer_flush) (simp_all add: fw_ok_def BufferedFileWriter_new_def)

end
