(* ===== verification/Read_Programs.thy ===== *)
theory Read_Programs
  imports Byte_Streams
begin

text \<open>
  Deserialization as a program of reads. A \<^verbatim>\<open>Deserializer\<close>
  (\<^verbatim>\<open>src/src/include/common/serializer/deserializer.h\<close>) calls \<^verbatim>\<open>read\<close> of its
  \<^verbatim>\<open>Reader\<close> with a sequence of sizes, each of which may depend on the bytes read before.
  Where the sizes of the single reads matter, as they do for the readers of the log, a deserialization
  function is such a program; \<open>runQ\<close> runs it on any reader and \<open>onList\<close> on a list of bytes, where
  it is the deserialization function of \<open>Serialization\<close>.

  The locale \<open>bounded_reader\<close> is the contract of a reader for reads of at most \<open>P\<close> bytes, and
  \<open>ending_reader\<close> adds what holds on the last page of a file: a read past the end throws.
\<close>

section \<open>Programs\<close>

datatype 'a read_program =
    ReturnQ 'a
  | ThrowQ err
  | ReadQ nat "u8 list \<Rightarrow> 'a read_program"

primrec bindQ :: "'a read_program \<Rightarrow> ('a \<Rightarrow> 'b read_program) \<Rightarrow> 'b read_program" where
  "bindQ (ReturnQ x) f = f x"
| "bindQ (ThrowQ e) f = ThrowQ e"
| "bindQ (ReadQ n k) f = ReadQ n (\<lambda>bs. bindQ (k bs) f)"

primrec runQ :: "('r \<Rightarrow> nat \<Rightarrow> (u8 list \<times> 'r) res) \<Rightarrow> 'a read_program \<Rightarrow> 'r \<Rightarrow> ('a \<times> 'r) res" where
  "runQ rd (ReturnQ x) r = Inr (x, r)"
| "runQ rd (ThrowQ e) r = Inl e"
| "runQ rd (ReadQ n k) r = bindR (rd r n) (\<lambda>(bs, r). runQ rd (k bs) r)"

definition onList :: "'a read_program \<Rightarrow> 'a reader" where
  "onList q = runQ (\<lambda>bs n. readBytes n bs) q"

definition u64Q :: "u64 read_program" where
  "u64Q = ReadQ 8 (\<lambda>v. ReturnQ (leWord v))"

definition u32Q :: "u32 read_program" where
  "u32Q = ReadQ 4 (\<lambda>v. ReturnQ (leWord v))"

definition u8Q :: "u8 read_program" where
  "u8Q = ReadQ 1 (\<lambda>v. ReturnQ (hd v))"

definition boolQ :: "bool read_program" where
  "boolQ = ReadQ 1 (\<lambda>v. ReturnQ (hd v \<noteq> 0))"

definition stringQ :: "u8 list read_program" where
  "stringQ = bindQ u64Q (\<lambda>valueLength. ReadQ (unat valueLength) ReturnQ)"

definition tagQ :: "bool \<Rightarrow> string \<Rightarrow> unit read_program" where
  "tagQ dbg s =
     (if dbg then bindQ stringQ (\<lambda>value. if value = tag s then ReturnQ () else ThrowQ AssertFail) else ReturnQ ())"

fun manyQ :: "'a read_program \<Rightarrow> nat \<Rightarrow> 'a list read_program" where
  "manyQ q 0 = ReturnQ []"
| "manyQ q (Suc n) = bindQ q (\<lambda>x. bindQ (manyQ q n) (\<lambda>xs. ReturnQ (x # xs)))"

definition liftQ :: "'a res \<Rightarrow> 'a read_program" where
  "liftQ m = (case m of Inl e \<Rightarrow> ThrowQ e | Inr x \<Rightarrow> ReturnQ x)"

lemma runQ_bind: "runQ rd (bindQ m f) r = bindR (runQ rd m r) (\<lambda>(x, r). runQ rd (f x) r)"
proof (induction m arbitrary: r)
  case (ReadQ n k)
  then show ?case by (cases "rd r n") auto
qed simp_all

section \<open>On a list of bytes\<close>

lemma onList_bind: "onList (bindQ m f) bs = bindR (onList m bs) (\<lambda>(x, bs). onList (f x) bs)"
  by (simp add: onList_def runQ_bind)

lemma onList_steps [simp]:
  "onList (ReturnQ x) bs = Inr (x, bs)" "onList (ThrowQ e) bs = Inl e"
  "onList (ReadQ n k) bs = bindR (readBytes n bs) (\<lambda>(v, bs). onList (k v) bs)"
  by (simp_all add: onList_def)

lemma onList_values [simp]:
  "onList u64Q = deserializeU64" "onList u32Q = deserializeU32" "onList u8Q = deserializeU8" "onList boolQ = deserializeBool"
  "onList stringQ = deserializeString"
proof -
  show u64: "onList u64Q = deserializeU64" by (intro ext) (simp add: u64Q_def deserializeU64_def)
  show "onList u32Q = deserializeU32" "onList u8Q = deserializeU8" "onList boolQ = deserializeBool"
    by (intro ext; simp add: u32Q_def u8Q_def boolQ_def deserializeU32_def deserializeU8_def deserializeBool_def)+
  have "bindR m (\<lambda>(v, bs). Inr (v, bs)) = m" for m :: "(u8 list \<times> u8 list) res" by (cases m) auto
  then show "onList stringQ = deserializeString"
    by (intro ext) (simp add: stringQ_def onList_bind u64 deserializeString_def)
qed

lemma onList_tag: "onList (tagQ dbg s) bs = validateDebuggingInfo dbg (tag s) bs"
proof -
  have "onList (if c then ReturnQ () else ThrowQ AssertFail) bs = bindR (assertR c) (\<lambda>_. Inr ((), bs))" for c bs
    by (simp add: assertR_def)
  then show ?thesis by (simp add: tagQ_def validateDebuggingInfo_def onList_bind)
qed

lemma onList_many [simp]: "onList (manyQ q n) = readMany (onList q) n"
proof (induction n)
  case (Suc n)
  then show ?case by (intro ext) (simp add: onList_bind)
qed (simp add: fun_eq_iff)

lemma onList_if: "onList (if c then p else q) = (if c then onList p else onList q)"
  by simp

text \<open>A program reads a prefix of the bytes and does not look at what follows.\<close>

lemma onList_used:
  "onList q bs = Inr (x, rest) \<Longrightarrow> \<exists>used. bs = used @ rest \<and> (\<forall>tail. onList q (used @ tail) = Inr (x, tail))"
proof (induction q arbitrary: bs)
  case (ReadQ n k)
  have n: "n \<le> length bs" using ReadQ.prems by (simp add: readBytes_def split: if_splits)
  then have "onList (k (take n bs)) (drop n bs) = Inr (x, rest)" using ReadQ.prems by (simp add: readBytes_def)
  then obtain used where used: "drop n bs = used @ rest" "\<forall>tail. onList (k (take n bs)) (used @ tail) = Inr (x, tail)"
    using ReadQ.IH [OF rangeI] by blast
  have "length (take n bs) = n" using n by simp
  then have "readBytes n ((take n bs @ used) @ tail) = Inr (take n bs, used @ tail)" for tail
    by (metis append.assoc readBytes_append)
  then have "onList (ReadQ n k) ((take n bs @ used) @ tail) = Inr (x, tail)" for tail using used(2) by simp
  moreover have "bs = (take n bs @ used) @ rest" using used(1) by (metis append.assoc append_take_drop_id)
  ultimately show ?case by blast
qed auto

lemma onList_prefix:
  assumes "onList q (used @ rest) = Inr (x, rest)"
  shows "onList q (used @ tail) = Inr (x, tail)"
  using onList_used [OF assms] by auto

section \<open>Readers of at most a page at a time\<close>

locale bounded_reader =
  fixes rd :: "'r \<Rightarrow> nat \<Rightarrow> (u8 list \<times> 'r) res" and unread :: "'r \<Rightarrow> u8 list" and ok :: "'r \<Rightarrow> bool" and bound :: nat
  assumes read_within: "ok r \<Longrightarrow> n \<le> bound \<Longrightarrow> n \<le> length (unread r) \<Longrightarrow>
    \<exists>r'. rd r n = Inr (take n (unread r), r') \<and> ok r' \<and> unread r' = drop n (unread r)"
begin

text \<open>On such a reader a program that reads at most a page does what it does on the list of bytes.\<close>

lemma run_within:
  "ok r \<Longrightarrow> unread r = used @ rest \<Longrightarrow> onList q (used @ rest) = Inr (x, rest) \<Longrightarrow> length used \<le> bound \<Longrightarrow>
    \<exists>r'. runQ rd q r = Inr (x, r') \<and> ok r' \<and> unread r' = rest"
proof (induction q arbitrary: r used)
  case (ReadQ n k)
  have n: "n \<le> length (used @ rest)" using ReadQ.prems(3) by (simp add: readBytes_def split: if_splits)
  have left: "onList (k (take n (used @ rest))) (drop n (used @ rest)) = Inr (x, rest)"
    using ReadQ.prems(3) n by (simp add: readBytes_def del: take_append drop_append)
  obtain used' where used': "drop n (used @ rest) = used' @ rest" using onList_used [OF left] by blast
  then have "length (used @ rest) - n = length used' + length rest" by (metis length_append length_drop)
  then have "n + length used' = length used" using n by simp
  then have n': "n \<le> bound" "length used' \<le> bound" using ReadQ.prems(4) by simp_all
  obtain r' where r': "rd r n = Inr (take n (used @ rest), r')" "ok r'" "unread r' = used' @ rest"
    using read_within [OF ReadQ.prems(1) n'(1)] n ReadQ.prems(2) used' by auto
  obtain r'' where "runQ rd (k (take n (used @ rest))) r' = Inr (x, r'')" "ok r''" "unread r'' = rest"
    using ReadQ.IH [OF rangeI r'(2,3) _ n'(2)] left used' by auto
  then show ?case using r'(1) by simp
qed auto

end

text \<open>Every reader of the unbounded contract is one of the bounded contract.\<close>

sublocale byte_reader \<subseteq> within: bounded_reader rd unread ok bound for bound
  by unfold_locales (rule read_takes)

locale ending_reader = bounded_reader +
  fixes atEnd :: "'r \<Rightarrow> bool"
  assumes atEnd_throws: "ok r \<Longrightarrow> atEnd r \<Longrightarrow> n \<le> bound \<Longrightarrow> length (unread r) < n \<Longrightarrow> \<exists>e. rd r n = Inl e"
    and atEnd_kept: "ok r \<Longrightarrow> atEnd r \<Longrightarrow> n \<le> bound \<Longrightarrow> rd r n = Inr (bs, r') \<Longrightarrow> atEnd r'"
begin

text \<open>At the end of a file a program of which some bytes are missing throws.\<close>

lemma run_torn:
  "ok r \<Longrightarrow> atEnd r \<Longrightarrow> onList q (unread r @ missing) = Inr (x, []) \<Longrightarrow> missing \<noteq> [] \<Longrightarrow> length (unread r @ missing) \<le> bound \<Longrightarrow>
    \<exists>e. runQ rd q r = Inl e"
proof (induction q arbitrary: r)
  case (ReadQ n k)
  let ?bs = "unread r @ missing"
  have n: "n \<le> length ?bs" "n \<le> bound" using ReadQ.prems(3,5) by (simp_all add: readBytes_def split: if_splits)
  show ?case
  proof (cases "n \<le> length (unread r)")
    case True
    obtain r' where r': "rd r n = Inr (take n (unread r), r')" "ok r'" "unread r' = drop n (unread r)"
      using read_within [OF ReadQ.prems(1) n(2) True] by blast
    have "onList (k (take n (unread r))) (unread r' @ missing) = Inr (x, [])"
      using ReadQ.prems(3) True r'(3) by (simp add: readBytes_def)
    moreover have "length (unread r' @ missing) \<le> bound" using ReadQ.prems(5) r'(3) by simp
    ultimately obtain e where "runQ rd (k (take n (unread r))) r' = Inl e"
      using ReadQ.IH [OF rangeI r'(2) atEnd_kept [OF ReadQ.prems(1,2) n(2) r'(1)] _ ReadQ.prems(4)] by blast
    then show ?thesis using r'(1) by simp
  next
    case False
    then obtain e where "rd r n = Inl e" using atEnd_throws [OF ReadQ.prems(1,2) n(2)] by auto
    then show ?thesis by simp
  qed
qed auto

end

section \<open>BufferedFileReader page by page\<close>

text \<open>
  Reads of at most a page keep the buffer of a \<^verbatim>\<open>BufferedFileReader\<close> on a page of the file: the
  offset of the file is the end of a page or of the file, and the position is on that page. The reader
  is at the end if it has the last page. Before that, a read that runs from a page into a shorter last
  page and past its end does not throw: it gets the bytes that the page before left in the buffer.
\<close>

definition fr_paged :: "nat \<Rightarrow> u8 list \<Rightarrow> file_reader \<Rightarrow> bool" where
  "fr_paged P bs r \<longleftrightarrow> fr_ok P r \<and> rfile r = bs \<and> 0 < P \<and> (\<exists>m. rfileOffset r = min (P * Suc m) (rfileSize r) \<and> P * m \<le> fr_getReadOffset r)"

definition fr_atEnd :: "file_reader \<Rightarrow> bool" where
  "fr_atEnd r \<longleftrightarrow> rfileSize r \<le> rfileOffset r"

lemma fr_new_paged:
  assumes "0 < P" "bs \<noteq> []"
  shows "\<exists>r. BufferedFileReader_new P bs = Inr r \<and> fr_paged P bs r \<and> fr_getReadOffset r = 0"
proof -
  obtain r where r: "BufferedFileReader_new P bs = Inr r" "fr_ok P r" using fr_new_ok [OF assms] by blast
  have "rfileOffset r = min P (length bs)" "rfileSize r = length bs" "fr_getReadOffset r = 0" "rfile r = bs"
    using r(1) assms by (auto simp: BufferedFileReader_new_def readNextPage_def readFromFile_def copyInto_def fr_getReadOffset_def Let_def assertR_def
        split: if_splits)
  then show ?thesis using r assms by (auto simp: fr_paged_def intro!: exI [of _ 0])
qed

lemma fr_read_fields:
  assumes "fr_ok P r" "n \<le> P" "fr_read P r n = Inr (bs, r')" "n \<le> length (fr_unread r)"
  shows "rfileSize r' = rfileSize r" "rfile r' = rfile r" "fr_getReadOffset r' = fr_getReadOffset r + n"
    and "if rbufferOffset r + n \<le> rbufferSize r then rfileOffset r' = rfileOffset r
      else rfileOffset r' = min (rfileOffset r + P) (rfileSize r) \<and> rfileOffset r \<le> fr_getReadOffset r'"
proof -
  have ok: "rbufferOffset r \<le> rbufferSize r" "rbufferSize r \<le> rfileOffset r" "rfileOffset r \<le> rfileSize r"
    using assms(1) by (simp_all add: fr_ok_def)
  have next_page: "rfileSize r2 = rfileSize r1 \<and> rfile r2 = rfile r1 \<and> rbufferOffset r2 = 0
      \<and> rbufferSize r2 = min (rfileSize r1 - rfileOffset r1) P \<and> rfileOffset r2 = rfileOffset r1 + rbufferSize r2"
    if "readNextPage P r1 = Inr r2" for r1 r2
    using that by (auto simp: readNextPage_def Let_def split: if_splits)
  have "rfileSize r' = rfileSize r \<and> rfile r' = rfile r \<and> fr_getReadOffset r' = fr_getReadOffset r + n
    \<and> (if rbufferOffset r + n \<le> rbufferSize r then rfileOffset r' = rfileOffset r
      else rfileOffset r' = min (rfileOffset r + P) (rfileSize r) \<and> rfileOffset r \<le> fr_getReadOffset r')"
  proof (cases "rbufferOffset r + n \<le> rbufferSize r")
    case True
    then show ?thesis using assms(2,3) by (auto simp: fr_read_def fr_getReadOffset_def copyFromMem_def split: if_splits)
  next
    case False
    then obtain r2 where r2: "readNextPage P (r\<lparr>rbufferOffset := rbufferOffset r + (rbufferSize r - rbufferOffset r)\<rparr>) = Inr r2"
      "r' = r2\<lparr>rbufferOffset := rbufferOffset r2 + (n - (rbufferSize r - rbufferOffset r))\<rparr>"
      using assms(2,3) ok(1) by (auto simp: fr_read_def Let_def)
    show ?thesis using next_page [OF r2(1)] r2(2) False ok by (auto simp: fr_getReadOffset_def)
  qed
  then show "rfileSize r' = rfileSize r" "rfile r' = rfile r" "fr_getReadOffset r' = fr_getReadOffset r + n"
    "if rbufferOffset r + n \<le> rbufferSize r then rfileOffset r' = rfileOffset r
      else rfileOffset r' = min (rfileOffset r + P) (rfileSize r) \<and> rfileOffset r \<le> fr_getReadOffset r'" by blast+
qed

lemma fr_paged_read:
  assumes "fr_paged P bs r" "n \<le> P" "n \<le> length (fr_unread r)"
  shows "\<exists>r'. fr_read P r n = Inr (take n (fr_unread r), r') \<and> fr_paged P bs r' \<and> fr_unread r' = drop n (fr_unread r)"
proof -
  obtain m where m: "fr_ok P r" "0 < P" "rfileOffset r = min (P * Suc m) (rfileSize r)" "P * m \<le> fr_getReadOffset r"
    using assms(1) by (auto simp: fr_paged_def)
  obtain r' where r': "fr_read P r n = Inr (take n (fr_unread r), r')" "fr_ok P r'" "fr_unread r' = drop n (fr_unread r)"
    using fr_read_takes [OF m(1) assms(3)] by blast
  note fields = fr_read_fields [OF m(1) assms(2) r'(1) assms(3)]
  have "\<exists>m. rfileOffset r' = min (P * Suc m) (rfileSize r') \<and> P * m \<le> fr_getReadOffset r'"
  proof (cases "rbufferOffset r + n \<le> rbufferSize r")
    case True
    then show ?thesis using fields m(3,4) by (intro exI [of _ m]) simp
  next
    case False
    have past: "rfileOffset r' = min (rfileOffset r + P) (rfileSize r)" "rfileOffset r \<le> fr_getReadOffset r'" using fields(4) False by simp_all
    show ?thesis
    proof (cases "P * Suc m \<le> rfileSize r")
      case True
      then show ?thesis using past m(3) fields(1) by (intro exI [of _ "Suc m"]) (simp add: algebra_simps)
    next
      case False
      then show ?thesis using past m(3,4) fields(1,3) by (intro exI [of _ m]) simp
    qed
  qed
  then show ?thesis using r' m(2) fields(2) assms(1) by (auto simp: fr_paged_def)
qed

interpretation paged_reader: ending_reader "fr_read P" fr_unread "fr_paged P log" P fr_atEnd for P log
proof unfold_locales
  fix r :: file_reader and n bs r'
  assume r: "fr_paged P log r" "fr_atEnd r" "n \<le> P"
  then have ok: "fr_ok P r" by (simp add: fr_paged_def)
  show "\<exists>e. fr_read P r n = Inl e" if "length (fr_unread r) < n"
  proof -
    have "rbufferSize r < rbufferOffset r + n" "rbufferOffset r \<le> rbufferSize r" "rbufferOffset r \<le> length (rbuffer r)"
      using that r(2) ok by (auto simp: fr_ok_def fr_atEnd_def fr_unread_def fr_getReadOffset_def)
    then show ?thesis using r(2,3) ok by (auto simp: fr_read_def Let_def fr_atEnd_def readNextPage_def fr_ok_def)
  qed
  show "fr_atEnd r'" if "fr_read P r n = Inr (bs, r')"
  proof (cases "rbufferOffset r + n \<le> rbufferSize r")
    case True
    then show ?thesis using that r(2,3) by (auto simp: fr_read_def fr_atEnd_def)
  next
    case False
    then show ?thesis using that r(2,3) by (auto simp: fr_read_def fr_atEnd_def readNextPage_def Let_def)
  qed
qed (rule fr_paged_read)

lemma fr_past_page_start:
  assumes "fr_paged P bs r" "(rfileSize r - 1) div P * P < fr_getReadOffset r \<or> rfileSize r \<le> P"
  shows "fr_atEnd r"
proof -
  obtain m where m: "fr_ok P r" "0 < P" "rfileOffset r = min (P * Suc m) (rfileSize r)" "P * m \<le> fr_getReadOffset r"
    using assms(1) by (auto simp: fr_paged_def)
  show ?thesis
  proof (cases "rfileSize r \<le> P * Suc m")
    case True
    then show ?thesis using m(3) by (simp add: fr_atEnd_def)
  next
    case False
    have "rbufferOffset r \<le> rbufferSize r" "rbufferSize r \<le> rfileOffset r" using m(1) by (simp_all add: fr_ok_def)
    then have "fr_getReadOffset r \<le> rfileOffset r" by (simp add: fr_getReadOffset_def)
    also have "\<dots> = Suc m * P" using False m(3) by simp
    also have "\<dots> \<le> (rfileSize r - 1) div P * P" using False m(2) by (intro mult_right_mono) (auto simp: less_eq_div_iff_mult_less_eq mult.commute)
    finally show ?thesis using assms(2) False by auto
  qed
qed

end
