(* ===== verification/Sel_Vector.thy ===== *)
theory Sel_Vector
  imports Prelude
begin

text \<open>
  \<^verbatim>\<open>common/data_chunk/sel_vector.h\<close> and \<^verbatim>\<open>.cpp\<close>: the positions of a
  vector that a scan selects. A selection vector points either at a shared table of increasing
  positions or at its own buffer; it counts as unfiltered in the first case. The capacity of a
  vector, \<^verbatim>\<open>DEFAULT_VECTOR_CAPACITY\<close>, is a constant of the build and the parameter
  \<open>vc\<close> here; positions and sizes are natural numbers.
\<close>

datatype sel_state = DYNAMIC | STATIC

datatype sel_pointer = IncrementalPositions | OwnBuffer

record sel_vector =
  selectedPositions :: sel_pointer
  selectedSize :: nat
  selState :: sel_state
  selectedPositionsBuffer :: "nat list"
  selCapacity :: nat

definition INCREMENTAL_SELECTED_POS :: "nat \<Rightarrow> nat list" where
  "INCREMENTAL_SELECTED_POS vc = [0..<vc]"

text \<open>The array the positions are read from.\<close>

definition positionArray :: "nat \<Rightarrow> sel_vector \<Rightarrow> nat list" where
  "positionArray vc sv =
     (case selectedPositions sv of
        IncrementalPositions \<Rightarrow> INCREMENTAL_SELECTED_POS vc
      | OwnBuffer \<Rightarrow> selectedPositionsBuffer sv)"

definition setToUnfiltered :: "sel_vector \<Rightarrow> sel_vector" where
  "setToUnfiltered sv = sv\<lparr>selectedPositions := IncrementalPositions, selState := STATIC\<rparr>"

definition setToUnfiltered_size :: "sel_vector \<Rightarrow> nat \<Rightarrow> sel_vector res" where
  "setToUnfiltered_size sv n =
     bindR (assertR (n \<le> selCapacity sv)) (\<lambda>_.
     Inr (sv\<lparr>selectedPositions := IncrementalPositions, selectedSize := n, selState := STATIC\<rparr>))"

definition SelectionVector_new :: "nat \<Rightarrow> sel_vector" where
  "SelectionVector_new capacity = setToUnfiltered
     \<lparr>selectedPositions = IncrementalPositions, selectedSize = 0, selState = STATIC,
      selectedPositionsBuffer = replicate capacity 0, selCapacity = capacity\<rparr>"

definition isUnfiltered :: "nat \<Rightarrow> sel_vector \<Rightarrow> bool res" where
  "isUnfiltered vc sv =
     (if selState sv = STATIC
      then bindR (nthR (positionArray vc sv) 0) (\<lambda>p. Inr (p = 0)) else Inr False)"

definition setRange :: "sel_vector \<Rightarrow> nat \<Rightarrow> nat \<Rightarrow> sel_vector res" where
  "setRange sv startPos n =
     bindR (assertR (startPos + n \<le> selCapacity sv)) (\<lambda>_.
     bindR (foldR (\<lambda>i buf. updR buf i (startPos + i)) [0..<n] (selectedPositionsBuffer sv)) (\<lambda>buf.
     Inr (sv\<lparr>selectedPositions := OwnBuffer, selectedPositionsBuffer := buf, selectedSize := n,
             selState := DYNAMIC\<rparr>)))"

definition setToFiltered :: "sel_vector \<Rightarrow> sel_vector" where
  "setToFiltered sv = sv\<lparr>selectedPositions := OwnBuffer, selState := DYNAMIC\<rparr>"

definition setToFiltered_size :: "sel_vector \<Rightarrow> nat \<Rightarrow> sel_vector res" where
  "setToFiltered_size sv n =
     bindR (assertR (n \<le> selCapacity sv)) (\<lambda>_. Inr ((setToFiltered sv)\<lparr>selectedSize := n\<rparr>))"

text \<open>\<^verbatim>\<open>memcpy\<close> of the selected positions to the start of the buffer.\<close>

definition makeDynamic :: "nat \<Rightarrow> sel_vector \<Rightarrow> sel_vector res" where
  "makeDynamic vc sv =
     (if selectedSize sv \<le> length (positionArray vc sv)
         \<and> selectedSize sv \<le> length (selectedPositionsBuffer sv)
      then Inr (sv\<lparr>selectedPositionsBuffer := take (selectedSize sv) (positionArray vc sv)
                      @ drop (selectedSize sv) (selectedPositionsBuffer sv),
                   selState := DYNAMIC, selectedPositions := OwnBuffer\<rparr>)
      else Inl OutOfBounds)"

definition setSelSize :: "sel_vector \<Rightarrow> nat \<Rightarrow> sel_vector res" where
  "setSelSize sv n = bindR (assertR (n \<le> selCapacity sv)) (\<lambda>_. Inr (sv\<lparr>selectedSize := n\<rparr>))"

definition incrementSelSize :: "sel_vector \<Rightarrow> nat \<Rightarrow> sel_vector res" where
  "incrementSelSize sv increment =
     bindR (assertR (selectedSize sv < selCapacity sv)) (\<lambda>_.
     Inr (sv\<lparr>selectedSize := selectedSize sv + increment\<rparr>))"

text \<open>Writing through \<^verbatim>\<open>getMutableBuffer\<close>.\<close>

definition setMutable :: "sel_vector \<Rightarrow> nat \<Rightarrow> nat \<Rightarrow> sel_vector res" where
  "setMutable sv i p =
     bindR (updR (selectedPositionsBuffer sv) i p) (\<lambda>buf. Inr (sv\<lparr>selectedPositionsBuffer := buf\<rparr>))"

definition sel_index :: "nat \<Rightarrow> sel_vector \<Rightarrow> nat \<Rightarrow> nat res" where
  "sel_index vc sv i =
     bindR (assertR (i < selCapacity sv)) (\<lambda>_. nthR (positionArray vc sv) i)"

definition getSelectedPositions :: "nat \<Rightarrow> sel_vector \<Rightarrow> nat list" where
  "getSelectedPositions vc sv = take (selectedSize sv) (positionArray vc sv)"

text \<open>The positions \<^verbatim>\<open>forEach\<close> calls its argument with, in order.\<close>

definition forEach :: "nat \<Rightarrow> sel_vector \<Rightarrow> nat list res" where
  "forEach vc sv =
     (if selState sv = DYNAMIC
      then foldR (\<lambda>i acc. bindR (nthR (positionArray vc sv) i) (\<lambda>p. Inr (acc @ [p])))
             [0..<selectedSize sv] []
      else bindR (nthR (positionArray vc sv) 0) (\<lambda>start. Inr [start..<start + selectedSize sv]))"

text \<open>
  The invariant: the buffer has the capacity, the size is within it and within the table, and the
  state says where the positions are.
\<close>

definition sel_ok :: "nat \<Rightarrow> sel_vector \<Rightarrow> bool" where
  "sel_ok vc sv \<longleftrightarrow> length (selectedPositionsBuffer sv) = selCapacity sv \<and> selCapacity sv \<le> vc \<and> 0 < vc
     \<and> selectedSize sv \<le> selCapacity sv
     \<and> (selState sv = STATIC \<longleftrightarrow> selectedPositions sv = IncrementalPositions)"

lemma sel_ok_new: "0 < vc \<Longrightarrow> n \<le> vc \<Longrightarrow> sel_ok vc (SelectionVector_new n)"
  by (simp add: sel_ok_def SelectionVector_new_def setToUnfiltered_def)

lemma isUnfiltered_eq: "sel_ok vc sv \<Longrightarrow> isUnfiltered vc sv = Inr (selState sv = STATIC)"
  by (auto simp: sel_ok_def isUnfiltered_def positionArray_def INCREMENTAL_SELECTED_POS_def)

lemma makeDynamic_ok:
  assumes "sel_ok vc sv"
  shows "\<exists>sv'. makeDynamic vc sv = Inr sv' \<and> sel_ok vc sv' \<and> selState sv' = DYNAMIC
    \<and> selectedSize sv' = selectedSize sv \<and> selCapacity sv' = selCapacity sv
    \<and> getSelectedPositions vc sv' = getSelectedPositions vc sv"
proof (cases "selectedPositions sv")
  case IncrementalPositions
  then show ?thesis
    using assms by (auto simp: makeDynamic_def sel_ok_def positionArray_def INCREMENTAL_SELECTED_POS_def
        getSelectedPositions_def)
next
  case OwnBuffer
  then show ?thesis
    using assms by (auto simp: makeDynamic_def sel_ok_def positionArray_def getSelectedPositions_def)
qed

text \<open>Appending a position to a dynamic selection vector, as the scans do in two steps.\<close>

lemma append_position:
  assumes "sel_ok vc sv" "selState sv = DYNAMIC" "n < selCapacity sv"
  shows "\<exists>sv'. setMutable sv n p = Inr sv' \<and> sel_ok vc sv' \<and> selState sv' = DYNAMIC
    \<and> selectedSize sv' = selectedSize sv \<and> selCapacity sv' = selCapacity sv
    \<and> take (Suc n) (selectedPositionsBuffer sv') = take n (selectedPositionsBuffer sv) @ [p]"
  using assms by (auto simp: setMutable_def sel_ok_def take_Suc_conv_app_nth)

lemma foldR_nth:
  "n \<le> length xs \<Longrightarrow>
    foldR (\<lambda>i acc. bindR (nthR xs i) (\<lambda>p. Inr (acc @ [p]))) [0..<n] [] = Inr (take n xs)"
proof -
  assume n: "n \<le> length xs"
  have "\<exists>s'. foldR (\<lambda>i acc. bindR (nthR xs i) (\<lambda>p. Inr (acc @ [p]))) [0..<n] [] = Inr s' \<and> s' = take n xs"
    by (rule foldR_upt_invariant [where I = "\<lambda>i acc. acc = take i xs"])
       (use n in \<open>auto simp: take_Suc_conv_app_nth\<close>)
  then show ?thesis by simp
qed

text \<open>
  Iterating over a selection vector visits exactly its selected positions in order, in both
  representations: \<^verbatim>\<open>forEach\<close> counts from the first position of a static vector instead
  of reading the table, and gets the same positions.
\<close>

theorem forEach_positions:
  assumes "sel_ok vc sv"
  shows "forEach vc sv = Inr (getSelectedPositions vc sv)"
proof (cases "selState sv")
  case DYNAMIC
  then have "selectedPositions sv = OwnBuffer"
    using assms by (cases "selectedPositions sv") (auto simp: sel_ok_def)
  then show ?thesis
    using assms DYNAMIC foldR_nth [of "selectedSize sv" "selectedPositionsBuffer sv"]
    by (simp add: forEach_def getSelectedPositions_def positionArray_def sel_ok_def)
next
  case STATIC
  then show ?thesis
    using assms by (simp add: forEach_def getSelectedPositions_def positionArray_def sel_ok_def
        INCREMENTAL_SELECTED_POS_def)
qed

theorem forEach_positions_witness:
  "forEach 8 ((SelectionVector_new 8)\<lparr>selectedSize := 3\<rparr>) =
    Inr (getSelectedPositions 8 ((SelectionVector_new 8)\<lparr>selectedSize := 3\<rparr>))"
  by (rule forEach_positions) (simp add: sel_ok_def SelectionVector_new_def setToUnfiltered_def)

lemma setRange_positions:
  assumes ok: "sel_ok vc sv" and n: "startPos + n \<le> selCapacity sv"
  shows "\<exists>sv'. setRange sv startPos n = Inr sv' \<and> sel_ok vc sv'
    \<and> getSelectedPositions vc sv' = [startPos..<startPos + n]"
proof -
  have "\<exists>b. foldR (\<lambda>i buf. updR buf i (startPos + i)) [0..<n] (selectedPositionsBuffer sv) = Inr b
      \<and> length b = selCapacity sv \<and> take n b = [startPos..<startPos + n]"
    by (rule foldR_upt_invariant [where I = "\<lambda>i b. length b = selCapacity sv
          \<and> take i b = [startPos..<startPos + i]"])
       (use ok n in \<open>auto simp: sel_ok_def take_Suc_conv_app_nth\<close>)
  then show ?thesis
    using ok n by (auto simp: setRange_def sel_ok_def getSelectedPositions_def positionArray_def)
qed

end
