(* ===== verification/Version_Info.thy ===== *)
theory Version_Info
  imports Sel_Vector Serialization
begin

text \<open>
  \<^verbatim>\<open>storage/table/version_info.cpp\<close>: the insertion and deletion versions of the rows
  of a chunk, kept per vector of \<^verbatim>\<open>DEFAULT_VECTOR_CAPACITY\<close> rows (the parameter
  \<open>vc\<close>, a constant of the build). A version is the timestamp of a committed transaction
  or the identifier of a running one; identifiers are above \<open>2\<^sup>6\<^sup>3\<close>. A vector keeps one
  version for all of its rows as long as it can, and an array of versions otherwise.

  \<open>insVersion\<close> and \<open>delVersion\<close> are the abstract view: the version of each row.
  The lemmas show what every operation does to it, the range operations through the locale
  \<open>vector_range_op\<close>, which lifts an operation on one vector to a range of rows that spans
  vectors.
\<close>

section \<open>One vector\<close>

datatype insertion_status = NO_INSERTED | CHECK_INSERTED | ALWAYS_INSERTED

datatype deletion_status = NO_DELETED | CHECK_DELETED

record vector_version_info =
  insertedVersions :: "transaction_t list option"
  deletedVersions :: "transaction_t list option"
  sameInsertionVersion :: transaction_t
  sameDeletionVersion :: transaction_t
  insertionStatus :: insertion_status
  deletionStatus :: deletion_status

definition VectorVersionInfo_new :: vector_version_info where
  "VectorVersionInfo_new =
     \<lparr>insertedVersions = None, deletedVersions = None, sameInsertionVersion = INVALID_TRANSACTION,
      sameDeletionVersion = INVALID_TRANSACTION, insertionStatus = NO_INSERTED,
      deletionStatus = NO_DELETED\<rparr>"

definition isSameInsertionVersion :: "vector_version_info \<Rightarrow> bool" where
  "isSameInsertionVersion v = (sameInsertionVersion v \<noteq> INVALID_TRANSACTION)"

definition isSameDeletionVersion :: "vector_version_info \<Rightarrow> bool" where
  "isSameDeletionVersion v = (sameDeletionVersion v \<noteq> INVALID_TRANSACTION)"

definition initInsertionVersionArray :: "nat \<Rightarrow> vector_version_info \<Rightarrow> vector_version_info" where
  "initInsertionVersionArray vc v = v\<lparr>insertedVersions := Some (replicate vc INVALID_TRANSACTION)\<rparr>"

definition initDeletionVersionArray :: "nat \<Rightarrow> vector_version_info \<Rightarrow> vector_version_info" where
  "initDeletionVersionArray vc v = v\<lparr>deletedVersions := Some (replicate vc INVALID_TRANSACTION)\<rparr>"

definition vector_append ::
  "nat \<Rightarrow> transaction_t \<Rightarrow> vector_version_info \<Rightarrow> nat \<Rightarrow> nat \<Rightarrow> vector_version_info res" where
  "vector_append vc transactionID v startRow numRows =
     (let v = v\<lparr>insertionStatus := CHECK_INSERTED\<rparr> in
      if transactionID = sameInsertionVersion v then Inr v
      else if \<not> isSameInsertionVersion v \<and> insertedVersions v = None then
        Inr (v\<lparr>sameInsertionVersion := transactionID\<rparr>)
      else
        bindR (if insertedVersions v = None then
                 let v = initInsertionVersionArray vc v in
                 bindR (derefR (insertedVersions v)) (\<lambda>a.
                 bindR (fillR a 0 startRow (sameInsertionVersion v)) (\<lambda>a.
                 Inr (v\<lparr>insertedVersions := Some a, sameInsertionVersion := INVALID_TRANSACTION\<rparr>)))
               else Inr v) (\<lambda>v.
        bindR (derefR (insertedVersions v)) (\<lambda>a.
        bindR (foldR (\<lambda>i a.
                 bindR (nthR a (startRow + i)) (\<lambda>old.
                 bindR (assertR (old = INVALID_TRANSACTION)) (\<lambda>_.
                 updR a (startRow + i) transactionID))) [0..<numRows] a) (\<lambda>a.
        Inr (v\<lparr>insertedVersions := Some a\<rparr>)))))"

text \<open>
  A conflict is an exception, thrown after the status has been set: the result is the state and
  either the exception or the value returned.
\<close>

definition writeConflict :: err where
  "writeConflict = RuntimeException
     ''Write-write conflict: deleting a row that is already deleted by another transaction.''"

definition vector_delete ::
  "nat \<Rightarrow> transaction_t \<Rightarrow> vector_version_info \<Rightarrow> nat \<Rightarrow> vector_version_info \<times> bool res" where
  "vector_delete vc transactionID v rowIdx =
     (let v = v\<lparr>deletionStatus := CHECK_DELETED\<rparr> in
      if transactionID = sameDeletionVersion v then (v, Inr False)
      else if isSameDeletionVersion v then (v, Inl writeConflict)
      else
        let v = (if deletedVersions v = None then initDeletionVersionArray vc v else v) in
        case deletedVersions v of
          None \<Rightarrow> (v, Inl NullDeref)
        | Some a \<Rightarrow>
            if rowIdx \<ge> length a then (v, Inl OutOfBounds)
            else if a ! rowIdx = transactionID then (v, Inr False)
            else if a ! rowIdx \<noteq> INVALID_TRANSACTION then (v, Inl writeConflict)
            else (v\<lparr>deletedVersions := Some (a[rowIdx := transactionID])\<rparr>, Inr True))"

definition setInsertCommitTS ::
  "transaction_t \<Rightarrow> vector_version_info \<Rightarrow> nat \<Rightarrow> nat \<Rightarrow> vector_version_info res" where
  "setInsertCommitTS commitTS v startRow numRows =
     (if isSameInsertionVersion v then Inr (v\<lparr>sameInsertionVersion := commitTS\<rparr>)
      else case insertedVersions v of
        None \<Rightarrow> Inl AssertFail
      | Some a \<Rightarrow>
          bindR (fillR a startRow (startRow + numRows) commitTS) (\<lambda>a.
          Inr (v\<lparr>insertedVersions := Some a\<rparr>)))"

definition setDeleteCommitTS ::
  "transaction_t \<Rightarrow> vector_version_info \<Rightarrow> nat \<Rightarrow> nat \<Rightarrow> vector_version_info res" where
  "setDeleteCommitTS commitTS v startRow numRows =
     (if isSameDeletionVersion v then Inr (v\<lparr>sameDeletionVersion := commitTS\<rparr>)
      else case deletedVersions v of
        None \<Rightarrow> Inl AssertFail
      | Some a \<Rightarrow>
          bindR (fillR a startRow (startRow + numRows) commitTS) (\<lambda>a.
          Inr (v\<lparr>deletedVersions := Some a\<rparr>)))"

definition vector_isDeleted ::
  "transaction_t \<Rightarrow> transaction_t \<Rightarrow> vector_version_info \<Rightarrow> nat \<Rightarrow> bool res" where
  "vector_isDeleted startTS transactionID v rowIdx =
     (case deletionStatus v of
        NO_DELETED \<Rightarrow> Inr False
      | CHECK_DELETED \<Rightarrow>
          bindR (if isSameDeletionVersion v then Inr (sameDeletionVersion v)
                 else case deletedVersions v of
                   None \<Rightarrow> Inl AssertFail | Some a \<Rightarrow> nthR a rowIdx) (\<lambda>deletion.
          Inr (deletion = transactionID \<or> deletion \<le> startTS)))"

definition vector_isInserted ::
  "transaction_t \<Rightarrow> transaction_t \<Rightarrow> vector_version_info \<Rightarrow> nat \<Rightarrow> bool res" where
  "vector_isInserted startTS transactionID v rowIdx =
     (case insertionStatus v of
        ALWAYS_INSERTED \<Rightarrow> Inr True
      | NO_INSERTED \<Rightarrow> Inr False
      | CHECK_INSERTED \<Rightarrow>
          bindR (if isSameInsertionVersion v then Inr (sameInsertionVersion v)
                 else case insertedVersions v of
                   None \<Rightarrow> Inl AssertFail | Some a \<Rightarrow> nthR a rowIdx) (\<lambda>insertion.
          Inr (insertion = transactionID \<or> insertion \<le> startTS)))"

definition vector_isSelected ::
  "transaction_t \<Rightarrow> transaction_t \<Rightarrow> vector_version_info \<Rightarrow> nat \<Rightarrow> bool res" where
  "vector_isSelected startTS transactionID v rowIdx =
     (if deletionStatus v = NO_DELETED \<and> insertionStatus v = ALWAYS_INSERTED then Inr True
      else if insertionStatus v = NO_INSERTED then Inr False
      else
        bindR (vector_isInserted startTS transactionID v rowIdx) (\<lambda>inserted.
        if inserted
        then bindR (vector_isDeleted startTS transactionID v rowIdx) (\<lambda>deleted. Inr (\<not> deleted))
        else Inr False))"

text \<open>Selecting all of \<open>numRows\<close> rows at the end of the selection.\<close>

definition selectAll :: "nat \<Rightarrow> sel_vector \<Rightarrow> nat \<Rightarrow> nat \<Rightarrow> sel_vector res" where
  "selectAll vc selVector numRows startOutputPos =
     bindR (isUnfiltered vc selVector) (\<lambda>unfiltered.
     if unfiltered then setSelSize selVector (selectedSize selVector + numRows)
     else
       bindR (foldR (\<lambda>i (sv, numSelected).
                bindR (setMutable sv numSelected (startOutputPos + i)) (\<lambda>sv.
                Inr (sv, numSelected + 1))) [0..<numRows] (selVector, selectedSize selVector))
         (\<lambda>(sv, numSelected). setToFiltered_size sv numSelected))"

definition getSelVectorForScan ::
  "nat \<Rightarrow> transaction_t \<Rightarrow> transaction_t \<Rightarrow> vector_version_info \<Rightarrow> sel_vector \<Rightarrow> nat \<Rightarrow> nat \<Rightarrow> nat
    \<Rightarrow> sel_vector res" where
  "getSelVectorForScan vc startTS transactionID v selVector startRow numRows startOutputPos =
     (if deletionStatus v = NO_DELETED \<and> insertionStatus v = ALWAYS_INSERTED then
        selectAll vc selVector numRows startOutputPos
      else if insertionStatus v \<noteq> NO_INSERTED then
        bindR (isUnfiltered vc selVector) (\<lambda>unfiltered.
        bindR (if unfiltered then makeDynamic vc selVector else Inr selVector) (\<lambda>sv.
        bindR (foldR (\<lambda>i (sv, numSelected).
                 bindR (vector_isInserted startTS transactionID v (startRow + i)) (\<lambda>inserted.
                 bindR (if inserted
                        then bindR (vector_isDeleted startTS transactionID v (startRow + i))
                               (\<lambda>deleted. Inr (\<not> deleted))
                        else Inr False) (\<lambda>selected.
                 if selected then
                   bindR (setMutable sv numSelected (startOutputPos + i)) (\<lambda>sv.
                   Inr (sv, numSelected + 1))
                 else Inr (sv, numSelected)))) [0..<numRows] (sv, selectedSize selVector))
          (\<lambda>(sv, numSelected). setToFiltered_size sv numSelected)))
      else Inr selVector)"

definition vector_getNumDeletions ::
  "transaction_t \<Rightarrow> transaction_t \<Rightarrow> vector_version_info \<Rightarrow> nat \<Rightarrow> nat \<Rightarrow> nat res" where
  "vector_getNumDeletions startTS transactionID v startRow numRows =
     (if deletionStatus v = NO_DELETED then Inr 0
      else
        foldR (\<lambda>i numDeletions.
          bindR (vector_isDeleted startTS transactionID v (startRow + i)) (\<lambda>deleted.
          Inr (numDeletions + of_bool deleted))) [0..<numRows] 0)"

definition rollbackInsertions ::
  "vector_version_info \<Rightarrow> nat \<Rightarrow> nat \<Rightarrow> vector_version_info res" where
  "rollbackInsertions v startRowInVector numRows =
     bindR (if isSameInsertionVersion v
            then Inr (v\<lparr>sameInsertionVersion := INVALID_TRANSACTION\<rparr>)
            else case insertedVersions v of
              None \<Rightarrow> Inr v
            | Some a \<Rightarrow>
                bindR (fillR a startRowInVector (startRowInVector + numRows) INVALID_TRANSACTION) (\<lambda>a.
                let hasAnyInsertions = list_ex (\<lambda>version. version \<noteq> INVALID_TRANSACTION) a in
                Inr (v\<lparr>insertedVersions := (if hasAnyInsertions then Some a else None)\<rparr>))) (\<lambda>v.
     Inr (if insertedVersions v = None
          then v\<lparr>insertionStatus := NO_INSERTED, deletionStatus := NO_DELETED\<rparr> else v))"

definition rollbackDeletions ::
  "vector_version_info \<Rightarrow> nat \<Rightarrow> nat \<Rightarrow> vector_version_info res" where
  "rollbackDeletions v startRowInVector numRows =
     bindR (if isSameDeletionVersion v
            then Inr (v\<lparr>sameDeletionVersion := INVALID_TRANSACTION\<rparr>)
            else case deletedVersions v of
              None \<Rightarrow> Inr v
            | Some a \<Rightarrow>
                bindR (fillR a startRowInVector (startRowInVector + numRows) INVALID_TRANSACTION) (\<lambda>a.
                let hasAnyDeletions = list_ex (\<lambda>version. version \<noteq> INVALID_TRANSACTION) a in
                Inr (v\<lparr>deletedVersions := (if hasAnyDeletions then Some a else None)\<rparr>))) (\<lambda>v.
     Inr (if deletedVersions v = None then v\<lparr>deletionStatus := NO_DELETED\<rparr> else v))"

text \<open>
  \<^verbatim>\<open>hasDeletions\<close> takes the static size of the array type, whether the array is
  allocated or not.
\<close>

definition vector_hasDeletions ::
  "nat \<Rightarrow> transaction_t \<Rightarrow> transaction_t \<Rightarrow> vector_version_info \<Rightarrow> bool res" where
  "vector_hasDeletions vc startTS transactionID v =
     (if isSameDeletionVersion v
      then Inr (sameDeletionVersion v \<le> startTS \<or> sameDeletionVersion v = transactionID)
      else
        bindR (foldR (\<lambda>i numDeletions.
                 bindR (vector_isDeleted startTS transactionID v i) (\<lambda>deleted.
                 Inr (numDeletions + of_bool deleted))) [0..<vc] (0 :: nat)) (\<lambda>numDeletions.
        Inr (numDeletions > 0)))"

definition insertionStatusCode :: "insertion_status \<Rightarrow> u8" where
  "insertionStatusCode s = (case s of NO_INSERTED \<Rightarrow> 0 | CHECK_INSERTED \<Rightarrow> 1 | ALWAYS_INSERTED \<Rightarrow> 2)"

definition deletionStatusCode :: "deletion_status \<Rightarrow> u8" where
  "deletionStatusCode s = (case s of NO_DELETED \<Rightarrow> 0 | CHECK_DELETED \<Rightarrow> 1)"

text \<open>Versions that may be stored: none, or the timestamp of a commit.\<close>

definition committedVersions :: "transaction_t list option \<Rightarrow> bool" where
  "committedVersions vs =
     (case vs of None \<Rightarrow> True
      | Some a \<Rightarrow> list_all (\<lambda>d. d = INVALID_TRANSACTION \<or> d < START_TRANSACTION_ID) a)"

definition vector_serialize :: "bool \<Rightarrow> vector_version_info \<Rightarrow> u8 list res" where
  "vector_serialize dbg v =
     bindR (assertR (committedVersions (deletedVersions v))) (\<lambda>_.
     bindR (assertR (insertionStatus v = NO_INSERTED \<or> insertionStatus v = ALWAYS_INSERTED)) (\<lambda>_.
     let header = writeDebuggingInfo dbg (tag ''insertion_status'')
                  @ serializeU8 (insertionStatusCode (insertionStatus v))
                  @ writeDebuggingInfo dbg (tag ''deletion_status'')
                  @ serializeU8 (deletionStatusCode (deletionStatus v)) in
     case deletionStatus v of
       NO_DELETED \<Rightarrow> Inr header
     | CHECK_DELETED \<Rightarrow>
         let same = header @ writeDebuggingInfo dbg (tag ''same_deletion_version'')
                    @ serializeU64 (sameDeletionVersion v) in
         if sameDeletionVersion v = INVALID_TRANSACTION then
           (case deletedVersions v of
              None \<Rightarrow> Inl AssertFail
            | Some a \<Rightarrow> Inr (same @ writeDebuggingInfo dbg (tag ''deleted_versions'')
                              @ serializeArray serializeU64 a))
         else Inr same))"

definition vector_deSerialize :: "bool \<Rightarrow> nat \<Rightarrow> vector_version_info reader" where
  "vector_deSerialize dbg vc bs =
     (let v = VectorVersionInfo_new in
      bindR (validateDebuggingInfo dbg (tag ''insertion_status'') bs) (\<lambda>(_, bs).
      bindR (deserializeU8 bs) (\<lambda>(ins, bs).
      bindR (assertR (ins = 0 \<or> ins = 2)) (\<lambda>_.
      let v = v\<lparr>insertionStatus := (if ins = 0 then NO_INSERTED else ALWAYS_INSERTED)\<rparr> in
      bindR (validateDebuggingInfo dbg (tag ''deletion_status'') bs) (\<lambda>(_, bs).
      bindR (deserializeU8 bs) (\<lambda>(del, bs).
      bindR (if del = 0 then Inr (v, bs)
             else if del = 1 then
               let v = v\<lparr>deletionStatus := CHECK_DELETED\<rparr> in
               bindR (validateDebuggingInfo dbg (tag ''same_deletion_version'') bs) (\<lambda>(_, bs).
               bindR (deserializeU64 bs) (\<lambda>(same, bs).
               let v = v\<lparr>sameDeletionVersion := same\<rparr> in
               if same = INVALID_TRANSACTION then
                 bindR (validateDebuggingInfo dbg (tag ''deleted_versions'') bs) (\<lambda>(_, bs).
                 bindR (deserializeArray deserializeU64 vc bs) (\<lambda>(a, bs).
                 Inr ((initDeletionVersionArray vc v)\<lparr>deletedVersions := Some a\<rparr>, bs)))
               else Inr (v, bs)))
             else Inl AssertFail) (\<lambda>(v, bs).
      bindR (assertR (committedVersions (deletedVersions v))) (\<lambda>_.
      Inr (v, bs)))))))))"

section \<open>All vectors of a chunk\<close>

record version_info =
  vectorsInfo :: "vector_version_info option list"

definition VersionInfo_new :: version_info where
  "VersionInfo_new = \<lparr>vectorsInfo = []\<rparr>"

definition getVectorVersionInfo :: "version_info \<Rightarrow> nat \<Rightarrow> vector_version_info option" where
  "getVectorVersionInfo vi vectorIdx =
     (if vectorIdx \<ge> length (vectorsInfo vi) then None else vectorsInfo vi ! vectorIdx)"

text \<open>
  \<^verbatim>\<open>getOrCreateVersionInfo\<close> returns a reference into the grown vector; the model
  returns the grown vector and the element, and stores the element back after an update.
\<close>

definition getOrCreateVersionInfo :: "version_info \<Rightarrow> nat \<Rightarrow> version_info \<times> vector_version_info" where
  "getOrCreateVersionInfo vi vectorIdx =
     (let vs = vectorsInfo vi;
          vs = (if length vs \<le> vectorIdx then vs @ replicate (vectorIdx + 1 - length vs) None else vs);
          v = (case vs ! vectorIdx of None \<Rightarrow> VectorVersionInfo_new | Some v \<Rightarrow> v) in
      (vi\<lparr>vectorsInfo := vs[vectorIdx := Some v]\<rparr>, v))"

definition setVectorInfo :: "version_info \<Rightarrow> nat \<Rightarrow> vector_version_info \<Rightarrow> version_info" where
  "setVectorInfo vi vectorIdx v = vi\<lparr>vectorsInfo := (vectorsInfo vi)[vectorIdx := Some v]\<rparr>"

text \<open>
  The rows of one vector in a range of rows, first row and number, for a vector between those of
  the first and of the last row of the range.
\<close>

definition rowsInVector :: "nat \<Rightarrow> nat \<Rightarrow> nat \<Rightarrow> nat \<Rightarrow> nat \<times> nat" where
  "rowsInVector vc startRow numRows vectorIdx =
     (let (startVectorIdx, startRowIdxInVector) = getQuotientRemainder startRow vc;
          (endVectorIdx, endRowIdxInVector) = getQuotientRemainder (startRow + numRows - 1) vc;
          startRowIdx = (if vectorIdx = startVectorIdx then startRowIdxInVector else 0);
          endRowIdx = (if vectorIdx = endVectorIdx then endRowIdxInVector else vc - 1) in
      (startRowIdx, endRowIdx - startRowIdx + 1))"

definition vectorRange :: "nat \<Rightarrow> nat \<Rightarrow> nat \<Rightarrow> nat list" where
  "vectorRange vc startRow numRows =
     [fst (getQuotientRemainder startRow vc)..<
      fst (getQuotientRemainder (startRow + numRows - 1) vc) + 1]"

text \<open>The loop over the vectors of a range that the operations below share.\<close>

definition forVectors ::
  "nat \<Rightarrow> (vector_version_info \<Rightarrow> nat \<Rightarrow> nat \<Rightarrow> vector_version_info res) \<Rightarrow> nat \<Rightarrow> nat
    \<Rightarrow> version_info \<Rightarrow> version_info res" where
  "forVectors vc f startRow numRows vi =
     (if numRows = 0 then Inr vi
      else
        foldR (\<lambda>vectorIdx vi.
          let (startRowIdx, numRowsInVector) = rowsInVector vc startRow numRows vectorIdx;
              (vi, v) = getOrCreateVersionInfo vi vectorIdx in
          bindR (f v startRowIdx numRowsInVector) (\<lambda>v.
          Inr (setVectorInfo vi vectorIdx v))) (vectorRange vc startRow numRows) vi)"

definition vi_append :: "nat \<Rightarrow> transaction_t \<Rightarrow> nat \<Rightarrow> nat \<Rightarrow> version_info \<Rightarrow> version_info res" where
  "vi_append vc transactionID startRow numRows vi =
     forVectors vc (vector_append vc transactionID) startRow numRows vi"

definition commitInsert :: "nat \<Rightarrow> nat \<Rightarrow> nat \<Rightarrow> transaction_t \<Rightarrow> version_info \<Rightarrow> version_info res" where
  "commitInsert vc startRow numRows commitTS vi =
     forVectors vc (setInsertCommitTS commitTS) startRow numRows vi"

definition rollbackInsert :: "nat \<Rightarrow> nat \<Rightarrow> nat \<Rightarrow> version_info \<Rightarrow> version_info res" where
  "rollbackInsert vc startRow numRows vi = forVectors vc rollbackInsertions startRow numRows vi"

definition commitDelete :: "nat \<Rightarrow> nat \<Rightarrow> nat \<Rightarrow> transaction_t \<Rightarrow> version_info \<Rightarrow> version_info res" where
  "commitDelete vc startRow numRows commitTS vi =
     forVectors vc (setDeleteCommitTS commitTS) startRow numRows vi"

definition rollbackDelete :: "nat \<Rightarrow> nat \<Rightarrow> nat \<Rightarrow> version_info \<Rightarrow> version_info res" where
  "rollbackDelete vc startRow numRows vi = forVectors vc rollbackDeletions startRow numRows vi"

definition vi_delete ::
  "nat \<Rightarrow> transaction_t \<Rightarrow> nat \<Rightarrow> version_info \<Rightarrow> version_info \<times> bool res" where
  "vi_delete vc transactionID rowIdx vi =
     (let (vectorIdx, rowIdxInVector) = getQuotientRemainder rowIdx vc;
          (vi, v) = getOrCreateVersionInfo vi vectorIdx;
          v = (if insertionStatus v = NO_INSERTED then v\<lparr>insertionStatus := ALWAYS_INSERTED\<rparr> else v);
          (v, r) = vector_delete vc transactionID v rowIdxInVector in
      (setVectorInfo vi vectorIdx v, r))"

definition vi_isSelected ::
  "nat \<Rightarrow> transaction_t \<Rightarrow> transaction_t \<Rightarrow> version_info \<Rightarrow> nat \<Rightarrow> bool res" where
  "vi_isSelected vc startTS transactionID vi rowIdx =
     (let (vectorIdx, rowIdxInVector) = getQuotientRemainder rowIdx vc in
      case getVectorVersionInfo vi vectorIdx of
        None \<Rightarrow> Inr True
      | Some v \<Rightarrow> vector_isSelected startTS transactionID v rowIdxInVector)"

definition getSelVectorToScan ::
  "nat \<Rightarrow> transaction_t \<Rightarrow> transaction_t \<Rightarrow> version_info \<Rightarrow> sel_vector \<Rightarrow> nat \<Rightarrow> nat \<Rightarrow> sel_vector res" where
  "getSelVectorToScan vc startTS transactionID vi selVector startRow numRows =
     (if numRows = 0 then Inr selVector
      else
        bindR (setToUnfiltered_size selVector 0) (\<lambda>sv.
        bindR (foldR (\<lambda>vectorIdx (sv, outputPos).
                 let (startRowIdx, numRowsInVector) = rowsInVector vc startRow numRows vectorIdx in
                 bindR (case getVectorVersionInfo vi vectorIdx of
                          None \<Rightarrow> selectAll vc sv numRowsInVector outputPos
                        | Some v \<Rightarrow> getSelVectorForScan vc startTS transactionID v sv startRowIdx
                                      numRowsInVector outputPos) (\<lambda>sv.
                 Inr (sv, outputPos + numRowsInVector))) (vectorRange vc startRow numRows) (sv, 0))
          (\<lambda>(sv, outputPos).
        bindR (assertR (outputPos \<le> vc)) (\<lambda>_. Inr sv))))"

definition clearVectorInfo :: "version_info \<Rightarrow> nat \<Rightarrow> version_info res" where
  "clearVectorInfo vi vectorIdx =
     bindR (assertR (vectorIdx < length (vectorsInfo vi))) (\<lambda>_.
     Inr (vi\<lparr>vectorsInfo := (vectorsInfo vi)[vectorIdx := None]\<rparr>))"

definition vi_hasDeletions :: "version_info \<Rightarrow> bool" where
  "vi_hasDeletions vi =
     list_ex (\<lambda>p. case p of None \<Rightarrow> False | Some v \<Rightarrow> deletionStatus v = CHECK_DELETED) (vectorsInfo vi)"

definition vi_hasInsertions :: "version_info \<Rightarrow> bool" where
  "vi_hasInsertions vi =
     list_ex (\<lambda>p. case p of None \<Rightarrow> False | Some v \<Rightarrow> insertionStatus v = CHECK_INSERTED) (vectorsInfo vi)"

definition vi_getNumDeletions ::
  "nat \<Rightarrow> transaction_t \<Rightarrow> transaction_t \<Rightarrow> version_info \<Rightarrow> nat \<Rightarrow> nat \<Rightarrow> nat res" where
  "vi_getNumDeletions vc startTS transactionID vi startRow numRows =
     (if numRows = 0 then Inr 0
      else
        let (startVector, startRowInVector) = getQuotientRemainder startRow vc;
            (endVectorIdx, endRowInVector) = getQuotientRemainder (startRow + numRows - 1) vc in
        foldR (\<lambda>vectorIdx numDeletions.
          let rowInVector = (if vectorIdx = startVector then startRowInVector else 0);
              numRowsInVector = (if vectorIdx = endVectorIdx then endRowInVector - rowInVector + 1
                                 else vc - rowInVector) in
          case getVectorVersionInfo vi vectorIdx of
            None \<Rightarrow> Inr numDeletions
          | Some v \<Rightarrow>
              bindR (vector_getNumDeletions startTS transactionID v rowInVector numRowsInVector) (\<lambda>d.
              Inr (numDeletions + d))) [startVector..<endVectorIdx + 1] 0)"

definition vi_isDeleted ::
  "nat \<Rightarrow> transaction_t \<Rightarrow> transaction_t \<Rightarrow> version_info \<Rightarrow> nat \<Rightarrow> bool res" where
  "vi_isDeleted vc startTS transactionID vi rowInChunk =
     (let (vectorIdx, rowInVector) = getQuotientRemainder rowInChunk vc in
      case getVectorVersionInfo vi vectorIdx of
        None \<Rightarrow> Inr False
      | Some v \<Rightarrow> vector_isDeleted startTS transactionID v rowInVector)"

definition vi_isInserted ::
  "nat \<Rightarrow> transaction_t \<Rightarrow> transaction_t \<Rightarrow> version_info \<Rightarrow> nat \<Rightarrow> bool res" where
  "vi_isInserted vc startTS transactionID vi rowInChunk =
     (let (vectorIdx, rowInVector) = getQuotientRemainder rowInChunk vc in
      case getVectorVersionInfo vi vectorIdx of
        None \<Rightarrow> Inr True
      | Some v \<Rightarrow> vector_isInserted startTS transactionID v rowInVector)"

fun anyVectorHasDeletions ::
  "nat \<Rightarrow> transaction_t \<Rightarrow> transaction_t \<Rightarrow> vector_version_info option list \<Rightarrow> bool res" where
  "anyVectorHasDeletions vc startTS transactionID [] = Inr False"
| "anyVectorHasDeletions vc startTS transactionID (p # ps) =
     (case p of
        None \<Rightarrow> anyVectorHasDeletions vc startTS transactionID ps
      | Some v \<Rightarrow>
          bindR (vector_hasDeletions vc startTS transactionID v) (\<lambda>b.
          if b then Inr True else anyVectorHasDeletions vc startTS transactionID ps))"

definition vi_hasDeletionsFor :: "nat \<Rightarrow> transaction_t \<Rightarrow> transaction_t \<Rightarrow> version_info \<Rightarrow> bool res" where
  "vi_hasDeletionsFor vc startTS transactionID vi =
     anyVectorHasDeletions vc startTS transactionID (vectorsInfo vi)"

definition vi_serialize :: "bool \<Rightarrow> version_info \<Rightarrow> u8 list res" where
  "vi_serialize dbg vi =
     foldR (\<lambda>p out.
       bindR (case p of
                None \<Rightarrow> Inr []
              | Some v \<Rightarrow> bindR (vector_serialize dbg v) (\<lambda>bs.
                           Inr (writeDebuggingInfo dbg (tag ''vector_info'') @ bs))) (\<lambda>bs.
       Inr (out @ writeDebuggingInfo dbg (tag ''has_vector_info'') @ serializeBool (p \<noteq> None) @ bs)))
       (vectorsInfo vi)
       (writeDebuggingInfo dbg (tag ''vectors_info_size'')
        @ serializeU64 (of_nat (length (vectorsInfo vi))))"

definition readVectorInfo :: "bool \<Rightarrow> nat \<Rightarrow> vector_version_info option reader" where
  "readVectorInfo dbg vc bs =
     bindR (validateDebuggingInfo dbg (tag ''has_vector_info'') bs) (\<lambda>(_, bs).
     bindR (deserializeBool bs) (\<lambda>(hasVectorVersion, bs).
     if hasVectorVersion then
       bindR (validateDebuggingInfo dbg (tag ''vector_info'') bs) (\<lambda>(_, bs).
       bindR (vector_deSerialize dbg vc bs) (\<lambda>(v, bs). Inr (Some v, bs)))
     else Inr (None, bs)))"

definition vi_deserialize :: "bool \<Rightarrow> nat \<Rightarrow> version_info reader" where
  "vi_deserialize dbg vc bs =
     bindR (validateDebuggingInfo dbg (tag ''vectors_info_size'') bs) (\<lambda>(_, bs).
     bindR (deserializeU64 bs) (\<lambda>(vectorSize, bs).
     bindR (readMany (readVectorInfo dbg vc) (unat vectorSize) bs) (\<lambda>(vs, bs).
     Inr (\<lparr>vectorsInfo = vs\<rparr>, bs))))"

section \<open>Ranges of rows and vectors\<close>

definition vecOrNew :: "version_info \<Rightarrow> nat \<Rightarrow> vector_version_info" where
  "vecOrNew vi k = (case getVectorVersionInfo vi k of None \<Rightarrow> VectorVersionInfo_new | Some v \<Rightarrow> v)"

lemma getOrCreate_eq: "snd (getOrCreateVersionInfo vi k) = vecOrNew vi k"
  by (auto simp: getOrCreateVersionInfo_def vecOrNew_def getVectorVersionInfo_def Let_def nth_append)

lemma getVector_set:
  "getVectorVersionInfo (setVectorInfo (fst (getOrCreateVersionInfo vi k)) k v) j =
    (if j = k then Some v else getVectorVersionInfo vi j)"
  by (auto simp: setVectorInfo_def getOrCreateVersionInfo_def getVectorVersionInfo_def Let_def
      nth_list_update nth_append)

lemma rowsInVector_eq:
  assumes "0 < vc" "0 < n"
  shows "rowsInVector vc start n k =
    (let lo = (if k = start div vc then start mod vc else 0);
         hi = (if k = (start + n - 1) div vc then (start + n - 1) mod vc else vc - 1) in (lo, hi - lo + 1))"
  by (simp add: rowsInVector_def getQuotientRemainder_def Let_def)

lemma vectorRange_eq: "set (vectorRange vc start n) = {start div vc..(start + n - 1) div vc}"
  by (auto simp: vectorRange_def getQuotientRemainder_def)

text \<open>The rows of a vector that belong to the range are those between the two bounds.\<close>

lemma row_le_iff:
  fixes a b k r vc :: nat
  assumes "r < vc"
  shows "a \<le> k * vc + r \<longleftrightarrow> a div vc < k \<or> a div vc = k \<and> a mod vc \<le> r"
    and "k * vc + r \<le> a \<longleftrightarrow> k < a div vc \<or> k = a div vc \<and> r \<le> a mod vc"
proof -
  define q m where "q = a div vc" and "m = a mod vc"
  have a: "a = q * vc + m" "m < vc" using assms by (auto simp: q_def m_def)
  have mono: "x < y \<Longrightarrow> x * vc + vc \<le> y * vc" for x y
    using mult_le_mono1 [of "Suc x" y vc] by simp
  show "a \<le> k * vc + r \<longleftrightarrow> a div vc < k \<or> a div vc = k \<and> a mod vc \<le> r"
    unfolding q_def [symmetric] m_def [symmetric] a(1)
    using mono [of q k] mono [of k q] a(2) assms by (cases q k rule: linorder_cases) auto
  show "k * vc + r \<le> a \<longleftrightarrow> k < a div vc \<or> k = a div vc \<and> r \<le> a mod vc"
    unfolding q_def [symmetric] m_def [symmetric] a(1)
    using mono [of q k] mono [of k q] a(2) assms by (cases q k rule: linorder_cases) auto
qed

lemma rowsInVector_range:
  assumes vc: "0 < vc" "0 < n" and k: "k \<in> set (vectorRange vc start n)"
    and rows: "rowsInVector vc start n k = (lo, m)"
  shows "0 < m" "lo + m \<le> vc"
    and "r < vc \<Longrightarrow> lo \<le> r \<and> r < lo + m \<longleftrightarrow> start \<le> k * vc + r \<and> k * vc + r < start + n"
proof -
  define e hi where "e = start + n - 1" and "hi = (if k = e div vc then e mod vc else vc - 1)"
  have lo: "lo = (if k = start div vc then start mod vc else 0)" and m: "m = hi - lo + 1"
    using rows vc by (auto simp: rowsInVector_eq Let_def e_def hi_def)
  have range: "start div vc \<le> k" "k \<le> e div vc" using k by (auto simp: vectorRange_eq e_def)
  have bounds: "lo < vc" "hi < vc" using vc by (auto simp: lo hi_def)
  have "start \<le> e" using vc by (simp add: e_def)
  then have "start mod vc \<le> e mod vc" if "start div vc = e div vc"
    using that by (metis add_le_cancel_left mult_div_mod_eq)
  moreover have "start mod vc \<le> vc - 1" using mod_less_divisor [OF vc(1), of start] by linarith
  ultimately have le: "lo \<le> hi" using range by (auto simp: lo hi_def)
  then show "0 < m" "lo + m \<le> vc" using m bounds by auto
  show "lo \<le> r \<and> r < lo + m \<longleftrightarrow> start \<le> k * vc + r \<and> k * vc + r < start + n" if r: "r < vc"
  proof -
    have "lo \<le> r \<and> r < lo + m \<longleftrightarrow> lo \<le> r \<and> r \<le> hi" using le m by auto
    moreover have "lo \<le> r \<longleftrightarrow> start \<le> k * vc + r" using row_le_iff(1) [OF r] range by (auto simp: lo)
    moreover have "r \<le> hi \<longleftrightarrow> k * vc + r \<le> e" using row_le_iff(2) [OF r] range r by (auto simp: hi_def)
    moreover have "k * vc + r \<le> e \<longleftrightarrow> k * vc + r < start + n" using vc by (auto simp: e_def)
    ultimately show ?thesis by blast
  qed
qed

text \<open>
  The contract of an operation on the rows of one vector, and what the loop over the vectors of a
  range makes of it: every vector of the range is related to its new state by the operation, all
  others are as before.
\<close>

locale vector_range_op =
  fixes vc :: nat and f :: "vector_version_info \<Rightarrow> nat \<Rightarrow> nat \<Rightarrow> vector_version_info res"
    and pre :: "vector_version_info \<Rightarrow> nat \<Rightarrow> nat \<Rightarrow> bool"
    and post :: "vector_version_info \<Rightarrow> nat \<Rightarrow> nat \<Rightarrow> vector_version_info \<Rightarrow> bool"
  assumes op_ok: "pre v s n \<Longrightarrow> 0 < n \<Longrightarrow> s + n \<le> vc \<Longrightarrow> \<exists>v'. f v s n = Inr v' \<and> post v s n v'"
begin

lemma forVectors_ok:
  assumes vc_pos: "0 < vc" and n: "0 < n"
    and pre: "\<And>k s m. k \<in> set (vectorRange vc start n) \<Longrightarrow> rowsInVector vc start n k = (s, m) \<Longrightarrow>
      pre (vecOrNew vi k) s m"
  shows "\<exists>vi'. forVectors vc f start n vi = Inr vi' \<and>
    (\<forall>k. if k \<in> set (vectorRange vc start n)
      then \<exists>s m v'. rowsInVector vc start n k = (s, m) \<and> getVectorVersionInfo vi' k = Some v' \<and> post (vecOrNew vi k) s m v'
      else getVectorVersionInfo vi' k = getVectorVersionInfo vi k)"
proof -
  let ?a = "start div vc" and ?b = "(start + n - 1) div vc + 1"
  define step where "step = (\<lambda>k vi. let (s, m) = rowsInVector vc start n k;
      (vi, v) = getOrCreateVersionInfo vi k in bindR (f v s m) (\<lambda>v. Inr (setVectorInfo vi k v)))"
  define Q where "Q = (\<lambda>k vi'. \<exists>s m v'. rowsInVector vc start n k = (s, m)
      \<and> getVectorVersionInfo vi' k = Some v' \<and> post (vecOrNew vi k) s m v')"
  have "\<exists>vi'. foldR step [?a..<?b] vi = Inr vi' \<and>
      (\<forall>k. if ?a \<le> k \<and> k < ?b then Q k vi' else getVectorVersionInfo vi' k = getVectorVersionInfo vi k)"
  proof (rule foldR_upt_invariant [where I = "\<lambda>j vi'. \<forall>k. if ?a \<le> k \<and> k < j then Q k vi'
        else getVectorVersionInfo vi' k = getVectorVersionInfo vi k"])
    have "start \<le> start + n - 1" using n by simp
    then show "?a \<le> ?b" using div_le_mono [of start "start + n - 1" vc] by simp
  next
    fix j vi1
    assume j: "?a \<le> j" "j < ?b" and inv: "\<forall>k. if ?a \<le> k \<and> k < j then Q k vi1
        else getVectorVersionInfo vi1 k = getVectorVersionInfo vi k"
    have mem: "j \<in> set (vectorRange vc start n)" using j by (simp add: vectorRange_eq)
    obtain s m where sm: "rowsInVector vc start n j = (s, m)" by (cases "rowsInVector vc start n j")
    have "vecOrNew vi1 j = vecOrNew vi j" using inv by (simp add: vecOrNew_def)
    then obtain v' where v': "f (vecOrNew vi1 j) s m = Inr v'" "post (vecOrNew vi j) s m v'"
      using op_ok [OF pre [OF mem sm]] rowsInVector_range(1,2) [OF vc_pos n mem sm] by auto
    let ?vi2 = "setVectorInfo (fst (getOrCreateVersionInfo vi1 j)) j v'"
    have "step j vi1 = Inr ?vi2"
      using v'(1) sm getOrCreate_eq [of vi1 j]
      by (cases "getOrCreateVersionInfo vi1 j") (auto simp: step_def)
    moreover have "if ?a \<le> k \<and> k < Suc j then Q k ?vi2
        else getVectorVersionInfo ?vi2 k = getVectorVersionInfo vi k" for k
      using inv [rule_format, of k] v'(2) sm j(1) by (auto simp: Q_def getVector_set less_Suc_eq split: if_splits)
    ultimately show "\<exists>vi2. step j vi1 = Inr vi2 \<and> (\<forall>k. if ?a \<le> k \<and> k < Suc j then Q k vi2
        else getVectorVersionInfo vi2 k = getVectorVersionInfo vi k)" by blast
  qed auto
  moreover have "forVectors vc f start n vi = foldR step [?a..<?b] vi"
    using n by (simp add: forVectors_def step_def vectorRange_def getQuotientRemainder_def)
  moreover have "k \<in> set (vectorRange vc start n) \<longleftrightarrow> ?a \<le> k \<and> k < ?b" for k
    by (auto simp: vectorRange_eq)
  ultimately show ?thesis unfolding Q_def by (simp only:)
qed

end

section \<open>The versions of the rows of a vector\<close>

definition insVersion :: "vector_version_info \<Rightarrow> nat \<Rightarrow> transaction_t" where
  "insVersion v r =
     (case insertionStatus v of
        NO_INSERTED \<Rightarrow> INVALID_TRANSACTION
      | ALWAYS_INSERTED \<Rightarrow> 0
      | CHECK_INSERTED \<Rightarrow>
          if isSameInsertionVersion v then sameInsertionVersion v
          else case insertedVersions v of None \<Rightarrow> INVALID_TRANSACTION | Some a \<Rightarrow> a ! r)"

definition delVersion :: "vector_version_info \<Rightarrow> nat \<Rightarrow> transaction_t" where
  "delVersion v r =
     (case deletionStatus v of
        NO_DELETED \<Rightarrow> INVALID_TRANSACTION
      | CHECK_DELETED \<Rightarrow>
          if isSameDeletionVersion v then sameDeletionVersion v
          else case deletedVersions v of None \<Rightarrow> INVALID_TRANSACTION | Some a \<Rightarrow> a ! r)"

definition noVersions :: "transaction_t list option \<Rightarrow> bool" where
  "noVersions vs = (case vs of None \<Rightarrow> True | Some a \<Rightarrow> \<forall>i < length a. a ! i = INVALID_TRANSACTION)"

text \<open>The invariant of a vector, for its insertions and for its deletions.\<close>

definition ins_wf :: "nat \<Rightarrow> vector_version_info \<Rightarrow> bool" where
  "ins_wf vc v \<longleftrightarrow>
     (\<forall>a. insertedVersions v = Some a \<longrightarrow> length a = vc \<and> \<not> isSameInsertionVersion v)
   \<and> (insertionStatus v = CHECK_INSERTED \<longleftrightarrow> isSameInsertionVersion v \<or> insertedVersions v \<noteq> None)"

definition del_wf :: "nat \<Rightarrow> vector_version_info \<Rightarrow> bool" where
  "del_wf vc v \<longleftrightarrow>
     (\<forall>a. deletedVersions v = Some a \<longrightarrow> length a = vc \<and> \<not> isSameDeletionVersion v)
   \<and> (deletionStatus v = CHECK_DELETED \<longrightarrow> isSameDeletionVersion v \<or> deletedVersions v \<noteq> None)
   \<and> (deletionStatus v = NO_DELETED \<longrightarrow> \<not> isSameDeletionVersion v \<and> noVersions (deletedVersions v))"

definition vector_wf :: "nat \<Rightarrow> vector_version_info \<Rightarrow> bool" where
  "vector_wf vc v \<longleftrightarrow> ins_wf vc v \<and> del_wf vc v"

text \<open>A version is visible to a transaction that wrote it or started after its commit.\<close>

definition visible :: "transaction_t \<Rightarrow> transaction_t \<Rightarrow> transaction_t \<Rightarrow> bool" where
  "visible startTS transactionID version \<longleftrightarrow> version = transactionID \<or> version \<le> startTS"

lemmas ins_defs = ins_wf_def insVersion_def isSameInsertionVersion_def

lemmas del_defs = del_wf_def delVersion_def isSameDeletionVersion_def noVersions_def

text \<open>The insertions do not depend on the deletion fields, and the other way round.\<close>

lemma ins_frame [simp]:
  "insVersion (v\<lparr>deletionStatus := d\<rparr>) = insVersion v"
  "insVersion (v\<lparr>deletedVersions := x\<rparr>) = insVersion v"
  "insVersion (v\<lparr>sameDeletionVersion := t\<rparr>) = insVersion v"
  "ins_wf vc (v\<lparr>deletionStatus := d\<rparr>) = ins_wf vc v"
  "ins_wf vc (v\<lparr>deletedVersions := x\<rparr>) = ins_wf vc v"
  "ins_wf vc (v\<lparr>sameDeletionVersion := t\<rparr>) = ins_wf vc v"
  by (auto simp: fun_eq_iff ins_defs split: insertion_status.splits)

lemma del_frame [simp]:
  "delVersion (v\<lparr>insertionStatus := s\<rparr>) = delVersion v"
  "delVersion (v\<lparr>insertedVersions := x\<rparr>) = delVersion v"
  "delVersion (v\<lparr>sameInsertionVersion := t\<rparr>) = delVersion v"
  "del_wf vc (v\<lparr>insertionStatus := s\<rparr>) = del_wf vc v"
  "del_wf vc (v\<lparr>insertedVersions := x\<rparr>) = del_wf vc v"
  "del_wf vc (v\<lparr>sameInsertionVersion := t\<rparr>) = del_wf vc v"
  by (auto simp: fun_eq_iff del_defs split: deletion_status.splits)

lemma vector_wf_new: "vector_wf vc VectorVersionInfo_new"
  by (simp add: vector_wf_def ins_defs del_defs VectorVersionInfo_new_def)

lemma zero_visible: "visible startTS tid 0"
  by (simp add: visible_def)

lemma invalid_hidden:
  "startTS < INVALID_TRANSACTION \<Longrightarrow> tid \<noteq> INVALID_TRANSACTION \<Longrightarrow> \<not> visible startTS tid INVALID_TRANSACTION"
  by (auto simp: visible_def)

lemma vector_isInserted_eq:
  assumes "vector_wf vc v" "r < vc" "startTS < INVALID_TRANSACTION" "tid \<noteq> INVALID_TRANSACTION"
  shows "vector_isInserted startTS tid v r = Inr (visible startTS tid (insVersion v r))"
  using assms invalid_hidden [of startTS tid]
  by (auto simp: vector_wf_def vector_isInserted_def ins_defs visible_def split: insertion_status.splits option.splits)

lemma vector_isDeleted_eq:
  assumes "vector_wf vc v" "r < vc" "startTS < INVALID_TRANSACTION" "tid \<noteq> INVALID_TRANSACTION"
  shows "vector_isDeleted startTS tid v r = Inr (visible startTS tid (delVersion v r))"
  using assms invalid_hidden [of startTS tid]
  by (auto simp: vector_wf_def vector_isDeleted_def del_defs visible_def split: deletion_status.splits option.splits)

lemma vector_isSelected_eq:
  assumes "vector_wf vc v" "r < vc" "startTS < INVALID_TRANSACTION" "tid \<noteq> INVALID_TRANSACTION"
  shows "vector_isSelected startTS tid v r =
    Inr (visible startTS tid (insVersion v r) \<and> \<not> visible startTS tid (delVersion v r))"
  using assms invalid_hidden [of startTS tid]
  by (auto simp: vector_isSelected_def vector_isInserted_eq vector_isDeleted_eq insVersion_def
      delVersion_def zero_visible)

text \<open>Deleting a row: the three outcomes.\<close>

lemma vector_delete_ok:
  assumes wf: "vector_wf vc v" and r: "r < vc" and tid: "tid \<noteq> INVALID_TRANSACTION"
    and "vector_delete vc tid v r = (v', res)"
  shows "vector_wf vc v' \<and> insVersion v' = insVersion v \<and>
    (\<forall>q < vc. delVersion v' q = (if res = Inr True \<and> q = r then tid else delVersion v q)) \<and>
    res = (if delVersion v r = INVALID_TRANSACTION then Inr True
           else if delVersion v r = tid then Inr False else Inl writeConflict)"
proof (cases "isSameDeletionVersion v")
  case True
  then have "deletionStatus v = CHECK_DELETED"
    using wf by (cases "deletionStatus v") (auto simp: vector_wf_def del_wf_def)
  moreover from this have same: "v\<lparr>deletionStatus := CHECK_DELETED\<rparr> = v" by simp
  moreover have "vector_delete vc tid v r =
      (if tid = sameDeletionVersion v then (v, Inr False) else (v, Inl writeConflict))"
    unfolding vector_delete_def Let_def same using True by simp
  ultimately show ?thesis
    using assms True by (auto simp: delVersion_def isSameDeletionVersion_def split: if_splits)
next
  case False
  define a where "a = (case deletedVersions v of None \<Rightarrow> replicate vc INVALID_TRANSACTION | Some a \<Rightarrow> a)"
  have a: "length a = vc" "\<And>q. q < vc \<Longrightarrow> delVersion v q = a ! q"
    using wf False by (auto simp: a_def vector_wf_def del_defs split: option.splits deletion_status.splits)
  have eq: "vector_delete vc tid v r =
      (let v = v\<lparr>deletionStatus := CHECK_DELETED, deletedVersions := Some a\<rparr> in
       if a ! r = tid then (v, Inr False)
       else if a ! r \<noteq> INVALID_TRANSACTION then (v, Inl writeConflict)
       else (v\<lparr>deletedVersions := Some (a[r := tid])\<rparr>, Inr True))"
    using False tid r a(1)
    by (auto simp: vector_delete_def a_def isSameDeletionVersion_def initDeletionVersionArray_def Let_def
        split: option.splits)
  have del: "delVersion (v\<lparr>deletionStatus := CHECK_DELETED, deletedVersions := Some x\<rparr>) q = x ! q" for x q
    using False by (simp add: delVersion_def isSameDeletionVersion_def)
  have wf': "vector_wf vc (v\<lparr>deletionStatus := CHECK_DELETED, deletedVersions := Some x\<rparr>)" if "length x = vc" for x
    using wf False that by (simp add: vector_wf_def del_wf_def isSameDeletionVersion_def)
  show ?thesis
    using assms(4) tid r a del wf' unfolding eq Let_def
    by (auto split: if_splits simp: nth_list_update)
qed

section \<open>The range operations on one vector\<close>

text \<open>No version is recorded from a row on.\<close>

definition freshFrom :: "vector_version_info \<Rightarrow> nat \<Rightarrow> bool" where
  "freshFrom v s \<longleftrightarrow>
     (\<forall>a. insertedVersions v = Some a \<longrightarrow> (\<forall>i < length a. s \<le> i \<longrightarrow> a ! i = INVALID_TRANSACTION))"

definition append_pre :: "nat \<Rightarrow> transaction_t \<Rightarrow> vector_version_info \<Rightarrow> nat \<Rightarrow> nat \<Rightarrow> bool" where
  "append_pre vc tid v s n \<longleftrightarrow>
     vector_wf vc v \<and> insertionStatus v \<noteq> ALWAYS_INSERTED \<and> tid \<noteq> INVALID_TRANSACTION \<and> freshFrom v s"

definition append_post ::
  "nat \<Rightarrow> transaction_t \<Rightarrow> vector_version_info \<Rightarrow> nat \<Rightarrow> nat \<Rightarrow> vector_version_info \<Rightarrow> bool" where
  "append_post vc tid v s n v' \<longleftrightarrow>
     vector_wf vc v' \<and> insertionStatus v' = CHECK_INSERTED \<and> freshFrom v' (s + n)
   \<and> (\<forall>r < vc. delVersion v' r = delVersion v r)
   \<and> (\<forall>r. s \<le> r \<and> r < s + n \<longrightarrow> insVersion v' r = tid)
   \<and> (\<forall>r < s. insVersion v' r = insVersion v r \<or> insVersion v r = INVALID_TRANSACTION \<and> insVersion v' r = tid)"

text \<open>
  The insertion version of the rows of a range is replaced. The vector may hold one version for
  all of its rows, so other rows of the same version may get the new one too; rows of other
  versions do not.
\<close>

definition ins_pre :: "nat \<Rightarrow> transaction_t \<Rightarrow> vector_version_info \<Rightarrow> nat \<Rightarrow> nat \<Rightarrow> bool" where
  "ins_pre vc T v s n \<longleftrightarrow>
     vector_wf vc v \<and> insertionStatus v = CHECK_INSERTED \<and> T \<noteq> INVALID_TRANSACTION
   \<and> (\<forall>r. s \<le> r \<and> r < s + n \<longrightarrow> insVersion v r = T)"

definition ins_replaced ::
  "nat \<Rightarrow> transaction_t \<Rightarrow> transaction_t \<Rightarrow> vector_version_info \<Rightarrow> nat \<Rightarrow> nat \<Rightarrow> vector_version_info \<Rightarrow> bool" where
  "ins_replaced vc T new v s n v' \<longleftrightarrow>
     vector_wf vc v' \<and> (\<forall>r < vc. delVersion v' r = delVersion v r)
   \<and> (\<forall>r. s \<le> r \<and> r < s + n \<longrightarrow> insVersion v' r = new)
   \<and> (\<forall>r < vc. insVersion v' r = insVersion v r \<or> insVersion v r = T \<and> insVersion v' r = new)
   \<and> (\<forall>q. s + n \<le> q \<longrightarrow> freshFrom v q \<longrightarrow> freshFrom v' q)"

text \<open>Before insertions are rolled back, the deletions of the same rows have been.\<close>

definition rollback_pre :: "nat \<Rightarrow> transaction_t \<Rightarrow> vector_version_info \<Rightarrow> nat \<Rightarrow> nat \<Rightarrow> bool" where
  "rollback_pre vc T v s n \<longleftrightarrow> ins_pre vc T v s n
     \<and> (\<forall>r < vc. insVersion v r \<in> {T, INVALID_TRANSACTION} \<longrightarrow> delVersion v r = INVALID_TRANSACTION)"

definition del_pre :: "nat \<Rightarrow> transaction_t \<Rightarrow> vector_version_info \<Rightarrow> nat \<Rightarrow> nat \<Rightarrow> bool" where
  "del_pre vc T v s n \<longleftrightarrow> vector_wf vc v \<and> T \<noteq> INVALID_TRANSACTION
     \<and> (\<forall>r. s \<le> r \<and> r < s + n \<longrightarrow> delVersion v r = T)"

definition del_replaced ::
  "nat \<Rightarrow> transaction_t \<Rightarrow> transaction_t \<Rightarrow> vector_version_info \<Rightarrow> nat \<Rightarrow> nat \<Rightarrow> vector_version_info \<Rightarrow> bool" where
  "del_replaced vc T new v s n v' \<longleftrightarrow>
     vector_wf vc v' \<and> insVersion v' = insVersion v \<and> insertedVersions v' = insertedVersions v
   \<and> (\<forall>r. s \<le> r \<and> r < s + n \<longrightarrow> delVersion v' r = new)
   \<and> (\<forall>r < vc. delVersion v' r = delVersion v r \<or> delVersion v r = T \<and> delVersion v' r = new)"

lemma append_array:
  assumes "length a = vc" "s + n \<le> vc" "\<forall>i < length a. s \<le> i \<longrightarrow> a ! i = INVALID_TRANSACTION"
  shows "\<exists>b. foldR (\<lambda>i a. bindR (nthR a (s + i)) (\<lambda>old.
        bindR (assertR (old = INVALID_TRANSACTION)) (\<lambda>_. updR a (s + i) tid))) [0..<n] a = Inr b
    \<and> length b = vc \<and> (\<forall>r < vc. b ! r = (if s \<le> r \<and> r < s + n then tid else a ! r))"
  by (rule foldR_upt_invariant [where I = "\<lambda>k b. length b = vc
        \<and> (\<forall>r < vc. b ! r = (if s \<le> r \<and> r < s + k then tid else a ! r))"])
     (use assms in \<open>auto simp: nth_list_update\<close>)

lemma vector_append_ok:
  assumes pre: "append_pre vc tid v s n" and "0 < n" "s + n \<le> vc"
  shows "\<exists>v'. vector_append vc tid v s n = Inr v' \<and> append_post vc tid v s n v'"
proof -
  have wf: "ins_wf vc v" "del_wf vc v" "insertionStatus v \<noteq> ALWAYS_INSERTED" "tid \<noteq> INVALID_TRANSACTION"
    and fresh: "freshFrom v s"
    using pre by (auto simp: append_pre_def vector_wf_def)
  let ?c = "v\<lparr>insertionStatus := CHECK_INSERTED\<rparr>"
  consider (same) "tid = sameInsertionVersion v" | (first) "\<not> isSameInsertionVersion v" "insertedVersions v = None"
    | (switch) "isSameInsertionVersion v" "tid \<noteq> sameInsertionVersion v" "insertedVersions v = None"
    | (array) a where "tid \<noteq> sameInsertionVersion v" "insertedVersions v = Some a" "length a = vc"
        "\<not> isSameInsertionVersion v"
    using wf(1) by (cases "insertedVersions v") (auto simp: ins_wf_def)
  then show ?thesis
  proof cases
    case same
    then have "vector_append vc tid v s n = Inr ?c" by (simp add: vector_append_def)
    then show ?thesis
      using same wf by (auto simp: append_post_def vector_wf_def ins_defs freshFrom_def)
  next
    case first
    then have "vector_append vc tid v s n = Inr (?c\<lparr>sameInsertionVersion := tid\<rparr>)"
      using wf(4) by (auto simp: vector_append_def isSameInsertionVersion_def)
    then show ?thesis
      using first wf by (auto simp: append_post_def vector_wf_def ins_defs freshFrom_def split: insertion_status.splits)
  next
    case switch
    let ?old = "sameInsertionVersion v"
    obtain a where a: "fillR (replicate vc INVALID_TRANSACTION) 0 s ?old = Inr a" "length a = vc"
        "\<forall>k < vc. a ! k = (if k < s then ?old else INVALID_TRANSACTION)"
      using fillR_ok [of s "replicate vc INVALID_TRANSACTION" 0 ?old] assms(3) by auto
    obtain b where b: "foldR (\<lambda>i a. bindR (nthR a (s + i)) (\<lambda>old.
          bindR (assertR (old = INVALID_TRANSACTION)) (\<lambda>_. updR a (s + i) tid))) [0..<n] a = Inr b"
        "length b = vc" "\<forall>r < vc. b ! r = (if s \<le> r \<and> r < s + n then tid else a ! r)"
      using append_array [of a vc s n tid] a(2,3) assms(3) by auto
    let ?v = "?c\<lparr>insertedVersions := Some b, sameInsertionVersion := INVALID_TRANSACTION\<rparr>"
    have "vector_append vc tid v s n = Inr ?v"
      using switch a(1) b(1)
      by (simp add: vector_append_def initInsertionVersionArray_def isSameInsertionVersion_def)
    moreover have "insertionStatus v = CHECK_INSERTED" using switch wf(1) by (simp add: ins_wf_def)
    ultimately show ?thesis
      using switch wf b(2,3) a(3) assms(3) by (auto simp: append_post_def vector_wf_def ins_defs freshFrom_def)
  next
    case array
    obtain b where b: "foldR (\<lambda>i a. bindR (nthR a (s + i)) (\<lambda>old.
          bindR (assertR (old = INVALID_TRANSACTION)) (\<lambda>_. updR a (s + i) tid))) [0..<n] a = Inr b"
        "length b = vc" "\<forall>r < vc. b ! r = (if s \<le> r \<and> r < s + n then tid else a ! r)"
      using append_array [of a vc s n tid] array assms(3) fresh by (auto simp: freshFrom_def)
    have "vector_append vc tid v s n = Inr (?c\<lparr>insertedVersions := Some b\<rparr>)"
      using array b(1) by (simp add: vector_append_def isSameInsertionVersion_def)
    moreover have "insertionStatus v = CHECK_INSERTED" using array wf(1) by (simp add: ins_wf_def)
    ultimately show ?thesis
      using array wf b(2,3) assms(3) fresh by (auto simp: append_post_def vector_wf_def ins_defs freshFrom_def)
  qed
qed

interpretation append_op: vector_range_op vc "vector_append vc tid" "append_pre vc tid" "append_post vc tid" for vc tid
  by unfold_locales (rule vector_append_ok)

lemma setInsertCommitTS_ok:
  assumes pre: "ins_pre vc T v s n" and cts: "cts \<noteq> INVALID_TRANSACTION" and "0 < n" "s + n \<le> vc"
  shows "\<exists>v'. setInsertCommitTS cts v s n = Inr v' \<and> ins_replaced vc T cts v s n v'"
proof (cases "isSameInsertionVersion v")
  case True
  then have "insVersion v r = T" for r
    using pre assms(3) by (auto simp: ins_pre_def insVersion_def)
  moreover have "insertedVersions v = None"
    using pre True by (cases "insertedVersions v") (auto simp: ins_pre_def vector_wf_def ins_wf_def)
  ultimately show ?thesis
    using True pre cts
    by (auto simp: setInsertCommitTS_def ins_replaced_def ins_pre_def vector_wf_def ins_defs freshFrom_def)
next
  case False
  then obtain a where a: "insertedVersions v = Some a" "length a = vc"
    using pre by (auto simp: ins_pre_def vector_wf_def ins_wf_def)
  obtain b where b: "fillR a s (s + n) cts = Inr b" "length b = vc"
      "\<forall>k < vc. b ! k = (if s \<le> k \<and> k < s + n then cts else a ! k)"
    using fillR_ok [of "s + n" a s cts] a assms(4) by auto
  have ver: "insVersion v r = a ! r" "insVersion (v\<lparr>insertedVersions := Some b\<rparr>) r = b ! r" for r
    using False a pre by (auto simp: ins_pre_def insVersion_def isSameInsertionVersion_def)
  have "vector_wf vc (v\<lparr>insertedVersions := Some b\<rparr>)"
    using pre False a b(2) by (auto simp: ins_pre_def vector_wf_def ins_wf_def isSameInsertionVersion_def)
  moreover have "freshFrom (v\<lparr>insertedVersions := Some b\<rparr>) q" if "s + n \<le> q" "freshFrom v q" for q
    using that a b by (auto simp: freshFrom_def)
  moreover have "setInsertCommitTS cts v s n = Inr (v\<lparr>insertedVersions := Some b\<rparr>)"
    using False a b(1) by (simp add: setInsertCommitTS_def)
  ultimately show ?thesis
    using b(3) assms(4) pre by (auto simp: ins_replaced_def ver ins_pre_def)
qed

lemma setDeleteCommitTS_ok:
  assumes pre: "del_pre vc T v s n" and cts: "cts \<noteq> INVALID_TRANSACTION" and "0 < n" "s + n \<le> vc"
  shows "\<exists>v'. setDeleteCommitTS cts v s n = Inr v' \<and> del_replaced vc T cts v s n v'"
proof -
  have "delVersion v s = T" "T \<noteq> INVALID_TRANSACTION" using pre assms(3) by (auto simp: del_pre_def)
  then have check: "deletionStatus v = CHECK_DELETED" by (cases "deletionStatus v") (auto simp: delVersion_def)
  show ?thesis
  proof (cases "isSameDeletionVersion v")
    case True
    then have "delVersion v r = T" for r
      using pre assms(3) check by (auto simp: del_pre_def delVersion_def)
    moreover have "deletedVersions v = None"
      using pre True by (cases "deletedVersions v") (auto simp: del_pre_def vector_wf_def del_wf_def)
    ultimately show ?thesis
      using True pre cts check
      by (auto simp: setDeleteCommitTS_def del_replaced_def del_pre_def vector_wf_def del_defs)
  next
    case False
    then obtain a where a: "deletedVersions v = Some a" "length a = vc"
      using pre check by (auto simp: del_pre_def vector_wf_def del_wf_def)
    obtain b where b: "fillR a s (s + n) cts = Inr b" "length b = vc"
        "\<forall>k < vc. b ! k = (if s \<le> k \<and> k < s + n then cts else a ! k)"
      using fillR_ok [of "s + n" a s cts] a assms(4) by auto
    have ver: "delVersion v r = a ! r" "delVersion (v\<lparr>deletedVersions := Some b\<rparr>) r = b ! r" for r
      using False a check by (auto simp: delVersion_def isSameDeletionVersion_def)
    have "vector_wf vc (v\<lparr>deletedVersions := Some b\<rparr>)"
      using pre False a b(2) check by (auto simp: del_pre_def vector_wf_def del_wf_def isSameDeletionVersion_def)
    moreover have "setDeleteCommitTS cts v s n = Inr (v\<lparr>deletedVersions := Some b\<rparr>)"
      using False a b(1) by (simp add: setDeleteCommitTS_def)
    ultimately show ?thesis
      using b(3) assms(4) pre by (auto simp: del_replaced_def ver del_pre_def)
  qed
qed

lemma rollbackDeletions_ok:
  assumes pre: "del_pre vc T v s n" and "0 < n" "s + n \<le> vc"
  shows "\<exists>v'. rollbackDeletions v s n = Inr v' \<and> del_replaced vc T INVALID_TRANSACTION v s n v'"
proof -
  have "delVersion v s = T" "T \<noteq> INVALID_TRANSACTION" using pre assms(2) by (auto simp: del_pre_def)
  then have check: "deletionStatus v = CHECK_DELETED" by (cases "deletionStatus v") (auto simp: delVersion_def)
  show ?thesis
  proof (cases "isSameDeletionVersion v")
    case True
    then have "delVersion v r = T" for r
      using pre assms(2) check by (auto simp: del_pre_def delVersion_def)
    moreover have "deletedVersions v = None"
      using pre True by (cases "deletedVersions v") (auto simp: del_pre_def vector_wf_def del_wf_def)
    ultimately show ?thesis
      using True pre check
      by (auto simp: rollbackDeletions_def del_replaced_def del_pre_def vector_wf_def del_defs)
  next
    case False
    then obtain a where a: "deletedVersions v = Some a" "length a = vc"
      using pre check by (auto simp: del_pre_def vector_wf_def del_wf_def)
    obtain b where b: "fillR a s (s + n) INVALID_TRANSACTION = Inr b" "length b = vc"
        "\<forall>k < vc. b ! k = (if s \<le> k \<and> k < s + n then INVALID_TRANSACTION else a ! k)"
      using fillR_ok [of "s + n" a s INVALID_TRANSACTION] a assms(3) by auto
    have old: "delVersion v r = a ! r" for r using False a check by (auto simp: delVersion_def)
    let ?any = "list_ex (\<lambda>version. version \<noteq> INVALID_TRANSACTION) b"
    define v' where "v' = (if ?any then v\<lparr>deletedVersions := Some b\<rparr>
        else v\<lparr>deletedVersions := None, deletionStatus := NO_DELETED\<rparr>)"
    have "rollbackDeletions v s n = Inr v'"
      using False a b(1) by (simp add: rollbackDeletions_def v'_def)
    moreover have new: "delVersion v' r = b ! r" if "r < vc" for r
      using that False b(2) check
      by (auto simp: v'_def delVersion_def isSameDeletionVersion_def list_ex_length)
    moreover have "vector_wf vc v'"
      using pre False b(2) check
      by (auto simp: v'_def del_pre_def vector_wf_def del_wf_def isSameDeletionVersion_def noVersions_def)
    moreover have "insVersion v' = insVersion v" "insertedVersions v' = insertedVersions v"
      by (auto simp: v'_def)
    ultimately show ?thesis
      using b(3) assms(3) pre by (auto simp: del_replaced_def old del_pre_def)
  qed
qed

lemma rollbackInsertions_ok:
  assumes pre: "rollback_pre vc T v s n" and "0 < n" "s + n \<le> vc"
  shows "\<exists>v'. rollbackInsertions v s n = Inr v' \<and> ins_replaced vc T INVALID_TRANSACTION v s n v'"
proof -
  have wf: "ins_wf vc v" "del_wf vc v" and check: "insertionStatus v = CHECK_INSERTED"
    and range: "\<And>r. s \<le> r \<Longrightarrow> r < s + n \<Longrightarrow> insVersion v r = T"
    and dels: "\<And>r. r < vc \<Longrightarrow> insVersion v r \<in> {T, INVALID_TRANSACTION} \<Longrightarrow> delVersion v r = INVALID_TRANSACTION"
    using pre by (auto simp: rollback_pre_def ins_pre_def vector_wf_def)
  text \<open>When no insertion is left, the deletions of the vector are empty already.\<close>
  have empty: "ins_replaced vc T INVALID_TRANSACTION v s n v'"
    if "\<forall>r < vc. insVersion v r \<in> {T, INVALID_TRANSACTION}"
      and v': "v' = v\<lparr>insertedVersions := None, sameInsertionVersion := INVALID_TRANSACTION,
        insertionStatus := NO_INSERTED, deletionStatus := NO_DELETED\<rparr>" for v'
  proof -
    have none: "delVersion v r = INVALID_TRANSACTION" if "r < vc" for r
      using dels that \<open>\<forall>r < vc. insVersion v r \<in> {T, INVALID_TRANSACTION}\<close> by blast
    have "0 < vc" using assms(2,3) by simp
    then have "\<not> isSameDeletionVersion v" using none [of 0] wf(2)
      by (cases "deletionStatus v") (auto simp: del_defs)
    then have "noVersions (deletedVersions v)"
      using none wf(2) by (cases "deletionStatus v") (auto simp: del_defs split: option.splits)
    then have "del_wf vc v'" using \<open>\<not> isSameDeletionVersion v\<close> wf(2)
      by (auto simp: v' del_wf_def isSameDeletionVersion_def)
    moreover have "delVersion v' r = delVersion v r" if "r < vc" for r
      using none [OF that] by (simp add: v' delVersion_def)
    moreover have "ins_wf vc v'" by (simp add: v' ins_defs)
    moreover have "insVersion v' r = INVALID_TRANSACTION" for r by (simp add: v' insVersion_def)
    ultimately show ?thesis
      using that(1) range assms(3) by (auto simp: ins_replaced_def vector_wf_def freshFrom_def v')
  qed
  show ?thesis
  proof (cases "isSameInsertionVersion v")
    case True
    then have "insVersion v r = T" for r using range [of s] assms(2) check by (auto simp: insVersion_def)
    moreover have "insertedVersions v = None"
      using wf(1) True by (cases "insertedVersions v") (auto simp: ins_wf_def)
    ultimately show ?thesis using True by (auto simp: rollbackInsertions_def intro: empty)
  next
    case False
    then obtain a where a: "insertedVersions v = Some a" "length a = vc"
      using wf(1) check by (auto simp: ins_wf_def)
    obtain b where b: "fillR a s (s + n) INVALID_TRANSACTION = Inr b" "length b = vc"
        "\<forall>k < vc. b ! k = (if s \<le> k \<and> k < s + n then INVALID_TRANSACTION else a ! k)"
      using fillR_ok [of "s + n" a s INVALID_TRANSACTION] a assms(3) by auto
    have old: "insVersion v r = a ! r" for r using False a check by (auto simp: insVersion_def)
    show ?thesis
    proof (cases "list_ex (\<lambda>version. version \<noteq> INVALID_TRANSACTION) b")
      case True
      have "insVersion (v\<lparr>insertedVersions := Some b\<rparr>) r = b ! r" for r
        using False check by (simp add: insVersion_def isSameInsertionVersion_def)
      moreover have "ins_wf vc (v\<lparr>insertedVersions := Some b\<rparr>)"
        using False check b(2) wf(1) by (auto simp: ins_wf_def isSameInsertionVersion_def)
      moreover have "freshFrom (v\<lparr>insertedVersions := Some b\<rparr>) q" if "s + n \<le> q" "freshFrom v q" for q
        using that a b by (auto simp: freshFrom_def)
      ultimately have "ins_replaced vc T INVALID_TRANSACTION v s n (v\<lparr>insertedVersions := Some b\<rparr>)"
        using b(3) assms(3) range wf(2) by (auto simp: ins_replaced_def old vector_wf_def)
      moreover have "rollbackInsertions v s n = Inr (v\<lparr>insertedVersions := Some b\<rparr>)"
        using False a b(1) True by (simp add: rollbackInsertions_def)
      ultimately show ?thesis by blast
    next
      case none: False
      have "\<forall>r < vc. insVersion v r \<in> {T, INVALID_TRANSACTION}"
      proof (intro allI impI)
        fix r assume r: "r < vc"
        then have "b ! r = INVALID_TRANSACTION" using none b(2) by (auto simp: list_ex_length)
        then show "insVersion v r \<in> {T, INVALID_TRANSACTION}"
          using b(3) range [of r] r by (auto simp: old split: if_splits)
      qed
      moreover have "rollbackInsertions v s n = Inr (v\<lparr>insertedVersions := None,
          sameInsertionVersion := INVALID_TRANSACTION, insertionStatus := NO_INSERTED, deletionStatus := NO_DELETED\<rparr>)"
        using False a b(1) none by (simp add: rollbackInsertions_def isSameInsertionVersion_def)
      ultimately show ?thesis using empty by blast
    qed
  qed
qed

interpretation commit_insert_op: vector_range_op vc "setInsertCommitTS cts"
    "\<lambda>v s n. ins_pre vc T v s n \<and> cts \<noteq> INVALID_TRANSACTION" "ins_replaced vc T cts" for vc T cts
  by unfold_locales (use setInsertCommitTS_ok in blast)

interpretation rollback_insert_op: vector_range_op vc rollbackInsertions "rollback_pre vc T"
    "ins_replaced vc T INVALID_TRANSACTION" for vc T
  by unfold_locales (rule rollbackInsertions_ok)

interpretation commit_delete_op: vector_range_op vc "setDeleteCommitTS cts"
    "\<lambda>v s n. del_pre vc T v s n \<and> cts \<noteq> INVALID_TRANSACTION" "del_replaced vc T cts" for vc T cts
  by unfold_locales (use setDeleteCommitTS_ok in blast)

interpretation rollback_delete_op: vector_range_op vc rollbackDeletions "del_pre vc T"
    "del_replaced vc T INVALID_TRANSACTION" for vc T
  by unfold_locales (rule rollbackDeletions_ok)

section \<open>The versions of the rows of a chunk\<close>

definition rowIns :: "nat \<Rightarrow> version_info \<Rightarrow> nat \<Rightarrow> transaction_t" where
  "rowIns vc vi r =
     (case getVectorVersionInfo vi (r div vc) of None \<Rightarrow> 0 | Some v \<Rightarrow> insVersion v (r mod vc))"

definition rowDel :: "nat \<Rightarrow> version_info \<Rightarrow> nat \<Rightarrow> transaction_t" where
  "rowDel vc vi r =
     (case getVectorVersionInfo vi (r div vc) of
        None \<Rightarrow> INVALID_TRANSACTION | Some v \<Rightarrow> delVersion v (r mod vc))"

definition vi_wf :: "nat \<Rightarrow> version_info \<Rightarrow> bool" where
  "vi_wf vc vi \<longleftrightarrow> (\<forall>k v. getVectorVersionInfo vi k = Some v \<longrightarrow> vector_wf vc v)"

text \<open>The rows of vector \<open>k\<close> from \<open>s\<close>, \<open>m\<close> of them, are those of the range.\<close>

definition rangeRows :: "nat \<Rightarrow> nat \<Rightarrow> nat \<Rightarrow> nat \<Rightarrow> nat \<Rightarrow> nat \<Rightarrow> bool" where
  "rangeRows vc start n k s m \<longleftrightarrow> 0 < m \<and> s + m \<le> vc \<and>
     (\<forall>q < vc. s \<le> q \<and> q < s + m \<longleftrightarrow> start \<le> k * vc + q \<and> k * vc + q < start + n)"

lemma rangeRows_mem:
  assumes "rangeRows vc start n k s m" "s \<le> q" "q < s + m"
  shows "q < vc" "start \<le> k * vc + q" "k * vc + q < start + n"
proof -
  show "q < vc" using assms by (auto simp: rangeRows_def)
  then have "s \<le> q \<and> q < s + m \<longleftrightarrow> start \<le> k * vc + q \<and> k * vc + q < start + n"
    using assms(1) by (simp only: rangeRows_def)
  then show "start \<le> k * vc + q" "k * vc + q < start + n" using assms(2,3) by auto
qed

lemma rangeRows_first:
  assumes "rangeRows vc start n k s m"
  shows "s < vc" "start \<le> k * vc + s" "k * vc + s < start + n"
  using rangeRows_mem [OF assms, of s] assms by (auto simp: rangeRows_def)

context vector_range_op
begin

lemma forVectors_rows:
  assumes vc: "0 < vc" and n: "0 < n"
    and pre: "\<And>k s m. rangeRows vc start n k s m \<Longrightarrow> pre (vecOrNew vi k) s m"
  shows "\<exists>vi'. forVectors vc f start n vi = Inr vi' \<and>
    (\<forall>k. getVectorVersionInfo vi' k = getVectorVersionInfo vi k
           \<and> (\<forall>q < vc. \<not> (start \<le> k * vc + q \<and> k * vc + q < start + n))
       \<or> (\<exists>s m v'. getVectorVersionInfo vi' k = Some v' \<and> post (vecOrNew vi k) s m v'
           \<and> rangeRows vc start n k s m))"
proof -
  let ?e = "start + n - 1"
  have rows: "rangeRows vc start n k s m"
    if "k \<in> set (vectorRange vc start n)" "rowsInVector vc start n k = (s, m)" for k s m
    using rowsInVector_range [OF vc n that] by (simp add: rangeRows_def)
  have outside: "\<not> (start \<le> k * vc + q \<and> k * vc + q < start + n)"
    if k: "k \<notin> set (vectorRange vc start n)" and q: "q < vc" for k q
  proof
    assume "start \<le> k * vc + q \<and> k * vc + q < start + n"
    then have "start div vc \<le> (k * vc + q) div vc" "(k * vc + q) div vc \<le> ?e div vc"
      by (auto intro: div_le_mono)
    then show False using k q by (simp add: vectorRange_eq)
  qed
  obtain vi' where vi': "forVectors vc f start n vi = Inr vi'"
      "\<And>k. if k \<in> set (vectorRange vc start n)
        then \<exists>s m v'. rowsInVector vc start n k = (s, m) \<and> getVectorVersionInfo vi' k = Some v' \<and> post (vecOrNew vi k) s m v'
        else getVectorVersionInfo vi' k = getVectorVersionInfo vi k"
    using forVectors_ok [OF vc n pre [OF rows]] by blast
  show ?thesis
  proof (intro exI conjI allI)
    fix k
    show "getVectorVersionInfo vi' k = getVectorVersionInfo vi k
        \<and> (\<forall>q < vc. \<not> (start \<le> k * vc + q \<and> k * vc + q < start + n))
      \<or> (\<exists>s m v'. getVectorVersionInfo vi' k = Some v' \<and> post (vecOrNew vi k) s m v' \<and> rangeRows vc start n k s m)"
      using vi'(2) [of k] rows [of k] outside [of k] by (auto split: if_splits)
  qed (rule vi'(1))
qed

end

text \<open>What replacing the insertion or deletion version of a range does to the rows.\<close>

definition ins_rows ::
  "nat \<Rightarrow> transaction_t \<Rightarrow> transaction_t \<Rightarrow> nat \<Rightarrow> nat \<Rightarrow> version_info \<Rightarrow> version_info \<Rightarrow> bool" where
  "ins_rows vc T new start n vi vi' \<longleftrightarrow> vi_wf vc vi'
     \<and> (\<forall>r. rowDel vc vi' r = rowDel vc vi r)
     \<and> (\<forall>r. start \<le> r \<and> r < start + n \<longrightarrow> rowIns vc vi' r = new)
     \<and> (\<forall>r. rowIns vc vi' r = rowIns vc vi r \<or> rowIns vc vi r = T \<and> rowIns vc vi' r = new)"

definition del_rows ::
  "nat \<Rightarrow> transaction_t \<Rightarrow> transaction_t \<Rightarrow> nat \<Rightarrow> nat \<Rightarrow> version_info \<Rightarrow> version_info \<Rightarrow> bool" where
  "del_rows vc T new start n vi vi' \<longleftrightarrow> vi_wf vc vi'
     \<and> (\<forall>r. rowIns vc vi' r = rowIns vc vi r)
     \<and> (\<forall>r. start \<le> r \<and> r < start + n \<longrightarrow> rowDel vc vi' r = new)
     \<and> (\<forall>r. rowDel vc vi' r = rowDel vc vi r \<or> rowDel vc vi r = T \<and> rowDel vc vi' r = new)"

lemma row_split: "0 < vc \<Longrightarrow> (r div vc) * vc + r mod vc = r" for r vc :: nat
  by simp

text \<open>A row with a version of its own is in a vector with version information.\<close>

lemma rowIns_vector:
  assumes "vi_wf vc vi" "0 < vc" "q < vc" "rowIns vc vi (k * vc + q) = T" "T \<noteq> 0" "T \<noteq> INVALID_TRANSACTION"
  obtains v where "getVectorVersionInfo vi k = Some v" "vector_wf vc v" "insertionStatus v = CHECK_INSERTED"
    "insVersion v q = T"
proof (cases "getVectorVersionInfo vi k")
  case None
  then show thesis using assms by (simp add: rowIns_def)
next
  case (Some v)
  then have "insVersion v q = T" using assms by (simp add: rowIns_def)
  moreover have "vector_wf vc v" using Some assms(1) by (auto simp: vi_wf_def)
  moreover have "insertionStatus v = CHECK_INSERTED"
    using calculation(1) assms(5,6) by (cases "insertionStatus v") (auto simp: insVersion_def)
  ultimately show thesis using that Some by blast
qed

lemma ins_rowsI:
  assumes vc: "0 < vc" and wf: "vi_wf vc vi"
    and known: "\<And>r. start \<le> r \<Longrightarrow> r < start + n \<Longrightarrow> getVectorVersionInfo vi (r div vc) \<noteq> None"
    and vecs: "\<forall>k. getVectorVersionInfo vi' k = getVectorVersionInfo vi k
           \<and> (\<forall>q < vc. \<not> (start \<le> k * vc + q \<and> k * vc + q < start + n))
       \<or> (\<exists>s m v'. getVectorVersionInfo vi' k = Some v' \<and> ins_replaced vc T new (vecOrNew vi k) s m v'
           \<and> rangeRows vc start n k s m)"
  shows "ins_rows vc T new start n vi vi'"
proof -
  have row: "rowDel vc vi' (k * vc + q) = rowDel vc vi (k * vc + q)
      \<and> (start \<le> k * vc + q \<and> k * vc + q < start + n \<longrightarrow> rowIns vc vi' (k * vc + q) = new)
      \<and> (rowIns vc vi' (k * vc + q) = rowIns vc vi (k * vc + q)
         \<or> rowIns vc vi (k * vc + q) = T \<and> rowIns vc vi' (k * vc + q) = new)" if q: "q < vc" for k q
    using vecs [rule_format, of k]
  proof
    assume "getVectorVersionInfo vi' k = getVectorVersionInfo vi k
        \<and> (\<forall>q < vc. \<not> (start \<le> k * vc + q \<and> k * vc + q < start + n))"
    then show ?thesis using q by (auto simp: rowIns_def rowDel_def)
  next
    assume "\<exists>s m v'. getVectorVersionInfo vi' k = Some v' \<and> ins_replaced vc T new (vecOrNew vi k) s m v'
        \<and> rangeRows vc start n k s m"
    then obtain s m v' where v': "getVectorVersionInfo vi' k = Some v'"
        "ins_replaced vc T new (vecOrNew vi k) s m v'" "rangeRows vc start n k s m" by blast
    obtain v where "getVectorVersionInfo vi k = Some v" using known [of "k * vc + s"] rangeRows_first [OF v'(3)] by auto
    then show ?thesis
      using v' q by (auto simp: rowIns_def rowDel_def vecOrNew_def ins_replaced_def rangeRows_def)
  qed
  have "vector_wf vc v" if "getVectorVersionInfo vi' k = Some v" for k v
    using vecs [rule_format, of k] that wf by (auto simp: vi_wf_def ins_replaced_def)
  then have "vi_wf vc vi'" by (auto simp: vi_wf_def)
  then show ?thesis
    using row [of "r mod vc" "r div vc" for r] vc by (simp add: ins_rows_def)
qed

lemma del_rowsI:
  assumes vc: "0 < vc" and wf: "vi_wf vc vi"
    and known: "\<And>r. start \<le> r \<Longrightarrow> r < start + n \<Longrightarrow> getVectorVersionInfo vi (r div vc) \<noteq> None"
    and vecs: "\<forall>k. getVectorVersionInfo vi' k = getVectorVersionInfo vi k
           \<and> (\<forall>q < vc. \<not> (start \<le> k * vc + q \<and> k * vc + q < start + n))
       \<or> (\<exists>s m v'. getVectorVersionInfo vi' k = Some v' \<and> del_replaced vc T new (vecOrNew vi k) s m v'
           \<and> rangeRows vc start n k s m)"
  shows "del_rows vc T new start n vi vi'"
proof -
  have row: "rowIns vc vi' (k * vc + q) = rowIns vc vi (k * vc + q)
      \<and> (start \<le> k * vc + q \<and> k * vc + q < start + n \<longrightarrow> rowDel vc vi' (k * vc + q) = new)
      \<and> (rowDel vc vi' (k * vc + q) = rowDel vc vi (k * vc + q)
         \<or> rowDel vc vi (k * vc + q) = T \<and> rowDel vc vi' (k * vc + q) = new)" if q: "q < vc" for k q
    using vecs [rule_format, of k]
  proof
    assume "getVectorVersionInfo vi' k = getVectorVersionInfo vi k
        \<and> (\<forall>q < vc. \<not> (start \<le> k * vc + q \<and> k * vc + q < start + n))"
    then show ?thesis using q by (auto simp: rowIns_def rowDel_def)
  next
    assume "\<exists>s m v'. getVectorVersionInfo vi' k = Some v' \<and> del_replaced vc T new (vecOrNew vi k) s m v'
        \<and> rangeRows vc start n k s m"
    then obtain s m v' where v': "getVectorVersionInfo vi' k = Some v'"
        "del_replaced vc T new (vecOrNew vi k) s m v'" "rangeRows vc start n k s m" by blast
    obtain v where "getVectorVersionInfo vi k = Some v" using known [of "k * vc + s"] rangeRows_first [OF v'(3)] by auto
    then show ?thesis
      using v' q by (auto simp: rowIns_def rowDel_def vecOrNew_def del_replaced_def rangeRows_def)
  qed
  have "vector_wf vc v" if "getVectorVersionInfo vi' k = Some v" for k v
    using vecs [rule_format, of k] that wf by (auto simp: vi_wf_def del_replaced_def)
  then have "vi_wf vc vi'" by (auto simp: vi_wf_def)
  then show ?thesis
    using row [of "r mod vc" "r div vc" for r] vc by (simp add: del_rows_def)
qed

lemma ins_pre_rows:
  assumes "0 < vc" "vi_wf vc vi" "T \<noteq> 0" "T \<noteq> INVALID_TRANSACTION"
    and T: "\<And>r. start \<le> r \<Longrightarrow> r < start + n \<Longrightarrow> rowIns vc vi r = T" and rows: "rangeRows vc start n k s m"
  shows "ins_pre vc T (vecOrNew vi k) s m"
proof -
  obtain v where v: "getVectorVersionInfo vi k = Some v" "vector_wf vc v" "insertionStatus v = CHECK_INSERTED"
    by (rule rowIns_vector [OF assms(2,1) rangeRows_first(1) [OF rows] T [OF rangeRows_first(2,3) [OF rows]] assms(3,4)])
  have "insVersion v q = T" if "s \<le> q" "q < s + m" for q
  proof -
    note mem = rangeRows_mem [OF rows that]
    then show ?thesis using T [of "k * vc + q"] v(1) by (simp add: rowIns_def)
  qed
  then show ?thesis using v assms(4) by (simp add: ins_pre_def vecOrNew_def)
qed

lemma ins_known:
  assumes "0 < vc" "T \<noteq> 0" "\<And>r. start \<le> r \<Longrightarrow> r < start + n \<Longrightarrow> rowIns vc vi r = T"
  shows "start \<le> r \<Longrightarrow> r < start + n \<Longrightarrow> getVectorVersionInfo vi (r div vc) \<noteq> None"
  using assms(2) assms(3) [of r] by (auto simp: rowIns_def split: option.splits)

lemma ins_rows_refl: "vi_wf vc vi \<Longrightarrow> ins_rows vc T new start 0 vi vi"
  by (auto simp: ins_rows_def)

lemma del_rows_refl: "vi_wf vc vi \<Longrightarrow> del_rows vc T new start 0 vi vi"
  by (auto simp: del_rows_def)

lemma commitInsert_rows:
  assumes "0 < vc" "vi_wf vc vi" "T \<noteq> 0" "T \<noteq> INVALID_TRANSACTION" "cts \<noteq> INVALID_TRANSACTION"
    and T: "\<And>r. start \<le> r \<Longrightarrow> r < start + n \<Longrightarrow> rowIns vc vi r = T"
  shows "\<exists>vi'. commitInsert vc start n cts vi = Inr vi' \<and> ins_rows vc T cts start n vi vi'"
proof (cases "n = 0")
  case True
  then show ?thesis using assms(2) by (simp add: commitInsert_def forVectors_def ins_rows_refl)
next
  case False
  then have "0 < n" by simp
  have pre: "ins_pre vc T (vecOrNew vi k) s m \<and> cts \<noteq> INVALID_TRANSACTION"
    if "rangeRows vc start n k s m" for k s m
    using ins_pre_rows [OF assms(1-4) T that] assms(5) by simp
  have known: "\<And>r. start \<le> r \<Longrightarrow> r < start + n \<Longrightarrow> getVectorVersionInfo vi (r div vc) \<noteq> None"
    by (rule ins_known [OF assms(1,3) T])
  from commit_insert_op.forVectors_rows [of vc n start, OF assms(1) \<open>0 < n\<close> pre]
  show ?thesis unfolding commitInsert_def using ins_rowsI [OF assms(1,2) known] by blast
qed

lemma rollbackInsert_rows:
  assumes "0 < vc" "vi_wf vc vi" "T \<noteq> 0" "T \<noteq> INVALID_TRANSACTION"
    and T: "\<And>r. start \<le> r \<Longrightarrow> r < start + n \<Longrightarrow> rowIns vc vi r = T"
    and dels: "\<And>r. rowIns vc vi r \<in> {T, INVALID_TRANSACTION} \<Longrightarrow> rowDel vc vi r = INVALID_TRANSACTION"
  shows "\<exists>vi'. rollbackInsert vc start n vi = Inr vi' \<and> ins_rows vc T INVALID_TRANSACTION start n vi vi'"
proof (cases "n = 0")
  case True
  then show ?thesis using assms(2) by (simp add: rollbackInsert_def forVectors_def ins_rows_refl)
next
  case False
  then have "0 < n" by simp
  have pre: "rollback_pre vc T (vecOrNew vi k) s m" if "rangeRows vc start n k s m" for k s m
  proof -
    have ins: "ins_pre vc T (vecOrNew vi k) s m" by (rule ins_pre_rows [OF assms(1-4) T that])
    have "getVectorVersionInfo vi k \<noteq> None"
      using ins_known [OF assms(1,3) T rangeRows_first(2,3) [OF that]] rangeRows_first(1) [OF that] by simp
    then obtain v where v: "getVectorVersionInfo vi k = Some v" by blast
    have "delVersion v r = INVALID_TRANSACTION" if "r < vc" "insVersion v r \<in> {T, INVALID_TRANSACTION}" for r
      using dels [of "k * vc + r"] that v by (simp add: rowIns_def rowDel_def)
    then show ?thesis using ins v by (simp add: rollback_pre_def vecOrNew_def)
  qed
  have known: "\<And>r. start \<le> r \<Longrightarrow> r < start + n \<Longrightarrow> getVectorVersionInfo vi (r div vc) \<noteq> None"
    by (rule ins_known [OF assms(1,3) T])
  from rollback_insert_op.forVectors_rows [of vc n start, OF assms(1) \<open>0 < n\<close> pre]
  show ?thesis unfolding rollbackInsert_def using ins_rowsI [OF assms(1,2) known] by blast
qed

lemma del_pre_rows:
  assumes "0 < vc" "vi_wf vc vi" "T \<noteq> INVALID_TRANSACTION"
    and T: "\<And>r. start \<le> r \<Longrightarrow> r < start + n \<Longrightarrow> rowDel vc vi r = T" and rows: "rangeRows vc start n k s m"
  shows "del_pre vc T (vecOrNew vi k) s m"
proof -
  have row: "delVersion (vecOrNew vi k) q = T" if "s \<le> q" "q < s + m" for q
  proof -
    note mem = rangeRows_mem [OF rows that]
    then show ?thesis using T [of "k * vc + q"] assms(3)
      by (auto simp: rowDel_def vecOrNew_def split: option.splits)
  qed
  moreover have "vector_wf vc (vecOrNew vi k)"
    using assms(2) vector_wf_new by (auto simp: vecOrNew_def vi_wf_def split: option.splits)
  ultimately show ?thesis using assms(3) by (simp add: del_pre_def)
qed

lemma del_known:
  assumes "T \<noteq> INVALID_TRANSACTION" "\<And>r. start \<le> r \<Longrightarrow> r < start + n \<Longrightarrow> rowDel vc vi r = T"
  shows "start \<le> r \<Longrightarrow> r < start + n \<Longrightarrow> getVectorVersionInfo vi (r div vc) \<noteq> None"
  using assms(1) assms(2) [of r] by (auto simp: rowDel_def split: option.splits)

lemma commitDelete_rows:
  assumes "0 < vc" "vi_wf vc vi" "T \<noteq> INVALID_TRANSACTION" "cts \<noteq> INVALID_TRANSACTION"
    and T: "\<And>r. start \<le> r \<Longrightarrow> r < start + n \<Longrightarrow> rowDel vc vi r = T"
  shows "\<exists>vi'. commitDelete vc start n cts vi = Inr vi' \<and> del_rows vc T cts start n vi vi'"
proof (cases "n = 0")
  case True
  then show ?thesis using assms(2) by (simp add: commitDelete_def forVectors_def del_rows_refl)
next
  case False
  then have "0 < n" by simp
  have pre: "del_pre vc T (vecOrNew vi k) s m \<and> cts \<noteq> INVALID_TRANSACTION"
    if "rangeRows vc start n k s m" for k s m
    using del_pre_rows [OF assms(1-3) T that] assms(4) by simp
  have known: "\<And>r. start \<le> r \<Longrightarrow> r < start + n \<Longrightarrow> getVectorVersionInfo vi (r div vc) \<noteq> None"
    by (rule del_known [OF assms(3) T])
  from commit_delete_op.forVectors_rows [of vc n start, OF assms(1) \<open>0 < n\<close> pre]
  show ?thesis unfolding commitDelete_def using del_rowsI [OF assms(1,2) known] by blast
qed

lemma rollbackDelete_rows:
  assumes "0 < vc" "vi_wf vc vi" "T \<noteq> INVALID_TRANSACTION"
    and T: "\<And>r. start \<le> r \<Longrightarrow> r < start + n \<Longrightarrow> rowDel vc vi r = T"
  shows "\<exists>vi'. rollbackDelete vc start n vi = Inr vi' \<and> del_rows vc T INVALID_TRANSACTION start n vi vi'"
proof (cases "n = 0")
  case True
  then show ?thesis using assms(2) by (simp add: rollbackDelete_def forVectors_def del_rows_refl)
next
  case False
  then have "0 < n" by simp
  have pre: "del_pre vc T (vecOrNew vi k) s m" if "rangeRows vc start n k s m" for k s m
    by (rule del_pre_rows [OF assms(1-3) T that])
  have known: "\<And>r. start \<le> r \<Longrightarrow> r < start + n \<Longrightarrow> getVectorVersionInfo vi (r div vc) \<noteq> None"
    by (rule del_known [OF assms(3) T])
  from rollback_delete_op.forVectors_rows [of vc n start, OF assms(1) \<open>0 < n\<close> pre]
  show ?thesis unfolding rollbackDelete_def using del_rowsI [OF assms(1,2) known] by blast
qed

section \<open>Appending, deleting and reading rows\<close>

text \<open>
  A chunk of \<open>N\<close> rows kept in memory: every vector with rows has version information,
  none of it says that its rows were always there, and nothing is recorded past the last row.
\<close>

definition appendable :: "nat \<Rightarrow> version_info \<Rightarrow> nat \<Rightarrow> bool" where
  "appendable vc vi N \<longleftrightarrow>
     (\<forall>k. case getVectorVersionInfo vi k of
        None \<Rightarrow> N \<le> k * vc
      | Some v \<Rightarrow> insertionStatus v \<noteq> ALWAYS_INSERTED \<and> freshFrom v (N - k * vc))"

lemma freshFrom_mono: "freshFrom v s \<Longrightarrow> s \<le> t \<Longrightarrow> freshFrom v t"
  by (auto simp: freshFrom_def)

lemma append_pre_rows:
  assumes "vi_wf vc vi" "appendable vc vi N" "tid \<noteq> INVALID_TRANSACTION" and rows: "rangeRows vc N n k s m"
  shows "append_pre vc tid (vecOrNew vi k) s m"
proof (cases "getVectorVersionInfo vi k")
  case None
  then have "vecOrNew vi k = VectorVersionInfo_new" by (simp add: vecOrNew_def)
  moreover have "insertionStatus VectorVersionInfo_new \<noteq> ALWAYS_INSERTED" "freshFrom VectorVersionInfo_new s"
    by (simp_all add: VectorVersionInfo_new_def freshFrom_def)
  ultimately show ?thesis using assms(3) vector_wf_new by (simp add: append_pre_def)
next
  case (Some v)
  have "N - k * vc \<le> s" using rangeRows_first(2) [OF rows] by simp
  moreover have "freshFrom v (N - k * vc)" "insertionStatus v \<noteq> ALWAYS_INSERTED"
    using assms(2) [unfolded appendable_def, rule_format, of k] Some by auto
  ultimately have "freshFrom v s" "insertionStatus v \<noteq> ALWAYS_INSERTED" using freshFrom_mono by auto
  then show ?thesis using assms(1,3) Some by (simp add: append_pre_def vecOrNew_def vi_wf_def)
qed

definition append_rows :: "nat \<Rightarrow> transaction_t \<Rightarrow> nat \<Rightarrow> nat \<Rightarrow> version_info \<Rightarrow> version_info \<Rightarrow> bool" where
  "append_rows vc tid N n vi vi' \<longleftrightarrow> vi_wf vc vi' \<and> appendable vc vi' (N + n)
     \<and> (\<forall>r. rowDel vc vi' r = rowDel vc vi r)
     \<and> (\<forall>r. N \<le> r \<and> r < N + n \<longrightarrow> rowIns vc vi' r = tid)
     \<and> (\<forall>r < N. rowIns vc vi' r = rowIns vc vi r \<or> rowIns vc vi r = INVALID_TRANSACTION \<and> rowIns vc vi' r = tid)"

lemma append_rowsI:
  assumes vc: "0 < vc" and wf: "vi_wf vc vi" and app: "appendable vc vi N"
    and vecs: "\<forall>k. getVectorVersionInfo vi' k = getVectorVersionInfo vi k
           \<and> (\<forall>q < vc. \<not> (N \<le> k * vc + q \<and> k * vc + q < N + n))
       \<or> (\<exists>s m v'. getVectorVersionInfo vi' k = Some v' \<and> append_post vc tid (vecOrNew vi k) s m v'
           \<and> rangeRows vc N n k s m)"
  shows "append_rows vc tid N n vi vi'"
proof -
  have vec: "(case getVectorVersionInfo vi' k of None \<Rightarrow> N + n \<le> k * vc
      | Some v \<Rightarrow> vector_wf vc v \<and> insertionStatus v \<noteq> ALWAYS_INSERTED \<and> freshFrom v (N + n - k * vc))
    \<and> (\<forall>q < vc. rowDel vc vi' (k * vc + q) = rowDel vc vi (k * vc + q)
        \<and> (N \<le> k * vc + q \<and> k * vc + q < N + n \<longrightarrow> rowIns vc vi' (k * vc + q) = tid)
        \<and> (k * vc + q < N \<longrightarrow> rowIns vc vi' (k * vc + q) = rowIns vc vi (k * vc + q)
            \<or> rowIns vc vi (k * vc + q) = INVALID_TRANSACTION \<and> rowIns vc vi' (k * vc + q) = tid))" for k
    using vecs [rule_format, of k]
  proof
    assume same: "getVectorVersionInfo vi' k = getVectorVersionInfo vi k
        \<and> (\<forall>q < vc. \<not> (N \<le> k * vc + q \<and> k * vc + q < N + n))"
    have "N + n \<le> k * vc" if "N \<le> k * vc" using same vc that by (metis add_0_right not_le)
    then show ?thesis
      using same app [unfolded appendable_def, rule_format, of k] wf
      by (auto simp: vi_wf_def rowIns_def rowDel_def freshFrom_def split: option.splits)
  next
    assume "\<exists>s m v'. getVectorVersionInfo vi' k = Some v' \<and> append_post vc tid (vecOrNew vi k) s m v'
        \<and> rangeRows vc N n k s m"
    then obtain s m v' where v': "getVectorVersionInfo vi' k = Some v'"
        "append_post vc tid (vecOrNew vi k) s m v'" "rangeRows vc N n k s m" by blast
    have m: "0 < m" using v'(3) by (simp add: rangeRows_def)
    have "k * vc + (s + m - 1) < N + n" by (rule rangeRows_mem(3) [OF v'(3)]) (use m in auto)
    then have "s + m \<le> N + n - k * vc" using m by simp
    then have fresh: "freshFrom v' (N + n - k * vc)"
      using v'(2) freshFrom_mono by (auto simp: append_post_def)
    have before: "q < s" if "q < vc" "k * vc + q < N" for q
      using rangeRows_first(2) [OF v'(3)] that by simp
    have range: "s \<le> q \<and> q < s + m" if "q < vc" "N \<le> k * vc + q" "k * vc + q < N + n" for q
      using v'(3) that by (simp add: rangeRows_def)
    show ?thesis
    proof (cases "getVectorVersionInfo vi k")
      case None
      then have "N \<le> k * vc" using app [unfolded appendable_def, rule_format, of k] by simp
      then show ?thesis using None v'(1,2) fresh range
        by (auto simp: append_post_def rowIns_def rowDel_def vecOrNew_def VectorVersionInfo_new_def delVersion_def)
    next
      case (Some v)
      then show ?thesis using v'(1,2) fresh range before
        by (auto simp: append_post_def rowIns_def rowDel_def vecOrNew_def)
    qed
  qed
  have "vector_wf vc v" if "getVectorVersionInfo vi' k = Some v" for k v using vec [of k] that by simp
  then have "vi_wf vc vi'" by (simp add: vi_wf_def)
  moreover have "appendable vc vi' (N + n)"
    unfolding appendable_def
  proof
    fix k
    show "case getVectorVersionInfo vi' k of None \<Rightarrow> N + n \<le> k * vc
        | Some v \<Rightarrow> insertionStatus v \<noteq> ALWAYS_INSERTED \<and> freshFrom v (N + n - k * vc)"
      using vec [of k] by (cases "getVectorVersionInfo vi' k") auto
  qed
  ultimately show ?thesis
    using vec [THEN conjunct2, rule_format, of "r mod vc" "r div vc" for r] vc by (simp add: append_rows_def)
qed

lemma append_ok:
  assumes "0 < vc" "vi_wf vc vi" "appendable vc vi N" "tid \<noteq> INVALID_TRANSACTION"
  shows "\<exists>vi'. vi_append vc tid N n vi = Inr vi' \<and> append_rows vc tid N n vi vi'"
proof (cases "n = 0")
  case True
  then show ?thesis using assms(2,3) by (auto simp: vi_append_def forVectors_def append_rows_def)
next
  case False
  then have "0 < n" by simp
  have pre: "append_pre vc tid (vecOrNew vi k) s m" if "rangeRows vc N n k s m" for k s m
    by (rule append_pre_rows [OF assms(2-4) that])
  from append_op.forVectors_rows [of vc n N, OF assms(1) \<open>0 < n\<close> pre]
  show ?thesis unfolding vi_append_def using append_rowsI [OF assms(1-3)] by blast
qed

text \<open>
  Appending rows to a chunk: the new rows get the identifier of the transaction, and the rows
  before them keep their versions, across all vectors the range touches and for every state of a
  vector (none, one version for all rows, an array); only a row whose insertion was rolled back may
  read as the transaction's too. The chunk stays well formed and can be appended to again.
\<close>

theorem vi_append_versions:
  assumes "0 < vc" "vi_wf vc vi" "appendable vc vi N" "tid \<noteq> INVALID_TRANSACTION"
  shows "\<exists>vi'. vi_append vc tid N n vi = Inr vi' \<and> append_rows vc tid N n vi vi'"
  by (rule append_ok [OF assms])

lemma VersionInfo_new_wf: "vi_wf vc VersionInfo_new" "appendable vc VersionInfo_new 0"
  by (simp_all add: vi_wf_def appendable_def VersionInfo_new_def getVectorVersionInfo_def)

theorem vi_append_versions_witness:
  "\<exists>vi'. vi_append 4 9 0 6 VersionInfo_new = Inr vi' \<and> append_rows 4 9 0 6 VersionInfo_new vi'"
  by (rule vi_append_versions) (simp_all add: VersionInfo_new_wf INVALID_TRANSACTION_def)

lemma vi_delete_row:
  assumes vc: "0 < vc" and wf: "vi_wf vc vi" and tid: "tid \<noteq> INVALID_TRANSACTION"
    and row: "rowIns vc vi r \<noteq> INVALID_TRANSACTION" and del: "vi_delete vc tid r vi = (vi', res)"
  shows "vi_wf vc vi'" "rowIns vc vi' = rowIns vc vi"
    and "rowDel vc vi' = (if res = Inr True then (rowDel vc vi)(r := tid) else rowDel vc vi)"
    and "res = (if rowDel vc vi r = INVALID_TRANSACTION then Inr True
           else if rowDel vc vi r = tid then Inr False else Inl writeConflict)"
proof -
  let ?k = "r div vc" and ?q = "r mod vc"
  define v where "v = (let v = vecOrNew vi ?k in
    if insertionStatus v = NO_INSERTED then v\<lparr>insertionStatus := ALWAYS_INSERTED\<rparr> else v)"
  obtain v' where v': "vector_delete vc tid v ?q = (v', res)"
      "vi' = setVectorInfo (fst (getOrCreateVersionInfo vi ?k)) ?k v'"
    using del getOrCreate_eq [of vi ?k]
    by (cases "getOrCreateVersionInfo vi ?k")
      (auto simp: vi_delete_def v_def getQuotientRemainder_def Let_def split: prod.splits)
  have status: "insertionStatus w \<noteq> NO_INSERTED" if "getVectorVersionInfo vi ?k = Some w" for w
    using row that by (auto simp: rowIns_def insVersion_def)
  have v: "vector_wf vc v" "\<And>q. q < vc \<Longrightarrow> insVersion v q = rowIns vc vi (?k * vc + q)"
      "\<And>q. q < vc \<Longrightarrow> delVersion v q = rowDel vc vi (?k * vc + q)"
  proof (atomize (full), cases "getVectorVersionInfo vi ?k")
    case None
    then have "v = VectorVersionInfo_new\<lparr>insertionStatus := ALWAYS_INSERTED\<rparr>"
      by (simp add: v_def vecOrNew_def VectorVersionInfo_new_def)
    then show "vector_wf vc v \<and> (\<forall>q. q < vc \<longrightarrow> insVersion v q = rowIns vc vi (?k * vc + q))
        \<and> (\<forall>q. q < vc \<longrightarrow> delVersion v q = rowDel vc vi (?k * vc + q))"
      using None by (simp add: vector_wf_def ins_defs del_defs rowIns_def rowDel_def VectorVersionInfo_new_def)
  next
    case (Some w)
    then have "v = w" using status by (simp add: v_def vecOrNew_def)
    then show "vector_wf vc v \<and> (\<forall>q. q < vc \<longrightarrow> insVersion v q = rowIns vc vi (?k * vc + q))
        \<and> (\<forall>q. q < vc \<longrightarrow> delVersion v q = rowDel vc vi (?k * vc + q))"
      using Some wf by (simp add: rowIns_def rowDel_def vi_wf_def)
  qed
  have q: "?q < vc" using vc by simp
  note d = vector_delete_ok [OF v(1) q tid v'(1)]
  have at: "getVectorVersionInfo vi' j = (if j = ?k then Some v' else getVectorVersionInfo vi j)" for j
    unfolding v'(2) by (rule getVector_set)
  show "vi_wf vc vi'" using d wf by (simp add: vi_wf_def at)
  have rows: "rowIns vc vi' p = rowIns vc vi p \<and>
      rowDel vc vi' p = (if res = Inr True \<and> p = r then tid else rowDel vc vi p)" for p
  proof (cases "p div vc = ?k")
    case True
    then have "?k * vc + p mod vc = p" by (metis div_mult_mod_eq)
    moreover have "p = r \<longleftrightarrow> p mod vc = ?q" using True by (metis div_mult_mod_eq)
    ultimately show ?thesis
      using d v(2,3) [of "p mod vc"] vc True by (auto simp: rowIns_def [of _ vi'] rowDel_def [of _ vi'] at)
  next
    case False
    then show ?thesis by (auto simp: rowIns_def rowDel_def at)
  qed
  then show "rowIns vc vi' = rowIns vc vi"
    "rowDel vc vi' = (if res = Inr True then (rowDel vc vi)(r := tid) else rowDel vc vi)"
    by (auto simp: fun_eq_iff)
  show "res = (if rowDel vc vi r = INVALID_TRANSACTION then Inr True
      else if rowDel vc vi r = tid then Inr False else Inl writeConflict)"
    using d v(3) [OF q] by simp
qed

lemma vi_isSelected_eq:
  assumes "0 < vc" "vi_wf vc vi" "startTS < INVALID_TRANSACTION" "tid \<noteq> INVALID_TRANSACTION"
  shows "vi_isSelected vc startTS tid vi r =
    Inr (visible startTS tid (rowIns vc vi r) \<and> \<not> visible startTS tid (rowDel vc vi r))"
  using assms invalid_hidden [OF assms(3,4)]
  by (auto simp: vi_isSelected_def getQuotientRemainder_def rowIns_def rowDel_def zero_visible vi_wf_def
      vector_isSelected_eq [of vc] split: option.splits)

section \<open>Scanning\<close>

text \<open>A selection that holds the given positions; as long as it is static it has seen no gap.\<close>

definition selects :: "nat \<Rightarrow> sel_vector \<Rightarrow> nat list \<Rightarrow> nat \<Rightarrow> bool" where
  "selects vc sv ps p \<longleftrightarrow> sel_ok vc sv \<and> selCapacity sv = vc \<and> getSelectedPositions vc sv = ps
     \<and> selectedSize sv = length ps \<and> (selState sv = STATIC \<longrightarrow> ps = [0..<p])"

definition pushSelected :: "(nat \<Rightarrow> bool) \<Rightarrow> nat \<Rightarrow> nat \<Rightarrow> sel_vector \<times> nat \<Rightarrow> (sel_vector \<times> nat) res" where
  "pushSelected P p i st =
     (if P i then bindR (setMutable (fst st) (snd st) (p + i)) (\<lambda>sv. Inr (sv, snd st + 1)) else Inr st)"

lemma pushSelected_loop:
  assumes "sel_ok vc sv" "selState sv = DYNAMIC" "num + m \<le> selCapacity sv"
  shows "\<exists>sv'. foldR (pushSelected P p) [0..<m] (sv, num) = Inr (sv', num + length (filter P [0..<m]))
    \<and> sel_ok vc sv' \<and> selState sv' = DYNAMIC \<and> selCapacity sv' = selCapacity sv
    \<and> take (num + length (filter P [0..<m])) (selectedPositionsBuffer sv') =
        take num (selectedPositionsBuffer sv) @ map ((+) p) (filter P [0..<m])"
proof -
  let ?I = "\<lambda>i st. snd st = num + length (filter P [0..<i]) \<and> sel_ok vc (fst st)
    \<and> selState (fst st) = DYNAMIC \<and> selCapacity (fst st) = selCapacity sv
    \<and> take (snd st) (selectedPositionsBuffer (fst st)) =
        take num (selectedPositionsBuffer sv) @ map ((+) p) (filter P [0..<i])"
  have "\<exists>st. foldR (pushSelected P p) [0..<m] (sv, num) = Inr st \<and> ?I m st"
  proof (rule foldR_upt_invariant [where I = ?I])
    fix i st
    assume i: "i < m" and inv: "?I i st"
    have "length (filter P [0..<i]) \<le> i" by (metis length_filter_le length_upt minus_nat.diff_0)
    then have lt: "snd st < selCapacity (fst st)" using inv i assms(3) by simp
    show "\<exists>st'. pushSelected P p i st = Inr st' \<and> ?I (Suc i) st'"
    proof (cases "P i")
      case True
      obtain sv2 where "setMutable (fst st) (snd st) (p + i) = Inr sv2" "sel_ok vc sv2"
          "selState sv2 = DYNAMIC" "selCapacity sv2 = selCapacity sv"
          "take (Suc (snd st)) (selectedPositionsBuffer sv2) =
            take (snd st) (selectedPositionsBuffer (fst st)) @ [p + i]"
        using append_position [of vc "fst st" "snd st" "p + i"] inv lt by auto
      then show ?thesis using True inv by (auto simp: pushSelected_def)
    next
      case False
      then show ?thesis using inv by (auto simp: pushSelected_def)
    qed
  qed (use assms in auto)
  then show ?thesis by (metis prod.collapse)
qed

text \<open>The loop followed by \<^verbatim>\<open>setToFiltered\<close> with the new size.\<close>

lemma push_all:
  assumes sel: "selects vc sv ps p" and dyn: "selState sv = DYNAMIC" and room: "length ps + m \<le> vc"
  shows "\<exists>sv'. bindR (foldR (pushSelected P p) [0..<m] (sv, selectedSize sv))
      (\<lambda>(sv, num). setToFiltered_size sv num) = Inr sv'
    \<and> selects vc sv' (ps @ map ((+) p) (filter P [0..<m])) (p + m)"
proof -
  have sv: "sel_ok vc sv" "selCapacity sv = vc" "selectedSize sv = length ps" using sel by (auto simp: selects_def)
  have own: "selectedPositions sv = OwnBuffer"
    using sv(1) dyn by (cases "selectedPositions sv") (auto simp: sel_ok_def)
  have ps: "take (length ps) (selectedPositionsBuffer sv) = ps"
    using sel own by (auto simp: selects_def getSelectedPositions_def positionArray_def)
  have "length (filter P [0..<m]) \<le> m" by (metis length_filter_le length_upt minus_nat.diff_0)
  moreover obtain sv' where "foldR (pushSelected P p) [0..<m] (sv, selectedSize sv) =
        Inr (sv', length ps + length (filter P [0..<m]))" "sel_ok vc sv'" "selState sv' = DYNAMIC" "selCapacity sv' = vc"
      "take (length ps + length (filter P [0..<m])) (selectedPositionsBuffer sv') = ps @ map ((+) p) (filter P [0..<m])"
    using pushSelected_loop [of vc sv "length ps" m P p] sv dyn room ps by auto
  ultimately show ?thesis
    using room
    by (auto simp: setToFiltered_size_def setToFiltered_def selects_def sel_ok_def getSelectedPositions_def
        positionArray_def)
qed

lemma selectAll_ok:
  assumes sel: "selects vc sv ps p" and room: "length ps + m \<le> vc"
  shows "\<exists>sv'. selectAll vc sv m p = Inr sv' \<and> selects vc sv' (ps @ [p..<p + m]) (p + m)"
proof (cases "selState sv")
  case STATIC
  then have ps: "ps = [0..<p]" using sel by (simp add: selects_def)
  have upt: "[0..<p] @ [p..<p + m] = [0..<p + m]" by (rule upt_add_eq_append [symmetric]) simp
  have sv: "sel_ok vc sv" "selCapacity sv = vc" "selectedSize sv = p" using sel ps by (auto simp: selects_def)
  have "selectAll vc sv m p = Inr (sv\<lparr>selectedSize := p + m\<rparr>)"
    using STATIC sv room ps by (simp add: selectAll_def isUnfiltered_eq setSelSize_def)
  moreover have "selects vc (sv\<lparr>selectedSize := p + m\<rparr>) [0..<p + m] (p + m)"
    using STATIC sv room ps
    by (simp add: selects_def sel_ok_def getSelectedPositions_def positionArray_def INCREMENTAL_SELECTED_POS_def)
  ultimately show ?thesis unfolding ps upt by blast
next
  case DYNAMIC
  have "foldR (\<lambda>i (sv, numSelected). bindR (setMutable sv numSelected (p + i)) (\<lambda>sv. Inr (sv, numSelected + 1)))
      [0..<m] st = foldR (pushSelected (\<lambda>_. True) p) [0..<m] st" for st
    by (rule foldR_cong) (simp add: pushSelected_def split: prod.splits)
  moreover have "map ((+) p) [0..<m] = [p..<p + m]" by (rule nth_equalityI) auto
  ultimately show ?thesis
    using push_all [OF sel DYNAMIC room, of "\<lambda>_. True"] sel DYNAMIC isUnfiltered_eq [of vc sv]
    by (simp add: selectAll_def selects_def)
qed

lemma selects_dynamic:
  assumes "selects vc sv ps p"
  shows "\<exists>sv'. bindR (isUnfiltered vc sv) (\<lambda>u. if u then makeDynamic vc sv else Inr sv) = Inr sv'
    \<and> selects vc sv' ps p \<and> selState sv' = DYNAMIC \<and> selectedSize sv' = selectedSize sv"
proof (cases "selState sv")
  case STATIC
  then show ?thesis
    using assms makeDynamic_ok [of vc sv] isUnfiltered_eq [of vc sv] by (auto simp: selects_def)
next
  case DYNAMIC
  then show ?thesis using assms isUnfiltered_eq [of vc sv] by (auto simp: selects_def)
qed

definition rowSelected :: "nat \<Rightarrow> transaction_t \<Rightarrow> transaction_t \<Rightarrow> version_info \<Rightarrow> nat \<Rightarrow> bool" where
  "rowSelected vc startTS tid vi r \<longleftrightarrow>
     visible startTS tid (rowIns vc vi r) \<and> \<not> visible startTS tid (rowDel vc vi r)"

definition selectedIn :: "transaction_t \<Rightarrow> transaction_t \<Rightarrow> vector_version_info \<Rightarrow> nat \<Rightarrow> bool" where
  "selectedIn startTS tid v q \<longleftrightarrow>
     visible startTS tid (insVersion v q) \<and> \<not> visible startTS tid (delVersion v q)"

lemma getSelVectorForScan_ok:
  assumes wf: "vector_wf vc v" and txn: "startTS < INVALID_TRANSACTION" "tid \<noteq> INVALID_TRANSACTION"
    and sel: "selects vc sv ps p" and room: "length ps + m \<le> vc" "s + m \<le> vc"
    and status: "insertionStatus v \<noteq> NO_INSERTED"
  shows "\<exists>sv'. getSelVectorForScan vc startTS tid v sv s m p = Inr sv'
    \<and> selects vc sv' (ps @ map ((+) p) (filter (\<lambda>i. selectedIn startTS tid v (s + i)) [0..<m])) (p + m)"
proof (cases "deletionStatus v = NO_DELETED \<and> insertionStatus v = ALWAYS_INSERTED")
  case True
  then have "selectedIn startTS tid v q" for q
    using invalid_hidden [OF txn] by (simp add: selectedIn_def insVersion_def delVersion_def zero_visible)
  moreover have "map ((+) p) [0..<m] = [p..<p + m]" by (rule nth_equalityI) auto
  ultimately show ?thesis using True selectAll_ok [OF sel room(1)] by (simp add: getSelVectorForScan_def)
next
  case False
  let ?P = "\<lambda>i. selectedIn startTS tid v (s + i)"
  obtain sv1 where sv1: "bindR (isUnfiltered vc sv) (\<lambda>u. if u then makeDynamic vc sv else Inr sv) = Inr sv1"
      "selects vc sv1 ps p" "selState sv1 = DYNAMIC" "selectedSize sv1 = selectedSize sv"
    using selects_dynamic [OF sel] by blast
  have "foldR (\<lambda>i (sv, numSelected).
         bindR (vector_isInserted startTS tid v (s + i)) (\<lambda>inserted.
         bindR (if inserted then bindR (vector_isDeleted startTS tid v (s + i)) (\<lambda>deleted. Inr (\<not> deleted))
                else Inr False) (\<lambda>selected.
         if selected then bindR (setMutable sv numSelected (p + i)) (\<lambda>sv. Inr (sv, numSelected + 1))
         else Inr (sv, numSelected)))) [0..<m] st = foldR (pushSelected ?P p) [0..<m] st" for st
    by (rule foldR_cong)
      (use room(2) in \<open>auto simp: pushSelected_def selectedIn_def vector_isInserted_eq [OF wf _ txn]
        vector_isDeleted_eq [OF wf _ txn] split: prod.splits\<close>)
  moreover obtain u where "isUnfiltered vc sv = Inr u" "(if u then makeDynamic vc sv else Inr sv) = Inr sv1"
    using sv1(1) by auto
  ultimately show ?thesis
    using push_all [OF sv1(2,3) room(1), of ?P] False status sv1(4)
    by (simp add: getSelVectorForScan_def) blast
qed

text \<open>
  \<open>rowsBefore\<close> is the number of rows \<^verbatim>\<open>getSelVectorToScan\<close> has gone over
  when it gets to a vector.
\<close>

definition rowsBefore :: "nat \<Rightarrow> nat \<Rightarrow> nat \<Rightarrow> nat \<Rightarrow> nat" where
  "rowsBefore vc start n k = min n (k * vc - start)"

lemma rowsBefore_step:
  assumes vc: "0 < vc" "0 < n" and k: "start div vc \<le> k" "k \<le> (start + n - 1) div vc"
    and rows: "rowsInVector vc start n k = (s, m)"
  shows "k * vc + s = start + rowsBefore vc start n k" (is ?first)
    and "rowsBefore vc start n (Suc k) = rowsBefore vc start n k + m" (is ?next)
proof -
  define e where "e = start + n - 1"
  have s: "s = (if k = start div vc then start mod vc else 0)"
    and m: "m = (if k = e div vc then e mod vc else vc - 1) - s + 1"
    using rows vc by (auto simp: rowsInVector_eq Let_def e_def)
  have e: "start + n = Suc e" using vc by (simp add: e_def)
  have start: "start = start div vc * vc + start mod vc" and end_: "e = e div vc * vc + e mod vc" by simp_all
  have le: "k * vc \<le> e"
    using order_trans [OF mult_le_mono1 [of k "e div vc" vc] div_times_less_eq_dividend] k(2) by (simp add: e_def)
  show first: ?first
  proof (cases "k = start div vc")
    case True
    then have "k * vc \<le> start" "k * vc + s = start" using start s by auto
    then show ?thesis by (simp add: rowsBefore_def)
  next
    case False
    then have "Suc (start div vc) * vc \<le> k * vc" using k(1) by (intro mult_le_mono1) simp
    then have "start < k * vc" using start mod_less_divisor [OF vc(1), of start] unfolding mult_Suc by linarith
    then show ?thesis using False s le e by (simp add: rowsBefore_def)
  qed
  show ?next
  proof (cases "k = e div vc")
    case True
    have "e < Suc k * vc" using end_ mod_less_divisor [OF vc(1), of e] unfolding True mult_Suc by linarith
    then have "rowsBefore vc start n (Suc k) = n" using e by (simp add: rowsBefore_def)
    moreover have "k * vc + e mod vc = e" using True end_ by simp
    moreover have "start + rowsBefore vc start n k \<le> e"
      using le e by (simp add: rowsBefore_def) (use vc e in linarith)
    moreover have "m = e mod vc - s + 1" using m True by simp
    ultimately show ?thesis using first e by linarith
  next
    case False
    then have "Suc k * vc \<le> e div vc * vc" using k(2) by (intro mult_le_mono1) (simp add: e_def)
    then have "Suc k * vc \<le> e" using end_ by linarith
    moreover have "start < Suc k * vc"
      using start mod_less_divisor [OF vc(1), of start] mult_le_mono1 [OF k(1), of vc] unfolding mult_Suc by linarith
    ultimately have "start + rowsBefore vc start n (Suc k) = Suc k * vc" using e by (simp add: rowsBefore_def)
    moreover have "s + m = vc" using m False vc s mod_less_divisor [OF vc(1), of start] by auto
    ultimately show ?thesis using first by simp
  qed
qed

lemma filter_upt_add:
  "filter Q [0..<p + m] = filter Q [0..<p] @ map ((+) p) (filter (\<lambda>i. Q (p + i)) [0..<m])"
proof -
  have "[0..<p + m] = [0..<p] @ map ((+) p) [0..<m]" by (rule nth_equalityI) (auto simp: nth_append)
  then show ?thesis by (simp add: filter_map comp_def)
qed

definition noEmptyVector :: "version_info \<Rightarrow> bool" where
  "noEmptyVector vi \<longleftrightarrow> (\<forall>k v. getVectorVersionInfo vi k = Some v \<longrightarrow> insertionStatus v \<noteq> NO_INSERTED)"

lemma scan_vector:
  assumes wf: "vi_wf vc vi" and txn: "startTS < INVALID_TRANSACTION" "tid \<noteq> INVALID_TRANSACTION"
    and status: "noEmptyVector vi" and sel: "selects vc sv ps p" and room: "length ps + m \<le> vc" "s + m \<le> vc"
    and vc: "0 < vc"
  shows "\<exists>sv'. (case getVectorVersionInfo vi k of None \<Rightarrow> selectAll vc sv m p
      | Some v \<Rightarrow> getSelVectorForScan vc startTS tid v sv s m p) = Inr sv'
    \<and> selects vc sv' (ps @ map ((+) p) (filter (\<lambda>i. rowSelected vc startTS tid vi (k * vc + (s + i))) [0..<m])) (p + m)"
proof (cases "getVectorVersionInfo vi k")
  case None
  have "rowSelected vc startTS tid vi (k * vc + (s + i))" if "i < m" for i
  proof -
    have "(k * vc + (s + i)) div vc = k" using room(2) that vc by (simp add: div_mult_self3)
    then show ?thesis
      using None invalid_hidden [OF txn] by (simp add: rowSelected_def rowIns_def rowDel_def zero_visible)
  qed
  then have "filter (\<lambda>i. rowSelected vc startTS tid vi (k * vc + (s + i))) [0..<m] = [0..<m]"
    by (simp add: filter_id_conv)
  moreover have "map ((+) p) [0..<m] = [p..<p + m]" by (rule nth_equalityI) auto
  ultimately show ?thesis using None selectAll_ok [OF sel room(1)] by simp
next
  case (Some v)
  have "rowSelected vc startTS tid vi (k * vc + (s + i)) = selectedIn startTS tid v (s + i)" if "i < m" for i
  proof -
    have "(k * vc + (s + i)) div vc = k" "(k * vc + (s + i)) mod vc = s + i"
      using room(2) that vc by (simp_all add: div_mult_self3)
    then show ?thesis using Some by (simp add: rowSelected_def selectedIn_def rowIns_def rowDel_def)
  qed
  then have "filter (\<lambda>i. rowSelected vc startTS tid vi (k * vc + (s + i))) [0..<m] =
      filter (\<lambda>i. selectedIn startTS tid v (s + i)) [0..<m]" by (intro filter_cong) auto
  then show ?thesis
    using getSelVectorForScan_ok [OF _ txn sel room] Some wf status by (simp add: vi_wf_def noEmptyVector_def)
qed

text \<open>
  C14. In a chunk of which no vector is in the state \<^verbatim>\<open>NO_INSERTED\<close>, a scan selects
  exactly the rows the reading transaction sees. \<^verbatim>\<open>getSelVectorToScan\<close>
  goes over all vectors the rows span, switches from the static to the dynamic selection when it
  meets the first versioned vector, and leaves the positions, counted from the first scanned row,
  of the rows that are inserted and not deleted for the transaction, in order. The condition is needed:
  on a vector in that state \<^verbatim>\<open>getSelVectorForScan\<close> leaves an unfiltered selection as it
  is, and a later fully visible vector is then selected as if the skipped rows were not there.
\<close>

theorem scan_selects_visible_rows:
  assumes vc: "0 < vc" and wf: "vi_wf vc vi"
    and txn: "startTS < INVALID_TRANSACTION" "tid \<noteq> INVALID_TRANSACTION"
    and status: "noEmptyVector vi" and sel: "sel_ok vc sv" "selCapacity sv = vc" and n: "0 < n" "n \<le> vc"
  shows "\<exists>sv'. getSelVectorToScan vc startTS tid vi sv start n = Inr sv'
    \<and> getSelectedPositions vc sv' = filter (\<lambda>i. vi_isSelected vc startTS tid vi (start + i) = Inr True) [0..<n]"
proof -
  let ?R = "\<lambda>i. rowSelected vc startTS tid vi (start + i)" and ?p = "rowsBefore vc start n"
  let ?I = "\<lambda>k st. snd st = ?p k \<and> selects vc (fst st) (filter ?R [0..<?p k]) (?p k)"
  let ?step = "\<lambda>vectorIdx (sv, outputPos). let (startRowIdx, numRowsInVector) = rowsInVector vc start n vectorIdx in
      bindR (case getVectorVersionInfo vi vectorIdx of None \<Rightarrow> selectAll vc sv numRowsInVector outputPos
        | Some v \<Rightarrow> getSelVectorForScan vc startTS tid v sv startRowIdx numRowsInVector outputPos)
       (\<lambda>sv. Inr (sv, outputPos + numRowsInVector))"
  have a: "?p (start div vc) = 0" by (simp add: rowsBefore_def)
  obtain sv0 where sv0: "setToUnfiltered_size sv 0 = Inr sv0" "selects vc sv0 [] 0"
    using sel by (auto simp: setToUnfiltered_size_def selects_def sel_ok_def getSelectedPositions_def)
  have "start \<le> start + n - 1" using n by linarith
  then have "start div vc \<le> (start + n - 1) div vc" by (rule div_le_mono)
  then have le: "start div vc \<le> (start + n - 1) div vc + 1" by linarith
  have "\<exists>st. foldR ?step [start div vc..<(start + n - 1) div vc + 1] (sv0, 0) = Inr st
      \<and> ?I ((start + n - 1) div vc + 1) st"
  proof (rule foldR_upt_invariant [where I = ?I])
    show "?I (start div vc) (sv0, 0)" using sv0(2) a by simp
  next
    fix k st
    assume k: "start div vc \<le> k" "k < (start + n - 1) div vc + 1" and I: "?I k st"
    obtain sv where st: "st = (sv, ?p k)" and inv: "selects vc sv (filter ?R [0..<?p k]) (?p k)"
      using I by (cases st) auto
    obtain s m where rows: "rowsInVector vc start n k = (s, m)" by force
    then have range: "rangeRows vc start n k s m"
      using rowsInVector_range [OF vc n(1), of k start s m] k by (simp add: rangeRows_def vectorRange_eq)
    have step: "k * vc + s = start + ?p k" "?p (Suc k) = ?p k + m"
      using rowsBefore_step [OF vc n(1) k(1) _ rows] k(2) by simp_all
    have "length (filter ?R [0..<?p k]) \<le> ?p k" by (metis length_filter_le length_upt minus_nat.diff_0)
    moreover have "?p k + m \<le> n" unfolding step(2) [symmetric] by (simp add: rowsBefore_def)
    ultimately have room: "length (filter ?R [0..<?p k]) + m \<le> vc" "s + m \<le> vc"
      using range n by (simp_all add: rangeRows_def)
    have same: "rowSelected vc startTS tid vi (k * vc + (s + i)) = ?R (?p k + i)" for i
      using step(1) by (simp add: add.assoc [symmetric])
    obtain sv' where "(case getVectorVersionInfo vi k of None \<Rightarrow> selectAll vc sv m (?p k)
          | Some v \<Rightarrow> getSelVectorForScan vc startTS tid v sv s m (?p k)) = Inr sv'"
        "selects vc sv' (filter ?R [0..<?p (Suc k)]) (?p (Suc k))"
      using scan_vector [OF wf txn status inv room vc, of k] unfolding same step(2) filter_upt_add
      by blast
    then show "\<exists>st'. ?step k st = Inr st' \<and> ?I (Suc k) st'"
      using rows st step(2) by simp
  qed (rule le)
  moreover have "?p ((start + n - 1) div vc + 1) = n"
    using n dividend_less_div_times [OF vc, of "start + n - 1"] by (simp add: rowsBefore_def)
  ultimately obtain sv' where "getSelVectorToScan vc startTS tid vi sv start n = Inr sv'"
      "selects vc sv' (filter ?R [0..<n]) n"
    using sv0(1) n by (auto simp: getSelVectorToScan_def vectorRange_def getQuotientRemainder_def)
  then show ?thesis
    by (auto simp: selects_def rowSelected_def vi_isSelected_eq [OF vc wf txn])
qed

definition example_chunk :: version_info where
  "example_chunk = \<lparr>vectorsInfo = [None,
     Some (VectorVersionInfo_new\<lparr>insertionStatus := CHECK_INSERTED, sameInsertionVersion := 9\<rparr>)]\<rparr>"

lemma example_chunk_vectors:
  "getVectorVersionInfo example_chunk k = (if k = 1
     then Some (VectorVersionInfo_new\<lparr>insertionStatus := CHECK_INSERTED, sameInsertionVersion := 9\<rparr>) else None)"
  by (cases k) (auto simp: example_chunk_def getVectorVersionInfo_def nth_Cons split: nat.splits)

lemma example_chunk_ok: "vi_wf vc example_chunk" "noEmptyVector example_chunk"
  by (auto simp: vi_wf_def noEmptyVector_def example_chunk_vectors vector_wf_def ins_defs del_defs
      VectorVersionInfo_new_def INVALID_TRANSACTION_def split: if_splits)

theorem scan_selects_visible_rows_witness:
  "\<exists>sv'. getSelVectorToScan 4 5 7 example_chunk (SelectionVector_new 4) 3 3 = Inr sv'
     \<and> getSelectedPositions 4 sv' = filter (\<lambda>i. vi_isSelected 4 5 7 example_chunk (3 + i) = Inr True) [0..<3]"
  by (rule scan_selects_visible_rows)
    (simp_all add: example_chunk_ok INVALID_TRANSACTION_def sel_ok_new, simp add: SelectionVector_new_def setToUnfiltered_def)

end
