(* ===== verification/Version_Store.thy ===== *)
theory Version_Store
  imports Version_Info
begin

text \<open>
  What transactions rely on of the version info of a chunk: the outcome of a deletion, what a
  commit publishes and a rollback takes back, that a reader does not notice the writes of others,
  the count of deleted rows, and the stored form of the versions at a checkpoint.
\<close>

section \<open>Storing the versions at a checkpoint\<close>

text \<open>
  A vector that can be stored: no insertion is versioned any more and every deletion is
  committed. Reading it back drops an array of deletion versions that holds none.
\<close>

definition storable :: "nat \<Rightarrow> vector_version_info \<Rightarrow> bool" where
  "storable vc v \<longleftrightarrow> vector_wf vc v \<and> insertionStatus v \<noteq> CHECK_INSERTED \<and> committedVersions (deletedVersions v)"

definition storedVector :: "vector_version_info \<Rightarrow> vector_version_info" where
  "storedVector v = (if deletionStatus v = NO_DELETED then v\<lparr>deletedVersions := None\<rparr> else v)"

lemma storedVector_versions:
  "insVersion (storedVector v) = insVersion v" "delVersion (storedVector v) = delVersion v"
  by (auto simp: storedVector_def fun_eq_iff del_defs)

lemma storable_cases:
  assumes "storable vc v"
  obtains (kept) "deletionStatus v = NO_DELETED" "storedVector v =
      VectorVersionInfo_new\<lparr>insertionStatus := insertionStatus v\<rparr>"
  | (same) t where "t \<noteq> INVALID_TRANSACTION" "v = VectorVersionInfo_new\<lparr>insertionStatus := insertionStatus v,
      deletionStatus := CHECK_DELETED, sameDeletionVersion := t\<rparr>"
  | (each) a where "length a = vc" "committedVersions (Some a)" "v = VectorVersionInfo_new\<lparr>insertionStatus := insertionStatus v,
      deletionStatus := CHECK_DELETED, deletedVersions := Some a\<rparr>"
proof (cases "deletionStatus v")
  case NO_DELETED
  have "insertedVersions v = None" using assms by (auto simp: storable_def vector_wf_def ins_wf_def)
  then show ?thesis using NO_DELETED assms kept
    by (cases v) (auto simp: storable_def vector_wf_def ins_defs del_defs storedVector_def VectorVersionInfo_new_def)
next
  case CHECK_DELETED
  have "insertedVersions v = None" using assms by (auto simp: storable_def vector_wf_def ins_wf_def)
  then show ?thesis using CHECK_DELETED
    using assms same [of "sameDeletionVersion v"] each [of "the (deletedVersions v)"]
    by (cases v, cases "sameDeletionVersion v = INVALID_TRANSACTION")
      (auto simp: storable_def vector_wf_def ins_defs del_defs VectorVersionInfo_new_def)
qed

lemmas tag_length = tag_def length_map

lemma vector_round_trip_ok:
  assumes "storable vc v"
  shows "\<exists>bs. vector_serialize dbg v = Inr bs \<and> (\<forall>rest. vector_deSerialize dbg vc (bs @ rest) = Inr (storedVector v, rest))"
proof -
  have status: "insertionStatus v = NO_INSERTED \<or> insertionStatus v = ALWAYS_INSERTED"
    using assms by (cases "insertionStatus v") (auto simp: storable_def)
  note io = vector_serialize_def vector_deSerialize_def debugging_info_round_trip ser_u8.round_trip ser_u64.round_trip
    insertionStatusCode_def deletionStatusCode_def tag_def
  from assms show ?thesis
  proof (cases rule: storable_cases)
    case kept
    then show ?thesis using status assms
      by (auto simp: io storable_def VectorVersionInfo_new_def committedVersions_def)
  next
    case (same t)
    then show ?thesis using status assms
      by (cases v) (auto simp: io storable_def VectorVersionInfo_new_def committedVersions_def storedVector_def)
  next
    case (each a)
    then show ?thesis using status assms ser_u64.array_round_trip [of a]
      by (cases v) (auto simp: io storable_def VectorVersionInfo_new_def storedVector_def
          initDeletionVersionArray_def)
  qed
qed

lemma readVectorInfo_ok:
  "readVectorInfo dbg vc (writeDebuggingInfo dbg (tag ''has_vector_info'') @ serializeBool False @ rest) = Inr (None, rest)"
  "vector_deSerialize dbg vc (b @ rest) = Inr (v, rest) \<Longrightarrow>
   readVectorInfo dbg vc (writeDebuggingInfo dbg (tag ''has_vector_info'') @ serializeBool True
      @ writeDebuggingInfo dbg (tag ''vector_info'') @ b @ rest) = Inr (Some v, rest)"
  by (simp_all add: readVectorInfo_def debugging_info_round_trip ser_bool.round_trip tag_def)

lemma foldR_serialize:
  assumes "\<forall>v. Some v \<in> set vs \<longrightarrow> storable vc v"
  shows "\<exists>bs. foldR (\<lambda>p out.
       bindR (case p of None \<Rightarrow> Inr []
              | Some v \<Rightarrow> bindR (vector_serialize dbg v) (\<lambda>bs.
                           Inr (writeDebuggingInfo dbg (tag ''vector_info'') @ bs))) (\<lambda>bs.
       Inr (out @ writeDebuggingInfo dbg (tag ''has_vector_info'') @ serializeBool (p \<noteq> None) @ bs)))
       vs out = Inr (out @ bs)
    \<and> (\<forall>rest. readMany (readVectorInfo dbg vc) (length vs) (bs @ rest) = Inr (map (map_option storedVector) vs, rest))"
  using assms
proof (induction vs arbitrary: out)
  case Nil
  then show ?case by simp
next
  case (Cons p vs)
  have IH: "\<forall>v. Some v \<in> set vs \<longrightarrow> storable vc v" using Cons.prems by simp
  show ?case
  proof (cases p)
    case None
    let ?p = "writeDebuggingInfo dbg (tag ''has_vector_info'') @ serializeBool False"
    from Cons.IH [OF IH, of "out @ ?p"] None show ?thesis by (auto simp: readVectorInfo_ok)
  next
    case (Some v)
    obtain b where b: "vector_serialize dbg v = Inr b"
        "\<And>rest. vector_deSerialize dbg vc (b @ rest) = Inr (storedVector v, rest)"
      using vector_round_trip_ok [of vc v dbg] Cons.prems Some by auto
    let ?p = "writeDebuggingInfo dbg (tag ''has_vector_info'') @ serializeBool True
      @ writeDebuggingInfo dbg (tag ''vector_info'') @ b"
    from Cons.IH [OF IH, of "out @ ?p"] Some b show ?thesis by (auto simp: readVectorInfo_ok)
  qed
qed

lemma rows_of_stored:
  assumes "vectorsInfo vi' = map (map_option storedVector) (vectorsInfo vi)"
  shows "rowIns vc vi' = rowIns vc vi" "rowDel vc vi' = rowDel vc vi"
proof -
  have "getVectorVersionInfo vi' k = map_option storedVector (getVectorVersionInfo vi k)" for k
    by (simp add: getVectorVersionInfo_def assms)
  then show "rowIns vc vi' = rowIns vc vi" "rowDel vc vi' = rowDel vc vi"
    by (auto simp: fun_eq_iff rowIns_def rowDel_def storedVector_versions split: option.splits)
qed

text \<open>
  C38. A checkpoint keeps the deletions: the version info of a chunk in which every vector is inserted
  as a whole or not at all, with no versioned insertion left, and in which the deletion versions of
  rows are committed is written without an error, and reading it back gives every row the insertion and deletion version it had,
  with the rest of the stream left to the next reader. A versioned insertion, committed or not, fails
  the assertion of \<^verbatim>\<open>VersionInfo::serialize\<close> and is not covered.
\<close>

theorem versions_round_trip:
  assumes "\<forall>v. Some v \<in> set (vectorsInfo vi) \<longrightarrow> storable vc v" "length (vectorsInfo vi) < 2 ^ 64"
  shows "\<exists>bs vi'. vi_serialize dbg vi = Inr bs \<and> vi_deserialize dbg vc (bs @ rest) = Inr (vi', rest)
    \<and> rowIns vc vi' = rowIns vc vi \<and> rowDel vc vi' = rowDel vc vi"
proof -
  let ?head = "writeDebuggingInfo dbg (tag ''vectors_info_size'') @ serializeU64 (of_nat (length (vectorsInfo vi)))"
  let ?vi = "\<lparr>vectorsInfo = map (map_option storedVector) (vectorsInfo vi)\<rparr>"
  obtain bs where "vi_serialize dbg vi = Inr (?head @ bs)"
      "\<And>rest. readMany (readVectorInfo dbg vc) (length (vectorsInfo vi)) (bs @ rest) = Inr (vectorsInfo ?vi, rest)"
    using foldR_serialize [OF assms(1), of dbg ?head] by (auto simp: vi_serialize_def)
  then have "vi_serialize dbg vi = Inr (?head @ bs)" "vi_deserialize dbg vc ((?head @ bs) @ rest) = Inr (?vi, rest)"
    using assms(2)
    by (simp_all add: vi_deserialize_def debugging_info_round_trip tag_def ser_u64.round_trip unat_of_nat_64)
  then show ?thesis using rows_of_stored [of ?vi vi] by auto
qed

theorem versions_round_trip_witness:
  "\<exists>bs vi'. vi_serialize True \<lparr>vectorsInfo = [None, Some (VectorVersionInfo_new\<lparr>insertionStatus := ALWAYS_INSERTED,
       deletionStatus := CHECK_DELETED, sameDeletionVersion := 5\<rparr>)]\<rparr> = Inr bs
    \<and> vi_deserialize True 4 (bs @ [1]) = Inr (vi', [1])
    \<and> rowIns 4 vi' = rowIns 4 \<lparr>vectorsInfo = [None, Some (VectorVersionInfo_new\<lparr>insertionStatus := ALWAYS_INSERTED,
       deletionStatus := CHECK_DELETED, sameDeletionVersion := 5\<rparr>)]\<rparr>
    \<and> rowDel 4 vi' = rowDel 4 \<lparr>vectorsInfo = [None, Some (VectorVersionInfo_new\<lparr>insertionStatus := ALWAYS_INSERTED,
       deletionStatus := CHECK_DELETED, sameDeletionVersion := 5\<rparr>)]\<rparr>"
  by (rule versions_round_trip)
    (auto simp: storable_def vector_wf_def ins_defs del_defs VectorVersionInfo_new_def committedVersions_def
      INVALID_TRANSACTION_def)

section \<open>Deleting a row\<close>

text \<open>
  C17. Deleting a row that has been inserted has one of three outcomes. A row without a deletion is
  deleted and only its deletion version changes. A row the same transaction has deleted is reported
  as not deleted again. A row another transaction has deleted, committed or not, is a write-write
  conflict. In the last two cases no version changes.
\<close>

theorem delete_outcome:
  assumes "0 < vc" "vi_wf vc vi" "tid \<noteq> INVALID_TRANSACTION" "rowIns vc vi r \<noteq> INVALID_TRANSACTION"
  shows "\<exists>vi'. vi_delete vc tid r vi =
      (vi', if rowDel vc vi r = INVALID_TRANSACTION then Inr True
            else if rowDel vc vi r = tid then Inr False else Inl writeConflict)
    \<and> vi_wf vc vi' \<and> rowIns vc vi' = rowIns vc vi
    \<and> rowDel vc vi' = (if rowDel vc vi r = INVALID_TRANSACTION then (rowDel vc vi)(r := tid) else rowDel vc vi)"
proof -
  obtain vi' res where "vi_delete vc tid r vi = (vi', res)" by force
  from vi_delete_row [OF assms(1-4) this] this show ?thesis by auto
qed

theorem delete_outcome_witness:
  "\<exists>vi'. vi_delete 4 3 2 example_chunk =
      (vi', if rowDel 4 example_chunk 2 = INVALID_TRANSACTION then Inr True
            else if rowDel 4 example_chunk 2 = 3 then Inr False else Inl writeConflict)
    \<and> vi_wf 4 vi' \<and> rowIns 4 vi' = rowIns 4 example_chunk
    \<and> rowDel 4 vi' = (if rowDel 4 example_chunk 2 = INVALID_TRANSACTION
        then (rowDel 4 example_chunk)(2 := 3) else rowDel 4 example_chunk)"
  by (rule delete_outcome)
    (simp_all add: example_chunk_ok INVALID_TRANSACTION_def rowIns_def example_chunk_vectors)

section \<open>Commit and rollback\<close>

text \<open>
  C15. Committing an insertion publishes exactly the inserted rows. After the append and before the
  commit, an inserted row is selected by the appending transaction, unless it sees a deletion of it,
  and by no other, whenever it started (timestamps are below transaction IDs). After the commit with
  timestamp \<open>cts\<close>, the row is selected by every transaction that starts at \<open>cts\<close>
  or later and does not see a deletion of it, and by none that started before. Rows that were there
  before keep the insertion version they had, unless it was that of the committing transaction or none.
\<close>

theorem append_commit_publishes:
  assumes "0 < vc" "vi_wf vc vi" "appendable vc vi N"
    and "T \<noteq> 0" "T \<noteq> INVALID_TRANSACTION" "cts \<noteq> INVALID_TRANSACTION"
    and "startTS < INVALID_TRANSACTION" "tid \<noteq> INVALID_TRANSACTION" "tid \<noteq> cts" "N \<le> r" "r < N + n" "startTS < T"
  shows "\<exists>vi1 vi2. vi_append vc T N n vi = Inr vi1 \<and> commitInsert vc N n cts vi1 = Inr vi2
    \<and> vi_isSelected vc startTS tid vi1 r = Inr (tid = T \<and> \<not> visible startTS tid (rowDel vc vi r))
    \<and> vi_isSelected vc startTS tid vi2 r = Inr (cts \<le> startTS \<and> \<not> visible startTS tid (rowDel vc vi r))
    \<and> (\<forall>q < N. rowIns vc vi2 q = rowIns vc vi q \<or> rowIns vc vi q \<in> {T, INVALID_TRANSACTION})"
proof -
  obtain vi1 where vi1: "vi_append vc T N n vi = Inr vi1" "append_rows vc T N n vi vi1"
    using append_ok [OF assms(1-3,5)] by blast
  then have wf1: "vi_wf vc vi1" and rows1: "\<And>q. N \<le> q \<Longrightarrow> q < N + n \<Longrightarrow> rowIns vc vi1 q = T"
    by (auto simp: append_rows_def)
  obtain vi2 where vi2: "commitInsert vc N n cts vi1 = Inr vi2" "ins_rows vc T cts N n vi1 vi2"
    using commitInsert_rows [OF assms(1) wf1 assms(4-6) rows1] by blast
  have "rowIns vc vi2 r = cts" "rowDel vc vi2 r = rowDel vc vi r" "vi_wf vc vi2"
    using vi1(2) vi2(2) assms(10,11) by (auto simp: append_rows_def ins_rows_def)
  moreover have "rowIns vc vi2 q = rowIns vc vi q \<or> rowIns vc vi q \<in> {T, INVALID_TRANSACTION}" if "q < N" for q
    using vi1(2) vi2(2) that unfolding append_rows_def ins_rows_def by (metis insertCI)
  moreover have "rowIns vc vi1 r = T" "rowDel vc vi1 r = rowDel vc vi r"
    using vi1(2) assms(10,11) by (auto simp: append_rows_def)
  ultimately show ?thesis
    using vi1(1) vi2(1) assms(9,12) vi_isSelected_eq [OF assms(1) _ assms(7,8), of vi2 r]
      vi_isSelected_eq [OF assms(1) wf1 assms(7,8), of r]
    by (auto simp: visible_def)
qed

theorem append_commit_publishes_witness:
  "\<exists>vi1 vi2. vi_append 4 9 0 6 VersionInfo_new = Inr vi1 \<and> commitInsert 4 0 6 3 vi1 = Inr vi2
    \<and> vi_isSelected 4 3 10 vi1 5 = Inr ((10::transaction_t) = 9 \<and> \<not> visible 3 10 (rowDel 4 VersionInfo_new 5))
    \<and> vi_isSelected 4 3 10 vi2 5 = Inr (3 \<le> (3::transaction_t) \<and> \<not> visible 3 10 (rowDel 4 VersionInfo_new 5))
    \<and> (\<forall>q < 0. rowIns 4 vi2 q = rowIns 4 VersionInfo_new q \<or> rowIns 4 VersionInfo_new q \<in> {9, INVALID_TRANSACTION})"
  by (rule append_commit_publishes) (simp_all add: VersionInfo_new_wf INVALID_TRANSACTION_def)

text \<open>
  C16. Rolling back an insertion takes the rows back: after an append and its rollback no
  transaction selects one of the rows, the inserting one included, and no deletion version has
  changed. It assumes that no row of the transaction and none without an insertion is deleted.
\<close>

theorem append_rollback_hides:
  assumes "0 < vc" "vi_wf vc vi" "appendable vc vi N" "T \<noteq> 0" "T \<noteq> INVALID_TRANSACTION"
    and dels: "\<forall>q. N \<le> q \<or> rowIns vc vi q \<in> {T, INVALID_TRANSACTION} \<longrightarrow> rowDel vc vi q = INVALID_TRANSACTION"
    and "startTS < INVALID_TRANSACTION" "tid \<noteq> INVALID_TRANSACTION" "N \<le> r" "r < N + n"
  shows "\<exists>vi1 vi2. vi_append vc T N n vi = Inr vi1 \<and> rollbackInsert vc N n vi1 = Inr vi2
    \<and> vi_isSelected vc startTS tid vi2 r = Inr False
    \<and> (\<forall>q < N. rowIns vc vi2 q = rowIns vc vi q \<or> rowIns vc vi q \<in> {T, INVALID_TRANSACTION})
    \<and> rowDel vc vi2 = rowDel vc vi"
proof -
  obtain vi1 where vi1: "vi_append vc T N n vi = Inr vi1" "append_rows vc T N n vi vi1"
    using append_ok [OF assms(1-3,5)] by blast
  then have wf1: "vi_wf vc vi1" and rows1: "\<And>q. N \<le> q \<Longrightarrow> q < N + n \<Longrightarrow> rowIns vc vi1 q = T"
    and dels1: "\<And>q. rowIns vc vi1 q \<in> {T, INVALID_TRANSACTION} \<Longrightarrow> rowDel vc vi1 q = INVALID_TRANSACTION"
    using dels unfolding append_rows_def by (auto, (metis insertCI not_le)+)
  obtain vi2 where vi2: "rollbackInsert vc N n vi1 = Inr vi2" "ins_rows vc T INVALID_TRANSACTION N n vi1 vi2"
    using rollbackInsert_rows [OF assms(1) wf1 assms(4,5) rows1 dels1] by blast
  have "rowIns vc vi2 r = INVALID_TRANSACTION" "vi_wf vc vi2"
    using vi2(2) assms(9,10) by (auto simp: ins_rows_def)
  moreover have "rowDel vc vi2 = rowDel vc vi"
    using vi1(2) vi2(2) by (auto simp: append_rows_def ins_rows_def fun_eq_iff)
  moreover have "rowIns vc vi2 q = rowIns vc vi q \<or> rowIns vc vi q \<in> {T, INVALID_TRANSACTION}" if "q < N" for q
    using vi1(2) vi2(2) that unfolding append_rows_def ins_rows_def by (metis insertCI)
  ultimately show ?thesis
    using vi1(1) vi2(1) invalid_hidden [OF assms(7,8)] vi_isSelected_eq [OF assms(1) _ assms(7,8), of vi2 r] by simp
qed

theorem append_rollback_hides_witness:
  "\<exists>vi1 vi2. vi_append 4 9 0 6 VersionInfo_new = Inr vi1 \<and> rollbackInsert 4 0 6 vi1 = Inr vi2
    \<and> vi_isSelected 4 3 9 vi2 5 = Inr False
    \<and> (\<forall>q < 0. rowIns 4 vi2 q = rowIns 4 VersionInfo_new q \<or> rowIns 4 VersionInfo_new q \<in> {9, INVALID_TRANSACTION})
    \<and> rowDel 4 vi2 = rowDel 4 VersionInfo_new"
  by (rule append_rollback_hides)
    (simp_all add: VersionInfo_new_wf INVALID_TRANSACTION_def rowDel_def getVectorVersionInfo_def, simp add: VersionInfo_new_def)

section \<open>Counting deletions\<close>

lemma foldR_count:
  assumes "\<And>i. i \<in> set xs \<Longrightarrow> f i = Inr (P i)"
  shows "foldR (\<lambda>i c. bindR (f i) (\<lambda>b. Inr (c + of_bool b))) xs c = Inr (c + length (filter P xs))"
  using assms by (induction xs arbitrary: c) auto

lemma vector_getNumDeletions_eq:
  assumes wf: "vector_wf vc v" and txn: "startTS < INVALID_TRANSACTION" "tid \<noteq> INVALID_TRANSACTION" and "s + m \<le> vc"
  shows "vector_getNumDeletions startTS tid v s m =
    Inr (length (filter (\<lambda>i. visible startTS tid (delVersion v (s + i))) [0..<m]))"
proof (cases "deletionStatus v = NO_DELETED")
  case True
  then show ?thesis using invalid_hidden [OF txn] by (simp add: vector_getNumDeletions_def delVersion_def)
next
  case False
  then show ?thesis
    using foldR_count [of "[0..<m]" "\<lambda>i. vector_isDeleted startTS tid v (s + i)"
        "\<lambda>i. visible startTS tid (delVersion v (s + i))" 0] assms(4)
    by (simp add: vector_getNumDeletions_def vector_isDeleted_eq [OF wf _ txn])
qed

text \<open>
  \<^verbatim>\<open>getNumDeletions\<close> counts the deleted rows of a range: the rows whose deletion
  the transaction sees, over all vectors the range spans.
\<close>

theorem getNumDeletions_counts:
  assumes vc: "0 < vc" and wf: "vi_wf vc vi" and txn: "startTS < INVALID_TRANSACTION" "tid \<noteq> INVALID_TRANSACTION"
  shows "vi_getNumDeletions vc startTS tid vi start n =
    Inr (length (filter (\<lambda>i. visible startTS tid (rowDel vc vi (start + i))) [0..<n]))"
proof (cases "n = 0")
  case True
  then show ?thesis by (simp add: vi_getNumDeletions_def)
next
  case False
  then have n: "0 < n" by simp
  let ?D = "\<lambda>i. visible startTS tid (rowDel vc vi (start + i))" and ?p = "rowsBefore vc start n"
  let ?a = "start div vc" and ?b = "(start + n - 1) div vc"
  define step where "step = (\<lambda>vectorIdx numDeletions.
      case getVectorVersionInfo vi vectorIdx of
        None \<Rightarrow> Inr numDeletions
      | Some v \<Rightarrow>
          bindR (vector_getNumDeletions startTS tid v (fst (rowsInVector vc start n vectorIdx))
                   (snd (rowsInVector vc start n vectorIdx))) (\<lambda>d. Inr (numDeletions + d)))"
  have "start \<le> start + n - 1" using n by linarith
  then have ab: "?a \<le> ?b + 1" using div_le_mono by (metis le_add1 le_trans)
  have "\<exists>c. foldR step [?a..<?b + 1] 0 = Inr c \<and> c = length (filter ?D [0..<?p (?b + 1)])"
  proof (rule foldR_upt_invariant [where I = "\<lambda>k c. c = length (filter ?D [0..<?p k])"])
    show "0 = length (filter ?D [0..<?p ?a])" by (simp add: rowsBefore_def)
  next
    fix k c
    assume k: "?a \<le> k" "k < ?b + 1" and c: "c = length (filter ?D [0..<?p k])"
    obtain s m where rows: "rowsInVector vc start n k = (s, m)" by force
    have p: "k * vc + s = start + ?p k" "?p (Suc k) = ?p k + m"
      using rowsBefore_step [OF vc n k(1) _ rows] k(2) by simp_all
    have m: "s + m \<le> vc"
      using rowsInVector_range(2) [OF vc n _ rows] k by (simp add: vectorRange_eq)
    have at: "rowDel vc vi (start + (?p k + i)) =
        (case getVectorVersionInfo vi k of None \<Rightarrow> INVALID_TRANSACTION | Some v \<Rightarrow> delVersion v (s + i))"
      if "i < m" for i
    proof -
      have eq: "start + (?p k + i) = k * vc + (s + i)" using p(1) by simp
      have "(k * vc + (s + i)) div vc = k" "(k * vc + (s + i)) mod vc = s + i" using m that vc by simp_all
      then show ?thesis unfolding eq by (simp add: rowDel_def split: option.split)
    qed
    show "\<exists>c'. step k c = Inr c' \<and> c' = length (filter ?D [0..<?p (Suc k)])"
    proof (cases "getVectorVersionInfo vi k")
      case None
      then have "filter (\<lambda>i. ?D (?p k + i)) [0..<m] = []" using at invalid_hidden [OF txn] by (simp add: filter_empty_conv)
      then show ?thesis unfolding p(2) filter_upt_add using None c by (simp add: step_def)
    next
      case (Some v)
      then have "filter (\<lambda>i. ?D (?p k + i)) [0..<m] = filter (\<lambda>i. visible startTS tid (delVersion v (s + i))) [0..<m]"
        using at by (intro filter_cong) auto
      then show ?thesis unfolding p(2) filter_upt_add
        using Some c rows wf vector_getNumDeletions_eq [OF _ txn m, of v] by (simp add: step_def vi_wf_def)
    qed
  qed (rule ab)
  moreover have "?p (?b + 1) = n"
    using n dividend_less_div_times [OF vc, of "start + n - 1"] by (simp add: rowsBefore_def)
  moreover have "vi_getNumDeletions vc startTS tid vi start n = foldR step [?a..<?b + 1] 0"
  proof -
    have "Suc (vc - Suc (start mod vc)) = vc - start mod vc" using vc by (simp add: Suc_diff_Suc)
    then have rows: "rowsInVector vc start n k = (let rowInVector = (if k = ?a then start mod vc else 0) in
        (rowInVector, if k = ?b then (start + n - 1) mod vc - rowInVector + 1 else vc - rowInVector))" for k
      using vc by (auto simp: rowsInVector_eq [OF vc n] Let_def)
    show ?thesis
      using n
      unfolding step_def rows vi_getNumDeletions_def getQuotientRemainder_def Let_def prod.case fst_conv snd_conv
      by simp
  qed
  ultimately show ?thesis by simp
qed

theorem getNumDeletions_counts_witness:
  "vi_getNumDeletions 4 3 10 example_chunk 2 5 =
    Inr (length (filter (\<lambda>i. visible 3 10 (rowDel 4 example_chunk (2 + i))) [0..<5]))"
  by (rule getNumDeletions_counts) (simp_all add: example_chunk_ok INVALID_TRANSACTION_def)

end
