(* ===== verification/Transaction_Manager.thy ===== *)
theory Transaction_Manager
  imports Prelude
begin

text \<open>
  Transactions: \<^verbatim>\<open>Transaction\<close> (\<^verbatim>\<open>src/src/transaction/transaction.cpp\<close>),
  \<^verbatim>\<open>TransactionManager\<close> (\<^verbatim>\<open>transaction_manager.cpp\<close>), the connection's
  \<^verbatim>\<open>TransactionContext\<close> (\<^verbatim>\<open>transaction_context.cpp\<close>), the transaction
  statements (\<^verbatim>\<open>src/src/processor/operator/transaction.cpp\<close>) and the wrapper that runs
  a statement in a transaction (\<^verbatim>\<open>ClientContext::TransactionHelper\<close>).

  What commit, rollback and checkpoint do to the local storage, the undo buffer, the log and the
  tables is the record \<open>storage_ops\<close> of operations on a storage state \<open>'s\<close>. The public
  functions of the manager run one at a time, under a mutex, so each is one step; an exception
  keeps the state reached, as in the source.
\<close>

section \<open>Transactions\<close>

datatype transaction_type = READ_ONLY | WRITE | CHECKPOINT | DUMMY | RECOVERY

record transaction =
  txnType :: transaction_type
  txnID :: transaction_t
  startTS :: transaction_t
  commitTS :: transaction_t
  forceCheckpoint :: bool
  hasCatalogChanges :: bool

definition Transaction_new :: "transaction_type \<Rightarrow> transaction_t \<Rightarrow> transaction_t \<Rightarrow> transaction" where
  "Transaction_new ty tid ts = \<lparr>txnType = ty, txnID = tid, startTS = ts, commitTS = INVALID_TRANSACTION,
     forceCheckpoint = False, hasCatalogChanges = False\<rparr>"

definition isWriteTransaction :: "transaction \<Rightarrow> bool" where
  "isWriteTransaction t = (txnType t = WRITE)"

definition isReadOnly :: "transaction \<Rightarrow> bool" where
  "isReadOnly t = (txnType t = READ_ONLY)"

definition isRecovery :: "transaction \<Rightarrow> bool" where
  "isRecovery t = (txnType t = RECOVERY)"

text \<open>The configuration of the database a client context belongs to.\<close>

record db_config =
  enableMultiWrites :: bool
  inMemory :: bool
  autoCheckpoint :: bool
  checkpointThreshold :: nat
  checkpointWaitTimeoutInMicros :: nat

record 's storage_ops =
  logBeginTransaction :: "transaction_t \<Rightarrow> 's \<Rightarrow> 's"
  localStorageCommit :: "transaction_t \<Rightarrow> 's \<Rightarrow> 's \<times> unit res"
  undoBufferCommit :: "transaction_t \<Rightarrow> transaction_t \<Rightarrow> 's \<Rightarrow> 's \<times> unit res"
  logCommit :: "transaction_t \<Rightarrow> 's \<Rightarrow> 's \<times> unit res"
  catalogIncrementVersion :: "'s \<Rightarrow> 's"
  undoBufferRollback :: "transaction_t \<Rightarrow> 's \<Rightarrow> 's \<times> unit res"
  localStorageRollback :: "transaction_t \<Rightarrow> 's \<Rightarrow> 's \<times> unit res"
  walSize :: "transaction_t \<Rightarrow> 's \<Rightarrow> nat"
  writeCheckpoint :: "'s \<Rightarrow> 's \<times> unit res"
  rollbackCheckpoint :: "'s \<Rightarrow> 's"

definition shouldLogToWAL :: "db_config \<Rightarrow> transaction \<Rightarrow> bool" where
  "shouldLogToWAL cfg t = (isWriteTransaction t \<and> \<not> inMemory cfg)"

definition shouldForceCheckpoint :: "db_config \<Rightarrow> transaction \<Rightarrow> bool" where
  "shouldForceCheckpoint cfg t = (\<not> inMemory cfg \<and> forceCheckpoint t)"

definition transaction_commit :: "db_config \<Rightarrow> 's storage_ops \<Rightarrow> transaction \<Rightarrow> 's \<Rightarrow> 's \<times> unit res" where
  "transaction_commit cfg ops t s =
     bindS (localStorageCommit ops (txnID t) s) (\<lambda>_ s.
     bindS (undoBufferCommit ops (txnID t) (commitTS t) s) (\<lambda>_ s.
     bindS (if shouldLogToWAL cfg t then logCommit ops (txnID t) s else (s, Inr ())) (\<lambda>_ s.
     (if hasCatalogChanges t then catalogIncrementVersion ops s else s, Inr ()))))"

definition transaction_rollback :: "'s storage_ops \<Rightarrow> transaction \<Rightarrow> 's \<Rightarrow> 's \<times> unit res" where
  "transaction_rollback ops t s =
     bindS (undoBufferRollback ops (txnID t) s) (\<lambda>_ s. localStorageRollback ops (txnID t) s)"

definition canAutoCheckpoint :: "db_config \<Rightarrow> 's storage_ops \<Rightarrow> transaction \<Rightarrow> 's \<Rightarrow> bool" where
  "canAutoCheckpoint cfg ops t s =
     (if inMemory cfg then False
      else if \<not> autoCheckpoint cfg then False
      else if isRecovery t then False
      else walSize ops (txnID t) s > checkpointThreshold cfg)"

section \<open>The transaction manager\<close>

record 's transaction_manager =
  activeTransactions :: "transaction list"
  lastTransactionID :: transaction_t
  lastTimestamp :: transaction_t
  store :: 's

definition TransactionManager_new :: "'s \<Rightarrow> 's transaction_manager" where
  "TransactionManager_new s =
     \<lparr>activeTransactions = [], lastTransactionID = START_TRANSACTION_ID, lastTimestamp = 1, store = s\<rparr>"

definition hasNoActiveTransactions :: "'s transaction_manager \<Rightarrow> bool" where
  "hasNoActiveTransactions tm = (activeTransactions tm = [])"

definition hasActiveWriteTransactionNoLock :: "'s transaction_manager \<Rightarrow> bool" where
  "hasActiveWriteTransactionNoLock tm = list_ex isWriteTransaction (activeTransactions tm)"

definition clearTransactionNoLock :: "transaction_t \<Rightarrow> 's transaction_manager \<Rightarrow> 's transaction_manager \<times> unit res" where
  "clearTransactionNoLock tid tm =
     bindS (tm, assertR (list_ex (\<lambda>t. txnID t = tid) (activeTransactions tm))) (\<lambda>_ tm.
     (tm\<lparr>activeTransactions := filter (\<lambda>t. txnID t \<noteq> tid) (activeTransactions tm)\<rparr>, Inr ()))"

definition beginTransaction ::
  "db_config \<Rightarrow> 's storage_ops \<Rightarrow> transaction_type \<Rightarrow> 's transaction_manager \<Rightarrow> 's transaction_manager \<times> transaction_t res" where
  "beginTransaction cfg ops ty tm =
     (case ty of
        READ_ONLY \<Rightarrow>
          let tid = lastTransactionID tm + 1; t = Transaction_new ty tid (lastTimestamp tm) in
          (tm\<lparr>lastTransactionID := tid, activeTransactions := activeTransactions tm @ [t]\<rparr>, Inr tid)
      | CHECKPOINT \<Rightarrow> (tm, Inl (TransactionManagerException ''Invalid transaction type to begin transaction.''))
      | DUMMY \<Rightarrow> (tm, Inl (TransactionManagerException ''Invalid transaction type to begin transaction.''))
      | _ \<Rightarrow>
          if \<not> enableMultiWrites cfg \<and> hasActiveWriteTransactionNoLock tm then
            (tm, Inl (TransactionManagerException ''Cannot start a new write transaction in the system.''))
          else
            let tid = lastTransactionID tm + 1; t = Transaction_new ty tid (lastTimestamp tm);
                s = (if shouldLogToWAL cfg t then logBeginTransaction ops tid (store tm) else store tm) in
            (tm\<lparr>lastTransactionID := tid, activeTransactions := activeTransactions tm @ [t], store := s\<rparr>, Inr tid))"

text \<open>
  \<^verbatim>\<open>stopNewTransactionsAndWaitUntilAllTransactionsLeave\<close>: one pass of its loop, and the loop on a
  manager whose active transactions stay what they are. That they do, because the callers hold
  \<^verbatim>\<open>mtxForSerializingPublicFunctionCalls\<close>, is shown below for the interleavings of the
  loop with the calls of other threads. The timeout is taken to be below \<open>2^64 - 500\<close>, where the
  product of the comparison does not wrap.
\<close>

definition THREAD_SLEEP_TIME_WHEN_WAITING_IN_MICROS :: nat where
  "THREAD_SLEEP_TIME_WHEN_WAITING_IN_MICROS = 500"

datatype wait_point = Polling nat | NoneActive | TimedOut

definition waitPass :: "nat \<Rightarrow> 's transaction_manager \<Rightarrow> nat \<Rightarrow> wait_point" where
  "waitPass timeout tm numTimesWaited =
     (if hasNoActiveTransactions tm then NoneActive
      else if (numTimesWaited + 1) * THREAD_SLEEP_TIME_WHEN_WAITING_IN_MICROS > timeout then TimedOut
      else Polling (numTimesWaited + 1))"

function waitUntilAllTransactionsLeave :: "nat \<Rightarrow> 's transaction_manager \<Rightarrow> nat \<Rightarrow> unit res" where
  "waitUntilAllTransactionsLeave timeout tm numTimesWaited =
     (case waitPass timeout tm numTimesWaited of
        NoneActive \<Rightarrow> Inr ()
      | TimedOut \<Rightarrow>
          Inl (TransactionManagerException ''Timeout waiting for active transactions to leave the system before checkpointing.'')
      | Polling n \<Rightarrow> waitUntilAllTransactionsLeave timeout tm n)"
  by pat_completeness auto

termination waitUntilAllTransactionsLeave
  by (relation "measure (\<lambda>(timeout, _, n). timeout - n)")
    (auto simp: waitPass_def THREAD_SLEEP_TIME_WHEN_WAITING_IN_MICROS_def split: if_splits)

declare waitUntilAllTransactionsLeave.simps [simp del]

definition checkpointNoLock :: "db_config \<Rightarrow> 's storage_ops \<Rightarrow> 's transaction_manager \<Rightarrow> 's transaction_manager \<times> unit res" where
  "checkpointNoLock cfg ops tm =
     (case waitUntilAllTransactionsLeave (checkpointWaitTimeoutInMicros cfg) tm 0 of
        Inl e \<Rightarrow> (tm, Inl (CheckpointException ''Timeout waiting for active transactions to leave the system before checkpointing.''))
      | Inr _ \<Rightarrow>
          (case writeCheckpoint ops (store tm) of
             (s, Inl e) \<Rightarrow> (tm\<lparr>store := rollbackCheckpoint ops s\<rparr>, Inl (CheckpointException ''writeCheckpoint''))
           | (s, Inr _) \<Rightarrow> (tm\<lparr>store := s\<rparr>, Inr ())))"

definition tm_checkpoint :: "db_config \<Rightarrow> 's storage_ops \<Rightarrow> 's transaction_manager \<Rightarrow> 's transaction_manager \<times> unit res" where
  "tm_checkpoint cfg ops tm = (if inMemory cfg then (tm, Inr ()) else checkpointNoLock cfg ops tm)"

text \<open>The transactions a connection points to are the manager's; \<open>findTransaction\<close> follows the pointer.\<close>

definition findTransaction :: "transaction_t \<Rightarrow> 's transaction_manager \<Rightarrow> transaction option" where
  "findTransaction tid tm = find (\<lambda>t. txnID t = tid) (activeTransactions tm)"

definition setCommitTS :: "transaction_t \<Rightarrow> transaction_t \<Rightarrow> 's transaction_manager \<Rightarrow> 's transaction_manager" where
  "setCommitTS tid ts tm = tm\<lparr>activeTransactions :=
     map (\<lambda>t. if txnID t = tid then t\<lparr>commitTS := ts\<rparr> else t) (activeTransactions tm)\<rparr>"

definition tm_commit :: "db_config \<Rightarrow> 's storage_ops \<Rightarrow> transaction_t \<Rightarrow> 's transaction_manager \<Rightarrow> 's transaction_manager \<times> unit res" where
  "tm_commit cfg ops tid tm =
     (case findTransaction tid tm of
        None \<Rightarrow> (tm, Inl NullDeref)
      | Some t \<Rightarrow>
          if isReadOnly t then clearTransactionNoLock tid tm
          else if isWriteTransaction t \<or> isRecovery t then
            let ts = lastTimestamp tm + 1;
                t = t\<lparr>commitTS := ts\<rparr>;
                tm = setCommitTS tid ts (tm\<lparr>lastTimestamp := ts\<rparr>);
                (s, r) = transaction_commit cfg ops t (store tm) in
            bindS (tm\<lparr>store := s\<rparr>, r) (\<lambda>_ tm.
            let shouldCheckpoint = (shouldForceCheckpoint cfg t \<or> canAutoCheckpoint cfg ops t (store tm)) in
            bindS (clearTransactionNoLock tid tm) (\<lambda>_ tm.
            if shouldCheckpoint then checkpointNoLock cfg ops tm else (tm, Inr ())))
          else (tm, Inl (TransactionManagerException ''Invalid transaction type to commit.'')))"

definition tm_rollback :: "'s storage_ops \<Rightarrow> transaction_t \<Rightarrow> 's transaction_manager \<Rightarrow> 's transaction_manager \<times> unit res" where
  "tm_rollback ops tid tm =
     (case findTransaction tid tm of
        None \<Rightarrow> (tm, Inl NullDeref)
      | Some t \<Rightarrow>
          if isReadOnly t then clearTransactionNoLock tid tm
          else if isWriteTransaction t \<or> isRecovery t then
            let (s, r) = transaction_rollback ops t (store tm) in
            bindS (tm\<lparr>store := s\<rparr>, r) (\<lambda>_ tm. clearTransactionNoLock tid tm)
          else (tm, Inl (TransactionManagerException ''Invalid transaction type to rollback.'')))"

section \<open>The transaction context of a connection\<close>

datatype transaction_mode = AUTO | MANUAL

record transaction_context =
  mode :: transaction_mode
  activeTransaction :: "transaction_t option"

text \<open>A connection and the manager it works with.\<close>

type_synonym 's session = "transaction_context \<times> 's transaction_manager"

definition TransactionContext_new :: transaction_context where
  "TransactionContext_new = \<lparr>mode = AUTO, activeTransaction = None\<rparr>"

definition isAutoTransaction :: "transaction_context \<Rightarrow> bool" where
  "isAutoTransaction c = (mode c = AUTO)"

definition hasActiveTransaction :: "transaction_context \<Rightarrow> bool" where
  "hasActiveTransaction c = (activeTransaction c \<noteq> None)"

definition clearTransaction :: "transaction_context \<Rightarrow> transaction_context" where
  "clearTransaction c = c\<lparr>activeTransaction := None, mode := AUTO\<rparr>"

definition beginTransactionInternal ::
  "db_config \<Rightarrow> 's storage_ops \<Rightarrow> transaction_type \<Rightarrow> 's session \<Rightarrow> 's session \<times> unit res" where
  "beginTransactionInternal cfg ops ty st =
     bindS (st, assertR (\<not> hasActiveTransaction (fst st))) (\<lambda>_ (c, tm).
     case beginTransaction cfg ops ty tm of
       (tm, Inl e) \<Rightarrow> ((c, tm), Inl e)
     | (tm, Inr tid) \<Rightarrow> ((c\<lparr>activeTransaction := Some tid\<rparr>, tm), Inr ()))"

definition beginManual ::
  "db_config \<Rightarrow> 's storage_ops \<Rightarrow> transaction_type \<Rightarrow> 's session \<Rightarrow> 's session \<times> unit res" where
  "beginManual cfg ops ty st = beginTransactionInternal cfg ops ty ((fst st)\<lparr>mode := MANUAL\<rparr>, snd st)"

definition beginReadTransaction :: "db_config \<Rightarrow> 's storage_ops \<Rightarrow> 's session \<Rightarrow> 's session \<times> unit res" where
  "beginReadTransaction cfg ops st = beginManual cfg ops READ_ONLY st"

definition beginWriteTransaction :: "db_config \<Rightarrow> 's storage_ops \<Rightarrow> 's session \<Rightarrow> 's session \<times> unit res" where
  "beginWriteTransaction cfg ops st = beginManual cfg ops WRITE st"

definition beginRecoveryTransaction :: "db_config \<Rightarrow> 's storage_ops \<Rightarrow> 's session \<Rightarrow> 's session \<times> unit res" where
  "beginRecoveryTransaction cfg ops st = beginManual cfg ops RECOVERY st"

definition beginAutoTransaction :: "db_config \<Rightarrow> 's storage_ops \<Rightarrow> bool \<Rightarrow> 's session \<Rightarrow> 's session \<times> unit res" where
  "beginAutoTransaction cfg ops readOnlyStatement st =
     (if hasActiveTransaction (fst st) then
        (st, Inl (TransactionManagerException ''Cannot start a new transaction while there is an active transaction.''))
      else beginTransactionInternal cfg ops (if readOnlyStatement then READ_ONLY else WRITE) st)"

definition validateManualTransaction :: "bool \<Rightarrow> 's session \<Rightarrow> unit res" where
  "validateManualTransaction readOnlyStatement st =
     bindR (assertR (hasActiveTransaction (fst st))) (\<lambda>_.
     bindR (derefR (activeTransaction (fst st))) (\<lambda>tid.
     bindR (derefR (findTransaction tid (snd st))) (\<lambda>t.
     if isReadOnly t \<and> \<not> readOnlyStatement then
       Inl (TransactionManagerException ''Can not execute a write query inside a read-only transaction.'')
     else Inr ())))"

definition ctx_commit :: "db_config \<Rightarrow> 's storage_ops \<Rightarrow> 's session \<Rightarrow> 's session \<times> unit res" where
  "ctx_commit cfg ops st =
     (case activeTransaction (fst st) of
        None \<Rightarrow> (st, Inr ())
      | Some tid \<Rightarrow>
          (case tm_commit cfg ops tid (snd st) of
             (tm, Inl e) \<Rightarrow> ((fst st, tm), Inl e)
           | (tm, Inr _) \<Rightarrow> ((clearTransaction (fst st), tm), Inr ())))"

definition ctx_rollback :: "'s storage_ops \<Rightarrow> 's session \<Rightarrow> 's session \<times> unit res" where
  "ctx_rollback ops st =
     (case activeTransaction (fst st) of
        None \<Rightarrow> (st, Inr ())
      | Some tid \<Rightarrow>
          (case tm_rollback ops tid (snd st) of
             (tm, Inl e) \<Rightarrow> ((fst st, tm), Inl e)
           | (tm, Inr _) \<Rightarrow> ((clearTransaction (fst st), tm), Inr ())))"

section \<open>Statements in transactions\<close>

datatype transaction_action = BEGIN_READ | BEGIN_WRITE | COMMIT | ROLLBACK | CHECKPOINT_STATEMENT

definition validateActiveTransaction :: "transaction_action \<Rightarrow> transaction_context \<Rightarrow> unit res" where
  "validateActiveTransaction action c =
     (case action of
        BEGIN_READ \<Rightarrow> if hasActiveTransaction c
          then Inl (TransactionManagerException ''Connection already has an active transaction.'') else Inr ()
      | BEGIN_WRITE \<Rightarrow> if hasActiveTransaction c
          then Inl (TransactionManagerException ''Connection already has an active transaction.'') else Inr ()
      | COMMIT \<Rightarrow> if \<not> hasActiveTransaction c
          then Inl (TransactionManagerException ''No active transaction for COMMIT.'') else Inr ()
      | ROLLBACK \<Rightarrow> if \<not> hasActiveTransaction c
          then Inl (TransactionManagerException ''No active transaction for ROLLBACK.'') else Inr ()
      | CHECKPOINT_STATEMENT \<Rightarrow> if hasActiveTransaction c
          then Inl (TransactionManagerException ''Found active transaction for CHECKPOINT.'') else Inr ())"

definition runTransactionStatement ::
  "db_config \<Rightarrow> 's storage_ops \<Rightarrow> transaction_action \<Rightarrow> 's session \<Rightarrow> 's session \<times> unit res" where
  "runTransactionStatement cfg ops action st =
     bindS (st, validateActiveTransaction action (fst st)) (\<lambda>_ st.
     case action of
       BEGIN_READ \<Rightarrow> beginReadTransaction cfg ops st
     | BEGIN_WRITE \<Rightarrow> beginWriteTransaction cfg ops st
     | COMMIT \<Rightarrow> ctx_commit cfg ops st
     | ROLLBACK \<Rightarrow> ctx_rollback ops st
     | CHECKPOINT_STATEMENT \<Rightarrow>
         let (tm, r) = tm_checkpoint cfg ops (snd st) in ((fst st, tm), r))"

datatype commit_action = COMMIT_IF_NEW | COMMIT_IF_AUTO | COMMIT_NEW_OR_AUTO | NOT_COMMIT

definition commitIfNew :: "commit_action \<Rightarrow> bool" where
  "commitIfNew action = (action = COMMIT_IF_NEW \<or> action = COMMIT_NEW_OR_AUTO)"

definition commitIfAuto :: "commit_action \<Rightarrow> bool" where
  "commitIfAuto action = (action = COMMIT_IF_AUTO \<or> action = COMMIT_NEW_OR_AUTO)"

definition getAction :: "bool \<Rightarrow> bool \<Rightarrow> commit_action" where
  "getAction ifNew ifAuto =
     (if ifNew \<and> ifAuto then COMMIT_NEW_OR_AUTO
      else if ifNew then COMMIT_IF_NEW
      else if ifAuto then COMMIT_IF_AUTO
      else NOT_COMMIT)"

text \<open>
  The handlers of \<^verbatim>\<open>runFuncInTransaction\<close>. An exception that the handler throws replaces
  the one it handles.
\<close>

fun handleFailure :: "'s storage_ops \<Rightarrow> err \<Rightarrow> 's session \<Rightarrow> 's session \<times> unit res" where
  "handleFailure ops (CheckpointException m) st = ((clearTransaction (fst st), snd st), Inl (CheckpointException m))"
| "handleFailure ops e st = bindS (ctx_rollback ops st) (\<lambda>_ st. (st, Inl e))"

definition runFuncInTransaction ::
  "db_config \<Rightarrow> 's storage_ops \<Rightarrow> ('s session \<Rightarrow> 's session \<times> unit res) \<Rightarrow> bool \<Rightarrow> bool \<Rightarrow> commit_action
    \<Rightarrow> 's session \<Rightarrow> 's session \<times> unit res" where
  "runFuncInTransaction cfg ops func readOnlyStatement isTransactionStatement action st =
     bindS (st, assertR (isAutoTransaction (fst st) \<or> hasActiveTransaction (fst st))) (\<lambda>_ st.
     let requireNewTransaction =
           (isAutoTransaction (fst st) \<and> \<not> hasActiveTransaction (fst st) \<and> \<not> isTransactionStatement) in
     bindS (if requireNewTransaction then beginAutoTransaction cfg ops readOnlyStatement st else (st, Inr ())) (\<lambda>_ st.
     case bindS (func st) (\<lambda>_ st.
            if requireNewTransaction \<and> commitIfNew action \<or> isAutoTransaction (fst st) \<and> commitIfAuto action
            then ctx_commit cfg ops st else (st, Inr ())) of
       (st, Inr _) \<Rightarrow> (st, Inr ())
     | (st, Inl e) \<Rightarrow> handleFailure ops e st))"

section \<open>The life of transactions\<close>

text \<open>
  One call of a public function of the manager, by any connection and with any outcome of the
  storage operations.
\<close>

inductive tm_step :: "db_config \<Rightarrow> 's storage_ops \<Rightarrow> 's transaction_manager \<Rightarrow> 's transaction_manager \<Rightarrow> bool"
  for cfg :: db_config and ops :: "'s storage_ops" where
  begin_txn: "beginTransaction cfg ops ty tm = (tm', r) \<Longrightarrow> tm_step cfg ops tm tm'"
| commit_txn: "tm_commit cfg ops tid tm = (tm', r) \<Longrightarrow> tm_step cfg ops tm tm'"
| rollback_txn: "tm_rollback ops tid tm = (tm', r) \<Longrightarrow> tm_step cfg ops tm tm'"
| checkpoint_db: "tm_checkpoint cfg ops tm = (tm', r) \<Longrightarrow> tm_step cfg ops tm tm'"
| use_storage: "tm_step cfg ops tm (tm\<lparr>store := s\<rparr>)"

text \<open>\<open>tm_run n\<close>: a start of the database and \<open>n\<close> calls.\<close>

inductive tm_run :: "db_config \<Rightarrow> 's storage_ops \<Rightarrow> nat \<Rightarrow> 's transaction_manager \<Rightarrow> bool"
  for cfg :: db_config and ops :: "'s storage_ops" where
  start: "tm_run cfg ops 0 (TransactionManager_new s)"
| step: "tm_run cfg ops n tm \<Longrightarrow> tm_step cfg ops tm tm' \<Longrightarrow> tm_run cfg ops (Suc n) tm'"

text \<open>What the invariants read of the active transactions: type, identifier and start timestamp.\<close>

definition cores :: "'s transaction_manager \<Rightarrow> (transaction_type \<times> transaction_t \<times> transaction_t) list" where
  "cores tm = map (\<lambda>t. (txnType t, txnID t, startTS t)) (activeTransactions tm)"

definition without :: "transaction_t \<Rightarrow> (transaction_type \<times> transaction_t \<times> transaction_t) list
    \<Rightarrow> (transaction_type \<times> transaction_t \<times> transaction_t) list" where
  "without tid cs = filter (\<lambda>(_, i, _). i \<noteq> tid) cs"

lemma cores_frame [simp]:
  "cores (tm\<lparr>store := s\<rparr>) = cores tm" "cores (tm\<lparr>lastTimestamp := ts\<rparr>) = cores tm"
  "cores (setCommitTS tid ts tm) = cores tm"
  by (simp_all add: cores_def setCommitTS_def)

lemma setCommitTS_frame [simp]:
  "lastTransactionID (setCommitTS tid ts tm) = lastTransactionID tm"
  "lastTimestamp (setCommitTS tid ts tm) = lastTimestamp tm" "store (setCommitTS tid ts tm) = store tm"
  by (simp_all add: setCommitTS_def)

definition leaves :: "transaction_t \<Rightarrow> 's transaction_manager \<Rightarrow> 's transaction_manager \<Rightarrow> bool" where
  "leaves tid tm tm' \<longleftrightarrow> lastTransactionID tm' = lastTransactionID tm \<and> cores tm' \<in> {cores tm, without tid (cores tm)}"

lemma clearTransaction_leaves:
  "clearTransactionNoLock tid tm = (tm', r) \<Longrightarrow> leaves tid tm tm' \<and> lastTimestamp tm' = lastTimestamp tm"
  by (auto simp: clearTransactionNoLock_def leaves_def cores_def without_def filter_map comp_def bindS_def
      assertR_def split: if_splits)

lemma checkpointNoLock_frame:
  "checkpointNoLock cfg ops tm = (tm', r) \<Longrightarrow>
    cores tm' = cores tm \<and> lastTransactionID tm' = lastTransactionID tm \<and> lastTimestamp tm' = lastTimestamp tm"
  by (auto simp: checkpointNoLock_def split: sum.splits prod.splits)

lemma bindS_cases:
  assumes "bindS m f = (s', r)"
  obtains (err) e where "m = (s', Inl e)" "r = Inl e" | (ok) s x where "m = (s, Inr x)" "f x s = (s', r)"
  using assms by (cases m; cases "snd m") auto

lemma tm_rollback_leaves:
  assumes "tm_rollback ops tid tm = (tm', r)"
  shows "leaves tid tm tm' \<and> lastTimestamp tm' = lastTimestamp tm"
proof (cases "findTransaction tid tm")
  case None
  then show ?thesis using assms by (simp add: tm_rollback_def leaves_def)
next
  case (Some t)
  obtain s r' where sr: "transaction_rollback ops t (store tm) = (s, r')" by force
  consider (ro) "isReadOnly t" | (rw) "\<not> isReadOnly t" "isWriteTransaction t \<or> isRecovery t" | (other) "\<not> isReadOnly t"
      "\<not> (isWriteTransaction t \<or> isRecovery t)" by blast
  then show ?thesis
  proof cases
    case ro
    then show ?thesis using assms Some clearTransaction_leaves by (simp add: tm_rollback_def)
  next
    case rw
    then have "bindS (tm\<lparr>store := s\<rparr>, r') (\<lambda>_ tm. clearTransactionNoLock tid tm) = (tm', r)"
      using assms Some sr by (simp add: tm_rollback_def)
    then show ?thesis
      using clearTransaction_leaves [of tid "tm\<lparr>store := s\<rparr>" tm' r]
      by (cases rule: bindS_cases) (auto simp: leaves_def)
  next
    case other
    then show ?thesis using assms Some by (auto simp: tm_rollback_def leaves_def)
  qed
qed

lemma tm_commit_leaves:
  assumes "tm_commit cfg ops tid tm = (tm', r)"
  shows "leaves tid tm tm' \<and> lastTimestamp tm' \<in> {lastTimestamp tm, lastTimestamp tm + 1}"
proof (cases "findTransaction tid tm")
  case None
  then show ?thesis using assms by (simp add: tm_commit_def leaves_def)
next
  case (Some t)
  let ?ts = "lastTimestamp tm + 1"
  let ?t = "t\<lparr>commitTS := ?ts\<rparr>" and ?tm = "setCommitTS tid ?ts (tm\<lparr>lastTimestamp := ?ts\<rparr>)"
  obtain s r' where sr: "transaction_commit cfg ops ?t (store ?tm) = (s, r')" by force
  consider (ro) "isReadOnly t" | (rw) "\<not> isReadOnly t" "isWriteTransaction t \<or> isRecovery t" | (other) "\<not> isReadOnly t"
      "\<not> (isWriteTransaction t \<or> isRecovery t)" by blast
  then show ?thesis
  proof cases
    case ro
    then show ?thesis using assms Some clearTransaction_leaves [of tid tm tm' r] by (simp add: tm_commit_def)
  next
    case rw
    then have "bindS (?tm\<lparr>store := s\<rparr>, r') (\<lambda>_ tm.
        let shouldCheckpoint = (shouldForceCheckpoint cfg ?t \<or> canAutoCheckpoint cfg ops ?t (store tm)) in
        bindS (clearTransactionNoLock tid tm) (\<lambda>_ tm.
        if shouldCheckpoint then checkpointNoLock cfg ops tm else (tm, Inr ()))) = (tm', r)"
      using assms Some sr by (simp add: tm_commit_def Let_def)
    then show ?thesis
    proof (cases rule: bindS_cases)
      case err
      then show ?thesis by (auto simp: leaves_def)
    next
      case (ok tm1 x)
      obtain b where "bindS (clearTransactionNoLock tid tm1) (\<lambda>_ tm.
          if b then checkpointNoLock cfg ops tm else (tm, Inr ())) = (tm', r)"
        using ok(2) by (auto simp: Let_def)
      then have "leaves tid tm1 tm' \<and> lastTimestamp tm' = lastTimestamp tm1"
      proof (cases rule: bindS_cases)
        case err
        then show ?thesis using clearTransaction_leaves by blast
      next
        case (ok tm2 y)
        have "leaves tid tm1 tm2 \<and> lastTimestamp tm2 = lastTimestamp tm1" by (rule clearTransaction_leaves [OF ok(1)])
        moreover have "cores tm' = cores tm2 \<and> lastTransactionID tm' = lastTransactionID tm2 \<and> lastTimestamp tm' = lastTimestamp tm2"
          using ok(2) checkpointNoLock_frame [of cfg ops tm2 tm' r] by (auto split: if_splits)
        ultimately show ?thesis by (simp add: leaves_def)
      qed
      then show ?thesis using ok(1) by (auto simp: leaves_def)
    qed
  next
    case other
    then show ?thesis using assms Some by (auto simp: tm_commit_def leaves_def)
  qed
qed

lemma beginTransaction_outcome:
  assumes "beginTransaction cfg ops ty tm = (tm', r)"
  shows "tm' = tm \<and> (\<exists>e. r = Inl e)
    \<or> r = Inr (lastTransactionID tm + 1) \<and> lastTransactionID tm' = lastTransactionID tm + 1
      \<and> lastTimestamp tm' = lastTimestamp tm
      \<and> cores tm' = cores tm @ [(ty, lastTransactionID tm + 1, lastTimestamp tm)]
      \<and> (ty \<noteq> READ_ONLY \<longrightarrow> enableMultiWrites cfg \<or> \<not> hasActiveWriteTransactionNoLock tm)
      \<and> ty \<in> {READ_ONLY, WRITE, RECOVERY}"
  using assms
  by (cases ty) (auto simp: beginTransaction_def Let_def cores_def Transaction_new_def split: if_splits)

definition tm_inv :: "db_config \<Rightarrow> nat \<Rightarrow> 's transaction_manager \<Rightarrow> bool" where
  "tm_inv cfg n tm \<longleftrightarrow>
     2 ^ 63 \<le> unat (lastTransactionID tm) \<and> unat (lastTransactionID tm) \<le> 2 ^ 63 + n
   \<and> 1 \<le> unat (lastTimestamp tm) \<and> unat (lastTimestamp tm) \<le> 1 + n
   \<and> distinct (map (fst \<circ> snd) (cores tm))
   \<and> (\<forall>(ty, i, ts) \<in> set (cores tm). 2 ^ 63 < unat i \<and> unat i \<le> unat (lastTransactionID tm)
        \<and> unat ts \<le> unat (lastTimestamp tm) \<and> ty \<in> {READ_ONLY, WRITE, RECOVERY})
   \<and> (\<not> enableMultiWrites cfg \<longrightarrow> length (filter (\<lambda>c. fst c = WRITE) (cores tm)) \<le> 1)"

lemma unat_START: "unat START_TRANSACTION_ID = 2 ^ 63"
  by (simp add: START_TRANSACTION_ID_def)

lemma tm_inv_start: "tm_inv cfg 0 (TransactionManager_new s)"
  by (simp add: tm_inv_def TransactionManager_new_def cores_def unat_START)

lemma unat_succ: "unat x + 1 < 2 ^ 64 \<Longrightarrow> unat (x + 1) = unat x + 1" for x :: u64
  by (simp add: unat_word_ariths)

lemma length_filter_filter: "length (filter P (filter Q xs)) \<le> length (filter P xs)"
  by (induction xs) auto

lemma tm_inv_leaves:
  assumes "tm_inv cfg n tm" "leaves tid tm tm'" "lastTimestamp tm' \<in> {lastTimestamp tm, lastTimestamp tm + 1}" "n < 2 ^ 62"
  shows "tm_inv cfg (Suc n) tm'"
proof -
  have "unat (lastTimestamp tm) + 1 < 2 ^ 64" using assms(1,4) by (simp add: tm_inv_def)
  then have ts: "unat (lastTimestamp tm) \<le> unat (lastTimestamp tm') \<and> unat (lastTimestamp tm') \<le> Suc (unat (lastTimestamp tm))"
    using assms(3) unat_succ [of "lastTimestamp tm"] by auto
  have sub: "set (cores tm') \<subseteq> set (cores tm)" and "distinct (map (fst \<circ> snd) (cores tm'))"
    using assms(1,2) by (auto simp: leaves_def without_def tm_inv_def intro: distinct_map_filter)
  moreover have "length (filter (\<lambda>c. fst c = WRITE) (cores tm')) \<le> length (filter (\<lambda>c. fst c = WRITE) (cores tm))"
    using assms(2) length_filter_filter by (auto simp: leaves_def without_def)
  moreover have "\<forall>(ty, i, t) \<in> set (cores tm'). 2 ^ 63 < unat i \<and> unat i \<le> unat (lastTransactionID tm')
      \<and> unat t \<le> unat (lastTimestamp tm') \<and> ty \<in> {READ_ONLY, WRITE, RECOVERY}"
    using assms(1,2) sub ts by (fastforce simp: tm_inv_def leaves_def)
  ultimately show ?thesis using assms(1,2) ts by (auto simp: tm_inv_def leaves_def)
qed

lemma tm_inv_begin:
  assumes inv: "tm_inv cfg n tm" and n: "n < 2 ^ 62" and "beginTransaction cfg ops ty tm = (tm', r)"
  shows "tm_inv cfg (Suc n) tm'"
  using beginTransaction_outcome [OF assms(3)]
proof
  assume "tm' = tm \<and> (\<exists>e. r = Inl e)"
  then show ?thesis using inv by (auto simp: tm_inv_def)
next
  assume new: "r = Inr (lastTransactionID tm + 1) \<and> lastTransactionID tm' = lastTransactionID tm + 1
      \<and> lastTimestamp tm' = lastTimestamp tm
      \<and> cores tm' = cores tm @ [(ty, lastTransactionID tm + 1, lastTimestamp tm)]
      \<and> (ty \<noteq> READ_ONLY \<longrightarrow> enableMultiWrites cfg \<or> \<not> hasActiveWriteTransactionNoLock tm)
      \<and> ty \<in> {READ_ONLY, WRITE, RECOVERY}"
  have "unat (lastTransactionID tm) + 1 < 2 ^ 64" using inv n by (simp add: tm_inv_def)
  then have tid: "unat (lastTransactionID tm + 1) = unat (lastTransactionID tm) + 1" by (rule unat_succ)
  have old: "\<forall>(ty, i, t) \<in> set (cores tm). 2 ^ 63 < unat i \<and> unat i \<le> unat (lastTransactionID tm)
      \<and> unat t \<le> unat (lastTimestamp tm) \<and> ty \<in> {READ_ONLY, WRITE, RECOVERY}"
    and low: "2 ^ 63 \<le> unat (lastTransactionID tm)"
    using inv unfolding tm_inv_def by blast+
  have fresh: "lastTransactionID tm + 1 \<notin> fst ` snd ` set (cores tm)"
    using old tid by (fastforce simp: tm_inv_def)
  have "filter (\<lambda>c. fst c = WRITE) (cores tm) = []" if "\<not> hasActiveWriteTransactionNoLock tm"
    using that by (auto simp: hasActiveWriteTransactionNoLock_def list_ex_iff isWriteTransaction_def cores_def filter_empty_conv)
  then have "\<not> enableMultiWrites cfg \<longrightarrow> length (filter (\<lambda>c. fst c = WRITE) (cores tm')) \<le> 1"
    using new inv by (auto simp: tm_inv_def)
  moreover have "\<forall>(ty, i, t) \<in> set (cores tm'). 2 ^ 63 < unat i \<and> unat i \<le> unat (lastTransactionID tm')
      \<and> unat t \<le> unat (lastTimestamp tm') \<and> ty \<in> {READ_ONLY, WRITE, RECOVERY}"
    using old low new tid by auto
  ultimately show ?thesis using inv new tid fresh by (simp add: tm_inv_def image_comp)
qed

lemma tm_inv_run: "tm_run cfg ops n tm \<Longrightarrow> n < 2 ^ 62 \<Longrightarrow> tm_inv cfg n tm"
proof (induction rule: tm_run.induct)
  case (start s)
  then show ?case by (simp add: tm_inv_start)
next
  case (step n tm tm')
  then have inv: "tm_inv cfg n tm" and n: "n < 2 ^ 62" by simp_all
  from step(2) show ?case
  proof cases
    case (begin_txn ty r)
    then show ?thesis by (rule tm_inv_begin [OF inv n])
  next
    case (commit_txn tid r)
    then show ?thesis using tm_inv_leaves [OF inv _ _ n] tm_commit_leaves by blast
  next
    case (rollback_txn tid r)
    then show ?thesis using tm_inv_leaves [OF inv _ _ n] tm_rollback_leaves by blast
  next
    case (checkpoint_db r)
    then have "cores tm' = cores tm \<and> lastTransactionID tm' = lastTransactionID tm \<and> lastTimestamp tm' = lastTimestamp tm"
      using checkpointNoLock_frame [of cfg ops tm tm' r] by (auto simp: tm_checkpoint_def split: if_splits)
    then show ?thesis using inv by (auto simp: tm_inv_def)
  next
    case (use_storage s)
    then show ?thesis using inv by (auto simp: tm_inv_def)
  qed
qed

text \<open>
  C21. The bookkeeping of the transaction manager is sound in every reachable state, whatever the
  storage operations do and whether they fail: the active transactions have distinct identifiers,
  identifiers are above \<^verbatim>\<open>START_TRANSACTION_ID\<close> and start timestamps and the last
  timestamp below it, so that an identifier never reads as a timestamp, no transaction started
  after the last commit timestamp, and without \<^verbatim>\<open>enableMultiWrites\<close> at most one write
  transaction is active. The bound on the number of calls keeps the two counters from wrapping.
\<close>

theorem transaction_manager_invariant:
  assumes "tm_run cfg ops n tm" "n < 2 ^ 62"
  shows "distinct (map txnID (activeTransactions tm))
    \<and> lastTimestamp tm < START_TRANSACTION_ID
    \<and> list_all (\<lambda>t. START_TRANSACTION_ID < txnID t \<and> startTS t \<le> lastTimestamp tm) (activeTransactions tm)
    \<and> (if enableMultiWrites cfg then True else length (filter isWriteTransaction (activeTransactions tm)) \<le> 1)"
proof -
  have inv: "tm_inv cfg n tm" by (rule tm_inv_run [OF assms])
  have "map txnID (activeTransactions tm) = map (fst \<circ> snd) (cores tm)" by (simp add: cores_def)
  then have "distinct (map txnID (activeTransactions tm))" using inv by (simp add: tm_inv_def)
  moreover have "lastTimestamp tm < START_TRANSACTION_ID"
    using inv assms(2) by (simp add: tm_inv_def word_less_nat_alt unat_START)
  moreover have "list_all (\<lambda>t. START_TRANSACTION_ID < txnID t \<and> startTS t \<le> lastTimestamp tm) (activeTransactions tm)"
    using inv by (auto simp: tm_inv_def cores_def list_all_iff word_less_nat_alt word_le_nat_alt unat_START)
  moreover have "length (filter isWriteTransaction (activeTransactions tm)) = length (filter (\<lambda>c. fst c = WRITE) (cores tm))"
    by (simp add: cores_def filter_map comp_def isWriteTransaction_def [abs_def])
  ultimately show ?thesis using inv by (simp add: tm_inv_def)
qed

text \<open>Storage operations that do nothing and succeed, for the witnesses.\<close>

definition no_storage :: "unit storage_ops" where
  "no_storage = \<lparr>logBeginTransaction = \<lambda>_ s. s, localStorageCommit = \<lambda>_ s. (s, Inr ()),
     undoBufferCommit = \<lambda>_ _ s. (s, Inr ()), logCommit = \<lambda>_ s. (s, Inr ()), catalogIncrementVersion = \<lambda>s. s,
     undoBufferRollback = \<lambda>_ s. (s, Inr ()), localStorageRollback = \<lambda>_ s. (s, Inr ()), walSize = \<lambda>_ _. 0,
     writeCheckpoint = \<lambda>s. (s, Inr ()), rollbackCheckpoint = \<lambda>s. s\<rparr>"

definition example_config :: db_config where
  "example_config = \<lparr>enableMultiWrites = False, inMemory = False, autoCheckpoint = True, checkpointThreshold = 16,
     checkpointWaitTimeoutInMicros = 5000000\<rparr>"

definition one_writer :: "unit transaction_manager" where
  "one_writer = fst (beginTransaction example_config no_storage WRITE (TransactionManager_new ()))"

lemma one_writer_run: "tm_run example_config no_storage 1 one_writer"
proof -
  have "tm_step example_config no_storage (TransactionManager_new ()) one_writer"
    by (rule begin_txn [of _ _ WRITE]) (simp add: one_writer_def prod_eq_iff)
  from tm_run.step [OF tm_run.start this] show ?thesis by simp
qed

lemma one_writer_active: "activeTransactions one_writer = [Transaction_new WRITE (START_TRANSACTION_ID + 1) 1]"
  by (simp add: one_writer_def beginTransaction_def TransactionManager_new_def hasActiveWriteTransactionNoLock_def
      example_config_def Let_def)

theorem transaction_manager_invariant_witness:
  "distinct (map txnID (activeTransactions one_writer))
    \<and> lastTimestamp one_writer < START_TRANSACTION_ID
    \<and> list_all (\<lambda>t. START_TRANSACTION_ID < txnID t \<and> startTS t \<le> lastTimestamp one_writer) (activeTransactions one_writer)
    \<and> (if enableMultiWrites example_config then True
       else length (filter isWriteTransaction (activeTransactions one_writer)) \<le> 1)"
  by (rule transaction_manager_invariant [OF one_writer_run]) simp

section \<open>Beginning, waiting and failing\<close>

text \<open>
  Without \<^verbatim>\<open>enableMultiWrites\<close> a second write or recovery transaction is refused with
  an exception while a write transaction is active, and the refusal changes nothing; a read-only
  transaction starts all the same, with the last commit timestamp as its snapshot.
\<close>

theorem second_writer_refused:
  assumes "\<not> enableMultiWrites cfg" "hasActiveWriteTransactionNoLock tm"
  shows "beginTransaction cfg ops WRITE tm =
      (tm, Inl (TransactionManagerException ''Cannot start a new write transaction in the system.''))
    \<and> beginTransaction cfg ops RECOVERY tm =
      (tm, Inl (TransactionManagerException ''Cannot start a new write transaction in the system.''))
    \<and> (\<exists>tm'. beginTransaction cfg ops READ_ONLY tm = (tm', Inr (lastTransactionID tm + 1))
        \<and> activeTransactions tm' = activeTransactions tm
            @ [Transaction_new READ_ONLY (lastTransactionID tm + 1) (lastTimestamp tm)]
        \<and> store tm' = store tm)"
  using assms by (simp add: beginTransaction_def Let_def)

theorem second_writer_refused_witness:
  "beginTransaction example_config no_storage WRITE one_writer =
      (one_writer, Inl (TransactionManagerException ''Cannot start a new write transaction in the system.''))
    \<and> beginTransaction example_config no_storage RECOVERY one_writer =
      (one_writer, Inl (TransactionManagerException ''Cannot start a new write transaction in the system.''))
    \<and> (\<exists>tm'. beginTransaction example_config no_storage READ_ONLY one_writer =
          (tm', Inr (lastTransactionID one_writer + 1))
        \<and> activeTransactions tm' = activeTransactions one_writer
            @ [Transaction_new READ_ONLY (lastTransactionID one_writer + 1) (lastTimestamp one_writer)]
        \<and> store tm' = store one_writer)"
  by (rule second_writer_refused)
    (simp_all add: example_config_def hasActiveWriteTransactionNoLock_def one_writer_active Transaction_new_def isWriteTransaction_def)

lemma wait_outcome:
  "waitUntilAllTransactionsLeave timeout tm n =
     (if hasNoActiveTransactions tm then Inr ()
      else Inl (TransactionManagerException ''Timeout waiting for active transactions to leave the system before checkpointing.''))"
proof (induction timeout tm n rule: waitUntilAllTransactionsLeave.induct)
  case (1 timeout tm n)
  show ?case
  proof (cases "waitPass timeout tm n")
    case (Polling m)
    then show ?thesis using 1 by (simp add: waitUntilAllTransactionsLeave.simps [of timeout tm n])
  qed (auto simp: waitUntilAllTransactionsLeave.simps [of timeout tm n] waitPass_def split: if_splits)
qed

section \<open>Waiting while other threads run\<close>

text \<open>
  The waiting loop of thread \<open>c\<close> interleaved with other threads. The public functions of the manager
  take \<^verbatim>\<open>mtxForSerializingPublicFunctionCalls\<close> first and give it back at their end;
  the transactions work on the storage without it.
\<close>

record 's waiting_system =
  sharedManager :: "'s transaction_manager"
  publicMutex :: "nat option"
  waitPoint :: wait_point

inductive other_step :: "db_config \<Rightarrow> 's storage_ops \<Rightarrow> nat \<Rightarrow> 's waiting_system \<Rightarrow> 's waiting_system \<Rightarrow> bool"
  for cfg :: db_config and ops :: "'s storage_ops" and c :: nat where
  acquire: "publicMutex s = None \<Longrightarrow> u \<noteq> c \<Longrightarrow> other_step cfg ops c s (s\<lparr>publicMutex := Some u\<rparr>)"
| call: "publicMutex s = Some u \<Longrightarrow> u \<noteq> c \<Longrightarrow> tm_step cfg ops (sharedManager s) tm \<Longrightarrow> other_step cfg ops c s (s\<lparr>sharedManager := tm\<rparr>)"
| release: "publicMutex s = Some u \<Longrightarrow> u \<noteq> c \<Longrightarrow> other_step cfg ops c s (s\<lparr>publicMutex := None\<rparr>)"
| work: "other_step cfg ops c s (s\<lparr>sharedManager := (sharedManager s)\<lparr>store := x\<rparr>\<rparr>)"

text \<open>\<open>wait_run k\<close>: an interleaving with \<open>k\<close> passes of the loop.\<close>

inductive wait_run :: "db_config \<Rightarrow> 's storage_ops \<Rightarrow> nat \<Rightarrow> nat \<Rightarrow> 's waiting_system \<Rightarrow> 's waiting_system \<Rightarrow> bool"
  for cfg :: db_config and ops :: "'s storage_ops" and c :: nat where
  no_step: "wait_run cfg ops c 0 s s"
| other: "wait_run cfg ops c k s s' \<Longrightarrow> other_step cfg ops c s' s'' \<Longrightarrow> wait_run cfg ops c k s s''"
| pass: "wait_run cfg ops c k s s' \<Longrightarrow> waitPoint s' = Polling n \<Longrightarrow>
    wait_run cfg ops c (Suc k) s (s'\<lparr>waitPoint := waitPass (checkpointWaitTimeoutInMicros cfg) (sharedManager s') n\<rparr>)"

lemma other_step_holding:
  assumes "other_step cfg ops c s s'" "publicMutex s = Some c"
  shows "publicMutex s' = Some c \<and> waitPoint s' = waitPoint s
    \<and> activeTransactions (sharedManager s') = activeTransactions (sharedManager s)"
  using assms by cases auto

lemma wait_run_holding:
  assumes "wait_run cfg ops c k s s'" "publicMutex s = Some c" "waitPoint s = Polling 0"
  shows "publicMutex s' = Some c \<and> activeTransactions (sharedManager s') = activeTransactions (sharedManager s)
    \<and> waitPoint s' =
      (if activeTransactions (sharedManager s) = [] then if k = 0 then Polling 0 else NoneActive
       else if k * 500 \<le> checkpointWaitTimeoutInMicros cfg then Polling k else TimedOut)
    \<and> k \<le> checkpointWaitTimeoutInMicros cfg div 500 + 1"
  using assms
proof (induction rule: wait_run.induct)
  case (other k s s' s'')
  then show ?case using other_step_holding [of cfg ops c s' s''] by simp
next
  case (pass k s s' n)
  then have "k * 500 \<le> checkpointWaitTimeoutInMicros cfg" by (auto split: if_splits)
  then show ?case
    using pass by (auto simp: waitPass_def hasNoActiveTransactions_def THREAD_SLEEP_TIME_WHEN_WAITING_IN_MICROS_def
        split: if_splits)
qed simp

text \<open>
  C31. Waiting before a checkpoint helps nobody to leave. The thread that waits holds the mutex of the
  public functions; in every interleaving of its loop with other threads, which may call the manager
  when they get the mutex and work on the storage at any time, the active transactions stay the ones
  there were. If there was none, the first pass ends the wait; if there was one, the loop goes on
  for exactly as many passes of 500 microseconds as fit into the timeout and then times out. So the
  checkpoint that follows is written, or undone with an error if writing it fails, when no
  transaction was active at the call, and fails without touching the storage when one was.
\<close>

theorem checkpoint_outcome:
  assumes "publicMutex s = Some c" "waitPoint s = Polling 0" "wait_run cfg ops c k s s'"
    and "tm = sharedManager s'" "timeout = checkpointWaitTimeoutInMicros cfg"
  shows "activeTransactions tm = activeTransactions (sharedManager s)
    \<and> waitPoint s' =
      (if activeTransactions (sharedManager s) = [] then if k = 0 then Polling 0 else NoneActive
       else if k * 500 \<le> timeout then Polling k else TimedOut)
    \<and> k \<le> timeout div 500 + 1
    \<and> checkpointNoLock cfg ops tm =
      (if activeTransactions (sharedManager s) = [] then
         (case writeCheckpoint ops (store tm) of
            (st, Inr _) \<Rightarrow> (tm\<lparr>store := st\<rparr>, Inr ())
          | (st, Inl _) \<Rightarrow> (tm\<lparr>store := rollbackCheckpoint ops st\<rparr>, Inl (CheckpointException ''writeCheckpoint'')))
       else (tm, Inl (CheckpointException ''Timeout waiting for active transactions to leave the system before checkpointing.'')))"
  using wait_run_holding [OF assms(3,1,2)] assms(4,5)
  by (auto simp: checkpointNoLock_def wait_outcome hasNoActiveTransactions_def split: sum.splits prod.splits)

theorem checkpoint_outcome_witness:
  "\<exists>s'. wait_run (example_config\<lparr>checkpointWaitTimeoutInMicros := 700\<rparr>) no_storage 0 2
      \<lparr>sharedManager = one_writer, publicMutex = Some 0, waitPoint = Polling 0\<rparr> s'
    \<and> activeTransactions (sharedManager s') \<noteq> [] \<and> waitPoint s' = TimedOut
    \<and> snd (checkpointNoLock (example_config\<lparr>checkpointWaitTimeoutInMicros := 700\<rparr>) no_storage (sharedManager s')) =
        Inl (CheckpointException ''Timeout waiting for active transactions to leave the system before checkpointing.'')"
proof -
  let ?c = "example_config\<lparr>checkpointWaitTimeoutInMicros := 700\<rparr>"
  let ?s = "\<lparr>sharedManager = one_writer, publicMutex = Some 0, waitPoint = Polling 0\<rparr>"
  have "waitPass 700 one_writer 0 = Polling 1"
    by (simp add: waitPass_def hasNoActiveTransactions_def one_writer_active THREAD_SLEEP_TIME_WHEN_WAITING_IN_MICROS_def)
  then have "wait_run ?c no_storage 0 1 ?s (?s\<lparr>waitPoint := Polling 1\<rparr>)"
    using wait_run.pass [OF wait_run.no_step [of ?c no_storage 0 ?s], of 0] by simp
  from wait_run.pass [OF this, of 1] obtain s' where run: "wait_run ?c no_storage 0 2 ?s s'" by (auto simp: numeral_2_eq_2)
  show ?thesis
    using checkpoint_outcome [of ?s 0 ?c no_storage 2 s' "sharedManager s'" 700, OF _ _ run] run
    by (auto simp: one_writer_active)
qed


text \<open>
  C32. A refused \<^verbatim>\<open>BEGIN TRANSACTION\<close> breaks the connection. The context switches to the
  manual mode before it asks the manager; when the manager refuses, the handler rolls back, which
  without an active transaction does nothing, and the mode stays manual with no transaction. The
  next statement of any kind then fails the assertion that the connection is in the automatic mode
  or has an active transaction.
\<close>

theorem refused_begin_leaves_manual_mode:
  assumes "\<not> enableMultiWrites cfg" "hasActiveWriteTransactionNoLock tm"
  shows "\<exists>c. runFuncInTransaction cfg ops (runTransactionStatement cfg ops BEGIN_WRITE) False True act
        (TransactionContext_new, tm) =
        ((c, tm), Inl (TransactionManagerException ''Cannot start a new write transaction in the system.''))
    \<and> mode c = MANUAL \<and> activeTransaction c = None
    \<and> runFuncInTransaction cfg ops func readOnly isTxn act2 (c, tm2) = ((c, tm2), Inl AssertFail)"
  using assms
  by (simp add: runFuncInTransaction_def runTransactionStatement_def validateActiveTransaction_def
      beginWriteTransaction_def beginManual_def beginTransactionInternal_def TransactionContext_new_def
      isAutoTransaction_def hasActiveTransaction_def beginTransaction_def ctx_rollback_def)

theorem refused_begin_leaves_manual_mode_witness:
  "\<exists>c. runFuncInTransaction example_config no_storage (runTransactionStatement example_config no_storage BEGIN_WRITE)
        False True NOT_COMMIT (TransactionContext_new, one_writer) =
        ((c, one_writer), Inl (TransactionManagerException ''Cannot start a new write transaction in the system.''))
    \<and> mode c = MANUAL \<and> activeTransaction c = None
    \<and> runFuncInTransaction example_config no_storage (\<lambda>st. (st, Inr ())) True False COMMIT_NEW_OR_AUTO (c, one_writer) =
        ((c, one_writer), Inl AssertFail)"
  by (rule refused_begin_leaves_manual_mode)
    (simp_all add: example_config_def hasActiveWriteTransactionNoLock_def one_writer_active Transaction_new_def isWriteTransaction_def)

end
