(* ===== verification/Checksum.thy ===== *)
theory Checksum
  imports Read_Programs
begin

text \<open>
  Checksummed entries of the log: the checksum (\<^verbatim>\<open>src/src/common/checksum.cpp\<close>),
  \<^verbatim>\<open>ChecksumWriter\<close> and \<^verbatim>\<open>ChecksumReader\<close>
  (\<^verbatim>\<open>src/src/storage/wal/checksum_writer.cpp\<close>, \<^verbatim>\<open>checksum_reader.cpp\<close>).

  The writer below the checksum writer only appends, as the writers of \<open>Byte_Streams\<close> do, and
  is the list of bytes it got; the reader below the checksum reader is any reader, given by its read
  operation \<open>rd\<close>. The contents of a freshly allocated buffer of a size are the parameter \<open>fresh\<close>.
\<close>

section \<open>The checksum\<close>

definition checksumWord :: "u64 \<Rightarrow> u64" where
  "checksumWord x = x * 0xbf58476d1ce4e5b9"

text \<open>The little-endian 64-bit word at index \<open>i\<close> of a buffer.\<close>

definition wordAt :: "u8 list \<Rightarrow> nat \<Rightarrow> u64" where
  "wordAt bs i = leWord (take 8 (drop (i * 8) bs))"

definition checksumRemainder :: "u8 list \<Rightarrow> u64" where
  "checksumRemainder bs =
     (let M = 0xc6a4a7935bd1e995; SEED = 0xe17a1465; R = 47; len = length bs;
          h = SEED XOR (of_nat len * M);
          n_blocks = len div 8;
          h = fold (\<lambda>i h.
                let k = wordAt bs i * M; k = k XOR drop_bit R k; k = k * M in (h XOR k) * M) [0..<n_blocks] h;
          data8 = drop (n_blocks * 8) bs;
          rest = len mod 8;
          h = fold (\<lambda>i h. h XOR push_bit (8 * i) (ucast (data8 ! i))) (rev [0..<rest]) h;
          h = (if rest > 0 then h * M else h);
          h = h XOR drop_bit R h;
          h = h * M in
      h XOR drop_bit R h)"

definition checksum :: "u8 list \<Rightarrow> u64" where
  "checksum bs =
     (let n = length bs div 8;
          result = fold (\<lambda>i result. result XOR checksumWord (wordAt bs i)) [0..<n] 5381 in
      if length bs - n * 8 > 0 then result XOR checksumRemainder (drop (n * 8) bs) else result)"

section \<open>The writer\<close>

record checksum_writer =
  cwOutput :: "u8 list"
  cwEntrySize :: "nat option"
  cwBuffer :: "u8 list"

function bit_ceil_from :: "nat \<Rightarrow> nat \<Rightarrow> nat" where
  "bit_ceil_from p n = (if n \<le> p \<or> p = 0 then p else bit_ceil_from (2 * p) n)"
  by pat_completeness auto

termination bit_ceil_from
  by (relation "measure (\<lambda>(p, n). n - p)") auto

declare bit_ceil_from.simps [simp del]

definition bit_ceil :: "nat \<Rightarrow> nat" where
  "bit_ceil n = bit_ceil_from 1 n"

definition resizeBufferIfNeeded :: "(nat \<Rightarrow> u8 list) \<Rightarrow> u8 list \<Rightarrow> nat \<Rightarrow> u8 list" where
  "resizeBufferIfNeeded fresh entryBuffer requestedSize =
     (if requestedSize > length entryBuffer then fresh (bit_ceil requestedSize) else entryBuffer)"

definition ChecksumWriter_new :: "(nat \<Rightarrow> u8 list) \<Rightarrow> nat \<Rightarrow> checksum_writer" where
  "ChecksumWriter_new fresh P = \<lparr>cwOutput = [], cwEntrySize = None, cwBuffer = fresh P\<rparr>"

definition cw_write :: "(nat \<Rightarrow> u8 list) \<Rightarrow> checksum_writer \<Rightarrow> u8 list \<Rightarrow> checksum_writer res" where
  "cw_write fresh w bs =
     (case cwEntrySize w of
        Some entrySize \<Rightarrow>
          bindR (copyInto (resizeBufferIfNeeded fresh (cwBuffer w) (entrySize + length bs)) entrySize bs) (\<lambda>b.
          Inr (w\<lparr>cwBuffer := b, cwEntrySize := Some (entrySize + length bs)\<rparr>))
      | None \<Rightarrow> Inr (w\<lparr>cwOutput := cwOutput w @ bs\<rparr>))"

definition cw_clear :: "checksum_writer \<Rightarrow> checksum_writer" where
  "cw_clear w = w\<lparr>cwEntrySize := None, cwOutput := []\<rparr>"

definition cw_onObjectBegin :: "checksum_writer \<Rightarrow> checksum_writer" where
  "cw_onObjectBegin w = w\<lparr>cwEntrySize := Some 0\<rparr>"

definition cw_onObjectEnd :: "checksum_writer \<Rightarrow> checksum_writer res" where
  "cw_onObjectEnd w =
     (case cwEntrySize w of
        None \<Rightarrow> Inl AssertFail
      | Some entrySize \<Rightarrow>
          bindR (copyFromMem (cwBuffer w) 0 entrySize) (\<lambda>entry.
          Inr (w\<lparr>cwOutput := cwOutput w @ entry @ serializeU64 (checksum entry), cwEntrySize := None\<rparr>)))"

definition cw_getSize :: "checksum_writer \<Rightarrow> nat" where
  "cw_getSize w = (case cwEntrySize w of None \<Rightarrow> 0 | Some n \<Rightarrow> n) + length (cwOutput w)"

section \<open>The reader\<close>

record 'r checksum_reader =
  crReader :: 'r
  crEntrySize :: "nat option"
  crBuffer :: "u8 list"

definition ChecksumReader_new :: "(nat \<Rightarrow> u8 list) \<Rightarrow> nat \<Rightarrow> 'r \<Rightarrow> 'r checksum_reader" where
  "ChecksumReader_new fresh P rdr = \<lparr>crReader = rdr, crEntrySize = None, crBuffer = fresh P\<rparr>"

definition cr_read ::
  "(nat \<Rightarrow> u8 list) \<Rightarrow> ('r \<Rightarrow> nat \<Rightarrow> (u8 list \<times> 'r) res) \<Rightarrow> 'r checksum_reader \<Rightarrow> nat \<Rightarrow> (u8 list \<times> 'r checksum_reader) res" where
  "cr_read fresh rd r n =
     bindR (rd (crReader r) n) (\<lambda>(bs, rdr).
     let r = r\<lparr>crReader := rdr\<rparr> in
     case crEntrySize r of
       Some entrySize \<Rightarrow>
         bindR (copyInto (resizeBufferIfNeeded fresh (crBuffer r) (entrySize + n)) entrySize bs) (\<lambda>b.
         Inr (bs, r\<lparr>crBuffer := b, crEntrySize := Some (entrySize + n)\<rparr>))
     | None \<Rightarrow> Inr (bs, r))"

definition cr_finished :: "('r \<Rightarrow> bool) \<Rightarrow> 'r checksum_reader \<Rightarrow> bool" where
  "cr_finished fin r = fin (crReader r)"

definition cr_onObjectBegin :: "'r checksum_reader \<Rightarrow> 'r checksum_reader" where
  "cr_onObjectBegin r = r\<lparr>crEntrySize := Some 0\<rparr>"

definition checksumMismatch :: err where
  "checksumMismatch = StorageException ''Checksum verification failed, the WAL file is corrupted.''"

definition cr_onObjectEnd :: "('r \<Rightarrow> nat \<Rightarrow> (u8 list \<times> 'r) res) \<Rightarrow> 'r checksum_reader \<Rightarrow> 'r checksum_reader res" where
  "cr_onObjectEnd rd r =
     (case crEntrySize r of
        None \<Rightarrow> Inl AssertFail
      | Some entrySize \<Rightarrow>
          bindR (copyFromMem (crBuffer r) 0 entrySize) (\<lambda>entry.
          bindR (runQ rd u64Q (crReader r)) (\<lambda>(storedChecksum, rdr).
          if storedChecksum \<noteq> checksum entry then Inl checksumMismatch
          else Inr (r\<lparr>crReader := rdr, crEntrySize := None\<rparr>))))"

section \<open>Entries\<close>

text \<open>Writing one entry in pieces, and reading it in the same pieces.\<close>

definition writeEntry :: "(nat \<Rightarrow> u8 list) \<Rightarrow> checksum_writer \<Rightarrow> u8 list list \<Rightarrow> checksum_writer res" where
  "writeEntry fresh w pieces =
     bindR (foldR (\<lambda>bs w. cw_write fresh w bs) pieces (cw_onObjectBegin w)) cw_onObjectEnd"

definition readEntry ::
  "(nat \<Rightarrow> u8 list) \<Rightarrow> ('r \<Rightarrow> nat \<Rightarrow> (u8 list \<times> 'r) res) \<Rightarrow> 'r checksum_reader \<Rightarrow> nat list \<Rightarrow> (u8 list list \<times> 'r checksum_reader) res" where
  "readEntry fresh rd r ns =
     bindR (readPieces (cr_read fresh rd) (cr_onObjectBegin r) ns) (\<lambda>(bss, r).
     bindR (cr_onObjectEnd rd r) (\<lambda>r. Inr (bss, r)))"

text \<open>
  Reading one object of the log by a program: with checksums (\<open>chk\<close>) through a
  \<^verbatim>\<open>ChecksumReader\<close> as an entry, otherwise through the reader below, which has no entries.
\<close>

definition readObject ::
  "(nat \<Rightarrow> u8 list) \<Rightarrow> ('r \<Rightarrow> nat \<Rightarrow> (u8 list \<times> 'r) res) \<Rightarrow> bool \<Rightarrow> 'a read_program \<Rightarrow> 'r checksum_reader \<Rightarrow> ('a \<times> 'r checksum_reader) res" where
  "readObject fresh rd chk q r =
     bindR (runQ (cr_read fresh rd) q (if chk then cr_onObjectBegin r else r)) (\<lambda>(x, r).
     bindR (if chk then cr_onObjectEnd rd r else Inr r) (\<lambda>r. Inr (x, r)))"

text \<open>Writing one object of the log in pieces, likewise.\<close>

definition writeObject :: "(nat \<Rightarrow> u8 list) \<Rightarrow> bool \<Rightarrow> u8 list list \<Rightarrow> checksum_writer \<Rightarrow> checksum_writer res" where
  "writeObject fresh chk pieces w =
     (if chk then writeEntry fresh w pieces else foldR (\<lambda>bs w. cw_write fresh w bs) pieces w)"

lemma write_pieces:
  assumes "cwEntrySize w = Some (length acc)" "take (length acc) (cwBuffer w) = acc"
    and "length acc + length (concat pieces) \<le> length (cwBuffer w)"
  shows "\<exists>w'. foldR (\<lambda>bs w. cw_write fresh w bs) pieces w = Inr w'
    \<and> cwEntrySize w' = Some (length (acc @ concat pieces))
    \<and> take (length (acc @ concat pieces)) (cwBuffer w') = acc @ concat pieces
    \<and> cwOutput w' = cwOutput w \<and> length (cwBuffer w') = length (cwBuffer w)"
  using assms
proof (induction pieces arbitrary: w acc)
  case Nil
  then show ?case by simp
next
  case (Cons bs pieces)
  define w1 where "w1 = w\<lparr>cwBuffer := acc @ bs @ drop (length acc + length bs) (cwBuffer w),
      cwEntrySize := Some (length (acc @ bs))\<rparr>"
  have "cw_write fresh w bs = Inr w1"
    using Cons.prems by (simp add: cw_write_def resizeBufferIfNeeded_def copyInto_def w1_def)
  moreover have "length (cwBuffer w1) = length (cwBuffer w)" using Cons.prems by (simp add: w1_def)
  moreover have "\<exists>w'. foldR (\<lambda>bs w. cw_write fresh w bs) pieces w1 = Inr w'
      \<and> cwEntrySize w' = Some (length ((acc @ bs) @ concat pieces))
      \<and> take (length ((acc @ bs) @ concat pieces)) (cwBuffer w') = (acc @ bs) @ concat pieces
      \<and> cwOutput w' = cwOutput w1 \<and> length (cwBuffer w') = length (cwBuffer w1)"
    using Cons.prems by (intro Cons.IH) (auto simp: w1_def)
  ultimately show ?case by (auto simp: w1_def)
qed

text \<open>The bytes of an entry in the log.\<close>

definition entryBytes :: "u8 list \<Rightarrow> u8 list" where
  "entryBytes entry = entry @ serializeU64 (checksum entry)"

lemma writeEntry_ok:
  assumes "length (concat pieces) \<le> length (cwBuffer w)"
  shows "\<exists>w'. writeEntry fresh w pieces = Inr w' \<and> cwOutput w' = cwOutput w @ entryBytes (concat pieces)
    \<and> length (cwBuffer w') = length (cwBuffer w)"
proof -
  obtain w1 where w1: "foldR (\<lambda>bs w. cw_write fresh w bs) pieces (cw_onObjectBegin w) = Inr w1"
      "cwEntrySize w1 = Some (length (concat pieces))"
      "take (length (concat pieces)) (cwBuffer w1) = concat pieces" "cwOutput w1 = cwOutput w"
      "length (cwBuffer w1) = length (cwBuffer w)"
    using write_pieces [of "cw_onObjectBegin w" "[]" pieces fresh] assms by (auto simp: cw_onObjectBegin_def)
  then show ?thesis
    using assms by (simp add: writeEntry_def cw_onObjectEnd_def copyFromMem_def entryBytes_def)
qed

text \<open>An object that fits the buffer is written as its bytes, with its checksum behind it.\<close>

definition frameEntry :: "bool \<Rightarrow> u8 list \<Rightarrow> u8 list" where
  "frameEntry chk entry = (if chk then entryBytes entry else entry)"

lemma writeObject_ok:
  assumes "length (concat pieces) \<le> length (cwBuffer w)" "cwEntrySize w = None"
  shows "\<exists>w'. writeObject fresh chk pieces w = Inr w' \<and> cwOutput w' = cwOutput w @ frameEntry chk (concat pieces)
    \<and> length (cwBuffer w') = length (cwBuffer w) \<and> cwEntrySize w' = None"
proof (cases chk)
  case True
  obtain w' where w': "writeEntry fresh w pieces = Inr w'" "cwOutput w' = cwOutput w @ entryBytes (concat pieces)"
      "length (cwBuffer w') = length (cwBuffer w)"
    using writeEntry_ok [OF assms(1)] by blast
  then have "cwEntrySize w' = None" by (auto simp: writeEntry_def cw_onObjectEnd_def split: option.splits)
  then show ?thesis using True w' by (simp add: writeObject_def frameEntry_def)
next
  case False
  have "foldR (\<lambda>bs w. cw_write fresh w bs) pieces w = Inr (w\<lparr>cwOutput := cwOutput w @ concat pieces\<rparr>)" if "cwEntrySize w = None" for w
    using that by (induction pieces arbitrary: w) (simp_all add: cw_write_def)
  then show ?thesis using False assms(2) by (simp add: writeObject_def frameEntry_def)
qed

lemma length_concat_member: "bs \<in> set pieces \<Longrightarrow> length bs \<le> length (concat pieces)"
  by (induction pieces) auto

context bounded_reader
begin

lemma cr_read_entry:
  assumes "ok (crReader r)" "n \<le> bound" "n \<le> length (unread (crReader r))"
    and "crEntrySize r = Some (length acc)" "take (length acc) (crBuffer r) = acc" "length acc + n \<le> length (crBuffer r)"
  defines "bs \<equiv> take n (unread (crReader r))"
  shows "\<exists>r'. cr_read fresh rd r n = Inr (bs, r') \<and> ok (crReader r') \<and> unread (crReader r') = drop n (unread (crReader r))
    \<and> crEntrySize r' = Some (length (acc @ bs)) \<and> take (length (acc @ bs)) (crBuffer r') = acc @ bs \<and> length (crBuffer r') = length (crBuffer r)"
proof -
  obtain rdr where rdr: "rd (crReader r) n = Inr (bs, rdr)" "ok rdr" "unread rdr = drop n (unread (crReader r))"
    using read_within [OF assms(1-3)] by (auto simp: bs_def)
  have len: "length bs = n" using assms(3) by (simp add: bs_def)
  have "cr_read fresh rd r n = Inr (bs, r\<lparr>crReader := rdr, crBuffer := acc @ bs @ drop (length acc + n) (crBuffer r),
      crEntrySize := Some (length acc + n)\<rparr>)"
    using rdr assms(4-6) len by (simp add: cr_read_def resizeBufferIfNeeded_def copyInto_def)
  then show ?thesis using rdr assms(6) len by simp
qed

lemma cr_read_plain:
  assumes "ok (crReader r)" "n \<le> bound" "n \<le> length (unread (crReader r))" "crEntrySize r = None"
  shows "\<exists>rdr. cr_read fresh rd r n = Inr (take n (unread (crReader r)), r\<lparr>crReader := rdr\<rparr>) \<and> ok rdr \<and> unread rdr = drop n (unread (crReader r))"
  using read_within [OF assms(1-3)] assms(4) by (auto simp: cr_read_def)

text \<open>Pieces of an entry that fits the buffer.\<close>

lemma read_pieces:
  assumes "ok (crReader r)" "crEntrySize r = Some (length acc)" "take (length acc) (crBuffer r) = acc"
    and "length acc + length (concat pieces) \<le> length (crBuffer r)" "unread (crReader r) = concat pieces @ rest"
    and "\<forall>bs \<in> set pieces. length bs \<le> bound"
  shows "\<exists>r'. readPieces (cr_read fresh rd) r (map length pieces) = Inr (pieces, r') \<and> ok (crReader r')
    \<and> crEntrySize r' = Some (length (acc @ concat pieces))
    \<and> take (length (acc @ concat pieces)) (crBuffer r') = acc @ concat pieces
    \<and> unread (crReader r') = rest \<and> length (crBuffer r') = length (crBuffer r)"
  using assms
proof (induction pieces arbitrary: r acc)
  case Nil
  then show ?case by simp
next
  case (Cons bs pieces)
  obtain r1 where r1: "cr_read fresh rd r (length bs) = Inr (bs, r1)" "ok (crReader r1)" "unread (crReader r1) = concat pieces @ rest"
      "crEntrySize r1 = Some (length (acc @ bs))" "take (length (acc @ bs)) (crBuffer r1) = acc @ bs"
      "length (crBuffer r1) = length (crBuffer r)"
    using cr_read_entry [OF Cons.prems(1), of "length bs" acc fresh] Cons.prems by auto
  obtain r' where "readPieces (cr_read fresh rd) r1 (map length pieces) = Inr (pieces, r') \<and> ok (crReader r')
      \<and> crEntrySize r' = Some (length ((acc @ bs) @ concat pieces))
      \<and> take (length ((acc @ bs) @ concat pieces)) (crBuffer r') = (acc @ bs) @ concat pieces
      \<and> unread (crReader r') = rest \<and> length (crBuffer r') = length (crBuffer r1)"
    using Cons.IH [OF r1(2,4,5) _ r1(3)] Cons.prems(4,6) r1(6) by auto
  then show ?case using r1(1,6) by simp
qed

text \<open>A program whose entry fits the buffer.\<close>

lemma run_entry:
  "ok (crReader r) \<Longrightarrow> unread (crReader r) = used @ rest \<Longrightarrow> onList q (used @ rest) = Inr (x, rest) \<Longrightarrow> length used \<le> bound \<Longrightarrow>
    crEntrySize r = Some (length acc) \<Longrightarrow> take (length acc) (crBuffer r) = acc \<Longrightarrow> length acc + length used \<le> length (crBuffer r) \<Longrightarrow>
    \<exists>r'. runQ (cr_read fresh rd) q r = Inr (x, r') \<and> ok (crReader r') \<and> unread (crReader r') = rest
      \<and> crEntrySize r' = Some (length (acc @ used)) \<and> take (length (acc @ used)) (crBuffer r') = acc @ used
      \<and> length (crBuffer r') = length (crBuffer r)"
proof (induction q arbitrary: r used acc)
  case (ReadQ n k)
  have n: "n \<le> length (used @ rest)" using ReadQ.prems(3) by (simp add: readBytes_def split: if_splits)
  have left: "onList (k (take n (used @ rest))) (drop n (used @ rest)) = Inr (x, rest)"
    using ReadQ.prems(3) n by (simp add: readBytes_def del: take_append drop_append)
  obtain used' where used': "drop n (used @ rest) = used' @ rest" using onList_used [OF left] by blast
  then have "length (used @ rest) - n = length used' + length rest" by (metis length_append length_drop)
  then have n': "n + length used' = length used" using n by simp
  then have front: "take n (used @ rest) = take n used" "used = take n used @ used'" using used' by auto
  let ?bs = "take n used"
  obtain r1 where r1: "cr_read fresh rd r n = Inr (?bs, r1)" "ok (crReader r1)" "unread (crReader r1) = used' @ rest"
      "crEntrySize r1 = Some (length (acc @ ?bs))" "take (length (acc @ ?bs)) (crBuffer r1) = acc @ ?bs" "length (crBuffer r1) = length (crBuffer r)"
    using cr_read_entry [OF ReadQ.prems(1), of n acc fresh] ReadQ.prems(2,4-7) n n' front(1) used' by auto
  have "\<exists>r'. runQ (cr_read fresh rd) (k ?bs) r1 = Inr (x, r') \<and> ok (crReader r') \<and> unread (crReader r') = rest
      \<and> crEntrySize r' = Some (length ((acc @ ?bs) @ used')) \<and> take (length ((acc @ ?bs) @ used')) (crBuffer r') = (acc @ ?bs) @ used'
      \<and> length (crBuffer r') = length (crBuffer r1)"
    using left front(1) used' ReadQ.prems(4,7) n' r1(6) by (intro ReadQ.IH [OF rangeI r1(2,3) _ _ r1(4,5)]) auto
  then show ?case using r1(1,6) front(2) by auto
qed auto

lemma run_plain:
  "ok (crReader r) \<Longrightarrow> unread (crReader r) = used @ rest \<Longrightarrow> onList q (used @ rest) = Inr (x, rest) \<Longrightarrow> length used \<le> bound \<Longrightarrow>
    crEntrySize r = None \<Longrightarrow> \<exists>rdr. runQ (cr_read fresh rd) q r = Inr (x, r\<lparr>crReader := rdr\<rparr>) \<and> ok rdr \<and> unread rdr = rest"
proof -
  assume r: "ok (crReader r)" "unread (crReader r) = used @ rest" "onList q (used @ rest) = Inr (x, rest)" "length used \<le> bound" "crEntrySize r = None"
  have "runQ (cr_read fresh rd) q r = bindR (runQ rd q (crReader r)) (\<lambda>(x, rdr). Inr (x, r\<lparr>crReader := rdr\<rparr>))" if "crEntrySize r = None" for r
    using that
  proof (induction q arbitrary: r)
    case (ReadQ n k)
    then show ?case by (cases "rd (crReader r) n") (auto simp: cr_read_def)
  qed simp_all
  then show ?thesis using run_within [OF r(1-4)] r(5) by auto
qed

end

text \<open>An object that fits the buffer is read with its checksum, whatever follows it.\<close>

context bounded_reader
begin

lemma cr_onObjectEnd_ok:
  assumes "ok (crReader r)" "unread (crReader r) = serializeU64 (checksum entry) @ rest" "8 \<le> bound"
    and "crEntrySize r = Some (length entry)" "take (length entry) (crBuffer r) = entry" "length entry \<le> length (crBuffer r)"
  shows "\<exists>rdr. cr_onObjectEnd rd r = Inr (r\<lparr>crReader := rdr, crEntrySize := None\<rparr>) \<and> ok rdr \<and> unread rdr = rest"
proof -
  have "length (serializeU64 (checksum entry)) = 8" by (simp add: serializeU64_def)
  then obtain rdr where "runQ rd u64Q (crReader r) = Inr (checksum entry, rdr)" "ok rdr" "unread rdr = rest"
    using run_within [OF assms(1,2), of u64Q "checksum entry"] assms(3) by (auto simp: ser_u64.round_trip)
  then show ?thesis using assms(4-6) by (intro exI [of _ rdr]) (simp add: cr_onObjectEnd_def)
qed

lemma readObject_ok:
  assumes "ok (crReader r)" "unread (crReader r) = frameEntry chk used @ rest" "onList q used = Inr (x, [])" "length used \<le> bound" "8 \<le> bound"
    and "crEntrySize r = None" "length used \<le> length (crBuffer r)"
  shows "\<exists>r'. readObject fresh rd chk q r = Inr (x, r') \<and> ok (crReader r') \<and> unread (crReader r') = rest
    \<and> crEntrySize r' = None \<and> length (crBuffer r') = length (crBuffer r)"
proof (cases chk)
  case True
  let ?c = "serializeU64 (checksum used) @ rest"
  have q: "onList q (used @ ?c) = Inr (x, ?c)" using onList_prefix [of q used "[]"] assms(3) by simp
  obtain r1 where r1: "runQ (cr_read fresh rd) q (cr_onObjectBegin r) = Inr (x, r1)" "ok (crReader r1)" "unread (crReader r1) = ?c"
      "crEntrySize r1 = Some (length used)" "take (length used) (crBuffer r1) = used" "length (crBuffer r1) = length (crBuffer r)"
    using run_entry [of "cr_onObjectBegin r" used ?c q x "[]" fresh] assms q True
    by (auto simp: cr_onObjectBegin_def frameEntry_def entryBytes_def)
  then show ?thesis using cr_onObjectEnd_ok [OF r1(2,3) assms(5) r1(4,5)] assms(7) True by (auto simp: readObject_def)
next
  case False
  have "onList q (used @ rest) = Inr (x, rest)" using onList_prefix [of q used "[]"] assms(3) by simp
  then show ?thesis using run_plain [OF assms(1), of used rest q x fresh] assms(2,4,6) False by (auto simp: readObject_def frameEntry_def)
qed

end

text \<open>An object of which some bytes are missing at the end of the file is not read.\<close>

context ending_reader
begin

lemma run_torn_entry:
  "ok (crReader r) \<Longrightarrow> atEnd (crReader r) \<Longrightarrow> onList q (unread (crReader r) @ missing) = Inr (x, []) \<Longrightarrow> missing \<noteq> [] \<Longrightarrow>
    length (unread (crReader r) @ missing) \<le> bound \<Longrightarrow> \<exists>e. runQ (cr_read fresh rd) q r = Inl e"
proof (induction q arbitrary: r)
  case (ReadQ n k)
  have n: "n \<le> bound" using ReadQ.prems(3,5) by (simp add: readBytes_def split: if_splits)
  show ?case
  proof (cases "n \<le> length (unread (crReader r))")
    case True
    obtain rdr where rdr: "rd (crReader r) n = Inr (take n (unread (crReader r)), rdr)" "ok rdr" "unread rdr = drop n (unread (crReader r))"
      using read_within [OF ReadQ.prems(1) n True] by blast
    have left: "onList (k (take n (unread (crReader r)))) (unread rdr @ missing) = Inr (x, [])"
      using ReadQ.prems(3) True rdr(3) by (simp add: readBytes_def)
    show ?thesis
    proof (cases "cr_read fresh rd r n")
      case (Inr p)
      then obtain r' where p: "p = (take n (unread (crReader r)), r')" "crReader r' = rdr"
        using rdr(1) by (auto simp: cr_read_def Let_def split: option.splits)
      have "\<exists>e. runQ (cr_read fresh rd) (k (take n (unread (crReader r)))) r' = Inl e"
        using ReadQ.IH [OF rangeI, of r'] rdr(2,3) left p(2) ReadQ.prems(4,5) atEnd_kept [OF ReadQ.prems(1,2) n rdr(1)] by simp
      then show ?thesis using Inr p(1) by auto
    qed simp
  next
    case False
    then obtain e where "rd (crReader r) n = Inl e" using atEnd_throws [OF ReadQ.prems(1,2) n] by auto
    then show ?thesis by (simp add: cr_read_def)
  qed
qed auto

lemma run_keeps_end:
  "ok (crReader r) \<Longrightarrow> atEnd (crReader r) \<Longrightarrow> unread (crReader r) = used @ rest \<Longrightarrow> onList q (used @ rest) = Inr (x, rest) \<Longrightarrow>
    length used \<le> bound \<Longrightarrow> runQ (cr_read fresh rd) q r = Inr (y, r') \<Longrightarrow> ok (crReader r') \<and> atEnd (crReader r') \<and> unread (crReader r') = rest"
proof (induction q arbitrary: r used)
  case (ReadQ n k)
  have n: "n \<le> length (used @ rest)" using ReadQ.prems(4) by (simp add: readBytes_def split: if_splits)
  have left: "onList (k (take n (used @ rest))) (drop n (used @ rest)) = Inr (x, rest)"
    using ReadQ.prems(4) n by (simp add: readBytes_def del: take_append drop_append)
  obtain used' where used': "drop n (used @ rest) = used' @ rest" using onList_used [OF left] by blast
  then have "length (used @ rest) - n = length used' + length rest" by (metis length_append length_drop)
  then have n': "n \<le> bound" "length used' \<le> bound" using n ReadQ.prems(5) by simp_all
  obtain rdr where rdr: "rd (crReader r) n = Inr (take n (used @ rest), rdr)" "ok rdr" "unread rdr = used' @ rest"
    using read_within [OF ReadQ.prems(1) n'(1)] n ReadQ.prems(3) used' by auto
  obtain r1 where r1: "cr_read fresh rd r n = Inr (take n (used @ rest), r1)" "runQ (cr_read fresh rd) (k (take n (used @ rest))) r1 = Inr (y, r')" "crReader r1 = rdr"
  proof -
    obtain bs r1 where *: "cr_read fresh rd r n = Inr (bs, r1)" "runQ (cr_read fresh rd) (k bs) r1 = Inr (y, r')"
      using ReadQ.prems(6) by auto
    moreover have "bs = take n (used @ rest)" "crReader r1 = rdr"
      using *(1) rdr(1) by (auto simp: cr_read_def Let_def split: option.splits)
    ultimately show ?thesis using that by blast
  qed
  show ?case
    using ReadQ.IH [OF rangeI _ _ _ _ n'(2) r1(2)] rdr(2,3) r1(3) atEnd_kept [OF ReadQ.prems(1,2) n'(1) rdr(1)] left used' by simp
qed auto

lemma readObject_torn:
  assumes r: "ok (crReader r)" "atEnd (crReader r)" and "frameEntry chk entry = unread (crReader r) @ missing" "missing \<noteq> []"
    and "onList q entry = Inr (x, [])" "length entry \<le> bound" "8 \<le> bound"
  shows "\<exists>e. readObject fresh rd chk q r = Inl e"
proof (cases "length entry \<le> length (unread (crReader r)) \<and> chk")
  case False
  then have "\<exists>m. entry = unread (crReader r) @ m \<and> m \<noteq> []"
    using assms(3,4) by (auto simp: frameEntry_def entryBytes_def append_eq_append_conv2 split: if_splits)
      (metis le_add1 length_append)
  then obtain m where m: "entry = unread (crReader r) @ m" "m \<noteq> []" by blast
  let ?r = "if chk then cr_onObjectBegin r else r"
  have "crReader ?r = crReader r" by (simp add: cr_onObjectBegin_def)
  then have "\<exists>e. runQ (cr_read fresh rd) q ?r = Inl e"
    using run_torn_entry [of ?r q m x fresh] r m assms(5,6) by simp
  then show ?thesis by (auto simp: readObject_def)
next
  case True
  let ?r = "cr_onObjectBegin r"
  have cr: "crReader ?r = crReader r" by (simp add: cr_onObjectBegin_def)
  obtain part where part: "unread (crReader r) = entry @ part" "serializeU64 (checksum entry) = part @ missing"
    using assms(3) True by (auto simp: frameEntry_def entryBytes_def append_eq_append_conv2 eq_commute [of "unread (crReader r)"])
  have "0 < length missing" using assms(4) by simp
  then have short: "length part < 8" using arg_cong [OF part(2), of length] unfolding serializeU64_def length_leBytes length_append by linarith
  have q: "onList q (entry @ part) = Inr (x, part)" using onList_prefix [of q entry "[]"] assms(5) by simp
  show ?thesis
  proof (cases "runQ (cr_read fresh rd) q ?r")
    case (Inr p)
    obtain y r' where p: "p = (y, r')" by (cases p)
    have r': "ok (crReader r')" "atEnd (crReader r')" "unread (crReader r') = part"
      using run_keeps_end [of ?r entry part q x fresh y r'] r part(1) q assms(6) Inr p cr by simp_all
    obtain e where "rd (crReader r') 8 = Inl e" using atEnd_throws [OF r'(1,2) assms(7)] r'(3) short by auto
    then have "\<exists>e. cr_onObjectEnd rd r' = Inl e"
      by (cases "crEntrySize r'"; cases "copyFromMem (crBuffer r') 0 (the (crEntrySize r'))") (auto simp: cr_onObjectEnd_def u64Q_def)
    then show ?thesis using Inr p True by (auto simp: readObject_def)
  qed (use True in \<open>simp add: readObject_def\<close>)
qed

end

text \<open>
  C27. Checksummed entries of at most the size of the buffers come back: writing an entry in pieces
  appends its bytes and their checksum to the output, and a reader at that place of a file that reads pieces
  of the same sizes gets them, accepts the checksum and stands at the end of the entry.
\<close>

theorem entry_round_trip:
  assumes "length (concat pieces) \<le> length (cwBuffer w)" "length (concat pieces) \<le> length (crBuffer r)"
    and "fr_ok P (crReader r)" "fr_unread (crReader r) = entryBytes (concat pieces) @ rest"
  shows "\<exists>w' r'. writeEntry fresh w pieces = Inr w' \<and> cwOutput w' = cwOutput w @ entryBytes (concat pieces)
    \<and> readEntry fresh (fr_read P) r (map length pieces) = Inr (pieces, r') \<and> fr_unread (crReader r') = rest"
proof -
  let ?c = "serializeU64 (checksum (concat pieces)) @ rest"
  obtain r1 where r1: "readPieces (cr_read fresh (fr_read P)) (cr_onObjectBegin r) (map length pieces) = Inr (pieces, r1)"
      "fr_ok P (crReader r1)" "crEntrySize r1 = Some (length (concat pieces))" "take (length (concat pieces)) (crBuffer r1) = concat pieces"
      "fr_unread (crReader r1) = ?c" "length (crBuffer r1) = length (crBuffer r)"
    using file_reader.within.read_pieces [where r = "cr_onObjectBegin r" and acc = "[]" and pieces = pieces and rest = ?c and P = P
        and bound = "length (concat pieces)" and fresh = fresh] assms(2-4)
    by (auto simp: cr_onObjectBegin_def entryBytes_def dest: length_concat_member)
  obtain rdr where "cr_onObjectEnd (fr_read P) r1 = Inr (r1\<lparr>crReader := rdr, crEntrySize := None\<rparr>)" "fr_unread rdr = rest"
    using file_reader.within.cr_onObjectEnd_ok [OF r1(2,5) _ r1(3,4), of 8] assms(2) r1(6) by auto
  then have "readEntry fresh (fr_read P) r (map length pieces) = Inr (pieces, r1\<lparr>crReader := rdr, crEntrySize := None\<rparr>)"
    using r1(1) by (simp add: readEntry_def)
  then show ?thesis using writeEntry_ok [OF assms(1), of fresh] \<open>fr_unread rdr = rest\<close> by auto
qed

theorem entry_round_trip_witness:
  "\<exists>w' r'. writeEntry (\<lambda>n. replicate n 0) (ChecksumWriter_new (\<lambda>n. replicate n 0) 8) [[1, 2], [3]] = Inr w'
    \<and> cwOutput w' = cwOutput (ChecksumWriter_new (\<lambda>n. replicate n 0) 8) @ entryBytes (concat [[1, 2], [3]])
    \<and> readEntry (\<lambda>n. replicate n 0) (fr_read 4)
        (ChecksumReader_new (\<lambda>n. replicate n 0) 8 (projr (BufferedFileReader_new 4 (entryBytes [1, 2, 3] @ [9]))))
        (map length [[1, 2], [3 :: u8]]) = Inr ([[1, 2], [3]], r') \<and> fr_unread (crReader r') = [9]"
proof (rule entry_round_trip)
  obtain r where r: "BufferedFileReader_new 4 (entryBytes [1, 2, 3] @ [9]) = Inr r" "fr_ok 4 r" "fr_unread r = entryBytes [1, 2, 3] @ [9]"
    using fr_new_ok [of 4 "entryBytes [1, 2, 3] @ [9]"] by auto
  let ?r = "ChecksumReader_new (\<lambda>n. replicate n 0) 8 (projr (BufferedFileReader_new 4 (entryBytes [1, 2, 3] @ [9])))"
  show "fr_ok 4 (crReader ?r)" "fr_unread (crReader ?r) = entryBytes (concat [[1, 2], [3]]) @ [9]"
    "length (concat [[1, 2], [3]]) \<le> length (crBuffer ?r)" using r by (simp_all add: ChecksumReader_new_def)
qed (simp add: ChecksumWriter_new_def)

lemma bit_ceil_from_ge: "0 < p \<Longrightarrow> n \<le> bit_ceil_from p n"
proof (induction p n rule: bit_ceil_from.induct)
  case (1 p n)
  then show ?case by (cases "n \<le> p") (simp_all add: bit_ceil_from.simps [of p n])
qed

lemma bit_ceil_ge: "n \<le> bit_ceil n"
  by (simp add: bit_ceil_def bit_ceil_from_ge)

text \<open>
  C28. An entry that outgrows the buffer of the checksum writer is not written as it was given. Making
  room allocates a larger buffer and does not copy what the entry has so far, so the first piece is
  lost: the bytes that reach the output in its place are what the new buffer happened to contain,
  and the checksum is that of the wrong bytes.
\<close>

theorem long_entry_loses_first_piece:
  assumes "\<forall>n. length (fresh n) = n" "length a \<le> length (cwBuffer w)" "length (cwBuffer w) < length a + length b"
  shows "\<exists>w'. writeEntry fresh w [a, b] = Inr w'
    \<and> cwOutput w' = cwOutput w @ entryBytes (take (length a) (fresh (bit_ceil (length a + length b))) @ b)"
proof -
  let ?n = "length a + length b"
  let ?buf = "fresh (bit_ceil ?n)"
  define w1 where "w1 = w\<lparr>cwBuffer := a @ drop (length a) (cwBuffer w), cwEntrySize := Some (length a)\<rparr>"
  define w2 where "w2 = w1\<lparr>cwBuffer := take (length a) ?buf @ b @ drop ?n ?buf, cwEntrySize := Some ?n\<rparr>"
  have buf: "length ?buf = bit_ceil ?n" "?n \<le> bit_ceil ?n" using assms(1) bit_ceil_ge by auto
  have "cw_write fresh (cw_onObjectBegin w) a = Inr w1"
    using assms(2) by (simp add: cw_write_def cw_onObjectBegin_def resizeBufferIfNeeded_def copyInto_def w1_def)
  moreover have "cw_write fresh w1 b = Inr w2"
    using assms(2,3) buf by (simp add: cw_write_def resizeBufferIfNeeded_def copyInto_def w1_def w2_def)
  moreover have "take ?n (cwBuffer w2) = take (length a) ?buf @ b" "?n \<le> length (cwBuffer w2)"
    using buf by (simp_all add: w2_def)
  ultimately show ?thesis
    by (simp add: writeEntry_def cw_onObjectEnd_def copyFromMem_def entryBytes_def w2_def w1_def)
qed

theorem long_entry_loses_first_piece_witness:
  "\<exists>w'. writeEntry (\<lambda>n. replicate n 7) (ChecksumWriter_new (\<lambda>n. replicate n 7) 4) [[1, 2], [3, 4, 5]] = Inr w'
    \<and> cwOutput w' = cwOutput (ChecksumWriter_new (\<lambda>n. replicate n 7) 4)
        @ entryBytes (take (length [1, 2 :: u8]) (replicate (bit_ceil (length [1, 2 :: u8] + length [3, 4, 5 :: u8])) 7) @ [3, 4, 5])"
  by (rule long_entry_loses_first_piece [of "\<lambda>n. replicate n 7"]) (simp_all add: ChecksumWriter_new_def)

section \<open>What the checksum detects\<close>

lemma fold_xor: "fold (\<lambda>i r. r XOR f i) xs a = a XOR fold (\<lambda>i r. r XOR f i) xs (0 :: u64)"
proof (induction xs arbitrary: a)
  case Nil
  then show ?case by simp
next
  case (Cons x xs)
  show ?case using Cons [of "a XOR f x"] Cons [of "f x"] by (simp add: xor.assoc)
qed

lemma xor_cancel:
  fixes b x y c :: u64
  shows "x XOR c = y XOR c \<Longrightarrow> x = y" and "(b XOR x) XOR c = (b XOR y) XOR c \<Longrightarrow> x = y"
proof -
  have right: "x = y" if "x XOR c = y XOR c" for x y c :: u64
  proof (rule bit_word_eqI)
    fix i
    from that have "bit (x XOR c) i = bit (y XOR c) i" by simp
    then show "bit x i = bit y i" by (auto simp: bit_xor_iff)
  qed
  then show "x XOR c = y XOR c \<Longrightarrow> x = y" .
  assume "(b XOR x) XOR c = (b XOR y) XOR c"
  then have "x XOR b = y XOR b" using right [of "b XOR x" c "b XOR y"] by (simp add: xor.commute)
  then show "x = y" by (rule right)
qed

lemma fold_xor_change:
  fixes f g :: "nat \<Rightarrow> u64"
  assumes "k < n" "\<And>i. i < n \<Longrightarrow> i \<noteq> k \<Longrightarrow> f i = g i"
    and "fold (\<lambda>i r. r XOR f i) [0..<n] a = fold (\<lambda>i r. r XOR g i) [0..<n] a"
  shows "f k = g k"
proof -
  have split: "[0..<n] = [0..<k] @ k # [Suc k..<n]"
    using assms(1) by (metis append_Cons append_Nil upt_add_eq_append upt_conv_Cons le_add1 le_Suc_ex less_imp_le zero_le)
  have pre: "fold (\<lambda>i r. r XOR f i) [0..<k] a = fold (\<lambda>i r. r XOR g i) [0..<k] a" for a
    using assms(1,2) by (intro fold_cong) auto
  have post: "fold (\<lambda>i r. r XOR f i) [Suc k..<n] a = fold (\<lambda>i r. r XOR g i) [Suc k..<n] a" for a
    using assms(2) by (intro fold_cong) auto
  have "fold (\<lambda>i r. r XOR g i) [Suc k..<n] (b XOR f k) = fold (\<lambda>i r. r XOR g i) [Suc k..<n] (b XOR g k)"
    if "b = fold (\<lambda>i r. r XOR g i) [0..<k] a" for b
    using assms(3) that unfolding split fold_append fold_Cons comp_def pre post by simp
  then show ?thesis
    using fold_xor [of g "[Suc k..<n]" "x XOR f k" for x] fold_xor [of g "[Suc k..<n]" "x XOR g k" for x]
      xor_cancel(2) by simp
qed

lemma checksumWord_inj:
  assumes "checksumWord x = checksumWord y"
  shows "x = y"
proof -
  let ?c = "0xbf58476d1ce4e5b9 :: u64" and ?d = "0x96de1b173f119089 :: u64"
  have inverse: "?c * ?d = 1" by simp
  have "z = z * ?c * ?d" for z by (simp only: mult.assoc inverse mult_1_right)
  then show ?thesis using assms unfolding checksumWord_def by metis
qed

lemma leWord_inj:
  assumes "length xs = 8" "length ys = 8" "(leWord xs :: u64) = leWord ys"
  shows "xs = ys"
proof (rule nth_equalityI)
  fix i
  assume i: "i < length xs"
  show "xs ! i = ys ! i"
  proof (rule bit_word_eqI)
    fix j
    assume "j < LENGTH(8)"
    then have "(8 * i + j) div 8 = i" "(8 * i + j) mod 8 = j" "8 * i + j < 64" using i assms(1) by simp_all
    then show "bit (xs ! i) j = bit (ys ! i) j"
      using bit_leWord [of xs "8 * i + j", where 'a = 64] bit_leWord [of ys "8 * i + j", where 'a = 64] assms i
      by simp
  qed
qed (use assms in simp)

text \<open>
  The checksum detects every change that stays within one of its 64-bit words: two entries that
  differ in exactly one aligned group of eight bytes have different checksums, because the odd
  multiplier is invertible modulo \<open>2\<^sup>6\<^sup>4\<close>.
\<close>

theorem checksum_detects_word_change:
  assumes "length pre = 8 * k" "length x = 8" "length y = 8" "x \<noteq> y"
  shows "checksum (pre @ x @ post) \<noteq> checksum (pre @ y @ post)"
proof
  assume eq: "checksum (pre @ x @ post) = checksum (pre @ y @ post)"
  let ?xs = "pre @ x @ post" and ?ys = "pre @ y @ post"
  define n where "n = length ?xs div 8"
  have len: "length ?ys = length ?xs" using assms by simp
  have k: "k < n" using assms(1,2) by (simp add: n_def)
  have at: "wordAt ?xs i = wordAt ?ys i" if "i \<noteq> k" for i
  proof (cases "i < k")
    case True
    then have "i * 8 + 8 \<le> length pre" using assms(1) by simp
    then show ?thesis by (simp add: wordAt_def)
  next
    case False
    then have "8 * k + 8 \<le> i * 8" using that by simp
    then show ?thesis using assms by (simp add: wordAt_def)
  qed
  have tail: "drop (n * 8) ?xs = drop (n * 8) ?ys" using k assms by simp
  let ?f = "\<lambda>bs. fold (\<lambda>i r. r XOR checksumWord (wordAt bs i)) [0..<n] 5381"
  let ?c = "checksumRemainder (drop (n * 8) ?ys)"
  have "checksum ?xs = (if length ?xs - n * 8 > 0 then ?f ?xs XOR ?c else ?f ?xs)"
    unfolding checksum_def Let_def n_def [symmetric] tail ..
  moreover have "checksum ?ys = (if length ?xs - n * 8 > 0 then ?f ?ys XOR ?c else ?f ?ys)"
    unfolding checksum_def Let_def len n_def [symmetric] ..
  ultimately have "?f ?xs = ?f ?ys"
    using eq xor_cancel(1) [of "?f ?xs" ?c "?f ?ys"]
    by (cases "length ?xs - n * 8 > 0") (simp_all only: if_True if_False)
  then have "checksumWord (wordAt ?xs k) = checksumWord (wordAt ?ys k)"
    by (intro fold_xor_change [OF k, where f = "\<lambda>i. checksumWord (wordAt ?xs i)"
          and g = "\<lambda>i. checksumWord (wordAt ?ys i)" and a = 5381]) (simp_all only: at not_False_eq_True)
  then have "wordAt ?xs k = wordAt ?ys k" by (rule checksumWord_inj)
  moreover have "wordAt ?xs k = leWord x" "wordAt ?ys k = leWord y" using assms by (simp_all add: wordAt_def)
  ultimately show False using leWord_inj [OF assms(2,3)] assms(4) by simp
qed

theorem checksum_detects_word_change_witness:
  "checksum (replicate 8 1 @ replicate 8 2 @ [5]) \<noteq> checksum (replicate 8 1 @ replicate 8 3 @ [5])"
proof (rule checksum_detects_word_change)
  show "length (replicate 8 (1 :: u8)) = 8 * 1" by simp
  show "replicate 8 2 \<noteq> replicate 8 (3 :: u8)" by (simp add: replicate_eq_replicate)
qed simp_all

end
