(* ===== verification/Wal_Records.thy ===== *)
theory Wal_Records
  imports Read_Programs
begin

text \<open>
  The records of the write-ahead log: \<^verbatim>\<open>WALRecord\<close> and its subclasses
  (\<^verbatim>\<open>src/src/storage/wal/wal_record.cpp\<close>), written and read as bytes.

  Catalog entries, property definitions and value vectors occur in records through their own
  serialization, which the model takes as the parameters \<open>sE\<close>, \<open>dE\<close>, \<open>sP\<close>,
  \<open>dP\<close>, \<open>sV\<close> and \<open>dV\<close>; the contract the records rely on is that of the locale
  \<open>serializable\<close>. The readers are programs of \<open>Read_Programs\<close>, as the log is read through
  buffers to which the sizes of the reads matter. Enumerations are written as one byte and read without a check, so they are
  bytes in the model.
\<close>

section \<open>Readers in sequence\<close>

definition bindD :: "'a reader \<Rightarrow> ('a \<Rightarrow> 'b reader) \<Rightarrow> 'b reader" where
  "bindD d f bs = bindR (d bs) (\<lambda>(x, bs). f x bs)"

definition returnD :: "'a \<Rightarrow> 'a reader" where
  "returnD x bs = Inr (x, bs)"

definition expectTag :: "bool \<Rightarrow> string \<Rightarrow> unit reader" where
  "expectTag dbg s = validateDebuggingInfo dbg (tag s)"

definition writeTag :: "bool \<Rightarrow> string \<Rightarrow> u8 list" where
  "writeTag dbg s = writeDebuggingInfo dbg (tag s)"

lemma tag_round_trip: "length s < 100 \<Longrightarrow> expectTag dbg s (writeTag dbg s @ rest) = Inr ((), rest)"
  by (simp add: expectTag_def writeTag_def debugging_info_round_trip tag_def)

section \<open>Records\<close>

text \<open>
  A change of a table (\<^verbatim>\<open>BoundAlterInfo\<close> and \<^verbatim>\<open>BoundExtraAlterInfo\<close>). The bound default value of
  an added property, an expression of a type \<open>'x\<close>, and the action on a conflict, the last argument of
  \<open>AlterTableEntryRecord\<close>, are not written to the log; reading leaves the one empty and the other at its default.
\<close>

datatype ('p, 'x) alter_info =
    AddProperty 'p "'x option"
  | DropProperty "u8 list"
  | RenameProperty "u8 list" "u8 list"
  | Comment "u8 list"
  | RenameTable "u8 list"
  | AddFromToConnection u64 u64
  | DropFromToConnection u64 u64

datatype ('e, 'p, 'x, 'v) wal_record =
    BeginTransactionRecord
  | CommitRecord
  | CheckpointRecord
  | CreateCatalogEntryRecord 'e bool
  | CopyTableRecord u64
  | DropCatalogEntryRecord u64 u8
  | AlterTableEntryRecord "u8 list" "('p, 'x) alter_info" u8
  | UpdateSequenceRecord u64 u64
  | TableInsertionRecord u64 u8 u64 "'v list"
  | NodeDeletionRecord u64 u64 'v
  | NodeUpdateRecord u64 u32 u64 'v
  | RelDeletionRecord u64 'v 'v 'v
  | RelDetachDeleteRecord u64 u8 'v
  | RelUpdateRecord u64 u32 'v 'v 'v 'v
  | LoadExtensionRecord "u8 list"

fun recordType :: "('e, 'p, 'x, 'v) wal_record \<Rightarrow> u8" where
  "recordType BeginTransactionRecord = 1"
| "recordType CommitRecord = 2"
| "recordType (CopyTableRecord _) = 13"
| "recordType (CreateCatalogEntryRecord _ _) = 14"
| "recordType (DropCatalogEntryRecord _ _) = 16"
| "recordType (AlterTableEntryRecord _ _ _) = 17"
| "recordType (UpdateSequenceRecord _ _) = 18"
| "recordType (TableInsertionRecord _ _ _ _) = 30"
| "recordType (NodeDeletionRecord _ _ _) = 31"
| "recordType (NodeUpdateRecord _ _ _ _) = 32"
| "recordType (RelDeletionRecord _ _ _ _) = 33"
| "recordType (RelDetachDeleteRecord _ _ _) = 34"
| "recordType (RelUpdateRecord _ _ _ _ _ _) = 35"
| "recordType (LoadExtensionRecord _) = 100"
| "recordType CheckpointRecord = 254"

definition onConflictThrow :: u8 where
  "onConflictThrow = 0"

definition serializeType :: "bool \<Rightarrow> u8 \<Rightarrow> u8 list" where
  "serializeType dbg ty = writeTag dbg ''type'' @ serializeU8 ty"

section \<open>Catalog records\<close>

definition serializeCreateCatalogEntry :: "('e \<Rightarrow> u8 list) \<Rightarrow> bool \<Rightarrow> 'e \<Rightarrow> bool \<Rightarrow> u8 list" where
  "serializeCreateCatalogEntry sE dbg entry isInternal = serializeType dbg 14 @ sE entry @ serializeBool isInternal"

definition deserializeCreateCatalogEntry :: "'e read_program \<Rightarrow> ('e, 'p, 'x, 'v) wal_record read_program" where
  "deserializeCreateCatalogEntry dE =
     bindQ dE (\<lambda>entry. bindQ boolQ (\<lambda>isInternal. ReturnQ (CreateCatalogEntryRecord entry isInternal)))"

definition serializeCopyTable :: "bool \<Rightarrow> u64 \<Rightarrow> u8 list" where
  "serializeCopyTable dbg tableID = serializeType dbg 13 @ serializeU64 tableID"

definition deserializeCopyTable :: "('e, 'p, 'x, 'v) wal_record read_program" where
  "deserializeCopyTable = bindQ u64Q (\<lambda>tableID. ReturnQ (CopyTableRecord tableID))"

definition serializeDropCatalogEntry :: "bool \<Rightarrow> u64 \<Rightarrow> u8 \<Rightarrow> u8 list" where
  "serializeDropCatalogEntry dbg entryID entryType =
     serializeType dbg 16 @ serializeU64 entryID @ serializeU8 entryType"

definition deserializeDropCatalogEntry :: "('e, 'p, 'x, 'v) wal_record read_program" where
  "deserializeDropCatalogEntry =
     bindQ u64Q (\<lambda>entryID. bindQ u8Q (\<lambda>entryType. ReturnQ (DropCatalogEntryRecord entryID entryType)))"

fun alterType :: "('p, 'x) alter_info \<Rightarrow> u8" where
  "alterType (RenameTable _) = 0"
| "alterType (AddProperty _ _) = 10"
| "alterType (DropProperty _) = 11"
| "alterType (RenameProperty _ _) = 12"
| "alterType (AddFromToConnection _ _) = 13"
| "alterType (DropFromToConnection _ _) = 14"
| "alterType (Comment _) = 201"

definition serializeAlterExtraInfo :: "('p \<Rightarrow> u8 list) \<Rightarrow> u8 list \<Rightarrow> ('p, 'x) alter_info \<Rightarrow> u8 list" where
  "serializeAlterExtraInfo sP tableName info =
     serializeU8 (alterType info) @ serializeString tableName @
     (case info of
        AddProperty p boundDefault \<Rightarrow> sP p
      | DropProperty propertyName \<Rightarrow> serializeString propertyName
      | RenameProperty newName oldName \<Rightarrow> serializeString newName @ serializeString oldName
      | Comment comment \<Rightarrow> serializeString comment
      | RenameTable newName \<Rightarrow> serializeString newName
      | AddFromToConnection fromTableID toTableID \<Rightarrow> serializeU64 fromTableID @ serializeU64 toTableID
      | DropFromToConnection fromTableID toTableID \<Rightarrow> serializeU64 fromTableID @ serializeU64 toTableID)"

definition deserializeAlterRecord :: "'p read_program \<Rightarrow> (u8 list \<times> ('p, 'x) alter_info) read_program" where
  "deserializeAlterRecord dP =
     bindQ u8Q (\<lambda>ty.
     bindQ stringQ (\<lambda>tableName.
     if ty = 10 then bindQ dP (\<lambda>p. ReturnQ (tableName, AddProperty p None))
     else if ty = 11 then bindQ stringQ (\<lambda>s. ReturnQ (tableName, DropProperty s))
     else if ty = 12 then
       bindQ stringQ (\<lambda>newName. bindQ stringQ (\<lambda>oldName. ReturnQ (tableName, RenameProperty newName oldName)))
     else if ty = 201 then bindQ stringQ (\<lambda>s. ReturnQ (tableName, Comment s))
     else if ty = 0 then bindQ stringQ (\<lambda>s. ReturnQ (tableName, RenameTable s))
     else if ty = 13 then
       bindQ u64Q (\<lambda>a. bindQ u64Q (\<lambda>b. ReturnQ (tableName, AddFromToConnection a b)))
     else if ty = 14 then
       bindQ u64Q (\<lambda>a. bindQ u64Q (\<lambda>b. ReturnQ (tableName, DropFromToConnection a b)))
     else ThrowQ AssertFail))"

definition serializeAlterTableEntry :: "('p \<Rightarrow> u8 list) \<Rightarrow> bool \<Rightarrow> u8 list \<Rightarrow> ('p, 'x) alter_info \<Rightarrow> u8 list" where
  "serializeAlterTableEntry sP dbg tableName info = serializeType dbg 17 @ serializeAlterExtraInfo sP tableName info"

definition deserializeAlterTableEntry :: "'p read_program \<Rightarrow> ('e, 'p, 'x, 'v) wal_record read_program" where
  "deserializeAlterTableEntry dP =
     bindQ (deserializeAlterRecord dP) (\<lambda>(tableName, info). ReturnQ (AlterTableEntryRecord tableName info onConflictThrow))"

definition serializeUpdateSequence :: "bool \<Rightarrow> u64 \<Rightarrow> u64 \<Rightarrow> u8 list" where
  "serializeUpdateSequence dbg sequenceID kCount = serializeType dbg 18 @ serializeU64 sequenceID @ serializeU64 kCount"

definition deserializeUpdateSequence :: "('e, 'p, 'x, 'v) wal_record read_program" where
  "deserializeUpdateSequence =
     bindQ u64Q (\<lambda>sequenceID. bindQ u64Q (\<lambda>kCount. ReturnQ (UpdateSequenceRecord sequenceID kCount)))"

section \<open>Table records\<close>

definition serializeTableInsertion :: "('v \<Rightarrow> u8 list) \<Rightarrow> bool \<Rightarrow> u64 \<Rightarrow> u8 \<Rightarrow> u64 \<Rightarrow> 'v list \<Rightarrow> u8 list" where
  "serializeTableInsertion sV dbg tableID tableType numRows vectors =
     serializeType dbg 30
     @ writeTag dbg ''table_id'' @ serializeU64 tableID
     @ writeTag dbg ''table_type'' @ serializeU8 tableType
     @ writeTag dbg ''num_rows'' @ serializeU64 numRows
     @ writeTag dbg ''num_vectors'' @ serializeU32 (of_nat (length vectors))
     @ concat (map sV vectors)"

definition deserializeTableInsertion :: "bool \<Rightarrow> 'v read_program \<Rightarrow> ('e, 'p, 'x, 'v) wal_record read_program" where
  "deserializeTableInsertion dbg dV =
     bindQ (tagQ dbg ''table_id'') (\<lambda>_. bindQ u64Q (\<lambda>tableID.
     bindQ (tagQ dbg ''table_type'') (\<lambda>_. bindQ u8Q (\<lambda>tableType.
     bindQ (tagQ dbg ''num_rows'') (\<lambda>_. bindQ u64Q (\<lambda>numRows.
     bindQ (tagQ dbg ''num_vectors'') (\<lambda>_. bindQ u32Q (\<lambda>numVectors.
     bindQ (manyQ dV (unat numVectors)) (\<lambda>vectors.
     ReturnQ (TableInsertionRecord tableID tableType numRows vectors))))))))))"

definition serializeNodeDeletion :: "('v \<Rightarrow> u8 list) \<Rightarrow> bool \<Rightarrow> u64 \<Rightarrow> u64 \<Rightarrow> 'v \<Rightarrow> u8 list" where
  "serializeNodeDeletion sV dbg tableID nodeOffset pkVector =
     serializeType dbg 31
     @ writeTag dbg ''table_id'' @ serializeU64 tableID
     @ writeTag dbg ''node_offset'' @ serializeU64 nodeOffset
     @ writeTag dbg ''pk_vector'' @ sV pkVector"

definition deserializeNodeDeletion :: "bool \<Rightarrow> 'v read_program \<Rightarrow> ('e, 'p, 'x, 'v) wal_record read_program" where
  "deserializeNodeDeletion dbg dV =
     bindQ (tagQ dbg ''table_id'') (\<lambda>_. bindQ u64Q (\<lambda>tableID.
     bindQ (tagQ dbg ''node_offset'') (\<lambda>_. bindQ u64Q (\<lambda>nodeOffset.
     bindQ (tagQ dbg ''pk_vector'') (\<lambda>_. bindQ dV (\<lambda>pkVector.
     ReturnQ (NodeDeletionRecord tableID nodeOffset pkVector)))))))"

definition serializeNodeUpdate :: "('v \<Rightarrow> u8 list) \<Rightarrow> bool \<Rightarrow> u64 \<Rightarrow> u32 \<Rightarrow> u64 \<Rightarrow> 'v \<Rightarrow> u8 list" where
  "serializeNodeUpdate sV dbg tableID columnID nodeOffset propertyVector =
     serializeType dbg 32
     @ writeTag dbg ''table_id'' @ serializeU64 tableID
     @ writeTag dbg ''column_id'' @ serializeU32 columnID
     @ writeTag dbg ''node_offset'' @ serializeU64 nodeOffset
     @ writeTag dbg ''property_vector'' @ sV propertyVector"

definition deserializeNodeUpdate :: "bool \<Rightarrow> 'v read_program \<Rightarrow> ('e, 'p, 'x, 'v) wal_record read_program" where
  "deserializeNodeUpdate dbg dV =
     bindQ (tagQ dbg ''table_id'') (\<lambda>_. bindQ u64Q (\<lambda>tableID.
     bindQ (tagQ dbg ''column_id'') (\<lambda>_. bindQ u32Q (\<lambda>columnID.
     bindQ (tagQ dbg ''node_offset'') (\<lambda>_. bindQ u64Q (\<lambda>nodeOffset.
     bindQ (tagQ dbg ''property_vector'') (\<lambda>_. bindQ dV (\<lambda>propertyVector.
     ReturnQ (NodeUpdateRecord tableID columnID nodeOffset propertyVector)))))))))"

definition serializeRelDeletion :: "('v \<Rightarrow> u8 list) \<Rightarrow> bool \<Rightarrow> u64 \<Rightarrow> 'v \<Rightarrow> 'v \<Rightarrow> 'v \<Rightarrow> u8 list" where
  "serializeRelDeletion sV dbg tableID srcNodeIDVector dstNodeIDVector relIDVector =
     serializeType dbg 33
     @ writeTag dbg ''table_id'' @ serializeU64 tableID
     @ writeTag dbg ''src_node_vector'' @ sV srcNodeIDVector
     @ writeTag dbg ''dst_node_vector'' @ sV dstNodeIDVector
     @ writeTag dbg ''rel_id_vector'' @ sV relIDVector"

definition deserializeRelDeletion :: "bool \<Rightarrow> 'v read_program \<Rightarrow> ('e, 'p, 'x, 'v) wal_record read_program" where
  "deserializeRelDeletion dbg dV =
     bindQ (tagQ dbg ''table_id'') (\<lambda>_. bindQ u64Q (\<lambda>tableID.
     bindQ (tagQ dbg ''src_node_vector'') (\<lambda>_. bindQ dV (\<lambda>srcNodeIDVector.
     bindQ (tagQ dbg ''dst_node_vector'') (\<lambda>_. bindQ dV (\<lambda>dstNodeIDVector.
     bindQ (tagQ dbg ''rel_id_vector'') (\<lambda>_. bindQ dV (\<lambda>relIDVector.
     ReturnQ (RelDeletionRecord tableID srcNodeIDVector dstNodeIDVector relIDVector)))))))))"

definition serializeRelDetachDelete :: "('v \<Rightarrow> u8 list) \<Rightarrow> bool \<Rightarrow> u64 \<Rightarrow> u8 \<Rightarrow> 'v \<Rightarrow> u8 list" where
  "serializeRelDetachDelete sV dbg tableID direction srcNodeIDVector =
     serializeType dbg 34
     @ writeTag dbg ''table_id'' @ serializeU64 tableID
     @ writeTag dbg ''direction'' @ serializeU8 direction
     @ writeTag dbg ''src_node_vector'' @ sV srcNodeIDVector"

definition deserializeRelDetachDelete :: "bool \<Rightarrow> 'v read_program \<Rightarrow> ('e, 'p, 'x, 'v) wal_record read_program" where
  "deserializeRelDetachDelete dbg dV =
     bindQ (tagQ dbg ''table_id'') (\<lambda>_. bindQ u64Q (\<lambda>tableID.
     bindQ (tagQ dbg ''direction'') (\<lambda>_. bindQ u8Q (\<lambda>direction.
     bindQ (tagQ dbg ''src_node_vector'') (\<lambda>_. bindQ dV (\<lambda>srcNodeIDVector.
     ReturnQ (RelDetachDeleteRecord tableID direction srcNodeIDVector)))))))"

definition serializeRelUpdate :: "('v \<Rightarrow> u8 list) \<Rightarrow> bool \<Rightarrow> u64 \<Rightarrow> u32 \<Rightarrow> 'v \<Rightarrow> 'v \<Rightarrow> 'v \<Rightarrow> 'v \<Rightarrow> u8 list" where
  "serializeRelUpdate sV dbg tableID columnID srcNodeIDVector dstNodeIDVector relIDVector propertyVector =
     serializeType dbg 35
     @ writeTag dbg ''table_id'' @ serializeU64 tableID
     @ writeTag dbg ''column_id'' @ serializeU32 columnID
     @ writeTag dbg ''src_node_vector'' @ sV srcNodeIDVector
     @ writeTag dbg ''dst_node_vector'' @ sV dstNodeIDVector
     @ writeTag dbg ''rel_id_vector'' @ sV relIDVector
     @ writeTag dbg ''property_vector'' @ sV propertyVector"

definition deserializeRelUpdate :: "bool \<Rightarrow> 'v read_program \<Rightarrow> ('e, 'p, 'x, 'v) wal_record read_program" where
  "deserializeRelUpdate dbg dV =
     bindQ (tagQ dbg ''table_id'') (\<lambda>_. bindQ u64Q (\<lambda>tableID.
     bindQ (tagQ dbg ''column_id'') (\<lambda>_. bindQ u32Q (\<lambda>columnID.
     bindQ (tagQ dbg ''src_node_vector'') (\<lambda>_. bindQ dV (\<lambda>srcNodeIDVector.
     bindQ (tagQ dbg ''dst_node_vector'') (\<lambda>_. bindQ dV (\<lambda>dstNodeIDVector.
     bindQ (tagQ dbg ''rel_id_vector'') (\<lambda>_. bindQ dV (\<lambda>relIDVector.
     bindQ (tagQ dbg ''property_vector'') (\<lambda>_. bindQ dV (\<lambda>propertyVector.
     ReturnQ (RelUpdateRecord tableID columnID srcNodeIDVector dstNodeIDVector relIDVector propertyVector)))))))))))))"

definition serializeLoadExtension :: "bool \<Rightarrow> u8 list \<Rightarrow> u8 list" where
  "serializeLoadExtension dbg path =
     serializeType dbg 100
     @ writeTag dbg ''path'' @ serializeString path"

definition deserializeLoadExtension :: "bool \<Rightarrow> ('e, 'p, 'x, 'v) wal_record read_program" where
  "deserializeLoadExtension dbg =
     bindQ (tagQ dbg ''path'') (\<lambda>_. bindQ stringQ (\<lambda>path.
     ReturnQ (LoadExtensionRecord path)))"

section \<open>Any record\<close>

fun serializeRecord :: "('e \<Rightarrow> u8 list) \<Rightarrow> ('p \<Rightarrow> u8 list) \<Rightarrow> ('v \<Rightarrow> u8 list) \<Rightarrow> bool \<Rightarrow> ('e, 'p, 'x, 'v) wal_record \<Rightarrow> u8 list" where
  "serializeRecord sE sP sV dbg BeginTransactionRecord = serializeType dbg 1"
| "serializeRecord sE sP sV dbg CommitRecord = serializeType dbg 2"
| "serializeRecord sE sP sV dbg CheckpointRecord = serializeType dbg 254"
| "serializeRecord sE sP sV dbg (CreateCatalogEntryRecord e i) = serializeCreateCatalogEntry sE dbg e i"
| "serializeRecord sE sP sV dbg (CopyTableRecord t) = serializeCopyTable dbg t"
| "serializeRecord sE sP sV dbg (DropCatalogEntryRecord i t) = serializeDropCatalogEntry dbg i t"
| "serializeRecord sE sP sV dbg (AlterTableEntryRecord n i c) = serializeAlterTableEntry sP dbg n i"
| "serializeRecord sE sP sV dbg (UpdateSequenceRecord i k) = serializeUpdateSequence dbg i k"
| "serializeRecord sE sP sV dbg (TableInsertionRecord t y n vs) = serializeTableInsertion sV dbg t y n vs"
| "serializeRecord sE sP sV dbg (NodeDeletionRecord t n v) = serializeNodeDeletion sV dbg t n v"
| "serializeRecord sE sP sV dbg (NodeUpdateRecord t c n v) = serializeNodeUpdate sV dbg t c n v"
| "serializeRecord sE sP sV dbg (RelDeletionRecord t s d r) = serializeRelDeletion sV dbg t s d r"
| "serializeRecord sE sP sV dbg (RelDetachDeleteRecord t d v) = serializeRelDetachDelete sV dbg t d v"
| "serializeRecord sE sP sV dbg (RelUpdateRecord t c s d r p) = serializeRelUpdate sV dbg t c s d r p"
| "serializeRecord sE sP sV dbg (LoadExtensionRecord p) = serializeLoadExtension dbg p"

definition deserializeRecord ::
  "'e read_program \<Rightarrow> 'p read_program \<Rightarrow> 'v read_program \<Rightarrow> bool \<Rightarrow> ('e, 'p, 'x, 'v) wal_record read_program" where
  "deserializeRecord dE dP dV dbg =
     bindQ (tagQ dbg ''type'') (\<lambda>_. bindQ u8Q (\<lambda>ty.
     if ty = 1 then ReturnQ BeginTransactionRecord
     else if ty = 2 then ReturnQ CommitRecord
     else if ty = 14 then deserializeCreateCatalogEntry dE
     else if ty = 16 then deserializeDropCatalogEntry
     else if ty = 17 then deserializeAlterTableEntry dP
     else if ty = 30 then deserializeTableInsertion dbg dV
     else if ty = 31 then deserializeNodeDeletion dbg dV
     else if ty = 32 then deserializeNodeUpdate dbg dV
     else if ty = 33 then deserializeRelDeletion dbg dV
     else if ty = 34 then deserializeRelDetachDelete dbg dV
     else if ty = 35 then deserializeRelUpdate dbg dV
     else if ty = 13 then deserializeCopyTable
     else if ty = 254 then ReturnQ CheckpointRecord
     else if ty = 18 then deserializeUpdateSequence
     else if ty = 100 then deserializeLoadExtension dbg
     else if ty = 0 then ThrowQ (RuntimeException ''Corrupted wal file. Read out invalid WAL record type.'')
     else ThrowQ AssertFail))"

section \<open>Round trips\<close>

text \<open>
  What a record can hold: strings and vectors of the sizes the program can have, and parts that
  their own serialization reads back.
\<close>

fun alterOk :: "('p \<Rightarrow> bool) \<Rightarrow> ('p, 'x) alter_info \<Rightarrow> bool" where
  "alterOk vP (AddProperty p x) = vP p"
| "alterOk vP (DropProperty s) = (length s < 2 ^ 64)"
| "alterOk vP (RenameProperty s t) = (length s < 2 ^ 64 \<and> length t < 2 ^ 64)"
| "alterOk vP (Comment s) = (length s < 2 ^ 64)"
| "alterOk vP (RenameTable s) = (length s < 2 ^ 64)"
| "alterOk vP (AddFromToConnection a b) = True"
| "alterOk vP (DropFromToConnection a b) = True"

fun recordOk :: "('e \<Rightarrow> bool) \<Rightarrow> ('p \<Rightarrow> bool) \<Rightarrow> ('v \<Rightarrow> bool) \<Rightarrow> ('e, 'p, 'x, 'v) wal_record \<Rightarrow> bool" where
  "recordOk vE vP vV (CreateCatalogEntryRecord e i) = vE e"
| "recordOk vE vP vV (AlterTableEntryRecord n i c) = (length n < 2 ^ 64 \<and> alterOk vP i)"
| "recordOk vE vP vV (TableInsertionRecord t y n vs) = (length vs < 2 ^ 32 \<and> list_all vV vs)"
| "recordOk vE vP vV (NodeDeletionRecord t n v) = vV v"
| "recordOk vE vP vV (NodeUpdateRecord t c n v) = vV v"
| "recordOk vE vP vV (RelDeletionRecord t s d r) = (vV s \<and> vV d \<and> vV r)"
| "recordOk vE vP vV (RelDetachDeleteRecord t d v) = vV v"
| "recordOk vE vP vV (RelUpdateRecord t c s d r p) = (vV s \<and> vV d \<and> vV r \<and> vV p)"
| "recordOk vE vP vV (LoadExtensionRecord p) = (length p < 2 ^ 64)"
| "recordOk vE vP vV r = True"

text \<open>What is left of a record in the log: the fields of an alteration that are not written are gone.\<close>

fun asLogged :: "('e, 'p, 'x, 'v) wal_record \<Rightarrow> ('e, 'p, 'x, 'v) wal_record" where
  "asLogged (AlterTableEntryRecord tableName (AddProperty p boundDefault) onConflict) =
     AlterTableEntryRecord tableName (AddProperty p None) onConflictThrow"
| "asLogged (AlterTableEntryRecord tableName info onConflict) = AlterTableEntryRecord tableName info onConflictThrow"
| "asLogged r = r"

lemma serializeRecord_asLogged [simp]: "serializeRecord sE sP sV dbg (asLogged r) = serializeRecord sE sP sV dbg r"
  by (cases r rule: asLogged.cases) (simp_all add: serializeAlterTableEntry_def serializeAlterExtraInfo_def)

lemma recordType_asLogged [simp]: "recordType (asLogged r) = recordType r"
  by (cases r rule: asLogged.cases) simp_all

lemma recordOk_asLogged [simp]: "recordOk vE vP vV (asLogged r) = recordOk vE vP vV r"
  by (cases r rule: asLogged.cases) simp_all

lemma asLogged_idem [simp]: "asLogged (asLogged r) = asLogged r"
  by (cases r rule: asLogged.cases) simp_all

lemmas coder_defs = serializeType_def serializeCreateCatalogEntry_def serializeCopyTable_def
  serializeDropCatalogEntry_def serializeAlterTableEntry_def serializeUpdateSequence_def serializeTableInsertion_def
  serializeNodeDeletion_def serializeNodeUpdate_def serializeRelDeletion_def serializeRelDetachDelete_def
  serializeRelUpdate_def serializeLoadExtension_def deserializeCreateCatalogEntry_def deserializeCopyTable_def
  deserializeDropCatalogEntry_def deserializeAlterTableEntry_def deserializeUpdateSequence_def
  deserializeTableInsertion_def deserializeNodeDeletion_def deserializeNodeUpdate_def deserializeRelDeletion_def
  deserializeRelDetachDelete_def deserializeRelUpdate_def deserializeLoadExtension_def

lemma tagQ_round_trip: "length s < 100 \<Longrightarrow> onList (tagQ dbg s) (writeTag dbg s @ rest) = Inr ((), rest)"
  using tag_round_trip [of s dbg rest] by (simp add: onList_tag expectTag_def)

lemmas field_round_trips = bindD_def tag_round_trip ser_u64.round_trip ser_u32.round_trip ser_u8.round_trip
  ser_bool.round_trip ser_string.round_trip

lemmas program_round_trips = onList_bind tagQ_round_trip ser_u64.round_trip ser_u32.round_trip ser_u8.round_trip
  ser_bool.round_trip ser_string.round_trip

lemma alter_round_trip:
  assumes "serializable sP (onList dP) vP" "alterOk vP info" "length tableName < 2 ^ 64"
  shows "onList (deserializeAlterRecord dP) (serializeAlterExtraInfo sP tableName info @ rest) =
    Inr ((tableName, case info of AddProperty p boundDefault \<Rightarrow> AddProperty p None | _ \<Rightarrow> info), rest)"
proof -
  note p = serializable.round_trip [OF assms(1)]
  show ?thesis
    using assms(2,3)
    by (cases info) (simp_all add: deserializeAlterRecord_def serializeAlterExtraInfo_def program_round_trips p)
qed

lemma record_round_trip_ok:
  assumes "serializable sE (onList dE) vE" "serializable sP (onList dP) vP" "serializable sV (onList dV) vV" "recordOk vE vP vV r"
  shows "onList (deserializeRecord dE dP dV dbg) (serializeRecord sE sP sV dbg r @ rest) = Inr (asLogged r, rest)"
proof -
  note e = serializable.round_trip [OF assms(1)]
    and v = serializable.round_trip [OF assms(3)]
    and many = serializable.many_round_trip [OF assms(3)]
    and alter = alter_round_trip [OF assms(2)]
  show ?thesis
    using assms(4)
    by (cases r rule: asLogged.cases)
      (simp_all add: deserializeRecord_def coder_defs program_round_trips e v many alter unat_of_nat_32 list_all_iff)
qed

text \<open>
  C26. Every record of the log reads back: whatever its kind, the bytes a record is written as are
  read as that record, and the bytes after it are left for the next one. The record type decides
  which fields are read, in the order they were written, with and without the debugging tags. Two fields of
  an alteration of a table are not in the log and come back as their defaults: the bound default value of an
  added property is missing and the action on a conflict is to throw; the replay reads neither, it binds the
  default again from the definition of the property. That catalog entries, property

  definitions and value vectors read back is the contract of their own serialization.
\<close>

theorem record_round_trip:
  assumes "serializable sE (onList dE) vE" "serializable sP (onList dP) vP" "serializable sV (onList dV) vV" "recordOk vE vP vV r"
  shows "onList (deserializeRecord dE dP dV dbg) (serializeRecord sE sP sV dbg r @ rest) = Inr (asLogged r, rest)"
  by (rule record_round_trip_ok [OF assms])

lemma part_contracts:
  "serializable serializeString (onList stringQ) (\<lambda>s. length s < 2 ^ 64)" "serializable serializeU64 (onList u64Q) (\<lambda>_. True)"
  "serializable serializeU32 (onList u32Q) (\<lambda>_. True)"
  using ser_string.serializable_axioms ser_u64.serializable_axioms ser_u32.serializable_axioms by simp_all

theorem record_round_trip_witness:
  "onList (deserializeRecord stringQ u64Q u32Q True)
     (serializeRecord serializeString serializeU64 serializeU32 True (AlterTableEntryRecord [112] (AddProperty 5 (Some (6 :: nat))) 1) @ [7]) =
   Inr (AlterTableEntryRecord [112] (AddProperty 5 (None :: nat option)) 0, [7])"
  using record_round_trip [OF part_contracts, of "AlterTableEntryRecord [112] (AddProperty 5 (Some (6 :: nat))) 1" True "[7]"]
  by (simp add: onConflictThrow_def)

end
