(* ===== verification/Wal.thy ===== *)
theory Wal
  imports Wal_Records Checksum
begin

text \<open>
  The write-ahead log: the log of one transaction (\<^verbatim>\<open>LocalWAL\<close>,
  \<^verbatim>\<open>src/src/storage/wal/local_wal.cpp\<close>), the log file (\<^verbatim>\<open>WAL\<close>,
  \<^verbatim>\<open>wal.cpp\<close>) and recovery (\<^verbatim>\<open>WALReplayer\<close>, \<^verbatim>\<open>wal_replayer.cpp\<close>).

  A log is written through a \<open>checksum_writer\<close>, whose output is the bytes of the log, in the pieces
  that the serializer hands to it: \<open>ser\<close> maps a record to its pieces. It is read through a
  \<open>checksum_reader\<close> over a \<^verbatim>\<open>BufferedFileReader\<close> by the read programs of the records.
  Without checksums both pass the bytes on. So an entry that outgrows the buffer of the checksum writer and a read
  that runs over the end of the file have here the effects that they have in the code; the theorems are about
  entries of at most a page. \<open>app\<close> is the replay of one record (\<^verbatim>\<open>replayWALRecord\<close>) on the
  state of the database and \<open>alloc\<close> gives the contents of a freshly allocated buffer.
\<close>

section \<open>The log of a transaction\<close>

definition addNewWALRecord ::
  "(nat \<Rightarrow> u8 list) \<Rightarrow> (('e, 'p, 'x, 'v) wal_record \<Rightarrow> u8 list list) \<Rightarrow> bool \<Rightarrow> ('e, 'p, 'x, 'v) wal_record \<Rightarrow> checksum_writer \<Rightarrow> checksum_writer res" where
  "addNewWALRecord alloc ser chk r localWAL = writeObject alloc chk (ser r) localWAL"

definition localWAL_logBeginTransaction :: "(nat \<Rightarrow> u8 list) \<Rightarrow> (('e, 'p, 'x, 'v) wal_record \<Rightarrow> u8 list list) \<Rightarrow> bool \<Rightarrow> checksum_writer \<Rightarrow> checksum_writer res" where
  "localWAL_logBeginTransaction alloc ser chk localWAL = addNewWALRecord alloc ser chk BeginTransactionRecord localWAL"

definition localWAL_logCommit :: "(nat \<Rightarrow> u8 list) \<Rightarrow> (('e, 'p, 'x, 'v) wal_record \<Rightarrow> u8 list list) \<Rightarrow> bool \<Rightarrow> checksum_writer \<Rightarrow> checksum_writer res" where
  "localWAL_logCommit alloc ser chk localWAL = addNewWALRecord alloc ser chk CommitRecord localWAL"

definition localWAL_logCreateCatalogEntryRecord ::
  "(nat \<Rightarrow> u8 list) \<Rightarrow> (('e, 'p, 'x, 'v) wal_record \<Rightarrow> u8 list list) \<Rightarrow> bool \<Rightarrow> 'e \<Rightarrow> bool \<Rightarrow> checksum_writer \<Rightarrow> checksum_writer res" where
  "localWAL_logCreateCatalogEntryRecord alloc ser chk catalogEntry isInternal log = addNewWALRecord alloc ser chk (CreateCatalogEntryRecord catalogEntry isInternal) log"

definition localWAL_logDropCatalogEntryRecord ::
  "(nat \<Rightarrow> u8 list) \<Rightarrow> (('e, 'p, 'x, 'v) wal_record \<Rightarrow> u8 list list) \<Rightarrow> bool \<Rightarrow> u64 \<Rightarrow> u8 \<Rightarrow> checksum_writer \<Rightarrow> checksum_writer res" where
  "localWAL_logDropCatalogEntryRecord alloc ser chk tableID ty log = addNewWALRecord alloc ser chk (DropCatalogEntryRecord tableID ty) log"

definition localWAL_logAlterCatalogEntryRecord ::
  "(nat \<Rightarrow> u8 list) \<Rightarrow> (('e, 'p, 'x, 'v) wal_record \<Rightarrow> u8 list list) \<Rightarrow> bool \<Rightarrow> u8 list \<Rightarrow> ('p, 'x) alter_info \<Rightarrow> u8 \<Rightarrow> checksum_writer \<Rightarrow> checksum_writer res" where
  "localWAL_logAlterCatalogEntryRecord alloc ser chk tableName alterInfo onConflict log = addNewWALRecord alloc ser chk (AlterTableEntryRecord tableName alterInfo onConflict) log"

definition localWAL_logTableInsertion ::
  "(nat \<Rightarrow> u8 list) \<Rightarrow> (('e, 'p, 'x, 'v) wal_record \<Rightarrow> u8 list list) \<Rightarrow> bool \<Rightarrow> u64 \<Rightarrow> u8 \<Rightarrow> u64 \<Rightarrow> 'v list \<Rightarrow> checksum_writer \<Rightarrow> checksum_writer res" where
  "localWAL_logTableInsertion alloc ser chk tableID tableType numRows vectors log = addNewWALRecord alloc ser chk (TableInsertionRecord tableID tableType numRows vectors) log"

definition localWAL_logNodeDeletion ::
  "(nat \<Rightarrow> u8 list) \<Rightarrow> (('e, 'p, 'x, 'v) wal_record \<Rightarrow> u8 list list) \<Rightarrow> bool \<Rightarrow> u64 \<Rightarrow> u64 \<Rightarrow> 'v \<Rightarrow> checksum_writer \<Rightarrow> checksum_writer res" where
  "localWAL_logNodeDeletion alloc ser chk tableID nodeOffset pkVector log = addNewWALRecord alloc ser chk (NodeDeletionRecord tableID nodeOffset pkVector) log"

definition localWAL_logNodeUpdate ::
  "(nat \<Rightarrow> u8 list) \<Rightarrow> (('e, 'p, 'x, 'v) wal_record \<Rightarrow> u8 list list) \<Rightarrow> bool \<Rightarrow> u64 \<Rightarrow> u32 \<Rightarrow> u64 \<Rightarrow> 'v \<Rightarrow> checksum_writer \<Rightarrow> checksum_writer res" where
  "localWAL_logNodeUpdate alloc ser chk tableID columnID nodeOffset propertyVector log = addNewWALRecord alloc ser chk (NodeUpdateRecord tableID columnID nodeOffset propertyVector) log"

definition localWAL_logRelDelete ::
  "(nat \<Rightarrow> u8 list) \<Rightarrow> (('e, 'p, 'x, 'v) wal_record \<Rightarrow> u8 list list) \<Rightarrow> bool \<Rightarrow> u64 \<Rightarrow> 'v \<Rightarrow> 'v \<Rightarrow> 'v \<Rightarrow> checksum_writer \<Rightarrow> checksum_writer res" where
  "localWAL_logRelDelete alloc ser chk tableID srcNodeVector dstNodeVector relIDVector log = addNewWALRecord alloc ser chk (RelDeletionRecord tableID srcNodeVector dstNodeVector relIDVector) log"

definition localWAL_logRelDetachDelete ::
  "(nat \<Rightarrow> u8 list) \<Rightarrow> (('e, 'p, 'x, 'v) wal_record \<Rightarrow> u8 list list) \<Rightarrow> bool \<Rightarrow> u64 \<Rightarrow> u8 \<Rightarrow> 'v \<Rightarrow> checksum_writer \<Rightarrow> checksum_writer res" where
  "localWAL_logRelDetachDelete alloc ser chk tableID direction srcNodeVector log = addNewWALRecord alloc ser chk (RelDetachDeleteRecord tableID direction srcNodeVector) log"

definition localWAL_logRelUpdate ::
  "(nat \<Rightarrow> u8 list) \<Rightarrow> (('e, 'p, 'x, 'v) wal_record \<Rightarrow> u8 list list) \<Rightarrow> bool \<Rightarrow> u64 \<Rightarrow> u32 \<Rightarrow> 'v \<Rightarrow> 'v \<Rightarrow> 'v \<Rightarrow> 'v \<Rightarrow> checksum_writer \<Rightarrow> checksum_writer res" where
  "localWAL_logRelUpdate alloc ser chk tableID columnID srcNodeVector dstNodeVector relIDVector propertyVector log = addNewWALRecord alloc ser chk (RelUpdateRecord tableID columnID srcNodeVector dstNodeVector relIDVector propertyVector) log"

definition localWAL_logUpdateSequenceRecord ::
  "(nat \<Rightarrow> u8 list) \<Rightarrow> (('e, 'p, 'x, 'v) wal_record \<Rightarrow> u8 list list) \<Rightarrow> bool \<Rightarrow> u64 \<Rightarrow> u64 \<Rightarrow> checksum_writer \<Rightarrow> checksum_writer res" where
  "localWAL_logUpdateSequenceRecord alloc ser chk sequenceID kCount log = addNewWALRecord alloc ser chk (UpdateSequenceRecord sequenceID kCount) log"

definition localWAL_logLoadExtension ::
  "(nat \<Rightarrow> u8 list) \<Rightarrow> (('e, 'p, 'x, 'v) wal_record \<Rightarrow> u8 list list) \<Rightarrow> bool \<Rightarrow> u8 list \<Rightarrow> checksum_writer \<Rightarrow> checksum_writer res" where
  "localWAL_logLoadExtension alloc ser chk path log = addNewWALRecord alloc ser chk (LoadExtensionRecord path) log"

definition localWAL_clear :: "checksum_writer \<Rightarrow> checksum_writer" where
  "localWAL_clear localWAL = cw_clear localWAL"

definition localWAL_getSize :: "checksum_writer \<Rightarrow> nat" where
  "localWAL_getSize localWAL = cw_getSize localWAL"

section \<open>The log file\<close>

type_synonym database_id = "u64 \<times> u64"

text \<open>The contents of the log file, and the buffer of the checksum writer if there is a writer.\<close>

record wal =
  walContents :: "u8 list"
  walHasWriter :: bool
  walBuffer :: "u8 list"
  walInMemory :: bool
  walReadOnly :: bool
  walChecksums :: bool

definition wal_writeObject :: "(nat \<Rightarrow> u8 list) \<Rightarrow> u8 list list \<Rightarrow> wal \<Rightarrow> wal res" where
  "wal_writeObject alloc pieces w =
     bindR (writeObject alloc (walChecksums w) pieces \<lparr>cwOutput = walContents w, cwEntrySize = None, cwBuffer = walBuffer w\<rparr>) (\<lambda>cw.
     Inr (w\<lparr>walContents := cwOutput cw, walBuffer := cwBuffer cw\<rparr>))"

definition writeDatabaseID :: "database_id \<Rightarrow> u8 list" where
  "writeDatabaseID databaseID = serializeU64 (fst databaseID) @ serializeU64 (snd databaseID)"

definition writeHeader :: "(nat \<Rightarrow> u8 list) \<Rightarrow> database_id \<Rightarrow> wal \<Rightarrow> wal res" where
  "writeHeader alloc databaseID w = wal_writeObject alloc [writeDatabaseID databaseID, serializeBool (walChecksums w)] w"

definition initWriter :: "(nat \<Rightarrow> u8 list) \<Rightarrow> nat \<Rightarrow> database_id \<Rightarrow> wal \<Rightarrow> wal res" where
  "initWriter alloc P databaseID w =
     (if walHasWriter w then Inr w
      else
        let w = w\<lparr>walHasWriter := True, walBuffer := alloc P\<rparr> in
        if walContents w = [] then writeHeader alloc databaseID w else Inr w)"

definition logCommittedWAL :: "(nat \<Rightarrow> u8 list) \<Rightarrow> nat \<Rightarrow> database_id \<Rightarrow> checksum_writer \<Rightarrow> wal \<Rightarrow> wal res" where
  "logCommittedWAL alloc P databaseID localWAL w =
     bindR (assertR (\<not> walReadOnly w)) (\<lambda>_.
     if walInMemory w \<or> localWAL_getSize localWAL = 0 then Inr w
     else
       bindR (initWriter alloc P databaseID w) (\<lambda>w.
       Inr (w\<lparr>walContents := walContents w @ cwOutput localWAL\<rparr>)))"

definition addNewWALRecordNoLock ::
  "(nat \<Rightarrow> u8 list) \<Rightarrow> (('e, 'p, 'x, 'v) wal_record \<Rightarrow> u8 list list) \<Rightarrow> ('e, 'p, 'x, 'v) wal_record \<Rightarrow> wal \<Rightarrow> wal res" where
  "addNewWALRecordNoLock alloc ser r w =
     bindR (assertR (\<not> walInMemory w)) (\<lambda>_.
     bindR (assertR (walHasWriter w)) (\<lambda>_.
     wal_writeObject alloc (ser r) w))"

definition logAndFlushCheckpoint ::
  "(nat \<Rightarrow> u8 list) \<Rightarrow> nat \<Rightarrow> (('e, 'p, 'x, 'v) wal_record \<Rightarrow> u8 list list) \<Rightarrow> database_id \<Rightarrow> wal \<Rightarrow> wal res" where
  "logAndFlushCheckpoint alloc P ser databaseID w =
     bindR (initWriter alloc P databaseID w) (\<lambda>w. addNewWALRecordNoLock alloc ser CheckpointRecord w)"

definition wal_clear :: "wal \<Rightarrow> wal res" where
  "wal_clear w = (if walHasWriter w then Inr (w\<lparr>walContents := []\<rparr>) else Inl NullDeref)"

definition wal_reset :: "wal \<Rightarrow> wal" where
  "wal_reset w = w\<lparr>walHasWriter := False, walContents := []\<rparr>"

definition wal_getFileSize :: "wal \<Rightarrow> nat res" where
  "wal_getFileSize w = (if walHasWriter w then Inr (length (walContents w)) else Inl NullDeref)"

section \<open>Recovery\<close>

type_synonym log_reader = "file_reader checksum_reader"

definition initDeserializer :: "(nat \<Rightarrow> u8 list) \<Rightarrow> nat \<Rightarrow> u8 list \<Rightarrow> log_reader res" where
  "initDeserializer alloc P file = bindR (BufferedFileReader_new P file) (\<lambda>r. Inr (ChecksumReader_new alloc P r))"

definition getReadOffset :: "log_reader \<Rightarrow> nat" where
  "getReadOffset r = fr_getReadOffset (crReader r)"

definition readWALHeader :: "(database_id \<times> bool) read_program" where
  "readWALHeader =
     ReadQ 16 (\<lambda>databaseID. bindQ u8Q (\<lambda>flag. ReturnQ ((leWord (take 8 databaseID), leWord (drop 8 databaseID)), flag \<noteq> 0)))"

definition checkWALHeader :: "bool \<Rightarrow> database_id \<times> bool \<Rightarrow> unit res" where
  "checkWALHeader chk header =
     (if chk \<noteq> snd header then Inl (RuntimeException ''The database was serialized with another enableChecksums.'') else Inr ())"

definition verifyDatabaseID :: "database_id \<Rightarrow> database_id \<Rightarrow> unit res" where
  "verifyDatabaseID expected databaseID =
     (if expected \<noteq> databaseID then Inl (RuntimeException ''Database ID for temporary file does not match the current database.'')
      else Inr ())"

text \<open>Reading the next record, \<^verbatim>\<open>WALRecord::deserialize\<close>, with the program \<open>q\<close> for its fields.\<close>

definition nextRecord :: "(nat \<Rightarrow> u8 list) \<Rightarrow> nat \<Rightarrow> bool \<Rightarrow> 'a read_program \<Rightarrow> log_reader \<Rightarrow> ('a \<times> log_reader) res" where
  "nextRecord alloc P chk q r = readObject alloc (fr_read P) chk q r"

text \<open>
  The loop of \<^verbatim>\<open>dryReplay\<close> over the records: the offset after the last commit or checkpoint,
  whether it ended at a checkpoint, and the exception that ended it, if any.
\<close>

definition isCommit :: "('e, 'p, 'x, 'v) wal_record \<Rightarrow> bool" where
  "isCommit r = (recordType r = 2)"

definition isCheckpoint :: "('e, 'p, 'x, 'v) wal_record \<Rightarrow> bool" where
  "isCheckpoint r = (recordType r = 254)"

partial_function (option) dryLoop ::
  "(log_reader \<Rightarrow> (('e, 'p, 'x, 'v) wal_record \<times> log_reader) res) \<Rightarrow> log_reader \<Rightarrow> nat \<Rightarrow> ((nat \<times> bool) \<times> err option) option" where
  "dryLoop readNext r offsetDeserialized =
     (if fr_finished (crReader r) then Some ((offsetDeserialized, False), None)
      else case readNext r of
        Inl e \<Rightarrow> Some ((offsetDeserialized, False), Some e)
      | Inr p \<Rightarrow>
          if isCheckpoint (fst p) then
            if fr_finished (crReader (snd p)) then Some ((getReadOffset (snd p), True), None)
            else Some ((offsetDeserialized, False), Some AssertFail)
          else if isCommit (fst p) then dryLoop readNext (snd p) (getReadOffset (snd p))
          else dryLoop readNext (snd p) offsetDeserialized)"

definition dryReplay ::
  "(nat \<Rightarrow> u8 list) \<Rightarrow> nat \<Rightarrow> ('e, 'p, 'x, 'v) wal_record read_program \<Rightarrow> bool \<Rightarrow> bool \<Rightarrow> u8 list \<Rightarrow> (nat \<times> bool) res option" where
  "dryReplay alloc P q throwOnWalReplayFailure chk file =
     (case (case bindR (initDeserializer alloc P file)
                   (nextRecord alloc P chk (bindQ readWALHeader (\<lambda>h. bindQ (liftQ (checkWALHeader chk h)) (\<lambda>_. ReturnQ h)))) of
              Inl e \<Rightarrow> Some ((0, False), Some e)
            | Inr (_, r) \<Rightarrow> dryLoop (nextRecord alloc P chk q) r 0) of
        None \<Rightarrow> None
      | Some (info, Some e) \<Rightarrow> Some (if throwOnWalReplayFailure then Inl e else Inr info)
      | Some (info, None) \<Rightarrow> Some (Inr info))"

partial_function (option) replayLoop ::
  "(log_reader \<Rightarrow> (('e, 'p, 'x, 'v) wal_record \<times> log_reader) res) \<Rightarrow> (('e, 'p, 'x, 'v) wal_record \<Rightarrow> 's \<Rightarrow> 's res) \<Rightarrow> nat \<Rightarrow> log_reader \<Rightarrow> 's \<Rightarrow> 's res option" where
  "replayLoop readNext app offsetDeserialized r s =
     (if getReadOffset r < offsetDeserialized then
        if fr_finished (crReader r) then Some (Inl AssertFail)
        else case readNext r of
          Inl e \<Rightarrow> Some (Inl e)
        | Inr p \<Rightarrow>
            (case app (fst p) s of
               Inl e \<Rightarrow> Some (Inl e)
             | Inr s' \<Rightarrow> replayLoop readNext app offsetDeserialized (snd p) s')
      else Some (Inr s))"

text \<open>
  \<^verbatim>\<open>WALReplayer::replay\<close> of a log file that exists: either the shadow pages of a finished
  checkpoint are to be applied, or the records are replayed on the checkpointed database and the
  file is cut after the last commit.
\<close>

datatype 's replay_result = ApplyShadowPages | Replayed 's "u8 list"

definition replay ::
  "(nat \<Rightarrow> u8 list) \<Rightarrow> nat \<Rightarrow> ('e, 'p, 'x, 'v) wal_record read_program \<Rightarrow> (('e, 'p, 'x, 'v) wal_record \<Rightarrow> 's \<Rightarrow> 's res) \<Rightarrow> database_id \<Rightarrow> bool
    \<Rightarrow> bool \<Rightarrow> u8 list \<Rightarrow> 's \<Rightarrow> 's replay_result res option" where
  "replay alloc P q app databaseID throwOnWalReplayFailure chk file s =
     (if file = [] then Some (Inr (Replayed s []))
      else case dryReplay alloc P q throwOnWalReplayFailure chk file of
        None \<Rightarrow> None
      | Some (Inl e) \<Rightarrow> Some (Inl e)
      | Some (Inr (offsetDeserialized, True)) \<Rightarrow> Some (Inr ApplyShadowPages)
      | Some (Inr (offsetDeserialized, False)) \<Rightarrow>
          (case bindR (initDeserializer alloc P file) (\<lambda>r.
                  if offsetDeserialized > 0 then
                    bindR (nextRecord alloc P chk (bindQ readWALHeader (\<lambda>h.
                             bindQ (liftQ (verifyDatabaseID databaseID (fst h))) (\<lambda>_. ReturnQ h))) r) (\<lambda>(_, r). Inr r)
                  else Inr r) of
             Inl e \<Rightarrow> Some (Inl e)
           | Inr r \<Rightarrow>
               (case replayLoop (nextRecord alloc P chk q) app offsetDeserialized r s of
                  None \<Rightarrow> None
                | Some (Inl e) \<Rightarrow> Some (Inl e)
                | Some (Inr s) \<Rightarrow> Some (Inr (Replayed s (take offsetDeserialized file))))))"


section \<open>What recovery replays\<close>

definition logBytes :: "(('e, 'p, 'x, 'v) wal_record \<Rightarrow> u8 list) \<Rightarrow> ('e, 'p, 'x, 'v) wal_record list \<Rightarrow> u8 list" where
  "logBytes enc rs = concat (map enc rs)"

lemma logBytes_simps [simp]:
  "logBytes enc [] = []" "logBytes enc (r # rs) = enc r @ logBytes enc rs" "logBytes enc (rs @ qs) = logBytes enc rs @ logBytes enc qs"
  by (simp_all add: logBytes_def)

text \<open>The records up to the last commit.\<close>

fun committedPrefix :: "('e, 'p, 'x, 'v) wal_record list \<Rightarrow> ('e, 'p, 'x, 'v) wal_record list" where
  "committedPrefix [] = []"
| "committedPrefix (r # rs) =
     (if isCommit r \<or> committedPrefix rs \<noteq> [] then r # committedPrefix rs else [])"

lemma committedPrefix_split: "\<exists>qs. rs = committedPrefix rs @ qs"
  by (induction rs) auto

fun commitEnd :: "(('e, 'p, 'x, 'v) wal_record \<Rightarrow> u8 list) \<Rightarrow> nat \<Rightarrow> nat \<Rightarrow> ('e, 'p, 'x, 'v) wal_record list \<Rightarrow> nat" where
  "commitEnd enc base off [] = off"
| "commitEnd enc base off (r # rs) =
     commitEnd enc (base + length (enc r)) (if isCommit r then base + length (enc r) else off) rs"

lemma commitEnd_eq:
  "commitEnd enc base off rs =
    (if committedPrefix rs = [] then off else base + length (logBytes enc (committedPrefix rs)))"
  by (induction rs arbitrary: base off) auto

text \<open>A reader of the log \<open>log\<close> that stands at the offset \<open>k\<close>, between two records.\<close>

definition log_at :: "nat \<Rightarrow> u8 list \<Rightarrow> log_reader \<Rightarrow> nat \<Rightarrow> bool" where
  "log_at P log r k \<longleftrightarrow> fr_paged P log (crReader r) \<and> fr_unread (crReader r) = drop k log \<and> k \<le> length log
     \<and> crEntrySize r = None \<and> P \<le> length (crBuffer r)"

text \<open>
  What the loops need of the reader of a log: at the start of a readable record it returns the
  record and stands behind it.
\<close>

locale record_log =
  fixes log :: "u8 list" and standsAt :: "log_reader \<Rightarrow> nat \<Rightarrow> bool"
    and readNext :: "log_reader \<Rightarrow> (('e, 'p, 'x, 'v) wal_record \<times> log_reader) res"
    and enc :: "('e, 'p, 'x, 'v) wal_record \<Rightarrow> u8 list" and readable :: "('e, 'p, 'x, 'v) wal_record \<Rightarrow> bool"
  assumes finished_at: "standsAt r k \<Longrightarrow> fr_finished (crReader r) \<longleftrightarrow> length log \<le> k"
    and offset_at: "standsAt r k \<Longrightarrow> getReadOffset r = k"
    and next_at: "standsAt r k \<Longrightarrow> readable x \<Longrightarrow> drop k log = enc x @ rest \<Longrightarrow>
      \<exists>r'. readNext r = Inr (x, r') \<and> standsAt r' (k + length (enc x))"
    and enc_nonempty: "readable x \<Longrightarrow> enc x \<noteq> []"
begin

lemma step_record:
  assumes "standsAt r k" "readable x" "drop k log = enc x @ rest"
  shows "\<exists>r'. \<not> fr_finished (crReader r) \<and> readNext r = Inr (x, r') \<and> standsAt r' (k + length (enc x))
    \<and> getReadOffset r' = k + length (enc x) \<and> drop (k + length (enc x)) log = rest"
proof -
  obtain r' where r': "readNext r = Inr (x, r')" "standsAt r' (k + length (enc x))" using next_at [OF assms] by blast
  have "drop k log \<noteq> []" using assms(2,3) enc_nonempty by simp
  then have "\<not> fr_finished (crReader r)" using finished_at [OF assms(1)] by simp
  moreover have "drop (k + length (enc x)) log = rest" using assms(3) by (metis add.commute append_eq_conv_conj drop_drop)
  ultimately show ?thesis using r' offset_at by blast
qed

text \<open>The records at the beginning of what is left are passed over.\<close>

lemma dryLoop_append:
  assumes "standsAt r k" "\<forall>x \<in> set rs. readable x \<and> \<not> isCheckpoint x" "drop k log = logBytes enc rs @ rest"
  shows "\<exists>r'. dryLoop readNext r off = dryLoop readNext r' (commitEnd enc k off rs) \<and> standsAt r' (k + length (logBytes enc rs))"
  using assms
proof (induction rs arbitrary: r k off)
  case Nil
  then show ?case by auto
next
  case (Cons x rs)
  obtain r1 where r1: "\<not> fr_finished (crReader r)" "readNext r = Inr (x, r1)" "standsAt r1 (k + length (enc x))"
      "getReadOffset r1 = k + length (enc x)" "drop (k + length (enc x)) log = logBytes enc rs @ rest"
    using step_record [OF Cons.prems(1), of x "logBytes enc rs @ rest"] Cons.prems(2,3) by auto
  let ?off = "if isCommit x then k + length (enc x) else off"
  have "dryLoop readNext r off = dryLoop readNext r1 ?off" using r1 Cons.prems(2) by (simp add: dryLoop.simps [of _ r])
  moreover obtain r' where "dryLoop readNext r1 ?off = dryLoop readNext r' (commitEnd enc (k + length (enc x)) ?off rs)"
      "standsAt r' (k + length (enc x) + length (logBytes enc rs))"
    using Cons.IH [OF r1(3) _ r1(5)] Cons.prems(2) by auto
  ultimately show ?case by (auto simp: add.assoc)
qed

text \<open>After the last record the log ends, or has a rest that cannot be read.\<close>

lemma dryLoop_records:
  assumes "standsAt r k" "\<forall>x \<in> set rs. readable x \<and> \<not> isCheckpoint x" "drop k log = logBytes enc rs @ garbage"
    and "garbage = [] \<or> (\<forall>r. standsAt r (k + length (logBytes enc rs)) \<longrightarrow> (\<exists>e. readNext r = Inl e))"
  shows "\<exists>exc. dryLoop readNext r off = Some ((commitEnd enc k off rs, False), exc)"
proof -
  let ?k = "k + length (logBytes enc rs)"
  obtain r' where r': "dryLoop readNext r off = dryLoop readNext r' (commitEnd enc k off rs)" "standsAt r' ?k"
    using dryLoop_append [OF assms(1-3)] by blast
  show ?thesis
  proof (cases "garbage = []")
    case True
    have "length log - k = length (logBytes enc rs)" using arg_cong [OF assms(3), of length] True by simp
    then have "fr_finished (crReader r')" using finished_at [OF r'(2)] by simp
    then show ?thesis using r'(1) by (simp add: dryLoop.simps [of _ r'])
  next
    case False
    then obtain e where "readNext r' = Inl e" using assms(4) r'(2) by blast
    then show ?thesis using r'(1) by (simp add: dryLoop.simps [of _ r'])
  qed
qed

lemma dryLoop_checkpoint:
  assumes "standsAt r k" "readable x" "isCheckpoint x" "drop k log = enc x"
  shows "dryLoop readNext r off = Some ((k + length (enc x), True), None)"
proof -
  obtain r' where r': "\<not> fr_finished (crReader r)" "readNext r = Inr (x, r')" "standsAt r' (k + length (enc x))" "getReadOffset r' = k + length (enc x)"
      "drop (k + length (enc x)) log = []"
    using step_record [OF assms(1,2), of "[]"] assms(4) by auto
  then have "fr_finished (crReader r')" using finished_at by simp
  then show ?thesis using r' assms(3) by (simp add: dryLoop.simps [of _ r])
qed

lemma replayLoop_records:
  assumes "standsAt r k" "\<forall>x \<in> set rs. readable x" "drop k log = logBytes enc rs @ rest"
  shows "replayLoop readNext app (k + length (logBytes enc rs)) r s = Some (foldR app rs s)"
  using assms
proof (induction rs arbitrary: r k s)
  case Nil
  then show ?case using offset_at [OF Nil(1)] by (simp add: replayLoop.simps)
next
  case (Cons x rs)
  obtain r1 where r1: "\<not> fr_finished (crReader r)" "readNext r = Inr (x, r1)" "standsAt r1 (k + length (enc x))"
      "drop (k + length (enc x)) log = logBytes enc rs @ rest"
    using step_record [OF Cons.prems(1), of x "logBytes enc rs @ rest"] Cons.prems(2,3) by auto
  have "replayLoop readNext app (k + length (enc x) + length (logBytes enc rs)) r1 s' = Some (foldR app rs s')" for s'
    using Cons.IH [OF r1(3) _ r1(4)] Cons.prems(2) by auto
  moreover have "getReadOffset r < k + length (logBytes enc (x # rs))" using offset_at [OF Cons.prems(1)] Cons.prems(2) enc_nonempty by simp
  ultimately show ?case
    using r1(1,2) by (simp add: replayLoop.simps [of _ _ _ r] add.assoc split: sum.splits)
qed

end

text \<open>The readers of the log file, for records of at most a page.\<close>

definition fits :: "nat \<Rightarrow> 'a read_program \<Rightarrow> ('a \<Rightarrow> u8 list) \<Rightarrow> 'a \<Rightarrow> bool" where
  "fits P q bytes x \<longleftrightarrow> onList q (bytes x) = Inr (x, []) \<and> bytes x \<noteq> [] \<and> length (bytes x) \<le> P \<and> 8 \<le> P"

lemma log_at_offset: "log_at P log r k \<Longrightarrow> getReadOffset r = k"
proof -
  assume r: "log_at P log r k"
  then have "rbufferOffset (crReader r) \<le> rbufferSize (crReader r)" "rbufferSize (crReader r) \<le> rfileOffset (crReader r)"
    "rfileOffset (crReader r) \<le> length log" "drop (fr_getReadOffset (crReader r)) log = drop k log" "k \<le> length log"
    by (auto simp: log_at_def fr_paged_def fr_ok_def fr_unread_def)
  moreover from this have "length log - fr_getReadOffset (crReader r) = length log - k" by (metis length_drop)
  ultimately show "getReadOffset r = k" by (simp add: getReadOffset_def fr_getReadOffset_def)
qed

lemma nextRecord_at:
  assumes "log_at P log r k" "onList q bytes = Inr (x, [])" "length bytes \<le> P" "8 \<le> P" "drop k log = frameEntry chk bytes @ rest"
  shows "\<exists>r'. nextRecord alloc P chk q r = Inr (x, r') \<and> log_at P log r' (k + length (frameEntry chk bytes))"
proof -
  let ?n = "length (frameEntry chk bytes)"
  have r: "fr_paged P log (crReader r)" "fr_unread (crReader r) = frameEntry chk bytes @ rest" "crEntrySize r = None" "length bytes \<le> length (crBuffer r)"
    "P \<le> length (crBuffer r)" "k \<le> length log" using assms(1,3,5) by (simp_all add: log_at_def)
  obtain r' where r': "readObject alloc (fr_read P) chk q r = Inr (x, r')" "fr_paged P log (crReader r')" "fr_unread (crReader r') = rest"
      "crEntrySize r' = None" "length (crBuffer r') = length (crBuffer r)"
    using paged_reader.readObject_ok [OF r(1,2) assms(2,3,4) r(3,4)] by blast
  have "drop (k + ?n) log = rest" using assms(5) by (metis add.commute append_eq_conv_conj drop_drop)
  moreover have "k + ?n \<le> length log" using arg_cong [OF assms(5), of length] r(6) by simp
  ultimately show ?thesis using r' r(5) by (auto simp: log_at_def nextRecord_def)
qed

interpretation log_file: record_log log "log_at P log" "nextRecord alloc P chk q" "\<lambda>x. frameEntry chk (bytes x)" "fits P q bytes"
  for log P alloc chk q bytes
proof unfold_locales
  fix r k and x :: "('a, 'b, 'c, 'd) wal_record" and rest
  show "fr_finished (crReader r) \<longleftrightarrow> length log \<le> k" if "log_at P log r k"
  proof -
    have "fr_ok P (crReader r)" "fr_unread (crReader r) = drop k log" using that by (simp_all add: log_at_def fr_paged_def)
    then show ?thesis using fr_finished_iff by simp
  qed
  show "getReadOffset r = k" if "log_at P log r k" using log_at_offset [OF that] .
  show "\<exists>r'. nextRecord alloc P chk q r = Inr (x, r') \<and> log_at P log r' (k + length (frameEntry chk (bytes x)))"
    if "log_at P log r k" "fits P q bytes x" "drop k log = frameEntry chk (bytes x) @ rest"
    using that nextRecord_at [OF that(1), of q "bytes x" x chk rest alloc] by (auto simp: fits_def)
  show "frameEntry chk (bytes x) \<noteq> []" if "fits P q bytes x" using that by (simp add: fits_def frameEntry_def entryBytes_def)
qed

text \<open>
  A record of which the end of the file cuts off some bytes is not read if it begins on the last page
  of the file, behind its first byte, or the file has one page only: the reader has that page then and throws.
\<close>

definition on_last_page :: "nat \<Rightarrow> nat \<Rightarrow> nat \<Rightarrow> bool" where
  "on_last_page P n k \<longleftrightarrow> n \<le> P \<or> (n - 1) div P * P < k"

lemma nextRecord_torn:
  assumes "log_at P log r k" "on_last_page P (length log) k" "drop k log @ missing = frameEntry chk bytes" "missing \<noteq> []"
    and "onList q bytes = Inr (x, [])" "length bytes \<le> P" "8 \<le> P"
  shows "\<exists>e. nextRecord alloc P chk q r = Inl e"
proof -
  have r: "fr_paged P log (crReader r)" "fr_unread (crReader r) = drop k log" using assms(1) by (simp_all add: log_at_def)
  have "rfileSize (crReader r) = length log" using r(1) by (simp add: fr_paged_def fr_ok_def)
  then have "fr_atEnd (crReader r)"
    using fr_past_page_start [OF r(1)] assms(2) log_at_offset [OF assms(1)] by (auto simp: on_last_page_def getReadOffset_def)
  then show ?thesis using paged_reader.readObject_torn [OF r(1) _ _ assms(4,5,6,7)] assms(3) r(2) by (simp add: nextRecord_def)
qed

text \<open>The header of a log.\<close>

definition headerBytes :: "bool \<Rightarrow> database_id \<Rightarrow> u8 list" where
  "headerBytes chk databaseID = frameEntry chk (writeDatabaseID databaseID @ serializeBool chk)"

lemma headerBytes_nonempty: "headerBytes chk databaseID \<noteq> []"
  by (simp add: headerBytes_def frameEntry_def entryBytes_def serializeBool_def)

lemma length_headerEntry: "length (writeDatabaseID databaseID @ serializeBool chk) = 17"
  by (simp add: writeDatabaseID_def serializeU64_def serializeBool_def)

lemma onList_header:
  assumes "m (databaseID, chk) = Inr ()"
  shows "onList (bindQ readWALHeader (\<lambda>h. bindQ (liftQ (m h)) (\<lambda>_. ReturnQ h))) (writeDatabaseID databaseID @ serializeBool chk) =
    Inr ((databaseID, chk), [])"
proof -
  have len: "length (writeDatabaseID databaseID) = 16" by (simp add: writeDatabaseID_def serializeU64_def)
  have "readBytes 16 (writeDatabaseID databaseID @ serializeBool chk) = Inr (writeDatabaseID databaseID, serializeBool chk)"
    using readBytes_append [of "writeDatabaseID databaseID" "serializeBool chk"] unfolding len .
  moreover have "leWord (take 8 (writeDatabaseID databaseID)) = fst databaseID" "leWord (drop 8 (writeDatabaseID databaseID)) = snd databaseID"
    by (simp_all add: writeDatabaseID_def serializeU64_def leWord_leBytes)
  moreover have flag: "deserializeU8 (serializeBool chk) = Inr (if chk then 1 else 0, [])"
    by (simp add: deserializeU8_def serializeBool_def readBytes_def)
  ultimately show ?thesis
    using assms flag by (cases chk; cases databaseID) (simp_all add: readWALHeader_def onList_bind liftQ_def)
qed

lemma open_log:
  assumes "17 \<le> P" "P \<le> length (alloc P)" "log \<noteq> []"
  shows "\<exists>r. initDeserializer alloc P log = Inr r \<and> log_at P log r 0"
proof -
  obtain r where "BufferedFileReader_new P log = Inr r" "fr_paged P log r" "fr_getReadOffset r = 0"
    using fr_new_paged [of P log] assms by auto
  then show ?thesis using assms(2) by (auto simp: initDeserializer_def log_at_def ChecksumReader_new_def fr_unread_def fr_paged_def)
qed

lemma read_header:
  assumes "17 \<le> P" "log = headerBytes chk databaseID @ rest" "log_at P log r 0" "m (databaseID, chk) = Inr ()"
  shows "\<exists>r'. nextRecord alloc P chk (bindQ readWALHeader (\<lambda>h. bindQ (liftQ (m h)) (\<lambda>_. ReturnQ h))) r = Inr ((databaseID, chk), r')
    \<and> log_at P log r' (length (headerBytes chk databaseID))"
  using nextRecord_at [OF assms(3) onList_header [where m = m and databaseID = databaseID and chk = chk, OF assms(4)], of chk rest alloc]
    assms(1,2) length_headerEntry [of databaseID chk] by (simp add: headerBytes_def)

lemma dryReplay_start:
  assumes "17 \<le> P" "P \<le> length (alloc P)" "log = headerBytes chk databaseID @ rest"
  shows "\<exists>r. log_at P log r (length (headerBytes chk databaseID)) \<and> dryReplay alloc P q throwOn chk log =
    (case dryLoop (nextRecord alloc P chk q) r 0 of
       None \<Rightarrow> None
     | Some (info, Some e) \<Rightarrow> Some (if throwOn then Inl e else Inr info)
     | Some (info, None) \<Rightarrow> Some (Inr info))"
proof -
  have "log \<noteq> []" using assms(3) headerBytes_nonempty by simp
  then obtain r0 where r0: "initDeserializer alloc P log = Inr r0" "log_at P log r0 0" using open_log [where alloc = alloc] assms(1,2) by blast
  obtain r where "nextRecord alloc P chk (bindQ readWALHeader (\<lambda>h. bindQ (liftQ (checkWALHeader chk h)) (\<lambda>_. ReturnQ h))) r0 =
      Inr ((databaseID, chk), r)" "log_at P log r (length (headerBytes chk databaseID))"
    using read_header [OF assms(1,3) r0(2), of "checkWALHeader chk" alloc] by (auto simp: checkWALHeader_def)
  then show ?thesis using r0(1) by (intro exI [of _ r]) (simp add: dryReplay_def)
qed

text \<open>A log that ends in a checkpoint record makes recovery apply the shadow pages.\<close>

lemma dryReplay_checkpoint_record:
  fixes chk :: bool
  assumes "17 \<le> P" "P \<le> length (alloc P)" "\<forall>x \<in> set rs. fits P q bytes x \<and> \<not> isCheckpoint x" "fits P q bytes CheckpointRecord"
  defines "enc \<equiv> \<lambda>x. frameEntry chk (bytes x)"
  shows "\<exists>off. dryReplay alloc P q throwOn chk (headerBytes chk databaseID @ logBytes enc rs @ enc CheckpointRecord) = Some (Inr (off, True))"
proof -
  let ?h = "headerBytes chk databaseID" let ?log = "?h @ logBytes enc rs @ enc CheckpointRecord"
  obtain r where r: "log_at P ?log r (length ?h)" "dryReplay alloc P q throwOn chk ?log =
      (case dryLoop (nextRecord alloc P chk q) r 0 of
         None \<Rightarrow> None
       | Some (info, Some e) \<Rightarrow> Some (if throwOn then Inl e else Inr info)
       | Some (info, None) \<Rightarrow> Some (Inr info))"
    using dryReplay_start [where alloc = alloc and P = P and chk = chk and databaseID = databaseID and rest = "logBytes enc rs @ enc CheckpointRecord"
        and q = q and throwOn = throwOn and log = ?log] assms(1,2) by blast
  obtain r' where r': "dryLoop (nextRecord alloc P chk q) r 0 = dryLoop (nextRecord alloc P chk q) r' (commitEnd enc (length ?h) 0 rs)"
      "log_at P ?log r' (length ?h + length (logBytes enc rs))"
    using log_file.dryLoop_append [OF r(1) assms(3), where chk = chk and alloc = alloc and rest = "enc CheckpointRecord" and off = 0] by (auto simp: enc_def)
  have "dryLoop (nextRecord alloc P chk q) r' off = Some ((length ?h + length (logBytes enc rs) + length (enc CheckpointRecord), True), None)" for off
    using log_file.dryLoop_checkpoint [OF r'(2) assms(4), where chk = chk and alloc = alloc] by (simp add: enc_def isCheckpoint_def)
  then show ?thesis using r(2) r'(1) by simp
qed

text \<open>Recovery of a log in terms of its records.\<close>

lemma replay_log:
  fixes rs :: "('e, 'p, 'x, 'v) wal_record list" and chk :: bool
  assumes P: "17 \<le> P" "P \<le> length (alloc P)" and ok: "\<forall>x \<in> set rs. fits P q bytes x \<and> \<not> isCheckpoint x"
  defines "enc \<equiv> \<lambda>x. frameEntry chk (bytes x)"
  assumes log: "log = headerBytes chk databaseID @ logBytes enc rs @ garbage"
    and garbage: "garbage = [] \<or> (\<forall>r. log_at P log r (length (headerBytes chk databaseID @ logBytes enc rs)) \<longrightarrow> (\<exists>e. nextRecord alloc P chk q r = Inl e))"
  shows "replay alloc P q app databaseID False chk log s =
    Some (bindR (foldR app (committedPrefix rs) s) (\<lambda>s. Inr (Replayed s
      (if committedPrefix rs = [] then [] else headerBytes chk databaseID @ logBytes enc (committedPrefix rs)))))"
proof -
  let ?h = "headerBytes chk databaseID" and ?cs = "committedPrefix rs"
  let ?off = "if ?cs = [] then 0 else length ?h + length (logBytes enc ?cs)"
  have ne: "log \<noteq> []" using log headerBytes_nonempty by simp
  obtain qs where qs: "rs = ?cs @ qs" using committedPrefix_split by blast
  have bytes: "log = ?h @ logBytes enc ?cs @ logBytes enc qs @ garbage"
    using log arg_cong [OF qs, of "logBytes enc"] by simp
  obtain r where r: "log_at P log r (length ?h)" "dryReplay alloc P q False chk log =
      (case dryLoop (nextRecord alloc P chk q) r 0 of
         None \<Rightarrow> None
       | Some (info, Some e) \<Rightarrow> Some (if False then Inl e else Inr info)
       | Some (info, None) \<Rightarrow> Some (Inr info))"
    using dryReplay_start [where alloc = alloc and P = P and chk = chk and databaseID = databaseID and rest = "logBytes enc rs @ garbage"
        and q = q and throwOn = False and log = log] P log by blast
  have "drop (length ?h) log = logBytes enc rs @ garbage" using log by simp
  then obtain exc where "dryLoop (nextRecord alloc P chk q) r 0 = Some ((?off, False), exc)"
    using log_file.dryLoop_records [OF r(1) ok, where garbage = garbage and off = 0 and chk = chk and alloc = alloc] garbage
    by (auto simp: commitEnd_eq enc_def)
  then have dry: "dryReplay alloc P q False chk log = Some (Inr (?off, False))"
    using r(2) by (cases exc) simp_all
  obtain r0 where r0: "initDeserializer alloc P log = Inr r0" "log_at P log r0 0" using open_log [where alloc = alloc, OF P ne] by blast
  obtain r1 where r1: "nextRecord alloc P chk (bindQ readWALHeader (\<lambda>h. bindQ (liftQ (verifyDatabaseID databaseID (fst h))) (\<lambda>_. ReturnQ h))) r0 =
      Inr ((databaseID, chk), r1)" "log_at P log r1 (length ?h)"
    using read_header [OF P(1) log r0(2), of "\<lambda>h. verifyDatabaseID databaseID (fst h)" alloc] by (auto simp: verifyDatabaseID_def)
  have sub: "\<forall>x \<in> set ?cs. fits P q bytes x" using ok qs by (metis Un_iff set_append)
  have loop: "replayLoop (nextRecord alloc P chk q) app (length ?h + length (logBytes enc ?cs)) r1 s = Some (foldR app ?cs s)"
    using log_file.replayLoop_records [OF r1(2) sub, where rest = "logBytes enc qs @ garbage" and chk = chk] bytes by (simp add: enc_def)
  show ?thesis
  proof (cases "?cs = []")
    case True
    have "replayLoop (nextRecord alloc P chk q) app 0 r0 s = Some (Inr s)" by (simp add: replayLoop.simps)
    then show ?thesis using True dry ne r0(1) by (simp add: replay_def)
  next
    case False
    have cut: "take (length ?h + length (logBytes enc ?cs)) log = ?h @ logBytes enc ?cs" using bytes by simp
    show ?thesis
      using False dry ne r0(1) r1(1) loop headerBytes_nonempty [of chk databaseID]
      by (cases "foldR app ?cs s") (simp_all add: replay_def cut)
  qed
qed

section \<open>Writing the log\<close>

text \<open>The log of a transaction that logged the records \<open>body\<close> and committed.\<close>

definition localLog ::
  "(nat \<Rightarrow> u8 list) \<Rightarrow> nat \<Rightarrow> (('e, 'p, 'x, 'v) wal_record \<Rightarrow> u8 list list) \<Rightarrow> bool \<Rightarrow> ('e, 'p, 'x, 'v) wal_record list \<Rightarrow> checksum_writer res" where
  "localLog alloc P ser chk body =
     bindR (localWAL_logBeginTransaction alloc ser chk (ChecksumWriter_new alloc P)) (\<lambda>l.
     bindR (foldR (addNewWALRecord alloc ser chk) body l) (\<lambda>l.
     localWAL_logCommit alloc ser chk l))"

lemma add_records:
  assumes "\<forall>r \<in> set rs. length (concat (ser r)) \<le> length (cwBuffer l)" "cwEntrySize l = None"
  shows "\<exists>l'. foldR (addNewWALRecord alloc ser chk) rs l = Inr l' \<and> cwOutput l' = cwOutput l @ logBytes (\<lambda>r. frameEntry chk (concat (ser r))) rs
    \<and> length (cwBuffer l') = length (cwBuffer l) \<and> cwEntrySize l' = None"
  using assms
proof (induction rs arbitrary: l)
  case Nil
  then show ?case by simp
next
  case (Cons r rs)
  obtain l1 where l1: "writeObject alloc chk (ser r) l = Inr l1" "cwOutput l1 = cwOutput l @ frameEntry chk (concat (ser r))"
      "length (cwBuffer l1) = length (cwBuffer l)" "cwEntrySize l1 = None"
    using writeObject_ok [of "ser r" l alloc chk] Cons.prems by auto
  then show ?case using Cons.IH [of l1] Cons.prems(1) by (auto simp: addNewWALRecord_def)
qed

lemma localLog_bytes:
  assumes "\<forall>r \<in> set (BeginTransactionRecord # body @ [CommitRecord]). length (concat (ser r)) \<le> P" "P \<le> length (alloc P)"
  shows "\<exists>l. localLog alloc P ser chk body = Inr l \<and> cwEntrySize l = None
    \<and> cwOutput l = logBytes (\<lambda>r. frameEntry chk (concat (ser r))) (BeginTransactionRecord # body @ [CommitRecord])"
proof -
  have "foldR (addNewWALRecord alloc ser chk) (BeginTransactionRecord # body @ [CommitRecord]) (ChecksumWriter_new alloc P) =
      localLog alloc P ser chk body"
  proof -
    have "foldR (addNewWALRecord alloc ser chk) [CommitRecord] = addNewWALRecord alloc ser chk CommitRecord"
      by (intro ext) (simp add: bindR_def split: sum.splits)
    then show ?thesis
      by (simp add: localLog_def localWAL_logBeginTransaction_def localWAL_logCommit_def foldR_append [abs_def])
  qed
  moreover have "\<forall>r \<in> set (BeginTransactionRecord # body @ [CommitRecord]). length (concat (ser r)) \<le> length (cwBuffer (ChecksumWriter_new alloc P))"
    using assms by (fastforce simp: ChecksumWriter_new_def)
  ultimately show ?thesis
    using add_records [where rs = "BeginTransactionRecord # body @ [CommitRecord]" and ser = ser and l = "ChecksumWriter_new alloc P" and alloc = alloc and chk = chk]
    by (auto simp: ChecksumWriter_new_def)
qed

definition emptyWal :: "bool \<Rightarrow> wal" where
  "emptyWal chk = \<lparr>walContents = [], walHasWriter = False, walBuffer = [], walInMemory = False, walReadOnly = False, walChecksums = chk\<rparr>"

definition transactionRecords :: "('e, 'p, 'x, 'v) wal_record list list \<Rightarrow> ('e, 'p, 'x, 'v) wal_record list" where
  "transactionRecords bodies = concat (map (\<lambda>body. BeginTransactionRecord # body @ [CommitRecord]) bodies)"

lemma wal_writeObject_ok:
  assumes "length (concat pieces) \<le> length (walBuffer w)"
  shows "\<exists>b. wal_writeObject alloc pieces w = Inr (w\<lparr>walContents := walContents w @ frameEntry (walChecksums w) (concat pieces), walBuffer := b\<rparr>)
    \<and> length b = length (walBuffer w)"
  using writeObject_ok [of pieces "\<lparr>cwOutput = walContents w, cwEntrySize = None, cwBuffer = walBuffer w\<rparr>" alloc "walChecksums w"] assms
  by (auto simp: wal_writeObject_def)

lemma initWriter_ok:
  assumes "17 \<le> P" "P \<le> length (alloc P)" "walHasWriter w \<longrightarrow> P \<le> length (walBuffer w)"
  shows "\<exists>b. initWriter alloc P databaseID w = Inr (w\<lparr>walHasWriter := True, walBuffer := b,
      walContents := (if \<not> walHasWriter w \<and> walContents w = [] then headerBytes (walChecksums w) databaseID else walContents w)\<rparr>) \<and> P \<le> length b"
proof (cases "walHasWriter w")
  case True
  then show ?thesis using assms(3) by (intro exI [of _ "walBuffer w"]) (simp add: initWriter_def)
next
  case False
  let ?w = "w\<lparr>walHasWriter := True, walBuffer := alloc P\<rparr>"
  obtain b where "wal_writeObject alloc [writeDatabaseID databaseID, serializeBool (walChecksums w)] ?w =
      Inr (?w\<lparr>walContents := walContents w @ headerBytes (walChecksums w) databaseID, walBuffer := b\<rparr>)" "length b = length (alloc P)"
    using wal_writeObject_ok [of "[writeDatabaseID databaseID, serializeBool (walChecksums w)]" ?w alloc] assms(1,2) length_headerEntry [of databaseID "walChecksums w"]
    by (auto simp: headerBytes_def)
  then show ?thesis using False assms(2)
    by (cases "walContents w = []") (auto simp: initWriter_def writeHeader_def Let_def intro: exI [of _ b] exI [of _ "alloc P"])
qed

text \<open>Committing transactions one after the other to a log file.\<close>

definition commitTransaction ::
  "(nat \<Rightarrow> u8 list) \<Rightarrow> nat \<Rightarrow> (('e, 'p, 'x, 'v) wal_record \<Rightarrow> u8 list list) \<Rightarrow> database_id \<Rightarrow> ('e, 'p, 'x, 'v) wal_record list \<Rightarrow> wal \<Rightarrow> wal res" where
  "commitTransaction alloc P ser databaseID body w =
     bindR (localLog alloc P ser (walChecksums w) body) (\<lambda>localWAL. logCommittedWAL alloc P databaseID localWAL w)"

definition wal_ready :: "nat \<Rightarrow> wal \<Rightarrow> bool" where
  "wal_ready P w \<longleftrightarrow> \<not> walInMemory w \<and> \<not> walReadOnly w \<and> (walHasWriter w \<longrightarrow> P \<le> length (walBuffer w))"

lemma commitTransaction_ok:
  assumes "17 \<le> P" "P \<le> length (alloc P)" "wal_ready P w" "\<And>r. concat (ser r) \<noteq> []"
    and "\<forall>r \<in> set (BeginTransactionRecord # body @ [CommitRecord]). length (concat (ser r)) \<le> P"
  shows "\<exists>w'. commitTransaction alloc P ser databaseID body w = Inr w' \<and> wal_ready P w' \<and> walHasWriter w' \<and> walChecksums w' = walChecksums w
    \<and> walContents w' = (if \<not> walHasWriter w \<and> walContents w = [] then headerBytes (walChecksums w) databaseID else walContents w)
        @ logBytes (\<lambda>r. frameEntry (walChecksums w) (concat (ser r))) (BeginTransactionRecord # body @ [CommitRecord])"
proof -
  obtain l where l: "localLog alloc P ser (walChecksums w) body = Inr l" "cwEntrySize l = None"
      "cwOutput l = logBytes (\<lambda>r. frameEntry (walChecksums w) (concat (ser r))) (BeginTransactionRecord # body @ [CommitRecord])"
    using localLog_bytes [where alloc = alloc and P = P and ser = ser and chk = "walChecksums w" and body = body, OF assms(5,2)] by blast
  have "frameEntry (walChecksums w) (concat (ser r)) \<noteq> []" for r using assms(4) [of r] by (simp add: frameEntry_def entryBytes_def)
  then have size: "localWAL_getSize l \<noteq> 0" using l(2,3) by (simp add: localWAL_getSize_def cw_getSize_def)
  obtain b where "initWriter alloc P databaseID w = Inr (w\<lparr>walHasWriter := True, walBuffer := b,
      walContents := (if \<not> walHasWriter w \<and> walContents w = [] then headerBytes (walChecksums w) databaseID else walContents w)\<rparr>)" "P \<le> length b"
    using initWriter_ok [where alloc = alloc and w = w and databaseID = databaseID, OF assms(1,2)] assms(3) unfolding wal_ready_def by blast
  then show ?thesis using l(1,3) size assms(3) by (simp add: commitTransaction_def logCommittedWAL_def wal_ready_def)
qed

lemma commits_append:
  assumes "17 \<le> P" "P \<le> length (alloc P)" "\<And>r. concat (ser r) \<noteq> []" "\<forall>r \<in> set (transactionRecords bodies). length (concat (ser r)) \<le> P"
    and "wal_ready P w" "walHasWriter w"
  shows "\<exists>w'. foldR (commitTransaction alloc P ser databaseID) bodies w = Inr w' \<and> wal_ready P w' \<and> walHasWriter w' \<and> walChecksums w' = walChecksums w
    \<and> walContents w' = walContents w @ logBytes (\<lambda>r. frameEntry (walChecksums w) (concat (ser r))) (transactionRecords bodies)"
  using assms(4-6)
proof (induction bodies arbitrary: w)
  case Nil
  then show ?case by (simp add: transactionRecords_def)
next
  case (Cons body bodies)
  obtain w1 where w1: "commitTransaction alloc P ser databaseID body w = Inr w1" "wal_ready P w1" "walHasWriter w1" "walChecksums w1 = walChecksums w"
      "walContents w1 = walContents w @ logBytes (\<lambda>r. frameEntry (walChecksums w) (concat (ser r))) (BeginTransactionRecord # body @ [CommitRecord])"
    using commitTransaction_ok [where alloc = alloc and ser = ser and body = body and databaseID = databaseID, OF assms(1,2) Cons.prems(2) assms(3)] Cons.prems(1,3)
    by (auto simp: transactionRecords_def)
  have "\<forall>r \<in> set (transactionRecords bodies). length (concat (ser r)) \<le> P" using Cons.prems(1) by (simp add: transactionRecords_def)
  then obtain w' where "foldR (commitTransaction alloc P ser databaseID) bodies w1 = Inr w'" "wal_ready P w'" "walHasWriter w'" "walChecksums w' = walChecksums w1"
      "walContents w' = walContents w1 @ logBytes (\<lambda>r. frameEntry (walChecksums w1) (concat (ser r))) (transactionRecords bodies)"
    using Cons.IH [OF _ w1(2,3)] by blast
  then show ?case using w1 by (simp add: transactionRecords_def)
qed

lemma commit_to_empty:
  assumes "17 \<le> P" "P \<le> length (alloc P)" "\<And>r. concat (ser r) \<noteq> []" "\<forall>r \<in> set (transactionRecords bodies). length (concat (ser r)) \<le> P" "bodies \<noteq> []"
  shows "\<exists>w. foldR (commitTransaction alloc P ser databaseID) bodies (emptyWal chk) = Inr w
    \<and> walContents w = headerBytes chk databaseID @ logBytes (\<lambda>r. frameEntry chk (concat (ser r))) (transactionRecords bodies)"
proof -
  obtain body bodies' where bodies: "bodies = body # bodies'" using assms(5) by (cases bodies) auto
  have empty: "wal_ready P (emptyWal chk)" "\<not> walHasWriter (emptyWal chk)" "walContents (emptyWal chk) = []" "walChecksums (emptyWal chk) = chk"
    by (simp_all add: wal_ready_def emptyWal_def)
  have body: "\<forall>r \<in> set (BeginTransactionRecord # body @ [CommitRecord]). length (concat (ser r)) \<le> P"
    "\<forall>r \<in> set (transactionRecords bodies'). length (concat (ser r)) \<le> P" using assms(4) by (auto simp: bodies transactionRecords_def)
  obtain w1 where w1: "commitTransaction alloc P ser databaseID body (emptyWal chk) = Inr w1" "wal_ready P w1" "walHasWriter w1" "walChecksums w1 = chk"
      "walContents w1 = headerBytes chk databaseID @ logBytes (\<lambda>r. frameEntry chk (concat (ser r))) (BeginTransactionRecord # body @ [CommitRecord])"
    using commitTransaction_ok [where alloc = alloc and ser = ser and body = body and databaseID = databaseID, OF assms(1,2) empty(1) assms(3) body(1)]
    unfolding empty(3,4) using empty(2) by auto
  obtain w where "foldR (commitTransaction alloc P ser databaseID) bodies' w1 = Inr w"
      "walContents w = walContents w1 @ logBytes (\<lambda>r. frameEntry chk (concat (ser r))) (transactionRecords bodies')"
    using commits_append [where alloc = alloc and ser = ser and databaseID = databaseID, OF assms(1,2,3) body(2) w1(2,3)] w1(4) by auto
  then show ?thesis using w1(1,5) by (simp add: bodies transactionRecords_def)
qed

lemma committedPrefix_last:
  assumes "rs \<noteq> []" "isCommit (last rs)" "\<forall>r \<in> set torn. \<not> isCommit r"
  shows "committedPrefix (rs @ torn) = rs"
proof -
  have "committedPrefix torn = []" using assms(3) by (induction torn) auto
  then show ?thesis using assms(1,2) by (induction rs) (auto split: if_splits)
qed

lemma transactionRecords_last:
  "bodies \<noteq> [] \<Longrightarrow> transactionRecords bodies \<noteq> [] \<and> isCommit (last (transactionRecords bodies))"
  by (induction bodies) (auto simp: transactionRecords_def isCommit_def)

text \<open>Logging the checkpoint record never fails, whatever its size, if buffers have the size that is asked for.\<close>

lemma write_pieces_total:
  assumes "\<forall>n. length (alloc n) = n" "\<forall>m. cwEntrySize w = Some m \<longrightarrow> m \<le> length (cwBuffer w)"
  shows "\<exists>w'. foldR (\<lambda>bs w. cw_write alloc w bs) pieces w = Inr w' \<and> (cwEntrySize w' = None \<longleftrightarrow> cwEntrySize w = None)
    \<and> (\<forall>m. cwEntrySize w' = Some m \<longrightarrow> m \<le> length (cwBuffer w'))"
  using assms(2)
proof (induction pieces arbitrary: w)
  case (Cons bs pieces)
  show ?case
  proof (cases "cwEntrySize w")
    case None
    then show ?thesis using Cons.IH [of "w\<lparr>cwOutput := cwOutput w @ bs\<rparr>"] by (simp add: cw_write_def)
  next
    case (Some m)
    let ?b = "resizeBufferIfNeeded alloc (cwBuffer w) (m + length bs)"
    have room: "m + length bs \<le> length ?b" using assms(1) bit_ceil_ge [of "m + length bs"] by (simp add: resizeBufferIfNeeded_def)
    let ?w = "w\<lparr>cwBuffer := take m ?b @ bs @ drop (m + length bs) ?b, cwEntrySize := Some (m + length bs)\<rparr>"
    have "cw_write alloc w bs = Inr ?w" using Some room by (simp add: cw_write_def)
    then show ?thesis using Cons.IH [of ?w] Some room by simp
  qed
qed simp

lemma wal_writeObject_total:
  assumes "\<forall>n. length (alloc n) = n"
  shows "\<exists>contents b. wal_writeObject alloc pieces w = Inr (w\<lparr>walContents := contents, walBuffer := b\<rparr>)"
proof -
  let ?w = "\<lparr>cwOutput = walContents w, cwEntrySize = None, cwBuffer = walBuffer w\<rparr>"
  have "\<exists>w'. writeObject alloc (walChecksums w) pieces ?w = Inr w'"
  proof (cases "walChecksums w")
    case True
    obtain w1 where "foldR (\<lambda>bs w. cw_write alloc w bs) pieces (cw_onObjectBegin ?w) = Inr w1" "cwEntrySize w1 \<noteq> None"
        "\<forall>m. cwEntrySize w1 = Some m \<longrightarrow> m \<le> length (cwBuffer w1)"
      using write_pieces_total [OF assms, of "cw_onObjectBegin ?w" pieces] by (auto simp: cw_onObjectBegin_def)
    then show ?thesis using True by (auto simp: writeObject_def writeEntry_def cw_onObjectEnd_def)
  next
    case False
    then show ?thesis using write_pieces_total [OF assms, of ?w pieces] by (auto simp: writeObject_def)
  qed
  then show ?thesis by (auto simp: wal_writeObject_def)
qed

lemma logCheckpoint_total:
  assumes "\<forall>n. length (alloc n) = n" "\<not> walInMemory w"
  shows "\<exists>w'. logAndFlushCheckpoint alloc P ser databaseID w = Inr w' \<and> walHasWriter w' \<and> \<not> walInMemory w'"
proof -
  obtain w1 where w1: "initWriter alloc P databaseID w = Inr w1" "walHasWriter w1" "\<not> walInMemory w1"
  proof (cases "walHasWriter w \<or> walContents w \<noteq> []")
    case True
    then show ?thesis using that assms(2) by (cases "walHasWriter w") (simp_all add: initWriter_def Let_def)
  next
    case False
    let ?w = "w\<lparr>walHasWriter := True, walBuffer := alloc P\<rparr>"
    show ?thesis
      using wal_writeObject_total [OF assms(1), of "[writeDatabaseID databaseID, serializeBool (walChecksums ?w)]" ?w] that False assms(2)
      by (auto simp: initWriter_def writeHeader_def Let_def)
  qed
  then show ?thesis using wal_writeObject_total [OF assms(1), of "ser CheckpointRecord" w1] by (auto simp: logAndFlushCheckpoint_def addNewWALRecordNoLock_def)
qed

section \<open>Records as they are logged\<close>

lemma isCommit_asLogged [simp]: "isCommit (asLogged r) = isCommit r"
  by (simp add: isCommit_def)

lemma isCheckpoint_asLogged [simp]: "isCheckpoint (asLogged r) = isCheckpoint r"
  by (simp add: isCheckpoint_def)

lemma committedPrefix_asLogged: "committedPrefix (map asLogged rs) = map asLogged (committedPrefix rs)"
  by (induction rs) simp_all

lemma logBytes_asLogged: "(\<And>r. enc (asLogged r) = enc r) \<Longrightarrow> logBytes enc (map asLogged rs) = logBytes enc rs"
  by (induction rs) simp_all

lemma serializeRecord_nonempty: "serializeRecord sE sP sV dbg r \<noteq> []"
  by (cases r) (simp_all add: coder_defs serializeU8_def)

lemma fits_asLogged:
  assumes "serializable sE (onList dE) vE" "serializable sP (onList dP) vP" "serializable sV (onList dV) vV" "recordOk vE vP vV r"
    and "length (serializeRecord sE sP sV dbg r) \<le> P" "8 \<le> P"
  shows "fits P (deserializeRecord dE dP dV dbg) (serializeRecord sE sP sV dbg) (asLogged r)"
  using record_round_trip_ok [OF assms(1-4), of dbg "[]"] assms(5,6) serializeRecord_nonempty by (simp add: fits_def)

definition countRecords :: "(u8 list, u64, nat, u32) wal_record \<Rightarrow> nat \<Rightarrow> nat res" where
  "countRecords r n = Inr (Suc n)"

definition exampleLog :: "(u8 list, u64, nat, u32) wal_record list" where
  "exampleLog = [BeginTransactionRecord, CopyTableRecord 4, CommitRecord, BeginTransactionRecord]"

end
