(* ===== verification/Name_Map.thy ===== *)
theory Name_Map
  imports Serialization
begin

text \<open>
  The associative containers of the catalog. Names are compared without regard to the case of the
  ASCII letters: \<^verbatim>\<open>case_insensitive_map_t\<close> of
  \<^verbatim>\<open>src/src/include/common/case_insensitive_map.h\<close> is a hash map with the equality and
  the hash function of \<^verbatim>\<open>src/src/common/string_utils.cpp\<close>. A hash map is the list of its
  entries in its iteration order; a \<^verbatim>\<open>std::map\<close> is the list of its entries by
  increasing key.

  The locale \<open>dictionary\<close> is the contract both kinds of map give their clients.
\<close>

section \<open>Names\<close>

definition asciiToLowerCaseMap :: "u8 list" where
  "asciiToLowerCaseMap = map of_nat ([0..<65] @ [97..<123] @ [91..<256])"

definition caseInsensitiveEquals :: "u8 list \<Rightarrow> u8 list \<Rightarrow> bool" where
  "caseInsensitiveEquals left right =
     (if length left \<noteq> length right then False
      else list_all (\<lambda>c. asciiToLowerCaseMap ! unat (left ! c) = asciiToLowerCaseMap ! unat (right ! c))
             [0..<length left])"

text \<open>
  \<^verbatim>\<open>tolower\<close> of the C locale on a \<^verbatim>\<open>char\<close>, which is signed: the result is
  an \<^verbatim>\<open>int\<close> and is added to a 32-bit word.
\<close>

definition tolower :: "u8 \<Rightarrow> u32" where
  "tolower c = (if 65 \<le> c \<and> c \<le> 90 then ucast c + 32 else scast c)"

definition caseInsensitiveHash :: "u8 list \<Rightarrow> u64" where
  "caseInsensitiveHash str =
     (let hash = fold (\<lambda>c hash.
            let hash = hash + tolower c;
                hash = hash + push_bit 10 hash
            in hash XOR drop_bit 6 hash) str (0 :: u32);
          hash = hash + push_bit 3 hash;
          hash = hash XOR drop_bit 11 hash;
          hash = hash + push_bit 15 hash
      in ucast hash)"

section \<open>Maps\<close>

type_synonym 'v name_map = "(u8 list \<times> 'v) list"

definition nm_at :: "'v name_map \<Rightarrow> u8 list \<Rightarrow> 'v option" where
  "nm_at m name = map_option snd (find (\<lambda>(key, _). caseInsensitiveEquals key name) m)"

definition nm_contains :: "'v name_map \<Rightarrow> u8 list \<Rightarrow> bool" where
  "nm_contains m name = (nm_at m name \<noteq> None)"

definition nm_emplace :: "'v name_map \<Rightarrow> u8 list \<Rightarrow> 'v \<Rightarrow> 'v name_map" where
  "nm_emplace m name v = (if nm_contains m name then m else m @ [(name, v)])"

definition nm_erase :: "'v name_map \<Rightarrow> u8 list \<Rightarrow> 'v name_map" where
  "nm_erase m name = filter (\<lambda>(key, _). \<not> caseInsensitiveEquals key name) m"

type_synonym 'v id_map = "(u32 \<times> 'v) list"

fun om_emplace :: "'v id_map \<Rightarrow> u32 \<Rightarrow> 'v \<Rightarrow> 'v id_map" where
  "om_emplace [] k v = [(k, v)]"
| "om_emplace ((k', v') # m) k v =
     (if k < k' then (k, v) # (k', v') # m
      else if k = k' then (k', v') # m
      else (k', v') # om_emplace m k v)"

definition um_emplace :: "'v id_map \<Rightarrow> u32 \<Rightarrow> 'v \<Rightarrow> 'v id_map" where
  "um_emplace m k v = (if map_of m k = None then m @ [(k, v)] else m)"

definition id_erase :: "'v id_map \<Rightarrow> u32 \<Rightarrow> 'v id_map" where
  "id_erase m k = filter (\<lambda>(k', _). k' \<noteq> k) m"

text \<open>The entries of a stored map, in the order they are emplaced.\<close>

definition deserializeEntries :: "'k reader \<Rightarrow> 'v reader \<Rightarrow> ('k \<times> 'v) list reader" where
  "deserializeEntries dk dv bs =
     bindR (deserializeU64 bs) (\<lambda>(mapSize, bs).
     readMany (\<lambda>bs. bindR (dk bs) (\<lambda>(k, bs). bindR (dv bs) (\<lambda>(v, bs). Inr ((k, v), bs)))) (unat mapSize) bs)"

section \<open>The contract of a map\<close>

locale dictionary =
  fixes same :: "'k \<Rightarrow> 'k \<Rightarrow> bool" and ok :: "'m \<Rightarrow> bool" and lookup :: "'m \<Rightarrow> 'k \<Rightarrow> 'v option"
    and emplace :: "'m \<Rightarrow> 'k \<Rightarrow> 'v \<Rightarrow> 'm" and erase :: "'m \<Rightarrow> 'k \<Rightarrow> 'm"
  assumes same_equiv: "equivp same"
    and lookup_same: "same k k' \<Longrightarrow> lookup m k = lookup m k'"
    and ok_emplace: "ok m \<Longrightarrow> ok (emplace m k v)" and ok_erase: "ok m \<Longrightarrow> ok (erase m k)"
    and lookup_emplace: "ok m \<Longrightarrow> lookup (emplace m k v) k' =
      (if same k k' \<and> lookup m k = None then Some v else lookup m k')"
    and lookup_erase: "ok m \<Longrightarrow> lookup (erase m k) k' = (if same k k' then None else lookup m k')"
begin

text \<open>Erasing a key and emplacing it again replaces its value.\<close>

lemma lookup_replace:
  "ok m \<Longrightarrow> lookup (emplace (erase m k) k v) k' = (if same k k' then Some v else lookup m k')"
  using same_equiv by (auto simp: lookup_emplace lookup_erase ok_erase equivp_reflp)

text \<open>Moving a value to another key, as a rename does.\<close>

lemma lookup_move:
  assumes "ok m" "lookup m k2 = None \<or> same k k2"
  shows "lookup (emplace (erase m k) k2 v) k' =
    (if same k2 k' then Some v else if same k k' then None else lookup m k')"
  using assms same_equiv by (auto simp: lookup_emplace lookup_erase ok_erase equivp_reflp)

end

section \<open>Equality of names\<close>

definition lowerName :: "u8 list \<Rightarrow> u8 list" where
  "lowerName name = map (\<lambda>c. asciiToLowerCaseMap ! unat c) name"

lemma caseInsensitiveEquals_iff: "caseInsensitiveEquals a b \<longleftrightarrow> lowerName a = lowerName b"
proof (cases "length a = length b")
  case True
  then show ?thesis
    unfolding caseInsensitiveEquals_def lowerName_def list_all_iff list_eq_iff_nth_eq
    by (simp add: Ball_def)
next
  case False
  then have "lowerName a \<noteq> lowerName b" unfolding lowerName_def by (metis length_map)
  then show ?thesis using False by (simp add: caseInsensitiveEquals_def)
qed

lemma caseInsensitiveEquals_refl [simp]: "caseInsensitiveEquals a a"
  by (simp add: caseInsensitiveEquals_iff)

lemma lower_byte: "asciiToLowerCaseMap ! unat c = (if 65 \<le> c \<and> c \<le> 90 then c + 32 else c)"
proof -
  have "unat c < 256" using unsigned_less [of c] by simp
  then have "asciiToLowerCaseMap ! unat c = of_nat (if unat c < 65 then unat c else if unat c < 91 then unat c + 32 else unat c)"
    by (simp add: asciiToLowerCaseMap_def nth_append del: upt_rec_numeral; linarith)
  then show ?thesis by (simp add: word_le_nat_alt)
qed

lemma tolower_byte: "tolower c = scast (asciiToLowerCaseMap ! unat c)"
proof (cases "65 \<le> c \<and> c \<le> 90")
  case True
  have "\<forall>n \<in> set [65..<91]. scast (of_nat n + 32 :: u8) = (ucast (of_nat n :: u8) + 32 :: u32)"
    by code_simp
  moreover have "unat c \<in> set [65..<91]" using True unfolding set_upt word_le_nat_alt by simp
  ultimately have "scast (of_nat (unat c) + 32 :: u8) = (ucast (of_nat (unat c) :: u8) + 32 :: u32)"
    by blast
  then show ?thesis using True by (simp add: tolower_def lower_byte)
next
  case False
  then show ?thesis unfolding tolower_def lower_byte by (simp only: if_False)
qed

lemma hash_lowerName: "caseInsensitiveHash a = caseInsensitiveHash b" if "lowerName a = lowerName b"
proof -
  have "map tolower a = map scast (lowerName a)" for a
    by (simp add: lowerName_def tolower_byte)
  then have eq: "map tolower a = map tolower b" using that by metis
  have fold: "fold (\<lambda>c hash. f (tolower c) hash) xs h = fold f (map tolower xs) h"
    for f :: "u32 \<Rightarrow> u32 \<Rightarrow> u32" and xs h by (simp add: fold_map comp_def)
  show ?thesis
    unfolding caseInsensitiveHash_def Let_def
      fold [of "\<lambda>c hash. (hash + c + push_bit 10 (hash + c)) XOR drop_bit 6 (hash + c + push_bit 10 (hash + c))"]
    by (simp only: eq)
qed

text \<open>
  The equality of names is one a hash map can use: it is an equivalence relation, namely equality
  after mapping the ASCII letters to lower case, and names that are equal have the same hash value.
\<close>

theorem equal_names_hash_alike:
  "equivp caseInsensitiveEquals
    \<and> (caseInsensitiveEquals a b \<longleftrightarrow> map (\<lambda>c. if 65 \<le> c \<and> c \<le> 90 then c + 32 else c) a =
          map (\<lambda>c. if 65 \<le> c \<and> c \<le> 90 then c + 32 else c) b)
    \<and> (if caseInsensitiveEquals a b then caseInsensitiveHash a = caseInsensitiveHash b else True)"
proof -
  have "equivp caseInsensitiveEquals"
    by (rule equivpI) (auto simp: caseInsensitiveEquals_iff reflp_def symp_def transp_def)
  moreover have "lowerName a = map (\<lambda>c. if 65 \<le> c \<and> c \<le> 90 then c + 32 else c) a" for a
    unfolding lowerName_def lower_byte ..
  moreover have "if caseInsensitiveEquals a b then caseInsensitiveHash a = caseInsensitiveHash b else True"
    using hash_lowerName [of a b] by (simp add: caseInsensitiveEquals_iff)
  ultimately show ?thesis by (simp only: caseInsensitiveEquals_iff)
qed

section \<open>The maps implement the contract\<close>

definition nm_ok :: "'v name_map \<Rightarrow> bool" where
  "nm_ok m = distinct (map (lowerName \<circ> fst) m)"

lemma nm_at_map_of: "nm_at m name = map_of (map (\<lambda>(k, v). (lowerName k, v)) m) (lowerName name)"
proof (induction m)
  case (Cons x m)
  then show ?case by (cases x) (simp add: nm_at_def caseInsensitiveEquals_iff)
qed (simp add: nm_at_def)

lemma nm_at_None: "nm_at m name = None \<longleftrightarrow> lowerName name \<notin> (lowerName \<circ> fst) ` set m"
proof -
  have "fst ` set (map (\<lambda>(k, v). (lowerName k, v)) m) = (lowerName \<circ> fst) ` set m" by force
  then show ?thesis by (simp add: nm_at_map_of map_of_eq_None_iff)
qed

lemma nm_ok_erase: "nm_ok m \<Longrightarrow> nm_ok (nm_erase m name)"
  by (auto simp: nm_ok_def nm_erase_def intro: distinct_map_filter)

lemma nm_at_erase:
  "nm_at (nm_erase m name) name' = (if caseInsensitiveEquals name name' then None else nm_at m name')"
proof (induction m)
  case (Cons x m)
  then show ?case
    by (cases x; cases "lowerName name = lowerName name'") (auto simp: nm_at_map_of nm_erase_def caseInsensitiveEquals_iff)
qed (simp add: nm_at_map_of nm_erase_def)

lemma nm_at_emplace:
  "nm_at (nm_emplace m name v) name' =
    (if caseInsensitiveEquals name name' \<and> nm_at m name = None then Some v else nm_at m name')"
  by (auto simp: nm_emplace_def nm_contains_def nm_at_map_of caseInsensitiveEquals_iff map_add_def
      split: option.split)

lemma nm_ok_emplace: "nm_ok m \<Longrightarrow> nm_ok (nm_emplace m name v)"
  by (auto simp: nm_ok_def nm_emplace_def nm_contains_def nm_at_None)

interpretation names: dictionary caseInsensitiveEquals nm_ok nm_at nm_emplace nm_erase
proof
  show "equivp caseInsensitiveEquals"
    by (rule equivpI) (auto simp: caseInsensitiveEquals_iff reflp_def symp_def transp_def)
  show "caseInsensitiveEquals k k' \<Longrightarrow> nm_at m k = nm_at m k'" for k k' and m :: "'v name_map"
    by (simp add: nm_at_map_of caseInsensitiveEquals_iff)
qed (simp_all add: nm_at_erase nm_at_emplace nm_ok_emplace nm_ok_erase)

definition om_ok :: "'v id_map \<Rightarrow> bool" where
  "om_ok m = (sorted (map fst m) \<and> distinct (map fst m))"

lemma om_emplace_keys: "fst ` set (om_emplace m k v) = insert k (fst ` set m)"
  by (induction m k v rule: om_emplace.induct) auto

lemma om_ok_emplace: "om_ok m \<Longrightarrow> om_ok (om_emplace m k v)"
proof (induction m k v rule: om_emplace.induct)
  case (1 k v)
  then show ?case by (simp add: om_ok_def)
next
  case (2 k' v' m k v)
  then show ?case using om_emplace_keys [of m k v] by (auto simp: om_ok_def)
qed

lemma map_of_om_emplace:
  "om_ok m \<Longrightarrow> map_of (om_emplace m k v) j = (if k = j \<and> map_of m k = None then Some v else map_of m j)"
proof (induction m k v rule: om_emplace.induct)
  case (1 k v)
  then show ?case by simp
next
  case (2 k' v' m k v)
  have "map_of m k = None" if "k < k'"
  proof -
    have "k \<notin> fst ` set m" using 2(2) that by (force simp: om_ok_def)
    then show ?thesis by (simp add: map_of_eq_None_iff)
  qed
  then show ?case using 2 by (auto simp: om_ok_def)
qed

lemma map_of_id_erase: "map_of (id_erase m k) j = (if k = j then None else map_of m j)"
  by (induction m) (auto simp: id_erase_def)

lemma om_ok_erase: "om_ok m \<Longrightarrow> om_ok (id_erase m k)"
  by (auto simp: om_ok_def id_erase_def intro: distinct_map_filter sorted_filter)

interpretation ordered_ids: dictionary "(=)" om_ok map_of om_emplace id_erase
  by unfold_locales (auto simp: om_ok_emplace om_ok_erase map_of_om_emplace map_of_id_erase identity_equivp)

lemma map_of_um_emplace: "map_of (um_emplace m k v) j = (if k = j \<and> map_of m k = None then Some v else map_of m j)"
  by (auto simp: um_emplace_def map_add_def split: option.split)

lemma um_ok_emplace: "distinct (map fst m) \<Longrightarrow> distinct (map fst (um_emplace m k v))"
  by (auto simp: um_emplace_def map_of_eq_None_iff)

lemma um_ok_erase: "distinct (map fst m) \<Longrightarrow> distinct (map fst (id_erase m k))"
  by (auto simp: id_erase_def intro: distinct_map_filter)

interpretation unordered_ids: dictionary "(=)" "\<lambda>m. distinct (map fst m)" map_of um_emplace id_erase
  by unfold_locales (auto simp: um_ok_emplace um_ok_erase map_of_um_emplace map_of_id_erase identity_equivp)

text \<open>Reading a stored map rebuilds it.\<close>

lemma om_emplace_last: "om_ok (m @ [(k, v)]) \<Longrightarrow> om_emplace m k v = m @ [(k, v)]"
  by (induction m k v rule: om_emplace.induct) (auto simp: om_ok_def sorted_append)

lemma fold_om_emplace: "om_ok m \<Longrightarrow> fold (\<lambda>(k, v) m. om_emplace m k v) m [] = m"
proof (induction m rule: rev_induct)
  case (snoc x xs)
  then have "om_ok xs" by (auto simp: om_ok_def sorted_append)
  then show ?case using snoc om_emplace_last [of xs "fst x" "snd x"] by (cases x) simp
qed simp

lemma fold_um_emplace: "distinct (map fst m) \<Longrightarrow> fold (\<lambda>(k, v) m. um_emplace m k v) m [] = m"
proof (induction m rule: rev_induct)
  case (snoc x xs)
  then show ?case by (cases x) (simp add: um_emplace_def map_of_eq_None_iff)
qed simp

lemma entries_round_trip:
  assumes "length kvs < 2 ^ 64"
    and "\<And>k v rest. (k, v) \<in> set kvs \<Longrightarrow> dk (sk k @ rest) = Inr (k, rest)"
    and "\<And>k v rest. (k, v) \<in> set kvs \<Longrightarrow> dv (sv v @ rest) = Inr (v, rest)"
  shows "deserializeEntries dk dv (serializeMap sk sv kvs @ rest) = Inr (kvs, rest)"
proof -
  have "readMany (\<lambda>bs. bindR (dk bs) (\<lambda>(k, bs). bindR (dv bs) (\<lambda>(v, bs). Inr ((k, v), bs))))
      (length kvs) (concat (map (\<lambda>(k, v). sk k @ sv v) kvs) @ rest) = Inr (kvs, rest)"
    using assms(2,3) by (induction kvs) force+
  then show ?thesis
    using assms(1) by (simp add: deserializeEntries_def serializeMap_def ser_u64.round_trip unat_of_nat_64)
qed

end
