(* ===== verification/Property_Collection.thy ===== *)
theory Property_Collection
  imports Name_Map Wal_Records
begin

text \<open>
  The properties of a table: \<^verbatim>\<open>PropertyDefinition\<close> of
  \<^verbatim>\<open>src/src/include/binder/ddl/property_definition.h\<close> and
  \<^verbatim>\<open>PropertyDefinitionCollection\<close> of
  \<^verbatim>\<open>src/src/catalog/property_definition_collection.cpp\<close>. Logical types and default
  expressions are the type parameters \<open>'t\<close> and \<open>'x\<close>, with their serializers as
  arguments.
\<close>

section \<open>Definitions of properties\<close>

record ('t, 'x) property_definition =
  pdName :: "u8 list"
  pdType :: 't
  pdDefault :: 'x

definition PropertyDefinition_rename ::
  "('t, 'x) property_definition \<Rightarrow> u8 list \<Rightarrow> ('t, 'x) property_definition" where
  "PropertyDefinition_rename d newName = d\<lparr>pdName := newName\<rparr>"

definition PropertyDefinition_serialize ::
  "('t \<Rightarrow> u8 list) \<Rightarrow> ('x \<Rightarrow> u8 list) \<Rightarrow> ('t, 'x) property_definition \<Rightarrow> u8 list" where
  "PropertyDefinition_serialize sT sX d = serializeString (pdName d) @ sT (pdType d) @ sX (pdDefault d)"

definition PropertyDefinition_deserialize ::
  "'t reader \<Rightarrow> 'x reader \<Rightarrow> ('t, 'x) property_definition reader" where
  "PropertyDefinition_deserialize dT dX =
     bindD deserializeString (\<lambda>name.
     bindD dT (\<lambda>type.
     bindD dX (\<lambda>defaultExpr.
     returnD \<lparr>pdName = name, pdType = type, pdDefault = defaultExpr\<rparr>)))"

section \<open>The collection\<close>

record ('t, 'x) property_collection =
  nextColumnID :: u32
  nextPropertyID :: u32
  definitions :: "('t, 'x) property_definition id_map"
  columnIDs :: "u32 id_map"
  nameToPropertyIDMap :: "u32 name_map"

definition PropertyDefinitionCollection_new :: "u32 \<Rightarrow> ('t, 'x) property_collection" where
  "PropertyDefinitionCollection_new nextColumn =
     \<lparr>nextColumnID = nextColumn, nextPropertyID = 0, definitions = [], columnIDs = [], nameToPropertyIDMap = []\<rparr>"

definition pc_size :: "('t, 'x) property_collection \<Rightarrow> nat" where
  "pc_size c = length (definitions c)"

definition pc_contains :: "('t, 'x) property_collection \<Rightarrow> u8 list \<Rightarrow> bool" where
  "pc_contains c name = nm_contains (nameToPropertyIDMap c) name"

definition pc_getDefinitions :: "('t, 'x) property_collection \<Rightarrow> ('t, 'x) property_definition list" where
  "pc_getDefinitions c = List.map_filter (\<lambda>i. map_of (definitions c) (of_nat i)) [0..<unat (nextPropertyID c)]"

definition pc_getPropertyID :: "('t, 'x) property_collection \<Rightarrow> u8 list \<Rightarrow> u32 res" where
  "pc_getPropertyID c name =
     bindR (assertR (pc_contains c name)) (\<lambda>_. derefR (nm_at (nameToPropertyIDMap c) name))"

definition pc_getDefinitionOfID :: "('t, 'x) property_collection \<Rightarrow> u32 \<Rightarrow> ('t, 'x) property_definition res" where
  "pc_getDefinitionOfID c propertyID =
     bindR (assertR (map_of (definitions c) propertyID \<noteq> None)) (\<lambda>_. derefR (map_of (definitions c) propertyID))"

definition pc_getDefinition :: "('t, 'x) property_collection \<Rightarrow> u8 list \<Rightarrow> ('t, 'x) property_definition res" where
  "pc_getDefinition c name = bindR (pc_getPropertyID c name) (pc_getDefinitionOfID c)"

definition pc_getColumnIDOfID :: "('t, 'x) property_collection \<Rightarrow> u32 \<Rightarrow> u32 res" where
  "pc_getColumnIDOfID c propertyID =
     bindR (assertR (map_of (columnIDs c) propertyID \<noteq> None)) (\<lambda>_. derefR (map_of (columnIDs c) propertyID))"

definition pc_getColumnID :: "('t, 'x) property_collection \<Rightarrow> u8 list \<Rightarrow> u32 res" where
  "pc_getColumnID c name = bindR (pc_getPropertyID c name) (pc_getColumnIDOfID c)"

definition pc_getMaxColumnID :: "('t, 'x) property_collection \<Rightarrow> u32" where
  "pc_getMaxColumnID c = fold (\<lambda>(_, i) maxID. if maxID < i then i else maxID) (columnIDs c) 0"

definition pc_vacuumColumnIDs :: "u32 \<Rightarrow> ('t, 'x) property_collection \<Rightarrow> ('t, 'x) property_collection" where
  "pc_vacuumColumnIDs nextColumn c =
     fold (\<lambda>(propertyID, _) c.
         c\<lparr>columnIDs := um_emplace (columnIDs c) propertyID (nextColumnID c), nextColumnID := nextColumnID c + 1\<rparr>)
       (definitions c) (c\<lparr>nextColumnID := nextColumn, columnIDs := []\<rparr>)"

definition pc_add :: "('t, 'x) property_definition \<Rightarrow> ('t, 'x) property_collection \<Rightarrow> ('t, 'x) property_collection" where
  "pc_add definition c =
     (let propertyID = nextPropertyID c in
      c\<lparr>nextPropertyID := propertyID + 1,
        columnIDs := um_emplace (columnIDs c) propertyID (nextColumnID c),
        nextColumnID := nextColumnID c + 1,
        definitions := om_emplace (definitions c) propertyID definition,
        nameToPropertyIDMap := nm_emplace (nameToPropertyIDMap c) (pdName definition) propertyID\<rparr>)"

definition pc_drop :: "u8 list \<Rightarrow> ('t, 'x) property_collection \<Rightarrow> ('t, 'x) property_collection res" where
  "pc_drop name c =
     bindR (assertR (pc_contains c name)) (\<lambda>_.
     bindR (derefR (nm_at (nameToPropertyIDMap c) name)) (\<lambda>propertyID.
     Inr (c\<lparr>definitions := id_erase (definitions c) propertyID,
            columnIDs := id_erase (columnIDs c) propertyID,
            nameToPropertyIDMap := nm_erase (nameToPropertyIDMap c) name\<rparr>)))"

text \<open>
  \<^verbatim>\<open>definitions[idx]\<close> adds an empty definition when there is none for \<^verbatim>\<open>idx\<close>,
  one without a default expression, which cannot be copied; it is the error \<open>NullDeref\<close>.
\<close>

definition pc_rename :: "u8 list \<Rightarrow> u8 list \<Rightarrow> ('t, 'x) property_collection \<Rightarrow> ('t, 'x) property_collection res" where
  "pc_rename name newName c =
     bindR (assertR (pc_contains c name)) (\<lambda>_.
     bindR (derefR (nm_at (nameToPropertyIDMap c) name)) (\<lambda>idx.
     bindR (derefR (map_of (definitions c) idx)) (\<lambda>d.
     Inr (c\<lparr>definitions := map (\<lambda>(i, d). (i, if i = idx then PropertyDefinition_rename d newName else d)) (definitions c),
            nameToPropertyIDMap := nm_emplace (nm_erase (nameToPropertyIDMap c) name) newName idx\<rparr>))))"

definition pc_serialize :: "('t \<Rightarrow> u8 list) \<Rightarrow> ('x \<Rightarrow> u8 list) \<Rightarrow> bool \<Rightarrow> ('t, 'x) property_collection \<Rightarrow> u8 list" where
  "pc_serialize sT sX dbg c =
     writeTag dbg ''nextColumnID'' @ serializeU32 (nextColumnID c) @
     writeTag dbg ''nextPropertyID'' @ serializeU32 (nextPropertyID c) @
     writeTag dbg ''definitions'' @ serializeMap serializeU32 (PropertyDefinition_serialize sT sX) (definitions c) @
     writeTag dbg ''columnIDs'' @ serializeMap serializeU32 serializeU32 (columnIDs c)"

definition pc_deserialize :: "'t reader \<Rightarrow> 'x reader \<Rightarrow> bool \<Rightarrow> ('t, 'x) property_collection reader" where
  "pc_deserialize dT dX dbg =
     bindD (expectTag dbg ''nextColumnID'') (\<lambda>_.
     bindD deserializeU32 (\<lambda>nextColumn.
     bindD (expectTag dbg ''nextPropertyID'') (\<lambda>_.
     bindD deserializeU32 (\<lambda>nextProperty.
     bindD (expectTag dbg ''definitions'') (\<lambda>_.
     bindD (deserializeEntries deserializeU32 (PropertyDefinition_deserialize dT dX)) (\<lambda>defs.
     bindD (expectTag dbg ''columnIDs'') (\<lambda>_.
     bindD (deserializeEntries deserializeU32 deserializeU32) (\<lambda>columns.
     let defs = fold (\<lambda>(k, v) m. om_emplace m k v) defs [] in
     returnD
       \<lparr>nextColumnID = nextColumn, nextPropertyID = nextProperty,
        definitions = defs,
        columnIDs = fold (\<lambda>(k, v) m. um_emplace m k v) columns [],
        nameToPropertyIDMap = fold (\<lambda>(propertyID, d) m. nm_emplace m (pdName d) propertyID) defs []\<rparr>))))))))"

section \<open>Invariant\<close>

text \<open>
  The collection is consistent: identifiers are below the counters, every definition has a column
  of its own, and the names lead to the definitions of that name.
\<close>

definition pc_inv :: "('t, 'x) property_collection \<Rightarrow> bool" where
  "pc_inv c \<longleftrightarrow>
     om_ok (definitions c) \<and> nm_ok (nameToPropertyIDMap c) \<and> (\<forall>i \<in> fst ` set (definitions c). i < nextPropertyID c)
     \<and> distinct (map fst (columnIDs c)) \<and> fst ` set (columnIDs c) = fst ` set (definitions c)
     \<and> distinct (map snd (columnIDs c)) \<and> (\<forall>i \<in> snd ` set (columnIDs c). i < nextColumnID c)
     \<and> (\<forall>name i. nm_at (nameToPropertyIDMap c) name = Some i \<longleftrightarrow>
          (\<exists>d. map_of (definitions c) i = Some d \<and> lowerName (pdName d) = lowerName name))"

lemma pc_inv_new: "pc_inv (PropertyDefinitionCollection_new n)"
  by (simp add: pc_inv_def PropertyDefinitionCollection_new_def om_ok_def nm_ok_def nm_at_def)

lemma less_plus_one: "i < n + 1 \<longleftrightarrow> i \<le> n" if "n \<noteq> - 1" for i n :: "'a::len word"
proof -
  have "1 + n \<noteq> 0" using that by (simp add: add_eq_0_iff)
  then have "unat (1 + n) = Suc (unat n)" by (rule unatSuc)
  then show ?thesis by (simp add: word_less_nat_alt word_le_nat_alt add.commute less_Suc_eq_le)
qed

lemma pc_inv_add:
  assumes inv: "pc_inv c" and new: "\<not> pc_contains c (pdName d)"
    and room: "nextPropertyID c \<noteq> - 1" "nextColumnID c \<noteq> - 1"
  shows "pc_inv (pc_add d c)"
proof -
  let ?p = "nextPropertyID c" and ?k = "nextColumnID c"
  have cols: "fst ` set (columnIDs c) = fst ` set (definitions c)"
    and om: "om_ok (definitions c)" and nm: "nm_ok (nameToPropertyIDMap c)"
    and names: "\<And>name i. nm_at (nameToPropertyIDMap c) name = Some i \<longleftrightarrow>
          (\<exists>d. map_of (definitions c) i = Some d \<and> lowerName (pdName d) = lowerName name)"
    using inv by (simp_all add: pc_inv_def)
  have "\<forall>i \<in> fst ` set (definitions c). i < ?p" "\<forall>i \<in> snd ` set (columnIDs c). i < ?k"
    using inv by (simp_all add: pc_inv_def)
  then have fresh: "?p \<notin> fst ` set (definitions c)" and kfresh: "?k \<notin> snd ` set (columnIDs c)"
    by (blast dest: less_imp_neq)+
  have none: "map_of (definitions c) ?p = None" "map_of (columnIDs c) ?p = None"
    using fresh cols by (simp_all add: map_of_eq_None_iff)
  have unnamed: "nm_at (nameToPropertyIDMap c) (pdName d) = None"
    using new by (simp add: pc_contains_def nm_contains_def)
  have columns: "um_emplace (columnIDs c) ?p ?k = columnIDs c @ [(?p, ?k)]"
    using none by (simp add: um_emplace_def)
  have "nm_at (nm_emplace (nameToPropertyIDMap c) (pdName d) ?p) name = Some i \<longleftrightarrow>
      (\<exists>e. map_of (om_emplace (definitions c) ?p d) i = Some e \<and> lowerName (pdName e) = lowerName name)" for name i
    using unnamed none(1) names [of name i] names.lookup_same [of "pdName d" name "nameToPropertyIDMap c"]
    by (cases "i = ?p") (auto simp: nm_at_emplace map_of_om_emplace [OF om] caseInsensitiveEquals_iff)
  then show ?thesis
    using inv fresh kfresh unfolding pc_inv_def
    by (simp add: pc_add_def Let_def columns om_ok_emplace nm_ok_emplace om_emplace_keys cols
        less_plus_one [OF room(1)] less_plus_one [OF room(2)] less_imp_le)
qed

lemma pc_inv_D:
  assumes "pc_inv c"
  shows "om_ok (definitions c)" "nm_ok (nameToPropertyIDMap c)"
    "fst ` set (columnIDs c) = fst ` set (definitions c)" "distinct (map fst (columnIDs c))"
    "nm_at (nameToPropertyIDMap c) name = Some i \<longleftrightarrow>
      (\<exists>d. map_of (definitions c) i = Some d \<and> lowerName (pdName d) = lowerName name)"
    "\<forall>i \<in> snd ` set (columnIDs c). i < nextColumnID c"
  using assms by (simp_all add: pc_inv_def)

lemma id_erase_keys: "fst ` set (id_erase m k) = fst ` set m - {k}"
  by (force simp: id_erase_def)

lemma id_erase_values: "distinct (map snd m) \<Longrightarrow> distinct (map snd (id_erase m k))"
    "snd ` set (id_erase m k) \<subseteq> snd ` set m"
  by (auto simp: id_erase_def intro: distinct_map_filter)

lemma pc_inv_drop:
  assumes inv: "pc_inv c" and drop: "pc_drop name c = Inr c'"
  shows "pc_inv c'"
proof -
  note D = pc_inv_D [OF inv]
  from drop obtain p where p: "nm_at (nameToPropertyIDMap c) name = Some p"
    and c': "c' = c\<lparr>definitions := id_erase (definitions c) p, columnIDs := id_erase (columnIDs c) p,
            nameToPropertyIDMap := nm_erase (nameToPropertyIDMap c) name\<rparr>"
    by (auto simp: pc_drop_def derefR_def split: option.splits)
  have unique: "i = p" if "map_of (definitions c) i = Some d" "lowerName (pdName d) = lowerName name" for i d
    using D(5) [of name i] that p by auto
  have "nm_at (nm_erase (nameToPropertyIDMap c) name) n = Some i \<longleftrightarrow>
      (\<exists>d. map_of (id_erase (definitions c) p) i = Some d \<and> lowerName (pdName d) = lowerName n)" for n i
  proof (cases "i = p")
    case True
    obtain d where d: "map_of (definitions c) p = Some d" "lowerName (pdName d) = lowerName name"
      using D(5) [of name p] p by blast
    show ?thesis using D(5) [of n p] d True by (simp add: nm_at_erase map_of_id_erase caseInsensitiveEquals_iff)
  next
    case False
    then have "\<nexists>d. map_of (definitions c) i = Some d \<and> lowerName (pdName d) = lowerName name"
      using unique by blast
    then show ?thesis using D(5) [of n i] False
      by (cases "lowerName name = lowerName n") (simp_all add: nm_at_erase map_of_id_erase caseInsensitiveEquals_iff)
  qed
  moreover have "om_ok (id_erase (definitions c) p)" "nm_ok (nm_erase (nameToPropertyIDMap c) name)"
    using D(1,2) by (simp_all add: om_ok_erase nm_ok_erase)
  moreover have "distinct (map fst (id_erase (columnIDs c) p))" using D(4) by (rule um_ok_erase)
  moreover have "\<forall>i \<in> snd ` set (id_erase (columnIDs c) p). i < nextColumnID c"
    using D(6) id_erase_values(2) [of "columnIDs c" p] by blast
  ultimately show ?thesis
    using inv unfolding pc_inv_def c' by (auto simp: id_erase_keys id_erase_values(1))
qed

lemma map_of_map_snd: "map_of (map (\<lambda>(i, d). (i, f i d)) m) k = map_option (f k) (map_of m k)"
  by (induction m) auto

lemma pc_inv_rename:
  assumes inv: "pc_inv c" and rename: "pc_rename name newName c = Inr c'"
    and new: "\<not> pc_contains c newName \<or> caseInsensitiveEquals name newName"
  shows "pc_inv c'"
proof -
  note D = pc_inv_D [OF inv]
  let ?defs = "\<lambda>p. map (\<lambda>(i, d). (i, if i = p then PropertyDefinition_rename d newName else d)) (definitions c)"
  from rename obtain p where p: "nm_at (nameToPropertyIDMap c) name = Some p"
    and c': "c' = c\<lparr>definitions := ?defs p,
            nameToPropertyIDMap := nm_emplace (nm_erase (nameToPropertyIDMap c) name) newName p\<rparr>"
    by (auto simp: pc_rename_def derefR_def split: option.splits)
  have keys: "map fst (?defs p) = map fst (definitions c)" by (simp add: case_prod_unfold comp_def)
  have unique: "i = p" if "map_of (definitions c) i = Some d" "lowerName (pdName d) = lowerName name" for i d
    using D(5) [of name i] that p by auto
  have free: "nm_at (nameToPropertyIDMap c) newName = None \<or> caseInsensitiveEquals name newName"
    using new by (simp add: pc_contains_def nm_contains_def)
  have "nm_at (nm_emplace (nm_erase (nameToPropertyIDMap c) name) newName p) n = Some i \<longleftrightarrow>
      (\<exists>d. map_of (?defs p) i = Some d \<and> lowerName (pdName d) = lowerName n)" for n i
  proof -
    obtain d where d: "map_of (definitions c) p = Some d" "lowerName (pdName d) = lowerName name"
      using D(5) [of name p] p by blast
    have other: "i = p" if "map_of (definitions c) i = Some e" "lowerName (pdName e) = lowerName newName" for e
      using D(5) [of newName i] that unique [OF that(1)] free by (auto simp: caseInsensitiveEquals_iff)
    have "nm_at (nm_emplace (nm_erase (nameToPropertyIDMap c) name) newName p) n =
      (if lowerName newName = lowerName n then Some p else if lowerName name = lowerName n then None
       else nm_at (nameToPropertyIDMap c) n)"
      using names.lookup_move [OF D(2) free] by (simp add: caseInsensitiveEquals_iff)
    moreover have "map_of (?defs p) i = (if i = p then Some (PropertyDefinition_rename d newName) else map_of (definitions c) i)"
      unfolding map_of_map_snd using d(1) by simp (cases "map_of (definitions c) i"; simp)
    moreover have "(\<nexists>e. map_of (definitions c) i = Some e \<and> lowerName (pdName e) = lowerName newName)
        \<and> (\<nexists>e. map_of (definitions c) i = Some e \<and> lowerName (pdName e) = lowerName name)" if "i \<noteq> p"
      using that other unique by blast
    ultimately show ?thesis
      using d D(5) [of n i] by (cases "i = p") (auto simp: PropertyDefinition_rename_def)
  qed
  moreover have "om_ok (?defs p)" using D(1) unfolding om_ok_def keys .
  moreover have "fst ` set (?defs p) = fst ` set (definitions c)" using keys by (metis list.set_map)
  ultimately show ?thesis
    using inv D(2) unfolding pc_inv_def c' by (simp add: nm_ok_emplace nm_ok_erase)
qed

lemma pc_vacuum_columns:
  assumes "unat n + length defs < 2 ^ 32" "\<forall>p \<in> fst ` set defs. p \<notin> fst ` set (columnIDs c)" "distinct (map fst defs)"
    and "nextColumnID c = n"
  shows "fold (\<lambda>(propertyID, _) c.
         c\<lparr>columnIDs := um_emplace (columnIDs c) propertyID (nextColumnID c), nextColumnID := nextColumnID c + 1\<rparr>) defs c =
     c\<lparr>columnIDs := columnIDs c @ zip (map fst defs) (map (\<lambda>i. n + of_nat i) [0..<length defs]),
       nextColumnID := n + of_nat (length defs)\<rparr>"
  using assms
proof (induction defs arbitrary: c n)
  case Nil
  then show ?case by simp
next
  case (Cons x defs)
  obtain p d where x: "x = (p, d)" by (cases x)
  have none: "map_of (columnIDs c) p = None" using Cons.prems(2) x by (simp add: map_of_eq_None_iff)
  let ?c = "c\<lparr>columnIDs := columnIDs c @ [(p, n)], nextColumnID := n + 1\<rparr>"
  have suc: "unat (n + 1) = unat n + 1"
    using Cons.prems(1) by (subst unat_add_lem [THEN iffD1]) simp_all
  have "fold (\<lambda>(propertyID, _) c.
         c\<lparr>columnIDs := um_emplace (columnIDs c) propertyID (nextColumnID c), nextColumnID := nextColumnID c + 1\<rparr>) (x # defs) c =
      fold (\<lambda>(propertyID, _) c.
         c\<lparr>columnIDs := um_emplace (columnIDs c) propertyID (nextColumnID c), nextColumnID := nextColumnID c + 1\<rparr>) defs ?c"
    using none Cons.prems(4) x by (simp add: um_emplace_def)
  also have "\<dots> = ?c\<lparr>columnIDs := columnIDs ?c @ zip (map fst defs) (map (\<lambda>i. (n + 1) + of_nat i) [0..<length defs]),
       nextColumnID := (n + 1) + of_nat (length defs)\<rparr>"
    by (rule Cons.IH) (use Cons.prems x suc in auto)
  also have "\<dots> = c\<lparr>columnIDs := columnIDs c @ zip (map fst (x # defs)) (map (\<lambda>i. n + of_nat i) [0..<length (x # defs)]),
       nextColumnID := n + of_nat (length (x # defs))\<rparr>"
    unfolding x by (simp add: upt_conv_Cons map_Suc_upt [symmetric] comp_def algebra_simps del: upt_Suc)
  finally show ?case .
qed

lemma pc_inv_vacuum:
  assumes inv: "pc_inv c" and room: "unat n + pc_size c < 2 ^ 32"
  shows "pc_inv (pc_vacuumColumnIDs n c)"
proof -
  note D = pc_inv_D [OF inv]
  let ?cols = "map (\<lambda>i. n + of_nat i) [0..<length (definitions c)]"
  have "distinct (map fst (definitions c))" using D(1) by (simp add: om_ok_def)
  then have eq: "pc_vacuumColumnIDs n c = c\<lparr>columnIDs := zip (map fst (definitions c)) ?cols,
      nextColumnID := n + of_nat (length (definitions c))\<rparr>"
    using pc_vacuum_columns [of n "definitions c" "c\<lparr>nextColumnID := n, columnIDs := []\<rparr>"] room
    by (simp add: pc_vacuumColumnIDs_def pc_size_def)
  have unat: "unat (n + of_nat i) = unat n + i" if "i \<le> length (definitions c)" for i
    using room that unfolding pc_size_def by (simp add: unat_word_ariths unsigned_of_nat take_bit_nat_def)
  have "inj_on (\<lambda>i. n + of_nat i) {0..<length (definitions c)}"
    by (rule inj_onI) (metis atLeastLessThan_iff less_imp_le_nat add_left_cancel unat)
  then have "distinct ?cols" by (simp add: distinct_map)
  moreover have "\<forall>k \<in> set ?cols. k < n + of_nat (length (definitions c))"
    using unat by (auto simp: word_less_nat_alt)
  moreover have "map fst (zip (map fst (definitions c)) ?cols) = map fst (definitions c)"
      "map snd (zip (map fst (definitions c)) ?cols) = ?cols" by simp_all
  moreover from this have "fst ` set (zip (map fst (definitions c)) ?cols) = fst ` set (definitions c)"
      "snd ` set (zip (map fst (definitions c)) ?cols) = set ?cols" by (metis list.set_map)+
  ultimately show ?thesis
    using inv D(1) unfolding pc_inv_def eq by (simp add: om_ok_def)
qed

section \<open>Lookups\<close>

inductive pc_step :: "('t, 'x) property_collection \<Rightarrow> ('t, 'x) property_collection \<Rightarrow> bool" where
  add: "\<not> pc_contains c (pdName d) \<Longrightarrow> nextPropertyID c \<noteq> - 1 \<Longrightarrow> nextColumnID c \<noteq> - 1 \<Longrightarrow> pc_step c (pc_add d c)"
| drop: "pc_drop name c = Inr c' \<Longrightarrow> pc_step c c'"
| rename: "pc_rename name newName c = Inr c' \<Longrightarrow> \<not> pc_contains c newName \<or> caseInsensitiveEquals name newName
    \<Longrightarrow> pc_step c c'"
| vacuum: "unat n + pc_size c < 2 ^ 32 \<Longrightarrow> pc_step c (pc_vacuumColumnIDs n c)"

lemma pc_step_inv: "pc_step c c' \<Longrightarrow> pc_inv c \<Longrightarrow> pc_inv c'"
  by (erule pc_step.cases) (auto intro: pc_inv_add pc_inv_drop pc_inv_rename pc_inv_vacuum)

lemma pc_reach_inv: "pc_step\<^sup>*\<^sup>* (PropertyDefinitionCollection_new n) c \<Longrightarrow> pc_inv c"
  by (induction rule: rtranclp_induct) (auto intro: pc_inv_new pc_step_inv)

lemma pc_lookup:
  assumes inv: "pc_inv c"
  shows "pc_getDefinition c name = Inr d \<longleftrightarrow>
      (\<exists>i. nm_at (nameToPropertyIDMap c) name = Some i \<and> map_of (definitions c) i = Some d)"
    "pc_getColumnID c name = Inr k \<longleftrightarrow>
      (\<exists>i. nm_at (nameToPropertyIDMap c) name = Some i \<and> map_of (columnIDs c) i = Some k)"
  by (auto simp: pc_getDefinition_def pc_getColumnID_def pc_getPropertyID_def pc_getDefinitionOfID_def
      pc_getColumnIDOfID_def pc_contains_def nm_contains_def derefR_def assertR_def split: option.splits)

lemma pc_lookup_contained:
  assumes inv: "pc_inv c" and contained: "pc_contains c name"
  shows "\<exists>i d k. nm_at (nameToPropertyIDMap c) name = Some i \<and> map_of (definitions c) i = Some d
    \<and> lowerName (pdName d) = lowerName name \<and> map_of (columnIDs c) i = Some k \<and> k < nextColumnID c"
proof -
  obtain i where i: "nm_at (nameToPropertyIDMap c) name = Some i"
    using contained by (auto simp: pc_contains_def nm_contains_def)
  then obtain d where d: "map_of (definitions c) i = Some d" "lowerName (pdName d) = lowerName name"
    using pc_inv_D(5) [OF inv] by blast
  have "i \<in> fst ` set (definitions c)" using map_of_SomeD [OF d(1)] by force
  then have "i \<in> fst ` set (columnIDs c)" using pc_inv_D(3) [OF inv] by simp
  then obtain k where k: "map_of (columnIDs c) i = Some k" by (metis map_of_eq_None_iff option.exhaust)
  have "k \<in> snd ` set (columnIDs c)" using map_of_SomeD [OF k] by force
  then have "k < nextColumnID c" using pc_inv_D(6) [OF inv] by blast
  then show ?thesis using i d k by blast
qed

lemma pc_columns_injective:
  assumes inv: "pc_inv c" and "map_of (columnIDs c) i = Some k" "map_of (columnIDs c) j = Some k"
  shows "i = j"
proof -
  have "distinct (map snd (columnIDs c))" using inv by (simp add: pc_inv_def)
  moreover have "(i, k) \<in> set (columnIDs c)" "(j, k) \<in> set (columnIDs c)" using assms(2,3) by (simp_all add: map_of_SomeD)
  ultimately show ?thesis using inj_onD [of snd "set (columnIDs c)" "(i, k)" "(j, k)"] by (simp add: distinct_map)
qed

lemma pc_names_unique:
  assumes inv: "pc_inv c" and "nm_at (nameToPropertyIDMap c) a = Some i" "nm_at (nameToPropertyIDMap c) b = Some i"
  shows "caseInsensitiveEquals a b"
  using pc_inv_D(5) [OF inv, of a i] pc_inv_D(5) [OF inv, of b i] assms(2,3)
  by (auto simp: caseInsensitiveEquals_iff)

lemma pc_getDefinitions_set:
  assumes inv: "pc_inv c"
  shows "set (pc_getDefinitions c) = snd ` set (definitions c)"
proof -
  have "d \<in> set (pc_getDefinitions c) \<longleftrightarrow> (\<exists>i. map_of (definitions c) i = Some d)" for d
  proof
    assume "d \<in> set (pc_getDefinitions c)"
    then show "\<exists>i. map_of (definitions c) i = Some d"
      by (auto simp: pc_getDefinitions_def map_filter_def split: option.splits)
  next
    assume "\<exists>i. map_of (definitions c) i = Some d"
    then obtain i where i: "map_of (definitions c) i = Some d" ..
    then have "i \<in> fst ` set (definitions c)" using map_of_SomeD by force
    then have "unat i < unat (nextPropertyID c)" using inv by (auto simp: pc_inv_def word_less_nat_alt)
    moreover have "map_of (definitions c) (of_nat (unat i)) = Some d" using i by simp
    ultimately show "d \<in> set (pc_getDefinitions c)"
      unfolding pc_getDefinitions_def map_filter_def by (force intro: image_eqI [where x = "unat i"])
  qed
  moreover have "(\<exists>i. map_of (definitions c) i = Some d) \<longleftrightarrow> d \<in> snd ` set (definitions c)" for d
    using pc_inv_D(1) [OF inv] by (force simp: om_ok_def)
  ultimately show ?thesis by blast
qed

text \<open>
  C35. The properties of a table stay consistent under any sequence of adding properties with new names,
  dropping, renaming to a free name (or to the same name up to case) and compacting the columns, as long
  as the 32-bit counters of properties and columns do not overflow: every name that is contained leads
  to a definition of that name and to a column below the counter, two names that share a column are
  the same name, and the enumeration lists exactly the definitions. The collection itself does not check
  the names: adding one that is in use, or renaming to one, leaves a definition no name leads to.
\<close>

theorem property_lookups_consistent:
  assumes "pc_step\<^sup>*\<^sup>* (PropertyDefinitionCollection_new n) c"
  shows "(if pc_contains c name then \<exists>d k. pc_getDefinition c name = Inr d \<and> lowerName (pdName d) = lowerName name
        \<and> pc_getColumnID c name = Inr k \<and> k < nextColumnID c else pc_getDefinition c name = Inl AssertFail)
    \<and> (pc_getColumnID c a = Inr k \<and> pc_getColumnID c b = Inr k \<longrightarrow> caseInsensitiveEquals a b)
    \<and> set (pc_getDefinitions c) = snd ` set (definitions c)"
proof -
  have inv: "pc_inv c" using assms by (rule pc_reach_inv)
  have "pc_getDefinition c name = Inl AssertFail" if "\<not> pc_contains c name"
    using that by (simp add: pc_getDefinition_def pc_getPropertyID_def)
  moreover have "caseInsensitiveEquals a b" if "pc_getColumnID c a = Inr k" "pc_getColumnID c b = Inr k"
    using that pc_columns_injective [OF inv] pc_names_unique [OF inv] unfolding pc_lookup [OF inv] by metis
  ultimately show ?thesis
    using pc_lookup_contained [OF inv, of name] pc_getDefinitions_set [OF inv] unfolding pc_lookup [OF inv] by auto
qed

definition example_property :: "(u8, u8) property_definition" where
  "example_property = \<lparr>pdName = tag ''Age'', pdType = 1, pdDefault = 0\<rparr>"

lemma tag_lower: "caseInsensitiveEquals (tag ''Age'') (tag ''age'')" "\<not> caseInsensitiveEquals (tag ''Age'') (tag ''size'')"
  by (simp_all add: caseInsensitiveEquals_def tag_def upt_rec lower_byte)

theorem property_lookups_consistent_witness:
  "pc_getColumnID (pc_add example_property (PropertyDefinitionCollection_new 1)) (tag ''age'') = Inr 1
    \<and> set (pc_getDefinitions (pc_add example_property (PropertyDefinitionCollection_new 1))) = {example_property}"
proof -
  let ?c = "pc_add example_property (PropertyDefinitionCollection_new 1)"
  have reach: "pc_step\<^sup>*\<^sup>* (PropertyDefinitionCollection_new 1) ?c"
    by (intro r_into_rtranclp pc_step.add)
      (simp_all add: pc_contains_def nm_contains_def nm_at_def PropertyDefinitionCollection_new_def)
  have "definitions ?c = [(0, example_property)]"
    by (simp add: pc_add_def PropertyDefinitionCollection_new_def)
  moreover have "pc_getColumnID ?c (tag ''age'') = Inr 1"
    using tag_lower by (simp add: pc_getColumnID_def pc_getPropertyID_def pc_getColumnIDOfID_def pc_contains_def
        nm_contains_def nm_emplace_def nm_at_def um_emplace_def pc_add_def PropertyDefinitionCollection_new_def example_property_def)
  ultimately show ?thesis using property_lookups_consistent [OF reach] by simp
qed

text \<open>
  Renaming a property to a free name moves it with everything it has: the new name leads to the
  renamed definition and to the same column, the old name to nothing, unless it is the same up to
  case, and every other name to what it led to before.
\<close>

theorem rename_keeps_column:
  assumes inv: "pc_inv c" and old: "pc_getDefinition c name = Inr d" "pc_getColumnID c name = Inr k"
    and free: "\<not> pc_contains c newName"
  shows "\<exists>c'. pc_rename name newName c = Inr c' \<and> pc_inv c'
    \<and> pc_getDefinition c' newName = Inr (d\<lparr>pdName := newName\<rparr>) \<and> pc_getColumnID c' newName = Inr k
    \<and> \<not> pc_contains c' name
    \<and> (\<forall>n. caseInsensitiveEquals n name \<or> caseInsensitiveEquals n newName
          \<or> (\<forall>e. pc_getDefinition c' n = Inr e \<longleftrightarrow> pc_getDefinition c n = Inr e)
            \<and> (\<forall>e. pc_getColumnID c' n = Inr e \<longleftrightarrow> pc_getColumnID c n = Inr e))"
proof -
  note D = pc_inv_D [OF inv] and L = pc_lookup [OF inv]
  obtain i where i: "nm_at (nameToPropertyIDMap c) name = Some i" "map_of (definitions c) i = Some d"
    "map_of (columnIDs c) i = Some k"
    using old unfolding L by auto
  let ?c = "c\<lparr>definitions := map (\<lambda>(j, d). (j, if j = i then PropertyDefinition_rename d newName else d)) (definitions c),
            nameToPropertyIDMap := nm_emplace (nm_erase (nameToPropertyIDMap c) name) newName i\<rparr>"
  have none: "nm_at (nameToPropertyIDMap c) newName = None"
    using free by (simp add: pc_contains_def nm_contains_def)
  have ren: "pc_rename name newName c = Inr ?c"
    using i by (simp add: pc_rename_def pc_contains_def nm_contains_def)
  then have inv': "pc_inv ?c" using inv free by (auto intro: pc_inv_rename)
  note L' = pc_lookup [OF inv']
  have at: "nm_at (nameToPropertyIDMap ?c) n = (if caseInsensitiveEquals newName n then Some i
      else if caseInsensitiveEquals name n then None else nm_at (nameToPropertyIDMap c) n)" for n
    using names.lookup_move [OF D(2), of newName name i n] none by simp
  have differ: "\<not> caseInsensitiveEquals newName name"
    using none i(1) names.lookup_same [of newName name "nameToPropertyIDMap c"] by auto
  have defs: "map_of (definitions ?c) j = map_option (\<lambda>d. if j = i then PropertyDefinition_rename d newName else d)
      (map_of (definitions c) j)" for j by (simp add: map_of_map_snd)
  have other: "j \<noteq> i" if "nm_at (nameToPropertyIDMap c) n = Some j" "\<not> caseInsensitiveEquals n name" for n j
    using pc_names_unique [OF inv, of n i name] that i(1) by blast
  have "pc_getDefinition ?c newName = Inr (d\<lparr>pdName := newName\<rparr>)" "pc_getColumnID ?c newName = Inr k"
    unfolding L' at defs using i by (simp_all add: PropertyDefinition_rename_def)
  moreover have "\<not> pc_contains ?c name"
    using at [of name] differ by (simp add: pc_contains_def nm_contains_def)
  moreover have "caseInsensitiveEquals n name \<or> caseInsensitiveEquals n newName
      \<or> (\<forall>e. pc_getDefinition ?c n = Inr e \<longleftrightarrow> pc_getDefinition c n = Inr e)
        \<and> (\<forall>e. pc_getColumnID ?c n = Inr e \<longleftrightarrow> pc_getColumnID c n = Inr e)" for n
  proof (cases "caseInsensitiveEquals n name \<or> caseInsensitiveEquals n newName")
    case False
    then have "nm_at (nameToPropertyIDMap ?c) n = nm_at (nameToPropertyIDMap c) n"
      using at [of n] by (simp add: caseInsensitiveEquals_iff eq_commute)
    then show ?thesis unfolding L L' defs using other [of n] False by auto
  qed blast
  ultimately show ?thesis using ren inv' by blast
qed

theorem rename_keeps_column_witness:
  "\<exists>c'. pc_rename (tag ''age'') (tag ''size'') (pc_add example_property (PropertyDefinitionCollection_new 1)) = Inr c'
    \<and> pc_getColumnID c' (tag ''size'') = Inr 1 \<and> \<not> pc_contains c' (tag ''Age'')"
proof -
  let ?c = "pc_add example_property (PropertyDefinitionCollection_new 1)"
  have "pc_inv ?c"
    by (intro pc_inv_add pc_inv_new)
      (simp_all add: pc_contains_def nm_contains_def nm_at_def PropertyDefinitionCollection_new_def)
  moreover have "pc_getDefinition ?c (tag ''age'') = Inr example_property" "pc_getColumnID ?c (tag ''age'') = Inr 1"
      "\<not> pc_contains ?c (tag ''size'')"
    using tag_lower by (simp_all add: pc_getColumnID_def pc_getDefinition_def pc_getPropertyID_def pc_getColumnIDOfID_def
        pc_getDefinitionOfID_def pc_contains_def nm_contains_def nm_emplace_def nm_at_def um_emplace_def pc_add_def
        PropertyDefinitionCollection_new_def example_property_def)
  ultimately obtain c' where c': "pc_rename (tag ''age'') (tag ''size'') ?c = Inr c'"
      "pc_getColumnID c' (tag ''size'') = Inr 1" "\<not> pc_contains c' (tag ''age'')"
    using rename_keeps_column [of ?c "tag ''age''" example_property 1 "tag ''size''"] by blast
  moreover have "pc_contains c' (tag ''Age'') = pc_contains c' (tag ''age'')"
    using names.lookup_same [OF tag_lower(1), of "nameToPropertyIDMap c'"] by (simp add: pc_contains_def nm_contains_def)
  ultimately show ?thesis by blast
qed

section \<open>Storing the collection\<close>

lemma property_definition_round_trip:
  assumes "serializable sT dT vT" "serializable sX dX vX" "length (pdName d) < 2 ^ 64" "vT (pdType d)" "vX (pdDefault d)"
  shows "PropertyDefinition_deserialize dT dX (PropertyDefinition_serialize sT sX d @ rest) = Inr (d, rest)"
  using assms(3-5)
  by (simp add: PropertyDefinition_deserialize_def PropertyDefinition_serialize_def field_round_trips returnD_def
      serializable.round_trip [OF assms(1)] serializable.round_trip [OF assms(2)])

definition pc_storable :: "('t \<Rightarrow> bool) \<Rightarrow> ('x \<Rightarrow> bool) \<Rightarrow> ('t, 'x) property_collection \<Rightarrow> bool" where
  "pc_storable vT vX c \<longleftrightarrow> length (definitions c) < 2 ^ 64 \<and> length (columnIDs c) < 2 ^ 64
     \<and> (\<forall>d \<in> snd ` set (definitions c). length (pdName d) < 2 ^ 64 \<and> vT (pdType d) \<and> vX (pdDefault d))"

text \<open>
  The name map is not stored but rebuilt from the definitions; it leads every name to the same
  property, in another order of iteration.
\<close>

definition pc_rebuilt :: "('t, 'x) property_collection \<Rightarrow> ('t, 'x) property_collection" where
  "pc_rebuilt c = c\<lparr>nameToPropertyIDMap := fold (\<lambda>(propertyID, d) m. nm_emplace m (pdName d) propertyID) (definitions c) []\<rparr>"

lemma pc_round_trip:
  assumes sT: "serializable sT dT vT" and sX: "serializable sX dX vX" and inv: "pc_inv c" and storable: "pc_storable vT vX c"
  shows "pc_deserialize dT dX dbg (pc_serialize sT sX dbg c @ rest) = Inr (pc_rebuilt c, rest)"
proof -
  have defs: "deserializeEntries deserializeU32 (PropertyDefinition_deserialize dT dX)
      (serializeMap serializeU32 (PropertyDefinition_serialize sT sX) (definitions c) @ rest) = Inr (definitions c, rest)" for rest
    using storable unfolding pc_storable_def
    by (intro entries_round_trip)
      (auto simp: ser_u32.round_trip intro!: property_definition_round_trip [OF sT sX] dest: bspec [OF _ imageI])
  have cols: "deserializeEntries deserializeU32 deserializeU32
      (serializeMap serializeU32 serializeU32 (columnIDs c) @ rest) = Inr (columnIDs c, rest)" for rest
    using storable unfolding pc_storable_def
    by (intro entries_round_trip) (simp_all add: ser_u32.round_trip)
  have "fold (\<lambda>(k, v) m. om_emplace m k v) (definitions c) [] = definitions c"
    using pc_inv_D(1) [OF inv] by (rule fold_om_emplace)
  moreover have "fold (\<lambda>(k, v) m. um_emplace m k v) (columnIDs c) [] = columnIDs c"
    using pc_inv_D(4) [OF inv] by (rule fold_um_emplace)
  ultimately show ?thesis
    by (simp add: pc_deserialize_def pc_serialize_def field_round_trips defs cols returnD_def Let_def pc_rebuilt_def)
qed

lemma nm_at_fold:
  assumes "nm_ok m"
  shows "nm_ok (fold (\<lambda>(p, d) m. nm_emplace m (pdName d) p) defs m)
    \<and> nm_at (fold (\<lambda>(p, d) m. nm_emplace m (pdName d) p) defs m) name =
      (case nm_at m name of Some i \<Rightarrow> Some i
       | None \<Rightarrow> map_option fst (find (\<lambda>(p, d). lowerName (pdName d) = lowerName name) defs))"
  using assms
proof (induction defs arbitrary: m)
  case Nil
  then show ?case by (simp split: option.split)
next
  case (Cons x defs)
  obtain p d where x: "x = (p, d)" by (cases x)
  have ok: "nm_ok (nm_emplace m (pdName d) p)" using Cons.prems by (rule nm_ok_emplace)
  have same: "nm_at m (pdName d) = nm_at m name" if "lowerName (pdName d) = lowerName name"
    using names.lookup_same [of "pdName d" name m] that by (simp add: caseInsensitiveEquals_iff)
  show ?case
    using Cons.IH [OF ok] same unfolding x
    by (cases "lowerName (pdName d) = lowerName name")
      (auto simp: nm_at_emplace caseInsensitiveEquals_iff split: option.split)
qed

lemma pc_rebuilt_lookup:
  assumes inv: "pc_inv c"
  shows "nm_at (nameToPropertyIDMap (pc_rebuilt c)) name = nm_at (nameToPropertyIDMap c) name"
    "nm_ok (nameToPropertyIDMap (pc_rebuilt c))"
proof -
  note D = pc_inv_D [OF inv]
  have fold: "nm_ok (nameToPropertyIDMap (pc_rebuilt c))
    \<and> nm_at (nameToPropertyIDMap (pc_rebuilt c)) name = map_option fst (find (\<lambda>(p, d). lowerName (pdName d) = lowerName name) (definitions c))"
    using nm_at_fold [of "[]" "definitions c" name] by (simp add: pc_rebuilt_def nm_ok_def nm_at_def)
  then show "nm_ok (nameToPropertyIDMap (pc_rebuilt c))" ..
  have "map_option fst (find (\<lambda>(p, d). lowerName (pdName d) = lowerName name) (definitions c)) = nm_at (nameToPropertyIDMap c) name"
  proof (cases "find (\<lambda>(p, d). lowerName (pdName d) = lowerName name) (definitions c)")
    case None
    then have "\<nexists>i d. (i, d) \<in> set (definitions c) \<and> lowerName (pdName d) = lowerName name" by (auto simp: find_None_iff)
    then have "nm_at (nameToPropertyIDMap c) name \<noteq> Some i" for i using D(5) [of name i] map_of_SomeD by metis
    then show ?thesis using None by (cases "nm_at (nameToPropertyIDMap c) name") auto
  next
    case (Some x)
    then obtain i d where x: "x = (i, d)" "(i, d) \<in> set (definitions c)" "lowerName (pdName d) = lowerName name"
      by (auto simp: find_Some_iff) (metis nth_mem)
    then have "map_of (definitions c) i = Some d" using D(1) by (simp add: om_ok_def)
    then have "nm_at (nameToPropertyIDMap c) name = Some i" using D(5) [of name i] x(3) by blast
    then show ?thesis using Some x(1) by simp
  qed
  then show "nm_at (nameToPropertyIDMap (pc_rebuilt c)) name = nm_at (nameToPropertyIDMap c) name" using fold by simp
qed

lemma pc_inv_rebuilt: "pc_inv c \<Longrightarrow> pc_inv (pc_rebuilt c)"
  using pc_rebuilt_lookup [of c] unfolding pc_inv_def by (simp add: pc_rebuilt_def)

end
