(* ===== verification/Sequence_Entry.thy ===== *)
theory Sequence_Entry
  imports Wal_Records
begin

text \<open>
  Sequences: \<^verbatim>\<open>SequenceCatalogEntry\<close> of
  \<^verbatim>\<open>src/src/catalog/catalog_entry/sequence_catalog_entry.cpp\<close>, with the checked addition of
  \<^verbatim>\<open>src/src/function/arithmetic/add.cpp\<close>. The values are signed 64-bit words. Advancing a
  sequence returns what the transaction pushes to its undo buffer, and a rollback applies it.
\<close>

type_synonym i64 = "64 word"

section \<open>Checked addition\<close>

definition addOverflow :: err where
  "addOverflow = OverflowException ''Value is not within INT64 range.''"

definition AddInPlace :: "i64 \<Rightarrow> i64 \<Rightarrow> i64 option" where
  "AddInPlace left right =
     (let tmp = left + right in
      if (sint left < 0 \<and> sint right < 0 \<and> 0 \<le> sint tmp) \<or> (0 \<le> sint left \<and> 0 \<le> sint right \<and> sint tmp < 0)
      then None else Some tmp)"

definition Add_operation :: "i64 \<Rightarrow> i64 \<Rightarrow> i64 res" where
  "Add_operation left right = (case AddInPlace left right of None \<Rightarrow> Inl addOverflow | Some result \<Rightarrow> Inr result)"

section \<open>Sequences\<close>

record sequence_data =
  usageCount :: u64
  sqCurrVal :: i64
  increment :: i64
  startValue :: i64
  minValue :: i64
  maxValue :: i64
  cycle :: bool

type_synonym sequence_rollback_data = "u64 \<times> i64"

definition SequenceData_new :: "i64 \<Rightarrow> i64 \<Rightarrow> i64 \<Rightarrow> i64 \<Rightarrow> bool \<Rightarrow> sequence_data" where
  "SequenceData_new startWith inc minv maxv cyc =
     \<lparr>usageCount = 0, sqCurrVal = startWith, increment = inc, startValue = startWith,
      minValue = minv, maxValue = maxv, cycle = cyc\<rparr>"

definition currVal :: "sequence_data \<Rightarrow> i64 res" where
  "currVal s = (if usageCount s = 0 then Inl (CatalogException ''currval: sequence is not yet defined.'') else Inr (sqCurrVal s))"

definition reachedMinimum :: err where
  "reachedMinimum = CatalogException ''nextval: reached minimum value of sequence''"

definition reachedMaximum :: err where
  "reachedMaximum = CatalogException ''nextval: reached maximum value of sequence''"

definition nextValNoLock :: "sequence_data \<Rightarrow> sequence_data res" where
  "nextValNoLock s =
     (if usageCount s = 0 then Inr (s\<lparr>usageCount := usageCount s + 1\<rparr>)
      else
        let added = Add_operation (sqCurrVal s) (increment s);
            overflow = (case added of Inl _ \<Rightarrow> True | Inr _ \<Rightarrow> False);
            next = sqCurrVal s + increment s
        in bindR
          (if cycle s then
             Inr (if overflow then (if sint (increment s) < 0 then maxValue s else minValue s)
                  else if sint next < sint (minValue s) then maxValue s
                  else if sint (maxValue s) < sint next then minValue s
                  else next)
           else
             let minError = (if overflow then sint (increment s) < 0 else sint next < sint (minValue s));
                 maxError = (if overflow then 0 < sint (increment s) else sint (maxValue s) < sint next)
             in if minError then Inl reachedMinimum
                else if maxError then Inl reachedMaximum
                else Inr next)
          (\<lambda>next. Inr (s\<lparr>sqCurrVal := next, usageCount := usageCount s + 1\<rparr>)))"

text \<open>
  The loop of \<^verbatim>\<open>nextKVal\<close> changes the sequence value by value; an exception leaves the
  values it has reached, and skips \<^verbatim>\<open>pushSequenceChange\<close>.
\<close>

fun nextVals :: "nat \<Rightarrow> sequence_data \<Rightarrow> sequence_data \<times> i64 list res" where
  "nextVals 0 s = (s, Inr [])"
| "nextVals (Suc n) s =
     (case nextValNoLock s of
        Inl e \<Rightarrow> (s, Inl e)
      | Inr s \<Rightarrow> bindS (nextVals n s) (\<lambda>vs s'. (s', Inr (sqCurrVal s # vs))))"

definition nextKVal :: "nat \<Rightarrow> sequence_data \<Rightarrow> sequence_data \<times> (sequence_rollback_data \<times> i64 list) res" where
  "nextKVal count s =
     bindS (s, assertR (0 < count)) (\<lambda>_ s.
     let rollbackData = (usageCount s, sqCurrVal s) in
     bindS (nextVals count s) (\<lambda>vs s'. (s', Inr (rollbackData, vs))))"

definition rollbackVal :: "sequence_rollback_data \<Rightarrow> sequence_data \<Rightarrow> sequence_data" where
  "rollbackVal data s = s\<lparr>usageCount := fst data, sqCurrVal := snd data\<rparr>"

definition Sequence_serialize :: "bool \<Rightarrow> sequence_data \<Rightarrow> u8 list" where
  "Sequence_serialize dbg s =
     writeTag dbg ''usageCount'' @ serializeU64 (usageCount s) @
     writeTag dbg ''currVal'' @ serializeU64 (sqCurrVal s) @
     writeTag dbg ''increment'' @ serializeU64 (increment s) @
     writeTag dbg ''startValue'' @ serializeU64 (startValue s) @
     writeTag dbg ''minValue'' @ serializeU64 (minValue s) @
     writeTag dbg ''maxValue'' @ serializeU64 (maxValue s) @
     writeTag dbg ''cycle'' @ serializeBool (cycle s)"

definition Sequence_deserialize :: "bool \<Rightarrow> sequence_data reader" where
  "Sequence_deserialize dbg =
     bindD (expectTag dbg ''usageCount'') (\<lambda>_. bindD deserializeU64 (\<lambda>usage.
     bindD (expectTag dbg ''currVal'') (\<lambda>_. bindD deserializeU64 (\<lambda>curr.
     bindD (expectTag dbg ''increment'') (\<lambda>_. bindD deserializeU64 (\<lambda>inc.
     bindD (expectTag dbg ''startValue'') (\<lambda>_. bindD deserializeU64 (\<lambda>start.
     bindD (expectTag dbg ''minValue'') (\<lambda>_. bindD deserializeU64 (\<lambda>minv.
     bindD (expectTag dbg ''maxValue'') (\<lambda>_. bindD deserializeU64 (\<lambda>maxv.
     bindD (expectTag dbg ''cycle'') (\<lambda>_. bindD deserializeBool (\<lambda>cyc.
     returnD \<lparr>usageCount = usage, sqCurrVal = curr, increment = inc, startValue = start,
              minValue = minv, maxValue = maxv, cycle = cyc\<rparr>))))))))))))))"

section \<open>Properties\<close>

lemma sint_bounds: "- (2 ^ 63) \<le> sint (a :: i64)" "sint (a :: i64) < 2 ^ 63"
  using sint_ge [of a] sint_lt [of a] by simp_all

lemma sint_add:
  fixes a b :: i64
  shows "sint (a + b) =
    (if sint a + sint b < - (2 ^ 63) then sint a + sint b + 2 ^ 64
     else if 2 ^ 63 \<le> sint a + sint b then sint a + sint b - 2 ^ 64 else sint a + sint b)"
proof -
  have "sint (a + b) = (sint a + sint b + 2 ^ 63) mod 2 ^ 64 - 2 ^ 63"
    by (simp add: sint_word_ariths(1) signed_take_bit_eq_take_bit_shift take_bit_eq_mod)
  moreover have "(x + 2 ^ 63) mod 2 ^ 64 =
      (if x < - (2 ^ 63) then x + 2 ^ 63 + 2 ^ 64 else if 2 ^ 63 \<le> x then x + 2 ^ 63 - 2 ^ 64 else x + 2 ^ 63)"
    if "- (2 ^ 64) \<le> x" "x < 2 ^ 64" for x :: int
  proof -
    consider "x < - (2 ^ 63)" | "2 ^ 63 \<le> x" | "- (2 ^ 63) \<le> x" "x < 2 ^ 63" by linarith
    then show ?thesis
    proof cases
      case 1
      have "(x + 2 ^ 63) mod 2 ^ 64 = (x + 2 ^ 63 + 2 ^ 64) mod 2 ^ 64" by (simp only: mod_add_self2)
      also have "\<dots> = x + 2 ^ 63 + 2 ^ 64" using 1 that by (intro mod_pos_pos_trivial) simp_all
      finally show ?thesis using 1 by simp
    next
      case 2
      have "(x + 2 ^ 63) mod 2 ^ 64 = (x + 2 ^ 63 - 2 ^ 64) mod 2 ^ 64" by (simp only: minus_mod_self2)
      also have "\<dots> = x + 2 ^ 63 - 2 ^ 64" using 2 that by (intro mod_pos_pos_trivial) simp_all
      finally show ?thesis using 2 by simp
    next
      case 3
      then have "(x + 2 ^ 63) mod 2 ^ 64 = x + 2 ^ 63" by (intro mod_pos_pos_trivial) simp_all
      then show ?thesis using 3 by simp
    qed
  qed
  ultimately show ?thesis using sint_bounds [of a] sint_bounds [of b] by simp
qed

text \<open>The overflow check is exact: it fails when the sum of the integers does not fit.\<close>

lemma AddInPlace_iff: "AddInPlace a b = (if sint (a + b) = sint a + sint b then Some (a + b) else None)"
  using sint_bounds [of a] sint_bounds [of b] by (auto simp: AddInPlace_def Let_def sint_add)

lemma Add_operation_cases:
  "Add_operation a b = (if - (2 ^ 63) \<le> sint a + sint b \<and> sint a + sint b < 2 ^ 63 then Inr (a + b) else Inl addOverflow)"
  by (auto simp: Add_operation_def AddInPlace_iff sint_add)

definition seq_ok :: "sequence_data \<Rightarrow> bool" where
  "seq_ok s \<longleftrightarrow> sint (minValue s) \<le> sint (sqCurrVal s) \<and> sint (sqCurrVal s) \<le> sint (maxValue s)"

text \<open>
  The sequence on integers: the value after \<open>v\<close>, which wraps to the other bound with
  \<^verbatim>\<open>cycle\<close> and does not exist otherwise, and the values that a request for \<open>n\<close> of them
  produces before it is served or runs out. A new sequence starts with its start value.
\<close>

definition stepValue :: "sequence_data \<Rightarrow> int \<Rightarrow> int option" where
  "stepValue s v =
     (let w = v + sint (increment s) in
      if w < sint (minValue s) then (if cycle s then Some (sint (maxValue s)) else None)
      else if sint (maxValue s) < w then (if cycle s then Some (sint (minValue s)) else None)
      else Some w)"

fun stepValues :: "sequence_data \<Rightarrow> nat \<Rightarrow> int \<Rightarrow> int list" where
  "stepValues s 0 v = []"
| "stepValues s (Suc n) v = (case stepValue s v of None \<Rightarrow> [] | Some w \<Rightarrow> w # stepValues s n w)"

definition nextValues :: "nat \<Rightarrow> sequence_data \<Rightarrow> int list" where
  "nextValues n s =
     (if usageCount s = 0 then sint (sqCurrVal s) # stepValues s (n - 1) (sint (sqCurrVal s))
      else stepValues s n (sint (sqCurrVal s)))"

definition advanceTo :: "sequence_data \<Rightarrow> int list \<Rightarrow> sequence_data" where
  "advanceTo s vs = s\<lparr>usageCount := usageCount s + of_nat (length vs), sqCurrVal := word_of_int (List.last (sint (sqCurrVal s) # vs))\<rparr>"

abbreviation inBounds :: "sequence_data \<Rightarrow> int \<Rightarrow> bool" where
  "inBounds s v \<equiv> sint (minValue s) \<le> v \<and> v \<le> sint (maxValue s)"

definition exhausted :: "sequence_data \<Rightarrow> err" where
  "exhausted s = (if sint (increment s) < 0 then reachedMinimum else reachedMaximum)"

lemma sint_of_within: "inBounds s v \<Longrightarrow> sint (word_of_int v :: i64) = v"
  using sint_bounds [of "minValue s"] sint_bounds [of "maxValue s"] by (simp add: signed_of_int signed_take_bit_int_eq_self)

lemma stepValue_within: "inBounds s v \<Longrightarrow> stepValue s v = Some w \<Longrightarrow> inBounds s w"
  by (auto simp: stepValue_def Let_def split: if_splits)

lemma stepValues_within: "inBounds s v \<Longrightarrow> list_all (inBounds s) (stepValues s n v)"
proof (induction n arbitrary: v)
  case (Suc n)
  show ?case
  proof (cases "stepValue s v")
    case (Some w)
    then show ?thesis using Suc stepValue_within [OF Suc.prems Some] by simp
  qed simp
qed simp

lemma stepValues_length: "length (stepValues s n v) \<le> n"
  by (induction n arbitrary: v) (auto split: option.split)

lemma stepValues_cycle: "cycle s \<Longrightarrow> length (stepValues s n v) = n"
  by (induction n arbitrary: v) (auto simp: stepValue_def Let_def)

lemma stepValues_nth:
  assumes "\<not> cycle s" "i < length (stepValues s n v)"
  shows "stepValues s n v ! i = v + (int i + 1) * sint (increment s)"
  using assms(2)
proof (induction n arbitrary: v i)
  case (Suc n)
  then obtain w where w: "stepValue s v = Some w" by (auto split: option.splits)
  then have "w = v + sint (increment s)" using assms(1) by (auto simp: stepValue_def Let_def split: if_splits)
  then show ?case using Suc w by (cases i) (simp_all add: algebra_simps)
qed simp

lemma stepValues_stops:
  assumes "\<not> cycle s" "length (stepValues s n v) < n"
  shows "\<not> inBounds s (v + (int (length (stepValues s n v)) + 1) * sint (increment s))"
  using assms(2)
proof (induction n arbitrary: v)
  case (Suc n)
  show ?case
  proof (cases "stepValue s v")
    case None
    then show ?thesis by (auto simp: stepValue_def Let_def split: if_splits)
  next
    case (Some w)
    then have w: "w = v + sint (increment s)" using assms(1) by (auto simp: stepValue_def Let_def split: if_splits)
    have "length (stepValues s n w) < n" using Suc.prems Some by simp
    from Suc.IH [OF this] show ?thesis using Some w by (simp add: algebra_simps)
  qed
qed simp

lemma nextVal_step:
  assumes "seq_ok s" "usageCount s \<noteq> 0"
  shows "nextValNoLock s =
    (case stepValue s (sint (sqCurrVal s)) of None \<Rightarrow> Inl (exhausted s) | Some w \<Rightarrow> Inr (advanceTo s [w]))"
proof -
  let ?w = "sint (sqCurrVal s) + sint (increment s)"
  note b = sint_bounds [of "minValue s"] sint_bounds [of "maxValue s"] assms(1) [unfolded seq_ok_def]
  consider (under) "?w < - (2 ^ 63)" | (over) "2 ^ 63 \<le> ?w" | (fits) "- (2 ^ 63) \<le> ?w" "?w < 2 ^ 63" by linarith
  then show ?thesis
  proof cases
    case under
    then have "sint (increment s) < 0" "?w < sint (minValue s)" using b by linarith+
    then show ?thesis using under assms(2)
      by (simp add: nextValNoLock_def Add_operation_cases stepValue_def exhausted_def advanceTo_def Let_def)
  next
    case over
    then have "0 < sint (increment s)" "\<not> ?w < sint (minValue s)" "sint (maxValue s) < ?w" using b by linarith+
    then show ?thesis using over assms(2)
      by (simp add: nextValNoLock_def Add_operation_cases stepValue_def exhausted_def advanceTo_def Let_def)
  next
    case fits
    then have w: "sint (sqCurrVal s + increment s) = ?w" by (simp add: sint_add)
    have e: "?w < sint (minValue s) \<Longrightarrow> sint (increment s) < 0" "sint (maxValue s) < ?w \<Longrightarrow> \<not> sint (increment s) < 0"
      using b by linarith+
    show ?thesis using fits assms(2) w e
      by (auto simp: nextValNoLock_def Add_operation_cases stepValue_def exhausted_def advanceTo_def Let_def)
  qed
qed

lemma stepValue_advanceTo: "stepValues (advanceTo s vs) n v = stepValues s n v" "exhausted (advanceTo s vs) = exhausted s"
proof -
  have "stepValue (advanceTo s vs) = stepValue s" by (rule ext) (simp add: stepValue_def advanceTo_def Let_def)
  then show "stepValues (advanceTo s vs) n v = stepValues s n v" by (induction n arbitrary: v) (auto split: option.split)
  show "exhausted (advanceTo s vs) = exhausted s" by (simp add: exhausted_def advanceTo_def)
qed

lemma nextVals_steps:
  assumes "seq_ok s" "usageCount s \<noteq> 0" "unat (usageCount s) + n < 2 ^ 64" "vs = stepValues s n (sint (sqCurrVal s))"
  shows "nextVals n s = (advanceTo s vs, if length vs = n then Inr (map word_of_int vs) else Inl (exhausted s))"
  using assms
proof (induction n arbitrary: s vs)
  case 0
  then show ?case by (simp add: advanceTo_def)
next
  case (Suc n)
  show ?case
  proof (cases "stepValue s (sint (sqCurrVal s))")
    case None
    then show ?thesis using Suc.prems nextVal_step [OF Suc.prems(1,2)] by (simp add: advanceTo_def)
  next
    case (Some w)
    let ?t = "advanceTo s [w]"
    have w: "inBounds s w" using stepValue_within [OF _ Some] Suc.prems(1) by (simp add: seq_ok_def)
    have cur: "sint (sqCurrVal ?t) = w" "sqCurrVal ?t = word_of_int w"
      using sint_of_within [OF w] by (simp_all add: advanceTo_def)
    have unat: "unat (usageCount ?t) = unat (usageCount s) + 1"
      using Suc.prems(3) unat_add_lem [of "usageCount s" 1] by (simp add: advanceTo_def)
    have "seq_ok ?t" using w cur(1) by (simp add: seq_ok_def advanceTo_def)
    moreover have "usageCount ?t \<noteq> 0" "unat (usageCount ?t) + n < 2 ^ 64" using unat Suc.prems(3) by auto
    ultimately have "nextVals n ?t = (advanceTo ?t (stepValues s n w),
        if length (stepValues s n w) = n then Inr (map word_of_int (stepValues s n w)) else Inl (exhausted s))"
      using Suc.IH [of ?t "stepValues s n w"] by (simp add: stepValue_advanceTo cur(1))
    moreover have "advanceTo ?t (stepValues s n w) = advanceTo s (w # stepValues s n w)"
      using cur(1) by (simp add: advanceTo_def)
    ultimately show ?thesis using Suc.prems(4) nextVal_step [OF Suc.prems(1,2)] Some cur(2) by simp
  qed
qed

lemma nextVals_request:
  assumes "seq_ok s" "0 < n" "unat (usageCount s) + n < 2 ^ 64" "vs = nextValues n s"
  shows "nextVals n s = (advanceTo s vs, if length vs = n then Inr (map word_of_int vs) else Inl (exhausted s))"
proof (cases "usageCount s = 0")
  case True
  obtain m where m: "n = Suc m" using assms(2) by (cases n) auto
  let ?t = "s\<lparr>usageCount := 1\<rparr>"
  have t: "nextValNoLock s = Inr ?t" using True by (simp add: nextValNoLock_def)
  have same: "stepValues ?t k v = stepValues s k v" "exhausted ?t = exhausted s" for k v
  proof -
    have "stepValue ?t = stepValue s" by (rule ext) (simp add: stepValue_def Let_def)
    then show "stepValues ?t k v = stepValues s k v" by (induction k arbitrary: v) (auto split: option.split)
  qed (simp add: exhausted_def)
  have "nextVals m ?t = (advanceTo ?t (stepValues s m (sint (sqCurrVal s))),
      if length (stepValues s m (sint (sqCurrVal s))) = m then Inr (map word_of_int (stepValues s m (sint (sqCurrVal s)))) else Inl (exhausted s))"
    using nextVals_steps [of ?t m] assms(1,3) m True by (simp add: same seq_ok_def)
  moreover have "advanceTo ?t (stepValues s m (sint (sqCurrVal s))) = advanceTo s vs"
    using assms(4) m True by (simp add: advanceTo_def nextValues_def)
  ultimately show ?thesis using m t assms(4) True by (simp add: nextValues_def)
next
  case False
  then show ?thesis using nextVals_steps [OF assms(1) False assms(3)] assms(4) by (simp add: nextValues_def)
qed

text \<open>
  C36. What a request for \<open>n\<close> values does to a sequence whose current value is within its bounds, exactly.
  The values it produces are those of the sequence on integers (\<^const>\<open>nextValues\<close>): each is the one
  before plus the increment, and where that is below the minimum or above the maximum, a sequence with
  \<^verbatim>\<open>cycle\<close> goes on from the other bound and one without it stops. The request returns the
  values if there are \<open>n\<close> of them and otherwise fails with the error of the bound it has hit; in both
  cases the sequence stands at the last value produced, which is within the bounds, and is counted as
  used once for each value. With \<^verbatim>\<open>cycle\<close> there are always \<open>n\<close>. Without it the values
  are the arithmetic progression from the current value, the start value included if the sequence is
  new, and when there are fewer than \<open>n\<close>, the next term of the progression is out of the bounds. The
  undo data takes the sequence back to where it was.
\<close>

theorem sequence_advances_within_bounds:
  assumes "seq_ok s" "0 < n" "unat (usageCount s) + n < 2 ^ 64" "vs = nextValues n s" "first = (if usageCount s = 0 then 0 else 1)"
  shows "nextKVal n s = (advanceTo s vs,
      if length vs = n then Inr ((usageCount s, sqCurrVal s), map word_of_int vs) else Inl (exhausted s))
    \<and> list_all (inBounds s) vs \<and> seq_ok (advanceTo s vs) \<and> length vs \<le> n
    \<and> (if cycle s then length vs = n
       else (\<forall>i < length vs. vs ! i = sint (sqCurrVal s) + (int i + first) * sint (increment s))
         \<and> (length vs = n \<or> \<not> inBounds s (sint (sqCurrVal s) + (int (length vs) + first) * sint (increment s))))
    \<and> rollbackVal (usageCount s, sqCurrVal s) (advanceTo s vs) = s"
proof -
  have cur: "inBounds s (sint (sqCurrVal s))" using assms(1) by (simp add: seq_ok_def)
  obtain m where m: "n = Suc m" using assms(2) by (cases n) auto
  have vals: "list_all (inBounds s) vs" "length vs \<le> n"
    using assms(4) m cur stepValues_within [OF cur] stepValues_length [of s n] stepValues_length [of s m]
    by (auto simp: nextValues_def simp del: stepValues.simps)
  have run: "nextKVal n s = (advanceTo s vs,
      if length vs = n then Inr ((usageCount s, sqCurrVal s), map word_of_int vs) else Inl (exhausted s))"
    using nextVals_request [OF assms(1-4)] assms(2) by (simp add: nextKVal_def Let_def)
  have last: "inBounds s (List.last (sint (sqCurrVal s) # vs))" using vals(1) cur by (cases vs rule: rev_cases) auto
  then have ok: "seq_ok (advanceTo s vs)" using sint_of_within [OF last] by (simp add: seq_ok_def advanceTo_def)
  have prog: "vs ! i = sint (sqCurrVal s) + (int i + first) * sint (increment s)" if "\<not> cycle s" "i < length vs" for i
    using that stepValues_nth [OF that(1)] assms(4,5) by (cases i) (auto simp: nextValues_def)
  have stop: "\<not> inBounds s (sint (sqCurrVal s) + (int (length vs) + first) * sint (increment s))" if "\<not> cycle s" "length vs \<noteq> n"
  proof (cases "usageCount s = 0")
    case True
    then show ?thesis using stepValues_stops [OF that(1), of m "sint (sqCurrVal s)"] that(2) vals(2) m assms(4,5)
      by (simp add: nextValues_def algebra_simps)
  next
    case False
    then show ?thesis using stepValues_stops [OF that(1), of n "sint (sqCurrVal s)"] that(2) vals(2) assms(4,5)
      by (simp add: nextValues_def)
  qed
  have "cycle s \<Longrightarrow> length vs = n" using stepValues_cycle assms(4) m by (simp add: nextValues_def del: stepValues.simps)
  then show ?thesis using run vals ok prog stop by (auto simp: rollbackVal_def advanceTo_def)
qed

definition example_sequence :: sequence_data where
  "example_sequence = SequenceData_new 5 3 0 10 False"

theorem sequence_advances_within_bounds_witness:
  "nextKVal 2 example_sequence = (example_sequence\<lparr>sqCurrVal := 8, usageCount := 2\<rparr>, Inr ((0, 5), [5, 8]))
    \<and> nextKVal 3 example_sequence = (example_sequence\<lparr>sqCurrVal := 8, usageCount := 2\<rparr>, Inl reachedMaximum)
    \<and> nextKVal 3 (example_sequence\<lparr>cycle := True\<rparr>) =
        (example_sequence\<lparr>cycle := True, sqCurrVal := 0, usageCount := 3\<rparr>, Inr ((0, 5), [5, 8, 0]))"
proof -
  let ?c = "example_sequence\<lparr>cycle := True\<rparr>"
  note defs = example_sequence_def SequenceData_new_def
  have "nextValues 2 example_sequence = [5, 8]" "nextValues 3 example_sequence = [5, 8]" "nextValues 3 ?c = [5, 8, 0]"
    by (simp_all add: defs nextValues_def numeral_2_eq_2 stepValue_def)
  moreover have "seq_ok example_sequence" "seq_ok ?c" by (simp_all add: defs seq_ok_def)
  moreover have "usageCount example_sequence = 0" "usageCount ?c = 0" by (simp_all add: defs)
  ultimately have
    "nextKVal 2 example_sequence = (advanceTo example_sequence [5, 8], Inr ((0, sqCurrVal example_sequence), [5, 8]))"
    "nextKVal 3 example_sequence = (advanceTo example_sequence [5, 8], Inl (exhausted example_sequence))"
    "nextKVal 3 ?c = (advanceTo ?c [5, 8, 0], Inr ((0, sqCurrVal ?c), [5, 8, 0]))"
    using sequence_advances_within_bounds [of example_sequence 2, OF _ _ _ refl refl]
      sequence_advances_within_bounds [of example_sequence 3, OF _ _ _ refl refl]
      sequence_advances_within_bounds [of ?c 3, OF _ _ _ refl refl]
    by simp_all
  then show ?thesis by (simp add: defs advanceTo_def exhausted_def)
qed

text \<open>
  C37. A sequence that runs out in the middle of a request is left advanced. If the first of two values
  fits and the second does not, the call fails, the sequence stands at the first value, and no undo
  data exists with which the rollback of the transaction could take it back.
\<close>

theorem failed_advance_is_not_undone:
  assumes "seq_ok s" "\<not> cycle s" "usageCount s \<noteq> 0" "usageCount s \<noteq> - 1" "0 < sint (increment s)"
    and "sint (sqCurrVal s) + sint (increment s) \<le> sint (maxValue s)"
    and "sint (maxValue s) < sint (sqCurrVal s) + 2 * sint (increment s)"
  shows "nextKVal 2 s = (s\<lparr>sqCurrVal := sqCurrVal s + increment s, usageCount := usageCount s + 1\<rparr>, Inl reachedMaximum)
    \<and> sqCurrVal s + increment s \<noteq> sqCurrVal s"
proof -
  let ?t = "s\<lparr>sqCurrVal := sqCurrVal s + increment s, usageCount := usageCount s + 1\<rparr>"
  note b = sint_bounds [of "sqCurrVal s"] sint_bounds [of "maxValue s"] sint_bounds [of "increment s"]
  have fits: "sint (sqCurrVal s + increment s) = sint (sqCurrVal s) + sint (increment s)"
    using assms(5,6) b by (simp add: sint_add)
  let ?v = "sqCurrVal s + increment s + increment s"
  have second: "Add_operation (sqCurrVal s + increment s) (increment s) =
      (if sint (sqCurrVal s) + 2 * sint (increment s) < 2 ^ 63 then Inr ?v else Inl addOverflow)"
    unfolding Add_operation_cases fits using assms(5) b by simp
  have reached: "sint (sqCurrVal s) + 2 * sint (increment s) < 2 ^ 63 \<Longrightarrow>
      sint ?v = sint (sqCurrVal s) + 2 * sint (increment s)"
    unfolding sint_add [of "sqCurrVal s + increment s"] fits using assms(5) b by simp
  have first: "nextValNoLock s = Inr ?t"
    using assms b fits by (simp add: nextValNoLock_def Add_operation_cases seq_ok_def Let_def)
  have "usageCount s + 1 \<noteq> 0" using assms(4) by (metis add_eq_0_iff2)
  then have "nextValNoLock ?t = Inl reachedMaximum"
    using assms(1,2,5,7) reached unfolding nextValNoLock_def Let_def seq_ok_def
    by (simp add: second del: add.assoc)
  moreover have "sqCurrVal s + increment s \<noteq> sqCurrVal s" using assms(5) by auto
  ultimately show ?thesis using first by (simp add: nextKVal_def numeral_2_eq_2)
qed

theorem failed_advance_is_not_undone_witness:
  "nextKVal 2 (example_sequence\<lparr>sqCurrVal := 7, usageCount := 1\<rparr>) =
    (example_sequence\<lparr>sqCurrVal := 10, usageCount := 2\<rparr>, Inl reachedMaximum)"
  using failed_advance_is_not_undone [of "example_sequence\<lparr>sqCurrVal := 7, usageCount := 1\<rparr>"]
  by (simp add: seq_ok_def example_sequence_def SequenceData_new_def)

lemma sequence_round_trip: "Sequence_deserialize dbg (Sequence_serialize dbg s @ rest) = Inr (s, rest)"
  by (simp add: Sequence_deserialize_def Sequence_serialize_def field_round_trips returnD_def)

end
