(* ===== verification/Catalog_Entries.thy ===== *)
theory Catalog_Entries
  imports Property_Collection Sequence_Entry
begin

text \<open>
  The entries of the catalog: \<^verbatim>\<open>CatalogEntry\<close> and its subclasses of
  \<^verbatim>\<open>src/src/catalog/catalog_entry\<close>. Tables and sequences are modelled field by field; the
  other kinds of entry (macros, types, indexes, graphs, functions) are values of the type parameter
  \<open>'o\<close> with their serializer as an argument.

  An entry carries the address of its object, so that records that point to it can be followed.
  The pointers \<^verbatim>\<open>prev\<close> and \<^verbatim>\<open>next\<close> of an entry are the neighbours in the
  version chain, a list of entries with the newest first.
\<close>

section \<open>Entries\<close>

text \<open>\<^verbatim>\<open>CatalogEntryType\<close>\<close>

abbreviation (input) NODE_TABLE_ENTRY :: u8 where "NODE_TABLE_ENTRY \<equiv> 0"
abbreviation (input) REL_GROUP_ENTRY :: u8 where "REL_GROUP_ENTRY \<equiv> 2"
abbreviation (input) FOREIGN_TABLE_ENTRY :: u8 where "FOREIGN_TABLE_ENTRY \<equiv> 4"
abbreviation (input) SCALAR_MACRO_ENTRY :: u8 where "SCALAR_MACRO_ENTRY \<equiv> 10"
abbreviation (input) AGGREGATE_FUNCTION_ENTRY :: u8 where "AGGREGATE_FUNCTION_ENTRY \<equiv> 20"
abbreviation (input) SCALAR_FUNCTION_ENTRY :: u8 where "SCALAR_FUNCTION_ENTRY \<equiv> 21"
abbreviation (input) REWRITE_FUNCTION_ENTRY :: u8 where "REWRITE_FUNCTION_ENTRY \<equiv> 22"
abbreviation (input) TABLE_FUNCTION_ENTRY :: u8 where "TABLE_FUNCTION_ENTRY \<equiv> 23"
abbreviation (input) COPY_FUNCTION_ENTRY :: u8 where "COPY_FUNCTION_ENTRY \<equiv> 25"
abbreviation (input) STANDALONE_TABLE_FUNCTION_ENTRY :: u8 where "STANDALONE_TABLE_FUNCTION_ENTRY \<equiv> 26"
abbreviation (input) SEQUENCE_ENTRY :: u8 where "SEQUENCE_ENTRY \<equiv> 40"
abbreviation (input) TYPE_ENTRY :: u8 where "TYPE_ENTRY \<equiv> 41"
abbreviation (input) INDEX_ENTRY :: u8 where "INDEX_ENTRY \<equiv> 42"
abbreviation (input) GRAPH_ENTRY :: u8 where "GRAPH_ENTRY \<equiv> 50"
abbreviation (input) DUMMY_ENTRY :: u8 where "DUMMY_ENTRY \<equiv> 100"

record rel_table_info =
  rtSrcTableID :: u64
  rtDstTableID :: u64
  rtOID :: u64

text \<open>
  Of the scan function of a relationship group only its presence is kept, which is what is serialized.
  Left out are fields of tables that stand for tables of other databases, which are neither serialized
  nor read by the operations below: the bind data of the scan function and the name of the foreign
  database of a relationship group, and the scan function, its bind data callback, the name of the
  foreign database and the referenced entry of a node table.

\<close>

record rel_group =

  srcMultiplicity :: u8
  dstMultiplicity :: u8
  storageDirection :: u8
  rgStorage :: "u8 list"
  hasScanFunction :: bool
  relTableInfos :: "rel_table_info list"

datatype table_kind =
    NodeTable (primaryKeyName: "u8 list") (ntStorage: "u8 list")
  | RelGroup rel_group

record ('t, 'x) table_data =
  tdComment :: "u8 list"
  propertyCollection :: "('t, 'x) property_collection"
  tdKind :: "table_kind"

datatype ('t, 'x, 'o) entry_data =
    NoData
  | TableData "('t, 'x) table_data"
  | SequenceEntry sequence_data
  | OtherData 'o

record ('t, 'x, 'o) catalog_entry =
  ceAddr :: nat
  ceType :: u8
  ceName :: "u8 list"
  ceOID :: u64
  ceTimestamp :: transaction_t
  ceDeleted :: bool
  ceHasParent :: bool
  ceData :: "('t, 'x, 'o) entry_data"

definition DummyCatalogEntry :: "nat \<Rightarrow> u8 list \<Rightarrow> u64 \<Rightarrow> ('t, 'x, 'o) catalog_entry" where
  "DummyCatalogEntry addr name oid =
     \<lparr>ceAddr = addr, ceType = DUMMY_ENTRY, ceName = name, ceOID = oid, ceTimestamp = 0, ceDeleted = True,
      ceHasParent = False, ceData = NoData\<rparr>"

section \<open>Tables\<close>

definition addProperty :: "('t, 'x) property_definition \<Rightarrow> ('t, 'x) table_data \<Rightarrow> ('t, 'x) table_data" where
  "addProperty d t = t\<lparr>propertyCollection := pc_add d (propertyCollection t)\<rparr>"

definition dropProperty :: "u8 list \<Rightarrow> ('t, 'x) table_data \<Rightarrow> ('t, 'x) table_data res" where
  "dropProperty name t =
     bindR (pc_drop name (propertyCollection t)) (\<lambda>c. Inr (t\<lparr>propertyCollection := c\<rparr>))"

text \<open>A node table also renames its primary key.\<close>

definition renameProperty :: "u8 list \<Rightarrow> u8 list \<Rightarrow> ('t, 'x) table_data \<Rightarrow> ('t, 'x) table_data res" where
  "renameProperty name newName t =
     bindR (pc_rename name newName (propertyCollection t)) (\<lambda>c.
     let t = t\<lparr>propertyCollection := c\<rparr> in
     Inr (case tdKind t of
            NodeTable pk storage \<Rightarrow>
              (if caseInsensitiveEquals name pk then t\<lparr>tdKind := NodeTable newName storage\<rparr> else t)
          | RelGroup _ \<Rightarrow> t))"

definition addFromToConnection :: "u64 \<Rightarrow> u64 \<Rightarrow> u64 \<Rightarrow> rel_group \<Rightarrow> rel_group" where
  "addFromToConnection src dst oid g =
     g\<lparr>relTableInfos := relTableInfos g @ [\<lparr>rtSrcTableID = src, rtDstTableID = dst, rtOID = oid\<rparr>]\<rparr>"

definition dropFromToConnection :: "u64 \<Rightarrow> u64 \<Rightarrow> rel_group \<Rightarrow> rel_group" where
  "dropFromToConnection src dst g =
     g\<lparr>relTableInfos := filter (\<lambda>i. \<not> (rtSrcTableID i = src \<and> rtDstTableID i = dst)) (relTableInfos g)\<rparr>"

definition isParent :: "rel_group \<Rightarrow> u64 \<Rightarrow> bool" where
  "isParent g tableID = list_ex (\<lambda>i. rtSrcTableID i = tableID \<or> rtDstTableID i = tableID) (relTableInfos g)"

definition getRelEntryInfo :: "rel_group \<Rightarrow> u64 \<Rightarrow> u64 \<Rightarrow> rel_table_info option" where
  "getRelEntryInfo g src dst = find (\<lambda>i. rtSrcTableID i = src \<and> rtDstTableID i = dst) (relTableInfos g)"

text \<open>
  \<^verbatim>\<open>TableCatalogEntry::alter\<close>: a changed copy of the entry. Adding a connection takes an
  identifier from the catalog set, whose counter is threaded through.
\<close>

definition TableCatalogEntry_alter ::
  "transaction_t \<Rightarrow> (('t, 'x) property_definition, 'x) alter_info \<times> u8 \<Rightarrow> u64 \<Rightarrow> ('t, 'x, 'o) catalog_entry
     \<Rightarrow> (('t, 'x, 'o) catalog_entry \<times> u64) res" where
  "TableCatalogEntry_alter ts info nextOID e =
     bindR (assertR (\<not> ceDeleted e)) (\<lambda>_.
     bindR (case ceData e of TableData t \<Rightarrow> Inr t | _ \<Rightarrow> Inl AssertFail) (\<lambda>t.
     let done = (\<lambda>t. e\<lparr>ceData := TableData t, ceTimestamp := ts\<rparr>) in
     case fst info of
       RenameTable newName \<Rightarrow> Inr ((done t)\<lparr>ceName := newName\<rparr>, nextOID)
     | RenameProperty newName oldName \<Rightarrow> bindR (renameProperty oldName newName t) (\<lambda>t. Inr (done t, nextOID))
     | AddProperty d boundDefault \<Rightarrow> Inr (done (addProperty d t), nextOID)
     | DropProperty name \<Rightarrow> bindR (dropProperty name t) (\<lambda>t. Inr (done t, nextOID))
     | Comment comment \<Rightarrow> Inr (done (t\<lparr>tdComment := comment\<rparr>), nextOID)
     | AddFromToConnection src dst \<Rightarrow>
         (case tdKind t of
            RelGroup g \<Rightarrow> Inr (done (t\<lparr>tdKind := RelGroup (addFromToConnection src dst nextOID g)\<rparr>), nextOID + 1)
          | NodeTable _ _ \<Rightarrow> Inl AssertFail)
     | DropFromToConnection src dst \<Rightarrow>
         (case tdKind t of
            RelGroup g \<Rightarrow> Inr (done (t\<lparr>tdKind := RelGroup (dropFromToConnection src dst g)\<rparr>), nextOID)
          | NodeTable _ _ \<Rightarrow> Inl AssertFail)))"

section \<open>Storing entries\<close>

definition CatalogEntry_serialize :: "bool \<Rightarrow> ('t, 'x, 'o) catalog_entry \<Rightarrow> u8 list" where
  "CatalogEntry_serialize dbg e =
     writeTag dbg ''type'' @ serializeU8 (ceType e) @
     writeTag dbg ''name'' @ serializeString (ceName e) @
     writeTag dbg ''oid'' @ serializeU64 (ceOID e) @
     writeTag dbg ''hasParent_'' @ serializeBool (ceHasParent e)"

definition RelTableCatalogInfo_serialize :: "bool \<Rightarrow> rel_table_info \<Rightarrow> u8 list" where
  "RelTableCatalogInfo_serialize dbg i =
     writeTag dbg ''nodePair'' @
     writeTag dbg ''srcTableID'' @ serializeU64 (rtSrcTableID i) @
     writeTag dbg ''dstTableID'' @ serializeU64 (rtDstTableID i) @
     writeTag dbg ''oid'' @ serializeU64 (rtOID i)"

definition RelTableCatalogInfo_deserialize :: "bool \<Rightarrow> rel_table_info reader" where
  "RelTableCatalogInfo_deserialize dbg =
     bindD (expectTag dbg ''nodePair'') (\<lambda>_.
     bindD (expectTag dbg ''srcTableID'') (\<lambda>_. bindD deserializeU64 (\<lambda>src.
     bindD (expectTag dbg ''dstTableID'') (\<lambda>_. bindD deserializeU64 (\<lambda>dst.
     bindD (expectTag dbg ''oid'') (\<lambda>_. bindD deserializeU64 (\<lambda>oid.
     returnD \<lparr>rtSrcTableID = src, rtDstTableID = dst, rtOID = oid\<rparr>)))))))"

definition NodeTable_serialize :: "bool \<Rightarrow> u8 list \<Rightarrow> u8 list \<Rightarrow> u8 list" where
  "NodeTable_serialize dbg pk storage =
     writeTag dbg ''primaryKeyName'' @ serializeString pk @ writeTag dbg ''storage'' @ serializeString storage"

definition NodeTable_deserialize :: "bool \<Rightarrow> table_kind reader" where
  "NodeTable_deserialize dbg =
     bindD (expectTag dbg ''primaryKeyName'') (\<lambda>_. bindD deserializeString (\<lambda>pk.
     bindD (expectTag dbg ''storage'') (\<lambda>_. bindD deserializeString (\<lambda>storage.
     returnD (NodeTable pk storage)))))"

definition RelGroup_serialize :: "bool \<Rightarrow> rel_group \<Rightarrow> u8 list" where
  "RelGroup_serialize dbg g =
     writeTag dbg ''srcMultiplicity'' @ serializeU8 (srcMultiplicity g) @
     writeTag dbg ''dstMultiplicity'' @ serializeU8 (dstMultiplicity g) @
     writeTag dbg ''storageDirection'' @ serializeU8 (storageDirection g) @
     writeTag dbg ''storage'' @ serializeString (rgStorage g) @
     writeTag dbg ''scanFunction'' @ serializeBool (hasScanFunction g) @
     writeTag dbg ''relTableInfos'' @ serializeVector (RelTableCatalogInfo_serialize dbg) (relTableInfos g)"

definition RelGroup_deserialize :: "bool \<Rightarrow> table_kind reader" where
  "RelGroup_deserialize dbg =
     bindD (expectTag dbg ''srcMultiplicity'') (\<lambda>_. bindD deserializeU8 (\<lambda>srcm.
     bindD (expectTag dbg ''dstMultiplicity'') (\<lambda>_. bindD deserializeU8 (\<lambda>dstm.
     bindD (expectTag dbg ''storageDirection'') (\<lambda>_. bindD deserializeU8 (\<lambda>dir.
     bindD (expectTag dbg ''storage'') (\<lambda>_. bindD deserializeString (\<lambda>storage.
     bindD (expectTag dbg ''scanFunction'') (\<lambda>_. bindD deserializeBool (\<lambda>hasScan.
     bindD (expectTag dbg ''relTableInfos'') (\<lambda>_. bindD (deserializeVector (RelTableCatalogInfo_deserialize dbg)) (\<lambda>infos.
     returnD (RelGroup \<lparr>srcMultiplicity = srcm, dstMultiplicity = dstm, storageDirection = dir, rgStorage = storage,
       hasScanFunction = False, relTableInfos = infos\<rparr>)))))))))))))"

definition TableCatalogEntry_serialize :: "('t \<Rightarrow> u8 list) \<Rightarrow> ('x \<Rightarrow> u8 list) \<Rightarrow> bool \<Rightarrow> ('t, 'x) table_data \<Rightarrow> u8 list" where
  "TableCatalogEntry_serialize sT sX dbg t =
     writeTag dbg ''comment'' @ serializeString (tdComment t) @
     writeTag dbg ''properties'' @ pc_serialize sT sX dbg (propertyCollection t) @
     (case tdKind t of
        NodeTable pk storage \<Rightarrow> NodeTable_serialize dbg pk storage
      | RelGroup g \<Rightarrow> RelGroup_serialize dbg g)"

definition TableCatalogEntry_deserialize :: "'t reader \<Rightarrow> 'x reader \<Rightarrow> bool \<Rightarrow> u8 \<Rightarrow> ('t, 'x) table_data reader" where
  "TableCatalogEntry_deserialize dT dX dbg type =
     bindD (expectTag dbg ''comment'') (\<lambda>_. bindD deserializeString (\<lambda>comment.
     bindD (expectTag dbg ''properties'') (\<lambda>_. bindD (pc_deserialize dT dX dbg) (\<lambda>props.
     bindD (if type = NODE_TABLE_ENTRY then NodeTable_deserialize dbg
            else if type = REL_GROUP_ENTRY then RelGroup_deserialize dbg
            else (\<lambda>_. Inl AssertFail)) (\<lambda>kind.
     returnD \<lparr>tdComment = comment, propertyCollection = props, tdKind = kind\<rparr>)))))"

text \<open>The virtual \<^verbatim>\<open>serialize\<close>; that of a dummy entry is unreachable code.\<close>

definition entry_serialize ::
  "('t \<Rightarrow> u8 list) \<Rightarrow> ('x \<Rightarrow> u8 list) \<Rightarrow> ('o \<Rightarrow> u8 list) \<Rightarrow> bool \<Rightarrow> ('t, 'x, 'o) catalog_entry \<Rightarrow> u8 list res" where
  "entry_serialize sT sX sO dbg e =
     (case ceData e of
        NoData \<Rightarrow> Inl AssertFail
      | TableData t \<Rightarrow> Inr (CatalogEntry_serialize dbg e @ TableCatalogEntry_serialize sT sX dbg t)
      | SequenceEntry s \<Rightarrow> Inr (CatalogEntry_serialize dbg e @ Sequence_serialize dbg s)
      | OtherData x \<Rightarrow> Inr (CatalogEntry_serialize dbg e @ sO x))"

definition deserializeData ::
  "'t reader \<Rightarrow> 'x reader \<Rightarrow> (u8 \<Rightarrow> 'o reader) \<Rightarrow> bool \<Rightarrow> u8 \<Rightarrow> ('t, 'x, 'o) entry_data reader" where
  "deserializeData dT dX dO dbg type =
     (if type = NODE_TABLE_ENTRY \<or> type = REL_GROUP_ENTRY then
        bindD (TableCatalogEntry_deserialize dT dX dbg type) (\<lambda>t. returnD (TableData t))
      else if type = SEQUENCE_ENTRY then bindD (Sequence_deserialize dbg) (\<lambda>s. returnD (SequenceEntry s))
      else if type = SCALAR_MACRO_ENTRY \<or> type = TYPE_ENTRY \<or> type = INDEX_ENTRY \<or> type = GRAPH_ENTRY then
        bindD (dO type) (\<lambda>x. returnD (OtherData x))
      else (\<lambda>_. Inl AssertFail))"

definition CatalogEntry_deserialize ::
  "'t reader \<Rightarrow> 'x reader \<Rightarrow> (u8 \<Rightarrow> 'o reader) \<Rightarrow> bool \<Rightarrow> nat \<Rightarrow> ('t, 'x, 'o) catalog_entry reader" where
  "CatalogEntry_deserialize dT dX dO dbg addr =
     bindD (expectTag dbg ''type'') (\<lambda>_. bindD deserializeU8 (\<lambda>type.
     bindD (expectTag dbg ''name'') (\<lambda>_. bindD deserializeString (\<lambda>name.
     bindD (expectTag dbg ''oid'') (\<lambda>_. bindD deserializeU64 (\<lambda>oid.
     bindD (expectTag dbg ''hasParent_'') (\<lambda>_. bindD deserializeBool (\<lambda>hasParent.
     bindD (deserializeData dT dX dO dbg type) (\<lambda>data.
     returnD \<lparr>ceAddr = addr, ceType = type, ceName = name, ceOID = oid, ceTimestamp = 0, ceDeleted = False,
              ceHasParent = hasParent, ceData = data\<rparr>)))))))))"

section \<open>Round trip\<close>

lemma rel_info_round_trip: "RelTableCatalogInfo_deserialize dbg (RelTableCatalogInfo_serialize dbg i @ rest) = Inr (i, rest)"
  by (simp add: RelTableCatalogInfo_deserialize_def RelTableCatalogInfo_serialize_def field_round_trips returnD_def)

interpretation ser_rel_info: serializable "RelTableCatalogInfo_serialize dbg" "RelTableCatalogInfo_deserialize dbg" "\<lambda>_. True" for dbg
  by unfold_locales (rule rel_info_round_trip)

fun kind_storable :: "table_kind \<Rightarrow> bool" where
  "kind_storable (NodeTable pk storage) \<longleftrightarrow> length pk < 2 ^ 64 \<and> length storage < 2 ^ 64"
| "kind_storable (RelGroup g) \<longleftrightarrow> length (rgStorage g) < 2 ^ 64 \<and> length (relTableInfos g) < 2 ^ 64 \<and> \<not> hasScanFunction g"

lemma node_table_round_trip:
  "kind_storable (NodeTable pk storage) \<Longrightarrow>
    NodeTable_deserialize dbg (NodeTable_serialize dbg pk storage @ rest) = Inr (NodeTable pk storage, rest)"
  by (simp add: NodeTable_deserialize_def NodeTable_serialize_def field_round_trips returnD_def)

lemma rel_group_round_trip:
  "kind_storable (RelGroup g) \<Longrightarrow>
    RelGroup_deserialize dbg (RelGroup_serialize dbg g @ rest) = Inr (RelGroup g, rest)"
  by (simp add: RelGroup_deserialize_def RelGroup_serialize_def field_round_trips returnD_def ser_rel_info.vector_round_trip)

text \<open>
  An entry that can be stored: its type is that of its data, its strings have a length of the
  address space and its properties are consistent.
\<close>

definition entry_storable ::
  "('t \<Rightarrow> bool) \<Rightarrow> ('x \<Rightarrow> bool) \<Rightarrow> ('o \<Rightarrow> bool) \<Rightarrow> ('t, 'x, 'o) catalog_entry \<Rightarrow> bool" where
  "entry_storable vT vX vO e \<longleftrightarrow> length (ceName e) < 2 ^ 64 \<and> \<not> ceDeleted e \<and>
     (case ceData e of
        NoData \<Rightarrow> False
      | TableData t \<Rightarrow> ceType e = (case tdKind t of NodeTable _ _ \<Rightarrow> NODE_TABLE_ENTRY | RelGroup _ \<Rightarrow> REL_GROUP_ENTRY)
          \<and> length (tdComment t) < 2 ^ 64 \<and> kind_storable (tdKind t)
          \<and> pc_inv (propertyCollection t) \<and> pc_storable vT vX (propertyCollection t)
      | SequenceEntry s \<Rightarrow> ceType e = SEQUENCE_ENTRY
      | OtherData x \<Rightarrow> ceType e \<in> {SCALAR_MACRO_ENTRY, TYPE_ENTRY, INDEX_ENTRY, GRAPH_ENTRY} \<and> vO x)"

fun data_rebuilt :: "('t, 'x, 'o) entry_data \<Rightarrow> ('t, 'x, 'o) entry_data" where
  "data_rebuilt (TableData t) = TableData (t\<lparr>propertyCollection := pc_rebuilt (propertyCollection t)\<rparr>)"
| "data_rebuilt d = d"

lemma table_round_trip:
  assumes sT: "serializable sT dT vT" and sX: "serializable sX dX vX"
    and ok: "length (tdComment t) < 2 ^ 64" "kind_storable (tdKind t)"
      "pc_inv (propertyCollection t)" "pc_storable vT vX (propertyCollection t)"
    and type: "type = (case tdKind t of NodeTable _ _ \<Rightarrow> NODE_TABLE_ENTRY | RelGroup _ \<Rightarrow> REL_GROUP_ENTRY)"
  shows "TableCatalogEntry_deserialize dT dX dbg type (TableCatalogEntry_serialize sT sX dbg t @ rest) =
    Inr (t\<lparr>propertyCollection := pc_rebuilt (propertyCollection t)\<rparr>, rest)"
proof (cases "tdKind t")
  case (NodeTable pk storage)
  then show ?thesis
    using ok type pc_round_trip [OF sT sX ok(3,4)] node_table_round_trip [of pk storage]
    by (simp add: TableCatalogEntry_deserialize_def TableCatalogEntry_serialize_def field_round_trips returnD_def)
next
  case (RelGroup g)
  then show ?thesis
    using ok type pc_round_trip [OF sT sX ok(3,4)] rel_group_round_trip [of g]
    by (simp add: TableCatalogEntry_deserialize_def TableCatalogEntry_serialize_def field_round_trips returnD_def)
qed

lemma entry_header_round_trip:
  assumes "length (ceName e) < 2 ^ 64" "\<not> ceDeleted e"
    and "\<And>rest. deserializeData dT dX dO dbg (ceType e) (body @ rest) = Inr (data, rest)"
  shows "CatalogEntry_deserialize dT dX dO dbg addr ((CatalogEntry_serialize dbg e @ body) @ rest) =
    Inr (e\<lparr>ceAddr := addr, ceTimestamp := 0, ceData := data\<rparr>, rest)"
  using assms by (simp add: CatalogEntry_deserialize_def CatalogEntry_serialize_def field_round_trips returnD_def)

lemma entry_round_trip_ok:
  assumes sT: "serializable sT dT vT" and sX: "serializable sX dX vX" and sO: "\<And>type. serializable sO (dO type) vO"
    and ok: "entry_storable vT vX vO e"
  shows "\<exists>bs. entry_serialize sT sX sO dbg e = Inr bs
    \<and> (\<forall>rest. CatalogEntry_deserialize dT dX dO dbg addr (bs @ rest) =
      Inr (e\<lparr>ceAddr := addr, ceTimestamp := 0, ceData := data_rebuilt (ceData e)\<rparr>, rest))"
proof -
  have *: "\<exists>body. entry_serialize sT sX sO dbg e = Inr (CatalogEntry_serialize dbg e @ body)
      \<and> (\<forall>rest. deserializeData dT dX dO dbg (ceType e) (body @ rest) = Inr (data_rebuilt (ceData e), rest))"
  proof (cases "ceData e")
    case NoData
    then show ?thesis using ok by (simp add: entry_storable_def)
  next
    case (TableData t)
    then have "TableCatalogEntry_deserialize dT dX dbg (ceType e) (TableCatalogEntry_serialize sT sX dbg t @ rest) =
      Inr (t\<lparr>propertyCollection := pc_rebuilt (propertyCollection t)\<rparr>, rest)" for rest
      using ok by (intro table_round_trip [OF sT sX]) (simp_all add: entry_storable_def)
    moreover have "ceType e = NODE_TABLE_ENTRY \<or> ceType e = REL_GROUP_ENTRY"
      using ok TableData by (simp add: entry_storable_def split: table_kind.splits)
    ultimately show ?thesis
      using TableData by (simp add: entry_serialize_def deserializeData_def bindD_def returnD_def)
  next
    case (SequenceEntry s)
    then show ?thesis
      using ok by (simp add: entry_serialize_def entry_storable_def deserializeData_def bindD_def returnD_def sequence_round_trip)
  next
    case (OtherData x)
    then have "dO (ceType e) (sO x @ rest) = Inr (x, rest)" for rest
      using ok serializable.round_trip [OF sO] by (simp add: entry_storable_def)
    then show ?thesis
      using OtherData ok by (auto simp: entry_serialize_def entry_storable_def deserializeData_def bindD_def returnD_def)
  qed
  then obtain body where body: "entry_serialize sT sX sO dbg e = Inr (CatalogEntry_serialize dbg e @ body)"
      "\<And>rest. deserializeData dT dX dO dbg (ceType e) (body @ rest) = Inr (data_rebuilt (ceData e), rest)" by blast
  have "CatalogEntry_deserialize dT dX dO dbg addr ((CatalogEntry_serialize dbg e @ body) @ rest) =
    Inr (e\<lparr>ceAddr := addr, ceTimestamp := 0, ceData := data_rebuilt (ceData e)\<rparr>, rest)" for rest
    using ok body(2) by (intro entry_header_round_trip) (simp_all add: entry_storable_def)
  then show ?thesis using body(1) by blast
qed

end
