(* ===== verification/Catalog_Set.thy ===== *)
theory Catalog_Set
  imports Catalog_Entries Transaction_Manager
begin

text \<open>
  The versioned catalog: \<^verbatim>\<open>CatalogSet\<close> of \<^verbatim>\<open>src/src/catalog/catalog_set.cpp\<close>, what
  a change of the catalog pushes to the undo buffer and to the local log of the transaction
  (\<^verbatim>\<open>src/src/transaction/transaction.cpp\<close>), and the commit and rollback of a catalog record
  (\<^verbatim>\<open>src/src/storage/undo_buffer.cpp\<close>).

  Every name has a chain of versions, the newest first. A transaction reads the first version that
  is its own or was committed when it started. An undo record is the address of the version that a
  change put a new version in front of.
\<close>

section \<open>State\<close>

type_synonym ('t, 'x, 'o) chain = "('t, 'x, 'o) catalog_entry list"

record ('t, 'x, 'o) catalog_set =
  nextOID :: u64
  entries :: "('t, 'x, 'o) chain name_map"
  nextAddr :: nat

definition INTERNAL_CATALOG_SET_START_OID :: u64 where
  "INTERNAL_CATALOG_SET_START_OID = push_bit 63 1"

definition CatalogSet_new :: "bool \<Rightarrow> ('t, 'x, 'o) catalog_set" where
  "CatalogSet_new internal =
     \<lparr>nextOID = (if internal then INTERNAL_CATALOG_SET_START_OID else 0), entries = [], nextAddr = 0\<rparr>"

definition isInternal :: "('t, 'x, 'o) catalog_set \<Rightarrow> bool" where
  "isInternal s = (INTERNAL_CATALOG_SET_START_OID \<le> nextOID s)"

definition getNextOID :: "('t, 'x, 'o) catalog_set \<Rightarrow> ('t, 'x, 'o) catalog_set \<times> u64" where
  "getNextOID s = (s\<lparr>nextOID := nextOID s + 1\<rparr>, nextOID s)"

text \<open>What a transaction collects: undo records and log records.\<close>

type_synonym ('t, 'x, 'o) ddl_record = "(('t, 'x, 'o) catalog_entry, ('t, 'x) property_definition, 'x, unit) wal_record"

record ('t, 'x, 'o) ddl_log =
  undoRecords :: "nat list"
  walRecords :: "('t, 'x, 'o) ddl_record list"

section \<open>Reading\<close>

definition checkWWConflict :: "transaction \<Rightarrow> ('t, 'x, 'o) catalog_entry \<Rightarrow> bool" where
  "checkWWConflict t e \<longleftrightarrow>
     (START_TRANSACTION_ID \<le> ceTimestamp e \<and> ceTimestamp e \<noteq> txnID t)
     \<or> (ceTimestamp e < START_TRANSACTION_ID \<and> startTS t < ceTimestamp e)"

text \<open>\<^verbatim>\<open>getPrev\<close> asserts that there is an older version.\<close>

fun traverseVersionChains :: "transaction \<Rightarrow> ('t, 'x, 'o) chain \<Rightarrow> ('t, 'x, 'o) catalog_entry res" where
  "traverseVersionChains t [] = Inl AssertFail"
| "traverseVersionChains t (e # chain) =
     (if ceTimestamp e = txnID t then Inr e
      else if ceTimestamp e \<le> startTS t then Inr e
      else traverseVersionChains t chain)"

fun getCommittedEntryNoLock :: "('t, 'x, 'o) chain \<Rightarrow> ('t, 'x, 'o) catalog_entry res" where
  "getCommittedEntryNoLock [] = Inl AssertFail"
| "getCommittedEntryNoLock (e # chain) =
     (if ceTimestamp e < START_TRANSACTION_ID then Inr e else getCommittedEntryNoLock chain)"

definition containsEntryNoLock :: "transaction \<Rightarrow> u8 list \<Rightarrow> ('t, 'x, 'o) catalog_set \<Rightarrow> bool res" where
  "containsEntryNoLock t name s =
     (case nm_at (entries s) name of
        None \<Rightarrow> Inr False
      | Some chain \<Rightarrow> bindR (traverseVersionChains t chain) (\<lambda>e. Inr (\<not> ceDeleted e)))"

definition notInCatalog :: err where
  "notInCatalog = CatalogException ''does not exist in catalog.''"

definition alreadyInCatalog :: err where
  "alreadyInCatalog = CatalogException ''already exists in catalog.''"

definition catalogConflict :: err where
  "catalogConflict = CatalogException ''Write-write conflict on creating catalog entry.''"

definition validateExistNoLock :: "transaction \<Rightarrow> u8 list \<Rightarrow> ('t, 'x, 'o) catalog_set \<Rightarrow> unit res" where
  "validateExistNoLock t name s =
     bindR (containsEntryNoLock t name s) (\<lambda>b. if \<not> b then Inl notInCatalog else Inr ())"

definition validateNotExistNoLock :: "transaction \<Rightarrow> u8 list \<Rightarrow> ('t, 'x, 'o) catalog_set \<Rightarrow> unit res" where
  "validateNotExistNoLock t name s =
     bindR (containsEntryNoLock t name s) (\<lambda>b. if b then Inl alreadyInCatalog else Inr ())"

definition getEntryNoLock :: "transaction \<Rightarrow> u8 list \<Rightarrow> ('t, 'x, 'o) catalog_set \<Rightarrow> ('t, 'x, 'o) catalog_entry res" where
  "getEntryNoLock t name s =
     bindR (validateExistNoLock t name s) (\<lambda>_.
     bindR (derefR (nm_at (entries s) name)) (\<lambda>chain.
     bindR (traverseVersionChains t chain) (\<lambda>e.
     bindR (assertR (\<not> ceDeleted e)) (\<lambda>_. Inr e))))"

definition getEntries :: "transaction \<Rightarrow> ('t, 'x, 'o) catalog_set \<Rightarrow> ('t, 'x, 'o) catalog_entry name_map res" where
  "getEntries t s =
     foldR (\<lambda>(name, chain) result.
         bindR (traverseVersionChains t chain) (\<lambda>e.
         Inr (if ceDeleted e then result else nm_emplace result name e)))
       (entries s) []"

fun entryOfOID :: "transaction \<Rightarrow> u64 \<Rightarrow> ('t, 'x, 'o) chain name_map \<Rightarrow> ('t, 'x, 'o) catalog_entry option res" where
  "entryOfOID t oid [] = Inr None"
| "entryOfOID t oid ((name, chain) # m) =
     bindR (nthR chain 0) (\<lambda>head.
     if ceOID head \<noteq> oid then entryOfOID t oid m
     else bindR (traverseVersionChains t chain) (\<lambda>e.
          if ceDeleted e then entryOfOID t oid m else Inr (Some e)))"

definition getEntryOfOID :: "transaction \<Rightarrow> u64 \<Rightarrow> ('t, 'x, 'o) catalog_set \<Rightarrow> ('t, 'x, 'o) catalog_entry option res" where
  "getEntryOfOID t oid s = entryOfOID t oid (entries s)"

section \<open>Changing the versions\<close>

text \<open>
  \<^verbatim>\<open>emplaceNoLock\<close> of an entry with the versions it owns: an existing chain of the name
  becomes its older versions.
\<close>

definition emplaceNoLock :: "('t, 'x, 'o) chain \<Rightarrow> ('t, 'x, 'o) catalog_set \<Rightarrow> ('t, 'x, 'o) catalog_set" where
  "emplaceNoLock chain s =
     (let name = ceName (hd chain) in
      case nm_at (entries s) name of
        Some older \<Rightarrow> s\<lparr>entries := nm_emplace (nm_erase (entries s) name) name (hd chain # older)\<rparr>
      | None \<Rightarrow> s\<lparr>entries := nm_emplace (entries s) name chain\<rparr>)"

definition eraseNoLock :: "u8 list \<Rightarrow> ('t, 'x, 'o) catalog_set \<Rightarrow> ('t, 'x, 'o) catalog_set" where
  "eraseNoLock name s = s\<lparr>entries := nm_erase (entries s) name\<rparr>"

definition createDummyEntryNoLock ::
  "u8 list \<Rightarrow> u64 \<Rightarrow> ('t, 'x, 'o) catalog_set \<Rightarrow> ('t, 'x, 'o) catalog_set \<times> ('t, 'x, 'o) catalog_entry" where
  "createDummyEntryNoLock name oid s =
     (s\<lparr>nextAddr := nextAddr s + 1\<rparr>, DummyCatalogEntry (nextAddr s) name oid)"

text \<open>The result is the version below the new one.\<close>

definition createEntryNoLock ::
  "transaction \<Rightarrow> ('t, 'x, 'o) catalog_entry \<Rightarrow> ('t, 'x, 'o) catalog_set
     \<Rightarrow> (('t, 'x, 'o) catalog_set \<times> ('t, 'x, 'o) catalog_entry) res" where
  "createEntryNoLock t entry s =
     bindR (validateNotExistNoLock t (ceName entry) s) (\<lambda>_.
     let entry = entry\<lparr>ceTimestamp := txnID t\<rparr> in
     bindR (case nm_at (entries s) (ceName entry) of
              None \<Rightarrow> Inr ()
            | Some chain \<Rightarrow>
                bindR (nthR chain 0) (\<lambda>existingEntry.
                if checkWWConflict t existingEntry then Inl catalogConflict
                else if \<not> ceDeleted existingEntry then Inl alreadyInCatalog
                else Inr ())) (\<lambda>_.
     let (s, dummyEntry) = createDummyEntryNoLock (ceName entry) (ceOID entry) s;
         s = s\<lparr>entries := nm_emplace (entries s) (ceName entry) [dummyEntry]\<rparr>;
         s' = emplaceNoLock [entry] s in
     bindR (derefR (nm_at (entries s') (ceName entry))) (\<lambda>chain.
     bindR (nthR chain 1) (\<lambda>prev. Inr (s', prev)))))"

definition dropEntryNoLock ::
  "transaction \<Rightarrow> u8 list \<Rightarrow> u64 \<Rightarrow> ('t, 'x, 'o) catalog_set
     \<Rightarrow> (('t, 'x, 'o) catalog_set \<times> ('t, 'x, 'o) catalog_entry) res" where
  "dropEntryNoLock t name oid s =
     bindR (validateExistNoLock t name s) (\<lambda>_.
     let (s, tombstone) = createDummyEntryNoLock name oid s;
         tombstone = tombstone\<lparr>ceTimestamp := txnID t\<rparr>;
         s' = emplaceNoLock [tombstone] s in
     bindR (derefR (nm_at (entries s') name)) (\<lambda>chain.
     bindR (nthR chain 1) (\<lambda>prev. Inr (s', prev))))"

section \<open>Records of a change\<close>

definition shouldAppendToUndoBuffer :: "transaction \<Rightarrow> bool" where
  "shouldAppendToUndoBuffer t \<longleftrightarrow> isWriteTransaction t \<or> isRecovery t"

definition unsupportedEntry :: err where
  "unsupportedEntry = RuntimeException ''Not supported catalog entry type yet.''"

text \<open>The log record for a new version \<open>new\<close> in front of \<open>old\<close>, if there is one.\<close>

definition createDropRecord ::
  "bool \<Rightarrow> ('t, 'x, 'o) catalog_entry \<Rightarrow> ('t, 'x, 'o) catalog_entry \<Rightarrow> ('t, 'x, 'o) ddl_record option res" where
  "createDropRecord internal old new =
     (if ceType new \<in> {INDEX_ENTRY, NODE_TABLE_ENTRY, REL_GROUP_ENTRY} then
        if ceType old = DUMMY_ENTRY then
          bindR (assertR (ceDeleted old)) (\<lambda>_. Inr (Some (CreateCatalogEntryRecord new internal)))
        else Inl (RuntimeException ''Alter table is not supported.'')
      else if ceType new = SEQUENCE_ENTRY then
        bindR (assertR (ceType old = DUMMY_ENTRY \<and> ceDeleted old)) (\<lambda>_.
        Inr (if ceHasParent new then None else Some (CreateCatalogEntryRecord new internal)))
      else if ceType new \<in> {SCALAR_MACRO_ENTRY, TYPE_ENTRY, GRAPH_ENTRY} then
        bindR (assertR (ceType old = DUMMY_ENTRY \<and> ceDeleted old)) (\<lambda>_.
        Inr (Some (CreateCatalogEntryRecord new internal)))
      else if ceType new = DUMMY_ENTRY then
        bindR (assertR (ceDeleted new)) (\<lambda>_.
        if ceHasParent old then Inr None
        else if ceType old \<in> {INDEX_ENTRY, SCALAR_MACRO_ENTRY, NODE_TABLE_ENTRY, REL_GROUP_ENTRY, SEQUENCE_ENTRY, GRAPH_ENTRY}
        then Inr (Some (DropCatalogEntryRecord (ceOID old) (ceType old)))
        else if ceType old \<in> {SCALAR_FUNCTION_ENTRY, TABLE_FUNCTION_ENTRY, STANDALONE_TABLE_FUNCTION_ENTRY} then Inr None
        else Inl unsupportedEntry)
      else if ceType new \<in> {SCALAR_FUNCTION_ENTRY, TABLE_FUNCTION_ENTRY, STANDALONE_TABLE_FUNCTION_ENTRY} then Inr None
      else Inl unsupportedEntry)"

definition pushCreateDropCatalogEntry ::
  "bool \<Rightarrow> bool \<Rightarrow> bool \<Rightarrow> ('t, 'x, 'o) catalog_entry \<Rightarrow> ('t, 'x, 'o) catalog_entry \<Rightarrow> ('t, 'x, 'o) ddl_log
     \<Rightarrow> ('t, 'x, 'o) ddl_log \<times> unit res" where
  "pushCreateDropCatalogEntry logs internal skip old new log =
     (let log = log\<lparr>undoRecords := undoRecords log @ [ceAddr old]\<rparr> in
      if \<not> logs \<or> skip then (log, Inr ())
      else case createDropRecord internal old new of
             Inl e \<Rightarrow> (log, Inl e)
           | Inr None \<Rightarrow> (log, Inr ())
           | Inr (Some r) \<Rightarrow> (log\<lparr>walRecords := walRecords log @ [r]\<rparr>, Inr ()))"

definition pushAlterCatalogEntry ::
  "bool \<Rightarrow> ('t, 'x, 'o) catalog_entry \<Rightarrow> u8 list \<Rightarrow> (('t, 'x) property_definition, 'x) alter_info \<times> u8 \<Rightarrow> ('t, 'x, 'o) ddl_log
     \<Rightarrow> ('t, 'x, 'o) ddl_log" where
  "pushAlterCatalogEntry logs old tableName info log =
     (let log = log\<lparr>undoRecords := undoRecords log @ [ceAddr old]\<rparr> in
      if logs then log\<lparr>walRecords := walRecords log @ [AlterTableEntryRecord tableName (fst info) (snd info)]\<rparr> else log)"

section \<open>Changes\<close>

type_synonym ('t, 'x, 'o) ddl_state = "('t, 'x, 'o) catalog_set \<times> ('t, 'x, 'o) ddl_log"

definition headOf :: "u8 list \<Rightarrow> ('t, 'x, 'o) catalog_set \<Rightarrow> ('t, 'x, 'o) catalog_entry res" where
  "headOf name s = bindR (derefR (nm_at (entries s) name)) (\<lambda>chain. nthR chain 0)"

definition createEntry ::
  "db_config \<Rightarrow> transaction \<Rightarrow> ('t, 'x, 'o) catalog_entry \<Rightarrow> ('t, 'x, 'o) ddl_state \<Rightarrow> ('t, 'x, 'o) ddl_state \<times> u64 res" where
  "createEntry cfg t entry st =
     (let s = fst st; log = snd st; oid = nextOID s;
          entry = entry\<lparr>ceOID := oid, ceAddr := nextAddr s\<rparr>;
          s = s\<lparr>nextOID := oid + 1, nextAddr := nextAddr s + 1\<rparr> in
      case createEntryNoLock t entry s of
        Inl e \<Rightarrow> ((s, log), Inl e)
      | Inr (s, prev) \<Rightarrow>
          if shouldAppendToUndoBuffer t then
            case bindS (log, headOf (ceName entry) s)
                   (\<lambda>new. pushCreateDropCatalogEntry (shouldLogToWAL cfg t) (isInternal s) False prev new) of
              (log, Inl e) \<Rightarrow> ((s, log), Inl e)
            | (log, Inr _) \<Rightarrow> ((s, log), Inr oid)
          else ((s, log), Inr oid))"

definition dropEntry ::
  "db_config \<Rightarrow> transaction \<Rightarrow> u8 list \<Rightarrow> u64 \<Rightarrow> ('t, 'x, 'o) ddl_state \<Rightarrow> ('t, 'x, 'o) ddl_state \<times> unit res" where
  "dropEntry cfg t name oid st =
     (let s = fst st; log = snd st in
      case dropEntryNoLock t name oid s of
        Inl e \<Rightarrow> ((s, log), Inl e)
      | Inr (s, prev) \<Rightarrow>
          if shouldAppendToUndoBuffer t then
            case bindS (log, headOf name s)
                   (\<lambda>new. pushCreateDropCatalogEntry (shouldLogToWAL cfg t) (isInternal s) False prev new) of
              (log, Inl e) \<Rightarrow> ((s, log), Inl e)
            | (log, Inr _) \<Rightarrow> ((s, log), Inr ())
          else ((s, log), Inr ()))"

text \<open>
  The end of \<^verbatim>\<open>alterTableEntry\<close>, with the altered copy of the entry. Renaming a table is
  dropping it and creating it under the new name.
\<close>

definition installAltered ::
  "db_config \<Rightarrow> transaction \<Rightarrow> u8 list \<Rightarrow> (('t, 'x) property_definition, 'x) alter_info \<times> u8 \<Rightarrow> ('t, 'x, 'o) catalog_entry
     \<Rightarrow> ('t, 'x, 'o) catalog_entry \<Rightarrow> ('t, 'x, 'o) catalog_set \<Rightarrow> ('t, 'x, 'o) ddl_log \<Rightarrow> ('t, 'x, 'o) ddl_state \<times> unit res" where
  "installAltered cfg t tableName info entry newEntry s log =
     (case fst info of
        RenameTable newName \<Rightarrow>
          (case dropEntryNoLock t tableName (ceOID entry) s of
             Inl e \<Rightarrow> ((s, log), Inl e)
           | Inr (s, _) \<Rightarrow>
               (case createEntryNoLock t newEntry s of
                  Inl e \<Rightarrow> ((s, log), Inl e)
                | Inr (s, createdEntry) \<Rightarrow>
                    ((s, if shouldAppendToUndoBuffer t then
                           fst (pushCreateDropCatalogEntry (shouldLogToWAL cfg t) (isInternal s) True createdEntry newEntry
                             (pushAlterCatalogEntry (shouldLogToWAL cfg t) entry tableName info log))
                         else log), Inr ())))
      | _ \<Rightarrow>
          ((emplaceNoLock [newEntry] s,
            if shouldAppendToUndoBuffer t then pushAlterCatalogEntry (shouldLogToWAL cfg t) entry tableName info log
            else log), Inr ()))"

definition alterTableEntry ::
  "db_config \<Rightarrow> transaction \<Rightarrow> u8 list \<Rightarrow> (('t, 'x) property_definition, 'x) alter_info \<times> u8 \<Rightarrow> ('t, 'x, 'o) ddl_state
     \<Rightarrow> ('t, 'x, 'o) ddl_state \<times> unit res" where
  "alterTableEntry cfg t tableName info st =
     (case bindR (validateExistNoLock t tableName (fst st)) (\<lambda>_.
           bindR (getEntryNoLock t tableName (fst st)) (\<lambda>entry.
           bindR (assertR (ceType entry = NODE_TABLE_ENTRY \<or> ceType entry = REL_GROUP_ENTRY)) (\<lambda>_.
           bindR (TableCatalogEntry_alter (txnID t) info (nextOID (fst st)) entry) (\<lambda>(newEntry, oid).
           Inr (entry, newEntry, oid))))) of
        Inl e \<Rightarrow> (st, Inl e)
      | Inr (entry, newEntry, oid) \<Rightarrow>
          installAltered cfg t tableName info entry (newEntry\<lparr>ceAddr := nextAddr (fst st)\<rparr>)
            ((fst st)\<lparr>nextOID := oid, nextAddr := nextAddr (fst st) + 1\<rparr>) (snd st))"

section \<open>Commit and rollback of a record\<close>

text \<open>The chain that holds the object at an address.\<close>

definition chainOf :: "nat \<Rightarrow> ('t, 'x, 'o) catalog_set \<Rightarrow> (u8 list \<times> ('t, 'x, 'o) chain) option" where
  "chainOf addr s = find (\<lambda>(name, chain). list_ex (\<lambda>e. ceAddr e = addr) chain) (entries s)"

fun commitNext :: "nat \<Rightarrow> transaction_t \<Rightarrow> ('t, 'x, 'o) chain \<Rightarrow> ('t, 'x, 'o) chain res" where
  "commitNext addr cts (n # e # chain) =
     (if ceAddr e = addr then Inr (n\<lparr>ceTimestamp := cts\<rparr> # e # chain)
      else bindR (commitNext addr cts (e # chain)) (\<lambda>chain. Inr (n # chain)))"
| "commitNext addr cts _ = Inl AssertFail"

definition setChain :: "u8 list \<Rightarrow> ('t, 'x, 'o) chain \<Rightarrow> ('t, 'x, 'o) catalog_set \<Rightarrow> ('t, 'x, 'o) catalog_set" where
  "setChain name chain s = s\<lparr>entries := map (\<lambda>(k, c). (k, if k = name then chain else c)) (entries s)\<rparr>"

definition commitCatalogEntryRecord :: "transaction_t \<Rightarrow> nat \<Rightarrow> ('t, 'x, 'o) catalog_set \<Rightarrow> ('t, 'x, 'o) catalog_set res" where
  "commitCatalogEntryRecord cts addr s =
     bindR (derefR (chainOf addr s)) (\<lambda>(name, chain).
     bindR (commitNext addr cts chain) (\<lambda>chain. Inr (setChain name chain s)))"

text \<open>The chain without the version in front of an address.\<close>

fun removeNext :: "nat \<Rightarrow> ('t, 'x, 'o) chain \<Rightarrow> ('t, 'x, 'o) chain res" where
  "removeNext addr (n # e # chain) =
     (if ceAddr e = addr then Inr (e # chain)
      else bindR (removeNext addr (e # chain)) (\<lambda>chain. Inr (n # chain)))"
| "removeNext addr _ = Inl AssertFail"

definition rollbackCatalogEntryRecord :: "nat \<Rightarrow> ('t, 'x, 'o) catalog_set \<Rightarrow> ('t, 'x, 'o) catalog_set res" where
  "rollbackCatalogEntryRecord addr s =
     bindR (derefR (chainOf addr s)) (\<lambda>(name, chain).
     bindR (removeNext addr chain) (\<lambda>chain'.
     if ceAddr (hd chain') = addr then
       Inr (emplaceNoLock chain' (eraseNoLock (ceName (hd chain')) s))
     else Inr (setChain name chain' s)))"

section \<open>Storing the committed catalog\<close>

definition isTransient :: "u8 \<Rightarrow> bool" where
  "isTransient type \<longleftrightarrow> type \<in> {SCALAR_FUNCTION_ENTRY, REWRITE_FUNCTION_ENTRY, AGGREGATE_FUNCTION_ENTRY, COPY_FUNCTION_ENTRY,
     TABLE_FUNCTION_ENTRY, STANDALONE_TABLE_FUNCTION_ENTRY, FOREIGN_TABLE_ENTRY}"

definition entriesToSerialize :: "('t, 'x, 'o) catalog_set \<Rightarrow> ('t, 'x, 'o) catalog_entry list res" where
  "entriesToSerialize s =
     foldR (\<lambda>(_, chain) es.
         bindR (nthR chain 0) (\<lambda>head.
         if isTransient (ceType head) then Inr es
         else bindR (getCommittedEntryNoLock chain) (\<lambda>e. Inr (if ceDeleted e then es else es @ [e]))))
       (entries s) []"

definition CatalogSet_serialize ::
  "('t \<Rightarrow> u8 list) \<Rightarrow> ('x \<Rightarrow> u8 list) \<Rightarrow> ('o \<Rightarrow> u8 list) \<Rightarrow> bool \<Rightarrow> ('t, 'x, 'o) catalog_set \<Rightarrow> u8 list res" where
  "CatalogSet_serialize sT sX sO dbg s =
     bindR (entriesToSerialize s) (\<lambda>es.
     foldR (\<lambda>e bs. bindR (entry_serialize sT sX sO dbg e) (\<lambda>b. Inr (bs @ b))) es
       (writeTag dbg ''nextOID'' @ serializeU64 (nextOID s) @
        writeTag dbg ''numEntries'' @ serializeU64 (of_nat (length es))))"

fun deserializeEntriesInto ::
  "'t reader \<Rightarrow> 'x reader \<Rightarrow> (u8 \<Rightarrow> 'o reader) \<Rightarrow> bool \<Rightarrow> nat \<Rightarrow> ('t, 'x, 'o) catalog_set \<Rightarrow> ('t, 'x, 'o) catalog_set reader" where
  "deserializeEntriesInto dT dX dO dbg 0 s bs = Inr (s, bs)"
| "deserializeEntriesInto dT dX dO dbg (Suc n) s bs =
     bindR (CatalogEntry_deserialize dT dX dO dbg (nextAddr s) bs) (\<lambda>(e, bs).
     deserializeEntriesInto dT dX dO dbg n (emplaceNoLock [e] (s\<lparr>nextAddr := nextAddr s + 1\<rparr>)) bs)"

definition CatalogSet_deserialize ::
  "'t reader \<Rightarrow> 'x reader \<Rightarrow> (u8 \<Rightarrow> 'o reader) \<Rightarrow> bool \<Rightarrow> ('t, 'x, 'o) catalog_set reader" where
  "CatalogSet_deserialize dT dX dO dbg =
     bindD (expectTag dbg ''nextOID'') (\<lambda>_. bindD deserializeU64 (\<lambda>oid.
     bindD (expectTag dbg ''numEntries'') (\<lambda>_. bindD deserializeU64 (\<lambda>numEntries.
     deserializeEntriesInto dT dX dO dbg (unat numEntries) ((CatalogSet_new False)\<lparr>nextOID := oid\<rparr>)))))"

section \<open>Well-formed catalogs\<close>

definition chain_ok :: "u8 list \<Rightarrow> ('t, 'x, 'o) chain \<Rightarrow> bool" where
  "chain_ok name c \<longleftrightarrow> c \<noteq> [] \<and> (\<forall>e \<in> set c. lowerName (ceName e) = lowerName name)
     \<and> distinct (map ceAddr c) \<and> ceTimestamp (last c) = 0"

text \<open>
  Names are unique up to case, every chain ends in a version that everyone sees, and no two
  versions share an address.
\<close>

definition cs_inv :: "('t, 'x, 'o) catalog_set \<Rightarrow> bool" where
  "cs_inv s \<longleftrightarrow> nm_ok (entries s)
     \<and> (\<forall>n c. nm_at (entries s) n = Some c \<longrightarrow> chain_ok n c \<and> (\<forall>e \<in> set c. ceAddr e < nextAddr s))
     \<and> (\<forall>n c n' c' e e'. nm_at (entries s) n = Some c \<longrightarrow> nm_at (entries s) n' = Some c' \<longrightarrow>
          e \<in> set c \<longrightarrow> e' \<in> set c' \<longrightarrow> ceAddr e = ceAddr e' \<longrightarrow> lowerName n = lowerName n')"

lemma cs_inv_ok: "cs_inv s \<Longrightarrow> nm_ok (entries s)"
  by (simp add: cs_inv_def)

lemma cs_inv_chain: "cs_inv s \<Longrightarrow> nm_at (entries s) n = Some c \<Longrightarrow> chain_ok n c"
  by (simp add: cs_inv_def)

lemma cs_inv_addr: "cs_inv s \<Longrightarrow> nm_at (entries s) n = Some c \<Longrightarrow> e \<in> set c \<Longrightarrow> ceAddr e < nextAddr s"
  by (simp add: cs_inv_def)

lemma cs_inv_unique:
  "cs_inv s \<Longrightarrow> nm_at (entries s) n = Some c \<Longrightarrow> nm_at (entries s) n' = Some c' \<Longrightarrow> e \<in> set c \<Longrightarrow> e' \<in> set c' \<Longrightarrow>
    ceAddr e = ceAddr e' \<Longrightarrow> lowerName n = lowerName n'"
  unfolding cs_inv_def by blast

lemma cs_inv_new: "cs_inv (CatalogSet_new internal)"
  by (simp add: cs_inv_def CatalogSet_new_def nm_ok_def nm_at_def)

lemma nm_at_lower: "lowerName n = lowerName n' \<Longrightarrow> nm_at m n = nm_at m n'"
  by (simp add: nm_at_map_of)

lemma nm_at_member: "nm_ok m \<Longrightarrow> (k, c) \<in> set m \<Longrightarrow> nm_at m k = Some c"
proof (induction m)
  case (Cons x m)
  then show ?case by (cases x) (force simp: nm_at_map_of nm_ok_def)
qed simp

lemma nm_at_in_set: "nm_at m n = Some c \<Longrightarrow> \<exists>k. (k, c) \<in> set m \<and> lowerName k = lowerName n"
  by (induction m) (auto simp: nm_at_map_of split: if_splits)

lemma chainOf_at:
  assumes inv: "cs_inv s" and at: "nm_at (entries s) n = Some c" and e: "e \<in> set c"
  shows "\<exists>k. chainOf (ceAddr e) s = Some (k, c) \<and> (k, c) \<in> set (entries s) \<and> lowerName k = lowerName n"
proof -
  obtain k where k: "(k, c) \<in> set (entries s)" "lowerName k = lowerName n" using nm_at_in_set [OF at] by blast
  then have "list_ex (\<lambda>(name, chain). list_ex (\<lambda>x. ceAddr x = ceAddr e) chain) (entries s)"
    using e by (force simp: list_ex_iff)
  then obtain k' c' where found: "chainOf (ceAddr e) s = Some (k', c')"
    unfolding chainOf_def by (metis (mono_tags, lifting) find_None_iff list_ex_iff not_None_eq prod.exhaust)
  then have k': "(k', c') \<in> set (entries s)" and ex: "\<exists>x \<in> set c'. ceAddr x = ceAddr e"
    unfolding chainOf_def by (auto simp: find_Some_iff list_ex_iff) (metis nth_mem)
  have "nm_at (entries s) k' = Some c'" using cs_inv_ok [OF inv] k' by (rule nm_at_member)
  then have "lowerName k' = lowerName n" using ex cs_inv_unique [OF inv _ at _ e] by blast
  moreover from this have "c' = c" using \<open>nm_at (entries s) k' = Some c'\<close> at nm_at_lower by (metis option.inject)
  ultimately show ?thesis using found k' by blast
qed

lemma nm_at_setChain:
  assumes ok: "nm_ok (entries s)" and k: "(k, c) \<in> set (entries s)"
  shows "nm_at (entries (setChain k c' s)) n = (if lowerName n = lowerName k then Some c' else nm_at (entries s) n)"
    "nm_ok (entries (setChain k c' s))"
proof -
  have "map (lowerName \<circ> fst) (map (\<lambda>(j, d). (j, if j = k then c' else d)) m) = map (lowerName \<circ> fst) m" for m
    by (induction m) auto
  then show ok': "nm_ok (entries (setChain k c' s))"
    using ok unfolding nm_ok_def setChain_def by (simp del: map_map)
  show "nm_at (entries (setChain k c' s)) n = (if lowerName n = lowerName k then Some c' else nm_at (entries s) n)"
  proof (cases "lowerName n = lowerName k")
    case True
    have "(k, c') \<in> set (entries (setChain k c' s))" using k by (force simp: setChain_def)
    then show ?thesis using True nm_at_member [OF ok'] nm_at_lower [OF True, of "entries (setChain k c' s)"] by simp
  next
    case False
    have "nm_at (map (\<lambda>(j, d). (j, if j = k then c' else d)) m) n = nm_at m n" for m
      using False by (induction m) (auto simp: nm_at_map_of)
    then show ?thesis using False by (simp add: setChain_def)
  qed
qed

section \<open>Putting a version in front\<close>

definition unused :: "nat \<Rightarrow> ('t, 'x, 'o) catalog_set \<Rightarrow> bool" where
  "unused a s \<longleftrightarrow> a < nextAddr s \<and> (\<forall>n c. nm_at (entries s) n = Some c \<longrightarrow> a \<notin> ceAddr ` set c)"

text \<open>
  The effect of every change: a version \<open>e\<close> in front of the chain \<open>base\<close> of its name, which
  is a dummy if there was none.
\<close>

definition pushed ::
  "('t, 'x, 'o) catalog_entry \<Rightarrow> ('t, 'x, 'o) chain \<Rightarrow> ('t, 'x, 'o) catalog_set \<Rightarrow> ('t, 'x, 'o) catalog_set \<Rightarrow> bool" where
  "pushed e base s s' \<longleftrightarrow> cs_inv s' \<and> base \<noteq> []
     \<and> (\<forall>n. nm_at (entries s') n = (if lowerName n = lowerName (ceName e) then Some (e # base) else nm_at (entries s) n))
     \<and> (nm_at (entries s) (ceName e) = Some base
        \<or> nm_at (entries s) (ceName e) = None \<and> (\<exists>d. base = [d] \<and> ceDeleted d \<and> ceTimestamp d = 0))
     \<and> nextAddr s \<le> nextAddr s'"

lemma cs_inv_update:
  assumes inv: "cs_inv s" and ok: "nm_ok (entries s')"
    and at: "\<And>n. nm_at (entries s') n = (if lowerName n = lowerName name then Some c else nm_at (entries s) n)"
    and chain: "chain_ok name c" and addr: "nextAddr s \<le> nextAddr s'" "\<forall>e \<in> set c. ceAddr e < nextAddr s'"
    and fresh: "\<And>e n' c' e'. e \<in> set c \<Longrightarrow> nm_at (entries s) n' = Some c' \<Longrightarrow> e' \<in> set c' \<Longrightarrow> ceAddr e = ceAddr e' \<Longrightarrow>
      lowerName n' = lowerName name"
  shows "cs_inv s'"
  unfolding cs_inv_def
proof (intro conjI allI impI)
  show "nm_ok (entries s')" by (rule ok)
  fix n d assume d: "nm_at (entries s') n = Some d"
  show "chain_ok n d"
    using d at [of n] chain cs_inv_chain [OF inv, of n d] by (auto simp: chain_ok_def split: if_splits)
  show "\<forall>e \<in> set d. ceAddr e < nextAddr s'"
    using d at [of n] addr cs_inv_addr [OF inv, of n d] by (fastforce split: if_splits)
next
  fix n d n' d' e e'
  assume "nm_at (entries s') n = Some d" "nm_at (entries s') n' = Some d'" "e \<in> set d" "e' \<in> set d'" "ceAddr e = ceAddr e'"
  then show "lowerName n = lowerName n'"
    using at [of n] at [of n'] fresh [of e n' d' e'] fresh [of e' n d e] cs_inv_unique [OF inv, of n d n' d' e e']
    by (auto split: if_splits)
qed

lemma emplace_one:
  assumes inv: "cs_inv s" and at: "nm_at (entries s) (ceName e) = Some base" and un: "unused (ceAddr e) s"
  shows "pushed e base s (emplaceNoLock [e] s)"
proof -
  let ?s = "emplaceNoLock [e] s"
  note ok = cs_inv_ok [OF inv]
  have s': "entries ?s = nm_emplace (nm_erase (entries s) (ceName e)) (ceName e) (e # base)" "nextAddr ?s = nextAddr s"
    using at by (simp_all add: emplaceNoLock_def Let_def)
  have at': "nm_at (entries ?s) n = (if lowerName n = lowerName (ceName e) then Some (e # base) else nm_at (entries s) n)" for n
    unfolding s' using names.lookup_replace [OF ok, of "ceName e" "e # base" n] by (auto simp: caseInsensitiveEquals_iff)
  have "cs_inv ?s"
  proof (rule cs_inv_update [OF inv _ at'])
    show "nm_ok (entries ?s)" unfolding s' using ok by (intro nm_ok_emplace nm_ok_erase)
    show "chain_ok (ceName e) (e # base)"
      using cs_inv_chain [OF inv at] un at by (auto simp: chain_ok_def unused_def)
    show "\<forall>x \<in> set (e # base). ceAddr x < nextAddr ?s"
      using cs_inv_addr [OF inv at] un s'(2) by (auto simp: unused_def)
    fix x n' c' e' assume "x \<in> set (e # base)" "nm_at (entries s) n' = Some c'" "e' \<in> set c'" "ceAddr x = ceAddr e'"
    then show "lowerName n' = lowerName (ceName e)"
      using un cs_inv_unique [OF inv _ at, of n' c' e' x] by (auto simp: unused_def)
  qed (simp add: s')
  moreover have "base \<noteq> []" using cs_inv_chain [OF inv at] by (simp add: chain_ok_def)
  ultimately show ?thesis using at at' s'(2) by (simp add: pushed_def)
qed

lemma pushed_head: "pushed e base s s' \<Longrightarrow> nm_at (entries s') (ceName e) = Some (e # base) \<and> base \<noteq> []"
  by (simp add: pushed_def)

lemma unused_fresh: "cs_inv s \<Longrightarrow> unused (nextAddr s) (s\<lparr>nextOID := oid, nextAddr := nextAddr s + 1\<rparr>)"
  by (fastforce simp: unused_def dest: cs_inv_addr)

lemma cs_inv_alloc: "cs_inv s \<Longrightarrow> entries s' = entries s \<Longrightarrow> nextAddr s \<le> nextAddr s' \<Longrightarrow> cs_inv s'"
proof -
  assume *: "cs_inv s" "entries s' = entries s" "nextAddr s \<le> nextAddr s'"
  then have "ceAddr e < nextAddr s'" if "nm_at (entries s) n = Some c" "e \<in> set c" for n c e
    using cs_inv_addr [OF *(1) that] by simp
  then show ?thesis using * unfolding cs_inv_def *(2) by blast
qed

lemma pushed_alloc: "pushed e base s1 s' \<Longrightarrow> entries s1 = entries s \<Longrightarrow> nextAddr s \<le> nextAddr s1 \<Longrightarrow> pushed e base s s'"
  by (simp add: pushed_def)

lemma emplace_dummy:
  assumes inv: "cs_inv s" and none: "nm_at (entries s) name = None"
  shows "cs_inv (s\<lparr>nextAddr := nextAddr s + 1, entries := nm_emplace (entries s) name [DummyCatalogEntry (nextAddr s) name oid]\<rparr>)"
    (is "cs_inv ?s")
proof (rule cs_inv_update [OF inv, where name = name])
  show "nm_at (entries ?s) n = (if lowerName n = lowerName name then Some [DummyCatalogEntry (nextAddr s) name oid]
      else nm_at (entries s) n)" for n
    using none by (auto simp: nm_at_emplace caseInsensitiveEquals_iff)
  show "nm_ok (entries ?s)" using cs_inv_ok [OF inv] by (simp add: nm_ok_emplace)
  fix e n' c' e'
  assume "e \<in> set [DummyCatalogEntry (nextAddr s) name oid]" "nm_at (entries s) n' = Some c'" "e' \<in> set c'" "ceAddr e = ceAddr e'"
  then show "lowerName n' = lowerName name" using cs_inv_addr [OF inv, of n' c' e'] by (simp add: DummyCatalogEntry_def)
qed (simp_all add: chain_ok_def DummyCatalogEntry_def)

lemma create_pushes:
  assumes inv: "cs_inv s" and un: "unused (ceAddr entry) s" and create: "createEntryNoLock t entry s = Inr (s', prev)"
  shows "\<exists>base. pushed (entry\<lparr>ceTimestamp := txnID t\<rparr>) base s s' \<and> prev = hd base"
proof -
  let ?e = "entry\<lparr>ceTimestamp := txnID t\<rparr>"
  let ?d = "DummyCatalogEntry (nextAddr s) (ceName entry) (ceOID entry)"
  let ?s = "s\<lparr>nextAddr := nextAddr s + 1, entries := nm_emplace (entries s) (ceName entry) [?d]\<rparr>"
  have s': "s' = emplaceNoLock [?e] ?s" and prev: "\<exists>chain. nm_at (entries s') (ceName entry) = Some chain \<and> nthR chain 1 = Inr prev"
    using create by (auto simp: createEntryNoLock_def createDummyEntryNoLock_def Let_def derefR_def split: option.splits)
  show ?thesis
  proof (cases "nm_at (entries s) (ceName entry)")
    case None
    have "cs_inv ?s" using inv None by (rule emplace_dummy)
    moreover have "nm_at (entries ?s) (ceName ?e) = Some [?d]" using None by (simp add: nm_at_emplace)
    moreover have "unused (ceAddr ?e) ?s"
      using un None by (auto simp: unused_def nm_at_emplace DummyCatalogEntry_def split: if_splits)
    ultimately have push: "pushed ?e [?d] ?s s'" unfolding s' by (rule emplace_one)
    moreover have "nm_at (entries ?s) n = nm_at (entries s) n" if "lowerName n \<noteq> lowerName (ceName entry)" for n
      using that by (simp add: nm_at_emplace caseInsensitiveEquals_iff)
    ultimately have "pushed ?e [?d] s s'"
      using None by (auto simp: pushed_def DummyCatalogEntry_def)
    moreover have "prev = ?d" using prev pushed_head [OF push] by (auto simp: nthR_def)
    ultimately show ?thesis by (intro exI [of _ "[?d]"]) simp
  next
    case (Some base)
    then have entries: "entries ?s = entries s" by (simp add: nm_emplace_def nm_contains_def)
    with inv have "cs_inv ?s" by (rule cs_inv_alloc) simp
    moreover have "nm_at (entries ?s) (ceName ?e) = Some base" "unused (ceAddr ?e) ?s"
      using un Some entries by (simp_all add: unused_def)
    ultimately have push: "pushed ?e base ?s s'" unfolding s' by (rule emplace_one)
    then have "pushed ?e base s s'" using entries by (rule pushed_alloc) simp
    moreover have "prev = hd base" using prev pushed_head [OF push] by (auto simp: nthR_def hd_conv_nth)
    ultimately show ?thesis by blast
  qed
qed

lemma drop_pushes:
  assumes inv: "cs_inv s" and drop: "dropEntryNoLock t name oid s = Inr (s', prev)"
  shows "\<exists>base. pushed ((DummyCatalogEntry (nextAddr s) name oid)\<lparr>ceTimestamp := txnID t\<rparr>) base s s' \<and> prev = hd base"
proof -
  let ?d = "(DummyCatalogEntry (nextAddr s) name oid)\<lparr>ceTimestamp := txnID t\<rparr>"
  let ?s = "s\<lparr>nextAddr := nextAddr s + 1\<rparr>"
  have s': "s' = emplaceNoLock [?d] ?s" and prev: "\<exists>chain. nm_at (entries s') name = Some chain \<and> nthR chain 1 = Inr prev"
    using drop by (auto simp: dropEntryNoLock_def createDummyEntryNoLock_def Let_def derefR_def split: option.splits)
  obtain base where base: "nm_at (entries s) name = Some base"
    using drop by (auto simp: dropEntryNoLock_def validateExistNoLock_def containsEntryNoLock_def split: option.splits)
  have "cs_inv ?s" using inv by (rule cs_inv_alloc) simp_all
  moreover have "nm_at (entries ?s) (ceName ?d) = Some base" using base by (simp add: DummyCatalogEntry_def)
  moreover have "unused (ceAddr ?d) ?s"
    using inv by (fastforce simp: unused_def DummyCatalogEntry_def dest: cs_inv_addr)
  ultimately have push: "pushed ?d base ?s s'" unfolding s' by (rule emplace_one)
  then have "pushed ?d base s s'" by (rule pushed_alloc) simp_all
  moreover have "prev = hd base"
    using prev pushed_head [OF push] by (auto simp: nthR_def hd_conv_nth DummyCatalogEntry_def)
  ultimately show ?thesis by blast
qed

section \<open>The changes of a transaction\<close>

text \<open>The version of a name that a transaction sees.\<close>

definition entryView :: "transaction \<Rightarrow> u8 list \<Rightarrow> ('t, 'x, 'o) catalog_set \<Rightarrow> ('t, 'x, 'o) catalog_entry option" where
  "entryView t name s =
     (case nm_at (entries s) name of
        None \<Rightarrow> None
      | Some chain \<Rightarrow>
          (case traverseVersionChains t chain of Inl _ \<Rightarrow> None | Inr e \<Rightarrow> if ceDeleted e then None else Some e))"

datatype ('t, 'x, 'o) ddl =
    Create "('t, 'x, 'o) catalog_entry"
  | Drop "u8 list" u64
  | Alter "u8 list" "(('t, 'x) property_definition, 'x) alter_info \<times> u8"

definition exec_ddl ::
  "db_config \<Rightarrow> transaction \<Rightarrow> ('t, 'x, 'o) ddl \<Rightarrow> ('t, 'x, 'o) ddl_state \<Rightarrow> ('t, 'x, 'o) ddl_state \<times> unit res" where
  "exec_ddl cfg t op st =
     (case op of
        Create entry \<Rightarrow> bindS (createEntry cfg t entry st) (\<lambda>_ st. (st, Inr ()))
      | Drop name oid \<Rightarrow> dropEntry cfg t name oid st
      | Alter tableName info \<Rightarrow> alterTableEntry cfg t tableName info st)"

fun exec_ddls ::
  "db_config \<Rightarrow> transaction \<Rightarrow> ('t, 'x, 'o) ddl list \<Rightarrow> ('t, 'x, 'o) ddl_state \<Rightarrow> ('t, 'x, 'o) ddl_state \<times> unit res" where
  "exec_ddls cfg t [] st = (st, Inr ())"
| "exec_ddls cfg t (op # ops) st = bindS (exec_ddl cfg t op st) (\<lambda>_ st. exec_ddls cfg t ops st)"

inductive pushes ::
  "transaction \<Rightarrow> ('t, 'x, 'o) catalog_set \<Rightarrow> nat list \<Rightarrow> ('t, 'x, 'o) catalog_set \<Rightarrow> bool" for t s where
  none: "entries s' = entries s \<Longrightarrow> nextAddr s \<le> nextAddr s' \<Longrightarrow> pushes t s [] s'"
| push: "pushes t s us s1 \<Longrightarrow> pushed e base s1 s2 \<Longrightarrow> ceTimestamp e = txnID t \<Longrightarrow> pushes t s (us @ [ceAddr (hd base)]) s2"

text \<open>No other transaction has changed a name since \<open>t\<close> started.\<close>

definition undisturbed :: "transaction \<Rightarrow> ('t, 'x, 'o) catalog_set \<Rightarrow> bool" where
  "undisturbed t s \<longleftrightarrow> (\<forall>n c. nm_at (entries s) n = Some c \<longrightarrow> ceTimestamp (hd c) = txnID t \<or> ceTimestamp (hd c) \<le> startTS t)"

text \<open>The transaction has not changed the catalog yet.\<close>

definition fresh_txn :: "transaction \<Rightarrow> ('t, 'x, 'o) catalog_set \<Rightarrow> bool" where
  "fresh_txn t s \<longleftrightarrow> (\<forall>n c. nm_at (entries s) n = Some c \<longrightarrow> (\<forall>e \<in> set c. ceTimestamp e \<noteq> txnID t))"

lemma undisturbed_pushed:
  assumes "undisturbed t s" "pushed e base s s'" "ceTimestamp e = txnID t"
  shows "undisturbed t s'"
  using assms unfolding undisturbed_def pushed_def by auto

lemma pushes_inv: "pushes t s us s' \<Longrightarrow> cs_inv s \<Longrightarrow> cs_inv s'"
  by (induction rule: pushes.induct) (auto intro: cs_inv_alloc simp: pushed_def)

lemma pushes_undisturbed: "pushes t s us s' \<Longrightarrow> undisturbed t s \<Longrightarrow> undisturbed t s'"
proof (induction rule: pushes.induct)
  case (none s')
  then show ?case by (simp add: undisturbed_def)
next
  case (push us s1 e base s2)
  then show ?case by (blast intro: undisturbed_pushed)
qed

lemma undisturbed_visible:
  assumes "undisturbed t s" "nm_at (entries s) n = Some c" "c \<noteq> []"
  shows "traverseVersionChains t c = Inr (hd c)"
  using assms by (cases c) (fastforce simp: undisturbed_def)+

lemma createEntry_pushes:
  assumes inv: "cs_inv (fst st)" and app: "shouldAppendToUndoBuffer t" and create: "createEntry cfg t entry st = (st', Inr oid)"
  shows "\<exists>e base. pushed e base (fst st) (fst st') \<and> ceTimestamp e = txnID t
    \<and> undoRecords (snd st') = undoRecords (snd st) @ [ceAddr (hd base)]"
proof -
  let ?s = "(fst st)\<lparr>nextOID := nextOID (fst st) + 1, nextAddr := nextAddr (fst st) + 1\<rparr>"
  let ?e = "entry\<lparr>ceOID := nextOID (fst st), ceAddr := nextAddr (fst st)\<rparr>"
  obtain s' prev where s': "createEntryNoLock t ?e ?s = Inr (s', prev)" "fst st' = s'"
      "undoRecords (snd st') = undoRecords (snd st) @ [ceAddr prev]"
    using create app
    by (auto simp: createEntry_def Let_def pushCreateDropCatalogEntry_def bindS_def split: sum.splits if_splits option.splits prod.splits)
  have "cs_inv ?s" using inv by (rule cs_inv_alloc) simp_all
  moreover have "unused (ceAddr ?e) ?s" using unused_fresh [OF inv] by simp
  ultimately obtain base where base: "pushed (?e\<lparr>ceTimestamp := txnID t\<rparr>) base ?s s'" "prev = hd base"
    using create_pushes s'(1) by blast
  from base(1) have "pushed (?e\<lparr>ceTimestamp := txnID t\<rparr>) base (fst st) s'" by (rule pushed_alloc) simp_all
  then show ?thesis using s' base(2) by (intro exI [of _ "?e\<lparr>ceTimestamp := txnID t\<rparr>"] exI [of _ base]) simp
qed

lemma dropEntry_pushes:
  assumes inv: "cs_inv (fst st)" and app: "shouldAppendToUndoBuffer t" and drop: "dropEntry cfg t name oid st = (st', Inr u)"
  shows "\<exists>e base. pushed e base (fst st) (fst st') \<and> ceTimestamp e = txnID t
    \<and> undoRecords (snd st') = undoRecords (snd st) @ [ceAddr (hd base)]"
proof -
  obtain s' prev where s': "dropEntryNoLock t name oid (fst st) = Inr (s', prev)" "fst st' = s'"
      "undoRecords (snd st') = undoRecords (snd st) @ [ceAddr prev]"
    using drop app
    by (auto simp: dropEntry_def Let_def pushCreateDropCatalogEntry_def bindS_def split: sum.splits if_splits option.splits prod.splits)
  then obtain base where "pushed ((DummyCatalogEntry (nextAddr (fst st)) name oid)\<lparr>ceTimestamp := txnID t\<rparr>) base (fst st) s'" "prev = hd base"
    using drop_pushes [OF inv] by blast
  then show ?thesis using s' by (intro exI [of _ "(DummyCatalogEntry (nextAddr (fst st)) name oid)\<lparr>ceTimestamp := txnID t\<rparr>"] exI [of _ base]) simp
qed

lemma alter_entry:
  assumes "TableCatalogEntry_alter ts info oid e = Inr (e', oid')"
  shows "ceTimestamp e' = ts \<and> ceName e' = (case fst info of RenameTable newName \<Rightarrow> newName | _ \<Rightarrow> ceName e)
    \<and> ceOID e' = ceOID e \<and> ceType e' = ceType e \<and> \<not> ceDeleted e'"
proof -
  obtain t where t: "ceData e = TableData t" "\<not> ceDeleted e"
    using assms by (auto simp: TableCatalogEntry_alter_def split: entry_data.splits)
  show ?thesis
    using assms t(2) by (cases "fst info"; cases "tdKind t") (auto simp: TableCatalogEntry_alter_def t(1) Let_def)
qed

lemma alter_steps:
  assumes "alterTableEntry cfg t tableName info (s, log) = (st', Inr u)"
  obtains entry newEntry oid where "getEntryNoLock t tableName s = Inr entry"
    "TableCatalogEntry_alter (txnID t) info (nextOID s) entry = Inr (newEntry, oid)"
    "installAltered cfg t tableName info entry (newEntry\<lparr>ceAddr := nextAddr s\<rparr>)
       (s\<lparr>nextOID := oid, nextAddr := nextAddr s + 1\<rparr>) log = (st', Inr u)"
  using assms by (auto simp: alterTableEntry_def split: sum.splits)

lemma undoRecords_push [simp]:
  "undoRecords (fst (pushCreateDropCatalogEntry logs internal skip old new log)) = undoRecords log @ [ceAddr old]"
  "undoRecords (pushAlterCatalogEntry logs old tableName info log) = undoRecords log @ [ceAddr old]"
  by (auto simp: pushCreateDropCatalogEntry_def pushAlterCatalogEntry_def Let_def split: sum.split option.split)

lemma getEntry_visible:
  assumes inv: "cs_inv s" and und: "undisturbed t s" and get: "getEntryNoLock t name s = Inr e"
  shows "\<exists>base. nm_at (entries s) name = Some base \<and> base \<noteq> [] \<and> e = hd base \<and> lowerName (ceName e) = lowerName name"
proof -
  obtain c where c: "nm_at (entries s) name = Some c" "traverseVersionChains t c = Inr e"
    using get by (auto simp: getEntryNoLock_def derefR_def split: option.splits)
  have ok: "chain_ok name c" using inv c(1) by (rule cs_inv_chain)
  then have "c \<noteq> []" "\<forall>x \<in> set c. lowerName (ceName x) = lowerName name" by (simp_all add: chain_ok_def)
  moreover from this have "e = hd c" using undisturbed_visible [OF und c(1)] c(2) by simp
  ultimately show ?thesis using c(1) by (metis hd_in_set)
qed

lemma unused_pushed:
  assumes "unused a s" "pushed e base s s'" "ceAddr e \<noteq> a" "\<forall>x \<in> set base. ceAddr x \<noteq> a"
  shows "unused a s'"
  using assms unfolding unused_def pushed_def by (force split: if_splits)

lemma alter_pushes:
  assumes inv: "cs_inv (fst st)" and und: "undisturbed t (fst st)" and app: "shouldAppendToUndoBuffer t"
    and alter: "alterTableEntry cfg t tableName info st = (st', Inr u)"
  shows "\<exists>us. pushes t (fst st) us (fst st') \<and> undoRecords (snd st') = undoRecords (snd st) @ us"
proof -
  obtain s log where st: "st = (s, log)" by (cases st)
  have inv: "cs_inv s" and und: "undisturbed t s" using assms st by simp_all
  obtain entry newEntry oid where get: "getEntryNoLock t tableName s = Inr entry"
      and new: "TableCatalogEntry_alter (txnID t) info (nextOID s) entry = Inr (newEntry, oid)"
      and rest: "installAltered cfg t tableName info entry (newEntry\<lparr>ceAddr := nextAddr s\<rparr>)
        (s\<lparr>nextOID := oid, nextAddr := nextAddr s + 1\<rparr>) log = (st', Inr u)"
    using alter unfolding st by (rule alter_steps)
  let ?new = "newEntry\<lparr>ceAddr := nextAddr s\<rparr>"
  let ?s = "s\<lparr>nextOID := oid, nextAddr := nextAddr s + 1\<rparr>"
  obtain base where base: "nm_at (entries s) tableName = Some base" "base \<noteq> []" "entry = hd base"
      "lowerName (ceName entry) = lowerName tableName"
    using getEntry_visible [OF inv und get] by blast
  note N = alter_entry [OF new]
  have inv1: "cs_inv ?s" using inv by (rule cs_inv_alloc) simp_all
  have un: "unused (nextAddr s) ?s" using unused_fresh [OF inv] by simp
  show ?thesis
  proof (cases "\<exists>newName. fst info = RenameTable newName")
    case True
    then obtain newName where info: "fst info = RenameTable newName" ..
    obtain s1 p1 s2 p2 where drop: "dropEntryNoLock t tableName (ceOID entry) ?s = Inr (s1, p1)"
        and create: "createEntryNoLock t ?new s1 = Inr (s2, p2)" and st': "fst st' = s2"
        and us: "undoRecords (snd st') = undoRecords log @ [ceAddr entry, ceAddr p2]"
      using rest app by (auto simp: installAltered_def info split: sum.splits)
    let ?tomb = "(DummyCatalogEntry (nextAddr ?s) tableName (ceOID entry))\<lparr>ceTimestamp := txnID t\<rparr> :: ('a, 'b, 'c) catalog_entry"
    obtain b1 where b1: "pushed ?tomb b1 ?s s1" "p1 = hd b1"
      using drop_pushes [OF inv1 drop] by blast
    have "b1 = base" using b1(1) base(1) by (simp add: pushed_def DummyCatalogEntry_def)
    then have "\<forall>x \<in> set b1. ceAddr x \<noteq> nextAddr s" using cs_inv_addr [OF inv base(1)] by (auto dest: less_imp_neq)
    then have "unused (ceAddr ?new) s1" using unused_pushed [OF un b1(1)] by (simp add: DummyCatalogEntry_def)
    moreover have inv2: "cs_inv s1" using b1(1) by (simp add: pushed_def)
    ultimately obtain b2 where b2: "pushed (?new\<lparr>ceTimestamp := txnID t\<rparr>) b2 s1 s2" "p2 = hd b2"
      using create_pushes create by blast
    have "pushes t s [] ?s" by (rule pushes.none) simp_all
    then have "pushes t s ([] @ [ceAddr (hd b1)]) s1" using b1(1) by (rule pushes.push) simp
    then have "pushes t s (([] @ [ceAddr (hd b1)]) @ [ceAddr (hd b2)]) s2" using b2(1) by (rule pushes.push) simp
    then show ?thesis
      using st st' us b2(2) \<open>b1 = base\<close> base(3) by (intro exI [of _ "[ceAddr (hd b1), ceAddr (hd b2)]"]) simp
  next
    case False
    then have st': "fst st' = emplaceNoLock [?new] ?s" and us: "undoRecords (snd st') = undoRecords log @ [ceAddr entry]"
      using rest app by (auto simp: installAltered_def split: alter_info.splits)
    have name: "ceName ?new = ceName entry" using N False by (cases "fst info") simp_all
    then have "nm_at (entries ?s) (ceName ?new) = Some base" using base nm_at_lower [OF base(4), of "entries s"] by simp
    with inv1 have "pushed ?new base ?s (fst st')" unfolding st' by (rule emplace_one) (use un in simp)
    moreover have "pushes t s [] ?s" by (rule pushes.none) simp_all
    moreover have "ceTimestamp ?new = txnID t" using N by simp
    ultimately have "pushes t s ([] @ [ceAddr (hd base)]) (fst st')" by (intro pushes.push)
    then show ?thesis using st us base(3) by (intro exI [of _ "[ceAddr entry]"]) simp
  qed
qed

lemma pushes_trans: "pushes t s2 vs s3 \<Longrightarrow> pushes t s us s2 \<Longrightarrow> cs_inv s2 \<Longrightarrow> pushes t s (us @ vs) s3"
proof (induction rule: pushes.induct)
  case (none s')
  from none(3) show ?case
  proof (cases rule: pushes.cases)
    case none': none
    then show ?thesis using none(1,2) by (auto intro!: pushes.none)
  next
    case (push us' s1 e base)
    have "cs_inv s'" using none by (auto intro: cs_inv_alloc)
    then have "pushed e base s1 s'" using push(3) none(1,2) by (simp add: pushed_def)
    then show ?thesis using push by (auto intro: pushes.push)
  qed
next
  case (push us s1 e base s2)
  then show ?case by (metis append.assoc pushes.push)
qed

lemma exec_ddl_pushes:
  assumes "cs_inv (fst st)" "undisturbed t (fst st)" "shouldAppendToUndoBuffer t" "exec_ddl cfg t op st = (st', Inr u)"
  shows "\<exists>us. pushes t (fst st) us (fst st') \<and> undoRecords (snd st') = undoRecords (snd st) @ us"
proof (cases op)
  case (Create entry)
  then obtain oid where "createEntry cfg t entry st = (st', Inr oid)" using assms(4) by (auto simp: exec_ddl_def)
  from createEntry_pushes [OF assms(1,3) this] show ?thesis
    by (metis append_Nil le_refl pushes.none pushes.push)
next
  case (Drop name oid)
  then have "dropEntry cfg t name oid st = (st', Inr u)" using assms(4) by (simp add: exec_ddl_def)
  from dropEntry_pushes [OF assms(1,3) this] show ?thesis
    by (metis append_Nil le_refl pushes.none pushes.push)
next
  case (Alter tableName info)
  then show ?thesis using alter_pushes [OF assms(1,2,3)] assms(4) by (simp add: exec_ddl_def)
qed

lemma exec_ddls_pushes:
  assumes "cs_inv (fst st)" "undisturbed t (fst st)" "shouldAppendToUndoBuffer t" "exec_ddls cfg t ops st = (st', Inr u)"
  shows "\<exists>us. pushes t (fst st) us (fst st') \<and> undoRecords (snd st') = undoRecords (snd st) @ us"
  using assms
proof (induction ops arbitrary: st)
  case Nil
  then show ?case by (auto intro!: exI [of _ "[]"] pushes.none)
next
  case (Cons op ops)
  then obtain st1 u1 where st1: "exec_ddl cfg t op st = (st1, Inr u1)" "exec_ddls cfg t ops st1 = (st', Inr u)"
    by auto
  from exec_ddl_pushes [OF Cons.prems(1-3) st1(1)] obtain us where
    us: "pushes t (fst st) us (fst st1)" "undoRecords (snd st1) = undoRecords (snd st) @ us" by blast
  have inv: "cs_inv (fst st1)" using us(1) Cons.prems(1) by (rule pushes_inv)
  moreover have "undisturbed t (fst st1)" using us(1) Cons.prems(2) by (rule pushes_undisturbed)
  ultimately obtain vs where vs: "pushes t (fst st1) vs (fst st')" "undoRecords (snd st') = undoRecords (snd st1) @ vs"
    using Cons.IH [OF _ _ Cons.prems(3) st1(2)] by blast
  then show ?case using us pushes_trans [OF vs(1) us(1) inv] by (intro exI [of _ "us @ vs"]) simp
qed

section \<open>Examples\<close>

definition example_entry :: "string \<Rightarrow> (u8, u8, u8) catalog_entry" where
  "example_entry name = \<lparr>ceAddr = 0, ceType = NODE_TABLE_ENTRY, ceName = tag name, ceOID = 0, ceTimestamp = 0,
     ceDeleted = False, ceHasParent = False,
     ceData = TableData \<lparr>tdComment = [], propertyCollection = PropertyDefinitionCollection_new 0,
       tdKind = NodeTable (tag ''id'') []\<rparr>\<rparr>"

definition example_writer :: transaction where
  "example_writer = Transaction_new WRITE (START_TRANSACTION_ID + 1) 5"

definition example_reader :: transaction where
  "example_reader = Transaction_new READ_ONLY (START_TRANSACTION_ID + 2) 7"

definition example_created :: "(u8, u8, u8) catalog_set" where
  "example_created = \<lparr>nextOID = 1, entries = [(tag ''A'',
     [(example_entry ''A'')\<lparr>ceTimestamp := txnID example_writer\<rparr>, DummyCatalogEntry 1 (tag ''A'') 0])], nextAddr = 2\<rparr>"

definition example_log :: "(u8, u8, u8) ddl_log" where
  "example_log = \<lparr>undoRecords = [1], walRecords =
     [CreateCatalogEntryRecord ((example_entry ''A'')\<lparr>ceTimestamp := txnID example_writer\<rparr>) False]\<rparr>"

lemma example_runs:
  "exec_ddls example_config example_writer [Create (example_entry ''A'')]
     (CatalogSet_new False, \<lparr>undoRecords = [], walRecords = []\<rparr>) = ((example_created, example_log), Inr ())"
  by (simp add: exec_ddl_def createEntry_def createEntryNoLock_def validateNotExistNoLock_def containsEntryNoLock_def
      createDummyEntryNoLock_def emplaceNoLock_def nm_at_def nm_emplace_def nm_erase_def nm_contains_def headOf_def
      pushCreateDropCatalogEntry_def createDropRecord_def shouldAppendToUndoBuffer_def isWriteTransaction_def shouldLogToWAL_def
      isInternal_def INTERNAL_CATALOG_SET_START_OID_def CatalogSet_new_def example_created_def example_log_def
      example_entry_def example_writer_def example_config_def Transaction_new_def DummyCatalogEntry_def nthR_def Let_def word_le_nat_alt)

lemma example_start:
  "cs_inv (CatalogSet_new False)" "undisturbed t (CatalogSet_new False)" "fresh_txn t (CatalogSet_new False)"
  "shouldAppendToUndoBuffer example_writer"
  by (rule cs_inv_new) (simp_all add: undisturbed_def fresh_txn_def CatalogSet_new_def nm_at_def shouldAppendToUndoBuffer_def
      isWriteTransaction_def example_writer_def Transaction_new_def)

lemma example_view:
  "entryView example_writer (tag ''a'') example_created = Some ((example_entry ''A'')\<lparr>ceTimestamp := txnID example_writer\<rparr>)"
  "entryView t (tag ''a'') (CatalogSet_new False :: (u8, u8, u8) catalog_set) = None"
  by (simp_all add: entryView_def example_created_def nm_at_def CatalogSet_new_def caseInsensitiveEquals_def tag_def lower_byte
      example_entry_def)

section \<open>Isolation\<close>

lemma pushed_view:
  assumes push: "pushed e base s s'" and other: "ceTimestamp e \<noteq> txnID t" "startTS t < ceTimestamp e"
  shows "entryView t n s' = entryView t n s"
proof (cases "lowerName n = lowerName (ceName e)")
  case True
  have "\<not> ceTimestamp e \<le> startTS t" using other(2) by simp
  then have "traverseVersionChains t (e # base) = traverseVersionChains t base" using other(1) by simp
  moreover have "nm_at (entries s') n = Some (e # base)" using push True by (simp add: pushed_def)
  moreover have "nm_at (entries s) n = nm_at (entries s) (ceName e)" using True by (rule nm_at_lower)
  ultimately show ?thesis using push by (auto simp: entryView_def pushed_def)
next
  case False
  then show ?thesis using push by (simp add: entryView_def pushed_def)
qed

lemma pushes_view:
  assumes "pushes t s us s'" "txnID t \<noteq> txnID r" "startTS r < txnID t"
  shows "entryView r n s' = entryView r n s"
  using assms
proof (induction rule: pushes.induct)
  case (none s')
  then show ?case by (simp add: entryView_def)
next
  case (push us s1 e base s2)
  then show ?case using pushed_view [of e base s1 s2 r n] by simp
qed

section \<open>Commit\<close>

text \<open>Setting the timestamps of the versions in front of a set of addresses.\<close>

fun commitSet :: "nat set \<Rightarrow> transaction_t \<Rightarrow> ('t, 'x, 'o) chain \<Rightarrow> ('t, 'x, 'o) chain" where
  "commitSet A cts (n # e # c) = (if ceAddr e \<in> A then n\<lparr>ceTimestamp := cts\<rparr> else n) # commitSet A cts (e # c)"
| "commitSet A cts c = c"

lemma commitSet_addr [simp]: "map ceAddr (commitSet A cts c) = map ceAddr c" "commitSet A cts c = [] \<longleftrightarrow> c = []"
  by (induction A cts c rule: commitSet.induct) auto

lemma commitSet_names: "map ceName (commitSet A cts c) = map ceName c"
  by (induction A cts c rule: commitSet.induct) auto

lemma commitSet_last: "c \<noteq> [] \<Longrightarrow> last (commitSet A cts c) = last c"
  by (induction A cts c rule: commitSet.induct) auto

lemma commitSet_Nil [simp]: "commitSet {} cts c = c"
  by (induction "{} :: nat set" cts c rule: commitSet.induct) auto

lemma commitNext_set:
  assumes "a \<in> ceAddr ` set (tl c)" "distinct (map ceAddr c)"
  shows "commitNext a cts (commitSet A cts c) = Inr (commitSet (insert a A) cts c)"
  using assms
proof (induction A cts c rule: commitSet.induct)
  case (1 A cts n e c)
  obtain e' c' where ec: "commitSet A cts (e # c) = e' # c'" "ceAddr e' = ceAddr e"
    using commitSet_addr(1) [of A cts "e # c"] by (cases "commitSet A cts (e # c)") auto
  show ?case
  proof (cases "ceAddr e = a")
    case True
    have "a \<notin> ceAddr ` set c" using 1(3) True by auto
    then have "commitSet (insert a A) cts (e # c) = commitSet A cts (e # c)"
    proof (induction c arbitrary: e)
      case (Cons x c)
      then show ?case by auto
    qed simp
    then show ?thesis using ec True by simp
  next
    case False
    then have "commitNext a cts (commitSet A cts (e # c)) = Inr (commitSet (insert a A) cts (e # c))"
      using 1 by simp
    then show ?thesis using ec False by simp
  qed
qed simp_all

definition commits_to :: "nat set \<Rightarrow> transaction_t \<Rightarrow> ('t, 'x, 'o) catalog_set \<Rightarrow> ('t, 'x, 'o) catalog_set \<Rightarrow> bool" where
  "commits_to A cts s s' \<longleftrightarrow> cs_inv s' \<and> (\<forall>n. nm_at (entries s') n = map_option (commitSet A cts) (nm_at (entries s) n))"

lemma chain_ok_commitSet: "chain_ok n c \<Longrightarrow> chain_ok n (commitSet A cts c)"
proof -
  assume ok: "chain_ok n c"
  have "\<forall>x \<in> set (map ceName c). lowerName x = lowerName n" using ok by (simp add: chain_ok_def)
  then have "\<forall>x \<in> set (map ceName (commitSet A cts c)). lowerName x = lowerName n" unfolding commitSet_names .
  then show ?thesis using ok by (simp add: chain_ok_def commitSet_last)
qed

lemma commit_record:
  assumes inv: "cs_inv s" and to: "commits_to A cts s s1"
    and at: "nm_at (entries s) n = Some c" and a: "a \<in> ceAddr ` set (tl c)"
  shows "\<exists>s2. commitCatalogEntryRecord cts a s1 = Inr s2 \<and> commits_to (insert a A) cts s s2"
proof -
  have inv1: "cs_inv s1" and at1: "\<And>n. nm_at (entries s1) n = map_option (commitSet A cts) (nm_at (entries s) n)"
    using to by (simp_all add: commits_to_def)
  have ok: "chain_ok n c" using inv at by (rule cs_inv_chain)
  let ?c = "commitSet A cts c"
  have c1: "nm_at (entries s1) n = Some ?c" using at1 [of n] at by simp
  have "a \<in> set (map ceAddr c)" using a by (cases c) auto
  then have "a \<in> set (map ceAddr ?c)" unfolding commitSet_addr .
  then obtain e where e: "e \<in> set ?c" "ceAddr e = a" unfolding list.set_map by blast
  obtain k where k: "chainOf a s1 = Some (k, ?c)" "(k, ?c) \<in> set (entries s1)" "lowerName k = lowerName n"
    using chainOf_at [OF inv1 c1 e(1)] e(2) by blast
  have "commitNext a cts ?c = Inr (commitSet (insert a A) cts c)"
    using a ok by (intro commitNext_set) (simp_all add: chain_ok_def)
  then have run: "commitCatalogEntryRecord cts a s1 = Inr (setChain k (commitSet (insert a A) cts c) s1)"
    using k by (simp add: commitCatalogEntryRecord_def)
  let ?s2 = "setChain k (commitSet (insert a A) cts c) s1"
  have set: "nm_at (entries ?s2) m = (if lowerName m = lowerName k then Some (commitSet (insert a A) cts c) else nm_at (entries s1) m)" for m
    using cs_inv_ok [OF inv1] k(2) by (rule nm_at_setChain(1))
  have addrs: "ceAddr ` set (commitSet (insert a A) cts c) = ceAddr ` set c" "ceAddr ` set ?c = ceAddr ` set c"
    by (metis commitSet_addr(1) list.set_map)+
  have "cs_inv ?s2"
  proof (rule cs_inv_update [OF inv1 _ set])
    show "nm_ok (entries ?s2)" using cs_inv_ok [OF inv1] k(2) by (rule nm_at_setChain(2))
    show "chain_ok k (commitSet (insert a A) cts c)" using chain_ok_commitSet [OF ok] k(3) by (simp add: chain_ok_def)
    show "nextAddr s1 \<le> nextAddr ?s2" by (simp add: setChain_def)
    have "\<forall>x \<in> ceAddr ` set ?c. x < nextAddr s1" using cs_inv_addr [OF inv1 c1] by blast
    then show "\<forall>x \<in> set (commitSet (insert a A) cts c). ceAddr x < nextAddr ?s2"
      unfolding addrs(2) addrs(1) [symmetric] by (simp add: setChain_def)
    fix x m' c' x'
    assume x: "x \<in> set (commitSet (insert a A) cts c)" "nm_at (entries s1) m' = Some c'" "x' \<in> set c'" "ceAddr x = ceAddr x'"
    then have "ceAddr x \<in> ceAddr ` set ?c" using addrs by blast
    then obtain y where "y \<in> set ?c" "ceAddr y = ceAddr x'" using x(4) by auto
    then show "lowerName m' = lowerName k" using cs_inv_unique [OF inv1 x(2) c1 x(3)] k(3) by simp
  qed
  moreover have "nm_at (entries ?s2) m = map_option (commitSet (insert a A) cts) (nm_at (entries s) m)" for m
  proof (cases "lowerName m = lowerName n")
    case True
    then show ?thesis using set [of m] k(3) at nm_at_lower [OF True, of "entries s"] by simp
  next
    case False
    have "commitSet (insert a A) cts d = commitSet A cts d" if "nm_at (entries s) m = Some d" for d
    proof -
      have "a \<notin> ceAddr ` set d"
      proof
        assume "a \<in> ceAddr ` set d"
        then obtain x where x: "x \<in> set d" "ceAddr x = a" by auto
        obtain y where y: "y \<in> set (tl c)" "ceAddr y = a" using a by auto
        then have "y \<in> set c" by (cases c) auto
        then show False using cs_inv_unique [OF inv that at x(1), of y] x(2) y(2) False by simp
      qed
      then show ?thesis by (induction A cts d rule: commitSet.induct) auto
    qed
    then show ?thesis using set [of m] k(3) False at1 [of m] by (cases "nm_at (entries s) m") simp_all
  qed
  ultimately show ?thesis using run by (simp add: commits_to_def)
qed

lemma commit_records:
  assumes inv: "cs_inv s" and to: "commits_to A cts s s1"
    and us: "\<forall>a \<in> set us. \<exists>n c. nm_at (entries s) n = Some c \<and> a \<in> ceAddr ` set (tl c)"
  shows "\<exists>s2. foldR (commitCatalogEntryRecord cts) us s1 = Inr s2 \<and> commits_to (A \<union> set us) cts s s2"
  using to us
proof (induction us arbitrary: A s1)
  case Nil
  then show ?case by simp
next
  case (Cons a us)
  then obtain s2 where "commitCatalogEntryRecord cts a s1 = Inr s2" "commits_to (insert a A) cts s s2"
    using commit_record [OF inv] by (meson list.set_intros(1))
  then show ?case using Cons.IH [of "insert a A" s2] Cons.prems by auto
qed

text \<open>
  The records of a transaction point exactly below its versions, so that committing them sets the
  timestamps of its versions and of no other.
\<close>

fun marked :: "nat set \<Rightarrow> transaction_t \<Rightarrow> ('t, 'x, 'o) chain \<Rightarrow> bool" where
  "marked A tid (n # e # c) \<longleftrightarrow> (ceAddr e \<in> A \<longleftrightarrow> ceTimestamp n = tid) \<and> marked A tid (e # c)"
| "marked A tid c \<longleftrightarrow> True"

lemma commitSet_marked:
  assumes "marked A tid c" "c \<noteq> []" "ceTimestamp (last c) \<noteq> tid"
  shows "commitSet A cts c = map (\<lambda>e. if ceTimestamp e = tid then e\<lparr>ceTimestamp := cts\<rparr> else e) c"
  using assms by (induction A tid c rule: marked.induct) auto

lemma marked_insert: "marked A tid c \<Longrightarrow> a \<notin> ceAddr ` set (tl c) \<Longrightarrow> marked (insert a A) tid c"
  by (induction A tid c rule: marked.induct) (auto split: if_splits)

lemma marked_fresh: "(\<forall>e \<in> set c. ceTimestamp e \<noteq> tid) \<Longrightarrow> marked {} tid c"
  by (induction "{} :: nat set" tid c rule: marked.induct) auto

lemma pushes_marked:
  assumes "pushes t s us s'" "cs_inv s" "fresh_txn t s" "txnID t \<noteq> 0"
  shows "(\<forall>n c. nm_at (entries s') n = Some c \<longrightarrow> marked (set us) (txnID t) c)
    \<and> (\<forall>a \<in> set us. \<exists>n c. nm_at (entries s') n = Some c \<and> a \<in> ceAddr ` set (tl c))"
  using assms
proof (induction rule: pushes.induct)
  case (none s')
  then show ?case by (auto simp: fresh_txn_def intro: marked_fresh)
next
  case (push us s1 e base s2)
  then have IH: "\<And>n c. nm_at (entries s1) n = Some c \<Longrightarrow> marked (set us) (txnID t) c"
      "\<forall>a \<in> set us. \<exists>n c. nm_at (entries s1) n = Some c \<and> a \<in> ceAddr ` set (tl c)" by blast+
  have inv2: "cs_inv s2" and at2: "\<And>n. nm_at (entries s2) n = (if lowerName n = lowerName (ceName e) then Some (e # base) else nm_at (entries s1) n)"
    and base: "base \<noteq> []" "nm_at (entries s1) (ceName e) = Some base \<or> nm_at (entries s1) (ceName e) = None \<and> (\<exists>d. base = [d])"
    using push.hyps(2) by (auto simp: pushed_def)
  have ok: "chain_ok (ceName e) (e # base)" by (rule cs_inv_chain [OF inv2]) (simp add: at2)
  have distinct: "distinct (map ceAddr base)" using ok by (simp add: chain_ok_def)
  have head: "ceAddr (hd base) \<notin> ceAddr ` set (tl base)" using distinct base(1) by (cases base) auto
  have marked: "marked (set (us @ [ceAddr (hd base)])) (txnID t) base"
  proof -
    have "marked (set us) (txnID t) base" using base(2) IH(1) by auto
    then show ?thesis using marked_insert [OF _ head] by simp
  qed
  have "marked (set (us @ [ceAddr (hd base)])) (txnID t) c" if c: "nm_at (entries s2) n = Some c" for n c
  proof (cases "lowerName n = lowerName (ceName e)")
    case True
    then have "c = e # base" using c at2 by simp
    moreover obtain b bs where "base = b # bs" using base(1) by (cases base) auto
    ultimately show ?thesis using marked push.hyps(3) by simp
  next
    case False
    then have c1: "nm_at (entries s1) n = Some c" using c at2 by simp
    have "ceAddr (hd base) \<notin> ceAddr ` set c"
    proof
      assume "ceAddr (hd base) \<in> ceAddr ` set c"
      then obtain x where x: "x \<in> set c" "ceAddr (hd base) = ceAddr x" by auto
      have "nm_at (entries s2) (ceName e) = Some (e # base)" by (simp add: at2)
      moreover have "hd base \<in> set (e # base)" using base(1) by simp
      ultimately show False using cs_inv_unique [OF inv2 _ c] x False by metis
    qed
    then have "ceAddr (hd base) \<notin> ceAddr ` set (tl c)" by (cases c) auto
    then show ?thesis using marked_insert IH(1) [OF c1] by simp
  qed
  moreover have "\<exists>n c. nm_at (entries s2) n = Some c \<and> a \<in> ceAddr ` set (tl c)" if a: "a \<in> set (us @ [ceAddr (hd base)])" for a
  proof (cases "a = ceAddr (hd base)")
    case True
    then show ?thesis using base(1) at2 [of "ceName e"] by (intro exI [of _ "ceName e"] exI [of _ "e # base"]) simp
  next
    case False
    then obtain n c where c: "nm_at (entries s1) n = Some c" "a \<in> ceAddr ` set (tl c)" using IH(2) a by auto
    show ?thesis
    proof (cases "lowerName n = lowerName (ceName e)")
      case True
      then have "nm_at (entries s1) (ceName e) = Some c" using c(1) nm_at_lower by metis
      then have "c = base" using base(2) by auto
      then have "a \<in> ceAddr ` set base" using c(2) by (cases base) auto
      then show ?thesis using at2 [of "ceName e"] by (intro exI [of _ "ceName e"] exI [of _ "e # base"]) simp
    next
      case False
      then show ?thesis using c at2 [of n] by auto
    qed
  qed
  ultimately show ?case by blast
qed

abbreviation (input) retime :: "transaction_t \<Rightarrow> transaction_t \<Rightarrow> ('t, 'x, 'o) catalog_entry \<Rightarrow> ('t, 'x, 'o) catalog_entry" where
  "retime tid cts e \<equiv> (if ceTimestamp e = tid then e\<lparr>ceTimestamp := cts\<rparr> else e)"

lemma traverse_retime_before:
  assumes "txnID r \<noteq> tid" "txnID r \<noteq> cts" "startTS r < cts" "startTS r < tid"
  shows "traverseVersionChains r (map (retime tid cts) c) = traverseVersionChains r c"
  using assms by (induction c) (auto simp: not_le [symmetric])

lemma commit_all:
  assumes inv: "cs_inv s" and und: "undisturbed t s" and fresh: "fresh_txn t s" and app: "shouldAppendToUndoBuffer t"
    and tid: "txnID t \<noteq> 0" and run: "exec_ddls cfg t ops (s, \<lparr>undoRecords = [], walRecords = []\<rparr>) = ((s', log), Inr u)"
  shows "\<exists>s''. foldR (commitCatalogEntryRecord cts) (undoRecords log) s' = Inr s''
    \<and> pushes t s (undoRecords log) s' \<and> cs_inv s' \<and> undisturbed t s'
    \<and> (\<forall>n. nm_at (entries s'') n = map_option (map (retime (txnID t) cts)) (nm_at (entries s') n))"
proof -
  from exec_ddls_pushes [of "(s, \<lparr>undoRecords = [], walRecords = []\<rparr>)" t cfg ops "(s', log)" u] inv und app run
  have push: "pushes t s (undoRecords log) s'" by auto
  have inv': "cs_inv s'" using push inv by (rule pushes_inv)
  have und': "undisturbed t s'" using push und by (rule pushes_undisturbed)
  note M = pushes_marked [OF push inv fresh tid]
  have "commits_to {} cts s' s'" using inv' by (simp add: commits_to_def map_option_case split: option.split)
  then obtain s'' where s'': "foldR (commitCatalogEntryRecord cts) (undoRecords log) s' = Inr s''"
      "commits_to (set (undoRecords log)) cts s' s''"
    using commit_records [OF inv', of "{}" cts s' "undoRecords log"] M by auto
  have "commitSet (set (undoRecords log)) cts c = map (retime (txnID t) cts) c" if "nm_at (entries s') n = Some c" for n c
    using M that cs_inv_chain [OF inv' that] tid by (intro commitSet_marked) (auto simp: chain_ok_def)
  then have "nm_at (entries s'') n = map_option (map (retime (txnID t) cts)) (nm_at (entries s') n)" for n
    using s''(2) by (cases "nm_at (entries s') n") (auto simp: commits_to_def)
  then show ?thesis using s''(1) push inv' und' by blast
qed

text \<open>
  C18. Changes of the catalog are atomic and isolated, for a transaction of which no name has been
  changed by another one since it started (\<^const>\<open>undisturbed\<close>), nor is until it commits, as when writers
  run one after the other, and all of whose statements succeed. While it creates, drops and alters
  entries in any number, every other transaction sees the catalog as it was. Committing the records
  of its undo buffer with timestamp \<open>cts\<close> succeeds; transactions that started before
  \<open>cts\<close> still see the old catalog, and those that start at \<open>cts\<close> or later see every name
  as the committing transaction left it. Without the condition this need not be so: drops and
  alterations do not check for conflicts, and a version committed below a newer one is not seen.
\<close>

theorem catalog_commit_publishes:
  assumes "cs_inv s" "undisturbed t s" "fresh_txn t s" "shouldAppendToUndoBuffer t" "txnID t \<noteq> 0"
    and "exec_ddls cfg t ops (s, \<lparr>undoRecords = [], walRecords = []\<rparr>) = ((s', log), Inr u)" "startTS t \<le> cts"
  shows "\<exists>s''. foldR (commitCatalogEntryRecord cts) (undoRecords log) s' = Inr s''
    \<and> (\<forall>r n. txnID r \<noteq> txnID t \<longrightarrow> startTS r < txnID t \<longrightarrow> entryView r n s' = entryView r n s)
    \<and> (\<forall>r n. txnID r \<noteq> txnID t \<longrightarrow> txnID r \<noteq> cts \<longrightarrow> startTS r < txnID t \<longrightarrow> startTS r < cts
          \<longrightarrow> entryView r n s'' = entryView r n s)
    \<and> (\<forall>r n. cts \<le> startTS r \<longrightarrow> entryView r n s'' = map_option (retime (txnID t) cts) (entryView t n s'))"
proof -
  obtain s'' where s'': "foldR (commitCatalogEntryRecord cts) (undoRecords log) s' = Inr s''"
      "pushes t s (undoRecords log) s'" "cs_inv s'" "undisturbed t s'"
      "\<And>n. nm_at (entries s'') n = map_option (map (retime (txnID t) cts)) (nm_at (entries s') n)"
    using commit_all [OF assms(1-6)] by blast
  have before: "entryView r n s' = entryView r n s" if "txnID r \<noteq> txnID t" "startTS r < txnID t" for r n
    using pushes_view [OF s''(2)] that by simp
  have keep: "ceDeleted (retime (txnID t) cts e) = ceDeleted e" for e by simp
  have old: "entryView r n s'' = entryView r n s'"
    if "txnID r \<noteq> txnID t" "txnID r \<noteq> cts" "startTS r < txnID t" "startTS r < cts" for r n
    using that by (cases "nm_at (entries s') n") (simp_all add: entryView_def s''(5) traverse_retime_before)
  have new: "entryView r n s'' = map_option (retime (txnID t) cts) (entryView t n s')" if "cts \<le> startTS r" for r n
  proof (cases "nm_at (entries s') n")
    case (Some c)
    then have "c \<noteq> []" using cs_inv_chain [OF s''(3)] by (auto simp: chain_ok_def)
    then obtain e c' where c: "c = e # c'" by (cases c) auto
    have "ceTimestamp e = txnID t \<or> ceTimestamp e \<le> startTS t"
      using s''(4) Some c by (fastforce simp: undisturbed_def)
    then have "ceTimestamp e = txnID t \<or> ceTimestamp e \<le> startTS r \<and> ceTimestamp e \<le> startTS t"
      using assms(7) that by (meson order_trans)
    then have "traverseVersionChains r (map (retime (txnID t) cts) c) = Inr (retime (txnID t) cts e)"
        "traverseVersionChains t c = Inr e"
      using that c by auto
    then show ?thesis using Some by (simp add: entryView_def s''(5) keep)
  qed (simp add: entryView_def s''(5))
  show ?thesis using s''(1) before old new by (intro exI [of _ s'']) simp
qed

theorem catalog_commit_publishes_witness:
  "\<exists>s''. foldR (commitCatalogEntryRecord 6) [1] example_created = Inr s''
    \<and> entryView example_reader (tag ''a'') example_created = None
    \<and> entryView (example_reader\<lparr>startTS := 5\<rparr>) (tag ''a'') s'' = None
    \<and> entryView example_reader (tag ''a'') s'' = Some ((example_entry ''A'')\<lparr>ceTimestamp := 6\<rparr>)"
proof -
  have tid: "txnID example_writer \<noteq> 0" "startTS example_writer \<le> 6" "txnID example_reader \<noteq> txnID example_writer"
    "txnID example_reader \<noteq> 6" "7 < txnID example_writer" "5 < txnID example_writer" "startTS example_reader = 7"
    by (simp_all add: example_writer_def example_reader_def Transaction_new_def START_TRANSACTION_ID_def word_le_nat_alt word_less_nat_alt)
  from catalog_commit_publishes [OF example_start(1-3) example_start(4) tid(1) example_runs tid(2)]
  obtain s'' where s'': "foldR (commitCatalogEntryRecord 6) (undoRecords example_log) example_created = Inr s''"
    "\<And>r n. txnID r \<noteq> txnID example_writer \<Longrightarrow> startTS r < txnID example_writer \<Longrightarrow>
      entryView r n example_created = entryView r n (CatalogSet_new False)"
    "\<And>r n. txnID r \<noteq> txnID example_writer \<Longrightarrow> txnID r \<noteq> 6 \<Longrightarrow> startTS r < txnID example_writer \<Longrightarrow> startTS r < 6
      \<Longrightarrow> entryView r n s'' = entryView r n (CatalogSet_new False)"
    "\<And>r n. 6 \<le> startTS r \<Longrightarrow>
      entryView r n s'' = map_option (retime (txnID example_writer) 6) (entryView example_writer n example_created)" by blast
  have "entryView example_reader (tag ''a'') example_created = None"
    using s''(2) [of example_reader "tag ''a''"] tid example_view(2) by simp
  moreover have "entryView (example_reader\<lparr>startTS := 5\<rparr>) (tag ''a'') s'' = None"
    using s''(3) [of "example_reader\<lparr>startTS := 5\<rparr>" "tag ''a''"] tid example_view(2) by simp
  moreover have "entryView example_reader (tag ''a'') s'' = Some ((example_entry ''A'')\<lparr>ceTimestamp := 6\<rparr>)"
    using s''(4) [of example_reader "tag ''a''"] tid(7) example_view(1) by simp
  ultimately show ?thesis using s''(1) by (simp add: example_log_def)
qed

section \<open>Rollback\<close>

text \<open>The same chains, except that a name without one may have a dummy.\<close>

definition covers :: "('t, 'x, 'o) catalog_set \<Rightarrow> ('t, 'x, 'o) catalog_set \<Rightarrow> bool" where
  "covers s s' \<longleftrightarrow> (\<forall>n. nm_at (entries s') n = nm_at (entries s) n
     \<or> nm_at (entries s) n = None \<and> (\<exists>d. nm_at (entries s') n = Some [d] \<and> ceDeleted d \<and> ceTimestamp d = 0))"

lemma covers_view: "covers s s' \<Longrightarrow> entryView t n s' = entryView t n s"
proof -
  assume "covers s s'"
  then consider "nm_at (entries s') n = nm_at (entries s) n"
    | d where "nm_at (entries s) n = None" "nm_at (entries s') n = Some [d]" "ceDeleted d" "ceTimestamp d = 0"
    unfolding covers_def by blast
  then show ?thesis by cases (simp_all add: entryView_def)
qed

lemma rollback_record:
  assumes inv: "cs_inv s" and at: "nm_at (entries s) (ceName e) = Some (e # base)" and base: "base \<noteq> []"
  shows "\<exists>s'. rollbackCatalogEntryRecord (ceAddr (hd base)) s = Inr s' \<and> cs_inv s'
    \<and> (\<forall>n. nm_at (entries s') n = (if lowerName n = lowerName (ceName e) then Some base else nm_at (entries s) n))"
proof -
  obtain b bs where b: "base = b # bs" using base by (cases base) auto
  have ok: "chain_ok (ceName e) (e # base)" using inv at by (rule cs_inv_chain)
  have name: "lowerName (ceName b) = lowerName (ceName e)" using ok b by (simp add: chain_ok_def)
  obtain k where k: "chainOf (ceAddr b) s = Some (k, e # base)" "lowerName k = lowerName (ceName e)"
    using chainOf_at [OF inv at, of b] b by auto
  let ?s = "emplaceNoLock base (eraseNoLock (ceName b) s)"
  have run: "rollbackCatalogEntryRecord (ceAddr (hd base)) s = Inr ?s"
    using k b by (simp add: rollbackCatalogEntryRecord_def)
  note nok = cs_inv_ok [OF inv]
  have none: "nm_at (nm_erase (entries s) (ceName b)) (ceName b) = None" by (simp add: nm_at_erase)
  then have s': "entries ?s = nm_emplace (nm_erase (entries s) (ceName b)) (ceName b) base" "nextAddr ?s = nextAddr s"
    using b by (simp_all add: emplaceNoLock_def eraseNoLock_def Let_def)
  have at': "nm_at (entries ?s) n = (if lowerName n = lowerName (ceName e) then Some base else nm_at (entries s) n)" for n
    unfolding s' using names.lookup_replace [OF nok, of "ceName b" base n] name by (auto simp: caseInsensitiveEquals_iff)
  have "cs_inv ?s"
  proof (rule cs_inv_update [OF inv _ at'])
    show "nm_ok (entries ?s)" unfolding s' using nok by (intro nm_ok_emplace nm_ok_erase)
    show "chain_ok (ceName e) base" using ok b by (simp add: chain_ok_def)
    show "\<forall>x \<in> set base. ceAddr x < nextAddr ?s" using cs_inv_addr [OF inv at] s'(2) by simp
    fix x n' c' e' assume x: "x \<in> set base" "nm_at (entries s) n' = Some c'" "e' \<in> set c'" "ceAddr x = ceAddr e'"
    show "lowerName n' = lowerName (ceName e)"
      by (rule cs_inv_unique [OF inv x(2) at x(3), of x]) (simp_all add: x(1,4))
  qed (simp add: s')
  then show ?thesis using run at' by blast
qed

lemma rollback_pushes:
  assumes "pushes t s us s'" "covers s' s2" "cs_inv s2"
  shows "\<exists>s3. foldR rollbackCatalogEntryRecord (rev us) s2 = Inr s3 \<and> covers s s3 \<and> cs_inv s3"
  using assms
proof (induction arbitrary: s2 rule: pushes.induct)
  case (none s')
  then show ?case by (simp add: covers_def)
next
  case (push us s1 e base s')
  have at': "\<And>n. nm_at (entries s') n = (if lowerName n = lowerName (ceName e) then Some (e # base) else nm_at (entries s1) n)"
    and base: "base \<noteq> []" "nm_at (entries s1) (ceName e) = Some base
      \<or> nm_at (entries s1) (ceName e) = None \<and> (\<exists>d. base = [d] \<and> ceDeleted d \<and> ceTimestamp d = 0)"
    using push.hyps(2) by (auto simp: pushed_def)
  have "nm_at (entries s2) (ceName e) = Some (e # base)"
    using push.prems(1) at' [of "ceName e"] unfolding covers_def by (metis option.distinct(1))
  from rollback_record [OF push.prems(2) this base(1)] obtain s3 where
    s3: "rollbackCatalogEntryRecord (ceAddr (hd base)) s2 = Inr s3" "cs_inv s3"
      "\<And>n. nm_at (entries s3) n = (if lowerName n = lowerName (ceName e) then Some base else nm_at (entries s2) n)" by blast
  have "covers s1 s3"
    unfolding covers_def
  proof
    fix n
    show "nm_at (entries s3) n = nm_at (entries s1) n
      \<or> nm_at (entries s1) n = None \<and> (\<exists>d. nm_at (entries s3) n = Some [d] \<and> ceDeleted d \<and> ceTimestamp d = 0)"
    proof (cases "lowerName n = lowerName (ceName e)")
      case True
      then show ?thesis using base(2) s3(3) [of n] nm_at_lower [OF True, of "entries s1"] by auto
    next
      case False
      then show ?thesis using push.prems(1) at' [of n] s3(3) [of n] unfolding covers_def by metis
    qed
  qed
  then show ?case using push.IH s3(1,2) by simp
qed

text \<open>
  C19. Rolling back takes every change of the catalog back, for a transaction of which no name has been
  changed by another one since it started (\<^const>\<open>undisturbed\<close>), nor is until it rolls back, and all of
  whose statements succeed: after any number of changes, undoing the records of the undo buffer from
  the last to the first succeeds and every transaction, the one that rolls back included, sees every
  name as before the changes. Without the condition the rollback may remove a version of another
  transaction, since an alteration records the version it sees and not the newest.
\<close>

theorem catalog_rollback_restores:
  assumes "cs_inv s" "undisturbed t s" "shouldAppendToUndoBuffer t"
    and "exec_ddls cfg t ops (s, \<lparr>undoRecords = [], walRecords = []\<rparr>) = ((s', log), Inr u)"
  shows "\<exists>s''. foldR rollbackCatalogEntryRecord (rev (undoRecords log)) s' = Inr s'' \<and> cs_inv s''
    \<and> (\<forall>r n. entryView r n s'' = entryView r n s)"
proof -
  from exec_ddls_pushes [of "(s, \<lparr>undoRecords = [], walRecords = []\<rparr>)" t cfg ops "(s', log)" u] assms
  have push: "pushes t s (undoRecords log) s'" by auto
  have "cs_inv s'" using push assms(1) by (rule pushes_inv)
  moreover have "covers s' s'" by (simp add: covers_def)
  ultimately obtain s'' where "foldR rollbackCatalogEntryRecord (rev (undoRecords log)) s' = Inr s''" "covers s s''" "cs_inv s''"
    using rollback_pushes [OF push] by blast
  then show ?thesis using covers_view by blast
qed

theorem catalog_rollback_restores_witness:
  "\<exists>s''. foldR rollbackCatalogEntryRecord [1] example_created = Inr s'' \<and> entryView example_writer (tag ''a'') s'' = None
    \<and> entryView example_writer (tag ''a'') example_created \<noteq> None"
  using catalog_rollback_restores [OF example_start(1,2) example_start(4) example_runs] example_view
  by (auto simp: example_log_def)

section \<open>Lookups by identifier\<close>

lemma entryOfOID_None:
  assumes "\<And>k c. (k, c) \<in> set m \<Longrightarrow> c \<noteq> [] \<and> ceOID (hd c) \<noteq> oid"
  shows "entryOfOID t oid m = Inr None"
  using assms
proof (induction m)
  case (Cons x m)
  obtain k c where x: "x = (k, c)" by (cases x)
  then have "c \<noteq> []" "ceOID (hd c) \<noteq> oid" using Cons.prems [of k c] by simp_all
  moreover have "entryOfOID t oid m = Inr None" by (rule Cons.IH) (use Cons.prems in auto)
  ultimately show ?case using x by (simp add: nthR_def hd_conv_nth)
qed simp

text \<open>
  C34. Looking an entry up by its identifier does not respect snapshots: \<^verbatim>\<open>getEntryOfOID\<close>
  compares the identifier with that of the newest version of a chain only. When the name has been
  dropped and created again with a new identifier, even by a transaction that has not committed, a
  transaction that still sees the old entry under its name does not find it by its identifier.
\<close>

theorem oid_lookup_misses_old_version:
  assumes inv: "cs_inv s" and at: "nm_at (entries s) name = Some chain" and seen: "traverseVersionChains r chain = Inr e" "\<not> ceDeleted e"
    and new: "\<forall>n c. nm_at (entries s) n = Some c \<longrightarrow> ceOID (hd c) \<noteq> ceOID e"
  shows "getEntryNoLock r name s = Inr e \<and> getEntryOfOID r (ceOID e) s = Inr None"
proof -
  have "c \<noteq> [] \<and> ceOID (hd c) \<noteq> ceOID e" if "(k, c) \<in> set (entries s)" for k c
  proof -
    have "nm_at (entries s) k = Some c" using cs_inv_ok [OF inv] that by (rule nm_at_member)
    then show ?thesis using new cs_inv_chain [OF inv, of k c] by (simp add: chain_ok_def)
  qed
  then have "getEntryOfOID r (ceOID e) s = Inr None" unfolding getEntryOfOID_def by (rule entryOfOID_None)
  moreover have "getEntryNoLock r name s = Inr e"
    using at seen by (simp add: getEntryNoLock_def validateExistNoLock_def containsEntryNoLock_def)
  ultimately show ?thesis by simp
qed

definition example_table :: "(u8, u8, u8) catalog_entry" where
  "example_table = (example_entry ''A'')\<lparr>ceOID := 3\<rparr>"

definition example_recreated :: "(u8, u8, u8) ddl_state" where
  "example_recreated = fst (exec_ddls (example_config\<lparr>inMemory := True\<rparr>) example_writer [Drop (tag ''A'') 3, Create (example_entry ''A'')]
     (\<lparr>nextOID = 4, entries = [(tag ''A'', [example_table])], nextAddr = 1\<rparr>, \<lparr>undoRecords = [], walRecords = []\<rparr>))"

lemma example_recreated_set:
  "fst example_recreated = \<lparr>nextOID = 5, entries = [(tag ''A'',
     [(example_entry ''A'')\<lparr>ceTimestamp := txnID example_writer, ceOID := 4, ceAddr := 2\<rparr>,
      (DummyCatalogEntry 1 (tag ''A'') 3)\<lparr>ceTimestamp := txnID example_writer\<rparr>, example_table])], nextAddr = 4\<rparr>"
  by (simp add: example_recreated_def exec_ddl_def dropEntry_def dropEntryNoLock_def createEntry_def createEntryNoLock_def
      validateExistNoLock_def validateNotExistNoLock_def containsEntryNoLock_def
      createDummyEntryNoLock_def emplaceNoLock_def nm_at_def nm_emplace_def nm_erase_def nm_contains_def headOf_def
      pushCreateDropCatalogEntry_def createDropRecord_def shouldAppendToUndoBuffer_def isWriteTransaction_def shouldLogToWAL_def
      isInternal_def INTERNAL_CATALOG_SET_START_OID_def checkWWConflict_def example_table_def START_TRANSACTION_ID_def
      example_entry_def example_writer_def example_config_def Transaction_new_def DummyCatalogEntry_def nthR_def Let_def word_le_nat_alt)

theorem oid_lookup_misses_old_version_witness:
  "getEntryNoLock example_reader (tag ''A'') (fst example_recreated) = Inr example_table
    \<and> getEntryOfOID example_reader 3 (fst example_recreated) = Inr None"
proof -
  let ?chain = "[(example_entry ''A'')\<lparr>ceTimestamp := txnID example_writer, ceOID := 4, ceAddr := 2\<rparr>,
      (DummyCatalogEntry 1 (tag ''A'') 3)\<lparr>ceTimestamp := txnID example_writer\<rparr>, example_table]"
  have at: "nm_at (entries (fst example_recreated)) n = (if lowerName n = lowerName (tag ''A'') then Some ?chain else None)" for n
    unfolding example_recreated_set by (simp add: nm_at_map_of)
  have "cs_inv (fst example_recreated)"
    unfolding cs_inv_def at
    by (auto simp: chain_ok_def nm_ok_def example_recreated_set example_table_def example_entry_def DummyCatalogEntry_def split: if_splits)
  moreover have "traverseVersionChains example_reader ?chain = Inr example_table" "\<not> ceDeleted example_table" "ceOID example_table = 3"
    by (simp_all add: example_reader_def example_writer_def Transaction_new_def START_TRANSACTION_ID_def example_table_def
        example_entry_def DummyCatalogEntry_def word_le_nat_alt)
  moreover have "\<forall>n c. nm_at (entries (fst example_recreated)) n = Some c \<longrightarrow> ceOID (hd c) \<noteq> ceOID example_table"
    unfolding at by (simp add: example_table_def)
  ultimately show ?thesis
    using oid_lookup_misses_old_version [of "fst example_recreated" "tag ''A''" ?chain example_reader example_table] at [of "tag ''A''"] by simp
qed

section \<open>A rename that fails\<close>

text \<open>
  C33. A rename that fails at the new name leaves the table dropped. When the new name has been taken by
  another transaction that has not committed, the exception comes after the old name has got its
  tombstone and before anything is recorded: the table is gone for the transaction, and its undo
  buffer has no record with which a rollback could remove the tombstone.
\<close>

theorem failed_rename_leaves_tombstone:
  assumes inv: "cs_inv s" and get: "getEntryNoLock t tableName s = Inr entry" and type: "ceType entry = NODE_TABLE_ENTRY"
    and data: "ceData entry = TableData d" and other: "\<not> caseInsensitiveEquals newName tableName"
    and free: "entryView t newName s = None" and taken: "nm_at (entries s) newName = Some (other # older)" "checkWWConflict t other"
  shows "\<exists>s'. alterTableEntry cfg t tableName (RenameTable newName, onConflict) (s, log) = ((s', log), Inl catalogConflict)
    \<and> entryView t tableName s = Some entry \<and> entryView t tableName s' = None"
proof -
  obtain base where base: "nm_at (entries s) tableName = Some base" "traverseVersionChains t base = Inr entry" "\<not> ceDeleted entry"
    and valid: "validateExistNoLock t tableName s = Inr ()"
    using get by (auto simp: getEntryNoLock_def derefR_def split: option.splits)
  let ?s = "s\<lparr>nextOID := nextOID s, nextAddr := nextAddr s + 1\<rparr>"
  let ?new = "entry\<lparr>ceData := TableData d, ceTimestamp := txnID t, ceName := newName, ceAddr := nextAddr s\<rparr>"
  have alter: "TableCatalogEntry_alter (txnID t) (RenameTable newName, onConflict) (nextOID s) entry =
      Inr (entry\<lparr>ceData := TableData d, ceTimestamp := txnID t, ceName := newName\<rparr>, nextOID s)"
    using data base(3) by (simp add: TableCatalogEntry_alter_def)
  have inv1: "cs_inv ?s" using inv by (rule cs_inv_alloc) simp_all
  have ok: "chain_ok tableName base" using inv base(1) by (rule cs_inv_chain)
  let ?tomb = "(DummyCatalogEntry (nextAddr ?s) tableName (ceOID entry))\<lparr>ceTimestamp := txnID t\<rparr>"
  let ?s1 = "emplaceNoLock [?tomb] (?s\<lparr>nextAddr := nextAddr ?s + 1\<rparr>)"
  have "pushed ?tomb base (?s\<lparr>nextAddr := nextAddr ?s + 1\<rparr>) ?s1"
  proof (rule emplace_one)
    show "cs_inv (?s\<lparr>nextAddr := nextAddr ?s + 1\<rparr>)" using inv1 by (rule cs_inv_alloc) simp_all
    show "nm_at (entries (?s\<lparr>nextAddr := nextAddr ?s + 1\<rparr>)) (ceName ?tomb) = Some base"
      using base(1) by (simp add: DummyCatalogEntry_def)
    show "unused (ceAddr ?tomb) (?s\<lparr>nextAddr := nextAddr ?s + 1\<rparr>)"
      using inv by (fastforce simp: unused_def DummyCatalogEntry_def dest: cs_inv_addr)
  qed
  then have at1: "nm_at (entries ?s1) n = (if lowerName n = lowerName tableName then Some (?tomb # base) else nm_at (entries s) n)" for n
    by (simp add: pushed_def DummyCatalogEntry_def)
  have drop: "dropEntryNoLock t tableName (ceOID entry) ?s = Inr (?s1, hd base)"
    using valid at1 [of tableName] ok
    by (simp add: dropEntryNoLock_def validateExistNoLock_def containsEntryNoLock_def createDummyEntryNoLock_def nthR_def hd_conv_nth chain_ok_def Let_def)
  have taken1: "nm_at (entries ?s1) newName = Some (other # older)"
    using at1 [of newName] taken(1) \<open>\<not> caseInsensitiveEquals newName tableName\<close> by (simp add: caseInsensitiveEquals_iff)
  have "\<exists>x. traverseVersionChains t c = Inr x" if "c \<noteq> []" "ceTimestamp (last c) = 0" for c
    using that by (induction c) (auto split: if_splits)
  then obtain x where x: "traverseVersionChains t (other # older) = Inr x"
    using cs_inv_chain [OF inv taken(1)] unfolding chain_ok_def by blast
  have "validateNotExistNoLock t newName ?s1 = Inr ()"
    using free taken(1) taken1 x by (simp add: validateNotExistNoLock_def containsEntryNoLock_def entryView_def split: if_splits)
  then have "createEntryNoLock t ?new ?s1 = Inl catalogConflict"
    using taken1 taken(2) by (simp add: createEntryNoLock_def nthR_def)
  then have run: "alterTableEntry cfg t tableName (RenameTable newName, onConflict) (s, log) = ((?s1, log), Inl catalogConflict)"
    using valid get type alter drop by (simp add: alterTableEntry_def installAltered_def)
  moreover have "entryView t tableName s = Some entry" using base by (simp add: entryView_def)
  moreover have "entryView t tableName ?s1 = None"
    using at1 [of tableName] by (simp add: entryView_def DummyCatalogEntry_def)
  ultimately show ?thesis by blast
qed

definition example_contended :: "(u8, u8, u8) catalog_set" where
  "example_contended = \<lparr>nextOID = 5, entries = [(tag ''A'', [example_table]),
     (tag ''B'', [(example_entry ''B'')\<lparr>ceAddr := 1, ceTimestamp := START_TRANSACTION_ID + 2\<rparr>, DummyCatalogEntry 2 (tag ''B'') 4])],
     nextAddr = 3\<rparr>"

lemma example_names: "lowerName (tag ''A'') \<noteq> lowerName (tag ''B'')"
  by (simp add: lowerName_def tag_def lower_byte)

lemma example_contended_at:
  "nm_at (entries example_contended) n = (if lowerName n = lowerName (tag ''A'') then Some [example_table]
    else if lowerName n = lowerName (tag ''B'')
      then Some [(example_entry ''B'')\<lparr>ceAddr := 1, ceTimestamp := START_TRANSACTION_ID + 2\<rparr>, DummyCatalogEntry 2 (tag ''B'') 4]
      else None)"
  by (simp add: example_contended_def nm_at_map_of)

lemma example_contended_inv: "cs_inv example_contended"
  unfolding cs_inv_def example_contended_at using example_names
  by (auto simp: chain_ok_def nm_ok_def example_contended_def example_table_def example_entry_def DummyCatalogEntry_def split: if_splits)

theorem failed_rename_leaves_tombstone_witness:
  "\<exists>s'. alterTableEntry example_config example_writer (tag ''A'') (RenameTable (tag ''B''), onConflictThrow) (example_contended, example_log) =
      ((s', example_log), Inl catalogConflict)
    \<and> entryView example_writer (tag ''A'') example_contended = Some example_table
    \<and> entryView example_writer (tag ''A'') s' = None"
proof -
  let ?other = "(example_entry ''B'')\<lparr>ceAddr := 1, ceTimestamp := START_TRANSACTION_ID + 2\<rparr>"
  let ?b = "[?other, DummyCatalogEntry 2 (tag ''B'') 4]"
  note differ = example_names and at = example_contended_at
  have "getEntryNoLock example_writer (tag ''A'') example_contended = Inr example_table"
    by (auto simp: getEntryNoLock_def validateExistNoLock_def containsEntryNoLock_def at example_table_def example_entry_def)
  moreover have "entryView example_writer (tag ''B'') example_contended = None" "checkWWConflict example_writer ?other"
    using differ by (simp_all add: entryView_def at example_writer_def Transaction_new_def START_TRANSACTION_ID_def example_entry_def
        DummyCatalogEntry_def word_le_nat_alt checkWWConflict_def)
  moreover have "ceType example_table = NODE_TABLE_ENTRY" by (simp add: example_table_def example_entry_def)
  moreover obtain d where "ceData example_table = TableData d" by (simp add: example_table_def example_entry_def)
  moreover have "\<not> caseInsensitiveEquals (tag ''B'') (tag ''A'')" using differ by (simp add: caseInsensitiveEquals_iff)
  moreover have "nm_at (entries example_contended) (tag ''B'') = Some ?b" using at [of "tag ''B''"] differ by simp
  ultimately show ?thesis
    using failed_rename_leaves_tombstone [OF example_contended_inv] by blast
qed

section \<open>Storing the catalog\<close>

text \<open>The committed entry of a name that a checkpoint stores.\<close>

definition committedView :: "u8 list \<Rightarrow> ('t, 'x, 'o) catalog_set \<Rightarrow> ('t, 'x, 'o) catalog_entry option" where
  "committedView name s =
     (case nm_at (entries s) name of
        None \<Rightarrow> None
      | Some c \<Rightarrow>
          if isTransient (ceType (hd c)) then None
          else case getCommittedEntryNoLock c of Inl _ \<Rightarrow> None | Inr e \<Rightarrow> if ceDeleted e then None else Some e)"

lemma getCommitted_ok:
  assumes "c \<noteq> []" "ceTimestamp (last c) = 0"
  shows "\<exists>e \<in> set c. getCommittedEntryNoLock c = Inr e"
  using assms
proof (induction c)
  case (Cons e c)
  have "0 < START_TRANSACTION_ID" by (simp add: START_TRANSACTION_ID_def word_less_nat_alt)
  then show ?case using Cons by (cases c) auto
qed simp

definition stored_chain :: "('t, 'x, 'o) chain \<Rightarrow> ('t, 'x, 'o) catalog_entry option" where
  "stored_chain c = (if isTransient (ceType (hd c)) then None
     else case getCommittedEntryNoLock c of Inl _ \<Rightarrow> None | Inr e \<Rightarrow> if ceDeleted e then None else Some e)"

lemma committedView_stored: "committedView n s = Option.bind (nm_at (entries s) n) stored_chain"
  by (simp add: committedView_def stored_chain_def split: option.split)

fun storedEntries :: "('t, 'x, 'o) chain name_map \<Rightarrow> ('t, 'x, 'o) catalog_entry list" where
  "storedEntries [] = []"
| "storedEntries ((_, c) # m) = (case stored_chain c of None \<Rightarrow> storedEntries m | Some e \<Rightarrow> e # storedEntries m)"

lemma storedEntries_set: "e \<in> set (storedEntries m) \<longleftrightarrow> (\<exists>(_, c) \<in> set m. stored_chain c = Some e)"
  by (induction m rule: storedEntries.induct) (auto split: option.splits)

lemma storedEntries_length: "length (storedEntries m) \<le> length m"
  by (induction m rule: storedEntries.induct) (auto split: option.splits)

lemma entriesToSerialize_list:
  assumes "\<And>k c. (k, c) \<in> set m \<Longrightarrow> c \<noteq> [] \<and> ceTimestamp (last c) = 0"
  shows "foldR (\<lambda>(_, chain) es.
         bindR (nthR chain 0) (\<lambda>head.
         if isTransient (ceType head) then Inr es
         else bindR (getCommittedEntryNoLock chain) (\<lambda>e. Inr (if ceDeleted e then es else es @ [e])))) m es =
    Inr (es @ storedEntries m)"
  using assms
proof (induction m arbitrary: es)
  case Nil
  then show ?case by simp
next
  case (Cons x m)
  obtain k c where x: "x = (k, c)" by (cases x)
  have c: "c \<noteq> []" "ceTimestamp (last c) = 0" using Cons.prems [of k c] x by simp_all
  obtain e where e: "getCommittedEntryNoLock c = Inr e" using getCommitted_ok [OF c] by blast
  have IH: "foldR (\<lambda>(_, chain) es.
         bindR (nthR chain 0) (\<lambda>head.
         if isTransient (ceType head) then Inr es
         else bindR (getCommittedEntryNoLock chain) (\<lambda>e. Inr (if ceDeleted e then es else es @ [e])))) m es =
    Inr (es @ storedEntries m)" for es
    by (rule Cons.IH) (use Cons.prems in auto)
  show ?case
    using c(1) e x IH by (simp add: hd_conv_nth stored_chain_def [of c])
qed

definition restored :: "('t, 'x, 'o) catalog_entry \<Rightarrow> ('t, 'x, 'o) catalog_entry \<Rightarrow> bool" where
  "restored e e' \<longleftrightarrow> e' = e\<lparr>ceAddr := ceAddr e', ceTimestamp := 0, ceData := data_rebuilt (ceData e)\<rparr>"

lemma deserialize_into:
  assumes sT: "serializable sT dT vT" and sX: "serializable sX dX vX" and sO: "\<And>type. serializable sO (dO type) vO"
    and es: "\<forall>e \<in> set es. entry_storable vT vX vO e" "distinct (map (lowerName \<circ> ceName) es)"
    and bytes: "map (entry_serialize sT sX sO dbg) es = map Inr bss" and none: "\<forall>e \<in> set es. nm_at (entries s) (ceName e) = None"
  shows "\<exists>s'. deserializeEntriesInto dT dX dO dbg (length es) s (concat bss @ rest) = Inr (s', rest) \<and> nextOID s' = nextOID s
    \<and> (\<forall>n. case find (\<lambda>e. lowerName (ceName e) = lowerName n) es of
         None \<Rightarrow> nm_at (entries s') n = nm_at (entries s) n
       | Some e \<Rightarrow> (\<exists>e'. nm_at (entries s') n = Some [e'] \<and> restored e e'))"
  using es bytes none
proof (induction es arbitrary: s bss)
  case Nil
  then show ?case by simp
next
  case (Cons e es)
  obtain b bss' where b: "bss = b # bss'" "entry_serialize sT sX sO dbg e = Inr b" "map (entry_serialize sT sX sO dbg) es = map Inr bss'"
    using Cons.prems(3) by (cases bss) auto
  let ?e = "e\<lparr>ceAddr := nextAddr s, ceTimestamp := 0, ceData := data_rebuilt (ceData e)\<rparr>"
  have "entry_storable vT vX vO e" using Cons.prems(1) by simp
  from entry_round_trip_ok [OF sT sX sO this, where dbg = dbg and addr = "nextAddr s"] b(2)
  have read: "CatalogEntry_deserialize dT dX dO dbg (nextAddr s) (b @ rest) = Inr (?e, rest)" for rest by auto
  let ?s = "emplaceNoLock [?e] (s\<lparr>nextAddr := nextAddr s + 1\<rparr>)"
  have s1: "entries ?s = nm_emplace (entries s) (ceName e) [?e]" "nextOID ?s = nextOID s"
    using Cons.prems(4) by (simp_all add: emplaceNoLock_def Let_def)
  have at: "nm_at (entries ?s) n = (if lowerName n = lowerName (ceName e) then Some [?e] else nm_at (entries s) n)" for n
    using Cons.prems(4) unfolding s1 by (auto simp: nm_at_emplace caseInsensitiveEquals_iff)
  have "\<forall>x \<in> set es. nm_at (entries ?s) (ceName x) = None"
  proof
    fix x assume x: "x \<in> set es"
    then have "lowerName (ceName x) \<noteq> lowerName (ceName e)" using Cons.prems(2) by (auto simp: image_iff)
    then show "nm_at (entries ?s) (ceName x) = None" using at [of "ceName x"] Cons.prems(4) x by simp
  qed
  then obtain s' where s': "deserializeEntriesInto dT dX dO dbg (length es) ?s (concat bss' @ rest) = Inr (s', rest)"
      "nextOID s' = nextOID ?s"
      "\<And>n. case find (\<lambda>e. lowerName (ceName e) = lowerName n) es of
         None \<Rightarrow> nm_at (entries s') n = nm_at (entries ?s) n
       | Some e \<Rightarrow> (\<exists>e'. nm_at (entries s') n = Some [e'] \<and> restored e e')"
    using Cons.IH [of bss' ?s] Cons.prems(1,2) b(3) by auto
  have "case find (\<lambda>e. lowerName (ceName e) = lowerName n) (e # es) of
         None \<Rightarrow> nm_at (entries s') n = nm_at (entries s) n
       | Some e \<Rightarrow> (\<exists>e'. nm_at (entries s') n = Some [e'] \<and> restored e e')" for n
  proof (cases "lowerName (ceName e) = lowerName n")
    case True
    then have "find (\<lambda>x. lowerName (ceName x) = lowerName n) es = None"
      using Cons.prems(2) by (force simp: find_None_iff)
    then show ?thesis using s'(3) [of n] at [of n] True by (simp add: restored_def)
  next
    case False
    then show ?thesis using s'(3) [of n] at [of n] by (auto split: option.splits)
  qed
  then show ?case using s'(1,2) s1(2) b(1) read by (intro exI [of _ s']) simp
qed

lemma serialize_entries:
  assumes "map (entry_serialize sT sX sO dbg) es = map Inr bss"
  shows "foldR (\<lambda>e bs. bindR (entry_serialize sT sX sO dbg e) (\<lambda>b. Inr (bs @ b))) es acc = Inr (acc @ concat bss)"
  using assms
proof (induction es arbitrary: bss acc)
  case (Cons e es)
  then show ?case by (cases bss) auto
qed simp

lemma find_stored:
  assumes "nm_ok m" "\<And>k c. (k, c) \<in> set m \<Longrightarrow> chain_ok k c"
  shows "distinct (map (lowerName \<circ> ceName) (storedEntries m))
    \<and> (\<lambda>e. lowerName (ceName e)) ` set (storedEntries m) \<subseteq> (lowerName \<circ> fst) ` set m
    \<and> find (\<lambda>e. lowerName (ceName e) = lowerName n) (storedEntries m) = Option.bind (nm_at m n) stored_chain"
  using assms
proof (induction m)
  case Nil
  then show ?case by (simp add: nm_at_def)
next
  case (Cons x m)
  obtain k c where x: "x = (k, c)" by (cases x)
  let ?es = "storedEntries m"
  have m: "nm_ok m" "lowerName k \<notin> (lowerName \<circ> fst) ` set m" using Cons.prems(1) x by (simp_all add: nm_ok_def)
  have IH: "distinct (map (lowerName \<circ> ceName) ?es)" "(\<lambda>e. lowerName (ceName e)) ` set ?es \<subseteq> (lowerName \<circ> fst) ` set m"
      "find (\<lambda>e. lowerName (ceName e) = lowerName n) ?es = Option.bind (nm_at m n) stored_chain"
    using Cons.IH [OF m(1)] Cons.prems(2) by (simp_all only: list.set_intros(2))
  have name: "lowerName (ceName e) = lowerName k" if "stored_chain c = Some e" for e
  proof -
    have c: "chain_ok k c" using Cons.prems(2) [of k c] x by simp
    then obtain e' where "e' \<in> set c" "getCommittedEntryNoLock c = Inr e'"
      using getCommitted_ok [of c] by (auto simp: chain_ok_def)
    then show ?thesis using that c by (auto simp: stored_chain_def chain_ok_def split: if_splits)
  qed
  have at: "nm_at (x # m) n = (if lowerName k = lowerName n then Some c else nm_at m n)"
    unfolding x by (simp add: nm_at_map_of)
  have none: "find (\<lambda>e. lowerName (ceName e) = lowerName n) ?es = None" if "lowerName k = lowerName n"
  proof -
    have "\<not> lowerName (ceName e) = lowerName n" if "e \<in> set ?es" for e
      using IH(2) m(2) that \<open>lowerName k = lowerName n\<close> by (metis (no_types, lifting) comp_apply image_cong image_eqI subsetD)
    then show ?thesis by (auto simp: find_None_iff)
  qed
  show ?case
  proof (cases "stored_chain c")
    case None
    then show ?thesis using IH none at x by (auto simp: comp_def)
  next
    case (Some e)
    then have "storedEntries (x # m) = e # ?es" by (simp add: x)
    moreover have "lowerName k \<notin> (lowerName \<circ> ceName) ` set ?es"
      using IH(2) m(2) unfolding comp_def by (rule contra_subsetD)
    ultimately show ?thesis
      using IH at x name [OF Some] Some by (intro conjI) (auto simp: comp_def)
  qed
qed

text \<open>
  C20. Storing the catalog and loading it again keeps exactly what has been committed: for a
  well-formed catalog set whose committed entries are within the format's limits,
  \<^verbatim>\<open>serialize\<close> succeeds, \<^verbatim>\<open>deserialize\<close> reads back exactly the bytes written, and in the loaded
  set a name has an entry, as the only version and visible to everyone, if and only if it had a
  committed, undeleted entry of a persistent kind; that entry has the same type, OID and contents
  (its property collection re-indexed). Uncommitted versions and dropped names are not stored.
\<close>

theorem catalog_storage_round_trip:
  assumes sT: "serializable sT dT vT" and sX: "serializable sX dX vX" and sO: "\<And>type. serializable sO (dO type) vO"
    and inv: "cs_inv s" and fits: "length (entries s) < 2 ^ 64"
    and ok: "\<forall>n e. committedView n s = Some e \<longrightarrow> entry_storable vT vX vO e"
  shows "\<exists>bs. CatalogSet_serialize sT sX sO dbg s = Inr bs \<and>
    (\<exists>s'. CatalogSet_deserialize dT dX dO dbg (bs @ rest) = Inr (s', rest) \<and> nextOID s' = nextOID s
      \<and> (\<forall>n. case committedView n s of
           None \<Rightarrow> nm_at (entries s') n = None
         | Some e \<Rightarrow> (\<exists>e'. nm_at (entries s') n = Some [e'] \<and> restored e e')))"
proof -
  let ?es = "storedEntries (entries s)"
  have nm: "nm_at (entries s) k = Some c" if "(k, c) \<in> set (entries s)" for k c
    using cs_inv_ok [OF inv] that by (force simp: nm_at_map_of nm_ok_def comp_def case_prod_unfold intro!: map_of_is_SomeI)
  have chain: "chain_ok k c" if "(k, c) \<in> set (entries s)" for k c
    using cs_inv_chain [OF inv nm [OF that]] .
  have es: "entriesToSerialize s = Inr ?es"
    unfolding entriesToSerialize_def by (subst entriesToSerialize_list) (use chain in \<open>auto simp: chain_ok_def\<close>)
  have found: "distinct (map (lowerName \<circ> ceName) ?es)"
      "find (\<lambda>e. lowerName (ceName e) = lowerName n) ?es = committedView n s" for n
    using find_stored [OF cs_inv_ok [OF inv] chain] by (simp_all add: committedView_stored)
  have storable: "\<forall>e \<in> set ?es. entry_storable vT vX vO e"
  proof
    fix e assume "e \<in> set ?es"
    then obtain k c where "(k, c) \<in> set (entries s)" "stored_chain c = Some e"
      by (auto simp: storedEntries_set)
    then have "committedView k s = Some e" using nm by (simp add: committedView_stored)
    then show "entry_storable vT vX vO e" using ok by blast
  qed
  define ser where "ser e = (case entry_serialize sT sX sO dbg e of Inr b \<Rightarrow> b | Inl _ \<Rightarrow> [])" for e
  have bytes: "map (entry_serialize sT sX sO dbg) ?es = map Inr (map ser ?es)"
  proof -
    have "entry_serialize sT sX sO dbg e = Inr (ser e)" if "e \<in> set ?es" for e
    proof -
      have "entry_storable vT vX vO e" using storable that by blast
      from entry_round_trip_ok [where dO = dO, OF sT sX sO this, where dbg = dbg and addr = 0]
      show ?thesis by (auto simp: ser_def)
    qed
    then show ?thesis by simp
  qed
  have size: "unat (of_nat (length ?es) :: u64) = length ?es"
    using fits storedEntries_length [of "entries s"] by (simp add: unat_of_nat_64)
  define s0 :: "('a, 'b, 'c) catalog_set" where "s0 = (CatalogSet_new False)\<lparr>nextOID := nextOID s\<rparr>"
  have s0: "nm_at (entries s0) n = None" "nextOID s0 = nextOID s" for n
    by (simp_all add: s0_def CatalogSet_new_def nm_at_def)
  obtain s' where s': "deserializeEntriesInto dT dX dO dbg (length ?es) s0
      (concat (map ser ?es) @ rest) = Inr (s', rest)" "nextOID s' = nextOID s"
      "\<And>n. case find (\<lambda>e. lowerName (ceName e) = lowerName n) ?es of
         None \<Rightarrow> nm_at (entries s') n = None
       | Some e \<Rightarrow> (\<exists>e'. nm_at (entries s') n = Some [e'] \<and> restored e e')"
    using deserialize_into [where dO = dO, OF sT sX sO storable found(1) bytes,
        where s = s0 and rest = rest] unfolding s0 by blast
  show ?thesis
    unfolding CatalogSet_serialize_def CatalogSet_deserialize_def es bindR_simps serialize_entries [OF bytes]
    using s' size unfolding found(2) s0_def by (simp add: field_round_trips)
qed

lemma example_contended_view:
  "committedView n example_contended = (if lowerName n = lowerName (tag ''A'') then Some example_table else None)"
  by (auto simp: committedView_def example_contended_at example_table_def example_entry_def DummyCatalogEntry_def isTransient_def
      START_TRANSACTION_ID_def word_less_nat_alt)

theorem catalog_storage_round_trip_witness:
  "\<exists>bs s' e. CatalogSet_serialize serializeU8 serializeU8 serializeU8 True example_contended = Inr bs
    \<and> CatalogSet_deserialize deserializeU8 deserializeU8 (\<lambda>_. deserializeU8) True (bs @ [7]) = Inr (s', [7])
    \<and> nm_at (entries s') (tag ''A'') = Some [e] \<and> restored example_table e \<and> nm_at (entries s') (tag ''B'') = None"
proof -
  have storable: "\<forall>n e. committedView n example_contended = Some e \<longrightarrow> entry_storable (\<lambda>_. True) (\<lambda>_. True) (\<lambda>_. True) e"
    using pc_inv_new by (auto simp: example_contended_view example_table_def example_entry_def entry_storable_def tag_def
        pc_storable_def PropertyDefinitionCollection_new_def split: if_splits)
  have "length (entries example_contended) < 2 ^ 64" by (simp add: example_contended_def)
  from catalog_storage_round_trip [where dO = "\<lambda>_. deserializeU8", OF ser_u8.serializable_axioms ser_u8.serializable_axioms
      ser_u8.serializable_axioms example_contended_inv this storable, where dbg = True and rest = "[7]"]
  obtain bs s' where bs: "CatalogSet_serialize serializeU8 serializeU8 serializeU8 True example_contended = Inr bs"
      "CatalogSet_deserialize deserializeU8 deserializeU8 (\<lambda>_. deserializeU8) True (bs @ [7]) = Inr (s', [7])"
      "\<forall>n. case committedView n example_contended of
           None \<Rightarrow> nm_at (entries s') n = None
         | Some e \<Rightarrow> (\<exists>e'. nm_at (entries s') n = Some [e'] \<and> restored e e')"
    by blast
  show ?thesis
    using bs(1,2) bs(3) [rule_format, of "tag ''A''"] bs(3) [rule_format, of "tag ''B''"] example_names
    by (auto simp: example_contended_view)
qed

end
