(* ===== verification/Page_State.thy ===== *)
theory Page_State
  imports Prelude
begin

text \<open>
  The state of a page in the buffer manager,
  \<^verbatim>\<open>src/src/include/storage/buffer_manager/page_state.h\<close>: one atomic 64-bit word whose upper
  byte is the state (unlocked, locked, marked or evicted) and whose lower 56 bits are the version,
  with the dirty flag in the highest of them. An operation on the word is a function from the word
  it finds to the word it leaves; \<^verbatim>\<open>compare_exchange_strong\<close> also tells whether it
  stored. The lemmas read the three fields of the word an operation leaves.
\<close>

unbundle bit_operations_syntax

section \<open>The word and its operations\<close>

definition DIRTY_MASK :: u64 where
  "DIRTY_MASK = 0x0080000000000000"

definition STATE_MASK :: u64 where
  "STATE_MASK = 0xFF00000000000000"

definition VERSION_MASK :: u64 where
  "VERSION_MASK = 0x00FFFFFFFFFFFFFF"

definition NUM_BITS_TO_SHIFT_FOR_STATE :: nat where
  "NUM_BITS_TO_SHIFT_FOR_STATE = 56"

definition UNLOCKED :: u64 where
  "UNLOCKED = 0"

definition LOCKED :: u64 where
  "LOCKED = 1"

definition MARKED :: u64 where
  "MARKED = 2"

definition EVICTED :: u64 where
  "EVICTED = 3"

definition PageState_new :: u64 where
  "PageState_new = push_bit NUM_BITS_TO_SHIFT_FOR_STATE EVICTED"

definition getState :: "u64 \<Rightarrow> u64" where
  "getState stateAndVersion = drop_bit NUM_BITS_TO_SHIFT_FOR_STATE (stateAndVersion AND STATE_MASK)"

definition getVersion :: "u64 \<Rightarrow> u64" where
  "getVersion stateAndVersion = stateAndVersion AND VERSION_MASK"

definition updateStateWithSameVersion :: "u64 \<Rightarrow> u64 \<Rightarrow> u64" where
  "updateStateWithSameVersion oldStateAndVersion newState =
     drop_bit 8 (push_bit 8 oldStateAndVersion) OR push_bit NUM_BITS_TO_SHIFT_FOR_STATE newState"

definition updateStateAndIncrementVersion :: "u64 \<Rightarrow> u64 \<Rightarrow> u64" where
  "updateStateAndIncrementVersion oldStateAndVersion newState =
     (drop_bit 8 (push_bit 8 oldStateAndVersion) + 1) OR push_bit NUM_BITS_TO_SHIFT_FOR_STATE newState"

definition compare_exchange_strong :: "u64 \<Rightarrow> u64 \<Rightarrow> u64 \<Rightarrow> u64 \<times> bool" where
  "compare_exchange_strong expected desired current =
     (if current = expected then (desired, True) else (current, False))"

definition tryLock :: "u64 \<Rightarrow> u64 \<Rightarrow> u64 \<times> bool" where
  "tryLock oldStateAndVersion =
     compare_exchange_strong oldStateAndVersion (updateStateWithSameVersion oldStateAndVersion LOCKED)"

text \<open>
  \<^verbatim>\<open>spinLock\<close> tries the same expected word until it succeeds. \<open>memory i\<close> is the word that
  attempt \<open>i\<close> finds, as the other threads leave it; the loop may run forever.
\<close>

partial_function (option) spinLock :: "u64 \<Rightarrow> (nat \<Rightarrow> u64) \<Rightarrow> nat \<Rightarrow> (nat \<times> u64) option" where
  "spinLock oldStateAndVersion memory i =
     (if snd (tryLock oldStateAndVersion (memory i)) then Some (i, fst (tryLock oldStateAndVersion (memory i)))
      else spinLock oldStateAndVersion memory (Suc i))"

definition unlock :: "u64 \<Rightarrow> u64" where
  "unlock stateAndVersion = updateStateAndIncrementVersion stateAndVersion UNLOCKED"

definition unlockUnchanged :: "u64 \<Rightarrow> u64" where
  "unlockUnchanged stateAndVersion = updateStateWithSameVersion stateAndVersion UNLOCKED"

definition tryClearMark :: "u64 \<Rightarrow> u64 \<Rightarrow> (u64 \<times> bool) res" where
  "tryClearMark oldStateAndVersion current =
     bindR (assertR (getState oldStateAndVersion = MARKED)) (\<lambda>_.
     Inr (compare_exchange_strong oldStateAndVersion (updateStateWithSameVersion oldStateAndVersion UNLOCKED) current))"

definition tryMark :: "u64 \<Rightarrow> u64 \<Rightarrow> u64 \<times> bool" where
  "tryMark oldStateAndVersion =
     compare_exchange_strong oldStateAndVersion (updateStateWithSameVersion oldStateAndVersion MARKED)"

definition setDirty :: "u64 \<Rightarrow> u64 res" where
  "setDirty stateAndVersion =
     bindR (assertR (getState stateAndVersion = LOCKED)) (\<lambda>_. Inr (stateAndVersion OR DIRTY_MASK))"

definition clearDirtyWithoutLock :: "u64 \<Rightarrow> u64" where
  "clearDirtyWithoutLock stateAndVersion = stateAndVersion AND NOT DIRTY_MASK"

definition clearDirty :: "u64 \<Rightarrow> u64 res" where
  "clearDirty stateAndVersion =
     bindR (assertR (getState stateAndVersion = LOCKED)) (\<lambda>_. Inr (stateAndVersion AND NOT DIRTY_MASK))"

definition isDirty :: "u64 \<Rightarrow> bool" where
  "isDirty stateAndVersion \<longleftrightarrow> stateAndVersion AND DIRTY_MASK \<noteq> 0"

definition resetToEvicted :: "u64 \<Rightarrow> u64" where
  "resetToEvicted stateAndVersion = push_bit NUM_BITS_TO_SHIFT_FOR_STATE EVICTED"

section \<open>The fields of the word\<close>

text \<open>The counter below the dirty flag, which unlocking increments.\<close>

definition pageVersion :: "u64 \<Rightarrow> nat" where
  "pageVersion w = unat (take_bit 55 w)"

lemma unat_low: "unat (take_bit n w) = unat w mod 2 ^ n" for w :: u64
  unfolding unsigned_take_bit_eq by (rule take_bit_eq_mod)

lemma pageVersion_mod: "pageVersion w = unat w mod 2 ^ 55"
  unfolding pageVersion_def by (rule unat_low)

lemma mask_simps:
  "DIRTY_MASK = push_bit 55 1" "STATE_MASK = NOT (mask 56)" "VERSION_MASK = mask 56"
  by (simp_all add: DIRTY_MASK_def STATE_MASK_def VERSION_MASK_def mask_eq_exp_minus_1)

lemma getState_drop: "getState w = drop_bit 56 w"
  unfolding getState_def NUM_BITS_TO_SHIFT_FOR_STATE_def mask_simps
  by (rule bit_word_eqI) (auto simp: bit_simps dest: bit_imp_le_length)

lemma isDirty_bit: "isDirty w \<longleftrightarrow> bit w 55"
  unfolding isDirty_def mask_simps by (simp add: bit_iff_and_push_bit_not_eq_0)

lemma isDirty_odd: "isDirty w \<longleftrightarrow> odd (unat w div 2 ^ 55)"
proof -
  have "bit w 55 \<longleftrightarrow> bit (unat w) 55" by (simp add: bit_unsigned_iff)
  then show ?thesis by (simp only: isDirty_bit bit_iff_odd [of "unat w"])
qed

lemma low_bits: "drop_bit 8 (push_bit 8 w) = take_bit 56 w" for w :: u64
  by (rule bit_word_eqI) (auto simp: bit_simps)

lemma same_version: "updateStateWithSameVersion w s = take_bit 56 w OR push_bit 56 s"
  by (simp add: updateStateWithSameVersion_def NUM_BITS_TO_SHIFT_FOR_STATE_def low_bits)

text \<open>A word is determined by its state, its dirty flag and its version.\<close>

lemma word_fields:
  "w = w' \<longleftrightarrow> getState w = getState w' \<and> isDirty w = isDirty w' \<and> pageVersion w = pageVersion w'"
proof
  assume "getState w = getState w' \<and> isDirty w = isDirty w' \<and> pageVersion w = pageVersion w'"
  then have *: "drop_bit 56 w = drop_bit 56 w'" "bit w 55 = bit w' 55" "take_bit 55 w = take_bit 55 w'"
    by (simp_all add: getState_drop isDirty_bit pageVersion_def word_unat_eq_iff)
  show "w = w'"
  proof (rule bit_word_eqI)
    fix n :: nat
    assume "n < LENGTH(64)"
    consider "n < 55" | "n = 55" | "56 \<le> n" by linarith
    then show "bit w n = bit w' n"
    proof cases
      case 1
      then show ?thesis using arg_cong [OF *(3), of "\<lambda>x. bit x n"] by (simp add: bit_take_bit_iff)
    next
      case 3
      then show ?thesis using arg_cong [OF *(1), of "\<lambda>x. bit x (n - 56)"] by (simp add: bit_drop_bit_eq)
    qed (use *(2) in simp)
  qed
qed simp

lemma or_state:
  assumes "s < 256" "take_bit 56 v = v"
  shows "getState (v OR push_bit 56 s) = s" "isDirty (v OR push_bit 56 s) = isDirty v"
    "pageVersion (v OR push_bit 56 s) = pageVersion v"
proof -
  have s: "take_bit 8 s = s"
    using assms(1) by (simp add: word_unat_eq_iff unsigned_take_bit_eq take_bit_nat_eq_self word_less_nat_alt)
  have "drop_bit 56 (take_bit 56 v OR push_bit 56 s) = take_bit 8 s"
    by (rule bit_word_eqI) (auto simp: bit_simps)
  then show "getState (v OR push_bit 56 s) = s" using s assms(2) by (simp add: getState_drop)
  show "isDirty (v OR push_bit 56 s) = isDirty v" by (simp add: isDirty_bit bit_simps)
  have "take_bit 55 (v OR push_bit 56 s) = take_bit 55 v"
    by (rule bit_word_eqI) (auto simp: bit_simps)
  then show "pageVersion (v OR push_bit 56 s) = pageVersion v" by (simp add: pageVersion_def)
qed

lemma fields_take:
  "take_bit 56 (take_bit 56 w) = take_bit 56 w" "isDirty (take_bit 56 w) = isDirty w" "pageVersion (take_bit 56 w) = pageVersion w"
  by (simp_all add: isDirty_bit pageVersion_def bit_simps)

lemma fields_same_version:
  assumes "s < 256"
  shows "getState (updateStateWithSameVersion w s) = s"
    "isDirty (updateStateWithSameVersion w s) = isDirty w"
    "pageVersion (updateStateWithSameVersion w s) = pageVersion w"
  using or_state [OF assms fields_take(1), of w] by (simp_all add: same_version fields_take)

text \<open>Incrementing the lower part leaves the dirty flag alone until the counter is full.\<close>

lemma fields_increment:
  assumes "pageVersion w < 2 ^ 55 - 1"
  shows "take_bit 56 (take_bit 56 w + 1) = take_bit 56 w + 1" "isDirty (take_bit 56 w + 1) = isDirty w"
    "pageVersion (take_bit 56 w + 1) = Suc (pageVersion w)"
proof -
  let ?n = "unat w" and ?w = "take_bit 56 w + 1"
  have v: "?n mod 2 ^ 55 < 2 ^ 55 - 1" using assms by (simp only: pageVersion_mod)
  have split: "?n mod 2 ^ 56 = ?n mod 2 ^ 55 + 2 ^ 55 * (?n div 2 ^ 55 mod 2)"
    using mod_mult2_eq [of ?n "2 ^ 55" 2] by simp
  have less: "?n mod 2 ^ 56 + 1 < 2 ^ 56" using v split by (cases "?n div 2 ^ 55 mod 2 = 0") auto
  have unat: "unat ?w = ?n mod 2 ^ 56 + 1"
    using less unfolding unat_word_ariths unat_low by simp
  show "take_bit 56 ?w = ?w"
    using less unat by (simp add: word_unat_eq_iff unsigned_take_bit_eq take_bit_nat_eq_self)
  have sum: "?n mod 2 ^ 56 + 1 = ?n mod 2 ^ 55 + 1 + 2 ^ 55 * (?n div 2 ^ 55 mod 2)" using split by linarith
  then have "(?n mod 2 ^ 56 + 1) div 2 ^ 55 = ?n div 2 ^ 55 mod 2" unfolding sum using v by simp
  then show "isDirty ?w = isDirty w"
    unfolding isDirty_odd unat by (simp only: odd_iff_mod_2_eq_one mod_mod_trivial)
  have "(?n mod 2 ^ 56 + 1) mod 2 ^ 55 = ?n mod 2 ^ 55 + 1"
    unfolding sum using v by simp
  then show "pageVersion ?w = Suc (pageVersion w)"
    by (simp only: pageVersion_mod unat)
qed

lemma fields_unlock:
  assumes "pageVersion w < 2 ^ 55 - 1"
  shows "getState (unlock w) = UNLOCKED" "isDirty (unlock w) = isDirty w" "pageVersion (unlock w) = Suc (pageVersion w)"
proof -
  have w: "unlock w = take_bit 56 w + 1 OR push_bit 56 0"
    by (simp add: unlock_def updateStateAndIncrementVersion_def NUM_BITS_TO_SHIFT_FOR_STATE_def low_bits UNLOCKED_def)
  show "getState (unlock w) = UNLOCKED" "isDirty (unlock w) = isDirty w" "pageVersion (unlock w) = Suc (pageVersion w)"
    unfolding w using or_state [OF _ fields_increment(1) [OF assms], of 0] fields_increment(2,3) [OF assms]
    by (simp_all add: UNLOCKED_def)
qed

lemma fields_evicted: "getState PageState_new = EVICTED" "\<not> isDirty PageState_new" "pageVersion PageState_new = 0"
  by (simp_all add: getState_drop isDirty_bit pageVersion_def PageState_new_def EVICTED_def NUM_BITS_TO_SHIFT_FOR_STATE_def
      bit_simps drop_bit_eq_div take_bit_eq_mod)

lemma resetToEvicted_new: "resetToEvicted w = PageState_new"
  by (simp add: resetToEvicted_def PageState_new_def)

lemma fields_dirty:
  "getState (w OR DIRTY_MASK) = getState w" "isDirty (w OR DIRTY_MASK)" "pageVersion (w OR DIRTY_MASK) = pageVersion w"
  "getState (w AND NOT DIRTY_MASK) = getState w" "\<not> isDirty (w AND NOT DIRTY_MASK)"
  "pageVersion (w AND NOT DIRTY_MASK) = pageVersion w"
proof -
  define m :: u64 where "m = push_bit 55 1"
  have m: "bit m n \<longleftrightarrow> n = 55" for n unfolding m_def bit_push_bit_iff by (auto simp: bit_1_iff)
  have "drop_bit 56 (w OR m) = drop_bit 56 w" "take_bit 55 (w OR m) = take_bit 55 w"
    "drop_bit 56 (w AND NOT m) = drop_bit 56 w" "take_bit 55 (w AND NOT m) = take_bit 55 w"
    by (rule bit_word_eqI; auto simp: bit_simps m dest: bit_imp_le_length)+
  then show "getState (w OR DIRTY_MASK) = getState w" "isDirty (w OR DIRTY_MASK)" "pageVersion (w OR DIRTY_MASK) = pageVersion w"
    "getState (w AND NOT DIRTY_MASK) = getState w" "\<not> isDirty (w AND NOT DIRTY_MASK)"
    "pageVersion (w AND NOT DIRTY_MASK) = pageVersion w"
    unfolding getState_drop isDirty_bit pageVersion_def mask_simps m_def [symmetric] by (simp_all add: bit_simps m)
qed

lemmas state_names = UNLOCKED_def LOCKED_def MARKED_def EVICTED_def

lemma fields_lock:
  "getState (updateStateWithSameVersion w LOCKED) = LOCKED" "getState (updateStateWithSameVersion w UNLOCKED) = UNLOCKED"
  "getState (updateStateWithSameVersion w MARKED) = MARKED"
  "isDirty (updateStateWithSameVersion w LOCKED) = isDirty w" "isDirty (updateStateWithSameVersion w UNLOCKED) = isDirty w"
  "isDirty (updateStateWithSameVersion w MARKED) = isDirty w"
  "pageVersion (updateStateWithSameVersion w LOCKED) = pageVersion w" "pageVersion (updateStateWithSameVersion w UNLOCKED) = pageVersion w"
  "pageVersion (updateStateWithSameVersion w MARKED) = pageVersion w"
  by (simp_all add: fields_same_version state_names word_less_nat_alt)

lemma states_distinct:
  "UNLOCKED \<noteq> LOCKED" "UNLOCKED \<noteq> MARKED" "UNLOCKED \<noteq> EVICTED" "LOCKED \<noteq> UNLOCKED" "LOCKED \<noteq> MARKED" "LOCKED \<noteq> EVICTED"
  "MARKED \<noteq> UNLOCKED" "MARKED \<noteq> LOCKED" "MARKED \<noteq> EVICTED" "EVICTED \<noteq> UNLOCKED" "EVICTED \<noteq> LOCKED" "EVICTED \<noteq> MARKED"
  by (simp_all add: state_names)

lemmas page_fields = fields_lock fields_evicted fields_dirty states_distinct resetToEvicted_new

text \<open>
  The wait of \<^verbatim>\<open>spinLock\<close> ends only if the word becomes again exactly the one that was loaded
  before: the expected word is never loaded anew.
\<close>

lemma spinLock_Some: "spinLock old memory i = Some r \<Longrightarrow> \<exists>j \<ge> i. memory j = old"
proof (induction rule: spinLock.raw_induct [rotated, consumes 1])
  case (1 spin old memory i r)
  show ?case
  proof (cases "memory i = old")
    case False
    then have "spin old memory (Suc i) = Some r"
      using 1(2) by (simp add: tryLock_def compare_exchange_strong_def)
    from 1(1) [OF this] show ?thesis using Suc_leD by blast
  qed blast
qed

lemma spinLock_returns:
  "spinLock old memory i = (if \<exists>j \<ge> i. memory j = old
     then Some (LEAST j. i \<le> j \<and> memory j = old, updateStateWithSameVersion old LOCKED) else None)"
proof (cases "\<exists>j \<ge> i. memory j = old")
  case True
  then obtain j where "i \<le> j" "memory j = old" by blast
  then have "spinLock old memory i = Some (LEAST j. i \<le> j \<and> memory j = old, updateStateWithSameVersion old LOCKED)"
  proof (induction "j - i" arbitrary: i)
    case 0
    then have "(LEAST j. i \<le> j \<and> memory j = old) = i" by (intro Least_equality) auto
    then show ?case using 0 by (subst spinLock.simps) (simp add: tryLock_def compare_exchange_strong_def)
  next
    case (Suc n)
    show ?case
    proof (cases "memory i = old")
      case True
      then have "(LEAST j. i \<le> j \<and> memory j = old) = i" by (intro Least_equality) auto
      then show ?thesis using True by (subst spinLock.simps) (simp add: tryLock_def compare_exchange_strong_def)
    next
      case False
      have "(\<lambda>j. i \<le> j \<and> memory j = old) = (\<lambda>j. Suc i \<le> j \<and> memory j = old)"
        using False by (auto simp: Suc_le_eq le_less)
      then show ?thesis using False Suc.hyps(1) [of "Suc i"] Suc.hyps(2) Suc.prems
        by (subst spinLock.simps) (simp add: tryLock_def compare_exchange_strong_def)
    qed
  qed
  then show ?thesis using True by simp
next
  case False
  then have "spinLock old memory i \<noteq> Some r" for r using spinLock_Some [of old memory i r] by blast
  then show ?thesis using False by (cases "spinLock old memory i") auto
qed

end
