(* ===== verification/Buffer_Manager.thy ===== *)
theory Buffer_Manager
  imports Page_State Serialization
begin

text \<open>
  How threads share one page of a file through the buffer manager,
  \<^verbatim>\<open>src/src/storage/buffer_manager/buffer_manager.cpp\<close>: pinning and unpinning, optimistic
  reads without a lock, second-chance marking and eviction.

  The state is the atomic word of the page, its frame in memory, its bytes in the file and a
  program point per thread. A step is one access of one thread to the shared state, so a list of
  steps is an interleaving, at the granularity of the atomic operations of the source and, for
  optimistic reads, of single bytes. A step is \<open>None\<close> where the thread is not at that point of the
  code. Releasing a frame (\<^verbatim>\<open>madvise\<close> with \<^verbatim>\<open>MADV_DONTNEED\<close>) leaves zeros in it.
  The caller's part of the contract stated at \<^verbatim>\<open>pin\<close> is that a page whose frame was changed, or
  which was pinned without reading it, is set dirty before it is unpinned.

  The lemmas show that pinning is exclusive, that caching a page in a frame is invisible to its
  users (no write is lost by an eviction), and when a validated optimistic read is consistent.
\<close>

section \<open>Eviction candidates\<close>

definition isEvictable :: "u64 \<Rightarrow> bool" where
  "isEvictable currPageStateAndVersion \<longleftrightarrow> getState currPageStateAndVersion = MARKED"

definition isSecondChanceEvictable :: "u64 \<Rightarrow> bool" where
  "isSecondChanceEvictable currPageStateAndVersion \<longleftrightarrow> getState currPageStateAndVersion = UNLOCKED"

section \<open>Threads and the shared page\<close>

datatype program_point =
    Idle
  | PinLoaded u64
  | Claiming
  | Pinned bool
  | SeenMarked u64
  | Reading u64 "u8 list"
  | ReadDone "u8 list"
  | Marking u64
  | EvictLoaded u64
  | EvictLocked
  | Evicting
  | Flushed
  | Released
  | Abandoned

text \<open>
  Between calls a thread is \<^const>\<open>Idle\<close>, or \<^const>\<open>Abandoned\<close> if a call has returned without
  unlocking the page that it had locked. Nobody unlocks the page then, and all later calls find it locked.
\<close>

definition betweenCalls :: "program_point \<Rightarrow> bool" where
  "betweenCalls p \<longleftrightarrow> p = Idle \<or> p = Abandoned"

record page =
  stateAndVersion :: u64
  frame :: "u8 list"
  disk :: "u8 list"
  threads :: "nat \<Rightarrow> program_point"

definition goto :: "nat \<Rightarrow> program_point \<Rightarrow> page \<Rightarrow> page" where
  "goto t p s = s\<lparr>threads := (threads s)(t := p)\<rparr>"

section \<open>Pinning\<close>

definition pin_load :: "nat \<Rightarrow> page \<Rightarrow> page option" where
  "pin_load t s =
     (let currStateAndVersion = stateAndVersion s in
      if \<not> betweenCalls (threads s t) then None
      else if getState currStateAndVersion = LOCKED then Some s
      else if getState currStateAndVersion \<in> {EVICTED, UNLOCKED, MARKED} then Some (goto t (PinLoaded currStateAndVersion) s)
      else None)"

definition pin_lock :: "nat \<Rightarrow> page \<Rightarrow> page option" where
  "pin_lock t s =
     (case threads s t of
        PinLoaded currStateAndVersion \<Rightarrow>
          (case tryLock currStateAndVersion (stateAndVersion s) of (w, locked) \<Rightarrow>
             Some (goto t (if \<not> locked then Idle else if getState currStateAndVersion = EVICTED then Claiming else Pinned False)
               (s\<lparr>stateAndVersion := w\<rparr>)))
      | _ \<Rightarrow> None)"

text \<open>
  \<^verbatim>\<open>claimAFrame\<close> and what \<^verbatim>\<open>pin\<close> does with its answer: \<open>reserved\<close> tells whether
  the memory could be reserved, \<open>readPage\<close> is the \<^verbatim>\<open>PageReadPolicy\<close>, \<open>inserted\<close> tells
  whether the eviction queue had room for the page. If it has none, \<^verbatim>\<open>pin\<close> throws and leaves
  the page locked.
\<close>

definition pin_claimAFrame :: "nat \<Rightarrow> bool \<Rightarrow> bool \<Rightarrow> bool \<Rightarrow> page \<Rightarrow> page option" where
  "pin_claimAFrame t reserved readPage inserted s =
     (if threads s t \<noteq> Claiming then None
      else if \<not> reserved then Some (goto t Idle (s\<lparr>stateAndVersion := resetToEvicted (stateAndVersion s)\<rparr>))
      else case clearDirty (stateAndVersion s) of
        Inl _ \<Rightarrow> None
      | Inr w \<Rightarrow> Some (goto t (if inserted then Pinned (\<not> readPage) else Abandoned)
          (s\<lparr>stateAndVersion := w, frame := (if readPage then disk s else frame s)\<rparr>)))"

definition setLockedPageDirty :: "nat \<Rightarrow> page \<Rightarrow> page option" where
  "setLockedPageDirty t s =
     (case (threads s t, setDirty (stateAndVersion s)) of
        (Pinned _, Inr w) \<Rightarrow> Some (s\<lparr>stateAndVersion := w\<rparr>)
      | _ \<Rightarrow> None)"

text \<open>The caller of \<^verbatim>\<open>pin\<close> writes a byte of the frame.\<close>

definition write_byte :: "nat \<Rightarrow> nat \<Rightarrow> u8 \<Rightarrow> page \<Rightarrow> page option" where
  "write_byte t i b s =
     (case threads s t of
        Pinned _ \<Rightarrow> if i < length (frame s) then Some (goto t (Pinned True) (s\<lparr>frame := (frame s)[i := b]\<rparr>)) else None
      | _ \<Rightarrow> None)"

definition unpin :: "nat \<Rightarrow> page \<Rightarrow> page option" where
  "unpin t s =
     (case threads s t of
        Pinned written \<Rightarrow>
          if written \<longrightarrow> isDirty (stateAndVersion s) then Some (goto t Idle (s\<lparr>stateAndVersion := unlock (stateAndVersion s)\<rparr>))
          else None
      | _ \<Rightarrow> None)"

section \<open>Optimistic reads\<close>

text \<open>
  An evicted page is pinned and unpinned first, a locked one is waited for: both are a retry.
\<close>

definition read_load :: "nat \<Rightarrow> page \<Rightarrow> page option" where
  "read_load t s =
     (let currStateAndVersion = stateAndVersion s in
      if \<not> betweenCalls (threads s t) then None
      else if getState currStateAndVersion = UNLOCKED then Some (goto t (Reading currStateAndVersion []) s)
      else if getState currStateAndVersion = MARKED then Some (goto t (SeenMarked currStateAndVersion) s)
      else Some s)"

definition read_clearMark :: "nat \<Rightarrow> page \<Rightarrow> page option" where
  "read_clearMark t s =
     (case threads s t of
        SeenMarked currStateAndVersion \<Rightarrow>
          (case tryClearMark currStateAndVersion (stateAndVersion s) of
             Inl _ \<Rightarrow> None
           | Inr (w, _) \<Rightarrow> Some (goto t Idle (s\<lparr>stateAndVersion := w\<rparr>)))
      | _ \<Rightarrow> None)"

definition read_byte :: "nat \<Rightarrow> page \<Rightarrow> page option" where
  "read_byte t s =
     (case threads s t of
        Reading v bs \<Rightarrow>
          if length bs < length (frame s) then Some (goto t (Reading v (bs @ [frame s ! length bs])) s) else None
      | _ \<Rightarrow> None)"

definition read_validate :: "nat \<Rightarrow> page \<Rightarrow> page option" where
  "read_validate t s =
     (case threads s t of
        Reading v bs \<Rightarrow>
          if length bs = length (frame s) then Some (goto t (if stateAndVersion s = v then ReadDone bs else Idle) s) else None
      | _ \<Rightarrow> None)"

section \<open>Marking and eviction\<close>

definition evictPages_load :: "nat \<Rightarrow> page \<Rightarrow> page option" where
  "evictPages_load t s =
     (let pageStateAndVersion = stateAndVersion s in
      if \<not> betweenCalls (threads s t) then None
      else if \<not> isEvictable pageStateAndVersion \<and> isSecondChanceEvictable pageStateAndVersion
        then Some (goto t (Marking pageStateAndVersion) s)
      else Some s)"

definition evictPages_mark :: "nat \<Rightarrow> page \<Rightarrow> page option" where
  "evictPages_mark t s =
     (case threads s t of
        Marking v \<Rightarrow> Some (goto t Idle (s\<lparr>stateAndVersion := fst (tryMark v (stateAndVersion s))\<rparr>))
      | _ \<Rightarrow> None)"

definition evict_load :: "nat \<Rightarrow> page \<Rightarrow> page option" where
  "evict_load t s =
     (let currStateAndVersion = stateAndVersion s in
      if \<not> betweenCalls (threads s t) then None
      else Some (if isEvictable currStateAndVersion then goto t (EvictLoaded currStateAndVersion) s else s))"

definition evict_lock :: "nat \<Rightarrow> page \<Rightarrow> page option" where
  "evict_lock t s =
     (case threads s t of
        EvictLoaded v \<Rightarrow>
          (case tryLock v (stateAndVersion s) of (w, locked) \<Rightarrow>
             Some (goto t (if locked then EvictLocked else Idle) (s\<lparr>stateAndVersion := w\<rparr>)))
      | _ \<Rightarrow> None)"

text \<open>
  \<open>changed\<close> tells whether another thread has evicted the candidate in the meantime,
  \<open>inMemory\<close> is \<^verbatim>\<open>isInMemoryMode()\<close> of the file. For a file in memory
  \<^verbatim>\<open>tryEvictPage\<close> returns and leaves the page locked.
\<close>

definition evict_recheck :: "nat \<Rightarrow> bool \<Rightarrow> bool \<Rightarrow> page \<Rightarrow> page option" where
  "evict_recheck t changed inMemory s =
     (if threads s t \<noteq> EvictLocked then None
      else if changed then Some (goto t Idle (s\<lparr>stateAndVersion := unlockUnchanged (stateAndVersion s)\<rparr>))
      else if inMemory then Some (goto t Abandoned s)
      else Some (goto t Evicting s))"

definition flushPageIfDirtyWithoutLock :: "nat \<Rightarrow> page \<Rightarrow> page option" where
  "flushPageIfDirtyWithoutLock t s =
     (if threads s t \<noteq> Evicting then None
      else if isDirty (stateAndVersion s)
        then Some (goto t Flushed (s\<lparr>stateAndVersion := clearDirtyWithoutLock (stateAndVersion s), disk := frame s\<rparr>))
      else Some (goto t Flushed s))"

definition releaseFrameForPage :: "nat \<Rightarrow> page \<Rightarrow> page option" where
  "releaseFrameForPage t s =
     (if threads s t \<noteq> Flushed then None
      else Some (goto t Released (s\<lparr>frame := replicate (length (frame s)) 0\<rparr>)))"

definition evict_reset :: "nat \<Rightarrow> page \<Rightarrow> page option" where
  "evict_reset t s =
     (if threads s t \<noteq> Released then None
      else Some (goto t Idle (s\<lparr>stateAndVersion := resetToEvicted (stateAndVersion s)\<rparr>)))"

section \<open>Interleavings\<close>

datatype action =
    PinLoad | PinLock | ClaimFrame bool bool bool | SetDirty | WriteByte nat u8 | Unpin
  | ReadLoad | ClearMark | ReadByte | Validate
  | MarkLoad | Mark | EvictLoad | EvictLock | Recheck bool bool | Flush | Release | Reset

fun page_step :: "nat \<Rightarrow> action \<Rightarrow> page \<Rightarrow> page option" where
  "page_step t PinLoad s = pin_load t s"
| "page_step t PinLock s = pin_lock t s"
| "page_step t (ClaimFrame reserved readPage inserted) s = pin_claimAFrame t reserved readPage inserted s"
| "page_step t SetDirty s = setLockedPageDirty t s"
| "page_step t (WriteByte i b) s = write_byte t i b s"
| "page_step t Unpin s = unpin t s"
| "page_step t ReadLoad s = read_load t s"
| "page_step t ClearMark s = read_clearMark t s"
| "page_step t ReadByte s = read_byte t s"
| "page_step t Validate s = read_validate t s"
| "page_step t MarkLoad s = evictPages_load t s"
| "page_step t Mark s = evictPages_mark t s"
| "page_step t EvictLoad s = evict_load t s"
| "page_step t EvictLock s = evict_lock t s"
| "page_step t (Recheck changed inMemory) s = evict_recheck t changed inMemory s"
| "page_step t Flush s = flushPageIfDirtyWithoutLock t s"
| "page_step t Release s = releaseFrameForPage t s"
| "page_step t Reset s = evict_reset t s"

fun page_run :: "(nat \<times> action) list \<Rightarrow> page \<Rightarrow> page option" where
  "page_run [] s = Some s"
| "page_run ((t, a) # as) s = (case page_step t a s of None \<Rightarrow> None | Some s' \<Rightarrow> page_run as s')"

text \<open>A page of a file that has just been opened.\<close>

definition openPage :: "u8 list \<Rightarrow> page" where
  "openPage bytes = \<lparr>stateAndVersion = PageState_new, frame = replicate (length bytes) 0, disk = bytes, threads = (\<lambda>_. Idle)\<rparr>"

section \<open>Ownership\<close>

text \<open>The points at which a thread holds the lock of the page, or has left it locked.\<close>

fun owns :: "program_point \<Rightarrow> bool" where
  "owns Claiming = True"
| "owns (Pinned _) = True"
| "owns EvictLocked = True"
| "owns Evicting = True"
| "owns Flushed = True"
| "owns Released = True"
| "owns Abandoned = True"
| "owns _ = False"

text \<open>What a thread at a point knows of the word \<open>w\<close>, the frame \<open>f\<close> and the file \<open>d\<close>.\<close>

fun point_ok :: "u64 \<Rightarrow> u8 list \<Rightarrow> u8 list \<Rightarrow> program_point \<Rightarrow> bool" where
  "point_ok w f d (PinLoaded v) \<longleftrightarrow> getState v \<in> {EVICTED, UNLOCKED, MARKED}"
| "point_ok w f d (Pinned written) \<longleftrightarrow> written \<or> isDirty w \<or> f = d"
| "point_ok w f d (SeenMarked v) \<longleftrightarrow> getState v = MARKED"
| "point_ok w f d (Reading v bs) \<longleftrightarrow> getState v = UNLOCKED"
| "point_ok w f d (Marking v) \<longleftrightarrow> getState v = UNLOCKED"
| "point_ok w f d (EvictLoaded v) \<longleftrightarrow> getState v = MARKED"
| "point_ok w f d EvictLocked \<longleftrightarrow> isDirty w \<or> f = d"
| "point_ok w f d Evicting \<longleftrightarrow> isDirty w \<or> f = d"
| "point_ok w f d Flushed \<longleftrightarrow> \<not> isDirty w \<and> f = d"
| "point_ok w f d _ \<longleftrightarrow> True"

definition word_ok :: "nat \<Rightarrow> u64 \<Rightarrow> u8 list \<Rightarrow> u8 list \<Rightarrow> bool" where
  "word_ok n w f d \<longleftrightarrow> length f = length d \<and> pageVersion w \<le> n \<and> getState w \<in> {UNLOCKED, LOCKED, MARKED, EVICTED}
     \<and> (getState w \<in> {UNLOCKED, MARKED} \<longrightarrow> isDirty w \<or> f = d)"

definition page_inv :: "nat \<Rightarrow> page \<Rightarrow> bool" where
  "page_inv n s \<longleftrightarrow> word_ok n (stateAndVersion s) (frame s) (disk s)
     \<and> (\<forall>t. point_ok (stateAndVersion s) (frame s) (disk s) (threads s t))
     \<and> (\<forall>t u. owns (threads s t) \<longrightarrow> owns (threads s u) \<longrightarrow> t = u)
     \<and> (getState (stateAndVersion s) = LOCKED \<longleftrightarrow> (\<exists>t. owns (threads s t)))"

lemma point_ok_free: "\<not> owns p \<Longrightarrow> point_ok w f d p = point_ok w' f' d' p"
  by (cases p) simp_all

lemma page_inv_free: "page_inv n s \<Longrightarrow> getState (stateAndVersion s) \<noteq> LOCKED \<Longrightarrow> \<not> owns (threads s t)"
  by (auto simp: page_inv_def)

lemma page_inv_locked: "page_inv n s \<Longrightarrow> owns (threads s t) \<Longrightarrow> getState (stateAndVersion s) = LOCKED"
  by (auto simp: page_inv_def)

lemma page_inv_word: "page_inv n s \<Longrightarrow> word_ok n (stateAndVersion s) (frame s) (disk s)"
  by (simp add: page_inv_def)

lemma page_inv_point: "page_inv n s \<Longrightarrow> threads s t = p \<Longrightarrow> point_ok (stateAndVersion s) (frame s) (disk s) p"
  by (auto simp: page_inv_def)

text \<open>
  A step moves one thread. The three rules are for a thread that owns the page neither before nor
  after, for one that takes the lock of a free page, and for the owner.
\<close>

lemma page_inv_bystander:
  assumes inv: "page_inv n s" and p: "\<not> owns (threads s t)" "\<not> owns p" "point_ok w f d p"
    and w: "word_ok (Suc n) w f d" "getState w = LOCKED \<longleftrightarrow> getState (stateAndVersion s) = LOCKED"
    and same: "getState w = LOCKED \<Longrightarrow> w = stateAndVersion s \<and> f = frame s \<and> d = disk s"
  shows "page_inv (Suc n) (goto t p (s\<lparr>stateAndVersion := w, frame := f, disk := d\<rparr>))"
proof -
  have "point_ok w f d (threads s u)" for u
  proof (cases "owns (threads s u)")
    case True
    then show ?thesis using page_inv_locked [OF inv True] w(2) same page_inv_point [OF inv refl, of u] by simp
  next
    case False
    then show ?thesis using page_inv_point [OF inv refl, of u] point_ok_free by blast
  qed
  moreover have "(\<exists>u. owns (((threads s)(t := p)) u)) \<longleftrightarrow> (\<exists>u. owns (threads s u))" using p by auto
  ultimately show ?thesis using inv p w by (auto simp: page_inv_def goto_def)
qed

lemma page_inv_acquire:
  assumes inv: "page_inv n s" and free: "getState (stateAndVersion s) \<noteq> LOCKED"
    and p: "owns p" "point_ok w f d p" and w: "word_ok (Suc n) w f d" "getState w = LOCKED"
  shows "page_inv (Suc n) (goto t p (s\<lparr>stateAndVersion := w, frame := f, disk := d\<rparr>))"
proof -
  have nobody: "\<not> owns (threads s u)" for u using page_inv_free [OF inv free] .
  have "point_ok w f d (threads s u)" for u
    using page_inv_point [OF inv refl, of u] point_ok_free [OF nobody] by blast
  then show ?thesis using p w nobody by (auto simp: page_inv_def goto_def)
qed

lemma page_inv_owner:
  assumes inv: "page_inv n s" and own: "owns (threads s t)"
    and p: "owns p \<longleftrightarrow> getState w = LOCKED" "point_ok w f d p" and w: "word_ok (Suc n) w f d"
  shows "page_inv (Suc n) (goto t p (s\<lparr>stateAndVersion := w, frame := f, disk := d\<rparr>))"
proof -
  have others: "\<not> owns (threads s u)" if "u \<noteq> t" for u using inv own that by (auto simp: page_inv_def)
  have "point_ok w f d (threads s u)" if "u \<noteq> t" for u
    using page_inv_point [OF inv refl, of u] point_ok_free [OF others [OF that]] by blast
  then show ?thesis using p w others by (auto simp: page_inv_def goto_def)
qed

lemma same_page [simp]: "s\<lparr>stateAndVersion := stateAndVersion s, frame := frame s, disk := disk s\<rparr> = (s :: page)"
  "s\<lparr>stateAndVersion := w, frame := frame s, disk := disk s\<rparr> = s\<lparr>stateAndVersion := w\<rparr>"
  by simp_all

lemma goto_same: "threads s t = p \<Longrightarrow> goto t p s = s"
  by (simp add: goto_def fun_upd_idem)

lemma word_ok_Suc: "word_ok n w f d \<Longrightarrow> word_ok (Suc n) w f d"
  by (auto simp: word_ok_def)

text \<open>A step that only moves a thread between points that do not own the page.\<close>

lemma page_inv_move:
  assumes "page_inv n s" "\<not> owns (threads s t)" "\<not> owns p" "point_ok (stateAndVersion s) (frame s) (disk s) p"
  shows "page_inv (Suc n) (goto t p s)"
  using page_inv_bystander [OF assms word_ok_Suc [OF page_inv_word [OF assms(1)]]] by simp

lemma page_inv_stay: "page_inv n s \<Longrightarrow> page_inv (Suc n) s"
  by (auto simp: page_inv_def word_ok_def)

text \<open>A compare-and-exchange of a free word that does not lock the page.\<close>

lemma page_inv_exchange:
  assumes inv: "page_inv n s" and t: "\<not> owns (threads s t)" "getState v \<in> {UNLOCKED, MARKED}" "new \<in> {UNLOCKED, MARKED}"
  shows "page_inv (Suc n) (goto t Idle (s\<lparr>stateAndVersion :=
    fst (compare_exchange_strong v (updateStateWithSameVersion v new) (stateAndVersion s))\<rparr>))"
proof (cases "stateAndVersion s = v")
  case True
  have "word_ok (Suc n) (updateStateWithSameVersion v new) (frame s) (disk s)"
    using page_inv_word [OF inv] True t by (auto simp: word_ok_def page_fields)
  moreover have "getState (updateStateWithSameVersion v new) \<noteq> LOCKED" using t(3) by (auto simp: page_fields)
  ultimately show ?thesis
    using page_inv_bystander [OF inv t(1), of Idle "updateStateWithSameVersion v new" "frame s" "disk s"] True t
    by (auto simp: compare_exchange_strong_def page_fields)
next
  case False
  then show ?thesis using page_inv_move [OF inv t(1), of Idle] by (simp add: compare_exchange_strong_def)
qed

text \<open>A compare-and-exchange of a free word that locks it, and the retry when it fails.\<close>

lemma page_inv_tryLock:
  assumes inv: "page_inv n s" and t: "\<not> owns (threads s t)" "getState v \<in> {EVICTED, UNLOCKED, MARKED}"
    and p: "owns p" "stateAndVersion s = v \<Longrightarrow> point_ok (updateStateWithSameVersion v LOCKED) (frame s) (disk s) p"
    and lock: "tryLock v (stateAndVersion s) = (w, locked)"
  shows "page_inv (Suc n) (goto t (if locked then p else Idle) (s\<lparr>stateAndVersion := w\<rparr>))"
proof (cases "stateAndVersion s = v")
  case True
  have "word_ok (Suc n) (updateStateWithSameVersion v LOCKED) (frame s) (disk s)"
    using page_inv_word [OF inv] True by (auto simp: word_ok_def page_fields)
  moreover have "getState (stateAndVersion s) \<noteq> LOCKED" using t(2) True by (auto simp: page_fields)
  ultimately have "page_inv (Suc n) (goto t p (s\<lparr>stateAndVersion := updateStateWithSameVersion v LOCKED\<rparr>))"
    using page_inv_acquire [OF inv _ p(1) p(2) [OF True], of t] by (simp add: page_fields)
  then show ?thesis using lock True by (auto simp: tryLock_def compare_exchange_strong_def)
next
  case False
  then show ?thesis using page_inv_move [OF inv t(1), of Idle] lock by (auto simp: tryLock_def compare_exchange_strong_def)
qed

text \<open>A call that loads the word stays where it is, or moves on with a word that is not locked.\<close>

lemma load_cases:
  assumes "page_inv n s"
    and "pin_load t s = Some s' \<or> read_load t s = Some s' \<or> evictPages_load t s = Some s' \<or> evict_load t s = Some s'"
  obtains "s' = s" | p where "\<not> owns (threads s t)" "\<not> owns p" "point_ok (stateAndVersion s) (frame s) (disk s) p" "s' = goto t p s"
proof (cases "s' = s")
  case False
  have free: "\<not> owns (threads s t)" if "getState (stateAndVersion s) \<in> {EVICTED, UNLOCKED, MARKED}"
    using page_inv_free [OF assms(1), of t] that by (auto simp: page_fields)
  let ?w = "stateAndVersion s"
  consider "getState ?w \<in> {EVICTED, UNLOCKED, MARKED}" "s' = goto t (PinLoaded ?w) s"
    | "getState ?w = UNLOCKED" "s' = goto t (Reading ?w []) s" | "getState ?w = MARKED" "s' = goto t (SeenMarked ?w) s"
    | "getState ?w = UNLOCKED" "s' = goto t (Marking ?w) s" | "getState ?w = MARKED" "s' = goto t (EvictLoaded ?w) s"
    using assms(2) False
    by (auto simp: pin_load_def read_load_def evictPages_load_def evict_load_def isSecondChanceEvictable_def isEvictable_def
        Let_def split: if_splits)
  then show ?thesis
    by cases (use free that(2) [of "PinLoaded ?w"] that(2) [of "Reading ?w []"] that(2) [of "SeenMarked ?w"] that(2) [of "Marking ?w"]
        that(2) [of "EvictLoaded ?w"] in auto)

qed (use that(1) in simp)

lemma load_invs:
  assumes "page_inv n s"
  shows "pin_load t s = Some s' \<Longrightarrow> page_inv (Suc n) s'" "read_load t s = Some s' \<Longrightarrow> page_inv (Suc n) s'"
    "evictPages_load t s = Some s' \<Longrightarrow> page_inv (Suc n) s'" "evict_load t s = Some s' \<Longrightarrow> page_inv (Suc n) s'"
  by (metis load_cases [OF assms, of t s'] page_inv_stay [OF assms] page_inv_move [OF assms])+

lemma pin_lock_inv:
  assumes "page_inv n s" "pin_lock t s = Some s'"
  shows "page_inv (Suc n) s'"
proof -
  obtain v w locked where v: "threads s t = PinLoaded v" "tryLock v (stateAndVersion s) = (w, locked)"
      "s' = goto t (if \<not> locked then Idle else if getState v = EVICTED then Claiming else Pinned False) (s\<lparr>stateAndVersion := w\<rparr>)"
    using assms(2) by (auto simp: pin_lock_def split: program_point.splits prod.splits)
  let ?p = "if getState v = EVICTED then Claiming else Pinned False"
  have state: "getState v \<in> {EVICTED, UNLOCKED, MARKED}" using page_inv_point [OF assms(1) v(1)] by simp
  have "point_ok (updateStateWithSameVersion v LOCKED) (frame s) (disk s) ?p" if "stateAndVersion s = v"
    using page_inv_word [OF assms(1)] state that by (auto simp: word_ok_def page_fields)
  from page_inv_tryLock [OF assms(1) _ state _ this v(2)] show ?thesis
    unfolding v(3) using v(1) by (auto split: if_splits)
qed

lemma pin_claimAFrame_inv:
  assumes "page_inv n s" "pin_claimAFrame t reserved readPage inserted s = Some s'"
  shows "page_inv (Suc n) s'"
proof -
  have t: "threads s t = Claiming" using assms(2) by (auto simp: pin_claimAFrame_def split: if_splits)
  have locked: "getState (stateAndVersion s) = LOCKED" using page_inv_locked [OF assms(1), of t] t by simp
  have len: "length (frame s) = length (disk s)" "pageVersion (stateAndVersion s) \<le> n"
    using page_inv_word [OF assms(1)] by (simp_all add: word_ok_def)
  show ?thesis
  proof (cases reserved)
    case True
    let ?p = "if inserted then Pinned (\<not> readPage) else Abandoned"
    have "s' = goto t ?p (s\<lparr>stateAndVersion := stateAndVersion s AND NOT DIRTY_MASK,
        frame := (if readPage then disk s else frame s), disk := disk s\<rparr>)"
      using assms(2) t True locked by (simp add: pin_claimAFrame_def clearDirty_def)
    then show ?thesis
      using page_inv_owner [OF assms(1), of t ?p "stateAndVersion s AND NOT DIRTY_MASK"
          "if readPage then disk s else frame s" "disk s"] t locked len by (simp add: word_ok_def page_fields)
  next
    case False
    then show ?thesis
      using assms(2) t page_inv_owner [OF assms(1), of t Idle PageState_new "frame s" "disk s"] len
      by (auto simp: pin_claimAFrame_def word_ok_def page_fields)
  qed
qed

lemma setLockedPageDirty_inv:
  assumes "page_inv n s" "setLockedPageDirty t s = Some s'"
  shows "page_inv (Suc n) s'"
proof -
  obtain b where t: "threads s t = Pinned b" "s' = s\<lparr>stateAndVersion := stateAndVersion s OR DIRTY_MASK\<rparr>"
    using assms(2) by (auto simp: setLockedPageDirty_def setDirty_def split: program_point.splits sum.splits)
  have "page_inv (Suc n) (goto t (Pinned b) (s\<lparr>stateAndVersion := stateAndVersion s OR DIRTY_MASK, frame := frame s, disk := disk s\<rparr>))"
    using page_inv_locked [OF assms(1), of t] page_inv_word [OF assms(1)] t
    by (intro page_inv_owner [OF assms(1)]) (simp_all add: word_ok_def page_fields)
  then show ?thesis using t by (simp add: goto_same)
qed

lemma write_byte_inv:
  assumes "page_inv n s" "write_byte t i b s = Some s'"
  shows "page_inv (Suc n) s'"
proof -
  obtain written where t: "threads s t = Pinned written" "s' = goto t (Pinned True) (s\<lparr>frame := (frame s)[i := b]\<rparr>)"
    using assms(2) by (auto simp: write_byte_def split: program_point.splits if_splits)
  have "page_inv (Suc n) (goto t (Pinned True) (s\<lparr>stateAndVersion := stateAndVersion s, frame := (frame s)[i := b], disk := disk s\<rparr>))"
    using page_inv_locked [OF assms(1), of t] page_inv_word [OF assms(1)] t
    by (intro page_inv_owner [OF assms(1)]) (simp_all add: word_ok_def page_fields)
  then show ?thesis using t by simp
qed

lemma unpin_inv:
  assumes "page_inv n s" "unpin t s = Some s'" "n < 2 ^ 55 - 1"
  shows "page_inv (Suc n) s'"
proof -
  obtain written where t: "threads s t = Pinned written" "written \<longrightarrow> isDirty (stateAndVersion s)"
      "s' = goto t Idle (s\<lparr>stateAndVersion := unlock (stateAndVersion s)\<rparr>)"
    using assms(2) by (auto simp: unpin_def split: program_point.splits if_splits)
  have v: "pageVersion (stateAndVersion s) < 2 ^ 55 - 1" "length (frame s) = length (disk s)" "pageVersion (stateAndVersion s) \<le> n"
    using page_inv_word [OF assms(1)] assms(3) by (simp_all add: word_ok_def)
  have "page_inv (Suc n) (goto t Idle (s\<lparr>stateAndVersion := unlock (stateAndVersion s), frame := frame s, disk := disk s\<rparr>))"
    using page_inv_point [OF assms(1) t(1)] t(1,2) v(2,3) fields_unlock [OF v(1)]
    by (intro page_inv_owner [OF assms(1)]) (auto simp: word_ok_def page_fields)
  then show ?thesis using t by simp
qed

lemma read_clearMark_inv:
  assumes "page_inv n s" "read_clearMark t s = Some s'"
  shows "page_inv (Suc n) s'"
proof -
  obtain v where t: "threads s t = SeenMarked v" using assms(2) by (auto simp: read_clearMark_def split: program_point.splits)
  have v: "getState v = MARKED" using page_inv_point [OF assms(1) t] by simp
  then show ?thesis
    using assms(2) t page_inv_exchange [OF assms(1), of t v UNLOCKED]
    by (auto simp: read_clearMark_def tryClearMark_def split: prod.splits)
qed

lemma read_byte_inv: "page_inv n s \<Longrightarrow> read_byte t s = Some s' \<Longrightarrow> page_inv (Suc n) s'"
  using page_inv_point [of n s t]
  by (auto simp: read_byte_def intro!: page_inv_move split: program_point.splits if_splits)

lemma read_validate_inv: "page_inv n s \<Longrightarrow> read_validate t s = Some s' \<Longrightarrow> page_inv (Suc n) s'"
  by (auto simp: read_validate_def intro!: page_inv_move split: program_point.splits if_splits)

lemma evictPages_mark_inv:
  assumes "page_inv n s" "evictPages_mark t s = Some s'"
  shows "page_inv (Suc n) s'"
proof -
  obtain v where t: "threads s t = Marking v" using assms(2) by (auto simp: evictPages_mark_def split: program_point.splits)
  then show ?thesis
    using assms(2) page_inv_point [OF assms(1) t] page_inv_exchange [OF assms(1), of t v MARKED]
    by (auto simp: evictPages_mark_def tryMark_def)
qed

lemma evict_lock_inv:
  assumes "page_inv n s" "evict_lock t s = Some s'"
  shows "page_inv (Suc n) s'"
proof -
  obtain v w locked where v: "threads s t = EvictLoaded v" "tryLock v (stateAndVersion s) = (w, locked)"
      "s' = goto t (if locked then EvictLocked else Idle) (s\<lparr>stateAndVersion := w\<rparr>)"
    using assms(2) by (auto simp: evict_lock_def split: program_point.splits prod.splits)
  have state: "getState v = MARKED" using page_inv_point [OF assms(1) v(1)] by simp
  have "point_ok (updateStateWithSameVersion v LOCKED) (frame s) (disk s) EvictLocked" if "stateAndVersion s = v"
    using page_inv_word [OF assms(1)] state that by (auto simp: word_ok_def page_fields)
  from page_inv_tryLock [OF assms(1) _ _ _ this v(2)] show ?thesis
    unfolding v(3) using v(1) state by simp
qed

lemma evict_recheck_inv:
  assumes "page_inv n s" "evict_recheck t changed inMemory s = Some s'"
  shows "page_inv (Suc n) s'"
proof -
  have t: "threads s t = EvictLocked" using assms(2) by (auto simp: evict_recheck_def split: if_splits)
  have clean: "isDirty (stateAndVersion s) \<or> frame s = disk s" using page_inv_point [OF assms(1) t] by simp
  have locked: "getState (stateAndVersion s) = LOCKED" using page_inv_locked [OF assms(1), of t] t by simp
  have ok: "word_ok n (stateAndVersion s) (frame s) (disk s)" using page_inv_word [OF assms(1)] .
  show ?thesis
  proof (cases changed)
    case True
    then show ?thesis
      using assms(2) t clean ok page_inv_owner [OF assms(1), of t Idle "unlockUnchanged (stateAndVersion s)" "frame s" "disk s"]
      by (auto simp: evict_recheck_def unlockUnchanged_def word_ok_def page_fields)
  next
    case False
    then show ?thesis
      using assms(2) t clean word_ok_Suc [OF ok] locked
        page_inv_owner [OF assms(1), of t "if inMemory then Abandoned else Evicting" "stateAndVersion s" "frame s" "disk s"]
      by (auto simp: evict_recheck_def split: if_splits)
  qed
qed

lemma flush_inv:
  assumes "page_inv n s" "flushPageIfDirtyWithoutLock t s = Some s'"
  shows "page_inv (Suc n) s'"
proof -
  have t: "threads s t = Evicting" using assms(2) by (auto simp: flushPageIfDirtyWithoutLock_def split: if_splits)
  have clean: "isDirty (stateAndVersion s) \<or> frame s = disk s" using page_inv_point [OF assms(1) t] by simp
  have locked: "getState (stateAndVersion s) = LOCKED" using page_inv_locked [OF assms(1), of t] t by simp
  have ok: "word_ok n (stateAndVersion s) (frame s) (disk s)" using page_inv_word [OF assms(1)] .
  show ?thesis
  proof (cases "isDirty (stateAndVersion s)")
    case True
    let ?w = "stateAndVersion s AND NOT DIRTY_MASK"
    have "s' = goto t Flushed (s\<lparr>stateAndVersion := ?w, frame := frame s, disk := frame s\<rparr>)"
      using assms(2) t True by (simp add: flushPageIfDirtyWithoutLock_def clearDirtyWithoutLock_def)
    moreover have "word_ok (Suc n) ?w (frame s) (frame s)" using ok by (simp add: word_ok_def page_fields)
    ultimately show ?thesis
      using page_inv_owner [OF assms(1), of t Flushed ?w "frame s" "frame s"] t locked by (simp add: page_fields)
  next
    case False
    then have "point_ok (stateAndVersion s) (frame s) (disk s) Flushed" using clean by simp
    from page_inv_owner [OF assms(1) _ _ this word_ok_Suc [OF ok], of t] have "page_inv (Suc n) (goto t Flushed s)"
      using t locked by simp
    then show ?thesis using assms(2) t False by (simp add: flushPageIfDirtyWithoutLock_def)
  qed
qed

lemma release_inv:
  assumes "page_inv n s" "releaseFrameForPage t s = Some s'"
  shows "page_inv (Suc n) s'"
proof -
  have t: "threads s t = Flushed" "s' = goto t Released (s\<lparr>frame := replicate (length (frame s)) 0\<rparr>)"
    using assms(2) by (auto simp: releaseFrameForPage_def split: if_splits)
  have locked: "getState (stateAndVersion s) = LOCKED" using page_inv_locked [OF assms(1), of t] t by simp
  have "word_ok (Suc n) (stateAndVersion s) (replicate (length (frame s)) 0) (disk s)"
    using page_inv_word [OF assms(1)] locked by (simp add: word_ok_def page_fields)
  then show ?thesis
    using page_inv_owner [OF assms(1), of t Released "stateAndVersion s" "replicate (length (frame s)) 0" "disk s"] t locked
    by simp
qed

lemma evict_reset_inv:
  assumes "page_inv n s" "evict_reset t s = Some s'"
  shows "page_inv (Suc n) s'"
proof -
  have t: "threads s t = Released" "s' = goto t Idle (s\<lparr>stateAndVersion := PageState_new\<rparr>)"
    using assms(2) by (auto simp: evict_reset_def page_fields split: if_splits)
  have "word_ok (Suc n) PageState_new (frame s) (disk s)"
    using page_inv_word [OF assms(1)] by (simp add: word_ok_def page_fields)
  then show ?thesis
    using page_inv_owner [OF assms(1), of t Idle PageState_new "frame s" "disk s"] t by (simp add: page_fields)
qed

lemmas step_invs = load_invs pin_lock_inv pin_claimAFrame_inv setLockedPageDirty_inv write_byte_inv unpin_inv
  read_clearMark_inv read_byte_inv read_validate_inv evictPages_mark_inv
  evict_lock_inv evict_recheck_inv flush_inv release_inv evict_reset_inv

lemma page_step_inv: "page_inv n s \<Longrightarrow> n < 2 ^ 55 - 1 \<Longrightarrow> page_step t a s = Some s' \<Longrightarrow> page_inv (Suc n) s'"
  by (cases a) (simp_all only: page_step.simps step_invs)

lemma page_run_inv:
  "page_inv n s \<Longrightarrow> n + length as \<le> 2 ^ 55 - 1 \<Longrightarrow> page_run as s = Some s' \<Longrightarrow> page_inv (n + length as) s'"
proof (induction as arbitrary: n s)
  case (Cons x as)
  obtain t a where x: "x = (t, a)" by (cases x)
  obtain s1 where s1: "page_step t a s = Some s1" "page_run as s1 = Some s'"
    using Cons.prems(3) x by (auto split: option.splits)
  have "page_inv (Suc n) s1" using page_step_inv [OF Cons.prems(1) _ s1(1)] Cons.prems(2) by simp
  from Cons.IH [OF this _ s1(2)] show ?case using Cons.prems(2) by simp
qed simp

lemma openPage_inv: "page_inv 0 (openPage bytes)"
  by (simp add: openPage_def page_inv_def word_ok_def page_fields)

lemma reached_inv:
  "page_run as (openPage bytes) = Some s \<Longrightarrow> length as \<le> 2 ^ 55 - 1 \<Longrightarrow> page_inv (length as) s"
  using page_run_inv [OF openPage_inv, of as bytes s] by simp

lemmas page_step_defs = pin_load_def pin_lock_def pin_claimAFrame_def setLockedPageDirty_def write_byte_def unpin_def
  read_load_def read_clearMark_def read_byte_def read_validate_def evictPages_load_def evictPages_mark_def evict_load_def
  evict_lock_def evict_recheck_def flushPageIfDirtyWithoutLock_def releaseFrameForPage_def evict_reset_def
  betweenCalls_def tryLock_def tryMark_def tryClearMark_def compare_exchange_strong_def clearDirty_def setDirty_def goto_def Let_def

lemma other_thread: "page_step u a s = Some s' \<Longrightarrow> t \<noteq> u \<Longrightarrow> threads s' t = threads s t"
  by (cases a) (auto simp: page_step_defs split: program_point.splits prod.splits if_splits sum.splits)

text \<open>
  The steps with which a thread leaves the page locked, and what comes of it: nobody can take the
  lock of the page any more, and nobody changes it.
\<close>

definition holdsPage :: "program_point \<Rightarrow> bool" where
  "holdsPage p \<longleftrightarrow> owns p \<and> p \<noteq> Abandoned"

lemma owns_cases: "owns p \<longleftrightarrow> holdsPage p \<or> p = Abandoned"
  by (auto simp: holdsPage_def)

fun abandons :: "action \<Rightarrow> bool" where
  "abandons (ClaimFrame reserved readPage inserted) \<longleftrightarrow> reserved \<and> \<not> inserted"
| "abandons (Recheck changed inMemory) \<longleftrightarrow> \<not> changed \<and> inMemory"
| "abandons _ \<longleftrightarrow> False"

lemma load_abandons:
  assumes "page_inv n s"
    and "pin_load u s = Some s' \<or> read_load u s = Some s' \<or> evictPages_load u s = Some s' \<or> evict_load u s = Some s'"
  shows "threads s' t = Abandoned \<longleftrightarrow> threads s t = Abandoned"
  using assms by (rule load_cases) (auto simp: goto_def)

lemma step_abandons:
  assumes "page_inv n s" "page_step u a s = Some s'"
  shows "threads s' t = Abandoned \<longleftrightarrow> threads s t = Abandoned \<or> (u = t \<and> abandons a)"
proof (cases "u = t")
  case True
  have "threads s' u = Abandoned \<longleftrightarrow> threads s u = Abandoned \<or> abandons a"
  proof (cases "a \<in> {PinLoad, ReadLoad, MarkLoad, EvictLoad}")
    case True
    then show ?thesis using load_abandons [OF assms(1), of u s' u] assms(2) by auto
  next
    case False
    then show ?thesis using assms(2)
      by (cases a) (auto simp: page_step_defs split: program_point.splits prod.splits if_splits sum.splits)
  qed
  then show ?thesis using True by simp
next
  case False
  then show ?thesis using other_thread [OF assms(2)] by simp
qed

lemma step_abandoned:
  assumes "page_inv n s" "page_step u a s = Some s'" "threads s t = Abandoned"
  shows "stateAndVersion s' = stateAndVersion s \<and> frame s' = frame s \<and> disk s' = disk s"
proof -
  have locked: "getState (stateAndVersion s) = LOCKED" using page_inv_locked [OF assms(1), of t] assms(3) by simp
  have u: "threads s u = Abandoned \<or> \<not> owns (threads s u)"
    using assms(1,3) by (cases "u = t") (auto simp: page_inv_def)
  have v: "stateAndVersion s \<noteq> v" if "getState v \<noteq> LOCKED" for v using locked that by auto
  have point: "point_ok (stateAndVersion s) (frame s) (disk s) (threads s u)" using page_inv_point [OF assms(1) refl] .
  show ?thesis
    using assms(2) u v locked point
    by (cases a; cases "threads s u")
      (auto simp: page_step_defs page_fields isEvictable_def isSecondChanceEvictable_def split: if_splits)
qed

lemma run_abandons:
  "page_inv n s \<Longrightarrow> n + length as \<le> 2 ^ 55 - 1 \<Longrightarrow> page_run as s = Some s' \<Longrightarrow>
    threads s' t = Abandoned \<longleftrightarrow> threads s t = Abandoned \<or> (\<exists>a. (t, a) \<in> set as \<and> abandons a)"
proof (induction as arbitrary: n s)
  case (Cons x as)
  obtain u a where x: "x = (u, a)" by (cases x)
  obtain s1 where s1: "page_step u a s = Some s1" "page_run as s1 = Some s'"
    using Cons.prems(3) x by (auto split: option.splits)
  have "page_inv (Suc n) s1" using page_step_inv [OF Cons.prems(1) _ s1(1)] Cons.prems(2) by simp
  from Cons.IH [OF this _ s1(2)] step_abandons [OF Cons.prems(1) s1(1), of t] show ?case using Cons.prems(2) x by auto
qed simp

lemma run_abandoned:
  "page_inv n s \<Longrightarrow> n + length as \<le> 2 ^ 55 - 1 \<Longrightarrow> page_run as s = Some s' \<Longrightarrow> threads s t = Abandoned \<Longrightarrow>
    stateAndVersion s' = stateAndVersion s \<and> frame s' = frame s \<and> disk s' = disk s"
proof (induction as arbitrary: n s)
  case (Cons x as)
  obtain u a where x: "x = (u, a)" by (cases x)
  obtain s1 where s1: "page_step u a s = Some s1" "page_run as s1 = Some s'"
    using Cons.prems(3) x by (auto split: option.splits)
  have "page_inv (Suc n) s1" using page_step_inv [OF Cons.prems(1) _ s1(1)] Cons.prems(2) by simp
  from Cons.IH [OF this _ s1(2)] step_abandons [OF Cons.prems(1) s1(1), of t] step_abandoned [OF Cons.prems(1) s1(1) Cons.prems(4)]
  show ?case using Cons.prems(2,4) by simp
qed simp

text \<open>
  C13. Pinning
 is exclusive: whatever the interleaving of pins, unpins, writes, optimistic reads,
  markings and evictions, at most one thread holds the page. The page is in the state
  \<^verbatim>\<open>LOCKED\<close> exactly while a thread holds it or after one has abandoned it locked. A thread has
  done so exactly if it has found the eviction queue full in \<^verbatim>\<open>pin\<close> or the file in memory
  in \<^verbatim>\<open>tryEvictPage\<close>, and then the page is in that state for good: no thread holds it and
  nothing that any thread does changes its word again. In particular a pinned page is never
  evicted. The bound on the number of steps keeps the 55-bit version from running into the dirty flag.
\<close>

theorem pinning_is_exclusive:
  assumes "page_run as (openPage bytes) = Some s" "length as < 2 ^ 55"
  shows "(holdsPage (threads s t) \<longrightarrow> holdsPage (threads s u) \<longrightarrow> t = u)
    \<and> (getState (stateAndVersion s) = LOCKED \<longleftrightarrow> (\<exists>t. holdsPage (threads s t)) \<or> (\<exists>t. threads s t = Abandoned))
    \<and> (threads s t = Abandoned \<longleftrightarrow> (\<exists>a. (t, a) \<in> set as \<and> abandons a))
    \<and> (threads s t = Abandoned \<longrightarrow> \<not> holdsPage (threads s u)
        \<and> (\<forall>as' s'. page_run as' s = Some s' \<longrightarrow> length as + length as' < 2 ^ 55 \<longrightarrow>
            stateAndVersion s' = stateAndVersion s \<and> frame s' = frame s \<and> disk s' = disk s))"
proof -
  have inv: "page_inv (length as) s" using reached_inv [OF assms(1)] assms(2) by simp
  then have one: "owns (threads s t) \<longrightarrow> owns (threads s u) \<longrightarrow> t = u"
      and locked: "getState (stateAndVersion s) = LOCKED \<longleftrightarrow> (\<exists>t. owns (threads s t))"
    by (simp_all add: page_inv_def)
  then have "threads s t = Abandoned \<longrightarrow> \<not> holdsPage (threads s u)" by (auto simp: holdsPage_def)
  moreover note one [unfolded owns_cases] locked [unfolded owns_cases ex_disj_distrib]
  moreover have "threads s t = Abandoned \<longleftrightarrow> (\<exists>a. (t, a) \<in> set as \<and> abandons a)"
    using run_abandons [OF openPage_inv _ assms(1)] assms(2) by (simp add: openPage_def)
  moreover have "stateAndVersion s' = stateAndVersion s \<and> frame s' = frame s \<and> disk s' = disk s"
    if "threads s t = Abandoned" "page_run as' s = Some s'" "length as + length as' < 2 ^ 55" for as' s'
    using run_abandoned [OF inv _ that(2,1)] that(3) by simp
  ultimately show ?thesis by blast
qed


text \<open>The word of a page pinned, or locked for eviction, differs from the one before.\<close>

lemma locked_differs: "getState v \<noteq> LOCKED \<Longrightarrow> updateStateWithSameVersion v LOCKED \<noteq> v"
  by (metis fields_lock(1))

lemma PageState_new_locked: "updateStateWithSameVersion PageState_new LOCKED \<noteq> PageState_new"
  by (rule locked_differs) (simp add: page_fields)

lemma example_race:
  "page_run [(1, PinLoad), (2, PinLoad), (1, PinLock), (2, PinLock)] (openPage [7]) =
    Some \<lparr>stateAndVersion = updateStateWithSameVersion PageState_new LOCKED, frame = [0], disk = [7],
      threads = ((\<lambda>_. Idle)(1 := Claiming))(2 := Idle)\<rparr>"
  by (simp add: page_step_defs openPage_def page_fields PageState_new_locked fun_upd_twist)

lemma example_full_queue:
  "page_run [(1, PinLoad), (1, PinLock), (1, ClaimFrame True True False)] (openPage [7]) =
    Some \<lparr>stateAndVersion = updateStateWithSameVersion PageState_new LOCKED AND NOT DIRTY_MASK, frame = [7], disk = [7],
      threads = (\<lambda>_. Idle)(1 := Abandoned)\<rparr>"
  by (simp add: page_step_defs openPage_def page_fields PageState_new_locked)

theorem pinning_is_exclusive_witness:
  "(\<exists>s. page_run [(1, PinLoad), (2, PinLoad), (1, PinLock), (2, PinLock)] (openPage [7]) = Some s
      \<and> holdsPage (threads s 1) \<and> \<not> holdsPage (threads s 2) \<and> getState (stateAndVersion s) = LOCKED)
    \<and> (\<exists>s. page_run [(1, PinLoad), (1, PinLock), (1, ClaimFrame True True False)] (openPage [7]) = Some s
      \<and> threads s 1 = Abandoned \<and> \<not> holdsPage (threads s 2) \<and> getState (stateAndVersion s) = LOCKED)"
proof -
  let ?race = "[(1, PinLoad), (2, PinLoad), (1, PinLock), (2, PinLock)]" and ?full = "[(1, PinLoad), (1, PinLock), (1, ClaimFrame True True False)]"
  obtain s where s: "page_run ?race (openPage [7]) = Some s" "holdsPage (threads s 1)" using example_race by (simp add: holdsPage_def)
  have "length ?race < 2 ^ 55" by simp
  note p = pinning_is_exclusive [OF s(1) this, of 1 2]
  have "\<not> holdsPage (threads s 2)" using p [THEN conjunct1] s(2) by simp
  moreover have "getState (stateAndVersion s) = LOCKED" using p [THEN conjunct2, THEN conjunct1] s(2) by blast
  moreover obtain u where u: "page_run ?full (openPage [7]) = Some u" "threads u 1 = Abandoned" using example_full_queue by simp
  moreover have "length ?full < 2 ^ 55" by simp
  note q = pinning_is_exclusive [OF u(1) this, of 1 2]
  have "\<not> holdsPage (threads u 2)" "getState (stateAndVersion u) = LOCKED" using q u(2) by blast+
  ultimately show ?thesis using s by blast
qed

section \<open>Caching is invisible\<close>

text \<open>
  What the users of the page see: the bytes of the file while the page is not in its frame, the
  frame otherwise.
\<close>

definition pageContent :: "page \<Rightarrow> u8 list" where
  "pageContent s =
     (if getState (stateAndVersion s) = EVICTED \<or> (\<exists>t. threads s t = Claiming \<or> threads s t = Released) then disk s else frame s)"

fun content_spec :: "action \<Rightarrow> page \<Rightarrow> u8 list" where
  "content_spec (WriteByte i b) s = (pageContent s)[i := b]"
| "content_spec (ClaimFrame True False _) s = frame s"
| "content_spec _ s = pageContent s"

lemma pageContent_owner:
  assumes "page_inv n s" "owns (threads s t)"
  shows "pageContent s = (if threads s t = Claiming \<or> threads s t = Released then disk s else frame s)"
proof -
  have "u = t" if "threads s u = Claiming \<or> threads s u = Released" for u
    using assms that by (auto simp: page_inv_def)
  then have "(\<exists>u. threads s u = Claiming \<or> threads s u = Released) \<longleftrightarrow> threads s t = Claiming \<or> threads s t = Released"
    by blast
  then show ?thesis using page_inv_locked [OF assms] by (simp add: pageContent_def page_fields)
qed

lemma pageContent_free:
  assumes "page_inv n s" "getState (stateAndVersion s) \<noteq> LOCKED"
  shows "pageContent s = (if getState (stateAndVersion s) = EVICTED then disk s else frame s)"
  using page_inv_free [OF assms] by (auto simp: pageContent_def) (metis owns.simps)+

text \<open>A step of a thread that holds the page neither before nor after.\<close>

lemma pageContent_bystander:
  assumes "\<not> owns (threads s t)" "\<not> owns p" "getState w = EVICTED \<longleftrightarrow> getState (stateAndVersion s) = EVICTED"
  shows "pageContent (goto t p (s\<lparr>stateAndVersion := w\<rparr>)) = pageContent s"
proof -
  have "(\<exists>u. threads (goto t p (s\<lparr>stateAndVersion := w\<rparr>)) u = q) \<longleftrightarrow> (\<exists>u. threads s u = q)" if "owns q" for q
    using assms(1,2) that by (auto simp: goto_def)
  from this [of Claiming] this [of Released] assms(3) show ?thesis
    by (simp add: pageContent_def ex_disj_distrib) (simp add: goto_def)
qed

lemma pageContent_move:
  assumes "\<not> owns (threads s t)" "\<not> owns p"
  shows "pageContent (goto t p s) = pageContent s"
  using pageContent_bystander [OF assms, of "stateAndVersion s"] by simp

lemma content_exchange:
  assumes "page_inv n s" "\<not> owns (threads s t)" "getState v \<in> {UNLOCKED, MARKED}" "new \<in> {UNLOCKED, MARKED}"
  shows "pageContent (goto t Idle (s\<lparr>stateAndVersion :=
    fst (compare_exchange_strong v (updateStateWithSameVersion v new) (stateAndVersion s))\<rparr>)) = pageContent s"
  using assms by (intro pageContent_bystander) (auto simp: compare_exchange_strong_def page_fields)

lemma content_lock:
  assumes inv: "page_inv n s" and inv': "page_inv (Suc n) s'" and t: "\<not> owns (threads s t)" "getState v \<in> {EVICTED, UNLOCKED, MARKED}"
    and lock: "tryLock v (stateAndVersion s) = (w, locked)" "s' = goto t (if locked then p else Idle) (s\<lparr>stateAndVersion := w\<rparr>)"
    and p: "owns p" "p \<noteq> Released" "p = Claiming \<longleftrightarrow> getState v = EVICTED"
  shows "pageContent s' = pageContent s"
proof (cases "stateAndVersion s = v")
  case True
  have "pageContent s = (if getState v = EVICTED then disk s else frame s)"
    using pageContent_free [OF inv] t(2) True by (auto simp: page_fields)
  moreover have "s' = goto t p (s\<lparr>stateAndVersion := updateStateWithSameVersion v LOCKED\<rparr>)"
    using lock True by (auto simp: tryLock_def compare_exchange_strong_def)
  ultimately show ?thesis using pageContent_owner [OF inv', of t] p by (auto simp: goto_def)
next
  case False
  then show ?thesis using pageContent_move [OF t(1), of Idle] lock by (auto simp: tryLock_def compare_exchange_strong_def)
qed

lemma content_owner:
  assumes inv: "page_inv n s" and inv': "page_inv (Suc n) s'" and t: "owns (threads s t)" "owns (threads s' t)"
  shows "pageContent s = (if threads s t = Claiming \<or> threads s t = Released then disk s else frame s)"
    "pageContent s' = (if threads s' t = Claiming \<or> threads s' t = Released then disk s' else frame s')"
  using pageContent_owner [OF inv t(1)] pageContent_owner [OF inv' t(2)] .

lemma content_release:
  assumes inv: "page_inv n s" and inv': "page_inv (Suc n) s'" and t: "owns (threads s t)" "getState (stateAndVersion s') \<noteq> LOCKED"
  shows "pageContent s = (if threads s t = Claiming \<or> threads s t = Released then disk s else frame s)"
    "pageContent s' = (if getState (stateAndVersion s') = EVICTED then disk s' else frame s')"
  using pageContent_owner [OF inv t(1)] pageContent_free [OF inv' t(2)] .

lemma content_loads:
  assumes "page_inv n s"
  shows "pin_load t s = Some s' \<Longrightarrow> pageContent s' = pageContent s"
    "read_load t s = Some s' \<Longrightarrow> pageContent s' = pageContent s"
    "evictPages_load t s = Some s' \<Longrightarrow> pageContent s' = pageContent s"
    "evict_load t s = Some s' \<Longrightarrow> pageContent s' = pageContent s"
  by (metis load_cases [OF assms, of t s'] pageContent_move)+

lemma content_reads:
  "read_byte t s = Some s' \<Longrightarrow> pageContent s' = pageContent s"
  "read_validate t s = Some s' \<Longrightarrow> pageContent s' = pageContent s"
  by (auto simp: read_byte_def read_validate_def intro!: pageContent_move split: if_splits program_point.splits)

lemma content_exchanges:
  assumes "page_inv n s"
  shows "read_clearMark t s = Some s' \<Longrightarrow> pageContent s' = pageContent s"
    "evictPages_mark t s = Some s' \<Longrightarrow> pageContent s' = pageContent s"
proof -
  assume *: "read_clearMark t s = Some s'"
  then obtain v where t: "threads s t = SeenMarked v" by (auto simp: read_clearMark_def split: program_point.splits)
  then show "pageContent s' = pageContent s"
    using * page_inv_point [OF assms t] content_exchange [OF assms, of t v UNLOCKED]
    by (auto simp: read_clearMark_def tryClearMark_def split: prod.splits)
next
  assume *: "evictPages_mark t s = Some s'"
  then obtain v where t: "threads s t = Marking v" by (auto simp: evictPages_mark_def split: program_point.splits)
  then show "pageContent s' = pageContent s"
    using * page_inv_point [OF assms t] content_exchange [OF assms, of t v MARKED]
    by (auto simp: evictPages_mark_def tryMark_def)
qed

lemma content_locks:
  assumes "page_inv n s" "page_inv (Suc n) s'"
  shows "pin_lock t s = Some s' \<Longrightarrow> pageContent s' = pageContent s"
    "evict_lock t s = Some s' \<Longrightarrow> pageContent s' = pageContent s"
proof -
  assume "pin_lock t s = Some s'"
  then obtain v w locked where v: "threads s t = PinLoaded v" "tryLock v (stateAndVersion s) = (w, locked)"
      "s' = goto t (if \<not> locked then Idle else if getState v = EVICTED then Claiming else Pinned False) (s\<lparr>stateAndVersion := w\<rparr>)"
    by (auto simp: pin_lock_def split: program_point.splits prod.splits)
  then show "pageContent s' = pageContent s"
    using page_inv_point [OF assms(1) v(1)]
    by (intro content_lock [OF assms, of t v w locked "if getState v = EVICTED then Claiming else Pinned False"]) auto
next
  assume "evict_lock t s = Some s'"
  then obtain v w locked where v: "threads s t = EvictLoaded v" "tryLock v (stateAndVersion s) = (w, locked)"
      "s' = goto t (if locked then EvictLocked else Idle) (s\<lparr>stateAndVersion := w\<rparr>)"
    by (auto simp: evict_lock_def split: program_point.splits prod.splits)
  then show "pageContent s' = pageContent s"
    using page_inv_point [OF assms(1) v(1)]
    by (intro content_lock [OF assms, of t v w locked EvictLocked]) (auto simp: page_fields)
qed

lemma content_claim:
  assumes "page_inv n s" "page_inv (Suc n) s'" "pin_claimAFrame t reserved readPage inserted s = Some s'"
  shows "pageContent s' = (if reserved \<and> \<not> readPage then frame s else pageContent s)"
proof -
  have t: "threads s t = Claiming" using assms(3) by (auto simp: pin_claimAFrame_def split: if_splits)
  show ?thesis
    using assms(3) t content_owner [OF assms(1,2), of t] content_release [OF assms(1,2), of t]
    by (auto simp: pin_claimAFrame_def clearDirty_def goto_def page_fields split: if_splits sum.splits)
qed

lemma content_pinned:
  assumes "page_inv n s" "page_inv (Suc n) s'"
  shows "setLockedPageDirty t s = Some s' \<Longrightarrow> pageContent s' = pageContent s"
    "write_byte t i b s = Some s' \<Longrightarrow> pageContent s' = (pageContent s)[i := b]"
  using content_owner [OF assms, of t]
  by (auto simp: setLockedPageDirty_def setDirty_def write_byte_def goto_def split: program_point.splits if_splits sum.splits)

lemma content_unpin:
  assumes "page_inv n s" "page_inv (Suc n) s'" "n < 2 ^ 55 - 1" "unpin t s = Some s'"
  shows "pageContent s' = pageContent s"
proof -
  obtain written where t: "threads s t = Pinned written" "s' = goto t Idle (s\<lparr>stateAndVersion := unlock (stateAndVersion s)\<rparr>)"
    using assms(4) by (auto simp: unpin_def split: program_point.splits if_splits)
  have "pageVersion (stateAndVersion s) < 2 ^ 55 - 1"
    using page_inv_word [OF assms(1)] assms(3) by (simp add: word_ok_def)
  from fields_unlock(1) [OF this] show ?thesis
    using content_release [OF assms(1,2), of t] t by (simp add: goto_def page_fields)
qed

lemma content_evict:
  assumes inv: "page_inv n s" "page_inv (Suc n) s'"
  shows "evict_recheck t changed inMemory s = Some s' \<Longrightarrow> pageContent s' = pageContent s"
    "flushPageIfDirtyWithoutLock t s = Some s' \<Longrightarrow> pageContent s' = pageContent s"
    "releaseFrameForPage t s = Some s' \<Longrightarrow> pageContent s' = pageContent s"
    "evict_reset t s = Some s' \<Longrightarrow> pageContent s' = pageContent s"
proof -
  show "evict_recheck t changed inMemory s = Some s' \<Longrightarrow> pageContent s' = pageContent s"
    using content_owner [OF inv, of t] content_release [OF inv, of t]
    by (auto simp: evict_recheck_def goto_def unlockUnchanged_def page_fields split: if_splits)
  show "flushPageIfDirtyWithoutLock t s = Some s' \<Longrightarrow> pageContent s' = pageContent s"
    using content_owner [OF inv, of t] by (auto simp: flushPageIfDirtyWithoutLock_def goto_def split: if_splits)
  show "releaseFrameForPage t s = Some s' \<Longrightarrow> pageContent s' = pageContent s"
    using content_owner [OF inv, of t] page_inv_point [OF inv(1), of t Flushed]
    by (auto simp: releaseFrameForPage_def goto_def split: if_splits)
  show "evict_reset t s = Some s' \<Longrightarrow> pageContent s' = pageContent s"
    using content_release [OF inv, of t] by (auto simp: evict_reset_def goto_def page_fields split: if_splits)
qed

lemma page_step_content:
  assumes "page_inv n s" "n < 2 ^ 55 - 1" "page_step t a s = Some s'"
  shows "pageContent s' = content_spec a s"
proof -
  have inv': "page_inv (Suc n) s'" by (rule page_step_inv [OF assms])
  note facts = content_loads [OF assms(1)] content_reads content_exchanges [OF assms(1)] content_locks [OF assms(1) inv'] content_claim [OF assms(1) inv']
    content_pinned [OF assms(1) inv'] content_unpin [OF assms(1) inv' assms(2)] content_evict [OF assms(1) inv']
  show ?thesis using assms(3) by (cases "(a, s)" rule: content_spec.cases) (simp_all add: facts)
qed

text \<open>The page as an array of bytes, changed only by what is written.\<close>

fun plain_write :: "nat \<times> action \<Rightarrow> u8 list \<Rightarrow> u8 list" where
  "plain_write (t, WriteByte i b) bytes = bytes[i := b]"
| "plain_write _ bytes = bytes"

lemma content_spec_plain: "\<forall>i. a \<noteq> ClaimFrame True False i \<Longrightarrow> content_spec a s = plain_write (t, a) (pageContent s)"
  by (cases "(a, s)" rule: content_spec.cases) simp_all

lemma page_run_content:
  "page_inv n s \<Longrightarrow> n + length as \<le> 2 ^ 55 - 1 \<Longrightarrow> page_run as s = Some s' \<Longrightarrow> \<forall>i. ClaimFrame True False i \<notin> snd ` set as \<Longrightarrow>
    pageContent s' = fold plain_write as (pageContent s)"
proof (induction as arbitrary: n s)
  case (Cons x as)
  obtain t a where x: "x = (t, a)" by (cases x)
  obtain s1 where s1: "page_step t a s = Some s1" "page_run as s1 = Some s'"
    using Cons.prems(3) x by (auto split: option.splits)
  have n: "n < 2 ^ 55 - 1" "Suc n + length as \<le> 2 ^ 55 - 1" using Cons.prems(2) by simp_all
  have "pageContent s1 = plain_write x (pageContent s)"
    using page_step_content [OF Cons.prems(1) n(1) s1(1)] content_spec_plain [of a s t] Cons.prems(4) x by auto
  then show ?case
    using Cons.IH [OF page_step_inv [OF Cons.prems(1) n(1) s1(1)] n(2) s1(2)] Cons.prems(4) by simp
qed simp

lemma openPage_content: "pageContent (openPage bytes) = bytes"
  by (simp add: pageContent_def openPage_def page_fields)

text \<open>
  C11. Caching is invisible: if every pin reads the page and the pinning threads set a page that
  they change dirty before they unpin it, then after any interleaving of pins, writes, unpins,
  optimistic reads, markings and evictions the users of the page see the bytes of the file with
  exactly the writes made, in their order. No eviction loses a write and no load brings back an
  old page: the frame, the file and the state word together implement a plain array of bytes.
\<close>

theorem cached_page_is_bytes:
  assumes "page_run as (openPage bytes) = Some s" "length as < 2 ^ 55" "\<forall>i. ClaimFrame True False i \<notin> snd ` set as"
  shows "pageContent s = fold plain_write as bytes"
  using page_run_content [OF openPage_inv _ assms(1,3)] assms(2) by (simp add: openPage_content)

text \<open>A run in which the page is loaded, changed, evicted and loaded again.\<close>

definition load_page :: "nat \<Rightarrow> (nat \<times> action) list" where
  "load_page t = [(t, PinLoad), (t, PinLock), (t, ClaimFrame True True True)]"

definition evict_page :: "nat \<Rightarrow> (nat \<times> action) list" where
  "evict_page t = [(t, MarkLoad), (t, Mark), (t, EvictLoad), (t, EvictLock), (t, Recheck False False), (t, Flush), (t, Release)]"

lemma page_run_append: "page_run (as @ bs) s = (case page_run as s of None \<Rightarrow> None | Some s' \<Rightarrow> page_run bs s')"
  by (induction as s rule: page_run.induct) (simp_all split: option.split)

definition loaded :: u64 where
  "loaded = updateStateWithSameVersion PageState_new LOCKED AND NOT DIRTY_MASK"

lemma loaded_fields: "getState loaded = LOCKED" "\<not> isDirty loaded" "pageVersion loaded = 0"
  by (simp_all add: loaded_def page_fields)

lemma unlock_loaded: "getState (unlock loaded) = UNLOCKED" "\<not> isDirty (unlock loaded)" "pageVersion (unlock loaded) = 1"
  "getState (unlock (loaded OR DIRTY_MASK)) = UNLOCKED" "isDirty (unlock (loaded OR DIRTY_MASK))"
  by (simp_all add: fields_unlock page_fields loaded_fields)

lemma run_load:
  assumes "threads s t = Idle" "stateAndVersion s = PageState_new"
  shows "page_run (load_page t) s =
    Some (s\<lparr>stateAndVersion := loaded, frame := disk s, threads := (threads s)(t := Pinned False)\<rparr>)"
  using assms by (simp add: load_page_def page_step_defs page_fields PageState_new_locked loaded_def)

lemma run_evict:
  assumes "threads s t = Idle" "getState (stateAndVersion s) = UNLOCKED"
  shows "page_run (evict_page t) s =
    Some (s\<lparr>stateAndVersion := (if isDirty (stateAndVersion s) then clearDirtyWithoutLock else id)
        (updateStateWithSameVersion (updateStateWithSameVersion (stateAndVersion s) MARKED) LOCKED),
      frame := replicate (length (frame s)) 0, disk := (if isDirty (stateAndVersion s) then frame s else disk s),
      threads := (threads s)(t := Released)\<rparr>)"
  using assms by (simp add: evict_page_def page_step_defs page_fields isEvictable_def isSecondChanceEvictable_def)

definition example_writes :: "(nat \<times> action) list" where
  "example_writes = load_page 1 @ [(1, SetDirty), (1, WriteByte 0 9), (1, Unpin)] @ evict_page 2 @ [(2, Reset)] @ load_page 3"

lemma example_writes_run:
  "page_run example_writes (openPage [7]) = Some \<lparr>stateAndVersion = loaded, frame = [9], disk = [9],
    threads = (((\<lambda>_. Idle)(1 := Idle))(2 := Idle))(3 := Pinned False)\<rparr>"
proof -
  have "page_run (load_page 1) (openPage [7]) =
      Some \<lparr>stateAndVersion = loaded, frame = [7], disk = [7], threads = (\<lambda>_. Idle)(1 := Pinned False)\<rparr>"
    by (simp add: run_load openPage_def)
  moreover have "page_run [(1, SetDirty), (1, WriteByte 0 9), (1, Unpin)]
      \<lparr>stateAndVersion = loaded, frame = [7], disk = [7], threads = (\<lambda>_. Idle)(1 := Pinned False)\<rparr> =
    Some \<lparr>stateAndVersion = unlock (loaded OR DIRTY_MASK), frame = [9], disk = [7], threads = (\<lambda>_. Idle)(1 := Idle)\<rparr>"
    by (simp add: page_step_defs page_fields loaded_fields)
  moreover have "page_run [(2, Reset)] \<lparr>stateAndVersion = w, frame = f, disk = d, threads = T(2 := Released)\<rparr> =
      Some \<lparr>stateAndVersion = PageState_new, frame = f, disk = d, threads = T(2 := Idle)\<rparr>" for w f d T
    by (simp add: page_step_defs page_fields)
  ultimately show ?thesis
    unfolding example_writes_def page_run_append by (simp add: run_load run_evict unlock_loaded del: page_run.simps)
qed

theorem cached_page_is_bytes_witness:
  "\<exists>s. page_run example_writes (openPage [7]) = Some s \<and> pageContent s = fold plain_write example_writes [7] \<and> pageContent s = [9]"
proof -
  have "length example_writes < 2 ^ 55" "\<forall>i. ClaimFrame True False i \<notin> snd ` set example_writes"
    "fold plain_write example_writes [7] = [9]"
    by (simp_all add: example_writes_def load_page_def evict_page_def)
  then show ?thesis using cached_page_is_bytes [OF example_writes_run] example_writes_run by auto
qed

section \<open>Validated reads\<close>

text \<open>
  A page in memory that is not being evicted: until a frame is given back, only the steps of a
  pinning thread change the frame, and unpinning increments the version.
\<close>

definition resident :: "page \<Rightarrow> bool" where
  "resident s \<longleftrightarrow> getState (stateAndVersion s) \<noteq> EVICTED \<and> (\<forall>u. threads s u \<noteq> Claiming)"

definition changing :: "page \<Rightarrow> bool" where
  "changing s \<longleftrightarrow> (\<exists>u. threads s u = Pinned True \<or> threads s u = Released)"

lemma exchange_state:
  assumes "getState v \<in> {UNLOCKED, MARKED}" "new \<in> {UNLOCKED, MARKED, LOCKED}" "getState w \<noteq> EVICTED"
  shows "getState (fst (compare_exchange_strong v (updateStateWithSameVersion v new) w)) \<noteq> EVICTED"
    "pageVersion (fst (compare_exchange_strong v (updateStateWithSameVersion v new) w)) = pageVersion w"
  using assms by (auto simp: compare_exchange_strong_def page_fields)

lemma resident_goto:
  assumes "resident s" "p \<noteq> Claiming" "getState w \<noteq> EVICTED"
  shows "resident (goto t p (s\<lparr>stateAndVersion := w, frame := f, disk := d\<rparr>))"
  using assms by (auto simp: resident_def goto_def)

lemma changing_goto:
  assumes "changing s" "threads s t \<noteq> Pinned True" "threads s t \<noteq> Released"
  shows "changing (goto t p (s\<lparr>stateAndVersion := w, frame := f, disk := d\<rparr>))"
  using assms by (auto simp: changing_def goto_def)

text \<open>What a step that is no eviction does to a resident page.\<close>

definition quiet :: "action \<Rightarrow> page \<Rightarrow> page \<Rightarrow> bool" where
  "quiet a s s' \<longleftrightarrow> resident s' \<and> pageVersion (stateAndVersion s') = pageVersion (stateAndVersion s) + (if a = Unpin then 1 else 0)
     \<and> (frame s' = frame s \<or> changing s') \<and> (changing s \<longrightarrow> changing s' \<or> a = Unpin)"

lemma quiet_goto:
  assumes "resident s" "threads s t \<noteq> Pinned True" "threads s t \<noteq> Released" "p \<noteq> Claiming" "getState w \<noteq> EVICTED"
    "pageVersion w = pageVersion (stateAndVersion s)" "a \<noteq> Unpin"
  shows "quiet a s (goto t p (s\<lparr>stateAndVersion := w, frame := frame s, disk := d\<rparr>))"
  using resident_goto [OF assms(1,4,5), where t = t and f = "frame s" and d = d] changing_goto [OF _ assms(2,3), where p = p and w = w and f = "frame s" and d = d] assms(6,7)
  by (simp add: quiet_def) (simp add: goto_def)

lemma quiet_move:
  assumes "resident s" "threads s t \<noteq> Pinned True" "threads s t \<noteq> Released" "p \<noteq> Claiming" "a \<noteq> Unpin"
  shows "quiet a s (goto t p s)"
  using quiet_goto [OF assms(1-4), of "stateAndVersion s" a "disk s"] assms by (simp add: resident_def)

lemma quiet_word:
  assumes "resident s" "threads s t \<noteq> Pinned True" "threads s t \<noteq> Released" "p \<noteq> Claiming" "getState w \<noteq> EVICTED"
    "pageVersion w = pageVersion (stateAndVersion s)" "a \<noteq> Unpin"
  shows "quiet a s (goto t p (s\<lparr>stateAndVersion := w\<rparr>))"
  using quiet_goto [OF assms, of "disk s"] by simp

lemma quiet_stay: "resident s \<Longrightarrow> a \<noteq> Unpin \<Longrightarrow> quiet a s s"
  by (simp add: quiet_def)

lemma quiet_bystander:
  assumes "resident s" "\<not> owns (threads s t)" "\<not> owns p" "a \<noteq> Unpin"
  shows "quiet a s (goto t p s)"
  using assms by (intro quiet_move) auto

lemma quiet_loads:
  assumes "page_inv n s" "resident s"
  shows "pin_load t s = Some s' \<Longrightarrow> quiet PinLoad s s'" "read_load t s = Some s' \<Longrightarrow> quiet ReadLoad s s'"
    "evictPages_load t s = Some s' \<Longrightarrow> quiet MarkLoad s s'" "evict_load t s = Some s' \<Longrightarrow> quiet EvictLoad s s'"
  by (metis load_cases [OF assms(1), of t s'] quiet_bystander [OF assms(2)] quiet_stay [OF assms(2)] action.distinct)+

lemma quiet_reads:
  assumes "resident s"
  shows "read_byte t s = Some s' \<Longrightarrow> quiet ReadByte s s'" "read_validate t s = Some s' \<Longrightarrow> quiet Validate s s'"
  using assms by (auto simp: read_byte_def read_validate_def intro!: quiet_move split: if_splits program_point.splits)

lemma quiet_exchanges:
  assumes "page_inv n s" "resident s"
  shows "read_clearMark t s = Some s' \<Longrightarrow> quiet ClearMark s s'" "evictPages_mark t s = Some s' \<Longrightarrow> quiet Mark s s'"
    "pin_lock t s = Some s' \<Longrightarrow> quiet PinLock s s'" "evict_lock t s = Some s' \<Longrightarrow> quiet EvictLock s s'"
proof -
  have r: "getState (stateAndVersion s) \<noteq> EVICTED" using assms(2) by (simp add: resident_def)
  show "quiet ClearMark s s'" if "read_clearMark t s = Some s'"
    using that page_inv_point [OF assms(1) refl, of t]
    by (auto simp: read_clearMark_def tryClearMark_def compare_exchange_strong_def page_fields r
        intro!: quiet_word quiet_move assms(2) split: program_point.splits if_splits)
  show "quiet Mark s s'" if "evictPages_mark t s = Some s'"
    using that page_inv_point [OF assms(1) refl, of t]
    by (auto simp: evictPages_mark_def tryMark_def compare_exchange_strong_def page_fields r
        intro!: quiet_word quiet_move assms(2) split: program_point.splits if_splits)
  show "quiet EvictLock s s'" if "evict_lock t s = Some s'"
    using that page_inv_point [OF assms(1) refl, of t]
    by (auto simp: evict_lock_def tryLock_def compare_exchange_strong_def page_fields r
        intro!: quiet_word quiet_move assms(2) split: program_point.splits if_splits)
  show "quiet PinLock s s'" if "pin_lock t s = Some s'"
    using that r page_inv_point [OF assms(1) refl, of t]
    by (auto simp: pin_lock_def tryLock_def compare_exchange_strong_def page_fields
        intro!: quiet_word quiet_move assms(2) split: program_point.splits if_splits)
qed

lemma quiet_pinned:
  assumes "page_inv n s" "n < 2 ^ 55 - 1" "resident s"
  shows "pin_claimAFrame t reserved readPage inserted s = Some s' \<Longrightarrow> quiet (ClaimFrame reserved readPage inserted) s s'"
    "setLockedPageDirty t s = Some s' \<Longrightarrow> quiet SetDirty s s'"
    "write_byte t i b s = Some s' \<Longrightarrow> quiet (WriteByte i b) s s'" "unpin t s = Some s' \<Longrightarrow> quiet Unpin s s'"
proof -
  show "quiet (ClaimFrame reserved readPage inserted) s s'" if "pin_claimAFrame t reserved readPage inserted s = Some s'"
    using that assms(3) by (auto simp: pin_claimAFrame_def resident_def split: if_splits)
  show "quiet SetDirty s s'" if "setLockedPageDirty t s = Some s'"
    using that assms(3)
    by (auto simp: setLockedPageDirty_def setDirty_def quiet_def resident_def changing_def page_fields
        split: program_point.splits sum.splits)
  show "quiet (WriteByte i b) s s'" if "write_byte t i b s = Some s'"
    using that assms(3) by (auto simp: write_byte_def quiet_def resident_def changing_def goto_def
        split: program_point.splits if_splits)
  show "quiet Unpin s s'" if "unpin t s = Some s'"
  proof -
    have v: "pageVersion (stateAndVersion s) < 2 ^ 55 - 1" using page_inv_word [OF assms(1)] assms(2) by (simp add: word_ok_def)
    show ?thesis
      using that assms(3) fields_unlock [OF v]
      by (auto simp: unpin_def quiet_def resident_def goto_def page_fields split: program_point.splits if_splits)
  qed
qed

lemma quiet_evict:
  assumes "page_inv n s" "resident s"
  shows "evict_recheck t changed inMemory s = Some s' \<Longrightarrow> quiet (Recheck changed inMemory) s s'"
    "flushPageIfDirtyWithoutLock t s = Some s' \<Longrightarrow> quiet Flush s s'"
    "releaseFrameForPage t s = Some s' \<Longrightarrow> quiet Release s s'"
proof -
  have r: "getState (stateAndVersion s) \<noteq> EVICTED" using assms(2) by (simp add: resident_def)
  show "quiet (Recheck changed inMemory) s s'" if "evict_recheck t changed inMemory s = Some s'"
    using that by (auto simp: evict_recheck_def unlockUnchanged_def page_fields
        intro!: quiet_word quiet_move assms(2) split: if_splits)
  show "quiet Flush s s'" if "flushPageIfDirtyWithoutLock t s = Some s'"
    using that quiet_goto [OF assms(2), of t Flushed "clearDirtyWithoutLock (stateAndVersion s)" Flush "frame s"] r
    by (auto simp: flushPageIfDirtyWithoutLock_def clearDirtyWithoutLock_def page_fields
        intro!: quiet_move assms(2) split: if_splits)
  show "quiet Release s s'" if "releaseFrameForPage t s = Some s'"
    using that assms(2) by (auto simp: releaseFrameForPage_def quiet_def resident_def changing_def goto_def split: if_splits)
qed

lemma page_step_quiet:
  assumes "page_inv n s" "n < 2 ^ 55 - 1" "resident s" "page_step t a s = Some s'" "a \<noteq> Reset"
  shows "quiet a s s'"
  using assms(4,5) quiet_loads [OF assms(1,3)] quiet_reads [OF assms(3)] quiet_exchanges [OF assms(1,3)] quiet_pinned [OF assms(1-3)] quiet_evict [OF assms(1,3)]
  by (cases a) simp_all

text \<open>
  A reader that loaded the word \<open>v\<close> while the frame was \<open>F\<close>: either a thread has unlocked the page
  since and its version has grown, or a thread is changing the frame, or the frame is still \<open>F\<close> and
  the bytes read so far are a prefix of it.
\<close>

definition read_inv :: "nat \<Rightarrow> u64 \<Rightarrow> u8 list \<Rightarrow> page \<Rightarrow> bool" where
  "read_inv t v F s \<longleftrightarrow> resident s \<and> (\<exists>bs. threads s t = Reading v bs \<and>
     (pageVersion v < pageVersion (stateAndVersion s) \<or>
      pageVersion v = pageVersion (stateAndVersion s) \<and> (changing s \<or> frame s = F \<and> bs = take (length bs) F)))"

lemma read_inv_step:
  assumes inv: "page_inv n s" "n < 2 ^ 55 - 1" and r: "read_inv t v F s" and a: "page_step u a s = Some s'" "a \<noteq> Reset"
    and t: "u = t \<Longrightarrow> a = ReadByte"
  shows "read_inv t v F s'"
proof -
  obtain bs where bs: "threads s t = Reading v bs" "pageVersion v < pageVersion (stateAndVersion s) \<or>
      pageVersion v = pageVersion (stateAndVersion s) \<and> (changing s \<or> frame s = F \<and> bs = take (length bs) F)"
    using r by (auto simp: read_inv_def)
  have q: "quiet a s s'" using page_step_quiet [OF inv _ a] r by (simp add: read_inv_def)
  show ?thesis
  proof (cases "u = t")
    case True
    then have s': "s' = goto t (Reading v (bs @ [frame s ! length bs])) s" "length bs < length (frame s)" "a = ReadByte"
      using a(1) t bs(1) by (auto simp: read_byte_def split: if_splits)
    have "u \<noteq> t" if "threads s u = Pinned True \<or> threads s u = Released" for u using that bs(1) by auto
    then have "changing s' \<longleftrightarrow> changing s" unfolding changing_def s'(1) by (auto simp: goto_def)
    then show ?thesis using q bs(2) s' by (auto simp: read_inv_def quiet_def goto_def take_Suc_conv_app_nth)
  next
    case False
    then have "threads s' t = Reading v bs" using other_thread [OF a(1)] bs(1) by simp
    then show ?thesis using q bs(2) by (auto simp: read_inv_def quiet_def split: if_splits)
  qed
qed

lemma read_inv_run:
  "page_inv n s \<Longrightarrow> n + length as \<le> 2 ^ 55 - 1 \<Longrightarrow> read_inv t v F s \<Longrightarrow> page_run as s = Some s' \<Longrightarrow> Reset \<notin> snd ` set as \<Longrightarrow>
    \<forall>a. (t, a) \<in> set as \<longrightarrow> a = ReadByte \<Longrightarrow> read_inv t v F s'"
proof (induction as arbitrary: n s)
  case (Cons x as)
  obtain u a where x: "x = (u, a)" by (cases x)
  obtain s1 where s1: "page_step u a s = Some s1" "page_run as s1 = Some s'"
    using Cons.prems(4) x by (auto split: option.splits)
  have n: "n < 2 ^ 55 - 1" "Suc n + length as \<le> 2 ^ 55 - 1" using Cons.prems(2) by simp_all
  have "read_inv t v F s1"
    using Cons.prems(5,6) x by (intro read_inv_step [OF Cons.prems(1) n(1) Cons.prems(3) s1(1)]) auto
  then show ?case
    using Cons.IH [OF page_step_inv [OF Cons.prems(1) n(1) s1(1)] n(2) _ s1(2)] Cons.prems(5,6) by simp
qed simp

text \<open>
  C12. An optimistic read that validates is consistent if the page is not evicted in the meantime.
  A thread loads the state of a page that nobody holds, reads the frame byte by byte while other
  threads pin, change, unpin and mark the page in any order, and finds the state word unchanged at
  the end: then it has read the bytes the page had when it started, and the page still has them.
\<close>

theorem validated_read_is_consistent:
  assumes "page_run before (openPage bytes) = Some s" "getState (stateAndVersion s) = UNLOCKED"
    and "page_step t ReadLoad s = Some s1" "page_run during s1 = Some s2" "page_step t Validate s2 = Some s3"
    and "Reset \<notin> snd ` set during" "\<forall>a. (t, a) \<in> set during \<longrightarrow> a = ReadByte" "length before + length during < 2 ^ 55 - 1"
    and "threads s3 t = ReadDone bs"
  shows "bs = pageContent s \<and> pageContent s3 = pageContent s"
proof -
  let ?v = "stateAndVersion s" and ?n = "length before"
  have inv: "page_inv ?n s" using reached_inv [OF assms(1)] assms(8) by simp
  have s1: "s1 = goto t (Reading ?v []) s"
    using assms(2,3) by (auto simp: read_load_def Let_def split: if_splits)
  have nobody: "\<not> owns (threads s u)" for u using page_inv_free [OF inv] assms(2) by (simp add: page_fields)
  then have "threads s u \<noteq> Claiming" for u by (metis owns.simps(1))
  then have "read_inv t ?v (frame s) s1"
    using assms(2) by (auto simp: read_inv_def s1 goto_def resident_def page_fields)
  moreover have inv1: "page_inv (Suc ?n) s1" using page_step_inv [OF inv _ assms(3)] assms(8) by simp
  ultimately have r: "read_inv t ?v (frame s) s2"
    using read_inv_run [OF inv1 _ _ assms(4,6,7)] assms(8) by simp
  have inv2: "page_inv (Suc ?n + length during) s2" using page_run_inv [OF inv1 _ assms(4)] assms(8) by simp
  obtain bs' where t: "threads s2 t = Reading ?v bs'" "length bs' = length (frame s2)" "stateAndVersion s2 = ?v" "bs = bs'"
      "s3 = goto t (ReadDone bs') s2"
    using assms(5,9) r by (auto simp: read_validate_def read_inv_def goto_def split: program_point.splits if_splits)
  have free2: "\<not> owns (threads s2 u)" for u using page_inv_free [OF inv2] assms(2) t(3) by (simp add: page_fields)
  then have "\<not> changing s2" unfolding changing_def by (metis owns.simps(2,6))
  then have "frame s2 = frame s" "bs = frame s" using r t by (auto simp: read_inv_def)
  moreover have "pageContent s = frame s" using pageContent_free [OF inv] assms(2) by (simp add: page_fields)
  moreover have "pageContent s3 = pageContent s2"
    unfolding t(5) using t(1) by (intro pageContent_move) simp_all
  moreover have "pageContent s2 = frame s2" using pageContent_free [OF inv2] assms(2) t(3) by (simp add: page_fields)
  ultimately show ?thesis by simp
qed

definition example_read :: "(nat \<times> action) list" where
  "example_read = load_page 3 @ [(3, Unpin)]"

lemma example_read_run:
  "page_run example_read (openPage bytes) =
    Some \<lparr>stateAndVersion = unlock loaded, frame = bytes, disk = bytes, threads = (\<lambda>_. Idle)(3 := Idle)\<rparr>"
proof -
  have "page_run (load_page 3) (openPage bytes) =
      Some \<lparr>stateAndVersion = loaded, frame = bytes, disk = bytes, threads = (\<lambda>_. Idle)(3 := Pinned False)\<rparr>"
    by (simp add: run_load openPage_def)
  then show ?thesis unfolding example_read_def page_run_append by (simp add: page_step_defs loaded_fields)
qed

theorem validated_read_is_consistent_witness:
  "\<exists>s1 s2 s3 s bs. page_run example_read (openPage [7]) = Some s
    \<and> page_step 0 ReadLoad s = Some s1 \<and> page_run [(3, PinLoad), (0, ReadByte)] s1 = Some s2 \<and> page_step 0 Validate s2 = Some s3
    \<and> threads s3 0 = ReadDone bs \<and> bs = pageContent s \<and> bs = [7]"
proof -
  let ?s = "\<lparr>stateAndVersion = unlock loaded, frame = [7], disk = [7], threads = (\<lambda>_. Idle)(3 := Idle)\<rparr>"
  let ?s1 = "goto 0 (Reading (unlock loaded) []) ?s"
  let ?s2 = "goto 0 (Reading (unlock loaded) [7]) (goto 3 (PinLoaded (unlock loaded)) ?s)"
  let ?s3 = "goto 0 (ReadDone [7]) ?s2"
  have steps: "page_step 0 ReadLoad ?s = Some ?s1" "page_run [(3, PinLoad), (0, ReadByte)] ?s1 = Some ?s2" "page_step 0 Validate ?s2 = Some ?s3"
    by (simp_all add: page_step_defs unlock_loaded page_fields fun_upd_twist)
  have fin: "threads ?s3 0 = ReadDone [7]" by (simp add: goto_def)
  have "[7] = pageContent ?s \<and> pageContent ?s3 = pageContent ?s"
    by (rule validated_read_is_consistent [OF example_read_run _ steps _ _ _ fin])
      (simp_all add: unlock_loaded example_read_def load_page_def)
  then show ?thesis using example_read_run steps fin by blast
qed

lemma run_reads:
  assumes "threads s t = Reading v bs" "length bs + k \<le> n" "frame s = replicate n 0"
  shows "page_run (replicate k (t, ReadByte)) s = Some (goto t (Reading v (bs @ replicate k 0)) s)"
  using assms
proof (induction k arbitrary: bs s)
  case 0
  then show ?case by (simp add: goto_same)
next
  case (Suc k)
  let ?s = "goto t (Reading v (bs @ [0])) s"
  have "page_step t ReadByte s = Some ?s" using Suc.prems by (simp add: read_byte_def)
  moreover have "page_run (replicate k (t, ReadByte)) ?s = Some (goto t (Reading v ((bs @ [0]) @ replicate k 0)) ?s)"
    using Suc.prems by (intro Suc.IH) (simp_all add: goto_def)
  ultimately show ?case by (simp add: goto_def)
qed

text \<open>
  C29. Without that condition a validated read can be wrong. Evicting a page resets its version, so
  loading it again can bring back the word that a reader has seen before. For every page there is such
  an interleaving: a page that has been loaded once and unpinned holds \<open>bytes\<close>, thread 0 starts to
  read it, thread 2 evicts the page and gives its frame back, thread 0 reads zeros from the frame,
  thread 3 loads the page again and unpins it, and the validation of thread 0 succeeds with the zeros.
  Nobody writes, and the page holds \<open>bytes\<close> before and after.
\<close>

theorem reloaded_page_passes_validation:
  "\<exists>s0 s1 s2. page_run example_read (openPage bytes) = Some s0 \<and> pageContent s0 = bytes
    \<and> page_run ([(0, ReadLoad)] @ evict_page 2 @ replicate (length bytes) (0, ReadByte) @ [(2, Reset)] @ load_page 3 @ [(3, Unpin)]) s0 = Some s1
    \<and> page_step 0 Validate s1 = Some s2 \<and> threads s2 0 = ReadDone (replicate (length bytes) 0) \<and> pageContent s2 = bytes"
proof -
  let ?n = "length bytes" and ?z = "replicate (length bytes) (0 :: u8)"
  let ?s = "\<lparr>stateAndVersion = unlock loaded, frame = bytes, disk = bytes, threads = (\<lambda>_. Idle)(3 := Idle)\<rparr>"
  let ?R = "\<lambda>bs. (\<lambda>_. Idle)(0 := Reading (unlock loaded) bs)"
  have 1: "page_run [(0, ReadLoad)] ?s = Some \<lparr>stateAndVersion = unlock loaded, frame = bytes, disk = bytes, threads = ?R []\<rparr>"
    by (simp add: page_step_defs unlock_loaded fun_upd_idem)
  have 2: "page_run (replicate
 ?n (0, ReadByte)) \<lparr>stateAndVersion = w, frame = ?z, disk = bytes, threads = (?R [])(2 := Released)\<rparr> =
    Some \<lparr>stateAndVersion = w, frame = ?z, disk = bytes, threads = (?R ?z)(2 := Released)\<rparr>" for w
    by (subst run_reads [where v = "unlock loaded" and bs = "[]" and n = ?n]) (simp_all add: goto_def fun_upd_twist)
  have 3: "page_run [(2, Reset)] \<lparr>stateAndVersion = w, frame = ?z, disk = bytes, threads = (?R ?z)(2 := Released)\<rparr> =
    Some \<lparr>stateAndVersion = PageState_new, frame = ?z, disk = bytes, threads = (?R ?z)(2 := Idle)\<rparr>" for w
    by (simp add: page_step_defs page_fields)
  have 4: "page_run [(3, Unpin)] \<lparr>stateAndVersion = loaded, frame = bytes, disk = bytes, threads = ((?R ?z)(2 := Idle))(3 := Pinned False)\<rparr> =
    Some \<lparr>stateAndVersion = unlock loaded, frame = bytes, disk = bytes, threads = ((?R ?z)(2 := Idle))(3 := Idle)\<rparr>"
    by (simp add: page_step_defs loaded_fields)
  let ?s1 = "\<lparr>stateAndVersion = unlock loaded, frame = bytes, disk = bytes, threads = ((?R ?z)(2 := Idle))(3 := Idle)\<rparr>"
  have "page_run ([(0, ReadLoad)] @ evict_page 2 @ replicate ?n (0, ReadByte) @ [(2, Reset)] @ load_page 3 @ [(3, Unpin)]) ?s = Some ?s1"
    unfolding page_run_append by (simp add: 1 2 3 4 run_load run_evict unlock_loaded del: page_run.simps)
  moreover have "page_step 0 Validate ?s1 = Some (goto 0 (ReadDone ?z) ?s1)" by (simp add: read_validate_def)
  moreover have "pageContent ?s = bytes" "pageContent (goto 0 (ReadDone ?z) ?s1) = bytes"
    by (simp_all add: pageContent_def goto_def unlock_loaded page_fields)
  ultimately show ?thesis using example_read_run [of bytes] by (auto simp: goto_def)
qed

end
