(* ===== verification/File_Handle.thy ===== *)
theory File_Handle
  imports Page_State
begin

text \<open>
  The bookkeeping of a persistent file in \<^verbatim>\<open>src/src/storage/file_handle.cpp\<close>: the number of
  pages, the capacity in groups of pages, a state per page and a group of frames per group of
  pages, with the part of the buffer manager it changes, the memory in use and the groups of frames
  of \<^verbatim>\<open>src/src/storage/buffer_manager/vm_region.cpp\<close>.

  \<^verbatim>\<open>pageStates\<close> is a \<^verbatim>\<open>ConcurrentVector\<close>
  (\<^verbatim>\<open>src/src/include/common/concurrent_vector.h\<close>), which never gives memory back: the list
  holds the elements that are allocated. The state is kept when an exception is thrown.
\<close>

section \<open>State\<close>

definition PAGE_GROUP_SIZE :: nat where
  "PAGE_GROUP_SIZE = 1024"

definition PAGE_GROUP_SIZE_LOG2 :: nat where
  "PAGE_GROUP_SIZE_LOG2 = 10"

definition PAGE_IDX_IN_GROUP_MASK :: u32 where
  "PAGE_IDX_IN_GROUP_MASK = 1023"

definition LBUG_PAGE_SIZE :: u64 where
  "LBUG_PAGE_SIZE = 4096"

record file_handle =
  fhNumPages :: u32
  pageCapacity :: u32
  pageStates :: "u64 list"
  frameGroupIdxes :: "u32 list"

record buffer_pool =
  usedMemory :: u64
  numFrameGroups :: u64
  maxNumFrameGroups :: u64

type_synonym file_state = "file_handle \<times> buffer_pool"

section \<open>Frame groups and page states\<close>

definition noFrameGroups :: err where
  "noFrameGroups = BufferManagerException ''No more frame groups can be added to the allocator.''"

definition addNewFrameGroup :: "buffer_pool \<Rightarrow> buffer_pool \<times> u32 res" where
  "addNewFrameGroup pool =
     (if numFrameGroups pool \<ge> maxNumFrameGroups pool then (pool, Inl noFrameGroups)
      else (pool\<lparr>numFrameGroups := numFrameGroups pool + 1\<rparr>, Inr (ucast (numFrameGroups pool))))"

text \<open>
  Growing a \<^verbatim>\<open>ConcurrentVector\<close> by whole blocks until it holds \<open>newSize\<close> elements.
  The list holds the elements of all blocks in order; the chained index that the vector finds a block
  with, and its count of elements, are not modelled. Nothing is ever deallocated.
\<close>

definition states_resize :: "nat \<Rightarrow> u64 list \<Rightarrow> u64 list" where
  "states_resize newSize states =
     (if newSize \<le> length states then states
      else states @ replicate ((newSize - length states + PAGE_GROUP_SIZE - 1) div PAGE_GROUP_SIZE * PAGE_GROUP_SIZE) PageState_new)"

definition getNumPageGroups :: "file_handle \<Rightarrow> nat" where
  "getNumPageGroups fh = (unat (fhNumPages fh) + PAGE_GROUP_SIZE - 1) div PAGE_GROUP_SIZE"

definition getFrameIdx :: "u32 \<Rightarrow> file_handle \<Rightarrow> u32 res" where
  "getFrameIdx pageIdx fh =
     bindR (assertR (pageIdx < pageCapacity fh)) (\<lambda>_.
     bindR (nthR (frameGroupIdxes fh) (unat (drop_bit PAGE_GROUP_SIZE_LOG2 pageIdx))) (\<lambda>groupIdx.
     Inr (push_bit PAGE_GROUP_SIZE_LOG2 groupIdx OR (pageIdx AND PAGE_IDX_IN_GROUP_MASK))))"

section \<open>Adding pages\<close>

definition addNewPageGroupWithoutLock :: "file_state \<Rightarrow> file_state \<times> unit res" where
  "addNewPageGroupWithoutLock st =
     (let (fh, pool) = st;
          capacity = pageCapacity fh + of_nat PAGE_GROUP_SIZE;
          fh = fh\<lparr>pageCapacity := capacity, pageStates := states_resize (unat capacity) (pageStates fh)\<rparr> in
      case addNewFrameGroup pool of
        (pool, Inl e) \<Rightarrow> ((fh, pool), Inl e)
      | (pool, Inr groupIdx) \<Rightarrow> ((fh\<lparr>frameGroupIdxes := frameGroupIdxes fh @ [groupIdx]\<rparr>, pool), Inr ()))"

definition takePage :: "file_state \<Rightarrow> file_state \<times> u32 res" where
  "takePage st =
     (let (fh, pool) = st; pageIdx = fhNumPages fh in
      if unat pageIdx < length (pageStates fh) then
        ((fh\<lparr>fhNumPages := pageIdx + 1, pageStates := (pageStates fh)[unat pageIdx := resetToEvicted (pageStates fh ! unat pageIdx)]\<rparr>, pool),
         Inr pageIdx)
      else (st, Inl OutOfBounds))"

definition addNewPageWithoutLock :: "file_state \<Rightarrow> file_state \<times> u32 res" where
  "addNewPageWithoutLock st =
     bindS (if fhNumPages (fst st) = pageCapacity (fst st) then addNewPageGroupWithoutLock st else (st, Inr ()))
       (\<lambda>_. takePage)"

fun addPagesLoop :: "nat \<Rightarrow> file_state \<Rightarrow> file_state \<times> unit res" where
  "addPagesLoop 0 st = (st, Inr ())"
| "addPagesLoop (Suc n) st = bindS (addNewPageWithoutLock st) (\<lambda>_. addPagesLoop n)"

definition addNewPages :: "u32 \<Rightarrow> file_state \<Rightarrow> file_state \<times> u32 res" where
  "addNewPages numNewPages st =
     bindS (addPagesLoop (unat numNewPages) st) (\<lambda>_ st'. (st', Inr (fhNumPages (fst st))))"

definition addNewPage :: "file_state \<Rightarrow> file_state \<times> u32 res" where
  "addNewPage = addNewPages 1"

section \<open>Removing pages\<close>

definition removePageIdxAndTruncateIfNecessary :: "u32 \<Rightarrow> file_handle \<Rightarrow> file_handle \<times> unit res" where
  "removePageIdxAndTruncateIfNecessary pageIdx fh =
     (if fhNumPages fh \<le> pageIdx then (fh, Inr ())
      else
        let fh = fh\<lparr>fhNumPages := pageIdx, pageStates := states_resize (unat pageIdx) (pageStates fh)\<rparr>;
            numPageGroups = getNumPageGroups fh in
        if numPageGroups = length (frameGroupIdxes fh) then (fh, Inr ())
        else bindS (fh, assertR (numPageGroups < length (frameGroupIdxes fh))) (\<lambda>_ fh.
          (fh\<lparr>frameGroupIdxes := take numPageGroups (frameGroupIdxes fh),
              pageCapacity := of_nat (numPageGroups * PAGE_GROUP_SIZE)\<rparr>, Inr ())))"

definition freeUsedMemory :: "u64 \<Rightarrow> buffer_pool \<Rightarrow> buffer_pool res" where
  "freeUsedMemory bytes pool =
     bindR (assertR (usedMemory pool \<ge> bytes)) (\<lambda>_. Inr (pool\<lparr>usedMemory := usedMemory pool - bytes\<rparr>))"

text \<open>
  Removing a page from its frame when no other thread uses it: the lock is taken at the first
  attempt. The frame is addressed through the group of its page.
\<close>

definition removePageFromFrame :: "u32 \<Rightarrow> file_state \<Rightarrow> file_state res" where
  "removePageFromFrame pageIdx st =
     (let (fh, pool) = st in
      bindR (nthR (pageStates fh) (unat pageIdx)) (\<lambda>word.
      if getState word = EVICTED then Inr (fh, pool)
      else
        bindR (getFrameIdx pageIdx fh) (\<lambda>_.
        bindR (freeUsedMemory LBUG_PAGE_SIZE pool) (\<lambda>pool.
        Inr (fh\<lparr>pageStates := (pageStates fh)[unat pageIdx := resetToEvicted word]\<rparr>, pool)))))"

definition removePageFromFrameIfNecessary :: "u32 \<Rightarrow> file_state \<Rightarrow> file_state res" where
  "removePageFromFrameIfNecessary pageIdx st =
     (if pageIdx \<ge> fhNumPages (fst st) then Inr st else removePageFromFrame pageIdx st)"

definition removeFilePagesFromFrames :: "file_state \<Rightarrow> file_state res" where
  "removeFilePagesFromFrames st =
     foldR (\<lambda>pageIdx. removePageFromFrame (of_nat pageIdx)) [0..<unat (fhNumPages (fst st))] st"

text \<open>A file of \<open>fileLength\<close> bytes is opened: \<^verbatim>\<open>constructPersistentFileHandle\<close> and the constructor.\<close>

definition pagesOfLength :: "nat \<Rightarrow> nat" where
  "pagesOfLength fileLength = (fileLength + unat LBUG_PAGE_SIZE - 1) div unat LBUG_PAGE_SIZE"

function capacityFor :: "nat \<Rightarrow> nat \<Rightarrow> nat" where
  "capacityFor pages capacity = (if capacity < pages then capacityFor pages (capacity + PAGE_GROUP_SIZE) else capacity)"
  by pat_completeness auto
termination
  by (relation "measure (\<lambda>(pages, capacity). pages - capacity)") (auto simp: PAGE_GROUP_SIZE_def)

declare capacityFor.simps [simp del]

fun addFrameGroups :: "nat \<Rightarrow> buffer_pool \<Rightarrow> buffer_pool \<times> u32 list res" where
  "addFrameGroups 0 pool = (pool, Inr [])"
| "addFrameGroups (Suc n) pool =
     bindS (addNewFrameGroup pool) (\<lambda>groupIdx pool.
     bindS (addFrameGroups n pool) (\<lambda>groups pool. (pool, Inr (groupIdx # groups))))"

definition FileHandle_open :: "nat \<Rightarrow> buffer_pool \<Rightarrow> buffer_pool \<times> file_handle res" where
  "FileHandle_open fileLength pool =
     (let pages = pagesOfLength fileLength; capacity = capacityFor pages 0;
          fh = \<lparr>fhNumPages = of_nat pages, pageCapacity = of_nat capacity,
                pageStates = replicate capacity PageState_new, frameGroupIdxes = []\<rparr> in
      bindS (addFrameGroups (getNumPageGroups fh) pool) (\<lambda>groups pool.
      (pool, Inr (fh\<lparr>frameGroupIdxes := groups\<rparr>))))"

section \<open>Every page has a frame\<close>

text \<open>
  A handle is well-formed when its capacity is covered by the states and by the groups of frames,
  and its pages fit into the capacity.
\<close>

definition fh_ok :: "file_handle \<Rightarrow> bool" where
  "fh_ok fh \<longleftrightarrow> fhNumPages fh \<le> pageCapacity fh \<and> unat (pageCapacity fh) = PAGE_GROUP_SIZE * length (frameGroupIdxes fh)
     \<and> unat (pageCapacity fh) \<le> length (pageStates fh)"

lemma fh_ok_group:
  assumes "fh_ok fh" "pageIdx < fhNumPages fh"
  shows "unat pageIdx div PAGE_GROUP_SIZE < length (frameGroupIdxes fh)" "unat pageIdx < length (pageStates fh)"
proof -
  have "unat pageIdx < PAGE_GROUP_SIZE * length (frameGroupIdxes fh)"
    using assms by (simp add: fh_ok_def word_less_nat_alt word_le_nat_alt)
  then show "unat pageIdx div PAGE_GROUP_SIZE < length (frameGroupIdxes fh)"
    by (simp add: less_mult_imp_div_less mult.commute)
  show "unat pageIdx < length (pageStates fh)"
    using assms by (simp add: fh_ok_def word_less_nat_alt word_le_nat_alt)
qed

text \<open>The frame of a page lies in its group, at the position the page has in its group of pages.\<close>

lemma unat_or_disjoint: "(a :: u32) AND b = 0 \<Longrightarrow> unat a + unat b < 2 ^ 32 \<Longrightarrow> unat (a OR b) = unat a + unat b"
  by (simp add: disjunctive_add_eq_or [symmetric] unat_word_ariths)

lemma getFrameIdx_value:
  assumes ok: "fh_ok fh" "pageIdx < fhNumPages fh"
    and small: "unat (frameGroupIdxes fh ! (unat pageIdx div PAGE_GROUP_SIZE)) < 2 ^ 22"
  shows "\<exists>frameIdx. getFrameIdx pageIdx fh = Inr frameIdx
    \<and> unat frameIdx = PAGE_GROUP_SIZE * unat (frameGroupIdxes fh ! (unat pageIdx div PAGE_GROUP_SIZE)) + unat pageIdx mod PAGE_GROUP_SIZE"
proof -
  let ?g = "frameGroupIdxes fh ! (unat pageIdx div PAGE_GROUP_SIZE)"
  have less: "pageIdx < pageCapacity fh" using ok by (auto simp: fh_ok_def)
  have grp: "unat (drop_bit PAGE_GROUP_SIZE_LOG2 pageIdx) = unat pageIdx div PAGE_GROUP_SIZE"
    by (simp add: PAGE_GROUP_SIZE_LOG2_def PAGE_GROUP_SIZE_def drop_bit_eq_div unat_div_distrib)
  have mask: "pageIdx AND PAGE_IDX_IN_GROUP_MASK = take_bit 10 pageIdx"
    by (simp add: PAGE_IDX_IN_GROUP_MASK_def take_bit_eq_mask mask_eq_exp_minus_1)
  have low: "unat (take_bit 10 pageIdx) = unat pageIdx mod PAGE_GROUP_SIZE"
    by (simp add: take_bit_eq_mod PAGE_GROUP_SIZE_def unat_mod_distrib)
  have high: "unat (push_bit 10 ?g) = PAGE_GROUP_SIZE * unat ?g"
    using small by (simp add: push_bit_eq_mult PAGE_GROUP_SIZE_def unat_word_ariths)
  have "push_bit 10 ?g AND take_bit 10 pageIdx = 0"
    by (rule bit_word_eqI) (auto simp: bit_simps)
  moreover have "unat (push_bit 10 ?g) + unat (take_bit 10 pageIdx) < 2 ^ 32"
    unfolding high low using small by (simp add: PAGE_GROUP_SIZE_def)
  ultimately have "unat (push_bit 10 ?g OR take_bit 10 pageIdx) = PAGE_GROUP_SIZE * unat ?g + unat pageIdx mod PAGE_GROUP_SIZE"
    using unat_or_disjoint high low by metis
  then show ?thesis
    using less fh_ok_group(1) [OF ok] grp mask by (simp add: getFrameIdx_def PAGE_GROUP_SIZE_LOG2_def)
qed

lemma states_resize_length: "n \<le> length (states_resize n states)"
proof (cases "n \<le> length states")
  case False
  let ?k = "n - length states" and ?b = "PAGE_GROUP_SIZE"
  have "(?k + ?b - 1) mod ?b < ?b" by (simp add: PAGE_GROUP_SIZE_def)
  moreover have "(?k + ?b - 1) div ?b * ?b + (?k + ?b - 1) mod ?b = ?k + ?b - 1" by simp
  ultimately have "?k \<le> (?k + ?b - 1) div ?b * ?b" by linarith
  then show ?thesis using False by (simp add: states_resize_def)
qed (simp add: states_resize_def)

lemma states_resize_keeps: "length states \<le> length (states_resize n states)" "k < length states \<Longrightarrow> states_resize n states ! k = states ! k"
  by (simp_all add: states_resize_def nth_append)

text \<open>Adding a page to a handle whose capacity does not reach 32 bits.\<close>

lemma addNewPageGroup_ok:
  assumes "fh_ok (fst st)" "length (frameGroupIdxes (fst st)) < 2 ^ 22 - 1" "numFrameGroups (snd st) < maxNumFrameGroups (snd st)"
  shows "\<exists>fh pool groupIdx. addNewPageGroupWithoutLock st = ((fh, pool), Inr ()) \<and> fh_ok fh \<and> fhNumPages fh = fhNumPages (fst st)
    \<and> unat (pageCapacity fh) = unat (pageCapacity (fst st)) + PAGE_GROUP_SIZE \<and> frameGroupIdxes fh = frameGroupIdxes (fst st) @ [groupIdx]"
proof -
  obtain fh pool where st: "st = (fh, pool)" by (cases st)
  have cap: "unat (pageCapacity fh) = PAGE_GROUP_SIZE * length (frameGroupIdxes fh)" using assms(1) st by (simp add: fh_ok_def)
  then have cap': "unat (pageCapacity fh + of_nat PAGE_GROUP_SIZE) = unat (pageCapacity fh) + PAGE_GROUP_SIZE"
    using assms(2) st by (simp add: unat_word_ariths PAGE_GROUP_SIZE_def)
  have "fh_ok (fh\<lparr>pageCapacity := pageCapacity fh + of_nat PAGE_GROUP_SIZE,
      pageStates := states_resize (unat (pageCapacity fh + of_nat PAGE_GROUP_SIZE)) (pageStates fh), frameGroupIdxes := frameGroupIdxes fh @ [g]\<rparr>)" for g
    using assms(1) st cap cap' states_resize_length by (simp add: fh_ok_def word_le_nat_alt)
  then show ?thesis
    using assms(3) st cap' by (auto simp: addNewPageGroupWithoutLock_def addNewFrameGroup_def Let_def not_le)
qed

lemma takePage_ok:
  assumes "fh_ok (fst st)" "fhNumPages (fst st) < pageCapacity (fst st)"
  shows "\<exists>st'. takePage st = (st', Inr (fhNumPages (fst st))) \<and> fh_ok (fst st') \<and> unat (fhNumPages (fst st')) = unat (fhNumPages (fst st)) + 1
    \<and> pageStates (fst st') ! unat (fhNumPages (fst st)) = PageState_new \<and> frameGroupIdxes (fst st') = frameGroupIdxes (fst st)
    \<and> snd st' = snd st"
proof -
  obtain fh pool where st: "st = (fh, pool)" by (cases st)
  have "unat (fhNumPages fh) < length (pageStates fh)"
    using assms st by (simp add: fh_ok_def word_less_nat_alt)
  moreover have "unat (fhNumPages fh + 1) = unat (fhNumPages fh) + 1"
    using assms(2) st unsigned_less [of "pageCapacity fh", where ?'a = nat] by (simp add: unat_word_ariths word_less_nat_alt)
  ultimately show ?thesis
    using assms st by (auto simp: takePage_def Let_def fh_ok_def resetToEvicted_new word_less_nat_alt word_le_nat_alt)
qed

lemma addNewPage_ok:
  assumes ok: "fh_ok (fst st)" "length (frameGroupIdxes (fst st)) < 2 ^ 22 - 1"
    and room: "fhNumPages (fst st) = pageCapacity (fst st) \<Longrightarrow> numFrameGroups (snd st) < maxNumFrameGroups (snd st)"
  shows "\<exists>st'. addNewPageWithoutLock st = (st', Inr (fhNumPages (fst st))) \<and> fh_ok (fst st')
    \<and> unat (fhNumPages (fst st')) = unat (fhNumPages (fst st)) + 1 \<and> pageStates (fst st') ! unat (fhNumPages (fst st)) = PageState_new"
proof (cases "fhNumPages (fst st) = pageCapacity (fst st)")
  case True
  from addNewPageGroup_ok [OF ok room [OF True]] obtain fh pool where
    g: "addNewPageGroupWithoutLock st = ((fh, pool), Inr ())" "fh_ok fh" "fhNumPages fh = fhNumPages (fst st)"
      "unat (pageCapacity fh) = unat (pageCapacity (fst st)) + PAGE_GROUP_SIZE" by blast
  then have "fhNumPages fh < pageCapacity fh" using True by (simp add: word_less_nat_alt PAGE_GROUP_SIZE_def)
  from takePage_ok [of "(fh, pool)"] this g show ?thesis
    using True by (simp add: addNewPageWithoutLock_def) blast
next
  case False
  then have "fhNumPages (fst st) < pageCapacity (fst st)" using ok(1) by (auto simp: fh_ok_def less_le)
  from takePage_ok [OF ok(1) this] show ?thesis
    using False by (auto simp: addNewPageWithoutLock_def)
qed

text \<open>Truncating a handle keeps it well-formed.\<close>

lemma getNumPageGroups_bounds:
  "unat (fhNumPages fh) \<le> PAGE_GROUP_SIZE * getNumPageGroups fh" "PAGE_GROUP_SIZE * getNumPageGroups fh < unat (fhNumPages fh) + PAGE_GROUP_SIZE"
  unfolding getNumPageGroups_def PAGE_GROUP_SIZE_def by auto

lemma removePageIdx_ok:
  assumes "fh_ok fh"
  shows "\<exists>fh'. removePageIdxAndTruncateIfNecessary pageIdx fh = (fh', Inr ()) \<and> fh_ok fh' \<and> fhNumPages fh' = min pageIdx (fhNumPages fh)"
proof (cases "fhNumPages fh \<le> pageIdx")
  case True
  then show ?thesis using assms by (simp add: removePageIdxAndTruncateIfNecessary_def min_def)
next
  case False
  define fh1 where "fh1 = fh\<lparr>fhNumPages := pageIdx, pageStates := states_resize (unat pageIdx) (pageStates fh)\<rparr>"
  define n where "n = getNumPageGroups fh1"
  have n: "unat pageIdx \<le> PAGE_GROUP_SIZE * n" "PAGE_GROUP_SIZE * n < unat pageIdx + PAGE_GROUP_SIZE"
    using getNumPageGroups_bounds [of fh1] by (simp_all add: n_def fh1_def)
  have less: "pageIdx < fhNumPages fh" "min pageIdx (fhNumPages fh) = pageIdx" using False by (simp_all add: not_le min_absorb1 less_imp_le)
  have cap: "unat pageIdx < unat (pageCapacity fh)" "unat (pageCapacity fh) = PAGE_GROUP_SIZE * length (frameGroupIdxes fh)"
    using assms less by (auto simp: fh_ok_def word_less_nat_alt word_le_nat_alt)
  have nle: "n \<le> length (frameGroupIdxes fh)" using n cap by (simp add: PAGE_GROUP_SIZE_def)
  have states: "unat (pageCapacity fh) \<le> length (pageStates fh1)"
    using assms states_resize_keeps(1) [of "pageStates fh" "unat pageIdx"] by (simp add: fh_ok_def fh1_def)
  show ?thesis
  proof (cases "n = length (frameGroupIdxes fh)")
    case True
    have "fh_ok fh1" using assms cap states by (simp add: fh_ok_def fh1_def word_le_nat_alt)
    then show ?thesis
      using False True less by (simp add: removePageIdxAndTruncateIfNecessary_def fh1_def [symmetric] n_def [symmetric] Let_def)
        (simp add: fh1_def)
  next
    case neq: False
    let ?fh = "fh1\<lparr>frameGroupIdxes := take n (frameGroupIdxes fh1), pageCapacity := of_nat (n * PAGE_GROUP_SIZE)\<rparr>"
    have small: "n * PAGE_GROUP_SIZE < unat (pageCapacity fh)" using nle neq cap by (simp add: PAGE_GROUP_SIZE_def)
    then have cap': "unat (of_nat (n * PAGE_GROUP_SIZE) :: u32) = n * PAGE_GROUP_SIZE"
      using unsigned_less [of "pageCapacity fh", where ?'a = nat] by (intro unat_of_nat_32) simp
    have "fh_ok ?fh"
      unfolding fh_ok_def using n(1) cap' small states nle by (simp add: fh1_def word_le_nat_alt mult.commute)
    then show ?thesis
      using False neq nle less by (simp add: removePageIdxAndTruncateIfNecessary_def fh1_def [symmetric] n_def [symmetric] Let_def)
        (simp add: fh1_def)
  qed
qed

section \<open>Pages never share a frame\<close>

text \<open>
  The groups of a file are different groups that the region has handed out. The region is smaller
  than \<open>2 ^ 22\<close> groups, 16 TB, so that pages and frames are numbered in 32 bits.
\<close>

definition fs_ok :: "file_state \<Rightarrow> bool" where
  "fs_ok st \<longleftrightarrow> fh_ok (fst st) \<and> distinct (frameGroupIdxes (fst st))
     \<and> (\<forall>g \<in> set (frameGroupIdxes (fst st)). unat g < unat (numFrameGroups (snd st)))
     \<and> numFrameGroups (snd st) \<le> maxNumFrameGroups (snd st) \<and> unat (maxNumFrameGroups (snd st)) < 2 ^ 22"

lemma fs_ok_length:
  assumes "fs_ok st"
  shows "length (frameGroupIdxes (fst st)) \<le> unat (numFrameGroups (snd st))"
proof -
  let ?gs = "frameGroupIdxes (fst st)"
  have "distinct (map unat ?gs)" using assms by (simp add: fs_ok_def distinct_map inj_on_def word_unat_eq_iff)
  then have "length ?gs = card (set (map unat ?gs))" by (metis distinct_card length_map)
  also have "\<dots> \<le> card {..<unat (numFrameGroups (snd st))}" using assms by (intro card_mono) (auto simp: fs_ok_def)
  finally show ?thesis by simp
qed

lemma addNewPageGroup_fs_ok:
  assumes ok: "fs_ok st" and add: "addNewPageGroupWithoutLock st = (st', Inr ())"
  shows "fs_ok st' \<and> fhNumPages (fst st') = fhNumPages (fst st) \<and> unat (pageCapacity (fst st')) = unat (pageCapacity (fst st)) + PAGE_GROUP_SIZE"
proof -
  obtain fh pool where st: "st = (fh, pool)" by (cases st)
  have less: "numFrameGroups pool < maxNumFrameGroups pool"
    using add st by (auto simp: addNewPageGroupWithoutLock_def addNewFrameGroup_def Let_def not_le split: if_splits)
  let ?g = "ucast (numFrameGroups pool) :: u32"
  have unat_g: "unat ?g = unat (numFrameGroups pool)"
    using ok less st by (simp add: fs_ok_def word_less_nat_alt unsigned_ucast_eq take_bit_nat_eq_self)
  have "length (frameGroupIdxes fh) < 2 ^ 22 - 1"
    using fs_ok_length [OF ok] less ok st by (simp add: fs_ok_def word_less_nat_alt)
  with addNewPageGroup_ok [of st] ok less st add
  have new: "fh_ok (fst st')" "fhNumPages (fst st') = fhNumPages fh" "unat (pageCapacity (fst st')) = unat (pageCapacity fh) + PAGE_GROUP_SIZE"
    by (auto simp: fs_ok_def)
  have "snd st' = pool\<lparr>numFrameGroups := numFrameGroups pool + 1\<rparr>" "frameGroupIdxes (fst st') = frameGroupIdxes fh @ [?g]"
    using add st less by (auto simp: addNewPageGroupWithoutLock_def addNewFrameGroup_def Let_def split: if_splits)
  moreover have "unat (numFrameGroups pool + 1) = unat (numFrameGroups pool) + 1"
    using less unsigned_less [of "maxNumFrameGroups pool", where ?'a = nat] by (simp add: unat_word_ariths word_less_nat_alt)
  moreover have "?g \<notin> set (frameGroupIdxes fh)" using ok st unat_g by (force simp: fs_ok_def)
  ultimately show ?thesis
    using new ok st less unat_g by (auto simp: fs_ok_def word_less_nat_alt word_le_nat_alt less_Suc_eq)
qed

lemma addNewPage_fs_ok:
  assumes ok: "fs_ok st" and add: "addNewPageWithoutLock st = (st', Inr p)"
  shows "fs_ok st'"
proof -
  obtain st1 where st1: "fs_ok st1" "fhNumPages (fst st1) < pageCapacity (fst st1)" "takePage st1 = (st', Inr p)"
  proof (cases "fhNumPages (fst st) = pageCapacity (fst st)")
    case True
    then obtain st1 where 1: "addNewPageGroupWithoutLock st = (st1, Inr ())" "takePage st1 = (st', Inr p)"
      using add by (auto simp: addNewPageWithoutLock_def)
    have "fhNumPages (fst st1) < pageCapacity (fst st1)"
      using addNewPageGroup_fs_ok [OF ok 1(1)] True by (simp add: word_less_nat_alt PAGE_GROUP_SIZE_def)
    then show ?thesis using that addNewPageGroup_fs_ok [OF ok 1(1)] 1(2) by blast
  next
    case False
    then have "fhNumPages (fst st) < pageCapacity (fst st)" using ok by (auto simp: fs_ok_def fh_ok_def less_le)
    then show ?thesis using that [OF ok] add False by (simp add: addNewPageWithoutLock_def)
  qed
  from takePage_ok [OF _ st1(2)] st1(1,3) show ?thesis by (auto simp: fs_ok_def)
qed

lemma addPagesLoop_fs_ok: "fs_ok st \<Longrightarrow> addPagesLoop n st = (st', Inr u) \<Longrightarrow> fs_ok st'"
  by (induction n arbitrary: st) (auto dest: addNewPage_fs_ok)

text \<open>Adding pages to a well-formed handle fails only when the region of frames is exhausted.\<close>

lemma addNewPage_error:
  assumes ok: "fs_ok st" and add: "addNewPageWithoutLock st = (st', Inl e)"
  shows "e = noFrameGroups"
proof (cases "fhNumPages (fst st) = pageCapacity (fst st)")
  case True
  show ?thesis
  proof (cases "addNewPageGroupWithoutLock st")
    case (Pair st1 r)
    show ?thesis
    proof (cases r)
      case (Inl e')
      then have "e' = noFrameGroups"
        using Pair by (auto simp: addNewPageGroupWithoutLock_def addNewFrameGroup_def Let_def split: prod.splits if_splits)
      then show ?thesis using add True Pair Inl by (simp add: addNewPageWithoutLock_def bindS_def)
    next
      case (Inr u)
      then have 1: "addNewPageGroupWithoutLock st = (st1, Inr ())" using Pair by simp
      have "fh_ok (fst st1)" "fhNumPages (fst st1) < pageCapacity (fst st1)"
        using addNewPageGroup_fs_ok [OF ok 1] True by (simp_all add: fs_ok_def word_less_nat_alt PAGE_GROUP_SIZE_def)
      from takePage_ok [OF this] show ?thesis using add True 1 by (auto simp: addNewPageWithoutLock_def bindS_def)
    qed
  qed
next
  case False
  then have "fh_ok (fst st)" "fhNumPages (fst st) < pageCapacity (fst st)" using ok by (auto simp: fs_ok_def fh_ok_def less_le)
  from takePage_ok [OF this] show ?thesis using add False by (auto simp: addNewPageWithoutLock_def bindS_def)
qed

lemma addPagesLoop_error: "fs_ok st \<Longrightarrow> addPagesLoop n st = (st', Inl e) \<Longrightarrow> e = noFrameGroups"
proof (induction n arbitrary: st)
  case (Suc n)
  obtain st1 r where r: "addNewPageWithoutLock st = (st1, r)" by (cases "addNewPageWithoutLock st")
  then show ?case
    using Suc.IH [of st1] Suc.prems addNewPage_error [OF Suc.prems(1)] addNewPage_fs_ok [OF Suc.prems(1)] by (cases r) (auto simp: bindS_def)
qed simp

lemma truncate_fs_ok:
  assumes "fs_ok (fh, pool)" "removePageIdxAndTruncateIfNecessary pageIdx fh = (fh', r)"
  shows "fs_ok (fh', pool)"
proof -
  have "fh_ok fh'" using removePageIdx_ok [of fh pageIdx] assms by (auto simp: fs_ok_def)
  moreover have self: "\<exists>n. gs = take n gs" for gs :: "u32 list" by (rule exI [of _ "length gs"]) simp
  have "\<exists>n. frameGroupIdxes fh' = take n (frameGroupIdxes fh)"
    using assms(2) by (auto simp: removePageIdxAndTruncateIfNecessary_def Let_def assertR_def self split: if_splits)
  ultimately show ?thesis using assms(1) by (auto simp: fs_ok_def) (meson in_set_takeD)
qed

lemma removePage_fs_ok:
  assumes "fs_ok st" "removePageFromFrameIfNecessary pageIdx st = Inr st'"
  shows "fs_ok st'"
  using assms
  by (cases st) (auto simp: removePageFromFrameIfNecessary_def removePageFromFrame_def freeUsedMemory_def fs_ok_def fh_ok_def Let_def
      split: if_splits)

text \<open>
  The memory in use covers the pages of the file that are in their frames, so that removing one of
  them from its frame can give its memory back.
\<close>

definition residentPages :: "file_handle \<Rightarrow> nat set" where
  "residentPages fh = {p. p < unat (fhNumPages fh) \<and> getState (pageStates fh ! p) \<noteq> EVICTED}"

definition mem_ok :: "file_state \<Rightarrow> bool" where
  "mem_ok st \<longleftrightarrow> unat LBUG_PAGE_SIZE * card (residentPages (fst st)) \<le> unat (usedMemory (snd st))"

lemma residentPages_finite: "finite (residentPages fh)"
  by (simp add: residentPages_def)

lemma mem_ok_mono: "mem_ok st \<Longrightarrow> residentPages (fst st') \<subseteq> residentPages (fst st) \<Longrightarrow> usedMemory (snd st') = usedMemory (snd st) \<Longrightarrow> mem_ok st'"
  unfolding mem_ok_def by (metis card_mono residentPages_finite mult_le_mono2 le_trans)

lemma removePage_total:
  assumes ok: "fs_ok st" "mem_ok st"
  shows "\<exists>st'. removePageFromFrameIfNecessary pageIdx st = Inr st' \<and> fs_ok st' \<and> mem_ok st' \<and> fhNumPages (fst st') = fhNumPages (fst st)"
proof (cases "pageIdx < fhNumPages (fst st)")
  case True
  then have less: "pageIdx < fhNumPages (fst st)" "\<not> fhNumPages (fst st) \<le> pageIdx" by simp_all
  obtain fh pool where st: "st = (fh, pool)" by (cases st)
  let ?word = "pageStates fh ! unat pageIdx"
  have fh: "fh_ok fh" "pageIdx < fhNumPages fh" using ok less st by (simp_all add: fs_ok_def)
  note in_group = fh_ok_group [OF fh]
  have word: "nthR (pageStates fh) (unat pageIdx) = Inr ?word" using in_group(2) by (simp add: nthR_def)
  show ?thesis
  proof (cases "getState ?word = EVICTED")
    case True
    then show ?thesis using ok less st word by (simp add: removePageFromFrameIfNecessary_def removePageFromFrame_def)
  next
    case False
    have "unat (frameGroupIdxes fh ! (unat pageIdx div PAGE_GROUP_SIZE)) < 2 ^ 22"
      using ok(1) nth_mem [OF in_group(1)] st by (fastforce simp: fs_ok_def word_le_nat_alt)
    then obtain frameIdx where frame: "getFrameIdx pageIdx fh = Inr frameIdx" using getFrameIdx_value [OF fh] by blast
    define fh' where "fh' = fh\<lparr>pageStates := (pageStates fh)[unat pageIdx := resetToEvicted ?word]\<rparr>"
    have "residentPages fh' = residentPages fh - {unat pageIdx}"
      using in_group(2) by (auto simp: fh'_def residentPages_def nth_list_update resetToEvicted_new fields_evicted)
    moreover have mem: "unat pageIdx \<in> residentPages fh" using fh False by (simp add: residentPages_def word_less_nat_alt)
    ultimately have card: "card (residentPages fh) = Suc (card (residentPages fh'))"
      using residentPages_finite by (metis card_Suc_Diff1)
    then have "LBUG_PAGE_SIZE \<le> usedMemory pool" using ok(2) st by (simp add: mem_ok_def word_le_nat_alt LBUG_PAGE_SIZE_def)
    moreover from this have "unat (usedMemory pool - LBUG_PAGE_SIZE) = unat (usedMemory pool) - unat LBUG_PAGE_SIZE" by (simp add: unat_sub)
    then have "mem_ok (fh', pool\<lparr>usedMemory := usedMemory pool - LBUG_PAGE_SIZE\<rparr>)"
      using ok(2) st card by (simp add: mem_ok_def)
    moreover have "fs_ok (fh', pool\<lparr>usedMemory := usedMemory pool - LBUG_PAGE_SIZE\<rparr>)"
      using ok(1) st by (simp add: fs_ok_def fh_ok_def fh'_def)
    ultimately show ?thesis
      using less st word False frame
      by (simp add: removePageFromFrameIfNecessary_def removePageFromFrame_def freeUsedMemory_def fh'_def Let_def)
  qed
next
  case False
  then have "fhNumPages (fst st) \<le> pageIdx" by simp
  then show ?thesis using ok by (simp add: removePageFromFrameIfNecessary_def)
qed

lemma truncate_mem_ok:
  assumes "fs_ok (fh, pool)" "mem_ok (fh, pool)" "removePageIdxAndTruncateIfNecessary pageIdx fh = (fh', r)"
  shows "mem_ok (fh', pool)"
proof -
  have fh: "fh_ok fh" using assms(1) by (simp add: fs_ok_def)
  then have pages: "fhNumPages fh' \<le> fhNumPages fh" using removePageIdx_ok [of fh pageIdx] assms(3) by auto
  have "pageStates fh' ! k = pageStates fh ! k" if "k < length (pageStates fh)" for k
    using assms(3) states_resize_keeps(2) [OF that] by (auto simp: removePageIdxAndTruncateIfNecessary_def Let_def assertR_def bindS_def split: if_splits)
  then have "residentPages fh' \<subseteq> residentPages fh"
    using fh pages by (auto simp: residentPages_def fh_ok_def word_le_nat_alt)
  then show ?thesis using mem_ok_mono [OF assms(2)] by simp
qed

lemma addNewPage_mem_ok:
  assumes ok: "fs_ok st" "mem_ok st" and add: "addNewPageWithoutLock st = (st', Inr p)"
  shows "mem_ok st' \<and> unat (fhNumPages (fst st')) = unat (fhNumPages (fst st)) + 1"
proof -
  obtain st1 where st1: "fs_ok st1" "mem_ok st1" "fhNumPages (fst st1) < pageCapacity (fst st1)" "takePage st1 = (st', Inr p)"
    "fhNumPages (fst st1) = fhNumPages (fst st)"
  proof (cases "fhNumPages (fst st) = pageCapacity (fst st)")
    case True
    then obtain st1 where 1: "addNewPageGroupWithoutLock st = (st1, Inr ())" "takePage st1 = (st', Inr p)"
      using add by (auto simp: addNewPageWithoutLock_def)
    note ok1 = addNewPageGroup_fs_ok [OF ok(1) 1(1)]
    have "residentPages (fst st1) \<subseteq> residentPages (fst st)" "usedMemory (snd st1) = usedMemory (snd st)"
      using 1(1) ok(1) ok1 states_resize_keeps(2) [of _ "pageStates (fst st)"]
      by (auto simp: addNewPageGroupWithoutLock_def addNewFrameGroup_def Let_def residentPages_def fs_ok_def fh_ok_def word_le_nat_alt
          split: prod.splits if_splits)
    then have "mem_ok st1" using mem_ok_mono [OF ok(2)] by blast
    moreover have "fhNumPages (fst st1) < pageCapacity (fst st1)" using ok1 True by (simp add: word_less_nat_alt PAGE_GROUP_SIZE_def)
    ultimately show ?thesis using that ok1 1(2) by blast
  next
    case False
    then have "fhNumPages (fst st) < pageCapacity (fst st)" using ok by (auto simp: fs_ok_def fh_ok_def less_le)
    then show ?thesis using that [OF ok] add False by (simp add: addNewPageWithoutLock_def)
  qed
  obtain fh pool where st1_def: "st1 = (fh, pool)" by (cases st1)
  have len: "unat (fhNumPages fh) < length (pageStates fh)" using st1(1,3) st1_def by (simp add: fs_ok_def fh_ok_def word_less_nat_alt)
  have st': "st' = (fh\<lparr>fhNumPages := fhNumPages fh + 1, pageStates := (pageStates fh)[unat (fhNumPages fh) :=
      resetToEvicted (pageStates fh ! unat (fhNumPages fh))]\<rparr>, pool)"
    using st1(4) st1_def len by (auto simp: takePage_def Let_def)
  have next_page: "unat (fhNumPages fh + 1) = unat (fhNumPages fh) + 1" using takePage_ok [OF _ st1(3)] st1(1,4) st1_def st' by (auto simp: fs_ok_def)
  have "residentPages (fst st') \<subseteq> residentPages fh"
    unfolding st' using len next_page by (auto simp: residentPages_def nth_list_update resetToEvicted_new fields_evicted less_Suc_eq split: if_splits)
  then show ?thesis using mem_ok_mono [OF st1(2)] st1(5) next_page st' st1_def by simp
qed

lemma addPagesLoop_mem_ok:
  assumes "fs_ok st" "mem_ok st" "addPagesLoop n st = (st', Inr u)"
  shows "mem_ok st' \<and> unat (fhNumPages (fst st')) = unat (fhNumPages (fst st)) + n"
  using assms
proof (induction n arbitrary: st)
  case (Suc n)
  obtain st1 p where st1: "addNewPageWithoutLock st = (st1, Inr p)" "addPagesLoop n st1 = (st', Inr u)"
    using Suc.prems(3) by (auto simp: bindS_def split: prod.splits sum.splits)
  then show ?case using Suc.IH [of st1] addNewPage_mem_ok [OF Suc.prems(1,2) st1(1)] addNewPage_fs_ok [OF Suc.prems(1) st1(1)] by simp
qed simp

text \<open>Opening a file.\<close>

lemma capacityFor_value:
  "capacityFor pages capacity = (if capacity < pages then capacity + (pages - capacity + PAGE_GROUP_SIZE - 1) div PAGE_GROUP_SIZE * PAGE_GROUP_SIZE else capacity)"
proof (induction pages capacity rule: capacityFor.induct)
  case (1 pages capacity)
  show ?case
  proof (cases "capacity < pages")
    case True
    have "(pages - capacity + PAGE_GROUP_SIZE - 1) div PAGE_GROUP_SIZE =
        (if capacity + PAGE_GROUP_SIZE < pages then (pages - (capacity + PAGE_GROUP_SIZE) + PAGE_GROUP_SIZE - 1) div PAGE_GROUP_SIZE + 1 else 1)"
    proof (cases "capacity + PAGE_GROUP_SIZE < pages")
      case True
      then have "pages - capacity + PAGE_GROUP_SIZE - 1 = (pages - (capacity + PAGE_GROUP_SIZE) + PAGE_GROUP_SIZE - 1) + PAGE_GROUP_SIZE" by simp
      then show ?thesis using True by (simp add: PAGE_GROUP_SIZE_def)
    next
      case False
      then have "pages - capacity + PAGE_GROUP_SIZE - 1 = (pages - capacity - 1) + PAGE_GROUP_SIZE" "pages - capacity - 1 < PAGE_GROUP_SIZE"
        using True by simp_all
      then show ?thesis using False by (simp add: PAGE_GROUP_SIZE_def)
    qed
    then show ?thesis using True 1 [OF True] by (subst capacityFor.simps) (auto simp: PAGE_GROUP_SIZE_def)
  qed (simp add: capacityFor.simps)
qed

lemma addFrameGroups_ok:
  assumes "addFrameGroups n pool = (pool', Inr groups)" "numFrameGroups pool \<le> maxNumFrameGroups pool" "unat (maxNumFrameGroups pool) < 2 ^ 22"
  shows "length groups = n \<and> distinct groups \<and> maxNumFrameGroups pool' = maxNumFrameGroups pool \<and> numFrameGroups pool' \<le> maxNumFrameGroups pool
    \<and> numFrameGroups pool \<le> numFrameGroups pool'
    \<and> (\<forall>g \<in> set groups. unat (numFrameGroups pool) \<le> unat g \<and> unat g < unat (numFrameGroups pool'))"
  using assms
proof (induction n arbitrary: pool pool' groups)
  case (Suc n)
  obtain pool1 g groups' where 1: "addNewFrameGroup pool = (pool1, Inr g)" "addFrameGroups n pool1 = (pool', Inr groups')" "groups = g # groups'"
    using Suc.prems(1) by auto
  have less: "numFrameGroups pool < maxNumFrameGroups pool" and pool1: "pool1 = pool\<lparr>numFrameGroups := numFrameGroups pool + 1\<rparr>"
    and g: "g = ucast (numFrameGroups pool)"
    using 1(1) by (auto simp: addNewFrameGroup_def not_le split: if_splits)
  have unat_g: "unat g = unat (numFrameGroups pool)"
    using less Suc.prems(3) unfolding g by (simp add: word_less_nat_alt unsigned_ucast_eq take_bit_nat_eq_self)
  have next_group: "unat (numFrameGroups pool + 1) = unat (numFrameGroups pool) + 1"
    using less unsigned_less [of "maxNumFrameGroups pool", where ?'a = nat] by (simp add: unat_word_ariths word_less_nat_alt)
  have "numFrameGroups pool1 \<le> maxNumFrameGroups pool1"
    using less next_group unfolding pool1 by (simp add: word_less_nat_alt word_le_nat_alt)
  from Suc.IH [OF 1(2) this] Suc.prems(3) unat_g next_group show ?case
    unfolding 1(3) pool1 by (auto simp: word_le_nat_alt Suc_le_eq)
qed simp

lemma open_fs_ok:
  assumes "FileHandle_open fileLength pool = (pool', Inr fh)" "pagesOfLength fileLength \<le> 2 ^ 32 - PAGE_GROUP_SIZE"
    and "numFrameGroups pool \<le> maxNumFrameGroups pool" "unat (maxNumFrameGroups pool) < 2 ^ 22"
  shows "fs_ok (fh, pool')"
proof -
  let ?n = "pagesOfLength fileLength"
  have n: "?n < 2 ^ 32 - 1023" using assms(2) by (simp add: PAGE_GROUP_SIZE_def)
  have pages: "unat (of_nat ?n :: u32) = ?n" using n by (simp add: unsigned_of_nat take_bit_nat_eq_self)
  have cap: "capacityFor ?n 0 = PAGE_GROUP_SIZE * ((?n + PAGE_GROUP_SIZE - 1) div PAGE_GROUP_SIZE)"
    by (cases "?n = 0") (simp_all add: capacityFor_value PAGE_GROUP_SIZE_def)
  have ge: "?n \<le> capacityFor ?n 0" "capacityFor ?n 0 < 2 ^ 32" unfolding cap using n by (auto simp: PAGE_GROUP_SIZE_def)
  have cap32: "unat (of_nat (capacityFor ?n 0) :: u32) = capacityFor ?n 0" using ge by (simp add: unsigned_of_nat take_bit_nat_eq_self)
  obtain groups where groups: "addFrameGroups ((?n + PAGE_GROUP_SIZE - 1) div PAGE_GROUP_SIZE) pool = (pool', Inr groups)"
    "fh = \<lparr>fhNumPages = of_nat ?n, pageCapacity = of_nat (capacityFor ?n 0), pageStates = replicate (capacityFor ?n 0) PageState_new,
       frameGroupIdxes = groups\<rparr>"
    using assms(1) pages by (auto simp: FileHandle_open_def getNumPageGroups_def Let_def)
  show ?thesis
    using addFrameGroups_ok [OF groups(1) assms(3,4)] pages cap32 ge cap assms(4)
    unfolding groups(2) by (simp add: fs_ok_def fh_ok_def word_le_nat_alt)
qed

text \<open>
  The states of a file handle as long as the region of frames is not exhausted: every addition of pages
  succeeds. What a failed one leaves behind is not among them; it is the subject of the last theorem below.
\<close>

inductive fh_reach :: "file_state \<Rightarrow> bool" where
  opened: "FileHandle_open fileLength pool = (pool', Inr fh) \<Longrightarrow> pagesOfLength fileLength \<le> 2 ^ 32 - PAGE_GROUP_SIZE \<Longrightarrow>
    numFrameGroups pool \<le> maxNumFrameGroups pool \<Longrightarrow> unat (maxNumFrameGroups pool) < 2 ^ 22 \<Longrightarrow> fh_reach (fh, pool')"
| added: "fh_reach st \<Longrightarrow> addNewPages n st = (st', Inr p) \<Longrightarrow> fh_reach st'"
| truncated: "fh_reach (fh, pool) \<Longrightarrow> removePageIdxAndTruncateIfNecessary k fh = (fh', r) \<Longrightarrow> fh_reach (fh', pool)"
| removed: "fh_reach st \<Longrightarrow> removePageFromFrameIfNecessary k st = Inr st' \<Longrightarrow> fh_reach st'"

lemma fh_reach_ok: "fh_reach st \<Longrightarrow> fs_ok st"
proof (induction rule: fh_reach.induct)
  case (added st n st' p)
  then obtain u where "addPagesLoop (unat n) st = (st', Inr u)" by (auto simp: addNewPages_def)
  then show ?case using addPagesLoop_fs_ok added.IH by blast
qed (auto intro: open_fs_ok truncate_fs_ok removePage_fs_ok)

text \<open>
  C25. Every page of a file has a state and a frame of its own: after any sequence of opening,
  adding pages, truncating and removing pages from frames in which the region of frames is not
  exhausted, two different pages have frame indexes, these are different, and the states of both
  exist. The region may have up to \<open>2 ^ 22\<close> groups of frames.
\<close>

theorem pages_have_own_frames:
  assumes "fh_reach (fh, pool)" "p < fhNumPages fh" "q < fhNumPages fh" "p \<noteq> q"
  shows "\<exists>f g. getFrameIdx p fh = Inr f \<and> getFrameIdx q fh = Inr g \<and> f \<noteq> g
    \<and> unat p < length (pageStates fh) \<and> unat q < length (pageStates fh)"
proof -
  have ok: "fh_ok fh" "distinct (frameGroupIdxes fh)" and small: "\<forall>g \<in> set (frameGroupIdxes fh). unat g < 2 ^ 22"
    using fh_reach_ok [OF assms(1)] by (auto simp: fs_ok_def word_le_nat_alt dest: less_le_trans)
  let ?g = "\<lambda>p :: u32. frameGroupIdxes fh ! (unat p div PAGE_GROUP_SIZE)"
  have frame: "\<exists>f. getFrameIdx k fh = Inr f \<and> unat f = PAGE_GROUP_SIZE * unat (?g k) + unat k mod PAGE_GROUP_SIZE" if "k < fhNumPages fh" for k
    using getFrameIdx_value [OF ok(1) that] small fh_ok_group(1) [OF ok(1) that] nth_mem by blast
  obtain f g where fg: "getFrameIdx p fh = Inr f" "unat f = PAGE_GROUP_SIZE * unat (?g p) + unat p mod PAGE_GROUP_SIZE"
      "getFrameIdx q fh = Inr g" "unat g = PAGE_GROUP_SIZE * unat (?g q) + unat q mod PAGE_GROUP_SIZE"
    using frame [OF assms(2)] frame [OF assms(3)] by blast
  have "f \<noteq> g"
  proof
    assume "f = g"
    then have eq: "PAGE_GROUP_SIZE * unat (?g p) + unat p mod PAGE_GROUP_SIZE = PAGE_GROUP_SIZE * unat (?g q) + unat q mod PAGE_GROUP_SIZE"
      using fg by simp
    have less: "unat p mod PAGE_GROUP_SIZE < PAGE_GROUP_SIZE" "unat q mod PAGE_GROUP_SIZE < PAGE_GROUP_SIZE" by (simp_all add: PAGE_GROUP_SIZE_def)
    from arg_cong [OF eq, of "\<lambda>n. n div PAGE_GROUP_SIZE"] have "?g p = ?g q" using less by (simp add: word_unat_eq_iff)
    then have "unat p div PAGE_GROUP_SIZE = unat q div PAGE_GROUP_SIZE"
      using ok(2) fh_ok_group(1) [OF ok(1) assms(2)] fh_ok_group(1) [OF ok(1) assms(3)] by (simp add: nth_eq_iff_index_eq)
    moreover from arg_cong [OF eq, of "\<lambda>n. n mod PAGE_GROUP_SIZE"] have "unat p mod PAGE_GROUP_SIZE = unat q mod PAGE_GROUP_SIZE" by simp
    ultimately have "unat p = unat q" by (metis div_mult_mod_eq)
    then show False using assms(4) by (simp add: word_unat_eq_iff)
  qed
  then show ?thesis using fg(1,3) fh_ok_group(2) [OF ok(1) assms(2)] fh_ok_group(2) [OF ok(1) assms(3)] by blast
qed

definition example_pool :: buffer_pool where
  "example_pool = \<lparr>usedMemory = 0, numFrameGroups = 0, maxNumFrameGroups = 2\<rparr>"

definition example_file :: file_handle where
  "example_file = \<lparr>fhNumPages = 2, pageCapacity = 1024, pageStates = replicate 1024 PageState_new, frameGroupIdxes = [0]\<rparr>"

lemma example_file_opened: "FileHandle_open 8192 example_pool = (example_pool\<lparr>numFrameGroups := 1\<rparr>, Inr example_file)"
  by (simp add: FileHandle_open_def pagesOfLength_def LBUG_PAGE_SIZE_def capacityFor_value getNumPageGroups_def PAGE_GROUP_SIZE_def
      addNewFrameGroup_def example_pool_def example_file_def Let_def)

lemma example_file_reached: "fh_reach (example_file, example_pool\<lparr>numFrameGroups := 1\<rparr>)"
  by (rule opened [OF example_file_opened])
    (simp_all add: pagesOfLength_def LBUG_PAGE_SIZE_def PAGE_GROUP_SIZE_def example_pool_def)

theorem pages_have_own_frames_witness:
  "\<exists>f g. getFrameIdx 0 example_file = Inr f \<and> getFrameIdx 1 example_file = Inr g \<and> f \<noteq> g
    \<and> unat (0 :: u32) < length (pageStates example_file) \<and> unat (1 :: u32) < length (pageStates example_file)"
  by (rule pages_have_own_frames [OF example_file_reached]) (simp_all add: example_file_def)

text \<open>
  C30. When the region of frames is exhausted, adding a page to a full file throws, but the capacity
  has already been raised: the next call takes the page without adding a group, and the page it
  returns has no frame, so looking up its frame reads past the end of the group indexes.
\<close>

theorem exhausted_region_leaves_page_without_frame:
  assumes "fh_ok fh" "fhNumPages fh = pageCapacity fh" "length (frameGroupIdxes fh) < 2 ^ 22 - 1" "numFrameGroups pool \<ge> maxNumFrameGroups pool"
  shows "\<exists>st1 st2. addNewPage (fh, pool) = (st1, Inl noFrameGroups) \<and> addNewPage st1 = (st2, Inr (fhNumPages fh))
    \<and> getFrameIdx (fhNumPages fh) (fst st2) = Inl OutOfBounds"
proof -
  let ?capacity = "pageCapacity fh + of_nat PAGE_GROUP_SIZE"
  let ?fh1 = "fh\<lparr>pageCapacity := ?capacity, pageStates := states_resize (unat ?capacity) (pageStates fh)\<rparr>"
  have cap: "unat (pageCapacity fh) = PAGE_GROUP_SIZE * length (frameGroupIdxes fh)" using assms(1) by (simp add: fh_ok_def)
  then have cap': "unat ?capacity = unat (pageCapacity fh) + PAGE_GROUP_SIZE"
    using assms(3) by (simp add: unat_word_ariths PAGE_GROUP_SIZE_def)
  have less: "fhNumPages fh < ?capacity" unfolding assms(2) word_less_nat_alt cap' by (simp add: PAGE_GROUP_SIZE_def)
  have len: "unat (fhNumPages fh) < length (pageStates ?fh1)"
    using states_resize_length [of "unat ?capacity" "pageStates fh"] less by (simp add: word_less_nat_alt)
  have first: "addNewPage (fh, pool) = ((?fh1, pool), Inl noFrameGroups)"
    using assms(2,4) by (simp add: addNewPage_def addNewPages_def addNewPageWithoutLock_def addNewPageGroupWithoutLock_def
        addNewFrameGroup_def Let_def bindS_def)
  obtain st2 where st2: "addNewPage (?fh1, pool) = (st2, Inr (fhNumPages fh))" "frameGroupIdxes (fst st2) = frameGroupIdxes fh"
      "pageCapacity (fst st2) = ?capacity"
    using less_imp_neq [OF less] len by (simp add: addNewPage_def addNewPages_def addNewPageWithoutLock_def takePage_def Let_def bindS_def)
  have "unat (drop_bit PAGE_GROUP_SIZE_LOG2 (fhNumPages fh)) = length (frameGroupIdxes fh)"
    using assms(2) cap by (simp add: PAGE_GROUP_SIZE_LOG2_def PAGE_GROUP_SIZE_def drop_bit_eq_div unat_div_distrib)
  then have "getFrameIdx (fhNumPages fh) (fst st2) = Inl OutOfBounds" using less st2(2,3) by (simp add: getFrameIdx_def nthR_def)
  then show ?thesis using first st2(1) by blast
qed

theorem exhausted_region_leaves_page_without_frame_witness:
  "\<exists>st1 st2. addNewPage (example_file\<lparr>fhNumPages := 1024\<rparr>, example_pool\<lparr>numFrameGroups := 2\<rparr>) = (st1, Inl noFrameGroups)
    \<and> addNewPage st1 = (st2, Inr 1024) \<and> getFrameIdx 1024 (fst st2) = Inl OutOfBounds"
  using exhausted_region_leaves_page_without_frame [of "example_file\<lparr>fhNumPages := 1024\<rparr>" "example_pool\<lparr>numFrameGroups := 2\<rparr>"]
  by (simp add: example_file_def example_pool_def fh_ok_def PAGE_GROUP_SIZE_def)

end
