(* ===== verification/Free_Space.thy ===== *)
theory Free_Space
  imports File_Handle Wal_Records "HOL-Library.Multiset"
begin

text \<open>
  The free space of the data file: the free lists of
  \<^verbatim>\<open>src/src/storage/free_space_manager.cpp\<close>, one sorted set of page ranges per power of two, the
  page manager of \<^verbatim>\<open>src/src/storage/page_manager.cpp\<close> that allocates from them and from the end
  of the file, and the allocator of \<^verbatim>\<open>src/src/storage/optimistic_allocator.cpp\<close> that can give
  back what it allocated.

  A \<^verbatim>\<open>std::set\<close> ordered by \<^verbatim>\<open>entryCmp\<close> is the sorted list of its elements. Page
  indexes and numbers of pages are 32-bit words, with the wrap-around of the code. The sort of
  \<^verbatim>\<open>mergePageRanges\<close> is a sort by start page; ranges of the same start, which the assertion of
  the merge refuses unless they are empty, are in the order they had. The template parameter
  \<^verbatim>\<open>ValueProcessor\<close> of the serialization is a pair of functions.
\<close>

section \<open>Page ranges and the sets of them\<close>

record page_range =
  startPageIdx :: u32
  numPages :: u32

definition PageRange :: "u32 \<Rightarrow> u32 \<Rightarrow> page_range" where
  "PageRange start num = \<lparr>startPageIdx = start, numPages = num\<rparr>"

definition subrange :: "u32 \<Rightarrow> page_range \<Rightarrow> page_range res" where
  "subrange newStartPage r =
     bindR (assertR (newStartPage \<le> numPages r)) (\<lambda>_.
     Inr (PageRange (startPageIdx r + newStartPage) (numPages r - newStartPage)))"

definition entryCmp :: "page_range \<Rightarrow> page_range \<Rightarrow> bool" where
  "entryCmp a b = (if numPages a = numPages b then startPageIdx a < startPageIdx b else numPages a < numPages b)"

fun set_insert :: "page_range \<Rightarrow> page_range list \<Rightarrow> page_range list" where
  "set_insert e [] = [e]"
| "set_insert e (x # xs) = (if entryCmp e x then e # x # xs else if entryCmp x e then x # set_insert e xs else x # xs)"

definition set_contains :: "page_range \<Rightarrow> page_range list \<Rightarrow> bool" where
  "set_contains e xs = list_ex (\<lambda>x. \<not> entryCmp x e \<and> \<not> entryCmp e x) xs"

definition set_lower_bound :: "page_range \<Rightarrow> page_range list \<Rightarrow> page_range option" where
  "set_lower_bound e xs = find (\<lambda>x. \<not> entryCmp x e) xs"

section \<open>The free space manager\<close>

record free_space_manager =
  freeLists :: "page_range list list"
  uncheckpointedFreePageRanges :: "page_range list"
  numEntries :: u64
  needClearEvictedEntries :: bool

definition FreeSpaceManager_new :: free_space_manager where
  "FreeSpaceManager_new = \<lparr>freeLists = [], uncheckpointedFreePageRanges = [], numEntries = 0, needClearEvictedEntries = False\<rparr>"

text \<open>\<^verbatim>\<open>std::bit_floor\<close> and \<^verbatim>\<open>std::countr_zero\<close> of a 32-bit word.\<close>

definition bit_floor :: "u32 \<Rightarrow> u32" where
  "bit_floor n = fold (\<lambda>i p. if 2 ^ i \<le> n then 2 ^ i else p) [0..<32] 0"

definition countr_zero :: "u32 \<Rightarrow> nat" where
  "countr_zero n = (case find (bit n) [0..<32] of Some i \<Rightarrow> i | None \<Rightarrow> 32)"

definition getLevel :: "u32 \<Rightarrow> nat res" where
  "getLevel n = bindR (assertR (n > 0)) (\<lambda>_. Inr (countr_zero (bit_floor n)))"

definition getFreeList :: "nat \<Rightarrow> page_range list list \<Rightarrow> page_range list list" where
  "getFreeList level fls = (if level \<ge> length fls then fls @ replicate (level + 1 - length fls) [] else fls)"

definition addFreePages :: "page_range \<Rightarrow> free_space_manager \<Rightarrow> free_space_manager res" where
  "addFreePages entry fsm =
     bindR (assertR (numPages entry > 0)) (\<lambda>_.
     bindR (getLevel (numPages entry)) (\<lambda>entryLevel.
     let fls = getFreeList entryLevel (freeLists fsm) in
     bindR (assertR (\<not> set_contains entry (fls ! entryLevel))) (\<lambda>_.
     Inr (fsm\<lparr>freeLists := fls[entryLevel := set_insert entry (fls ! entryLevel)], numEntries := numEntries fsm + 1\<rparr>))))"

definition addUncheckpointedFreePages :: "page_range \<Rightarrow> free_space_manager \<Rightarrow> free_space_manager" where
  "addUncheckpointedFreePages entry fsm =
     fsm\<lparr>uncheckpointedFreePageRanges := uncheckpointedFreePageRanges fsm @ [entry]\<rparr>"

definition rollbackCheckpoint :: "free_space_manager \<Rightarrow> free_space_manager" where
  "rollbackCheckpoint fsm = fsm\<lparr>uncheckpointedFreePageRanges := []\<rparr>"

definition splitPageRange :: "page_range \<Rightarrow> u32 \<Rightarrow> free_space_manager \<Rightarrow> (free_space_manager \<times> page_range) res" where
  "splitPageRange chunk numRequiredPages fsm =
     bindR (assertR (numPages chunk \<ge> numRequiredPages)) (\<lambda>_.
     let ret = PageRange (startPageIdx chunk) numRequiredPages in
     if numRequiredPages < numPages chunk then
       bindR (addFreePages (PageRange (startPageIdx chunk + numRequiredPages) (numPages chunk - numRequiredPages)) fsm) (\<lambda>fsm.
       Inr (fsm, ret))
     else Inr (fsm, ret))"

text \<open>The loop over the levels that may hold a large enough range.\<close>

fun popLevels :: "u32 \<Rightarrow> nat list \<Rightarrow> free_space_manager \<Rightarrow> (free_space_manager \<times> page_range option) res" where
  "popLevels n [] fsm = Inr (fsm, None)"
| "popLevels n (level # levels) fsm =
     (case set_lower_bound (PageRange 0 n) (freeLists fsm ! level) of
        None \<Rightarrow> popLevels n levels fsm
      | Some entry \<Rightarrow>
          let fsm = fsm\<lparr>freeLists := (freeLists fsm)[level := remove1 entry (freeLists fsm ! level)], numEntries := numEntries fsm - 1\<rparr> in
          bindR (splitPageRange entry n fsm) (\<lambda>(fsm, r). Inr (fsm, Some r)))"

definition popFreePages :: "u32 \<Rightarrow> free_space_manager \<Rightarrow> (free_space_manager \<times> page_range option) res" where
  "popFreePages n fsm =
     (if n > 0 then bindR (getLevel n) (\<lambda>level. popLevels n [level..<length (freeLists fsm)] fsm)
      else Inr (fsm, None))"

section \<open>Iterating over the entries\<close>

record free_entry_iterator =
  freeListIdx :: nat
  freeListIt :: nat

function advanceFreeListIdx :: "page_range list list \<Rightarrow> free_entry_iterator \<Rightarrow> free_entry_iterator" where
  "advanceFreeListIdx fls it =
     (if freeListIdx it < length fls then
        if fls ! freeListIdx it \<noteq> [] then it\<lparr>freeListIt := 0\<rparr>
        else advanceFreeListIdx fls (it\<lparr>freeListIdx := freeListIdx it + 1\<rparr>)
      else it)"
  by pat_completeness auto
termination
  by (relation "measure (\<lambda>(fls, it). length fls - freeListIdx it)") auto

declare advanceFreeListIdx.simps [simp del]

definition FreeEntryIterator_new :: "page_range list list \<Rightarrow> free_entry_iterator" where
  "FreeEntryIterator_new fls = advanceFreeListIdx fls \<lparr>freeListIdx = 0, freeListIt = 0\<rparr>"

definition it_next :: "page_range list list \<Rightarrow> free_entry_iterator \<Rightarrow> free_entry_iterator res" where
  "it_next fls it =
     bindR (assertR (freeListIdx it < length fls)) (\<lambda>_.
     let it = it\<lparr>freeListIt := freeListIt it + 1\<rparr> in
     Inr (if freeListIt it = length (fls ! freeListIdx it)
          then advanceFreeListIdx fls (it\<lparr>freeListIdx := freeListIdx it + 1\<rparr>) else it))"

definition it_done :: "page_range list list \<Rightarrow> free_entry_iterator \<Rightarrow> bool" where
  "it_done fls it = (freeListIdx it \<ge> length fls)"

definition it_deref :: "page_range list list \<Rightarrow> free_entry_iterator \<Rightarrow> page_range res" where
  "it_deref fls it =
     bindR (assertR (freeListIdx it < length fls \<and> freeListIt it \<noteq> length (fls ! freeListIdx it))) (\<lambda>_.
     nthR (fls ! freeListIdx it) (freeListIt it))"

fun it_advance :: "page_range list list \<Rightarrow> nat \<Rightarrow> free_entry_iterator \<Rightarrow> free_entry_iterator res" where
  "it_advance fls 0 it = Inr it"
| "it_advance fls (Suc n) it = bindR (it_next fls it) (it_advance fls n)"

fun takeEntries :: "page_range list list \<Rightarrow> nat \<Rightarrow> free_entry_iterator \<Rightarrow> page_range list res" where
  "takeEntries fls 0 it = Inr []"
| "takeEntries fls (Suc n) it =
     bindR (assertR (\<not> it_done fls it)) (\<lambda>_.
     bindR (it_deref fls it) (\<lambda>entry.
     bindR (it_next fls it) (\<lambda>it.
     bindR (takeEntries fls n it) (\<lambda>ret. Inr (entry # ret)))))"

definition getEntries_fsm :: "nat \<Rightarrow> nat \<Rightarrow> free_space_manager \<Rightarrow> page_range list res" where
  "getEntries_fsm startOffset endOffset fsm =
     bindR (assertR (endOffset \<ge> startOffset)) (\<lambda>_.
     bindR (it_advance (freeLists fsm) startOffset (FreeEntryIterator_new (freeLists fsm))) (\<lambda>it.
     takeEntries (freeLists fsm) (endOffset - startOffset) it))"

section \<open>Storing the free lists\<close>

record 'p value_processor =
  processValue :: "u8 list \<Rightarrow> 'p \<Rightarrow> 'p"
  processDebuggingInfo :: "string \<Rightarrow> 'p \<Rightarrow> 'p"

definition processEntry :: "'p value_processor \<Rightarrow> page_range \<Rightarrow> 'p \<Rightarrow> 'p" where
  "processEntry ser entry p = processValue ser (serializeU32 (numPages entry)) (processValue ser (serializeU32 (startPageIdx entry)) p)"

partial_function (option) serializeCheckpointedEntries ::
  "'p value_processor \<Rightarrow> page_range list list \<Rightarrow> free_entry_iterator \<Rightarrow> u64 \<Rightarrow> 'p \<Rightarrow> ('p \<times> u64) res option" where
  "serializeCheckpointedEntries ser fls entryIt numWrittenEntries p =
     (if it_done fls entryIt then Some (Inr (p, numWrittenEntries))
      else case it_deref fls entryIt of
        Inl e \<Rightarrow> Some (Inl e)
      | Inr entry \<Rightarrow>
          (case it_next fls entryIt of
             Inl e \<Rightarrow> Some (Inl e)
           | Inr it \<Rightarrow> serializeCheckpointedEntries ser fls it (numWrittenEntries + 1) (processEntry ser entry p)))"

definition serializeUncheckpointedEntries :: "'p value_processor \<Rightarrow> page_range list \<Rightarrow> 'p \<Rightarrow> 'p \<times> u64" where
  "serializeUncheckpointedEntries ser es p = (fold (processEntry ser) es p, of_nat (length es))"

definition serializeInternal :: "'p value_processor \<Rightarrow> free_space_manager \<Rightarrow> 'p \<Rightarrow> 'p res option" where
  "serializeInternal ser fsm p =
     (let num = numEntries fsm + of_nat (length (uncheckpointedFreePageRanges fsm));
          p = processDebuggingInfo ser ''page_manager'' p;
          p = processDebuggingInfo ser ''numEntries'' p;
          p = processValue ser (serializeU64 num) p;
          p = processDebuggingInfo ser ''entries'' p in
      case serializeCheckpointedEntries ser (freeLists fsm) (FreeEntryIterator_new (freeLists fsm)) 0 p of
        None \<Rightarrow> None
      | Some (Inl e) \<Rightarrow> Some (Inl e)
      | Some (Inr (p, numCheckpointedEntries)) \<Rightarrow>
          let (p, numUncheckpointedEntries) = serializeUncheckpointedEntries ser (uncheckpointedFreePageRanges fsm) p in
          Some (bindR (assertR (numCheckpointedEntries + numUncheckpointedEntries = num)) (\<lambda>_. Inr p)))"

record pages_used_tracker =
  numPagesUsed :: u32
  numBytesUsedInPage :: u64

definition updatePagesUsed :: "nat \<Rightarrow> pages_used_tracker \<Rightarrow> pages_used_tracker" where
  "updatePagesUsed numBytesToAdd t =
     (let t = (if numBytesUsedInPage t + of_nat numBytesToAdd > LBUG_PAGE_SIZE
               then t\<lparr>numPagesUsed := numPagesUsed t + 1, numBytesUsedInPage := 0\<rparr> else t) in
      t\<lparr>numBytesUsedInPage := numBytesUsedInPage t + of_nat numBytesToAdd\<rparr>)"

definition SerializePagesUsedTracker :: "pages_used_tracker value_processor" where
  "SerializePagesUsedTracker =
     \<lparr>processValue = (\<lambda>bs. updatePagesUsed (length bs)), processDebuggingInfo = (\<lambda>value. updatePagesUsed (8 + length value))\<rparr>"

definition ValueSerializer :: "bool \<Rightarrow> u8 list value_processor" where
  "ValueSerializer dbg = \<lparr>processValue = (\<lambda>bs out. out @ bs), processDebuggingInfo = (\<lambda>value out. out @ writeTag dbg value)\<rparr>"

definition getMaxNumPagesForSerialization :: "free_space_manager \<Rightarrow> u32 res option" where
  "getMaxNumPagesForSerialization fsm =
     (case serializeInternal SerializePagesUsedTracker fsm \<lparr>numPagesUsed = 0, numBytesUsedInPage = 0\<rparr> of
        None \<Rightarrow> None
      | Some r \<Rightarrow> Some (bindR r (\<lambda>t. Inr (numPagesUsed t + (if numBytesUsedInPage t > 0 then 1 else 0)))))"

definition fsm_serialize :: "bool \<Rightarrow> free_space_manager \<Rightarrow> u8 list res option" where
  "fsm_serialize dbg fsm = serializeInternal (ValueSerializer dbg) fsm []"

fun deserializeFreeEntries :: "nat \<Rightarrow> free_space_manager \<Rightarrow> free_space_manager reader" where
  "deserializeFreeEntries 0 fsm bs = Inr (fsm, bs)"
| "deserializeFreeEntries (Suc n) fsm bs =
     bindR (deserializeU32 bs) (\<lambda>(start, bs).
     bindR (deserializeU32 bs) (\<lambda>(num, bs).
     bindR (addFreePages (PageRange start num) fsm) (\<lambda>fsm.
     deserializeFreeEntries n fsm bs)))"

definition fsm_deserialize :: "bool \<Rightarrow> free_space_manager \<Rightarrow> free_space_manager reader" where
  "fsm_deserialize dbg fsm =
     bindD (expectTag dbg ''page_manager'') (\<lambda>_.
     bindD (expectTag dbg ''numEntries'') (\<lambda>_.
     bindD deserializeU64 (\<lambda>num.
     bindD (expectTag dbg ''entries'') (\<lambda>_.
     deserializeFreeEntries (unat num) fsm))))"

section \<open>Checkpoints\<close>

definition evictPages_fsm :: "page_range \<Rightarrow> free_space_manager \<times> file_state \<Rightarrow> (free_space_manager \<times> file_state) res" where
  "evictPages_fsm entry fs =
     bindR (foldR (\<lambda>i. removePageFromFrameIfNecessary (startPageIdx entry + of_nat i)) [0..<unat (numPages entry)] (snd fs)) (\<lambda>st.
     Inr ((fst fs)\<lparr>needClearEvictedEntries := True\<rparr>, st))"

definition evictAndAddFreePages :: "page_range \<Rightarrow> free_space_manager \<times> file_state \<Rightarrow> (free_space_manager \<times> file_state) res" where
  "evictAndAddFreePages entry fs =
     bindR (evictPages_fsm entry fs) (\<lambda>(fsm, st).
     bindR (addFreePages entry fsm) (\<lambda>fsm. Inr (fsm, st)))"

definition resetFreeLists :: "free_space_manager \<Rightarrow> free_space_manager" where
  "resetFreeLists fsm = fsm\<lparr>freeLists := [], numEntries := 0\<rparr>"

fun mergeEntries :: "page_range \<Rightarrow> page_range list \<Rightarrow> free_space_manager \<Rightarrow> (free_space_manager \<times> page_range) res" where
  "mergeEntries prevEntry [] fsm = Inr (fsm, prevEntry)"
| "mergeEntries prevEntry (entry # es) fsm =
     bindR (assertR (startPageIdx prevEntry + numPages prevEntry \<le> startPageIdx entry)) (\<lambda>_.
     if startPageIdx prevEntry + numPages prevEntry = startPageIdx entry
     then mergeEntries (prevEntry\<lparr>numPages := numPages prevEntry + numPages entry\<rparr>) es fsm
     else bindR (addFreePages prevEntry fsm) (mergeEntries entry es))"

definition handleLastPageRange :: "page_range \<Rightarrow> free_space_manager \<times> file_state \<Rightarrow> (free_space_manager \<times> file_state) res" where
  "handleLastPageRange pageRange fs =
     (let (fsm, fh, pool) = fs in
      if startPageIdx pageRange + numPages pageRange = fhNumPages fh then
        (case removePageIdxAndTruncateIfNecessary (startPageIdx pageRange) fh of
           (fh, r) \<Rightarrow> bindR r (\<lambda>_. Inr (fsm, fh, pool)))
      else bindR (addFreePages pageRange fsm) (\<lambda>fsm. Inr (fsm, fh, pool)))"

definition mergePageRanges :: "page_range list \<Rightarrow> free_space_manager \<times> file_state \<Rightarrow> (free_space_manager \<times> file_state) res" where
  "mergePageRanges newInitialEntries fs =
     (case sort_key startPageIdx (newInitialEntries @ concat (freeLists (fst fs))) of
        [] \<Rightarrow> Inr fs
      | prevEntry # es \<Rightarrow>
          bindR (mergeEntries prevEntry es (resetFreeLists (fst fs))) (\<lambda>(fsm, prevEntry).
          handleLastPageRange prevEntry (fsm, snd fs)))"

definition finalizeCheckpoint :: "free_space_manager \<times> file_state \<Rightarrow> (free_space_manager \<times> file_state) res" where
  "finalizeCheckpoint fs =
     bindR (foldR evictPages_fsm (uncheckpointedFreePageRanges (fst fs)) fs) (\<lambda>fs.
     bindR (mergePageRanges (uncheckpointedFreePageRanges (fst fs)) ((fst fs)\<lparr>uncheckpointedFreePageRanges := []\<rparr>, snd fs)) (\<lambda>fs.
     Inr ((fst fs)\<lparr>uncheckpointedFreePageRanges := []\<rparr>, snd fs)))"

text \<open>The flag is cleared; the second result tells whether the eviction queue is cleaned.\<close>

definition clearEvictedBufferManagerEntriesIfNeeded :: "free_space_manager \<Rightarrow> free_space_manager \<times> bool" where
  "clearEvictedBufferManagerEntriesIfNeeded fsm =
     (if needClearEvictedEntries fsm then (fsm\<lparr>needClearEvictedEntries := False\<rparr>, True) else (fsm, False))"

section \<open>The page manager and the optimistic allocator\<close>

record page_manager =
  freeSpaceManager :: free_space_manager
  pmVersion :: u64

type_synonym pm_state = "page_manager \<times> file_state"

definition changedSinceLastCheckpoint :: "page_manager \<Rightarrow> bool" where
  "changedSinceLastCheckpoint pm \<longleftrightarrow> pmVersion pm \<noteq> 0"

definition resetVersion :: "page_manager \<Rightarrow> page_manager" where
  "resetVersion pm = pm\<lparr>pmVersion := 0\<rparr>"

definition allocatePageRange :: "u32 \<Rightarrow> pm_state \<Rightarrow> pm_state \<times> page_range res" where
  "allocatePageRange n ps =
     (let (pm, st) = ps in
      case popFreePages n (freeSpaceManager pm) of
        Inl e \<Rightarrow> (ps, Inl e)
      | Inr (fsm, Some r) \<Rightarrow> ((pm\<lparr>freeSpaceManager := fsm, pmVersion := pmVersion pm + 1\<rparr>, st), Inr r)
      | Inr (fsm, None) \<Rightarrow>
          bindS (case addNewPages n st of (st, r) \<Rightarrow> ((pm\<lparr>freeSpaceManager := fsm\<rparr>, st), r)) (\<lambda>start (pm, st).
          bindS ((pm, st), assertR (fhNumPages (fst st) \<ge> start + n)) (\<lambda>_ ps. (ps, Inr (PageRange start n)))))"

definition freePageRange :: "page_range \<Rightarrow> page_manager \<Rightarrow> page_manager" where
  "freePageRange entry pm =
     pm\<lparr>freeSpaceManager := addUncheckpointedFreePages entry (freeSpaceManager pm), pmVersion := pmVersion pm + 1\<rparr>"

definition freeImmediatelyRewritablePageRange :: "page_range \<Rightarrow> pm_state \<Rightarrow> pm_state res" where
  "freeImmediatelyRewritablePageRange entry ps =
     bindR (evictAndAddFreePages entry (freeSpaceManager (fst ps), snd ps)) (\<lambda>(fsm, st).
     Inr ((fst ps)\<lparr>freeSpaceManager := fsm, pmVersion := pmVersion (fst ps) + 1\<rparr>, st))"

definition pm_finalizeCheckpoint :: "pm_state \<Rightarrow> pm_state res" where
  "pm_finalizeCheckpoint ps =
     bindR (finalizeCheckpoint (freeSpaceManager (fst ps), snd ps)) (\<lambda>(fsm, st).
     Inr ((fst ps)\<lparr>freeSpaceManager := fsm\<rparr>, st))"

definition pm_rollbackCheckpoint :: "page_manager \<Rightarrow> page_manager" where
  "pm_rollbackCheckpoint pm = pm\<lparr>freeSpaceManager := rollbackCheckpoint (freeSpaceManager pm)\<rparr>"

text \<open>The optimistic allocator is the list of the ranges it has allocated.\<close>

definition oa_allocatePageRange :: "u32 \<Rightarrow> page_range list \<times> pm_state \<Rightarrow> (page_range list \<times> pm_state) \<times> page_range res" where
  "oa_allocatePageRange n os =
     (case allocatePageRange n (snd os) of
        (ps, Inl e) \<Rightarrow> ((fst os, ps), Inl e)
      | (ps, Inr r) \<Rightarrow> ((if n > 0 then fst os @ [r] else fst os, ps), Inr r))"

definition oa_rollback :: "page_range list \<times> pm_state \<Rightarrow> (page_range list \<times> pm_state) res" where
  "oa_rollback os = bindR (foldR freeImmediatelyRewritablePageRange (fst os) (snd os)) (\<lambda>ps. Inr ([], ps))"

definition oa_commit :: "page_range list \<times> pm_state \<Rightarrow> page_range list \<times> pm_state" where
  "oa_commit os = ([], snd os)"

section \<open>The order of the sets\<close>

lemma entryCmp_irrefl: "\<not> entryCmp a a"
  by (simp add: entryCmp_def)

lemma entryCmp_trans: "entryCmp a b \<Longrightarrow> entryCmp b c \<Longrightarrow> entryCmp a c"
  by (auto simp: entryCmp_def split: if_splits)

lemma entryCmp_total: "\<not> entryCmp a b \<Longrightarrow> \<not> entryCmp b a \<Longrightarrow> a = (b :: page_range)"
  by (cases a; cases b) (auto simp: entryCmp_def split: if_splits)

lemma set_contains_iff: "set_contains e xs \<longleftrightarrow> e \<in> set xs"
  using entryCmp_total entryCmp_irrefl by (auto simp: set_contains_def list_ex_iff)

lemma set_insert_set: "set (set_insert e xs) = insert e (set xs)"
  by (induction xs) (auto dest: entryCmp_total)

lemma set_insert_sorted:
  assumes "sorted_wrt entryCmp xs"
  shows "sorted_wrt entryCmp (set_insert e xs)"
  using assms
proof (induction xs)
  case (Cons x xs)
  then show ?case by (auto simp: set_insert_set intro: entryCmp_trans)
qed simp

lemma set_insert_length: "e \<notin> set xs \<Longrightarrow> length (set_insert e xs) = Suc (length xs)"
  by (induction xs) (auto dest: entryCmp_total)

lemma sorted_cmp_distinct: "sorted_wrt entryCmp xs \<Longrightarrow> distinct xs"
  using entryCmp_irrefl by (induction xs) auto

lemma lower_bound_cond: "\<not> entryCmp x (PageRange 0 n) \<longleftrightarrow> n \<le> numPages x"
  by (auto simp: entryCmp_def PageRange_def not_less)

lemma set_lower_bound_Some:
  assumes "sorted_wrt entryCmp xs" "set_lower_bound (PageRange 0 n) xs = Some e"
  shows "e \<in> set xs \<and> n \<le> numPages e \<and> (\<forall>x \<in> set xs. n \<le> numPages x \<longrightarrow> numPages e \<le> numPages x)"
  using assms unfolding set_lower_bound_def lower_bound_cond
proof (induction xs)
  case (Cons x xs)
  show ?case
  proof (cases "n \<le> numPages x")
    case True
    then have "e = x" using Cons.prems(2) by simp
    moreover have "numPages x \<le> numPages y" if "y \<in> set xs" for y
      using Cons.prems(1) that by (auto simp: entryCmp_def split: if_splits)
    ultimately show ?thesis using True by auto
  next
    case False
    then show ?thesis using Cons by auto
  qed
qed simp

lemma set_lower_bound_None: "set_lower_bound (PageRange 0 n) xs = None \<longleftrightarrow> (\<forall>x \<in> set xs. numPages x < n)"
  unfolding set_lower_bound_def lower_bound_cond find_None_iff by (auto simp: not_le)

section \<open>Levels\<close>

lemma bit_floor_upto:
  assumes "0 < (n :: u32)"
  shows "m \<le> 32 \<Longrightarrow> 0 < m \<Longrightarrow> \<exists>k < m. fold (\<lambda>i p. if 2 ^ i \<le> n then 2 ^ i else p) [0..<m] 0 = (2 :: u32) ^ k
    \<and> 2 ^ k \<le> unat n \<and> (unat n < 2 ^ Suc k \<or> Suc k = m)"
proof (induction m)
  case (Suc m)
  have pow: "unat (2 ^ m :: u32) = 2 ^ m" using Suc.prems unat_of_nat_32 [of "2 ^ m"] power_strict_increasing [of m 32 "2 :: nat"] by simp
  have test: "(2 :: u32) ^ m \<le> n \<longleftrightarrow> 2 ^ m \<le> unat n" unfolding word_le_nat_alt pow ..
  show ?case
  proof (cases "m = 0")
    case True
    then show ?thesis using assms by (simp add: word_less_nat_alt word_le_nat_alt Suc_le_eq)
  next
    case False
    then obtain k where k: "k < m" "fold (\<lambda>i p. if 2 ^ i \<le> n then 2 ^ i else p) [0..<m] 0 = (2 :: u32) ^ k"
      "2 ^ k \<le> unat n" "unat n < 2 ^ Suc k \<or> Suc k = m" using Suc by auto
    show ?thesis
    proof (cases "2 ^ m \<le> unat n")
      case True
      then show ?thesis using test by (intro exI [of _ m]) simp
    next
      case False
      have "Suc k = m \<Longrightarrow> unat n < 2 ^ Suc k" using False by auto
      then show ?thesis using k test False by (intro exI [of _ k]) auto
    qed
  qed
qed simp

lemma countr_zero_power: "k < 32 \<Longrightarrow> countr_zero (2 ^ k) = k"
proof -
  assume k: "k < 32"
  have bit: "bit (2 ^ k :: u32) i \<longleftrightarrow> i = k" if "i < 32" for i
    using k that by (auto simp: bit_exp_iff)
  have "find (bit (2 ^ k :: u32)) [0..<32] = Some k"
    unfolding find_Some_iff using k bit by (auto intro!: exI [of _ k])
  then show ?thesis by (simp add: countr_zero_def)
qed

lemma bit_floor_power:
  assumes "0 < n"
  shows "\<exists>k < 32. bit_floor n = 2 ^ k \<and> 2 ^ k \<le> unat n \<and> unat n < 2 ^ Suc k"
proof -
  obtain k where k: "k < 32" "bit_floor n = 2 ^ k" "2 ^ k \<le> unat n" "unat n < 2 ^ Suc k \<or> Suc k = 32"
    using bit_floor_upto [OF assms, of 32] unfolding bit_floor_def by force
  moreover have "unat n < 2 ^ 32" using unsigned_less [of n, where ?'a = nat] by simp
  ultimately show ?thesis by auto
qed

lemma getLevel_iff: "getLevel n = Inr k \<longleftrightarrow> 2 ^ k \<le> unat n \<and> unat n < 2 ^ Suc k"
proof (cases "n = 0")
  case True
  then show ?thesis by (simp add: getLevel_def)
next
  case False
  then have pos: "0 < n" by (simp add: word_less_nat_alt unat_gt_0)
  obtain j where j: "j < 32" "bit_floor n = 2 ^ j" "2 ^ j \<le> unat n" "unat n < 2 ^ Suc j"
    using bit_floor_power [OF pos] by blast
  have "getLevel n = Inr j" using pos j by (simp add: getLevel_def countr_zero_power)
  moreover have "k = j" if "2 ^ k \<le> unat n" "unat n < 2 ^ Suc k"
  proof -
    have "(2 :: nat) ^ k < 2 ^ Suc j" "(2 :: nat) ^ j < 2 ^ Suc k" using that j(3,4) by (meson le_less_trans)+
    then have "k < Suc j" "j < Suc k" 
      using power_less_imp_less_exp [of "2 :: nat" k "Suc j"] power_less_imp_less_exp [of "2 :: nat" j "Suc k"] by fastforce+
    then show ?thesis by simp
  qed
  ultimately show ?thesis using j(3,4) by auto
qed

lemma getLevel_ok: "0 < n \<Longrightarrow> \<exists>k < 32. getLevel n = Inr k"
  using bit_floor_power [of n] by (auto simp: getLevel_iff)

section \<open>The free pages\<close>

definition pagesOf :: "page_range \<Rightarrow> nat set" where
  "pagesOf r = {unat (startPageIdx r) ..< unat (startPageIdx r) + unat (numPages r)}"

definition entry_ok :: "page_range \<Rightarrow> bool" where
  "entry_ok r \<longleftrightarrow> 0 < numPages r \<and> unat (startPageIdx r) + unat (numPages r) < 2 ^ 32"

definition pagesOfAll :: "page_range set \<Rightarrow> nat set" where
  "pagesOfAll E = \<Union> (pagesOf ` E)"

definition ranges_ok :: "page_range set \<Rightarrow> bool" where
  "ranges_ok E \<longleftrightarrow> (\<forall>e \<in> E. entry_ok e) \<and> (\<forall>e \<in> E. \<forall>e' \<in> E. e \<noteq> e' \<longrightarrow> pagesOf e \<inter> pagesOf e' = {})"

definition entries :: "free_space_manager \<Rightarrow> page_range set" where
  "entries fsm = set (concat (freeLists fsm))"

text \<open>
  The lists are well-formed when each is sorted and holds the ranges of its level, and the counter
  counts the entries.
\<close>

definition lists_ok :: "page_range list list \<Rightarrow> bool" where
  "lists_ok fls \<longleftrightarrow> (\<forall>l < length fls. sorted_wrt entryCmp (fls ! l) \<and> (\<forall>e \<in> set (fls ! l). getLevel (numPages e) = Inr l))"

definition fsm_ok :: "free_space_manager \<Rightarrow> bool" where
  "fsm_ok fsm \<longleftrightarrow> lists_ok (freeLists fsm) \<and> ranges_ok (entries fsm) \<and> numEntries fsm = of_nat (length (concat (freeLists fsm)))"

lemma entry_ok_pos: "entry_ok e \<Longrightarrow> 0 < unat (numPages e)"
  by (simp add: entry_ok_def word_less_nat_alt)

lemma pagesOf_empty: "entry_ok e \<Longrightarrow> pagesOf e \<noteq> {}"
  using entry_ok_pos [of e] by (simp add: pagesOf_def)

lemma ranges_ok_insert:
  "ranges_ok E \<Longrightarrow> entry_ok e \<Longrightarrow> pagesOf e \<inter> pagesOfAll E = {} \<Longrightarrow> ranges_ok (insert e E)"
  unfolding ranges_ok_def pagesOfAll_def by blast

lemma ranges_ok_subset: "ranges_ok E \<Longrightarrow> E' \<subseteq> E \<Longrightarrow> ranges_ok E'"
  unfolding ranges_ok_def by blast

lemma pagesOfAll_insert: "pagesOfAll (insert e E) = pagesOf e \<union> pagesOfAll E"
  by (simp add: pagesOfAll_def)

lemma pagesOfAll_Un: "pagesOfAll (A \<union> B) = pagesOfAll A \<union> pagesOfAll B"
  by (simp add: pagesOfAll_def)

lemma pagesOfAll_remove: "ranges_ok E \<Longrightarrow> e \<in> E \<Longrightarrow> pagesOfAll (E - {e}) = pagesOfAll E - pagesOf e"
  unfolding ranges_ok_def pagesOfAll_def by blast

lemma level_entries:
  assumes "lists_ok fls" "l < length fls"
  shows "set (fls ! l) = {e \<in> set (concat fls). getLevel (numPages e) = Inr l}"
  using assms by (force simp: lists_ok_def in_set_conv_nth [of _ fls])

lemma lists_ok_update:
  assumes "lists_ok fls" "sorted_wrt entryCmp xs" "\<And>e. e \<in> set xs \<Longrightarrow> getLevel (numPages e) = Inr l"
  shows "lists_ok (fls[l := xs])"
  using assms by (cases "l < length fls") (auto simp: lists_ok_def nth_list_update split: if_splits)

lemma update_level_set:
  assumes "lists_ok fls" "l < length fls"
  shows "set (concat (fls[l := xs])) = set xs \<union> (set (concat fls) - set (fls ! l))"
proof -
  have split: "set (concat ys) = (\<Union>k < length ys. set (ys ! k))" for ys :: "page_range list list"
    by (force simp: in_set_conv_nth [of _ ys])
  have level: "k = l" if "k < length fls" "e \<in> set (fls ! k)" "e \<in> set (fls ! l)" for e k
    using assms that by (metis lists_ok_def sum.inject(2))
  have "set (concat (fls[l := xs])) = (\<Union>k < length fls. if k = l then set xs else set (fls ! k))"
    unfolding split by (rule SUP_cong) (simp_all add: nth_list_update assms(2))
  also have "\<dots> = set xs \<union> (\<Union>k \<in> {..<length fls} - {l}. set (fls ! k))" using assms(2) by auto
  also have "(\<Union>k \<in> {..<length fls} - {l}. set (fls ! k)) = set (concat fls) - set (fls ! l)"
    unfolding split using level by auto
  finally show ?thesis .
qed

lemma update_level_length:
  assumes "l < length fls"
  shows "length (concat (fls[l := xs])) + length (fls ! l) = length (concat fls) + length xs"
proof -
  have "length (concat (fls[l := xs])) = length (concat (take l fls)) + (length xs + length (concat (drop (Suc l) fls)))"
    using assms by (simp add: upd_conv_take_nth_drop)
  moreover have "length (concat fls) = length (concat (take l fls)) + (length (fls ! l) + length (concat (drop (Suc l) fls)))"
    using arg_cong [OF id_take_nth_drop [OF assms], of "\<lambda>f. length (concat f)"] by simp
  ultimately show ?thesis by simp
qed

lemma getFreeList_ok:
  assumes "lists_ok fls"
  shows "lists_ok (getFreeList l fls)" "concat (getFreeList l fls) = concat fls" "l < length (getFreeList l fls)"
  using assms by (auto simp: getFreeList_def lists_ok_def nth_append)

text \<open>Adding a range that is not yet free.\<close>

definition grows :: "page_range set \<Rightarrow> free_space_manager \<Rightarrow> free_space_manager \<Rightarrow> bool" where
  "grows E fsm fsm' \<longleftrightarrow> fsm_ok fsm' \<and> entries fsm' = E
     \<and> uncheckpointedFreePageRanges fsm' = uncheckpointedFreePageRanges fsm \<and> needClearEvictedEntries fsm' = needClearEvictedEntries fsm"

lemma addFreePages_ok:
  assumes ok: "fsm_ok fsm" and e: "entry_ok e" "pagesOf e \<inter> pagesOfAll (entries fsm) = {}"
  shows "\<exists>fsm'. addFreePages e fsm = Inr fsm' \<and> grows (insert e (entries fsm)) fsm fsm'"
proof -
  have pos: "0 < numPages e" using e(1) by (simp add: entry_ok_def)
  obtain l where l: "getLevel (numPages e) = Inr l" using getLevel_ok [OF pos] by blast
  define fls where "fls = getFreeList l (freeLists fsm)"
  have fls: "lists_ok fls" "concat fls = concat (freeLists fsm)" "l < length fls"
    using getFreeList_ok ok unfolding fls_def fsm_ok_def by blast+
  have new: "e \<notin> set (concat fls)" using e(2) pagesOf_empty [OF e(1)] unfolding fls(2) entries_def pagesOfAll_def by blast
  then have notin: "e \<notin> set (fls ! l)" using fls(3) by (auto dest: nth_mem)
  define fls' where "fls' = fls[l := set_insert e (fls ! l)]"
  have "lists_ok fls'" unfolding fls'_def
    using fls(1,3) l set_insert_sorted by (intro lists_ok_update) (auto simp: lists_ok_def set_insert_set)
  moreover have set: "set (concat fls') = insert e (set (concat fls))" unfolding fls'_def
    unfolding update_level_set [OF fls(1,3)] using level_entries [OF fls(1,3)] by (auto simp: set_insert_set)
  moreover have "length (concat fls') = Suc (length (concat fls))"
    using update_level_length [OF fls(3), of "set_insert e (fls ! l)"] notin unfolding fls'_def by (simp add: set_insert_length)
  moreover have "ranges_ok (insert e (set (concat fls)))"
    using ok e fls(2) by (intro ranges_ok_insert) (simp_all add: fsm_ok_def entries_def)
  ultimately show ?thesis
    using pos l notin ok fls(2) unfolding addFreePages_def grows_def fsm_ok_def entries_def
    by (simp add: Let_def fls_def [symmetric] set_contains_iff fls'_def [symmetric] del: set_concat)
qed

text \<open>Taking a range out.\<close>

lemma Suc_length_remove1: "e \<in> set xs \<Longrightarrow> Suc (length (remove1 e xs)) = length xs"
  using length_pos_if_in_set [of e xs] by (simp add: length_remove1)

lemma remove_entry_ok:
  assumes ok: "fsm_ok fsm" and l: "l < length (freeLists fsm)" and e: "e \<in> set (freeLists fsm ! l)"
  shows "grows (entries fsm - {e}) fsm
    (fsm\<lparr>freeLists := (freeLists fsm)[l := remove1 e (freeLists fsm ! l)], numEntries := numEntries fsm - 1\<rparr>)"
proof -
  let ?xs = "freeLists fsm ! l"
  let ?fls = "(freeLists fsm)[l := remove1 e ?xs]"
  have lists: "lists_ok (freeLists fsm)" using ok by (simp add: fsm_ok_def)
  then have sorted: "sorted_wrt entryCmp ?xs" using l by (simp add: lists_ok_def)
  have removed: "set (remove1 e ?xs) = set ?xs - {e}" using sorted_cmp_distinct [OF sorted] by simp
  have "sorted_wrt entryCmp (remove1 e ?xs)" 
    using sorted sorted_cmp_distinct [OF sorted] by (simp add: distinct_remove1_removeAll removeAll_filter_not_eq sorted_wrt_filter)
  then have "lists_ok ?fls"
    using lists l removed by (intro lists_ok_update) (auto simp: lists_ok_def)
  moreover have set: "set (concat ?fls) = entries fsm - {e}"
    unfolding update_level_set [OF lists l] removed entries_def using level_entries [OF lists l] e by blast
  moreover have "length (concat (freeLists fsm)) = length (concat ?fls) + 1"
    using update_level_length [OF l, of "remove1 e ?xs"] Suc_length_remove1 [OF e] by linarith
  then have "numEntries fsm - 1 = of_nat (length (concat ?fls))" using ok by (simp add: fsm_ok_def)
  moreover have "ranges_ok (entries fsm - {e})" using ok ranges_ok_subset by (auto simp: fsm_ok_def)
  ultimately show ?thesis by (simp add: grows_def fsm_ok_def entries_def del: set_concat)
qed

lemma pagesOf_split:
  assumes "entry_ok e" "n \<le> numPages e"
  shows "pagesOf (PageRange (startPageIdx e) n) \<subseteq> pagesOf e"
    "n < numPages e \<Longrightarrow> pagesOf (PageRange (startPageIdx e + n) (numPages e - n)) = pagesOf e - pagesOf (PageRange (startPageIdx e) n)"
    "n < numPages e \<Longrightarrow> entry_ok (PageRange (startPageIdx e + n) (numPages e - n))"
proof -
  have le: "unat n \<le> unat (numPages e)" using assms(2) by (simp add: word_le_nat_alt)
  have "unat (startPageIdx e + n) = unat (startPageIdx e) + unat n" "unat (numPages e - n) = unat (numPages e) - unat n"
    using assms le by (simp_all add: entry_ok_def unat_word_ariths unat_sub)
  then show "pagesOf (PageRange (startPageIdx e) n) \<subseteq> pagesOf e"
    "n < numPages e \<Longrightarrow> pagesOf (PageRange (startPageIdx e + n) (numPages e - n)) = pagesOf e - pagesOf (PageRange (startPageIdx e) n)"
    "n < numPages e \<Longrightarrow> entry_ok (PageRange (startPageIdx e + n) (numPages e - n))"
    using assms(1) le by (auto simp: pagesOf_def PageRange_def entry_ok_def word_less_nat_alt)
qed

lemma splitPageRange_ok:
  assumes ok: "fsm_ok fsm" and e: "entry_ok e" "pagesOf e \<inter> pagesOfAll (entries fsm) = {}" and n: "n \<le> numPages e"
  shows "\<exists>fsm'. splitPageRange e n fsm = Inr (fsm', PageRange (startPageIdx e) n) \<and> grows (entries fsm') fsm fsm'
    \<and> pagesOfAll (entries fsm') = pagesOfAll (entries fsm) \<union> (pagesOf e - pagesOf (PageRange (startPageIdx e) n))"
proof (cases "n < numPages e")
  case True
  let ?rest = "PageRange (startPageIdx e + n) (numPages e - n)"
  have rest: "entry_ok ?rest" "pagesOf ?rest = pagesOf e - pagesOf (PageRange (startPageIdx e) n)"
    using pagesOf_split [OF e(1) n] True by blast+
  then have "pagesOf ?rest \<inter> pagesOfAll (entries fsm) = {}" using e(2) by blast
  from addFreePages_ok [OF ok rest(1) this] obtain fsm' where
    fsm': "addFreePages ?rest fsm = Inr fsm'" "grows (insert ?rest (entries fsm)) fsm fsm'" by blast
  then have "entries fsm' = insert ?rest (entries fsm)" by (simp add: grows_def)
  then show ?thesis
    using True n fsm' rest(2) by (auto simp: splitPageRange_def pagesOfAll_insert Let_def)
next
  case False
  then have "n = numPages e" using n by simp
  then show ?thesis using ok by (simp add: splitPageRange_def grows_def Let_def PageRange_def pagesOf_def)
qed

text \<open>The smallest range that is large enough is taken, if there is one.\<close>

definition best_fit :: "u32 \<Rightarrow> page_range \<Rightarrow> page_range set \<Rightarrow> bool" where
  "best_fit n e E \<longleftrightarrow> e \<in> E \<and> n \<le> numPages e \<and> (\<forall>e' \<in> E. n \<le> numPages e' \<longrightarrow> numPages e \<le> numPages e')"

lemma getLevel_mono:
  assumes "getLevel m = Inr k" "getLevel n = Inr l" "m \<le> n"
  shows "k \<le> l"
proof -
  have "(2 :: nat) ^ k < 2 ^ Suc l" using assms unfolding getLevel_iff by (meson le_less_trans le_trans word_le_nat_alt)
  then have "k < Suc l" using power_less_imp_less_exp [of "2 :: nat" k "Suc l"] by fastforce
  then show ?thesis by simp
qed

lemma level_best_fit:
  assumes ok: "fsm_ok fsm" and k: "k < length (freeLists fsm)"
    and min: "\<And>e j. e \<in> entries fsm \<Longrightarrow> n \<le> numPages e \<Longrightarrow> getLevel (numPages e) = Inr j \<Longrightarrow> k \<le> j"
    and found: "set_lower_bound (PageRange 0 n) (freeLists fsm ! k) = Some e"
  shows "best_fit n e (entries fsm)"
proof -
  have lists: "lists_ok (freeLists fsm)" using ok by (simp add: fsm_ok_def)
  have sorted: "sorted_wrt entryCmp (freeLists fsm ! k)" using lists k by (simp add: lists_ok_def)
  have e: "e \<in> set (freeLists fsm ! k)" "n \<le> numPages e"
    "\<forall>x \<in> set (freeLists fsm ! k). n \<le> numPages x \<longrightarrow> numPages e \<le> numPages x"
    using set_lower_bound_Some [OF sorted found] by blast+
  note level = level_entries [OF lists k, folded entries_def]
  have "numPages e \<le> numPages x" if x: "x \<in> entries fsm" "n \<le> numPages x" for x
  proof (rule ccontr)
    assume "\<not> numPages e \<le> numPages x"
    then have less: "numPages x \<le> numPages e" by simp
    obtain j where j: "getLevel (numPages x) = Inr j"
      using ok x(1) getLevel_ok by (fastforce simp: fsm_ok_def ranges_ok_def entry_ok_def)
    have "j \<le> k" using getLevel_mono [OF j _ less] e(1) level by blast
    then have "x \<in> set (freeLists fsm ! k)" using min [OF x j] j x(1) level by simp
    then show False using e(3) x(2) less \<open>\<not> numPages e \<le> numPages x\<close> by blast
  qed
  then show ?thesis using e level by (auto simp: best_fit_def)
qed

lemma popLevels_ok:
  assumes ok: "fsm_ok fsm"
    and min: "\<And>e j. e \<in> entries fsm \<Longrightarrow> n \<le> numPages e \<Longrightarrow> getLevel (numPages e) = Inr j \<Longrightarrow> k \<le> j"
  shows "(popLevels n [k..<length (freeLists fsm)] fsm = Inr (fsm, None) \<and> (\<forall>e \<in> entries fsm. numPages e < n))
    \<or> (\<exists>e fsm'. popLevels n [k..<length (freeLists fsm)] fsm = Inr (fsm', Some (PageRange (startPageIdx e) n)) \<and> best_fit n e (entries fsm)
         \<and> grows (entries fsm') fsm fsm' \<and> pagesOfAll (entries fsm') = pagesOfAll (entries fsm) - pagesOf (PageRange (startPageIdx e) n))"
  using min
proof (induction "length (freeLists fsm) - k" arbitrary: k)
  case 0
  have "numPages e < n" if e: "e \<in> entries fsm" for e
  proof (rule ccontr)
    assume "\<not> numPages e < n"
    moreover obtain j where j: "j < length (freeLists fsm)" "e \<in> set (freeLists fsm ! j)"
      using e by (auto simp: entries_def in_set_conv_nth [of _ "freeLists fsm"])
    moreover have "getLevel (numPages e) = Inr j" using ok j by (simp add: fsm_ok_def lists_ok_def)
    ultimately show False using 0 e by force
  qed
  then show ?case using 0 by simp
next
  case (Suc d)
  have k: "k < length (freeLists fsm)" using Suc.hyps(2) by simp
  then have levels: "[k..<length (freeLists fsm)] = k # [Suc k..<length (freeLists fsm)]" by (rule upt_conv_Cons)
  note level = level_entries [of "freeLists fsm", OF _ k, folded entries_def]
  have lists: "lists_ok (freeLists fsm)" using ok by (simp add: fsm_ok_def)
  show ?case
  proof (cases "set_lower_bound (PageRange 0 n) (freeLists fsm ! k)")
    case None
    have "Suc k \<le> j" if "e \<in> entries fsm" "n \<le> numPages e" "getLevel (numPages e) = Inr j" for e j
    proof -
      have "e \<notin> set (freeLists fsm ! k)" using None that(2) by (auto simp: set_lower_bound_None)
      then have "k \<noteq> j" using that level [OF lists] by auto
      then show ?thesis using Suc.prems [OF that] by simp
    qed
    from Suc.hyps(1) [OF _ this] Suc.hyps(2) None levels show ?thesis by simp
  next
    case (Some e)
    have best: "best_fit n e (entries fsm)" by (rule level_best_fit [OF ok k _ Some]) (rule Suc.prems)
    have e: "e \<in> set (freeLists fsm ! k)" using Some set_lower_bound_Some lists k by (fastforce simp: lists_ok_def)
    define fsm1 where "fsm1 = fsm\<lparr>freeLists := (freeLists fsm)[k := remove1 e (freeLists fsm ! k)], numEntries := numEntries fsm - 1\<rparr>"
    have g1: "grows (entries fsm - {e}) fsm fsm1" unfolding fsm1_def by (rule remove_entry_ok [OF ok k e])
    have ranges: "ranges_ok (entries fsm)" "e \<in> entries fsm" "entry_ok e" "n \<le> numPages e"
      using ok best by (auto simp: fsm_ok_def best_fit_def ranges_ok_def)
    have pages1: "pagesOfAll (entries fsm1) = pagesOfAll (entries fsm) - pagesOf e"
      using g1 pagesOfAll_remove [OF ranges(1,2)] by (simp add: grows_def)
    obtain fsm' where fsm': "splitPageRange e n fsm1 = Inr (fsm', PageRange (startPageIdx e) n)" "grows (entries fsm') fsm1 fsm'"
      "pagesOfAll (entries fsm') = pagesOfAll (entries fsm1) \<union> (pagesOf e - pagesOf (PageRange (startPageIdx e) n))"
      using splitPageRange_ok [of fsm1 e n] g1 ranges(3,4) pages1 by (auto simp: grows_def)
    have "pagesOf e \<subseteq> pagesOfAll (entries fsm)" using ranges(2) by (auto simp: pagesOfAll_def)
    then have "pagesOfAll (entries fsm') = pagesOfAll (entries fsm) - pagesOf (PageRange (startPageIdx e) n)"
      unfolding fsm'(3) pages1 using pagesOf_split(1) [OF ranges(3,4)] by blast
    moreover have "grows (entries fsm') fsm fsm'" using g1 fsm'(2) by (simp add: grows_def)
    moreover have "popLevels n [k..<length (freeLists fsm)] fsm = Inr (fsm', Some (PageRange (startPageIdx e) n))"
      unfolding levels using Some fsm'(1) by (simp add: fsm1_def)
    ultimately show ?thesis using best by blast
  qed
qed

lemma popFreePages_ok:
  assumes "fsm_ok fsm" "0 < n"
  shows "(popFreePages n fsm = Inr (fsm, None) \<and> (\<forall>e \<in> entries fsm. numPages e < n))
    \<or> (\<exists>e fsm'. popFreePages n fsm = Inr (fsm', Some (PageRange (startPageIdx e) n)) \<and> best_fit n e (entries fsm)
         \<and> grows (entries fsm') fsm fsm' \<and> pagesOfAll (entries fsm') = pagesOfAll (entries fsm) - pagesOf (PageRange (startPageIdx e) n))"
proof -
  obtain k where k: "getLevel n = Inr k" using getLevel_ok [OF assms(2)] by blast
  from popLevels_ok [OF assms(1), of n k] getLevel_mono [OF k] show ?thesis
    using assms(2) k by (simp add: popFreePages_def)
qed

section \<open>Merging at a checkpoint\<close>

definition endOf :: "page_range \<Rightarrow> nat" where
  "endOf r = unat (startPageIdx r) + unat (numPages r)"

definition before :: "page_range \<Rightarrow> page_range \<Rightarrow> bool" where
  "before a b \<longleftrightarrow> endOf a \<le> unat (startPageIdx b)"

text \<open>No range ends where another one starts.\<close>

definition coalesced :: "page_range set \<Rightarrow> bool" where
  "coalesced E \<longleftrightarrow> (\<forall>e \<in> E. \<forall>e' \<in> E. endOf e \<noteq> unat (startPageIdx e'))"

lemma lists_distinct:
  assumes "lists_ok fls"
  shows "distinct (concat fls)"
proof -
  have level: "getLevel (numPages e) = Inr l" if "l < length fls" "e \<in> set (fls ! l)" for e l
    using assms that by (simp add: lists_ok_def)
  have "distinct (concat (take n fls))" if "n \<le> length fls" for n
    using that
  proof (induction n)
    case (Suc n)
    have "set (concat (take n fls)) \<inter> set (fls ! n) = {}"
    proof (rule ccontr)
      assume "set (concat (take n fls)) \<inter> set (fls ! n) \<noteq> {}"
      then obtain e k where "e \<in> set (fls ! n)" "k < n" "e \<in> set (fls ! k)" by (auto simp: in_set_conv_nth [of _ "take n fls"])
      then show False using level [of n e] level [of k e] Suc.prems by simp
    qed
    moreover have "distinct (fls ! n)" using Suc.prems assms sorted_cmp_distinct by (simp add: lists_ok_def)
    ultimately show ?case using Suc by (simp add: take_Suc_conv_app_nth del: set_concat)
  qed simp
  then show ?thesis by (metis order_refl take_all)
qed

lemma entry_end: "entry_ok r \<Longrightarrow> unat (startPageIdx r + numPages r) = endOf r"
  by (simp add: entry_ok_def endOf_def unat_word_ariths)

lemma sorted_ranges_before:
  assumes "distinct es" "ranges_ok (set es)"
  shows "sorted_wrt before (sort_key startPageIdx es)"
proof -
  let ?xs = "sort_key startPageIdx es"
  have "before (?xs ! i) (?xs ! j)" if ij: "i < j" "j < length ?xs" for i j
  proof -
    let ?a = "?xs ! i" and ?b = "?xs ! j"
    have "?a \<in> set es" "?b \<in> set es" using ij nth_mem [of i ?xs] nth_mem [of j ?xs] by simp_all
    moreover have "?a \<noteq> ?b" using ij assms(1) by (simp add: nth_eq_iff_index_eq)
    ultimately have ab: "entry_ok ?a" "entry_ok ?b" "pagesOf ?a \<inter> pagesOf ?b = {}" using assms(2) unfolding ranges_ok_def by blast+
    have "startPageIdx ?a \<le> startPageIdx ?b" using ij sorted_nth_mono [of "map startPageIdx ?xs" i j] by simp
    then have "unat (startPageIdx ?b) \<in> pagesOf ?a \<inter> pagesOf ?b \<or> endOf ?a \<le> unat (startPageIdx ?b)"
      using entry_ok_pos [OF ab(2)] by (auto simp: pagesOf_def endOf_def word_le_nat_alt)
    then show ?thesis using ab(3) by (simp add: before_def)
  qed
  then show ?thesis by (simp add: sorted_wrt_iff_nth_less)
qed

lemma merge_two:
  assumes "entry_ok a" "entry_ok b" "startPageIdx a + numPages a = startPageIdx b"
  shows "entry_ok (a\<lparr>numPages := numPages a + numPages b\<rparr>)" "endOf (a\<lparr>numPages := numPages a + numPages b\<rparr>) = endOf b"
    "pagesOf (a\<lparr>numPages := numPages a + numPages b\<rparr>) = pagesOf a \<union> pagesOf b"
proof -
  have b: "unat (startPageIdx b) = endOf a" using entry_end [OF assms(1)] assms(3) by simp
  then have "unat (numPages a + numPages b) = unat (numPages a) + unat (numPages b)"
    using assms(2) by (simp add: entry_ok_def endOf_def unat_word_ariths)
  then show "entry_ok (a\<lparr>numPages := numPages a + numPages b\<rparr>)" "endOf (a\<lparr>numPages := numPages a + numPages b\<rparr>) = endOf b"
    "pagesOf (a\<lparr>numPages := numPages a + numPages b\<rparr>) = pagesOf a \<union> pagesOf b"
    using b assms(1,2) by (auto simp: entry_ok_def endOf_def pagesOf_def word_less_nat_alt)
qed

lemma pages_below:
  assumes "\<forall>e \<in> E. endOf e \<le> n"
  shows "pagesOfAll E \<subseteq> {..<n}"
  using assms by (fastforce simp: pagesOfAll_def pagesOf_def endOf_def)

lemma mergeEntries_ok:
  assumes "fsm_ok fsm" "\<forall>e \<in> set (prev # es). entry_ok e" "sorted_wrt before (prev # es)"
    and "\<forall>e \<in> entries fsm. endOf e < unat (startPageIdx prev)" "coalesced (entries fsm)"
  shows "\<exists>fsm' last. mergeEntries prev es fsm = Inr (fsm', last) \<and> grows (entries fsm') fsm fsm' \<and> entry_ok last
    \<and> (\<forall>e \<in> entries fsm'. endOf e < unat (startPageIdx last)) \<and> coalesced (entries fsm')
    \<and> pagesOfAll (entries fsm') \<union> pagesOf last = pagesOfAll (entries fsm) \<union> pagesOfAll (set (prev # es))
    \<and> endOf last = endOf (List.last (prev # es))"
  using assms
proof (induction prev es fsm rule: mergeEntries.induct)
  case (1 prev fsm)
  then show ?case by (simp add: grows_def pagesOfAll_insert) (simp add: pagesOfAll_def)
next
  case (2 prev entry es fsm)
  have ok: "entry_ok prev" "entry_ok entry" using "2.prems"(2) by simp_all
  note prev_end = entry_end [OF ok(1)]
  have le: "startPageIdx prev + numPages prev \<le> startPageIdx entry"
    using "2.prems"(3) by (simp add: word_le_nat_alt prev_end before_def)
  then have assert: "assertR (startPageIdx prev + numPages prev \<le> startPageIdx entry) = Inr ()" by simp
  show ?case
  proof (cases "startPageIdx prev + numPages prev = startPageIdx entry")
    case True
    let ?m = "prev\<lparr>numPages := numPages prev + numPages entry\<rparr>"
    note m = merge_two [OF ok True]
    have "sorted_wrt before (?m # es)" using "2.prems"(3) m(2) by (simp add: before_def [abs_def])
    moreover have "\<forall>e \<in> set (?m # es). entry_ok e" using "2.prems"(2) m(1) by simp
    moreover have "pagesOfAll (set (?m # es)) = pagesOfAll (set (prev # entry # es))"
      using m(3) by (simp add: pagesOfAll_insert Un_assoc)
    moreover have "endOf (List.last (?m # es)) = endOf (List.last (prev # entry # es))" using m(2) by simp
    ultimately show ?thesis using "2.IH"(1) [OF assert True "2.prems"(1)] "2.prems"(4,5) True by simp
  next
    case False
    have "pagesOf prev \<inter> pagesOfAll (entries fsm) = {}"
      using pages_below [of "entries fsm" "unat (startPageIdx prev)"] "2.prems"(4) by (fastforce simp: pagesOf_def)
    from addFreePages_ok [OF "2.prems"(1) ok(1) this] obtain fsm1 where
      fsm1: "addFreePages prev fsm = Inr fsm1" "grows (insert prev (entries fsm)) fsm fsm1" by blast
    then have e1: "entries fsm1 = insert prev (entries fsm)" "fsm_ok fsm1" by (simp_all add: grows_def)
    have lt: "endOf prev < unat (startPageIdx entry)" using le False prev_end by (metis order_le_less word_less_nat_alt)
    have "\<forall>e \<in> entries fsm1. endOf e < unat (startPageIdx entry)"
      using "2.prems"(4) lt unfolding e1 endOf_def by auto
    moreover have "coalesced (entries fsm1)"
      using "2.prems"(4,5) entry_ok_pos [OF ok(1)] unfolding e1 coalesced_def by (force simp: endOf_def)
    ultimately obtain fsm' last where r: "mergeEntries entry es fsm1 = Inr (fsm', last)" "grows (entries fsm') fsm1 fsm'" "entry_ok last"
      "\<forall>e \<in> entries fsm'. endOf e < unat (startPageIdx last)" "coalesced (entries fsm')"
      "pagesOfAll (entries fsm') \<union> pagesOf last = pagesOfAll (entries fsm1) \<union> pagesOfAll (set (entry # es))"
      "endOf last = endOf (List.last (entry # es))"
      using "2.IH"(2) [OF assert False fsm1(1) e1(2)] "2.prems"(2,3) by auto
    have "pagesOfAll (entries fsm') \<union> pagesOf last = pagesOfAll (entries fsm) \<union> pagesOfAll (set (prev # entry # es))"
      unfolding r(6) e1(1) by (auto simp: pagesOfAll_insert)
    moreover have "grows (entries fsm') fsm fsm'" using r(2) fsm1(2) by (simp add: grows_def)
    ultimately show ?thesis using r le False fsm1(1) by simp
  qed
qed

section \<open>The pages in use\<close>

text \<open>
  A page of the file is free, freed since the last checkpoint, or in use. The ranges that are free
  and those that are pending never overlap, and they lie in the file.
\<close>

type_synonym space = "free_space_manager \<times> file_state"

abbreviation pendingRanges :: "space \<Rightarrow> page_range list" where
  "pendingRanges fs \<equiv> uncheckpointedFreePageRanges (fst fs)"

definition freePages :: "space \<Rightarrow> nat set" where
  "freePages fs = pagesOfAll (entries (fst fs))"

definition pendingPages :: "space \<Rightarrow> nat set" where
  "pendingPages fs = pagesOfAll (set (pendingRanges fs))"

definition filePages :: "space \<Rightarrow> nat set" where
  "filePages fs = {..<unat (fhNumPages (fst (snd fs)))}"

definition usedPages :: "space \<Rightarrow> nat set" where
  "usedPages fs = filePages fs - freePages fs - pendingPages fs"

definition space_ok :: "space \<Rightarrow> bool" where
  "space_ok fs \<longleftrightarrow> fs_ok (snd fs) \<and> mem_ok (snd fs) \<and> fsm_ok (fst fs) \<and> distinct (pendingRanges fs) \<and> ranges_ok (set (pendingRanges fs))
     \<and> freePages fs \<inter> pendingPages fs = {} \<and> freePages fs \<union> pendingPages fs \<subseteq> filePages fs"

lemma ranges_ok_Un:
  assumes "ranges_ok A" "ranges_ok B" "pagesOfAll A \<inter> pagesOfAll B = {}"
  shows "ranges_ok (A \<union> B)" "A \<inter> B = {}"
proof -
  show "ranges_ok (A \<union> B)" using assms unfolding ranges_ok_def pagesOfAll_def by blast
  have "e \<notin> B" if "e \<in> A" for e
  proof
    assume "e \<in> B"
    then have "pagesOf e \<subseteq> pagesOfAll A \<inter> pagesOfAll B" using that by (auto simp: pagesOfAll_def)
    then show False using assms that pagesOf_empty [of e] by (auto simp: ranges_ok_def)
  qed
  then show "A \<inter> B = {}" by blast
qed

lemma foldR_keeps:
  assumes "\<And>x s. x \<in> set xs \<Longrightarrow> P s \<Longrightarrow> \<exists>s'. f x s = Inr s' \<and> P s'" "P s"
  shows "\<exists>s'. foldR f xs s = Inr s' \<and> P s'"
  using assms
proof (induction xs arbitrary: s)
  case (Cons x xs)
  obtain s1 where "f x s = Inr s1" "P s1" using Cons.prems by fastforce
  then show ?case using Cons.IH [of s1] Cons.prems(1) by simp
qed simp

lemma evictPages_ok:
  assumes "fs_ok st" "mem_ok st"
  shows "\<exists>st'. evictPages_fsm e (fsm, st) = Inr (fsm\<lparr>needClearEvictedEntries := True\<rparr>, st') \<and> fs_ok st' \<and> mem_ok st'
    \<and> fhNumPages (fst st') = fhNumPages (fst st)"
proof -
  let ?P = "\<lambda>st'. fs_ok st' \<and> mem_ok st' \<and> fhNumPages (fst st') = fhNumPages (fst st)"
  have "\<exists>st'. foldR (\<lambda>i. removePageFromFrameIfNecessary (startPageIdx e + of_nat i)) [0..<unat (numPages e)] st = Inr st' \<and> ?P st'"
  proof (rule foldR_keeps)
    fix i st1
    assume "?P st1"
    then show "\<exists>st'. removePageFromFrameIfNecessary (startPageIdx e + of_nat i) st1 = Inr st' \<and> ?P st'"
      using removePage_total [of st1 "startPageIdx e + of_nat i"] by auto
  qed (use assms in simp)
  then show ?thesis by (auto simp: evictPages_fsm_def)
qed

lemma evictAll_ok:
  assumes "fs_ok st" "mem_ok st"
  shows "\<exists>fsm' st'. foldR evictPages_fsm es (fsm, st) = Inr (fsm', st') \<and> fs_ok st' \<and> mem_ok st' \<and> fhNumPages (fst st') = fhNumPages (fst st)
    \<and> fsm' = fsm\<lparr>needClearEvictedEntries := (needClearEvictedEntries fsm \<or> es \<noteq> [])\<rparr>"
  using assms
proof (induction es arbitrary: fsm st)
  case (Cons e es)
  obtain st1 where st1: "evictPages_fsm e (fsm, st) = Inr (fsm\<lparr>needClearEvictedEntries := True\<rparr>, st1)" "fs_ok st1" "mem_ok st1"
    "fhNumPages (fst st1) = fhNumPages (fst st)" using evictPages_ok [OF Cons.prems] by blast
  then show ?case using Cons.IH [OF st1(2,3), of "fsm\<lparr>needClearEvictedEntries := True\<rparr>"] by auto
qed simp

lemma handleLastPageRange_ok:
  assumes ok: "fs_ok st" "mem_ok st" "fsm_ok fsm" and pr: "entry_ok pr" "endOf pr \<le> unat (fhNumPages (fst st))"
    and below: "\<forall>e \<in> entries fsm. endOf e < unat (startPageIdx pr)" "coalesced (entries fsm)"
  shows "\<exists>fsm' st'. handleLastPageRange pr (fsm, st) = Inr (fsm', st') \<and> fs_ok st' \<and> mem_ok st' \<and> grows (entries fsm') fsm fsm'
    \<and> coalesced (entries fsm') \<and> freePages (fsm', st') \<subseteq> filePages (fsm', st')
    \<and> filePages (fsm', st') - freePages (fsm', st') = filePages (fsm, st) - freePages (fsm, st) - pagesOf pr
    \<and> (\<forall>e \<in> entries fsm'. endOf e < unat (fhNumPages (fst st')))"
proof -
  obtain fh pool where st: "st = (fh, pool)" by (cases st)
  have free: "pagesOfAll (entries fsm) \<subseteq> {..<unat (startPageIdx pr)}" using below(1) pages_below less_imp_le by blast
  show ?thesis
  proof (cases "startPageIdx pr + numPages pr = fhNumPages fh")
    case True
    then have at_end: "unat (fhNumPages fh) = endOf pr" using entry_end [OF pr(1)] by simp
    have "min (startPageIdx pr) (fhNumPages fh) = startPageIdx pr"
      using at_end by (simp add: min_def word_le_nat_alt endOf_def)
    then obtain fh' where fh': "removePageIdxAndTruncateIfNecessary (startPageIdx pr) fh = (fh', Inr ())" "fhNumPages fh' = startPageIdx pr"
      using removePageIdx_ok [of fh "startPageIdx pr"] ok(1) st by (auto simp: fs_ok_def)
    have "fs_ok (fh', pool)" "mem_ok (fh', pool)"
      using truncate_fs_ok [OF _ fh'(1)] truncate_mem_ok [OF _ _ fh'(1)] ok(1,2) st by blast+
    moreover have "handleLastPageRange pr (fsm, st) = Inr (fsm, fh', pool)"
      using True fh'(1) st by (simp add: handleLastPageRange_def)
    moreover have "{..<unat (startPageIdx pr)} = {..<endOf pr} - pagesOf pr" by (auto simp: endOf_def pagesOf_def)
    ultimately show ?thesis
      using free ok(3) below fh'(2) st at_end by (auto simp: grows_def filePages_def freePages_def endOf_def)
  next
    case False
    then have lt: "endOf pr < unat (fhNumPages fh)"
      using pr(2) st entry_end [OF pr(1)] by (metis fst_conv le_neq_implies_less word_unat_eq_iff)
    have "pagesOf pr \<inter> pagesOfAll (entries fsm) = {}" using free by (fastforce simp: pagesOf_def)
    from addFreePages_ok [OF ok(3) pr(1) this] obtain fsm' where
      fsm': "addFreePages pr fsm = Inr fsm'" "grows (insert pr (entries fsm)) fsm fsm'" by blast
    then have e': "entries fsm' = insert pr (entries fsm)" by (simp add: grows_def)
    have "handleLastPageRange pr (fsm, st) = Inr (fsm', st)"
      using False fsm'(1) st by (simp add: handleLastPageRange_def)
    moreover have "coalesced (entries fsm')"
      using below entry_ok_pos [OF pr(1)] unfolding e' coalesced_def by (force simp: endOf_def)
    moreover have "pagesOf pr \<subseteq> {..<unat (fhNumPages fh)}" using lt by (auto simp: pagesOf_def endOf_def)
    moreover have "\<forall>e \<in> entries fsm'. endOf e < unat (fhNumPages fh)"
      using below(1) lt unfolding e' endOf_def by fastforce
    moreover have "pagesOfAll (entries fsm) \<subseteq> {..<unat (fhNumPages fh)}"
      using free lt by (auto simp: endOf_def)
    ultimately show ?thesis
      using ok fsm'(2) e' st by (auto simp: filePages_def freePages_def pagesOfAll_insert)
  qed
qed

lemma mergePageRanges_ok:
  assumes ok: "fs_ok st" "mem_ok st" "fsm_ok fsm" and new: "distinct es" "ranges_ok (set es)" "pagesOfAll (entries fsm) \<inter> pagesOfAll (set es) = {}"
    and inside: "pagesOfAll (entries fsm) \<union> pagesOfAll (set es) \<subseteq> filePages (fsm, st)"
  shows "\<exists>fsm' st'. mergePageRanges es (fsm, st) = Inr (fsm', st') \<and> fs_ok st' \<and> mem_ok st' \<and> grows (entries fsm') fsm fsm'
    \<and> coalesced (entries fsm') \<and> freePages (fsm', st') \<subseteq> filePages (fsm', st')
    \<and> filePages (fsm', st') - freePages (fsm', st') = filePages (fsm, st) - pagesOfAll (entries fsm) - pagesOfAll (set es)
    \<and> (\<forall>e \<in> entries fsm'. endOf e < unat (fhNumPages (fst st')))"
proof -
  let ?all = "sort_key startPageIdx (es @ concat (freeLists fsm))"
  have un: "ranges_ok (entries fsm \<union> set es)" "entries fsm \<inter> set es = {}"
    using ranges_ok_Un [OF _ new(2,3)] ok(3) by (simp_all add: fsm_ok_def)
  have set_all: "set ?all = entries fsm \<union> set es" by (auto simp: entries_def)
  have dist: "distinct (es @ concat (freeLists fsm))"
    using new(1) lists_distinct [of "freeLists fsm"] ok(3) un(2) by (auto simp: fsm_ok_def entries_def)
  have sorted: "sorted_wrt before ?all" using sorted_ranges_before [OF dist] un(1) set_all by simp
  show ?thesis
  proof (cases ?all)
    case Nil
    then have "entries fsm = {}" "set es = {}" using set_all by auto
    then show ?thesis
      using ok Nil by (simp add: mergePageRanges_def grows_def coalesced_def freePages_def filePages_def pagesOfAll_def)
  next
    case (Cons prev rest)
    let ?fsm0 = "resetFreeLists fsm"
    have empty: "entries ?fsm0 = {}" "fsm_ok ?fsm0"
      by (simp_all add: resetFreeLists_def entries_def fsm_ok_def lists_ok_def ranges_ok_def)
    have entry: "\<forall>e \<in> set (prev # rest). entry_ok e" using un(1) set_all Cons by (simp add: ranges_ok_def)
    obtain fsm1 pr where m: "mergeEntries prev rest ?fsm0 = Inr (fsm1, pr)" "grows (entries fsm1) ?fsm0 fsm1" "entry_ok pr"
      "\<forall>e \<in> entries fsm1. endOf e < unat (startPageIdx pr)" "coalesced (entries fsm1)"
      "pagesOfAll (entries fsm1) \<union> pagesOf pr = pagesOfAll (set (prev # rest))" "endOf pr = endOf (last (prev # rest))"
      using mergeEntries_ok [OF empty(2) entry sorted [unfolded Cons]] empty(1) by (auto simp: coalesced_def pagesOfAll_def)
    have all: "pagesOfAll (set (prev # rest)) = pagesOfAll (entries fsm) \<union> pagesOfAll (set es)"
      using set_all Cons by (simp add: pagesOfAll_Un)
    have "pagesOf pr \<subseteq> filePages (fsm, st)" using m(6) all inside by blast
    moreover have "endOf pr - 1 \<in> pagesOf pr" "0 < endOf pr" using entry_ok_pos [OF m(3)] by (auto simp: pagesOf_def endOf_def)
    ultimately have "endOf pr \<le> unat (fhNumPages (fst st))" by (fastforce simp: filePages_def)
    from handleLastPageRange_ok [OF ok(1,2) _ m(3) this m(4,5)] m(2) obtain fsm' st' where
      h: "handleLastPageRange pr (fsm1, st) = Inr (fsm', st')" "fs_ok st'" "mem_ok st'" "grows (entries fsm') fsm1 fsm'"
        "coalesced (entries fsm')" "freePages (fsm', st') \<subseteq> filePages (fsm', st')"
        "filePages (fsm', st') - freePages (fsm', st') = filePages (fsm1, st) - freePages (fsm1, st) - pagesOf pr"
        "\<forall>e \<in> entries fsm'. endOf e < unat (fhNumPages (fst st'))" by (auto simp: grows_def)
    have "filePages (fsm1, st) - freePages (fsm1, st) - pagesOf pr = filePages (fsm, st) - pagesOfAll (entries fsm) - pagesOfAll (set es)"
      using m(6) all by (auto simp: filePages_def freePages_def)
    moreover have "grows (entries fsm') fsm fsm'" using h(4) m(2) by (simp add: grows_def resetFreeLists_def)
    moreover have "mergePageRanges es (fsm, st) = Inr (fsm', st')" using Cons m(1) h(1) by (simp add: mergePageRanges_def)
    ultimately show ?thesis using h by simp
  qed
qed

lemma finalizeCheckpoint_ok:
  assumes ok: "space_ok fs"
  shows "\<exists>fs'. finalizeCheckpoint fs = Inr fs' \<and> space_ok fs' \<and> usedPages fs' = usedPages fs \<and> pendingRanges fs' = []
    \<and> coalesced (entries (fst fs')) \<and> (\<forall>e \<in> entries (fst fs'). endOf e < unat (fhNumPages (fst (snd fs'))))"
proof -
  obtain fsm st where fs: "fs = (fsm, st)" by (cases fs)
  let ?es = "uncheckpointedFreePageRanges fsm"
  obtain fsm1 st1 where ev: "foldR evictPages_fsm ?es (fsm, st) = Inr (fsm1, st1)" "fs_ok st1" "mem_ok st1"
    "fhNumPages (fst st1) = fhNumPages (fst st)" "fsm1 = fsm\<lparr>needClearEvictedEntries := (needClearEvictedEntries fsm \<or> ?es \<noteq> [])\<rparr>"
    using evictAll_ok [of st ?es fsm] ok fs by (auto simp: space_ok_def)
  let ?fsm2 = "fsm1\<lparr>uncheckpointedFreePageRanges := []\<rparr>"
  have e2: "entries ?fsm2 = entries fsm" "fsm_ok ?fsm2" using ok fs unfolding ev(5) by (simp_all add: entries_def fsm_ok_def space_ok_def)
  have "\<exists>fsm' st'. mergePageRanges ?es (?fsm2, st1) = Inr (fsm', st') \<and> fs_ok st' \<and> mem_ok st' \<and> grows (entries fsm') ?fsm2 fsm'
    \<and> coalesced (entries fsm') \<and> freePages (fsm', st') \<subseteq> filePages (fsm', st')
    \<and> filePages (fsm', st') - freePages (fsm', st') = filePages (?fsm2, st1) - pagesOfAll (entries ?fsm2) - pagesOfAll (set ?es)
    \<and> (\<forall>e \<in> entries fsm'. endOf e < unat (fhNumPages (fst st')))"
    using ok fs ev(4) e2 by (intro mergePageRanges_ok [OF ev(2,3)]) (auto simp: space_ok_def freePages_def pendingPages_def filePages_def)
  then obtain fsm' st' where m: "mergePageRanges ?es (?fsm2, st1) = Inr (fsm', st')" "fs_ok st'" "mem_ok st'" "grows (entries fsm') ?fsm2 fsm'"
    "coalesced (entries fsm')" "freePages (fsm', st') \<subseteq> filePages (fsm', st')"
    "filePages (fsm', st') - freePages (fsm', st') = filePages (?fsm2, st1) - pagesOfAll (entries ?fsm2) - pagesOfAll (set ?es)"
    "\<forall>e \<in> entries fsm'. endOf e < unat (fhNumPages (fst st'))" by blast
  let ?fs' = "(fsm'\<lparr>uncheckpointedFreePageRanges := []\<rparr>, st')"
  have unch: "uncheckpointedFreePageRanges fsm1 = ?es" using ev(5) by simp
  have "finalizeCheckpoint fs = Inr ?fs'" using ev(1) m(1) fs unch by (simp add: finalizeCheckpoint_def)
  moreover have e': "entries (fst ?fs') = entries fsm'" by (simp add: entries_def)
  have "space_ok ?fs'" using m(2,3,4,6) unfolding space_ok_def freePages_def pendingPages_def filePages_def e'
    by (simp add: grows_def fsm_ok_def ranges_ok_def pagesOfAll_def entries_def)
  moreover have "usedPages ?fs' = usedPages fs"
    using m(7) ev(4) e2(1) fs unfolding usedPages_def freePages_def pendingPages_def filePages_def e' by (simp add: pagesOfAll_def)
  ultimately show ?thesis using m(5,8) e' by auto
qed

section \<open>The page manager\<close>

text \<open>
  What the page manager promises: the pages in use and the pages that wait for the next checkpoint,
  and what an operation may do to them. A freed range must be in use.
\<close>

datatype pm_event = Allocated u32 page_range | Freed page_range | FreedNow page_range | Checkpointed | RolledBack

inductive alloc_spec :: "nat set \<times> nat set \<Rightarrow> pm_event \<Rightarrow> nat set \<times> nat set \<Rightarrow> bool" where
  spec_allocate: "numPages r = n \<Longrightarrow> pagesOf r \<inter> (U \<union> P) = {} \<Longrightarrow> alloc_spec (U, P) (Allocated n r) (U \<union> pagesOf r, P)"
| spec_free: "pagesOf r \<subseteq> U \<Longrightarrow> alloc_spec (U, P) (Freed r) (U - pagesOf r, P \<union> pagesOf r)"
| spec_free_now: "pagesOf r \<subseteq> U \<Longrightarrow> alloc_spec (U, P) (FreedNow r) (U - pagesOf r, P)"
| spec_checkpoint: "alloc_spec (U, P) Checkpointed (U, {})"
| spec_rollback: "alloc_spec (U, P) RolledBack (U \<union> P, {})"

inductive_cases alloc_spec_cases:
  "alloc_spec (U, P) (Allocated n r) a" "alloc_spec (U, P) (Freed r) a" "alloc_spec (U, P) (FreedNow r) a"
  "alloc_spec (U, P) Checkpointed a" "alloc_spec (U, P) RolledBack a"

definition pmSpace :: "pm_state \<Rightarrow> space" where
  "pmSpace ps = (freeSpaceManager (fst ps), snd ps)"

definition pmAbs :: "pm_state \<Rightarrow> nat set \<times> nat set" where
  "pmAbs ps = (usedPages (pmSpace ps), pendingPages (pmSpace ps))"

inductive pm_step :: "pm_state \<Rightarrow> pm_event \<Rightarrow> pm_state \<Rightarrow> bool" where
  step_allocate: "allocatePageRange n ps = (ps', Inr r) \<Longrightarrow> pm_step ps (Allocated n r) ps'"
| step_free: "entry_ok r \<Longrightarrow> pagesOf r \<subseteq> usedPages (pmSpace ps) \<Longrightarrow> pm_step ps (Freed r) (freePageRange r (fst ps), snd ps)"
| step_free_now: "entry_ok r \<Longrightarrow> pagesOf r \<subseteq> usedPages (pmSpace ps) \<Longrightarrow> freeImmediatelyRewritablePageRange r ps = Inr ps' \<Longrightarrow>
    pm_step ps (FreedNow r) ps'"
| step_checkpoint: "pm_finalizeCheckpoint ps = Inr ps' \<Longrightarrow> pm_step ps Checkpointed ps'"
| step_rollback: "pm_step ps RolledBack (pm_rollbackCheckpoint (fst ps), snd ps)"

inductive pm_run :: "pm_state \<Rightarrow> pm_event list \<Rightarrow> pm_state \<Rightarrow> bool" where
  run_nil: "pm_run ps [] ps"
| run_cons: "pm_step ps ev ps1 \<Longrightarrow> pm_run ps1 evs ps' \<Longrightarrow> pm_run ps (ev # evs) ps'"

inductive spec_run :: "nat set \<times> nat set \<Rightarrow> pm_event list \<Rightarrow> nat set \<times> nat set \<Rightarrow> bool" where
  spec_nil: "spec_run a [] a"
| spec_cons: "alloc_spec a ev a1 \<Longrightarrow> spec_run a1 evs a' \<Longrightarrow> spec_run a (ev # evs) a'"

inductive_cases spec_run_cases: "spec_run a [] a'" "spec_run a (ev # evs) a'"

lemma addNewPages_ok:
  assumes ok: "fs_ok st" "mem_ok st" and add: "addNewPages n st = (st', Inr start)"
  shows "fs_ok st' \<and> mem_ok st' \<and> start = fhNumPages (fst st) \<and> unat (fhNumPages (fst st')) = unat (fhNumPages (fst st)) + unat n"
proof -
  obtain u where u: "addPagesLoop (unat n) st = (st', Inr u)" "start = fhNumPages (fst st)"
    using add by (auto simp: addNewPages_def bindS_def split: prod.splits sum.splits)
  then show ?thesis using addPagesLoop_fs_ok [OF ok(1) u(1)] addPagesLoop_mem_ok [OF ok u(1)] by simp
qed

lemma popFreePages_0: "popFreePages 0 fsm = Inr (fsm, None)"
  by (simp add: popFreePages_def)

lemma allocate_from_free:
  assumes ok: "space_ok (fsm, st)" and pop: "popFreePages n fsm = Inr (fsm', Some r)"
  shows "space_ok (fsm', st) \<and> numPages r = n \<and> pagesOf r \<subseteq> freePages (fsm, st)
    \<and> usedPages (fsm', st) = usedPages (fsm, st) \<union> pagesOf r \<and> pendingPages (fsm', st) = pendingPages (fsm, st)"
proof -
  have "0 < n" using pop popFreePages_0 by (cases "n = 0") (auto simp: word_gt_0)
  then obtain e where e: "r = PageRange (startPageIdx e) n" "best_fit n e (entries fsm)" "grows (entries fsm') fsm fsm'"
    "pagesOfAll (entries fsm') = pagesOfAll (entries fsm) - pagesOf r"
    using popFreePages_ok [of fsm n] ok pop by (auto simp: space_ok_def)
  have fit: "e \<in> entries fsm" "entry_ok e" "n \<le> numPages e" using e(2) ok by (auto simp: best_fit_def space_ok_def fsm_ok_def ranges_ok_def)
  have sub: "pagesOf r \<subseteq> pagesOfAll (entries fsm)" using pagesOf_split(1) [OF fit(2,3)] fit(1) e(1) by (auto simp: pagesOfAll_def)
  show ?thesis
    using ok e(1,3,4) sub
    by (auto simp: space_ok_def freePages_def pendingPages_def filePages_def usedPages_def grows_def PageRange_def)
qed

text \<open>An allocation in a well-formed state fails only for want of frames.\<close>

lemma allocate_error:
  assumes ok: "space_ok (pmSpace ps)" and alloc: "allocatePageRange n ps = (ps', Inl e)"
  shows "e = noFrameGroups"
proof -
  obtain pm st where ps: "ps = (pm, st)" by (cases ps)
  have fs: "fs_ok st" "mem_ok st" "fsm_ok (freeSpaceManager pm)" using ok ps by (simp_all add: pmSpace_def space_ok_def)
  obtain fsm' found where pop: "popFreePages n (freeSpaceManager pm) = Inr (fsm', found)"
    using popFreePages_ok [OF fs(3), of n] popFreePages_0 [of "freeSpaceManager pm"] by (cases "n = 0") (auto simp: word_gt_0)
  then have none: "found = None" using alloc ps by (cases found) (auto simp: allocatePageRange_def)
  obtain st' r where add: "addPagesLoop (unat n) st = (st', r)" by (cases "addPagesLoop (unat n) st")
  show ?thesis
  proof (cases r)
    case (Inl e')
    then show ?thesis using alloc ps pop none add addPagesLoop_error [OF fs(1)] by (auto simp: allocatePageRange_def addNewPages_def bindS_def)
  next
    case (Inr u)
    have "unat (fhNumPages (fst st')) = unat (fhNumPages (fst st)) + unat n"
      using addPagesLoop_mem_ok [OF fs(1,2), of "unat n" st'] add Inr by simp
    then have "fhNumPages (fst st) + n \<le> fhNumPages (fst st')"
      using unat_word_ariths(1) [of "fhNumPages (fst st)" n] by (simp add: word_le_nat_alt)
    then show ?thesis using alloc ps pop none add Inr by (auto simp: allocatePageRange_def addNewPages_def bindS_def assertR_def split: if_splits)
  qed
qed

lemma allocate_refines:
  assumes ok: "space_ok (pmSpace ps)" and alloc: "allocatePageRange n ps = (ps', Inr r)"
  shows "space_ok (pmSpace ps') \<and> alloc_spec (pmAbs ps) (Allocated n r) (pmAbs ps')"
proof -
  obtain pm st where ps: "ps = (pm, st)" by (cases ps)
  let ?fsm = "freeSpaceManager pm"
  have ok': "space_ok (?fsm, st)" using ok ps by (simp add: pmSpace_def)
  obtain fsm' found where pop: "popFreePages n ?fsm = Inr (fsm', found)"
    using alloc ps by (auto simp: allocatePageRange_def split: sum.splits)
  show ?thesis
  proof (cases found)
    case (Some r')
    then have "r' = r" "pmSpace ps' = (fsm', st)" using alloc pop ps by (auto simp: allocatePageRange_def pmSpace_def)
    then show ?thesis
      using allocate_from_free [OF ok', of n fsm' r] pop Some ps
      by (auto simp: pmAbs_def pmSpace_def usedPages_def intro!: spec_allocate)
  next
    case None
    have same: "fsm' = ?fsm"
      using pop None popFreePages_ok [of ?fsm n] popFreePages_0 [of ?fsm] ok' by (cases "n = 0") (auto simp: space_ok_def word_gt_0)
    obtain st' start where add: "addNewPages n st = (st', Inr start)" "pmSpace ps' = (?fsm, st')" "r = PageRange start n"
      using alloc pop None same ps by (auto simp: allocatePageRange_def pmSpace_def bindS_def split: prod.splits sum.splits)
    have st': "fs_ok st'" "mem_ok st'" "start = fhNumPages (fst st)" "unat (fhNumPages (fst st')) = unat (fhNumPages (fst st)) + unat n"
      using addNewPages_ok [OF _ _ add(1)] ok' by (auto simp: space_ok_def)
    have pages: "pagesOf r = filePages (?fsm, st') - filePages (?fsm, st)" "filePages (?fsm, st) \<subseteq> filePages (?fsm, st')"
      using st'(3,4) add(3) by (auto simp: pagesOf_def PageRange_def filePages_def)
    have "space_ok (?fsm, st')" using ok' st' pages(2) by (auto simp: space_ok_def freePages_def pendingPages_def)
    moreover have free: "freePages (?fsm, st') = freePages (?fsm, st)" "pendingPages (?fsm, st') = pendingPages (?fsm, st)"
      by (simp_all add: freePages_def pendingPages_def)
    have inside: "freePages (?fsm, st) \<union> pendingPages (?fsm, st) \<subseteq> filePages (?fsm, st)" using ok' by (simp add: space_ok_def)
    have "usedPages (?fsm, st') = usedPages (?fsm, st) \<union> pagesOf r" "pagesOf r \<inter> (usedPages (?fsm, st) \<union> pendingPages (?fsm, st)) = {}"
      unfolding usedPages_def free pages(1) using pages(2) inside by blast+
    then have "alloc_spec (pmAbs ps) (Allocated n r) (pmAbs ps')"
      unfolding pmAbs_def add(2) using free(2) ps add(3) spec_allocate [of r n "usedPages (?fsm, st)" "pendingPages (?fsm, st)"]
      by (simp add: pmSpace_def PageRange_def)
    ultimately show ?thesis using add(2) by simp
  qed
qed

lemma free_refines:
  assumes ok: "space_ok (pmSpace ps)" and r: "entry_ok r" "pagesOf r \<subseteq> usedPages (pmSpace ps)"
  shows "space_ok (pmSpace (freePageRange r (fst ps), snd ps)) \<and> alloc_spec (pmAbs ps) (Freed r) (pmAbs (freePageRange r (fst ps), snd ps))"
proof -
  let ?fs = "pmSpace ps" and ?fs' = "pmSpace (freePageRange r (fst ps), snd ps)"
  have fs': "fst ?fs' = fst ?fs\<lparr>uncheckpointedFreePageRanges := pendingRanges ?fs @ [r]\<rparr>" "snd ?fs' = snd ?fs"
    by (simp_all add: pmSpace_def freePageRange_def addUncheckpointedFreePages_def)
  then have pages: "filePages ?fs' = filePages ?fs" "freePages ?fs' = freePages ?fs" "pendingPages ?fs' = pendingPages ?fs \<union> pagesOf r"
    by (auto simp: filePages_def freePages_def entries_def pendingPages_def pagesOfAll_insert)
  have disj: "pagesOf r \<inter> pagesOfAll (set (pendingRanges ?fs)) = {}" "pagesOf r \<inter> freePages ?fs = {}" "pagesOf r \<subseteq> filePages ?fs"
    using r(2) by (auto simp: usedPages_def pendingPages_def)
  then have "r \<notin> set (pendingRanges ?fs)" using pagesOf_empty [OF r(1)] by (auto simp: pagesOfAll_def)
  moreover have "ranges_ok (insert r (set (pendingRanges ?fs)))" using ok r(1) disj(1) ranges_ok_insert by (simp add: space_ok_def)
  moreover have "fsm_ok (fst ?fs')" using ok unfolding fs' by (simp add: space_ok_def fsm_ok_def entries_def)
  ultimately have "space_ok ?fs'"
    using ok disj(2,3) unfolding space_ok_def pages fs' by auto
  moreover have "usedPages ?fs' = usedPages ?fs - pagesOf r" unfolding usedPages_def pages by blast
  ultimately show ?thesis using spec_free [OF r(2)] pages(3) by (simp add: pmAbs_def)
qed

lemma evictAndAdd_ok:
  assumes ok: "space_ok fs" and r: "entry_ok r" "pagesOf r \<subseteq> usedPages fs"
  shows "\<exists>fs'. evictAndAddFreePages r fs = Inr fs' \<and> space_ok fs' \<and> usedPages fs' = usedPages fs - pagesOf r \<and> pendingPages fs' = pendingPages fs
    \<and> freePages fs' = freePages fs \<union> pagesOf r"
proof -
  obtain fsm st where fs: "fs = (fsm, st)" by (cases fs)
  obtain st' where st': "evictPages_fsm r (fsm, st) = Inr (fsm\<lparr>needClearEvictedEntries := True\<rparr>, st')" "fs_ok st'" "mem_ok st'"
    "fhNumPages (fst st') = fhNumPages (fst st)" using evictPages_ok [of st r fsm] ok fs by (auto simp: space_ok_def)
  let ?fsm1 = "fsm\<lparr>needClearEvictedEntries := True\<rparr>"
  have ok1: "fsm_ok ?fsm1" "entries ?fsm1 = entries fsm" using ok fs by (simp_all add: space_ok_def fsm_ok_def entries_def)
  have disj: "pagesOf r \<inter> pagesOfAll (entries ?fsm1) = {}" using r(2) ok1 fs by (auto simp: usedPages_def freePages_def)
  from addFreePages_ok [OF ok1(1) r(1) disj] obtain fsm' where
    fsm': "addFreePages r ?fsm1 = Inr fsm'" "grows (insert r (entries fsm)) ?fsm1 fsm'" using ok1(2) by auto
  have pages: "filePages (fsm', st') = filePages fs" "freePages (fsm', st') = freePages fs \<union> pagesOf r" "pendingPages (fsm', st') = pendingPages fs"
    using fsm'(2) st'(4) fs by (auto simp: filePages_def freePages_def pendingPages_def grows_def pagesOfAll_insert)
  have rest: "pagesOf r \<inter> pendingPages fs = {}" "pagesOf r \<subseteq> filePages fs" using r(2) by (auto simp: usedPages_def)
  have "space_ok (fsm', st')"
    using ok fsm'(2) st' rest fs unfolding space_ok_def pages by (auto simp: grows_def)
  moreover have "usedPages (fsm', st') = usedPages fs - pagesOf r" unfolding usedPages_def pages by blast
  moreover have "evictAndAddFreePages r fs = Inr (fsm', st')" using st'(1) fsm'(1) fs by (simp add: evictAndAddFreePages_def)
  ultimately show ?thesis using pages by blast
qed

lemma rollback_refines:
  assumes ok: "space_ok (pmSpace ps)"
  shows "space_ok (pmSpace (pm_rollbackCheckpoint (fst ps), snd ps)) \<and> alloc_spec (pmAbs ps) RolledBack (pmAbs (pm_rollbackCheckpoint (fst ps), snd ps))"
proof -
  let ?fs = "pmSpace ps" and ?fs' = "pmSpace (pm_rollbackCheckpoint (fst ps), snd ps)"
  have fs': "?fs' = (fst ?fs\<lparr>uncheckpointedFreePageRanges := []\<rparr>, snd ?fs)"
    by (simp add: pmSpace_def pm_rollbackCheckpoint_def rollbackCheckpoint_def)
  then have pages: "filePages ?fs' = filePages ?fs" "freePages ?fs' = freePages ?fs" "pendingPages ?fs' = {}"
    by (simp_all add: filePages_def freePages_def entries_def pendingPages_def pagesOfAll_def)
  have "space_ok ?fs'" using ok unfolding space_ok_def pages by (simp add: fs' fsm_ok_def entries_def ranges_ok_def)
  moreover have "usedPages ?fs' = usedPages ?fs \<union> pendingPages ?fs" using ok unfolding usedPages_def pages space_ok_def by blast
  ultimately show ?thesis using spec_rollback pages(3) by (simp add: pmAbs_def)
qed

lemma pm_step_refines:
  assumes "space_ok (pmSpace ps)" "pm_step ps ev ps'"
  shows "space_ok (pmSpace ps') \<and> alloc_spec (pmAbs ps) ev (pmAbs ps')"
  using assms(2)
proof cases
  case (step_allocate n r)
  then show ?thesis using allocate_refines [OF assms(1)] by simp
next
  case (step_free r)
  then show ?thesis using free_refines [OF assms(1)] by simp
next
  case (step_free_now r)
  obtain fs' where "evictAndAddFreePages r (pmSpace ps) = Inr fs'" "space_ok fs'" "usedPages fs' = usedPages (pmSpace ps) - pagesOf r"
    "pendingPages fs' = pendingPages (pmSpace ps)" using evictAndAdd_ok [OF assms(1) step_free_now(2,3)] by blast
  moreover from this have "pmSpace ps' = fs'"
    using step_free_now(4) by (auto simp: freeImmediatelyRewritablePageRange_def pmSpace_def split: prod.splits)
  ultimately show ?thesis using spec_free_now [OF step_free_now(3)] step_free_now(1) by (simp add: pmAbs_def)
next
  case step_checkpoint
  obtain fs' where "finalizeCheckpoint (pmSpace ps) = Inr fs'" "space_ok fs'" "usedPages fs' = usedPages (pmSpace ps)" "pendingRanges fs' = []"
    using finalizeCheckpoint_ok [OF assms(1)] by blast
  moreover from this have "pmSpace ps' = fs'" using step_checkpoint(2) by (auto simp: pm_finalizeCheckpoint_def pmSpace_def split: prod.splits)
  ultimately show ?thesis using spec_checkpoint step_checkpoint(1) by (simp add: pmAbs_def pendingPages_def pagesOfAll_def)
next
  case step_rollback
  then show ?thesis using rollback_refines [OF assms(1)] by simp
qed

lemma allocated_fresh: "alloc_spec a (Allocated n r) a' \<Longrightarrow> pagesOf r \<inter> (fst a \<union> snd a) = {}"
  by (erule alloc_spec.cases) auto

lemma pm_run_refines: "pm_run ps evs ps' \<Longrightarrow> space_ok (pmSpace ps) \<Longrightarrow> spec_run (pmAbs ps) evs (pmAbs ps')"
proof (induction rule: pm_run.induct)
  case (run_cons ps ev ps1 evs ps')
  then show ?case using pm_step_refines [OF run_cons.prems run_cons.hyps(1)] spec_cons by blast
qed (rule spec_nil)

lemma pm_run_ok: "pm_run ps evs ps' \<Longrightarrow> space_ok (pmSpace ps) \<Longrightarrow> space_ok (pmSpace ps')"
  by (induction rule: pm_run.induct) (auto dest: pm_step_refines)

text \<open>
  C10. The page manager implements its contract. In every sequence of
  operations, each operation keeps the invariant of the free
  lists, of the ranges freed since the last checkpoint and of the file, and it changes the set of
  pages in use and the set of pages that wait for a checkpoint the way the contract says: a range
  that is allocated has the requested length and consists of pages that are neither in use nor
  waiting, whether it comes from a free list or from the end of the file; a range that is freed
  waits until the checkpoint is finalized; finalizing, which merges the free ranges and may truncate
  the file, changes nothing that is in use.
\<close>

theorem page_manager_refines:
  assumes "pm_run ps evs ps'" "space_ok (pmSpace ps)"
  shows "space_ok (pmSpace ps') \<and> spec_run (pmAbs ps) evs (pmAbs ps')"
  using pm_run_ok [OF assms] pm_run_refines [OF assms] ..

text \<open>The contract on sequences: pages that wait, and pages that are in use.\<close>

lemma spec_run_append:
  "spec_run a (evs @ evs') a' \<longleftrightarrow> (\<exists>b. spec_run a evs b \<and> spec_run b evs' a')"
proof (induction evs arbitrary: a)
  case Nil
  show ?case by (metis append_Nil spec_nil spec_run_cases(1))
next
  case (Cons ev evs)
  show ?case unfolding append_Cons by (metis Cons spec_cons spec_run_cases(2))
qed

lemma waiting_step: "alloc_spec a ev a' \<Longrightarrow> ev \<noteq> Checkpointed \<Longrightarrow> ev \<noteq> RolledBack \<Longrightarrow> snd a \<subseteq> snd a'"
  by (erule alloc_spec.cases) auto

lemma waiting_stays:
  assumes "spec_run a evs a'" "Checkpointed \<notin> set evs" "RolledBack \<notin> set evs"
  shows "snd a \<subseteq> snd a'"
  using assms
proof (induction rule: spec_run.induct)
  case (spec_cons a ev a1 evs a')
  then show ?case using waiting_step [OF spec_cons.hyps(1)] by (metis list.set_intros order_trans)
qed simp

lemma in_use_step:
  "alloc_spec a ev a' \<Longrightarrow> (\<And>r. ev = Freed r \<or> ev = FreedNow r \<Longrightarrow> pagesOf r \<inter> X = {}) \<Longrightarrow> X \<subseteq> fst a \<Longrightarrow> X \<subseteq> fst a'"
  by (erule alloc_spec.cases) auto

lemma in_use_stays:
  assumes "spec_run a evs a'" "\<forall>r. Freed r \<in> set evs \<or> FreedNow r \<in> set evs \<longrightarrow> pagesOf r \<inter> X = {}" "X \<subseteq> fst a"
  shows "X \<subseteq> fst a'"
  using assms
proof (induction rule: spec_run.induct)
  case (spec_cons a ev a1 evs a')
  have "X \<subseteq> fst a1" using in_use_step [OF spec_cons.hyps(1)] spec_cons.prems by auto
  then show ?case using spec_cons by auto
qed simp

text \<open>
  C22. Freed pages wait for the checkpoint: in a sequence of operations of the page manager, a range
  that is freed shares no page with any range that is allocated later, unless a checkpoint is
  finalized or rolled back in between. A crash in between therefore finds the freed pages as they
  were.
\<close>

theorem freed_pages_wait_for_checkpoint:
  assumes "pm_run ps (pre @ Freed r # mid @ [Allocated n r']) ps'" "space_ok (pmSpace ps)"
    and "Checkpointed \<notin> set mid" "RolledBack \<notin> set mid"
  shows "pagesOf r \<inter> pagesOf r' = {}"
proof -
  obtain a b c d where run: "alloc_spec a (Freed r) b" "spec_run b mid c" "alloc_spec c (Allocated n r') d"
    using pm_run_refines [OF assms(1,2)] unfolding spec_run_append by (metis spec_run_append spec_run_cases(2))
  have "pagesOf r \<subseteq> snd b" using run(1) by (cases rule: alloc_spec.cases) auto
  then have "pagesOf r \<subseteq> snd c" using waiting_stays [OF run(2) assms(3,4)] by blast
  then show ?thesis using allocated_fresh [OF run(3)] by blast
qed

text \<open>
  Pages have one owner: two ranges that are allocated in a sequence of operations of the page
  manager share no page, unless a page of the first has been freed in between.
\<close>

theorem allocated_pages_have_one_owner:
  assumes "pm_run ps (pre @ Allocated m r # mid @ [Allocated n r']) ps'" "space_ok (pmSpace ps)"
    and "\<forall>x. Freed x \<in> set mid \<or> FreedNow x \<in> set mid \<longrightarrow> pagesOf x \<inter> pagesOf r = {}"
  shows "pagesOf r \<inter> pagesOf r' = {}"
proof -
  obtain a b c d where run: "alloc_spec a (Allocated m r) b" "spec_run b mid c" "alloc_spec c (Allocated n r') d"
    using pm_run_refines [OF assms(1,2)] unfolding spec_run_append by (metis spec_run_append spec_run_cases(2))
  have "pagesOf r \<subseteq> fst b" using run(1) by (cases rule: alloc_spec.cases) auto
  then have "pagesOf r \<subseteq> fst c" using in_use_stays [OF run(2) assms(3)] by blast
  then show ?thesis using allocated_fresh [OF run(3)] by blast
qed

text \<open>
  C23. Finalizing a checkpoint always returns. It changes no page in use, no range waits any more,
  and the free ranges are merged: no free range ends where another one starts, and none reaches the
  end of the file, which has been truncated instead. The lists, the counter and the frames stay
  well-formed.
\<close>

theorem finalizeCheckpoint_merges:
  assumes "space_ok (pmSpace ps)"
  shows "\<exists>ps'. pm_finalizeCheckpoint ps = Inr ps' \<and> space_ok (pmSpace ps') \<and> pmAbs ps' = (usedPages (pmSpace ps), {})
    \<and> coalesced (entries (freeSpaceManager (fst ps')))
    \<and> (\<forall>e \<in> entries (freeSpaceManager (fst ps')). endOf e < unat (fhNumPages (fst (snd ps'))))"
proof -
  obtain fs' where fs': "finalizeCheckpoint (pmSpace ps) = Inr fs'" "space_ok fs'" "usedPages fs' = usedPages (pmSpace ps)" "pendingRanges fs' = []"
    "coalesced (entries (fst fs'))" "\<forall>e \<in> entries (fst fs'). endOf e < unat (fhNumPages (fst (snd fs')))"
    using finalizeCheckpoint_ok [OF assms] by blast
  let ?ps' = "((fst ps)\<lparr>freeSpaceManager := fst fs'\<rparr>, snd fs')"
  have "pm_finalizeCheckpoint ps = Inr ?ps'"
    using fs'(1) by (simp add: pm_finalizeCheckpoint_def pmSpace_def split: prod.splits)
  moreover have "pmSpace ?ps' = fs'" by (simp add: pmSpace_def)
  ultimately show ?thesis using fs' by (auto simp: pmAbs_def pendingPages_def pagesOfAll_def)
qed

text \<open>
  Allocation is best fit: if a free range is large enough, the request is served without touching
  the file, from the start of the smallest such range, and what is left of it stays free; otherwise
  the free lists are unchanged. In both cases no assertion fails.
\<close>

theorem popFreePages_best_fit:
  assumes "fsm_ok fsm" "0 < n"
  shows "if \<exists>e \<in> entries fsm. n \<le> numPages e
    then \<exists>e fsm'. popFreePages n fsm = Inr (fsm', Some (PageRange (startPageIdx e) n)) \<and> best_fit n e (entries fsm) \<and> fsm_ok fsm'
      \<and> pagesOfAll (entries fsm') = pagesOfAll (entries fsm) - pagesOf (PageRange (startPageIdx e) n)
    else popFreePages n fsm = Inr (fsm, None)"
  using popFreePages_ok [OF assms] by (auto simp: best_fit_def grows_def not_less)

text \<open>The optimistic allocator: what it has allocated since the last commit is in use and without overlap.\<close>

definition oa_ok :: "page_range list \<times> pm_state \<Rightarrow> bool" where
  "oa_ok os \<longleftrightarrow> space_ok (pmSpace (snd os)) \<and> distinct (fst os) \<and> ranges_ok (set (fst os)) \<and> pagesOfAll (set (fst os)) \<subseteq> usedPages (pmSpace (snd os))"

lemma allocated_entry_ok:
  assumes "space_ok (pmSpace ps)" "allocatePageRange n ps = (ps', Inr r)" "0 < n"
  shows "entry_ok r"
proof -
  have ok: "space_ok (pmSpace ps')" "alloc_spec (pmAbs ps) (Allocated n r) (pmAbs ps')" using allocate_refines [OF assms(1,2)] by blast+
  have num: "numPages r = n" and used: "pagesOf r \<subseteq> usedPages (pmSpace ps')"
    using ok(2) by (auto elim: alloc_spec.cases simp: pmAbs_def)
  have pos: "0 < unat n" using assms(3) by (simp add: word_less_nat_alt)
  then have "unat (startPageIdx r) + unat n - 1 \<in> pagesOf r" using num by (auto simp: pagesOf_def)
  then have "unat (startPageIdx r) + unat n - 1 < unat (fhNumPages (fst (snd ps')))"
    using used by (auto simp: usedPages_def filePages_def pmSpace_def)
  then have "unat (startPageIdx r) + unat n < 2 ^ 32"
    using unsigned_less [of "fhNumPages (fst (snd ps'))", where ?'a = nat] by simp
  then show ?thesis using num assms(3) by (simp add: entry_ok_def)
qed

inductive oa_allocs :: "page_range list \<times> pm_state \<Rightarrow> page_range list \<times> pm_state \<Rightarrow> bool" where
  oa_none: "oa_allocs os os"
| oa_some: "oa_allocs os os1 \<Longrightarrow> oa_allocatePageRange n os1 = (os2, Inr r) \<Longrightarrow> oa_allocs os os2"

lemma oa_allocate_ok:
  assumes ok: "oa_ok os" and alloc: "oa_allocatePageRange n os = (os', Inr r)"
  shows "oa_ok os' \<and> usedPages (pmSpace (snd os')) - pagesOfAll (set (fst os')) = usedPages (pmSpace (snd os)) - pagesOfAll (set (fst os))
    \<and> pendingPages (pmSpace (snd os')) = pendingPages (pmSpace (snd os))"
proof -
  obtain ps' where a: "allocatePageRange n (snd os) = (ps', Inr r)" "os' = (if n > 0 then fst os @ [r] else fst os, ps')"
    using alloc by (auto simp: oa_allocatePageRange_def split: prod.splits sum.splits)
  have space: "space_ok (pmSpace (snd os))" using ok by (simp add: oa_ok_def)
  have ok': "space_ok (pmSpace ps')" "alloc_spec (pmAbs (snd os)) (Allocated n r) (pmAbs ps')" using allocate_refines [OF space a(1)] by blast+
  have used: "usedPages (pmSpace ps') = usedPages (pmSpace (snd os)) \<union> pagesOf r" "pendingPages (pmSpace ps') = pendingPages (pmSpace (snd os))"
    "numPages r = n" using ok'(2) by (auto elim!: alloc_spec.cases simp: pmAbs_def)
  have fresh: "pagesOf r \<inter> usedPages (pmSpace (snd os)) = {}" using allocated_fresh [OF ok'(2)] by (auto simp: pmAbs_def)
  show ?thesis
  proof (cases "n > 0")
    case True
    have r: "entry_ok r" by (rule allocated_entry_ok [OF space a(1) True])
    have disj: "pagesOf r \<inter> pagesOfAll (set (fst os)) = {}" using ok fresh by (auto simp: oa_ok_def)
    then have "r \<notin> set (fst os)" using pagesOf_empty [OF r] by (auto simp: pagesOfAll_def)
    moreover have "ranges_ok (insert r (set (fst os)))" using ok r disj ranges_ok_insert by (simp add: oa_ok_def)
    moreover have all: "pagesOfAll (insert r (set (fst os))) = pagesOf r \<union> pagesOfAll (set (fst os))" by (rule pagesOfAll_insert)
    ultimately have "oa_ok os'" using ok ok'(1) used True unfolding a(2) by (auto simp: oa_ok_def)
    moreover have "usedPages (pmSpace ps') - (pagesOf r \<union> pagesOfAll (set (fst os))) = usedPages (pmSpace (snd os)) - pagesOfAll (set (fst os))"
      using used(1) fresh by blast
    ultimately show ?thesis using used(2) all True unfolding a(2) by simp
  next
    case False
    then have "pagesOf r = {}" using used(3) by (simp add: pagesOf_def word_less_nat_alt)
    then show ?thesis using ok ok'(1) used False unfolding a(2) by (simp add: oa_ok_def)
  qed
qed

lemma free_now_ok:
  assumes "space_ok (pmSpace ps)" "entry_ok r" "pagesOf r \<subseteq> usedPages (pmSpace ps)"
  shows "\<exists>ps'. freeImmediatelyRewritablePageRange r ps = Inr ps' \<and> space_ok (pmSpace ps')
    \<and> usedPages (pmSpace ps') = usedPages (pmSpace ps) - pagesOf r \<and> pendingPages (pmSpace ps') = pendingPages (pmSpace ps)"
  using evictAndAdd_ok [OF assms] by (auto simp: freeImmediatelyRewritablePageRange_def pmSpace_def)

lemma oa_rollback_ok:
  assumes "space_ok (pmSpace ps)" "distinct rs" "ranges_ok (set rs)" "pagesOfAll (set rs) \<subseteq> usedPages (pmSpace ps)"
  shows "\<exists>ps'. foldR freeImmediatelyRewritablePageRange rs ps = Inr ps' \<and> space_ok (pmSpace ps')
    \<and> usedPages (pmSpace ps') = usedPages (pmSpace ps) - pagesOfAll (set rs) \<and> pendingPages (pmSpace ps') = pendingPages (pmSpace ps)"
  using assms
proof (induction rs arbitrary: ps)
  case Nil
  then show ?case by (simp add: pagesOfAll_def)
next
  case (Cons r rs)
  have r: "entry_ok r" "pagesOf r \<subseteq> usedPages (pmSpace ps)" "pagesOf r \<inter> pagesOfAll (set rs) = {}"
    using Cons.prems by (auto simp: ranges_ok_def pagesOfAll_def)
  obtain ps1 where ps1: "freeImmediatelyRewritablePageRange r ps = Inr ps1" "space_ok (pmSpace ps1)"
    "usedPages (pmSpace ps1) = usedPages (pmSpace ps) - pagesOf r" "pendingPages (pmSpace ps1) = pendingPages (pmSpace ps)"
    using free_now_ok [OF Cons.prems(1) r(1,2)] by blast
  have "ranges_ok (set rs)" using Cons.prems(3) ranges_ok_subset [of "set (r # rs)"] by auto
  moreover have "pagesOfAll (set rs) \<subseteq> usedPages (pmSpace ps1)" using Cons.prems(4) r(3) ps1(3) by (auto simp: pagesOfAll_insert)
  moreover have "distinct rs" using Cons.prems(2) by simp
  ultimately obtain ps' where "foldR freeImmediatelyRewritablePageRange rs ps1 = Inr ps'" "space_ok (pmSpace ps')"
    "usedPages (pmSpace ps') = usedPages (pmSpace ps1) - pagesOfAll (set rs)" "pendingPages (pmSpace ps') = pendingPages (pmSpace ps1)"
    using Cons.IH [OF ps1(2)] by blast
  then show ?case using ps1 by (auto simp: pagesOfAll_insert)
qed

text \<open>
  Rolling back the optimistic allocator gives back what it allocated: after any sequence of
  allocations through it, rolling back returns, and the pages in use and the pages that wait for the
  checkpoint are those of before the first allocation.
\<close>

theorem optimistic_rollback_restores:
  assumes "oa_allocs ([], ps) os" "space_ok (pmSpace ps)"
  shows "\<exists>ps'. oa_rollback os = Inr ([], ps') \<and> space_ok (pmSpace ps') \<and> pmAbs ps' = pmAbs ps"
proof -
  have "oa_ok os \<and> usedPages (pmSpace (snd os)) - pagesOfAll (set (fst os)) = usedPages (pmSpace ps)
    \<and> pendingPages (pmSpace (snd os)) = pendingPages (pmSpace ps)"
    using assms
  proof (induction "([] :: page_range list, ps)" os rule: oa_allocs.induct)
    case oa_none
    then show ?case by (simp add: oa_ok_def ranges_ok_def pagesOfAll_def)
  next
    case (oa_some os1 n os2 r)
    then show ?case using oa_allocate_ok [of os1 n os2 r] by simp
  qed
  then show ?thesis using oa_rollback_ok [of "snd os" "fst os"] by (auto simp: oa_ok_def oa_rollback_def pmAbs_def)
qed

section \<open>The iterator\<close>

text \<open>The entries that an iterator has still to visit.\<close>

definition it_rest :: "page_range list list \<Rightarrow> free_entry_iterator \<Rightarrow> page_range list" where
  "it_rest fls it = (if freeListIdx it < length fls then drop (freeListIt it) (fls ! freeListIdx it) @ concat (drop (Suc (freeListIdx it)) fls) else [])"

definition it_ok :: "page_range list list \<Rightarrow> free_entry_iterator \<Rightarrow> bool" where
  "it_ok fls it \<longleftrightarrow> (freeListIdx it < length fls \<longrightarrow> freeListIt it < length (fls ! freeListIdx it))"

lemma advanceFreeListIdx_ok:
  "it_ok fls (advanceFreeListIdx fls it) \<and> it_rest fls (advanceFreeListIdx fls it) = concat (drop (freeListIdx it) fls)"
proof (induction fls it rule: advanceFreeListIdx.induct)
  case (1 fls it)
  show ?case
  proof (cases "freeListIdx it < length fls")
    case True
    then have "drop (freeListIdx it) fls = fls ! freeListIdx it # drop (Suc (freeListIdx it)) fls" by (simp add: Cons_nth_drop_Suc)
    then show ?thesis using True 1 by (subst (1 2) advanceFreeListIdx.simps) (auto simp: it_ok_def it_rest_def)
  qed (simp add: advanceFreeListIdx.simps it_ok_def it_rest_def)
qed

lemma FreeEntryIterator_ok: "it_ok fls (FreeEntryIterator_new fls)" "it_rest fls (FreeEntryIterator_new fls) = concat fls"
  using advanceFreeListIdx_ok [of fls "\<lparr>freeListIdx = 0, freeListIt = 0\<rparr>"] by (simp_all add: FreeEntryIterator_new_def)

lemma it_done_rest: "it_ok fls it \<Longrightarrow> it_done fls it \<longleftrightarrow> it_rest fls it = []"
  by (auto simp: it_done_def it_ok_def it_rest_def)

lemma it_step:
  assumes "it_ok fls it" "it_rest fls it = e # es"
  shows "it_deref fls it = Inr e \<and> (\<exists>it'. it_next fls it = Inr it' \<and> it_ok fls it' \<and> it_rest fls it' = es)"
proof -
  let ?xs = "fls ! freeListIdx it"
  have idx: "freeListIdx it < length fls" "freeListIt it < length ?xs" using assms by (auto simp: it_rest_def it_ok_def split: if_splits)
  then have "drop (freeListIt it) ?xs = ?xs ! freeListIt it # drop (Suc (freeListIt it)) ?xs" by (simp add: Cons_nth_drop_Suc)
  then have e: "e = ?xs ! freeListIt it" "es = drop (Suc (freeListIt it)) ?xs @ concat (drop (Suc (freeListIdx it)) fls)"
    using assms(2) idx by (simp_all add: it_rest_def)
  have "\<exists>it'. it_next fls it = Inr it' \<and> it_ok fls it' \<and> it_rest fls it' = es"
  proof (cases "Suc (freeListIt it) = length ?xs")
    case True
    then show ?thesis
      using idx e(2) advanceFreeListIdx_ok [of fls "it\<lparr>freeListIt := length ?xs, freeListIdx := Suc (freeListIdx it)\<rparr>"]
      by (simp add: it_next_def Let_def)
  next
    case False
    then show ?thesis using idx e(2) by (simp add: it_next_def Let_def it_ok_def it_rest_def)
  qed
  then show ?thesis using idx e(1) by (simp add: it_deref_def nthR_def)
qed

lemma it_advance_ok:
  assumes "it_ok fls it" "n \<le> length (it_rest fls it)"
  shows "\<exists>it'. it_advance fls n it = Inr it' \<and> it_ok fls it' \<and> it_rest fls it' = drop n (it_rest fls it)"
  using assms
proof (induction n arbitrary: it)
  case (Suc n)
  then obtain e es where rest: "it_rest fls it = e # es" by (cases "it_rest fls it") auto
  then show ?case using it_step [OF Suc.prems(1) rest] Suc.IH Suc.prems(2) by fastforce
qed simp

lemma takeEntries_ok:
  assumes "it_ok fls it" "n \<le> length (it_rest fls it)"
  shows "takeEntries fls n it = Inr (take n (it_rest fls it))"
  using assms
proof (induction n arbitrary: it)
  case (Suc n)
  then obtain e es where rest: "it_rest fls it = e # es" by (cases "it_rest fls it") auto
  then show ?case using it_step [OF Suc.prems(1) rest] Suc.IH Suc.prems it_done_rest by fastforce
qed simp

text \<open>
  Listing the entries through the iterator, which skips the empty lists, is the same as cutting
  the piece out of all lists one after the other.
\<close>

theorem getEntries_is_slice:
  assumes "startOffset \<le> endOffset" "endOffset \<le> length (concat (freeLists fsm))"
  shows "getEntries_fsm startOffset endOffset fsm = Inr (take (endOffset - startOffset) (drop startOffset (concat (freeLists fsm))))"
proof -
  let ?fls = "freeLists fsm"
  obtain it where it: "it_advance ?fls startOffset (FreeEntryIterator_new ?fls) = Inr it" "it_ok ?fls it"
    "it_rest ?fls it = drop startOffset (concat ?fls)"
    using it_advance_ok [OF FreeEntryIterator_ok(1), of startOffset ?fls] assms unfolding FreeEntryIterator_ok(2) by auto
  then show ?thesis using takeEntries_ok [OF it(2), of "endOffset - startOffset"] assms by (simp add: getEntries_fsm_def)
qed

lemma serializeCheckpointedEntries_ok:
  assumes "it_ok fls it"
  shows "serializeCheckpointedEntries ser fls it n p = Some (Inr (fold (processEntry ser) (it_rest fls it) p, n + of_nat (length (it_rest fls it))))"
  using assms
proof (induction "it_rest fls it" arbitrary: it n p)
  case Nil
  then show ?case by (subst serializeCheckpointedEntries.simps) (simp add: it_done_rest)
next
  case (Cons e es)
  obtain it' where s: "it_deref fls it = Inr e" "it_next fls it = Inr it'" "it_ok fls it'" "it_rest fls it' = es"
    using it_step [OF Cons.prems Cons.hyps(2) [symmetric]] by blast
  have "\<not> it_done fls it" using it_done_rest [OF Cons.prems] Cons.hyps(2) by auto
  then show ?case
    using s Cons.hyps(1) [of it' "n + 1" "processEntry ser e p"] Cons.hyps(2) [symmetric]
    by (subst serializeCheckpointedEntries.simps) (simp add: algebra_simps)
qed

lemma serializeInternal_ok:
  assumes "fsm_ok fsm"
  shows "serializeInternal ser fsm p = Some (Inr (fold (processEntry ser) (concat (freeLists fsm) @ uncheckpointedFreePageRanges fsm)
    (processDebuggingInfo ser ''entries'' (processValue ser (serializeU64 (of_nat (length (concat (freeLists fsm) @ uncheckpointedFreePageRanges fsm))))
    (processDebuggingInfo ser ''numEntries'' (processDebuggingInfo ser ''page_manager'' p))))))"
  using assms
  by (simp add: serializeInternal_def serializeCheckpointedEntries_ok FreeEntryIterator_ok serializeUncheckpointedEntries_def fsm_ok_def Let_def)

section \<open>Storing and loading the free lists\<close>

definition storedEntries :: "free_space_manager \<Rightarrow> page_range list" where
  "storedEntries fsm = concat (freeLists fsm) @ uncheckpointedFreePageRanges fsm"

lemma fold_ValueSerializer:
  "fold (processEntry (ValueSerializer dbg)) es out = out @ concat (map (\<lambda>e. serializeU32 (startPageIdx e) @ serializeU32 (numPages e)) es)"
  by (induction es arbitrary: out) (simp_all add: processEntry_def ValueSerializer_def)

lemma fsm_serialize_value:
  assumes "fsm_ok fsm"
  shows "fsm_serialize dbg fsm = Some (Inr (writeTag dbg ''page_manager'' @ writeTag dbg ''numEntries''
    @ serializeU64 (of_nat (length (storedEntries fsm))) @ writeTag dbg ''entries''
    @ concat (map (\<lambda>e. serializeU32 (startPageIdx e) @ serializeU32 (numPages e)) (storedEntries fsm))))"
  unfolding fsm_serialize_def serializeInternal_ok [OF assms] fold_ValueSerializer storedEntries_def
  by (simp add: ValueSerializer_def)

lemma deserializeFreeEntries_ok:
  assumes "fsm_ok fsm" "distinct es" "ranges_ok (set es)" "pagesOfAll (set es) \<inter> pagesOfAll (entries fsm) = {}"
  shows "\<exists>fsm'. (\<forall>rest. deserializeFreeEntries (length es) fsm (concat (map (\<lambda>e. serializeU32 (startPageIdx e) @ serializeU32 (numPages e)) es) @ rest)
      = Inr (fsm', rest)) \<and> grows (entries fsm \<union> set es) fsm fsm'"
  using assms
proof (induction es arbitrary: fsm)
  case (Cons e es)
  have e: "entry_ok e" "pagesOf e \<inter> pagesOfAll (entries fsm) = {}" "pagesOf e \<inter> pagesOfAll (set es) = {}"
    using Cons.prems by (auto simp: ranges_ok_def pagesOfAll_def)
  obtain fsm1 where fsm1: "addFreePages e fsm = Inr fsm1" "grows (insert e (entries fsm)) fsm fsm1"
    using addFreePages_ok [OF Cons.prems(1) e(1,2)] by blast
  have "PageRange (startPageIdx e) (numPages e) = e" by (simp add: PageRange_def)
  moreover have "ranges_ok (set es)" using Cons.prems(3) ranges_ok_subset [of "set (e # es)"] by auto
  moreover have "pagesOfAll (set es) \<inter> pagesOfAll (entries fsm1) = {}"
    using fsm1(2) Cons.prems(4) e(3) by (auto simp: grows_def pagesOfAll_insert)
  ultimately show ?case
    using Cons.IH [of fsm1] fsm1 Cons.prems(2) by (auto simp: grows_def ser_u32.round_trip)
qed (simp add: grows_def)

lemma stored_ok:
  assumes "space_ok (fsm, st)"
  shows "distinct (storedEntries fsm)" "ranges_ok (set (storedEntries fsm))" "set (storedEntries fsm) = entries fsm \<union> set (uncheckpointedFreePageRanges fsm)"
proof -
  let ?es = "uncheckpointedFreePageRanges fsm"
  have ok: "ranges_ok (entries fsm)" "ranges_ok (set ?es)" "pagesOfAll (entries fsm) \<inter> pagesOfAll (set ?es) = {}"
    "distinct ?es" "distinct (concat (freeLists fsm))"
    using assms lists_distinct by (auto simp: space_ok_def fsm_ok_def freePages_def pendingPages_def)
  note un = ranges_ok_Un [OF ok(1-3)]
  show set: "set (storedEntries fsm) = entries fsm \<union> set ?es" by (simp add: storedEntries_def entries_def)
  show "ranges_ok (set (storedEntries fsm))" unfolding set by (rule un(1))
  show "distinct (storedEntries fsm)" using ok(4,5) un(2) by (simp add: storedEntries_def entries_def del: set_concat)
qed

lemma stored_count:
  assumes "distinct es" "ranges_ok (set es)"
  shows "length es \<le> 2 ^ 32"
proof -
  have "inj_on startPageIdx (set es)"
  proof (rule inj_onI)
    fix a b
    assume ab: "a \<in> set es" "b \<in> set es" "startPageIdx a = startPageIdx b"
    have "unat (startPageIdx a) \<in> pagesOf a \<inter> pagesOf b"
      using ab assms(2) entry_ok_pos by (auto simp: ranges_ok_def pagesOf_def)
    then show "a = b" using ab assms(2) by (auto simp: ranges_ok_def)
  qed
  then have "card (set es) \<le> card (UNIV :: u32 set)" by (rule card_inj_on_le) simp_all
  then show ?thesis using distinct_card [OF assms(1)] by (simp add: card_word)
qed

text \<open>
  The free space survives a restart: what the free space manager writes at a checkpoint, its free
  ranges and those that become free with the checkpoint, is read back completely into an empty
  manager, all of it as free ranges, and the manager that is read is well-formed.
\<close>

lemma free_space_round_trip:
  assumes "space_ok (fsm, st)"
  shows "\<exists>bs fsm'. fsm_serialize dbg fsm = Some (Inr bs) \<and> (\<forall>rest. fsm_deserialize dbg FreeSpaceManager_new (bs @ rest) = Inr (fsm', rest))
    \<and> fsm_ok fsm' \<and> entries fsm' = entries fsm \<union> set (uncheckpointedFreePageRanges fsm) \<and> uncheckpointedFreePageRanges fsm' = []"
proof -
  note stored = stored_ok [OF assms]
  have new: "fsm_ok FreeSpaceManager_new" "entries FreeSpaceManager_new = {}"
    by (simp_all add: FreeSpaceManager_new_def fsm_ok_def lists_ok_def entries_def ranges_ok_def)
  have count: "unat (of_nat (length (storedEntries fsm)) :: u64) = length (storedEntries fsm)"
    using stored_count [OF stored(1,2)] by (intro unat_of_nat_64) simp
  let ?body = "concat (map (\<lambda>e. serializeU32 (startPageIdx e) @ serializeU32 (numPages e)) (storedEntries fsm))"
  obtain fsm' where fsm': "\<forall>rest. deserializeFreeEntries (length (storedEntries fsm)) FreeSpaceManager_new (?body @ rest) = Inr (fsm', rest)"
    "grows (set (storedEntries fsm)) FreeSpaceManager_new fsm'"
    using deserializeFreeEntries_ok [OF new(1) stored(1,2)] new(2) by (auto simp: pagesOfAll_def)
  let ?bs = "writeTag dbg ''page_manager'' @ writeTag dbg ''numEntries''
    @ serializeU64 (of_nat (length (storedEntries fsm))) @ writeTag dbg ''entries'' @ ?body"
  have "\<forall>rest. fsm_deserialize dbg FreeSpaceManager_new (?bs @ rest) = Inr (fsm', rest)"
    using fsm'(1) count by (simp add: fsm_deserialize_def bindD_def tag_round_trip ser_u64.round_trip)
  moreover have "fsm_serialize dbg fsm = Some (Inr ?bs)" using fsm_serialize_value assms by (simp add: space_ok_def)
  ultimately show ?thesis using fsm'(2) stored(3) by (auto simp: grows_def FreeSpaceManager_new_def)
qed

section \<open>The estimated size\<close>

text \<open>
  The tracker counts at most the space that is written: \<open>written\<close> bytes in pieces of at most 64
  bytes waste less than 64 bytes of each page.
\<close>

definition tracks :: "nat \<Rightarrow> pages_used_tracker \<Rightarrow> bool" where
  "tracks written t \<longleftrightarrow> unat (numBytesUsedInPage t) \<le> 4096 \<and> written \<le> unat (numPagesUsed t) * 4096 + unat (numBytesUsedInPage t)
     \<and> unat (numPagesUsed t) * 4032 + unat (numBytesUsedInPage t) \<le> written"

lemma updatePagesUsed_tracks:
  assumes t: "tracks written t" and n: "n \<le> 64" "written < 2 ^ 40"
  shows "tracks (written + n) (updatePagesUsed n t)"
proof -
  have n64: "unat (of_nat n :: u64) = n" using n(1) by (intro unat_of_nat_64) simp
  have pages: "unat (numPagesUsed t) < 2 ^ 32 - 1" using t n(2) by (simp add: tracks_def)
  have bytes: "unat (numBytesUsedInPage t + of_nat n) = unat (numBytesUsedInPage t) + n"
    using t n(1) by (simp add: tracks_def unat_word_ariths n64)
  have next_page: "unat (numPagesUsed t + 1) = unat (numPagesUsed t) + 1" using pages by (simp add: unat_word_ariths)
  show ?thesis
  proof (cases "unat (numBytesUsedInPage t) + n > 4096")
    case True
    then have "numBytesUsedInPage t + of_nat n > LBUG_PAGE_SIZE" using bytes by (simp add: word_less_nat_alt LBUG_PAGE_SIZE_def)
    then show ?thesis using t n True next_page n64 by (simp add: updatePagesUsed_def tracks_def Let_def)
  next
    case False
    then have "\<not> numBytesUsedInPage t + of_nat n > LBUG_PAGE_SIZE" using bytes by (simp add: word_less_nat_alt LBUG_PAGE_SIZE_def)
    then show ?thesis using t False bytes by (simp add: updatePagesUsed_def tracks_def Let_def)
  qed
qed

lemma entries_tracked:
  assumes "tracks written t" "written + 8 * length es < 2 ^ 40"
  shows "tracks (written + 8 * length es) (fold (processEntry SerializePagesUsedTracker) es t)"
  using assms
proof (induction es arbitrary: written t)
  case (Cons e es)
  have "tracks (written + 4 + 4) (updatePagesUsed 4 (updatePagesUsed 4 t))"
    using Cons.prems by (intro updatePagesUsed_tracks) simp_all
  then have "tracks (written + 8) (processEntry SerializePagesUsedTracker e t)"
    by (simp add: processEntry_def SerializePagesUsedTracker_def serializeU32_def add.commute)
  then show ?case using Cons.IH [of "written + 8"] Cons.prems(2) by (simp add: add.assoc)
qed simp

lemma estimate_ok:
  assumes ok: "space_ok (fsm, st)"
  shows "\<exists>k. getMaxNumPagesForSerialization fsm = Some (Inr k) \<and> 61 + 8 * length (storedEntries fsm) \<le> unat k * 4096 \<and> unat k < 2 ^ 24"
proof -
  let ?ser = SerializePagesUsedTracker and ?n = "length (storedEntries fsm)"
  have count: "?n \<le> 2 ^ 32" using stored_count [OF stored_ok(1,2) [OF ok]] .
  have t0: "tracks 0 \<lparr>numPagesUsed = 0, numBytesUsedInPage = 0\<rparr>" by (simp add: tracks_def)
  define t1 where "t1 = processDebuggingInfo ?ser ''entries'' (processValue ?ser (serializeU64 (of_nat ?n))
    (processDebuggingInfo ?ser ''numEntries'' (processDebuggingInfo ?ser ''page_manager'' \<lparr>numPagesUsed = 0, numBytesUsedInPage = 0\<rparr>)))"
  have "tracks (((0 + 20) + 18) + 8 + 15) (updatePagesUsed 15 (updatePagesUsed 8 (updatePagesUsed 18 (updatePagesUsed 20 \<lparr>numPagesUsed = 0, numBytesUsedInPage = 0\<rparr>))))"
    by (intro updatePagesUsed_tracks t0) simp_all
  then have "tracks 61 t1" unfolding t1_def by (simp add: SerializePagesUsedTracker_def serializeU64_def)
  then have fin: "tracks (61 + 8 * ?n) (fold (processEntry ?ser) (storedEntries fsm) t1)"
    using count by (intro entries_tracked) simp_all
  define t where "t = fold (processEntry ?ser) (storedEntries fsm) t1"
  have "serializeInternal ?ser fsm \<lparr>numPagesUsed = 0, numBytesUsedInPage = 0\<rparr> = Some (Inr t)"
    using serializeInternal_ok [of fsm ?ser] ok unfolding t_def t1_def storedEntries_def by (simp add: space_ok_def)
  then have estimate: "getMaxNumPagesForSerialization fsm = Some (Inr (numPagesUsed t + (if numBytesUsedInPage t > 0 then 1 else 0)))"
    by (simp add: getMaxNumPagesForSerialization_def)
  have t: "tracks (61 + 8 * ?n) t" using fin by (simp add: t_def)
  have pages: "unat (numPagesUsed t) < 2 ^ 24 - 1" using t count by (simp add: tracks_def)
  then have "unat (numPagesUsed t + 1) = unat (numPagesUsed t) + 1" by (simp add: unat_word_ariths)
  moreover have "numBytesUsedInPage t > 0 \<longleftrightarrow> unat (numBytesUsedInPage t) > 0" by (simp add: word_less_nat_alt)
  ultimately show ?thesis using estimate t pages by (cases "numBytesUsedInPage t > 0") (simp_all add: tracks_def)
qed

lemma set_insert_length_le: "length (set_insert e xs) \<le> Suc (length xs)"
  by (induction xs) auto

lemma addFreePages_length:
  assumes "addFreePages e fsm = Inr fsm'"
  shows "length (concat (freeLists fsm')) \<le> Suc (length (concat (freeLists fsm)))"
proof -
  obtain l where l: "freeLists fsm' = (getFreeList l (freeLists fsm))[l := set_insert e (getFreeList l (freeLists fsm) ! l)]"
    using assms by (auto simp: addFreePages_def Let_def assertR_def split: if_splits)
  have "l < length (getFreeList l (freeLists fsm))" "concat (getFreeList l (freeLists fsm)) = concat (freeLists fsm)"
    by (auto simp: getFreeList_def)
  then show ?thesis
    using update_level_length [of l "getFreeList l (freeLists fsm)" "set_insert e (getFreeList l (freeLists fsm) ! l)"] l
      set_insert_length_le [of e "getFreeList l (freeLists fsm) ! l"] by simp
qed

lemma popLevels_length:
  assumes "popLevels n levels fsm = Inr (fsm', r)" "\<forall>l \<in> set levels. l < length (freeLists fsm)"
  shows "length (concat (freeLists fsm')) \<le> length (concat (freeLists fsm)) \<and> uncheckpointedFreePageRanges fsm' = uncheckpointedFreePageRanges fsm"
  using assms
proof (induction levels)
  case (Cons l levels)
  show ?case
  proof (cases "set_lower_bound (PageRange 0 n) (freeLists fsm ! l)")
    case None
    then show ?thesis using Cons by simp
  next
    case (Some e)
    let ?fsm = "fsm\<lparr>freeLists := (freeLists fsm)[l := remove1 e (freeLists fsm ! l)], numEntries := numEntries fsm - 1\<rparr>"
    have l: "l < length (freeLists fsm)" using Cons.prems(2) by simp
    have "e \<in> set (freeLists fsm ! l)" using Some by (auto simp: set_lower_bound_def find_Some_iff)
    then have removed: "Suc (length (concat (freeLists ?fsm))) = length (concat (freeLists fsm))"
      using update_level_length [OF l, of "remove1 e (freeLists fsm ! l)"] Suc_length_remove1 [of e "freeLists fsm ! l"] by simp
    obtain r' where split: "splitPageRange e n ?fsm = Inr (fsm', r')" using Cons.prems(1) Some by (auto simp: Let_def)
    show ?thesis
    proof (cases "n < numPages e")
      case True
      then have "addFreePages (PageRange (startPageIdx e + n) (numPages e - n)) ?fsm = Inr fsm'"
        using split by (auto simp: splitPageRange_def Let_def assertR_def split: if_splits)
      then show ?thesis using addFreePages_length removed by (fastforce simp: addFreePages_def Let_def assertR_def split: if_splits)
    next
      case False
      then have "fsm' = ?fsm" using split by (auto simp: splitPageRange_def Let_def assertR_def split: if_splits)
      then show ?thesis using removed by simp
    qed
  qed
qed simp

lemma allocate_length:
  assumes "allocatePageRange n ps = (ps', Inr r)"
  shows "length (storedEntries (freeSpaceManager (fst ps'))) \<le> length (storedEntries (freeSpaceManager (fst ps)))"
proof -
  obtain fsm' found where pop: "popFreePages n (freeSpaceManager (fst ps)) = Inr (fsm', found)" "freeSpaceManager (fst ps') = fsm'"
    using assms by (auto simp: allocatePageRange_def bindS_def split: prod.splits sum.splits option.splits)
  then have "length (storedEntries fsm') \<le> length (storedEntries (freeSpaceManager (fst ps)))"
    using popLevels_length [of n _ "freeSpaceManager (fst ps)" fsm' found]
    by (fastforce simp: popFreePages_def storedEntries_def split: if_splits)
  then show ?thesis using pop(2) by simp
qed

section \<open>Examples\<close>

text \<open>A file of two pages whose second page is free.\<close>

definition example_fsm :: free_space_manager where
  "example_fsm = \<lparr>freeLists = [[PageRange 1 1]], uncheckpointedFreePageRanges = [], numEntries = 1, needClearEvictedEntries = False\<rparr>"

definition example_pm :: pm_state where
  "example_pm = (\<lparr>freeSpaceManager = example_fsm, pmVersion = 0\<rparr>, example_file, example_pool\<lparr>numFrameGroups := 1\<rparr>)"

lemma getLevel_1: "getLevel 1 = Inr 0"
  by (simp add: getLevel_iff)

lemma example_space_ok: "space_ok (pmSpace example_pm)"
proof -
  have "fs_ok (snd example_pm)" using fh_reach_ok [OF example_file_reached] by (simp add: example_pm_def)
  moreover have "p < 2 \<Longrightarrow> pageStates example_file ! p = PageState_new" for p by (simp add: example_file_def)
  then have "mem_ok (snd example_pm)"
    by (simp add: mem_ok_def residentPages_def example_pm_def fields_evicted) (simp add: example_file_def fields_evicted cong: conj_cong)
  moreover have "fsm_ok example_fsm"
    by (simp add: fsm_ok_def lists_ok_def ranges_ok_def entries_def example_fsm_def entry_ok_def PageRange_def getLevel_1)
  ultimately show ?thesis
    by (auto simp: space_ok_def pmSpace_def example_pm_def example_fsm_def ranges_ok_def freePages_def pendingPages_def filePages_def
        pagesOfAll_def entries_def pagesOf_def PageRange_def example_file_def)
qed

lemma example_used: "usedPages (pmSpace example_pm) = {0}"
  by (auto simp: usedPages_def filePages_def freePages_def pendingPages_def pmSpace_def example_pm_def example_fsm_def example_file_def
      pagesOfAll_def entries_def pagesOf_def PageRange_def)

lemma example_run:
  "\<exists>ps'. pm_run example_pm [Freed (PageRange 0 1), Allocated 1 (PageRange 1 1), Allocated 1 (PageRange 2 1)] ps'"
proof -
  let ?ps1 = "(freePageRange (PageRange 0 1) (fst example_pm), snd example_pm)"
  have 1: "pm_step example_pm (Freed (PageRange 0 1)) ?ps1"
    by (rule step_free) (simp_all add: example_used entry_ok_def pagesOf_def PageRange_def)
  let ?fsm2 = "\<lparr>freeLists = [[]], uncheckpointedFreePageRanges = [PageRange 0 1], numEntries = 0, needClearEvictedEntries = False\<rparr>"
  let ?ps2 = "(\<lparr>freeSpaceManager = ?fsm2, pmVersion = 2\<rparr>, snd example_pm)"
  have 2: "pm_step ?ps1 (Allocated 1 (PageRange 1 1)) ?ps2"
    by (rule step_allocate)
      (simp add: allocatePageRange_def popFreePages_def getLevel_1 freePageRange_def addUncheckpointedFreePages_def example_pm_def
        example_fsm_def set_lower_bound_def entryCmp_def PageRange_def splitPageRange_def)
  have full: "popFreePages 1 ?fsm2 = Inr (?fsm2, None)" by (simp add: popFreePages_def getLevel_1 set_lower_bound_def)
  have ok: "fs_ok (snd example_pm)" using example_space_ok by (simp add: space_ok_def pmSpace_def)
  have "length (frameGroupIdxes (fst (snd example_pm))) < 2 ^ 22 - 1" "fhNumPages (fst (snd example_pm)) = 2"
    "fhNumPages (fst (snd example_pm)) \<noteq> pageCapacity (fst (snd example_pm))" by (simp_all add: example_pm_def example_file_def)
  with addNewPage_ok [of "snd example_pm"] ok obtain st' where
    st': "addNewPageWithoutLock (snd example_pm) = (st', Inr 2)" "unat (fhNumPages (fst st')) = 3" by (auto simp: fs_ok_def)
  have add: "addNewPages 1 (snd example_pm) = (st', Inr 2)"
    using st'(1) by (simp add: addNewPages_def) (simp add: example_pm_def example_file_def)
  have "3 \<le> fhNumPages (fst st')" using st'(2) by (simp add: word_le_nat_alt)
  then have "allocatePageRange 1 ?ps2 = ((\<lparr>freeSpaceManager = ?fsm2, pmVersion = 2\<rparr>, st'), Inr (PageRange 2 1))"
    using full add by (simp add: allocatePageRange_def)
  then have "pm_step ?ps2 (Allocated 1 (PageRange 2 1)) (\<lparr>freeSpaceManager = ?fsm2, pmVersion = 2\<rparr>, st')" by (rule step_allocate)
  then show ?thesis using 1 2 by (blast intro: run_cons run_nil)
qed

theorem page_manager_refines_witness:
  "\<exists>ps'. pm_run example_pm [Freed (PageRange 0 1), Allocated 1 (PageRange 1 1), Allocated 1 (PageRange 2 1)] ps' \<and> space_ok (pmSpace ps')
    \<and> spec_run (pmAbs example_pm) [Freed (PageRange 0 1), Allocated 1 (PageRange 1 1), Allocated 1 (PageRange 2 1)] (pmAbs ps')"
  using example_run page_manager_refines example_space_ok by blast

theorem freed_pages_wait_for_checkpoint_witness: "pagesOf (PageRange 0 1) \<inter> pagesOf (PageRange 2 1) = {}"
proof -
  obtain ps' where "pm_run example_pm ([] @ Freed (PageRange 0 1) # [Allocated 1 (PageRange 1 1)] @ [Allocated 1 (PageRange 2 1)]) ps'"
    using example_run by auto
  from freed_pages_wait_for_checkpoint [OF this example_space_ok] show ?thesis by simp
qed

theorem allocated_pages_have_one_owner_witness: "pagesOf (PageRange 1 1) \<inter> pagesOf (PageRange 2 1) = {}"
proof -
  obtain ps' where "pm_run example_pm ([Freed (PageRange 0 1)] @ Allocated 1 (PageRange 1 1) # [] @ [Allocated 1 (PageRange 2 1)]) ps'"
    using example_run by auto
  from allocated_pages_have_one_owner [OF this example_space_ok] show ?thesis by simp
qed

theorem finalizeCheckpoint_merges_witness:
  "\<exists>ps'. pm_finalizeCheckpoint example_pm = Inr ps' \<and> space_ok (pmSpace ps') \<and> pmAbs ps' = ({0}, {})
    \<and> coalesced (entries (freeSpaceManager (fst ps')))
    \<and> (\<forall>e \<in> entries (freeSpaceManager (fst ps')). endOf e < unat (fhNumPages (fst (snd ps'))))"
  using finalizeCheckpoint_merges [OF example_space_ok] unfolding example_used .

theorem popFreePages_best_fit_witness:
  "\<exists>e fsm'. popFreePages 1 example_fsm = Inr (fsm', Some (PageRange (startPageIdx e) 1)) \<and> best_fit 1 e (entries example_fsm) \<and> fsm_ok fsm'
    \<and> pagesOfAll (entries fsm') = pagesOfAll (entries example_fsm) - pagesOf (PageRange (startPageIdx e) 1)"
proof -
  have "fsm_ok example_fsm" using example_space_ok by (simp add: space_ok_def pmSpace_def example_pm_def)
  moreover have "\<exists>e \<in> entries example_fsm. 1 \<le> numPages e" by (simp add: entries_def example_fsm_def PageRange_def)
  ultimately show ?thesis using popFreePages_best_fit [of example_fsm 1] by simp
qed

theorem optimistic_rollback_restores_witness:
  "\<exists>os ps'. oa_allocs ([], example_pm) os \<and> fst os = [PageRange 1 1] \<and> oa_rollback os = Inr ([], ps') \<and> space_ok (pmSpace ps')
    \<and> pmAbs ps' = pmAbs example_pm"
proof -
  let ?fsm = "\<lparr>freeLists = [[]], uncheckpointedFreePageRanges = [], numEntries = 0, needClearEvictedEntries = False\<rparr>"
  let ?os = "([PageRange 1 1], \<lparr>freeSpaceManager = ?fsm, pmVersion = 1\<rparr>, snd example_pm)"
  have "oa_allocatePageRange 1 ([], example_pm) = (?os, Inr (PageRange 1 1))"
    by (simp add: oa_allocatePageRange_def allocatePageRange_def popFreePages_def getLevel_1 example_pm_def
        example_fsm_def set_lower_bound_def entryCmp_def PageRange_def splitPageRange_def)
  then have "oa_allocs ([], example_pm) ?os" by (rule oa_some [OF oa_none])
  with optimistic_rollback_restores [OF this example_space_ok] show ?thesis by (metis fst_conv)
qed

theorem getEntries_is_slice_witness: "getEntries_fsm 0 1 example_fsm = Inr [PageRange 1 1]"
  using getEntries_is_slice [of 0 1 example_fsm] by (simp add: example_fsm_def)

end
