(* ===== verification/Database_Header.thy ===== *)
theory Database_Header
  imports Free_Space Wal
begin

text \<open>
  The header in the first page of the data file (\<^verbatim>\<open>src/src/storage/database_header.cpp\<close>): the
  magic bytes, the storage version (\<^verbatim>\<open>src/src/storage/storage_version_info.cpp\<close>), the page
  ranges of the catalog and of the metadata, and the identity of the database. The version of the
  build, \<^verbatim>\<open>LBUG_CMAKE_VERSION\<close>, is the parameter \<open>build\<close>; \<open>dbg\<close> tells
  whether debugging information is written.
\<close>

section \<open>Versions\<close>

definition getStorageVersionInfo :: "(string \<times> u64) list" where
  "getStorageVersionInfo =
     [(''0.12.0'', 40), (''0.12.2'', 40), (''0.13.0'', 40), (''0.13.1'', 40), (''0.14.0'', 40), (''0.14.1'', 40)]"

definition getStorageVersion :: "string \<Rightarrow> u64" where
  "getStorageVersion build =
     (case map_of getStorageVersionInfo build of
        Some version \<Rightarrow> version
      | None \<Rightarrow> fold (\<lambda>(_, versionNumber) maxVersion. max maxVersion versionNumber) getStorageVersionInfo 0)"

definition MAGIC_BYTES :: "u8 list" where
  "MAGIC_BYTES = tag ''LBUG''"

definition INVALID_PAGE_IDX :: u32 where
  "INVALID_PAGE_IDX = - 1"

section \<open>The header\<close>

record database_header =
  catalogPageRange :: page_range
  metadataPageRange :: page_range
  headerDatabaseID :: database_id

definition emptyPageRange :: page_range where
  "emptyPageRange = PageRange INVALID_PAGE_IDX 0"

definition createInitialHeader :: "database_id \<Rightarrow> database_header" where
  "createInitialHeader uuid = \<lparr>catalogPageRange = emptyPageRange, metadataPageRange = emptyPageRange, headerDatabaseID = uuid\<rparr>"

definition updateCatalogPageRange :: "page_range \<Rightarrow> database_header \<Rightarrow> page_manager \<Rightarrow> database_header \<times> page_manager" where
  "updateCatalogPageRange newPageRange h pm =
     (h\<lparr>catalogPageRange := newPageRange\<rparr>,
      if startPageIdx (catalogPageRange h) \<noteq> INVALID_PAGE_IDX then freePageRange (catalogPageRange h) pm else pm)"

definition freeMetadataPageRange :: "database_header \<Rightarrow> page_manager \<Rightarrow> page_manager" where
  "freeMetadataPageRange h pm =
     (if startPageIdx (metadataPageRange h) \<noteq> INVALID_PAGE_IDX then freePageRange (metadataPageRange h) pm else pm)"

section \<open>Writing and reading it\<close>

definition writeMagicBytes :: "bool \<Rightarrow> u8 list" where
  "writeMagicBytes dbg = writeTag dbg ''magic'' @ concat (map serializeU8 MAGIC_BYTES)"

definition validateMagicBytes :: "bool \<Rightarrow> unit reader" where
  "validateMagicBytes dbg =
     bindD (expectTag dbg ''magic'') (\<lambda>_.
     bindD (readMany deserializeU8 (length MAGIC_BYTES)) (\<lambda>magicBytes bs.
     if magicBytes \<noteq> MAGIC_BYTES then Inl (RuntimeException ''Unable to open database. The file is not a valid Lbug database file!'')
     else Inr ((), bs)))"

definition validateStorageVersion :: "bool \<Rightarrow> string \<Rightarrow> unit reader" where
  "validateStorageVersion dbg build =
     bindD (expectTag dbg ''storage_version'') (\<lambda>_.
     bindD deserializeU64 (\<lambda>savedStorageVersion bs.
     if savedStorageVersion \<noteq> getStorageVersion build
     then Inl (RuntimeException ''Trying to read a database file with a different version.'')
     else Inr ((), bs)))"

definition serializePageRange :: "page_range \<Rightarrow> u8 list" where
  "serializePageRange r = serializeU32 (startPageIdx r) @ serializeU32 (numPages r)"

definition deserializePageRange :: "page_range reader" where
  "deserializePageRange =
     bindD deserializeU32 (\<lambda>start. bindD deserializeU32 (\<lambda>num. returnD (PageRange start num)))"

definition DatabaseHeader_serialize :: "bool \<Rightarrow> string \<Rightarrow> database_header \<Rightarrow> u8 list" where
  "DatabaseHeader_serialize dbg build h =
     writeMagicBytes dbg
     @ writeTag dbg ''storage_version'' @ serializeU64 (getStorageVersion build)
     @ writeTag dbg ''catalog'' @ serializePageRange (catalogPageRange h)
     @ writeTag dbg ''metadata'' @ serializePageRange (metadataPageRange h)
     @ writeTag dbg ''databaseID'' @ writeDatabaseID (headerDatabaseID h)"

definition DatabaseHeader_deserialize :: "bool \<Rightarrow> string \<Rightarrow> database_header reader" where
  "DatabaseHeader_deserialize dbg build =
     bindD (validateMagicBytes dbg) (\<lambda>_.
     bindD (validateStorageVersion dbg build) (\<lambda>_.
     bindD (expectTag dbg ''catalog'') (\<lambda>_. bindD deserializePageRange (\<lambda>catalogPageRange.
     bindD (expectTag dbg ''metadata'') (\<lambda>_. bindD deserializePageRange (\<lambda>metaPageRange.
     bindD (expectTag dbg ''databaseID'') (\<lambda>_.
     bindD deserializeU64 (\<lambda>low. bindD deserializeU64 (\<lambda>high.
     returnD \<lparr>catalogPageRange = catalogPageRange, metadataPageRange = metaPageRange, headerDatabaseID = (low, high)\<rparr>)))))))))"

text \<open>Reading the header of a data file; a runtime error means that there is none.\<close>

definition readDatabaseHeader :: "nat \<Rightarrow> bool \<Rightarrow> string \<Rightarrow> u8 list \<Rightarrow> database_header option res" where
  "readDatabaseHeader P dbg build dataFile =
     (if length dataFile < P then Inr None
      else case DatabaseHeader_deserialize dbg build dataFile of
        Inr (h, _) \<Rightarrow> Inr (Some h)
      | Inl (RuntimeException msg) \<Rightarrow> Inr None
      | Inl e \<Rightarrow> Inl e)"

section \<open>The header is read back\<close>

lemma readMany_u8: "readMany deserializeU8 (length xs) (concat (map serializeU8 xs) @ rest) = Inr (xs, rest)"
  by (rule ser_u8.many_round_trip) simp

lemma magic_round_trip: "validateMagicBytes dbg (writeMagicBytes dbg @ rest) = Inr ((), rest)"
  by (simp add: validateMagicBytes_def writeMagicBytes_def bindD_def tag_round_trip readMany_u8)

lemma pageRange_round_trip: "deserializePageRange (serializePageRange r @ rest) = Inr (r, rest)"
  by (simp add: deserializePageRange_def serializePageRange_def bindD_def returnD_def ser_u32.round_trip PageRange_def)

lemma header_read_back: "DatabaseHeader_deserialize dbg build (DatabaseHeader_serialize dbg build h @ rest) = Inr (h, rest)"
  by (simp add: DatabaseHeader_deserialize_def DatabaseHeader_serialize_def bindD_def returnD_def magic_round_trip
      validateStorageVersion_def tag_round_trip pageRange_round_trip ser_u64.round_trip writeDatabaseID_def)

text \<open>
  A page that is only partly written has its first \<open>k\<close> bytes from the new contents and the
  others from the old ones. Where both agree the result agrees, and a page range stays some page
  range: a header over another one of the same database is still a header of that database.
\<close>

definition torn :: "nat \<Rightarrow> 'a list \<Rightarrow> 'a list \<Rightarrow> 'a list" where
  "torn k new old = take k new @ drop k old"

lemma torn_same: "torn k xs xs = xs"
  by (simp add: torn_def)

lemma torn_append: "length a = length b \<Longrightarrow> torn k (a @ c) (b @ d) = torn k a b @ torn (k - length a) c d"
  by (cases "k \<le> length a") (simp_all add: torn_def)

lemma length_torn: "length a = length b \<Longrightarrow> length (torn k a b) = length b"
  by (simp add: torn_def)

lemma serializeU32_leWord:
  assumes "length bs = 4"
  shows "serializeU32 (leWord bs) = bs"
proof (rule nth_equalityI)
  show "serializeU32 (leWord bs) ! i = bs ! i" if "i < length (serializeU32 (leWord bs))" for i
  proof -
    have i: "i < 4" using that by (simp add: serializeU32_def)
    then show ?thesis
      using assms by (intro bit_word_eqI) (auto simp: serializeU32_def leBytes_def bit_simps bit_leWord)
  qed
qed (simp add: serializeU32_def assms)

lemma torn_pageRange: "\<exists>r. torn k (serializePageRange a) (serializePageRange b) = serializePageRange r"
proof -
  let ?bs = "torn k (serializePageRange a) (serializePageRange b)"
  have len: "length (take 4 ?bs) = 4" "length (drop 4 ?bs) = 4" by (simp_all add: torn_def serializePageRange_def serializeU32_def)
  then have "?bs = serializePageRange (PageRange (leWord (take 4 ?bs)) (leWord (drop 4 ?bs)))"
    by (simp add: serializePageRange_def PageRange_def serializeU32_leWord)
  then show ?thesis ..
qed

lemma length_serializePageRange: "length (serializePageRange a) = 8"
  by (simp add: serializePageRange_def serializeU32_def)

lemma torn_header:
  assumes "headerDatabaseID new = headerDatabaseID old"
  shows "\<exists>h. torn k (DatabaseHeader_serialize dbg build new) (DatabaseHeader_serialize dbg build old) = DatabaseHeader_serialize dbg build h
    \<and> headerDatabaseID h = headerDatabaseID old"
proof -
  let ?pre = "writeMagicBytes dbg @ writeTag dbg ''storage_version'' @ serializeU64 (getStorageVersion build) @ writeTag dbg ''catalog''"
  let ?mid = "writeTag dbg ''metadata''" and ?post = "writeTag dbg ''databaseID'' @ writeDatabaseID (headerDatabaseID old)"
  have form: "DatabaseHeader_serialize dbg build h = ?pre @ serializePageRange (catalogPageRange h) @ ?mid @ serializePageRange (metadataPageRange h) @ ?post"
    if "headerDatabaseID h = headerDatabaseID old" for h
    using that by (simp add: DatabaseHeader_serialize_def)
  obtain r s where r: "torn (k - length ?pre) (serializePageRange (catalogPageRange new)) (serializePageRange (catalogPageRange old)) = serializePageRange r"
    and s: "torn (k - length ?pre - 8 - length ?mid) (serializePageRange (metadataPageRange new)) (serializePageRange (metadataPageRange old)) = serializePageRange s"
    using torn_pageRange by blast
  let ?h = "\<lparr>catalogPageRange = r, metadataPageRange = s, headerDatabaseID = headerDatabaseID old\<rparr>"
  have "torn k (?pre @ serializePageRange (catalogPageRange new) @ ?mid @ serializePageRange (metadataPageRange new) @ ?post)
      (?pre @ serializePageRange (catalogPageRange old) @ ?mid @ serializePageRange (metadataPageRange old) @ ?post) =
    ?pre @ serializePageRange r @ ?mid @ serializePageRange s @ ?post"
    unfolding torn_append [OF refl] torn_append [OF trans [OF length_serializePageRange length_serializePageRange [symmetric]]]
      length_serializePageRange r s torn_same ..
  then have "torn k (DatabaseHeader_serialize dbg build new) (DatabaseHeader_serialize dbg build old) = DatabaseHeader_serialize dbg build ?h"
    using form [OF assms] form [OF refl] form [of ?h] by simp
  then show ?thesis by (intro exI [of _ ?h]) simp
qed

lemma length_header: "length (DatabaseHeader_serialize dbg build a) = length (DatabaseHeader_serialize dbg build b)"
  by (simp add: DatabaseHeader_serialize_def length_serializePageRange writeDatabaseID_def serializeU64_def)

end
