(* ===== verification/Shadow_File.thy ===== *)
theory Shadow_File
  imports Database_Header Byte_Streams "HOL-Library.AList"
begin

text \<open>
  The shadow file of a checkpoint: \<^verbatim>\<open>src/src/storage/shadow_file.cpp\<close> and
  \<^verbatim>\<open>src/src/storage/shadow_utils.cpp\<close>. A checkpoint writes new versions of pages to shadow
  pages; once they and their records are on disk, the pages are copied over the originals.

  A page of the shadow file is its contents and whether it is dirty, as the buffer manager shows it;
  the buffer manager may write a dirty page to disk at any time. The contents of a page that is
  pinned without being read is the parameter \<open>fresh\<close>, and \<open>P\<close> is the page size. The
  maps are association lists. The records are written and read through a buffered writer and
  reader, which keep the stream of bytes. The bytes that pad \<^verbatim>\<open>ShadowFileHeader\<close> are zero here; they are never read.
\<close>

section \<open>State\<close>

record shadow_page_record =
  originalFileIdx :: u32
  originalPageIdx :: u32

definition ShadowPageRecord_serialize :: "shadow_page_record \<Rightarrow> u8 list" where
  "ShadowPageRecord_serialize r = serializeU32 (originalFileIdx r) @ serializeU32 (originalPageIdx r)"

definition ShadowPageRecord_deserialize :: "shadow_page_record reader" where
  "ShadowPageRecord_deserialize =
     bindD deserializeU32 (\<lambda>file. bindD deserializeU32 (\<lambda>page.
     returnD \<lparr>originalFileIdx = file, originalPageIdx = page\<rparr>))"

text \<open>The file handle of the shadow file: its pages and the file on disk.\<close>

record shadow_fh =
  shPages :: "(u8 list \<times> bool) list"
  shDisk :: "u8 list"

record shadow_file =
  shadowingFH :: "shadow_fh option"
  shadowPagesMap :: "(u32 \<times> (u32 \<times> u32) list) list"
  shadowPageRecords :: "shadow_page_record list"

definition ShadowFile_new :: shadow_file where
  "ShadowFile_new = \<lparr>shadowingFH = None, shadowPagesMap = [], shadowPageRecords = []\<rparr>"

section \<open>Shadow pages\<close>

definition hasShadowPage :: "u32 \<Rightarrow> u32 \<Rightarrow> shadow_file \<Rightarrow> bool" where
  "hasShadowPage originalFile originalPage sf =
     (case map_of (shadowPagesMap sf) originalFile of None \<Rightarrow> False | Some m \<Rightarrow> map_of m originalPage \<noteq> None)"

definition getShadowPage :: "u32 \<Rightarrow> u32 \<Rightarrow> shadow_file \<Rightarrow> u32 res" where
  "getShadowPage originalFile originalPage sf =
     bindR (assertR (hasShadowPage originalFile originalPage sf)) (\<lambda>_.
     bindR (derefR (map_of (shadowPagesMap sf) originalFile)) (\<lambda>m. derefR (map_of m originalPage)))"

definition clearShadowPage :: "u32 \<Rightarrow> u32 \<Rightarrow> shadow_file \<Rightarrow> shadow_file" where
  "clearShadowPage originalFile originalPage sf =
     (case map_of (shadowPagesMap sf) originalFile of
        None \<Rightarrow> sf
      | Some m \<Rightarrow>
          if map_of m originalPage = None then sf
          else
            let m = AList.delete originalPage m in
            sf\<lparr>shadowPagesMap := (if m = [] then AList.delete originalFile (shadowPagesMap sf)
                                    else AList.update originalFile m (shadowPagesMap sf))\<rparr>)"

definition sh_addNewPage :: "u8 list \<Rightarrow> shadow_fh \<Rightarrow> shadow_fh \<times> u32" where
  "sh_addNewPage fresh fh = (fh\<lparr>shPages := shPages fh @ [(fresh, False)]\<rparr>, of_nat (length (shPages fh)))"

text \<open>The shadow file is created when the first page is needed; the first page is its header.\<close>

definition getOrCreateShadowingFH :: "u8 list \<Rightarrow> shadow_file \<Rightarrow> shadow_file \<times> shadow_fh" where
  "getOrCreateShadowingFH fresh sf =
     (case shadowingFH sf of
        Some fh \<Rightarrow> (sf, fh)
      | None \<Rightarrow>
          let fh = fst (sh_addNewPage fresh \<lparr>shPages = [], shDisk = []\<rparr>) in
          (sf\<lparr>shadowingFH := Some fh\<rparr>, fh))"

definition getOrCreateShadowPage :: "u8 list \<Rightarrow> u32 \<Rightarrow> u32 \<Rightarrow> shadow_file \<Rightarrow> (shadow_file \<times> u32) res" where
  "getOrCreateShadowPage fresh originalFile originalPage sf =
     (if hasShadowPage originalFile originalPage sf then
        bindR (getShadowPage originalFile originalPage sf) (\<lambda>i. Inr (sf, i))
      else
        let (sf, fh) = getOrCreateShadowingFH fresh sf;
            (fh, shadowPageIdx) = sh_addNewPage fresh fh;
            inner = (case map_of (shadowPagesMap sf) originalFile of None \<Rightarrow> [] | Some m \<Rightarrow> m) in
        Inr (sf\<lparr>shadowingFH := Some fh,
                shadowPagesMap := AList.update originalFile (AList.update originalPage shadowPageIdx inner) (shadowPagesMap sf),
                shadowPageRecords := shadowPageRecords sf @ [\<lparr>originalFileIdx = originalFile, originalPageIdx = originalPage\<rparr>]\<rparr>,
             shadowPageIdx))"

text \<open>The pages through the buffer manager.\<close>

definition sh_page :: "u32 \<Rightarrow> shadow_file \<Rightarrow> u8 list res" where
  "sh_page i sf =
     bindR (derefR (shadowingFH sf)) (\<lambda>fh. bindR (nthR (shPages fh) (unat i)) (\<lambda>p. Inr (fst p)))"

definition sh_setPage :: "u32 \<Rightarrow> u8 list \<Rightarrow> bool \<Rightarrow> shadow_file \<Rightarrow> shadow_file res" where
  "sh_setPage i contents dirty sf =
     bindR (derefR (shadowingFH sf)) (\<lambda>fh. bindR (updR (shPages fh) (unat i) (contents, dirty)) (\<lambda>ps.
     Inr (sf\<lparr>shadowingFH := Some (fh\<lparr>shPages := ps\<rparr>)\<rparr>)))"

text \<open>Writing a dirty page to disk, which the buffer manager also does to free its frame.\<close>

definition sh_flushPage :: "nat \<Rightarrow> nat \<Rightarrow> shadow_fh \<Rightarrow> shadow_fh" where
  "sh_flushPage P i fh =
     (let (contents, dirty) = shPages fh ! i in
      if dirty then fh\<lparr>shDisk := writeFile (shDisk fh) (i * P) contents, shPages := (shPages fh)[i := (contents, False)]\<rparr>
      else fh)"

definition sh_evict :: "nat \<Rightarrow> nat \<Rightarrow> shadow_file \<Rightarrow> shadow_file" where
  "sh_evict P i sf =
     (case shadowingFH sf of
        None \<Rightarrow> sf
      | Some fh \<Rightarrow> if i < length (shPages fh) then sf\<lparr>shadowingFH := Some (sh_flushPage P i fh)\<rparr> else sf)"

section \<open>Updating pages through their shadows\<close>

text \<open>\<open>original\<close> is the page of the data file, read through the buffer manager.\<close>

definition createShadowVersionIfNecessaryAndPinPage ::
  "u8 list \<Rightarrow> u32 \<Rightarrow> bool \<Rightarrow> u32 \<Rightarrow> u8 list \<Rightarrow> shadow_file \<Rightarrow> (shadow_file \<times> u32) res" where
  "createShadowVersionIfNecessaryAndPinPage fresh originalPage skipReadingOriginalPage fileIdx original sf =
     (let has = hasShadowPage fileIdx originalPage sf in
      bindR (getOrCreateShadowPage fresh fileIdx originalPage sf) (\<lambda>(sf, shadowPage).
      bindR (if has then sh_page shadowPage sf
             else Inr (if \<not> skipReadingOriginalPage then original else fresh)) (\<lambda>frame.
      bindR (sh_setPage shadowPage frame True sf) (\<lambda>sf.
      Inr (sf, shadowPage)))))"

definition getFileHandleAndPhysicalPageIdxToPin :: "u32 \<Rightarrow> u32 \<Rightarrow> bool \<Rightarrow> shadow_file \<Rightarrow> (bool \<times> u32) res" where
  "getFileHandleAndPhysicalPageIdxToPin fileIdx pageIdx isCheckpointTrx sf =
     (if isCheckpointTrx \<and> hasShadowPage fileIdx pageIdx sf
      then bindR (getShadowPage fileIdx pageIdx sf) (\<lambda>i. Inr (True, i))
      else Inr (False, pageIdx))"

text \<open>An exception of \<open>updateOp\<close> passes on after the page is unpinned.\<close>

definition updatePage ::
  "u8 list \<Rightarrow> u32 \<Rightarrow> u32 \<Rightarrow> bool \<Rightarrow> u8 list \<Rightarrow> (u8 list \<Rightarrow> u8 list res) \<Rightarrow> shadow_file \<Rightarrow> shadow_file res" where
  "updatePage fresh fileIdx originalPage skipReadingOriginalPage original updateOp sf =
     bindR (createShadowVersionIfNecessaryAndPinPage fresh originalPage skipReadingOriginalPage fileIdx original sf) (\<lambda>(sf, shadowPage).
     bindR (sh_page shadowPage sf) (\<lambda>frame.
     bindR (updateOp frame) (\<lambda>frame.
     sh_setPage shadowPage frame True sf)))"

definition readShadowVersionOfPage :: "u32 \<Rightarrow> u32 \<Rightarrow> shadow_file \<Rightarrow> u8 list res" where
  "readShadowVersionOfPage fileIdx originalPage sf =
     bindR (getShadowPage fileIdx originalPage sf) (\<lambda>shadowPageIdx. sh_page shadowPageIdx sf)"

section \<open>Writing the shadow file\<close>

definition shadowHeaderPage :: "nat \<Rightarrow> database_id \<Rightarrow> u32 \<Rightarrow> u8 list" where
  "shadowHeaderPage P databaseID numShadowPages =
     writeDatabaseID databaseID @ serializeU32 numShadowPages @ replicate (P - 20) 0"

definition flushAllDirtyPagesInFrames :: "nat \<Rightarrow> shadow_fh \<Rightarrow> shadow_fh" where
  "flushAllDirtyPagesInFrames P fh = fold (sh_flushPage P) [0..<length (shPages fh)] fh"

definition flushAll :: "nat \<Rightarrow> database_id \<Rightarrow> shadow_file \<Rightarrow> shadow_file res" where
  "flushAll P databaseID sf =
     (case shadowingFH sf of
        None \<Rightarrow> Inl AssertFail
      | Some fh \<Rightarrow>
          let header = shadowHeaderPage P databaseID (of_nat (length (shadowPageRecords sf)));
              fh = fh\<lparr>shDisk := writeFile (shDisk fh) 0 header\<rparr>;
              fh = flushAllDirtyPagesInFrames P fh in
          bindR (assertR (length (shadowPageRecords sf) + 1 = length (shPages fh))) (\<lambda>_.
          let fh = fh\<lparr>shDisk := writeFile (shDisk fh) (length (shPages fh) * P)
                          (serializeVector ShadowPageRecord_serialize (shadowPageRecords sf))\<rparr> in
          Inr (sf\<lparr>shadowingFH := Some fh\<rparr>)))"

section \<open>Applying the shadow pages\<close>

text \<open>The pages of the buffer manager that hold pages of a file.\<close>

type_synonym frames = "u32 \<times> u32 \<Rightarrow> u8 list option"

definition updateFrameIfPageIsInFrameWithoutLock :: "u32 \<Rightarrow> u8 list \<Rightarrow> u32 \<Rightarrow> frames \<Rightarrow> frames" where
  "updateFrameIfPageIsInFrameWithoutLock fileIdx newPage pageIdx fr =
     (if fr (fileIdx, pageIdx) \<noteq> None then fr((fileIdx, pageIdx) := Some newPage) else fr)"

fun applyLoop :: "nat \<Rightarrow> u8 list \<Rightarrow> nat \<Rightarrow> shadow_page_record list \<Rightarrow> u8 list \<times> frames \<Rightarrow> (u8 list \<times> frames) res" where
  "applyLoop P shadow shadowPageIdx [] st = Inr st"
| "applyLoop P shadow shadowPageIdx (r # rs) (dataFile, fr) =
     bindR (readFromFile shadow P (shadowPageIdx * P)) (\<lambda>pageBuffer.
     applyLoop P shadow (shadowPageIdx + 1) rs
       (writeFile dataFile (unat (originalPageIdx r) * P) pageBuffer,
        updateFrameIfPageIsInFrameWithoutLock (originalFileIdx r) pageBuffer (originalPageIdx r) fr))"

definition applyShadowPages :: "nat \<Rightarrow> shadow_file \<Rightarrow> u8 list \<times> frames \<Rightarrow> (u8 list \<times> frames) res" where
  "applyShadowPages P sf st =
     (case shadowingFH sf of
        None \<Rightarrow> Inl AssertFail
      | Some fh \<Rightarrow> applyLoop P (shDisk fh) 1 (shadowPageRecords sf) st)"

definition ShadowFile_clear :: "u8 list \<Rightarrow> shadow_file \<Rightarrow> shadow_file res" where
  "ShadowFile_clear fresh sf =
     (case shadowingFH sf of
        None \<Rightarrow> Inl AssertFail
      | Some fh \<Rightarrow> Inr \<lparr>shadowingFH = Some (fst (sh_addNewPage fresh \<lparr>shPages = [], shDisk = []\<rparr>)),
                        shadowPagesMap = [], shadowPageRecords = []\<rparr>)"

text \<open>Resetting the file handle; the file is removed.\<close>

definition ShadowFile_reset :: "shadow_file \<Rightarrow> shadow_file res" where
  "ShadowFile_reset sf = bindR (derefR (shadowingFH sf)) (\<lambda>_. Inr (sf\<lparr>shadowingFH := None\<rparr>))"

section \<open>Replaying the shadow pages after a crash\<close>

definition getOldDatabaseID :: "nat \<Rightarrow> bool \<Rightarrow> string \<Rightarrow> u8 list \<Rightarrow> database_id res" where
  "getOldDatabaseID P dbg build dataFile =
     bindR (readDatabaseHeader P dbg build dataFile) (\<lambda>oldHeader.
     case oldHeader of
       None \<Rightarrow> Inl (InternalException ''Found a shadow file for database but no valid database header.'')
     | Some h \<Rightarrow> Inr (headerDatabaseID h))"

fun replayPages :: "nat \<Rightarrow> u8 list \<Rightarrow> nat \<Rightarrow> shadow_page_record list \<Rightarrow> u8 list \<Rightarrow> u8 list res" where
  "replayPages P shadow shadowPageIdx [] dataFile = Inr dataFile"
| "replayPages P shadow shadowPageIdx (r # rs) dataFile =
     bindR (readFromFile shadow P (shadowPageIdx * P)) (\<lambda>pageBuffer.
     replayPages P shadow (shadowPageIdx + 1) rs (writeFile dataFile (unat (originalPageIdx r) * P) pageBuffer))"

definition readShadowHeader :: "nat \<Rightarrow> u8 list \<Rightarrow> (database_id \<times> u32) res" where
  "readShadowHeader P shadow =
     bindR (readFromFile shadow P 0) (\<lambda>page.
     bindR ((bindD deserializeU64 (\<lambda>low. bindD deserializeU64 (\<lambda>high. bindD deserializeU32 (\<lambda>num. returnD ((low, high), num))))) page)
       (\<lambda>(h, _). Inr h))"

text \<open>The data file may be missing.\<close>

definition replayShadowPageRecords :: "nat \<Rightarrow> bool \<Rightarrow> string \<Rightarrow> bool \<Rightarrow> u8 list \<Rightarrow> u8 list option \<Rightarrow> u8 list res" where
  "replayShadowPageRecords P dbg build readOnly shadow dataFile =
     (if readOnly then Inl (RuntimeException ''Couldn't replay shadow pages under read-only mode.'')
      else case dataFile of
        None \<Rightarrow> Inl (RuntimeException ''Found shadow file but no corresponding database file.'')
      | Some dataFile \<Rightarrow>
          bindR (readShadowHeader P shadow) (\<lambda>(shadowID, numShadowPages).
          bindR (getOldDatabaseID P dbg build dataFile) (\<lambda>oldDatabaseID.
          bindR (verifyDatabaseID oldDatabaseID shadowID) (\<lambda>_.
          bindR (deserializeVector ShadowPageRecord_deserialize (drop (unat (numShadowPages + 1) * P) shadow)) (\<lambda>(records, _).
          replayPages P shadow 1 records dataFile)))))"

section \<open>Files as bytes\<close>

text \<open>The bytes of a file, continued by zeros: a file is its length and its bytes.\<close>

definition fbyte :: "u8 list \<Rightarrow> nat \<Rightarrow> u8" where
  "fbyte f i = (if i < length f then f ! i else 0)"

lemma length_writeFile_max: "length (writeFile f off bs) = max (length f) (off + length bs)"
  by (simp add: writeFile_def)

lemma fbyte_writeFile: "fbyte (writeFile f off bs) i = (if off \<le> i \<and> i < off + length bs then bs ! (i - off) else fbyte f i)"
proof -
  let ?head = "take off (f @ replicate (off - length f) 0)"
  have len: "length ?head = off" by simp
  have head: "?head ! i = fbyte f i" if "i < off" using that by (simp add: fbyte_def nth_append)
  consider "i < off" | "off \<le> i" "i < off + length bs" | "off + length bs \<le> i" by linarith
  then show ?thesis
    by cases (use head len in \<open>auto simp: fbyte_def writeFile_def nth_append\<close>)
qed

lemma file_eqI: "length f = length g \<Longrightarrow> (\<And>i. fbyte f i = fbyte g i) \<Longrightarrow> f = g"
  by (rule nth_equalityI) (auto simp: fbyte_def split: if_splits dest: meta_spec)

lemma readFromFile_iff:
  "readFromFile f n off = Inr bs \<longleftrightarrow> off + n \<le> length f \<and> length bs = n \<and> (\<forall>i < n. bs ! i = fbyte f (off + i))"
  by (auto simp: readFromFile_def assertR_def fbyte_def intro: nth_equalityI)

section \<open>Applying the pages again after a crash\<close>

text \<open>
  The data file that a crash leaves behind while the pages are copied over it: some pages are
  written, and the next one may be written up to some byte.
\<close>

inductive copy_crash :: "nat \<Rightarrow> u8 list \<Rightarrow> nat \<Rightarrow> shadow_page_record list \<Rightarrow> u8 list \<Rightarrow> u8 list \<Rightarrow> bool" where
  crash_now: "copy_crash P shadow i rs dataFile dataFile"
| crash_torn: "readFromFile shadow P (i * P) = Inr page \<Longrightarrow> k \<le> P \<Longrightarrow>
    copy_crash P shadow i (r # rs) dataFile (writeFile dataFile (unat (originalPageIdx r) * P) (take k page))"
| crash_later: "readFromFile shadow P (i * P) = Inr page \<Longrightarrow>
    copy_crash P shadow (i + 1) rs (writeFile dataFile (unat (originalPageIdx r) * P) page) crashed \<Longrightarrow>
    copy_crash P shadow i (r # rs) dataFile crashed"

definition covered :: "nat \<Rightarrow> shadow_page_record list \<Rightarrow> nat \<Rightarrow> bool" where
  "covered P rs i \<longleftrightarrow> (\<exists>r \<in> set rs. unat (originalPageIdx r) * P \<le> i \<and> i < unat (originalPageIdx r) * P + P)"

definition reach :: "nat \<Rightarrow> shadow_page_record list \<Rightarrow> nat" where
  "reach P rs = Max (insert 0 ((\<lambda>r. unat (originalPageIdx r) * P + P) ` set rs))"

lemma reach_Cons: "reach P (r # rs) = max (unat (originalPageIdx r) * P + P) (reach P rs)"
  by (simp add: reach_def insert_commute [of 0])

text \<open>What is copied depends only on the bytes that are not overwritten.\<close>

lemma replayPages_cong:
  assumes "replayPages P shadow i rs a = Inr a'" "\<And>j. \<not> covered P rs j \<Longrightarrow> fbyte a j = fbyte b j"
  shows "\<exists>b'. replayPages P shadow i rs b = Inr b' \<and> (\<forall>j. fbyte b' j = fbyte a' j)
    \<and> length a' = max (length a) (reach P rs) \<and> length b' = max (length b) (reach P rs)"
  using assms
proof (induction rs arbitrary: i a b)
  case Nil
  then show ?case by (simp add: covered_def reach_def)
next
  case (Cons r rs)
  let ?off = "unat (originalPageIdx r) * P"
  obtain page where page: "readFromFile shadow P (i * P) = Inr page" "replayPages P shadow (i + 1) rs (writeFile a ?off page) = Inr a'"
    using Cons.prems(1) by (cases "readFromFile shadow P (i * P)") auto
  have len: "length page = P" using page(1) by (simp add: readFromFile_iff)
  have "fbyte (writeFile a ?off page) j = fbyte (writeFile b ?off page) j" if "\<not> covered P rs j" for j
    using that Cons.prems(2) [of j] len by (auto simp: fbyte_writeFile covered_def)
  from Cons.IH [OF page(2) this] show ?case
    using page(1) len by (auto simp: length_writeFile_max reach_Cons max.assoc)
qed

lemma copy_crash_bytes:
  assumes "copy_crash P shadow i rs dataFile crashed"
  shows "(\<forall>j. \<not> covered P rs j \<longrightarrow> fbyte crashed j = fbyte dataFile j) \<and> length dataFile \<le> length crashed
    \<and> length crashed \<le> max (length dataFile) (reach P rs)"
  using assms
proof (induction rule: copy_crash.induct)
  case (crash_torn shadow P i page k r rs dataFile)
  have "length page = P" using crash_torn(1) by (simp add: readFromFile_iff)
  then show ?case using crash_torn(2) by (auto simp: fbyte_writeFile covered_def length_writeFile_max reach_Cons)
next
  case (crash_later shadow P i page rs dataFile r crashed)
  have "length page = P" using crash_later(1) by (simp add: readFromFile_iff)
  then show ?case using crash_later.IH by (auto simp: fbyte_writeFile covered_def length_writeFile_max reach_Cons)
qed auto

lemma replay_after_crash:
  assumes "replayPages P shadow i rs dataFile = Inr new" "copy_crash P shadow i rs dataFile crashed"
  shows "replayPages P shadow i rs crashed = Inr new"
proof -
  note crash = copy_crash_bytes [OF assms(2)]
  obtain b' where b': "replayPages P shadow i rs crashed = Inr b'" "\<forall>j. fbyte b' j = fbyte new j"
    "length new = max (length dataFile) (reach P rs)" "length b' = max (length crashed) (reach P rs)"
    using replayPages_cong [OF assms(1), of crashed] crash by auto
  have "b' = new" using b' crash by (intro file_eqI) auto
  then show ?thesis using b'(1) by simp
qed

lemma applyLoop_replays:
  "applyLoop P shadow i rs (dataFile, fr) = Inr (new, fr') \<Longrightarrow> replayPages P shadow i rs dataFile = Inr new"
proof (induction rs arbitrary: i dataFile fr)
  case (Cons r rs)
  then show ?case by (cases "readFromFile shadow P (i * P)") auto
qed simp

section \<open>The invariant of the shadow file\<close>

definition shadowOf :: "u32 \<Rightarrow> u32 \<Rightarrow> shadow_file \<Rightarrow> u32 option" where
  "shadowOf f p sf = (case map_of (shadowPagesMap sf) f of None \<Rightarrow> None | Some m \<Rightarrow> map_of m p)"

text \<open>
  The shadow page of a page is the one of its last record; every page that is not dirty is on disk
  as it is.
\<close>

definition fh_stored :: "nat \<Rightarrow> shadow_fh \<Rightarrow> bool" where
  "fh_stored P fh \<longleftrightarrow> shPages fh \<noteq> [] \<and> (\<forall>p \<in> set (shPages fh). length (fst p) = P) \<and> \<not> snd (hd (shPages fh))
     \<and> (\<forall>i. 0 < i \<and> i < length (shPages fh) \<and> \<not> snd (shPages fh ! i) \<longrightarrow> readFromFile (shDisk fh) P (i * P) = Inr (fst (shPages fh ! i)))"

definition maps_records :: "shadow_file \<Rightarrow> bool" where
  "maps_records sf \<longleftrightarrow> (\<forall>f p i. shadowOf f p sf = Some i \<longrightarrow> 0 < unat i \<and> unat i \<le> length (shadowPageRecords sf)
     \<and> shadowPageRecords sf ! (unat i - 1) = \<lparr>originalFileIdx = f, originalPageIdx = p\<rparr>
     \<and> (\<forall>j. unat i \<le> j \<and> j < length (shadowPageRecords sf) \<longrightarrow> shadowPageRecords sf ! j \<noteq> \<lparr>originalFileIdx = f, originalPageIdx = p\<rparr>))"

definition sf_ok :: "nat \<Rightarrow> shadow_file \<Rightarrow> bool" where
  "sf_ok P sf \<longleftrightarrow> maps_records sf \<and> length (shadowPageRecords sf) < 2 ^ 32 - 1
     \<and> (case shadowingFH sf of
          None \<Rightarrow> shadowPageRecords sf = []
        | Some fh \<Rightarrow> fh_stored P fh \<and> length (shPages fh) = length (shadowPageRecords sf) + 1)"

lemma hasShadowPage_iff: "hasShadowPage f p sf \<longleftrightarrow> (\<exists>i. shadowOf f p sf = Some i)"
  by (auto simp: hasShadowPage_def shadowOf_def split: option.splits)

lemma getShadowPage_iff: "getShadowPage f p sf = Inr i \<longleftrightarrow> shadowOf f p sf = Some i"
  by (auto simp: getShadowPage_def hasShadowPage_def shadowOf_def assertR_def derefR_def split: option.splits if_splits)

lemma shadowOf_cong: "shadowPagesMap sf' = shadowPagesMap sf \<Longrightarrow> shadowOf f p sf' = shadowOf f p sf"
  by (simp add: shadowOf_def)

lemma maps_records_cong:
  "shadowPagesMap sf' = shadowPagesMap sf \<Longrightarrow> shadowPageRecords sf' = shadowPageRecords sf \<Longrightarrow> maps_records sf' = maps_records sf"
  by (simp add: maps_records_def shadowOf_def)

text \<open>Clearing a shadow page.\<close>

lemma shadowOf_clear: "shadowOf f p (clearShadowPage f' p' sf) = (if f = f' \<and> p = p' then None else shadowOf f p sf)"
proof (cases "map_of (shadowPagesMap sf) f'")
  case (Some m)
  have empty: "map_of m p = None" if "AList.delete p' m = []" "p \<noteq> p'"
    using that delete_conv' [of p' m] by (metis fun_upd_apply map_of.simps(1))
  show ?thesis
    using Some empty
    by (auto simp: clearShadowPage_def shadowOf_def delete_conv' update_conv' Let_def split: option.splits)
qed (auto simp: clearShadowPage_def shadowOf_def split: option.splits)

lemma clear_ok: "sf_ok P sf \<Longrightarrow> sf_ok P (clearShadowPage f p sf)"
proof -
  assume ok: "sf_ok P sf"
  have same: "shadowingFH (clearShadowPage f p sf) = shadowingFH sf" "shadowPageRecords (clearShadowPage f p sf) = shadowPageRecords sf"
    by (simp_all add: clearShadowPage_def Let_def split: option.splits)
  have "maps_records (clearShadowPage f p sf)"
    using ok by (simp add: sf_ok_def maps_records_def same shadowOf_clear)
  then show ?thesis using ok unfolding sf_ok_def same by simp
qed

text \<open>Creating a shadow page.\<close>

lemma setPage_dirty:
  assumes "sf_ok P sf" "shadowingFH sf = Some fh" "0 < unat i" "unat i < length (shPages fh)" "length c = P"
  shows "\<exists>sf'. sh_setPage i c True sf = Inr sf' \<and> sf_ok P sf' \<and> shadowingFH sf' = Some (fh\<lparr>shPages := (shPages fh)[unat i := (c, True)]\<rparr>)
    \<and> shadowPagesMap sf' = shadowPagesMap sf \<and> shadowPageRecords sf' = shadowPageRecords sf"
proof -
  let ?fh = "fh\<lparr>shPages := (shPages fh)[unat i := (c, True)]\<rparr>"
  have fh: "fh_stored P fh" using assms(1,2) by (simp add: sf_ok_def)
  have "hd ((shPages fh)[unat i := (c, True)]) = hd (shPages fh)" using assms(3,4) by (cases "shPages fh"; cases "unat i") auto
  then have "fh_stored P ?fh"
    using fh assms(3-5) by (auto simp: fh_stored_def nth_list_update dest!: set_update_subset_insert [THEN subsetD])
  then have "sf_ok P (sf\<lparr>shadowingFH := Some ?fh\<rparr>)"
    using assms(1,2) maps_records_cong [of "sf\<lparr>shadowingFH := Some ?fh\<rparr>" sf] by (simp add: sf_ok_def)
  then show ?thesis using assms(2,4) by (simp add: sh_setPage_def updR_def)
qed

text \<open>The new versions of pages, as an overlay over the files.\<close>

definition overlay :: "shadow_file \<Rightarrow> u32 \<times> u32 \<Rightarrow> u8 list option" where
  "overlay sf q =
     (case shadowOf (fst q) (snd q) sf of
        None \<Rightarrow> None
      | Some i \<Rightarrow> (case shadowingFH sf of None \<Rightarrow> None | Some fh \<Rightarrow> Some (fst (shPages fh ! unat i))))"

text \<open>
  The version of a page that its last record stands for. It outlives a cleared shadow page: clearing
  removes the page from the map and keeps the record and the shadow page.
\<close>

definition recorded :: "shadow_file \<Rightarrow> u32 \<times> u32 \<Rightarrow> u8 list option" where
  "recorded sf q =
     (case shadowingFH sf of
        None \<Rightarrow> None
      | Some fh \<Rightarrow> map_of (rev (zip (shadowPageRecords sf) (map fst (tl (shPages fh))))) \<lparr>originalFileIdx = fst q, originalPageIdx = snd q\<rparr>)"

lemma last_entry_update:
  assumes "k < length rs" "length cs = length rs" "\<forall>j. k < j \<and> j < length rs \<longrightarrow> rs ! j \<noteq> rs ! k"
  shows "map_of (rev (zip rs (cs[k := c]))) = (map_of (rev (zip rs cs)))(rs ! k \<mapsto> c)"
proof -
  have later: "rs ! k \<notin> set (drop (Suc k) rs)"
  proof
    assume "rs ! k \<in> set (drop (Suc k) rs)"
    then obtain i where "i < length rs - Suc k" "rs ! (Suc k + i) = rs ! k" by (auto simp: in_set_conv_nth)
    moreover from this have "Suc k + i < length rs" by linarith
    ultimately show False using assms(3) [rule_format, of "Suc k + i"] by simp

  qed
  let ?A = "zip (take k rs) (take k cs)" and ?B = "zip (drop (Suc k) rs) (drop (Suc k) cs)"
  have "rs ! k \<notin> dom (map_of (rev ?B))" using later by (auto simp: dom_map_of_conv_image_fst dest!: set_zip_leftD)
  moreover have "zip rs (cs[k := x]) = ?A @ (rs ! k, x) # ?B" for x
  proof -
    have "zip rs (cs[k := x]) = zip (take k rs @ rs ! k # drop (Suc k) rs) (take k cs @ x # drop (Suc k) cs)"
      using assms(1,2) id_take_nth_drop [of k rs] upd_conv_take_nth_drop [of k cs x] by simp
    also have "\<dots> = ?A @ (rs ! k, x) # ?B" using assms(1,2) by (simp add: zip_append)
    finally show ?thesis .
  qed
  ultimately have upd: "map_of (rev (zip rs (cs[k := x]))) = (map_of (rev ?A) ++ map_of (rev ?B))(rs ! k \<mapsto> x)" for x
    by (simp add: map_add_upd_left)
  show ?thesis using upd [of c] upd [of "cs ! k"] by simp
qed

lemma recorded_nth:
  assumes "shadowingFH sf = Some fh" "length (shPages fh) = length (shadowPageRecords sf) + 1" "k < length (shadowPageRecords sf)"
    and "\<forall>j. k < j \<and> j < length (shadowPageRecords sf) \<longrightarrow> shadowPageRecords sf ! j \<noteq> shadowPageRecords sf ! k"
  shows "recorded sf (originalFileIdx (shadowPageRecords sf ! k), originalPageIdx (shadowPageRecords sf ! k)) = Some (fst (shPages fh ! Suc k))"
proof -
  let ?cs = "map fst (tl (shPages fh))"
  have "length ?cs = length (shadowPageRecords sf)" using assms(2) by simp
  from last_entry_update [OF assms(3) this assms(4), of "?cs ! k"]
  have "map_of (rev (zip (shadowPageRecords sf) ?cs)) (shadowPageRecords sf ! k) = Some (?cs ! k)"
    using fun_upd_same [of "map_of (rev (zip (shadowPageRecords sf) ?cs))" "shadowPageRecords sf ! k"] by (metis list_update_id)
  moreover have "?cs ! k = fst (shPages fh ! Suc k)" using assms(2,3) by (simp add: nth_tl)
  moreover have "\<lparr>originalFileIdx = originalFileIdx r, originalPageIdx = originalPageIdx r\<rparr> = r" for r :: shadow_page_record by simp
  ultimately show ?thesis by (simp only: recorded_def assms(1) option.case fst_conv snd_conv)
qed



lemma shadowOf_record:
  assumes "sf_ok P sf" "shadowOf f p sf = Some i"
  shows "0 < unat i" "unat i \<le> length (shadowPageRecords sf)"
    "shadowPageRecords sf ! (unat i - 1) = \<lparr>originalFileIdx = f, originalPageIdx = p\<rparr>"
    "unat i \<le> j \<Longrightarrow> j < length (shadowPageRecords sf) \<Longrightarrow> shadowPageRecords sf ! j \<noteq> \<lparr>originalFileIdx = f, originalPageIdx = p\<rparr>"
  using assms unfolding sf_ok_def maps_records_def by blast+

lemma shadowOf_bounds:
  assumes "sf_ok P sf" "shadowOf f p sf = Some i"
  shows "\<exists>fh. shadowingFH sf = Some fh \<and> 0 < unat i \<and> unat i < length (shPages fh)"
  using assms(1) shadowOf_record(1,2) [OF assms] by (auto simp: sf_ok_def split: option.splits)

lemma shadowOf_inj:
  assumes "sf_ok P sf" "shadowOf f p sf = Some i" "shadowOf f' p' sf = Some i"
  shows "f' = f \<and> p' = p"
  using shadowOf_record(3) [OF assms(1,2)] shadowOf_record(3) [OF assms(1,3)] by simp

lemma overlay_None: "sf_ok P sf \<Longrightarrow> overlay sf (f, p) = None \<longleftrightarrow> shadowOf f p sf = None"
  using shadowOf_bounds by (fastforce simp: overlay_def split: option.splits)

lemma overlay_recorded:
  assumes "sf_ok P sf" "overlay sf (f, p) = Some c"
  shows "recorded sf (f, p) = Some c"
proof -
  obtain i fh where i: "shadowOf f p sf = Some i" "shadowingFH sf = Some fh" "c = fst (shPages fh ! unat i)"
    using assms(2) by (auto simp: overlay_def split: option.splits)
  note r = shadowOf_record [OF assms(1) i(1)]
  let ?k = "unat i - 1"
  have k: "?k < length (shadowPageRecords sf)" "Suc ?k = unat i" using r(1,2) by linarith+
  have "\<forall>j. ?k < j \<and> j < length (shadowPageRecords sf) \<longrightarrow> shadowPageRecords sf ! j \<noteq> shadowPageRecords sf ! ?k"
    using r(3,4) k(2) by (metis Suc_leI)
  from recorded_nth [OF i(2) _ k(1) this] show ?thesis using assms(1) i(2,3) r(3) k(2) by (simp add: sf_ok_def)
qed

lemma recorded_last:
  assumes "sf_ok P sf" "shadowingFH sf = Some fh"
  shows "case recorded sf (f, p) of
      None \<Rightarrow> \<lparr>originalFileIdx = f, originalPageIdx = p\<rparr> \<notin> set (shadowPageRecords sf)
    | Some c \<Rightarrow> \<exists>k < length (shadowPageRecords sf). shadowPageRecords sf ! k = \<lparr>originalFileIdx = f, originalPageIdx = p\<rparr>
        \<and> (\<forall>j. k < j \<and> j < length (shadowPageRecords sf) \<longrightarrow> shadowPageRecords sf ! j \<noteq> shadowPageRecords sf ! k)
        \<and> c = fst (shPages fh ! Suc k)"
proof -
  let ?rs = "shadowPageRecords sf" and ?r = "\<lparr>originalFileIdx = f, originalPageIdx = p\<rparr>"
  have len: "length (shPages fh) = length ?rs + 1" using assms by (simp add: sf_ok_def)
  show ?thesis
  proof (cases "?r \<in> set ?rs")
    case True
    then obtain ys zs where split: "?rs = ys @ ?r # zs" "?r \<notin> set zs" using split_list_last [OF True] by blast
    let ?k = "length ys"
    have k: "?k < length ?rs" "?rs ! ?k = ?r" using split(1) by (metis length_append less_add_same_cancel1 list.size(4) zero_less_Suc add_Suc_right, metis nth_append_length)
    have last: "\<forall>j. ?k < j \<and> j < length ?rs \<longrightarrow> ?rs ! j \<noteq> ?rs ! ?k"
    proof (intro allI impI)
      fix j
      assume j: "?k < j \<and> j < length ?rs"
      then have "?rs ! j = zs ! (j - Suc ?k)" "j - Suc ?k < length zs" unfolding split(1) by (auto simp: nth_append nth_Cons')
      then show "?rs ! j \<noteq> ?rs ! ?k" using split(2) k(2) by (metis nth_mem)
    qed
    then show ?thesis using recorded_nth [OF assms(2) len k(1) last] k by auto
  next
    case False
    then have "recorded sf (f, p) = None" using assms(2) by (auto simp: recorded_def map_of_eq_None_iff dest: set_zip_leftD)
    then show ?thesis using False by simp
  qed
qed

text \<open>Replacing the contents of a shadow page.\<close>

lemma setPage_overlay:
  assumes ok: "sf_ok P sf" and i: "shadowOf f p sf = Some i" and c: "length c = P"
  shows "\<exists>sf'. sh_setPage i c True sf = Inr sf' \<and> sf_ok P sf' \<and> overlay sf' = (overlay sf)((f, p) \<mapsto> c)
    \<and> shadowPageRecords sf' = shadowPageRecords sf \<and> shadowOf f p sf' = Some i \<and> recorded sf' = (recorded sf)((f, p) \<mapsto> c)"
proof -
  obtain fh where fh: "shadowingFH sf = Some fh" "0 < unat i" "unat i < length (shPages fh)" using shadowOf_bounds [OF ok i] by blast
  obtain sf' where sf': "sh_setPage i c True sf = Inr sf'" "sf_ok P sf'"
    "shadowingFH sf' = Some (fh\<lparr>shPages := (shPages fh)[unat i := (c, True)]\<rparr>)"
    "shadowPagesMap sf' = shadowPagesMap sf" "shadowPageRecords sf' = shadowPageRecords sf"
    using setPage_dirty [OF ok fh c] by blast
  have same: "shadowOf f' p' sf' = shadowOf f' p' sf" for f' p' using sf'(4) by (rule shadowOf_cong)
  have "overlay sf' (f', p') = ((overlay sf)((f, p) \<mapsto> c)) (f', p')" for f' p'
  proof (cases "shadowOf f' p' sf")
    case (Some j)
    have "j = i \<longleftrightarrow> f' = f \<and> p' = p"
    proof
      assume "j = i"
      then show "f' = f \<and> p' = p" using shadowOf_inj [OF ok i, of f' p'] Some by simp
    qed (use Some i in simp)
    then have "unat i = unat j \<longleftrightarrow> f' = f \<and> p' = p" by (auto simp: word_unat_eq_iff)
    then show ?thesis using Some same [of f' p'] fh sf'(3) by (auto simp: overlay_def nth_list_update)
  qed (use same i in \<open>auto simp: overlay_def\<close>)
  then have "overlay sf' = (overlay sf)((f, p) \<mapsto> c)" by auto
  moreover have "recorded sf' = (recorded sf)((f, p) \<mapsto> c)"
  proof -
    let ?rs = "shadowPageRecords sf" and ?cs = "map fst (tl (shPages fh))"
    note r = shadowOf_record [OF ok i]
    have len: "length ?cs = length ?rs" using ok fh(1) by (simp add: sf_ok_def)
    have "map fst (tl ((shPages fh)[unat i := (c, True)])) = ?cs[unat i - 1 := c]"
      using fh(2) by (cases "shPages fh"; cases "unat i") (simp_all add: map_update)
    moreover have "unat i - 1 < length ?rs" using r(1,2) by linarith
    moreover have "\<forall>j. unat i - 1 < j \<and> j < length ?rs \<longrightarrow> ?rs ! j \<noteq> ?rs ! (unat i - 1)"
      using r(3,4) by (metis Suc_leI Suc_pred' r(1))
    ultimately have "map_of (rev (zip ?rs (map fst (tl ((shPages fh)[unat i := (c, True)]))))) =
        (map_of (rev (zip ?rs ?cs)))(\<lparr>originalFileIdx = f, originalPageIdx = p\<rparr> \<mapsto> c)"
      using last_entry_update [OF _ len, of "unat i - 1" c] r(3) by simp
    then show ?thesis using fh(1) sf'(3,5) by (auto simp: recorded_def fun_eq_iff)
  qed
  ultimately show ?thesis using sf' same i by auto
qed

text \<open>Creating a shadow page and writing its contents.\<close>

lemma shadowOf_update:
  "shadowOf f' p' (sf\<lparr>shadowPagesMap := AList.update f (AList.update p i (case map_of (shadowPagesMap sf) f of None \<Rightarrow> [] | Some m \<Rightarrow> m)) (shadowPagesMap sf)\<rparr>)
    = (if f' = f \<and> p' = p then Some i else shadowOf f' p' sf)"
  by (auto simp: shadowOf_def update_conv' split: option.splits)

lemma created_ok:
  assumes ok: "sf_ok P sf" and new: "shadowOf f p sf = None" and c: "length c = P" "length fresh = P"
    and room: "length (shadowPageRecords sf) < 2 ^ 32 - 2"
  shows "\<exists>sf1 i sf'. getOrCreateShadowPage fresh f p sf = Inr (sf1, i) \<and> sh_setPage i c True sf1 = Inr sf' \<and> sf_ok P sf'
    \<and> overlay sf' = (overlay sf)((f, p) \<mapsto> c) \<and> shadowOf f p sf' = Some i
    \<and> shadowPageRecords sf' = shadowPageRecords sf @ [\<lparr>originalFileIdx = f, originalPageIdx = p\<rparr>]
    \<and> recorded sf' = (recorded sf)((f, p) \<mapsto> c)"
proof -
  let ?rs = "shadowPageRecords sf" and ?r = "\<lparr>originalFileIdx = f, originalPageIdx = p\<rparr>"
  obtain fh where fh: "snd (getOrCreateShadowingFH fresh sf) = fh" by simp
  have stored: "fh_stored P fh" "length (shPages fh) = length ?rs + 1"
    using ok c(2) fh by (auto simp: getOrCreateShadowingFH_def sf_ok_def sh_addNewPage_def fh_stored_def Let_def split: option.splits)
  have old: "overlay sf (f', p') = map_option (\<lambda>i. fst (shPages fh ! unat i)) (shadowOf f' p' sf)" for f' p'
    using fh shadowOf_bounds [OF ok, of f' p']
    by (cases "shadowOf f' p' sf") (auto simp: overlay_def getOrCreateShadowingFH_def Let_def split: option.splits)
  let ?n = "length ?rs + 1" let ?i = "of_nat ?n :: u32"
  have i: "unat ?i = ?n" using room by (intro unat_of_nat_32) simp
  let ?map = "AList.update f (AList.update p ?i (case map_of (shadowPagesMap sf) f of None \<Rightarrow> [] | Some m \<Rightarrow> m)) (shadowPagesMap sf)"
  define sf1 where "sf1 = sf\<lparr>shadowingFH := Some (fh\<lparr>shPages := shPages fh @ [(fresh, False)]\<rparr>), shadowPagesMap := ?map, shadowPageRecords := ?rs @ [?r]\<rparr>"
  have create: "getOrCreateShadowPage fresh f p sf = Inr (sf1, ?i)"
    using new fh stored(2)
    by (auto simp: getOrCreateShadowPage_def hasShadowPage_iff sh_addNewPage_def sf1_def getOrCreateShadowingFH_def Let_def split: option.splits)
  define sf' where "sf' = sf1\<lparr>shadowingFH := Some (fh\<lparr>shPages := shPages fh @ [(c, True)]\<rparr>)\<rparr>"
  have set: "sh_setPage ?i c True sf1 = Inr sf'"
    using stored(2) i by (simp add: sh_setPage_def sf'_def sf1_def updR_def list_update_append)
  have of: "shadowOf f' p' sf' = (if f' = f \<and> p' = p then Some ?i else shadowOf f' p' sf)" for f' p'
    using shadowOf_update [where f = f and p = p and i = ?i and sf = sf and f' = f' and p' = p'] by (simp add: shadowOf_def sf'_def sf1_def)
  have "fh_stored P (fh\<lparr>shPages := shPages fh @ [(c, True)]\<rparr>)"
    using stored(1) c(1) by (auto simp: fh_stored_def nth_append)
  moreover have "maps_records sf'"
    unfolding maps_records_def
  proof (intro allI impI)
    fix f' p' k
    assume k: "shadowOf f' p' sf' = Some k"
    have recs: "shadowPageRecords sf' = ?rs @ [?r]" by (simp add: sf'_def sf1_def)
    show "0 < unat k \<and> unat k \<le> length (shadowPageRecords sf') \<and> shadowPageRecords sf' ! (unat k - 1) = \<lparr>originalFileIdx = f', originalPageIdx = p'\<rparr>
      \<and> (\<forall>j. unat k \<le> j \<and> j < length (shadowPageRecords sf') \<longrightarrow> shadowPageRecords sf' ! j \<noteq> \<lparr>originalFileIdx = f', originalPageIdx = p'\<rparr>)"
    proof (cases "f' = f \<and> p' = p")
      case True
      then have "k = ?i" using k of by simp
      then show ?thesis using True i unfolding recs by auto
    next
      case False
      then have k': "shadowOf f' p' sf = Some k" using k of by (auto split: if_splits)
      note r = shadowOf_record [OF ok k']
      have "shadowPageRecords sf' ! j \<noteq> \<lparr>originalFileIdx = f', originalPageIdx = p'\<rparr>" if "unat k \<le> j" "j < length ?rs + 1" for j
        using that r(4) [of j] False unfolding recs by (cases "j < length ?rs") (auto simp: nth_append)
      moreover have "unat k - 1 < length ?rs" using r(1,2) by linarith
      ultimately show ?thesis using r(1-3) unfolding recs by (simp add: nth_append)
    qed
  qed
  ultimately have "sf_ok P sf'" using room stored(2) unfolding sf_ok_def by (simp add: sf'_def sf1_def)
  moreover have "overlay sf' (f', p') = ((overlay sf)((f, p) \<mapsto> c)) (f', p')" for f' p'
  proof (cases "f' = f \<and> p' = p")
    case True
    then show ?thesis using of i stored(2) by (simp add: overlay_def sf'_def nth_append)
  next
    case False
    have "unat j < length (shPages fh)" if "shadowOf f' p' sf = Some j" for j
      using shadowOf_record(2) [OF ok that] stored(2) by simp
    then show ?thesis using False of [of f' p'] old [of f' p'] by (auto simp: overlay_def sf'_def nth_append split: option.splits)
  qed
  then have "overlay sf' = (overlay sf)((f, p) \<mapsto> c)" by auto
  moreover have "recorded sf' = (recorded sf)((f, p) \<mapsto> c)"
  proof -
    have "recorded sf (f', p') = map_of (rev (zip ?rs (map fst (tl (shPages fh))))) \<lparr>originalFileIdx = f', originalPageIdx = p'\<rparr>" for f' p'
      using fh ok by (auto simp: recorded_def getOrCreateShadowingFH_def sf_ok_def Let_def split: option.splits)
    moreover have "tl (shPages fh @ [(c, True)]) = tl (shPages fh) @ [(c, True)]" using stored(2) by (cases "shPages fh") auto
    ultimately show ?thesis using stored(2) by (auto simp: recorded_def sf'_def sf1_def fun_eq_iff zip_append)
  qed
  ultimately show ?thesis using create set of by (intro exI [of _ sf1] exI [of _ ?i] exI [of _ sf']) (simp add: sf'_def sf1_def)
qed

lemma createShadowVersion_ok:
  assumes ok: "sf_ok P sf" and len: "length original = P" "length fresh = P" and room: "length (shadowPageRecords sf) < 2 ^ 32 - 2"
  shows "\<exists>sf' i. createShadowVersionIfNecessaryAndPinPage fresh p skip f original sf = Inr (sf', i) \<and> sf_ok P sf' \<and> shadowOf f p sf' = Some i
    \<and> overlay sf' = (overlay sf)((f, p) \<mapsto> (case overlay sf (f, p) of Some c \<Rightarrow> c | None \<Rightarrow> if skip then fresh else original))
    \<and> recorded sf' = (recorded sf)((f, p) \<mapsto> (case overlay sf (f, p) of Some c \<Rightarrow> c | None \<Rightarrow> if skip then fresh else original))
    \<and> length (shadowPageRecords sf') \<le> length (shadowPageRecords sf) + 1"
proof (cases "shadowOf f p sf")
  case None
  then have "overlay sf (f, p) = None" "\<not> hasShadowPage f p sf" using overlay_None [OF ok] hasShadowPage_iff by auto
  then show ?thesis
    using created_ok [OF ok None, of "if skip then fresh else original" fresh] len room
    by (auto simp: createShadowVersionIfNecessaryAndPinPage_def)
next
  case (Some i)
  obtain fh where fh: "shadowingFH sf = Some fh" "unat i < length (shPages fh)" using shadowOf_bounds [OF ok Some] by blast
  let ?c = "fst (shPages fh ! unat i)"
  have c: "overlay sf (f, p) = Some ?c" "sh_page i sf = Inr ?c" "length ?c = P"
    using Some fh ok by (auto simp: overlay_def sh_page_def nthR_def derefR_def sf_ok_def fh_stored_def)
  have "getOrCreateShadowPage fresh f p sf = Inr (sf, i)" "hasShadowPage f p sf"
    using Some getShadowPage_iff [of f p sf i] hasShadowPage_iff [of f p sf] by (simp_all add: getOrCreateShadowPage_def)
  then show ?thesis
    using setPage_overlay [OF ok Some c(3)] c(1,2) by (auto simp: createShadowVersionIfNecessaryAndPinPage_def)
qed

lemma sh_page_overlay:
  assumes "sf_ok P sf" "shadowOf f p sf = Some i" "overlay sf (f, p) = Some c"
  shows "sh_page i sf = Inr c"
proof -
  obtain fh where "shadowingFH sf = Some fh" "unat i < length (shPages fh)" using shadowOf_bounds [OF assms(1,2)] by blast
  then show ?thesis using assms(2,3) by (simp add: overlay_def sh_page_def derefR_def nthR_def bindR_def)
qed

lemma updatePage_ok:
  assumes ok: "sf_ok P sf" and len: "length original = P" "length fresh = P" and room: "length (shadowPageRecords sf) < 2 ^ 32 - 2"
    and op: "updateOp (case overlay sf (f, p) of Some c \<Rightarrow> c | None \<Rightarrow> if skip then fresh else original) = Inr c" "length c = P"
  shows "\<exists>sf'. updatePage fresh f p skip original updateOp sf = Inr sf' \<and> sf_ok P sf' \<and> overlay sf' = (overlay sf)((f, p) \<mapsto> c)
    \<and> recorded sf' = (recorded sf)((f, p) \<mapsto> c)
    \<and> length (shadowPageRecords sf') \<le> length (shadowPageRecords sf) + 1"
proof -
  obtain sf1 i where sf1: "createShadowVersionIfNecessaryAndPinPage fresh p skip f original sf = Inr (sf1, i)" "sf_ok P sf1" "shadowOf f p sf1 = Some i"
    "overlay sf1 = (overlay sf)((f, p) \<mapsto> (case overlay sf (f, p) of Some c \<Rightarrow> c | None \<Rightarrow> if skip then fresh else original))"
    "recorded sf1 = (recorded sf)((f, p) \<mapsto> (case overlay sf (f, p) of Some c \<Rightarrow> c | None \<Rightarrow> if skip then fresh else original))"
    "length (shadowPageRecords sf1) \<le> length (shadowPageRecords sf) + 1"
    using createShadowVersion_ok [OF ok len room] by blast
  obtain sf' where "sh_setPage i c True sf1 = Inr sf'" "sf_ok P sf'" "overlay sf' = (overlay sf1)((f, p) \<mapsto> c)"
    "recorded sf' = (recorded sf1)((f, p) \<mapsto> c)" "shadowPageRecords sf' = shadowPageRecords sf1" using setPage_overlay [OF sf1(2,3) op(2)] by blast
  then show ?thesis
    using sf1 sh_page_overlay [OF sf1(2,3)] op(1) by (auto simp: updatePage_def)
qed

text \<open>Writing dirty pages to disk changes no page.\<close>

lemma readFromFile_other_page:
  assumes "readFromFile f P (i * P) = Inr c" "i \<noteq> j" "length c' = P"
  shows "readFromFile (writeFile f (j * P) c') P (i * P) = Inr c"
proof -
  have "\<not> (j * P \<le> i * P + k \<and> i * P + k < j * P + P)" if "k < P" for k
  proof
    assume k: "j * P \<le> i * P + k \<and> i * P + k < j * P + P"
    then have "(i * P + k) div P = j" by (metis div_nat_eqI mult.commute mult_Suc_right add.commute)
    moreover have "(i * P + k) div P = i" using that by simp
    ultimately show False using assms(2) by simp
  qed
  then show ?thesis using assms(1) by (auto simp: readFromFile_iff fbyte_writeFile length_writeFile_max assms(3))
qed

lemma readFromFile_written: "length c = P \<Longrightarrow> readFromFile (writeFile f (i * P) c) P (i * P) = Inr c"
  by (auto simp: readFromFile_iff fbyte_writeFile length_writeFile_max)

lemma flushPage_ok:
  assumes fh: "fh_stored P fh" and i: "i < length (shPages fh)"
  shows "fh_stored P (sh_flushPage P i fh) \<and> map fst (shPages (sh_flushPage P i fh)) = map fst (shPages fh)
    \<and> length (shPages (sh_flushPage P i fh)) = length (shPages fh) \<and> \<not> snd (shPages (sh_flushPage P i fh) ! i)
    \<and> (\<forall>j. snd (shPages (sh_flushPage P i fh) ! j) \<longrightarrow> snd (shPages fh ! j))
    \<and> (\<forall>k < P. fbyte (shDisk (sh_flushPage P i fh)) k = fbyte (shDisk fh) k) \<and> length (shDisk fh) \<le> length (shDisk (sh_flushPage P i fh))"
proof (cases "snd (shPages fh ! i)")
  case True
  obtain c where c: "shPages fh ! i = (c, True)" using True by (metis prod.collapse)
  then have len: "length c = P" using fh i by (metis fh_stored_def fst_conv nth_mem)
  have pos: "0 < i" using fh c i by (cases i) (auto simp: fh_stored_def hd_conv_nth)
  let ?fh = "fh\<lparr>shDisk := writeFile (shDisk fh) (i * P) c, shPages := (shPages fh)[i := (c, False)]\<rparr>"
  have flush: "sh_flushPage P i fh = ?fh" using c by (simp add: sh_flushPage_def)
  have "hd ((shPages fh)[i := (c, False)]) = hd (shPages fh)" using pos i by (cases "shPages fh"; cases i) auto
  moreover have "\<forall>q \<in> set ((shPages fh)[i := (c, False)]). length (fst q) = P"
    using fh len by (auto simp: fh_stored_def dest!: set_update_subset_insert [THEN subsetD])
  moreover have "readFromFile (writeFile (shDisk fh) (i * P) c) P (j * P) = Inr (fst ((shPages fh)[i := (c, False)] ! j))"
    if j: "0 < j" "j < length (shPages fh)" "\<not> snd ((shPages fh)[i := (c, False)] ! j)" for j
  proof (cases "j = i")
    case True
    then show ?thesis using i len readFromFile_written by simp
  next
    case False
    then show ?thesis using fh j len readFromFile_other_page by (auto simp: fh_stored_def nth_list_update)
  qed
  ultimately have "fh_stored P ?fh" using fh by (simp add: fh_stored_def)
  moreover have "map fst ((shPages fh)[i := (c, False)]) = map fst (shPages fh)" using c i by (simp add: map_update list_update_same_conv)
  moreover have "fbyte (writeFile (shDisk fh) (i * P) c) k = fbyte (shDisk fh) k" if "k < P" for k
  proof -
    have "P \<le> i * P" using pos by simp
    then have "k < i * P" using that by linarith
    then show ?thesis by (simp add: fbyte_writeFile)
  qed
  ultimately show ?thesis unfolding flush using i by (auto simp: nth_list_update length_writeFile_max)
qed (use fh in \<open>auto simp: sh_flushPage_def split: prod.splits\<close>)

lemma evict_ok:
  assumes "sf_ok P sf"
  shows "sf_ok P (sh_evict P i sf) \<and> overlay (sh_evict P i sf) = overlay sf \<and> shadowPageRecords (sh_evict P i sf) = shadowPageRecords sf
    \<and> recorded (sh_evict P i sf) = recorded sf"
proof (cases "shadowingFH sf")
  case (Some fh)
  show ?thesis
  proof (cases "i < length (shPages fh)")
    case True
    let ?fh = "sh_flushPage P i fh" and ?sf = "sf\<lparr>shadowingFH := Some (sh_flushPage P i fh)\<rparr>"
    have fh: "fh_stored P ?fh" "map fst (shPages ?fh) = map fst (shPages fh)" "length (shPages ?fh) = length (shPages fh)"
      using flushPage_ok [OF _ True] assms Some by (auto simp: sf_ok_def)
    have "fst (shPages ?fh ! k) = fst (shPages fh ! k)" if "k < length (shPages fh)" for k
      using fh(2,3) that by (metis nth_map)
    then have "overlay ?sf = overlay sf"
      using shadowOf_bounds [OF assms] Some
      by (intro ext) (fastforce simp: overlay_def shadowOf_cong [of ?sf sf] split: option.splits)
    moreover have "sf_ok P ?sf" using assms fh Some maps_records_cong [of ?sf sf] by (simp add: sf_ok_def)
    moreover have "map fst (tl (shPages ?fh)) = map fst (tl (shPages fh))" using fh(2) by (metis map_tl)
    then have "recorded ?sf = recorded sf" using Some by (simp add: recorded_def fun_eq_iff)
    ultimately show ?thesis using Some True by (simp add: sh_evict_def)

  qed (use assms Some in \<open>simp add: sh_evict_def\<close>)
qed (use assms in \<open>simp add: sh_evict_def\<close>)

lemma flushPages_ok:
  assumes "fh_stored P fh" "n \<le> length (shPages fh)"
  shows "fh_stored P (fold (sh_flushPage P) [0..<n] fh) \<and> map fst (shPages (fold (sh_flushPage P) [0..<n] fh)) = map fst (shPages fh)
    \<and> (\<forall>j < n. \<not> snd (shPages (fold (sh_flushPage P) [0..<n] fh) ! j))
    \<and> (\<forall>k < P. fbyte (shDisk (fold (sh_flushPage P) [0..<n] fh)) k = fbyte (shDisk fh) k)
    \<and> length (shDisk fh) \<le> length (shDisk (fold (sh_flushPage P) [0..<n] fh))"
  using assms(2)
proof (induction n)
  case 0
  then show ?case using assms(1) by simp
next
  case (Suc n)
  let ?fh = "fold (sh_flushPage P) [0..<n] fh"
  have IH: "fh_stored P ?fh" "map fst (shPages ?fh) = map fst (shPages fh)" "\<forall>j < n. \<not> snd (shPages ?fh ! j)"
    "\<forall>k < P. fbyte (shDisk ?fh) k = fbyte (shDisk fh) k" "length (shDisk fh) \<le> length (shDisk ?fh)"
    using Suc by auto
  have n: "n < length (shPages ?fh)" using map_eq_imp_length_eq [OF IH(2)] Suc.prems by simp
  have step: "fold (sh_flushPage P) [0..<Suc n] fh = sh_flushPage P n ?fh" by simp
  have clean: "\<not> snd (shPages (sh_flushPage P n ?fh) ! j)" if "j < Suc n" for j
    using flushPage_ok [OF IH(1) n] IH(3) that less_Suc_eq by blast
  show ?case unfolding step using flushPage_ok [OF IH(1) n] IH clean by auto
qed

lemma readFromFile_before:
  "readFromFile f n off = Inr c \<Longrightarrow> off + n \<le> woff \<Longrightarrow> readFromFile (writeFile f woff bs) n off = Inr c"
  by (auto simp: readFromFile_iff fbyte_writeFile length_writeFile_max)

lemma drop_writeFile: "\<exists>rest. drop off (writeFile f off bs) = bs @ rest"
  by (simp add: writeFile_def)

lemma length_shadowHeaderPage: "20 \<le> P \<Longrightarrow> length (shadowHeaderPage P databaseID n) = P"
  by (simp add: shadowHeaderPage_def writeDatabaseID_def serializeU64_def serializeU32_def)

text \<open>After \<^verbatim>\<open>flushAll\<close> the shadow file holds the header, the pages and the records.\<close>

definition shadow_complete :: "nat \<Rightarrow> database_id \<Rightarrow> shadow_page_record list \<Rightarrow> u8 list list \<Rightarrow> u8 list \<Rightarrow> bool" where
  "shadow_complete P databaseID rs cs shadow \<longleftrightarrow> length cs = length rs
     \<and> readFromFile shadow P 0 = Inr (shadowHeaderPage P databaseID (of_nat (length rs)))
     \<and> (\<forall>i < length rs. readFromFile shadow P ((i + 1) * P) = Inr (cs ! i))
     \<and> (\<exists>rest. drop ((length rs + 1) * P) shadow = serializeVector ShadowPageRecord_serialize rs @ rest)"

lemma flushAll_ok:
  assumes ok: "sf_ok P sf" and fh: "shadowingFH sf = Some fh" and P: "20 \<le> P"
  shows "\<exists>fh'. flushAll P databaseID sf = Inr (sf\<lparr>shadowingFH := Some fh'\<rparr>)
    \<and> shadow_complete P databaseID (shadowPageRecords sf) (map fst (tl (shPages fh))) (shDisk fh')
    \<and> map fst (shPages fh') = map fst (shPages fh)"
proof -
  let ?rs = "shadowPageRecords sf" and ?header = "shadowHeaderPage P databaseID (of_nat (length (shadowPageRecords sf)))"
  have stored: "fh_stored P fh" "length (shPages fh) = length ?rs + 1" using ok fh by (simp_all add: sf_ok_def)
  let ?fh1 = "fh\<lparr>shDisk := writeFile (shDisk fh) 0 ?header\<rparr>"
  have len: "length ?header = P" by (rule length_shadowHeaderPage [OF P])
  have "readFromFile (writeFile (shDisk fh) 0 ?header) P (i * P) = Inr c" if "readFromFile (shDisk fh) P (i * P) = Inr c" "0 < i" for i c
    using readFromFile_other_page [OF that(1), of 0] that(2) len by simp
  then have "fh_stored P ?fh1" using stored(1) by (simp add: fh_stored_def)
  define fh2 where "fh2 = flushAllDirtyPagesInFrames P ?fh1"
  note flushed = flushPages_ok [OF \<open>fh_stored P ?fh1\<close>, of "length (shPages fh)"]
  have fh2: "fh_stored P fh2" "map fst (shPages fh2) = map fst (shPages fh)" "\<forall>j < length (shPages fh). \<not> snd (shPages fh2 ! j)"
    "\<forall>k < P. fbyte (shDisk fh2) k = fbyte (shDisk ?fh1) k" "length (shDisk ?fh1) \<le> length (shDisk fh2)"
    using flushed by (simp_all add: fh2_def flushAllDirtyPagesInFrames_def)
  have n2: "length (shPages fh2) = length ?rs + 1" using map_eq_imp_length_eq [OF fh2(2)] stored(2) by simp
  define fh3 where "fh3 = fh2\<lparr>shDisk := writeFile (shDisk fh2) ((length ?rs + 1) * P) (serializeVector ShadowPageRecord_serialize ?rs)\<rparr>"
  have flush: "flushAll P databaseID sf = Inr (sf\<lparr>shadowingFH := Some fh3\<rparr>)"
    using fh n2 by (simp add: flushAll_def Let_def fh2_def [symmetric] fh3_def)
  have "readFromFile (shDisk ?fh1) P 0 = Inr ?header" using readFromFile_written [OF len, of "shDisk fh" 0] by simp
  then have "readFromFile (shDisk fh2) P 0 = Inr ?header" using fh2(4,5) by (auto simp: readFromFile_iff)
  then have "readFromFile (shDisk fh3) P 0 = Inr ?header" unfolding fh3_def by (simp add: readFromFile_before)
  moreover have "readFromFile (shDisk fh3) P ((i + 1) * P) = Inr (map fst (tl (shPages fh)) ! i)" if "i < length ?rs" for i
  proof -
    have "readFromFile (shDisk fh2) P ((i + 1) * P) = Inr (fst (shPages fh2 ! (i + 1)))"
      using fh2(1,3) n2 stored(2) that by (simp add: fh_stored_def del: mult_Suc)
    moreover have "fst (shPages fh2 ! (i + 1)) = map fst (tl (shPages fh)) ! i"
    proof -
      have "fst (shPages fh2 ! (i + 1)) = map fst (shPages fh2) ! (i + 1)" using n2 that by simp
      also have "\<dots> = map fst (shPages fh) ! (i + 1)" unfolding fh2(2) ..
      finally show ?thesis using stored(2) that by (simp add: nth_tl)
    qed
    moreover have "(i + 1) * P + P \<le> (length ?rs + 1) * P" using that mult_le_mono1 [of "i + 2" "length ?rs + 1" P] by simp
    ultimately show ?thesis unfolding fh3_def by (simp add: readFromFile_before)
  qed
  moreover have "\<exists>rest. drop ((length ?rs + 1) * P) (shDisk fh3) = serializeVector ShadowPageRecord_serialize ?rs @ rest"
    unfolding fh3_def by (simp add: drop_writeFile del: mult_Suc)
  moreover have "length (map fst (tl (shPages fh))) = length ?rs" using stored(2) by simp
  ultimately have "shadow_complete P databaseID ?rs (map fst (tl (shPages fh))) (shDisk fh3)" by (simp add: shadow_complete_def)
  moreover have "map fst (shPages fh3) = map fst (shPages fh)" using fh2(2) by (simp add: fh3_def)
  ultimately show ?thesis using flush by blast
qed

section \<open>What a checkpoint writes\<close>

lemma copied_is_crash: "replayPages P shadow i rs dataFile = Inr new \<Longrightarrow> copy_crash P shadow i rs dataFile new"
proof (induction rs arbitrary: i dataFile)
  case (Cons r rs)
  then show ?case by (cases "readFromFile shadow P (i * P)") (auto intro: copy_crash.intros)
qed (simp add: crash_now)

lemma untouched_page:
  assumes "replayPages P shadow i rs dataFile = Inr new" "readFromFile dataFile P (q * P) = Inr c" "\<forall>r \<in> set rs. unat (originalPageIdx r) \<noteq> q"
  shows "readFromFile new P (q * P) = Inr c"
  using assms
proof (induction rs arbitrary: i dataFile)
  case (Cons r rs)
  obtain page where page: "readFromFile shadow P (i * P) = Inr page" "replayPages P shadow (i + 1) rs (writeFile dataFile (unat (originalPageIdx r) * P) page) = Inr new"
    using Cons.prems(1) by (cases "readFromFile shadow P (i * P)") auto
  have "readFromFile (writeFile dataFile (unat (originalPageIdx r) * P) page) P (q * P) = Inr c"
    using page(1) Cons.prems(2,3) by (intro readFromFile_other_page) (auto simp: readFromFile_iff)
  then show ?case using Cons.IH [OF page(2)] Cons.prems(3) by simp
qed simp

lemma last_copy_wins:
  assumes "replayPages P shadow n rs dataFile = Inr new" "\<forall>j < length rs. readFromFile shadow P ((n + j) * P) = Inr (cs ! j)"
    and "length cs = length rs"
    and "i < length rs" "\<forall>j. i < j \<and> j < length rs \<longrightarrow> originalPageIdx (rs ! j) \<noteq> originalPageIdx (rs ! i)"
  shows "readFromFile new P (unat (originalPageIdx (rs ! i)) * P) = Inr (cs ! i)"
  using assms
proof (induction rs arbitrary: n dataFile cs i)
  case (Cons r rs)
  let ?off = "unat (originalPageIdx r) * P"
  have page: "readFromFile shadow P (n * P) = Inr (cs ! 0)" using Cons.prems(2) by force
  then have rest: "replayPages P shadow (n + 1) rs (writeFile dataFile ?off (cs ! 0)) = Inr new" using Cons.prems(1) by simp
  have len: "length (cs ! 0) = P" using page by (simp add: readFromFile_iff)
  show ?case
  proof (cases i)
    case 0
    have "\<forall>r' \<in> set rs. unat (originalPageIdx r') \<noteq> unat (originalPageIdx r)"
    proof
      fix r'
      assume "r' \<in> set rs"
      then obtain j where "j < length rs" "rs ! j = r'" by (auto simp: in_set_conv_nth)
      then show "unat (originalPageIdx r') \<noteq> unat (originalPageIdx r)"
        using Cons.prems(5) [rule_format, of "Suc j"] 0 by (auto simp: word_unat_eq_iff)
    qed
    then show ?thesis using untouched_page [OF rest readFromFile_written [OF len]] 0 by simp
  next
    case (Suc k)
    have "\<forall>j < length rs. readFromFile shadow P ((n + 1 + j) * P) = Inr (tl cs ! j)"
    proof (intro allI impI)
      fix j
      assume "j < length rs"
      then have "readFromFile shadow P ((n + Suc j) * P) = Inr (cs ! Suc j)" using Cons.prems(2) by (simp del: mult_Suc add_Suc_right)
      then show "readFromFile shadow P ((n + 1 + j) * P) = Inr (tl cs ! j)" 
        using Cons.prems(3) \<open>j < length rs\<close> by (simp add: nth_tl del: mult_Suc)
    qed
    moreover have "\<forall>j. k < j \<and> j < length rs \<longrightarrow> originalPageIdx (rs ! j) \<noteq> originalPageIdx (rs ! k)"
      using Cons.prems(5) Suc by (metis Suc_less_eq length_Cons nth_Cons_Suc)
    ultimately have "readFromFile new P (unat (originalPageIdx (rs ! k)) * P) = Inr (tl cs ! k)"
      using Cons.IH [OF rest] Cons.prems(3,4) Suc by simp
    then show ?thesis using Suc Cons.prems(3,4) by (simp add: nth_tl)
  qed
qed simp

text \<open>Frames of the data file show what is on disk.\<close>

definition coherent :: "nat \<Rightarrow> u32 \<Rightarrow> u8 list \<times> frames \<Rightarrow> bool" where
  "coherent P f st \<longleftrightarrow> (\<forall>p c. snd st (f, p) = Some c \<longrightarrow> readFromFile (fst st) P (unat p * P) = Inr c)"

lemma applyLoop_ok:
  assumes "\<forall>j < length rs. \<exists>c. readFromFile shadow P ((n + j) * P) = Inr c" "\<forall>r \<in> set rs. originalFileIdx r = f" "coherent P f st"
  shows "\<exists>st'. applyLoop P shadow n rs st = Inr st' \<and> coherent P f st'"
  using assms
proof (induction rs arbitrary: n st)
  case (Cons r rs)
  obtain dataFile fr where st: "st = (dataFile, fr)" by (cases st)
  obtain page where page: "readFromFile shadow P (n * P) = Inr page" using Cons.prems(1) by force
  then have len: "length page = P" by (simp add: readFromFile_iff)
  let ?p = "originalPageIdx r"
  let ?st = "(writeFile dataFile (unat ?p * P) page, updateFrameIfPageIsInFrameWithoutLock (originalFileIdx r) page ?p fr)"
  have "coherent P f ?st"
    unfolding coherent_def
  proof (intro allI impI)
    fix p c
    assume c: "snd ?st (f, p) = Some c"
    show "readFromFile (fst ?st) P (unat p * P) = Inr c"
    proof (cases "p = ?p")
      case True
      then have "c = page" using c Cons.prems(2) by (auto simp: updateFrameIfPageIsInFrameWithoutLock_def split: if_splits)
      then show ?thesis using True readFromFile_written [OF len] by simp
    next
      case False
      then have "fr (f, p) = Some c" using c by (auto simp: updateFrameIfPageIsInFrameWithoutLock_def split: if_splits)
      then have "readFromFile dataFile P (unat p * P) = Inr c" using Cons.prems(3) st by (simp add: coherent_def)
      then show ?thesis using readFromFile_other_page [of dataFile P "unat p" c "unat ?p" page] False len by (simp add: word_unat_eq_iff)
    qed
  qed
  moreover have "\<forall>j < length rs. \<exists>c. readFromFile shadow P ((n + 1 + j) * P) = Inr c"
  proof (intro allI impI)
    fix j
    assume "j < length rs"
    then show "\<exists>c. readFromFile shadow P ((n + 1 + j) * P) = Inr c" using Cons.prems(1) [rule_format, of "Suc j"] by simp
  qed
  ultimately have "\<exists>st'. applyLoop P shadow (n + 1) rs ?st = Inr st' \<and> coherent P f st'" using Cons.IH Cons.prems(2) by simp
  then show ?case using page st by simp
qed simp

section \<open>The updates of a checkpoint\<close>

text \<open>
  The operations of a checkpoint on the pages of a file, in any order, with the buffer manager
  writing shadow pages to disk in between. What they mean is a change of two maps from pages to
  contents: the new versions a reader of the checkpoint sees, and the versions that will be written.
  Clearing a shadow page takes the new version of the page out of the first and leaves the second.
\<close>

datatype shadow_op = Update u32 bool "u8 list" "u8 list \<Rightarrow> u8 list res" | Clear u32 | Evict nat

fun sf_op :: "nat \<Rightarrow> u8 list \<Rightarrow> u32 \<Rightarrow> shadow_op \<Rightarrow> shadow_file \<Rightarrow> shadow_file res" where
  "sf_op P fresh f (Update p skip original updateOp) sf = updatePage fresh f p skip original updateOp sf"
| "sf_op P fresh f (Clear p) sf = Inr (clearShadowPage f p sf)"
| "sf_op P fresh f (Evict i) sf = Inr (sh_evict P i sf)"

type_synonym page_versions = "u32 \<rightharpoonup> u8 list"

fun version_op :: "u8 list \<Rightarrow> shadow_op \<Rightarrow> page_versions \<times> page_versions \<Rightarrow> (page_versions \<times> page_versions) res" where
  "version_op fresh (Update p skip original updateOp) (seen, written) =
     bindR (updateOp (case seen p of Some c \<Rightarrow> c | None \<Rightarrow> if skip then fresh else original)) (\<lambda>c. Inr (seen(p \<mapsto> c), written(p \<mapsto> c)))"
| "version_op fresh (Clear p) (seen, written) = Inr (seen(p := None), written)"
| "version_op fresh (Evict i) (seen, written) = Inr (seen, written)"

definition versions :: "u32 \<Rightarrow> shadow_file \<Rightarrow> page_versions \<times> page_versions" where
  "versions f sf = (\<lambda>p. overlay sf (f, p), \<lambda>p. recorded sf (f, p))"

fun op_ok :: "nat \<Rightarrow> shadow_op \<Rightarrow> bool" where
  "op_ok P (Update p skip original updateOp) \<longleftrightarrow> length original = P \<and> (\<forall>c c'. length c = P \<longrightarrow> updateOp c = Inr c' \<longrightarrow> length c' = P)"
| "op_ok P (Clear p) \<longleftrightarrow> True"
| "op_ok P (Evict i) \<longleftrightarrow> True"

definition of_file :: "u32 \<Rightarrow> shadow_file \<Rightarrow> bool" where
  "of_file f sf \<longleftrightarrow> (\<forall>r \<in> set (shadowPageRecords sf). originalFileIdx r = f)"

lemma overlay_length:
  assumes "sf_ok P sf" "overlay sf q = Some c"
  shows "length c = P"
proof -
  obtain i where i: "shadowOf (fst q) (snd q) sf = Some i" using assms(2) by (auto simp: overlay_def split: option.splits)
  then obtain fh where "shadowingFH sf = Some fh" "unat i < length (shPages fh)" using shadowOf_bounds [OF assms(1)] by blast
  then show ?thesis using assms i by (auto simp: overlay_def sf_ok_def fh_stored_def)
qed

lemma updatePage_records:
  assumes "updatePage fresh f p skip original updateOp sf = Inr sf'"
  shows "shadowPageRecords sf' = shadowPageRecords sf \<or> shadowPageRecords sf' = shadowPageRecords sf @ [\<lparr>originalFileIdx = f, originalPageIdx = p\<rparr>]"
proof -
  have create: "shadowPageRecords sf1 = shadowPageRecords sf \<or> shadowPageRecords sf1 = shadowPageRecords sf @ [\<lparr>originalFileIdx = f, originalPageIdx = p\<rparr>]"
    if "getOrCreateShadowPage fresh f p sf = Inr (sf1, i)" for sf1 i
    using that by (auto simp: getOrCreateShadowPage_def getOrCreateShadowingFH_def sh_addNewPage_def Let_def split: if_splits option.splits)
  have set: "shadowPageRecords b = shadowPageRecords a" if "sh_setPage i c d a = Inr b" for a b i c d
    using that by (auto simp: sh_setPage_def derefR_def split: option.splits)
  from assms obtain sf1 i where "createShadowVersionIfNecessaryAndPinPage fresh p skip f original sf = Inr (sf1, i)" "shadowPageRecords sf' = shadowPageRecords sf1"
    by (auto simp: updatePage_def dest!: set)
  then show ?thesis
    by (auto simp: createShadowVersionIfNecessaryAndPinPage_def Let_def dest!: create set split: if_splits)
qed

lemma op_refines:
  assumes ok: "sf_ok P sf" "of_file f sf" "length (shadowPageRecords sf) < 2 ^ 32 - 2" and len: "length fresh = P" "op_ok P op"
    and op: "version_op fresh op (versions f sf) = Inr vs"
  shows "\<exists>sf'. sf_op P fresh f op sf = Inr sf' \<and> sf_ok P sf' \<and> of_file f sf' \<and> versions f sf' = vs
    \<and> length (shadowPageRecords sf') \<le> length (shadowPageRecords sf) + 1"
proof (cases op)
  case (Update p skip original updateOp)
  let ?old = "case overlay sf (f, p) of Some c \<Rightarrow> c | None \<Rightarrow> if skip then fresh else original"
  obtain c where c: "updateOp ?old = Inr c" "vs = ((\<lambda>p. overlay sf (f, p))(p \<mapsto> c), (\<lambda>p. recorded sf (f, p))(p \<mapsto> c))"
    using op Update by (auto simp: versions_def)
  have "length ?old = P" using len Update overlay_length [OF ok(1)] by (auto split: option.splits)
  then have lenc: "length c = P" using len(2) Update c(1) by auto
  obtain sf' where sf': "updatePage fresh f p skip original updateOp sf = Inr sf'" "sf_ok P sf'" "overlay sf' = (overlay sf)((f, p) \<mapsto> c)"
    "recorded sf' = (recorded sf)((f, p) \<mapsto> c)" "length (shadowPageRecords sf') \<le> length (shadowPageRecords sf) + 1"
    using updatePage_ok [where updateOp = updateOp and f = f and p = p and skip = skip and original = original, OF ok(1) _ len(1) ok(3) c(1) lenc]
      len(2) Update by auto
  then show ?thesis using Update c(2) ok(2) updatePage_records [OF sf'(1)] by (auto simp: of_file_def versions_def)
next
  case (Clear p)
  have same: "shadowingFH (clearShadowPage f p sf) = shadowingFH sf" "shadowPageRecords (clearShadowPage f p sf) = shadowPageRecords sf"
    by (simp_all add: clearShadowPage_def Let_def split: option.splits)
  have "overlay (clearShadowPage f p sf) (f, q) = (if q = p then None else overlay sf (f, q))" for q
    by (simp add: overlay_def shadowOf_clear same split: option.splits)
  moreover have "recorded (clearShadowPage f p sf) = recorded sf" by (auto simp: recorded_def same fun_eq_iff split: option.splits)
  ultimately show ?thesis using Clear clear_ok [OF ok(1)] ok(2) op same by (auto simp: of_file_def versions_def)
next
  case (Evict i)
  then show ?thesis using evict_ok [OF ok(1)] ok(2) op by (simp add: of_file_def versions_def)
qed

lemma ops_refine:
  assumes "sf_ok P sf" "of_file f sf" "length (shadowPageRecords sf) + length ops < 2 ^ 32 - 1" "length fresh = P" "\<forall>op \<in> set ops. op_ok P op"
    and "foldR (version_op fresh) ops (versions f sf) = Inr vs"
  shows "\<exists>sf'. foldR (sf_op P fresh f) ops sf = Inr sf' \<and> sf_ok P sf' \<and> of_file f sf' \<and> versions f sf' = vs"
  using assms
proof (induction ops arbitrary: sf)
  case (Cons op ops)
  obtain vs1 where vs1: "version_op fresh op (versions f sf) = Inr vs1" "foldR (version_op fresh) ops vs1 = Inr vs"
    using Cons.prems(6) by auto
  obtain sf1 where sf1: "sf_op P fresh f op sf = Inr sf1" "sf_ok P sf1" "of_file f sf1" "versions f sf1 = vs1"
    "length (shadowPageRecords sf1) \<le> length (shadowPageRecords sf) + 1"
    using op_refines [OF Cons.prems(1,2) _ Cons.prems(4) _ vs1(1)] Cons.prems(3,5) by auto
  then show ?case using Cons.IH [OF sf1(2,3)] Cons.prems(3,4,5) vs1(2) by auto
qed simp

lemma new_ok: "sf_ok P ShadowFile_new" "of_file f ShadowFile_new" "versions f ShadowFile_new = (\<lambda>_. None, \<lambda>_. None)"
  by (simp_all add: sf_ok_def maps_records_def ShadowFile_new_def shadowOf_def of_file_def versions_def overlay_def recorded_def)

lemma flush_apply_recorded:
  assumes ok: "sf_ok P sf" "of_file f sf" and fh: "shadowingFH sf = Some fh" and P: "20 \<le> P" and coh: "coherent P f (dataFile, fr)"
  shows "\<exists>sf' new fr' fh'. flushAll P databaseID sf = Inr sf' \<and> applyShadowPages P sf' (dataFile, fr) = Inr (new, fr') \<and> coherent P f (new, fr')
    \<and> (\<forall>p c. recorded sf (f, p) = Some c \<longrightarrow> readFromFile new P (unat p * P) = Inr c)
    \<and> (\<forall>j. \<not> covered P (shadowPageRecords sf) j \<longrightarrow> fbyte new j = fbyte dataFile j)
    \<and> shadowingFH sf' = Some fh'
    \<and> shadow_complete P databaseID (shadowPageRecords sf) (map fst (tl (shPages fh))) (shDisk fh')
    \<and> replayPages P (shDisk fh') 1 (shadowPageRecords sf) dataFile = Inr new"
proof -
  let ?rs = "shadowPageRecords sf" and ?cs = "map fst (tl (shPages fh))"
  obtain fh' where fh': "flushAll P databaseID sf = Inr (sf\<lparr>shadowingFH := Some fh'\<rparr>)" "shadow_complete P databaseID ?rs ?cs (shDisk fh')"
    using flushAll_ok [OF ok(1) fh P] by blast
  have pages: "\<forall>j < length ?rs. readFromFile (shDisk fh') P ((1 + j) * P) = Inr (?cs ! j)" and len: "length ?cs = length ?rs"
    using fh'(2) by (simp_all add: shadow_complete_def)
  obtain new fr' where loop: "applyLoop P (shDisk fh') 1 ?rs (dataFile, fr) = Inr (new, fr')" "coherent P f (new, fr')"
    using applyLoop_ok [of ?rs "shDisk fh'" P 1 f "(dataFile, fr)"] pages ok(2) coh by (auto simp: of_file_def)
  note copied = applyLoop_replays [OF loop(1)]
  have "readFromFile new P (unat p * P) = Inr c" if c: "recorded sf (f, p) = Some c" for p c
  proof -
    obtain k where k: "k < length ?rs" "?rs ! k = \<lparr>originalFileIdx = f, originalPageIdx = p\<rparr>"
        "\<forall>j. k < j \<and> j < length ?rs \<longrightarrow> ?rs ! j \<noteq> ?rs ! k" "c = fst (shPages fh ! Suc k)"
      using recorded_last [OF ok(1) fh, of f p] c by auto
    have "\<forall>j. k < j \<and> j < length ?rs \<longrightarrow> originalPageIdx (?rs ! j) \<noteq> originalPageIdx (?rs ! k)"
    proof (intro allI impI notI)
      fix j
      assume j: "k < j \<and> j < length ?rs" and same: "originalPageIdx (?rs ! j) = originalPageIdx (?rs ! k)"
      have "originalFileIdx (?rs ! j) = f" using ok(2) j by (simp add: of_file_def)
      then have "?rs ! j = ?rs ! k" using same k(2) by (cases "?rs ! j") simp
      then show False using k(3) j by blast
    qed
    from last_copy_wins [OF copied pages len k(1) this] have "readFromFile new P (unat p * P) = Inr (?cs ! k)" using k(2) by simp
    then show ?thesis using k(1,4) len by (simp add: nth_tl)
  qed
  moreover have "\<forall>j. \<not> covered P ?rs j \<longrightarrow> fbyte new j = fbyte dataFile j" using copy_crash_bytes [OF copied_is_crash [OF copied]] by blast
  ultimately show ?thesis using fh fh' loop copied by (auto simp: applyShadowPages_def)
qed

lemma flush_apply_ok:
  assumes ok: "sf_ok P sf" "of_file f sf" "overlay sf (f, p0) \<noteq> None" and P: "20 \<le> P" and coh: "coherent P f (dataFile, fr)"
  shows "\<exists>sf' new fr' fh fh'. flushAll P databaseID sf = Inr sf' \<and> applyShadowPages P sf' (dataFile, fr) = Inr (new, fr') \<and> coherent P f (new, fr')
    \<and> (\<forall>p c. overlay sf (f, p) = Some c \<longrightarrow> readFromFile new P (unat p * P) = Inr c)
    \<and> (\<forall>j. \<not> covered P (shadowPageRecords sf) j \<longrightarrow> fbyte new j = fbyte dataFile j)
    \<and> shadowingFH sf = Some fh \<and> shadowingFH sf' = Some fh'
    \<and> shadow_complete P databaseID (shadowPageRecords sf) (map fst (tl (shPages fh))) (shDisk fh')
    \<and> replayPages P (shDisk fh') 1 (shadowPageRecords sf) dataFile = Inr new"
proof -
  obtain fh where fh: "shadowingFH sf = Some fh" using ok(3) by (auto simp: overlay_def split: option.splits)
  obtain sf' new fr' fh' where "flushAll P databaseID sf = Inr sf'" "applyShadowPages P sf' (dataFile, fr) = Inr (new, fr')" "coherent P f (new, fr')"
    "\<forall>p c. recorded sf (f, p) = Some c \<longrightarrow> readFromFile new P (unat p * P) = Inr c"
    "\<forall>j. \<not> covered P (shadowPageRecords sf) j \<longrightarrow> fbyte new j = fbyte dataFile j" "shadowingFH sf' = Some fh'"
    "shadow_complete P databaseID (shadowPageRecords sf) (map fst (tl (shPages fh))) (shDisk fh')"
    "replayPages P (shDisk fh') 1 (shadowPageRecords sf) dataFile = Inr new"
    using flush_apply_recorded [OF ok(1,2) fh P coh, of databaseID] by blast
  then show ?thesis using fh overlay_recorded [OF ok(1)] by blast
qed


text \<open>
  C9. A checkpoint writes the pages it has recorded and nothing else. For any sequence of page updates
  and cleared shadow pages with at least one update, with shadow pages being written to disk and read
  again at any time in between, flushing the shadow file and applying it returns. Every page of the
  data file that was updated then holds the version of its last update, every byte of the other pages
  is unchanged, and the frames of the buffer manager agree with the file. A new version that is still
  seen is the one that is written. A page whose shadow page was cleared after its last update is
  written all the same: \<^verbatim>\<open>clearShadowPage\<close> removes the page from the map and leaves its
  record, and the pages are copied by the records.

\<close>

theorem checkpoint_writes_updates:
  assumes "20 \<le> P" "length fresh = P" "\<forall>op \<in> set ops. op_ok P op" "length ops < 2 ^ 32 - 1"
    and "foldR (version_op fresh) ops (\<lambda>_. None, \<lambda>_. None) = Inr (seen, written)" "written p0 \<noteq> None" "coherent P f (dataFile, fr)"
  shows "\<exists>sf sf' new fr'. foldR (sf_op P fresh f) ops ShadowFile_new = Inr sf \<and> flushAll P databaseID sf = Inr sf'
    \<and> applyShadowPages P sf' (dataFile, fr) = Inr (new, fr') \<and> coherent P f (new, fr')
    \<and> (\<forall>p. case written p of
         Some c \<Rightarrow> readFromFile new P (unat p * P) = Inr c
       | None \<Rightarrow> (\<forall>j. j div P = unat p \<longrightarrow> fbyte new j = fbyte dataFile j))
    \<and> (\<forall>p c. seen p = Some c \<longrightarrow> written p = Some c)"
proof -
  obtain sf where sf: "foldR (sf_op P fresh f) ops ShadowFile_new = Inr sf" "sf_ok P sf" "of_file f sf" "versions f sf = (seen, written)"
    using ops_refine [OF new_ok(1,2) _ assms(2,3), of f "(seen, written)"] assms(4,5) new_ok(3) [of f] by (auto simp: ShadowFile_new_def)
  have seen: "overlay sf (f, p) = seen p" and written: "recorded sf (f, p) = written p" for p
    using sf(4) by (auto simp: versions_def)
  obtain fh where fh: "shadowingFH sf = Some fh" using assms(6) written [of p0] by (auto simp: recorded_def split: option.splits)
  obtain sf' new fr' where res: "flushAll P databaseID sf = Inr sf'" "applyShadowPages P sf' (dataFile, fr) = Inr (new, fr')" "coherent P f (new, fr')"
    "\<forall>p c. recorded sf (f, p) = Some c \<longrightarrow> readFromFile new P (unat p * P) = Inr c"
    "\<forall>j. \<not> covered P (shadowPageRecords sf) j \<longrightarrow> fbyte new j = fbyte dataFile j"
    using flush_apply_recorded [OF sf(2,3) fh assms(1,7), of databaseID] by auto
  have "fbyte new j = fbyte dataFile j" if p: "written p = None" "j div P = unat p" for p j
  proof (cases "covered P (shadowPageRecords sf) j")
    case True
    then obtain r where r: "r \<in> set (shadowPageRecords sf)" "unat (originalPageIdx r) * P \<le> j" "j < unat (originalPageIdx r) * P + P"
      by (auto simp: covered_def)
    have "j div P = unat (originalPageIdx r)" using r(2,3) assms(1) by (metis div_nat_eqI mult.commute mult_Suc_right add.commute)
    then have "r = \<lparr>originalFileIdx = f, originalPageIdx = p\<rparr>"
      using p(2) r(1) sf(3) by (cases r) (auto simp: word_unat_eq_iff of_file_def)
    then show ?thesis using r(1) recorded_last [OF sf(2) fh, of f p] written [of p] p(1) by simp
  next
    case False
    then show ?thesis using res(5) by blast
  qed
  moreover have "written p = Some c" if "seen p = Some c" for p c
    using overlay_recorded [OF sf(2), of f p c] that seen written by simp
  moreover have "readFromFile new P (unat p * P) = Inr c" if "written p = Some c" for p c
    using res(4) that written by simp
  ultimately show ?thesis using sf(1) res(1-3) by (auto split: option.split)
qed

definition example_ops :: "shadow_op list" where
  "example_ops = [Update 1 True (replicate 20 0) (\<lambda>_. Inr (replicate 20 7)), Evict 1, Update 2 False (replicate 20 3) Inr,
     Update 1 True (replicate 20 0) (\<lambda>_. Inr (replicate 20 9)), Clear 2]"

theorem checkpoint_writes_updates_witness:
  "\<exists>sf sf' new fr'. foldR (sf_op 20 (replicate 20 5) 0) example_ops ShadowFile_new = Inr sf \<and> flushAll 20 (1, 2) sf = Inr sf'
    \<and> applyShadowPages 20 sf' ([], \<lambda>_. None) = Inr (new, fr') \<and> readFromFile new 20 20 = Inr (replicate 20 9)
    \<and> readFromFile new 20 40 = Inr (replicate 20 3)"
proof -
  let ?w = "[1 \<mapsto> replicate 20 9, 2 \<mapsto> replicate 20 3] :: page_versions"
  have run: "foldR (version_op (replicate 20 5)) example_ops (\<lambda>_. None, \<lambda>_. None) = Inr ([1 \<mapsto> replicate 20 9], ?w)"
    by (auto simp: example_ops_def)
  have ops: "\<forall>op \<in> set example_ops. op_ok 20 op" "length example_ops < 2 ^ 32 - 1" by (auto simp: example_ops_def)
  have ne: "?w 1 \<noteq> None" by simp
  have coh: "coherent 20 0 ([], \<lambda>_. None)" by (simp add: coherent_def)
  from checkpoint_writes_updates [OF order_refl length_replicate ops run ne coh, of "(1, 2)"]
  obtain sf sf' new fr' where res: "foldR (sf_op 20 (replicate 20 5) 0) example_ops ShadowFile_new = Inr sf" "flushAll 20 (1, 2) sf = Inr sf'"
    "applyShadowPages 20 sf' ([], \<lambda>_. None) = Inr (new, fr')"
    "\<forall>p. case ?w p of Some c \<Rightarrow> readFromFile new 20 (unat p * 20) = Inr c | None \<Rightarrow> (\<forall>j. j div 20 = unat p \<longrightarrow> fbyte new j = fbyte [] j)"
    by blast
  have "readFromFile new 20 (unat (1 :: u32) * 20) = Inr (replicate 20 9)" "readFromFile new 20 (unat (2 :: u32) * 20) = Inr (replicate 20 3)"
    using res(4) [rule_format, of 1] res(4) [rule_format, of 2] by simp_all
  then show ?thesis using res(1-3) by auto
qed

section \<open>Recovering the data file\<close>

text \<open>The data file starts with a header of the database.\<close>

definition has_header :: "bool \<Rightarrow> string \<Rightarrow> database_id \<Rightarrow> u8 list \<Rightarrow> bool" where
  "has_header dbg build databaseID f \<longleftrightarrow> (\<exists>h rest. f = DatabaseHeader_serialize dbg build h @ rest \<and> headerDatabaseID h = databaseID)"

definition header_size :: "bool \<Rightarrow> string \<Rightarrow> nat" where
  "header_size dbg build = length (DatabaseHeader_serialize dbg build (createInitialHeader (0, 0)))"

lemma has_header_iff:
  "has_header dbg build databaseID f \<longleftrightarrow>
    (\<exists>h. take (header_size dbg build) f = DatabaseHeader_serialize dbg build h \<and> headerDatabaseID h = databaseID)"
proof
  assume "has_header dbg build databaseID f"
  then obtain h rest where h: "f = DatabaseHeader_serialize dbg build h @ rest" "headerDatabaseID h = databaseID" by (auto simp: has_header_def)
  have "take (header_size dbg build) f = DatabaseHeader_serialize dbg build h"
    using length_header [of dbg build h "createInitialHeader (0, 0)"] by (simp add: h(1) header_size_def)
  then show "\<exists>h. take (header_size dbg build) f = DatabaseHeader_serialize dbg build h \<and> headerDatabaseID h = databaseID" using h(2) by blast
next
  assume "\<exists>h. take (header_size dbg build) f = DatabaseHeader_serialize dbg build h \<and> headerDatabaseID h = databaseID"
  then show "has_header dbg build databaseID f" unfolding has_header_def by (metis append_take_drop_id)
qed

lemma header_torn_write:
  assumes old: "has_header dbg build databaseID f" and new: "has_header dbg build databaseID page"
    and len: "length page = P" "header_size dbg build \<le> P" "k \<le> P"
  shows "has_header dbg build databaseID (writeFile f 0 (take k page))"
proof -
  let ?n = "header_size dbg build"
  obtain h0 h1 where h: "take ?n f = DatabaseHeader_serialize dbg build h0" "headerDatabaseID h0 = databaseID"
    "take ?n page = DatabaseHeader_serialize dbg build h1" "headerDatabaseID h1 = databaseID"
    using old new unfolding has_header_iff by blast
  have "take ?n (writeFile f 0 (take k page)) = torn k (take ?n page) (take ?n f)"
    using len by (simp add: writeFile_def torn_def min.commute drop_take)
  then show ?thesis
    using torn_header [of h1 h0 k dbg build] h unfolding has_header_iff by auto
qed

lemma header_other_page:
  assumes "has_header dbg build databaseID f" "header_size dbg build \<le> off"
  shows "has_header dbg build databaseID (writeFile f off bs)"
proof -
  let ?n = "header_size dbg build"
  obtain h where h: "take ?n f = DatabaseHeader_serialize dbg build h" "headerDatabaseID h = databaseID"
    using assms(1) unfolding has_header_iff by blast
  have "length (take ?n f) = ?n" using h(1) length_header [of dbg build h "createInitialHeader (0, 0)"] by (simp add: header_size_def)
  then have "?n \<le> length f" by simp
  then have "take ?n (writeFile f off bs) = take ?n f" using assms(2) by (simp add: writeFile_def)
  then show ?thesis using h unfolding has_header_iff by auto
qed

lemma crash_keeps_header:
  assumes "copy_crash P shadow n rs dataFile crashed" "has_header dbg build databaseID dataFile" "header_size dbg build \<le> P"
    and "\<forall>i c. i < length rs \<and> originalPageIdx (rs ! i) = 0 \<and> readFromFile shadow P ((n + i) * P) = Inr c \<longrightarrow> has_header dbg build databaseID c"
  shows "has_header dbg build databaseID crashed"
  using assms
proof (induction rule: copy_crash.induct)
  case (crash_torn shadow P n page k r rs dataFile)
  show ?case
  proof (cases "originalPageIdx r = 0")
    case True
    have "has_header dbg build databaseID page" using crash_torn.prems(3) [rule_format, of 0 page] True crash_torn(1) by simp
    then show ?thesis using header_torn_write crash_torn True by (simp add: readFromFile_iff)
  next
    case False
    then have "P \<le> unat (originalPageIdx r) * P" by (simp add: word_unat_eq_iff)
    then show ?thesis using header_other_page crash_torn.prems(1,2) le_trans by blast
  qed
next
  case (crash_later shadow P n page rs dataFile r crashed)
  have len: "length page = P" using crash_later(1) by (simp add: readFromFile_iff)
  have "has_header dbg build databaseID (writeFile dataFile (unat (originalPageIdx r) * P) page)"
  proof (cases "originalPageIdx r = 0")
    case True
    have "has_header dbg build databaseID page" using crash_later.prems(3) [rule_format, of 0 page] True crash_later(1) by simp
    then show ?thesis using header_torn_write [of dbg build databaseID dataFile page P P] crash_later.prems(1,2) len True by simp
  next
    case False
    then have "P \<le> unat (originalPageIdx r) * P" by (simp add: word_unat_eq_iff)
    then show ?thesis using header_other_page crash_later.prems(1,2) le_trans by blast
  qed
  moreover have "\<forall>i c. i < length rs \<and> originalPageIdx (rs ! i) = 0 \<and> readFromFile shadow P ((n + 1 + i) * P) = Inr c \<longrightarrow> has_header dbg build databaseID c"
  proof (intro allI impI)
    fix i c
    assume "i < length rs \<and> originalPageIdx (rs ! i) = 0 \<and> readFromFile shadow P ((n + 1 + i) * P) = Inr c"
    then show "has_header dbg build databaseID c" using crash_later.prems(3) [rule_format, of "Suc i" c] by simp
  qed
  ultimately show ?case using crash_later.IH crash_later.prems(2) by blast
qed

lemma getOldDatabaseID_ok:
  "has_header dbg build databaseID f \<Longrightarrow> P \<le> length f \<Longrightarrow> getOldDatabaseID P dbg build f = Inr databaseID"
  by (auto simp: has_header_def getOldDatabaseID_def readDatabaseHeader_def header_read_back)

interpretation ser_shadow_record: serializable ShadowPageRecord_serialize ShadowPageRecord_deserialize "\<lambda>_. True"
  by unfold_locales
    (simp add: ShadowPageRecord_serialize_def ShadowPageRecord_deserialize_def bindD_def returnD_def ser_u32.round_trip)

lemma readShadowHeader_ok:
  assumes "readFromFile shadow P 0 = Inr (shadowHeaderPage P databaseID n)"
  shows "readShadowHeader P shadow = Inr (databaseID, n)"
  using assms by (simp add: readShadowHeader_def shadowHeaderPage_def writeDatabaseID_def bindD_def returnD_def ser_u64.round_trip ser_u32.round_trip)

lemma replayShadow_ok:
  assumes "shadow_complete P databaseID rs cs shadow" "length rs < 2 ^ 32 - 1" "has_header dbg build databaseID f" "P \<le> length f"
  shows "replayShadowPageRecords P dbg build False shadow (Some f) = replayPages P shadow 1 rs f"
proof -
  have n: "unat (of_nat (length rs) + 1 :: u32) = length rs + 1"
    using assms(2) unat_of_nat_32 [of "length rs + 1"] by (simp add: add.commute)
  obtain rest where rest: "drop ((length rs + 1) * P) shadow = serializeVector ShadowPageRecord_serialize rs @ rest"
    using assms(1) by (auto simp: shadow_complete_def)
  have "deserializeVector ShadowPageRecord_deserialize (drop ((length rs + 1) * P) shadow) = Inr (rs, rest)"
    unfolding rest using assms(2) by (intro ser_shadow_record.vector_round_trip) simp_all
  moreover have "readShadowHeader P shadow = Inr (databaseID, of_nat (length rs))"
    using assms(1) by (intro readShadowHeader_ok) (simp add: shadow_complete_def)
  ultimately show ?thesis
    using getOldDatabaseID_ok [OF assms(3,4)] n
    by (simp add: replayShadowPageRecords_def verifyDatabaseID_def del: mult_Suc)
qed

text \<open>Copying the pages, interrupted anywhere and continued by the replay.\<close>

lemma replay_recovers:
  assumes sh: "shadow_complete P databaseID rs cs shadow" "length rs < 2 ^ 32 - 1"
    and data: "has_header dbg build databaseID dataFile" "P \<le> length dataFile" "header_size dbg build \<le> P"
    and pages: "\<forall>i < length rs. originalPageIdx (rs ! i) = 0 \<longrightarrow> has_header dbg build databaseID (cs ! i)"
    and run: "replayPages P shadow 1 rs dataFile = Inr new" "copy_crash P shadow 1 rs dataFile crashed"
  shows "replayShadowPageRecords P dbg build False shadow (Some crashed) = Inr new"
proof -
  have "has_header dbg build databaseID crashed"
  proof (rule crash_keeps_header [OF run(2) data(1,3)], intro allI impI)
    fix i c
    assume i: "i < length rs \<and> originalPageIdx (rs ! i) = 0 \<and> readFromFile shadow P ((1 + i) * P) = Inr c"
    then have "c = cs ! i" using sh(1) by (auto simp: shadow_complete_def simp del: mult_Suc)
    then show "has_header dbg build databaseID c" using pages i by blast
  qed
  moreover have "P \<le> length crashed" using copy_crash_bytes [OF run(2)] data(2) by simp
  ultimately show ?thesis using replayShadow_ok [OF sh] replay_after_crash [OF run] by simp
qed

end
