(* ===== verification/Log_Cut.thy ===== *)
theory Log_Cut
  imports Wal
begin

text \<open>
  Recovery of a log that a crash has cut off (\<^verbatim>\<open>src/src/storage/wal/wal_replayer.cpp\<close>): any prefix of a
  log is a sequence of complete entries and a part of one more. Recovery depends on the reader throwing when
  it meets that part. \<^verbatim>\<open>BufferedFileReader\<close> throws when it has the last page of the file in its buffer;
  a read that runs from the page before over a shorter last page gets bytes of the page before instead. So the
  theorems are about cuts for which the torn entry begins on the last page of the file, and about entries of at
  most a page, which the checksum writer and reader handle without replacing their buffers.
\<close>

section \<open>Cutting a log\<close>

text \<open>The number of entries that lie completely in the first \<open>k\<close> bytes.\<close>

fun completeRecords :: "(('e, 'p, 'x, 'v) wal_record \<Rightarrow> u8 list) \<Rightarrow> nat \<Rightarrow> ('e, 'p, 'x, 'v) wal_record list \<Rightarrow> nat" where
  "completeRecords enc k [] = 0"
| "completeRecords enc k (r # rs) = (if length (enc r) \<le> k then Suc (completeRecords enc (k - length (enc r)) rs) else 0)"

lemma cut_log:
  "\<exists>garbage. take k (logBytes enc rs) = logBytes enc (take (completeRecords enc k rs) rs) @ garbage
    \<and> (garbage = [] \<or> (\<exists>x \<in> set rs. \<exists>missing. garbage @ missing = enc x \<and> missing \<noteq> []))"
proof (induction rs arbitrary: k)
  case Nil
  then show ?case by simp
next
  case (Cons r rs)
  show ?case
  proof (cases "length (enc r) \<le> k")
    case True
    then show ?thesis using Cons.IH [of "k - length (enc r)"] by auto
  next
    case False
    then have "take k (enc r) @ drop k (enc r) = enc r" "drop k (enc r) \<noteq> []" by simp_all
    then have "\<exists>x \<in> set (r # rs). \<exists>missing. take k (enc r) @ missing = enc x \<and> missing \<noteq> []" by (meson list.set_intros(1))
    then show ?thesis using False by auto
  qed
qed

lemma completeRecords_whole: "length (logBytes enc rs) \<le> k \<Longrightarrow> length rs \<le> completeRecords enc k (rs @ qs)"
  by (induction rs arbitrary: k) auto

text \<open>The offset of the entry that the cut after \<open>k\<close> bytes has torn, and the cuts that leave its beginning on the last page.\<close>

definition tornStart :: "bool \<Rightarrow> database_id \<Rightarrow> (('e, 'p, 'x, 'v) wal_record \<Rightarrow> u8 list) \<Rightarrow> ('e, 'p, 'x, 'v) wal_record list \<Rightarrow> nat \<Rightarrow> nat" where
  "tornStart chk databaseID enc rs k =
     length (headerBytes chk databaseID)
     + length (logBytes enc (take (completeRecords enc (k - length (headerBytes chk databaseID)) rs) rs))"

definition cutOnLastPage :: "nat \<Rightarrow> bool \<Rightarrow> database_id \<Rightarrow> (('e, 'p, 'x, 'v) wal_record \<Rightarrow> u8 list) \<Rightarrow> ('e, 'p, 'x, 'v) wal_record list \<Rightarrow> nat \<Rightarrow> bool" where
  "cutOnLastPage P chk databaseID enc rs k \<longleftrightarrow>
     k \<le> length (headerBytes chk databaseID @ logBytes enc rs)
     \<and> (k \<le> tornStart chk databaseID enc rs k \<or> on_last_page P k (tornStart chk databaseID enc rs k))"

lemma length_headerBytes: "length (headerBytes chk databaseID) \<le> 25"
  by (simp add: headerBytes_def frameEntry_def entryBytes_def serializeU64_def writeDatabaseID_def serializeBool_def)

lemma replay_cut_header:
  assumes "25 \<le> P" "P \<le> length (alloc P)" "k < length (headerBytes chk databaseID)"
  shows "replay alloc P q app databaseID' False chk (take k (headerBytes chk databaseID)) s = Some (Inr (Replayed s []))"
proof (cases "k = 0")
  case True
  then show ?thesis by (simp add: replay_def)
next
  case False
  let ?log = "take k (headerBytes chk databaseID)"
  have ne: "?log \<noteq> []" using False headerBytes_nonempty by simp
  obtain r where r: "initDeserializer alloc P ?log = Inr r" "log_at P ?log r 0" using open_log [where alloc = alloc, OF _ assms(2) ne] assms(1) by auto
  have "length ?log \<le> P" using length_headerBytes [of chk databaseID] assms(1) by simp
  then have page: "on_last_page P (length ?log) 0" by (simp add: on_last_page_def)
  have split: "drop 0 ?log @ drop k (headerBytes chk databaseID) = frameEntry chk (writeDatabaseID databaseID @ serializeBool chk)"
    by (simp add: headerBytes_def)
  obtain e where "nextRecord alloc P chk (bindQ readWALHeader (\<lambda>h. bindQ (liftQ (checkWALHeader chk h)) (\<lambda>_. ReturnQ h))) r = Inl e"
    using nextRecord_torn [OF r(2) page split _ onList_header [where m = "checkWALHeader chk" and databaseID = databaseID and chk = chk], of alloc]
      assms(1,3) length_headerEntry [of databaseID chk] by (auto simp: checkWALHeader_def)
  then have "dryReplay alloc P q False chk ?log = Some (Inr (0, False))" using r(1) by (simp add: dryReplay_def)
  then show ?thesis using r(1) by (simp add: replay_def replayLoop.simps)
qed

text \<open>Recovery of a cut log.\<close>

lemma replay_cut:
  fixes rs :: "('e, 'p, 'x, 'v) wal_record list" and chk :: bool and k :: nat and databaseID :: database_id
  assumes P: "25 \<le> P" "P \<le> length (alloc P)" and ok: "\<forall>x \<in> set rs. fits P q bytes x"
  defines "enc \<equiv> \<lambda>x. frameEntry chk (bytes x)"
  defines "n \<equiv> completeRecords enc (k - length (headerBytes chk databaseID)) rs"
  assumes whole: "\<forall>x \<in> set (take n rs). \<not> isCheckpoint x" and page: "cutOnLastPage P chk databaseID enc rs k"
  shows "replay alloc P q app databaseID False chk (take k (headerBytes chk databaseID @ logBytes enc rs)) s =
    Some (bindR (foldR app (committedPrefix (take n rs)) s) (\<lambda>s. Inr (Replayed s
      (if committedPrefix (take n rs) = [] then [] else headerBytes chk databaseID @ logBytes enc (committedPrefix (take n rs))))))"
proof (cases "k < length (headerBytes chk databaseID)")
  case True
  have "enc x \<noteq> []" if "x \<in> set rs" for x using ok that by (simp add: enc_def fits_def frameEntry_def entryBytes_def)
  then have "n = 0" using True by (cases rs) (simp_all add: n_def)
  then show ?thesis using replay_cut_header [where alloc = alloc, OF P True] True by simp
next
  case False
  let ?h = "headerBytes chk databaseID" let ?log = "take k (?h @ logBytes enc rs)" and ?start = "length (?h @ logBytes enc (take n rs))"
  obtain garbage where g: "take (k - length ?h) (logBytes enc rs) = logBytes enc (take n rs) @ garbage"
      "garbage = [] \<or> (\<exists>x \<in> set rs. \<exists>missing. garbage @ missing = enc x \<and> missing \<noteq> [])"
    using cut_log [of "k - length ?h" enc rs] unfolding n_def by blast
  have log: "?log = ?h @ logBytes enc (take n rs) @ garbage" using False g(1) by simp
  have len: "length ?log = k" using page by (auto simp: cutOnLastPage_def)
  have torn: "\<exists>e. nextRecord alloc P chk q r = Inl e" if r: "log_at P ?log r ?start" and ne: "garbage \<noteq> []" for r
  proof -
    obtain x missing where x: "x \<in> set rs" "garbage @ missing = enc x" "missing \<noteq> []" using g(2) ne by blast
    have "?start < k" using len ne unfolding log by auto
    then have "on_last_page P (length ?log) ?start" using page len by (simp add: cutOnLastPage_def tornStart_def n_def)
    moreover have "drop ?start ?log @ missing = frameEntry chk (bytes x)" using x(2) unfolding log by (simp add: enc_def)
    ultimately show ?thesis using nextRecord_torn [OF r _ _ x(3), of chk "bytes x" q x alloc] ok x(1) by (auto simp: fits_def)
  qed
  have sub: "\<forall>x \<in> set (take n rs). fits P q bytes x \<and> \<not> isCheckpoint x" using ok whole by (meson in_set_takeD)
  have "17 \<le> P" using P(1) by simp
  then show ?thesis
    using replay_log [where alloc = alloc and q = q and rs = "take n rs" and bytes = bytes and chk = chk and databaseID = databaseID and garbage = garbage
        and log = ?log and app = app and s = s, OF _ P(2) sub] log torn unfolding enc_def [symmetric] by blast
qed

section \<open>Logs of transactions\<close>

text \<open>What the theorems require of a record: its parts can be serialized, and it has at most the bytes of a page.\<close>

definition loggable ::
  "nat \<Rightarrow> ('e \<Rightarrow> bool) \<Rightarrow> ('p \<Rightarrow> bool) \<Rightarrow> ('v \<Rightarrow> bool) \<Rightarrow> (('e, 'p, 'x, 'v) wal_record \<Rightarrow> u8 list) \<Rightarrow> ('e, 'p, 'x, 'v) wal_record \<Rightarrow> bool" where
  "loggable P vE vP vV bytes r \<longleftrightarrow> recordOk vE vP vV r \<and> length (bytes r) \<le> P \<and> \<not> isCheckpoint r"

lemma type_record_length: "r \<in> {BeginTransactionRecord, CommitRecord, CheckpointRecord} \<Longrightarrow> length (serializeRecord sE sP sV dbg r) \<le> 13"
  by (auto simp: serializeType_def writeTag_def writeDebuggingInfo_def serializeString_def serializeU64_def serializeU8_def tag_def)

lemma transaction_marks:
  assumes "25 \<le> P"
  shows "loggable P vE vP vV (serializeRecord sE sP sV dbg) BeginTransactionRecord" "loggable P vE vP vV (serializeRecord sE sP sV dbg) CommitRecord"
  using assms by (auto simp: loggable_def isCheckpoint_def simp del: serializeRecord.simps intro!: order_trans [OF type_record_length])

lemma completeRecords_asLogged: "(\<And>r. enc (asLogged r) = enc r) \<Longrightarrow> completeRecords enc k (map asLogged rs) = completeRecords enc k rs"
  by (induction rs arbitrary: k) simp_all

text \<open>Recovery of a cut log of any records.\<close>

lemma replay_cut_records:
  fixes sE :: "'e \<Rightarrow> u8 list" and sP :: "'p \<Rightarrow> u8 list" and sV :: "'v \<Rightarrow> u8 list" and rs :: "('e, 'p, 'x, 'v) wal_record list"
  assumes parts: "serializable sE (onList dE) vE" "serializable sP (onList dP) vP" "serializable sV (onList dV) vV"
    and P: "25 \<le> P" "P \<le> length (alloc P)" and ok: "\<forall>r \<in> set rs. loggable P vE vP vV (serializeRecord sE sP sV dbg) r"
    and page: "cutOnLastPage P chk databaseID (\<lambda>r. frameEntry chk (serializeRecord sE sP sV dbg r)) rs k"
  shows "replay alloc P (deserializeRecord dE dP dV dbg) app databaseID False chk
      (take k (headerBytes chk databaseID @ logBytes (\<lambda>r. frameEntry chk (serializeRecord sE sP sV dbg r)) rs)) s =
    (let survivors = committedPrefix (take (completeRecords (\<lambda>r. frameEntry chk (serializeRecord sE sP sV dbg r))
                       (k - length (headerBytes chk databaseID)) rs) rs) in
     Some (bindR (foldR app (map asLogged survivors) s) (\<lambda>s. Inr (Replayed s
       (if survivors = [] then []
        else headerBytes chk databaseID @ logBytes (\<lambda>r. frameEntry chk (serializeRecord sE sP sV dbg r)) survivors)))))"
proof -
  define enc where "enc = (\<lambda>r :: ('e, 'p, 'x, 'v) wal_record. frameEntry chk (serializeRecord sE sP sV dbg r))"
  let ?rs = "map asLogged rs" and ?n = "completeRecords enc (k - length (headerBytes chk databaseID)) rs"
  have same: "enc (asLogged r) = enc r" for r by (simp add: enc_def)
  note bytes = logBytes_asLogged [where enc = enc, OF same] completeRecords_asLogged [where enc = enc, OF same]
  have fits: "\<forall>x \<in> set ?rs. fits P (deserializeRecord dE dP dV dbg) (serializeRecord sE sP sV dbg) x"
    using ok P(1) by (auto simp: loggable_def intro!: fits_asLogged [OF parts])
  have "\<forall>x \<in> set (take (completeRecords enc (k - length (headerBytes chk databaseID)) ?rs) ?rs). \<not> isCheckpoint x"
    using ok by (auto simp: loggable_def dest!: in_set_takeD)
  moreover have "cutOnLastPage P chk databaseID enc ?rs k"
    using page by (simp add: cutOnLastPage_def tornStart_def bytes take_map flip: enc_def)
  ultimately have "replay alloc P (deserializeRecord dE dP dV dbg) app databaseID False chk (take k (headerBytes chk databaseID @ logBytes enc ?rs)) s =
    Some (bindR (foldR app (committedPrefix (take ?n ?rs)) s) (\<lambda>s. Inr (Replayed s
      (if committedPrefix (take ?n ?rs) = [] then [] else headerBytes chk databaseID @ logBytes enc (committedPrefix (take ?n ?rs))))))"
    using replay_cut [where alloc = alloc and bytes = "serializeRecord sE sP sV dbg" and chk = chk and databaseID = databaseID and k = k and app = app and s = s,
        OF P fits] unfolding enc_def [symmetric] bytes by blast
  then show ?thesis by (simp add: take_map committedPrefix_asLogged bytes Let_def flip: enc_def)
qed

text \<open>
  C8. A log survives a crash in the middle of a write. A log of any records of at most a page each that is cut off
  in its header, within a record or within the checksum of a record, where the torn record begins on the last page of
  what is left, is recovered to the state after the last transaction whose commit record is complete; every commit
  record that lies in the bytes that are left counts, and the log is cut back to it. This is for
  \<^verbatim>\<open>throwOnWalReplayFailure\<close> off; with it on, which is the default, a torn record is an error.
\<close>

theorem recovery_after_cut:
  assumes "serializable sE (onList dE) vE" "serializable sP (onList dP) vP" "serializable sV (onList dV) vV"
    and "25 \<le> P" "P \<le> length (alloc P)" "\<forall>r \<in> set rs. loggable P vE vP vV (serializeRecord sE sP sV dbg) r"
    and "cutOnLastPage P chk databaseID (\<lambda>r. frameEntry chk (serializeRecord sE sP sV dbg r)) rs k"
  shows "replay alloc P (deserializeRecord dE dP dV dbg) app databaseID False chk
      (take k (headerBytes chk databaseID @ logBytes (\<lambda>r. frameEntry chk (serializeRecord sE sP sV dbg r)) rs)) s =
    (let survivors = committedPrefix (take (completeRecords (\<lambda>r. frameEntry chk (serializeRecord sE sP sV dbg r))
                       (k - length (headerBytes chk databaseID)) rs) rs) in
     Some (bindR (foldR app (map asLogged survivors) s) (\<lambda>s. Inr (Replayed s
       (if survivors = [] then []
        else headerBytes chk databaseID @ logBytes (\<lambda>r. frameEntry chk (serializeRecord sE sP sV dbg r)) survivors)))))"
  using assms by (rule replay_cut_records [where alloc = alloc])

abbreviation exampleBytes :: "(u8 list, u64, nat, u32) wal_record \<Rightarrow> u8 list" where
  "exampleBytes \<equiv> serializeRecord serializeString serializeU64 serializeU32 False"

lemma example_lengths:
  "length (headerBytes True (1, 2)) = 25" "length (frameEntry True (exampleBytes (CopyTableRecord 4))) = 17"
  "length (frameEntry True (exampleBytes BeginTransactionRecord)) = 9" "length (frameEntry True (exampleBytes CommitRecord)) = 9"
  by (simp_all add: headerBytes_def writeDatabaseID_def serializeBool_def frameEntry_def entryBytes_def serializeCopyTable_def serializeType_def
      writeTag_def writeDebuggingInfo_def serializeU64_def serializeU8_def)

lemma example_loggable: "\<forall>r \<in> set exampleLog. loggable 4096 (\<lambda>s. length s < 2 ^ 64) (\<lambda>_. True) (\<lambda>_. True) exampleBytes r"
  by (simp add: exampleLog_def loggable_def isCheckpoint_def serializeCopyTable_def serializeType_def
      writeTag_def writeDebuggingInfo_def serializeU64_def serializeU8_def)

theorem recovery_after_cut_witness:
  "replay (\<lambda>n. replicate n 0) 4096 (deserializeRecord stringQ u64Q u32Q False) countRecords (1, 2) False True
      (take 62 (headerBytes True (1, 2) @ logBytes (\<lambda>r. frameEntry True (exampleBytes r)) exampleLog)) 0 =
    Some (Inr (Replayed 3 (headerBytes True (1, 2)
      @ logBytes (\<lambda>r. frameEntry True (exampleBytes r)) [BeginTransactionRecord, CopyTableRecord 4, CommitRecord])))"
proof -
  let ?enc = "\<lambda>r. frameEntry True (exampleBytes r)"
  have "take (completeRecords ?enc (62 - length (headerBytes True (1, 2))) exampleLog) exampleLog
      = [BeginTransactionRecord, CopyTableRecord 4, CommitRecord]"
    using example_lengths by (simp add: exampleLog_def del: serializeRecord.simps)
  moreover have "cutOnLastPage 4096 True (1, 2) ?enc exampleLog 62"
    using example_lengths by (simp add: cutOnLastPage_def on_last_page_def exampleLog_def del: serializeRecord.simps)
  ultimately show ?thesis
    using recovery_after_cut [where P = 4096 and alloc = "\<lambda>n. replicate n 0" and rs = exampleLog and chk = True and dbg = False and k = 62
        and databaseID = "(1, 2)" and app = countRecords and s = 0, OF part_contracts _ _ example_loggable]
    by (simp add: isCommit_def countRecords_def del: serializeRecord.simps logBytes_simps)
qed

section \<open>Durability\<close>

text \<open>
  C5. A committed transaction is durable. After any number of transactions has been logged to a new
  log file, each by its begin record, its records and its commit record, and a crash that leaves
  a part of what a further transaction would write behind, recovery replays exactly the
  records of the committed transactions, in the order of their commits, and restores the log file
  to what the commits wrote. The serializer may hand the records to the writers in any pieces. Records have at most the
  size of a page, the buffer of the checksum writer, and the record that the crash tears begins on the last page of
  the file. This is for \<^verbatim>\<open>throwOnWalReplayFailure\<close> off.
\<close>

theorem commits_are_durable:
  fixes sE :: "'e \<Rightarrow> u8 list" and sP :: "'p \<Rightarrow> u8 list" and sV :: "'v \<Rightarrow> u8 list" and torn :: "('e, 'p, 'x, 'v) wal_record list"
  assumes parts: "serializable sE (onList dE) vE" "serializable sP (onList dP) vP" "serializable sV (onList dV) vV"
    and P: "25 \<le> P" "P \<le> length (alloc P)" and split: "\<forall>bs. concat (split bs) = bs"
    and bodies: "bodies \<noteq> []" "\<forall>body \<in> set bodies. \<forall>r \<in> set body. loggable P vE vP vV (serializeRecord sE sP sV dbg) r"
    and torn: "\<forall>r \<in> set torn. loggable P vE vP vV (serializeRecord sE sP sV dbg) r \<and> \<not> isCommit r"
  shows "\<exists>w. foldR (commitTransaction alloc P (\<lambda>r. split (serializeRecord sE sP sV dbg r)) databaseID) bodies (emptyWal chk) = Inr w
    \<and> (\<forall>k. length (walContents w) \<le> k
         \<longrightarrow> cutOnLastPage P chk databaseID (\<lambda>r. frameEntry chk (serializeRecord sE sP sV dbg r)) (transactionRecords bodies @ torn) k
         \<longrightarrow> replay alloc P (deserializeRecord dE dP dV dbg) app databaseID False chk
              (take k (walContents w @ logBytes (\<lambda>r. frameEntry chk (serializeRecord sE sP sV dbg r)) torn)) s =
             Some (bindR (foldR app (map asLogged (transactionRecords bodies)) s) (\<lambda>s. Inr (Replayed s (walContents w)))))"
proof -
  define enc where "enc = (\<lambda>r :: ('e, 'p, 'x, 'v) wal_record. frameEntry chk (serializeRecord sE sP sV dbg r))"
  let ?rs = "transactionRecords bodies" and ?h = "headerBytes chk databaseID"
  have ok: "\<forall>r \<in> set (?rs @ torn). loggable P vE vP vV (serializeRecord sE sP sV dbg) r"
    using bodies(2) torn transaction_marks [OF P(1)] by (auto simp: transactionRecords_def)
  have P17: "17 \<le> P" using P(1) by simp
  have "\<forall>r \<in> set ?rs. length (concat (split (serializeRecord sE sP sV dbg r))) \<le> P" using ok split by (simp add: loggable_def)
  moreover have ne: "concat (split (serializeRecord sE sP sV dbg r)) \<noteq> []" for r :: "('e, 'p, 'x, 'v) wal_record"
    using split serializeRecord_nonempty by simp
  ultimately obtain w where w: "foldR (commitTransaction alloc P (\<lambda>r. split (serializeRecord sE sP sV dbg r)) databaseID) bodies (emptyWal chk) = Inr w"
      "walContents w = ?h @ logBytes enc ?rs"
    using commit_to_empty [where alloc = alloc and ser = "\<lambda>r. split (serializeRecord sE sP sV dbg r)" and databaseID = databaseID and chk = chk,
        OF P17 P(2) ne _ bodies(1)] split by (auto simp: enc_def)
  have "replay alloc P (deserializeRecord dE dP dV dbg) app databaseID False chk (take k (walContents w @ logBytes enc torn)) s =
      Some (bindR (foldR app (map asLogged ?rs) s) (\<lambda>s. Inr (Replayed s (walContents w))))"
    if k: "length (walContents w) \<le> k" "cutOnLastPage P chk databaseID enc (?rs @ torn) k" for k
  proof -
    let ?n = "completeRecords enc (k - length ?h) (?rs @ torn)"
    have "length ?rs \<le> ?n" using completeRecords_whole [of enc ?rs "k - length ?h" torn] k(1) w(2) by simp
    then have "take ?n (?rs @ torn) = ?rs @ take (?n - length ?rs) torn" by simp
    moreover have "\<forall>r \<in> set (take (?n - length ?rs) torn). \<not> isCommit r" using torn by (meson in_set_takeD)
    ultimately have "committedPrefix (take ?n (?rs @ torn)) = ?rs"
      using committedPrefix_last transactionRecords_last [OF bodies(1)] by metis
    then show ?thesis
      using replay_cut_records [where alloc = alloc and chk = chk and databaseID = databaseID and k = k and app = app and s = s, OF parts P ok] k(2) w(2)
        transactionRecords_last [OF bodies(1)] by (simp add: Let_def flip: enc_def)
  qed
  then show ?thesis using w(1) unfolding enc_def by blast
qed

theorem commits_are_durable_witness:
  "\<exists>w. foldR (commitTransaction (\<lambda>n. replicate n 0) 4096 (\<lambda>r. map (\<lambda>b. [b]) (exampleBytes r)) (1, 2)) [[CopyTableRecord 4], []] (emptyWal True) = Inr w
    \<and> replay (\<lambda>n. replicate n 0) 4096 (deserializeRecord stringQ u64Q u32Q False) countRecords (1, 2) False True
        (take 83 (walContents w @ logBytes (\<lambda>r. frameEntry True (exampleBytes r)) [BeginTransactionRecord])) 0 =
      Some (Inr (Replayed 5 (walContents w)))"
proof -
  let ?enc = "\<lambda>r. frameEntry True (exampleBytes r)" and ?bodies = "[[CopyTableRecord 4], []] :: (u8 list, u64, nat, u32) wal_record list list"
  let ?split = "map (\<lambda>b :: u8. [b])"
  have split: "\<forall>bs. concat (?split bs) = bs" by simp
  have bodies: "?bodies \<noteq> []" "\<forall>body \<in> set ?bodies. \<forall>r \<in> set body. loggable 4096 (\<lambda>s. length s < 2 ^ 64) (\<lambda>_. True) (\<lambda>_. True) exampleBytes r"
    and torn: "\<forall>r \<in> set [BeginTransactionRecord]. loggable 4096 (\<lambda>s. length s < 2 ^ 64) (\<lambda>_. True) (\<lambda>_. True) exampleBytes r \<and> \<not> isCommit r"
    using example_loggable by (simp_all add: exampleLog_def isCommit_def)
  obtain w where w: "foldR (commitTransaction (\<lambda>n. replicate n 0) 4096 (\<lambda>r. ?split (exampleBytes r)) (1, 2)) ?bodies (emptyWal True) = Inr w"
    "\<forall>k. length (walContents w) \<le> k \<longrightarrow> cutOnLastPage 4096 True (1, 2) ?enc (transactionRecords ?bodies @ [BeginTransactionRecord]) k \<longrightarrow>
       replay (\<lambda>n. replicate n 0) 4096 (deserializeRecord stringQ u64Q u32Q False) countRecords (1, 2) False True
         (take k (walContents w @ logBytes ?enc [BeginTransactionRecord])) 0 =
       Some (bindR (foldR countRecords (map asLogged (transactionRecords ?bodies)) 0) (\<lambda>s. Inr (Replayed s (walContents w))))"
    using commits_are_durable [where P = 4096 and alloc = "\<lambda>n. replicate n 0" and split = ?split and dbg = False and databaseID = "(1, 2)" and chk = True
        and app = countRecords and s = 0, OF part_contracts _ _ split bodies torn] by auto
  have "\<exists>w. foldR (commitTransaction (\<lambda>n. replicate n 0) 4096 (\<lambda>r. ?split (exampleBytes r)) (1, 2)) ?bodies (emptyWal True) = Inr w
    \<and> walContents w = headerBytes True (1, 2) @ logBytes (\<lambda>r. frameEntry True (concat (?split (exampleBytes r)))) (transactionRecords ?bodies)"
    using bodies transaction_marks [of 4096 _ _ _ serializeString serializeU64 serializeU32 False]
    by (intro commit_to_empty) (auto simp: transactionRecords_def loggable_def serializeRecord_nonempty simp del: serializeRecord.simps)
  then have contents: "walContents w = headerBytes True (1, 2) @ logBytes ?enc (transactionRecords ?bodies)" unfolding w(1) by simp
  have "cutOnLastPage 4096 True (1, 2) ?enc (transactionRecords ?bodies @ [BeginTransactionRecord]) 83" "length (walContents w) \<le> 83"
    using example_lengths by (simp_all add: contents cutOnLastPage_def on_last_page_def transactionRecords_def del: serializeRecord.simps)
  then show ?thesis using w by (auto simp: transactionRecords_def countRecords_def simp del: serializeRecord.simps)
qed

end
