(* ===== verification/Checkpointer.thy ===== *)
theory Checkpointer
  imports Shadow_File
begin

text \<open>
  The checkpointer (\<^verbatim>\<open>src/src/storage/checkpointer.cpp\<close>) with the parts of the storage
  manager that open the data file (\<^verbatim>\<open>src/src/storage/storage_manager.cpp\<close>): a checkpoint
  writes the catalog, the metadata with the free space and the header to shadow pages, applies them,
  and the next start of the database reads them again.

  The state \<open>cp_state\<close> holds what these operations change. The writes with which the
  catalog and the tables serialize themselves are the parameters \<open>catalogWrites\<close> and
  \<open>storageWrites\<close>, their readers \<open>deserC\<close> and \<open>deserT\<close>, and the checkpoint
  of the tables is the parameter \<open>checkpointStorage\<close>. An exception leaves no state, since the
  checkpoint is given up with it.
\<close>

section \<open>State\<close>

record cp_state =
  cpPages :: pm_state
  cpShadow :: shadow_file
  cpWal :: wal
  cpFile :: "u8 list"
  cpFrames :: frames
  cpHeader :: "database_header option"
  cpCatalogVersion :: u64

definition getOrInitDatabaseHeader :: "nat \<Rightarrow> bool \<Rightarrow> string \<Rightarrow> database_id \<Rightarrow> cp_state \<Rightarrow> (cp_state \<times> database_header) res" where
  "getOrInitDatabaseHeader P dbg build uuid st =
     (case cpHeader st of
        Some h \<Rightarrow> Inr (st, h)
      | None \<Rightarrow>
          bindR (readDatabaseHeader P dbg build (cpFile st)) (\<lambda>persistent.
          bindR (assertR (persistent = None)) (\<lambda>_.
          let h = createInitialHeader uuid in Inr (st\<lparr>cpHeader := Some h\<rparr>, h))))"

definition getOrInitDatabaseID :: "nat \<Rightarrow> bool \<Rightarrow> string \<Rightarrow> database_id \<Rightarrow> cp_state \<Rightarrow> (cp_state \<times> database_id) res" where
  "getOrInitDatabaseID P dbg build uuid st =
     bindR (getOrInitDatabaseHeader P dbg build uuid st) (\<lambda>(st, h). Inr (st, headerDatabaseID h))"

definition setDatabaseHeader :: "database_header \<Rightarrow> cp_state \<Rightarrow> cp_state res" where
  "setDatabaseHeader h st =
     bindR (assertR (case cpHeader st of None \<Rightarrow> True | Some old \<Rightarrow> headerDatabaseID h = headerDatabaseID old)) (\<lambda>_.
     Inr (st\<lparr>cpHeader := Some h\<rparr>))"

section \<open>Writing to shadow pages\<close>

text \<open>
  \<^verbatim>\<open>InMemFileWriter::flush\<close> to pages of the data file: the pages of the writer and then
  zeros up to the end of the range, each to the shadow version of its page.
\<close>

definition writeShadowPage :: "u8 list \<Rightarrow> u32 \<Rightarrow> u32 \<Rightarrow> u8 list \<Rightarrow> shadow_file \<Rightarrow> shadow_file res" where
  "writeShadowPage fresh fileIdx pageIdx contents sf =
     bindR (createShadowVersionIfNecessaryAndPinPage fresh pageIdx True fileIdx contents sf) (\<lambda>(sf, shadowPage).
     sh_setPage shadowPage contents True sf)"

definition mw_flushToPages :: "nat \<Rightarrow> u8 list \<Rightarrow> u32 \<Rightarrow> mem_writer \<Rightarrow> page_range \<Rightarrow> shadow_file \<Rightarrow> shadow_file res" where
  "mw_flushToPages P fresh fileIdx w allocatedPageRange sf =
     bindR (assertR (unat (numPages allocatedPageRange) \<ge> length (mpages w))) (\<lambda>_.
     foldR (\<lambda>i. writeShadowPage fresh fileIdx (startPageIdx allocatedPageRange + of_nat i)
                  (if i < length (mpages w) then mpages w ! i else replicate P 0))
       [0..<unat (numPages allocatedPageRange)] sf)"

definition mw_flushToAllocator :: "nat \<Rightarrow> u8 list \<Rightarrow> u32 \<Rightarrow> mem_writer \<Rightarrow> pm_state \<times> shadow_file \<Rightarrow> (page_range \<times> pm_state \<times> shadow_file) res" where
  "mw_flushToAllocator P fresh fileIdx w st =
     (let (ps, sf) = st in
      bindR (unlessThrown (allocatePageRange (of_nat (length (mpages w))) ps)) (\<lambda>(ps, pageRange).
      bindR (mw_flushToPages P fresh fileIdx w pageRange sf) (\<lambda>sf.
      Inr (pageRange, ps, sf))))"

section \<open>The steps of a checkpoint\<close>

definition serializeCatalog ::
  "nat \<Rightarrow> u8 list \<Rightarrow> u32 \<Rightarrow> u8 list list \<Rightarrow> pm_state \<times> shadow_file \<Rightarrow> (page_range \<times> pm_state \<times> shadow_file) res option" where
  "serializeCatalog P fresh fileIdx catalogWrites st =
     bindP (writeMany (mw_write P fresh) InMemFileWriter_new catalogWrites) (\<lambda>catalogWriter.
     Some (mw_flushToAllocator P fresh fileIdx catalogWriter st))"

text \<open>
  The pages for the free lists are allocated before the free lists, which the allocation changes,
  are written behind the rest of the metadata.
\<close>

definition serializeMetadata ::
  "nat \<Rightarrow> u8 list \<Rightarrow> bool \<Rightarrow> u32 \<Rightarrow> u8 list list \<Rightarrow> pm_state \<times> shadow_file \<Rightarrow> (page_range \<times> pm_state \<times> shadow_file) res option" where
  "serializeMetadata P fresh dbg fileIdx storageWrites st =
     (let (ps, sf) = st in
      bindP (writeMany (mw_write P fresh) InMemFileWriter_new storageWrites) (\<lambda>metadataWriter.
      bindP (getMaxNumPagesForSerialization (freeSpaceManager (fst ps))) (\<lambda>pagesForPageManager.
      bindP (Some (unlessThrown (allocatePageRange (of_nat (length (mpages metadataWriter)) + pagesForPageManager) ps))) (\<lambda>(ps, allocatedPages).
      bindP (fsm_serialize dbg (freeSpaceManager (fst ps))) (\<lambda>bytes.
      bindP (mw_write P fresh metadataWriter bytes) (\<lambda>metadataWriter.
      Some (bindR (mw_flushToPages P fresh fileIdx metadataWriter allocatedPages sf) (\<lambda>sf.
            Inr (allocatedPages, ps, sf)))))))))"

definition serializeCatalogAndMetadata ::
  "nat \<Rightarrow> u8 list \<Rightarrow> bool \<Rightarrow> u32 \<Rightarrow> u8 list list \<Rightarrow> u8 list list \<Rightarrow> bool \<Rightarrow> bool \<Rightarrow> database_header \<Rightarrow> pm_state \<times> shadow_file
    \<Rightarrow> (database_header \<times> pm_state \<times> shadow_file) res option" where
  "serializeCatalogAndMetadata P fresh dbg fileIdx catalogWrites storageWrites catalogChanged hasStorageChanges databaseHeader st =
     bindP (if startPageIdx (catalogPageRange databaseHeader) = INVALID_PAGE_IDX \<or> catalogChanged
            then bindP (serializeCatalog P fresh fileIdx catalogWrites st) (\<lambda>(r, ps, sf).
                 let (h, pm) = updateCatalogPageRange r databaseHeader (fst ps) in Some (Inr (h, (pm, snd ps), sf)))
            else Some (Inr (databaseHeader, st))) (\<lambda>(h, ps, sf).
     if startPageIdx (metadataPageRange h) = INVALID_PAGE_IDX \<or> hasStorageChanges \<or> catalogChanged \<or> changedSinceLastCheckpoint (fst ps)
     then bindP (serializeMetadata P fresh dbg fileIdx storageWrites ((freeMetadataPageRange h (fst ps), snd ps), sf)) (\<lambda>(r, ps, sf).
          Some (Inr (h\<lparr>metadataPageRange := r\<rparr>, ps, sf)))
     else Some (Inr (h, ps, sf)))"

text \<open>The header goes to the shadow version of the first page.\<close>

definition writeDatabaseHeader :: "nat \<Rightarrow> bool \<Rightarrow> string \<Rightarrow> u8 list \<Rightarrow> u32 \<Rightarrow> database_header \<Rightarrow> shadow_file \<Rightarrow> shadow_file res option" where
  "writeDatabaseHeader P dbg build fresh fileIdx header sf =
     bindP (mw_write P fresh InMemFileWriter_new (DatabaseHeader_serialize dbg build header)) (\<lambda>headerWriter.
     Some (bindR (nthR (mpages headerWriter) 0) (\<lambda>headerPage. writeShadowPage fresh fileIdx 0 headerPage sf)))"

text \<open>The last step: the shadow pages replace the pages of the data file.\<close>

definition logCheckpointAndApplyShadowPages ::
  "nat \<Rightarrow> (nat \<Rightarrow> u8 list) \<Rightarrow> (('e, 'p, 'x, 'v) wal_record \<Rightarrow> u8 list list) \<Rightarrow> u8 list \<Rightarrow> database_id \<Rightarrow> shadow_file \<times> wal \<times> u8 list \<times> frames
    \<Rightarrow> (shadow_file \<times> wal \<times> u8 list \<times> frames) res" where
  "logCheckpointAndApplyShadowPages P alloc ser fresh databaseID st =
     (let (sf, w, dataFile, fr) = st in
      bindR (flushAll P databaseID sf) (\<lambda>sf.
      bindR (logAndFlushCheckpoint alloc P ser databaseID w) (\<lambda>w.
      bindR (applyShadowPages P sf (dataFile, fr)) (\<lambda>(dataFile, fr).
      bindR (wal_clear w) (\<lambda>w.
      bindR (ShadowFile_clear fresh sf) (\<lambda>sf.
      Inr (sf, w, dataFile, fr)))))))"

text \<open>
  A whole checkpoint. Cleaning up the eviction queue of the buffer manager changes nothing that is
  modelled.
\<close>

definition writeCheckpoint ::
  "nat \<Rightarrow> bool \<Rightarrow> string \<Rightarrow> u8 list \<Rightarrow> u32 \<Rightarrow> bool \<Rightarrow> database_id \<Rightarrow> (nat \<Rightarrow> u8 list) \<Rightarrow> (('e, 'p, 'x, 'v) wal_record \<Rightarrow> u8 list list) \<Rightarrow> (cp_state \<Rightarrow> (cp_state \<times> bool) res)
    \<Rightarrow> u8 list list \<Rightarrow> u8 list list \<Rightarrow> cp_state \<Rightarrow> cp_state res option" where
  "writeCheckpoint P dbg build fresh fileIdx isInMemory uuid alloc ser checkpointStorage catalogWrites storageWrites st =
     (if isInMemory then Some (Inr st)
      else
        bindP (Some (getOrInitDatabaseHeader P dbg build uuid st)) (\<lambda>(st, databaseHeader).
        bindP (Some (checkpointStorage st)) (\<lambda>(st, hasStorageChanges).
        bindP (serializeCatalogAndMetadata P fresh dbg fileIdx catalogWrites storageWrites (cpCatalogVersion st \<noteq> 0) hasStorageChanges
                 databaseHeader (cpPages st, cpShadow st)) (\<lambda>(databaseHeader, ps, sf).
        bindP (writeDatabaseHeader P dbg build fresh fileIdx databaseHeader sf) (\<lambda>sf.
        Some (bindR (setDatabaseHeader databaseHeader st) (\<lambda>st.
              bindR (logCheckpointAndApplyShadowPages P alloc ser fresh (headerDatabaseID databaseHeader) (sf, cpWal st, cpFile st, cpFrames st)) (\<lambda>(sf, w, dataFile, fr).
              bindR (pm_finalizeCheckpoint ps) (\<lambda>ps.
              bindR (ShadowFile_reset sf) (\<lambda>sf.
              Inr (st\<lparr>cpPages := (resetVersion (fst ps), snd ps), cpShadow := sf, cpWal := wal_reset w,
                     cpFile := dataFile, cpFrames := fr, cpCatalogVersion := 0\<rparr>)))))))))))"

definition checkpointer_rollback :: "bool \<Rightarrow> cp_state \<Rightarrow> cp_state" where
  "checkpointer_rollback isInMemory st =
     (if isInMemory then st else st\<lparr>cpPages := (pm_rollbackCheckpoint (fst (cpPages st)), snd (cpPages st))\<rparr>)"

section \<open>Opening the data file\<close>

text \<open>
  \<^verbatim>\<open>initDataFileHandle\<close>: the handle of the data file with an empty page manager; an empty
  file gets its first page with a header. The frames of the handle are empty.
\<close>

definition initDataFileHandle ::
  "nat \<Rightarrow> bool \<Rightarrow> string \<Rightarrow> u8 list \<Rightarrow> database_id \<Rightarrow> bool \<Rightarrow> buffer_pool \<Rightarrow> cp_state \<Rightarrow> cp_state res option" where
  "initDataFileHandle P dbg build fresh uuid readOnly pool st =
     bindP (Some (unlessThrown (FileHandle_open (length (cpFile st)) pool))) (\<lambda>(pool, fh).
     let pm = \<lparr>freeSpaceManager = FreeSpaceManager_new, pmVersion = 0\<rparr>; st = st\<lparr>cpPages := (pm, fh, pool), cpFrames := \<lambda>_. None\<rparr> in
     if fhNumPages fh = 0 \<and> \<not> readOnly then
       bindP (Some (unlessThrown (allocatePageRange 1 (cpPages st)))) (\<lambda>(ps, _).
       bindP (Some (getOrInitDatabaseHeader P dbg build uuid (st\<lparr>cpPages := ps\<rparr>))) (\<lambda>(st, initialHeader).
       bindP (mw_write P fresh InMemFileWriter_new (DatabaseHeader_serialize dbg build initialHeader)) (\<lambda>headerWriter.
       Some (bindR (nthR (mpages headerWriter) 0) (\<lambda>headerPage. Inr (st\<lparr>cpFile := writeFile (cpFile st) 0 headerPage\<rparr>))))))
     else Some (Inr st))"

text \<open>Reading a checkpoint; \<open>db\<close> is an empty catalog with empty tables.\<close>

definition readCheckpoint ::
  "nat \<Rightarrow> bool \<Rightarrow> string \<Rightarrow> 'c reader \<Rightarrow> ('c \<Rightarrow> 't reader) \<Rightarrow> 'c \<times> 't \<Rightarrow> cp_state \<Rightarrow> (('c \<times> 't) \<times> cp_state) res" where
  "readCheckpoint P dbg build deserC deserT db st =
     bindR (DatabaseHeader_deserialize dbg build (cpFile st)) (\<lambda>(currentHeader, _).
     if startPageIdx (catalogPageRange currentHeader) \<noteq> INVALID_PAGE_IDX then
       bindR (deserC (drop (unat (startPageIdx (catalogPageRange currentHeader)) * P) (cpFile st))) (\<lambda>(catalog, _).
       bindR (bindD (deserT catalog) (\<lambda>tables.
              bindD (fsm_deserialize dbg (freeSpaceManager (fst (cpPages st)))) (\<lambda>fsm. returnD (tables, fsm)))
                (drop (unat (startPageIdx (metadataPageRange currentHeader)) * P) (cpFile st))) (\<lambda>((tables, fsm), _).
       bindR (setDatabaseHeader currentHeader (st\<lparr>cpPages := ((fst (cpPages st))\<lparr>freeSpaceManager := fsm\<rparr>, snd (cpPages st))\<rparr>)) (\<lambda>st.
       Inr ((catalog, tables), st))))
     else bindR (setDatabaseHeader currentHeader st) (\<lambda>st. Inr (db, st)))"

definition openCheckpoint ::
  "nat \<Rightarrow> bool \<Rightarrow> string \<Rightarrow> u8 list \<Rightarrow> database_id \<Rightarrow> bool \<Rightarrow> buffer_pool \<Rightarrow> 'c reader \<Rightarrow> ('c \<Rightarrow> 't reader) \<Rightarrow> 'c \<times> 't \<Rightarrow> cp_state
    \<Rightarrow> (('c \<times> 't) \<times> cp_state) res option" where
  "openCheckpoint P dbg build fresh uuid readOnly pool deserC deserT db st =
     bindP (initDataFileHandle P dbg build fresh uuid readOnly pool st) (\<lambda>st.
     Some (if fhNumPages (fst (snd (cpPages st))) > 0 then readCheckpoint P dbg build deserC deserT db st else Inr (db, st)))"

section \<open>Writing pages\<close>

lemma writeShadowPage_ok:
  assumes ok: "sf_ok P sf" "of_file f sf" and len: "length c = P" "length fresh = P" and room: "length (shadowPageRecords sf) < 2 ^ 32 - 2"
  shows "\<exists>sf'. writeShadowPage fresh f p c sf = Inr sf' \<and> sf_ok P sf' \<and> of_file f sf' \<and> overlay sf' = (overlay sf)((f, p) \<mapsto> c)
    \<and> length (shadowPageRecords sf') \<le> length (shadowPageRecords sf) + 1"
proof -
  obtain sf' where sf': "updatePage fresh f p True c (\<lambda>_. Inr c) sf = Inr sf'" "sf_ok P sf'" "overlay sf' = (overlay sf)((f, p) \<mapsto> c)"
    "length (shadowPageRecords sf') \<le> length (shadowPageRecords sf) + 1"
    using updatePage_ok [where updateOp = "\<lambda>_. Inr c" and f = f and p = p and skip = True and c = c, OF ok(1) len room] len(1) by auto
  moreover have "writeShadowPage fresh f p c sf = Inr sf'" using sf'(1) by (auto simp: updatePage_def writeShadowPage_def)
  moreover have "of_file f sf'" using updatePage_records [OF sf'(1)] ok(2) by (auto simp: of_file_def)
  ultimately show ?thesis by blast
qed

text \<open>The page of a range at a position.\<close>

definition pageAt :: "page_range \<Rightarrow> nat \<Rightarrow> u32" where
  "pageAt r i = startPageIdx r + of_nat i"

lemma unat_pageAt: "unat (startPageIdx r) + unat (numPages r) \<le> 2 ^ 32 \<Longrightarrow> i < unat (numPages r) \<Longrightarrow> unat (pageAt r i) = unat (startPageIdx r) + i"
  using unsigned_less [of "startPageIdx r", where ?'a = nat] by (simp add: pageAt_def unat_word_ariths unat_of_nat_32)

lemma writePages_ok:
  assumes ok: "sf_ok P sf" "of_file f sf" "length fresh = P" "\<forall>i. length (c i) = P"
    and room: "length (shadowPageRecords sf) + n < 2 ^ 32 - 1"
  shows "\<exists>sf'. foldR (\<lambda>i. writeShadowPage fresh f (pageAt r i) (c i)) [0..<n] sf = Inr sf' \<and> sf_ok P sf' \<and> of_file f sf'
    \<and> (\<forall>q. q \<notin> (\<lambda>i. (f, pageAt r i)) ` {..<n} \<longrightarrow> overlay sf' q = overlay sf q)
    \<and> (unat (startPageIdx r) + n \<le> 2 ^ 32 \<longrightarrow> (\<forall>i < n. overlay sf' (f, pageAt r i) = Some (c i)))
    \<and> length (shadowPageRecords sf') \<le> length (shadowPageRecords sf) + n"
  using room
proof (induction n)
  case 0
  then show ?case using ok by simp
next
  case (Suc n)
  then obtain sf1 where sf1: "foldR (\<lambda>i. writeShadowPage fresh f (pageAt r i) (c i)) [0..<n] sf = Inr sf1" "sf_ok P sf1" "of_file f sf1"
    "\<forall>q. q \<notin> (\<lambda>i. (f, pageAt r i)) ` {..<n} \<longrightarrow> overlay sf1 q = overlay sf q"
    "unat (startPageIdx r) + n \<le> 2 ^ 32 \<longrightarrow> (\<forall>i < n. overlay sf1 (f, pageAt r i) = Some (c i))"
    "length (shadowPageRecords sf1) \<le> length (shadowPageRecords sf) + n" by auto
  obtain sf' where sf': "writeShadowPage fresh f (pageAt r n) (c n) sf1 = Inr sf'" "sf_ok P sf'" "of_file f sf'"
    "overlay sf' = (overlay sf1)((f, pageAt r n) \<mapsto> c n)" "length (shadowPageRecords sf') \<le> length (shadowPageRecords sf1) + 1"
    using writeShadowPage_ok [OF sf1(2,3) ok(4) [rule_format] ok(3)] sf1(6) Suc.prems by fastforce
  have "overlay sf' (f, pageAt r i) = Some (c i)" if fits: "unat (startPageIdx r) + Suc n \<le> 2 ^ 32" and i: "i < Suc n" for i
  proof (cases "i = n")
    case False
    have "i < 2 ^ 32" "n < 2 ^ 32" using fits i by auto
    then have "pageAt r i \<noteq> pageAt r n" using False unat_of_nat_32 [of i] unat_of_nat_32 [of n] by (auto simp: pageAt_def)
    then show ?thesis using sf1(5) sf'(4) False i fits by simp
  qed (simp add: sf'(4))
  moreover have "overlay sf' q = overlay sf q" if "q \<notin> (\<lambda>i. (f, pageAt r i)) ` {..<Suc n}" for q
    using that sf1(4) [rule_format, of q] sf'(4) by (cases q) (auto simp: lessThan_Suc)
  moreover have "foldR (\<lambda>i. writeShadowPage fresh f (pageAt r i) (c i)) [0..<Suc n] sf = Inr sf'" using sf1(1) sf'(1) by (simp add: foldR_append)
  moreover have "length (shadowPageRecords sf') \<le> length (shadowPageRecords sf) + Suc n" using sf1(6) sf'(5) by simp
  ultimately show ?case using sf'(2,3) by blast
qed

text \<open>The contents a writer puts on the pages of a range.\<close>

definition pageContents :: "nat \<Rightarrow> mem_writer \<Rightarrow> nat \<Rightarrow> u8 list" where
  "pageContents P w i = (if i < length (mpages w) then mpages w ! i else replicate P 0)"

lemma mw_flushToPages_ok:
  assumes ok: "sf_ok P sf" "of_file f sf" "length fresh = P" "mw_ok P w" and r: "length (mpages w) \<le> unat (numPages r)"
    and room: "length (shadowPageRecords sf) + unat (numPages r) < 2 ^ 32 - 1"
  shows "\<exists>sf'. mw_flushToPages P fresh f w r sf = Inr sf' \<and> sf_ok P sf' \<and> of_file f sf'
    \<and> (\<forall>q. q \<notin> (\<lambda>i. (f, pageAt r i)) ` {..<unat (numPages r)} \<longrightarrow> overlay sf' q = overlay sf q)
    \<and> (unat (startPageIdx r) + unat (numPages r) \<le> 2 ^ 32 \<longrightarrow>
        (\<forall>i < unat (numPages r). overlay sf' (f, pageAt r i) = Some (pageContents P w i)))
    \<and> length (shadowPageRecords sf') \<le> length (shadowPageRecords sf) + unat (numPages r)"
proof -
  have "\<forall>i. length (pageContents P w i) = P" using ok(4) by (simp add: pageContents_def mw_ok_def)
  from writePages_ok [OF ok(1-3) this room, of r] show ?thesis
    using r by (simp add: mw_flushToPages_def pageContents_def pageAt_def)
qed

text \<open>Reading a range of pages from a file.\<close>

lemma read_pages:
  assumes "\<forall>i < n. readFromFile file P ((s + i) * P) = Inr (c i)"
  shows "\<exists>rest. drop (s * P) file = concat (map c [0..<n]) @ rest"
  using assms
proof (induction n)
  case (Suc n)
  then obtain rest where rest: "drop (s * P) file = concat (map c [0..<n]) @ rest" by auto
  have len: "length (c i) = P" if "i < Suc n" for i using Suc.prems [rule_format, OF that] by (simp add: readFromFile_iff)
  have "map (length \<circ> c) [0..<n] = replicate n P" using len by (auto intro!: nth_equalityI)
  then have "length (concat (map c [0..<n])) = n * P" by (simp add: length_concat sum_list_replicate)
  then have "drop ((s + n) * P) file = rest" using rest by (metis append_eq_conv_conj add_mult_distrib add.commute drop_drop)
  moreover have "take P (drop ((s + n) * P) file) = c n" using Suc.prems by (auto simp: readFromFile_def)
  ultimately have "rest = c n @ drop P rest" by (metis append_take_drop_id)
  then show ?case using rest by auto
qed simp

lemma concat_pages:
  assumes "mw_ok P w" "length (mpages w) \<le> n"
  shows "\<exists>rest. concat (map (pageContents P w) [0..<n]) = mw_content w @ rest"
proof -
  have "map (pageContents P w) [0..<n] = mpages w @ replicate (n - length (mpages w)) (replicate P 0)"
    using assms(2) by (intro nth_equalityI) (auto simp: pageContents_def nth_append)
  moreover have "\<exists>rest. concat (mpages w) = mw_content w @ rest"
  proof (cases "mpages w = []")
    case False
    then have "concat (mpages w) = concat (butlast (mpages w)) @ last (mpages w)" by (metis append_butlast_last_id concat_append concat.simps append_Nil2)
    also have "\<dots> = mw_content w @ drop (mpageOffset w) (last (mpages w))" by (simp add: mw_content_def)
    finally show ?thesis by blast
  qed (use assms(1) in \<open>simp add: mw_content_def mw_ok_def\<close>)
  ultimately show ?thesis by auto
qed

section \<open>What a checkpoint stores\<close>

text \<open>The new versions of the pages of a range hold some bytes.\<close>

definition holds :: "u32 \<Rightarrow> shadow_file \<Rightarrow> page_range \<Rightarrow> u8 list \<Rightarrow> bool" where
  "holds f sf r bs \<longleftrightarrow> (\<exists>c rest. (\<forall>i < unat (numPages r). overlay sf (f, pageAt r i) = Some (c i))
     \<and> concat (map c [0..<unat (numPages r)]) = bs @ rest)"

text \<open>
  Storing bytes on newly allocated pages: the pages were not in use, they hold the bytes, and no
  other page has got a new version.
\<close>

definition stores :: "u32 \<Rightarrow> u8 list \<Rightarrow> nat \<Rightarrow> pm_state \<times> shadow_file \<Rightarrow> page_range \<times> pm_state \<times> shadow_file \<Rightarrow> bool" where
  "stores f bs n st st' \<longleftrightarrow>
     (let (ps, sf) = st; (r, ps', sf') = st' in
      space_ok (pmSpace ps') \<and> sf_ok 4096 sf' \<and> of_file f sf' \<and> entry_ok r
      \<and> pagesOf r \<inter> usedPages (pmSpace ps) = {} \<and> usedPages (pmSpace ps') = usedPages (pmSpace ps) \<union> pagesOf r
      \<and> holds f sf' r bs \<and> (\<forall>p. unat p \<notin> pagesOf r \<longrightarrow> overlay sf' (f, p) = overlay sf (f, p))
      \<and> length (shadowPageRecords sf') \<le> length (shadowPageRecords sf) + n)"

lemma allocate_fits:
  assumes ok: "space_ok (pmSpace ps)" and alloc: "allocatePageRange n ps = (ps', Inr r)" and n: "0 < n"
  shows "space_ok (pmSpace ps')" "numPages r = n" "entry_ok r" "pagesOf r \<inter> usedPages (pmSpace ps) = {}"
    "usedPages (pmSpace ps') = usedPages (pmSpace ps) \<union> pagesOf r"
proof -
  have ref: "space_ok (pmSpace ps')" "alloc_spec (pmAbs ps) (Allocated n r) (pmAbs ps')" using allocate_refines [OF ok alloc] by blast+
  then show "space_ok (pmSpace ps')" by simp
  show r: "numPages r = n" and used: "pagesOf r \<inter> usedPages (pmSpace ps) = {}" "usedPages (pmSpace ps') = usedPages (pmSpace ps) \<union> pagesOf r"
    using ref(2) by (auto simp: pmAbs_def elim: alloc_spec.cases)
  have "pagesOf r \<subseteq> {..<unat (fhNumPages (fst (snd ps')))}" using used(2) by (auto simp: usedPages_def filePages_def pmSpace_def)
  moreover have "unat (startPageIdx r) + unat (numPages r) - 1 \<in> pagesOf r" "0 < unat (numPages r)"
    using r n by (auto simp: pagesOf_def word_less_nat_alt)
  ultimately have "unat (startPageIdx r) + unat (numPages r) \<le> unat (fhNumPages (fst (snd ps')))" by force
  also have "\<dots> < 2 ^ 32" using unsigned_less [of "fhNumPages (fst (snd ps'))", where ?'a = nat] by simp
  finally show "entry_ok r" using r n by (simp add: entry_ok_def)
qed

lemma flushed_stores:
  assumes ps: "space_ok (pmSpace ps)" "allocatePageRange n ps = (ps', Inr r)" "0 < n"
    and sf: "sf_ok 4096 sf" "of_file f sf" "length fresh = 4096" and w: "mw_ok 4096 w" "mw_content w = bs" "length (mpages w) \<le> unat n"
    and room: "length (shadowPageRecords sf) + unat n < 2 ^ 32 - 1"
  shows "\<exists>sf'. mw_flushToPages 4096 fresh f w r sf = Inr sf' \<and> stores f bs (unat n) (ps, sf) (r, ps', sf')"
proof -
  note r = allocate_fits [OF ps]
  have bound: "unat (startPageIdx r) + unat (numPages r) \<le> 2 ^ 32" using r(3) by (simp add: entry_ok_def)
  obtain sf' where sf': "mw_flushToPages 4096 fresh f w r sf = Inr sf'" "sf_ok 4096 sf'" "of_file f sf'"
    "\<forall>q. q \<notin> (\<lambda>i. (f, pageAt r i)) ` {..<unat n} \<longrightarrow> overlay sf' q = overlay sf q"
    "\<forall>i < unat n. overlay sf' (f, pageAt r i) = Some (pageContents 4096 w i)"
    "length (shadowPageRecords sf') \<le> length (shadowPageRecords sf) + unat n"
    using mw_flushToPages_ok [OF sf w(1), of r] w(3) room bound unfolding r(2) by blast
  have "overlay sf' (f, p) = overlay sf (f, p)" if p: "unat p \<notin> pagesOf r" for p
  proof -
    have "p \<noteq> pageAt r i" if "i < unat n" for i using unat_pageAt [OF bound, of i] that p r(2) by (auto simp: pagesOf_def)
    then show ?thesis using sf'(4) by auto
  qed
  moreover obtain rest where "concat (map (pageContents 4096 w) [0..<unat n]) = bs @ rest" using concat_pages [OF w(1,3)] w(2) by blast
  then have "holds f sf' r bs" using sf'(5) unfolding holds_def r(2) by blast
  ultimately show ?thesis using sf' r by (simp add: stores_def)
qed

text \<open>An operation that fails only where the frames for new pages are exhausted.\<close>

definition unless_no_pages :: "'a res option \<Rightarrow> ('a \<Rightarrow> bool) \<Rightarrow> bool" where
  "unless_no_pages m Q \<longleftrightarrow>
     (case m of None \<Rightarrow> False | Some (Inl e) \<Rightarrow> e = noFrameGroups | Some (Inr x) \<Rightarrow> Q x)"

lemma unless_no_pages_Inr [simp]: "unless_no_pages (Some (Inr x)) Q \<longleftrightarrow> Q x"
  by (simp add: unless_no_pages_def)

lemma unless_no_pages_alloc:
  assumes "space_ok (pmSpace ps)" "\<And>ps' r. allocatePageRange n ps = (ps', Inr r) \<Longrightarrow> unless_no_pages (f (ps', r)) R"
  shows "unless_no_pages (bindP (Some (unlessThrown (allocatePageRange n ps))) f) R"
proof (cases "allocatePageRange n ps")
  case (Pair ps' res)
  show ?thesis
  proof (cases res)
    case (Inl e)
    then have "e = noFrameGroups" using allocate_error [OF assms(1)] Pair by simp
    then show ?thesis using Pair Inl by (simp add: unless_no_pages_def)
  qed (use Pair assms(2) in simp)
qed

lemma unless_no_pages_bind:
  assumes "unless_no_pages m Q" "\<And>x. Q x \<Longrightarrow> unless_no_pages (f x) R"
  shows "unless_no_pages (bindP m f) R"
proof (cases m)
  case (Some r)
  then show ?thesis using assms by (cases r) (auto simp: unless_no_pages_def)
qed (use assms in \<open>simp add: unless_no_pages_def\<close>)

lemma bindP_assoc: "bindP (bindP m f) g = bindP m (\<lambda>x. bindP (f x) g)"
  by (simp add: bindP_def split: option.splits sum.splits)

lemma Some_bindR: "Some (bindR m f) = bindP (Some m) (\<lambda>x. Some (f x))"
  by (cases m) simp_all

lemma unless_no_pages_mono: "unless_no_pages m Q \<Longrightarrow> (\<And>x. Q x \<Longrightarrow> R x) \<Longrightarrow> unless_no_pages m R"
  by (auto simp: unless_no_pages_def split: option.splits sum.splits)

lemma writer_ok:
  assumes "length fresh = 4096" "length (concat bss) \<le> n * 4096"
  shows "\<exists>w. writeMany (mw_write 4096 fresh) InMemFileWriter_new bss = Some (Inr w) \<and> mw_ok 4096 w \<and> mw_content w = concat bss
    \<and> length (mpages w) \<le> n \<and> (concat bss \<noteq> [] \<longrightarrow> mpages w \<noteq> [])"
proof -
  have page: "page_size 4096 fresh" using assms(1) by unfold_locales simp_all
  have new: "mw_ok 4096 InMemFileWriter_new" by (simp add: mw_ok_def InMemFileWriter_new_def)
  obtain w where w: "writeMany (mw_write 4096 fresh) InMemFileWriter_new bss = Some (Inr w)" "mw_ok 4096 w" "mw_content w = concat bss"
    using page_size.mem_writer_stores [OF page] by blast
  moreover have "length (mpages w) \<le> n"
    using page_size.mem_writer_pages [OF page new assms(2)] w(1) by (simp add: InMemFileWriter_new_def)
  moreover have "mpages w = [] \<Longrightarrow> mw_content w = []" using w(2) by (simp add: mw_ok_def mw_content_def)
  ultimately show ?thesis by auto
qed

lemma serializeCatalog_ok:
  assumes ps: "space_ok (pmSpace ps)" and sf: "sf_ok 4096 sf" "of_file f sf" "length fresh = 4096"
    and bytes: "length (concat catalogWrites) \<le> 2 ^ 30 * 4096" "concat catalogWrites \<noteq> []" and room: "length (shadowPageRecords sf) < 2 ^ 31"
  shows "unless_no_pages (serializeCatalog 4096 fresh f catalogWrites (ps, sf)) (stores f (concat catalogWrites) (2 ^ 30) (ps, sf))"
proof -
  obtain w where w: "writeMany (mw_write 4096 fresh) InMemFileWriter_new catalogWrites = Some (Inr w)" "mw_ok 4096 w" "mw_content w = concat catalogWrites"
    "length (mpages w) \<le> 2 ^ 30" "mpages w \<noteq> []" using writer_ok [OF sf(3) bytes(1)] bytes(2) by blast
  let ?n = "of_nat (length (mpages w)) :: u32"
  have n: "unat ?n = length (mpages w)" using w(4) by (intro unat_of_nat_32) simp
  have pos: "0 < ?n" using w(5) n by (simp add: word_less_nat_alt)
  have "unless_no_pages (Some (bindR (mw_flushToPages 4096 fresh f w r sf) (\<lambda>sf. Inr (r, ps', sf)))) (stores f (concat catalogWrites) (2 ^ 30) (ps, sf))"
    if alloc: "allocatePageRange ?n ps = (ps', Inr r)" for ps' r
  proof -
    obtain sf' where "mw_flushToPages 4096 fresh f w r sf = Inr sf'" "stores f (concat catalogWrites) (unat ?n) (ps, sf) (r, ps', sf')"
      using flushed_stores [OF ps alloc pos sf w(2,3)] n w(4) room by auto
    then show ?thesis using w(4) n by (auto simp: stores_def)
  qed
  then have "unless_no_pages (bindP (Some (unlessThrown (allocatePageRange ?n ps))) (\<lambda>(ps, r).
      Some (bindR (mw_flushToPages 4096 fresh f w r sf) (\<lambda>sf. Inr (r, ps, sf))))) (stores f (concat catalogWrites) (2 ^ 30) (ps, sf))"
    by (intro unless_no_pages_alloc [OF ps]) simp
  then show ?thesis using w(1) by (simp add: serializeCatalog_def mw_flushToAllocator_def Some_bindR split_def)
qed

lemma fsm_serialize_length:
  assumes "fsm_ok fsm"
  shows "\<exists>bytes. fsm_serialize dbg fsm = Some (Inr bytes) \<and> length bytes \<le> 61 + 8 * length (storedEntries fsm) \<and> bytes \<noteq> []"
proof -
  have body: "length (concat (map (\<lambda>e. serializeU32 (startPageIdx e) @ serializeU32 (numPages e)) es)) = 8 * length es" for es
    by (induction es) (simp_all add: serializeU32_def)
  have tag: "length (writeTag dbg s) \<le> 8 + length s" for s
    by (simp add: writeTag_def writeDebuggingInfo_def serializeString_def serializeU64_def tag_def)
  have "serializeU64 x \<noteq> []" for x by (simp add: serializeU64_def flip: length_0_conv)
  then show ?thesis
    unfolding fsm_serialize_value [OF assms, of dbg]
    using tag [of "''page_manager''"] tag [of "''numEntries''"] tag [of "''entries''"] body [of "storedEntries fsm"]
    by (simp add: serializeU64_def)
qed

lemma serializeMetadata_ok:
  assumes ps: "space_ok (pmSpace ps)" and sf: "sf_ok 4096 sf" "of_file f sf" "length fresh = 4096"
    and size: "length (concat storageWrites) \<le> 2 ^ 30 * 4096" and room: "length (shadowPageRecords sf) < 2 ^ 31"
  shows "unless_no_pages (serializeMetadata 4096 fresh dbg f storageWrites (ps, sf)) (\<lambda>(r, ps', sf').
    \<exists>bytes. fsm_serialize dbg (freeSpaceManager (fst ps')) = Some (Inr bytes) \<and> stores f (concat storageWrites @ bytes) (2 ^ 30 + 2 ^ 24) (ps, sf) (r, ps', sf'))"
    (is "unless_no_pages _ ?Q")
proof -
  let ?fsm = "freeSpaceManager (fst ps)"
  obtain w where w: "writeMany (mw_write 4096 fresh) InMemFileWriter_new storageWrites = Some (Inr w)" "mw_ok 4096 w" "mw_content w = concat storageWrites"
    "length (mpages w) \<le> 2 ^ 30" using writer_ok [OF sf(3) size] by blast
  obtain k where k: "getMaxNumPagesForSerialization ?fsm = Some (Inr k)" "61 + 8 * length (storedEntries ?fsm) \<le> unat k * 4096" "unat k < 2 ^ 24"
    using estimate_ok [of ?fsm "snd ps"] ps by (auto simp: pmSpace_def)
  let ?n = "of_nat (length (mpages w)) + k"
  have n: "unat ?n = length (mpages w) + unat k" using w(4) k(3) unat_of_nat_32 [of "length (mpages w)"] by (simp add: unat_word_ariths)
  have "0 < unat k" using k(2) by (cases "unat k") auto
  then have pos: "0 < ?n" using n unfolding word_less_nat_alt by simp
  have "unless_no_pages (bindP (fsm_serialize dbg (freeSpaceManager (fst ps'))) (\<lambda>bytes. bindP (mw_write 4096 fresh w bytes) (\<lambda>w.
      Some (bindR (mw_flushToPages 4096 fresh f w r sf) (\<lambda>sf. Inr (r, ps', sf)))))) ?Q"
    if alloc: "allocatePageRange ?n ps = (ps', Inr r)" for ps' r
  proof -
    let ?fsm' = "freeSpaceManager (fst ps')"
    obtain bytes where bytes: "fsm_serialize dbg ?fsm' = Some (Inr bytes)" "length bytes \<le> 61 + 8 * length (storedEntries ?fsm')"
      using fsm_serialize_length allocate_fits(1) [OF ps alloc pos] by (fastforce simp: space_ok_def pmSpace_def)
    have page: "page_size 4096 fresh" using sf(3) by unfold_locales simp_all
    have "length (concat [bytes]) \<le> unat k * 4096" using bytes(2) allocate_length [OF alloc] k(2) by simp
    then obtain w' where w': "writeMany (mw_write 4096 fresh) w [bytes] = Some (Inr w')" "length (mpages w') \<le> unat ?n"
      using page_size.mem_writer_pages [OF page w(2), of "[bytes]" "unat k"] unfolding n by blast
    have "mw_ok 4096 w'" "mw_content w' = concat storageWrites @ bytes"
      using page_size.mem_writer_fills [OF page w(2), of "[bytes]"] w'(1) w(3) by auto
    from flushed_stores [OF ps alloc pos sf this w'(2)] obtain sf' where
      "mw_flushToPages 4096 fresh f w' r sf = Inr sf'" "stores f (concat storageWrites @ bytes) (unat ?n) (ps, sf) (r, ps', sf')"
      using n w(4) k(3) room by auto
    moreover have "mw_write 4096 fresh w bytes = Some (Inr w')" using w'(1) by (auto split: option.splits sum.splits)
    ultimately show ?thesis using bytes(1) n w(4) k(3) by (auto simp: stores_def)
  qed
  then have "unless_no_pages (bindP (Some (unlessThrown (allocatePageRange ?n ps))) (\<lambda>(ps, r).
      bindP (fsm_serialize dbg (freeSpaceManager (fst ps))) (\<lambda>bytes. bindP (mw_write 4096 fresh w bytes) (\<lambda>w.
      Some (bindR (mw_flushToPages 4096 fresh f w r sf) (\<lambda>sf. Inr (r, ps, sf))))))) ?Q"
    by (intro unless_no_pages_alloc [OF ps]) (simp only: prod.case)
  then show ?thesis using w(1) k(1) by (simp add: serializeMetadata_def)
qed



section \<open>A checkpoint is read back\<close>

text \<open>The ranges of a header are pages in use, without the page of the header itself.\<close>

definition header_ok :: "database_header \<Rightarrow> pm_state \<Rightarrow> bool" where
  "header_ok h ps \<longleftrightarrow> (\<forall>r \<in> {catalogPageRange h, metadataPageRange h}. (startPageIdx r \<noteq> INVALID_PAGE_IDX \<longrightarrow> entry_ok r)
       \<and> pagesOf r \<subseteq> usedPages (pmSpace ps) - {0})
     \<and> pagesOf (catalogPageRange h) \<inter> pagesOf (metadataPageRange h) = {} \<and> 0 \<in> usedPages (pmSpace ps)"

lemma free_range:
  assumes "space_ok (pmSpace ps)" "startPageIdx r \<noteq> INVALID_PAGE_IDX \<longrightarrow> entry_ok r" "pagesOf r \<subseteq> usedPages (pmSpace ps)"
    and "ps' = (if startPageIdx r \<noteq> INVALID_PAGE_IDX then freePageRange r (fst ps) else fst ps, snd ps)"
  shows "space_ok (pmSpace ps')" "usedPages (pmSpace ps) - pagesOf r \<subseteq> usedPages (pmSpace ps')"
proof -
  have "space_ok (pmSpace ps') \<and> usedPages (pmSpace ps) - pagesOf r \<subseteq> usedPages (pmSpace ps')"
  proof (cases "startPageIdx r = INVALID_PAGE_IDX")
    case False
    then have "space_ok (pmSpace (freePageRange r (fst ps), snd ps))" "alloc_spec (pmAbs ps) (Freed r) (pmAbs (freePageRange r (fst ps), snd ps))"
      using free_refines [OF assms(1)] assms(2,3) by blast+
    then show ?thesis using False assms(4) by (auto simp: pmAbs_def elim: alloc_spec.cases)
  qed (use assms in auto)
  then show "space_ok (pmSpace ps')" "usedPages (pmSpace ps) - pagesOf r \<subseteq> usedPages (pmSpace ps')" by blast+
qed

lemma holds_other:
  assumes "holds f sf r bs" "entry_ok r" "\<forall>p. unat p \<in> pagesOf r \<longrightarrow> overlay sf' (f, p) = overlay sf (f, p)"
  shows "holds f sf' r bs"
proof -
  have "overlay sf' (f, pageAt r i) = overlay sf (f, pageAt r i)" if "i < unat (numPages r)" for i
    using assms(2,3) unat_pageAt [of r i] that by (simp add: entry_ok_def pagesOf_def)
  then show ?thesis using assms(1) unfolding holds_def by simp
qed

lemma serializeCatalogAndMetadata_ok:
  assumes ps: "space_ok (pmSpace ps)" "header_ok h ps" and sf: "sf_ok 4096 sf" "of_file f sf" "length fresh = 4096" "length (shadowPageRecords sf) < 2 ^ 29"
    and bytes: "length (concat catalogWrites) \<le> 2 ^ 30 * 4096" "concat catalogWrites \<noteq> []" "length (concat storageWrites) \<le> 2 ^ 30 * 4096"
  shows "unless_no_pages (serializeCatalogAndMetadata 4096 fresh dbg f catalogWrites storageWrites True changed h (ps, sf)) (\<lambda>(h', ps', sf').
    headerDatabaseID h' = headerDatabaseID h \<and> space_ok (pmSpace ps') \<and> header_ok h' ps' \<and> sf_ok 4096 sf' \<and> of_file f sf'
    \<and> entry_ok (catalogPageRange h') \<and> entry_ok (metadataPageRange h')
    \<and> length (shadowPageRecords sf') < 2 ^ 32 - 2 \<and> holds f sf' (catalogPageRange h') (concat catalogWrites)
    \<and> (\<exists>bytes. fsm_serialize dbg (freeSpaceManager (fst ps')) = Some (Inr bytes)
        \<and> holds f sf' (metadataPageRange h') (concat storageWrites @ bytes)))" (is "unless_no_pages _ ?Q")
proof -
  have old: "pagesOf (catalogPageRange h) \<subseteq> usedPages (pmSpace ps) - {0}" "pagesOf (metadataPageRange h) \<subseteq> usedPages (pmSpace ps) - {0}"
    "startPageIdx (catalogPageRange h) \<noteq> INVALID_PAGE_IDX \<longrightarrow> entry_ok (catalogPageRange h)"
    "startPageIdx (metadataPageRange h) \<noteq> INVALID_PAGE_IDX \<longrightarrow> entry_ok (metadataPageRange h)"
    "pagesOf (catalogPageRange h) \<inter> pagesOf (metadataPageRange h) = {}" "0 \<in> usedPages (pmSpace ps)"
    using ps(2) by (auto simp: header_ok_def)
  have step: "unless_no_pages (bindP (serializeMetadata 4096 fresh dbg f storageWrites
      ((freeMetadataPageRange h1 (fst ps2), snd ps2), sf1)) (\<lambda>(r, ps, sf). Some (Inr (h1\<lparr>metadataPageRange := r\<rparr>, ps, sf)))) ?Q"
    if st: "stores f (concat catalogWrites) (2 ^ 30) (ps, sf) (r1, ps1, sf1)" and h1: "h1 = h\<lparr>catalogPageRange := r1\<rparr>"
      and ps2: "ps2 = (if startPageIdx (catalogPageRange h) \<noteq> INVALID_PAGE_IDX then freePageRange (catalogPageRange h) (fst ps1) else fst ps1, snd ps1)"
    for r1 ps1 sf1 h1 ps2
  proof -
    have r1: "space_ok (pmSpace ps1)" "sf_ok 4096 sf1" "of_file f sf1" "entry_ok r1" "pagesOf r1 \<inter> usedPages (pmSpace ps) = {}"
      "usedPages (pmSpace ps1) = usedPages (pmSpace ps) \<union> pagesOf r1" "holds f sf1 r1 (concat catalogWrites)"
      "length (shadowPageRecords sf1) < 2 ^ 29 + 2 ^ 30" using st sf(4) by (auto simp: stores_def)
    have "pagesOf (catalogPageRange h) \<subseteq> usedPages (pmSpace ps1)" using old(1) r1(6) by blast
    note u2 = free_range [OF r1(1) old(3) this ps2]
    define ps3 where "ps3 = (freeMetadataPageRange h1 (fst ps2), snd ps2)"
    have m: "metadataPageRange h1 = metadataPageRange h" using h1 by simp
    have "pagesOf (metadataPageRange h) \<subseteq> usedPages (pmSpace ps2)" using u2(2) old(2,5) r1(6) by blast
    moreover have "ps3 = (if startPageIdx (metadataPageRange h) \<noteq> INVALID_PAGE_IDX then freePageRange (metadataPageRange h) (fst ps2) else fst ps2, snd ps2)"
      by (simp add: ps3_def freeMetadataPageRange_def m)
    ultimately have u3: "space_ok (pmSpace ps3)" "usedPages (pmSpace ps2) - pagesOf (metadataPageRange h) \<subseteq> usedPages (pmSpace ps3)"
      using free_range [OF u2(1) old(4)] by blast+
    have in3: "insert 0 (pagesOf r1) \<subseteq> usedPages (pmSpace ps3)" "0 \<notin> pagesOf r1" using u3(2) u2(2) r1(5,6) old(1,2,6) by blast+
    have "?Q (h1\<lparr>metadataPageRange := r\<rparr>, ps', sf')"
      if m': "fsm_serialize dbg (freeSpaceManager (fst ps')) = Some (Inr bs)" "stores f (concat storageWrites @ bs) (2 ^ 30 + 2 ^ 24) (ps3, sf1) (r, ps', sf')"
      for r ps' sf' bs
    proof -
      have r: "space_ok (pmSpace ps')" "sf_ok 4096 sf'" "of_file f sf'" "entry_ok r" "pagesOf r \<inter> usedPages (pmSpace ps3) = {}"
        "usedPages (pmSpace ps') = usedPages (pmSpace ps3) \<union> pagesOf r" "holds f sf' r (concat storageWrites @ bs)"
        "\<forall>p. unat p \<notin> pagesOf r \<longrightarrow> overlay sf' (f, p) = overlay sf1 (f, p)"
        "length (shadowPageRecords sf') < 2 ^ 32 - 2" using m'(2) r1(8) by (auto simp: stores_def)
      have "\<forall>p. unat p \<in> pagesOf r1 \<longrightarrow> overlay sf' (f, p) = overlay sf1 (f, p)" using r(5,8) in3(1) by blast
      then have "holds f sf' r1 (concat catalogWrites)" using holds_other [OF r1(7,4)] by blast
      moreover have "header_ok (h1\<lparr>metadataPageRange := r\<rparr>) ps'" using r(4-6) r1(4) in3 h1 by (auto simp: header_ok_def)
      ultimately show ?thesis using m'(1) r r1(4) h1 by simp
    qed
    then show ?thesis unfolding ps3_def [symmetric]
      using r1(8) by (intro unless_no_pages_bind [OF serializeMetadata_ok [OF u3(1) r1(2,3) sf(3) bytes(3)]]) auto
  qed
  have "unless_no_pages (bindP (bindP (serializeCatalog 4096 fresh f catalogWrites (ps, sf)) (\<lambda>(r, ps, sf).
      let (h, pm) = updateCatalogPageRange r h (fst ps) in Some (Inr (h, (pm, snd ps), sf)))) (\<lambda>(h1, ps2, sf1).
      bindP (serializeMetadata 4096 fresh dbg f storageWrites ((freeMetadataPageRange h1 (fst ps2), snd ps2), sf1)) (\<lambda>(r, ps, sf).
      Some (Inr (h1\<lparr>metadataPageRange := r\<rparr>, ps, sf))))) ?Q"
    unfolding bindP_assoc
  proof (rule unless_no_pages_bind [OF serializeCatalog_ok [OF ps(1) sf(1-3) bytes(1,2)]])
    show "length (shadowPageRecords sf) < 2 ^ 31" using sf(4) by simp
  next
    fix x
    assume x: "stores f (concat catalogWrites) (2 ^ 30) (ps, sf) x"
    obtain r1 ps1 sf1 where x': "x = (r1, ps1, sf1)" by (cases x)
    show "unless_no_pages (bindP (case x of (r, ps, sf) \<Rightarrow> let (h, pm) = updateCatalogPageRange r h (fst ps) in Some (Inr (h, (pm, snd ps), sf))) (\<lambda>(h1, ps2, sf1).
        bindP (serializeMetadata 4096 fresh dbg f storageWrites ((freeMetadataPageRange h1 (fst ps2), snd ps2), sf1)) (\<lambda>(r, ps, sf).
        Some (Inr (h1\<lparr>metadataPageRange := r\<rparr>, ps, sf))))) ?Q"
      using step [OF x [unfolded x'] refl refl] unfolding x' updateCatalogPageRange_def by simp
  qed
  then show ?thesis unfolding serializeCatalogAndMetadata_def by (simp add: split_def)
qed

lemma header_size_le: "header_size dbg build \<le> 4096"
proof -
  have tag: "length (writeTag dbg s) \<le> 8 + length s" for s
    by (simp add: writeTag_def writeDebuggingInfo_def serializeString_def serializeU64_def tag_def)
  have "length (concat (map serializeU8 MAGIC_BYTES)) = 4" by (simp add: MAGIC_BYTES_def tag_def serializeU8_def)
  then show ?thesis
    unfolding header_size_def DatabaseHeader_serialize_def writeMagicBytes_def writeDatabaseID_def
    using tag [of "''magic''"] tag [of "''storage_version''"] tag [of "''catalog''"] tag [of "''metadata''"] tag [of "''databaseID''"]
    by (simp add: length_serializePageRange serializeU64_def)
qed

lemma writeDatabaseHeader_ok:
  assumes sf: "sf_ok 4096 sf" "of_file f sf" "length fresh = 4096" "length (shadowPageRecords sf) < 2 ^ 32 - 2"
  shows "\<exists>sf' rest. writeDatabaseHeader 4096 dbg build fresh f h sf = Some (Inr sf') \<and> sf_ok 4096 sf' \<and> of_file f sf'
    \<and> overlay sf' = (overlay sf)((f, 0) \<mapsto> DatabaseHeader_serialize dbg build h @ rest)"
proof -
  let ?bs = "DatabaseHeader_serialize dbg build h"
  have size: "length ?bs \<le> 4096" using header_size_le [of dbg build] length_header [of dbg build h "createInitialHeader (0, 0)"] by (simp add: header_size_def)
  have ne: "?bs \<noteq> []" by (simp add: DatabaseHeader_serialize_def serializeU64_def flip: length_0_conv)
  obtain w where w: "writeMany (mw_write 4096 fresh) InMemFileWriter_new [?bs] = Some (Inr w)" "mw_ok 4096 w" "mw_content w = ?bs"
    "length (mpages w) \<le> 1" "mpages w \<noteq> []" using writer_ok [OF sf(3), of "[?bs]" 1] size ne by auto
  then obtain page where page: "mpages w = [page]" by (cases "mpages w") auto
  have "?bs = take (mpageOffset w) page" "length page = 4096" using w(2,3) page by (simp_all add: mw_content_def mw_ok_def)
  then obtain rest where rest: "page = ?bs @ rest" by (metis append_take_drop_id)
  obtain sf' where "writeShadowPage fresh f 0 page sf = Inr sf'" "sf_ok 4096 sf'" "of_file f sf'" "overlay sf' = (overlay sf)((f, 0) \<mapsto> page)"
    using writeShadowPage_ok [OF sf(1,2) \<open>length page = 4096\<close> sf(3,4)] by blast
  moreover have "mw_write 4096 fresh InMemFileWriter_new ?bs = Some (Inr w)" using w(1) by (auto split: option.splits sum.splits)
  ultimately show ?thesis using page rest by (auto simp: writeDatabaseHeader_def)
qed

text \<open>The bytes on the pages of a range are read from its first page on.\<close>

lemma holds_read:
  assumes "holds f sf r bs" "entry_ok r" "\<forall>p c. overlay sf (f, p) = Some c \<longrightarrow> readFromFile file 4096 (unat p * 4096) = Inr c"
  shows "\<exists>rest. drop (unat (startPageIdx r) * 4096) file = bs @ rest"
proof -
  obtain c rest where c: "\<forall>i < unat (numPages r). overlay sf (f, pageAt r i) = Some (c i)" "concat (map c [0..<unat (numPages r)]) = bs @ rest"
    using assms(1) by (auto simp: holds_def)
  have "readFromFile file 4096 ((unat (startPageIdx r) + i) * 4096) = Inr (c i)" if "i < unat (numPages r)" for i
    using assms(3) [rule_format, OF c(1) [rule_format, OF that]] unat_pageAt [of r i] assms(2) that by (simp add: entry_ok_def algebra_simps)
  then obtain rest' where "drop (unat (startPageIdx r) * 4096) file = concat (map c [0..<unat (numPages r)]) @ rest'"
    using read_pages [of "unat (numPages r)" "file" 4096 "unat (startPageIdx r)" c] by blast
  then show ?thesis using c(2) by simp
qed

lemma entry_valid: "entry_ok r \<Longrightarrow> startPageIdx r \<noteq> INVALID_PAGE_IDX"
proof
  assume r: "entry_ok r" "startPageIdx r = INVALID_PAGE_IDX"
  have "unat (INVALID_PAGE_IDX) = 2 ^ 32 - 1" by (simp add: INVALID_PAGE_IDX_def unsigned_minus_1_eq_mask mask_eq_exp_minus_1)
  then show False using r entry_ok_pos [OF r(1)] by (simp add: entry_ok_def)
qed

lemma readCheckpoint_ok:
  assumes pages: "\<forall>p c. overlay sf (f, p) = Some c \<longrightarrow> readFromFile (cpFile st) 4096 (unat p * 4096) = Inr c"
    and head: "overlay sf (f, 0) = Some (DatabaseHeader_serialize dbg build h @ rest)"
    and cat: "holds f sf (catalogPageRange h) catBytes" "entry_ok (catalogPageRange h)" "\<And>rest. deserC (catBytes @ rest) = Inr (cat, rest)"
    and meta: "holds f sf (metadataPageRange h) (tabBytes @ fsmBytes)" "entry_ok (metadataPageRange h)" "\<And>rest. deserT cat (tabBytes @ rest) = Inr (tab, rest)"
    and fsm: "\<And>rest. fsm_deserialize dbg (freeSpaceManager (fst (cpPages st))) (fsmBytes @ rest) = Inr (fsm, rest)" and new: "cpHeader st = None"
  shows "readCheckpoint 4096 dbg build deserC deserT db st =
    Inr ((cat, tab), st\<lparr>cpHeader := Some h, cpPages := ((fst (cpPages st))\<lparr>freeSpaceManager := fsm\<rparr>, snd (cpPages st))\<rparr>)"
proof -
  have "readFromFile (cpFile st) 4096 ((0 + 0) * 4096) = Inr (DatabaseHeader_serialize dbg build h @ rest)" using pages head by fastforce
  then obtain tail where "cpFile st = (DatabaseHeader_serialize dbg build h @ rest) @ tail" using read_pages [of 1 "cpFile st" 4096 0 "\<lambda>_. _"] by auto
  then have h: "DatabaseHeader_deserialize dbg build (cpFile st) = Inr (h, rest @ tail)" by (simp add: header_read_back)
  obtain r1 r2 where "drop (unat (startPageIdx (catalogPageRange h)) * 4096) (cpFile st) = catBytes @ r1"
    "drop (unat (startPageIdx (metadataPageRange h)) * 4096) (cpFile st) = tabBytes @ fsmBytes @ r2"
    using holds_read [OF cat(1,2) pages] holds_read [OF meta(1,2) pages] by auto
  then show ?thesis using h cat(3) meta(3) fsm new entry_valid [OF cat(2)] by (simp add: readCheckpoint_def setDatabaseHeader_def bindD_def returnD_def)
qed

text \<open>The state a checkpoint needs, and leaves for the next one.\<close>

definition cp_ok :: "u32 \<Rightarrow> cp_state \<Rightarrow> database_header \<Rightarrow> bool" where
  "cp_ok f st h \<longleftrightarrow> cpHeader st = Some h \<and> space_ok (pmSpace (cpPages st)) \<and> header_ok h (cpPages st) \<and> sf_ok 4096 (cpShadow st) \<and> of_file f (cpShadow st)
     \<and> length (shadowPageRecords (cpShadow st)) < 2 ^ 29 \<and> coherent 4096 f (cpFile st, cpFrames st) \<and> \<not> walInMemory (cpWal st)"

lemma logCheckpoint_ok:
  assumes ok: "sf_ok 4096 sf" "of_file f sf" "overlay sf (f, 0) \<noteq> None" "coherent 4096 f (dataFile, fr)" "\<not> walInMemory w" "\<forall>n. length (alloc n) = n"
  shows "\<exists>sf' w' new fr'. logCheckpointAndApplyShadowPages 4096 alloc ser fresh databaseID (sf, w, dataFile, fr) = Inr (sf', w', new, fr')
    \<and> coherent 4096 f (new, fr') \<and> (\<forall>p c. overlay sf (f, p) = Some c \<longrightarrow> readFromFile new 4096 (unat p * 4096) = Inr c)
    \<and> \<not> walInMemory w' \<and> (\<exists>fh. sf' = \<lparr>shadowingFH = Some fh, shadowPagesMap = [], shadowPageRecords = []\<rparr>)"
proof -
  obtain sf1 new fr' fh' where a: "flushAll 4096 databaseID sf = Inr sf1" "applyShadowPages 4096 sf1 (dataFile, fr) = Inr (new, fr')" "coherent 4096 f (new, fr')"
    "\<forall>p c. overlay sf (f, p) = Some c \<longrightarrow> readFromFile new 4096 (unat p * 4096) = Inr c" "shadowingFH sf1 = Some fh'"
    using flush_apply_ok [OF ok(1-3) _ ok(4), of databaseID] by auto
  obtain w1 where "logAndFlushCheckpoint alloc 4096 ser databaseID w = Inr w1" "walHasWriter w1" "\<not> walInMemory w1"
    using logCheckpoint_total [OF ok(6,5)] by blast
  then show ?thesis using a by (simp add: logCheckpointAndApplyShadowPages_def wal_clear_def ShadowFile_clear_def)
qed

text \<open>The end of a checkpoint, from the header on.\<close>

definition finishCheckpoint ::
  "bool \<Rightarrow> string \<Rightarrow> u8 list \<Rightarrow> u32 \<Rightarrow> (nat \<Rightarrow> u8 list) \<Rightarrow> (('e, 'p, 'x, 'v) wal_record \<Rightarrow> u8 list list) \<Rightarrow> cp_state \<Rightarrow> database_header \<times> pm_state \<times> shadow_file \<Rightarrow> cp_state res option" where
  "finishCheckpoint dbg build fresh f alloc ser st = (\<lambda>(databaseHeader, ps, sf).
     bindP (writeDatabaseHeader 4096 dbg build fresh f databaseHeader sf) (\<lambda>sf.
     Some (bindR (setDatabaseHeader databaseHeader st) (\<lambda>st.
           bindR (logCheckpointAndApplyShadowPages 4096 alloc ser fresh (headerDatabaseID databaseHeader) (sf, cpWal st, cpFile st, cpFrames st)) (\<lambda>(sf, w, dataFile, fr).
           bindR (pm_finalizeCheckpoint ps) (\<lambda>ps.
           bindR (ShadowFile_reset sf) (\<lambda>sf.
           Inr (st\<lparr>cpPages := (resetVersion (fst ps), snd ps), cpShadow := sf, cpWal := wal_reset w,
                  cpFile := dataFile, cpFrames := fr, cpCatalogVersion := 0\<rparr>))))))))"

text \<open>The header, the catalog, the tables and the free lists that a start of the database reads.\<close>

definition reads_checkpoint ::
  "bool \<Rightarrow> string \<Rightarrow> 'c reader \<Rightarrow> ('c \<Rightarrow> 't reader) \<Rightarrow> u8 list \<Rightarrow> database_header \<Rightarrow> 'c \<times> 't \<Rightarrow> free_space_manager \<Rightarrow> bool" where
  "reads_checkpoint dbg build deserC deserT dataFile h db fsm \<longleftrightarrow>
     (\<forall>empty st. cpFile st = dataFile \<and> cpHeader st = None \<and> freeSpaceManager (fst (cpPages st)) = FreeSpaceManager_new \<longrightarrow>
        readCheckpoint 4096 dbg build deserC deserT empty st =
          Inr (db, st\<lparr>cpHeader := Some h, cpPages := ((fst (cpPages st))\<lparr>freeSpaceManager := fsm\<rparr>, snd (cpPages st))\<rparr>))"

lemma finishCheckpoint_ok:
  assumes st: "coherent 4096 f (cpFile st, cpFrames st)" "\<not> walInMemory (cpWal st)" "length fresh = 4096"
      "cpHeader st = Some old" "headerDatabaseID h = headerDatabaseID old" "\<forall>n. length (alloc n) = n"
    and readers: "\<And>rest. deserC (catBytes @ rest) = Inr (cat, rest)" "\<And>rest. deserT cat (tabBytes @ rest) = Inr (tab, rest)"
    and s: "space_ok (pmSpace ps)" "header_ok h ps" "sf_ok 4096 sf" "of_file f sf" "length (shadowPageRecords sf) < 2 ^ 32 - 2"
    and held: "entry_ok (catalogPageRange h)" "holds f sf (catalogPageRange h) catBytes" "entry_ok (metadataPageRange h)"
      "fsm_serialize dbg (freeSpaceManager (fst ps)) = Some (Inr bs)" "holds f sf (metadataPageRange h) (tabBytes @ bs)"
  shows "\<exists>st' fsm. finishCheckpoint dbg build fresh f alloc ser st (h, ps, sf) = Some (Inr st') \<and> cp_ok f st' h
    \<and> fsm_ok fsm \<and> pagesOfAll (entries fsm) \<inter> usedPages (pmSpace (cpPages st')) = {}
    \<and> reads_checkpoint dbg build deserC deserT (cpFile st') h (cat, tab) fsm"
proof -
  obtain sf1 rest where sf1: "writeDatabaseHeader 4096 dbg build fresh f h sf = Some (Inr sf1)" "sf_ok 4096 sf1" "of_file f sf1"
    "overlay sf1 = (overlay sf)((f, 0) \<mapsto> DatabaseHeader_serialize dbg build h @ rest)"
    using writeDatabaseHeader_ok [OF s(3,4) st(3) s(5)] by blast
  have same: "\<forall>p. unat p \<in> pagesOf r \<longrightarrow> overlay sf1 (f, p) = overlay sf (f, p)" if "r \<in> {catalogPageRange h, metadataPageRange h}" for r
    using s(2) that sf1(4) by (auto simp: header_ok_def)
  have held1: "holds f sf1 (catalogPageRange h) catBytes" "holds f sf1 (metadataPageRange h) (tabBytes @ bs)"
    using holds_other [OF held(2,1)] holds_other [OF held(5,3)] same by blast+
  obtain sf2 w new fr fh where l: "logCheckpointAndApplyShadowPages 4096 alloc ser fresh (headerDatabaseID h) (sf1, cpWal st, cpFile st, cpFrames st) = Inr (sf2, w, new, fr)"
    "coherent 4096 f (new, fr)" "\<forall>p c. overlay sf1 (f, p) = Some c \<longrightarrow> readFromFile new 4096 (unat p * 4096) = Inr c" "\<not> walInMemory w"
    "sf2 = \<lparr>shadowingFH = Some fh, shadowPagesMap = [], shadowPageRecords = []\<rparr>"
    using logCheckpoint_ok [OF sf1(2,3) _ st(1,2,6), of ser fresh "headerDatabaseID h"] sf1(4) by auto
  obtain fs' where fs': "finalizeCheckpoint (pmSpace ps) = Inr fs'" "space_ok fs'" "usedPages fs' = usedPages (pmSpace ps)"
    using finalizeCheckpoint_ok [OF s(1)] by blast
  let ?ps = "(resetVersion ((fst ps)\<lparr>freeSpaceManager := fst fs'\<rparr>), snd fs')"
  have sp: "pmSpace ?ps = fs'" by (simp add: pmSpace_def resetVersion_def)
  have fin: "pm_finalizeCheckpoint ps = Inr ((fst ps)\<lparr>freeSpaceManager := fst fs'\<rparr>, snd fs')"
    using fs'(1) by (simp add: pm_finalizeCheckpoint_def pmSpace_def split: prod.splits)
  have "space_ok (freeSpaceManager (fst ps), snd ps)" using s(1) by (simp add: pmSpace_def)
  from free_space_round_trip [OF this, of dbg] obtain fsm where
    fsm: "fsm_ok fsm" "entries fsm = entries (freeSpaceManager (fst ps)) \<union> set (uncheckpointedFreePageRanges (freeSpaceManager (fst ps)))"
    "\<And>rest. fsm_deserialize dbg FreeSpaceManager_new (bs @ rest) = Inr (fsm, rest)" using held(4) by auto
  let ?st = "st\<lparr>cpHeader := Some h, cpPages := ?ps, cpShadow := sf2\<lparr>shadowingFH := None\<rparr>, cpWal := wal_reset w,
      cpFile := new, cpFrames := fr, cpCatalogVersion := 0\<rparr>"
  have "finishCheckpoint dbg build fresh f alloc ser st (h, ps, sf) = Some (Inr ?st)"
    using sf1(1) l(1,5) fin st(4,5) by (simp add: finishCheckpoint_def setDatabaseHeader_def ShadowFile_reset_def)
  moreover have "pagesOfAll (entries fsm) \<inter> usedPages (pmSpace ?ps) = {}"
    unfolding sp fs'(3) fsm(2) by (auto simp: usedPages_def freePages_def pendingPages_def pagesOfAll_def pmSpace_def)
  moreover have "cp_ok f ?st h"
    using fs'(2,3) s(2) l(2,4,5) sp
    by (auto simp: cp_ok_def header_ok_def sf_ok_def maps_records_def shadowOf_def of_file_def wal_reset_def)
  moreover have "reads_checkpoint dbg build deserC deserT new h (cat, tab) fsm"
    using readCheckpoint_ok [where deserC = deserC and catBytes = catBytes and cat = cat and deserT = deserT and tabBytes = tabBytes and tab = tab and fsmBytes = bs,
        OF _ _ held1(1) held(1) readers(1) held1(2) held(3) readers(2)] l(3) sf1(4) fsm(3) by (simp add: reads_checkpoint_def)
  ultimately show ?thesis using fsm(1) by auto
qed


definition exampleState :: cp_state where
  "exampleState = \<lparr>cpPages = example_pm, cpShadow = ShadowFile_new,
     cpWal = \<lparr>walContents = [], walHasWriter = False, walBuffer = [], walInMemory = False, walReadOnly = False, walChecksums = True\<rparr>,
     cpFile = [], cpFrames = \<lambda>_. None, cpHeader = Some (createInitialHeader (1, 2)), cpCatalogVersion = 1\<rparr>"


end
