(* ===== verification/Checkpoint.thy ===== *)
theory Checkpoint
  imports Checkpointer Log_Cut
begin

text \<open>
  The start of the database after a crash in a checkpoint: the decision of
  \<^verbatim>\<open>WALReplayer::replay\<close> (\<^verbatim>\<open>src/src/storage/wal/wal_replayer.cpp\<close>) between
  replaying the log on the old checkpoint and applying the shadow pages.

  A file that does not exist is empty here, as recovery treats both alike. The replay of a log record
  is the parameter \<open>app\<close>; it works on the catalog, the tables and the state of the storage.
\<close>

section \<open>Recovery\<close>

record disk =
  diskData :: "u8 list"
  diskShadow :: "u8 list"
  diskWal :: "u8 list"

text \<open>\<open>start\<close> is the storage before the data file is opened.\<close>

definition reopen ::
  "nat \<Rightarrow> bool \<Rightarrow> string \<Rightarrow> u8 list \<Rightarrow> database_id \<Rightarrow> buffer_pool \<Rightarrow> 'c reader \<Rightarrow> ('c \<Rightarrow> 't reader) \<Rightarrow> 'c \<times> 't \<Rightarrow> cp_state \<Rightarrow> u8 list
    \<Rightarrow> (('c \<times> 't) \<times> cp_state) res option" where
  "reopen P dbg build fresh uuid pool deserC deserT db start dataFile =
     openCheckpoint P dbg build fresh uuid False pool deserC deserT db (start\<lparr>cpFile := dataFile\<rparr>)"

definition recover ::
  "nat \<Rightarrow> bool \<Rightarrow> string \<Rightarrow> u8 list \<Rightarrow> database_id \<Rightarrow> buffer_pool \<Rightarrow> 'c reader \<Rightarrow> ('c \<Rightarrow> 't reader) \<Rightarrow> 'c \<times> 't \<Rightarrow> cp_state \<Rightarrow> bool \<Rightarrow> bool
    \<Rightarrow> (nat \<Rightarrow> u8 list) \<Rightarrow> ('e, 'p, 'x, 'v) wal_record read_program \<Rightarrow> (('e, 'p, 'x, 'v) wal_record \<Rightarrow> ('c \<times> 't) \<times> cp_state \<Rightarrow> (('c \<times> 't) \<times> cp_state) res)
    \<Rightarrow> disk \<Rightarrow> (disk \<times> ('c \<times> 't) \<times> cp_state) res option" where
  "recover P dbg build fresh uuid pool deserC deserT db start throwOnWalReplayFailure chk alloc q app d =
     (let readCkpt = reopen P dbg build fresh uuid pool deserC deserT db start in
      if diskWal d = [] then
        bindP (readCkpt (diskData d)) (\<lambda>s. Some (Inr (\<lparr>diskData = cpFile (snd s), diskShadow = [], diskWal = []\<rparr>, s)))
      else
        bindP (dryReplay alloc P q throwOnWalReplayFailure chk (diskWal d)) (\<lambda>(offsetDeserialized, isLastRecordCheckpoint).
        if isLastRecordCheckpoint then
          bindP (Some (replayShadowPageRecords P dbg build False (diskShadow d) (Some (diskData d)))) (\<lambda>dataFile.
          bindP (readCkpt dataFile) (\<lambda>s. Some (Inr (\<lparr>diskData = cpFile (snd s), diskShadow = [], diskWal = []\<rparr>, s))))
        else
          bindP (readCkpt (diskData d)) (\<lambda>(db, st).
          bindP (Some (getOrInitDatabaseID P dbg build uuid st)) (\<lambda>(st, databaseID).
          bindP (replay alloc P q app databaseID throwOnWalReplayFailure chk (diskWal d) (db, st)) (\<lambda>result.
          Some (case result of
                  ApplyShadowPages \<Rightarrow> Inl AssertFail
                | Replayed s walFile \<Rightarrow> Inr (\<lparr>diskData = cpFile (snd s), diskShadow = [], diskWal = walFile\<rparr>, s)))))))"

section \<open>Crashes in a checkpoint\<close>

text \<open>
  What a crash during \<^verbatim>\<open>logCheckpointAndApplyShadowPages\<close> leaves on disk: an arbitrary
  shadow file while it is written; a part of the checkpoint record; some of the pages; or all pages
  with the log removed. The part of the checkpoint record begins on the last page of the log, so that recovery
  notices its end; see \<open>Log_Cut\<close>.
\<close>

inductive checkpoint_crash ::
  "nat \<Rightarrow> (nat \<Rightarrow> u8 list) \<Rightarrow> (('e, 'p, 'x, 'v) wal_record \<Rightarrow> u8 list list) \<Rightarrow> database_id \<Rightarrow> shadow_file \<Rightarrow> wal \<Rightarrow> u8 list \<Rightarrow> disk \<Rightarrow> bool" where
  while_flushing: "checkpoint_crash P alloc ser databaseID sf w dataFile \<lparr>diskData = dataFile, diskShadow = shadow, diskWal = walContents w\<rparr>"
| while_logging: "flushAll P databaseID sf = Inr sf' \<Longrightarrow> shadowingFH sf' = Some fh \<Longrightarrow> logAndFlushCheckpoint alloc P ser databaseID w = Inr w' \<Longrightarrow>
    length (walContents w) \<le> k \<Longrightarrow> k < length (walContents w') \<Longrightarrow> on_last_page P k (length (walContents w)) \<Longrightarrow>
    checkpoint_crash P alloc ser databaseID sf w dataFile \<lparr>diskData = dataFile, diskShadow = shDisk fh, diskWal = take k (walContents w')\<rparr>"
| while_applying: "flushAll P databaseID sf = Inr sf' \<Longrightarrow> shadowingFH sf' = Some fh \<Longrightarrow> logAndFlushCheckpoint alloc P ser databaseID w = Inr w' \<Longrightarrow>
    copy_crash P (shDisk fh) 1 (shadowPageRecords sf') dataFile crashed \<Longrightarrow>
    checkpoint_crash P alloc ser databaseID sf w dataFile \<lparr>diskData = crashed, diskShadow = shDisk fh, diskWal = walContents w'\<rparr>"
| after_clearing: "flushAll P databaseID sf = Inr sf' \<Longrightarrow> applyShadowPages P sf' (dataFile, fr) = Inr (new, fr') \<Longrightarrow>
    checkpoint_crash P alloc ser databaseID sf w dataFile \<lparr>diskData = new, diskShadow = shadow, diskWal = []\<rparr>"

section \<open>Recovery of a checkpoint\<close>

lemma bindP_cong: "(\<And>x. m = Some (Inr x) \<Longrightarrow> f x = g x) \<Longrightarrow> bindP m f = bindP m g"
  by (simp add: bindP_def split: option.splits sum.splits)

text \<open>The log of the transactions since the last checkpoint.\<close>

definition wal_logs :: "nat \<Rightarrow> bool \<Rightarrow> database_id \<Rightarrow> (('e, 'p, 'x, 'v) wal_record \<Rightarrow> u8 list) \<Rightarrow> ('e, 'p, 'x, 'v) wal_record list \<Rightarrow> wal \<Rightarrow> bool" where
  "wal_logs P chk databaseID enc rs w \<longleftrightarrow> walChecksums w = chk \<and> \<not> walInMemory w \<and> (walHasWriter w \<longrightarrow> P \<le> length (walBuffer w))
     \<and> (walContents w = headerBytes chk databaseID @ logBytes enc rs \<or> walContents w = [] \<and> rs = [] \<and> \<not> walHasWriter w)"

lemma logCheckpoint_contents:
  assumes "wal_logs P chk databaseID enc rs w" "17 \<le> P" "P \<le> length (alloc P)" "length (concat (ser CheckpointRecord)) \<le> P"
  shows "\<exists>w'. logAndFlushCheckpoint alloc P ser databaseID w = Inr w' \<and> walHasWriter w'
    \<and> walContents w' = headerBytes chk databaseID @ logBytes enc rs @ frameEntry chk (concat (ser CheckpointRecord))"
proof -
  have w: "walChecksums w = chk" "\<not> walInMemory w" "walHasWriter w \<longrightarrow> P \<le> length (walBuffer w)" using assms(1) by (simp_all add: wal_logs_def)
  let ?contents = "if \<not> walHasWriter w \<and> walContents w = [] then headerBytes chk databaseID else walContents w"
  obtain b where b: "initWriter alloc P databaseID w = Inr (w\<lparr>walHasWriter := True, walBuffer := b, walContents := ?contents\<rparr>)" "P \<le> length b"
    using initWriter_ok [where alloc = alloc and databaseID = databaseID, OF assms(2,3) w(3)] w(1) by auto
  let ?w = "w\<lparr>walHasWriter := True, walBuffer := b, walContents := ?contents\<rparr>"
  obtain b' where "wal_writeObject alloc (ser CheckpointRecord) ?w = Inr (?w\<lparr>walContents := ?contents @ frameEntry chk (concat (ser CheckpointRecord)), walBuffer := b'\<rparr>)"
    using wal_writeObject_ok [of "ser CheckpointRecord" ?w alloc] b(2) assms(4) w(1) by auto
  then have "logAndFlushCheckpoint alloc P ser databaseID w = Inr (?w\<lparr>walContents := ?contents @ frameEntry chk (concat (ser CheckpointRecord)), walBuffer := b'\<rparr>)"
    using b(1) w(2) by (simp add: logAndFlushCheckpoint_def addNewWALRecordNoLock_def)
  moreover have "?contents = headerBytes chk databaseID @ logBytes enc rs" using assms(1) headerBytes_nonempty [of chk databaseID] by (auto simp: wal_logs_def)
  ultimately show ?thesis by simp
qed

text \<open>What recovery returns if the checkpoint has not happened, and if it has.\<close>

definition recovered_before ::
  "bool \<Rightarrow> database_id \<Rightarrow> (('e, 'p, 'x, 'v) wal_record \<Rightarrow> u8 list) \<Rightarrow> (('e, 'p, 'x, 'v) wal_record \<Rightarrow> 'd \<times> cp_state \<Rightarrow> ('d \<times> cp_state) res)
    \<Rightarrow> (u8 list \<Rightarrow> ('d \<times> cp_state) res option) \<Rightarrow> ('e, 'p, 'x, 'v) wal_record list \<Rightarrow> u8 list \<Rightarrow> (disk \<times> 'd \<times> cp_state) res option" where
  "recovered_before chk databaseID enc app readCkpt rs dataFile =
     bindP (readCkpt dataFile) (\<lambda>s. Some (bindR (foldR app (committedPrefix rs) s) (\<lambda>s.
       Inr (\<lparr>diskData = cpFile (snd s), diskShadow = [],
             diskWal = (if committedPrefix rs = [] then [] else headerBytes chk databaseID @ logBytes enc (committedPrefix rs))\<rparr>, s))))"

definition recovered_after :: "(u8 list \<Rightarrow> ('d \<times> cp_state) res option) \<Rightarrow> u8 list \<Rightarrow> (disk \<times> 'd \<times> cp_state) res option" where
  "recovered_after readCkpt dataFile =
     bindP (readCkpt dataFile) (\<lambda>s. Some (Inr (\<lparr>diskData = cpFile (snd s), diskShadow = [], diskWal = []\<rparr>, s)))"

text \<open>The identity of the database is the one of the header in the file.\<close>

lemma openCheckpoint_header:
  assumes "openCheckpoint P dbg build fresh uuid False pool deserC deserT db st = Some (Inr (db', st'))" "has_header dbg build databaseID (cpFile st)"
    and "cpFile st \<noteq> []" "pagesOfLength (length (cpFile st)) < 2 ^ 32"
  shows "getOrInitDatabaseID P dbg build uuid st' = Inr (st', databaseID)"
proof -
  let ?pages = "of_nat (pagesOfLength (length (cpFile st))) :: u32"
  have "0 < pagesOfLength (length (cpFile st))" using assms(3) by (cases "cpFile st") (simp_all add: pagesOfLength_def LBUG_PAGE_SIZE_def div_greater_zero_iff)
  then have pages: "?pages \<noteq> 0" using unat_of_nat_32 [OF assms(4)] by (metis less_irrefl unsigned_0)
  obtain h rest where h: "cpFile st = DatabaseHeader_serialize dbg build h @ rest" "headerDatabaseID h = databaseID"
    using assms(2) by (auto simp: has_header_def)
  obtain pool' fh where fh: "FileHandle_open (length (cpFile st)) pool = (pool', Inr fh)" "fhNumPages fh = ?pages"
    using assms(1)
    by (cases "FileHandle_open (length (cpFile st)) pool"; cases "snd (FileHandle_open (length (cpFile st)) pool)")
      (auto simp: openCheckpoint_def initDataFileHandle_def FileHandle_open_def Let_def)
  have "\<exists>st0. readCheckpoint P dbg build deserC deserT db st0 = Inr (db', st') \<and> cpFile st0 = cpFile st"
    using assms(1) fh pages by (auto simp: openCheckpoint_def initDataFileHandle_def word_gt_0)
  then have "cpHeader st' = Some h"
    using h(1) by (auto simp: readCheckpoint_def header_read_back setDatabaseHeader_def split: if_splits)
  then show ?thesis using h(2) by (simp add: getOrInitDatabaseID_def getOrInitDatabaseHeader_def)
qed

text \<open>A log from which recovery replays the committed transactions.\<close>

definition replays_committed ::
  "(nat \<Rightarrow> u8 list) \<Rightarrow> nat \<Rightarrow> ('e, 'p, 'x, 'v) wal_record read_program \<Rightarrow> (('e, 'p, 'x, 'v) wal_record \<Rightarrow> 's \<Rightarrow> 's res) \<Rightarrow> database_id \<Rightarrow> bool
    \<Rightarrow> (('e, 'p, 'x, 'v) wal_record \<Rightarrow> u8 list) \<Rightarrow> ('e, 'p, 'x, 'v) wal_record list \<Rightarrow> u8 list \<Rightarrow> bool" where
  "replays_committed alloc P q app databaseID chk enc rs walFile \<longleftrightarrow>
     walFile = [] \<and> committedPrefix rs = [] \<or>
     walFile \<noteq> [] \<and> (\<forall>s. replay alloc P q app databaseID False chk walFile s =
        Some (bindR (foldR app (committedPrefix rs) s) (\<lambda>s. Inr (Replayed s
          (if committedPrefix rs = [] then [] else headerBytes chk databaseID @ logBytes enc (committedPrefix rs))))))"

text \<open>The log while the checkpoint record is written, and before.\<close>

lemma replay_torn_checkpoint:
  fixes rs :: "('e, 'p, 'x, 'v) wal_record list" and chk :: bool
  assumes P: "25 \<le> P" "P \<le> length (alloc P)" and ok: "\<forall>x \<in> set rs. fits P q bytes x \<and> \<not> isCheckpoint x" "fits P q bytes CheckpointRecord"
  defines "enc \<equiv> \<lambda>x. frameEntry chk (bytes x)"
  assumes old: "old = headerBytes chk databaseID @ logBytes enc rs \<or> old = [] \<and> rs = []"
    and k: "length old \<le> k" "k < length (headerBytes chk databaseID @ logBytes enc rs @ enc CheckpointRecord)" "k \<noteq> 0" "on_last_page P k (length old)"
  shows "replays_committed alloc P q app databaseID chk enc rs (take k (headerBytes chk databaseID @ logBytes enc rs @ enc CheckpointRecord))"
proof -
  let ?h = "headerBytes chk databaseID" and ?rs = "rs @ [CheckpointRecord]" let ?j = "k - length ?h"
  let ?n = "completeRecords enc ?j ?rs"
  have fits: "\<forall>x \<in> set ?rs. fits P q bytes x" using ok by simp
  have whole: "?n = length rs \<and> (length ?h \<le> k \<longrightarrow> length (?h @ logBytes enc rs) \<le> k)"
  proof (cases "k < length ?h")
    case True
    then have "rs = []" using old k(1) by auto
    moreover have "enc CheckpointRecord \<noteq> []" using ok(2) by (simp add: enc_def fits_def frameEntry_def entryBytes_def)
    ultimately show ?thesis using True by simp
  next
    case False
    then have all: "length (logBytes enc rs) \<le> ?j" using old k(1) by auto
    have "completeRecords enc j (xs @ [y]) = length xs" if "length (logBytes enc xs) \<le> j" "j < length (logBytes enc xs) + length (enc y)" for j xs y
      using that by (induction xs arbitrary: j) auto
    from this [OF all, of CheckpointRecord] have "?n = length rs" using k(2) False by simp
    then show ?thesis using all False by simp
  qed
  then have take: "take ?n ?rs = rs" by simp
  have start: "tornStart chk databaseID enc ?rs k = length (?h @ logBytes enc rs)" unfolding tornStart_def take by simp
  have "k \<le> length (?h @ logBytes enc rs) \<or> on_last_page P k (length (?h @ logBytes enc rs))" using old k(4) by (auto simp: on_last_page_def)
  then have page: "cutOnLastPage P chk databaseID enc ?rs k" unfolding cutOnLastPage_def start using k(2) by simp
  have "replay alloc P q app databaseID False chk (take k (?h @ logBytes enc ?rs)) s =
      Some (bindR (foldR app (committedPrefix rs) s) (\<lambda>s. Inr (Replayed s
        (if committedPrefix rs = [] then [] else ?h @ logBytes enc (committedPrefix rs)))))" for s
    using replay_cut [where alloc = alloc and bytes = bytes and q = q and rs = ?rs and k = k and chk = chk and databaseID = databaseID and app = app and s = s, OF P fits]
      page ok(1) unfolding enc_def [symmetric] take by blast
  then show ?thesis using k(3) headerBytes_nonempty [of chk databaseID] by (simp add: replays_committed_def)
qed

lemma replay_before_checkpoint:
  fixes rs :: "('e, 'p, 'x, 'v) wal_record list" and chk :: bool
  assumes P: "25 \<le> P" "P \<le> length (alloc P)" and ok: "\<forall>x \<in> set rs. fits P q bytes x \<and> \<not> isCheckpoint x"
  defines "enc \<equiv> \<lambda>x. frameEntry chk (bytes x)"
  shows "replays_committed alloc P q app databaseID chk enc rs (headerBytes chk databaseID @ logBytes enc rs)"
proof -
  have "17 \<le> P" using P(1) by simp
  then show ?thesis
    using replay_log [where alloc = alloc and q = q and rs = rs and bytes = bytes and chk = chk and databaseID = databaseID and garbage = "[]" and app = app,
        OF _ P(2) ok refl] headerBytes_nonempty [of chk databaseID] unfolding enc_def replays_committed_def by simp
qed

text \<open>Recovery from a log without a complete checkpoint record.\<close>

lemma replay_not_checkpoint:
  assumes "walFile \<noteq> []" "replay alloc P q app databaseID False chk walFile s = Some (bindR r (\<lambda>s. Inr (Replayed s f)))"
  shows "\<exists>off. dryReplay alloc P q False chk walFile = Some (Inr (off, False))"
proof (cases "dryReplay alloc P q False chk walFile")
  case None
  then show ?thesis using assms by (simp add: replay_def)
next
  case (Some info)
  have "info \<noteq> Inl e" for e using Some by (auto simp: dryReplay_def split: option.splits sum.splits)
  then obtain off b where q: "info = Inr (off, b)" by (metis prod.exhaust sum.exhaust)
  have "b = False"
  proof (rule ccontr)
    assume "b \<noteq> False"
    then have "replay alloc P q app databaseID False chk walFile s = Some (Inr ApplyShadowPages)" using Some q assms(1) by (simp add: replay_def)
    then show False using assms(2) by (cases r) simp_all
  qed
  then show ?thesis using Some q by simp
qed

lemma recover_before:
  assumes header: "has_header dbg build databaseID dataFile" "dataFile \<noteq> []" "pagesOfLength (length dataFile) < 2 ^ 32"
    and log: "replays_committed alloc P q app databaseID chk enc rs walFile"
  shows "recover P dbg build fresh uuid pool deserC deserT db start False chk alloc q app \<lparr>diskData = dataFile, diskShadow = shadow, diskWal = walFile\<rparr> =
    recovered_before chk databaseID enc app (reopen P dbg build fresh uuid pool deserC deserT db start) rs dataFile"
proof (cases "walFile = []")
  case True
  then show ?thesis using log by (simp add: recover_def recovered_before_def replays_committed_def)
next
  case False
  then have replay: "\<And>s. replay alloc P q app databaseID False chk walFile s =
        Some (bindR (foldR app (committedPrefix rs) s) (\<lambda>s. Inr (Replayed s
          (if committedPrefix rs = [] then [] else headerBytes chk databaseID @ logBytes enc (committedPrefix rs)))))" using log unfolding replays_committed_def by blast
  obtain off where off: "dryReplay alloc P q False chk walFile = Some (Inr (off, False))" using replay_not_checkpoint [OF False replay] by blast
  let ?load = "reopen P dbg build fresh uuid pool deserC deserT db start"
  have "bindP (?load dataFile) (\<lambda>(db, st). bindP (Some (getOrInitDatabaseID P dbg build uuid st)) (\<lambda>(st, databaseID).
      bindP (replay alloc P q app databaseID False chk walFile (db, st)) (\<lambda>result.
      Some (case result of ApplyShadowPages \<Rightarrow> Inl AssertFail
            | Replayed s walFile \<Rightarrow> Inr (\<lparr>diskData = cpFile (snd s), diskShadow = [], diskWal = walFile\<rparr>, s))))) =
    recovered_before chk databaseID enc app ?load rs dataFile"
    unfolding recovered_before_def
  proof (rule bindP_cong)
    fix s
    assume s: "?load dataFile = Some (Inr s)"
    obtain db' st where s': "s = (db', st)" by (cases s)
    have id: "getOrInitDatabaseID P dbg build uuid st = Inr (st, databaseID)"
      using openCheckpoint_header [of P dbg build fresh uuid pool deserC deserT db "start\<lparr>cpFile := dataFile\<rparr>" db' st databaseID]
        header s s' by (simp add: reopen_def)
    show "(case s of (db, st) \<Rightarrow> bindP (Some (getOrInitDatabaseID P dbg build uuid st)) (\<lambda>(st, databaseID).
        bindP (replay alloc P q app databaseID False chk walFile (db, st)) (\<lambda>result.
        Some (case result of ApplyShadowPages \<Rightarrow> Inl AssertFail
              | Replayed s walFile \<Rightarrow> Inr (\<lparr>diskData = cpFile (snd s), diskShadow = [], diskWal = walFile\<rparr>, s))))) =
      Some (bindR (foldR app (committedPrefix rs) s) (\<lambda>s. Inr (\<lparr>diskData = cpFile (snd s), diskShadow = [],
        diskWal = (if committedPrefix rs = [] then [] else headerBytes chk databaseID @ logBytes enc (committedPrefix rs))\<rparr>, s)))"
      using id replay [of s] by (cases "foldR app (committedPrefix rs) s") (simp_all add: s')
  qed
  then show ?thesis using False off by (simp add: recover_def)
qed

lemma flushAll_records:
  assumes "sf_ok P sf" "shadowingFH sf = Some fh" "20 \<le> P" "flushAll P databaseID sf = Inr sf'"
  shows "shadowPageRecords sf' = shadowPageRecords sf"
  using flushAll_ok [OF assms(1-3), of databaseID] assms(4) by auto

text \<open>
  C1. A checkpoint is atomic. Whatever a crash leaves behind while the shadow pages are made durable
  and replace the pages of the data file, a half-written shadow file, a log with a part of the
  checkpoint record, a data file of which some pages are new and one is torn, or the files after the
  log was removed: recovery either yields the old checkpoint with every committed transaction of the
  log replayed on it, or the very data file that the undisturbed checkpoint writes, with log and shadow
  file removed. No third outcome exists, and the undisturbed checkpoint itself succeeds. The records in the log have at
  most the size of a page, which is the buffer of the checksum writer and reader, and a torn checkpoint record begins on the
  last page of the log. This is for \<^verbatim>\<open>throwOnWalReplayFailure\<close> off; with it on, which is the default, recovery throws
  when it meets a torn record.
\<close>

theorem checkpoint_is_atomic:
  fixes sE :: "'e \<Rightarrow> u8 list" and sP :: "'p \<Rightarrow> u8 list" and sV :: "'v \<Rightarrow> u8 list" and rs :: "('e, 'p, 'x, 'v) wal_record list"
  assumes parts: "serializable sE (onList dE) vE" "serializable sP (onList dP) vP" "serializable sV (onList dV) vV" "\<forall>bs. concat (split bs) = bs"
    and buffers: "25 \<le> P" "P \<le> length (alloc P)"
    and log: "\<forall>r \<in> set rs. loggable P vE vP vV (serializeRecord sE sP sV dbg) r"
      "wal_logs P chk databaseID (\<lambda>r. frameEntry chk (serializeRecord sE sP sV dbg r)) rs w"
    and shadow: "sf_ok P sf" "of_file f sf" "overlay sf (f, p) \<noteq> None" "20 \<le> P" "coherent P f (dataFile, fr)"
    and header: "has_header dbg build databaseID dataFile" "P \<le> length dataFile" "header_size dbg build \<le> P"
      "\<forall>i < length (shadowPageRecords sf). originalPageIdx (shadowPageRecords sf ! i) = 0 \<longrightarrow>
         has_header dbg build databaseID (fst (shPages (the (shadowingFH sf)) ! Suc i))"
      "pagesOfLength (length dataFile) < 2 ^ 32"
    and crash: "checkpoint_crash P alloc (\<lambda>r :: ('e, 'p, 'x, 'v) wal_record. split (serializeRecord sE sP sV dbg r)) databaseID sf w dataFile d"
  shows "\<exists>sf' w' new fr'. logCheckpointAndApplyShadowPages P alloc (\<lambda>r :: ('e, 'p, 'x, 'v) wal_record. split (serializeRecord sE sP sV dbg r)) fresh databaseID
        (sf, w, dataFile, fr) = Inr (sf', w', new, fr')
    \<and> recover P dbg build fresh uuid pool deserC deserT db start False chk alloc (deserializeRecord dE dP dV dbg) app d \<in>
        {recovered_before chk databaseID (\<lambda>r. frameEntry chk (serializeRecord sE sP sV dbg r)) app
           (reopen P dbg build fresh uuid pool deserC deserT db start) (map asLogged rs) dataFile,
         recovered_after (reopen P dbg build fresh uuid pool deserC deserT db start) new}"
proof -
  let ?q = "deserializeRecord dE dP dV dbg :: ('e, 'p, 'x, 'v) wal_record read_program" and ?rs = "map asLogged rs"
    and ?bytes = "serializeRecord sE sP sV dbg :: ('e, 'p, 'x, 'v) wal_record \<Rightarrow> u8 list"
  let ?ser = "\<lambda>r :: ('e, 'p, 'x, 'v) wal_record. split (serializeRecord sE sP sV dbg r)"
  let ?rec = "recover P dbg build fresh uuid pool deserC deserT db start False chk alloc ?q app"
  define enc where "enc = (\<lambda>r :: ('e, 'p, 'x, 'v) wal_record. frameEntry chk (serializeRecord sE sP sV dbg r))"
  let ?load = "reopen P dbg build fresh uuid pool deserC deserT db start" let ?before = "recovered_before chk databaseID enc app ?load ?rs dataFile"
  have P: "17 \<le> P" "8 \<le> P" using buffers(1) by simp_all
  have fits: "\<forall>x \<in> set ?rs. fits P ?q ?bytes x \<and> \<not> isCheckpoint x"
    using log(1) P(2) by (auto simp: loggable_def intro!: fits_asLogged [OF parts(1-3)])
  have "length (?bytes CheckpointRecord) \<le> P" using buffers(1) by (intro order_trans [OF type_record_length]) auto
  then have ckpt: "fits P ?q ?bytes (CheckpointRecord :: ('e, 'p, 'x, 'v) wal_record)" "length (concat (?ser CheckpointRecord)) \<le> P"
    using fits_asLogged [OF parts(1-3), of CheckpointRecord dbg P] P(2) parts(4) by simp_all
  have bytes: "logBytes enc ?rs = logBytes enc rs" by (rule logBytes_asLogged) (simp add: enc_def)
  have old: "walContents w = headerBytes chk databaseID @ logBytes enc ?rs \<or> walContents w = [] \<and> ?rs = []"
    using log(2) unfolding bytes by (auto simp: wal_logs_def enc_def)
  obtain w' where w': "logAndFlushCheckpoint alloc P ?ser databaseID w = Inr w'" "walHasWriter w'"
    "walContents w' = headerBytes chk databaseID @ logBytes enc ?rs @ enc CheckpointRecord"
    using logCheckpoint_contents [where alloc = alloc and ser = ?ser, OF log(2) P(1) buffers(2) ckpt(2)] parts(4) unfolding bytes by (auto simp: enc_def)
  obtain sf' new fr' fh fh' where a: "flushAll P databaseID sf = Inr sf'" "applyShadowPages P sf' (dataFile, fr) = Inr (new, fr')"
    "shadowingFH sf = Some fh" "shadowingFH sf' = Some fh'"
    "shadow_complete P databaseID (shadowPageRecords sf) (map fst (tl (shPages fh))) (shDisk fh')"
    "replayPages P (shDisk fh') 1 (shadowPageRecords sf) dataFile = Inr new"
    using flush_apply_ok [OF shadow] by blast
  note records = flushAll_records [OF shadow(1) a(3) shadow(4) a(1)]
  have len: "length (shadowPageRecords sf) < 2 ^ 32 - 1" "length (shPages fh) = length (shadowPageRecords sf) + 1"
    using shadow(1) a(3) by (simp_all add: sf_ok_def)
  have ne_file: "dataFile \<noteq> []" using header(2) shadow(4) by auto
  note before = recover_before [where rs = ?rs and app = app and enc = enc and alloc = alloc and q = ?q and P = P and chk = chk, OF header(1) ne_file header(5)]
  have unlogged: "replays_committed alloc P ?q app databaseID chk enc ?rs (walContents w)"
    using replay_before_checkpoint [where alloc = alloc and chk = chk and databaseID = databaseID and app = app, OF buffers fits] old
    unfolding enc_def [symmetric] by (auto simp: replays_committed_def)
  have "?rec d \<in> {?before, recovered_after ?load new}"
    using crash
  proof cases
    case (while_flushing shadow')
    from before [OF unlogged, of fresh uuid pool deserC deserT db start shadow'] show ?thesis using while_flushing by simp
  next
    case (while_logging sf'' fh'' w'' k)
    then have w'': "w'' = w'" using w'(1) by simp
    have "replays_committed alloc P ?q app databaseID chk enc ?rs (take k (walContents w'))"
    proof (cases "k = 0")
      case True
      then show ?thesis using unlogged while_logging(5) headerBytes_nonempty [of chk databaseID] by simp
    next
      case False
      then show ?thesis
        using replay_torn_checkpoint [where alloc = alloc and chk = chk and databaseID = databaseID and k = k and app = app, OF buffers fits ckpt(1) old [unfolded enc_def]]
          while_logging(5-7) unfolding w'' w'(3) enc_def by blast
    qed
    from before [OF this, of fresh uuid pool deserC deserT db start "shDisk fh''"] show ?thesis using while_logging(1) w'' by simp
  next
    case (while_applying sf'' fh'' w'' crashed)
    then have eqs: "fh'' = fh'" "w'' = w'" "shadowPageRecords sf'' = shadowPageRecords sf" using w'(1) a(1,4) records by simp_all
    have pages: "\<forall>i < length (shadowPageRecords sf). originalPageIdx (shadowPageRecords sf ! i) = 0 \<longrightarrow>
        has_header dbg build databaseID (map fst (tl (shPages fh)) ! i)"
      using header(4) a(3) len(2) by (simp add: nth_tl)
    have copy: "copy_crash P (shDisk fh') 1 (shadowPageRecords sf) dataFile crashed" using while_applying eqs by simp
    note done' = replay_recovers [OF a(5) len(1) header(1-3) pages a(6) copy]
    obtain off where "dryReplay alloc P ?q False chk (walContents w') = Some (Inr (off, True))"
      using dryReplay_checkpoint_record [where alloc = alloc and chk = chk and databaseID = databaseID, OF P(1) buffers(2) fits ckpt(1)] unfolding w'(3) enc_def by blast
    moreover have "walContents w' \<noteq> []" using w'(3) headerBytes_nonempty [of chk databaseID] by simp
    ultimately show ?thesis using while_applying(1) eqs done' by (simp add: recover_def recovered_after_def)
  next
    case (after_clearing sf'' fr0 new' fr'' shadow')
    then have "applyShadowPages P sf' (dataFile, fr0) = Inr (new', fr'')" using a(1) by simp
    then have "new' = new" using a(4,6) records by (auto simp: applyShadowPages_def dest!: applyLoop_replays)
    then show ?thesis using after_clearing(1) by (simp add: recover_def recovered_after_def)
  qed
  moreover have "\<exists>sf' w'. logCheckpointAndApplyShadowPages P alloc ?ser fresh databaseID (sf, w, dataFile, fr) = Inr (sf', w', new, fr')"
    using a(1,2,4) w'(1,2) by (simp add: logCheckpointAndApplyShadowPages_def ShadowFile_clear_def wal_clear_def)
  ultimately show ?thesis unfolding enc_def by blast
qed

text \<open>A checkpoint of the header page that crashes while the shadow file is written.\<close>

definition examplePage :: "u32 \<Rightarrow> u8 list" where
  "examplePage p = DatabaseHeader_serialize False ''0.14.1'' ((createInitialHeader (1, 2))\<lparr>catalogPageRange := PageRange p 1\<rparr>) @ replicate 8 0"

definition exampleShadow :: shadow_file where
  "exampleShadow = \<lparr>shadowingFH = Some \<lparr>shPages = [(replicate (length (examplePage 1)) 0, False), (examplePage 1, True)], shDisk = []\<rparr>,
     shadowPagesMap = [(0, [(0, 1)])], shadowPageRecords = [\<lparr>originalFileIdx = 0, originalPageIdx = 0\<rparr>]\<rparr>"

definition exampleWal :: wal where
  "exampleWal = \<lparr>walContents = headerBytes True (1, 2) @ logBytes (\<lambda>r. frameEntry True (exampleBytes r)) exampleLog,
     walHasWriter = False, walBuffer = [], walInMemory = False, walReadOnly = False, walChecksums = True\<rparr>"

lemma example_page: "has_header False ''0.14.1'' (1, 2) (examplePage p)" "length (examplePage p) = header_size False ''0.14.1'' + 8" "20 \<le> header_size False ''0.14.1''"
proof -
  show "has_header False ''0.14.1'' (1, 2) (examplePage p)"
    unfolding has_header_def examplePage_def
    by (intro exI [of _ "(createInitialHeader (1, 2))\<lparr>catalogPageRange := PageRange p 1\<rparr>"] exI [of _ "replicate 8 0"]) (simp add: createInitialHeader_def)
  show "length (examplePage p) = header_size False ''0.14.1'' + 8" 
    unfolding header_size_def examplePage_def 
    by (simp only: length_append length_replicate length_header [of False _ "(createInitialHeader (1, 2))\<lparr>catalogPageRange := PageRange p 1\<rparr>" "createInitialHeader (0, 0)"])
  show "20 \<le> header_size False ''0.14.1''" unfolding header_size_def DatabaseHeader_serialize_def serializePageRange_def writeDatabaseID_def by (simp add: serializeU64_def serializeU32_def)
qed

lemma example_shadow: "sf_ok (header_size False ''0.14.1'' + 8) exampleShadow" "of_file 0 exampleShadow" "overlay exampleShadow (0, 0) \<noteq> None"
  using example_page(2)
  by (auto simp: exampleShadow_def sf_ok_def of_file_def overlay_def shadowOf_def maps_records_def fh_stored_def nth_Cons split: nat.splits if_splits)

theorem checkpoint_is_atomic_witness:
  "\<exists>sf' w' new fr'. logCheckpointAndApplyShadowPages (header_size False ''0.14.1'' + 8) (\<lambda>n. replicate n 0) (\<lambda>r. map (\<lambda>b. [b]) (exampleBytes r)) [] (1, 2)
        (exampleShadow, exampleWal, examplePage 0, \<lambda>_. None) = Inr (sf', w', new, fr')
    \<and> recover (header_size False ''0.14.1'' + 8) False ''0.14.1'' [] (3, 4) example_pool deserializeU64 (\<lambda>_. deserializeU32) (0, 0) exampleState False True
        (\<lambda>n. replicate n 0) (deserializeRecord stringQ u64Q u32Q False) (\<lambda>r :: (u8 list, u64, nat, u32) wal_record. Inr)
        \<lparr>diskData = examplePage 0, diskShadow = [5], diskWal = walContents exampleWal\<rparr>
      \<in> {recovered_before True (1, 2) (\<lambda>r. frameEntry True (exampleBytes r)) (\<lambda>r. Inr)
           (reopen (header_size False ''0.14.1'' + 8) False ''0.14.1'' [] (3, 4) example_pool deserializeU64 (\<lambda>_. deserializeU32) (0, 0) exampleState)
           (map asLogged exampleLog) (examplePage 0),
         recovered_after (reopen (header_size False ''0.14.1'' + 8) False ''0.14.1'' [] (3, 4) example_pool deserializeU64 (\<lambda>_. deserializeU32) (0, 0) exampleState) new}"
proof (rule checkpoint_is_atomic [OF part_contracts _ _ _ _ _ example_shadow, where split = "map (\<lambda>b. [b])", rotated 4])
  show "checkpoint_crash (header_size False ''0.14.1'' + 8) (\<lambda>n. replicate n 0) (\<lambda>r. map (\<lambda>b. [b]) (exampleBytes r)) (1, 2) exampleShadow exampleWal (examplePage 0)
      \<lparr>diskData = examplePage 0, diskShadow = [5], diskWal = walContents exampleWal\<rparr>" by (rule while_flushing)
  have "(header_size False ''0.14.1'' + 8 + 4096 - 1) div 4096 \<le> header_size False ''0.14.1'' + 8 + 4096 - 1" by (rule div_le_dividend)
  then show "pagesOfLength (length (examplePage 0)) < 2 ^ 32"
    using header_size_le [of False "''0.14.1''"] unfolding pagesOfLength_def example_page(2) by (simp add: LBUG_PAGE_SIZE_def)
next
  have "\<forall>r \<in> set exampleLog. length (exampleBytes r) \<le> 9"
    by (simp add: exampleLog_def serializeCopyTable_def serializeType_def writeTag_def writeDebuggingInfo_def serializeU64_def serializeU8_def)
  then show "\<forall>r \<in> set exampleLog. loggable (header_size False ''0.14.1'' + 8) (\<lambda>s. length s < 2 ^ 64) (\<lambda>_. True) (\<lambda>_. True) exampleBytes r"
    using example_loggable example_page(3) by (fastforce simp: loggable_def)
  show "wal_logs (header_size False ''0.14.1'' + 8) True (1, 2) (\<lambda>r. frameEntry True (exampleBytes r)) exampleLog exampleWal"
    by (simp add: wal_logs_def exampleWal_def)
qed (use example_page in \<open>simp_all add: exampleShadow_def coherent_def\<close>)

end
