(* ===== verification/Update_Info.thy ===== *)
theory Update_Info
  imports Transaction_Manager
begin

text \<open>
  The versions of updated values of a column chunk, \<^verbatim>\<open>src/src/storage/table/update_info.cpp\<close>: per
  vector of \<^verbatim>\<open>DEFAULT_VECTOR_CAPACITY\<close> rows (the parameter \<open>vc\<close>) a chain of
  \<^verbatim>\<open>VectorUpdateInfo\<close>, one per transaction that updated rows of the vector.

  The chain behind \<^verbatim>\<open>UpdateNode::info\<close>, linked by \<^verbatim>\<open>prev\<close> and \<^verbatim>\<open>next\<close>, is the list of
  its elements with the head first. An element carries the address of its object, which the undo
  buffer keeps; the address of a new object is the parameter \<open>addr\<close>. Of the array
  \<^verbatim>\<open>rowsInVector\<close> the list \<open>rowsInVector\<close> holds the first \<^verbatim>\<open>numRowsUpdated\<close> elements, and
  \<open>vectorValues\<close> the values of the column chunk \<^verbatim>\<open>data\<close>. The output
  of a scan is the list of values of the output vector. Every operation holds the locks of the vector
  for its whole duration and is one step here.

  The lemmas show what a lookup and a scan return, and that both agree.
\<close>

section \<open>The operations\<close>

record 'v vector_update_info =
  infoAddr :: nat
  version :: transaction_t
  rowsInVector :: "nat list"
  vectorValues :: "'v list"

type_synonym 'v update_info = "'v vector_update_info list list"

definition VectorUpdateInfo_new :: "nat \<Rightarrow> transaction_t \<Rightarrow> 'v vector_update_info" where
  "VectorUpdateInfo_new addr transactionID = \<lparr>infoAddr = addr, version = transactionID, rowsInVector = [], vectorValues = []\<rparr>"

definition isSet :: "'v update_info \<Rightarrow> bool" where
  "isSet updates = (updates \<noteq> [])"

definition getUpdateNode :: "nat \<Rightarrow> 'v update_info \<Rightarrow> 'v vector_update_info list res" where
  "getUpdateNode vectorIdx updates =
     (if vectorIdx \<ge> length updates then Inl (InternalException ''UpdateInfo does not have update node for vector index'')
      else Inr (updates ! vectorIdx))"

definition getOrCreateUpdateNode :: "nat \<Rightarrow> 'v update_info \<Rightarrow> 'v update_info" where
  "getOrCreateUpdateNode vectorIdx updates =
     (if vectorIdx \<ge> length updates then updates @ replicate (vectorIdx + 1 - length updates) [] else updates)"

definition updateConflict :: err where
  "updateConflict = RuntimeException ''Write-write conflict of updating the same row.''"

text \<open>The loop over the chain: the position of the version of the transaction, if there is one.\<close>

fun findVersion :: "transaction \<Rightarrow> nat \<Rightarrow> 'v vector_update_info list \<Rightarrow> nat \<Rightarrow> nat option \<Rightarrow> nat option res" where
  "findVersion t row [] i found = Inr found"
| "findVersion t row (current # older) i found =
     (if version current = txnID t then
        bindR (assertR (version current \<ge> START_TRANSACTION_ID)) (\<lambda>_. findVersion t row older (Suc i) (Some i))
      else if version current > startTS t \<and> row \<in> set (rowsInVector current) then Inl updateConflict
      else findVersion t row older (Suc i) found)"

text \<open>Writing one row: the first entry of the row is overwritten, or the row is appended.\<close>

fun indexOf :: "nat \<Rightarrow> nat list \<Rightarrow> nat option" where
  "indexOf row [] = None"
| "indexOf row (r # rs) = (if r = row then Some 0 else map_option Suc (indexOf row rs))"

definition writeRow :: "nat \<Rightarrow> nat \<Rightarrow> 'v \<Rightarrow> 'v vector_update_info \<Rightarrow> 'v vector_update_info res" where
  "writeRow vc row v info =
     (case indexOf row (rowsInVector info) of
        Some i \<Rightarrow> bindR (updR (vectorValues info) i v) (\<lambda>vs. Inr (info\<lparr>vectorValues := vs\<rparr>))
      | None \<Rightarrow> if length (rowsInVector info) < vc
                then Inr (info\<lparr>rowsInVector := rowsInVector info @ [row], vectorValues := vectorValues info @ [v]\<rparr>)
                else Inl OutOfBounds)"

definition updateInChain :: "nat \<Rightarrow> transaction \<Rightarrow> nat \<Rightarrow> nat \<Rightarrow> 'v \<Rightarrow> 'v vector_update_info list \<Rightarrow> ('v vector_update_info list \<times> nat) res" where
  "updateInChain vc t addr row v chain =
     bindR (findVersion t row chain 0 None) (\<lambda>found.
     let (chain, i) = (case found of Some i \<Rightarrow> (chain, i) | None \<Rightarrow> (VectorUpdateInfo_new addr (txnID t) # chain, 0)) in
     bindR (nthR chain i) (\<lambda>info.
     bindR (writeRow vc row v info) (\<lambda>info.
     Inr (chain[i := info], infoAddr info))))"

definition updateInfo_update :: "nat \<Rightarrow> transaction \<Rightarrow> nat \<Rightarrow> nat \<Rightarrow> nat \<Rightarrow> 'v \<Rightarrow> 'v update_info \<Rightarrow> 'v update_info \<times> nat res" where
  "updateInfo_update vc t addr vectorIdx row v updates =
     (let updates = getOrCreateUpdateNode vectorIdx updates in
      case updateInChain vc t addr row v (updates ! vectorIdx) of
        Inl e \<Rightarrow> (updates, Inl e)
      | Inr (chain, a) \<Rightarrow> (updates[vectorIdx := chain], Inr a))"

text \<open>Visiting the versions of a vector that the transaction sees, the head first.\<close>

definition visitVersion :: "transaction \<Rightarrow> ('v vector_update_info \<Rightarrow> 's \<Rightarrow> 's res) \<Rightarrow> 'v vector_update_info \<Rightarrow> 's \<Rightarrow> 's res" where
  "visitVersion t func current s =
     (if version current = txnID t \<or> version current \<le> startTS t then
        bindR (assertR (version current = txnID t \<and> version current \<ge> START_TRANSACTION_ID
            \<or> version current \<le> startTS t \<and> version current < START_TRANSACTION_ID)) (\<lambda>_. func current s)
      else Inr s)"

definition iterateVectorInfo :: "transaction \<Rightarrow> nat \<Rightarrow> ('v vector_update_info \<Rightarrow> 's \<Rightarrow> 's res) \<Rightarrow> 'v update_info \<Rightarrow> 's \<Rightarrow> 's res" where
  "iterateVectorInfo t idx func updates s =
     (if idx \<ge> length updates \<or> updates ! idx = [] then Inr s
      else foldR (visitVersion t func) (updates ! idx) s)"

definition lookupVersion :: "nat \<Rightarrow> nat \<Rightarrow> 'v vector_update_info \<Rightarrow> bool \<times> 'v list \<Rightarrow> (bool \<times> 'v list) res" where
  "lookupVersion row pos info s =
     (if fst s then Inr s
      else case indexOf row (rowsInVector info) of
        None \<Rightarrow> Inr s
      | Some i \<Rightarrow> bindR (nthR (vectorValues info) i) (\<lambda>v. bindR (updR (snd s) pos v) (\<lambda>out. Inr (True, out))))"

definition updateInfo_lookup :: "nat \<Rightarrow> transaction \<Rightarrow> nat \<Rightarrow> nat \<Rightarrow> 'v update_info \<Rightarrow> 'v list \<Rightarrow> 'v list res" where
  "updateInfo_lookup vc t rowInChunk pos updates out =
     (if \<not> isSet updates then Inr out
      else let (vectorIdx, rowInVector) = getQuotientRemainder rowInChunk vc in
        bindR (iterateVectorInfo t vectorIdx (lookupVersion rowInVector pos) updates (False, out)) (\<lambda>s. Inr (snd s)))"

text \<open>
  Scanning: per vector the bits of the rows that already have a value, and the state of the reader.
  \<open>readFromRow\<close> gets the version, the index in it and the position in the output.
\<close>

definition scanRow ::
  "('v vector_update_info \<Rightarrow> nat \<Rightarrow> nat \<Rightarrow> 's \<Rightarrow> 's res) \<Rightarrow> nat \<Rightarrow> nat \<Rightarrow> nat \<Rightarrow> 'v vector_update_info \<Rightarrow> nat \<Rightarrow> bool list \<times> 's \<Rightarrow> (bool list \<times> 's) res" where
  "scanRow readFromRow startOffset endOffset posInVector info i s =
     bindR (nthR (rowsInVector info) i) (\<lambda>row.
     if row < startOffset \<or> row \<ge> endOffset then Inr s
     else bindR (nthR (fst s) (row - startOffset)) (\<lambda>rowUpdated.
       if rowUpdated then Inr s
       else bindR (readFromRow info i (posInVector + (row - startOffset)) (snd s)) (\<lambda>out.
            bindR (updR (fst s) (row - startOffset) True) (\<lambda>rowsUpdated. Inr (rowsUpdated, out)))))"

definition scanVersion ::
  "('v vector_update_info \<Rightarrow> nat \<Rightarrow> nat \<Rightarrow> 's \<Rightarrow> 's res) \<Rightarrow> nat \<Rightarrow> nat \<Rightarrow> nat \<Rightarrow> 'v vector_update_info \<Rightarrow> bool list \<times> 's \<Rightarrow> (bool list \<times> 's) res" where
  "scanVersion readFromRow startOffset endOffset posInVector info s =
     (if rowsInVector info = [] then Inr s
      else if length (filter id (fst s)) = endOffset - startOffset then Inr s
      else foldR (scanRow readFromRow startOffset endOffset posInVector info) [0..<length (rowsInVector info)] s)"

definition scanVector ::
  "nat \<Rightarrow> transaction \<Rightarrow> ('v vector_update_info \<Rightarrow> nat \<Rightarrow> nat \<Rightarrow> 's \<Rightarrow> 's res) \<Rightarrow> nat \<Rightarrow> nat \<Rightarrow> 'v update_info \<Rightarrow> nat \<Rightarrow> nat \<times> 's \<Rightarrow> (nat \<times> 's) res" where
  "scanVector vc t readFromRow startOffsetToScan numRowsToScan updates idx s =
     (let (startVectorIdx, startOffsetInVector) = getQuotientRemainder startOffsetToScan vc;
          (endVectorIdx, endOffsetInVector) = getQuotientRemainder (startOffsetToScan + numRowsToScan) vc;
          startOffset = (if idx = startVectorIdx then startOffsetInVector else 0);
          endOffset = (if idx = endVectorIdx then endOffsetInVector else vc) in
      bindR (iterateVectorInfo t idx (scanVersion readFromRow startOffset endOffset (fst s)) updates (replicate vc False, snd s)) (\<lambda>r.
      Inr (fst s + (endOffset - startOffset), snd r)))"

definition iterateScan ::
  "nat \<Rightarrow> transaction \<Rightarrow> nat \<Rightarrow> nat \<Rightarrow> nat \<Rightarrow> ('v vector_update_info \<Rightarrow> nat \<Rightarrow> nat \<Rightarrow> 's \<Rightarrow> 's res) \<Rightarrow> 'v update_info \<Rightarrow> 's \<Rightarrow> 's res" where
  "iterateScan vc t startOffsetToScan numRowsToScan startPosInOutput readFromRow updates s =
     (if \<not> isSet updates then Inr s
      else bindR (foldR (scanVector vc t readFromRow startOffsetToScan numRowsToScan updates)
             [startOffsetToScan div vc..<Suc ((startOffsetToScan + numRowsToScan) div vc)] (startPosInOutput, s)) (\<lambda>r. Inr (snd r)))"

definition readValue :: "'v vector_update_info \<Rightarrow> nat \<Rightarrow> nat \<Rightarrow> 'v list \<Rightarrow> 'v list res" where
  "readValue info i pos out = bindR (nthR (vectorValues info) i) (\<lambda>v. updR out pos v)"

definition updateInfo_scan :: "nat \<Rightarrow> transaction \<Rightarrow> nat \<Rightarrow> nat \<Rightarrow> 'v update_info \<Rightarrow> 'v list \<Rightarrow> 'v list res" where
  "updateInfo_scan vc t offsetInChunk numRows updates out = iterateScan vc t offsetInChunk numRows 0 readValue updates out"

definition updateInfo_scanCommitted :: "nat \<Rightarrow> transaction \<Rightarrow> nat \<Rightarrow> nat \<Rightarrow> nat \<Rightarrow> 'v update_info \<Rightarrow> 'v list \<Rightarrow> 'v list res" where
  "updateInfo_scanCommitted vc t startOffsetInOutput startRowScanned numRows updates out =
     iterateScan vc t startRowScanned numRows startOffsetInOutput readValue updates out"

definition updateInfo_hasUpdates :: "nat \<Rightarrow> transaction \<Rightarrow> nat \<Rightarrow> nat \<Rightarrow> 'v update_info \<Rightarrow> bool res" where
  "updateInfo_hasUpdates vc t startRow numRows updates = iterateScan vc t startRow numRows 0 (\<lambda>_ _ _ _. Inr True) updates False"

definition getNumUpdatedRows :: "transaction \<Rightarrow> 'v update_info \<Rightarrow> nat res" where
  "getNumUpdatedRows t updates =
     bindR (foldR (\<lambda>vectorIdx. iterateVectorInfo t vectorIdx (\<lambda>info rows. Inr (fold List.insert (rowsInVector info) rows)) updates)
              [0..<length updates] []) (\<lambda>updatedRows. Inr (length updatedRows))"

section \<open>Commit and rollback\<close>

definition updateInfo_commit :: "nat \<Rightarrow> nat \<Rightarrow> transaction_t \<Rightarrow> 'v update_info \<Rightarrow> 'v update_info res" where
  "updateInfo_commit vectorIdx addr cts updates =
     bindR (getUpdateNode vectorIdx updates) (\<lambda>chain.
     bindR (assertR (addr \<in> infoAddr ` set chain)) (\<lambda>_.
     Inr (updates[vectorIdx := map (\<lambda>info. if infoAddr info = addr then info\<lparr>version := cts\<rparr> else info) chain])))"

fun removeVersion :: "transaction_t \<Rightarrow> 'v vector_update_info list \<Rightarrow> 'v vector_update_info list" where
  "removeVersion v [] = []"
| "removeVersion v (current # older) = (if version current = v then older else current # removeVersion v older)"

definition updateInfo_rollback :: "nat \<Rightarrow> transaction_t \<Rightarrow> 'v update_info \<Rightarrow> 'v update_info res" where
  "updateInfo_rollback vectorIdx v updates =
     bindR (assertR (length updates > vectorIdx)) (\<lambda>_.
     Inr (updates[vectorIdx := removeVersion v (updates ! vectorIdx)]))"

definition updateInfo_clearVectorInfo :: "nat \<Rightarrow> 'v update_info \<Rightarrow> 'v update_info res" where
  "updateInfo_clearVectorInfo vectorIdx updates = updR updates vectorIdx []"

section \<open>The meaning of a chain\<close>

text \<open>
  A version maps rows to values; a chain gives a transaction the value of the first version it sees
  that has the row.
\<close>

definition visibleVersion :: "transaction \<Rightarrow> 'v vector_update_info \<Rightarrow> bool" where
  "visibleVersion t info = (version info = txnID t \<or> version info \<le> startTS t)"

definition infoValue :: "'v vector_update_info \<Rightarrow> nat \<rightharpoonup> 'v" where
  "infoValue info = map_of (zip (rowsInVector info) (vectorValues info))"

fun chainValue :: "transaction \<Rightarrow> 'v vector_update_info list \<Rightarrow> nat \<rightharpoonup> 'v" where
  "chainValue t [] = Map.empty"
| "chainValue t (info # older) = (if visibleVersion t info then chainValue t older ++ infoValue info else chainValue t older)"

definition updatedValue :: "nat \<Rightarrow> transaction \<Rightarrow> 'v update_info \<Rightarrow> nat \<rightharpoonup> 'v" where
  "updatedValue vc t updates row = (if row div vc < length updates then chainValue t (updates ! (row div vc)) (row mod vc) else None)"

definition info_ok :: "nat \<Rightarrow> 'v vector_update_info \<Rightarrow> bool" where
  "info_ok vc info \<longleftrightarrow> distinct (rowsInVector info) \<and> (\<forall>row \<in> set (rowsInVector info). row < vc) \<and> length (vectorValues info) = length (rowsInVector info)"

definition updates_ok :: "nat \<Rightarrow> 'v update_info \<Rightarrow> bool" where
  "updates_ok vc updates \<longleftrightarrow> (\<forall>chain \<in> set updates. \<forall>info \<in> set chain. info_ok vc info)"

text \<open>Running transactions, and the transaction of a checkpoint, which sees every committed version.\<close>

definition txn_ok :: "transaction \<Rightarrow> bool" where
  "txn_ok t \<longleftrightarrow> startTS t < START_TRANSACTION_ID \<and> (txnID t \<ge> START_TRANSACTION_ID \<or> txnID t \<le> startTS t)"

lemma updates_okD: "updates_ok vc updates \<Longrightarrow> idx < length updates \<Longrightarrow> info \<in> set (updates ! idx) \<Longrightarrow> info_ok vc info"
  by (auto simp: updates_ok_def)

lemma indexOf_Some: "indexOf row rows = Some i \<Longrightarrow> i < length rows \<and> rows ! i = row"
  by (induction rows arbitrary: i) (auto split: if_splits)

lemma indexOf_None: "indexOf row rows = None \<longleftrightarrow> row \<notin> set rows"
  by (induction rows) auto

lemma map_of_indexOf:
  "length vs = length rows \<Longrightarrow> map_of (zip rows vs) row = map_option ((!) vs) (indexOf row rows)"
  by (induction rows vs rule: list_induct2') (auto simp: option.map_comp comp_def)

lemma dom_infoValue: "info_ok vc info \<Longrightarrow> dom (infoValue info) = set (rowsInVector info)"
  by (auto simp: infoValue_def info_ok_def dom_map_of_zip)

lemma visitVersion_visible:
  "txn_ok t \<Longrightarrow> visitVersion t func info s = (if visibleVersion t info then func info s else Inr s)"
  unfolding visitVersion_def visibleVersion_def txn_ok_def using le_less_trans [of "version info" "startTS t" START_TRANSACTION_ID] by auto

lemma iterateVectorInfo_fold:
  "iterateVectorInfo t idx func updates s = (if idx < length updates then foldR (visitVersion t func) (updates ! idx) s else Inr s)"
  by (auto simp: iterateVectorInfo_def)

section \<open>Lookup\<close>

lemma lookup_chain:
  assumes "txn_ok t" "pos < length out" "\<forall>info \<in> set chain. info_ok vc info"
  shows "foldR (visitVersion t (lookupVersion row pos)) chain (b, out) =
    Inr (if b then (True, out) else case chainValue t chain row of None \<Rightarrow> (False, out) | Some v \<Rightarrow> (True, out[pos := v]))"
  using assms(2,3)
proof (induction chain arbitrary: b out)
  case (Cons info older)
  have "lookupVersion row pos info (b, out) = Inr (if b then (True, out) else case infoValue info row of None \<Rightarrow> (False, out) | Some v \<Rightarrow> (True, out[pos := v]))"
    using Cons.prems indexOf_Some [of row "rowsInVector info"]
    by (auto simp: lookupVersion_def infoValue_def info_ok_def map_of_indexOf split: option.splits)
  then show ?case using Cons by (auto simp: visitVersion_visible [OF assms(1)] map_add_def split: option.splits)
qed simp

lemma lookup_value:
  assumes "updates_ok vc updates" "txn_ok t" "pos < length out"
  shows "updateInfo_lookup vc t row pos updates out = Inr (case updatedValue vc t updates row of None \<Rightarrow> out | Some v \<Rightarrow> out[pos := v])"
proof (cases "row div vc < length updates")
  case True
  then have "\<forall>info \<in> set (updates ! (row div vc)). info_ok vc info" using updates_okD [OF assms(1)] by blast
  from lookup_chain [OF assms(2,3) this] True show ?thesis
    by (auto simp: updateInfo_lookup_def isSet_def getQuotientRemainder_def iterateVectorInfo_fold updatedValue_def split: option.splits)
qed (auto simp: updateInfo_lookup_def isSet_def getQuotientRemainder_def iterateVectorInfo_fold updatedValue_def)

section \<open>Scans\<close>

text \<open>
  A reader gets every value once. Its state is determined by the values it got: \<open>St m\<close> is the state
  after the positions and values of \<open>m\<close>.
\<close>

locale row_reader =
  fixes readRow :: "'v vector_update_info \<Rightarrow> nat \<Rightarrow> nat \<Rightarrow> 's \<Rightarrow> 's res" and St :: "(nat \<rightharpoonup> 'v) \<Rightarrow> 's" and limit :: nat
  assumes read_ok: "i < length (vectorValues info) \<Longrightarrow> pos < limit \<Longrightarrow> m pos = None \<Longrightarrow>
    readRow info i pos (St m) = Inr (St (m(pos \<mapsto> vectorValues info ! i)))"

text \<open>The positions from \<open>pos\<close> on hold the rows of a range, the others are as in \<open>m\<close>.\<close>

definition placed :: "(nat \<rightharpoonup> 'v) \<Rightarrow> nat \<Rightarrow> nat \<Rightarrow> nat \<Rightarrow> (nat \<rightharpoonup> 'v) \<Rightarrow> nat \<rightharpoonup> 'v" where
  "placed m pos s e f j = (if pos \<le> j \<and> j < pos + (e - s) then f (s + (j - pos)) else m j)"

definition scanBits :: "nat \<Rightarrow> nat \<Rightarrow> nat \<Rightarrow> (nat \<rightharpoonup> 'v) \<Rightarrow> bool list" where
  "scanBits vc s e f = map (\<lambda>k. k < e - s \<and> f (s + k) \<noteq> None) [0..<vc]"

lemma placed_cong: "(\<And>row. s \<le> row \<Longrightarrow> row < e \<Longrightarrow> f row = g row) \<Longrightarrow> placed m pos s e f = placed m pos s e g"
  by (auto simp: placed_def fun_eq_iff)

lemma scanBits_cong: "(\<And>row. s \<le> row \<Longrightarrow> row < e \<Longrightarrow> f row = g row) \<Longrightarrow> scanBits vc s e f = scanBits vc s e g"
  by (auto simp: scanBits_def)

lemma scanBits_empty [simp]: "scanBits vc s e Map.empty = replicate vc False"
  by (rule nth_equalityI) (auto simp: scanBits_def)

lemma scanBits_upd: "s \<le> row \<Longrightarrow> row < e \<Longrightarrow> row - s < vc \<Longrightarrow> (scanBits vc s e f)[row - s := True] = scanBits vc s e (f(row \<mapsto> v))"
  by (rule nth_equalityI) (auto simp: scanBits_def nth_list_update)

lemma placed_upd: "s \<le> row \<Longrightarrow> row < e \<Longrightarrow> (placed m pos s e f)(pos + (row - s) \<mapsto> v) = placed m pos s e (f(row \<mapsto> v))"
  by (auto simp: placed_def fun_eq_iff)

lemma scanBits_full:
  assumes "length (filter id (scanBits vc s e f)) = e - s" "e \<le> vc" "s \<le> row" "row < e"
  shows "f row \<noteq> None"
proof (rule ccontr)
  assume "\<not> f row \<noteq> None"
  then have "row - s \<notin> {k. k < vc \<and> k < e - s \<and> f (s + k) \<noteq> None}" using assms(3) by simp
  moreover have "row - s \<in> {..<e - s}" using assms(3,4) by simp
  ultimately have "{k. k < vc \<and> k < e - s \<and> f (s + k) \<noteq> None} \<subset> {..<e - s}" by blast
  then have "card {k. k < vc \<and> k < e - s \<and> f (s + k) \<noteq> None} < e - s" using psubset_card_mono [of "{..<e - s}"] by simp
  moreover have "length (filter id (scanBits vc s e f)) = card {k. k < vc \<and> k < e - s \<and> f (s + k) \<noteq> None}"
    unfolding length_filter_conv_card by (rule arg_cong [where f = card]) (auto simp: scanBits_def)
  ultimately show False using assms(1) by simp
qed

lemma range_size:
  fixes a s e off :: nat
  assumes "a + s = max a off"
  shows "(a - off) + (e - s) = (a + e) - off"
  using assms by (simp add: max_def split: if_splits)

lemma row_position:
  fixes a s off p j :: nat
  assumes "a + s = max a off" "p + (a - off) \<le> j"
  shows "off + (j - p) = a + (s + (j - (p + (a - off))))"
  using assms by (simp add: max_def split: if_splits)

context row_reader
begin

lemma scanRow_step:
  assumes "info_ok vc info" "i < length (rowsInVector info)" "e \<le> vc" "pos + (e - s) \<le> limit"
  shows "scanRow readRow s e pos info i (scanBits vc s e f, St (placed m pos s e f)) =
    (let g = (if f (rowsInVector info ! i) = None then f(rowsInVector info ! i \<mapsto> vectorValues info ! i) else f) in
     Inr (scanBits vc s e g, St (placed m pos s e g)))"
proof (cases "s \<le> rowsInVector info ! i \<and> rowsInVector info ! i < e")
  case False
  then have "scanBits vc s e (f(rowsInVector info ! i \<mapsto> v)) = scanBits vc s e f" "placed m pos s e (f(rowsInVector info ! i \<mapsto> v)) = placed m pos s e f" for v
    by (auto intro!: scanBits_cong placed_cong)
  moreover have "rowsInVector info ! i < s \<or> e \<le> rowsInVector info ! i" using False by auto
  ultimately show ?thesis using assms(2) by (simp add: scanRow_def)
next
  case True
  let ?r = "rowsInVector info ! i"
  have len: "?r - s < length (scanBits vc s e f)" "i < length (vectorValues info)" "pos + (?r - s) < limit"
    using True assms by (auto simp: scanBits_def info_ok_def)
  have bit: "scanBits vc s e f ! (?r - s) = (f ?r \<noteq> None)" using True assms(3) by (subst scanBits_def, subst nth_map) auto
  have place: "placed m pos s e f (pos + (?r - s)) = f ?r" using True by (auto simp: placed_def)
  show ?thesis
  proof (cases "f ?r")
    case None
    then have "readRow info i (pos + (?r - s)) (St (placed m pos s e f)) = Inr (St (placed m pos s e (f(?r \<mapsto> vectorValues info ! i))))"
      using read_ok [OF len(2,3)] place placed_upd True by metis
    moreover have "(scanBits vc s e f)[?r - s := True] = scanBits vc s e (f(?r \<mapsto> vectorValues info ! i))"
      using True assms(3) by (intro scanBits_upd) auto
    ultimately show ?thesis using True None len(1) bit assms(2) by (simp add: scanRow_def Let_def)
  qed (use True len bit assms(2) in \<open>simp add: scanRow_def Let_def\<close>)
qed

lemma scanVersion_step:
  assumes "info_ok vc info" "e \<le> vc" "pos + (e - s) \<le> limit"
  shows "scanVersion readRow s e pos info (scanBits vc s e f, St (placed m pos s e f)) =
    Inr (scanBits vc s e (infoValue info ++ f), St (placed m pos s e (infoValue info ++ f)))"
proof -
  let ?rows = "rowsInVector info" and ?vs = "vectorValues info"
  let ?g = "\<lambda>i. map_of (zip (take i ?rows) (take i ?vs)) ++ f"
  have len: "length ?vs = length ?rows" "distinct ?rows" using assms(1) by (auto simp: info_ok_def)
  have "foldR (scanRow readRow s e pos info) [0..<n] (scanBits vc s e f, St (placed m pos s e f)) =
      Inr (scanBits vc s e (?g n), St (placed m pos s e (?g n)))" if "n \<le> length ?rows" for n
    using that
  proof (induction n)
    case (Suc n)
    have "?rows ! n \<notin> set (take n ?rows)" using len(2) Suc.prems by (auto simp: in_set_conv_nth nth_eq_iff_index_eq)
    then have none: "map_of (zip (take n ?rows) (take n ?vs)) (?rows ! n) = None" by (auto simp: map_of_eq_None_iff dest!: set_zip_leftD)
    have "map_of (zip (take (Suc n) ?rows) (take (Suc n) ?vs)) = (map_of (zip (take n ?rows) (take n ?vs)))(?rows ! n \<mapsto> ?vs ! n)"
      using Suc.prems len(1) none by (auto simp: take_Suc_conv_app_nth fun_eq_iff map_add_def simp del: map_of_eq_None_iff map_of_zip_is_None split: option.split)
    then have "(if ?g n (?rows ! n) = None then (?g n)(?rows ! n \<mapsto> ?vs ! n) else ?g n) = ?g (Suc n)"
      using none by (auto simp: fun_eq_iff map_add_def split: option.split)
    then show ?case using Suc scanRow_step [OF assms(1) _ assms(2,3), of n ] by (auto simp: foldR_append Let_def)
  qed simp
  from this [of "length ?rows"]
  have loop: "foldR (scanRow readRow s e pos info) [0..<length ?rows] (scanBits vc s e f, St (placed m pos s e f)) =
      Inr (scanBits vc s e (infoValue info ++ f), St (placed m pos s e (infoValue info ++ f)))"
    using len(1) by (simp add: infoValue_def)
  show ?thesis
  proof (cases "length (filter id (scanBits vc s e f)) = e - s")
    case True
    then have "f row \<noteq> None" if "s \<le> row" "row < e" for row using scanBits_full [OF True assms(2)] that by blast
    then have "(infoValue info ++ f) row = f row" if "s \<le> row" "row < e" for row using that by (fastforce simp: map_add_def split: option.split)
    then show ?thesis using True loop scanBits_cong [of s e "infoValue info ++ f" f] placed_cong [of s e "infoValue info ++ f" f]
      by (simp add: scanVersion_def)
  next
    case False
    then show ?thesis using loop by (auto simp: scanVersion_def infoValue_def)
  qed
qed

lemma scan_chain:
  assumes "txn_ok t" "\<forall>info \<in> set chain. info_ok vc info" "e \<le> vc" "pos + (e - s) \<le> limit"
  shows "foldR (visitVersion t (scanVersion readRow s e pos)) chain (scanBits vc s e f, St (placed m pos s e f)) =
    Inr (scanBits vc s e (chainValue t chain ++ f), St (placed m pos s e (chainValue t chain ++ f)))"
  using assms(2)
proof (induction chain arbitrary: f)
  case (Cons info older)
  then show ?case using scanVersion_step [OF _ assms(3,4)] by (simp add: visitVersion_visible [OF assms(1)])
qed simp

text \<open>The values of the rows from \<open>off\<close> on, from position \<open>p\<close> on.\<close>

lemma updates_scan_vector:
  assumes ok: "txn_ok t" "updates_ok vc updates" "0 < vc" and idx: "off div vc \<le> idx" "idx \<le> (off + n) div vc"
    and lim: "p + n \<le> limit"
    and m: "m = (\<lambda>j. if p \<le> j \<and> j < p + (min (idx * vc) (off + n) - off) then updatedValue vc t updates (off + (j - p)) else None)"
  shows "scanVector vc t readRow off n updates idx (p + (min (idx * vc) (off + n) - off), St m) =
    Inr (p + (min (Suc idx * vc) (off + n) - off),
      St (\<lambda>j. if p \<le> j \<and> j < p + (min (Suc idx * vc) (off + n) - off) then updatedValue vc t updates (off + (j - p)) else None))"
proof -
  define s where "s = (if idx = off div vc then off mod vc else 0)"
  define e where "e = (if idx = (off + n) div vc then (off + n) mod vc else vc)"
  define pos where "pos = p + (min (idx * vc) (off + n) - off)"
  let ?f = "\<lambda>row. if idx < length updates then chainValue t (updates ! idx) row else None"
  let ?m = "\<lambda>j. if p \<le> j \<and> j < p + (min (Suc idx * vc) (off + n) - off) then updatedValue vc t updates (off + (j - p)) else None"
  have quot: "off = off div vc * vc + off mod vc" "off + n = (off + n) div vc * vc + (off + n) mod vc" by simp_all
  have first: "idx * vc + s = max (idx * vc) off"
  proof (cases "idx = off div vc")
    case False
    then have "Suc (off div vc) * vc \<le> idx * vc" using idx(1) by (intro mult_le_mono1) simp
    moreover have "off < Suc (off div vc) * vc" using dividend_less_div_times [OF ok(3)] by simp
    ultimately show ?thesis using False by (simp add: max_def s_def)
  qed (use quot(1) in \<open>simp add: max_def s_def\<close>)
  have final: "idx * vc + e = min (Suc idx * vc) (off + n)"
  proof (cases "idx = (off + n) div vc")
    case False
    then have "Suc idx * vc \<le> (off + n) div vc * vc" using idx(2) by (intro mult_le_mono1) simp
    also have "\<dots> \<le> off + n" by (rule div_times_less_eq_dividend)
    finally show ?thesis using False by (simp add: min_def e_def)
  qed (use dividend_less_div_times [OF ok(3), of "off + n"] in \<open>simp add: min_def e_def\<close>)
  have e: "e \<le> vc" using ok(3) by (simp add: less_imp_le e_def)
  have le: "idx * vc \<le> off + n" using mult_le_mono1 [OF idx(2), of vc] div_times_less_eq_dividend [of "off + n" vc] by linarith
  have size: "pos + (e - s) = p + (min (Suc idx * vc) (off + n) - off)"
    using range_size [OF first, of e] unfolding final pos_def min_absorb1 [OF le] by (simp only: add.assoc)
  have room: "pos + (e - s) \<le> limit" using lim unfolding size by simp
  have same: "placed m pos s e ?f = ?m"
  proof
    fix j
    show "placed m pos s e ?f j = ?m j"
    proof (cases "pos \<le> j \<and> j < pos + (e - s)")
      case True
      have row: "off + (j - p) = idx * vc + (s + (j - pos))"
        using conjunct1 [OF True] unfolding pos_def min_absorb1 [OF le] by (rule row_position [OF first])
      have "s + (j - pos) < vc" using True e by linarith
      then have "(off + (j - p)) div vc = idx" "(off + (j - p)) mod vc = s + (j - pos)" using row by simp_all
      then have "updatedValue vc t updates (off + (j - p)) = ?f (s + (j - pos))" by (simp add: updatedValue_def)
      moreover have "p \<le> j" "j < p + (min (Suc idx * vc) (off + n) - off)" using True unfolding size by (simp_all add: pos_def)
      ultimately show ?thesis using True by (simp only: placed_def simp_thms if_True)
    next
      case False
      then have "(j < pos) = (j < pos + (e - s))" by linarith
      then show ?thesis using False by (simp only: placed_def m pos_def [symmetric] size [symmetric] if_False)
    qed
  qed
  have init: "placed m pos s e Map.empty = m" by (simp add: m placed_def pos_def fun_eq_iff)
  have "iterateVectorInfo t idx (scanVersion readRow s e pos) updates (replicate vc False, St m) = Inr (scanBits vc s e ?f, St ?m)"
  proof (cases "idx < length updates")
    case True
    then have "\<forall>info \<in> set (updates ! idx). info_ok vc info" using updates_okD [OF ok(2)] by blast
    from scan_chain [OF ok(1) this e room, of Map.empty m] True show ?thesis using init same by (simp add: iterateVectorInfo_fold)
  next
    case False
    then show ?thesis using init same by (simp add: iterateVectorInfo_fold)
  qed
  then show ?thesis using size by (simp only: scanVector_def getQuotientRemainder_def Let_def prod.case fst_conv snd_conv
      s_def [symmetric] e_def [symmetric] pos_def [symmetric] bindR_simps)
qed

lemma scan_all:
  assumes ok: "txn_ok t" "updates_ok vc updates" "0 < vc" and lim: "p + n \<le> limit"
  shows "iterateScan vc t off n p readRow updates (St Map.empty) =
    Inr (St (\<lambda>j. if p \<le> j \<and> j < p + n then updatedValue vc t updates (off + (j - p)) else None))"
proof (cases "isSet updates")
  case True
  let ?m = "\<lambda>idx j. if p \<le> j \<and> j < p + (min (idx * vc) (off + n) - off) then updatedValue vc t updates (off + (j - p)) else None"
  let ?I = "\<lambda>idx r. r = (p + (min (idx * vc) (off + n) - off), St (?m idx))"
  have start: "min (off div vc * vc) (off + n) - off = 0" using div_times_less_eq_dividend [of off vc] by (simp add: min.coboundedI1)
  have "off + n \<le> Suc ((off + n) div vc) * vc" using dividend_less_div_times [OF ok(3), of "off + n"] by (simp only: mult_Suc less_imp_le)
  then have stop: "min (Suc ((off + n) div vc) * vc) (off + n) - off = n" by (simp only: min_absorb2 add_diff_cancel_left')
  have "\<exists>r. foldR (scanVector vc t readRow off n updates) [off div vc..<Suc ((off + n) div vc)] (p, St Map.empty) = Inr r \<and> ?I (Suc ((off + n) div vc)) r"
  proof (rule foldR_upt_invariant [where I = ?I])
    have "?m (off div vc) = Map.empty" unfolding start by (intro ext if_not_P) auto
    then show "?I (off div vc) (p, St Map.empty)" unfolding start by simp
    show "off div vc \<le> Suc ((off + n) div vc)" by (meson div_le_mono le_SucI le_add1)
    fix idx r assume idx: "off div vc \<le> idx" "idx < Suc ((off + n) div vc)" and r: "?I idx r"
    show "\<exists>r'. scanVector vc t readRow off n updates idx r = Inr r' \<and> ?I (Suc idx) r'"
      unfolding r using updates_scan_vector [OF ok idx(1) _ lim refl] idx(2) by (simp only: less_Suc_eq_le simp_thms) blast
  qed
  then have "foldR (scanVector vc t readRow off n updates) [off div vc..<Suc ((off + n) div vc)] (p, St Map.empty) =
      Inr (p + n, St (\<lambda>j. if p \<le> j \<and> j < p + n then updatedValue vc t updates (off + (j - p)) else None))"
    unfolding stop by blast
  then show ?thesis using True by (simp only: iterateScan_def simp_thms if_False bindR_simps snd_conv)
next
  case False
  then have "updatedValue vc t updates row = None" for row by (simp add: isSet_def updatedValue_def)
  then show ?thesis using False by (simp add: iterateScan_def cong: if_cong)
qed

end

definition overlaid :: "'v list \<Rightarrow> (nat \<rightharpoonup> 'v) \<Rightarrow> 'v list" where
  "overlaid out m = map (\<lambda>j. case m j of None \<Rightarrow> out ! j | Some v \<Rightarrow> v) [0..<length out]"

interpretation value_reader: row_reader readValue "overlaid out" "length out" for out :: "'v list"
proof
  fix i pos and info :: "'v vector_update_info" and m :: "nat \<rightharpoonup> 'v"
  assume "i < length (vectorValues info)" "pos < length out"
  moreover have "(overlaid out m)[pos := v] = overlaid out (m(pos \<mapsto> v))" for v
    by (rule nth_equalityI) (auto simp: overlaid_def nth_list_update)
  ultimately show "readValue info i pos (overlaid out m) = Inr (overlaid out (m(pos \<mapsto> vectorValues info ! i)))"
    by (simp add: readValue_def overlaid_def)
qed

interpretation update_finder: row_reader "\<lambda>_ _ _ _. Inr True" "\<lambda>m. m \<noteq> Map.empty" n for n
  by unfold_locales auto

lemma overlaid_empty [simp]: "overlaid out Map.empty = out"
  by (rule nth_equalityI) (auto simp: overlaid_def)

lemma scan_value:
  assumes "updates_ok vc updates" "txn_ok t" "0 < vc" "n \<le> length out"
  shows "updateInfo_scan vc t off n updates out =
    Inr (overlaid out (\<lambda>j. if j < n then updatedValue vc t updates (off + j) else None))"
  using value_reader.scan_all [OF assms(2,1,3), of 0 n out off] assms(4) by (simp add: updateInfo_scan_def cong: if_cong)

lemma scanCommitted_value:
  assumes "updates_ok vc updates" "txn_ok t" "0 < vc" "p + n \<le> length out"
  shows "updateInfo_scanCommitted vc t p off n updates out =
    Inr (overlaid out (\<lambda>j. if p \<le> j \<and> j < p + n then updatedValue vc t updates (off + (j - p)) else None))"
  using value_reader.scan_all [OF assms(2,1,3,4), of off] by (simp add: updateInfo_scanCommitted_def)

lemma hasUpdates_value:
  assumes "updates_ok vc updates" "txn_ok t" "0 < vc"
  shows "updateInfo_hasUpdates vc t off n updates = Inr (\<exists>j < n. updatedValue vc t updates (off + j) \<noteq> None)"
proof -
  let ?m = "\<lambda>j. if 0 \<le> j \<and> j < 0 + n then updatedValue vc t updates (off + (j - 0)) else None"
  have "iterateScan vc t off n 0 (\<lambda>_ _ _ _. Inr True) updates False = Inr (?m \<noteq> Map.empty)"
    using update_finder.scan_all [OF assms(2,1,3), of 0 n n off] by (simp only: add_0 order_refl not_True_eq_False simp_thms)
  moreover have "(?m \<noteq> Map.empty) = (\<exists>j < n. updatedValue vc t updates (off + j) \<noteq> None)" by (auto simp: fun_eq_iff)
  ultimately show ?thesis by (simp only: updateInfo_hasUpdates_def)
qed

section \<open>Updating\<close>

text \<open>The version of a transaction in a chain, of which there is at most one.\<close>

definition ownVersions :: "transaction_t \<Rightarrow> 'v vector_update_info list \<Rightarrow> 'v vector_update_info list" where
  "ownVersions v chain = filter (\<lambda>info. version info = v) chain"

definition otherVersions :: "transaction_t \<Rightarrow> 'v vector_update_info list \<Rightarrow> 'v vector_update_info list" where
  "otherVersions v chain = filter (\<lambda>info. version info \<noteq> v) chain"

text \<open>Another transaction has a version of the row that this one does not see.\<close>

definition conflicting :: "transaction \<Rightarrow> nat \<Rightarrow> 'v vector_update_info \<Rightarrow> bool" where
  "conflicting t row info \<longleftrightarrow> version info \<noteq> txnID t \<and> version info > startTS t \<and> row \<in> set (rowsInVector info)"

lemma findVersion_conflict:
  "txnID t \<ge> START_TRANSACTION_ID \<Longrightarrow> \<exists>info \<in> set chain. conflicting t row info \<Longrightarrow> findVersion t row chain i found = Inl updateConflict"
  by (induction chain arbitrary: i found) (auto simp: conflicting_def)

lemma findVersion_none:
  "ownVersions (txnID t) chain = [] \<Longrightarrow> \<not> (\<exists>info \<in> set chain. conflicting t row info) \<Longrightarrow> findVersion t row chain i found = Inr found"
  by (induction chain arbitrary: i found) (auto simp: conflicting_def ownVersions_def split: if_splits)

lemma findVersion_own:
  "txnID t \<ge> START_TRANSACTION_ID \<Longrightarrow> ownVersions (txnID t) newer = [] \<Longrightarrow> version info = txnID t \<Longrightarrow> ownVersions (txnID t) older = [] \<Longrightarrow>
    \<not> (\<exists>info \<in> set (newer @ info # older). conflicting t row info) \<Longrightarrow>
    findVersion t row (newer @ info # older) i found = Inr (Some (i + length newer))"
proof (induction newer arbitrary: i found)
  case Nil
  then show ?case using findVersion_none [of t older row "Suc i" "Some i"] by simp
next
  case (Cons a newer)
  then have "findVersion t row (newer @ info # older) (Suc i) found = Inr (Some (Suc i + length newer))"
    by (intro Cons.IH) (auto simp: ownVersions_def split: if_splits)
  then show ?case using Cons.prems by (auto simp: conflicting_def ownVersions_def split: if_splits)
qed

lemma own_split:
  assumes "length (ownVersions v chain) \<le> 1" "ownVersions v chain \<noteq> []"
  obtains newer info older where "chain = newer @ info # older" "ownVersions v newer = []" "version info = v" "ownVersions v older = []"
proof -
  obtain info where info: "info \<in> set chain" "version info = v" using assms(2) by (auto simp: ownVersions_def filter_empty_conv)
  obtain newer older where chain: "chain = newer @ info # older" using split_list [OF info(1)] by blast
  then show thesis using that [of newer info older] assms(1) info(2) by (simp add: ownVersions_def)
qed

lemma writeRow_ok:
  assumes "info_ok vc info" "row < vc"
  shows "\<exists>info'. writeRow vc row v info = Inr info' \<and> infoAddr info' = infoAddr info \<and> version info' = version info \<and> info_ok vc info'
    \<and> infoValue info' = (infoValue info)(row \<mapsto> v) \<and> set (rowsInVector info') = insert row (set (rowsInVector info))"
proof (cases "indexOf row (rowsInVector info)")
  case None
  then have new: "row \<notin> set (rowsInVector info)" by (simp add: indexOf_None)
  have "card (set (rowsInVector info)) < card {..<vc}" using assms new by (intro psubset_card_mono) (auto simp: info_ok_def)
  then have "length (rowsInVector info) < vc" using assms(1) by (simp add: info_ok_def distinct_card)
  moreover have "map_of (zip (rowsInVector info @ [row]) (vectorValues info @ [v])) = (map_of (zip (rowsInVector info) (vectorValues info)))(row \<mapsto> v)"
  proof -
    have "map_of (zip (rowsInVector info) (vectorValues info)) row = None"
      using new by (auto simp: map_of_eq_None_iff dest!: set_zip_leftD)
    then show ?thesis using assms(1) by (auto simp: info_ok_def fun_eq_iff map_add_def simp del: map_of_eq_None_iff map_of_zip_is_None split: option.split)
  qed
  ultimately show ?thesis using None new assms by (auto simp: writeRow_def info_ok_def infoValue_def)
next
  case (Some i)
  then have i: "i < length (rowsInVector info)" "rowsInVector info ! i = row" using indexOf_Some by auto
  have len: "length (vectorValues info) = length (rowsInVector info)" "distinct (rowsInVector info)" using assms(1) by (simp_all add: info_ok_def)
  have "map_of (zip (rowsInVector info) ((vectorValues info)[i := v])) = (map_of (zip (rowsInVector info) (vectorValues info)))(row \<mapsto> v)"
  proof
    fix x
    have "x = row" if "indexOf x (rowsInVector info) = Some i" using indexOf_Some [OF that] i(2) by simp
    moreover have "j < length (rowsInVector info)" if "indexOf x (rowsInVector info) = Some j" for j using indexOf_Some [OF that] by simp
    ultimately show "map_of (zip (rowsInVector info) ((vectorValues info)[i := v])) x = ((map_of (zip (rowsInVector info) (vectorValues info)))(row \<mapsto> v)) x"
      using Some i(1) len(1) by (cases "indexOf x (rowsInVector info)") (auto simp: map_of_indexOf nth_list_update)
  qed
  then show ?thesis using Some i len assms by (auto simp: writeRow_def info_ok_def infoValue_def insert_absorb)
qed

text \<open>What an update does to a chain: it changes the version of the transaction, or adds one.\<close>

definition updatedChain :: "transaction \<Rightarrow> nat \<Rightarrow> nat \<Rightarrow> nat \<Rightarrow> 'v \<Rightarrow> 'v vector_update_info list \<Rightarrow> 'v vector_update_info list \<Rightarrow> nat \<Rightarrow> bool" where
  "updatedChain t vc addr row v chain chain' a \<longleftrightarrow> (\<exists>newer info older info'. chain' = newer @ info' # older
      \<and> (chain = newer @ info # older \<and> version info = txnID t \<or> newer = [] \<and> chain = older \<and> info = VectorUpdateInfo_new addr (txnID t))
      \<and> ownVersions (txnID t) newer = [] \<and> ownVersions (txnID t) older = []
      \<and> infoAddr info = a \<and> infoAddr info' = a \<and> version info' = txnID t \<and> info_ok vc info'
      \<and> infoValue info' = (infoValue info)(row \<mapsto> v) \<and> set (rowsInVector info') = insert row (set (rowsInVector info)))"

lemma updateInChain_conflict:
  "txnID t \<ge> START_TRANSACTION_ID \<Longrightarrow> \<exists>info \<in> set chain. conflicting t row info \<Longrightarrow> updateInChain vc t addr row v chain = Inl updateConflict"
  by (simp add: updateInChain_def findVersion_conflict)

lemma updateInChain_ok:
  assumes own: "length (ownVersions (txnID t) chain) \<le> 1" and tid: "txnID t \<ge> START_TRANSACTION_ID"
    and ok: "\<forall>info \<in> set chain. info_ok vc info" and row: "row < vc" and free: "\<not> (\<exists>info \<in> set chain. conflicting t row info)"
  shows "\<exists>chain' a. updateInChain vc t addr row v chain = Inr (chain', a) \<and> updatedChain t vc addr row v chain chain' a"
proof (cases "ownVersions (txnID t) chain = []")
  case True
  let ?new = "VectorUpdateInfo_new addr (txnID t)"
  obtain info' where info': "writeRow vc row v ?new = Inr info' \<and> infoAddr info' = infoAddr ?new \<and> version info' = version ?new \<and> info_ok vc info'
      \<and> infoValue info' = (infoValue ?new)(row \<mapsto> v) \<and> set (rowsInVector info') = insert row (set (rowsInVector ?new))"
    using writeRow_ok [of vc ?new row v] row by (auto simp: info_ok_def VectorUpdateInfo_new_def)
  have "updateInChain vc t addr row v chain = Inr (info' # chain, addr)"
    using findVersion_none [OF True free] info' by (simp add: updateInChain_def VectorUpdateInfo_new_def)
  moreover have "updatedChain t vc addr row v chain (info' # chain) addr"
    unfolding updatedChain_def using info' True
    by (intro exI [of _ "[]"] exI [of _ ?new] exI [of _ chain] exI [of _ info']) (simp add: VectorUpdateInfo_new_def ownVersions_def)
  ultimately show ?thesis by blast
next
  case False
  then obtain newer info older where c: "chain = newer @ info # older" "ownVersions (txnID t) newer = []" "version info = txnID t" "ownVersions (txnID t) older = []"
    using own_split [OF own] by blast
  obtain info' where info': "writeRow vc row v info = Inr info' \<and> infoAddr info' = infoAddr info \<and> version info' = version info \<and> info_ok vc info'
      \<and> infoValue info' = (infoValue info)(row \<mapsto> v) \<and> set (rowsInVector info') = insert row (set (rowsInVector info))"
    using writeRow_ok [of vc info row v] ok row c(1) by auto
  have "updateInChain vc t addr row v chain = Inr (newer @ info' # older, infoAddr info)"
    using findVersion_own [OF tid c(2-4), of row 0 None] free info' by (simp add: updateInChain_def c(1))
  moreover have "updatedChain t vc addr row v chain (newer @ info' # older) (infoAddr info)"
    unfolding updatedChain_def using info' c by (intro exI [of _ newer] exI [of _ info] exI [of _ older] exI [of _ info']) simp
  ultimately show ?thesis by blast
qed

lemma updatedChain_versions:
  assumes "updatedChain t vc addr row v chain chain' a" "\<forall>info \<in> set chain. info_ok vc info"
  shows "otherVersions (txnID t) chain' = otherVersions (txnID t) chain" "length (ownVersions (txnID t) chain') = 1"
    "\<forall>info \<in> set chain'. info_ok vc info" "otherVersions (txnID t) chain' = chain \<or> ownVersions (txnID t) chain \<noteq> []"
  using assms by (auto simp: updatedChain_def otherVersions_def ownVersions_def filter_empty_conv VectorUpdateInfo_new_def filter_id_conv)

section \<open>Chains of an update info\<close>

definition chainAt :: "'v update_info \<Rightarrow> nat \<Rightarrow> 'v vector_update_info list" where
  "chainAt updates k = (if k < length updates then updates ! k else [])"

lemma updatedValue_chainAt: "updatedValue vc t updates row = chainValue t (chainAt updates (row div vc)) (row mod vc)"
  by (simp add: updatedValue_def chainAt_def)

lemma updates_ok_chainAt: "updates_ok vc updates \<longleftrightarrow> (\<forall>k. \<forall>info \<in> set (chainAt updates k). info_ok vc info)"
  by (auto simp: updates_ok_def chainAt_def set_conv_nth)

lemma chainAt_create [simp]: "chainAt (getOrCreateUpdateNode k updates) = chainAt updates"
  by (auto simp: chainAt_def getOrCreateUpdateNode_def fun_eq_iff nth_append)

lemma chainAt_upd: "k < length updates \<Longrightarrow> chainAt (updates[k := chain]) = (chainAt updates)(k := chain)"
  by (auto simp: chainAt_def fun_eq_iff)

lemma length_create: "k < length (getOrCreateUpdateNode k updates)" "length updates \<le> length (getOrCreateUpdateNode k updates)"
  by (auto simp: getOrCreateUpdateNode_def)

lemma update_chainAt:
  "updateInfo_update vc t addr k row v updates = (updates', r) \<Longrightarrow>
    (case updateInChain vc t addr row v (chainAt updates k) of
       Inl e \<Rightarrow> r = Inl e \<and> chainAt updates' = chainAt updates
     | Inr (chain, a) \<Rightarrow> r = Inr a \<and> chainAt updates' = (chainAt updates)(k := chain))
    \<and> k < length updates' \<and> length updates \<le> length updates'"
proof -
  have "getOrCreateUpdateNode k updates ! k = chainAt updates k"
    by (metis chainAt_create chainAt_def length_create(1))
  then show "updateInfo_update vc t addr k row v updates = (updates', r) \<Longrightarrow> ?thesis"
    using length_create [where k = k and updates = updates] by (auto simp: updateInfo_update_def Let_def chainAt_upd split: sum.splits)
qed

lemma commit_chainAt:
  assumes "addr \<in> infoAddr ` set (chainAt updates k)"
  shows "\<exists>updates'. updateInfo_commit k addr cts updates = Inr updates' \<and> length updates' = length updates
    \<and> chainAt updates' = (chainAt updates)(k := map (\<lambda>info. if infoAddr info = addr then info\<lparr>version := cts\<rparr> else info) (chainAt updates k))"
  using assms by (auto simp: updateInfo_commit_def getUpdateNode_def chainAt_def fun_eq_iff split: if_splits)

lemma rollback_chainAt:
  "k < length updates \<Longrightarrow> \<exists>updates'. updateInfo_rollback k v updates = Inr updates' \<and> length updates' = length updates
    \<and> chainAt updates' = (chainAt updates)(k := removeVersion v (chainAt updates k))"
  by (auto simp: updateInfo_rollback_def chainAt_def fun_eq_iff)

lemma removeVersion_other: "length (ownVersions v chain) \<le> 1 \<Longrightarrow> removeVersion v chain = otherVersions v chain"
proof (induction chain)
  case (Cons info chain)
  then show ?case by (auto simp: ownVersions_def otherVersions_def filter_empty_conv intro: filter_True [symmetric])
qed (simp add: otherVersions_def)

lemma own_otherVersions [simp]: "ownVersions v (otherVersions v chain) = []" "otherVersions v (otherVersions v chain) = otherVersions v chain"
  by (auto simp: ownVersions_def otherVersions_def filter_empty_conv)

lemma otherVersions_id: "ownVersions v chain = [] \<Longrightarrow> otherVersions v chain = chain"
  by (auto simp: ownVersions_def otherVersions_def filter_empty_conv filter_id_conv)

text \<open>Rolling back the records of a transaction removes its versions from the chains they name.\<close>

lemma rollback_records:
  assumes "\<forall>(k, _, w) \<in> set us. w = v \<and> k < length updates" "\<forall>k. length (ownVersions v (chainAt updates k)) \<le> 1"
  shows "\<exists>updates'. foldR (\<lambda>(k, _, w). updateInfo_rollback k w) us updates = Inr updates' \<and> length updates' = length updates
    \<and> (\<forall>k. chainAt updates' k = (if k \<in> fst ` set us then otherVersions v (chainAt updates k) else chainAt updates k))"
  using assms
proof (induction us arbitrary: updates)
  case (Cons x us)
  obtain k a where x: "x = (k, a, v)" and k: "k < length updates" using Cons.prems(1) by (cases x) auto
  obtain u where u: "updateInfo_rollback k v updates = Inr u" "length u = length updates"
      "chainAt u = (chainAt updates)(k := otherVersions v (chainAt updates k))"
    using rollback_chainAt [OF k, of v] removeVersion_other Cons.prems(2) by metis
  have "\<exists>updates'. foldR (\<lambda>(k, _, w). updateInfo_rollback k w) us u = Inr updates' \<and> length updates' = length u
    \<and> (\<forall>k. chainAt updates' k = (if k \<in> fst ` set us then otherVersions v (chainAt u k) else chainAt u k))"
    using Cons.prems u by (intro Cons.IH) auto
  then show ?case using u x by auto
qed simp

text \<open>Any number of updates by one transaction, successful or not, with the records they push.\<close>

inductive updatesBy :: "nat \<Rightarrow> transaction \<Rightarrow> 'v update_info \<Rightarrow> (nat \<times> nat \<times> transaction_t) list \<Rightarrow> 'v update_info \<Rightarrow> bool"
  for vc :: nat and t :: transaction where
  no_update: "updatesBy vc t updates [] updates"
| refused: "updatesBy vc t updates us updates' \<Longrightarrow> updateInfo_update vc t addr k row v updates' = (updates'', Inl e) \<Longrightarrow> updatesBy vc t updates us updates''"
| updated: "updatesBy vc t updates us updates' \<Longrightarrow> row < vc \<Longrightarrow> updateInfo_update vc t addr k row v updates' = (updates'', Inr a) \<Longrightarrow>
    updatesBy vc t updates (us @ [(k, a, txnID t)]) updates''"

lemma updatesBy_versions:
  assumes "updatesBy vc t updates us updates'" "txnID t \<ge> START_TRANSACTION_ID" "updates_ok vc updates" "\<forall>k. ownVersions (txnID t) (chainAt updates k) = []"
  shows "updates_ok vc updates' \<and> (\<forall>(k, _, w) \<in> set us. w = txnID t \<and> k < length updates')
    \<and> (\<forall>k. otherVersions (txnID t) (chainAt updates' k) = chainAt updates k \<and> length (ownVersions (txnID t) (chainAt updates' k)) = of_bool (k \<in> fst ` set us))"
  using assms
proof (induction rule: updatesBy.induct)
  case (no_update updates)
  then show ?case by (auto simp: otherVersions_id)
next
  case (refused updates us updates' addr k row v updates'' e)
  have same: "chainAt updates'' = chainAt updates'" "length updates' \<le> length updates''"
    using update_chainAt [OF refused(2)] by (auto split: sum.splits)
  then show ?case using refused unfolding updates_ok_chainAt same(1) by fastforce
next
  case (updated updates us updates' row addr k v updates'' a)
  then have IH: "updates_ok vc updates'" "\<forall>(k, _, w) \<in> set us. w = txnID t \<and> k < length updates'"
      "\<And>k. otherVersions (txnID t) (chainAt updates' k) = chainAt updates k" "\<And>k. length (ownVersions (txnID t) (chainAt updates' k)) = of_bool (k \<in> fst ` set us)"
    by blast+
  obtain chain where chain: "updateInChain vc t addr row v (chainAt updates' k) = Inr (chain, a)" "chainAt updates'' = (chainAt updates')(k := chain)"
      "k < length updates''" "length updates' \<le> length updates''"
    using update_chainAt [OF updated(3)] by (auto split: sum.splits)
  have ok: "\<forall>info \<in> set (chainAt updates' k). info_ok vc info" using IH(1) by (simp add: updates_ok_chainAt)
  have "\<not> (\<exists>info \<in> set (chainAt updates' k). conflicting t row info)"
    using updateInChain_conflict [OF updated.prems(1)] chain(1) by (metis Inl_Inr_False)
  with updateInChain_ok [OF _ updated.prems(1) ok updated.hyps(2), of addr v] chain(1) IH(4) [of k]
  have "updatedChain t vc addr row v (chainAt updates' k) chain a" by auto
  note versions = updatedChain_versions [OF this ok]
  show ?case
    using IH chain versions by (auto simp: updates_ok_chainAt)
qed

lemma updates_rolled_back:
  assumes "updatesBy vc t updates us updates'" "txnID t \<ge> START_TRANSACTION_ID" "updates_ok vc updates" "\<forall>k. ownVersions (txnID t) (chainAt updates k) = []"
  shows "\<exists>updates''. foldR (\<lambda>(k, _, w). updateInfo_rollback k w) (rev us) updates' = Inr updates'' \<and> chainAt updates'' = chainAt updates"
proof -
  note v = updatesBy_versions [OF assms]
  then have "\<forall>k. length (ownVersions (txnID t) (chainAt updates' k)) \<le> 1" by (simp add: of_bool_def)
  then obtain updates'' where u: "foldR (\<lambda>(k, _, w). updateInfo_rollback k w) (rev us) updates' = Inr updates''"
      "\<forall>k. chainAt updates'' k = (if k \<in> fst ` set us then otherVersions (txnID t) (chainAt updates' k) else chainAt updates' k)"
    using rollback_records [of "rev us" "txnID t" updates'] v by auto
  have "chainAt updates'' k = chainAt updates k" for k
  proof (cases "k \<in> fst ` set us")
    case False
    moreover have "length (ownVersions (txnID t) (chainAt updates' k)) = of_bool (k \<in> fst ` set us)" "otherVersions (txnID t) (chainAt updates' k) = chainAt updates k"
      using v by blast+
    ultimately show ?thesis using u(2) otherVersions_id [of "txnID t" "chainAt updates' k"] by simp
  qed (use u(2) v in simp)
  then show ?thesis using u(1) by auto
qed

end
