(* ===== verification/Version_Chain.thy ===== *)
theory Version_Chain
  imports Update_Info
begin

text \<open>
  The versions of a vector in the update info (\<^verbatim>\<open>src/src/storage/table/update_info.cpp\<close>)
  while transactions begin, update, commit and roll back: what holds of a chain of versions, what each
  step does to it, and that a transaction reads its own write or else the newest commit its snapshot has.
\<close>

section \<open>One chain of versions\<close>

text \<open>
  \<open>start\<close> gives the start timestamp of the running transactions, \<open>last\<close> is the last commit
  timestamp. Among the versions that have a row only the newest can be uncommitted, and the
  timestamps decrease; what is above the version of a running transaction is invisible to it.
\<close>

definition versions_ok :: "nat \<Rightarrow> (transaction_t \<rightharpoonup> transaction_t) \<Rightarrow> transaction_t \<Rightarrow> 'v vector_update_info list \<Rightarrow> bool" where
  "versions_ok vc start lastTS chain \<longleftrightarrow>
     (\<forall>info \<in> set chain. info_ok vc info \<and> (version info \<in> dom start \<or> version info \<le> lastTS))
   \<and> distinct (map infoAddr chain) \<and> distinct (map version chain)
   \<and> (\<forall>row. sorted_wrt (\<lambda>a b. b < START_TRANSACTION_ID \<and> b < a) (map version (filter (\<lambda>info. row \<in> set (rowsInVector info)) chain)))
   \<and> sorted_wrt (\<lambda>a b. \<forall>s. start (version b) = Some s \<longrightarrow> s < version a) chain"

definition start_ok :: "(transaction_t \<rightharpoonup> transaction_t) \<Rightarrow> transaction_t \<Rightarrow> bool" where
  "start_ok start lastTS \<longleftrightarrow> lastTS < START_TRANSACTION_ID \<and> (\<forall>i s. start i = Some s \<longrightarrow> START_TRANSACTION_ID \<le> i \<and> s \<le> lastTS)"

definition versionMap :: "'v vector_update_info list \<Rightarrow> transaction_t \<Rightarrow> nat \<rightharpoonup> 'v" where
  "versionMap chain w = (case find (\<lambda>info. version info = w) chain of None \<Rightarrow> Map.empty | Some info \<Rightarrow> infoValue info)"

lemma versionMap_simps:
  "versionMap [] w = Map.empty"
  "versionMap (info # chain) w = (if version info = w then infoValue info else versionMap chain w)"
  by (simp_all add: versionMap_def)

lemma versionMap_none: "w \<notin> version ` set chain \<Longrightarrow> versionMap chain w = Map.empty"
  by (induction chain) (auto simp: versionMap_simps)

lemma versionMap_member: "distinct (map version chain) \<Longrightarrow> info \<in> set chain \<Longrightarrow> versionMap chain (version info) = infoValue info"
  by (induction chain) (auto simp: versionMap_simps)

lemma versionMap_append: "versionMap (newer @ chain) w = (if w \<in> version ` set newer then versionMap newer w else versionMap chain w)"
  by (induction newer) (auto simp: versionMap_simps)

text \<open>Reading: the own write, or else the newest commit that the snapshot has.\<close>

definition snapshotRead :: "transaction \<Rightarrow> transaction_t list \<Rightarrow> (transaction_t \<Rightarrow> 'v option) \<Rightarrow> 'v option" where
  "snapshotRead t commits writes =
     (case writes (txnID t) of
        Some v \<Rightarrow> Some v
      | None \<Rightarrow> (case find (\<lambda>ts. ts \<le> startTS t \<and> writes ts \<noteq> None) commits of None \<Rightarrow> None | Some ts \<Rightarrow> writes ts))"

lemma chainValue_find:
  "chainValue t chain row = (case find (\<lambda>info. visibleVersion t info \<and> infoValue info row \<noteq> None) chain of None \<Rightarrow> None | Some info \<Rightarrow> infoValue info row)"
  by (induction chain) (auto simp: map_add_def split: option.splits)

lemma find_greatest:
  fixes xs :: "'a::linorder list"
  assumes "sorted_wrt (>) xs" "x \<in> set xs" "P x" "\<And>y. y \<in> set xs \<Longrightarrow> P y \<Longrightarrow> y \<le> x"
  shows "find P xs = Some x"
  using assms
proof (induction xs)
  case (Cons a xs)
  then show ?case by (cases "P a") fastforce+
qed simp

lemma chain_rows:
  assumes "versions_ok vc start lastTS chain"
  shows "versionMap chain w row \<noteq> None \<longleftrightarrow> (\<exists>info \<in> set chain. version info = w \<and> row \<in> set (rowsInVector info))"
proof
  assume some: "versionMap chain w row \<noteq> None"
  then obtain info where info: "info \<in> set chain" "version info = w" by (metis versionMap_none imageE)
  then have "versionMap chain w = infoValue info" using assms versionMap_member by (fastforce simp: versions_ok_def)
  then have "row \<in> set (rowsInVector info)" using some assms info(1) dom_infoValue [of vc info] by (auto simp: versions_ok_def)
  then show "\<exists>info \<in> set chain. version info = w \<and> row \<in> set (rowsInVector info)" using info by blast
next
  assume "\<exists>info \<in> set chain. version info = w \<and> row \<in> set (rowsInVector info)"
  then obtain info where info: "info \<in> set chain" "version info = w" "row \<in> set (rowsInVector info)" by blast
  then have "versionMap chain w = infoValue info" using assms versionMap_member by (fastforce simp: versions_ok_def)
  then show "versionMap chain w row \<noteq> None" using assms info dom_infoValue [of vc info] by (auto simp: versions_ok_def)
qed

text \<open>The first visible version that has the row, by its number.\<close>

lemma chainValue_versions:
  assumes "versions_ok vc start lastTS chain"
  shows "chainValue t chain row =
    (case find (\<lambda>w. w = txnID t \<or> w \<le> startTS t) (map version (filter (\<lambda>info. row \<in> set (rowsInVector info)) chain)) of
       None \<Rightarrow> None | Some w \<Rightarrow> versionMap chain w row)"
proof -
  have "chainValue t chain row = (case find (visibleVersion t) (filter (\<lambda>info. row \<in> set (rowsInVector info)) chain) of None \<Rightarrow> None | Some info \<Rightarrow> infoValue info row)"
    if "\<forall>info \<in> set chain. info_ok vc info" for chain :: "'a vector_update_info list"
    using that
  proof (induction chain)
    case (Cons info chain)
    then have "infoValue info row = None \<longleftrightarrow> row \<notin> set (rowsInVector info)" using dom_infoValue [of vc info] by auto
    then show ?case using Cons by (auto simp: map_add_def split: option.splits)
  qed simp
  moreover have "find (\<lambda>w. w = txnID t \<or> w \<le> startTS t) (map version xs) = map_option version (find (visibleVersion t) xs)" for xs :: "'a vector_update_info list"
    by (induction xs) (auto simp: visibleVersion_def)
  moreover have "versionMap chain (version info) row = infoValue info row" if "find (visibleVersion t) (filter (\<lambda>info. row \<in> set (rowsInVector info)) chain) = Some info" for info
    using that assms by (subst versionMap_member) (auto simp: versions_ok_def find_Some_iff dest: nth_mem)
  ultimately show ?thesis using assms by (auto simp: versions_ok_def split: option.splits)
qed

lemma chain_read:
  assumes ok: "versions_ok vc start lastTS chain" "start_ok start lastTS" and t: "start (txnID t) = Some (startTS t)"
    and commits: "sorted_wrt (>) commits" "\<forall>ts \<in> set commits. ts < START_TRANSACTION_ID"
      "\<forall>info \<in> set chain. version info < START_TRANSACTION_ID \<longrightarrow> version info \<in> set commits"
  shows "chainValue t chain row = snapshotRead t commits (\<lambda>w. versionMap chain w row)"
proof -
  let ?vs = "map version (filter (\<lambda>info. row \<in> set (rowsInVector info)) chain)"
  have tid: "START_TRANSACTION_ID \<le> txnID t" "startTS t < START_TRANSACTION_ID"
    using ok(2) t by (auto simp: start_ok_def dest: order.strict_trans1)
  have pair: "sorted_wrt (\<lambda>a b. b < START_TRANSACTION_ID \<and> b < a) ?vs" using ok(1) unfolding versions_ok_def by blast
  then have desc: "sorted_wrt (>) ?vs" by (rule sorted_wrt_mono_rel [rotated]) simp
  have mem: "w \<in> set ?vs \<longleftrightarrow> versionMap chain w row \<noteq> None" for w unfolding chain_rows [OF ok(1)] by auto
  show ?thesis
  proof (cases "versionMap chain (txnID t) row")
    case (Some v)
    then have own: "txnID t \<in> set ?vs" using mem by simp
    have "y \<le> txnID t" if "y \<in> set ?vs" for y
    proof -
      obtain ws where ws: "?vs = txnID t # ws" using own pair tid(1) by (cases ?vs) auto
      then show ?thesis using that desc by fastforce
    qed
    then have "find (\<lambda>w. w = txnID t \<or> w \<le> startTS t) ?vs = Some (txnID t)" using own by (intro find_greatest [OF desc]) auto
    then show ?thesis using Some by (simp add: chainValue_versions [OF ok(1)] snapshotRead_def)
  next
    case None
    have same: "w \<in> set ?vs \<and> (w = txnID t \<or> w \<le> startTS t) \<longleftrightarrow> w \<in> set commits \<and> w \<le> startTS t \<and> versionMap chain w row \<noteq> None" for w
    proof -
      have "w \<in> set commits" if "w \<in> set ?vs" "w \<le> startTS t" using that commits(3) tid(2) by auto
      then show ?thesis using None mem by auto
    qed
    show ?thesis
    proof (cases "\<exists>w. w \<in> set commits \<and> w \<le> startTS t \<and> versionMap chain w row \<noteq> None")
      case True
      define W where "W = {w. w \<in> set commits \<and> w \<le> startTS t \<and> versionMap chain w row \<noteq> None}"
      have W: "finite W" "W \<noteq> {}" using True by (auto simp: W_def)
      have in_W: "w \<in> W \<longleftrightarrow> w \<in> set ?vs \<and> (w = txnID t \<or> w \<le> startTS t)" for w unfolding same W_def by simp
      then have "find (\<lambda>w. w = txnID t \<or> w \<le> startTS t) ?vs = Some (Max W)"
        using in_W [THEN iffD1, OF Max_in [OF W]] Max_ge [OF W(1)] by (intro find_greatest [OF desc]) blast+
      moreover have "find (\<lambda>ts. ts \<le> startTS t \<and> versionMap chain ts row \<noteq> None) commits = Some (Max W)"
        using Max_in [OF W] Max_ge [OF W(1)] by (intro find_greatest [OF commits(1)]) (auto simp: W_def)
      ultimately show ?thesis using None by (simp add: chainValue_versions [OF ok(1)] snapshotRead_def)
    next
      case False
      then have "find (\<lambda>w. w = txnID t \<or> w \<le> startTS t) ?vs = None" "find (\<lambda>ts. ts \<le> startTS t \<and> versionMap chain ts row \<noteq> None) commits = None"
        using same by (auto simp only: find_None_iff)
      then show ?thesis using None by (simp add: chainValue_versions [OF ok(1)] snapshotRead_def)
    qed
  qed
qed

text \<open>An update conflicts exactly when a version that the transaction does not see has the row.\<close>

lemma chain_conflict:
  assumes "versions_ok vc start lastTS chain"
  shows "(\<exists>info \<in> set chain. conflicting t row info) \<longleftrightarrow> (\<exists>w. w \<noteq> txnID t \<and> startTS t < w \<and> versionMap chain w row \<noteq> None)"
  unfolding chain_rows [OF assms] conflicting_def by auto

lemma version_cases:
  assumes "versions_ok vc start lastTS chain" "start_ok start lastTS" "info \<in> set chain"
  obtains "version info \<in> dom start" "START_TRANSACTION_ID \<le> version info" | "version info \<le> lastTS" "version info < START_TRANSACTION_ID" "start (version info) = None"
proof -
  have "version info \<in> dom start \<or> version info \<le> lastTS" using assms(1,3) unfolding versions_ok_def by blast
  moreover have "START_TRANSACTION_ID \<le> version info" if "version info \<in> dom start" using that assms(2) unfolding start_ok_def by blast
  moreover have "lastTS < START_TRANSACTION_ID" using assms(2) unfolding start_ok_def by blast
  ultimately show thesis using that by (cases "version info \<in> dom start") force+
qed

lemma versions_ok_parts:
  assumes "versions_ok vc start lastTS chain"
  shows "\<forall>info \<in> set chain. info_ok vc info" "distinct (map infoAddr chain)" "distinct (map version chain)"
    "length (ownVersions v chain) \<le> 1"
    "sorted_wrt (\<lambda>a b. b < START_TRANSACTION_ID \<and> b < a) (map version (filter (\<lambda>info. row \<in> set (rowsInVector info)) chain))"
    "sorted_wrt (\<lambda>a b. \<forall>s. start b = Some s \<longrightarrow> s < a) (map version chain)"
proof -
  show "length (ownVersions v chain) \<le> 1"
  proof -
    have "distinct (map version chain) \<Longrightarrow> length (filter (\<lambda>info. version info = v) chain) \<le> 1"
      by (induction chain) (auto simp: filter_empty_conv image_iff)
    then show ?thesis using assms unfolding versions_ok_def ownVersions_def by blast
  qed
qed (use assms in \<open>auto simp: versions_ok_def sorted_wrt_map\<close>)

lemma versions_okI:
  assumes "\<And>info. info \<in> set chain \<Longrightarrow> info_ok vc info" "\<And>info. info \<in> set chain \<Longrightarrow> version info \<in> dom start \<or> version info \<le> lastTS"
    "distinct (map infoAddr chain)" "distinct (map version chain)"
    "\<And>row. sorted_wrt (\<lambda>a b. b < START_TRANSACTION_ID \<and> b < a) (map version (filter (\<lambda>info. row \<in> set (rowsInVector info)) chain))"
    "sorted_wrt (\<lambda>a b. \<forall>s. start b = Some s \<longrightarrow> s < a) (map version chain)"
  shows "versions_ok vc start lastTS chain"
  using assms by (simp add: versions_ok_def sorted_wrt_map)

section \<open>What the steps do to a chain\<close>

lemma chain_begin:
  assumes "versions_ok vc start lastTS chain" "start_ok start lastTS" "tid \<notin> dom start" "START_TRANSACTION_ID \<le> tid"
  shows "versions_ok vc (start(tid \<mapsto> s)) lastTS chain"
proof -
  have "version info \<noteq> tid" if "info \<in> set chain" for info
    using version_cases [OF assms(1,2) that] assms(3,4) by (metis leD)
  then have "sorted_wrt (\<lambda>a b. \<forall>s'. (start(tid \<mapsto> s)) b = Some s' \<longrightarrow> s' < a) (map version chain)"
    using versions_ok_parts(6) [OF assms(1)] by (auto simp: sorted_wrt_map elim!: sorted_wrt_mono_rel [rotated])
  then show ?thesis using assms(1) by (auto simp: versions_ok_def sorted_wrt_map)
qed

lemma chain_rollback:
  assumes "versions_ok vc start lastTS chain"
  shows "versions_ok vc (start(tid := None)) lastTS (otherVersions tid chain)"
    "versionMap (otherVersions tid chain) w = (if w = tid then Map.empty else versionMap chain w)"
proof -
  have "sorted_wrt (\<lambda>a b. \<forall>s. start b = Some s \<longrightarrow> s < a) (map version (otherVersions tid chain))"
    using versions_ok_parts(6) [OF assms] by (auto simp: sorted_wrt_map otherVersions_def intro: sorted_wrt_filter)
  then have "sorted_wrt (\<lambda>a b. \<forall>s. (start(tid := None)) b = Some s \<longrightarrow> s < a) (map version (otherVersions tid chain))"
    by (rule sorted_wrt_mono_rel [rotated]) (simp split: if_splits)
  moreover have "sorted_wrt (\<lambda>a b. b < START_TRANSACTION_ID \<and> b < a) (map version (filter (\<lambda>info. row \<in> set (rowsInVector info)) (otherVersions tid chain)))" for row
  proof -
    have "filter (\<lambda>info. row \<in> set (rowsInVector info)) (otherVersions tid chain) = filter (\<lambda>info. version info \<noteq> tid) (filter (\<lambda>info. row \<in> set (rowsInVector info)) chain)"
      by (simp add: otherVersions_def conj_commute)
    then show ?thesis using versions_ok_parts(5) [OF assms, of row] by (simp only: sorted_wrt_map sorted_wrt_filter)
  qed
  ultimately show "versions_ok vc (start(tid := None)) lastTS (otherVersions tid chain)"
    using assms by (intro versions_okI) (auto simp: versions_ok_def otherVersions_def intro: distinct_map_filter)
  show "versionMap (otherVersions tid chain) w = (if w = tid then Map.empty else versionMap chain w)"
    by (induction chain) (auto simp: versionMap_simps otherVersions_def)
qed

definition commitVersion :: "transaction_t \<Rightarrow> transaction_t \<Rightarrow> 'v vector_update_info \<Rightarrow> 'v vector_update_info" where
  "commitVersion tid cts info = (if version info = tid then info\<lparr>version := cts\<rparr> else info)"

lemma commitVersion_simps [simp]:
  "infoAddr (commitVersion tid cts info) = infoAddr info" "rowsInVector (commitVersion tid cts info) = rowsInVector info"
  "info_ok vc (commitVersion tid cts info) = info_ok vc info" "infoValue (commitVersion tid cts info) = infoValue info"
  "version (commitVersion tid cts info) = (if version info = tid then cts else version info)"
  by (simp_all add: commitVersion_def info_ok_def infoValue_def)

lemma chain_commit:
  fixes chain :: "'v vector_update_info list"
  assumes ok: "versions_ok vc start lastTS chain" "start_ok start lastTS" and tid: "tid \<in> dom start" and cts: "lastTS < cts" "cts < START_TRANSACTION_ID"
  shows "versions_ok vc (start(tid := None)) cts (map (commitVersion tid cts) chain)"
    "versionMap (map (commitVersion tid cts) chain) w = (if w = cts then versionMap chain tid else if w = tid then Map.empty else versionMap chain w)"
proof -
  have START: "START_TRANSACTION_ID \<le> tid" using ok(2) tid by (auto simp: start_ok_def)
  have old: "version info \<noteq> cts" if "info \<in> set chain" for info
    using version_cases [OF ok that] cts by (metis leD)
  have ver: "version (commitVersion tid cts info) \<in> dom (start(tid := None)) \<or> version (commitVersion tid cts info) \<le> cts" if "info \<in> set chain" for info
    using version_cases [OF ok that] cts by fastforce
  have inj: "inj_on (\<lambda>w. if w = tid then cts else w) (version ` set chain)" using old by (auto simp: inj_on_def)
  have "map version (map (commitVersion tid cts) chain) = map (\<lambda>w. if w = tid then cts else w) (map version chain)" by simp
  then have dist: "distinct (map version (map (commitVersion tid cts) chain))"
    using versions_ok_parts(3) [OF ok(1)] inj by (simp only: distinct_map set_map list.set_map simp_thms)
  have rows: "sorted_wrt (\<lambda>a b. b < START_TRANSACTION_ID \<and> b < a) (map version (filter (\<lambda>info. row \<in> set (rowsInVector info)) (map (commitVersion tid cts) chain)))" for row
  proof -
    let ?xs = "filter (\<lambda>info. row \<in> set (rowsInVector info)) chain"
    have "sorted_wrt (\<lambda>a b. version b < START_TRANSACTION_ID \<and> version b < version a) ?xs"
      using versions_ok_parts(5) [OF ok(1), of row] by (simp add: sorted_wrt_map)
    then have "sorted_wrt (\<lambda>a b. version (commitVersion tid cts b) < START_TRANSACTION_ID \<and> version (commitVersion tid cts b) < version (commitVersion tid cts a)) ?xs"
    proof (rule sorted_wrt_mono_rel [rotated])
      fix a b :: "'v vector_update_info"
      assume b: "b \<in> set ?xs" and less: "version b < START_TRANSACTION_ID \<and> version b < version a"
      have "b \<in> set chain" using b by simp
      then have "version b \<le> lastTS" using version_cases [OF ok] less by (metis leD)
      then have "version b \<noteq> tid" "version b < cts" using START cts(1) less by auto
      then show "version (commitVersion tid cts b) < START_TRANSACTION_ID \<and> version (commitVersion tid cts b) < version (commitVersion tid cts a)" using less by simp
    qed
    moreover have "filter (\<lambda>info. row \<in> set (rowsInVector info)) (map (commitVersion tid cts) chain) = map (commitVersion tid cts) ?xs" by (simp add: filter_map comp_def)
    ultimately show ?thesis by (simp only: sorted_wrt_map)
  qed
  have "sorted_wrt (\<lambda>a b. \<forall>s. start (version b) = Some s \<longrightarrow> s < version a) chain" using versions_ok_parts(6) [OF ok(1)] by (simp add: sorted_wrt_map)
  then have "sorted_wrt (\<lambda>a b. \<forall>s. (start(tid := None)) (version (commitVersion tid cts b)) = Some s \<longrightarrow> s < version (commitVersion tid cts a)) chain"
  proof (rule sorted_wrt_mono_rel [rotated])
    have none: "start cts = None" using ok(2) cts(2) unfolding start_ok_def by (metis leD not_None_eq)
    have "s < cts" if "start x = Some s" for x s using that ok(2) cts(1) unfolding start_ok_def by (metis order.strict_trans1)
    then show "\<forall>s. (start(tid := None)) (version (commitVersion tid cts b)) = Some s \<longrightarrow> s < version (commitVersion tid cts a)"
      if "\<forall>s. start (version b) = Some s \<longrightarrow> s < version a" for a b :: "'v vector_update_info" using that none by auto
  qed
  then have sorted: "sorted_wrt (\<lambda>a b. \<forall>s. (start(tid := None)) b = Some s \<longrightarrow> s < a) (map version (map (commitVersion tid cts) chain))"
    unfolding sorted_wrt_map .
  show "versions_ok vc (start(tid := None)) cts (map (commitVersion tid cts) chain)"
  proof (rule versions_okI [OF _ _ _ dist rows sorted])
    fix info
    assume "info \<in> set (map (commitVersion tid cts) chain)"
    then obtain old where "old \<in> set chain" "info = commitVersion tid cts old" by auto
    then show "info_ok vc info" "version info \<in> dom (start(tid := None)) \<or> version info \<le> cts"
      using ver [of old] versions_ok_parts(1) [OF ok(1)] by (simp_all only: commitVersion_simps)
  qed (use versions_ok_parts(2) [OF ok(1)] in \<open>simp add: comp_def\<close>)
  have "versionMap (map (commitVersion tid cts) ch) w = (if w = cts then versionMap ch tid else if w = tid then Map.empty else versionMap ch w)"
    if "\<forall>info \<in> set ch. version info \<noteq> cts" for ch :: "'v vector_update_info list"
    using that START cts(2) by (induction ch) (auto simp: versionMap_simps)
  then show "versionMap (map (commitVersion tid cts) chain) w = (if w = cts then versionMap chain tid else if w = tid then Map.empty else versionMap chain w)"
    using old by blast
qed

lemma chain_update:
  fixes chain :: "'v vector_update_info list"
  assumes ok: "versions_ok vc start lastTS chain" "start_ok start lastTS" and t: "start (txnID t) = Some (startTS t)"
    and free: "\<not> (\<exists>info \<in> set chain. conflicting t row info)" and addr: "addr \<notin> infoAddr ` set chain"
    and upd: "updatedChain t vc addr row v chain chain' a"
  shows "versions_ok vc start lastTS chain'" "versionMap chain' w = (if w = txnID t then (versionMap chain w)(row \<mapsto> v) else versionMap chain w)"
    "infoAddr ` set (ownVersions (txnID t) chain') = {a}" "ownVersions (txnID t) chain = [] \<or> infoAddr ` set (ownVersions (txnID t) chain) = {a}"
    "infoAddr ` set chain' \<subseteq> insert addr (infoAddr ` set chain)" "w \<noteq> txnID t \<Longrightarrow> ownVersions w chain' = ownVersions w chain"
    "version ` set chain' \<subseteq> insert (txnID t) (version ` set chain)"
proof -
  have bounds: "START_TRANSACTION_ID \<le> txnID t" "startTS t \<le> lastTS" "startTS t < START_TRANSACTION_ID" "lastTS < START_TRANSACTION_ID"
    using ok(2) t unfolding start_ok_def by (blast intro: order.strict_trans1)+
  obtain newer info older info' where c: "chain' = newer @ info' # older"
      "chain = newer @ info # older \<and> version info = txnID t \<or> newer = [] \<and> chain = older \<and> info = VectorUpdateInfo_new addr (txnID t)"
      "ownVersions (txnID t) newer = []" "ownVersions (txnID t) older = []" "infoAddr info = a" "infoAddr info' = a" "version info' = txnID t" "info_ok vc info'"
      "infoValue info' = (infoValue info)(row \<mapsto> v)" "set (rowsInVector info') = insert row (set (rowsInVector info))"
    using upd unfolding updatedChain_def by blast
  have other: "version x \<noteq> txnID t" if "x \<in> set newer \<union> set older" for x using that c(3,4) by (auto simp: ownVersions_def filter_empty_conv)
  have unseen: "startTS t < version x" if "x \<in> set newer" for x
    using that c(2) versions_ok_parts(6) [OF ok(1)] t by (auto simp: sorted_wrt_append)
  then have newer: "filter (\<lambda>info. row \<in> set (rowsInVector info)) newer = []"
    using free other c(2) by (auto simp: filter_empty_conv conflicting_def)
  have older: "version x \<le> startTS t" if "x \<in> set older" "row \<in> set (rowsInVector x)" for x
    using that free other c(2) by (auto simp: conflicting_def not_less)
  have rows: "sorted_wrt (\<lambda>a b. b < START_TRANSACTION_ID \<and> b < a) (map version (filter (\<lambda>info. r \<in> set (rowsInVector info)) chain'))" for r
  proof (cases "r = row")
    case True
    have "sorted_wrt (\<lambda>a b. b < START_TRANSACTION_ID \<and> b < a) (map version (filter (\<lambda>info. row \<in> set (rowsInVector info)) older))"
      using versions_ok_parts(5) [OF ok(1), of row] c(2) by (auto simp: sorted_wrt_append split: if_splits)
    moreover have "version x < START_TRANSACTION_ID \<and> version x < txnID t" if "x \<in> set older" "row \<in> set (rowsInVector x)" for x
      using older [OF that] bounds by auto
    ultimately show ?thesis using True newer c by auto
  next
    case False
    have "map version (filter (\<lambda>info. r \<in> set (rowsInVector info)) chain') = map version (filter (\<lambda>info. r \<in> set (rowsInVector info)) chain)"
    proof -
      have "r \<in> set (rowsInVector info') \<longleftrightarrow> r \<in> set (rowsInVector info)" using c(10) False by simp
      then show ?thesis using c(2) unfolding c(1) by (elim disjE conjE) (simp_all add: c(7) VectorUpdateInfo_new_def)
    qed
    then show ?thesis using versions_ok_parts(5) [OF ok(1)] by simp
  qed
  have starts: "s < txnID t" if "start x = Some s" for x s
    using that ok(2) bounds(1) unfolding start_ok_def by (meson order.strict_trans1 order.strict_trans2)
  have "sorted_wrt (\<lambda>a b. \<forall>s. start b = Some s \<longrightarrow> s < a) (map version chain')"
    using c(2) versions_ok_parts(6) [OF ok(1)] starts c(1,7) by auto
  moreover have "distinct (map infoAddr chain')" "distinct (map version chain')"
  proof -
    have "txnID t \<notin> version ` set older" using other by (metis UnI2 imageE)
    then show "distinct (map infoAddr chain')" "distinct (map version chain')"
      using c(2) c(5) c(6) versions_ok_parts(2,3) [OF ok(1)] addr unfolding c(1)
      by (elim disjE conjE; simp add: c(7) VectorUpdateInfo_new_def)+
  qed
  moreover have "version x \<in> dom start \<or> version x \<le> lastTS" "info_ok vc x" if "x \<in> set chain'" for x
    using that ok(1) c(1,2,7,8) t by (auto simp: versions_ok_def)
  ultimately show "versions_ok vc start lastTS chain'" using rows by (intro versions_okI) auto
  show "versionMap chain' w = (if w = txnID t then (versionMap chain w)(row \<mapsto> v) else versionMap chain w)"
  proof -
    have own: "txnID t \<notin> version ` set newer" "txnID t \<notin> version ` set older" using other by (metis UnI1 UnI2 imageE)+
    have new: "versionMap chain' w = (if w = txnID t then infoValue info' else versionMap (newer @ older) w)"
      using own unfolding c(1) by (simp add: versionMap_append versionMap_simps c(7))
    have "versionMap chain w = (if w = txnID t then infoValue info else versionMap (newer @ older) w)"
      using c(2) own versionMap_none [OF own(2)] by (elim disjE conjE) (auto simp: versionMap_append versionMap_simps VectorUpdateInfo_new_def infoValue_def)
    then show ?thesis using new c(9) by (cases "w = txnID t") simp_all
  qed
  show "infoAddr ` set (ownVersions (txnID t) chain') = {a}" "ownVersions (txnID t) chain = [] \<or> infoAddr ` set (ownVersions (txnID t) chain) = {a}"
  proof -
    have own: "ownVersions (txnID t) (newer @ x # older) = (if version x = txnID t then [x] else [])" for x
      using c(3,4) by (simp add: ownVersions_def)
    show "infoAddr ` set (ownVersions (txnID t) chain') = {a}" unfolding c(1) own by (simp add: c(6,7))
    show "ownVersions (txnID t) chain = [] \<or> infoAddr ` set (ownVersions (txnID t) chain) = {a}"
      using c(2,4,5) own [of info] by auto
  qed
  show "infoAddr ` set chain' \<subseteq> insert addr (infoAddr ` set chain)" "version ` set chain' \<subseteq> insert (txnID t) (version ` set chain)"
    using c(1,2,5-7) by (auto simp: VectorUpdateInfo_new_def)
  show "ownVersions w chain' = ownVersions w chain" if "w \<noteq> txnID t"
    using that c(1,2,7) by (auto simp: ownVersions_def)
qed

end
