(* ===== verification/Undo_Buffer.thy ===== *)
theory Undo_Buffer
  imports Update_Info Catalog_Set
begin

text \<open>
  The undo buffer of a transaction, \<^verbatim>\<open>src/src/storage/undo_buffer.cpp\<close>: records of what a
  transaction changed, packed one after the other into memory buffers, visited forwards by commit and
  backwards by rollback.

  A buffer is its bytes. A record is a header (type and size) and a structure of pointers and numbers in
  the layout of the 64-bit platforms; the bytes of padding are the parameter \<open>pad\<close>, the contents of
  a new buffer of a size the parameter \<open>fresh\<close>. Pointers are 64-bit words; the objects they point to
  are the components of the state \<open>undo_targets\<close>. What the table behind a
  \<^verbatim>\<open>VersionRecordHandler\<close>, an abstract class, does with a range of rows is the record of functions
  \<open>version_handlers\<close>.

  The lemmas show that visiting gives back the records in the order they were made, or in the
  opposite order, and that the records of one kind of object act on that kind only.
\<close>

section \<open>Records and buffers\<close>

datatype undo_record =
    CatalogEntryUndo u64 u64
  | SequenceEntryUndo u64 u64 u64
  | InsertInfoUndo u64 u64 u64 u64
  | DeleteInfoUndo u64 u64 u64 u64
  | VectorUpdateUndo u64 u32 u64 u64

fun undoRecordType :: "undo_record \<Rightarrow> 16 word" where
  "undoRecordType (CatalogEntryUndo _ _) = 0"
| "undoRecordType (SequenceEntryUndo _ _ _) = 1"
| "undoRecordType (VectorUpdateUndo _ _ _ _) = 6"
| "undoRecordType (InsertInfoUndo _ _ _ _) = 7"
| "undoRecordType (DeleteInfoUndo _ _ _ _) = 8"

fun undoRecordBytes :: "u8 \<Rightarrow> undo_record \<Rightarrow> u8 list" where
  "undoRecordBytes pad (CatalogEntryUndo catalogSet catalogEntry) = leBytes 8 catalogSet @ leBytes 8 catalogEntry"
| "undoRecordBytes pad (SequenceEntryUndo sequenceEntry usage val) = leBytes 8 sequenceEntry @ leBytes 8 usage @ leBytes 8 val"
| "undoRecordBytes pad (InsertInfoUndo startRow numRows nodeGroupIdx handler) =
     leBytes 8 startRow @ leBytes 8 numRows @ leBytes 8 nodeGroupIdx @ leBytes 8 handler"
| "undoRecordBytes pad (DeleteInfoUndo startRow numRows nodeGroupIdx handler) =
     leBytes 8 startRow @ leBytes 8 numRows @ leBytes 8 nodeGroupIdx @ leBytes 8 handler"
| "undoRecordBytes pad (VectorUpdateUndo updateInfo vectorIdx vectorUpdateInfo v) =
     leBytes 8 updateInfo @ leBytes 4 vectorIdx @ replicate 4 pad @ leBytes 8 vectorUpdateInfo @ leBytes 8 v"

definition undoHeaderSize :: nat where
  "undoHeaderSize = 8"

definition undoHeaderBytes :: "u8 \<Rightarrow> 16 word \<Rightarrow> u32 \<Rightarrow> u8 list" where
  "undoHeaderBytes pad entryType recordSize = leBytes 2 entryType @ replicate 2 pad @ leBytes 4 recordSize"

record undo_memory_buffer =
  undoData :: "u8 list"
  undoCapacity :: nat
  currentPosition :: nat

definition UNDO_MEMORY_BUFFER_INIT_CAPACITY :: nat where
  "UNDO_MEMORY_BUFFER_INIT_CAPACITY = 4096"

definition canFit :: "nat \<Rightarrow> undo_memory_buffer \<Rightarrow> bool" where
  "canFit n b = (currentPosition b + n \<le> undoCapacity b)"

definition moveCurrentPosition :: "nat \<Rightarrow> undo_memory_buffer \<Rightarrow> undo_memory_buffer res" where
  "moveCurrentPosition off b =
     bindR (assertR (currentPosition b + off \<le> undoCapacity b)) (\<lambda>_. Inr (b\<lparr>currentPosition := currentPosition b + off\<rparr>))"

partial_function (option) growCapacity :: "nat \<Rightarrow> nat \<Rightarrow> nat option" where
  "growCapacity n capacity = (if n > capacity then growCapacity n (capacity * 2) else Some capacity)"

text \<open>Room for a record in the last buffer, or in a new one; the position of the room in it.\<close>

definition createUndoRecord :: "(nat \<Rightarrow> u8 list) \<Rightarrow> nat \<Rightarrow> undo_memory_buffer list \<Rightarrow> (undo_memory_buffer list \<times> nat) res option" where
  "createUndoRecord fresh n memoryBuffers =
     bindP (if memoryBuffers = [] \<or> \<not> canFit n (last memoryBuffers)
            then map_option (\<lambda>capacity. Inr (memoryBuffers @ [\<lparr>undoData = fresh capacity, undoCapacity = capacity, currentPosition = 0\<rparr>]))
                   (growCapacity n UNDO_MEMORY_BUFFER_INIT_CAPACITY)
            else Some (Inr memoryBuffers)) (\<lambda>memoryBuffers.
     Some (bindR (moveCurrentPosition n (last memoryBuffers)) (\<lambda>b.
       Inr (butlast memoryBuffers @ [b], currentPosition (last memoryBuffers)))))"

text \<open>What the five operations that add a record share.\<close>

definition writeUndo :: "nat \<Rightarrow> u8 list \<Rightarrow> u8 list \<Rightarrow> u8 list res" where
  "writeUndo pos bs d = (if pos + length bs \<le> length d then Inr (take pos d @ bs @ drop (pos + length bs) d) else Inl OutOfBounds)"

definition addUndoRecord :: "u8 \<Rightarrow> (nat \<Rightarrow> u8 list) \<Rightarrow> undo_record \<Rightarrow> undo_memory_buffer list \<Rightarrow> undo_memory_buffer list res option" where
  "addUndoRecord pad fresh r memoryBuffers =
     bindP (createUndoRecord fresh (undoHeaderSize + length (undoRecordBytes pad r)) memoryBuffers) (\<lambda>(memoryBuffers, pos).
     Some (bindR (writeUndo pos (undoHeaderBytes pad (undoRecordType r) (of_nat (length (undoRecordBytes pad r)))
                    @ undoRecordBytes pad r) (undoData (last memoryBuffers))) (\<lambda>d.
       Inr (butlast memoryBuffers @ [(last memoryBuffers)\<lparr>undoData := d\<rparr>]))))"

definition createCatalogEntry :: "u8 \<Rightarrow> (nat \<Rightarrow> u8 list) \<Rightarrow> u64 \<Rightarrow> u64 \<Rightarrow> undo_memory_buffer list \<Rightarrow> undo_memory_buffer list res option" where
  "createCatalogEntry pad fresh catalogSet catalogEntry = addUndoRecord pad fresh (CatalogEntryUndo catalogSet catalogEntry)"

definition createSequenceChange :: "u8 \<Rightarrow> (nat \<Rightarrow> u8 list) \<Rightarrow> u64 \<Rightarrow> sequence_rollback_data \<Rightarrow> undo_memory_buffer list \<Rightarrow> undo_memory_buffer list res option" where
  "createSequenceChange pad fresh sequenceEntry data = addUndoRecord pad fresh (SequenceEntryUndo sequenceEntry (fst data) (snd data))"

definition createVersionInfo ::
  "u8 \<Rightarrow> (nat \<Rightarrow> u8 list) \<Rightarrow> bool \<Rightarrow> u64 \<Rightarrow> u64 \<Rightarrow> u64 \<Rightarrow> u64 \<Rightarrow> undo_memory_buffer list \<Rightarrow> undo_memory_buffer list res option" where
  "createVersionInfo pad fresh inserted startRow numRows handler nodeGroupIdx memoryBuffers =
     bindP (Some (assertR (handler \<noteq> 0))) (\<lambda>_.
     addUndoRecord pad fresh (if inserted then InsertInfoUndo startRow numRows nodeGroupIdx handler
       else DeleteInfoUndo startRow numRows nodeGroupIdx handler) memoryBuffers)"

definition createInsertInfo ::
  "u8 \<Rightarrow> (nat \<Rightarrow> u8 list) \<Rightarrow> u64 \<Rightarrow> u64 \<Rightarrow> u64 \<Rightarrow> u64 \<Rightarrow> undo_memory_buffer list \<Rightarrow> undo_memory_buffer list res option" where
  "createInsertInfo pad fresh nodeGroupIdx startRow numRows handler = createVersionInfo pad fresh True startRow numRows handler nodeGroupIdx"

definition createDeleteInfo ::
  "u8 \<Rightarrow> (nat \<Rightarrow> u8 list) \<Rightarrow> u64 \<Rightarrow> u64 \<Rightarrow> u64 \<Rightarrow> u64 \<Rightarrow> undo_memory_buffer list \<Rightarrow> undo_memory_buffer list res option" where
  "createDeleteInfo pad fresh nodeGroupIdx startRow numRows handler = createVersionInfo pad fresh False startRow numRows handler nodeGroupIdx"

definition createVectorUpdateInfo ::
  "u8 \<Rightarrow> (nat \<Rightarrow> u8 list) \<Rightarrow> u64 \<Rightarrow> u32 \<Rightarrow> u64 \<Rightarrow> transaction_t \<Rightarrow> undo_memory_buffer list \<Rightarrow> undo_memory_buffer list res option" where
  "createVectorUpdateInfo pad fresh updateInfo vectorIdx vectorUpdateInfo v =
     addUndoRecord pad fresh (VectorUpdateUndo updateInfo vectorIdx vectorUpdateInfo v)"

section \<open>Visiting the records\<close>

definition readUndoHeader :: "u8 list \<Rightarrow> nat \<Rightarrow> (16 word \<times> nat) res" where
  "readUndoHeader d pos =
     (if pos + undoHeaderSize \<le> length d
      then Inr (leWord (take 2 (drop pos d)), unat (leWord (take 4 (drop (pos + 4) d)) :: u32)) else Inl OutOfBounds)"

function iterateBuffer :: "(16 word \<Rightarrow> u8 list \<Rightarrow> 's \<Rightarrow> 's res) \<Rightarrow> u8 list \<Rightarrow> nat \<Rightarrow> nat \<Rightarrow> 's \<Rightarrow> 's res" where
  "iterateBuffer callback d current stop s =
     (if current < stop then
        bindR (readUndoHeader d current) (\<lambda>(entryType, recordSize).
        bindR (callback entryType (drop (current + undoHeaderSize) d) s)
          (iterateBuffer callback d (current + undoHeaderSize + recordSize) stop))
      else Inr s)"
  by pat_completeness auto

termination iterateBuffer
  by (relation "measure (\<lambda>(_, _, current, stop, _). stop - current)") (auto simp: undoHeaderSize_def)

declare iterateBuffer.simps [simp del]

definition undo_iterate :: "(16 word \<Rightarrow> u8 list \<Rightarrow> 's \<Rightarrow> 's res) \<Rightarrow> undo_memory_buffer list \<Rightarrow> 's \<Rightarrow> 's res" where
  "undo_iterate callback memoryBuffers s = foldR (\<lambda>b. iterateBuffer callback (undoData b) 0 (currentPosition b)) memoryBuffers s"

definition undo_reverseIterate :: "(16 word \<Rightarrow> u8 list \<Rightarrow> 's \<Rightarrow> 's res) \<Rightarrow> undo_memory_buffer list \<Rightarrow> 's \<Rightarrow> 's res" where
  "undo_reverseIterate callback memoryBuffers s =
     foldR (\<lambda>b s. bindR (iterateBuffer (\<lambda>entryType entry found. Inr (found @ [(entryType, entry)])) (undoData b) 0 (currentPosition b) [])
             (\<lambda>found. foldR (\<lambda>(entryType, entry). callback entryType entry) (rev found) s)) (rev memoryBuffers) s"

text \<open>The record behind a pointer, by the type in its header; another type is unreachable.\<close>

definition word64At :: "nat \<Rightarrow> u8 list \<Rightarrow> u64" where
  "word64At i bs = leWord (take 8 (drop i bs))"

definition readUndoRecord :: "16 word \<Rightarrow> u8 list \<Rightarrow> undo_record res" where
  "readUndoRecord entryType bs =
     (let n = (if entryType = 0 then 16 else if entryType = 1 then 24 else 32) in
      if length bs < n then Inl OutOfBounds
      else if entryType = 0 then Inr (CatalogEntryUndo (word64At 0 bs) (word64At 8 bs))
      else if entryType = 1 then Inr (SequenceEntryUndo (word64At 0 bs) (word64At 8 bs) (word64At 16 bs))
      else if entryType = 7 then Inr (InsertInfoUndo (word64At 0 bs) (word64At 8 bs) (word64At 16 bs) (word64At 24 bs))
      else if entryType = 8 then Inr (DeleteInfoUndo (word64At 0 bs) (word64At 8 bs) (word64At 16 bs) (word64At 24 bs))
      else if entryType = 6 then Inr (VectorUpdateUndo (word64At 0 bs) (leWord (take 4 (drop 8 bs))) (word64At 16 bs) (word64At 24 bs))
      else Inl AssertFail)"

section \<open>Commit and rollback\<close>

record ('t, 'x, 'o, 'v, 'h) undo_targets =
  targetSets :: "u64 \<Rightarrow> ('t, 'x, 'o) catalog_set"
  targetSequences :: "u64 \<Rightarrow> sequence_data"
  targetUpdates :: "u64 \<Rightarrow> 'v update_info"
  targetTables :: 'h

datatype chunked_group_op = CommitInsert | CommitDelete | RollbackDelete

text \<open>
  \<open>applyFunc\<close> gets the handler, the operation, the node group, the first row, the number of rows and a
  timestamp.
\<close>

record 'h version_handlers =
  applyFuncToChunkedGroups :: "u64 \<Rightarrow> chunked_group_op \<Rightarrow> u64 \<Rightarrow> u64 \<Rightarrow> u64 \<Rightarrow> transaction_t \<Rightarrow> 'h \<Rightarrow> 'h res"
  handlerRollbackInsert :: "u64 \<Rightarrow> u64 \<Rightarrow> u64 \<Rightarrow> u64 \<Rightarrow> 'h \<Rightarrow> 'h res"

definition onTables :: "('h \<Rightarrow> 'h res) \<Rightarrow> ('t, 'x, 'o, 'v, 'h) undo_targets \<Rightarrow> ('t, 'x, 'o, 'v, 'h) undo_targets res" where
  "onTables f s = bindR (f (targetTables s)) (\<lambda>h. Inr (s\<lparr>targetTables := h\<rparr>))"

definition onSet :: "u64 \<Rightarrow> (('t, 'x, 'o) catalog_set \<Rightarrow> ('t, 'x, 'o) catalog_set res) \<Rightarrow> ('t, 'x, 'o, 'v, 'h) undo_targets \<Rightarrow> ('t, 'x, 'o, 'v, 'h) undo_targets res" where
  "onSet a f s = bindR (f (targetSets s a)) (\<lambda>c. Inr (s\<lparr>targetSets := (targetSets s)(a := c)\<rparr>))"

definition onUpdates :: "u64 \<Rightarrow> ('v update_info \<Rightarrow> 'v update_info res) \<Rightarrow> ('t, 'x, 'o, 'v, 'h) undo_targets \<Rightarrow> ('t, 'x, 'o, 'v, 'h) undo_targets res" where
  "onUpdates a f s = bindR (f (targetUpdates s a)) (\<lambda>u. Inr (s\<lparr>targetUpdates := (targetUpdates s)(a := u)\<rparr>))"

fun commitRecord :: "'h version_handlers \<Rightarrow> transaction_t \<Rightarrow> undo_record \<Rightarrow> ('t, 'x, 'o, 'v, 'h) undo_targets \<Rightarrow> ('t, 'x, 'o, 'v, 'h) undo_targets res" where
  "commitRecord hs cts (CatalogEntryUndo catalogSet catalogEntry) s = onSet catalogSet (commitCatalogEntryRecord cts (unat catalogEntry)) s"
| "commitRecord hs cts (SequenceEntryUndo _ _ _) s = Inr s"
| "commitRecord hs cts (InsertInfoUndo startRow numRows nodeGroupIdx handler) s =
     onTables (applyFuncToChunkedGroups hs handler CommitInsert nodeGroupIdx startRow numRows cts) s"
| "commitRecord hs cts (DeleteInfoUndo startRow numRows nodeGroupIdx handler) s =
     onTables (applyFuncToChunkedGroups hs handler CommitDelete nodeGroupIdx startRow numRows cts) s"
| "commitRecord hs cts (VectorUpdateUndo updateInfo vectorIdx vectorUpdateInfo v) s =
     bindR (assertR (updateInfo \<noteq> 0)) (\<lambda>_. bindR (assertR (vectorUpdateInfo \<noteq> 0)) (\<lambda>_.
     onUpdates updateInfo (updateInfo_commit (unat vectorIdx) (unat vectorUpdateInfo) cts) s))"

text \<open>\<open>cts\<close> is the commit timestamp of the transaction that is rolled back.\<close>

fun rollbackRecord :: "'h version_handlers \<Rightarrow> transaction_t \<Rightarrow> undo_record \<Rightarrow> ('t, 'x, 'o, 'v, 'h) undo_targets \<Rightarrow> ('t, 'x, 'o, 'v, 'h) undo_targets res" where
  "rollbackRecord hs cts (CatalogEntryUndo catalogSet catalogEntry) s = onSet catalogSet (rollbackCatalogEntryRecord (unat catalogEntry)) s"
| "rollbackRecord hs cts (SequenceEntryUndo sequenceEntry usage val) s =
     Inr (s\<lparr>targetSequences := (targetSequences s)(sequenceEntry := rollbackVal (usage, val) (targetSequences s sequenceEntry))\<rparr>)"
| "rollbackRecord hs cts (InsertInfoUndo startRow numRows nodeGroupIdx handler) s =
     onTables (handlerRollbackInsert hs handler nodeGroupIdx startRow numRows) s"
| "rollbackRecord hs cts (DeleteInfoUndo startRow numRows nodeGroupIdx handler) s =
     onTables (applyFuncToChunkedGroups hs handler RollbackDelete nodeGroupIdx startRow numRows cts) s"
| "rollbackRecord hs cts (VectorUpdateUndo updateInfo vectorIdx _ v) s =
     bindR (assertR (updateInfo \<noteq> 0)) (\<lambda>_. onUpdates updateInfo (updateInfo_rollback (unat vectorIdx) v) s)"

definition undo_commit ::
  "'h version_handlers \<Rightarrow> transaction_t \<Rightarrow> undo_memory_buffer list \<Rightarrow> ('t, 'x, 'o, 'v, 'h) undo_targets \<Rightarrow> ('t, 'x, 'o, 'v, 'h) undo_targets res" where
  "undo_commit hs cts = undo_iterate (\<lambda>entryType entry s. bindR (readUndoRecord entryType entry) (\<lambda>r. commitRecord hs cts r s))"

definition undo_rollback ::
  "'h version_handlers \<Rightarrow> transaction_t \<Rightarrow> undo_memory_buffer list \<Rightarrow> ('t, 'x, 'o, 'v, 'h) undo_targets \<Rightarrow> ('t, 'x, 'o, 'v, 'h) undo_targets res" where
  "undo_rollback hs cts = undo_reverseIterate (\<lambda>entryType entry s. bindR (readUndoRecord entryType entry) (\<lambda>r. rollbackRecord hs cts r s))"

section \<open>The buffers hold the records\<close>

definition encodeUndo :: "u8 \<Rightarrow> undo_record \<Rightarrow> u8 list" where
  "encodeUndo pad r = undoHeaderBytes pad (undoRecordType r) (of_nat (length (undoRecordBytes pad r))) @ undoRecordBytes pad r"

lemma undoRecord_size: "16 \<le> length (undoRecordBytes pad r)" "length (undoRecordBytes pad r) \<le> 32"
  by (cases r; simp)+

lemma undoHeader_size [simp]: "length (undoHeaderBytes pad ty n) = undoHeaderSize"
  by (simp add: undoHeaderBytes_def undoHeaderSize_def)

lemma encodeUndo_size [simp]: "length (encodeUndo pad r) = undoHeaderSize + length (undoRecordBytes pad r)"
  by (simp add: encodeUndo_def)

lemma readUndoRecord_encoded: "readUndoRecord (undoRecordType r) (undoRecordBytes pad r @ rest) = Inr r"
  by (cases r) (simp_all add: readUndoRecord_def word64At_def leWord_leBytes)

lemma readUndoHeader_encoded:
  "readUndoHeader (before @ encodeUndo pad r @ rest) (length before) = Inr (undoRecordType r, length (undoRecordBytes pad r))"
proof -
  have "(32::nat) < 2 ^ 32" by simp
  from unat_of_nat_32 [OF le_less_trans [OF undoRecord_size(2) this]]
  have "unat (of_nat (length (undoRecordBytes pad r)) :: u32) = length (undoRecordBytes pad r)" .
  then show ?thesis
    by (simp add: readUndoHeader_def encodeUndo_def undoHeaderBytes_def undoHeaderSize_def leWord_leBytes)
qed

text \<open>An entry is the bytes from a record on.\<close>

definition entry_of :: "u8 \<Rightarrow> 16 word \<times> u8 list \<Rightarrow> undo_record \<Rightarrow> bool" where
  "entry_of pad e r \<longleftrightarrow> fst e = undoRecordType r \<and> (\<exists>rest. snd e = undoRecordBytes pad r @ rest)"

lemma iterateBuffer_encoded:
  "\<exists>es. list_all2 (entry_of pad) es rs \<and> (\<forall>(callback :: 16 word \<Rightarrow> u8 list \<Rightarrow> 's \<Rightarrow> 's res) s.
     iterateBuffer callback (before @ concat (map (encodeUndo pad) rs) @ rest) (length before)
       (length before + length (concat (map (encodeUndo pad) rs))) s = foldR (\<lambda>e. callback (fst e) (snd e)) es s)"
proof (induction rs arbitrary: before)
  case Nil
  then show ?case by (subst iterateBuffer.simps) simp
next
  case (Cons r rs)
  let ?d = "before @ concat (map (encodeUndo pad) (r # rs)) @ rest" and ?n = "length (concat (map (encodeUndo pad) (r # rs)))"
  let ?e = "(undoRecordType r, drop (length before + undoHeaderSize) ?d)"
  obtain es where es: "list_all2 (entry_of pad) es rs" "\<And>(callback :: 16 word \<Rightarrow> u8 list \<Rightarrow> 's \<Rightarrow> 's res) s.
      iterateBuffer callback ?d (length before + undoHeaderSize + length (undoRecordBytes pad r)) (length before + ?n) s = foldR (\<lambda>e. callback (fst e) (snd e)) es s"
    using Cons.IH [of "before @ encodeUndo pad r"] by (auto simp: add.assoc)
  have head: "readUndoHeader ?d (length before) = Inr (undoRecordType r, length (undoRecordBytes pad r))"
    using readUndoHeader_encoded [of before pad r "concat (map (encodeUndo pad) rs) @ rest"] by simp
  have step: "iterateBuffer callback ?d (length before + undoHeaderSize + length (undoRecordBytes pad r)) (length before + ?n) = foldR (\<lambda>e. callback (fst e) (snd e)) es"
    for callback :: "16 word \<Rightarrow> u8 list \<Rightarrow> 's \<Rightarrow> 's res" by (rule ext) (rule es(2))
  have "length before < length before + ?n" by (simp add: undoHeaderSize_def)
  then have "iterateBuffer callback ?d (length before) (length before + ?n) s = foldR (\<lambda>e. callback (fst e) (snd e)) (?e # es) s"
    for callback :: "16 word \<Rightarrow> u8 list \<Rightarrow> 's \<Rightarrow> 's res" and s
    by (subst iterateBuffer.simps) (simp only: head if_True bindR_simps prod.case foldR.simps fst_conv snd_conv step)
  moreover have "entry_of pad ?e r" by (simp add: entry_of_def encodeUndo_def)
  ultimately show ?case using es(1) by (intro exI [of _ "?e # es"]) simp
qed

definition buffer_holds :: "u8 \<Rightarrow> undo_memory_buffer \<Rightarrow> undo_record list \<Rightarrow> bool" where
  "buffer_holds pad b rs \<longleftrightarrow> (\<exists>rest. undoData b = concat (map (encodeUndo pad) rs) @ rest)
     \<and> currentPosition b = length (concat (map (encodeUndo pad) rs)) \<and> currentPosition b \<le> undoCapacity b \<and> length (undoData b) = undoCapacity b"

definition undo_holds :: "u8 \<Rightarrow> undo_memory_buffer list \<Rightarrow> undo_record list \<Rightarrow> bool" where
  "undo_holds pad memoryBuffers rs \<longleftrightarrow> (\<exists>rss. list_all2 (buffer_holds pad) memoryBuffers rss \<and> rs = concat rss)"

lemma buffer_entries:
  assumes "buffer_holds pad b rs"
  shows "\<exists>es. list_all2 (entry_of pad) es rs \<and> (\<forall>(callback :: 16 word \<Rightarrow> u8 list \<Rightarrow> 's \<Rightarrow> 's res) s.
    iterateBuffer callback (undoData b) 0 (currentPosition b) s = foldR (\<lambda>e. callback (fst e) (snd e)) es s)"
proof -
  obtain rest where "undoData b = concat (map (encodeUndo pad) rs) @ rest" "currentPosition b = length (concat (map (encodeUndo pad) rs))"
    using assms by (auto simp: buffer_holds_def)
  then show ?thesis using iterateBuffer_encoded [of pad rs "[]" rest, where 's = 's] by (simp only: append_Nil list.size add_0)
qed

lemma foldR_entries:
  assumes "list_all2 (entry_of pad) es rs" "\<And>r rest s. callback (undoRecordType r) (undoRecordBytes pad r @ rest) s = f r s"
  shows "foldR (\<lambda>e. callback (fst e) (snd e)) es s = foldR f rs s"
  using assms(1)
proof (induction arbitrary: s rule: list_all2_induct)
  case (Cons e es r rs)
  then show ?case using assms(2) by (cases "f r s") (auto simp: entry_of_def)
qed simp

lemma foldR_blocks:
  assumes "list_all2 R bs rss" "\<And>b rs s. R b rs \<Longrightarrow> g b s = foldR f (h rs) s"
  shows "foldR g bs s = foldR f (concat (map h rss)) s"
  using assms(1)
proof (induction arbitrary: s rule: list_all2_induct)
  case (Cons b bs rs rss)
  have "foldR g bs = foldR f (concat (map h rss))" by (rule ext) (rule Cons(3))
  then show ?case using assms(2) [OF Cons(1)] by (simp add: foldR_append)
qed simp

text \<open>Commit visits the records in the order they were added, rollback in the opposite order.\<close>

lemma iterate_records:
  fixes callback :: "16 word \<Rightarrow> u8 list \<Rightarrow> 's \<Rightarrow> 's res"
  assumes "undo_holds pad memoryBuffers rs" "\<And>r rest s. callback (undoRecordType r) (undoRecordBytes pad r @ rest) s = f r s"
  shows "undo_iterate callback memoryBuffers s = foldR f rs s"
proof -
  obtain rss where rss: "list_all2 (buffer_holds pad) memoryBuffers rss" "rs = concat rss"
    using assms(1) by (auto simp: undo_holds_def)
  have "iterateBuffer callback (undoData b) 0 (currentPosition b) s = foldR f rs s" if b: "buffer_holds pad b rs" for b rs s
  proof -
    obtain es where es: "list_all2 (entry_of pad) es rs \<and> (\<forall>(callback :: 16 word \<Rightarrow> u8 list \<Rightarrow> 's \<Rightarrow> 's res) s. iterateBuffer callback (undoData b) 0 (currentPosition b) s = foldR (\<lambda>e. callback (fst e) (snd e)) es s)"
      using buffer_entries [OF b] ..
    from foldR_entries [where callback = callback and f = f, OF conjunct1 [OF es] assms(2)] show ?thesis
      unfolding conjunct2 [OF es, rule_format] .
  qed
  from foldR_blocks [where g = "\<lambda>b. iterateBuffer callback (undoData b) 0 (currentPosition b)" and h = "\<lambda>rs. rs", OF rss(1) this]
  show ?thesis by (simp add: undo_iterate_def rss(2))
qed

lemma collect_entries: "foldR (\<lambda>e found. Inr (found @ [(fst e, snd e)])) es found = Inr (found @ es)"
  by (induction es arbitrary: found) simp_all

lemma reverse_records:
  assumes "undo_holds pad memoryBuffers rs" "\<And>r rest s. callback (undoRecordType r) (undoRecordBytes pad r @ rest) s = f r s"
  shows "undo_reverseIterate callback memoryBuffers s = foldR f (rev rs) s"
proof -
  obtain rss where rss: "list_all2 (buffer_holds pad) memoryBuffers rss" "rs = concat rss"
    using assms(1) by (auto simp: undo_holds_def)
  have "bindR (iterateBuffer (\<lambda>entryType entry found. Inr (found @ [(entryType, entry)])) (undoData b) 0 (currentPosition b) [])
      (\<lambda>found. foldR (\<lambda>(entryType, entry). callback entryType entry) (rev found) s) = foldR f (rev rs) s"
    if b: "buffer_holds pad b rs" for b rs s
  proof -
    obtain es where es: "list_all2 (entry_of pad) es rs \<and> (\<forall>(callback :: 16 word \<Rightarrow> u8 list \<Rightarrow> (16 word \<times> u8 list) list \<Rightarrow> (16 word \<times> u8 list) list res) s.
        iterateBuffer callback (undoData b) 0 (currentPosition b) s = foldR (\<lambda>e. callback (fst e) (snd e)) es s)"
      using buffer_entries [OF b] ..
    have "list_all2 (entry_of pad) (rev es) (rev rs)" using es by simp
    from foldR_entries [where callback = callback and f = f, OF this assms(2)] show ?thesis
      unfolding conjunct2 [OF es, rule_format] collect_entries by (simp add: case_prod_beta')
  qed
  moreover have "list_all2 (buffer_holds pad) (rev memoryBuffers) (rev rss)" using rss(1) by simp
  ultimately show ?thesis unfolding undo_reverseIterate_def rss(2) rev_concat
    by (intro foldR_blocks [where h = rev and R = "buffer_holds pad"])
qed

lemma growCapacity_enough: "n \<le> capacity \<Longrightarrow> growCapacity n capacity = Some capacity"
  by (subst growCapacity.simps) simp

lemma undo_holds_empty: "undo_holds pad [] []"
  by (auto simp: undo_holds_def)

lemma buffer_holds_add:
  assumes b: "buffer_holds pad b rs" "canFit (length (encodeUndo pad r)) b"
  shows "\<exists>d. writeUndo (currentPosition b) (encodeUndo pad r) (undoData b) = Inr d
    \<and> buffer_holds pad (b\<lparr>currentPosition := currentPosition b + length (encodeUndo pad r), undoData := d\<rparr>) (rs @ [r])"
proof -
  obtain rest where rest: "undoData b = concat (map (encodeUndo pad) rs) @ rest" "currentPosition b = length (concat (map (encodeUndo pad) rs))"
      "length (undoData b) = undoCapacity b"
    using b(1) by (auto simp: buffer_holds_def)
  then have "writeUndo (currentPosition b) (encodeUndo pad r) (undoData b) =
      Inr (concat (map (encodeUndo pad) rs) @ encodeUndo pad r @ drop (length (encodeUndo pad r)) rest)"
    using b(2) by (simp add: writeUndo_def canFit_def)
  then show ?thesis using rest b(2) by (auto simp: buffer_holds_def canFit_def)
qed

lemma addUndoRecord_holds:
  assumes hold: "undo_holds pad memoryBuffers rs" and fresh: "length (fresh 4096) = 4096"
  shows "\<exists>memoryBuffers'. addUndoRecord pad fresh r memoryBuffers = Some (Inr memoryBuffers') \<and> undo_holds pad memoryBuffers' (rs @ [r])"
proof -
  let ?n = "length (encodeUndo pad r)"
  let ?new = "\<lparr>undoData = fresh 4096, undoCapacity = 4096, currentPosition = 0\<rparr>"
  define bs where "bs = (if memoryBuffers = [] \<or> \<not> canFit ?n (last memoryBuffers) then memoryBuffers @ [?new] else memoryBuffers)"
  have small: "?n \<le> 40" using undoRecord_size(2) [of pad r] by (simp add: undoHeaderSize_def)
  obtain rss where rss: "list_all2 (buffer_holds pad) memoryBuffers rss" "rs = concat rss" using hold by (auto simp: undo_holds_def)
  have "buffer_holds pad ?new []" using fresh by (simp add: buffer_holds_def)
  then have "\<exists>rss. list_all2 (buffer_holds pad) bs rss \<and> rs = concat rss \<and> bs \<noteq> [] \<and> canFit ?n (last bs)"
  proof (cases "memoryBuffers = [] \<or> \<not> canFit ?n (last memoryBuffers)")
    case True
    then show ?thesis using rss small \<open>buffer_holds pad ?new []\<close>
      by (auto simp: bs_def canFit_def simp del: encodeUndo_size intro!: exI [of _ "rss @ [[]]"] list_all2_appendI)
  qed (use rss in \<open>auto simp: bs_def\<close>)
  then obtain rss0 where rss0: "list_all2 (buffer_holds pad) bs rss0" "rs = concat rss0" "bs \<noteq> []" "canFit ?n (last bs)" by blast
  obtain bs0 b where bs: "bs = bs0 @ [b]" using rss0(3) by (cases bs rule: rev_cases) auto
  obtain rss' rs' where b: "list_all2 (buffer_holds pad) bs0 rss'" "buffer_holds pad b rs'" "rs = concat rss' @ rs'" "canFit ?n b"
    using rss0(1,2,4) unfolding bs by (auto simp: list_all2_append1 list_all2_Cons1)
  obtain d where d: "writeUndo (currentPosition b) (encodeUndo pad r) (undoData b) = Inr d"
      "buffer_holds pad (b\<lparr>currentPosition := currentPosition b + ?n, undoData := d\<rparr>) (rs' @ [r])"
    using buffer_holds_add [OF b(2,4)] by blast
  have room: "(if memoryBuffers = [] \<or> \<not> canFit ?n (last memoryBuffers)
      then map_option (\<lambda>capacity. Inr (memoryBuffers @ [\<lparr>undoData = fresh capacity, undoCapacity = capacity, currentPosition = 0\<rparr>]))
        (growCapacity ?n UNDO_MEMORY_BUFFER_INIT_CAPACITY) else Some (Inr memoryBuffers)) = Some (Inr bs)"
    using small growCapacity_enough [of ?n 4096] by (simp add: bs_def UNDO_MEMORY_BUFFER_INIT_CAPACITY_def del: encodeUndo_size)
  have "createUndoRecord fresh ?n memoryBuffers = Some (Inr (bs0 @ [b\<lparr>currentPosition := currentPosition b + ?n\<rparr>], currentPosition b))"
    unfolding createUndoRecord_def room using b(4) by (simp add: bs moveCurrentPosition_def canFit_def del: encodeUndo_size)
  then have "addUndoRecord pad fresh r memoryBuffers = Some (Inr (bs0 @ [b\<lparr>currentPosition := currentPosition b + ?n, undoData := d\<rparr>]))"
    using d(1) by (simp add: addUndoRecord_def encodeUndo_def)
  moreover have "undo_holds pad (bs0 @ [b\<lparr>currentPosition := currentPosition b + ?n, undoData := d\<rparr>]) (rs @ [r])"
    unfolding undo_holds_def using b(1,3) d(2) by (intro exI [of _ "rss' @ [rs' @ [r]]"]) (simp add: list_all2_appendI)
  ultimately show ?thesis by blast
qed

lemma undo_commit_records: "undo_holds pad memoryBuffers rs \<Longrightarrow> undo_commit hs cts memoryBuffers s = foldR (commitRecord hs cts) rs s"
  unfolding undo_commit_def by (rule iterate_records) (simp_all add: readUndoRecord_encoded)

lemma undo_rollback_records: "undo_holds pad memoryBuffers rs \<Longrightarrow> undo_rollback hs cts memoryBuffers s = foldR (rollbackRecord hs cts) (rev rs) s"
  unfolding undo_rollback_def by (rule reverse_records) (simp_all add: readUndoRecord_encoded)

section \<open>Every kind of object by itself\<close>

text \<open>The records of one object, and what they do to it.\<close>

fun catalogUndos :: "u64 \<Rightarrow> undo_record list \<Rightarrow> nat list" where
  "catalogUndos a [] = []"
| "catalogUndos a (CatalogEntryUndo catalogSet e # rs) = (if catalogSet = a then [unat e] else []) @ catalogUndos a rs"
| "catalogUndos a (_ # rs) = catalogUndos a rs"

fun sequenceUndos :: "u64 \<Rightarrow> undo_record list \<Rightarrow> sequence_rollback_data list" where
  "sequenceUndos a [] = []"
| "sequenceUndos a (SequenceEntryUndo b usage val # rs) = (if b = a then [(usage, val)] else []) @ sequenceUndos a rs"
| "sequenceUndos a (_ # rs) = sequenceUndos a rs"

fun updateUndos :: "u64 \<Rightarrow> undo_record list \<Rightarrow> (nat \<times> nat \<times> transaction_t) list" where
  "updateUndos a [] = []"
| "updateUndos a (VectorUpdateUndo b k info v # rs) = (if b = a then [(unat k, unat info, v)] else []) @ updateUndos a rs"
| "updateUndos a (_ # rs) = updateUndos a rs"

fun tableUndos :: "undo_record list \<Rightarrow> undo_record list" where
  "tableUndos [] = []"
| "tableUndos (InsertInfoUndo st n g h # rs) = InsertInfoUndo st n g h # tableUndos rs"
| "tableUndos (DeleteInfoUndo st n g h # rs) = DeleteInfoUndo st n g h # tableUndos rs"
| "tableUndos (_ # rs) = tableUndos rs"

fun validPointers :: "undo_record \<Rightarrow> bool" where
  "validPointers (VectorUpdateUndo a k info v) = (a \<noteq> 0 \<and> info \<noteq> 0)"
| "validPointers _ = True"

fun onTableRecord :: "(u64 \<Rightarrow> u64 \<Rightarrow> u64 \<Rightarrow> u64 \<Rightarrow> 'h \<Rightarrow> 'h res) \<Rightarrow> (u64 \<Rightarrow> u64 \<Rightarrow> u64 \<Rightarrow> u64 \<Rightarrow> 'h \<Rightarrow> 'h res) \<Rightarrow> undo_record \<Rightarrow> 'h \<Rightarrow> 'h res" where
  "onTableRecord ins del (InsertInfoUndo st n g h) = ins h g st n"
| "onTableRecord ins del (DeleteInfoUndo st n g h) = del h g st n"
| "onTableRecord ins del _ = Inr"

text \<open>
  What commit and rollback have in common: a record acts on the object it names. The laws give, for
  every sequence of records, the result from what the records of every object do to it.
\<close>

locale record_visitor =
  fixes visit :: "undo_record \<Rightarrow> ('t, 'x, 'o, 'v, 'h) undo_targets \<Rightarrow> ('t, 'x, 'o, 'v, 'h) undo_targets res"
    and onEntry :: "nat \<Rightarrow> ('t, 'x, 'o) catalog_set \<Rightarrow> ('t, 'x, 'o) catalog_set res"
    and onSequence :: "sequence_rollback_data \<Rightarrow> sequence_data \<Rightarrow> sequence_data"
    and onVector :: "nat \<times> nat \<times> transaction_t \<Rightarrow> 'v update_info \<Rightarrow> 'v update_info res"
    and onInsert onDelete :: "u64 \<Rightarrow> u64 \<Rightarrow> u64 \<Rightarrow> u64 \<Rightarrow> 'h \<Rightarrow> 'h res"
  assumes visit_catalog: "visit (CatalogEntryUndo a e) s = onSet a (onEntry (unat e)) s"
    and visit_sequence: "visit (SequenceEntryUndo b usage val) s = Inr (s\<lparr>targetSequences := (targetSequences s)(b := onSequence (usage, val) (targetSequences s b))\<rparr>)"
    and visit_update: "u \<noteq> 0 \<Longrightarrow> info \<noteq> 0 \<Longrightarrow> visit (VectorUpdateUndo u k info v) s = onUpdates u (onVector (unat k, unat info, v)) s"
    and visit_insert: "visit (InsertInfoUndo st n g h) s = onTables (onInsert h g st n) s"
    and visit_delete: "visit (DeleteInfoUndo st n g h) s = onTables (onDelete h g st n) s"
begin

lemma componentwise:
  assumes "list_all validPointers rs"
    and "\<And>a. foldR onEntry (catalogUndos a rs) (targetSets s a) = Inr (sets a)"
    and "\<And>a. fold onSequence (sequenceUndos a rs) (targetSequences s a) = seqs a"
    and "\<And>a. foldR onVector (updateUndos a rs) (targetUpdates s a) = Inr (upds a)"
    and "foldR (onTableRecord onInsert onDelete) (tableUndos rs) (targetTables s) = Inr tabs"
  shows "foldR visit rs s = Inr \<lparr>targetSets = sets, targetSequences = seqs, targetUpdates = upds, targetTables = tabs\<rparr>"
  using assms
proof (induction rs arbitrary: s)
  case Nil
  then have "targetSets s = sets" "targetSequences s = seqs" "targetUpdates s = upds" "targetTables s = tabs" by (auto simp: fun_eq_iff)
  then show ?case by (cases s) auto
next
  case (Cons r rs)
  show ?case
  proof (cases r)
    case (CatalogEntryUndo a e)
    obtain c where c: "onEntry (unat e) (targetSets s a) = Inr c" "foldR onEntry (catalogUndos a rs) c = Inr (sets a)"
      using Cons.prems(2) [of a] CatalogEntryUndo by auto
    let ?s = "s\<lparr>targetSets := (targetSets s)(a := c)\<rparr>"
    have "foldR onEntry (catalogUndos b rs) (targetSets ?s b) = Inr (sets b)" for b
      using c(2) Cons.prems(2) [of b] CatalogEntryUndo by (cases "a = b") auto
    then have "foldR visit rs ?s = Inr \<lparr>targetSets = sets, targetSequences = seqs, targetUpdates = upds, targetTables = tabs\<rparr>"
      using Cons.prems CatalogEntryUndo by (intro Cons.IH) simp_all
    then show ?thesis using c(1) CatalogEntryUndo by (simp add: visit_catalog onSet_def)
  next
    case (SequenceEntryUndo b usage val)
    let ?s = "s\<lparr>targetSequences := (targetSequences s)(b := onSequence (usage, val) (targetSequences s b))\<rparr>"
    have "fold onSequence (sequenceUndos a rs) (targetSequences ?s a) = seqs a" for a
      using Cons.prems(3) [of a] SequenceEntryUndo by (cases "a = b") auto
    then have "foldR visit rs ?s = Inr \<lparr>targetSets = sets, targetSequences = seqs, targetUpdates = upds, targetTables = tabs\<rparr>"
      using Cons.prems SequenceEntryUndo by (intro Cons.IH) simp_all
    then show ?thesis using SequenceEntryUndo by (simp add: visit_sequence)
  next
    case (VectorUpdateUndo a k info v)
    obtain u where u: "onVector (unat k, unat info, v) (targetUpdates s a) = Inr u" "foldR onVector (updateUndos a rs) u = Inr (upds a)"
      using Cons.prems(4) [of a] VectorUpdateUndo by auto
    let ?s = "s\<lparr>targetUpdates := (targetUpdates s)(a := u)\<rparr>"
    have "foldR onVector (updateUndos b rs) (targetUpdates ?s b) = Inr (upds b)" for b
      using u(2) Cons.prems(4) [of b] VectorUpdateUndo by (cases "a = b") auto
    then have "foldR visit rs ?s = Inr \<lparr>targetSets = sets, targetSequences = seqs, targetUpdates = upds, targetTables = tabs\<rparr>"
      using Cons.prems VectorUpdateUndo by (intro Cons.IH) simp_all
    then show ?thesis using u(1) VectorUpdateUndo Cons.prems(1) by (simp add: visit_update onUpdates_def)
  qed (use Cons in \<open>auto simp: visit_insert visit_delete onTables_def\<close>)
qed

end

interpretation commit_visitor: record_visitor "commitRecord hs cts" "commitCatalogEntryRecord cts" "\<lambda>_ s. s"
  "\<lambda>(k, info, _). updateInfo_commit k info cts" "\<lambda>h g st n. applyFuncToChunkedGroups hs h CommitInsert g st n cts"
  "\<lambda>h g st n. applyFuncToChunkedGroups hs h CommitDelete g st n cts" for hs cts
  by unfold_locales simp_all

interpretation rollback_visitor: record_visitor "rollbackRecord hs cts" rollbackCatalogEntryRecord rollbackVal
  "\<lambda>(k, _, v). updateInfo_rollback k v" "handlerRollbackInsert hs"
  "\<lambda>h g st n. applyFuncToChunkedGroups hs h RollbackDelete g st n cts" for hs cts
  by unfold_locales simp_all

section \<open>Rolling back a transaction\<close>

fun addUndoRecords :: "u8 \<Rightarrow> (nat \<Rightarrow> u8 list) \<Rightarrow> undo_record list \<Rightarrow> undo_memory_buffer list \<Rightarrow> undo_memory_buffer list res option" where
  "addUndoRecords pad fresh [] bs = Some (Inr bs)"
| "addUndoRecords pad fresh (r # rs) bs = bindP (addUndoRecord pad fresh r bs) (addUndoRecords pad fresh rs)"

lemma addUndoRecords_holds:
  assumes "undo_holds pad bs rs0" "length (fresh 4096) = 4096"
  shows "\<exists>bs'. addUndoRecords pad fresh rs bs = Some (Inr bs') \<and> undo_holds pad bs' (rs0 @ rs)"
  using assms(1)
proof (induction rs arbitrary: bs rs0)
  case (Cons r rs)
  obtain bs1 where "addUndoRecord pad fresh r bs = Some (Inr bs1)" "undo_holds pad bs1 (rs0 @ [r])"
    using addUndoRecord_holds [where fresh = fresh, OF Cons.prems assms(2)] by blast
  then show ?case using Cons.IH [of bs1 "rs0 @ [r]"] by simp
qed simp

lemma undos_append:
  "catalogUndos a (rs @ rs') = catalogUndos a rs @ catalogUndos a rs'"
  "sequenceUndos a (rs @ rs') = sequenceUndos a rs @ sequenceUndos a rs'"
  "updateUndos a (rs @ rs') = updateUndos a rs @ updateUndos a rs'"
  "tableUndos (rs @ rs') = tableUndos rs @ tableUndos rs'"
  by (induction a rs rule: catalogUndos.induct) simp_all

lemma undos_rev:
  "catalogUndos a (rev rs) = rev (catalogUndos a rs)"
  "sequenceUndos a (rev rs) = rev (sequenceUndos a rs)"
  "updateUndos a (rev rs) = rev (updateUndos a rs)"
  "tableUndos (rev rs) = rev (tableUndos rs)"
  by (induction a rs rule: catalogUndos.induct) (simp_all add: undos_append)

text \<open>
  What a transaction does to a catalog set and to a sequence, with the records it pushes.

  The changes of a catalog set are the statements that succeed, from a set in which no other
  transaction has touched a name since \<open>t\<close> started (\<^const>\<open>undisturbed\<close>). A statement that fails without
  changing the set pushes no record and needs no step; a rename that fails after its first half does
  change the set without a record, and is not among the changes.

  The requests to a sequence may fail. A request of several values that runs out advances the sequence
  and pushes no record; it is a step only if an earlier request of the transaction has pushed one, whose
  rollback then takes back both, or if nothing was advanced.
\<close>

definition catalogChanges :: "transaction \<Rightarrow> ('t, 'x, 'o) catalog_set \<Rightarrow> nat list \<Rightarrow> ('t, 'x, 'o) catalog_set \<Rightarrow> bool" where
  "catalogChanges t s us s' \<longleftrightarrow> cs_inv s \<and> undisturbed t s
     \<and> (\<exists>cfg ops log u. exec_ddls cfg t ops (s, \<lparr>undoRecords = [], walRecords = []\<rparr>) = ((s', log), Inr u) \<and> undoRecords log = us)"

inductive sequenceAdvances :: "sequence_data \<Rightarrow> sequence_rollback_data list \<Rightarrow> sequence_data \<Rightarrow> bool" where
  stays: "sequenceAdvances s [] s"
| advances: "sequenceAdvances s ds s' \<Longrightarrow> nextKVal k s' = (s'', Inr (d, vs)) \<Longrightarrow> sequenceAdvances s (ds @ [d]) s''"
| runs_out: "sequenceAdvances s ds s' \<Longrightarrow> nextKVal k s' = (s'', Inl e) \<Longrightarrow> ds \<noteq> [] \<or> s'' = s' \<Longrightarrow> sequenceAdvances s ds s''"

lemma nextVals_frame: "nextVals n s = (s', r) \<Longrightarrow> rollbackVal d s' = rollbackVal d s"
proof (induction n arbitrary: s s' r)
  case (Suc n)
  show ?case
  proof (cases "nextValNoLock s")
    case (Inr s1)
    then have "rollbackVal d s1 = rollbackVal d s" by (auto simp: nextValNoLock_def rollbackVal_def Let_def split: if_splits)
    moreover obtain s2 r2 where "nextVals n s1 = (s2, r2)" by fastforce
    ultimately show ?thesis using Suc Inr by (cases r2) auto
  qed (use Suc in simp)
qed simp

lemma sequence_rolled_back:
  assumes "sequenceAdvances s ds s'"
  shows "fold rollbackVal (rev ds) s' = s"
  using assms
proof (induction rule: sequenceAdvances.induct)
  case (advances s ds s' k s'' d vs)
  then have "d = (usageCount s', sqCurrVal s')" "rollbackVal d s'' = rollbackVal d s'"
    using nextVals_frame [of k s' s'' _ d] by (auto simp: nextKVal_def Let_def)
  then have "rollbackVal d s'' = s'" by (simp add: rollbackVal_def)
  then show ?case using advances.IH by simp
next
  case (runs_out s ds s' k s'' e)
  have "rollbackVal d s'' = rollbackVal d s'" for d
    using runs_out.hyps(2) nextVals_frame [of k s' s'' _ d]
    by (cases "nextVals k s'"; cases "snd (nextVals k s')") (auto simp: nextKVal_def bindS_def Let_def assertR_def split: if_splits)
  then show ?case using runs_out by (cases ds rule: rev_cases) auto
qed simp

text \<open>
  C3. Rolling back a transaction takes back what it did, under these conditions. A transaction may have
  created, dropped and altered entries of any number of catalog sets, each of these statements having
  succeeded and no other transaction having touched a name of the sets since it started; requested
  values of sequences, requests that ran out included, unless a request that ran out advanced a sequence
  before the transaction had a record of it; and updated rows of any number of column chunks, its
  updates that were refused for a conflict included; all in any order. The records of all this are in
  the buffers of its undo buffer. If the handlers of inserted and deleted rows do not throw, then the
  rollback succeeds: every transaction sees every catalog entry and every updated value as before, the
  sequences are what they were, and the handlers were called with the records of the tables, the newest
  first. The excluded cases are those in which the rollback leaves something behind: the first half of a
  rename that failed, and a failed request for values that pushed no record.
\<close>

theorem undo_rollback_restores:
  fixes s s' :: "('t, 'x, 'o, 'v, 'h) undo_targets"
  assumes "length (fresh 4096) = 4096" "list_all validPointers rs" "shouldAppendToUndoBuffer t" "START_TRANSACTION_ID \<le> txnID t"
    and catalog: "\<forall>a. catalogChanges t (targetSets s a) (catalogUndos a rs) (targetSets s' a)"
    and sequences: "\<forall>a. sequenceAdvances (targetSequences s a) (sequenceUndos a rs) (targetSequences s' a)"
    and updates: "\<forall>a. updatesBy vc t (targetUpdates s a) (updateUndos a rs) (targetUpdates s' a) \<and> updates_ok vc (targetUpdates s a)
      \<and> (\<forall>k. ownVersions (txnID t) (chainAt (targetUpdates s a) k) = [])"
    and tables: "foldR (onTableRecord (handlerRollbackInsert hs) (\<lambda>h g st n. applyFuncToChunkedGroups hs h RollbackDelete g st n cts))
      (rev (tableUndos rs)) (targetTables s') = Inr tabs"
  shows "\<exists>bs s''. addUndoRecords pad fresh rs [] = Some (Inr bs) \<and> undo_rollback hs cts bs s' = Inr s''
    \<and> (\<forall>a r n. entryView r n (targetSets s'' a) = entryView r n (targetSets s a))
    \<and> (\<forall>a r row. updatedValue vc r (targetUpdates s'' a) row = updatedValue vc r (targetUpdates s a) row)
    \<and> targetSequences s'' = targetSequences s \<and> targetTables s'' = tabs"
proof -
  obtain bs where bs: "addUndoRecords pad fresh rs [] = Some (Inr bs)" "undo_holds pad bs rs"
    using addUndoRecords_holds [where fresh = fresh, OF undo_holds_empty assms(1), of pad rs] by auto
  have "\<exists>c. foldR rollbackCatalogEntryRecord (rev (catalogUndos a rs)) (targetSets s' a) = Inr c \<and> (\<forall>r n. entryView r n c = entryView r n (targetSets s a))" for a
  proof -
    obtain cfg ops log u where c: "cs_inv (targetSets s a)" "undisturbed t (targetSets s a)" "undoRecords log = catalogUndos a rs"
        "exec_ddls cfg t ops (targetSets s a, \<lparr>undoRecords = [], walRecords = []\<rparr>) = ((targetSets s' a, log), Inr u)"
      using catalog unfolding catalogChanges_def by blast
    from exec_ddls_pushes [OF _ _ assms(3) c(4)] c(1,2)
    have push: "pushes t (targetSets s a) (catalogUndos a rs) (targetSets s' a)" using c(3) by auto
    have "covers (targetSets s' a) (targetSets s' a)" by (simp add: covers_def)
    then show ?thesis using rollback_pushes [OF push _ pushes_inv [OF push c(1)]] covers_view by blast
  qed
  then obtain sets where sets: "\<And>a. foldR rollbackCatalogEntryRecord (rev (catalogUndos a rs)) (targetSets s' a) = Inr (sets a)"
      "\<And>a r n. entryView r n (sets a) = entryView r n (targetSets s a)" by metis
  have "\<exists>u. foldR (\<lambda>(k, _, w). updateInfo_rollback k w) (rev (updateUndos a rs)) (targetUpdates s' a) = Inr u \<and> chainAt u = chainAt (targetUpdates s a)" for a
    using updates_rolled_back [OF _ assms(4)] updates by blast
  then obtain upds where upds: "\<And>a. foldR (\<lambda>(k, _, w). updateInfo_rollback k w) (rev (updateUndos a rs)) (targetUpdates s' a) = Inr (upds a)"
      "\<And>a. chainAt (upds a) = chainAt (targetUpdates s a)" by metis
  have "foldR (rollbackRecord hs cts) (rev rs) s' =
      Inr \<lparr>targetSets = sets, targetSequences = targetSequences s, targetUpdates = upds, targetTables = tabs\<rparr>"
    using assms(2) sets(1) upds(1) tables sequence_rolled_back sequences
    by (intro rollback_visitor.componentwise) (simp_all add: undos_rev list_all_iff)
  then show ?thesis using bs sets(2) upds(2) by (simp add: undo_rollback_records updatedValue_chainAt)
qed

definition example_before :: "(u8, u8, u8, nat, unit) undo_targets" where
  "example_before = \<lparr>targetSets = \<lambda>_. CatalogSet_new False, targetSequences = \<lambda>_. example_sequence, targetUpdates = \<lambda>_. [], targetTables = ()\<rparr>"

definition example_after :: "(u8, u8, u8, nat, unit) undo_targets" where
  "example_after = example_before\<lparr>targetSets := (targetSets example_before)(8 := example_created),
     targetSequences := (targetSequences example_before)(9 := example_sequence\<lparr>sqCurrVal := 8, usageCount := 2\<rparr>),
     targetUpdates := (targetUpdates example_before)(10 := [[\<lparr>infoAddr = 7, version = txnID example_writer, rowsInVector = [1], vectorValues = [42]\<rparr>]])\<rparr>"

definition example_undos :: "undo_record list" where
  "example_undos = [CatalogEntryUndo 8 1, VectorUpdateUndo 10 0 7 (txnID example_writer), SequenceEntryUndo 9 0 5]"

definition idle_handlers :: "unit version_handlers" where
  "idle_handlers = \<lparr>applyFuncToChunkedGroups = \<lambda>_ _ _ _ _ _. Inr, handlerRollbackInsert = \<lambda>_ _ _ _. Inr\<rparr>"

lemma example_changes:
  "catalogChanges example_writer (targetSets example_before a) (catalogUndos a example_undos) (targetSets example_after a)"
proof (cases "a = 8")
  case True
  have "undoRecords example_log = [1]" by (simp add: example_log_def)
  then have "catalogChanges example_writer (CatalogSet_new False) [1] example_created"
    unfolding catalogChanges_def using example_start(1,2) example_runs by blast
  then show ?thesis using True by (simp add: example_before_def example_after_def example_undos_def)
next
  case False
  have "catalogChanges example_writer (CatalogSet_new False :: (u8, u8, u8) catalog_set) [] (CatalogSet_new False)"
    unfolding catalogChanges_def using example_start(1,2)
    by (intro conjI exI [of _ example_config] exI [of _ "[]"] exI [of _ "\<lparr>undoRecords = [], walRecords = []\<rparr>"]) simp_all
  then show ?thesis using False by (simp add: example_before_def example_after_def example_undos_def)
qed

lemma example_advances: "sequenceAdvances (targetSequences example_before a) (sequenceUndos a example_undos) (targetSequences example_after a)"
proof (cases "a = 9")
  case True
  have "nextKVal 2 example_sequence = (example_sequence\<lparr>sqCurrVal := 8, usageCount := 2\<rparr>, Inr ((0, 5), [5, 8]))"
    by (simp add: nextKVal_def numeral_2_eq_2 nextValNoLock_def example_sequence_def SequenceData_new_def Add_operation_def AddInPlace_def Let_def)
  from advances [OF stays this] show ?thesis using True by (simp add: example_before_def example_after_def example_undos_def)
qed (auto simp: example_before_def example_after_def example_undos_def intro: stays)

lemma example_updates: "updatesBy 4 example_writer (targetUpdates example_before a) (updateUndos a example_undos) (targetUpdates example_after a)"
proof (cases "a = 10")
  case True
  have "updateInfo_update 4 example_writer 7 0 1 42 [] = ([[\<lparr>infoAddr = 7, version = txnID example_writer, rowsInVector = [1], vectorValues = [42]\<rparr>]], Inr 7)"
    by (simp add: updateInfo_update_def getOrCreateUpdateNode_def updateInChain_def VectorUpdateInfo_new_def writeRow_def Let_def)
  from updated [OF no_update _ this] show ?thesis using True by (simp add: example_before_def example_after_def example_undos_def)
qed (auto simp: example_before_def example_after_def example_undos_def intro: no_update)

theorem undo_rollback_restores_witness:
  "\<exists>bs s''. addUndoRecords 0 (\<lambda>n. replicate n 0) example_undos [] = Some (Inr bs) \<and> undo_rollback idle_handlers 0 bs example_after = Inr s''
    \<and> entryView example_writer (tag ''a'') (targetSets s'' 8) = None \<and> entryView example_writer (tag ''a'') (targetSets example_after 8) \<noteq> None
    \<and> updatedValue 4 example_writer (targetUpdates s'' 10) 1 = None \<and> targetSequences s'' 9 = example_sequence"
proof -
  have tid: "START_TRANSACTION_ID \<le> txnID example_writer"
    by (simp add: example_writer_def Transaction_new_def START_TRANSACTION_ID_def word_le_nat_alt)
  have "\<exists>bs s''. addUndoRecords 0 (\<lambda>n. replicate n 0) example_undos [] = Some (Inr bs) \<and> undo_rollback idle_handlers 0 bs example_after = Inr s''
    \<and> (\<forall>a r n. entryView r n (targetSets s'' a) = entryView r n (targetSets example_before a))
    \<and> (\<forall>a r row. updatedValue 4 r (targetUpdates s'' a) row = updatedValue 4 r (targetUpdates example_before a) row)
    \<and> targetSequences s'' = targetSequences example_before \<and> targetTables s'' = ()"
    by (rule undo_rollback_restores [where t = example_writer])
      (simp_all add: example_changes example_advances example_updates tid example_start(4),
       simp_all add: example_undos_def example_before_def example_after_def updates_ok_def chainAt_def ownVersions_def)
  moreover have "updatedValue 4 example_writer (targetUpdates example_before 10) 1 = None" "targetSets example_before 8 = CatalogSet_new False"
    "targetSets example_after 8 = example_created" "targetSequences example_before 9 = example_sequence"
    by (simp_all add: example_before_def example_after_def updatedValue_def)
  ultimately show ?thesis using example_view by (metis option.distinct(1))
qed

end
