(* ===== verification/Column_Chunk.thy ===== *)
theory Column_Chunk
  imports Undo_Buffer
begin

text \<open>
  Column chunks in memory (\<^verbatim>\<open>src/src/storage/table/column_chunk.cpp\<close> and
  \<^verbatim>\<open>column_chunk.h\<close>): a chunk is a sequence of segments and the update info over
  their rows. \<open>scan\<close>, \<open>lookup\<close>, \<open>scanCommitted\<close> and \<open>hasUpdates\<close> read the segments and then the
  updates; \<open>update\<close> adds a version and pushes its undo record.

  A segment is the list of its values. The functions over a range of segments get the number of
  values of every segment and the index of the segment, as the iterators of the source do. Segments
  on disk are read by \<^verbatim>\<open>Column\<close> and are not modelled.
\<close>

section \<open>Ranges of segments\<close>

fun genericFindSegment :: "nat list \<Rightarrow> nat \<Rightarrow> nat \<Rightarrow> nat \<times> nat" where
  "genericFindSegment [] segment offsetInSegment = (segment, 0)"
| "genericFindSegment (n # ns) segment offsetInSegment =
     (if offsetInSegment < n then (segment, offsetInSegment)
      else genericFindSegment ns (segment + 1) (offsetInSegment - n))"

function genericRangeSegmentsFromIt ::
  "(nat \<Rightarrow> nat \<Rightarrow> nat \<Rightarrow> nat \<Rightarrow> 's \<Rightarrow> 's res) \<Rightarrow> nat list \<Rightarrow> nat \<Rightarrow> nat \<Rightarrow> nat \<Rightarrow> nat \<Rightarrow> 's \<Rightarrow> ('s \<times> nat) res" where
  "genericRangeSegmentsFromIt func ns segment offsetInSegment len lengthScanned s =
     (if lengthScanned < len \<and> segment < length ns then
        bindR (assertR (ns ! segment > offsetInSegment)) (\<lambda>_.
        let lengthInSegment = min (len - lengthScanned) (ns ! segment - offsetInSegment) in
        bindR (func segment offsetInSegment lengthInSegment lengthScanned s) (\<lambda>s.
        genericRangeSegmentsFromIt func ns (segment + 1) 0 len (lengthScanned + lengthInSegment) s))
      else Inr (s, lengthScanned))"
  by pat_completeness auto

termination genericRangeSegmentsFromIt
  by (relation "measure (\<lambda>(_, ns, i, _, _, _, _). length ns - i)") auto

declare genericRangeSegmentsFromIt.simps [simp del]

definition genericRangeSegments :: "(nat \<Rightarrow> nat \<Rightarrow> nat \<Rightarrow> nat \<Rightarrow> 's \<Rightarrow> 's res) \<Rightarrow> nat list \<Rightarrow> nat \<Rightarrow> nat \<Rightarrow> 's \<Rightarrow> ('s \<times> nat) res" where
  "genericRangeSegments func ns offsetInChunk len s =
     (let (segment, offsetInSegment) = genericFindSegment ns 0 offsetInChunk in
      genericRangeSegmentsFromIt func ns segment offsetInSegment len 0 s)"

definition rangeSegments :: "(nat \<Rightarrow> nat \<Rightarrow> nat \<Rightarrow> nat \<Rightarrow> 's \<Rightarrow> 's res) \<Rightarrow> 'v list list \<Rightarrow> nat \<Rightarrow> nat \<Rightarrow> 's \<Rightarrow> 's res" where
  "rangeSegments func segments offsetInChunk len s =
     bindR (genericRangeSegments func (map length segments) offsetInChunk len s) (\<lambda>(s, _). Inr s)"

section \<open>The operations of a chunk\<close>

text \<open>\<^verbatim>\<open>ColumnChunkData::scan\<close>: values of a segment to positions of the output.\<close>

definition segment_scan :: "'v list \<Rightarrow> nat \<Rightarrow> nat \<Rightarrow> nat \<Rightarrow> 'v list \<Rightarrow> 'v list res" where
  "segment_scan seg offset len dst out =
     (if offset + len \<le> length seg \<and> dst + len \<le> length out
      then Inr (take dst out @ take len (drop offset seg) @ drop (dst + len) out) else Inl OutOfBounds)"

definition segment_lookup :: "'v list \<Rightarrow> nat \<Rightarrow> nat \<Rightarrow> 'v list \<Rightarrow> 'v list res" where
  "segment_lookup seg offset pos out = bindR (nthR seg offset) (\<lambda>v. updR out pos v)"

definition columnChunk_scan :: "nat \<Rightarrow> transaction \<Rightarrow> 'v list list \<Rightarrow> 'v update_info \<Rightarrow> nat \<Rightarrow> nat \<Rightarrow> 'v list \<Rightarrow> 'v list res" where
  "columnChunk_scan vc t segments updates offsetInChunk len out =
     bindR (rangeSegments (\<lambda>segment offset n dst out. segment_scan (segments ! segment) offset n dst out) segments offsetInChunk len out)
       (updateInfo_scan vc t offsetInChunk len updates)"

definition columnChunk_lookup :: "nat \<Rightarrow> transaction \<Rightarrow> 'v list list \<Rightarrow> 'v update_info \<Rightarrow> nat \<Rightarrow> nat \<Rightarrow> 'v list \<Rightarrow> 'v list res" where
  "columnChunk_lookup vc t segments updates rowInChunk pos out =
     bindR (rangeSegments (\<lambda>segment offset _ _ out. segment_lookup (segments ! segment) offset pos out) segments rowInChunk 1 out)
       (updateInfo_lookup vc t rowInChunk pos updates)"

definition columnChunk_hasUpdates :: "nat \<Rightarrow> transaction \<Rightarrow> 'v update_info \<Rightarrow> nat \<Rightarrow> nat \<Rightarrow> bool res" where
  "columnChunk_hasUpdates vc t updates startRow numRows = updateInfo_hasUpdates vc t startRow numRows updates"

text \<open>
  \<^verbatim>\<open>scanCommitted\<close> with \<^verbatim>\<open>CombinedChunkScanner\<close>: the segments are appended to the
  output chunk, then the updates are written over the appended rows. \<open>None\<close> is
  \<^verbatim>\<open>INVALID_ROW_IDX\<close>.
\<close>

definition scanInMemSegments :: "'v list list \<Rightarrow> nat \<Rightarrow> nat \<Rightarrow> 'v list \<Rightarrow> 'v list res" where
  "scanInMemSegments segments startRow numRows output =
     rangeSegments (\<lambda>segment offset n _ output. Inr (output @ take n (drop offset (segments ! segment)))) segments startRow numRows output"

definition columnChunk_scanCommitted ::
  "nat \<Rightarrow> transaction \<Rightarrow> 'v list list \<Rightarrow> 'v update_info \<Rightarrow> nat \<Rightarrow> nat option \<Rightarrow> 'v list \<Rightarrow> 'v list res" where
  "columnChunk_scanCommitted vc t segments updates startRow numRows output =
     (let numValuesInChunk = sum_list (map length segments);
          numRows = (case numRows of None \<Rightarrow> numValuesInChunk - startRow
            | Some n \<Rightarrow> if startRow + n > numValuesInChunk then numValuesInChunk - startRow else n) in
      if numRows = 0 \<or> startRow \<ge> numValuesInChunk then Inr output
      else bindR (scanInMemSegments segments startRow numRows output)
             (updateInfo_scanCommitted vc t (length output) startRow numRows updates))"

text \<open>
  \<^verbatim>\<open>update\<close>: \<open>chunk\<close> is the address of the update info, \<open>addr\<close> that of a new version. A dummy
  transaction writes to the segment.
\<close>

definition columnChunk_update ::
  "u8 \<Rightarrow> (nat \<Rightarrow> u8 list) \<Rightarrow> nat \<Rightarrow> transaction \<Rightarrow> nat \<Rightarrow> u64 \<Rightarrow> nat \<Rightarrow> 'v
    \<Rightarrow> 'v list list \<times> 'v update_info \<times> undo_memory_buffer list
    \<Rightarrow> (('v list list \<times> 'v update_info \<times> undo_memory_buffer list) \<times> unit res) option" where
  "columnChunk_update pad fresh vc t addr chunk offsetInChunk v st =
     (let (segments, updates, undos) = st in
      if txnType t = DUMMY then
        Some (case rangeSegments (\<lambda>segment offset _ _ ss. bindR (updR (ss ! segment) offset v) (\<lambda>seg. Inr (ss[segment := seg])))
                segments offsetInChunk 1 segments of
          Inl e \<Rightarrow> (st, Inl e) | Inr ss \<Rightarrow> ((ss, updates, undos), Inr ()))
      else
        let vectorIdx = offsetInChunk div vc; rowIdxInVector = offsetInChunk mod vc in
        case updateInfo_update vc t addr vectorIdx rowIdxInVector v updates of
          (updates, Inl e) \<Rightarrow> Some ((segments, updates, undos), Inl e)
        | (updates, Inr a) \<Rightarrow>
            map_option (case_sum (\<lambda>e. ((segments, updates, undos), Inl e)) (\<lambda>undos. ((segments, updates, undos), Inr ())))
              (createVectorUpdateInfo pad fresh chunk (of_nat vectorIdx) (of_nat a) (txnID t) undos))"

section \<open>The segments are one sequence of values\<close>

lemma findSegment_spec:
  assumes "genericFindSegment (map length segments) i off = (j, o')"
  shows "i \<le> j \<and> j \<le> i + length segments \<and> (j < i + length segments \<longrightarrow> o' < length (segments ! (j - i)))
    \<and> drop off (concat segments) = drop o' (concat (drop (j - i) segments))"
  using assms
proof (induction segments arbitrary: i off)
  case (Cons seg segments)
  show ?case
  proof (cases "off < length seg")
    case False
    then have r: "genericFindSegment (map length segments) (i + 1) (off - length seg) = (j, o')" using Cons.prems by simp
    note IH = Cons.IH [OF r]
    then obtain d where "j = i + 1 + d" using le_Suc_ex by blast
    then show ?thesis using IH False by simp
  qed (use Cons.prems in auto)
qed auto

lemma take_pieces:
  "off \<le> length xs \<Longrightarrow> take l (drop off (xs @ ys)) = take (min l (length xs - off)) (drop off xs) @ take (l - min l (length xs - off)) ys"
  by (simp add: min_def)

text \<open>
  A reader of segments: its state is determined by the values it got. Whatever the segments, it
  gets the values of the range in their order. Only the first segment may be empty.
\<close>

locale segment_reader =
  fixes readSegment :: "nat \<Rightarrow> nat \<Rightarrow> nat \<Rightarrow> nat \<Rightarrow> 's \<Rightarrow> 's res" and segments :: "'v list list" and St :: "'v list \<Rightarrow> 's" and limit :: nat
  assumes read_segment: "i < length segments \<Longrightarrow> 0 < n \<Longrightarrow> off + n \<le> length (segments ! i) \<Longrightarrow> length got + n \<le> limit \<Longrightarrow>
    readSegment i off n (length got) (St got) = Inr (St (got @ take n (drop off (segments ! i))))"
begin

lemma range_from:
  assumes "len \<le> limit" "length got \<le> len" "i < length segments \<Longrightarrow> off < length (segments ! i)" "\<forall>j. i < j \<and> j < length segments \<longrightarrow> segments ! j \<noteq> []"
  shows "\<exists>n. genericRangeSegmentsFromIt readSegment (map length segments) i off len (length got) (St got) =
    Inr (St (got @ take (len - length got) (drop off (concat (drop i segments)))), n)"
  using assms
proof (induction "length segments - i" arbitrary: i off got)
  case 0
  then show ?case by (simp add: genericRangeSegmentsFromIt.simps)
next
  case (Suc m)
  then have i: "i < length segments" by simp
  show ?case
  proof (cases "length got < len")
    case True
    define n where "n = min (len - length got) (length (segments ! i) - off)"
    define piece where "piece = take n (drop off (segments ! i))"
    have n: "0 < n" "off + n \<le> length (segments ! i)" "length got + n \<le> len" using True Suc.prems(3) [OF i] by (auto simp: n_def)
    then have piece: "length piece = n" by (simp add: piece_def)
    have "\<exists>k. genericRangeSegmentsFromIt readSegment (map length segments) (i + 1) 0 len (length (got @ piece)) (St (got @ piece)) =
      Inr (St ((got @ piece) @ take (len - length (got @ piece)) (drop 0 (concat (drop (i + 1) segments)))), k)"
      using Suc.hyps(2) Suc.prems n piece by (intro Suc.hyps(1)) auto
    moreover have "piece @ take (len - length got - n) (concat (drop (i + 1) segments)) = take (len - length got) (drop off (concat (drop i segments)))"
      using i n take_pieces [of off "segments ! i" "len - length got" "concat (drop (Suc i) segments)"] Cons_nth_drop_Suc [OF i]
      by (simp add: piece_def n_def [symmetric] flip: concat.simps(2))
    moreover have "genericRangeSegmentsFromIt readSegment (map length segments) i off len (length got) (St got) =
        genericRangeSegmentsFromIt readSegment (map length segments) (i + 1) 0 len (length got + n) (St (got @ piece))"
      using read_segment [OF i n(1,2), of got] n(3) Suc.prems(1) Suc.prems(3) [OF i] i True
      by (subst genericRangeSegmentsFromIt.simps) (simp add: Let_def n_def piece_def)
    ultimately show ?thesis by (simp add: piece)
  qed (use Suc.prems in \<open>simp add: genericRangeSegmentsFromIt.simps\<close>)
qed

lemma range_values:
  assumes "len \<le> limit" "[] \<notin> set (tl segments)"
  shows "rangeSegments readSegment segments off len (St []) = Inr (St (take len (drop off (concat segments))))"
proof -
  obtain i o' where f: "genericFindSegment (map length segments) 0 off = (i, o')" by force
  note spec = findSegment_spec [OF f]
  have "segments ! j \<noteq> []" if "i < j" "j < length segments" for j
    using that assms(2) by (cases segments; cases j) (auto dest: nth_mem)
  then obtain n where "genericRangeSegmentsFromIt readSegment (map length segments) i o' len (length ([]::'v list)) (St []) =
      Inr (St ([] @ take (len - length ([]::'v list)) (drop o' (concat (drop i segments)))), n)"
    using range_from [of len "[]" i o'] assms(1) spec by auto
  then show ?thesis using f spec by (simp add: rangeSegments_def genericRangeSegments_def)
qed

end

interpretation segment_scanner: segment_reader "\<lambda>segment offset n dst out. segment_scan (segments ! segment) offset n dst out" segments
  "\<lambda>got. got @ drop (length got) out" "length out" for segments and out :: "'v list"
  by unfold_locales (auto simp: segment_scan_def add.commute)

interpretation segment_finder: segment_reader "\<lambda>segment offset _ _ out. segment_lookup (segments ! segment) offset pos out" segments
  "\<lambda>got. if got = [] then out else out[pos := hd got]" "if pos < length out then 1 else 0" for segments pos and out :: "'v list"
proof
  fix i n off and got :: "'v list"
  assume "i < length segments" "0 < n" "off + n \<le> length (segments ! i)" "length got + n \<le> (if pos < length out then 1 else 0)"
  moreover from this have "got = []" by (cases got) (auto split: if_splits)
  ultimately show "segment_lookup (segments ! i) off pos (if got = [] then out else out[pos := hd got]) =
      Inr (if got @ take n (drop off (segments ! i)) = [] then out else out[pos := hd (got @ take n (drop off (segments ! i)))])"
    by (auto simp: segment_lookup_def hd_drop_conv_nth split: if_splits)
qed

interpretation segment_appender: segment_reader "\<lambda>segment offset n _ out. Inr (out @ take n (drop offset (segments ! segment)))" segments
  "\<lambda>got. out @ got" n for segments n and out :: "'v list"
  by unfold_locales simp

section \<open>What the operations return\<close>

text \<open>The value of a row for a transaction: its update, or else the value of the segment.\<close>

definition chunkValue :: "nat \<Rightarrow> transaction \<Rightarrow> 'v list list \<Rightarrow> 'v update_info \<Rightarrow> nat \<rightharpoonup> 'v" where
  "chunkValue vc t segments updates row =
     (case updatedValue vc t updates row of
        Some v \<Rightarrow> Some v
      | None \<Rightarrow> if row < length (concat segments) then Some (concat segments ! row) else None)"

lemma columnChunk_scan_value:
  assumes "updates_ok vc updates" "txn_ok t" "0 < vc" "n \<le> length out" "[] \<notin> set (tl segments)"
  shows "columnChunk_scan vc t segments updates off n out =
    Inr (overlaid out (\<lambda>j. if j < n then chunkValue vc t segments updates (off + j) else None))"
proof -
  define got where "got = take n (drop off (concat segments))"
  have "overlaid (got @ drop (length got) out) (\<lambda>j. if j < n then updatedValue vc t updates (off + j) else None)
      = overlaid out (\<lambda>j. if j < n then chunkValue vc t segments updates (off + j) else None)"
    using assms(4) by (intro nth_equalityI) (auto simp: got_def overlaid_def chunkValue_def nth_append split: option.splits)
  moreover have "rangeSegments (\<lambda>segment offset n dst out. segment_scan (segments ! segment) offset n dst out) segments off n out = Inr (got @ drop (length got) out)"
    using segment_scanner.range_values [OF assms(4,5)] by (simp add: got_def)
  ultimately show ?thesis
    using scan_value [OF assms(1-3), of n "got @ drop (length got) out" off] assms(4) by (simp add: columnChunk_scan_def got_def)
qed

lemma columnChunk_lookup_value:
  assumes "updates_ok vc updates" "txn_ok t" "pos < length out" "[] \<notin> set (tl segments)"
  shows "columnChunk_lookup vc t segments updates row pos out =
    Inr (case chunkValue vc t segments updates row of None \<Rightarrow> out | Some v \<Rightarrow> out[pos := v])"
proof -
  define got where "got = take 1 (drop row (concat segments))"
  have "rangeSegments (\<lambda>segment offset _ _ out. segment_lookup (segments ! segment) offset pos out) segments row 1 out = Inr (if got = [] then out else out[pos := hd got])"
    using segment_finder.range_values [of 1 pos out segments row] assms(3,4) by (simp add: got_def)
  then show ?thesis
    using lookup_value [OF assms(1,2), of pos "if got = [] then out else out[pos := hd got]" row] assms(3)
    by (auto simp: columnChunk_lookup_def chunkValue_def got_def hd_drop_conv_nth not_le split: option.splits)
qed

lemma columnChunk_scanCommitted_value:
  assumes "updates_ok vc updates" "txn_ok t" "0 < vc" "[] \<notin> set (tl segments)"
  shows "columnChunk_scanCommitted vc t segments updates startRow numRows out =
    Inr (out @ map (\<lambda>row. the (chunkValue vc t segments updates row))
      [startRow ..< (case numRows of None \<Rightarrow> length (concat segments) | Some n \<Rightarrow> min (startRow + n) (length (concat segments)))])"
proof -
  define N where "N = length (concat segments)"
  define n where "n = (case numRows of None \<Rightarrow> N - startRow | Some n \<Rightarrow> if startRow + n > N then N - startRow else n)"
  have sum: "sum_list (map length segments) = N" by (simp add: N_def length_concat)
  have stop: "(case numRows of None \<Rightarrow> N | Some n \<Rightarrow> min (startRow + n) N) = startRow + n \<or> N \<le> startRow \<and> n = 0"
    by (auto simp: n_def min_def split: option.splits)
  show ?thesis
  proof (cases "n = 0 \<or> N \<le> startRow")
    case True
    then show ?thesis using stop unfolding N_def [symmetric]
      by (auto simp: columnChunk_scanCommitted_def sum n_def [symmetric] Let_def split: option.splits)
  next
    case False
    define got where "got = take n (drop startRow (concat segments))"
    have n: "startRow + n \<le> N" using False by (auto simp: n_def split: option.splits if_splits)
    then have len: "length got = n" by (simp add: got_def N_def)
    have "scanInMemSegments segments startRow n out = Inr (out @ got)"
      using segment_appender.range_values [OF order_refl assms(4), of startRow n out] by (simp add: scanInMemSegments_def got_def)
    moreover have "overlaid (out @ got) (\<lambda>j. if length out \<le> j \<and> j < length out + n then updatedValue vc t updates (startRow + (j - length out)) else None)
        = out @ map (\<lambda>row. the (chunkValue vc t segments updates row)) [startRow ..< startRow + n]"
      using n len by (intro nth_equalityI) (auto simp: overlaid_def chunkValue_def nth_append got_def N_def split: option.splits)
    ultimately show ?thesis
      using scanCommitted_value [OF assms(1-3), of "length out" n "out @ got" startRow] len stop False
      unfolding N_def [symmetric] by (auto simp: columnChunk_scanCommitted_def sum n_def [symmetric] Let_def)
  qed
qed

end
