(* ===== verification/Snapshot.thy ===== *)
theory Snapshot
  imports Version_Chain Column_Chunk
begin

text \<open>
  Snapshot isolation of updates, across the transaction manager, the undo buffer, the column chunks and
  their update info: transactions that begin, update rows (\<^verbatim>\<open>ColumnChunk::update\<close>), read rows
  (\<^verbatim>\<open>ColumnChunk::lookup\<close>, \<^verbatim>\<open>ColumnChunk::scan\<close>), commit and roll back in any
  order get what a reference gives them.

  The reference is the same transaction manager over a store that keeps, for every running transaction
  and every commit, the set of its writes. The transactions of this theory change rows by updates
  only, and a run is between two checkpoints; the operations of the storage that do not touch the
  update info are the identity.
\<close>

section \<open>Transactions on rows\<close>

datatype 'v event =
    BeginEvent transaction_type
  | UpdateEvent transaction_t u64 nat 'v
  | LookupEvent transaction_t u64 nat nat "'v list"
  | ScanEvent transaction_t u64 nat nat "'v list"
  | CommitEvent transaction_t
  | RollbackEvent transaction_t

datatype 'v outcome = Began "transaction_t res" | Ended "unit res" | Rows "'v list res"

text \<open>A store of rows: what the transaction manager calls, and the operations on rows.\<close>

record ('s, 'v) row_store =
  storeOps :: "'s storage_ops"
  storeUpdate :: "transaction list \<Rightarrow> transaction \<Rightarrow> u64 \<Rightarrow> nat \<Rightarrow> 'v \<Rightarrow> 's \<Rightarrow> ('s \<times> unit res) option"
  storeLookup :: "transaction \<Rightarrow> u64 \<Rightarrow> nat \<Rightarrow> nat \<Rightarrow> 'v list \<Rightarrow> 's \<Rightarrow> 'v list res"
  storeScan :: "transaction \<Rightarrow> u64 \<Rightarrow> nat \<Rightarrow> nat \<Rightarrow> 'v list \<Rightarrow> 's \<Rightarrow> 'v list res"

definition update_ops ::
  "(transaction_t \<Rightarrow> transaction_t \<Rightarrow> 's \<Rightarrow> 's \<times> unit res) \<Rightarrow> (transaction_t \<Rightarrow> 's \<Rightarrow> 's \<times> unit res) \<Rightarrow> 's storage_ops" where
  "update_ops commit rollback =
     \<lparr>logBeginTransaction = \<lambda>_ s. s, localStorageCommit = \<lambda>_ s. (s, Inr ()), undoBufferCommit = commit,
      logCommit = \<lambda>_ s. (s, Inr ()), catalogIncrementVersion = \<lambda>s. s, undoBufferRollback = rollback,
      localStorageRollback = \<lambda>_ s. (s, Inr ()), walSize = \<lambda>_ _. 0, writeCheckpoint = \<lambda>s. (s, Inr ()), rollbackCheckpoint = \<lambda>s. s\<rparr>"

text \<open>A read-only transaction does not get to an update (\<open>validateManualTransaction\<close>).\<close>

fun event_step :: "db_config \<Rightarrow> ('s, 'v) row_store \<Rightarrow> 'v event \<Rightarrow> 's transaction_manager \<Rightarrow> ('s transaction_manager \<times> 'v outcome) option" where
  "event_step cfg rs (BeginEvent ty) tm = (let (tm, r) = beginTransaction cfg (storeOps rs) ty tm in Some (tm, Began r))"
| "event_step cfg rs (UpdateEvent tid chunk row v) tm =
     (case findTransaction tid tm of
        None \<Rightarrow> Some (tm, Ended (Inl NullDeref))
      | Some t \<Rightarrow> if isReadOnly t
          then Some (tm, Ended (Inl (TransactionManagerException ''Can not execute a write query inside a read-only transaction.'')))
          else map_option (\<lambda>(s, r). (tm\<lparr>store := s\<rparr>, Ended r)) (storeUpdate rs (activeTransactions tm) t chunk row v (store tm)))"
| "event_step cfg rs (LookupEvent tid chunk row pos out) tm =
     Some (tm, Rows (bindR (derefR (findTransaction tid tm)) (\<lambda>t. storeLookup rs t chunk row pos out (store tm))))"
| "event_step cfg rs (ScanEvent tid chunk row n out) tm =
     Some (tm, Rows (bindR (derefR (findTransaction tid tm)) (\<lambda>t. storeScan rs t chunk row n out (store tm))))"
| "event_step cfg rs (CommitEvent tid) tm = (let (tm, r) = tm_commit cfg (storeOps rs) tid tm in Some (tm, Ended r))"
| "event_step cfg rs (RollbackEvent tid) tm = (let (tm, r) = tm_rollback (storeOps rs) tid tm in Some (tm, Ended r))"

fun run_events :: "db_config \<Rightarrow> ('s, 'v) row_store \<Rightarrow> 'v event list \<Rightarrow> 's transaction_manager \<Rightarrow> ('s transaction_manager \<times> 'v outcome list) option" where
  "run_events cfg rs [] tm = Some (tm, [])"
| "run_events cfg rs (e # es) tm =
     (case event_step cfg rs e tm of
        None \<Rightarrow> None
      | Some (tm, r) \<Rightarrow> map_option (map_prod id (Cons r)) (run_events cfg rs es tm))"

subsection \<open>The engine\<close>

text \<open>
  The chunks by the address of their update info, the undo buffers of the running transactions (a
  transaction that ends takes its buffer with it) and the next address of a version.
\<close>

record ('t, 'x, 'o, 'v, 'h) engine_store =
  chunkSegments :: "u64 \<Rightarrow> 'v list list"
  undoTargets :: "('t, 'x, 'o, 'v, 'h) undo_targets"
  undoBuffers :: "transaction_t \<Rightarrow> undo_memory_buffer list"
  nextVersionAddr :: nat

definition engine_commit :: "'h version_handlers \<Rightarrow> transaction_t \<Rightarrow> transaction_t \<Rightarrow> ('t, 'x, 'o, 'v, 'h) engine_store \<Rightarrow> ('t, 'x, 'o, 'v, 'h) engine_store \<times> unit res" where
  "engine_commit hs tid cts s =
     (case undo_commit hs cts (undoBuffers s tid) (undoTargets s) of
        Inl e \<Rightarrow> (s, Inl e)
      | Inr targets \<Rightarrow> (s\<lparr>undoTargets := targets, undoBuffers := (undoBuffers s)(tid := [])\<rparr>, Inr ()))"

definition engine_rollback :: "'h version_handlers \<Rightarrow> transaction_t \<Rightarrow> ('t, 'x, 'o, 'v, 'h) engine_store \<Rightarrow> ('t, 'x, 'o, 'v, 'h) engine_store \<times> unit res" where
  "engine_rollback hs tid s =
     (case undo_rollback hs INVALID_TRANSACTION (undoBuffers s tid) (undoTargets s) of
        Inl e \<Rightarrow> (s, Inl e)
      | Inr targets \<Rightarrow> (s\<lparr>undoTargets := targets, undoBuffers := (undoBuffers s)(tid := [])\<rparr>, Inr ()))"

definition engine_update ::
  "u8 \<Rightarrow> (nat \<Rightarrow> u8 list) \<Rightarrow> nat \<Rightarrow> transaction list \<Rightarrow> transaction \<Rightarrow> u64 \<Rightarrow> nat \<Rightarrow> 'v \<Rightarrow> ('t, 'x, 'o, 'v, 'h) engine_store
    \<Rightarrow> (('t, 'x, 'o, 'v, 'h) engine_store \<times> unit res) option" where
  "engine_update pad fresh vc active t chunk row v s =
     map_option (\<lambda>((segments, updates, undos), r).
         (s\<lparr>chunkSegments := (chunkSegments s)(chunk := segments),
            undoTargets := (undoTargets s)\<lparr>targetUpdates := (targetUpdates (undoTargets s))(chunk := updates)\<rparr>,
            undoBuffers := (undoBuffers s)(txnID t := undos), nextVersionAddr := nextVersionAddr s + 1\<rparr>, r))
       (columnChunk_update pad fresh vc t (nextVersionAddr s) chunk row v
         (chunkSegments s chunk, targetUpdates (undoTargets s) chunk, undoBuffers s (txnID t)))"

definition engine :: "'h version_handlers \<Rightarrow> u8 \<Rightarrow> (nat \<Rightarrow> u8 list) \<Rightarrow> nat \<Rightarrow> (('t, 'x, 'o, 'v, 'h) engine_store, 'v) row_store" where
  "engine hs pad fresh vc =
     \<lparr>storeOps = update_ops (engine_commit hs) (engine_rollback hs),
      storeUpdate = engine_update pad fresh vc,
      storeLookup = \<lambda>t chunk row pos out s. columnChunk_lookup vc t (chunkSegments s chunk) (targetUpdates (undoTargets s) chunk) row pos out,
      storeScan = \<lambda>t chunk row n out s. columnChunk_scan vc t (chunkSegments s chunk) (targetUpdates (undoTargets s) chunk) row n out\<rparr>"

subsection \<open>The reference\<close>

record 'v snapshot_store =
  baseValues :: "u64 \<Rightarrow> 'v list"
  commits :: "transaction_t list"
  writesOf :: "transaction_t \<Rightarrow> u64 \<times> nat \<rightharpoonup> 'v"

text \<open>The own write, or else the write of the newest commit of the snapshot, or else the base value.\<close>

definition snapshotValue :: "transaction \<Rightarrow> 'v snapshot_store \<Rightarrow> u64 \<Rightarrow> nat \<rightharpoonup> 'v" where
  "snapshotValue t s chunk row =
     (case snapshotRead t (commits s) (\<lambda>w. writesOf s w (chunk, row)) of
        Some v \<Rightarrow> Some v
      | None \<Rightarrow> if row < length (baseValues s chunk) then Some (baseValues s chunk ! row) else None)"

text \<open>
  An update conflicts with the write of another running transaction and with that of a commit after
  the start of the transaction.
\<close>

definition snapshot_update :: "transaction list \<Rightarrow> transaction \<Rightarrow> u64 \<Rightarrow> nat \<Rightarrow> 'v \<Rightarrow> 'v snapshot_store \<Rightarrow> ('v snapshot_store \<times> unit res) option" where
  "snapshot_update active t chunk row v s =
     Some (if list_ex (\<lambda>w. w \<noteq> txnID t \<and> startTS t < w \<and> writesOf s w (chunk, row) \<noteq> None) (map txnID active @ commits s)
       then (s, Inl updateConflict)
       else (s\<lparr>writesOf := (writesOf s)(txnID t := (writesOf s (txnID t))((chunk, row) \<mapsto> v))\<rparr>, Inr ()))"

definition snapshots :: "('v snapshot_store, 'v) row_store" where
  "snapshots =
     \<lparr>storeOps = update_ops
        (\<lambda>tid cts s. (s\<lparr>commits := cts # commits s, writesOf := (writesOf s)(cts := writesOf s tid, tid := Map.empty)\<rparr>, Inr ()))
        (\<lambda>tid s. (s\<lparr>writesOf := (writesOf s)(tid := Map.empty)\<rparr>, Inr ())),
      storeUpdate = snapshot_update,
      storeLookup = \<lambda>t chunk row pos out s. Inr (case snapshotValue t s chunk row of None \<Rightarrow> out | Some v \<Rightarrow> out[pos := v]),
      storeScan = \<lambda>t chunk row n out s. Inr (overlaid out (\<lambda>j. if j < n then snapshotValue t s chunk (row + j) else None))\<rparr>"

section \<open>The records of a transaction\<close>

lemma commitUpdates_chains:
  assumes "\<forall>(k, a, _) \<in> set us. a \<in> infoAddr ` set (chainAt updates k)"
  shows "\<exists>updates'. foldR (\<lambda>(k, info, _). updateInfo_commit k info cts) us updates = Inr updates'
    \<and> (\<forall>k. chainAt updates' k = map (\<lambda>info. if \<exists>w. (k, infoAddr info, w) \<in> set us then info\<lparr>version := cts\<rparr> else info) (chainAt updates k))"
  using assms
proof (induction us arbitrary: updates)
  case (Cons x us)
  obtain k a w where x: "x = (k, a, w)" by (cases x)
  have "a \<in> infoAddr ` set (chainAt updates k)" using Cons.prems x by auto
  then obtain u where u: "updateInfo_commit k a cts updates = Inr u"
      "chainAt u = (chainAt updates)(k := map (\<lambda>info. if infoAddr info = a then info\<lparr>version := cts\<rparr> else info) (chainAt updates k))"
    using commit_chainAt by blast
  then have "map infoAddr (chainAt u k') = map infoAddr (chainAt updates k')" for k' by simp
  then have same: "infoAddr ` set (chainAt u k') = infoAddr ` set (chainAt updates k')" for k' by (metis list.set_map)
  obtain u' where u': "foldR (\<lambda>(k, info, _). updateInfo_commit k info cts) us u = Inr u'"
    "\<forall>k. chainAt u' k = map (\<lambda>info. if \<exists>w. (k, infoAddr info, w) \<in> set us then info\<lparr>version := cts\<rparr> else info) (chainAt u k)"
    using Cons.IH [of u] Cons.prems same by auto
  have "chainAt u' k' = map (\<lambda>info. if \<exists>w. (k', infoAddr info, w) \<in> set (x # us) then info\<lparr>version := cts\<rparr> else info) (chainAt updates k')" for k'
    using u'(2) u(2) x by (auto simp: comp_def)
  then show ?case using u(1) u'(1) x by auto
qed auto

definition rowChain :: "('t, 'x, 'o, 'v, 'h) engine_store \<Rightarrow> u64 \<Rightarrow> nat \<Rightarrow> 'v vector_update_info list" where
  "rowChain s chunk = chainAt (targetUpdates (undoTargets s) chunk)"

text \<open>The records of a transaction are updates, and name its versions.\<close>

definition undo_ok :: "transaction_t \<Rightarrow> undo_record list \<Rightarrow> (u64 \<Rightarrow> nat \<Rightarrow> 'v vector_update_info list) \<Rightarrow> bool" where
  "undo_ok tid rs rc \<longleftrightarrow>
     (\<forall>r \<in> set rs. \<exists>a k info. r = VectorUpdateUndo a k info tid \<and> a \<noteq> 0 \<and> info \<noteq> 0)
   \<and> (\<forall>a k. {addr. (k, addr, tid) \<in> set (updateUndos a rs)} = infoAddr ` set (ownVersions tid (rc a k)))"

lemma update_records_only:
  assumes "\<forall>r \<in> set rs. \<exists>a k info. r = VectorUpdateUndo a k info tid \<and> a \<noteq> 0 \<and> info \<noteq> 0"
  shows "list_all validPointers rs \<and> catalogUndos a rs = [] \<and> sequenceUndos a rs = [] \<and> tableUndos rs = [] \<and> (\<forall>(k, addr, w) \<in> set (updateUndos a rs). w = tid)"
  using assms by (induction rs) auto

lemma undo_ok_records:
  assumes "undo_ok tid rs rc"
  shows "(k, addr, w) \<in> set (updateUndos a rs) \<longleftrightarrow> w = tid \<and> addr \<in> infoAddr ` set (ownVersions tid (rc a k))"
proof -
  have "{addr. (k, addr, tid) \<in> set (updateUndos a rs)} = infoAddr ` set (ownVersions tid (rc a k))"
    using assms by (simp add: undo_ok_def)
  moreover have "w = tid" if "(k, addr, w) \<in> set (updateUndos a rs)" using that assms update_records_only [of rs tid a] by (auto simp: undo_ok_def)
  ultimately show ?thesis by blast
qed

lemma targets_updated:
  "(targets :: ('t, 'x, 'o, 'v, 'h) undo_targets)\<lparr>targetUpdates := ups\<rparr> =
    \<lparr>targetSets = targetSets targets, targetSequences = targetSequences targets, targetUpdates = ups, targetTables = targetTables targets\<rparr>"
  by (cases targets) simp

lemma engine_commit_chains:
  assumes holds: "undo_holds pad (undoBuffers s tid) rs" and ok: "undo_ok tid rs (rowChain s)"
    and dist: "\<And>a k. distinct (map infoAddr (rowChain s a k))"
  shows "\<exists>ups. engine_commit hs tid cts s = (s\<lparr>undoTargets := (undoTargets s)\<lparr>targetUpdates := ups\<rparr>, undoBuffers := (undoBuffers s)(tid := [])\<rparr>, Inr ())
    \<and> (\<forall>a k. chainAt (ups a) k = map (commitVersion tid cts) (rowChain s a k))"
proof -
  let ?up = "targetUpdates (undoTargets s)"
  note only = update_records_only [of rs tid, OF ok [unfolded undo_ok_def, THEN conjunct1]]
  have "\<exists>u. foldR (\<lambda>(k, info, _). updateInfo_commit k info cts) (updateUndos a rs) (?up a) = Inr u \<and> (\<forall>k. chainAt u k = map (commitVersion tid cts) (rowChain s a k))" for a
  proof -
    have "\<forall>(k, addr, _) \<in> set (updateUndos a rs). addr \<in> infoAddr ` set (rowChain s a k)"
      by (auto simp: undo_ok_records [OF ok] ownVersions_def)
    then have "\<forall>(k, addr, _) \<in> set (updateUndos a rs). addr \<in> infoAddr ` set (chainAt (?up a) k)" by (simp only: rowChain_def)
    then obtain u where u: "foldR (\<lambda>(k, info, _). updateInfo_commit k info cts) (updateUndos a rs) (?up a) = Inr u"
        "\<forall>k. chainAt u k = map (\<lambda>info. if \<exists>w. (k, infoAddr info, w) \<in> set (updateUndos a rs) then info\<lparr>version := cts\<rparr> else info) (rowChain s a k)"
      using commitUpdates_chains [where us = "updateUndos a rs" and updates = "?up a" and cts = cts] unfolding rowChain_def by blast
    have "chainAt u k = map (commitVersion tid cts) (rowChain s a k)" for k
    proof -
      have "(\<exists>w. (k, infoAddr info, w) \<in> set (updateUndos a rs)) \<longleftrightarrow> version info = tid" if "info \<in> set (rowChain s a k)" for info
        using that dist [of a k] by (auto simp: undo_ok_records [OF ok] ownVersions_def distinct_map inj_on_def)
      then show ?thesis using u(2) by (simp add: commitVersion_def)
    qed
    then show ?thesis using u(1) by blast
  qed
  then obtain ups where ups: "\<And>a. foldR (\<lambda>(k, info, _). updateInfo_commit k info cts) (updateUndos a rs) (?up a) = Inr (ups a)"
      "\<And>a k. chainAt (ups a) k = map (commitVersion tid cts) (rowChain s a k)"
    by metis
  have "undo_commit hs cts (undoBuffers s tid) (undoTargets s) = Inr ((undoTargets s)\<lparr>targetUpdates := ups\<rparr>)"
    unfolding undo_commit_records [OF holds] targets_updated by (rule commit_visitor.componentwise) (use only ups(1) in simp_all)
  then show ?thesis using ups(2) by (auto simp: engine_commit_def)
qed

lemma engine_rollback_chains:
  assumes holds: "undo_holds pad (undoBuffers s tid) rs" and ok: "undo_ok tid rs (rowChain s)"
    and own: "\<And>a k. length (ownVersions tid (rowChain s a k)) \<le> 1"
  shows "\<exists>ups. engine_rollback hs tid s = (s\<lparr>undoTargets := (undoTargets s)\<lparr>targetUpdates := ups\<rparr>, undoBuffers := (undoBuffers s)(tid := [])\<rparr>, Inr ())
    \<and> (\<forall>a k. chainAt (ups a) k = otherVersions tid (rowChain s a k))"
proof -
  let ?up = "targetUpdates (undoTargets s)"
  note only = update_records_only [of rs tid, OF ok [unfolded undo_ok_def, THEN conjunct1]]
  have "\<exists>u. foldR (\<lambda>(k, _, w). updateInfo_rollback k w) (rev (updateUndos a rs)) (?up a) = Inr u \<and> (\<forall>k. chainAt u k = otherVersions tid (rowChain s a k))" for a
  proof -
    have "\<forall>(k, _, w) \<in> set (rev (updateUndos a rs)). w = tid \<and> k < length (?up a)"
      by (auto simp: undo_ok_records [OF ok] rowChain_def ownVersions_def chainAt_def split: if_splits)
    then obtain u where u: "foldR (\<lambda>(k, _, w). updateInfo_rollback k w) (rev (updateUndos a rs)) (?up a) = Inr u"
        "\<forall>k. chainAt u k = (if k \<in> fst ` set (rev (updateUndos a rs)) then otherVersions tid (rowChain s a k) else rowChain s a k)"
      using rollback_records [of "rev (updateUndos a rs)" tid "?up a"] own unfolding rowChain_def by blast
    have "chainAt u k = otherVersions tid (rowChain s a k)" for k
    proof (cases "k \<in> fst ` set (rev (updateUndos a rs))")
      case False
      then have "infoAddr info \<notin> infoAddr ` set (ownVersions tid (rowChain s a k))" for info :: "'d vector_update_info"
        using undo_ok_records [OF ok, of k "infoAddr info" tid a] by (force simp: image_iff)
      then have "ownVersions tid (rowChain s a k) = []" by (cases "ownVersions tid (rowChain s a k)") auto
      then show ?thesis using u(2) False by (simp add: otherVersions_id)
    qed (use u(2) in simp)
    then show ?thesis using u(1) by blast
  qed
  then obtain ups where ups: "\<And>a. foldR (\<lambda>(k, _, w). updateInfo_rollback k w) (rev (updateUndos a rs)) (?up a) = Inr (ups a)"
      "\<And>a k. chainAt (ups a) k = otherVersions tid (rowChain s a k)"
    by metis
  have "undo_rollback hs INVALID_TRANSACTION (undoBuffers s tid) (undoTargets s) = Inr ((undoTargets s)\<lparr>targetUpdates := ups\<rparr>)"
    unfolding undo_rollback_records [OF holds] targets_updated by (rule rollback_visitor.componentwise) (use only ups(1) in \<open>simp_all add: undos_rev\<close>)
  then show ?thesis using ups(2) by (auto simp: engine_rollback_def)
qed

lemma engine_update_refused:
  assumes "txnType t \<noteq> DUMMY" "START_TRANSACTION_ID \<le> txnID t" "\<exists>info \<in> set (rowChain s chunk (row div vc)). conflicting t (row mod vc) info"
  shows "\<exists>s'. engine_update pad fresh vc active t chunk row v s = Some (s', Inl updateConflict)
    \<and> chunkSegments s' = chunkSegments s \<and> rowChain s' = rowChain s \<and> undoBuffers s' = undoBuffers s \<and> nextVersionAddr s' = nextVersionAddr s + 1"
proof -
  obtain updates r where u: "updateInfo_update vc t (nextVersionAddr s) (row div vc) (row mod vc) v (targetUpdates (undoTargets s) chunk) = (updates, r)" by force
  have "r = Inl updateConflict" "chainAt updates = rowChain s chunk"
    using update_chainAt [OF u] updateInChain_conflict [OF assms(2,3), of vc "nextVersionAddr s" v] by (simp_all add: rowChain_def)
  then show ?thesis using assms(1) u by (auto simp: engine_update_def columnChunk_update_def rowChain_def fun_eq_iff)
qed

lemma engine_update_accepted:
  fixes s :: "('t, 'x, 'o, 'v, 'h) engine_store"
  assumes t: "txnType t \<noteq> DUMMY" "START_TRANSACTION_ID \<le> txnID t" and vc: "0 < vc" and fresh: "length (fresh 4096) = 4096"
    and ok: "versions_ok vc start lastTS (rowChain s chunk (row div vc))" and free: "\<not> (\<exists>info \<in> set (rowChain s chunk (row div vc)). conflicting t (row mod vc) info)"
    and holds: "undo_holds pad (undoBuffers s (txnID t)) rs"
  shows "\<exists>s' chain' a undos. engine_update pad fresh vc active t chunk row v s = Some (s', Inr ())
    \<and> updatedChain t vc (nextVersionAddr s) (row mod vc) v (rowChain s chunk (row div vc)) chain' a
    \<and> chunkSegments s' = chunkSegments s \<and> rowChain s' = (rowChain s)(chunk := (rowChain s chunk)(row div vc := chain'))
    \<and> undoBuffers s' = (undoBuffers s)(txnID t := undos) \<and> undo_holds pad undos (rs @ [VectorUpdateUndo chunk (of_nat (row div vc)) (of_nat a) (txnID t)])
    \<and> nextVersionAddr s' = nextVersionAddr s + 1"
proof -
  obtain chain' a where c: "updateInChain vc t (nextVersionAddr s) (row mod vc) v (rowChain s chunk (row div vc)) = Inr (chain', a)"
      "updatedChain t vc (nextVersionAddr s) (row mod vc) v (rowChain s chunk (row div vc)) chain' a"
    using updateInChain_ok [OF versions_ok_parts(4) [OF ok] t(2) versions_ok_parts(1) [OF ok] _ free] vc by force
  obtain updates r where u: "updateInfo_update vc t (nextVersionAddr s) (row div vc) (row mod vc) v (targetUpdates (undoTargets s) chunk) = (updates, r)" by force
  have r: "r = Inr a" "chainAt updates = (rowChain s chunk)(row div vc := chain')" using update_chainAt [OF u] c(1) by (simp_all add: rowChain_def)
  obtain undos where undos: "addUndoRecord pad fresh (VectorUpdateUndo chunk (of_nat (row div vc)) (of_nat a) (txnID t)) (undoBuffers s (txnID t)) = Some (Inr undos)"
      "undo_holds pad undos (rs @ [VectorUpdateUndo chunk (of_nat (row div vc)) (of_nat a) (txnID t)])"
    using addUndoRecord_holds [where fresh = fresh, OF holds fresh] by blast
  have upd: "engine_update pad fresh vc active t chunk row v s = Some (s\<lparr>chunkSegments := (chunkSegments s)(chunk := chunkSegments s chunk),
            undoTargets := (undoTargets s)\<lparr>targetUpdates := (targetUpdates (undoTargets s))(chunk := updates)\<rparr>,
            undoBuffers := (undoBuffers s)(txnID t := undos), nextVersionAddr := nextVersionAddr s + 1\<rparr>, Inr ())"
    using t(1) u r(1) undos(1) by (simp add: engine_update_def columnChunk_update_def createVectorUpdateInfo_def)
  show ?thesis unfolding upd using c(2) r(2) undos(2) by (intro exI conjI) (auto simp: rowChain_def fun_eq_iff)
qed

section \<open>The engine and the reference\<close>

text \<open>
  The relation between the two stores, with \<open>start\<close> the start timestamps of the running transactions
  and \<open>ro\<close> those that are read-only: the chains are in order, hold the writes of the reference, and the
  undo buffers name the versions of their transactions.
\<close>

definition store_related ::
  "nat \<Rightarrow> u8 \<Rightarrow> nat \<Rightarrow> transaction_t set \<Rightarrow> (transaction_t \<rightharpoonup> transaction_t) \<Rightarrow> transaction_t \<Rightarrow> ('t, 'x, 'o, 'v, 'h) engine_store \<Rightarrow> 'v snapshot_store \<Rightarrow> bool" where
  "store_related vc pad n ro start lastTS s r \<longleftrightarrow>
     start_ok start lastTS
   \<and> (\<forall>a. baseValues r a = concat (chunkSegments s a) \<and> [] \<notin> set (tl (chunkSegments s a)))
   \<and> (\<forall>a k. versions_ok vc start lastTS (rowChain s a k))
   \<and> (\<forall>a k. \<forall>info \<in> set (rowChain s a k). 0 < infoAddr info \<and> infoAddr info < nextVersionAddr s \<and> (version info < START_TRANSACTION_ID \<longrightarrow> version info \<in> set (commits r)))
   \<and> (\<forall>w a row. writesOf r w (a, row) = versionMap (rowChain s a (row div vc)) w (row mod vc))
   \<and> sorted_wrt (>) (commits r) \<and> (\<forall>ts \<in> set (commits r). ts \<le> lastTS)
   \<and> 0 < nextVersionAddr s \<and> nextVersionAddr s \<le> n + 1
   \<and> (\<forall>w \<in> ro. START_TRANSACTION_ID \<le> w \<and> (\<forall>a k. ownVersions w (rowChain s a k) = []))
   \<and> (\<forall>tid \<ge> START_TRANSACTION_ID. \<exists>rs. undo_holds pad (undoBuffers s tid) rs \<and> undo_ok tid rs (rowChain s))"

lemma related_facts:
  assumes "store_related vc pad n ro start lastTS s r"
  shows "start_ok start lastTS" "versions_ok vc start lastTS (rowChain s a k)"
    "info \<in> set (rowChain s a k) \<Longrightarrow> 0 < infoAddr info \<and> infoAddr info < nextVersionAddr s \<and> (version info < START_TRANSACTION_ID \<longrightarrow> version info \<in> set (commits r))"
    "writesOf r w (a, row) = versionMap (rowChain s a (row div vc)) w (row mod vc)"
    "sorted_wrt (>) (commits r) \<and> (\<forall>ts \<in> set (commits r). ts \<le> lastTS)" "START_TRANSACTION_ID \<le> tid \<Longrightarrow> \<exists>rs. undo_holds pad (undoBuffers s tid) rs \<and> undo_ok tid rs (rowChain s)"
    "w \<in> ro \<Longrightarrow> START_TRANSACTION_ID \<le> w" "w \<in> ro \<Longrightarrow> ownVersions w (rowChain s a k) = []"
  using assms unfolding store_related_def by blast+

lemma related_begin:
  assumes rel: "store_related vc pad n ro start lastTS s r" and tid: "tid \<notin> dom start" "START_TRANSACTION_ID \<le> tid" and ro': "ro' \<subseteq> insert tid ro"
  shows "store_related vc pad (Suc n) ro' (start(tid \<mapsto> lastTS)) lastTS s r"
proof -
  note old = related_facts [OF rel]
  have "versions_ok vc (start(tid \<mapsto> lastTS)) lastTS (rowChain s a k)" for a k by (rule chain_begin [OF old(2,1) tid])
  moreover have "ownVersions tid (rowChain s a k) = []" for a k
  proof -
    have "version info \<noteq> tid" if "info \<in> set (rowChain s a k)" for info using version_cases [OF old(2,1) that] tid by (metis leD)
    then show ?thesis by (auto simp: ownVersions_def filter_empty_conv)
  qed
  moreover have "start_ok (start(tid \<mapsto> lastTS)) lastTS" using old(1) tid(2) by (auto simp: start_ok_def)
  moreover have "START_TRANSACTION_ID \<le> w \<and> (\<forall>a k. ownVersions w (rowChain s a k) = [])" if "w \<in> ro'" for w
    using that ro' tid(2) calculation(2) old(7,8) by blast
  ultimately show ?thesis using rel unfolding store_related_def by auto
qed

lemma related_leave:
  assumes rel: "store_related vc pad n ro start lastTS s r" and tid: "tid \<in> ro" and ro': "ro' \<subseteq> ro"
  shows "store_related vc pad (Suc n) ro' (start(tid := None)) lastTS s r"
proof -
  note old = related_facts [OF rel]
  have "versions_ok vc (start(tid := None)) lastTS (rowChain s a k)" for a k
    using chain_rollback(1) [OF old(2), of tid a k] old(8) [OF tid] by (simp add: otherVersions_id)
  moreover have "start_ok (start(tid := None)) lastTS" using old(1) by (auto simp: start_ok_def)
  moreover have "\<forall>w \<in> ro'. START_TRANSACTION_ID \<le> w \<and> (\<forall>a k. ownVersions w (rowChain s a k) = [])" using ro' old(7,8) by blast
  ultimately show ?thesis using rel unfolding store_related_def by auto
qed

lemma related_value:
  assumes rel: "store_related vc pad n ro start lastTS s r" and t: "start (txnID t) = Some (startTS t)"
  shows "chunkValue vc t (chunkSegments s chunk) (targetUpdates (undoTargets s) chunk) row = snapshotValue t r chunk row"
proof -
  have ok: "versions_ok vc start lastTS (rowChain s chunk (row div vc))" "start_ok start lastTS" using rel unfolding store_related_def by blast+
  have "sorted_wrt (>) (commits r)" "\<forall>ts \<in> set (commits r). ts < START_TRANSACTION_ID"
      "\<forall>info \<in> set (rowChain s chunk (row div vc)). version info < START_TRANSACTION_ID \<longrightarrow> version info \<in> set (commits r)"
    using rel unfolding store_related_def start_ok_def by (blast intro: order.strict_trans1)+
  note read = chain_read [OF ok t this, of "row mod vc"]
  have "baseValues r chunk = concat (chunkSegments s chunk)" "\<And>w. writesOf r w (chunk, row) = versionMap (rowChain s chunk (row div vc)) w (row mod vc)"
    using rel unfolding store_related_def by blast+
  then show ?thesis using read by (simp add: chunkValue_def snapshotValue_def updatedValue_chainAt rowChain_def split: option.split)
qed

lemma related_conflict:
  assumes rel: "store_related vc pad n ro start lastTS s r" and active: "dom start = txnID ` set active"
  shows "(\<exists>info \<in> set (rowChain s chunk (row div vc)). conflicting t (row mod vc) info) \<longleftrightarrow>
    list_ex (\<lambda>w. w \<noteq> txnID t \<and> startTS t < w \<and> writesOf r w (chunk, row) \<noteq> None) (map txnID active @ commits r)"
proof -
  let ?chain = "rowChain s chunk (row div vc)"
  have ok: "versions_ok vc start lastTS ?chain" "start_ok start lastTS" "\<And>w. writesOf r w (chunk, row) = versionMap ?chain w (row mod vc)"
      "\<forall>info \<in> set ?chain. version info < START_TRANSACTION_ID \<longrightarrow> version info \<in> set (commits r)"
    using rel unfolding store_related_def by blast+
  have "w \<in> set (map txnID active @ commits r)" if wrote: "versionMap ?chain w (row mod vc) \<noteq> None" for w
  proof -
    obtain info where info: "info \<in> set ?chain" "version info = w" using chain_rows [OF ok(1), of w "row mod vc"] wrote by blast
    show ?thesis using version_cases [OF ok(1,2) info(1)] ok(4) info active by (metis Un_iff set_append set_map)
  qed
  then show ?thesis unfolding chain_conflict [OF ok(1)] list_ex_iff ok(3) by blast
qed

lemma div_mod_eq: "0 < vc \<Longrightarrow> row' div vc = row div vc \<Longrightarrow> row' mod vc = row mod vc \<Longrightarrow> row' = row" for vc row row' :: nat
  by (metis div_mult_mod_eq)

lemma related_refused:
  assumes "store_related vc pad n ro start lastTS s r" "chunkSegments s' = chunkSegments s" "rowChain s' = rowChain s" "undoBuffers s' = undoBuffers s"
    "nextVersionAddr s' = nextVersionAddr s + 1"
  shows "store_related vc pad (Suc n) ro start lastTS s' r"
  using assms unfolding store_related_def undo_ok_def by (auto simp: less_Suc_eq)

lemma related_update:
  fixes s :: "('t, 'x, 'o, 'v, 'h) engine_store"
  assumes rel: "store_related vc pad n ro start lastTS s r" and t: "start (txnID t) = Some (startTS t)" "txnType t \<noteq> DUMMY"
    and vc: "0 < vc" "row div vc < 2 ^ 32" and fresh: "length (fresh 4096) = 4096" and n: "n < 2 ^ 62" and chunk: "chunk \<noteq> 0" and rw: "txnID t \<notin> ro"
    and free: "\<not> (\<exists>info \<in> set (rowChain s chunk (row div vc)). conflicting t (row mod vc) info)"
  shows "\<exists>s'. engine_update pad fresh vc active t chunk row v s = Some (s', Inr ())
    \<and> store_related vc pad (Suc n) ro start lastTS s' (r\<lparr>writesOf := (writesOf r)(txnID t := (writesOf r (txnID t))((chunk, row) \<mapsto> v))\<rparr>)"
proof -
  let ?k = "row div vc" and ?tid = "txnID t"
  have old: "start_ok start lastTS" "\<And>a k. versions_ok vc start lastTS (rowChain s a k)"
      "\<And>a k info. info \<in> set (rowChain s a k) \<Longrightarrow> 0 < infoAddr info \<and> infoAddr info < nextVersionAddr s \<and> (version info < START_TRANSACTION_ID \<longrightarrow> version info \<in> set (commits r))"
      "\<And>w a row. writesOf r w (a, row) = versionMap (rowChain s a (row div vc)) w (row mod vc)"
      "0 < nextVersionAddr s" "nextVersionAddr s \<le> n + 1" "\<And>tid. START_TRANSACTION_ID \<le> tid \<Longrightarrow> \<exists>rs. undo_holds pad (undoBuffers s tid) rs \<and> undo_ok tid rs (rowChain s)"
    using rel unfolding store_related_def by blast+
  have tid: "START_TRANSACTION_ID \<le> ?tid" using old(1) t(1) unfolding start_ok_def by blast
  obtain rs where rs: "undo_holds pad (undoBuffers s ?tid) rs" "undo_ok ?tid rs (rowChain s)" using old(7) tid by blast
  obtain s' chain' a undos where s': "engine_update pad fresh vc active t chunk row v s = Some (s', Inr ())"
      "updatedChain t vc (nextVersionAddr s) (row mod vc) v (rowChain s chunk ?k) chain' a"
      "chunkSegments s' = chunkSegments s" "rowChain s' = (rowChain s)(chunk := (rowChain s chunk)(?k := chain'))"
      "undoBuffers s' = (undoBuffers s)(?tid := undos)" "undo_holds pad undos (rs @ [VectorUpdateUndo chunk (of_nat ?k) (of_nat a) ?tid])"
      "nextVersionAddr s' = nextVersionAddr s + 1"
    using engine_update_accepted [where fresh = fresh and chunk = chunk, OF t(2) tid vc(1) fresh old(2) free rs(1)] by metis
  have "nextVersionAddr s \<notin> infoAddr ` set (rowChain s chunk ?k)" using old(3) by (metis imageE nat_neq_iff)
  note c = chain_update [OF old(2,1) t(1) free this s'(2)]
  have a: "0 < a" "a < 2 ^ 64"
  proof -
    have "a \<in> infoAddr ` set chain'" using c(3) by (auto simp: ownVersions_def)
    then have "a \<in> insert (nextVersionAddr s) (infoAddr ` set (rowChain s chunk ?k))" using c(5) by blast
    then have "0 < a \<and> a \<le> nextVersionAddr s" using old(3,5) by (elim insertE imageE) (auto simp: less_imp_le)
    then show "0 < a" "a < 2 ^ 64" using old(6) n by auto
  qed
  have unats: "unat (of_nat a :: u64) = a" "unat (of_nat ?k :: u32) = ?k" using a vc(2) by (simp_all add: unat_of_nat take_bit_nat_eq_self)
  have new: "undo_ok ?tid (rs @ [VectorUpdateUndo chunk (of_nat ?k) (of_nat a) ?tid]) (rowChain s')"
  proof -
    have "{addr. (k, addr, ?tid) \<in> set (updateUndos b (rs @ [VectorUpdateUndo chunk (of_nat ?k) (of_nat a) ?tid]))} =
        infoAddr ` set (ownVersions ?tid (rowChain s b k)) \<union> (if b = chunk \<and> k = ?k then {a} else {})" for b k
      by (auto simp: undos_append unats undo_ok_records [OF rs(2)])
    moreover have "infoAddr ` set (ownVersions ?tid (rowChain s b k)) \<union> (if b = chunk \<and> k = ?k then {a} else {}) = infoAddr ` set (ownVersions ?tid (rowChain s' b k))" for b k
      using c(3,4) unfolding s'(4) by auto
    moreover have "(of_nat a :: u64) \<noteq> 0" using a(1) unats(1) by (metis unat_0 less_irrefl)
    ultimately show ?thesis using rs(2) chunk unfolding undo_ok_def by auto
  qed
  have "\<exists>rs. undo_holds pad (undoBuffers s' w) rs \<and> undo_ok w rs (rowChain s')" if w: "START_TRANSACTION_ID \<le> w" for w
  proof (cases "w = ?tid")
    case False
    obtain rs where "undo_holds pad (undoBuffers s w) rs" "undo_ok w rs (rowChain s)" using old(7) w by blast
    moreover have "ownVersions w (rowChain s' b k) = ownVersions w (rowChain s b k)" for b k using c(6) [OF False] unfolding s'(4) by simp
    ultimately show ?thesis using False by (auto simp: undo_ok_def s'(5))
  qed (use new s'(5,6) in auto)
  moreover have "versions_ok vc start lastTS (rowChain s' b k)" for b k using c(1) old(2) unfolding s'(4) by simp
  moreover have "0 < infoAddr info \<and> infoAddr info < nextVersionAddr s' \<and> (version info < START_TRANSACTION_ID \<longrightarrow> version info \<in> set (commits r))"
    if "info \<in> set (rowChain s' b k)" for b k info
  proof (cases "b = chunk \<and> k = ?k")
    case True
    then have "info \<in> set chain'" using that unfolding s'(4) by simp
    then have i: "infoAddr info \<in> insert (nextVersionAddr s) (infoAddr ` set (rowChain s chunk ?k))" "version info \<in> insert ?tid (version ` set (rowChain s chunk ?k))" using c(5,7) by blast+
    have "0 < infoAddr info \<and> infoAddr info < nextVersionAddr s + 1" using i(1) old(3,5) by (auto simp: less_Suc_eq)
    moreover have "version info < START_TRANSACTION_ID \<longrightarrow> version info \<in> set (commits r)" using i(2) old(3) tid by auto
    ultimately show ?thesis by (simp add: s'(7))
  next
    case False
    then have "info \<in> set (rowChain s b k)" using that unfolding s'(4) by (auto split: if_splits)
    then show ?thesis using old(3) [of info b k] by (simp add: s'(7))
  qed
  moreover have "((writesOf r)(?tid := (writesOf r ?tid)((chunk, row) \<mapsto> v))) w (b, row') = versionMap (rowChain s' b (row' div vc)) w (row' mod vc)" for w b row'
    using div_mod_eq [OF vc(1), of row' row] unfolding s'(4) by (auto simp: old(4) c(2))
  moreover have "\<forall>w \<in> ro. START_TRANSACTION_ID \<le> w \<and> (\<forall>b k. ownVersions w (rowChain s' b k) = [])"
  proof -
    have "ownVersions w chain' = []" if "w \<in> ro" for w using c(6) related_facts(8) [OF rel that] that rw by metis
    then show ?thesis using related_facts(7,8) [OF rel] unfolding s'(4) by auto
  qed
  ultimately have "store_related vc pad (Suc n) ro start lastTS s' (r\<lparr>writesOf := (writesOf r)(?tid := (writesOf r ?tid)((chunk, row) \<mapsto> v))\<rparr>)"
    using rel unfolding store_related_def by (auto simp: s'(3,7))
  then show ?thesis using s'(1) by blast
qed

lemma related_commit:
  fixes s :: "('t, 'x, 'o, 'v, 'h) engine_store"
  assumes rel: "store_related vc pad n ro start lastTS s r" and tid: "tid \<in> dom start" and cts: "lastTS < cts" "cts < START_TRANSACTION_ID" and rw: "tid \<notin> ro"
  shows "\<exists>s'. engine_commit hs tid cts s = (s', Inr ()) \<and> store_related vc pad (Suc n) ro (start(tid := None)) cts s'
      (r\<lparr>commits := cts # commits r, writesOf := (writesOf r)(cts := writesOf r tid, tid := Map.empty)\<rparr>)"
proof -
  note old = related_facts [OF rel]
  have START: "START_TRANSACTION_ID \<le> tid" using old(1) tid unfolding start_ok_def by blast
  obtain rs where rs: "undo_holds pad (undoBuffers s tid) rs" "undo_ok tid rs (rowChain s)" using old(6) START by blast
  obtain ups where ups: "engine_commit hs tid cts s = (s\<lparr>undoTargets := (undoTargets s)\<lparr>targetUpdates := ups\<rparr>, undoBuffers := (undoBuffers s)(tid := [])\<rparr>, Inr ())"
      "\<And>a k. chainAt (ups a) k = map (commitVersion tid cts) (rowChain s a k)"
    using engine_commit_chains [OF rs versions_ok_parts(2) [OF old(2)]] by blast
  define s' where "s' = s\<lparr>undoTargets := (undoTargets s)\<lparr>targetUpdates := ups\<rparr>, undoBuffers := (undoBuffers s)(tid := [])\<rparr>"
  have chains: "rowChain s' a k = map (commitVersion tid cts) (rowChain s a k)" for a k by (simp add: rowChain_def s'_def ups(2))
  have frame: "undoBuffers s' = (undoBuffers s)(tid := [])" "nextVersionAddr s' = nextVersionAddr s" "chunkSegments s' = chunkSegments s" by (simp_all add: s'_def)
  note c = chain_commit [OF old(2,1) tid cts]
  have older: "version info \<noteq> cts" if "info \<in> set (rowChain s a k)" for a k info using version_cases [OF old(2,1) that] cts by (metis leD)
  have others: "ownVersions w (rowChain s' a k) = ownVersions w (rowChain s a k)" if "START_TRANSACTION_ID \<le> w" "w \<noteq> tid" for w a k
  proof -
    have "w \<noteq> cts" using that cts(2) by auto
    then have "ownVersions w (map (commitVersion tid cts) chain) = ownVersions w chain" for chain :: "'v vector_update_info list"
      using that(2) by (induction chain) (auto simp: ownVersions_def commitVersion_def)
    then show ?thesis by (simp add: chains)
  qed
  have "\<exists>rs. undo_holds pad (undoBuffers s' w) rs \<and> undo_ok w rs (rowChain s')" if w: "START_TRANSACTION_ID \<le> w" for w
  proof (cases "w = tid")
    case True
    have "ownVersions tid (rowChain s' a k) = []" for a k using START cts(2) by (auto simp: chains ownVersions_def filter_empty_conv)
    then have "undo_ok tid [] (rowChain s')" by (simp add: undo_ok_def)
    then show ?thesis using True undo_holds_empty by (auto simp: frame)
  next
    case False
    obtain rs where rs: "undo_holds pad (undoBuffers s w) rs" "undo_ok w rs (rowChain s)" using old(6) w by blast
    then show ?thesis using False w others by (auto simp: undo_ok_def frame)
  qed
  moreover have "versions_ok vc (start(tid := None)) cts (rowChain s' a k)" for a k using c(1) by (simp add: chains)
  moreover have "0 < infoAddr info \<and> infoAddr info < nextVersionAddr s' \<and> (version info < START_TRANSACTION_ID \<longrightarrow> version info \<in> set (cts # commits r))"
    if "info \<in> set (rowChain s' a k)" for a k info
    using that old(3) by (auto simp: chains frame)
  moreover have "((writesOf r)(cts := writesOf r tid, tid := Map.empty)) w (a, row) = versionMap (rowChain s' a (row div vc)) w (row mod vc)" for w a row
    using START cts(2) by (auto simp: chains c(2) old(4))
  moreover have "start_ok (start(tid := None)) cts"
  proof -
    have "x \<le> cts" if "x \<le> lastTS" for x using that cts(1) by (metis order_trans less_imp_le)
    then show ?thesis using old(1) cts(2) unfolding start_ok_def by auto
  qed
  moreover have "sorted_wrt (>) (cts # commits r)" "\<forall>ts \<in> set (cts # commits r). ts \<le> cts" using old(5) cts(1) by auto
  moreover have "\<forall>w \<in> ro. START_TRANSACTION_ID \<le> w \<and> (\<forall>a k. ownVersions w (rowChain s' a k) = [])" using old(7,8) others rw by metis
  ultimately have "store_related vc pad (Suc n) ro (start(tid := None)) cts s' (r\<lparr>commits := cts # commits r, writesOf := (writesOf r)(cts := writesOf r tid, tid := Map.empty)\<rparr>)"
    using rel unfolding store_related_def by (auto simp: frame)
  then show ?thesis using ups(1) s'_def by blast
qed

lemma related_rollback:
  fixes s :: "('t, 'x, 'o, 'v, 'h) engine_store"
  assumes rel: "store_related vc pad n ro start lastTS s r" and START: "START_TRANSACTION_ID \<le> tid" and rw: "tid \<notin> ro"
  shows "\<exists>s'. engine_rollback hs tid s = (s', Inr ()) \<and> store_related vc pad (Suc n) ro (start(tid := None)) lastTS s' (r\<lparr>writesOf := (writesOf r)(tid := Map.empty)\<rparr>)"
proof -
  note old = related_facts [OF rel]
  obtain rs where rs: "undo_holds pad (undoBuffers s tid) rs" "undo_ok tid rs (rowChain s)" using old(6) START by blast
  obtain ups where ups: "engine_rollback hs tid s = (s\<lparr>undoTargets := (undoTargets s)\<lparr>targetUpdates := ups\<rparr>, undoBuffers := (undoBuffers s)(tid := [])\<rparr>, Inr ())"
      "\<And>a k. chainAt (ups a) k = otherVersions tid (rowChain s a k)"
    using engine_rollback_chains [OF rs versions_ok_parts(4) [OF old(2)]] by blast
  define s' where "s' = s\<lparr>undoTargets := (undoTargets s)\<lparr>targetUpdates := ups\<rparr>, undoBuffers := (undoBuffers s)(tid := [])\<rparr>"
  have chains: "rowChain s' a k = otherVersions tid (rowChain s a k)" for a k by (simp add: rowChain_def s'_def ups(2))
  have frame: "undoBuffers s' = (undoBuffers s)(tid := [])" "nextVersionAddr s' = nextVersionAddr s" "chunkSegments s' = chunkSegments s" by (simp_all add: s'_def)
  note c = chain_rollback [OF old(2), of tid]
  have others: "ownVersions w (rowChain s' a k) = ownVersions w (rowChain s a k)" if "w \<noteq> tid" for w a k
    unfolding chains using that by (auto simp: ownVersions_def otherVersions_def intro: filter_cong)
  have "\<exists>rs. undo_holds pad (undoBuffers s' w) rs \<and> undo_ok w rs (rowChain s')" if w: "START_TRANSACTION_ID \<le> w" for w
  proof (cases "w = tid")
    case True
    have "undo_ok tid [] (rowChain s')" by (simp add: undo_ok_def chains)
    then show ?thesis using True undo_holds_empty by (auto simp: frame)
  next
    case False
    obtain rs where rs: "undo_holds pad (undoBuffers s w) rs" "undo_ok w rs (rowChain s)" using old(6) w by blast
    then show ?thesis using False others by (auto simp: undo_ok_def frame)
  qed
  moreover have "versions_ok vc (start(tid := None)) lastTS (rowChain s' a k)" for a k using c(1) by (simp add: chains)
  moreover have "0 < infoAddr info \<and> infoAddr info < nextVersionAddr s' \<and> (version info < START_TRANSACTION_ID \<longrightarrow> version info \<in> set (commits r))"
    if "info \<in> set (rowChain s' a k)" for a k info
    using that old(3) by (auto simp: chains otherVersions_def frame)
  moreover have "((writesOf r)(tid := Map.empty)) w (a, row) = versionMap (rowChain s' a (row div vc)) w (row mod vc)" for w a row
    by (simp add: chains c(2) old(4))
  moreover have "start_ok (start(tid := None)) lastTS" using old(1) unfolding start_ok_def by (auto split: if_splits)
  moreover have "\<forall>w \<in> ro. START_TRANSACTION_ID \<le> w \<and> (\<forall>a k. ownVersions w (rowChain s' a k) = [])" using old(7,8) others rw by metis
  ultimately have "store_related vc pad (Suc n) ro (start(tid := None)) lastTS s' (r\<lparr>writesOf := (writesOf r)(tid := Map.empty)\<rparr>)"
    using rel unfolding store_related_def by (auto simp: frame)
  then show ?thesis using ups(1) s'_def by blast
qed

section \<open>Every event\<close>

definition startOf :: "transaction list \<Rightarrow> transaction_t \<rightharpoonup> transaction_t" where
  "startOf active = map_of (map (\<lambda>t. (txnID t, startTS t)) active)"

definition readOnlyIDs :: "transaction list \<Rightarrow> transaction_t set" where
  "readOnlyIDs active = txnID ` {t \<in> set active. isReadOnly t}"

definition related ::
  "db_config \<Rightarrow> nat \<Rightarrow> u8 \<Rightarrow> nat \<Rightarrow> ('t, 'x, 'o, 'v, 'h) engine_store transaction_manager \<Rightarrow> 'v snapshot_store transaction_manager \<Rightarrow> bool" where
  "related cfg vc pad n tm tr \<longleftrightarrow>
     activeTransactions tr = activeTransactions tm \<and> lastTransactionID tr = lastTransactionID tm \<and> lastTimestamp tr = lastTimestamp tm
   \<and> tm_inv cfg n tm \<and> (\<forall>t \<in> set (activeTransactions tm). \<not> forceCheckpoint t)
   \<and> store_related vc pad n (readOnlyIDs (activeTransactions tm)) (startOf (activeTransactions tm)) (lastTimestamp tm) (store tm) (store tr)"

fun event_ok :: "nat \<Rightarrow> 'v event \<Rightarrow> bool" where
  "event_ok vc (UpdateEvent _ chunk row _) = (chunk \<noteq> 0 \<and> row div vc < 2 ^ 32)"
| "event_ok vc (LookupEvent _ _ _ pos out) = (pos < length out)"
| "event_ok vc (ScanEvent _ _ _ n out) = (n \<le> length out)"
| "event_ok vc _ = True"

lemma startOf_leave [simp]: "startOf (filter (\<lambda>t. txnID t \<noteq> tid) active) = (startOf active)(tid := None)"
  by (induction active) (auto simp: startOf_def fun_eq_iff)

lemma dom_startOf: "dom (startOf active) = txnID ` set active"
  by (simp add: startOf_def dom_map_of_conv_image_fst image_image)

lemma readOnlyIDs_leave: "readOnlyIDs (filter (\<lambda>t. txnID t \<noteq> tid) active) = readOnlyIDs active - {tid}"
  by (auto simp: readOnlyIDs_def)

lemma active_facts:
  assumes inv: "tm_inv cfg n tm" and find: "findTransaction tid tm = Some t"
  shows "t \<in> set (activeTransactions tm)" "txnID t = tid" "startOf (activeTransactions tm) (txnID t) = Some (startTS t)" "START_TRANSACTION_ID \<le> tid"
    "txnType t \<noteq> DUMMY" "isReadOnly t \<or> isWriteTransaction t \<or> isRecovery t" "tid \<in> readOnlyIDs (activeTransactions tm) \<longleftrightarrow> isReadOnly t"
proof -
  show t: "t \<in> set (activeTransactions tm)" and tid: "txnID t = tid" using find by (auto simp: findTransaction_def find_Some_iff)
  have dist: "distinct (map txnID (activeTransactions tm))" using inv by (simp add: tm_inv_def cores_def comp_def)
  then show "startOf (activeTransactions tm) (txnID t) = Some (startTS t)"
    unfolding startOf_def using t by (intro map_of_is_SomeI) (auto simp: comp_def)
  have core: "2 ^ 63 < unat (txnID t)" "txnType t \<in> {READ_ONLY, WRITE, RECOVERY}" using inv t by (auto simp: tm_inv_def cores_def)
  then show "START_TRANSACTION_ID \<le> tid" using tid by (simp add: word_le_nat_alt unat_START)
  show "txnType t \<noteq> DUMMY" "isReadOnly t \<or> isWriteTransaction t \<or> isRecovery t" using core(2) by (auto simp: isReadOnly_def isWriteTransaction_def isRecovery_def)
  show "tid \<in> readOnlyIDs (activeTransactions tm) \<longleftrightarrow> isReadOnly t"
    using dist t tid by (auto simp: readOnlyIDs_def distinct_map inj_on_def)
qed

lemma clear_active:
  "findTransaction tid tm = Some t \<Longrightarrow> clearTransactionNoLock tid tm = (tm\<lparr>activeTransactions := filter (\<lambda>t. txnID t \<noteq> tid) (activeTransactions tm)\<rparr>, Inr ())"
  by (auto simp: clearTransactionNoLock_def findTransaction_def find_Some_iff list_ex_iff dest: nth_mem)

lemma filter_setCommitTS: "filter (\<lambda>t. txnID t \<noteq> tid) (map (\<lambda>t. if txnID t = tid then t\<lparr>commitTS := ts\<rparr> else t) active) = filter (\<lambda>t. txnID t \<noteq> tid) active"
  by (induction active) auto

lemma commit_ops:
  assumes "findTransaction tid tm = Some t" "\<not> isReadOnly t" "isWriteTransaction t \<or> isRecovery t" "\<not> forceCheckpoint t"
    "commit tid (lastTimestamp tm + 1) (store tm) = (s, Inr ())"
  shows "tm_commit cfg (update_ops commit rollback) tid tm =
    (tm\<lparr>activeTransactions := filter (\<lambda>t. txnID t \<noteq> tid) (activeTransactions tm), lastTimestamp := lastTimestamp tm + 1, store := s\<rparr>, Inr ())"
proof -
  have "txnID t = tid" "list_ex (\<lambda>t. txnID t = tid) (activeTransactions tm)" using assms(1) by (auto simp: findTransaction_def find_Some_iff list_ex_iff dest: nth_mem)
  moreover have "list_ex (\<lambda>t. txnID t = tid) (map (\<lambda>t. if txnID t = tid then t\<lparr>commitTS := ts\<rparr> else t) active) = list_ex (\<lambda>t. txnID t = tid) active" for ts active
    by (induction active) auto
  ultimately show ?thesis using assms
    by (auto simp: tm_commit_def transaction_commit_def update_ops_def Let_def shouldForceCheckpoint_def canAutoCheckpoint_def setCommitTS_def
        clearTransactionNoLock_def filter_setCommitTS)
qed

lemma rollback_ops:
  assumes "findTransaction tid tm = Some t" "\<not> isReadOnly t" "isWriteTransaction t \<or> isRecovery t" "rollback tid (store tm) = (s, Inr ())"
  shows "tm_rollback (update_ops commit rollback) tid tm =
    (tm\<lparr>activeTransactions := filter (\<lambda>t. txnID t \<noteq> tid) (activeTransactions tm), store := s\<rparr>, Inr ())"
proof -
  have "txnID t = tid" "\<exists>t \<in> set (activeTransactions tm). txnID t = tid" using assms(1) by (auto simp: findTransaction_def find_Some_iff dest: nth_mem)
  then show ?thesis using assms
    by (auto simp: tm_rollback_def transaction_rollback_def update_ops_def clearTransactionNoLock_def list_ex_iff)
qed

lemma related_timestamps:
  assumes "tm_inv cfg n tm" "n < 2 ^ 62"
  shows "lastTimestamp tm < lastTimestamp tm + 1" "lastTimestamp tm + 1 < START_TRANSACTION_ID"
proof -
  have "unat (lastTimestamp tm) \<le> 1 + n" using assms(1) by (simp add: tm_inv_def)
  then show "lastTimestamp tm < lastTimestamp tm + 1" "lastTimestamp tm + 1 < START_TRANSACTION_ID"
    using assms(2) by (simp_all add: word_less_nat_alt unat_START unat_succ)
qed

lemma related_parts:
  assumes "related cfg vc pad n tm tr"
  shows "activeTransactions tr = activeTransactions tm" "lastTransactionID tr = lastTransactionID tm" "lastTimestamp tr = lastTimestamp tm" "tm_inv cfg n tm"
    "t \<in> set (activeTransactions tm) \<Longrightarrow> \<not> forceCheckpoint t" "findTransaction tid tr = findTransaction tid tm"
    "store_related vc pad n (readOnlyIDs (activeTransactions tm)) (startOf (activeTransactions tm)) (lastTimestamp tm) (store tm) (store tr)"
  using assms by (auto simp: related_def findTransaction_def)

lemma related_idle:
  assumes "related cfg vc pad n tm tr"
  shows "related cfg vc pad (Suc n) tm tr"
  using assms unfolding related_def tm_inv_def store_related_def by auto

lemma related_end:
  assumes rel: "related cfg vc pad n tm tr" and n: "n < 2 ^ 62" and ts: "ts \<in> {lastTimestamp tm, lastTimestamp tm + 1}"
    and st: "store_related vc pad (Suc n) (readOnlyIDs (activeTransactions tm) - {tid}) ((startOf (activeTransactions tm))(tid := None)) ts s r"
  shows "related cfg vc pad (Suc n)
    (tm\<lparr>activeTransactions := filter (\<lambda>t. txnID t \<noteq> tid) (activeTransactions tm), lastTimestamp := ts, store := s\<rparr>)
    (tr\<lparr>activeTransactions := filter (\<lambda>t. txnID t \<noteq> tid) (activeTransactions tm), lastTimestamp := ts, store := r\<rparr>)"
proof -
  let ?tm = "tm\<lparr>activeTransactions := filter (\<lambda>t. txnID t \<noteq> tid) (activeTransactions tm), lastTimestamp := ts, store := s\<rparr>"
  have "leaves tid tm ?tm" by (simp add: leaves_def cores_def without_def filter_map comp_def)
  then have "tm_inv cfg (Suc n) ?tm" using tm_inv_leaves [OF related_parts(4) [OF rel] _ _ n] ts by simp
  then show ?thesis using related_parts [OF rel] st by (simp add: related_def readOnlyIDs_leave)
qed

lemma same_timestamp:
  "lastTimestamp tr = ts \<Longrightarrow> tr\<lparr>activeTransactions := active, lastTimestamp := ts\<rparr> = tr\<lparr>activeTransactions := active\<rparr>"
  "lastTimestamp tr = ts \<Longrightarrow> tr\<lparr>activeTransactions := active, lastTimestamp := ts, store := r\<rparr> = tr\<lparr>activeTransactions := active, store := r\<rparr>"
  by auto

lemma commit_step:
  fixes tm :: "('t, 'x, 'o, 'v, 'h) engine_store transaction_manager"
  assumes rel: "related cfg vc pad n tm tr" and n: "n < 2 ^ 62"
  shows "\<exists>tm' tr' r. tm_commit cfg (storeOps (engine hs pad fresh vc)) tid tm = (tm', r) \<and> tm_commit cfg (storeOps snapshots) tid tr = (tr', r)
    \<and> related cfg vc pad (Suc n) tm' tr'"
proof (cases "findTransaction tid tm")
  case None
  then show ?thesis using related_idle [OF rel] related_parts(6) [OF rel] by (simp add: tm_commit_def)
next
  case (Some t)
  note parts = related_parts [OF rel]
  have find: "findTransaction tid tr = Some t" using Some parts(6) by simp
  note act = active_facts [OF parts(4) Some]
  let ?act = "activeTransactions tm" and ?ts = "lastTimestamp tm + 1" and ?r = "store tr"
  show ?thesis
  proof (cases "isReadOnly t")
    case True
    have "store_related vc pad (Suc n) (readOnlyIDs ?act - {tid}) ((startOf ?act)(tid := None)) (lastTimestamp tm) (store tm) ?r"
      using related_leave [OF parts(7)] act(7) True by blast
    from related_end [OF rel n _ this] show ?thesis
      using True Some find parts(1,3) by (simp add: tm_commit_def clear_active same_timestamp)
  next
    case False
    have "tid \<in> dom (startOf ?act)" using act(2,3) by auto
    then obtain s' where s': "engine_commit hs tid ?ts (store tm) = (s', Inr ())"
        "store_related vc pad (Suc n) (readOnlyIDs ?act) ((startOf ?act)(tid := None)) ?ts s'
          (?r\<lparr>commits := ?ts # commits ?r, writesOf := (writesOf ?r)(?ts := writesOf ?r tid, tid := Map.empty)\<rparr>)"
      using related_commit [OF parts(7) _ related_timestamps [OF parts(4) n]] act(7) False by metis
    have "readOnlyIDs ?act - {tid} = readOnlyIDs ?act" using act(7) False by auto
    from related_end [OF rel n, of ?ts tid, unfolded this, OF _ s'(2)] show ?thesis
      using commit_ops [OF Some False _ parts(5) [OF act(1)]] commit_ops [OF find False _ parts(5) [OF act(1)]] act(6) False s'(1) parts(1,3)
      by (simp add: engine_def snapshots_def)
  qed
qed

lemma rollback_step:
  fixes tm :: "('t, 'x, 'o, 'v, 'h) engine_store transaction_manager"
  assumes rel: "related cfg vc pad n tm tr" and n: "n < 2 ^ 62"
  shows "\<exists>tm' tr' r. tm_rollback (storeOps (engine hs pad fresh vc)) tid tm = (tm', r) \<and> tm_rollback (storeOps snapshots) tid tr = (tr', r)
    \<and> related cfg vc pad (Suc n) tm' tr'"
proof (cases "findTransaction tid tm")
  case None
  then show ?thesis using related_idle [OF rel] related_parts(6) [OF rel] by (simp add: tm_rollback_def)
next
  case (Some t)
  note parts = related_parts [OF rel]
  have find: "findTransaction tid tr = Some t" using Some parts(6) by simp
  note act = active_facts [OF parts(4) Some]
  let ?act = "activeTransactions tm" and ?r = "store tr"
  show ?thesis
  proof (cases "isReadOnly t")
    case True
    have "store_related vc pad (Suc n) (readOnlyIDs ?act - {tid}) ((startOf ?act)(tid := None)) (lastTimestamp tm) (store tm) ?r"
      using related_leave [OF parts(7)] act(7) True by blast
    from related_end [OF rel n _ this] show ?thesis
      using True Some find parts(1,3) by (simp add: tm_rollback_def clear_active same_timestamp)
  next
    case False
    obtain s' where s': "engine_rollback hs tid (store tm) = (s', Inr ())"
        "store_related vc pad (Suc n) (readOnlyIDs ?act) ((startOf ?act)(tid := None)) (lastTimestamp tm) s' (?r\<lparr>writesOf := (writesOf ?r)(tid := Map.empty)\<rparr>)"
      using related_rollback [OF parts(7) act(4)] act(7) False by metis
    have "readOnlyIDs ?act - {tid} = readOnlyIDs ?act" using act(7) False by auto
    from related_end [OF rel n, of "lastTimestamp tm" tid, unfolded this, OF _ s'(2)] show ?thesis
      using rollback_ops [OF Some False] rollback_ops [OF find False] act(6) False s'(1) parts(1,3)
      by (simp add: engine_def snapshots_def same_timestamp)
  qed
qed

lemma begin_step:
  fixes tm :: "('t, 'x, 'o, 'v, 'h) engine_store transaction_manager"
  assumes rel: "related cfg vc pad n tm tr" and n: "n < 2 ^ 62"
  shows "\<exists>tm' tr' r. beginTransaction cfg (storeOps (engine hs pad fresh vc)) ty tm = (tm', r) \<and> beginTransaction cfg (storeOps snapshots) ty tr = (tr', r)
    \<and> related cfg vc pad (Suc n) tm' tr'"
proof -
  note parts = related_parts [OF rel]
  let ?tid = "lastTransactionID tm + 1" and ?act = "activeTransactions tm"
  let ?new = "?act @ [Transaction_new ty ?tid (lastTimestamp tm)]"
  let ?tm = "tm\<lparr>lastTransactionID := ?tid, activeTransactions := ?new\<rparr>" and ?tr = "tr\<lparr>lastTransactionID := ?tid, activeTransactions := ?new\<rparr>"
  have cases: "(\<exists>e. \<forall>(ops :: ('t, 'x, 'o, 'v, 'h) engine_store storage_ops) (ops' :: 'v snapshot_store storage_ops).
        beginTransaction cfg ops ty tm = (tm, Inl e) \<and> beginTransaction cfg ops' ty tr = (tr, Inl e))
      \<or> beginTransaction cfg (storeOps (engine hs pad fresh vc)) ty tm = (?tm, Inr ?tid) \<and> beginTransaction cfg (storeOps snapshots) ty tr = (?tr, Inr ?tid)"
    using parts(1-3) by (cases ty) (auto simp: beginTransaction_def hasActiveWriteTransactionNoLock_def engine_def snapshots_def update_ops_def Let_def)
  show ?thesis
  proof (cases "beginTransaction cfg (storeOps (engine hs pad fresh vc)) ty tm = (?tm, Inr ?tid) \<and> beginTransaction cfg (storeOps snapshots) ty tr = (?tr, Inr ?tid)")
    case True
    have ids: "2 ^ 63 \<le> unat (lastTransactionID tm)" "unat (lastTransactionID tm) \<le> 2 ^ 63 + n" using parts(4) by (simp_all add: tm_inv_def)
    then have tid: "unat ?tid = unat (lastTransactionID tm) + 1" using n by (intro unat_succ) simp
    have "unat (txnID t) \<le> unat (lastTransactionID tm)" if "t \<in> set ?act" for t using that parts(4) by (auto simp: tm_inv_def cores_def)
    then have fresh_id: "?tid \<notin> txnID ` set ?act" using tid by fastforce
    have start: "startOf ?new = (startOf ?act)(?tid \<mapsto> lastTimestamp tm)"
    proof -
      have "startOf ?act ?tid = None" using fresh_id dom_startOf [of ?act] by blast
      then show ?thesis by (auto simp: startOf_def Transaction_new_def map_add_def fun_eq_iff split: option.split)
    qed
    have "readOnlyIDs ?new \<subseteq> insert ?tid (readOnlyIDs ?act)" by (auto simp: readOnlyIDs_def Transaction_new_def)
    moreover have "START_TRANSACTION_ID \<le> ?tid" using tid ids(1) by (simp add: word_le_nat_alt unat_START)
    ultimately have "store_related vc pad (Suc n) (readOnlyIDs ?new) (startOf ?new) (lastTimestamp tm) (store tm) (store tr)"
      unfolding start using fresh_id dom_startOf [of ?act] by (intro related_begin [OF parts(7)]) auto
    moreover have "tm_inv cfg (Suc n) ?tm" using tm_inv_begin [OF parts(4) n] True by blast
    moreover have "\<forall>t \<in> set ?new. \<not> forceCheckpoint t" using parts(5) by (auto simp: Transaction_new_def)
    ultimately have "related cfg vc pad (Suc n) ?tm ?tr" using parts(1-3) by (simp add: related_def)
    then show ?thesis using True by blast
  qed (use cases related_idle [OF rel] in blast)
qed

lemma update_step:
  fixes tm :: "('t, 'x, 'o, 'v, 'h) engine_store transaction_manager"
  assumes rel: "related cfg vc pad n tm tr" and n: "n < 2 ^ 62" and find: "findTransaction tid tm = Some t" "\<not> isReadOnly t"
    and vc: "0 < vc" "row div vc < 2 ^ 32" and fresh: "length (fresh 4096) = 4096" and chunk: "chunk \<noteq> 0"
  shows "\<exists>s r o'. engine_update pad fresh vc (activeTransactions tm) t chunk row v (store tm) = Some (s, o') \<and> snapshot_update (activeTransactions tm) t chunk row v (store tr) = Some (r, o')
    \<and> related cfg vc pad (Suc n) (tm\<lparr>store := s\<rparr>) (tr\<lparr>store := r\<rparr>)"
proof -
  note parts = related_parts [OF rel]
  note act = active_facts [OF parts(4) find(1)]
  let ?act = "activeTransactions tm"
  have step: "related cfg vc pad (Suc n) (tm\<lparr>store := s\<rparr>) (tr\<lparr>store := r\<rparr>)"
    if "store_related vc pad (Suc n) (readOnlyIDs ?act) (startOf ?act) (lastTimestamp tm) s r" for s r
    using that related_idle [OF rel] by (simp add: related_def tm_inv_def)
  note conflict = related_conflict [OF parts(7) dom_startOf, where t = t and chunk = chunk and row = row]
  show ?thesis
  proof (cases "\<exists>info \<in> set (rowChain (store tm) chunk (row div vc)). conflicting t (row mod vc) info")
    case True
    obtain s' where s': "engine_update pad fresh vc ?act t chunk row v (store tm) = Some (s', Inl updateConflict)"
        "chunkSegments s' = chunkSegments (store tm)" "rowChain s' = rowChain (store tm)" "undoBuffers s' = undoBuffers (store tm)" "nextVersionAddr s' = nextVersionAddr (store tm) + 1"
      using engine_update_refused [OF act(5) _ True] act(2,4) by metis
    then show ?thesis using True conflict step [OF related_refused [OF parts(7) s'(2-5)]] by (simp add: snapshot_update_def)
  next
    case False
    obtain s' where s': "engine_update pad fresh vc ?act t chunk row v (store tm) = Some (s', Inr ())"
        "store_related vc pad (Suc n) (readOnlyIDs ?act) (startOf ?act) (lastTimestamp tm) s' ((store tr)\<lparr>writesOf := (writesOf (store tr))(txnID t := (writesOf (store tr) (txnID t))((chunk, row) \<mapsto> v))\<rparr>)"
      using related_update [where fresh = fresh, OF parts(7) act(3,5) vc fresh n chunk _ False] act(2,7) find(2) by metis
    then show ?thesis using False conflict step [OF s'(2)] by (simp add: snapshot_update_def)
  qed
qed

lemma related_reads:
  fixes tm :: "('t, 'x, 'o, 'v, 'h) engine_store transaction_manager"
  assumes rel: "related cfg vc pad n tm tr" and find: "findTransaction tid tm = Some t" and vc: "0 < vc"
  shows "pos < length out \<Longrightarrow> storeLookup (engine hs pad fresh vc) t chunk row pos out (store tm) = storeLookup snapshots t chunk row pos out (store tr)"
    "m \<le> length out \<Longrightarrow> storeScan (engine hs pad fresh vc) t chunk row m out (store tm) = storeScan snapshots t chunk row m out (store tr)"
proof -
  note parts = related_parts [OF rel]
  note act = active_facts [OF parts(4) find]
  have ok: "updates_ok vc (targetUpdates (undoTargets (store tm)) chunk)"
    using versions_ok_parts(1) [OF related_facts(2) [OF parts(7)]] by (simp add: updates_ok_chainAt rowChain_def)
  have "startTS t < START_TRANSACTION_ID" "START_TRANSACTION_ID \<le> txnID t"
    using related_facts(1) [OF parts(7)] act(2-4) unfolding start_ok_def by (auto intro: order.strict_trans1)
  then have txn: "txn_ok t" by (auto simp: txn_ok_def)
  have seg: "[] \<notin> set (tl (chunkSegments (store tm) chunk))" using parts(7) unfolding store_related_def by blast
  note val = related_value [OF parts(7) act(3), of chunk]
  show "pos < length out \<Longrightarrow> storeLookup (engine hs pad fresh vc) t chunk row pos out (store tm) = storeLookup snapshots t chunk row pos out (store tr)"
    using columnChunk_lookup_value [OF ok txn _ seg, of pos out row] by (simp add: engine_def snapshots_def val)
  show "m \<le> length out \<Longrightarrow> storeScan (engine hs pad fresh vc) t chunk row m out (store tm) = storeScan snapshots t chunk row m out (store tr)"
    using columnChunk_scan_value [OF ok txn vc _ seg, of m out row] by (simp add: engine_def snapshots_def val cong: if_cong)
qed

lemma related_step:
  fixes tm :: "('t, 'x, 'o, 'v, 'h) engine_store transaction_manager"
  assumes rel: "related cfg vc pad n tm tr" and n: "n < 2 ^ 62" and ev: "event_ok vc e" and vc: "0 < vc" and fresh: "length (fresh 4096) = 4096"
  shows "\<exists>tm' tr' r. event_step cfg (engine hs pad fresh vc) e tm = Some (tm', r) \<and> event_step cfg snapshots e tr = Some (tr', r) \<and> related cfg vc pad (Suc n) tm' tr'"
proof -
  note parts = related_parts [OF rel]
  note idle = related_idle [OF rel]
  show ?thesis
  proof (cases e)
    case (BeginEvent ty)
    show ?thesis unfolding BeginEvent using begin_step [OF rel n, of hs fresh ty] by auto
  next
    case (UpdateEvent tid chunk row v)
    consider (missing) "findTransaction tid tm = None" | (reads) t where "findTransaction tid tm = Some t" "isReadOnly t"
      | (writes) t where "findTransaction tid tm = Some t" "\<not> isReadOnly t" by fastforce
    then show ?thesis
    proof cases
      case (writes t)
      then show ?thesis unfolding UpdateEvent
        using update_step [where fresh = fresh and chunk = chunk and row = row and v = v, OF rel n writes vc _ fresh] ev UpdateEvent parts(1,6)
        by (auto simp: engine_def snapshots_def)
    qed (use idle parts(6) UpdateEvent in auto)
  next
    case (LookupEvent tid chunk row pos out)
    then show ?thesis using idle parts(6) ev related_reads(1) [OF rel _ vc] by (cases "findTransaction tid tm") auto
  next
    case (ScanEvent tid chunk row m out)
    then show ?thesis using idle parts(6) ev related_reads(2) [OF rel _ vc] by (cases "findTransaction tid tm") auto
  next
    case (CommitEvent tid)
    show ?thesis unfolding CommitEvent using commit_step [OF rel n, of hs fresh tid] by auto
  next
    case (RollbackEvent tid)
    show ?thesis unfolding RollbackEvent using rollback_step [OF rel n, of hs fresh tid] by auto
  qed
qed

lemma related_run:
  fixes tm :: "('t, 'x, 'o, 'v, 'h) engine_store transaction_manager"
  assumes "related cfg vc pad n tm tr" "n + length es \<le> 2 ^ 62" "list_all (event_ok vc) es" "0 < vc" "length (fresh 4096) = 4096"
  shows "\<exists>tm' tr' outcomes. run_events cfg (engine hs pad fresh vc) es tm = Some (tm', outcomes) \<and> run_events cfg snapshots es tr = Some (tr', outcomes)
    \<and> related cfg vc pad (n + length es) tm' tr'"
  using assms(1-3)
proof (induction es arbitrary: n tm tr)
  case (Cons e es)
  then have "n < 2 ^ 62" "event_ok vc e" by simp_all
  then obtain tm1 tr1 r where one: "event_step cfg (engine hs pad fresh vc) e tm = Some (tm1, r)" "event_step cfg snapshots e tr = Some (tr1, r)" "related cfg vc pad (Suc n) tm1 tr1"
    using related_step [where fresh = fresh, OF Cons.prems(1) _ _ assms(4,5)] by blast
  obtain tm' tr' outcomes where "run_events cfg (engine hs pad fresh vc) es tm1 = Some (tm', outcomes)" "run_events cfg snapshots es tr1 = Some (tr', outcomes)"
      "related cfg vc pad (Suc n + length es) tm' tr'"
    using Cons.IH [OF one(3)] Cons.prems by auto
  then show ?case using one by simp
qed simp

definition engine_start :: "('t, 'x, 'o, 'v, 'h) undo_targets \<Rightarrow> (u64 \<Rightarrow> 'v list list) \<Rightarrow> ('t, 'x, 'o, 'v, 'h) engine_store" where
  "engine_start targets segments = \<lparr>chunkSegments = segments, undoTargets = targets\<lparr>targetUpdates := \<lambda>_. []\<rparr>, undoBuffers = \<lambda>_. [], nextVersionAddr = 1\<rparr>"

definition snapshot_start :: "(u64 \<Rightarrow> 'v list list) \<Rightarrow> 'v snapshot_store" where
  "snapshot_start segments = \<lparr>baseValues = \<lambda>a. concat (segments a), commits = [], writesOf = \<lambda>_. Map.empty\<rparr>"

lemma related_start:
  assumes "\<forall>a. [] \<notin> set (tl (segments a))"
  shows "related cfg vc pad 0 (TransactionManager_new (engine_start targets segments)) (TransactionManager_new (snapshot_start segments))"
proof -
  let ?s = "engine_start targets segments"
  have chains: "rowChain ?s a k = []" for a k by (simp add: rowChain_def engine_start_def chainAt_def)
  have frame: "chunkSegments ?s = segments" "undoBuffers ?s = (\<lambda>_. [])" "nextVersionAddr ?s = 1" by (simp_all add: engine_start_def)
  have "undo_holds pad (undoBuffers ?s tid) [] \<and> undo_ok tid [] (rowChain ?s)" for tid
    using undo_holds_empty by (simp add: frame undo_ok_def chains ownVersions_def)
  then have "store_related vc pad 0 {} Map.empty 1 ?s (snapshot_start segments)"
    using assms unfolding store_related_def by (auto simp: frame chains snapshot_start_def start_ok_def START_TRANSACTION_ID_def versionMap_def versions_ok_def)
  then show ?thesis using tm_inv_start [of cfg ?s]
    by (simp add: related_def startOf_def readOnlyIDs_def TransactionManager_new_def)
qed

text \<open>
  C2. Snapshot isolation of updates. Take any sequence of begins, updates, lookups, scans, commits and
  rollbacks by any number of transactions on any number of column chunks. The engine (transaction
  manager, undo buffers, update info, column chunks) ends, and every outcome, the refused updates and the
  rows of the reads included, is that of the reference: a transaction reads its own write, or else
  the newest write committed before it began, or else the value of the chunk; an update is refused
  exactly when another running transaction, or one that committed after it began, wrote the row.
\<close>

theorem snapshot_isolation:
  assumes "list_all (event_ok vc) es" "length es \<le> 2 ^ 62" "0 < vc" "\<forall>a. [] \<notin> set (tl (segments a))" "length (fresh 4096) = 4096"
  shows "\<exists>tm tr outcomes.
      run_events cfg (engine hs pad fresh vc) es (TransactionManager_new (engine_start targets segments)) = Some (tm, outcomes)
    \<and> run_events cfg snapshots es (TransactionManager_new (snapshot_start segments)) = Some (tr, outcomes)"
  using related_run [where n = 0 and fresh = fresh, OF related_start [OF assms(4)] _ assms(1,3,5)] assms(2) by fastforce

definition multi_write_config :: db_config where
  "multi_write_config = \<lparr>enableMultiWrites = True, inMemory = True, autoCheckpoint = False, checkpointThreshold = 0, checkpointWaitTimeoutInMicros = 0\<rparr>"

definition example_events :: "nat event list" where
  "example_events =
     (let a = START_TRANSACTION_ID + 1; b = START_TRANSACTION_ID + 2; c = START_TRANSACTION_ID + 3 in
      [BeginEvent WRITE, BeginEvent WRITE, UpdateEvent a 7 1 10, UpdateEvent b 7 1 11, UpdateEvent b 7 0 12, ScanEvent b 7 0 3 [0, 0, 0],
       CommitEvent a, LookupEvent b 7 1 0 [0], BeginEvent READ_ONLY, ScanEvent c 7 0 3 [0, 0, 0], RollbackEvent b, CommitEvent c])"

definition example_outcomes :: "nat outcome list" where
  "example_outcomes =
     (let a = START_TRANSACTION_ID + 1; b = START_TRANSACTION_ID + 2; c = START_TRANSACTION_ID + 3 in
      [Began (Inr a), Began (Inr b), Ended (Inr ()), Ended (Inl updateConflict), Ended (Inr ()), Rows (Inr [12, 2, 3]),
       Ended (Inr ()), Rows (Inr [2]), Began (Inr c), Rows (Inr [1, 10, 3]), Ended (Inr ()), Ended (Inr ())])"

lemma example_reference:
  "map_option snd (run_events multi_write_config snapshots example_events (TransactionManager_new (snapshot_start (\<lambda>_. [[1, 2], [3]])))) = Some example_outcomes"
  by (simp add: example_events_def example_outcomes_def multi_write_config_def Let_def TransactionManager_new_def snapshot_start_def START_TRANSACTION_ID_def
      beginTransaction_def shouldLogToWAL_def Transaction_new_def findTransaction_def isReadOnly_def isWriteTransaction_def isRecovery_def
      snapshots_def snapshot_update_def snapshotValue_def snapshotRead_def update_ops_def overlaid_def numeral_3_eq_3
      tm_commit_def transaction_commit_def setCommitTS_def clearTransactionNoLock_def shouldForceCheckpoint_def canAutoCheckpoint_def tm_rollback_def transaction_rollback_def)
    (simp add: word_le_nat_alt)

theorem snapshot_isolation_witness:
  "map_option snd (run_events multi_write_config (engine idle_handlers 0 (\<lambda>n. replicate n 0) 2) example_events
     (TransactionManager_new (engine_start example_before (\<lambda>_. [[1, 2], [3]])))) = Some example_outcomes"
proof -
  have "list_all (event_ok 2) example_events" "length example_events \<le> 2 ^ 62" by (simp_all add: example_events_def Let_def)
  from snapshot_isolation [OF this, of "\<lambda>_. [[1, 2], [3]]" "\<lambda>n. replicate n 0" multi_write_config idle_handlers 0 example_before] example_reference
  show ?thesis by auto
qed

end
