(* ===== verification/Hash_Index.thy ===== *)
theory Hash_Index
  imports Prelude
begin

text \<open>
  The in-memory hash index (\<^verbatim>\<open>src/src/storage/index/in_mem_hash_index.cpp\<close>,
  \<^verbatim>\<open>in_mem_hash_index.h\<close>, \<^verbatim>\<open>hash_index_slot.h\<close>, \<^verbatim>\<open>hash_index_header.h\<close>,
  \<^verbatim>\<open>hash_index_utils.h\<close>): linear hashing with chains of overflow slots and a list of free
  ones.

  Slots are the elements of the two vectors, so a slot pointer is the kind and the number of a slot
  (\<open>slot_info\<close>) and every write goes through the vector. \<open>None\<close> is
  \<^verbatim>\<open>INVALID_OVERFLOW_SLOT_ID\<close>. \<open>cap\<close> is \<^verbatim>\<open>SLOT_CAPACITY\<close>, \<open>hash\<close> the hash
  function of the keys and \<open>vis\<close> the callback \<^verbatim>\<open>isVisible\<close>. A walk along a chain that never ends is
  \<open>None\<close>.
\<close>

section \<open>Slots\<close>

record slot_header =
  fingerprints :: "8 word list"
  validityMask :: u32
  nextOvfSlotId :: "nat option"

definition FINGERPRINT_CAPACITY :: nat where
  "FINGERPRINT_CAPACITY = 20"

definition SlotHeader_new :: slot_header where
  "SlotHeader_new = \<lparr>fingerprints = replicate FINGERPRINT_CAPACITY 0, validityMask = 0, nextOvfSlotId = None\<rparr>"

definition isEntryValid :: "nat \<Rightarrow> slot_header \<Rightarrow> bool" where
  "isEntryValid entryPos h = (validityMask h AND push_bit entryPos 1 \<noteq> 0)"

definition setEntryValid :: "nat \<Rightarrow> 8 word \<Rightarrow> slot_header \<Rightarrow> slot_header res" where
  "setEntryValid entryPos fingerprint h =
     bindR (updR (fingerprints h) entryPos fingerprint) (\<lambda>fps.
     Inr (h\<lparr>validityMask := validityMask h OR push_bit entryPos 1, fingerprints := fps\<rparr>))"

definition setEntryInvalid :: "nat \<Rightarrow> slot_header \<Rightarrow> slot_header" where
  "setEntryInvalid entryPos h = h\<lparr>validityMask := validityMask h AND NOT (push_bit entryPos 1)\<rparr>"

definition slot_numEntries :: "slot_header \<Rightarrow> nat" where
  "slot_numEntries h = length (filter (bit (validityMask h)) [0..<32])"

text \<open>\<^verbatim>\<open>std::countr_one\<close>: the number of ones from the lowest bit on.\<close>

definition countr_one :: "u32 \<Rightarrow> nat" where
  "countr_one w = length (takeWhile (bit w) [0..<32])"

type_synonym 'k slot_entry = "'k \<times> u64"

record 'k slot =
  slotHeader :: slot_header
  slotEntries :: "'k slot_entry list"

definition Slot_new :: "nat \<Rightarrow> 'k \<Rightarrow> 'k slot" where
  "Slot_new cap k0 = \<lparr>slotHeader = SlotHeader_new, slotEntries = replicate cap (k0, 0)\<rparr>"

section \<open>The header of the index\<close>

record hash_index_header =
  currentLevel :: nat
  levelHashMask :: u64
  higherLevelHashMask :: u64
  nextSplitSlotId :: nat
  numEntries :: nat
  firstFreeOverflowSlotId :: "nat option"

definition HashIndexHeader_new :: hash_index_header where
  "HashIndexHeader_new = \<lparr>currentLevel = 1, levelHashMask = 1, higherLevelHashMask = 3, nextSplitSlotId = 0, numEntries = 0, firstFreeOverflowSlotId = None\<rparr>"

text \<open>The masks are computed in 32-bit integers and converted.\<close>

definition intMask :: "nat \<Rightarrow> u64" where
  "intMask n = scast ((push_bit n 1 :: u32) - 1)"

definition incrementLevel :: "hash_index_header \<Rightarrow> hash_index_header" where
  "incrementLevel h = h\<lparr>currentLevel := currentLevel h + 1, nextSplitSlotId := 0,
     levelHashMask := intMask (currentLevel h + 1), higherLevelHashMask := intMask (currentLevel h + 2)\<rparr>"

definition incrementNextSplitSlotId :: "hash_index_header \<Rightarrow> hash_index_header" where
  "incrementNextSplitSlotId h =
     (if nextSplitSlotId h < 2 ^ currentLevel h - 1 then h\<lparr>nextSplitSlotId := nextSplitSlotId h + 1\<rparr> else incrementLevel h)"

definition NUM_HASH_INDEXES_LOG2 :: nat where
  "NUM_HASH_INDEXES_LOG2 = 8"

definition getFingerprintForHash :: "u64 \<Rightarrow> 8 word" where
  "getFingerprintForHash h = ucast (drop_bit (64 - NUM_HASH_INDEXES_LOG2 - 8) h AND 255)"

definition getPrimarySlotIdForHash :: "hash_index_header \<Rightarrow> u64 \<Rightarrow> nat" where
  "getPrimarySlotIdForHash h hsh =
     (let slotId = unat (hsh AND levelHashMask h) in
      if slotId < nextSplitSlotId h then unat (hsh AND higherLevelHashMask h) else slotId)"

text \<open>\<^verbatim>\<open>ceil(numEntries * 1.5)\<close>, which is exact in floating point below \<open>2 ^ 52\<close>.\<close>

definition getNumRequiredEntries :: "nat \<Rightarrow> nat" where
  "getNumRequiredEntries n = (3 * n + 1) div 2"

section \<open>The index\<close>

datatype slot_info = PrimarySlot nat | OvfSlot nat

record 'k in_mem_hash_index =
  pSlots :: "'k slot list"
  oSlots :: "'k slot list"
  indexHeader :: hash_index_header
  numFreeSlots :: nat

definition getSlot :: "slot_info \<Rightarrow> 'k in_mem_hash_index \<Rightarrow> 'k slot res" where
  "getSlot info x = (case info of PrimarySlot i \<Rightarrow> nthR (pSlots x) i | OvfSlot i \<Rightarrow> nthR (oSlots x) i)"

text \<open>What the source does through a pointer to the slot.\<close>

definition setSlot :: "slot_info \<Rightarrow> 'k slot \<Rightarrow> 'k in_mem_hash_index \<Rightarrow> 'k in_mem_hash_index res" where
  "setSlot info s x =
     (case info of
        PrimarySlot i \<Rightarrow> bindR (updR (pSlots x) i s) (\<lambda>ss. Inr (x\<lparr>pSlots := ss\<rparr>))
      | OvfSlot i \<Rightarrow> bindR (updR (oSlots x) i s) (\<lambda>ss. Inr (x\<lparr>oSlots := ss\<rparr>)))"

definition nextChainedSlot :: "slot_info \<Rightarrow> 'k in_mem_hash_index \<Rightarrow> slot_info option res" where
  "nextChainedSlot info x =
     bindR (getSlot info x) (\<lambda>s.
     bindR (assertR (case info of PrimarySlot _ \<Rightarrow> True | OvfSlot i \<Rightarrow> nextOvfSlotId (slotHeader s) \<noteq> Some i)) (\<lambda>_.
     Inr (map_option OvfSlot (nextOvfSlotId (slotHeader s)))))"

definition setNextOvf :: "slot_info \<Rightarrow> nat option \<Rightarrow> 'k in_mem_hash_index \<Rightarrow> 'k in_mem_hash_index res" where
  "setNextOvf info nxt x =
     bindR (getSlot info x) (\<lambda>s. setSlot info (s\<lparr>slotHeader := (slotHeader s)\<lparr>nextOvfSlotId := nxt\<rparr>\<rparr>) x)"

text \<open>Writing an entry and marking it valid; \<^verbatim>\<open>insert\<close> does this after an assertion.\<close>

definition putEntry :: "slot_info \<Rightarrow> nat \<Rightarrow> 'k slot_entry \<Rightarrow> 8 word \<Rightarrow> 'k in_mem_hash_index \<Rightarrow> 'k in_mem_hash_index res" where
  "putEntry info entryPos e fingerprint x =
     bindR (getSlot info x) (\<lambda>s.
     bindR (updR (slotEntries s) entryPos e) (\<lambda>es.
     bindR (setEntryValid entryPos fingerprint (slotHeader s)) (\<lambda>h.
     setSlot info \<lparr>slotHeader = h, slotEntries = es\<rparr> x)))"

definition invalidateEntry :: "slot_info \<Rightarrow> nat \<Rightarrow> 'k in_mem_hash_index \<Rightarrow> 'k in_mem_hash_index res" where
  "invalidateEntry info entryPos x =
     bindR (getSlot info x) (\<lambda>s. setSlot info (s\<lparr>slotHeader := setEntryInvalid entryPos (slotHeader s)\<rparr>) x)"

definition index_insert :: "('k \<Rightarrow> u64) \<Rightarrow> 'k \<Rightarrow> slot_info \<Rightarrow> nat \<Rightarrow> u64 \<Rightarrow> 8 word \<Rightarrow> 'k in_mem_hash_index \<Rightarrow> 'k in_mem_hash_index res" where
  "index_insert hash k info entryPos v fingerprint x =
     bindR (assertR (getFingerprintForHash (hash k) = fingerprint)) (\<lambda>_. putEntry info entryPos (k, v) fingerprint x)"

subsection \<open>Overflow slots\<close>

definition allocatePSlots :: "nat \<Rightarrow> 'k \<Rightarrow> nat \<Rightarrow> 'k in_mem_hash_index \<Rightarrow> 'k in_mem_hash_index" where
  "allocatePSlots cap k0 n x = x\<lparr>pSlots := pSlots x @ replicate n (Slot_new cap k0)\<rparr>"

definition allocateAOSlot :: "nat \<Rightarrow> 'k \<Rightarrow> 'k in_mem_hash_index \<Rightarrow> ('k in_mem_hash_index \<times> nat) res" where
  "allocateAOSlot cap k0 x =
     (case firstFreeOverflowSlotId (indexHeader x) of
        None \<Rightarrow> Inr (x\<lparr>oSlots := oSlots x @ [Slot_new cap k0]\<rparr>, length (oSlots x))
      | Some freeOSlotId \<Rightarrow>
          bindR (nthR (oSlots x) freeOSlotId) (\<lambda>slot.
          let x = x\<lparr>indexHeader := (indexHeader x)\<lparr>firstFreeOverflowSlotId := nextOvfSlotId (slotHeader slot)\<rparr>\<rparr> in
          bindR (assertR (slot_numEntries (slotHeader slot) = 0)) (\<lambda>_.
          bindR (setNextOvf (OvfSlot freeOSlotId) None x) (\<lambda>x.
          bindR (assertR (numFreeSlots x > 0)) (\<lambda>_.
          Inr (x\<lparr>numFreeSlots := numFreeSlots x - 1\<rparr>, freeOSlotId))))))"

definition addFreeOverflowSlot :: "nat \<Rightarrow> 'k in_mem_hash_index \<Rightarrow> 'k in_mem_hash_index res" where
  "addFreeOverflowSlot slotId x =
     bindR (getSlot (OvfSlot slotId) x) (\<lambda>s.
     bindR (assertR (nextOvfSlotId (slotHeader s) = None)) (\<lambda>_.
     bindR (setNextOvf (OvfSlot slotId) (firstFreeOverflowSlotId (indexHeader x)) x) (\<lambda>x.
     Inr (x\<lparr>indexHeader := (indexHeader x)\<lparr>firstFreeOverflowSlotId := Some slotId\<rparr>, numFreeSlots := numFreeSlots x + 1\<rparr>))))"

lemma bindP_bind: "bindP m f = Option.bind m (case_sum (\<lambda>e. Some (Inl e)) f)"
  by (auto simp: bindP_def split: option.split sum.split)

lemma bindP_mono [partial_function_mono]:
  "mono_option B \<Longrightarrow> (\<And>y. mono_option (\<lambda>f. C y f)) \<Longrightarrow> mono_option (\<lambda>f. bindP (B f) (\<lambda>y. C y f))"
proof -
  assume B: "mono_option B" and C: "\<And>y. mono_option (\<lambda>f. C y f)"
  have "mono_option (\<lambda>f. case_sum (\<lambda>e. Some (Inl e)) (\<lambda>y. C y f) y)" for y
    using C by (cases y) (simp_all add: option.const_mono)
  from bind_mono [OF B this] show ?thesis unfolding bindP_bind .
qed

text \<open>The bound of the loop is computed again in every round, while \<^verbatim>\<open>numFreeSlots\<close> grows.\<close>

function addNewFreeSlots :: "nat \<Rightarrow> nat \<Rightarrow> nat \<Rightarrow> 'k in_mem_hash_index \<Rightarrow> 'k in_mem_hash_index res" where
  "addNewFreeSlots required i newSlotId x =
     (if i < required - numFreeSlots x then
        bindR (addFreeOverflowSlot newSlotId x) (\<lambda>x. addNewFreeSlots required (i + 1) (newSlotId + 1) x)
      else Inr x)"
  by pat_completeness auto

termination addNewFreeSlots
  by (relation "measure (\<lambda>(required, i, _, _). required - i)") auto

declare addNewFreeSlots.simps [simp del]

definition reserveOverflowSlots :: "nat \<Rightarrow> 'k \<Rightarrow> nat \<Rightarrow> 'k in_mem_hash_index \<Rightarrow> 'k in_mem_hash_index res" where
  "reserveOverflowSlots cap k0 totalSlotsRequired x =
     (let newSlotId = length (oSlots x) in
      if totalSlotsRequired > numFreeSlots x then
        let x = x\<lparr>oSlots := oSlots x @ replicate (totalSlotsRequired - numFreeSlots x) (Slot_new cap k0)\<rparr> in
        addNewFreeSlots totalSlotsRequired 0 newSlotId x
      else Inr x)"

partial_function (option) countSlots :: "slot_info \<Rightarrow> nat \<Rightarrow> 'k in_mem_hash_index \<Rightarrow> nat res option" where
  "countSlots info counted x =
     bindP (Some (nextChainedSlot info x)) (\<lambda>n. case n of None \<Rightarrow> Some (Inr counted) | Some info \<Rightarrow> countSlots info (counted + 1) x)"

text \<open>\<^verbatim>\<open>reclaimOverflowSlots\<close>: the last slot that is kept and the first empty one after it, then freeing.\<close>

partial_function (option) skipNonEmptySlots :: "slot_info \<Rightarrow> slot_info \<Rightarrow> 'k in_mem_hash_index \<Rightarrow> (slot_info \<times> slot_info option) res option" where
  "skipNonEmptySlots lastNonEmpty info x =
     bindP (Some (getSlot info x)) (\<lambda>s.
     if slot_numEntries (slotHeader s) > 0 \<or> (case info of PrimarySlot _ \<Rightarrow> True | OvfSlot _ \<Rightarrow> False) then
       bindP (Some (nextChainedSlot info x)) (\<lambda>n.
       case n of None \<Rightarrow> Some (Inr (info, None)) | Some info' \<Rightarrow> skipNonEmptySlots info info' x)
     else Some (Inr (lastNonEmpty, Some info)))"

definition clearNextOverflowAndAdvanceIter :: "slot_info \<Rightarrow> 'k in_mem_hash_index \<Rightarrow> ('k in_mem_hash_index \<times> slot_info option) res" where
  "clearNextOverflowAndAdvanceIter info x =
     bindR (getSlot info x) (\<lambda>s.
     bindR (setNextOvf info None x) (\<lambda>x.
     Inr (x, map_option OvfSlot (nextOvfSlotId (slotHeader s)))))"

partial_function (option) freeSlotsFrom :: "slot_info option \<Rightarrow> 'k in_mem_hash_index \<Rightarrow> 'k in_mem_hash_index res option" where
  "freeSlotsFrom iter x =
     (case iter of
        None \<Rightarrow> Some (Inr x)
      | Some info \<Rightarrow>
          bindP (Some (bindR (getSlot info x) (\<lambda>s. assertR (slot_numEntries (slotHeader s) = 0)))) (\<lambda>_.
          bindP (Some (clearNextOverflowAndAdvanceIter info x)) (\<lambda>(x, iter).
          bindP (Some (case info of PrimarySlot _ \<Rightarrow> Inr x | OvfSlot i \<Rightarrow> addFreeOverflowSlot i x)) (\<lambda>x.
          freeSlotsFrom iter x))))"

definition reclaimOverflowSlots :: "slot_info \<Rightarrow> 'k in_mem_hash_index \<Rightarrow> 'k in_mem_hash_index res option" where
  "reclaimOverflowSlots info x =
     bindP (Some (getSlot info x)) (\<lambda>s.
     if nextOvfSlotId (slotHeader s) \<noteq> None then
       bindP (skipNonEmptySlots info info x) (\<lambda>(lastNonEmpty, iter).
       bindP (Some (setNextOvf lastNonEmpty None x)) (\<lambda>x. freeSlotsFrom iter x))
     else Some (Inr x))"

subsection \<open>Splitting a slot\<close>

record 'k split_state =
  splitIndex :: "'k in_mem_hash_index"
  originalSlot :: slot_info
  originalSlotForInsert :: slot_info
  entryPosToInsert :: nat
  newSlot :: slot_info
  newSlotPos :: nat
  gaps :: bool

partial_function (option) advanceToGap :: "nat \<Rightarrow> 'k in_mem_hash_index \<Rightarrow> slot_info \<Rightarrow> nat \<Rightarrow> (slot_info \<times> nat) res option" where
  "advanceToGap cap x info entryPos =
     bindP (Some (getSlot info x)) (\<lambda>s.
     if isEntryValid entryPos (slotHeader s) then
       (if entryPos + 1 \<ge> cap then
          bindP (Some (nextChainedSlot info x)) (\<lambda>n.
          case n of None \<Rightarrow> Some (Inl AssertFail) | Some info \<Rightarrow> advanceToGap cap x info 0)
        else advanceToGap cap x info (entryPos + 1))
     else Some (Inr (info, entryPos)))"

definition moveToNewSlot :: "nat \<Rightarrow> 'k \<Rightarrow> nat \<Rightarrow> 'k slot_entry \<Rightarrow> 8 word \<Rightarrow> 'k split_state \<Rightarrow> 'k split_state res" where
  "moveToNewSlot cap k0 entryPos e fingerprint st =
     bindR (if newSlotPos st \<ge> cap then
              bindR (allocateAOSlot cap k0 (splitIndex st)) (\<lambda>(x, newOvfSlotId).
              bindR (setNextOvf (newSlot st) (Some newOvfSlotId) x) (\<lambda>x.
              bindR (nextChainedSlot (newSlot st) x) (\<lambda>n.
              case n of None \<Rightarrow> Inl AssertFail
              | Some info \<Rightarrow> Inr (st\<lparr>splitIndex := x, newSlot := info, newSlotPos := 0\<rparr>))))
            else Inr st) (\<lambda>st.
     bindR (putEntry (newSlot st) (newSlotPos st) e fingerprint (splitIndex st)) (\<lambda>x.
     bindR (invalidateEntry (originalSlot st) entryPos x) (\<lambda>x.
     Inr (st\<lparr>splitIndex := x, newSlotPos := newSlotPos st + 1, gaps := True\<rparr>))))"

definition moveToGap :: "nat \<Rightarrow> nat \<Rightarrow> 'k slot_entry \<Rightarrow> 8 word \<Rightarrow> 'k split_state \<Rightarrow> 'k split_state res option" where
  "moveToGap cap entryPos e fingerprint st =
     bindP (advanceToGap cap (splitIndex st) (originalSlotForInsert st) (entryPosToInsert st)) (\<lambda>(info, pos).
     Some (bindR (putEntry info pos e fingerprint (splitIndex st)) (\<lambda>x.
           bindR (invalidateEntry (originalSlot st) entryPos x) (\<lambda>x.
           Inr (st\<lparr>splitIndex := x, originalSlotForInsert := info, entryPosToInsert := pos\<rparr>)))))"

text \<open>One round of the inner loop; the second component says that the function returns.\<close>

definition splitEntry :: "nat \<Rightarrow> 'k \<Rightarrow> ('k \<Rightarrow> u64) \<Rightarrow> nat \<Rightarrow> 'k split_state \<Rightarrow> ('k split_state \<times> bool) res option" where
  "splitEntry cap k0 hash entryPos st =
     bindP (Some (getSlot (originalSlot st) (splitIndex st))) (\<lambda>s.
     if \<not> isEntryValid entryPos (slotHeader s) then
       bindP (Some (assertR (slot_numEntries (slotHeader s) = countr_one (validityMask (slotHeader s))))) (\<lambda>_. Some (Inr (st, True)))
     else
       bindP (Some (nthR (slotEntries s) entryPos)) (\<lambda>e.
       let h = hash (fst e); fingerprint = getFingerprintForHash h;
           newSlotId = unat (h AND higherLevelHashMask (indexHeader (splitIndex st))) in
       if newSlotId \<noteq> nextSplitSlotId (indexHeader (splitIndex st)) then
         bindP (Some (moveToNewSlot cap k0 entryPos e fingerprint st)) (\<lambda>st. Some (Inr (st, False)))
       else if gaps st then bindP (moveToGap cap entryPos e fingerprint st) (\<lambda>st. Some (Inr (st, False)))
       else Some (Inr (st, False))))"

fun splitEntries :: "nat \<Rightarrow> 'k \<Rightarrow> ('k \<Rightarrow> u64) \<Rightarrow> nat list \<Rightarrow> 'k split_state \<Rightarrow> ('k split_state \<times> bool) res option" where
  "splitEntries cap k0 hash [] st = Some (Inr (st, False))"
| "splitEntries cap k0 hash (p # ps) st =
     bindP (splitEntry cap k0 hash p st) (\<lambda>(st, returned). if returned then Some (Inr (st, True)) else splitEntries cap k0 hash ps st)"

partial_function (option) splitLoop :: "nat \<Rightarrow> 'k \<Rightarrow> ('k \<Rightarrow> u64) \<Rightarrow> 'k split_state \<Rightarrow> 'k split_state res option" where
  "splitLoop cap k0 hash st =
     bindP (splitEntries cap k0 hash [0..<cap] st) (\<lambda>(st, returned).
     if returned then Some (Inr st)
     else
       bindP (Some (bindR (getSlot (originalSlot st) (splitIndex st)) (\<lambda>s.
         assertR (slot_numEntries (slotHeader s) = countr_one (validityMask (slotHeader s)))))) (\<lambda>_.
       bindP (Some (nextChainedSlot (originalSlot st) (splitIndex st))) (\<lambda>n.
       case n of None \<Rightarrow> Some (Inr st) | Some info \<Rightarrow> splitLoop cap k0 hash (st\<lparr>originalSlot := info\<rparr>))))"

definition splitSlot :: "nat \<Rightarrow> 'k \<Rightarrow> ('k \<Rightarrow> u64) \<Rightarrow> 'k in_mem_hash_index \<Rightarrow> 'k in_mem_hash_index res option" where
  "splitSlot cap k0 hash x =
     (let x = allocatePSlots cap k0 1 x; info = PrimarySlot (nextSplitSlotId (indexHeader x)) in
      bindP (countSlots info 1 x) (\<lambda>n.
      bindP (Some (reserveOverflowSlots cap k0 n x)) (\<lambda>x.
      bindP (splitLoop cap k0 hash \<lparr>splitIndex = x, originalSlot = info, originalSlotForInsert = info, entryPosToInsert = 0,
               newSlot = PrimarySlot (length (pSlots x) - 1), newSlotPos = 0, gaps = False\<rparr>) (\<lambda>st.
      bindP (reclaimOverflowSlots (originalSlotForInsert st) (splitIndex st)) (\<lambda>x.
      Some (Inr (x\<lparr>indexHeader := incrementNextSplitSlotId (indexHeader x)\<rparr>)))))))"

subsection \<open>Growing\<close>

text \<open>The source doubles in 32 bits, which does not wrap as long as there are fewer than \<open>2 ^ 31\<close> slots.\<close>

function raiseLevel :: "nat \<Rightarrow> nat \<Rightarrow> hash_index_header \<Rightarrow> hash_index_header \<times> nat" where
  "raiseLevel newNumSlots numSlotsOfCurrentLevel h =
     (if 0 < numSlotsOfCurrentLevel \<and> 2 * numSlotsOfCurrentLevel \<le> newNumSlots
      then raiseLevel newNumSlots (2 * numSlotsOfCurrentLevel) (incrementLevel h)
      else (h, numSlotsOfCurrentLevel))"
  by pat_completeness auto

termination raiseLevel
  by (relation "measure (\<lambda>(n, m, _). n - m)") auto

declare raiseLevel.simps [simp del]

definition allocateSlots :: "nat \<Rightarrow> 'k \<Rightarrow> nat \<Rightarrow> 'k in_mem_hash_index \<Rightarrow> 'k in_mem_hash_index" where
  "allocateSlots cap k0 newNumSlots x =
     (let existingSlots = length (pSlots x);
          x = (if newNumSlots > existingSlots then allocatePSlots cap k0 (newNumSlots - existingSlots) x else x);
          (h, numSlotsOfCurrentLevel) = raiseLevel newNumSlots (2 ^ currentLevel (indexHeader x)) (indexHeader x);
          h = (if newNumSlots \<ge> numSlotsOfCurrentLevel then h\<lparr>nextSplitSlotId := newNumSlots - numSlotsOfCurrentLevel\<rparr> else h) in
      x\<lparr>indexHeader := h\<rparr>)"

partial_function (option) splitUntil :: "nat \<Rightarrow> 'k \<Rightarrow> ('k \<Rightarrow> u64) \<Rightarrow> nat \<Rightarrow> 'k in_mem_hash_index \<Rightarrow> 'k in_mem_hash_index res option" where
  "splitUntil cap k0 hash numRequiredSlots x =
     (if length (pSlots x) < numRequiredSlots
      then bindP (splitSlot cap k0 hash x) (\<lambda>x. splitUntil cap k0 hash numRequiredSlots x)
      else Some (Inr x))"

text \<open>The numbers of entries and of slots are passed as 32-bit integers.\<close>

definition index_reserve :: "nat \<Rightarrow> 'k \<Rightarrow> ('k \<Rightarrow> u64) \<Rightarrow> u32 \<Rightarrow> 'k in_mem_hash_index \<Rightarrow> 'k in_mem_hash_index res option" where
  "index_reserve cap k0 hash n x =
     (let numRequiredEntries = getNumRequiredEntries (unat n);
          numRequiredSlots = (numRequiredEntries + cap - 1) div cap in
      if numRequiredSlots \<le> length (pSlots x) then Some (Inr x)
      else if numEntries (indexHeader x) = 0 then Some (Inr (allocateSlots cap k0 (unat (of_nat numRequiredSlots :: u32)) x))
      else splitUntil cap k0 hash numRequiredSlots x)"

definition InMemHashIndex_new :: "nat \<Rightarrow> 'k \<Rightarrow> nat \<Rightarrow> 'k in_mem_hash_index" where
  "InMemHashIndex_new cap k0 slotsPerPage =
     allocateSlots cap k0 slotsPerPage \<lparr>pSlots = [], oSlots = [], indexHeader = HashIndexHeader_new, numFreeSlots = 0\<rparr>"

definition index_clear :: "nat \<Rightarrow> 'k \<Rightarrow> nat \<Rightarrow> 'k in_mem_hash_index \<Rightarrow> 'k in_mem_hash_index" where
  "index_clear cap k0 slotsPerPage x =
     allocateSlots cap k0 slotsPerPage (x\<lparr>indexHeader := HashIndexHeader_new, pSlots := [], oSlots := []\<rparr>)"

definition reserveSpaceForAppend :: "nat \<Rightarrow> 'k \<Rightarrow> ('k \<Rightarrow> u64) \<Rightarrow> nat \<Rightarrow> 'k in_mem_hash_index \<Rightarrow> 'k in_mem_hash_index res option" where
  "reserveSpaceForAppend cap k0 hash numNewEntries x = index_reserve cap k0 hash (of_nat (numEntries (indexHeader x) + numNewEntries)) x"

subsection \<open>Lookup, insertion and deletion\<close>

text \<open>The first position of a list at which a test that can fail holds.\<close>

fun findR :: "(nat \<Rightarrow> bool res) \<Rightarrow> nat list \<Rightarrow> nat option res" where
  "findR P [] = Inr None"
| "findR P (p # ps) = bindR (P p) (\<lambda>b. if b then Inr (Some p) else findR P ps)"

text \<open>
  Keys are compared by equality, as \<^verbatim>\<open>operator==\<close> does for integers and strings. For the instances
  with \<^verbatim>\<open>double\<close> and \<^verbatim>\<open>float\<close> keys this leaves out the values that are not a number,
  which differ from themselves.
\<close>

definition entryMatches :: "'k \<Rightarrow> 8 word \<Rightarrow> (u64 \<Rightarrow> bool) \<Rightarrow> 'k slot \<Rightarrow> nat \<Rightarrow> bool res" where
  "entryMatches k fingerprint vis s p =
     bindR (nthR (fingerprints (slotHeader s)) p) (\<lambda>fp.
     if fp \<noteq> fingerprint then Inr False
     else bindR (nthR (slotEntries s) p) (\<lambda>e. Inr (fst e = k \<and> vis (snd e))))"

partial_function (option) findEntry ::
  "nat \<Rightarrow> 'k \<Rightarrow> 8 word \<Rightarrow> (u64 \<Rightarrow> bool) \<Rightarrow> 'k in_mem_hash_index \<Rightarrow> slot_info \<Rightarrow> (slot_info \<times> nat option) res option" where
  "findEntry cap k fingerprint vis x info =
     bindP (Some (getSlot info x)) (\<lambda>s.
     bindP (Some (assertR (slot_numEntries (slotHeader s) = countr_one (validityMask (slotHeader s))))) (\<lambda>_.
     bindP (Some (findR (entryMatches k fingerprint vis s) [0..<slot_numEntries (slotHeader s)])) (\<lambda>found.
     if found \<noteq> None \<or> slot_numEntries (slotHeader s) < cap then Some (Inr (info, found))
     else
       bindP (Some (nextChainedSlot info x)) (\<lambda>n.
       case n of None \<Rightarrow> Some (Inr (info, None)) | Some info \<Rightarrow> findEntry cap k fingerprint vis x info))))"

definition index_lookup :: "nat \<Rightarrow> ('k \<Rightarrow> u64) \<Rightarrow> 'k \<Rightarrow> (u64 \<Rightarrow> bool) \<Rightarrow> 'k in_mem_hash_index \<Rightarrow> u64 option res option" where
  "index_lookup cap hash k vis x =
     (if numEntries (indexHeader x) = 0 then Some (Inr None)
      else
        let slotId = getPrimarySlotIdForHash (indexHeader x) (hash k) in
        bindP (findEntry cap k (getFingerprintForHash (hash k)) vis x (PrimarySlot slotId)) (\<lambda>(info, found).
        case found of
          None \<Rightarrow> Some (Inr None)
        | Some p \<Rightarrow> Some (bindR (getSlot info x) (\<lambda>s. bindR (nthR (slotEntries s) p) (\<lambda>e. Inr (Some (snd e)))))))"

definition insertToNewOvfSlot :: "nat \<Rightarrow> 'k \<Rightarrow> ('k \<Rightarrow> u64) \<Rightarrow> 'k \<Rightarrow> slot_info \<Rightarrow> u64 \<Rightarrow> 8 word \<Rightarrow> 'k in_mem_hash_index \<Rightarrow> 'k in_mem_hash_index res" where
  "insertToNewOvfSlot cap k0 hash k previousSlot v fingerprint x =
     bindR (allocateAOSlot cap k0 x) (\<lambda>(x, newSlotId).
     bindR (setNextOvf previousSlot (Some newSlotId) x) (\<lambda>x.
     index_insert hash k (OvfSlot newSlotId) 0 v fingerprint x))"

definition countEntry :: "'k in_mem_hash_index \<Rightarrow> 'k in_mem_hash_index" where
  "countEntry x = x\<lparr>indexHeader := (indexHeader x)\<lparr>numEntries := numEntries (indexHeader x) + 1\<rparr>\<rparr>"

definition appendInternal :: "nat \<Rightarrow> 'k \<Rightarrow> ('k \<Rightarrow> u64) \<Rightarrow> 'k \<Rightarrow> u64 \<Rightarrow> (u64 \<Rightarrow> bool) \<Rightarrow> 'k in_mem_hash_index \<Rightarrow> ('k in_mem_hash_index \<times> bool) res option" where
  "appendInternal cap k0 hash k v vis x =
     (let fingerprint = getFingerprintForHash (hash k);
          slotId = getPrimarySlotIdForHash (indexHeader x) (hash k) in
      bindP (findEntry cap k fingerprint vis x (PrimarySlot slotId)) (\<lambda>(info, found).
      bindP (Some (getSlot info x)) (\<lambda>s.
      if found \<noteq> None then Some (Inr (x, False))
      else if slot_numEntries (slotHeader s) < cap then
        Some (bindR (index_insert hash k info (slot_numEntries (slotHeader s)) v fingerprint x) (\<lambda>x. Inr (countEntry x, True)))
      else Some (bindR (insertToNewOvfSlot cap k0 hash k info v fingerprint x) (\<lambda>x. Inr (countEntry x, True))))))"

definition index_append :: "nat \<Rightarrow> 'k \<Rightarrow> ('k \<Rightarrow> u64) \<Rightarrow> 'k \<Rightarrow> u64 \<Rightarrow> (u64 \<Rightarrow> bool) \<Rightarrow> 'k in_mem_hash_index \<Rightarrow> ('k in_mem_hash_index \<times> bool) res option" where
  "index_append cap k0 hash k v vis x =
     bindP (index_reserve cap k0 hash (of_nat (numEntries (indexHeader x) + 1)) x) (appendInternal cap k0 hash k v vis)"

fun appendEach :: "nat \<Rightarrow> 'k \<Rightarrow> ('k \<Rightarrow> u64) \<Rightarrow> 'k slot_entry list \<Rightarrow> (u64 \<Rightarrow> bool) \<Rightarrow> nat \<Rightarrow> 'k in_mem_hash_index \<Rightarrow> ('k in_mem_hash_index \<times> nat) res option" where
  "appendEach cap k0 hash [] vis done' x = Some (Inr (x, done'))"
| "appendEach cap k0 hash ((k, v) # es) vis done' x =
     bindP (appendInternal cap k0 hash k v vis x) (\<lambda>(x, ok). if ok then appendEach cap k0 hash es vis (done' + 1) x else Some (Inr (x, done')))"

text \<open>
  The offset is at most the size of the buffer, as it is in the calls: it counts the entries of the buffer
  that were appended before. Beyond that the unsigned difference of the source would wrap.
\<close>

definition index_appendBuffer ::
 "nat \<Rightarrow> 'k \<Rightarrow> ('k \<Rightarrow> u64) \<Rightarrow> 'k slot_entry list \<Rightarrow> nat \<Rightarrow> (u64 \<Rightarrow> bool) \<Rightarrow> 'k in_mem_hash_index \<Rightarrow> ('k in_mem_hash_index \<times> nat) res option" where
  "index_appendBuffer cap k0 hash buffer bufferOffset vis x =
     bindP (index_reserve cap k0 hash (of_nat (numEntries (indexHeader x) + length buffer - bufferOffset)) x) (\<lambda>x.
     appendEach cap k0 hash (drop bufferOffset buffer) vis 0 x)"

definition deletableEntry :: "'k \<Rightarrow> 8 word \<Rightarrow> 'k slot \<Rightarrow> nat \<Rightarrow> bool res" where
  "deletableEntry k fingerprint s p =
     (if isEntryValid p (slotHeader s) then entryMatches k fingerprint (\<lambda>_. True) s p else Inr False)"

partial_function (option) findToDelete ::
  "nat \<Rightarrow> 'k \<Rightarrow> 8 word \<Rightarrow> 'k in_mem_hash_index \<Rightarrow> slot_info \<Rightarrow> (slot_info \<times> nat option) res option" where
  "findToDelete cap k fingerprint x info =
     bindP (Some (getSlot info x)) (\<lambda>s.
     bindP (Some (findR (deletableEntry k fingerprint s) [0..<cap])) (\<lambda>found.
     if found \<noteq> None then Some (Inr (info, found))
     else
       bindP (Some (nextChainedSlot info x)) (\<lambda>n.
       case n of None \<Rightarrow> Some (Inr (info, None)) | Some info \<Rightarrow> findToDelete cap k fingerprint x info)))"

partial_function (option) lastChainedSlot :: "'k in_mem_hash_index \<Rightarrow> slot_info \<Rightarrow> slot_info res option" where
  "lastChainedSlot x info =
     bindP (Some (nextChainedSlot info x)) (\<lambda>n. case n of None \<Rightarrow> Some (Inr info) | Some info \<Rightarrow> lastChainedSlot x info)"

text \<open>The deleted entry is replaced by the last one of the chain. \<^verbatim>\<open>numEntries\<close> of the index stays as it is.\<close>

definition removeEntry :: "slot_info \<Rightarrow> nat \<Rightarrow> slot_info \<Rightarrow> 'k in_mem_hash_index \<Rightarrow> 'k in_mem_hash_index res" where
  "removeEntry info deletedPos newInfo x =
     bindR (getSlot newInfo x) (\<lambda>s.
     let n = slot_numEntries (slotHeader s) in
     if newInfo \<noteq> info \<or> n = 0 \<or> deletedPos \<noteq> n - 1 then
       bindR (assertR (n > 0)) (\<lambda>_.
       bindR (nthR (slotEntries s) (n - 1)) (\<lambda>e.
       bindR (nthR (fingerprints (slotHeader s)) (n - 1)) (\<lambda>fp.
       bindR (putEntry info deletedPos e fp x) (\<lambda>x. invalidateEntry newInfo (n - 1) x))))
     else invalidateEntry info deletedPos x)"

definition deleteKey :: "nat \<Rightarrow> ('k \<Rightarrow> u64) \<Rightarrow> 'k \<Rightarrow> 'k in_mem_hash_index \<Rightarrow> ('k in_mem_hash_index \<times> bool) res option" where
  "deleteKey cap hash k x =
     (if numEntries (indexHeader x) = 0 then Some (Inr (x, False))
      else
        let slotId = getPrimarySlotIdForHash (indexHeader x) (hash k) in
        bindP (findToDelete cap k (getFingerprintForHash (hash k)) x (PrimarySlot slotId)) (\<lambda>(info, found).
        case found of
          None \<Rightarrow> Some (Inr (x, False))
        | Some deletedPos \<Rightarrow>
            bindP (lastChainedSlot x info) (\<lambda>newInfo.
            bindP (Some (removeEntry info deletedPos newInfo x)) (\<lambda>x.
            bindP (Some (getSlot newInfo x)) (\<lambda>s.
            bindP (if slot_numEntries (slotHeader s) = 0 then reclaimOverflowSlots (PrimarySlot slotId) x else Some (Inr x)) (\<lambda>x.
            Some (Inr (x, True))))))))"

end
