(* ===== verification/Hash_Chains.thy ===== *)
theory Hash_Chains
  imports Hash_Index
begin

text \<open>
  The slots of the in-memory hash index as chains: the cells of a slot, the two vectors as memory, chains
  of slots and what the walks of the index find on them, the list of free slots and the chains of all
  primary slots together, which the operations on one chain keep apart.
\<close>

section \<open>Slots as rows of cells\<close>

text \<open>A cell of a slot is empty or holds an entry with its fingerprint.\<close>

type_synonym 'k cell = "('k slot_entry \<times> 8 word) option"

definition slotCells :: "'k slot \<Rightarrow> 'k cell list" where
  "slotCells s = map (\<lambda>p. if bit (validityMask (slotHeader s)) p then Some (slotEntries s ! p, fingerprints (slotHeader s) ! p) else None)
     [0..<length (slotEntries s)]"

definition slot_ok :: "nat \<Rightarrow> 'k slot \<Rightarrow> bool" where
  "slot_ok cap s \<longleftrightarrow> length (slotEntries s) = cap \<and> length (fingerprints (slotHeader s)) = FINGERPRINT_CAPACITY
     \<and> (\<forall>p \<ge> cap. \<not> bit (validityMask (slotHeader s)) p)"

definition nextId :: "'k slot \<Rightarrow> nat option" where
  "nextId s = nextOvfSlotId (slotHeader s)"

definition writeCell :: "nat \<Rightarrow> 'k slot_entry \<Rightarrow> 8 word \<Rightarrow> 'k slot \<Rightarrow> 'k slot" where
  "writeCell p e fp s = \<lparr>slotHeader = (slotHeader s)\<lparr>validityMask := validityMask (slotHeader s) OR push_bit p 1, fingerprints := (fingerprints (slotHeader s))[p := fp]\<rparr>,
     slotEntries = (slotEntries s)[p := e]\<rparr>"

definition clearCell :: "nat \<Rightarrow> 'k slot \<Rightarrow> 'k slot" where
  "clearCell p s = s\<lparr>slotHeader := setEntryInvalid p (slotHeader s)\<rparr>"

definition linkSlot :: "nat option \<Rightarrow> 'k slot \<Rightarrow> 'k slot" where
  "linkSlot nxt s = s\<lparr>slotHeader := (slotHeader s)\<lparr>nextOvfSlotId := nxt\<rparr>\<rparr>"

lemma isEntryValid_bit: "isEntryValid p h \<longleftrightarrow> bit (validityMask h) p"
  by (simp add: isEntryValid_def bit_iff_and_push_bit_not_eq_0)

lemma length_slotCells [simp]: "length (slotCells s) = length (slotEntries s)"
  by (simp add: slotCells_def)

lemma nth_slotCells [simp]:
  "p < length (slotEntries s) \<Longrightarrow> slotCells s ! p = (if bit (validityMask (slotHeader s)) p then Some (slotEntries s ! p, fingerprints (slotHeader s) ! p) else None)"
  by (simp add: slotCells_def)

lemma slot_ok_cap: "slot_ok cap s \<Longrightarrow> length (slotEntries s) = cap" "slot_ok cap s \<Longrightarrow> length (fingerprints (slotHeader s)) = 20"
  by (simp_all add: slot_ok_def FINGERPRINT_CAPACITY_def)

lemma takeWhile_append_none: "\<forall>y \<in> set ys. \<not> P y \<Longrightarrow> takeWhile P (xs @ ys) = takeWhile P xs"
  by (induction xs) (auto simp: takeWhile_eq_Nil_iff)

lemma bits_below:
  assumes "slot_ok cap s" "cap \<le> 20"
  shows "filter (bit (validityMask (slotHeader s))) [0..<32] = filter (bit (validityMask (slotHeader s))) [0..<cap]"
    "takeWhile (bit (validityMask (slotHeader s))) [0..<32] = takeWhile (bit (validityMask (slotHeader s))) [0..<cap]"
proof -
  have split: "[0..<32] = [0..<cap] @ [cap..<32]" using assms(2) upt_add_eq_append [of 0 cap "32 - cap"] by simp
  have none: "\<not> bit (validityMask (slotHeader s)) p" if "p \<in> set [cap..<32]" for p using that assms(1) by (auto simp: slot_ok_def)
  show "filter (bit (validityMask (slotHeader s))) [0..<32] = filter (bit (validityMask (slotHeader s))) [0..<cap]"
    unfolding split using none by (auto simp: filter_empty_conv)
  show "takeWhile (bit (validityMask (slotHeader s))) [0..<32] = takeWhile (bit (validityMask (slotHeader s))) [0..<cap]"
    unfolding split using none by (intro takeWhile_append_none) auto
qed

lemma slot_numEntries_cells:
  assumes "slot_ok cap s" "cap \<le> 20"
  shows "slot_numEntries (slotHeader s) = length (filter (\<lambda>c. c \<noteq> None) (slotCells s))"
proof -
  have "filter (\<lambda>c. c \<noteq> None) (slotCells s) = map (\<lambda>p. Some (slotEntries s ! p, fingerprints (slotHeader s) ! p)) (filter (bit (validityMask (slotHeader s))) [0..<cap])"
    using slot_ok_cap [OF assms(1)] by (auto simp: slotCells_def filter_map comp_def intro!: map_cong filter_cong)
  then show ?thesis using bits_below(1) [OF assms] by (simp add: slot_numEntries_def)
qed

lemma countr_one_cells:
  assumes "slot_ok cap s" "cap \<le> 20"
  shows "countr_one (validityMask (slotHeader s)) = length (takeWhile (\<lambda>c. c \<noteq> None) (slotCells s))"
proof -
  have "takeWhile (\<lambda>c. c \<noteq> None) (slotCells s) = map (\<lambda>p. if bit (validityMask (slotHeader s)) p then Some (slotEntries s ! p, fingerprints (slotHeader s) ! p) else None)
      (takeWhile (bit (validityMask (slotHeader s))) [0..<cap])"
    using slot_ok_cap [OF assms(1)] by (simp add: slotCells_def takeWhile_map comp_def if_distrib cong: if_cong)
  then show ?thesis using bits_below(2) [OF assms] by (simp add: countr_one_def)
qed

lemma cell_updates:
  assumes "slot_ok cap s" "cap \<le> 20" "p < cap"
  shows "slotCells (writeCell p e fp s) = (slotCells s)[p := Some (e, fp)]" "slot_ok cap (writeCell p e fp s)" "nextId (writeCell p e fp s) = nextId s"
    "slotCells (clearCell p s) = (slotCells s)[p := None]" "slot_ok cap (clearCell p s)" "nextId (clearCell p s) = nextId s"
  using assms by (auto simp: writeCell_def clearCell_def setEntryInvalid_def slot_ok_def slotCells_def nextId_def FINGERPRINT_CAPACITY_def bit_simps
      intro!: nth_equalityI simp: nth_list_update)

lemma linkSlot_simps [simp]: "slotCells (linkSlot nxt s) = slotCells s" "slot_ok cap (linkSlot nxt s) = slot_ok cap s" "nextId (linkSlot nxt s) = nxt"
  by (simp_all add: linkSlot_def slotCells_def slot_ok_def nextId_def)

lemma Slot_new_simps [simp]: "slotCells (Slot_new cap k0) = replicate cap None" "slot_ok cap (Slot_new cap k0)" "nextId (Slot_new cap k0) = None"
  by (auto simp: Slot_new_def SlotHeader_new_def slotCells_def slot_ok_def nextId_def map_replicate_const intro!: nth_equalityI)

section \<open>The vectors as memory\<close>

definition hasSlot :: "'k in_mem_hash_index \<Rightarrow> slot_info \<Rightarrow> bool" where
  "hasSlot x info = (case info of PrimarySlot i \<Rightarrow> i < length (pSlots x) | OvfSlot i \<Rightarrow> i < length (oSlots x))"

definition slotAt :: "'k in_mem_hash_index \<Rightarrow> slot_info \<Rightarrow> 'k slot" where
  "slotAt x info = (case info of PrimarySlot i \<Rightarrow> pSlots x ! i | OvfSlot i \<Rightarrow> oSlots x ! i)"

definition putSlot :: "slot_info \<Rightarrow> 'k slot \<Rightarrow> 'k in_mem_hash_index \<Rightarrow> 'k in_mem_hash_index" where
  "putSlot info s x = (case info of PrimarySlot i \<Rightarrow> x\<lparr>pSlots := (pSlots x)[i := s]\<rparr> | OvfSlot i \<Rightarrow> x\<lparr>oSlots := (oSlots x)[i := s]\<rparr>)"

lemma hasSlot_simps [simp]: "hasSlot x (PrimarySlot i) \<longleftrightarrow> i < length (pSlots x)" "hasSlot x (OvfSlot i) \<longleftrightarrow> i < length (oSlots x)"
  by (simp_all add: hasSlot_def)

lemma getSlot_in [simp]: "hasSlot x info \<Longrightarrow> getSlot info x = Inr (slotAt x info)"
  by (cases info) (simp_all add: getSlot_def slotAt_def)

lemma setSlot_in [simp]: "hasSlot x info \<Longrightarrow> setSlot info s x = Inr (putSlot info s x)"
  by (cases info) (simp_all add: setSlot_def putSlot_def)

lemma putSlot_frame [simp]:
  "hasSlot (putSlot info s x) info' = hasSlot x info'" "indexHeader (putSlot info s x) = indexHeader x" "numFreeSlots (putSlot info s x) = numFreeSlots x"
  "length (pSlots (putSlot info s x)) = length (pSlots x)" "length (oSlots (putSlot info s x)) = length (oSlots x)"
  by (cases info; cases info'; simp add: putSlot_def)+

lemma slotAt_putSlot: "hasSlot x info \<Longrightarrow> slotAt (putSlot info s x) info' = (if info' = info then s else slotAt x info')"
  by (cases info; cases info') (auto simp: putSlot_def slotAt_def)

lemma slotAt_put [simp]:
  "hasSlot x info \<Longrightarrow> slotAt (putSlot info s x) info = s" "hasSlot x info \<Longrightarrow> info' \<noteq> info \<Longrightarrow> slotAt (putSlot info s x) info' = slotAt x info'"
  by (simp_all add: slotAt_putSlot)

lemma slotAt_header [simp]: "slotAt (x\<lparr>indexHeader := h\<rparr>) = slotAt x" "slotAt (x\<lparr>numFreeSlots := n\<rparr>) = slotAt x"
    "hasSlot (x\<lparr>indexHeader := h\<rparr>) = hasSlot x" "hasSlot (x\<lparr>numFreeSlots := n\<rparr>) = hasSlot x"
  by (auto simp: slotAt_def hasSlot_def fun_eq_iff split: slot_info.splits)

lemma memory_ops:
  assumes "hasSlot x info"
  shows "setNextOvf info nxt x = Inr (putSlot info (linkSlot nxt (slotAt x info)) x)"
    "slot_ok cap (slotAt x info) \<Longrightarrow> cap \<le> 20 \<Longrightarrow> p < cap \<Longrightarrow> putEntry info p e fp x = Inr (putSlot info (writeCell p e fp (slotAt x info)) x)"
    "invalidateEntry info p x = Inr (putSlot info (clearCell p (slotAt x info)) x)"
    "nextChainedSlot info x = (if \<exists>i. info = OvfSlot i \<and> nextId (slotAt x info) = Some i then Inl AssertFail else Inr (map_option OvfSlot (nextId (slotAt x info))))"
  using assms by (auto simp: setNextOvf_def putEntry_def invalidateEntry_def nextChainedSlot_def linkSlot_def clearCell_def writeCell_def setEntryValid_def slot_ok_cap
      nextId_def assertR_def split: slot_info.splits)

section \<open>Chains\<close>

text \<open>A chain is the list of its slots; \<open>f\<close> gives its cells, numbered through all of them.\<close>

definition chain_at :: "nat \<Rightarrow> 'k in_mem_hash_index \<Rightarrow> slot_info list \<Rightarrow> (nat \<Rightarrow> 'k cell) \<Rightarrow> nat \<Rightarrow> bool" where
  "chain_at cap x L f j \<longleftrightarrow> hasSlot x (L ! j) \<and> slot_ok cap (slotAt x (L ! j))
     \<and> map_option OvfSlot (nextId (slotAt x (L ! j))) = (if j + 1 < length L then Some (L ! (j + 1)) else None)
     \<and> slotCells (slotAt x (L ! j)) = map (\<lambda>p. f (j * cap + p)) [0..<cap]"

definition slotChain :: "nat \<Rightarrow> 'k in_mem_hash_index \<Rightarrow> slot_info list \<Rightarrow> (nat \<Rightarrow> 'k cell) \<Rightarrow> bool" where
  "slotChain cap x L f \<longleftrightarrow> distinct L \<and> (\<forall>j < length L. chain_at cap x L f j)"

definition cellFn :: "'a list \<Rightarrow> nat \<Rightarrow> 'a option" where
  "cellFn es g = (if g < length es then Some (es ! g) else None)"

lemma chainD:
  assumes "slotChain cap x L f" "j < length L"
  shows "hasSlot x (L ! j)" "slot_ok cap (slotAt x (L ! j))" "slotCells (slotAt x (L ! j)) = map (\<lambda>p. f (j * cap + p)) [0..<cap]"
    "map_option OvfSlot (nextId (slotAt x (L ! j))) = (if j + 1 < length L then Some (L ! (j + 1)) else None)"
  using assms by (auto simp: slotChain_def chain_at_def)

lemma chain_next:
  assumes "slotChain cap x L f" "j < length L"
  shows "nextChainedSlot (L ! j) x = Inr (if j + 1 < length L then Some (L ! (j + 1)) else None)"
proof -
  have "False" if "L ! j = OvfSlot i" "nextId (slotAt x (L ! j)) = Some i" for i
  proof -
    have "j + 1 < length L" "L ! (j + 1) = L ! j" using chainD(4) [OF assms] that by (auto split: if_splits)
    then show False using assms by (auto simp: slotChain_def nth_eq_iff_index_eq)
  qed
  then show ?thesis using memory_ops(4) [OF chainD(1) [OF assms]] chainD(4) [OF assms] by auto
qed

lemma cell_number: "(p::nat) < cap \<Longrightarrow> p' < cap \<Longrightarrow> j * cap + p = j' * cap + p' \<longleftrightarrow> j = j' \<and> p = p'"
  by (metis div_mult_self3 add.commute add_cancel_left_left add_left_imp_eq div_less gr_zeroI less_nat_zero_code)

lemma chain_frame:
  assumes "\<And>info. info \<in> set L \<Longrightarrow> hasSlot x' info = hasSlot x info \<and> slotAt x' info = slotAt x info"
  shows "slotChain cap x' L f = slotChain cap x L f"
  using assms by (simp add: slotChain_def chain_at_def)

lemma chain_putSlot [simp]: "hasSlot x info \<Longrightarrow> info \<notin> set L \<Longrightarrow> slotChain cap (putSlot info s x) L f = slotChain cap x L f"
  by (intro chain_frame) (auto simp: slotAt_putSlot)

lemma chain_headers [simp]: "slotChain cap (x\<lparr>indexHeader := h\<rparr>) L f = slotChain cap x L f" "slotChain cap (x\<lparr>numFreeSlots := n\<rparr>) L f = slotChain cap x L f"
  by (intro chain_frame, simp)+

lemma chain_cong: "(\<And>g. g < length L * cap \<Longrightarrow> f g = f' g) \<Longrightarrow> slotChain cap x L f = slotChain cap x L f'"
proof -
  assume f: "\<And>g. g < length L * cap \<Longrightarrow> f g = f' g"
  have "j * cap + p < length L * cap" if "j < length L" "p < cap" for j p
    using that mult_le_mono1 [of "Suc j" "length L" cap] by simp
  then show ?thesis unfolding slotChain_def chain_at_def using f by (auto simp: map_eq_conv)
qed

lemma chain_set:
  assumes "slotChain cap x L f" "j < length L" "slot_ok cap s" "nextId s = nextId (slotAt x (L ! j))" "p < cap"
    "slotCells s = (slotCells (slotAt x (L ! j)))[p := c]"
  shows "slotChain cap (putSlot (L ! j) s x) L (f(j * cap + p := c))"
  unfolding slotChain_def
proof (intro conjI allI impI)
  show "distinct L" using assms(1) by (simp add: slotChain_def)
  fix j' assume j': "j' < length L"
  note D = chainD [OF assms(1) j'] and H = chainD(1) [OF assms(1,2)]
  have diff: "L ! j' = L ! j \<longleftrightarrow> j' = j" using assms(1,2) j' by (auto simp: slotChain_def nth_eq_iff_index_eq)
  show "chain_at cap (putSlot (L ! j) s x) L (f(j * cap + p := c)) j'"
  proof (cases "j' = j")
    case True
    have "slotCells s = map (\<lambda>q. (f(j * cap + p := c)) (j * cap + q)) [0..<cap]"
      using assms(5,6) chainD(3) [OF assms(1,2)] by (auto intro!: nth_equalityI simp: nth_list_update)
    then show ?thesis using True D H assms(3,4) by (simp add: chain_at_def)
  next
    case False
    then have "j' * cap + q \<noteq> j * cap + p" if "q < cap" for q using that assms(5) by (simp add: cell_number)
    then show ?thesis using False D H diff by (auto simp: chain_at_def)
  qed
qed

lemma chain_write:
  "slotChain cap x L f \<Longrightarrow> j < length L \<Longrightarrow> p < cap \<Longrightarrow> cap \<le> 20 \<Longrightarrow> slotChain cap (putSlot (L ! j) (writeCell p e fp (slotAt x (L ! j))) x) L (f(j * cap + p := Some (e, fp)))"
  using cell_updates [OF chainD(2), of cap x L f j p] by (intro chain_set) auto

lemma chain_clear:
  "slotChain cap x L f \<Longrightarrow> j < length L \<Longrightarrow> p < cap \<Longrightarrow> cap \<le> 20 \<Longrightarrow> slotChain cap (putSlot (L ! j) (clearCell p (slotAt x (L ! j))) x) L (f(j * cap + p := None))"
  using cell_updates [OF chainD(2), of cap x L f j p] by (intro chain_set) auto

text \<open>Chains are joined and cut by writing the number of the next slot.\<close>

lemma chain_join:
  assumes "slotChain cap x L f" "slotChain cap x M (\<lambda>q. f (length L * cap + q))" "L \<noteq> []" "set L \<inter> set M = {}" "map_option OvfSlot nxt = (if M = [] then None else Some (hd M))"
  shows "slotChain cap (putSlot (last L) (linkSlot nxt (slotAt x (last L))) x) (L @ M) f" (is "slotChain cap ?x _ f")
  unfolding slotChain_def
proof (intro conjI allI impI)
  show "distinct (L @ M)" using assms by (simp add: slotChain_def)
  have lastL: "last L = L ! (length L - 1)" using assms(3) by (rule last_conv_nth)
  have H: "hasSlot x (last L)" using chainD(1) [OF assms(1), of "length L - 1"] assms(3) lastL by simp
  fix j assume j: "j < length (L @ M)"
  show "chain_at cap ?x (L @ M) f j"
  proof (cases "j < length L")
    case True
    note D = chainD [OF assms(1) True]
    have diff: "L ! j = last L \<longleftrightarrow> j = length L - 1" using assms(1,3) True by (auto simp: lastL slotChain_def nth_eq_iff_index_eq)
    show ?thesis
    proof (cases "j = length L - 1")
      case last': True
      show ?thesis using last' True D H assms(3,5) unfolding chain_at_def
        by (auto simp: nth_append lastL hd_conv_nth)
    next
      case False
      then show ?thesis using True D H diff by (auto simp: chain_at_def nth_append)
    qed
  next
    case False
    then have k: "j - length L < length M" using j by simp
    note D = chainD [OF assms(2) k]
    have n: "(L @ M) ! j = M ! (j - length L)" "(L @ M) ! (j + 1) = M ! (j - length L + 1)" "j + 1 < length (L @ M) \<longleftrightarrow> j - length L + 1 < length M"
      using False k by (auto simp: nth_append Suc_diff_le)
    have "M ! (j - length L) \<noteq> last L" using nth_mem [OF k] assms(3,4) last_in_set [of L] by (metis disjoint_iff)
    then have at: "slotAt ?x ((L @ M) ! j) = slotAt x (M ! (j - length L))" using H n by (simp add: slotAt_putSlot)
    have "f (length L * cap + ((j - length L) * cap + p)) = f (j * cap + p)" for p
      using False by (metis add.assoc add_mult_distrib le_add_diff_inverse linorder_not_less)
    then have "map (\<lambda>p. f (length L * cap + ((j - length L) * cap + p))) [0..<cap] = map (\<lambda>p. f (j * cap + p)) [0..<cap]" by (simp only:)
    then show ?thesis unfolding chain_at_def n(2,3) at using D n(1) by simp
  qed
qed

lemma chain_cut:
  assumes "slotChain cap x L f" "0 < m" "m \<le> length L"
  defines "x' \<equiv> putSlot (L ! (m - 1)) (linkSlot None (slotAt x (L ! (m - 1)))) x"
  shows "slotChain cap x' (take m L) f" "slotChain cap x' (drop m L) (\<lambda>q. f (m * cap + q))"
proof -
  have dL: "distinct L" and m: "m - 1 < length L" using assms(1-3) by (simp_all add: slotChain_def)
  note H = chainD(1) [OF assms(1) m]
  have diff: "L ! j = L ! (m - 1) \<longleftrightarrow> j = m - 1" if "j < length L" for j using that m dL by (simp add: nth_eq_iff_index_eq)
  have "chain_at cap x' (take m L) f j" if j: "j < m" for j
  proof -
    have j': "j < length L" using j assms(3) by simp
    show ?thesis using chainD [OF assms(1) j'] H diff [OF j'] j assms(3) by (auto simp: x'_def chain_at_def slotAt_putSlot)
  qed
  then show "slotChain cap x' (take m L) f" using dL assms(3) by (simp add: slotChain_def)
  have "chain_at cap x' (drop m L) (\<lambda>q. f (m * cap + q)) j" if j: "j < length L - m" for j
  proof -
    have j': "m + j < length L" using j by simp
    show ?thesis using chainD [OF assms(1) j'] H diff [OF j'] j assms(2,3) by (auto simp: x'_def chain_at_def slotAt_putSlot add.assoc add_mult_distrib)
  qed
  then show "slotChain cap x' (drop m L) (\<lambda>q. f (m * cap + q))" using dL by (simp add: slotChain_def)
qed

section \<open>Walks along a chain\<close>

lemma slot_cell:
  assumes "slotChain cap x L f" "j < length L" "p < cap"
  shows "isEntryValid p (slotHeader (slotAt x (L ! j))) \<longleftrightarrow> f (j * cap + p) \<noteq> None"
    "f (j * cap + p) = Some (e, fp) \<Longrightarrow> slotEntries (slotAt x (L ! j)) ! p = e \<and> fingerprints (slotHeader (slotAt x (L ! j))) ! p = fp"
proof -
  let ?s = "slotAt x (L ! j)"
  have "length (slotEntries ?s) = cap" using slot_ok_cap chainD(2) [OF assms(1,2)] by blast
  then have "f (j * cap + p) = (if bit (validityMask (slotHeader ?s)) p then Some (slotEntries ?s ! p, fingerprints (slotHeader ?s) ! p) else None)"
    using arg_cong [OF chainD(3) [OF assms(1,2)], where f = "\<lambda>l. l ! p"] assms(3) by simp
  then show "isEntryValid p (slotHeader ?s) \<longleftrightarrow> f (j * cap + p) \<noteq> None"
    "f (j * cap + p) = Some (e, fp) \<Longrightarrow> slotEntries ?s ! p = e \<and> fingerprints (slotHeader ?s) ! p = fp"
    by (auto simp: isEntryValid_bit split: if_splits)
qed

lemma prefix_counts:
  assumes "m \<le> cap" "\<And>p. p < cap \<Longrightarrow> P p \<longleftrightarrow> p < m"
  shows "length (filter P [0..<cap]) = m" "length (takeWhile P [0..<cap]) = m"
proof -
  have split: "[0..<cap] = [0..<m] @ [m..<cap]" using assms(1) upt_add_eq_append [of 0 m "cap - m"] by simp
  have "filter P [0..<m] = [0..<m]" "filter P [m..<cap] = []" using assms by (auto simp: filter_id_conv filter_empty_conv)
  then show "length (filter P [0..<cap]) = m" unfolding split filter_append by simp
  have "takeWhile P [0..<m] = [0..<m]" "takeWhile P [m..<cap] = []" using assms by (auto simp: takeWhile_eq_all_conv takeWhile_eq_Nil_iff)
  then have "takeWhile P ([0..<m] @ [m..<cap]) = [0..<m]" by (metis append_Nil2 takeWhile_append2 takeWhile_eq_all_conv)
  then show "length (takeWhile P [0..<cap]) = m" unfolding split by simp
qed

lemma slot_counts:
  assumes "slotChain cap x L f" "j < length L" "cap \<le> 20" "m \<le> cap" "\<And>p. p < cap \<Longrightarrow> f (j * cap + p) \<noteq> None \<longleftrightarrow> p < m"
  shows "slot_numEntries (slotHeader (slotAt x (L ! j))) = m" "countr_one (validityMask (slotHeader (slotAt x (L ! j)))) = m"
  using prefix_counts [OF assms(4), of "\<lambda>p. f (j * cap + p) \<noteq> None"] assms(5)
  by (simp_all add: slot_numEntries_cells [OF chainD(2) [OF assms(1,2)] assms(3)] countr_one_cells [OF chainD(2) [OF assms(1,2)] assms(3)]
      chainD(3) [OF assms(1,2)] filter_map takeWhile_map comp_def)

lemma entry_counts:
  assumes "slotChain cap x L (cellFn es)" "j < length L" "cap \<le> 20"
  shows "slot_numEntries (slotHeader (slotAt x (L ! j))) = min cap (length es - j * cap)"
    "countr_one (validityMask (slotHeader (slotAt x (L ! j)))) = min cap (length es - j * cap)"
proof -
  have "cellFn es (j * cap + p) \<noteq> None \<longleftrightarrow> p < min cap (length es - j * cap)" if "p < cap" for p
    using that by (auto simp: cellFn_def simp del: not_None_eq)
  from slot_counts [OF assms min.cobounded1 this] show "slot_numEntries (slotHeader (slotAt x (L ! j))) = min cap (length es - j * cap)"
    "countr_one (validityMask (slotHeader (slotAt x (L ! j)))) = min cap (length es - j * cap)" by simp_all
qed

lemma slot_empty:
  assumes "slotChain cap x L f" "j < length L" "cap \<le> 20"
  shows "slot_numEntries (slotHeader (slotAt x (L ! j))) = 0 \<longleftrightarrow> (\<forall>p < cap. f (j * cap + p) = None)"
  by (simp add: slot_numEntries_cells [OF chainD(2) [OF assms(1,2)] assms(3)] chainD(3) [OF assms(1,2)] filter_empty_conv Ball_def del: not_None_eq)

lemma countSlots_chain: "slotChain cap x L f \<Longrightarrow> j < length L \<Longrightarrow> countSlots (L ! j) c x = Some (Inr (c + (length L - 1 - j)))"
proof (induction "length L - j" arbitrary: j c)
  case (Suc n)
  then show ?case using Suc.hyps(1) [of "j + 1" "c + 1"] by (subst countSlots.simps) (auto simp: chain_next)
qed simp

lemma lastChainedSlot_chain: "slotChain cap x L f \<Longrightarrow> j < length L \<Longrightarrow> lastChainedSlot x (L ! j) = Some (Inr (last L))"
proof (induction "length L - j" arbitrary: j)
  case (Suc n)
  have "last L = L ! (length L - 1)" using Suc.prems(2) by (intro last_conv_nth) auto
  moreover have "length L - 1 = j" if "\<not> j + 1 < length L" using that Suc.prems(2) by simp
  ultimately show ?case using Suc.hyps Suc.prems by (subst lastChainedSlot.simps) (auto simp: chain_next)
qed simp

text \<open>An entry that a search for a key accepts.\<close>

definition matches :: "'k \<Rightarrow> 8 word \<Rightarrow> (u64 \<Rightarrow> bool) \<Rightarrow> 'k slot_entry \<times> 8 word \<Rightarrow> bool" where
  "matches k fp vis c \<longleftrightarrow> snd c = fp \<and> fst (fst c) = k \<and> vis (snd (fst c))"

lemma findR_find: "(\<And>p. p \<in> set ps \<Longrightarrow> P p = Inr (Q p)) \<Longrightarrow> findR P ps = Inr (find Q ps)"
  by (induction ps) auto

lemma find_first: "find Q [0..<n] = Some p \<longleftrightarrow> p < n \<and> Q p \<and> (\<forall>q < p. \<not> Q q)"
  by (auto simp: find_Some_iff)

lemma entryMatches_chain:
  assumes "slotChain cap x L (cellFn es)" "j < length L" "cap \<le> 20" "p < cap" "j * cap + p < length es"
  shows "entryMatches k fp vis (slotAt x (L ! j)) p = Inr (matches k fp vis (es ! (j * cap + p)))"
proof -
  obtain e fp' where e: "es ! (j * cap + p) = (e, fp')" by (cases "es ! (j * cap + p)")
  then have "cellFn es (j * cap + p) = Some (e, fp')" using assms(5) by (simp add: cellFn_def)
  from slot_cell(2) [OF assms(1,2,4) this] slot_ok_cap [OF chainD(2) [OF assms(1,2)]] assms(3,4) show ?thesis
    by (auto simp: entryMatches_def matches_def e)
qed

text \<open>The slot in which a search without success ends is the one that takes the next entry, if it has room.\<close>

lemma findEntry_chain:
  assumes "slotChain cap x L (cellFn es)" "cap \<le> 20" "0 < cap" "length es \<le> length L * cap"
  shows "j < length L \<Longrightarrow> j * cap \<le> length es \<Longrightarrow>
    (\<exists>g. j * cap \<le> g \<and> g < length es \<and> matches k fp vis (es ! g) \<and> findEntry cap k fp vis x (L ! j) = Some (Inr (L ! (g div cap), Some (g mod cap))))
    \<or> (\<forall>g. j * cap \<le> g \<and> g < length es \<longrightarrow> \<not> matches k fp vis (es ! g))
      \<and> findEntry cap k fp vis x (L ! j) = Some (Inr (L ! min (length es div cap) (length L - 1), None))"
proof (induction "length L - j" arbitrary: j)
  case (Suc n)
  let ?s = "slotAt x (L ! j)" and ?m = "min cap (length es - j * cap)" and ?Q = "\<lambda>p. matches k fp vis (es ! (j * cap + p))"
  note c = entry_counts [OF assms(1) Suc.prems(1) assms(2)]
  have f: "findR (entryMatches k fp vis ?s) [0..<?m] = Inr (find ?Q [0..<?m])"
    by (rule findR_find) (auto intro!: entryMatches_chain [OF assms(1) Suc.prems(1) assms(2)])
  note unfold = findEntry.simps [of cap k fp vis x "L ! j"] chainD(1) [OF assms(1) Suc.prems(1)] chain_next [OF assms(1) Suc.prems(1)]
  show ?case
  proof (cases "find ?Q [0..<?m]")
    case (Some p)
    then have p: "p < cap" "j * cap + p < length es" "?Q p" by (auto simp: find_first)
    have "findEntry cap k fp vis x (L ! j) = Some (Inr (L ! ((j * cap + p) div cap), Some ((j * cap + p) mod cap)))"
      using Some f c p(1) by (subst unfold(1)) (simp add: unfold)
    then show ?thesis using p le_add1 by blast
  next
    case None
    then have no: "\<not> matches k fp vis (es ! g)" if "j * cap \<le> g" "g < length es" "g < (j + 1) * cap" for g
      using that by (auto simp: find_None_iff dest!: spec [of _ "g - j * cap"])
    show ?thesis
    proof (cases "cap \<le> length es - j * cap \<and> j + 1 < length L")
      case True
      then have go: "findEntry cap k fp vis x (L ! j) = findEntry cap k fp vis x (L ! (j + 1))"
        using None f c by (subst unfold(1)) (simp add: unfold)
      have "(j + 1) * cap \<le> length es" using True Suc.prems(2) by auto
      with Suc.hyps True have IH: "(\<exists>g. (j + 1) * cap \<le> g \<and> g < length es \<and> matches k fp vis (es ! g) \<and> findEntry cap k fp vis x (L ! (j + 1)) = Some (Inr (L ! (g div cap), Some (g mod cap))))
        \<or> (\<forall>g. (j + 1) * cap \<le> g \<and> g < length es \<longrightarrow> \<not> matches k fp vis (es ! g))
          \<and> findEntry cap k fp vis x (L ! (j + 1)) = Some (Inr (L ! min (length es div cap) (length L - 1), None))"
        by (intro Suc.hyps(1)) auto
      then show ?thesis unfolding go using no by (metis add_leE add_mult_distrib linorder_not_less)
    next
      case False
      have "min (length es div cap) (length L - 1) = j"
      proof (cases "j + 1 < length L")
        case True
        then have "length es < (j + 1) * cap" using False Suc.prems(2) by auto
        then have "length es div cap = j" using Suc.prems(2) assms(3) by (intro div_nat_eqI) (simp_all add: mult.commute)
        then show ?thesis using True by simp
      next
        case False
        then have "length L - 1 = j" using Suc.prems(1) by simp
        moreover have "j \<le> length es div cap" using Suc.prems(2) assms(3) by (simp add: less_eq_div_iff_mult_less_eq)
        ultimately show ?thesis by simp
      qed
      then have r: "findEntry cap k fp vis x (L ! j) = Some (Inr (L ! min (length es div cap) (length L - 1), None))"
        using None f c False by (subst unfold(1)) (auto simp: unfold)
      have "g < (j + 1) * cap" if "g < length es" for g
        using that False Suc.prems assms(4) by (cases "j + 1 < length L") (auto simp: not_less le_Suc_eq dest!: le_antisym [of "Suc j"])
      then show ?thesis using no r by blast
    qed
  qed
qed simp

lemma deletableEntry_chain:
  assumes "slotChain cap x L (cellFn es)" "j < length L" "cap \<le> 20" "p < cap"
  shows "deletableEntry k fp (slotAt x (L ! j)) p = Inr (j * cap + p < length es \<and> matches k fp (\<lambda>_. True) (es ! (j * cap + p)))"
  using entryMatches_chain [OF assms] slot_cell(1) [OF assms(1,2,4)] by (auto simp: deletableEntry_def cellFn_def simp del: not_None_eq)

lemma findToDelete_chain:
  assumes "slotChain cap x L (cellFn es)" "cap \<le> 20" "0 < cap" "length es \<le> length L * cap"
  shows "j < length L \<Longrightarrow>
    (\<exists>g. g < length es \<and> matches k fp (\<lambda>_. True) (es ! g) \<and> findToDelete cap k fp x (L ! j) = Some (Inr (L ! (g div cap), Some (g mod cap))))
    \<or> (\<forall>g. j * cap \<le> g \<and> g < length es \<longrightarrow> \<not> matches k fp (\<lambda>_. True) (es ! g)) \<and> (\<exists>info. findToDelete cap k fp x (L ! j) = Some (Inr (info, None)))"
proof (induction "length L - j" arbitrary: j)
  case (Suc n)
  let ?s = "slotAt x (L ! j)" and ?Q = "\<lambda>p. j * cap + p < length es \<and> matches k fp (\<lambda>_. True) (es ! (j * cap + p))"
  have f: "findR (deletableEntry k fp ?s) [0..<cap] = Inr (find ?Q [0..<cap])"
    by (rule findR_find) (auto simp: deletableEntry_chain [OF assms(1) Suc.prems(1) assms(2)])
  note unfold = findToDelete.simps [of cap k fp x "L ! j"] chainD(1) [OF assms(1) Suc.prems(1)] chain_next [OF assms(1) Suc.prems(1)]
  show ?case
  proof (cases "find ?Q [0..<cap]")
    case (Some p)
    then have p: "p < cap" "?Q p" by (auto simp: find_first)
    have "findToDelete cap k fp x (L ! j) = Some (Inr (L ! ((j * cap + p) div cap), Some ((j * cap + p) mod cap)))"
      using Some f p(1) by (subst unfold(1)) (simp add: unfold)
    then show ?thesis using p by blast
  next
    case None
    then have no: "\<not> matches k fp (\<lambda>_. True) (es ! g)" if "j * cap \<le> g" "g < length es" "g < (j + 1) * cap" for g
      using that by (auto simp: find_None_iff dest!: spec [of _ "g - j * cap"])
    show ?thesis
    proof (cases "j + 1 < length L")
      case True
      then have go: "findToDelete cap k fp x (L ! j) = findToDelete cap k fp x (L ! (j + 1))" using None f by (subst unfold(1)) (simp add: unfold)
      have "(\<exists>g. g < length es \<and> matches k fp (\<lambda>_. True) (es ! g) \<and> findToDelete cap k fp x (L ! (j + 1)) = Some (Inr (L ! (g div cap), Some (g mod cap))))
        \<or> (\<forall>g. (j + 1) * cap \<le> g \<and> g < length es \<longrightarrow> \<not> matches k fp (\<lambda>_. True) (es ! g)) \<and> (\<exists>info. findToDelete cap k fp x (L ! (j + 1)) = Some (Inr (info, None)))"
        using Suc.hyps(2) True by (intro Suc.hyps(1)) auto
      then show ?thesis unfolding go using no by (metis linorder_not_less)
    next
      case False
      then have "length L = j + 1" using Suc.prems by simp
      moreover have "findToDelete cap k fp x (L ! j) = Some (Inr (L ! j, None))" using None f False by (subst unfold(1)) (simp add: unfold)
      moreover have "g < (j + 1) * cap" if "g < length es" for g using that assms(4) \<open>length L = j + 1\<close> by simp
      ultimately show ?thesis using no by blast
    qed
  qed
qed simp

lemma advanceToGap_chain:
  assumes "slotChain cap x L f" "0 < cap" "g < length L * cap" "f g = None"
  shows "j * cap + p \<le> g \<Longrightarrow> p < cap \<Longrightarrow> (\<And>g'. j * cap + p \<le> g' \<Longrightarrow> g' < g \<Longrightarrow> f g' \<noteq> None) \<Longrightarrow>
    advanceToGap cap x (L ! j) p = Some (Inr (L ! (g div cap), g mod cap))"
proof (induction "g - (j * cap + p)" arbitrary: j p)
  case 0
  then have g: "g = j * cap + p" by simp
  have j: "j < length L" using assms(2,3) 0 by (metis g div_less_iff_less_mult div_mult_self3 add.commute add_0 div_less gr_implies_not0)
  show ?case using slot_cell(1) [OF assms(1) j 0(3)] assms(4) chainD(1) [OF assms(1) j] g 0(3) by (subst advanceToGap.simps) simp
next
  case (Suc n)
  have less: "j * cap + p < g" using Suc.hyps(2) by simp
  then have j: "j < length L" using assms(2,3) Suc.prems(2) by (meson add_leE leD le_less_linear less_imp_le_nat mult_le_mono1 order_less_le_trans)
  have valid: "isEntryValid p (slotHeader (slotAt x (L ! j)))" using slot_cell(1) [OF assms(1) j Suc.prems(2)] Suc.prems(3) less by blast
  note unfold = advanceToGap.simps [of cap x "L ! j" p] chainD(1) [OF assms(1) j] chain_next [OF assms(1) j]
  show ?case
  proof (cases "p + 1 < cap")
    case True
    have "advanceToGap cap x (L ! j) (p + 1) = Some (Inr (L ! (g div cap), g mod cap))"
      using Suc.hyps(2) less True Suc.prems(3) by (intro Suc.hyps(1)) auto
    then show ?thesis using valid True by (subst unfold(1)) (simp add: unfold)
  next
    case False
    then have p: "(j + 1) * cap = j * cap + p + 1" using Suc.prems(2) by simp
    then have "j + 1 < length L" using less assms(3) by (metis Suc_leI add.commute le_less_trans mult_less_cancel2 plus_1_eq_Suc)
    moreover have "advanceToGap cap x (L ! (j + 1)) 0 = Some (Inr (L ! (g div cap), g mod cap))"
      using Suc.hyps(2) less p Suc.prems(3) assms(2) by (intro Suc.hyps(1)) auto
    ultimately show ?thesis using valid False by (subst unfold(1)) (simp add: unfold)
  qed
qed

text \<open>The slots that \<^verbatim>\<open>reclaimOverflowSlots\<close> keeps.\<close>

definition keptSlot :: "nat \<Rightarrow> slot_info list \<Rightarrow> (nat \<Rightarrow> 'k cell) \<Rightarrow> nat \<Rightarrow> bool" where
  "keptSlot cap L f j \<longleftrightarrow> (\<exists>p < cap. f (j * cap + p) \<noteq> None) \<or> (\<exists>i. L ! j = PrimarySlot i)"

lemma skipNonEmptySlots_step:
  assumes "slotChain cap x L f" "j < length L" "cap \<le> 20"
  shows "skipNonEmptySlots l (L ! j) x =
    (if keptSlot cap L f j then if j + 1 < length L then skipNonEmptySlots (L ! j) (L ! (j + 1)) x else Some (Inr (L ! j, None))
     else Some (Inr (l, Some (L ! j))))"
proof -
  have "slot_numEntries (slotHeader (slotAt x (L ! j))) > 0 \<or> (case L ! j of PrimarySlot _ \<Rightarrow> True | OvfSlot _ \<Rightarrow> False) \<longleftrightarrow> keptSlot cap L f j"
    using slot_empty [OF assms] by (cases "L ! j") (auto simp: keptSlot_def)
  then show ?thesis using chainD(1) [OF assms(1,2)] chain_next [OF assms(1,2)] by (subst skipNonEmptySlots.simps) simp
qed

lemma skipNonEmptySlots_chain:
  assumes "slotChain cap x L f" "cap \<le> 20" "m \<le> length L" "m < length L \<Longrightarrow> \<not> keptSlot cap L f m"
  shows "j < m \<Longrightarrow> (\<And>j'. j \<le> j' \<Longrightarrow> j' < m \<Longrightarrow> keptSlot cap L f j') \<Longrightarrow>
    skipNonEmptySlots l (L ! j) x = Some (Inr (L ! (m - 1), if m < length L then Some (L ! m) else None))"
proof (induction "m - j" arbitrary: j l)
  case (Suc n)
  have j: "j < length L" using Suc.prems(1) assms(3) by simp
  show ?case
  proof (cases "j + 1 = m")
    case True
    then have "m - 1 = j" by simp
    then show ?thesis using True Suc.prems(2) [of j] assms(3,4) skipNonEmptySlots_step [OF assms(1) _ assms(2), of m] skipNonEmptySlots_step [OF assms(1) j assms(2)] by auto
  next
    case False
    then have "skipNonEmptySlots (L ! j) (L ! (j + 1)) x = Some (Inr (L ! (m - 1), if m < length L then Some (L ! m) else None))"
      using Suc.hyps(2) Suc.prems by (intro Suc.hyps(1)) auto
    then show ?thesis using False Suc.prems(2) [of j] Suc.prems(1) assms(3) skipNonEmptySlots_step [OF assms(1) j assms(2)] by simp
  qed
qed simp

section \<open>The list of free slots\<close>

text \<open>What an operation may change: the slots of a set, the head of the list of free slots and their number; vectors may grow.\<close>

definition changes :: "slot_info set \<Rightarrow> 'k in_mem_hash_index \<Rightarrow> 'k in_mem_hash_index \<Rightarrow> bool" where
  "changes S x x' \<longleftrightarrow> (indexHeader x')\<lparr>firstFreeOverflowSlotId := None\<rparr> = (indexHeader x)\<lparr>firstFreeOverflowSlotId := None\<rparr>
     \<and> length (pSlots x') = length (pSlots x)
     \<and> (\<forall>info. hasSlot x info \<longrightarrow> hasSlot x' info \<and> (info \<notin> S \<longrightarrow> slotAt x' info = slotAt x info))"

lemma changes_refl [simp]: "changes S x x"
  by (simp add: changes_def)

lemma changes_trans: "changes S x y \<Longrightarrow> changes T y z \<Longrightarrow> S \<union> T \<subseteq> U \<Longrightarrow> changes U x z"
  by (auto simp: changes_def) (metis subsetD)

lemma changes_mono: "changes S x y \<Longrightarrow> S \<subseteq> U \<Longrightarrow> changes U x y"
  by (auto simp: changes_def)

lemma changes_header:
  assumes "changes S x x'"
  shows "currentLevel (indexHeader x') = currentLevel (indexHeader x)" "levelHashMask (indexHeader x') = levelHashMask (indexHeader x)"
    "higherLevelHashMask (indexHeader x') = higherLevelHashMask (indexHeader x)" "nextSplitSlotId (indexHeader x') = nextSplitSlotId (indexHeader x)"
    "numEntries (indexHeader x') = numEntries (indexHeader x)" "length (pSlots x') = length (pSlots x)"
  using assms by (cases "indexHeader x"; cases "indexHeader x'"; simp add: changes_def)+

lemma changes_ops [simp]: "hasSlot x info \<Longrightarrow> changes {info} x (putSlot info s x)" "changes S x (x\<lparr>numFreeSlots := n\<rparr>)"
    "changes S x (x\<lparr>indexHeader := (indexHeader x)\<lparr>firstFreeOverflowSlotId := i\<rparr>\<rparr>)"
  by (auto simp: changes_def slotAt_putSlot)

lemma chain_changes: "changes S x x' \<Longrightarrow> slotChain cap x L f \<Longrightarrow> set L \<inter> S = {} \<Longrightarrow> slotChain cap x' L f"
  unfolding slotChain_def chain_at_def changes_def by (metis disjoint_iff nth_mem)

definition freeList :: "nat \<Rightarrow> 'k in_mem_hash_index \<Rightarrow> slot_info list \<Rightarrow> bool" where
  "freeList cap x F \<longleftrightarrow> slotChain cap x F (\<lambda>_. None) \<and> length F \<le> numFreeSlots x
     \<and> map_option OvfSlot (firstFreeOverflowSlotId (indexHeader x)) = (if F = [] then None else Some (hd F))"

lemma addFreeOverflowSlot_list:
  assumes "freeList cap x F" "slotChain cap x [OvfSlot i] (\<lambda>_. None)" "OvfSlot i \<notin> set F"
  shows "\<exists>x'. addFreeOverflowSlot i x = Inr x' \<and> freeList cap x' (OvfSlot i # F) \<and> changes {OvfSlot i} x x' \<and> numFreeSlots x' = numFreeSlots x + 1"
proof -
  have H: "hasSlot x (OvfSlot i)" and N: "nextId (slotAt x (OvfSlot i)) = None" using chainD [OF assms(2), of 0] by simp_all
  let ?x = "putSlot (OvfSlot i) (linkSlot (firstFreeOverflowSlotId (indexHeader x)) (slotAt x (OvfSlot i))) x"
  let ?x' = "?x\<lparr>indexHeader := (indexHeader ?x)\<lparr>firstFreeOverflowSlotId := Some i\<rparr>, numFreeSlots := numFreeSlots ?x + 1\<rparr>"
  have "addFreeOverflowSlot i x = Inr ?x'" using N unfolding addFreeOverflowSlot_def nextId_def getSlot_in [OF H] memory_ops(1) [OF H] by simp
  moreover have "slotChain cap ?x' (OvfSlot i # F) (\<lambda>_. None)"
    using chain_join [OF assms(2), of F "firstFreeOverflowSlotId (indexHeader x)"] assms(1,3) by (simp add: freeList_def)
  moreover have "changes {OvfSlot i} x ?x'"
    using changes_ops(1) [OF H] by (auto simp: changes_def)
  ultimately show ?thesis using assms(1) by (simp add: freeList_def)
qed

lemma freeSlotsFrom_chain:
  assumes "freeList cap x F" "slotChain cap x M (\<lambda>_. None)" "set M \<inter> set F = {}" "\<forall>info \<in> set M. \<exists>i. info = OvfSlot i" "cap \<le> 20"
  shows "\<exists>x'. freeSlotsFrom (if M = [] then None else Some (hd M)) x = Some (Inr x') \<and> freeList cap x' (rev M @ F) \<and> changes (set M) x x'"
  using assms(1-4)
proof (induction M arbitrary: x F)
  case Nil
  then show ?case by (subst freeSlotsFrom.simps) simp
next
  case (Cons info M)
  obtain i where i: "info = OvfSlot i" using Cons.prems(4) by auto
  note D = chainD [OF Cons.prems(2), of 0, simplified]
  let ?x = "putSlot info (linkSlot None (slotAt x info)) x"
  have cut: "slotChain cap ?x [info] (\<lambda>_. None)" "slotChain cap ?x M (\<lambda>_. None)" using chain_cut [OF Cons.prems(2), of 1] by simp_all
  have "freeList cap ?x F" using Cons.prems(1,3) D(1) by (simp add: freeList_def)
  then obtain y where y: "addFreeOverflowSlot i ?x = Inr y" "freeList cap y (OvfSlot i # F)" "changes {OvfSlot i} ?x y"
    using addFreeOverflowSlot_list [OF _ cut(1) [unfolded i]] Cons.prems(3) by (auto simp: i)
  have "info \<notin> set M" using Cons.prems(2) by (simp add: slotChain_def)
  then have "slotChain cap y M (\<lambda>_. None)" "set M \<inter> set (OvfSlot i # F) = {}" using chain_changes [OF y(3) cut(2)] Cons.prems(3) by (auto simp: i)
  from Cons.IH [OF y(2) this] Cons.prems(4) obtain z where z: "freeSlotsFrom (if M = [] then None else Some (hd M)) y = Some (Inr z)"
    "freeList cap z (rev M @ OvfSlot i # F)" "changes (set M) y z" by auto
  have "slot_numEntries (slotHeader (slotAt x info)) = 0" using slot_empty [OF Cons.prems(2), of 0] assms(5) by simp
  moreover have "map_option OvfSlot (nextOvfSlotId (slotHeader (slotAt x info))) = (if M = [] then None else Some (hd M))"
    using D(4) by (auto simp: nextId_def hd_conv_nth)
  ultimately have "freeSlotsFrom (Some info) x = Some (Inr z)" using D(1) y(1) z(1) memory_ops(1) [OF D(1)]
    by (subst freeSlotsFrom.simps) (simp add: clearNextOverflowAndAdvanceIter_def i)
  moreover have "changes (insert info (set M)) x z"
    using changes_ops(1) [OF D(1)] y(3) z(3) by (auto simp: i intro: changes_trans)
  ultimately show ?case using z(2) by (simp add: i)
qed

lemma allocateAOSlot_list:
  assumes "freeList cap x F" "cap \<le> 20"
  shows "\<exists>x' i F'. allocateAOSlot cap k0 x = Inr (x', i) \<and> freeList cap x' F' \<and> slotChain cap x' [OvfSlot i] (\<lambda>_. None) \<and> changes {OvfSlot i} x x'
    \<and> set F' \<subseteq> set F \<and> OvfSlot i \<notin> set F' \<and> (\<not> hasSlot x (OvfSlot i) \<or> OvfSlot i \<in> set F)"
proof (cases F)
  case Nil
  let ?x = "x\<lparr>oSlots := oSlots x @ [Slot_new cap k0]\<rparr>" and ?i = "length (oSlots x)"
  have none: "firstFreeOverflowSlotId (indexHeader x) = None" using assms Nil by (simp add: freeList_def)
  have at: "slotAt ?x (OvfSlot ?i) = Slot_new cap k0" by (simp add: slotAt_def)
  have "changes {OvfSlot ?i} x ?x"
    by (auto simp: changes_def slotAt_def hasSlot_def nth_append split: slot_info.splits)
  moreover have "slotChain cap ?x [OvfSlot ?i] (\<lambda>_. None)" by (simp add: slotChain_def chain_at_def at map_replicate_const)
  ultimately show ?thesis using none by (auto simp: allocateAOSlot_def freeList_def slotChain_def intro!: exI [of _ "[]"])
next
  case (Cons info F')
  then obtain i where i: "info = OvfSlot i" "firstFreeOverflowSlotId (indexHeader x) = Some i" using assms(1) by (auto simp: freeList_def)
  have C: "slotChain cap x (OvfSlot i # F') (\<lambda>_. None)" using assms(1) by (simp add: freeList_def Cons i)
  note D = chainD [OF C, of 0, simplified]
  let ?y = "x\<lparr>indexHeader := (indexHeader x)\<lparr>firstFreeOverflowSlotId := nextId (slotAt x (OvfSlot i))\<rparr>\<rparr>"
  let ?z = "putSlot (OvfSlot i) (linkSlot None (slotAt x (OvfSlot i))) ?y"
  let ?x = "?z\<lparr>numFreeSlots := numFreeSlots ?z - 1\<rparr>"
  have cut: "slotChain cap ?z [OvfSlot i] (\<lambda>_. None)" "slotChain cap ?z F' (\<lambda>_. None)" using chain_cut [of cap ?y "OvfSlot i # F'" "\<lambda>_. None" 1] C by simp_all
  have pos: "0 < numFreeSlots x" "length F' \<le> numFreeSlots x - 1" using assms(1) by (auto simp: freeList_def Cons)
  have "nthR (oSlots x) i = Inr (slotAt x (OvfSlot i))" using D(1) getSlot_in [of x "OvfSlot i"] by (simp add: getSlot_def)
  moreover have "slot_numEntries (slotHeader (slotAt x (OvfSlot i))) = 0" using slot_empty [OF C, of 0] assms(2) by simp
  moreover have "setNextOvf (OvfSlot i) None ?y = Inr ?z" using memory_ops(1) [of ?y "OvfSlot i" None] D(1) by simp
  ultimately have "allocateAOSlot cap k0 x = Inr (?x, i)" using pos(1) i(2) by (simp add: allocateAOSlot_def nextId_def)
  moreover have "freeList cap ?x F'" using cut(2) D(4) pos(2) by (auto simp: freeList_def hd_conv_nth)
  moreover have "changes {OvfSlot i} x ?x" using D(1) by (auto simp: changes_def slotAt_putSlot)
  moreover have "OvfSlot i \<notin> set F'" using C by (simp add: slotChain_def)
  ultimately show ?thesis using cut(1) by (auto simp: Cons i(1))
qed

section \<open>All chains of an index\<close>

text \<open>Every primary slot \<open>i\<close> starts the chain \<open>ch i\<close> with the cells \<open>fn i\<close>; \<open>F\<close> are the free slots.\<close>

definition arena :: "nat \<Rightarrow> 'k in_mem_hash_index \<Rightarrow> (nat \<Rightarrow> slot_info list) \<Rightarrow> (nat \<Rightarrow> nat \<Rightarrow> 'k cell) \<Rightarrow> slot_info list \<Rightarrow> bool" where
  "arena cap x ch fn F \<longleftrightarrow> freeList cap x F
     \<and> (\<forall>i < length (pSlots x). ch i \<noteq> [] \<and> hd (ch i) = PrimarySlot i \<and> slotChain cap x (ch i) (fn i) \<and> set (ch i) \<inter> set F = {})
     \<and> (\<forall>i < length (pSlots x). \<forall>i' < length (pSlots x). i \<noteq> i' \<longrightarrow> set (ch i) \<inter> set (ch i') = {})"

lemma arenaD:
  assumes "arena cap x ch fn F" "i < length (pSlots x)"
  shows "ch i \<noteq> []" "hd (ch i) = PrimarySlot i" "slotChain cap x (ch i) (fn i)" "set (ch i) \<inter> set F = {}"
    "i' < length (pSlots x) \<Longrightarrow> i \<noteq> i' \<Longrightarrow> set (ch i) \<inter> set (ch i') = {}"
  using assms by (auto simp: arena_def)

text \<open>An operation on one chain: it may take slots from the list of free slots, give slots back and use new ones.\<close>

lemma arena_step:
  assumes A: "arena cap x ch fn F" and i: "i < length (pSlots x)" and c: "changes S x x'"
    and C: "slotChain cap x' L f" "L \<noteq> []" "hd L = PrimarySlot i" "set L \<inter> set F' = {}" and F: "freeList cap x' F'"
    and S: "\<And>i'. i' < length (pSlots x) \<Longrightarrow> i' \<noteq> i \<Longrightarrow> set (ch i') \<inter> (S \<union> set L \<union> set F') = {}"
  shows "arena cap x' (ch(i := L)) (fn(i := f)) F'"
proof -
  have n: "length (pSlots x') = length (pSlots x)" using c by (rule changes_header)
  have other: "ch i' \<noteq> []" "hd (ch i') = PrimarySlot i'" "slotChain cap x' (ch i') (fn i')" "set (ch i') \<inter> set F' = {}"
    if "i' < length (pSlots x)" "i' \<noteq> i" for i'
    using arenaD [OF A that(1)] S [OF that] chain_changes [OF c arenaD(3) [OF A that(1)]] by auto
  have "set ((ch(i := L)) a) \<inter> set ((ch(i := L)) b) = {}" if "a < length (pSlots x)" "b < length (pSlots x)" "a \<noteq> b" for a b
    using that arenaD(5) [OF A that] S [of a] S [of b] by auto
  then show ?thesis unfolding arena_def n using F C other by auto
qed

lemma arena_cell:
  assumes A: "arena cap x ch fn F" and i: "i < length (pSlots x)" and j: "j < length (ch i)" and p: "p < cap" "cap \<le> 20"
  shows "\<exists>x'. putEntry (ch i ! j) p e fp x = Inr x' \<and> arena cap x' ch (fn(i := (fn i)(j * cap + p := Some (e, fp)))) F \<and> changes {ch i ! j} x x'" (is ?put)
    "\<exists>x'. invalidateEntry (ch i ! j) p x = Inr x' \<and> arena cap x' ch (fn(i := (fn i)(j * cap + p := None))) F \<and> changes {ch i ! j} x x'" (is ?drop)
proof -
  note C = arenaD(3) [OF A i]
  note H = chainD(1,2) [OF C j]
  have keep: "arena cap (putSlot (ch i ! j) s x) ch (fn(i := f)) F" if "slotChain cap (putSlot (ch i ! j) s x) (ch i) f" for s f
  proof -
    have mem: "ch i ! j \<in> set (ch i)" using j by simp
    have "freeList cap (putSlot (ch i ! j) s x) F" using A arenaD(4) [OF A i] mem H(1) unfolding arena_def freeList_def by (auto simp: disjoint_iff)
    moreover have "set (ch i') \<inter> ({ch i ! j} \<union> set (ch i) \<union> set F) = {}" if "i' < length (pSlots x)" "i' \<noteq> i" for i'
      using arenaD(4) [OF A that(1)] arenaD(5) [OF A that(1) i that(2)] mem by auto
    ultimately have "arena cap (putSlot (ch i ! j) s x) (ch(i := ch i)) (fn(i := f)) F"
      using that arenaD [OF A i] by (intro arena_step [OF A i changes_ops(1) [OF H(1)]]) auto
    then show ?thesis by simp
  qed
  show ?put using keep [OF chain_write [OF C j p]] memory_ops(2) [OF H p(2,1)] changes_ops(1) [OF H(1)] by blast
  show ?drop using keep [OF chain_clear [OF C j p]] memory_ops(3) [OF H(1)] changes_ops(1) [OF H(1)] by blast
qed

lemma arena_grow:
  assumes A: "arena cap x ch fn F" and i: "i < length (pSlots x)" and "cap \<le> 20" and empty: "\<And>g. length (ch i) * cap \<le> g \<Longrightarrow> fn i g = None"
  shows "\<exists>y x' o' F'. allocateAOSlot cap k0 x = Inr (y, o') \<and> setNextOvf (last (ch i)) (Some o') y = Inr x'
    \<and> arena cap x' (ch(i := ch i @ [OvfSlot o'])) fn F' \<and> changes (insert (OvfSlot o') (set (ch i))) x x'"
proof -
  note D = arenaD [OF A i]
  have "freeList cap x F" using A by (simp add: arena_def)
  from allocateAOSlot_list [OF this assms(3)] obtain y o' F' where y: "allocateAOSlot cap k0 x = Inr (y, o')" "freeList cap y F'"
    "slotChain cap y [OvfSlot o'] (\<lambda>_. None)" "changes {OvfSlot o'} x y" "set F' \<subseteq> set F" "OvfSlot o' \<notin> set F'" "\<not> hasSlot x (OvfSlot o') \<or> OvfSlot o' \<in> set F"
    by blast
  have fresh: "OvfSlot o' \<notin> set (ch i')" if "i' < length (pSlots x)" for i'
    using y(7) arenaD(4) [OF A that] chainD(1) [OF arenaD(3) [OF A that]] by (metis disjoint_iff in_set_conv_nth)
  have mem: "last (ch i) \<in> set (ch i)" using D(1) by simp
  have C: "slotChain cap y (ch i) (fn i)" using chain_changes [OF y(4) D(3)] fresh [OF i] by simp
  have H: "hasSlot y (last (ch i))" using C D(1) chainD(1) [OF C, of "length (ch i) - 1"] by (simp add: last_conv_nth)
  let ?x = "putSlot (last (ch i)) (linkSlot (Some o') (slotAt y (last (ch i)))) y"
  have J: "slotChain cap ?x (ch i @ [OvfSlot o']) (fn i)"
    using y(3) fresh [OF i] D(1) empty by (intro chain_join [OF C]) simp_all
  have "last (ch i) \<notin> set F'" using mem D(4) y(5) by blast
  then have Fr: "freeList cap ?x F'" using y(2) H by (simp add: freeList_def)
  have ch: "changes (insert (OvfSlot o') (set (ch i))) x ?x" using changes_trans [OF y(4) changes_ops(1) [OF H]] mem by simp
  have "arena cap ?x (ch(i := ch i @ [OvfSlot o'])) (fn(i := fn i)) F'"
  proof (rule arena_step [OF A i ch J _ _ _ Fr])
    show "ch i @ [OvfSlot o'] \<noteq> []" "hd (ch i @ [OvfSlot o']) = PrimarySlot i" using D(1,2) by simp_all
    show "set (ch i @ [OvfSlot o']) \<inter> set F' = {}" using D(4) y(5,6) by auto
    fix i' assume i': "i' < length (pSlots x)" "i' \<noteq> i"
    show "set (ch i') \<inter> (insert (OvfSlot o') (set (ch i)) \<union> set (ch i @ [OvfSlot o']) \<union> set F') = {}"
      using arenaD(4) [OF A i'(1)] arenaD(5) [OF A i'(1) i i'(2)] fresh [OF i'(1)] y(5) by auto
  qed
  then show ?thesis using y(1) memory_ops(1) [OF H] ch by auto
qed

lemma overflow_tail: "slotChain cap x L f \<Longrightarrow> 0 < m \<Longrightarrow> \<forall>info \<in> set (drop m L). \<exists>i. info = OvfSlot i"
proof
  fix info assume C: "slotChain cap x L f" and m: "0 < m" and "info \<in> set (drop m L)"
  then obtain q where "q < length (drop m L)" "info = drop m L ! q" by (metis in_set_conv_nth)
  then have q: "m + q < length L" "info = L ! (m + q)" by simp_all
  then have "map_option OvfSlot (nextId (slotAt x (L ! (m + q - 1)))) = Some info" using chainD(4) [OF C, of "m + q - 1"] m by simp
  then show "\<exists>i. info = OvfSlot i" by auto
qed

lemma arena_reclaim:
  assumes A: "arena cap x ch fn F" and i: "i < length (pSlots x)" and "cap \<le> 20" "0 < cap" and m: "j < m" "m \<le> length (ch i)"
    and kept: "\<And>j'. j \<le> j' \<Longrightarrow> j' < m \<Longrightarrow> keptSlot cap (ch i) (fn i) j'" and empty: "\<And>g. m * cap \<le> g \<Longrightarrow> fn i g = None"
  shows "\<exists>x' F'. reclaimOverflowSlots (ch i ! j) x = Some (Inr x') \<and> arena cap x' (ch(i := take m (ch i))) fn F' \<and> changes (set (ch i)) x x'"
proof (cases "j + 1 < length (ch i)")
  case False
  then have j: "j = length (ch i) - 1" "m = length (ch i)" "j < length (ch i)" using m by auto
  have "reclaimOverflowSlots (ch i ! j) x = Some (Inr x)"
    using chainD(1,4) [OF arenaD(3) [OF A i] j(3)] False by (simp add: reclaimOverflowSlots_def nextId_def)
  then show ?thesis using A j(2) by (auto simp: fun_upd_idem)
next
  case True
  note D = arenaD [OF A i]
  have L: "j < length (ch i)" "m - 1 < length (ch i)" "0 < m" using m by auto
  let ?M = "drop m (ch i)" and ?y = "putSlot (ch i ! (m - 1)) (linkSlot None (slotAt x (ch i ! (m - 1)))) x"
  have H: "hasSlot x (ch i ! (m - 1))" using chainD(1) [OF D(3) L(2)] .
  have "\<not> keptSlot cap (ch i) (fn i) m" if "m < length (ch i)"
  proof -
    have "ch i ! m \<in> set (drop m (ch i))" using that nth_mem [of 0 "drop m (ch i)"] by simp
    then obtain a where "ch i ! m = OvfSlot a" using overflow_tail [OF D(3) L(3)] by blast
    then show ?thesis using empty by (auto simp: keptSlot_def)
  qed
  then have skip: "skipNonEmptySlots (ch i ! j) (ch i ! j) x = Some (Inr (ch i ! (m - 1), if m < length (ch i) then Some (ch i ! m) else None))"
    by (intro skipNonEmptySlots_chain [OF D(3) assms(3) m(2)]) (use m kept in auto)
  have cut: "slotChain cap ?y (take m (ch i)) (fn i)" "slotChain cap ?y ?M (\<lambda>_. None)"
    using chain_cut [OF D(3) L(3) m(2)] empty by simp_all
  have mem: "ch i ! (m - 1) \<in> set (ch i)" using L(2) by simp
  have "freeList cap ?y F" using A mem H D(4) by (auto simp: arena_def freeList_def disjoint_iff)
  moreover have "set ?M \<inter> set F = {}" using D(4) by (auto dest: in_set_dropD)
  ultimately obtain z where z: "freeSlotsFrom (if ?M = [] then None else Some (hd ?M)) ?y = Some (Inr z)" "freeList cap z (rev ?M @ F)" "changes (set ?M) ?y z"
    using freeSlotsFrom_chain [OF _ cut(2) _ overflow_tail [OF D(3) L(3)] assms(3)] by blast
  have "nextOvfSlotId (slotHeader (slotAt x (ch i ! j))) \<noteq> None" using chainD(4) [OF D(3) L(1)] True by (auto simp: nextId_def)
  then have r: "reclaimOverflowSlots (ch i ! j) x = Some (Inr z)"
    using skip z(1) memory_ops(1) [OF H] chainD(1) [OF D(3) L(1)] by (auto simp: reclaimOverflowSlots_def hd_drop_conv_nth split: if_splits)
  have dist: "set (take m (ch i)) \<inter> set ?M = {}" using D(3) by (intro set_take_disj_set_drop_if_distinct) (auto simp: slotChain_def)
  have ch: "changes (set (ch i)) x z" using changes_trans [OF changes_ops(1) [OF H] z(3)] mem by (auto dest: in_set_dropD)
  have "arena cap z (ch(i := take m (ch i))) (fn(i := fn i)) (rev ?M @ F)"
  proof (rule arena_step [OF A i ch chain_changes [OF z(3) cut(1) dist] _ _ _ z(2)])
    show "take m (ch i) \<noteq> []" "hd (take m (ch i)) = PrimarySlot i" using D(1,2) L(3) by simp_all
    show "set (take m (ch i)) \<inter> set (rev ?M @ F) = {}" using dist D(4) by (auto dest: in_set_takeD)
    fix i' assume i': "i' < length (pSlots x)" "i' \<noteq> i"
    show "set (ch i') \<inter> (set (ch i) \<union> set (take m (ch i)) \<union> set (rev ?M @ F)) = {}"
      using arenaD(4) [OF A i'(1)] arenaD(5) [OF A i'(1) i i'(2)] by (auto dest: in_set_takeD in_set_dropD)
  qed
  then show ?thesis using r ch by auto
qed

lemma addNewFreeSlots_list:
  assumes "freeList cap x F" "\<And>a. newSlotId \<le> a \<Longrightarrow> a < N \<Longrightarrow> slotChain cap x [OvfSlot a] (\<lambda>_. None) \<and> OvfSlot a \<notin> set F" "newSlotId + (required - numFreeSlots x - i) \<le> N"
  shows "\<exists>x' F'. addNewFreeSlots required i newSlotId x = Inr x' \<and> freeList cap x' F' \<and> changes (OvfSlot ` {newSlotId..<N}) x x' \<and> set F' \<subseteq> set F \<union> OvfSlot ` {newSlotId..<N}"
  using assms
proof (induction required i newSlotId x arbitrary: F rule: addNewFreeSlots.induct)
  case (1 required i newSlotId x)
  show ?case
  proof (cases "i < required - numFreeSlots x")
    case False
    then show ?thesis using 1(2) by (subst addNewFreeSlots.simps) (auto intro!: exI [of _ F])
  next
    case True
    then have new: "newSlotId < N" using 1(4) by simp
    then obtain y where y: "addFreeOverflowSlot newSlotId x = Inr y" "freeList cap y (OvfSlot newSlotId # F)" "changes {OvfSlot newSlotId} x y"
        "numFreeSlots y = numFreeSlots x + 1"
      using addFreeOverflowSlot_list [OF 1(2)] 1(3) by blast
    have "slotChain cap y [OvfSlot a] (\<lambda>_. None) \<and> OvfSlot a \<notin> set (OvfSlot newSlotId # F)" if "newSlotId + 1 \<le> a" "a < N" for a
      using that 1(3) [of a] chain_changes [OF y(3), of cap "[OvfSlot a]" "\<lambda>_. None"] by auto
    with 1(1) [OF True y(1,2)] obtain z F' where z: "addNewFreeSlots required (i + 1) (newSlotId + 1) y = Inr z" "freeList cap z F'"
      "changes (OvfSlot ` {newSlotId + 1..<N}) y z" "set F' \<subseteq> set (OvfSlot newSlotId # F) \<union> OvfSlot ` {newSlotId + 1..<N}"
      using 1(4) y(4) True by fastforce
    have "changes (OvfSlot ` {newSlotId..<N}) x z" using new by (intro changes_trans [OF y(3) z(3)]) auto
    then show ?thesis using z new y(1) True by (subst addNewFreeSlots.simps) (auto intro!: exI [of _ F'])
  qed
qed

lemma arena_frame:
  assumes "arena cap x ch fn F" "changes S x x'" "freeList cap x' F'" "\<And>i. i < length (pSlots x) \<Longrightarrow> set (ch i) \<inter> (S \<union> set F') = {}"
  shows "arena cap x' ch fn F'"
  unfolding arena_def changes_header(6) [OF assms(2)] using arenaD [OF assms(1)] assms(3,4) chain_changes [OF assms(2)] by (auto simp: Int_Un_distrib)

lemma arena_has: "arena cap x ch fn F \<Longrightarrow> i < length (pSlots x) \<Longrightarrow> info \<in> set (ch i) \<Longrightarrow> hasSlot x info"
  using chainD(1) [OF arenaD(3)] by (metis in_set_conv_nth)

lemma arena_reserve:
  assumes A: "arena cap x ch fn F"
  shows "\<exists>x' F'. reserveOverflowSlots cap k0 n x = Inr x' \<and> arena cap x' ch fn F' \<and> changes {} x x'"
proof (cases "n > numFreeSlots x")
  case False
  then show ?thesis using A by (auto simp: reserveOverflowSlots_def)
next
  case True
  let ?a = "length (oSlots x)" and ?N = "length (oSlots x) + (n - numFreeSlots x)"
  let ?y = "x\<lparr>oSlots := oSlots x @ replicate (n - numFreeSlots x) (Slot_new cap k0)\<rparr>"
  have c: "changes {} x ?y" by (auto simp: changes_def slotAt_def hasSlot_def nth_append split: slot_info.splits)
  have F: "freeList cap x F" using A by (simp add: arena_def)
  then have Fy: "freeList cap ?y F" using chain_changes [OF c] by (simp add: freeList_def)
  have fresh: "info \<noteq> OvfSlot a" if "hasSlot x info" "?a \<le> a" for info a using that by auto
  have inF: "hasSlot x info" if "info \<in> set F" for info using that F chainD(1) unfolding freeList_def by (metis in_set_conv_nth)
  have "slotChain cap ?y [OvfSlot a] (\<lambda>_. None) \<and> OvfSlot a \<notin> set F" if "?a \<le> a" "a < ?N" for a
  proof -
    have "slotAt ?y (OvfSlot a) = Slot_new cap k0" using that by (simp add: slotAt_def nth_append)
    then have "slotChain cap ?y [OvfSlot a] (\<lambda>_. None)" using that by (simp add: slotChain_def chain_at_def map_replicate_const)
    then show ?thesis using inF fresh that by blast
  qed
  with addNewFreeSlots_list [OF Fy, of ?a ?N n 0] obtain x' F' where x': "addNewFreeSlots n 0 ?a ?y = Inr x'" "freeList cap x' F'"
    "changes (OvfSlot ` {?a..<?N}) ?y x'" "set F' \<subseteq> set F \<union> OvfSlot ` {?a..<?N}" by auto
  have c': "changes (OvfSlot ` {?a..<?N}) x x'" using changes_trans [OF c x'(3)] by simp
  have "changes {} x x'" unfolding changes_def
    using c' by (auto simp: changes_def hasSlot_def image_iff split: slot_info.splits) 
  moreover have "set (ch i) \<inter> ({} \<union> set F') = {}" if "i < length (pSlots x)" for i
    using arenaD(4) [OF A that] arena_has [OF A that] x'(4) by fastforce
  moreover from calculation have "arena cap x' ch fn F'" by (intro arena_frame [OF A _ x'(2)]) auto
  ultimately show ?thesis using x'(1) True by (auto simp: reserveOverflowSlots_def)
qed

lemma arena_primary:
  assumes A: "arena cap x ch fn F"
  defines "N \<equiv> length (pSlots x)"
  shows "arena cap (allocatePSlots cap k0 n x) (\<lambda>i. if i < N then ch i else [PrimarySlot i]) (\<lambda>i. if i < N then fn i else (\<lambda>_. None)) F"
proof -
  let ?x = "allocatePSlots cap k0 n x"
  have len: "length (pSlots ?x) = N + n" by (simp add: allocatePSlots_def N_def)
  have same: "hasSlot ?x info \<and> slotAt ?x info = slotAt x info" if "hasSlot x info" for info
    using that by (auto simp: allocatePSlots_def slotAt_def hasSlot_def nth_append split: slot_info.splits)
  have keep: "slotChain cap ?x L f" if "slotChain cap x L f" for L f
    using that same unfolding slotChain_def chain_at_def by auto
  have F: "freeList cap x F" using A by (simp add: arena_def)
  then have Fx: "freeList cap ?x F" using keep by (simp add: freeList_def allocatePSlots_def)
  have fresh: "\<not> hasSlot x (PrimarySlot i)" if "N \<le> i" for i using that by (simp add: N_def)
  have inF: "hasSlot x info" if "info \<in> set F" for info using that F chainD(1) unfolding freeList_def by (metis in_set_conv_nth)
  have new: "slotChain cap ?x [PrimarySlot i] (\<lambda>_. None)" if "N \<le> i" "i < N + n" for i
  proof -
    have "slotAt ?x (PrimarySlot i) = Slot_new cap k0" using that by (simp add: slotAt_def allocatePSlots_def nth_append N_def)
    then show ?thesis using that len by (simp add: slotChain_def chain_at_def map_replicate_const)
  qed
  show ?thesis unfolding arena_def len
  proof (intro conjI allI impI Fx)
    fix i assume "i < N + n"
    then show "slotChain cap ?x (if i < N then ch i else [PrimarySlot i]) (if i < N then fn i else (\<lambda>_. None))"
      using arenaD(3) [OF A] keep new [of i] by (auto simp: N_def)
    show "set (if i < N then ch i else [PrimarySlot i]) \<inter> set F = {}" using arenaD(4) [OF A] by (auto simp: N_def dest!: inF)
    show "(if i < N then ch i else [PrimarySlot i]) \<noteq> []" "hd (if i < N then ch i else [PrimarySlot i]) = PrimarySlot i" using arenaD(1,2) [OF A] by (auto simp: N_def)
    fix i' assume "i' < N + n" "i \<noteq> i'"
    then show "set (if i < N then ch i else [PrimarySlot i]) \<inter> set (if i' < N then ch i' else [PrimarySlot i']) = {}"
      using arenaD(5) [OF A, of i i'] by (auto simp: N_def dest: arena_has [OF A])
  qed
qed

end
