(* ===== verification/Hash_Split.thy ===== *)
theory Hash_Split
  imports Hash_Chains
begin

text \<open>
  Splitting a slot of the in-memory hash index (\<^verbatim>\<open>splitSlot\<close>): the loop that moves the entries of the next
  level and closes the gaps of the others, the levels and masks that route a hash to a primary slot, and
  the invariant of the index, which a split keeps.
\<close>

section \<open>Splitting a slot\<close>

text \<open>A chain has room for its entries and no slot more than they need.\<close>

definition fits :: "nat \<Rightarrow> slot_info list \<Rightarrow> 'a list \<Rightarrow> bool" where
  "fits cap L es \<longleftrightarrow> length es \<le> length L * cap \<and> (length L = 1 \<or> (length L - 1) * cap < length es)"

lemma cellFn_snoc: "cellFn (es @ [c]) = (cellFn es)(length es := Some c)"
  by (auto simp: cellFn_def nth_append)

lemma last_cell:
  assumes "fits cap L es" "L \<noteq> []"
  shows "(length L - 1) * cap \<le> length es" "length L * cap = (length L - 1) * cap + cap"
  using assms by (auto simp: fits_def neq_Nil_conv)

lemma newSlot_ready:
  assumes A: "arena cap (splitIndex st) ch fn F" and i: "i < length (pSlots (splitIndex st))" and cap: "0 < cap" "cap \<le> 20"
    and fn: "fn i = cellFn es" and fit: "fits cap (ch i) es" and st: "newSlot st = last (ch i)" "newSlotPos st = length es - (length (ch i) - 1) * cap"
  shows "\<exists>x' ch' F'. (if newSlotPos st \<ge> cap then
      bindR (allocateAOSlot cap k0 (splitIndex st)) (\<lambda>(x, newOvfSlotId).
      bindR (setNextOvf (newSlot st) (Some newOvfSlotId) x) (\<lambda>x.
      bindR (nextChainedSlot (newSlot st) x) (\<lambda>n. case n of None \<Rightarrow> Inl AssertFail
        | Some info \<Rightarrow> Inr (st\<lparr>splitIndex := x, newSlot := info, newSlotPos := 0\<rparr>))))
    else Inr st) = Inr (st\<lparr>splitIndex := x', newSlot := last (ch' i), newSlotPos := length es - (length (ch' i) - 1) * cap\<rparr>)
    \<and> arena cap x' ch' fn F' \<and> fits cap (ch' i) (es @ [c]) \<and> (\<forall>i'. i' \<noteq> i \<longrightarrow> ch' i' = ch i') \<and> changes UNIV (splitIndex st) x'"
proof -
  have ne: "ch i \<noteq> []" using arenaD(1) [OF A i] .
  note lc = last_cell [OF fit ne]
  show ?thesis
  proof (cases "newSlotPos st \<ge> cap")
    case False
    then have "fits cap (ch i) (es @ [c])" using fit lc st(2) cap(1) by (auto simp: fits_def)
    then show ?thesis using False A st by (intro exI [of _ "splitIndex st"] exI [of _ ch] exI [of _ F]) simp
  next
    case True
    then have full: "length es = length (ch i) * cap" using fit lc st(2) by (auto simp: fits_def)
    have "fn i g = None" if "length (ch i) * cap \<le> g" for g using that full fn by (simp add: cellFn_def)
    from arena_grow [OF A i cap(2) this] obtain y x' o' F' where y: "allocateAOSlot cap k0 (splitIndex st) = Inr (y, o')" "setNextOvf (last (ch i)) (Some o') y = Inr x'"
      "arena cap x' (ch(i := ch i @ [OvfSlot o'])) fn F'" "changes (insert (OvfSlot o') (set (ch i))) (splitIndex st) x'" by blast
    have i': "i < length (pSlots x')" using changes_header(6) [OF y(4)] i by simp
    have "nextChainedSlot (newSlot st) x' = Inr (Some (OvfSlot o'))"
      using chain_next [OF arenaD(3) [OF y(3) i'], of "length (ch i) - 1"] ne by (simp add: st(1) last_conv_nth nth_append)
    moreover have "fits cap (ch i @ [OvfSlot o']) (es @ [c])" using full cap(1) by (simp add: fits_def)
    ultimately show ?thesis using True y full changes_mono [OF y(4)] st
      by (intro exI [of _ x'] exI [of _ "ch(i := ch i @ [OvfSlot o'])"] exI [of _ F']) simp
  qed
qed

lemma moveToNewSlot_arena:
  assumes A: "arena cap (splitIndex st) ch fn F" and i: "i1 < length (pSlots (splitIndex st))" "i0 < length (pSlots (splitIndex st))" "i0 \<noteq> i1" and cap: "0 < cap" "cap \<le> 20"
    and fn: "fn i1 = cellFn es" and fit: "fits cap (ch i1) es" and st: "newSlot st = last (ch i1)" "newSlotPos st = length es - (length (ch i1) - 1) * cap"
    and o: "originalSlot st = ch i0 ! j" "j < length (ch i0)" "p < cap"
  shows "\<exists>x' ch' F'. moveToNewSlot cap k0 p e fp st
      = Inr (st\<lparr>splitIndex := x', newSlot := last (ch' i1), newSlotPos := length es + 1 - (length (ch' i1) - 1) * cap, gaps := True\<rparr>)
    \<and> arena cap x' ch' (fn(i0 := (fn i0)(j * cap + p := None), i1 := cellFn (es @ [(e, fp)]))) F' \<and> fits cap (ch' i1) (es @ [(e, fp)])
    \<and> (\<forall>i. i \<noteq> i1 \<longrightarrow> ch' i = ch i) \<and> changes UNIV (splitIndex st) x'"
proof -
  from newSlot_ready [OF A i(1) cap fn fit st, of k0 "(e, fp)"] obtain x ch' F' where x: "(if newSlotPos st \<ge> cap then
      bindR (allocateAOSlot cap k0 (splitIndex st)) (\<lambda>(x, newOvfSlotId).
      bindR (setNextOvf (newSlot st) (Some newOvfSlotId) x) (\<lambda>x.
      bindR (nextChainedSlot (newSlot st) x) (\<lambda>n. case n of None \<Rightarrow> Inl AssertFail
        | Some info \<Rightarrow> Inr (st\<lparr>splitIndex := x, newSlot := info, newSlotPos := 0\<rparr>))))
    else Inr st) = Inr (st\<lparr>splitIndex := x, newSlot := last (ch' i1), newSlotPos := length es - (length (ch' i1) - 1) * cap\<rparr>)"
    and B: "arena cap x ch' fn F'" and fit': "fits cap (ch' i1) (es @ [(e, fp)])" and ch': "\<forall>i'. i' \<noteq> i1 \<longrightarrow> ch' i' = ch i'" and c: "changes UNIV (splitIndex st) x"
    by blast
  have i': "i1 < length (pSlots x)" "i0 < length (pSlots x)" using changes_header(6) [OF c] i by simp_all
  have ne: "ch' i1 \<noteq> []" using arenaD(1) [OF B i'(1)] .
  let ?k = "length (ch' i1) - 1" and ?q = "length es - (length (ch' i1) - 1) * cap"
  have q: "?k * cap + ?q = length es" "?q < cap" "?k < length (ch' i1)"
    using last_cell [OF fit' ne] fit' ne by (auto simp: fits_def)
  from arena_cell(1) [OF B i'(1) q(3,2) cap(2), of e fp] obtain y where y: "putEntry (last (ch' i1)) ?q e fp x = Inr y"
    "arena cap y ch' (fn(i1 := (fn i1)(length es := Some (e, fp)))) F'" "changes {ch' i1 ! ?k} x y"
    unfolding q(1) using ne by (auto simp: last_conv_nth)
  have "i0 < length (pSlots y)" "j < length (ch' i0)" using changes_header(6) [OF y(3)] i' ch' i(3) o(2) by simp_all
  from arena_cell(2) [OF y(2) this o(3) cap(2)] obtain z where z: "invalidateEntry (ch' i0 ! j) p y = Inr z"
    "arena cap z ch' (fn(i0 := (fn i0)(j * cap + p := None), i1 := cellFn (es @ [(e, fp)]))) F'" "changes {ch' i0 ! j} y z"
    using i(3) by (auto simp: fn cellFn_snoc fun_upd_twist)
  have "changes UNIV (splitIndex st) z" by (rule changes_trans [OF changes_trans [OF c y(3), of UNIV] z(3)]) simp_all
  moreover have "moveToNewSlot cap k0 p e fp st
      = Inr (st\<lparr>splitIndex := z, newSlot := last (ch' i1), newSlotPos := length es + 1 - ?k * cap, gaps := True\<rparr>)"
    unfolding moveToNewSlot_def x using y(1) z(1) o(1) ch' i(3) q(1) by (simp add: Suc_diff_le)
  ultimately show ?thesis using z(2) fit' ch' by blast
qed

lemma moveToGap_arena:
  assumes A: "arena cap (splitIndex st) ch fn F" and i: "i0 < length (pSlots (splitIndex st))" and cap: "0 < cap" "cap \<le> 20"
    and gap: "fn i0 n = None" "n < length (ch i0) * cap" "\<And>g. g < n \<Longrightarrow> fn i0 g \<noteq> None"
    and ins: "originalSlotForInsert st = ch i0 ! j'" "j' * cap + entryPosToInsert st \<le> n" "entryPosToInsert st < cap"
    and o: "originalSlot st = ch i0 ! j" "j < length (ch i0)" "p < cap"
  shows "\<exists>x'. moveToGap cap p e fp st = Some (Inr (st\<lparr>splitIndex := x', originalSlotForInsert := ch i0 ! (n div cap), entryPosToInsert := n mod cap\<rparr>))
    \<and> arena cap x' ch (fn(i0 := (fn i0)(n := Some (e, fp), j * cap + p := None))) F \<and> changes UNIV (splitIndex st) x'"
proof -
  have adv: "advanceToGap cap (splitIndex st) (originalSlotForInsert st) (entryPosToInsert st) = Some (Inr (ch i0 ! (n div cap), n mod cap))"
    unfolding ins(1) by (rule advanceToGap_chain [OF arenaD(3) [OF A i] cap(1) gap(2,1) ins(2,3)]) (rule gap(3))
  have n: "n div cap < length (ch i0)" "n mod cap < cap" using gap(2) cap(1) by (simp_all add: div_less_iff_less_mult)
  from arena_cell(1) [OF A i n cap(2), of e fp] obtain y where y: "putEntry (ch i0 ! (n div cap)) (n mod cap) e fp (splitIndex st) = Inr y"
    "arena cap y ch (fn(i0 := (fn i0)(n := Some (e, fp)))) F" "changes {ch i0 ! (n div cap)} (splitIndex st) y" by auto
  have "i0 < length (pSlots y)" using changes_header(6) [OF y(3)] i by simp
  from arena_cell(2) [OF y(2) this o(2,3) cap(2)] obtain z where z: "invalidateEntry (ch i0 ! j) p y = Inr z"
    "arena cap z ch (fn(i0 := (fn i0)(n := Some (e, fp), j * cap + p := None))) F" "changes {ch i0 ! j} y z" by auto
  have "changes UNIV (splitIndex st) z" by (rule changes_trans [OF y(3) z(3)]) simp
  then show ?thesis using adv y(1) z o(1) by (auto simp: moveToGap_def)
qed

text \<open>
  The state of the split after \<open>g\<close> cells of the chain with the entries \<open>es\<close>: those of them that stay are the first
  cells of the chain, the others are the new chain.
\<close>

definition keptCells :: "'a list \<Rightarrow> nat \<Rightarrow> 'a list \<Rightarrow> nat \<Rightarrow> 'a option" where
  "keptCells kept g es q = (if q < length kept then Some (kept ! q) else if q < g then None else cellFn es q)"

lemma keptCells_steps:
  "length kept \<le> g \<Longrightarrow> (keptCells kept g es)(g := None) = keptCells kept (g + 1) es"
  "length kept < g \<Longrightarrow> (keptCells kept g es)(length kept := Some c, g := None) = keptCells (kept @ [c]) (g + 1) es"
  "length kept = g \<Longrightarrow> g < length es \<Longrightarrow> keptCells kept g es = keptCells (kept @ [es ! g]) (g + 1) es"
  by (auto simp: keptCells_def cellFn_def nth_append fun_eq_iff less_Suc_eq)

lemma keptCells_ends: "keptCells [] 0 es = cellFn es" "length es \<le> g \<Longrightarrow> keptCells kept g es = cellFn kept"
  by (auto simp: keptCells_def cellFn_def fun_eq_iff)

definition stays :: "('k \<Rightarrow> u64) \<Rightarrow> hash_index_header \<Rightarrow> 'k slot_entry \<times> 8 word \<Rightarrow> bool" where
  "stays hash h c \<longleftrightarrow> unat (hash (fst (fst c)) AND higherLevelHashMask h) = nextSplitSlotId h"

definition fingerprinted :: "('k \<Rightarrow> u64) \<Rightarrow> ('k slot_entry \<times> 8 word) list \<Rightarrow> bool" where
  "fingerprinted hash es \<longleftrightarrow> (\<forall>c \<in> set es. snd c = getFingerprintForHash (hash (fst (fst c))))"

definition split_inv :: "nat \<Rightarrow> ('k slot_entry \<times> 8 word \<Rightarrow> bool) \<Rightarrow> ('k slot_entry \<times> 8 word) list \<Rightarrow> nat \<Rightarrow> nat \<Rightarrow> 'k in_mem_hash_index \<Rightarrow> (nat \<Rightarrow> slot_info list) \<Rightarrow> (nat \<Rightarrow> nat \<Rightarrow> 'k cell)
    \<Rightarrow> nat \<Rightarrow> 'k split_state \<Rightarrow> (nat \<Rightarrow> slot_info list) \<Rightarrow> slot_info list \<Rightarrow> bool" where
  "split_inv cap stay es i0 i1 x0 ch0 fn0 g st ch F \<longleftrightarrow>
     (let kept = filter stay (take g es); moved = filter (\<lambda>c. \<not> stay c) (take g es) in
      arena cap (splitIndex st) ch (fn0(i0 := keptCells kept g es, i1 := cellFn moved)) F
      \<and> changes UNIV x0 (splitIndex st) \<and> (\<forall>i. i \<noteq> i1 \<longrightarrow> ch i = ch0 i)
      \<and> newSlot st = last (ch i1) \<and> newSlotPos st = length moved - (length (ch i1) - 1) * cap \<and> fits cap (ch i1) moved
      \<and> gaps st = (length kept < g)
      \<and> (\<exists>j. originalSlotForInsert st = ch i0 ! j \<and> j < length (ch i0) \<and> entryPosToInsert st < cap
            \<and> (j * cap + entryPosToInsert st = 0 \<or> j * cap + entryPosToInsert st < length kept)))"

lemma splitEntry_step:
  fixes hash :: "'k \<Rightarrow> u64"
  assumes inv: "split_inv cap stay es i0 i1 x0 ch0 fn0 g st ch F" and cap: "0 < cap" "cap \<le> 20" and i: "i0 < length (pSlots x0)" "i1 < length (pSlots x0)" "i0 \<noteq> i1"
    and o: "originalSlot st = ch0 i0 ! j" "j < length (ch0 i0)" "p < cap" and g: "g = j * cap + p" "g < length es"
    and stay: "stay = stays hash (indexHeader x0)"
    and fp: "fingerprinted hash es"
  shows "\<exists>st' ch' F'. splitEntry cap k0 hash p st = Some (Inr (st', False)) \<and> split_inv cap stay es i0 i1 x0 ch0 fn0 (g + 1) st' ch' F' \<and> originalSlot st' = originalSlot st"
proof -
  let ?x = "splitIndex st" and ?kept = "filter stay (take g es)" and ?moved = "filter (\<lambda>c. \<not> stay c) (take g es)"
  let ?fn = "fn0(i0 := keptCells ?kept g es, i1 := cellFn ?moved)"
  have A: "arena cap ?x ch ?fn F" and c: "changes UNIV x0 ?x" and ch: "\<forall>i. i \<noteq> i1 \<longrightarrow> ch i = ch0 i" and new: "newSlot st = last (ch i1)" "newSlotPos st = length ?moved - (length (ch i1) - 1) * cap"
    and fit: "fits cap (ch i1) ?moved" and gaps: "gaps st = (length ?kept < g)" using inv by (auto simp: split_inv_def Let_def)
  obtain j' where ins: "originalSlotForInsert st = ch i0 ! j'" "j' < length (ch i0)" "entryPosToInsert st < cap" "j' * cap + entryPosToInsert st = 0 \<or> j' * cap + entryPosToInsert st < length ?kept"
    using inv by (auto simp: split_inv_def Let_def)
  note hdr = changes_header [OF c]
  have i': "i0 < length (pSlots ?x)" "i1 < length (pSlots ?x)" using i hdr(6) by simp_all
  have o': "originalSlot st = ch i0 ! j" "j < length (ch i0)" using o ch i(3) by simp_all
  obtain e f where ef: "es ! g = (e, f)" by (cases "es ! g")
  have f: "f = getFingerprintForHash (hash (fst e))" using fp nth_mem [OF g(2)] by (auto simp: ef fingerprinted_def)
  have le: "length ?kept \<le> g" using length_filter_le [of stay "take g es"] g(2) by simp
  note C = arenaD(3) [OF A i'(1)]
  have cell: "?fn i0 (j * cap + p) = Some (e, f)" unfolding g(1) [symmetric] using le g(2) i(3) by (simp add: keptCells_def cellFn_def ef)
  have slot: "hasSlot ?x (originalSlot st)" "isEntryValid p (slotHeader (slotAt ?x (originalSlot st)))" "nthR (slotEntries (slotAt ?x (originalSlot st))) p = Inr e"
    using chainD(1) [OF C o'(2)] slot_cell [OF C o'(2) o(3)] cell slot_ok_cap(1) [OF chainD(2) [OF C o'(2)]] o(3) by (auto simp: o'(1))
  have stay': "stay (es ! g) \<longleftrightarrow> unat (hash (fst e) AND higherLevelHashMask (indexHeader ?x)) = nextSplitSlotId (indexHeader ?x)" by (simp add: stay stays_def ef hdr)
  have take: "take (g + 1) es = take g es @ [es ! g]" using g(2) by (simp add: take_Suc_conv_app_nth)
  consider "\<not> stay (es ! g)" | "stay (es ! g)" "length ?kept < g" | "stay (es ! g)" "length ?kept = g" using le by linarith
  then show ?thesis
  proof cases
    case 1
    from moveToNewSlot_arena [OF A i'(2,1) i(3) cap _ fit new o' o(3), of k0 e f] obtain x' ch' F' where x': "moveToNewSlot cap k0 p e f st
        = Inr (st\<lparr>splitIndex := x', newSlot := last (ch' i1), newSlotPos := length ?moved + 1 - (length (ch' i1) - 1) * cap, gaps := True\<rparr>)"
      "arena cap x' ch' (?fn(i0 := (?fn i0)(j * cap + p := None), i1 := cellFn (?moved @ [(e, f)]))) F'" "fits cap (ch' i1) (?moved @ [(e, f)])"
      "\<forall>i. i \<noteq> i1 \<longrightarrow> ch' i = ch i" "changes UNIV ?x x'" by auto
    have "?fn(i0 := (?fn i0)(j * cap + p := None), i1 := cellFn (?moved @ [(e, f)])) = fn0(i0 := keptCells ?kept (g + 1) es, i1 := cellFn (?moved @ [es ! g]))"
      unfolding g(1) [symmetric] using i(3) keptCells_steps(1) [OF le, of es] by (auto simp: fun_eq_iff ef)
    then have "split_inv cap stay es i0 i1 x0 ch0 fn0 (g + 1) (st\<lparr>splitIndex := x', newSlot := last (ch' i1), newSlotPos := length ?moved + 1 - (length (ch' i1) - 1) * cap, gaps := True\<rparr>) ch' F'"
      using x' ch ins i(3) 1 le changes_trans [OF c x'(5)] ef unfolding split_inv_def take Let_def by auto
    moreover have "splitEntry cap k0 hash p st = Some (Inr (st\<lparr>splitIndex := x', newSlot := last (ch' i1), newSlotPos := length ?moved + 1 - (length (ch' i1) - 1) * cap, gaps := True\<rparr>, False))"
      using slot 1 stay' x'(1) f by (simp add: splitEntry_def)
    ultimately show ?thesis by auto
  next
    case 2
    have G: "?fn i0 (length ?kept) = None" "\<And>q. q < length ?kept \<Longrightarrow> ?fn i0 q \<noteq> None" using 2 i(3) by (auto simp: keptCells_def)
    have "g < length (ch i0) * cap" using o'(2) o(3) mult_le_mono1 [of "Suc j" "length (ch i0)" cap] by (simp add: g(1))
    then have n: "length ?kept < length (ch i0) * cap" using 2 by simp
    have "j' * cap + entryPosToInsert st \<le> length ?kept" using ins(4) by auto
    from moveToGap_arena [OF A i'(1) cap G(1) n G(2) ins(1) this ins(3) o' o(3), of e f] obtain x' where x':
      "moveToGap cap p e f st = Some (Inr (st\<lparr>splitIndex := x', originalSlotForInsert := ch i0 ! (length ?kept div cap), entryPosToInsert := length ?kept mod cap\<rparr>))"
      "arena cap x' ch (?fn(i0 := (?fn i0)(length ?kept := Some (e, f), j * cap + p := None))) F" "changes UNIV ?x x'" by blast
    have "?fn(i0 := (?fn i0)(length ?kept := Some (e, f), j * cap + p := None)) = fn0(i0 := keptCells (?kept @ [es ! g]) (g + 1) es, i1 := cellFn ?moved)"
      unfolding g(1) [symmetric] using i(3) keptCells_steps(2) [OF 2(2), of es "es ! g"] by (auto simp: fun_eq_iff ef)
    then have B: "arena cap x' ch (fn0(i0 := keptCells (?kept @ [es ! g]) (g + 1) es, i1 := cellFn ?moved)) F" using x'(2) by simp
    have "filter stay (take (g + 1) es) = ?kept @ [es ! g]" "filter (\<lambda>c. \<not> stay c) (take (g + 1) es) = ?moved" unfolding take using 2(1) by simp_all
    note eq = split_inv_def Let_def this
    have "split_inv cap stay es i0 i1 x0 ch0 fn0 (g + 1) (st\<lparr>splitIndex := x', originalSlotForInsert := ch i0 ! (length ?kept div cap), entryPosToInsert := length ?kept mod cap\<rparr>) ch F"
      unfolding eq using B changes_trans [OF c x'(3), of UNIV] ch new fit gaps 2(2) n cap(1)
      by (intro conjI exI [of _ "length ?kept div cap"]) (simp_all add: div_less_iff_less_mult)
    moreover have "splitEntry cap k0 hash p st = Some (Inr (st\<lparr>splitIndex := x', originalSlotForInsert := ch i0 ! (length ?kept div cap), entryPosToInsert := length ?kept mod cap\<rparr>, False))"
      using slot 2 stay' x'(1) f gaps by (simp add: splitEntry_def)
    ultimately show ?thesis by auto
  next
    case 3
    have "split_inv cap stay es i0 i1 x0 ch0 fn0 (g + 1) st ch F"
      using A ch new fit gaps 3 c ins keptCells_steps(3) [OF 3(2) g(2)] unfolding split_inv_def take Let_def
      by (auto intro!: exI [of _ j'])
    moreover have "splitEntry cap k0 hash p st = Some (Inr (st, False))"
      using slot 3 stay' gaps by (simp add: splitEntry_def)
    ultimately show ?thesis by auto
  qed
qed

lemma split_slot_assertion:
  assumes inv: "split_inv cap stay es i0 i1 x0 ch0 fn0 g st ch F" and cap: "cap \<le> 20" and i: "i0 < length (pSlots x0)" "i0 \<noteq> i1"
    and o: "originalSlot st = ch0 i0 ! j" "j < length (ch0 i0)" and g: "g = length es \<or> (j + 1) * cap \<le> g"
  shows "hasSlot (splitIndex st) (originalSlot st)" "slot_numEntries (slotHeader (slotAt (splitIndex st) (originalSlot st))) = countr_one (validityMask (slotHeader (slotAt (splitIndex st) (originalSlot st))))"
    "nextChainedSlot (originalSlot st) (splitIndex st) = Inr (if j + 1 < length (ch0 i0) then Some (ch0 i0 ! (j + 1)) else None)"
    "p < cap \<Longrightarrow> g = j * cap + p \<Longrightarrow> g = length es \<Longrightarrow> \<not> isEntryValid p (slotHeader (slotAt (splitIndex st) (originalSlot st)))"
proof -
  let ?x = "splitIndex st" and ?kept = "filter stay (take g es)" and ?moved = "filter (\<lambda>c. \<not> stay c) (take g es)"
  let ?fn = "fn0(i0 := keptCells ?kept g es, i1 := cellFn ?moved)"
  have A: "arena cap ?x ch ?fn F" and c: "changes UNIV x0 ?x" and ch: "ch i0 = ch0 i0" using inv i(2) by (auto simp: split_inv_def Let_def)
  have i': "i0 < length (pSlots ?x)" using i changes_header(6) [OF c] by simp
  have C: "slotChain cap ?x (ch0 i0) (keptCells ?kept g es)" using arenaD(3) [OF A i'] ch i(2) by simp
  show "hasSlot ?x (originalSlot st)" "nextChainedSlot (originalSlot st) ?x = Inr (if j + 1 < length (ch0 i0) then Some (ch0 i0 ! (j + 1)) else None)"
    using chainD(1) [OF C o(2)] chain_next [OF C o(2)] o(1) by simp_all
  have le: "length ?kept \<le> g" "length ?kept \<le> length es" using length_filter_le [of stay "take g es"] by simp_all
  define k where "k = length ?kept"
  have "keptCells ?kept g es (j * cap + q) \<noteq> None \<longleftrightarrow> q < min cap (length ?kept - j * cap)" if "q < cap" for q
    using that g le unfolding keptCells_def cellFn_def k_def [symmetric] by (auto simp del: not_None_eq)
  from slot_counts [OF C o(2) cap min.cobounded1 this] o(1) show "slot_numEntries (slotHeader (slotAt ?x (originalSlot st))) = countr_one (validityMask (slotHeader (slotAt ?x (originalSlot st))))"
    by simp
  show "\<not> isEntryValid p (slotHeader (slotAt ?x (originalSlot st)))" if "p < cap" "g = j * cap + p" "g = length es"
    using slot_cell(1) [OF C o(2) that(1)] that(2,3) le(1) o(1) by (auto simp: keptCells_def cellFn_def)
qed

lemma splitEntries_chain:
  fixes hash :: "'k \<Rightarrow> u64"
  assumes cap: "0 < cap" "cap \<le> 20" and i: "i0 < length (pSlots x0)" "i1 < length (pSlots x0)" "i0 \<noteq> i1" and j: "j < length (ch0 i0)"
    and stay: "stay = stays hash (indexHeader x0)"
    and fp: "fingerprinted hash es"
  shows "split_inv cap stay es i0 i1 x0 ch0 fn0 (j * cap + p) st ch F \<Longrightarrow> originalSlot st = ch0 i0 ! j \<Longrightarrow> p \<le> cap \<Longrightarrow> j * cap + p \<le> length es \<Longrightarrow>
    \<exists>st' returned ch' F'. splitEntries cap k0 hash [p..<cap] st = Some (Inr (st', returned)) \<and> originalSlot st' = originalSlot st
      \<and> split_inv cap stay es i0 i1 x0 ch0 fn0 (if returned then length es else (j + 1) * cap) st' ch' F' \<and> (\<not> returned \<longrightarrow> (j + 1) * cap \<le> length es)"
proof (induction "cap - p" arbitrary: p st ch F)
  case 0
  then have "p = cap" by simp
  then show ?case using 0 by (auto simp: add.commute)
next
  case (Suc n)
  then have p: "p < cap" "[p..<cap] = p # [p + 1..<cap]" by (simp_all add: upt_conv_Cons)
  show ?case
  proof (cases "j * cap + p < length es")
    case True
    from splitEntry_step [OF Suc.prems(1) cap i Suc.prems(2) j p(1) refl True stay fp, of k0] obtain st' ch' F'
      where st': "splitEntry cap k0 hash p st = Some (Inr (st', False))" "split_inv cap stay es i0 i1 x0 ch0 fn0 (j * cap + (p + 1)) st' ch' F'" "originalSlot st' = originalSlot st"
      by (auto simp: add.assoc)
    have "\<exists>st'' returned ch'' F''. splitEntries cap k0 hash [p + 1..<cap] st' = Some (Inr (st'', returned)) \<and> originalSlot st'' = originalSlot st'
      \<and> split_inv cap stay es i0 i1 x0 ch0 fn0 (if returned then length es else (j + 1) * cap) st'' ch'' F'' \<and> (\<not> returned \<longrightarrow> (j + 1) * cap \<le> length es)"
      using Suc.hyps(2) Suc.prems(2) p(1) True st' by (intro Suc.hyps(1)) auto
    then show ?thesis unfolding p(2) using st'(1,3) by auto
  next
    case False
    then have g: "j * cap + p = length es" using Suc.prems(4) by simp
    note a = split_slot_assertion [OF Suc.prems(1) cap(2) i(1,3) Suc.prems(2) j disjI1 [OF g]]
    have "splitEntry cap k0 hash p st = Some (Inr (st, True))" using a(1,2) a(4) [OF p(1) refl g] by (simp add: splitEntry_def)
    then show ?thesis unfolding p(2) using Suc.prems(1) g by auto
  qed
qed

lemma splitLoop_chain:
  fixes hash :: "'k \<Rightarrow> u64"
  assumes cap: "0 < cap" "cap \<le> 20" and i: "i0 < length (pSlots x0)" "i1 < length (pSlots x0)" "i0 \<noteq> i1" and es: "length es \<le> length (ch0 i0) * cap"
    and stay: "stay = stays hash (indexHeader x0)"
    and fp: "fingerprinted hash es"
  shows "split_inv cap stay es i0 i1 x0 ch0 fn0 (j * cap) st ch F \<Longrightarrow> originalSlot st = ch0 i0 ! j \<Longrightarrow> j < length (ch0 i0) \<Longrightarrow> j * cap \<le> length es \<Longrightarrow>
    \<exists>st' ch' F'. splitLoop cap k0 hash st = Some (Inr st') \<and> split_inv cap stay es i0 i1 x0 ch0 fn0 (length es) st' ch' F'"
proof (induction "length (ch0 i0) - j" arbitrary: j st ch F)
  case (Suc n)
  from splitEntries_chain [where ?ch0.0 = ch0 and p = 0 and st = st and ch = ch and F = F and ?k0.0 = k0 and ?fn0.0 = fn0, OF cap i Suc.prems(3) stay fp] Suc.prems obtain st' returned ch' F' where
    st': "splitEntries cap k0 hash [0..<cap] st = Some (Inr (st', returned))" "originalSlot st' = ch0 i0 ! j"
      "split_inv cap stay es i0 i1 x0 ch0 fn0 (if returned then length es else (j + 1) * cap) st' ch' F'" "\<not> returned \<longrightarrow> (j + 1) * cap \<le> length es" by auto
  show ?case
  proof (cases returned)
    case True
    then show ?thesis using st' by (subst splitLoop.simps) auto
  next
    case False
    then have inv: "split_inv cap stay es i0 i1 x0 ch0 fn0 ((j + 1) * cap) st' ch' F'" using st'(3) by simp
    note a = split_slot_assertion [OF inv cap(2) i(1,3) st'(2) Suc.prems(3) disjI2 [OF order_refl]]
    show ?thesis
    proof (cases "j + 1 < length (ch0 i0)")
      case True
      have "split_inv cap stay es i0 i1 x0 ch0 fn0 ((j + 1) * cap) (st'\<lparr>originalSlot := ch0 i0 ! (j + 1)\<rparr>) ch' F'" using inv by (simp add: split_inv_def)
      then have "\<exists>st'' ch'' F''. splitLoop cap k0 hash (st'\<lparr>originalSlot := ch0 i0 ! (j + 1)\<rparr>) = Some (Inr st'') \<and> split_inv cap stay es i0 i1 x0 ch0 fn0 (length es) st'' ch'' F''"
        using Suc.hyps(2) True st'(4) False by (intro Suc.hyps(1)) auto
      then show ?thesis using st'(1) False True a(1,2,3) by (subst splitLoop.simps) simp
    next
      case last': False
      then have "(j + 1) * cap = length es" using es st'(4) False Suc.prems(3) mult_le_mono1 [of "length (ch0 i0)" "j + 1" cap] by linarith
      then show ?thesis using st'(1) False last' inv a(1,2,3) by (subst splitLoop.simps) auto
    qed
  qed
qed simp

section \<open>Levels and routes\<close>

definition levels_ok :: "hash_index_header \<Rightarrow> nat \<Rightarrow> bool" where
  "levels_ok h n \<longleftrightarrow> levelHashMask h = mask (currentLevel h) \<and> higherLevelHashMask h = mask (currentLevel h + 1)
     \<and> nextSplitSlotId h < 2 ^ currentLevel h \<and> n = 2 ^ currentLevel h + nextSplitSlotId h"

lemma intMask_mask: "n \<le> 31 \<Longrightarrow> intMask n = mask n"
  by (rule bit_word_eqI) (auto simp: intMask_def push_bit_of_1 mask_eq_exp_minus_1 [symmetric] bit_signed_iff bit_mask_iff min_def)

lemma and_mask_mod: "n \<le> 64 \<Longrightarrow> unat ((w::u64) AND mask n) = unat w mod 2 ^ n"
  by (simp add: take_bit_eq_mask [symmetric] unsigned_take_bit_eq flip: take_bit_eq_mod)

lemma header_level: "levels_ok h n \<Longrightarrow> n < 2 ^ 31 \<Longrightarrow> currentLevel h \<le> 30"
proof (rule ccontr)
  assume h: "levels_ok h n" "n < 2 ^ 31" and "\<not> currentLevel h \<le> 30"
  then have "(2::nat) ^ 31 \<le> 2 ^ currentLevel h" by (intro power_increasing) auto
  then show False using h by (simp add: levels_ok_def)
qed

lemma getPrimarySlotId_mod:
  assumes "levels_ok h n" "n < 2 ^ 31"
  shows "getPrimarySlotIdForHash h w = (if unat w mod 2 ^ currentLevel h < nextSplitSlotId h then unat w mod 2 ^ (currentLevel h + 1) else unat w mod 2 ^ currentLevel h)"
  using assms header_level [OF assms] unfolding getPrimarySlotIdForHash_def levels_ok_def Let_def by (simp add: and_mask_mod)

lemma mod_two_powers: "(u::nat) mod 2 ^ (l + 1) = u mod 2 ^ l \<or> u mod 2 ^ (l + 1) = u mod 2 ^ l + 2 ^ l"
proof -
  have "u mod (2 ^ l * 2) = 2 ^ l * (u div 2 ^ l mod 2) + u mod 2 ^ l" by (rule mod_mult2_eq)
  then show ?thesis by (cases "u div 2 ^ l mod 2 = 0") (simp_all add: mult.commute)
qed

lemma route_in_range:
  assumes "levels_ok h n" "n < 2 ^ 31"
  shows "getPrimarySlotIdForHash h w < n"
proof -
  have "unat w mod 2 ^ currentLevel h < 2 ^ currentLevel h" by simp
  then show ?thesis using mod_two_powers [of "unat w" "currentLevel h"] assms(1) by (auto simp: getPrimarySlotId_mod [OF assms] levels_ok_def intro: trans_less_add1)
qed

lemma incrementNextSplitSlotId_ok:
  assumes h: "levels_ok h n" and n: "n + 1 < 2 ^ 31"
  shows "levels_ok (incrementNextSplitSlotId h) (n + 1)"
proof (cases "nextSplitSlotId h < 2 ^ currentLevel h - 1")
  case True
  then show ?thesis using h by (auto simp: incrementNextSplitSlotId_def levels_ok_def)
next
  case False
  have s: "nextSplitSlotId h < 2 ^ currentLevel h" "n = 2 ^ currentLevel h + nextSplitSlotId h" using h by (simp_all add: levels_ok_def)
  with False have full: "n + 1 = 2 ^ (currentLevel h + 1)" unfolding power_add power_one_right by linarith
  have "currentLevel h + 1 \<le> 30"
  proof (rule ccontr)
    assume "\<not> currentLevel h + 1 \<le> 30"
    then have "(2::nat) ^ 31 \<le> 2 ^ (currentLevel h + 1)" by (intro power_increasing) auto
    then show False using full n by simp
  qed
  then show ?thesis using False full by (simp add: incrementNextSplitSlotId_def incrementLevel_def levels_ok_def intMask_mask)
qed

text \<open>After a split only the entries of the split slot have another primary slot, by the mask of the next level.\<close>

lemma split_route:
  assumes h: "levels_ok h n" and n: "n + 1 < 2 ^ 31"
  shows "getPrimarySlotIdForHash h w \<noteq> nextSplitSlotId h \<Longrightarrow> getPrimarySlotIdForHash (incrementNextSplitSlotId h) w = getPrimarySlotIdForHash h w"
    "getPrimarySlotIdForHash h w = nextSplitSlotId h \<Longrightarrow>
      getPrimarySlotIdForHash (incrementNextSplitSlotId h) w = (if unat (w AND higherLevelHashMask h) = nextSplitSlotId h then nextSplitSlotId h else n)"
proof -
  let ?l = "currentLevel h" and ?s = "nextSplitSlotId h" and ?a = "unat w mod 2 ^ currentLevel h" and ?b = "unat w mod 2 ^ (currentLevel h + 1)"
  have n': "n < 2 ^ 31" using n by simp
  have a: "?a < 2 ^ ?l" by simp
  note b = mod_two_powers [of "unat w" ?l]
  have s: "?s < 2 ^ ?l" "n = 2 ^ ?l + ?s" using h by (simp_all add: levels_ok_def)
  have m: "unat (w AND higherLevelHashMask h) = ?b" using h header_level [OF h n'] unfolding levels_ok_def by (simp add: and_mask_mod)
  have old: "getPrimarySlotIdForHash h w = (if ?a < ?s then ?b else ?a)" by (rule getPrimarySlotId_mod [OF h n'])
  have new: "getPrimarySlotIdForHash (incrementNextSplitSlotId h) w = (if ?a < ?s + 1 then ?b else ?a)"
  proof (cases "?s < 2 ^ ?l - 1")
    case True
    then show ?thesis unfolding getPrimarySlotId_mod [OF incrementNextSplitSlotId_ok [OF h n] n] by (simp add: incrementNextSplitSlotId_def)
  next
    case False
    then have "?a < ?s + 1" using a by linarith
    then show ?thesis unfolding getPrimarySlotId_mod [OF incrementNextSplitSlotId_ok [OF h n] n] using False by (simp add: incrementNextSplitSlotId_def incrementLevel_def)
  qed
  show "getPrimarySlotIdForHash h w \<noteq> ?s \<Longrightarrow> getPrimarySlotIdForHash (incrementNextSplitSlotId h) w = getPrimarySlotIdForHash h w"
    unfolding old new by (auto simp: less_Suc_eq)
  show "getPrimarySlotIdForHash h w = ?s \<Longrightarrow> getPrimarySlotIdForHash (incrementNextSplitSlotId h) w = (if unat (w AND higherLevelHashMask h) = ?s then ?s else n)"
    unfolding old new m using b s by (auto split: if_splits)
qed

section \<open>The invariant of the index\<close>

definition index_inv :: "nat \<Rightarrow> ('k \<Rightarrow> u64) \<Rightarrow> 'k in_mem_hash_index \<Rightarrow> (nat \<Rightarrow> slot_info list) \<Rightarrow> (nat \<Rightarrow> ('k slot_entry \<times> 8 word) list) \<Rightarrow> slot_info list \<Rightarrow> bool" where
  "index_inv cap hash x ch E F \<longleftrightarrow> arena cap x ch (\<lambda>i. cellFn (E i)) F \<and> levels_ok (indexHeader x) (length (pSlots x)) \<and> length (pSlots x) < 2 ^ 31
     \<and> (\<forall>i < length (pSlots x). fits cap (ch i) (E i) \<and> fingerprinted hash (E i) \<and> (\<forall>c \<in> set (E i). getPrimarySlotIdForHash (indexHeader x) (hash (fst (fst c))) = i))
     \<and> (numEntries (indexHeader x) = 0 \<longrightarrow> (\<forall>i < length (pSlots x). E i = []))"

definition neededSlots :: "nat \<Rightarrow> 'a list \<Rightarrow> nat" where
  "neededSlots cap es = (if es = [] then 1 else (length es - 1) div cap + 1)"

lemma neededSlots:
  assumes "0 < cap" "L \<noteq> []" "length es \<le> length L * cap"
  shows "neededSlots cap es \<le> length L" "fits cap (take (neededSlots cap es) L) es" "j < neededSlots cap es \<longleftrightarrow> j = 0 \<or> j * cap < length es"
    "length es \<le> neededSlots cap es * cap"
proof -
  have pos: "0 < length L" using assms(2) by simp
  have lt: "(length es - 1) div cap < length L" using assms(3) mult_pos_pos [OF pos assms(1)] by (intro less_mult_imp_div_less) linarith
  show m: "neededSlots cap es \<le> length L" using lt pos by (simp add: neededSlots_def)
  show j: "j < neededSlots cap es \<longleftrightarrow> j = 0 \<or> j * cap < length es" for j
    using assms(1) less_eq_div_iff_mult_less_eq [of cap j "length es - 1"] by (auto simp: neededSlots_def less_Suc_eq_le)
  show le: "length es \<le> neededSlots cap es * cap" using j [of "neededSlots cap es"] by (simp add: not_less)
  show "fits cap (take (neededSlots cap es) L) es" using m le j [of "neededSlots cap es - 1"] by (auto simp: fits_def neededSlots_def split: if_splits)
qed

lemma arena_header:
  assumes "arena cap x ch fn F" "firstFreeOverflowSlotId h = firstFreeOverflowSlotId (indexHeader x)"
  shows "arena cap (x\<lparr>indexHeader := h\<rparr>) ch fn F"
  using assms by (simp add: arena_def freeList_def)

lemma arena_trim:
  assumes A: "arena cap x ch fn F" and i: "i < length (pSlots x)" and cap: "0 < cap" "cap \<le> 20" and es: "fn i = cellFn es" "length es \<le> length (ch i) * cap"
    and j: "j = 0 \<or> j * cap < length es"
  shows "\<exists>x' F'. reclaimOverflowSlots (ch i ! j) x = Some (Inr x') \<and> arena cap x' (ch(i := take (neededSlots cap es) (ch i))) fn F' \<and> changes (set (ch i)) x x'"
proof -
  note n = neededSlots [OF cap(1) arenaD(1) [OF A i] es(2)]
  have "ch i ! 0 = PrimarySlot i" using arenaD(1,2) [OF A i] by (simp add: hd_conv_nth)
  then have "keptSlot cap (ch i) (fn i) j'" if "j' < neededSlots cap es" for j'
  proof (cases "j' = 0")
    case False
    then have "fn i (j' * cap + 0) \<noteq> None" using that n(3) by (simp add: es(1) cellFn_def)
    then show ?thesis using cap(1) unfolding keptSlot_def by blast
  qed (simp add: keptSlot_def)
  moreover have "fn i g = None" if "neededSlots cap es * cap \<le> g" for g using that n(4) by (simp add: es(1) cellFn_def)
  ultimately show ?thesis using n(1,3) j by (intro arena_reclaim [OF A i cap(2,1)]) auto
qed

lemma same_header:
  assumes "h\<lparr>firstFreeOverflowSlotId := None\<rparr> = h'\<lparr>firstFreeOverflowSlotId := None\<rparr>"
  shows "levels_ok h n = levels_ok h' n" "getPrimarySlotIdForHash h = getPrimarySlotIdForHash h'" "nextSplitSlotId h = nextSplitSlotId h'"
    "higherLevelHashMask h = higherLevelHashMask h'" "numEntries h = numEntries h'"
proof -
  have f: "currentLevel h = currentLevel h'" "levelHashMask h = levelHashMask h'" "higherLevelHashMask h = higherLevelHashMask h'"
    "nextSplitSlotId h = nextSplitSlotId h'" "numEntries h = numEntries h'"
    using arg_cong [OF assms, of currentLevel] arg_cong [OF assms, of levelHashMask] arg_cong [OF assms, of higherLevelHashMask]
      arg_cong [OF assms, of nextSplitSlotId] arg_cong [OF assms, of numEntries] by simp_all
  then show "levels_ok h n = levels_ok h' n" "getPrimarySlotIdForHash h = getPrimarySlotIdForHash h'" "nextSplitSlotId h = nextSplitSlotId h'"
    "higherLevelHashMask h = higherLevelHashMask h'" "numEntries h = numEntries h'"
    by (simp_all add: levels_ok_def getPrimarySlotIdForHash_def Let_def fun_eq_iff)
qed

lemma splitSlot_start:
  assumes inv: "index_inv cap hash x ch E F" and cap: "0 < cap" "cap \<le> 20"
  defines "i0 \<equiv> nextSplitSlotId (indexHeader x)" and "n \<equiv> length (pSlots x)"
  shows "\<exists>c x2 ch2 F2. countSlots (PrimarySlot i0) 1 (allocatePSlots cap k0 1 x) = Some (Inr c) \<and> reserveOverflowSlots cap k0 c (allocatePSlots cap k0 1 x) = Inr x2
    \<and> i0 < n \<and> length (pSlots x2) = n + 1 \<and> (\<forall>i < n. ch2 i = ch i) \<and> (indexHeader x2)\<lparr>firstFreeOverflowSlotId := None\<rparr> = (indexHeader x)\<lparr>firstFreeOverflowSlotId := None\<rparr>
    \<and> ch2 i0 ! 0 = PrimarySlot i0 \<and> ch2 i0 \<noteq> []
    \<and> split_inv cap (stays hash (indexHeader x2)) (E i0) i0 n x2 ch2 (\<lambda>i. cellFn (E i)) 0
        \<lparr>splitIndex = x2, originalSlot = PrimarySlot i0, originalSlotForInsert = PrimarySlot i0, entryPosToInsert = 0,
          newSlot = PrimarySlot (length (pSlots x2) - 1), newSlotPos = 0, gaps = False\<rparr> ch2 F2"
proof -
  have A: "arena cap x ch (\<lambda>i. cellFn (E i)) F" and i0: "i0 < n" using inv by (simp_all add: index_inv_def levels_ok_def i0_def n_def)
  let ?y = "allocatePSlots cap k0 1 x" and ?ch = "\<lambda>i. if i < n then ch i else [PrimarySlot i]" and ?fn = "\<lambda>i. if i < n then cellFn (E i) else (\<lambda>_. None)"
  have B: "arena cap ?y ?ch ?fn F" using arena_primary [OF A, of k0 1] by (simp add: n_def)
  have y: "length (pSlots ?y) = n + 1" "indexHeader ?y = indexHeader x" by (simp_all add: allocatePSlots_def n_def)
  have first: "ch i0 ! 0 = PrimarySlot i0" "ch i0 \<noteq> []" using arenaD(1,2) [OF A, of i0] i0 by (simp_all add: n_def hd_conv_nth)
  have "slotChain cap ?y (ch i0) (cellFn (E i0))" using arenaD(3) [OF B, of i0] i0 y(1) by simp
  from countSlots_chain [OF this, of 0 1] obtain c where c: "countSlots (PrimarySlot i0) 1 ?y = Some (Inr c)" using first by auto
  from arena_reserve [OF B, of k0 c] obtain x2 F2 where x2: "reserveOverflowSlots cap k0 c ?y = Inr x2" "arena cap x2 ?ch ?fn F2" "changes {} ?y x2" by blast
  have len: "length (pSlots x2) = n + 1" using changes_header(6) [OF x2(3)] y(1) by simp
  have fn: "((\<lambda>i. cellFn (E i))(i0 := keptCells [] 0 (E i0), n := cellFn [])) i = ?fn i" if "i < n + 1" for i
    using that i0 by (auto simp: keptCells_ends cellFn_def fun_eq_iff)
  have "arena cap x2 ?ch ((\<lambda>i. cellFn (E i))(i0 := keptCells [] 0 (E i0), n := cellFn [])) F2"
    using x2(2) fn unfolding arena_def len by auto
  then have "split_inv cap (stays hash (indexHeader x2)) (E i0) i0 n x2 ?ch (\<lambda>i. cellFn (E i)) 0
        \<lparr>splitIndex = x2, originalSlot = PrimarySlot i0, originalSlotForInsert = PrimarySlot i0, entryPosToInsert = 0,
          newSlot = PrimarySlot (length (pSlots x2) - 1), newSlotPos = 0, gaps = False\<rparr> ?ch F2"
    using i0 first cap len unfolding split_inv_def Let_def by (auto simp: fits_def intro!: exI [of _ 0])
  moreover have "(indexHeader x2)\<lparr>firstFreeOverflowSlotId := None\<rparr> = (indexHeader x)\<lparr>firstFreeOverflowSlotId := None\<rparr>" using x2(3) y(2) by (simp add: changes_def)
  ultimately show ?thesis using c x2(1) i0 len first by (intro exI [of _ c] exI [of _ x2] exI [of _ ?ch] exI [of _ F2]) simp
qed

lemma splitSlot_ok:
  assumes inv: "index_inv cap hash x ch E F" and cap: "0 < cap" "cap \<le> 20" and big: "length (pSlots x) + 1 < 2 ^ 31"
  defines "i0 \<equiv> nextSplitSlotId (indexHeader x)" and "n \<equiv> length (pSlots x)" and "st \<equiv> stays hash (indexHeader x)"
  shows "\<exists>x' ch' F'. splitSlot cap k0 hash x = Some (Inr x') \<and> index_inv cap hash x' ch' (E(i0 := filter st (E i0), n := filter (\<lambda>c. \<not> st c) (E i0))) F'
    \<and> length (pSlots x') = n + 1 \<and> numEntries (indexHeader x') = numEntries (indexHeader x) \<and> i0 < n"
proof -
  from splitSlot_start [OF inv cap, of k0] obtain c x2 ch2 F2 where
    c: "countSlots (PrimarySlot i0) 1 (allocatePSlots cap k0 1 x) = Some (Inr c)" "reserveOverflowSlots cap k0 c (allocatePSlots cap k0 1 x) = Inr x2"
    and i0: "i0 < n" and len: "length (pSlots x2) = n + 1" and ch2: "\<forall>i < n. ch2 i = ch i" and hdr: "(indexHeader x2)\<lparr>firstFreeOverflowSlotId := None\<rparr> = (indexHeader x)\<lparr>firstFreeOverflowSlotId := None\<rparr>"
    and first: "ch2 i0 ! 0 = PrimarySlot i0" "ch2 i0 \<noteq> []"
    and start: "split_inv cap (stays hash (indexHeader x2)) (E i0) i0 n x2 ch2 (\<lambda>i. cellFn (E i)) 0
        \<lparr>splitIndex = x2, originalSlot = PrimarySlot i0, originalSlotForInsert = PrimarySlot i0, entryPosToInsert = 0,
          newSlot = PrimarySlot (length (pSlots x2) - 1), newSlotPos = 0, gaps = False\<rparr> ch2 F2"
    unfolding i0_def n_def by blast
  let ?kept = "filter st (E i0)" and ?moved = "filter (\<lambda>c. \<not> st c) (E i0)" and ?es = "E i0"
  have st: "stays hash (indexHeader x2) = st" using arg_cong [OF hdr, of higherLevelHashMask] arg_cong [OF hdr, of nextSplitSlotId] by (simp add: st_def stays_def fun_eq_iff)
  have E: "fits cap (ch i) (E i)" "fingerprinted hash (E i)" "\<And>c. c \<in> set (E i) \<Longrightarrow> getPrimarySlotIdForHash (indexHeader x) (hash (fst (fst c))) = i" if "i < n" for i
    using inv that by (auto simp: index_inv_def n_def)
  have es: "length ?es \<le> length (ch2 i0) * cap" using E(1) [OF i0] ch2 i0 by (simp add: fits_def)
  let ?start = "\<lparr>splitIndex = x2, originalSlot = PrimarySlot i0, originalSlotForInsert = PrimarySlot i0, entryPosToInsert = 0, newSlot = PrimarySlot (length (pSlots x2) - 1), newSlotPos = 0, gaps = False\<rparr>"
  from splitLoop_chain [where ?ch0.0 = ch2 and j = 0 and st = ?start and ch = ch2 and F = F2 and ?k0.0 = k0 and ?fn0.0 = "\<lambda>i. cellFn (E i)", OF cap, of i0 x2 n ?es _ hash] start i0 len es E(2) [OF i0] first
  obtain st' ch' F' where loop: "splitLoop cap k0 hash ?start = Some (Inr st')" "split_inv cap (stays hash (indexHeader x2)) ?es i0 n x2 ch2 (\<lambda>i. cellFn (E i)) (length ?es) st' ch' F'"
    by auto
  let ?fn = "(\<lambda>i. cellFn (E i))(i0 := cellFn ?kept, n := cellFn ?moved)"
  have A: "arena cap (splitIndex st') ch' ?fn F'" and ch3: "changes UNIV x2 (splitIndex st')" and ch': "\<forall>i. i \<noteq> n \<longrightarrow> ch' i = ch2 i" and fit: "fits cap (ch' n) ?moved"
    using loop(2) by (simp_all add: split_inv_def Let_def keptCells_ends st)
  obtain j where j: "originalSlotForInsert st' = ch' i0 ! j" "j = 0 \<or> j * cap < length ?kept" using loop(2) by (auto simp: split_inv_def Let_def st)
  have i0': "i0 < length (pSlots (splitIndex st'))" using changes_header(6) [OF ch3] len i0 by simp
  have k: "length ?kept \<le> length (ch' i0) * cap" using order_trans [OF length_filter_le [of st ?es] es] ch' i0 by simp
  from arena_trim [OF A i0' cap _ k j(2)] i0 obtain y F3 where y: "reclaimOverflowSlots (originalSlotForInsert st') (splitIndex st') = Some (Inr y)"
    "arena cap y (ch'(i0 := take (neededSlots cap ?kept) (ch' i0))) ?fn F3" "changes (set (ch' i0)) (splitIndex st') y" unfolding j(1) by auto
  let ?x = "y\<lparr>indexHeader := incrementNextSplitSlotId (indexHeader y)\<rparr>" and ?ch = "ch'(i0 := take (neededSlots cap ?kept) (ch' i0))" and ?E = "E(i0 := ?kept, n := ?moved)"
  have hy: "(indexHeader y)\<lparr>firstFreeOverflowSlotId := None\<rparr> = (indexHeader x)\<lparr>firstFreeOverflowSlotId := None\<rparr>" "length (pSlots y) = n + 1"
    using y(3) ch3 hdr len by (simp_all add: changes_def)
  note same = same_header [OF hy(1)]
  have big': "n + 1 < 2 ^ 31" using big by (simp add: n_def)
  have h: "levels_ok (indexHeader y) n" using inv by (simp add: index_inv_def n_def same)
  note route = split_route [OF h big', unfolded same(2-4)]
  have fn: "(\<lambda>i. cellFn (?E i)) = ?fn" by (rule ext) simp
  have "arena cap ?x ?ch (\<lambda>i. cellFn (?E i)) F3"
    unfolding fn by (rule arena_header [OF y(2)]) (simp add: incrementNextSplitSlotId_def incrementLevel_def)
  moreover have "fits cap (?ch i) (?E i) \<and> fingerprinted hash (?E i) \<and> (\<forall>c \<in> set (?E i). getPrimarySlotIdForHash (indexHeader ?x) (hash (fst (fst c))) = i)" if i: "i < n + 1" for i
  proof -
    have old: "fits cap (?ch i0) ?kept" "fingerprinted hash ?kept" "fingerprinted hash ?moved"
      using neededSlots(2) [OF cap(1) _ k] first ch' i0 E(2) [OF i0] by (simp_all add: fingerprinted_def)
    have new: "getPrimarySlotIdForHash (indexHeader ?x) (hash (fst (fst c))) = (if st c then i0 else n)" if "c \<in> set ?es" for c
      using route(2) E(3) [OF i0 that] by (simp add: st_def stays_def i0_def)
    consider "i = i0" | "i = n" | "i \<noteq> i0" "i < n" using i i0 by linarith
    then show ?thesis
    proof cases
      case 3
      then show ?thesis using E [of i] ch' ch2 route(1) by (simp add: i0_def)
    qed (use old new fit i0 in simp_all)
  qed
  moreover have "\<forall>i < n + 1. ?E i = []" if "numEntries (indexHeader x) = 0" using inv that i0 by (auto simp: index_inv_def n_def [symmetric])
  ultimately have "index_inv cap hash ?x ?ch ?E F3"
    unfolding index_inv_def using incrementNextSplitSlotId_ok [OF h big'] big' hy(2) same(5) by (simp add: incrementNextSplitSlotId_def incrementLevel_def)
  moreover have "splitSlot cap k0 hash x = Some (Inr ?x)"
    using c loop(1) y(1) by (simp add: splitSlot_def Let_def i0_def allocatePSlots_def)
  moreover have "length (pSlots ?x) = n + 1" "numEntries (indexHeader ?x) = numEntries (indexHeader x)"
    using hy(2) same(5) by (simp_all add: incrementNextSplitSlotId_def incrementLevel_def)
  ultimately show ?thesis using i0 by blast
qed

end
