(* ===== verification/Hash_Refinement.thy ===== *)
theory Hash_Refinement
  imports Hash_Split "HOL-Library.Multiset"
begin

text \<open>
  The in-memory hash index refines a multiset of entries: growing keeps it, lookup finds a visible entry of
  the key if there is one, insertion adds an entry unless a visible one has the key, deletion takes one entry
  of the key away, and none of them fails or runs forever.
\<close>

section \<open>The index as a multiset of entries\<close>

definition content :: "(nat \<Rightarrow> ('k slot_entry \<times> 8 word) list) \<Rightarrow> nat \<Rightarrow> 'k slot_entry multiset" where
  "content E n = (\<Sum>i < n. mset (map fst (E i)))"

definition index_holds :: "nat \<Rightarrow> ('k \<Rightarrow> u64) \<Rightarrow> 'k in_mem_hash_index \<Rightarrow> 'k slot_entry multiset \<Rightarrow> bool" where
  "index_holds cap hash x B \<longleftrightarrow> (\<exists>ch E F. index_inv cap hash x ch E F \<and> content E (length (pSlots x)) = B)"

lemma content_set:
  assumes "i < n"
  shows "content (E(i := es)) n + mset (map fst (E i)) = content E n + mset (map fst es)"
  using assms by (simp add: content_def sum.remove [of "{..<n}" i])

lemma content_split:
  assumes "i < n"
  shows "content (E(i := filter P (E i), n := filter (\<lambda>c. \<not> P c) (E i))) (n + 1) = content E n"
proof -
  have "mset (map fst (filter P es)) + mset (map fst (filter (\<lambda>c. \<not> P c) es)) = mset (map fst es)" for es
    by (induction es) auto
  then show ?thesis using assms by (simp add: content_def sum.remove [of "{..<n}" i] add.assoc add.left_commute)
qed

lemma splitUntil_ok:
  assumes cap: "0 < cap" "cap \<le> 20" and r: "required < 2 ^ 31"
  shows "index_holds cap hash x B \<Longrightarrow> \<exists>x'. splitUntil cap k0 hash required x = Some (Inr x') \<and> index_holds cap hash x' B \<and> numEntries (indexHeader x') = numEntries (indexHeader x)"
proof (induction "required - length (pSlots x)" arbitrary: x)
  case 0
  then show ?case by (subst splitUntil.simps) simp
next
  case (Suc d)
  then obtain ch E F where inv: "index_inv cap hash x ch E F" and B: "content E (length (pSlots x)) = B" by (auto simp: index_holds_def)
  have less: "length (pSlots x) < required" using Suc.hyps(2) by simp
  then have "length (pSlots x) + 1 < 2 ^ 31" using r by simp
  from splitSlot_ok [OF inv cap this, of k0] obtain y where y: "splitSlot cap k0 hash x = Some (Inr y)" "index_holds cap hash y B"
    "length (pSlots y) = length (pSlots x) + 1" "numEntries (indexHeader y) = numEntries (indexHeader x)"
    using content_split [of _ "length (pSlots x)" E] B unfolding index_holds_def by metis
  have "\<exists>x'. splitUntil cap k0 hash required y = Some (Inr x') \<and> index_holds cap hash x' B \<and> numEntries (indexHeader x') = numEntries (indexHeader y)"
    using Suc.hyps(2) y by (intro Suc.hyps(1)) auto
  then show ?case using y(1,4) less by (subst splitUntil.simps) auto
qed

definition masks_ok :: "hash_index_header \<Rightarrow> bool" where
  "masks_ok h \<longleftrightarrow> levelHashMask h = mask (currentLevel h) \<and> higherLevelHashMask h = mask (currentLevel h + 1)"

lemma raiseLevel_ok:
  assumes "new < 2 ^ 31"
  shows "masks_ok h \<Longrightarrow> m = 2 ^ currentLevel h \<Longrightarrow> m \<le> new \<Longrightarrow>
    (case raiseLevel new m h of (h', m') \<Rightarrow> masks_ok h' \<and> m' = 2 ^ currentLevel h' \<and> m' \<le> new \<and> new < 2 * m'
      \<and> numEntries h' = numEntries h \<and> firstFreeOverflowSlotId h' = firstFreeOverflowSlotId h)"
  using assms
proof (induction new m h rule: raiseLevel.induct)
  case (1 new m h)
  show ?case
  proof (cases "2 * m \<le> new")
    case True
    have "currentLevel h + 1 \<le> 30"
    proof (rule ccontr)
      assume "\<not> currentLevel h + 1 \<le> 30"
      then have "(2::nat) ^ 31 \<le> 2 ^ (currentLevel h + 1)" by (intro power_increasing) auto
      then show False using True 1(3,5) by simp
    qed
    then have "masks_ok (incrementLevel h)" by (simp add: masks_ok_def incrementLevel_def intMask_mask)
    moreover have "2 * m = 2 ^ currentLevel (incrementLevel h)" "0 < m" using 1(3) by (simp_all add: incrementLevel_def)
    ultimately show ?thesis using 1(1) True 1(5) by (subst raiseLevel.simps) (auto simp: incrementLevel_def)
  next
    case False
    then show ?thesis using 1(2-5) by (subst raiseLevel.simps) simp
  qed
qed

text \<open>Slots are allocated without splitting only while the index is empty.\<close>

lemma allocateSlots_ok:
  assumes A: "arena cap x ch (\<lambda>i _. None) F" and L: "\<forall>i < length (pSlots x). length (ch i) = 1" and h: "masks_ok (indexHeader x)" "2 ^ currentLevel (indexHeader x) \<le> new"
    and new: "length (pSlots x) \<le> new" "new < 2 ^ 31"
  shows "index_holds cap hash (allocateSlots cap k0 new x) {#} \<and> numEntries (indexHeader (allocateSlots cap k0 new x)) = numEntries (indexHeader x)"
proof -
  let ?y = "allocatePSlots cap k0 (new - length (pSlots x)) x"
  let ?ch = "\<lambda>i. if i < length (pSlots x) then ch i else [PrimarySlot i]"
  obtain h' m where r: "raiseLevel new (2 ^ currentLevel (indexHeader x)) (indexHeader x) = (h', m)" by (cases "raiseLevel new (2 ^ currentLevel (indexHeader x)) (indexHeader x)")
  from raiseLevel_ok [OF new(2) h(1) refl h(2)] have h': "masks_ok h'" "m = 2 ^ currentLevel h'" "m \<le> new" "new < 2 * m" "numEntries h' = numEntries (indexHeader x)"
    "firstFreeOverflowSlotId h' = firstFreeOverflowSlotId (indexHeader x)" by (simp_all add: r)
  let ?x = "?y\<lparr>indexHeader := h'\<lparr>nextSplitSlotId := new - m\<rparr>\<rparr>"
  have "allocateSlots cap k0 new x = ?x"
    using r h'(3) new(1) by (cases "new = length (pSlots x)") (simp_all add: allocateSlots_def allocatePSlots_def Let_def)
  moreover have "arena cap ?x ?ch (\<lambda>i _. None) F"
    using arena_primary [OF A, of k0 "new - length (pSlots x)"] h'(6) by (intro arena_header) (simp_all add: allocatePSlots_def)
  moreover have "levels_ok (indexHeader ?x) new" using h' by (auto simp: levels_ok_def masks_ok_def)
  moreover have len: "length (pSlots ?x) = new" using new by (simp add: allocatePSlots_def)
  ultimately have "index_inv cap hash ?x ?ch (\<lambda>_. []) F" using new(2) L by (simp add: index_inv_def fits_def fingerprinted_def cellFn_def [abs_def])
  moreover have "content (\<lambda>_. []) new = {#}" by (simp add: content_def)
  ultimately show ?thesis using \<open>allocateSlots cap k0 new x = ?x\<close> len h'(5) by (auto simp: index_holds_def)
qed

lemma fresh_index_ok:
  assumes "2 \<le> slotsPerPage" "slotsPerPage < 2 ^ 31" "indexHeader x = HashIndexHeader_new" "pSlots x = []" "oSlots x = []"
  shows "index_holds cap hash (allocateSlots cap k0 slotsPerPage x) {#}" "numEntries (indexHeader (allocateSlots cap k0 slotsPerPage x)) = 0"
proof -
  have "arena cap x (\<lambda>_. []) (\<lambda>i _. None) []" using assms(3-5) by (simp add: arena_def freeList_def slotChain_def HashIndexHeader_new_def)
  moreover have "masks_ok (indexHeader x)" "currentLevel (indexHeader x) = 1" "numEntries (indexHeader x) = 0"
    using assms(3) by (simp_all add: masks_ok_def HashIndexHeader_new_def mask_eq_exp_minus_1)
  ultimately show "index_holds cap hash (allocateSlots cap k0 slotsPerPage x) {#}" "numEntries (indexHeader (allocateSlots cap k0 slotsPerPage x)) = 0"
    using allocateSlots_ok [of cap x "\<lambda>_. []" "[]" slotsPerPage hash k0] assms by simp_all
qed

lemma InMemHashIndex_new_ok:
  assumes "2 \<le> slotsPerPage" "slotsPerPage < 2 ^ 31"
  shows "index_holds cap hash (InMemHashIndex_new cap k0 slotsPerPage) {#}" "numEntries (indexHeader (InMemHashIndex_new cap k0 slotsPerPage)) = 0"
  unfolding InMemHashIndex_new_def by (rule fresh_index_ok [OF assms]; simp)+

lemma requiredSlots_bound:
  assumes "n \<le> 2 ^ 30" "0 < cap"
  shows "(getNumRequiredEntries n + cap - 1) div cap < 2 ^ 31"
proof -
  have "getNumRequiredEntries n + cap - 1 < 2 ^ 31 * cap"
  proof -
    have "getNumRequiredEntries n < 2 ^ 31" using assms(1) by (simp add: getNumRequiredEntries_def)
    moreover have "2 ^ 31 * cap = 2 ^ 31 + 2 ^ 31 * (cap - 1)" using assms(2) by (cases cap) simp_all
    moreover have "cap - 1 \<le> 2 ^ 31 * (cap - 1)" by simp
    ultimately show ?thesis using assms(2) by linarith
  qed
  then show ?thesis using assms(2) by (simp add: div_less_iff_less_mult)
qed

lemma index_reserve_ok:
  assumes x: "index_holds cap hash x B" and cap: "0 < cap" "cap \<le> 20" and n: "unat n \<le> 2 ^ 30"
  shows "\<exists>x'. index_reserve cap k0 hash n x = Some (Inr x') \<and> index_holds cap hash x' B \<and> numEntries (indexHeader x') = numEntries (indexHeader x)"
proof -
  let ?r = "(getNumRequiredEntries (unat n) + cap - 1) div cap"
  have r: "?r < 2 ^ 31" using requiredSlots_bound [OF n cap(1)] .
  consider "?r \<le> length (pSlots x)" | "length (pSlots x) < ?r" "numEntries (indexHeader x) = 0" | "length (pSlots x) < ?r" "numEntries (indexHeader x) \<noteq> 0" by linarith
  then show ?thesis
  proof cases
    case 1
    then show ?thesis using x by (simp add: index_reserve_def)
  next
    case 2
    obtain ch E F where inv: "index_inv cap hash x ch E F" and B: "content E (length (pSlots x)) = B" using x by (auto simp: index_holds_def)
    have E: "E i = []" "length (ch i) = 1" if "i < length (pSlots x)" for i using inv that 2(2) by (auto simp: index_inv_def fits_def)
    then have "B = {#}" using B by (simp add: content_def)
    moreover have "arena cap x ch (\<lambda>i _. None) F" using inv E(1) unfolding index_inv_def arena_def by (auto simp: cellFn_def [abs_def])
    moreover have "masks_ok (indexHeader x)" "2 ^ currentLevel (indexHeader x) \<le> ?r" using inv 2(1) by (auto simp: index_inv_def levels_ok_def masks_ok_def)
    moreover have "unat (of_nat ?r :: u32) = ?r" using r by (simp add: unat_of_nat take_bit_nat_eq_self)
    ultimately show ?thesis using 2 r E(2) allocateSlots_ok [of cap x ch F ?r hash k0] by (simp add: index_reserve_def Let_def)
  next
    case 3
    then show ?thesis using splitUntil_ok [OF cap r x, of k0] by (simp add: index_reserve_def Let_def)
  qed
qed

section \<open>Lookup, insertion and deletion\<close>

lemma index_invD:
  assumes "index_inv cap hash x ch E F"
  shows "arena cap x ch (\<lambda>i. cellFn (E i)) F" "i < length (pSlots x) \<Longrightarrow> fits cap (ch i) (E i)"
    "i < length (pSlots x) \<Longrightarrow> c \<in> set (E i) \<Longrightarrow> snd c = getFingerprintForHash (hash (fst (fst c)))"
    "i < length (pSlots x) \<Longrightarrow> c \<in> set (E i) \<Longrightarrow> getPrimarySlotIdForHash (indexHeader x) (hash (fst (fst c))) = i"
  using assms unfolding index_inv_def fingerprinted_def by blast+

text \<open>The chain of a key holds all entries of the key.\<close>

lemma key_chain:
  fixes k :: 'k
  assumes inv: "index_inv cap hash x ch E F"
  defines "i \<equiv> getPrimarySlotIdForHash (indexHeader x) (hash k)"
  shows "i < length (pSlots x)" "ch i \<noteq> []" "ch i ! 0 = PrimarySlot i" "slotChain cap x (ch i) (cellFn (E i))"
    "fits cap (ch i) (E i)" "(k, v) \<in># content E (length (pSlots x)) \<longleftrightarrow> (\<exists>c \<in> set (E i). fst c = (k, v))"
    "c \<in> set (E i) \<Longrightarrow> matches k (getFingerprintForHash (hash k)) vis c \<longleftrightarrow> fst (fst c) = k \<and> vis (snd (fst c))"
proof -
  note A = index_invD(1) [OF inv]
  show i: "i < length (pSlots x)" using inv route_in_range by (auto simp: index_inv_def i_def)
  show "ch i \<noteq> []" "ch i ! 0 = PrimarySlot i" "slotChain cap x (ch i) (cellFn (E i))" using arenaD(1-3) [OF A i] by (simp_all add: hd_conv_nth)
  show "fits cap (ch i) (E i)" by (rule index_invD(2) [OF inv i])
  have "i' = i" if "i' < length (pSlots x)" "c \<in> set (E i')" "fst c = (k, v)" for i' c v
    using index_invD(4) [OF inv that(1,2)] that(3) by (simp add: i_def)
  then show "(k, v) \<in># content E (length (pSlots x)) \<longleftrightarrow> (\<exists>c \<in> set (E i). fst c = (k, v))"
    using i by (force simp: content_def set_mset_sum image_iff)
  show "matches k (getFingerprintForHash (hash k)) vis c \<longleftrightarrow> fst (fst c) = k \<and> vis (snd (fst c))" if "c \<in> set (E i)"
    using index_invD(3) [OF inv i that] by (auto simp: matches_def)
qed

text \<open>What a search along the chain of a key finds.\<close>

lemma findEntry_index:
  fixes k :: 'k
  assumes inv: "index_inv cap hash x ch E F" and cap: "0 < cap" "cap \<le> 20"
  defines "i \<equiv> getPrimarySlotIdForHash (indexHeader x) (hash k)" and "B \<equiv> content E (length (pSlots x))"
  shows "(\<exists>g. g < length (E i) \<and> findEntry cap k (getFingerprintForHash (hash k)) vis x (PrimarySlot i) = Some (Inr (ch i ! (g div cap), Some (g mod cap)))
      \<and> fst (fst (E i ! g)) = k \<and> vis (snd (fst (E i ! g))) \<and> (k, snd (fst (E i ! g))) \<in># B)
    \<or> (\<forall>v. (k, v) \<in># B \<longrightarrow> \<not> vis v) \<and> findEntry cap k (getFingerprintForHash (hash k)) vis x (PrimarySlot i) = Some (Inr (ch i ! min (length (E i) div cap) (length (ch i) - 1), None))"
proof -
  note K = key_chain [OF inv, where k = k, folded i_def B_def]
  have le: "length (E i) \<le> length (ch i) * cap" using K(5) by (simp add: fits_def)
  have m: "matches k (getFingerprintForHash (hash k)) vis (E i ! g) \<longleftrightarrow> fst (fst (E i ! g)) = k \<and> vis (snd (fst (E i ! g)))" if "g < length (E i)" for g
    using K(7) nth_mem [OF that] by blast
  have mem: "(k, v) \<in># B \<longleftrightarrow> (\<exists>g < length (E i). fst (E i ! g) = (k, v))" for v unfolding K(6) by (metis in_set_conv_nth)
  have "(\<exists>g. 0 * cap \<le> g \<and> g < length (E i) \<and> matches k (getFingerprintForHash (hash k)) vis (E i ! g) \<and> findEntry cap k (getFingerprintForHash (hash k)) vis x (ch i ! 0) = Some (Inr (ch i ! (g div cap), Some (g mod cap))))
    \<or> (\<forall>g. 0 * cap \<le> g \<and> g < length (E i) \<longrightarrow> \<not> matches k (getFingerprintForHash (hash k)) vis (E i ! g))
      \<and> findEntry cap k (getFingerprintForHash (hash k)) vis x (ch i ! 0) = Some (Inr (ch i ! min (length (E i) div cap) (length (ch i) - 1), None))"
    by (rule findEntry_chain [OF K(4) cap(2,1) le]) (use K(2) in simp_all)
  then show ?thesis unfolding K(3)
  proof (elim disjE exE conjE)
    fix g assume g: "g < length (E i)" "matches k (getFingerprintForHash (hash k)) vis (E i ! g)"
      "findEntry cap k (getFingerprintForHash (hash k)) vis x (PrimarySlot i) = Some (Inr (ch i ! (g div cap), Some (g mod cap)))"
    have "fst (E i ! g) = (k, snd (fst (E i ! g)))" using m [OF g(1)] g(2) by (simp add: prod_eq_iff)
    then have "(k, snd (fst (E i ! g))) \<in># B" using mem g(1) by blast
    then show ?thesis using g m [OF g(1)] by blast
  next
    assume no: "\<forall>g. 0 * cap \<le> g \<and> g < length (E i) \<longrightarrow> \<not> matches k (getFingerprintForHash (hash k)) vis (E i ! g)"
      and r: "findEntry cap k (getFingerprintForHash (hash k)) vis x (PrimarySlot i) = Some (Inr (ch i ! min (length (E i) div cap) (length (ch i) - 1), None))"
    have "\<not> vis v" if "(k, v) \<in># B" for v using that mem m no by fastforce
    then show ?thesis using r by blast
  qed
qed

lemma nth_cell:
  assumes "slotChain cap x L (cellFn es)" "0 < cap" "g < length es" "g div cap < length L"
  shows "hasSlot x (L ! (g div cap))" "nthR (slotEntries (slotAt x (L ! (g div cap)))) (g mod cap) = Inr (fst (es ! g))"
    "cap \<le> 20 \<Longrightarrow> nthR (fingerprints (slotHeader (slotAt x (L ! (g div cap))))) (g mod cap) = Inr (snd (es ! g))"
proof -
  obtain e fp where e: "es ! g = (e, fp)" by (cases "es ! g")
  have p: "g mod cap < cap" using assms(2) by simp
  have "cellFn es (g div cap * cap + g mod cap) = Some (e, fp)" using assms(3) by (simp add: cellFn_def e)
  from slot_cell(2) [OF assms(1,4) p this] chainD(1) [OF assms(1,4)] slot_ok_cap [OF chainD(2) [OF assms(1,4)]] p
  show "hasSlot x (L ! (g div cap))" "nthR (slotEntries (slotAt x (L ! (g div cap)))) (g mod cap) = Inr (fst (es ! g))"
    "cap \<le> 20 \<Longrightarrow> nthR (fingerprints (slotHeader (slotAt x (L ! (g div cap))))) (g mod cap) = Inr (snd (es ! g))"
    by (simp_all add: e)
qed

lemma div_in_chain: "(g::nat) < length es \<Longrightarrow> length es \<le> length L * cap \<Longrightarrow> 0 < cap \<Longrightarrow> g div cap < length L"
  by (simp add: div_less_iff_less_mult order_less_le_trans)

lemma index_lookup_ok:
  assumes x: "index_holds cap hash x B" and cap: "0 < cap" "cap \<le> 20"
  shows "\<exists>r. index_lookup cap hash k vis x = Some (Inr r) \<and> (case r of None \<Rightarrow> \<forall>v. (k, v) \<in># B \<longrightarrow> \<not> vis v | Some v \<Rightarrow> (k, v) \<in># B \<and> vis v)"
proof -
  obtain ch E F where inv: "index_inv cap hash x ch E F" and B: "content E (length (pSlots x)) = B" using x by (auto simp: index_holds_def)
  show ?thesis
  proof (cases "numEntries (indexHeader x) = 0")
    case True
    then have "B = {#}" using inv B by (simp add: index_inv_def content_def)
    then show ?thesis using True by (simp add: index_lookup_def)
  next
    case False
    let ?i = "getPrimarySlotIdForHash (indexHeader x) (hash k)"
    note K = key_chain [OF inv, where k = k]
    have le: "length (E ?i) \<le> length (ch ?i) * cap" using K(5) by (simp add: fits_def)
    from findEntry_index [OF inv cap, of k vis] show ?thesis
    proof (elim disjE exE conjE)
      fix g assume g: "g < length (E ?i)" "findEntry cap k (getFingerprintForHash (hash k)) vis x (PrimarySlot ?i) = Some (Inr (ch ?i ! (g div cap), Some (g mod cap)))"
        "vis (snd (fst (E ?i ! g)))" "(k, snd (fst (E ?i ! g))) \<in># content E (length (pSlots x))"
      show ?thesis using nth_cell(1,2) [OF K(4) cap(1) g(1) div_in_chain [OF g(1) le cap(1)]] g(2-4) False B by (simp add: index_lookup_def Let_def)
    qed (use False B in \<open>simp add: index_lookup_def Let_def\<close>)
  qed
qed

lemma index_inv_chain:
  assumes inv: "index_inv cap hash x ch E F" and i: "i = getPrimarySlotIdForHash (indexHeader x) (hash k)" and c: "changes UNIV x x'"
    and A: "arena cap x' ch' ((\<lambda>i. cellFn (E i))(i := cellFn es)) F'" and ch: "\<forall>i'. i' \<noteq> i \<longrightarrow> ch' i' = ch i'" and fit: "fits cap (ch' i) es"
    and es: "\<And>c. c \<in> set es \<Longrightarrow> c \<in> set (E i) \<or> fst (fst c) = k \<and> snd c = getFingerprintForHash (hash k)" and n: "n = 0 \<longrightarrow> numEntries (indexHeader x) = 0 \<and> es = []"
  shows "index_inv cap hash (x'\<lparr>indexHeader := (indexHeader x')\<lparr>numEntries := n\<rparr>\<rparr>) ch' (E(i := es)) F'"
proof -
  have i': "i < length (pSlots x)" using key_chain(1) [OF inv, of k] i by simp
  note hdr = changes_header [OF c]
  have route: "getPrimarySlotIdForHash ((indexHeader x')\<lparr>numEntries := n\<rparr>) = getPrimarySlotIdForHash (indexHeader x)"
    using hdr by (simp add: getPrimarySlotIdForHash_def fun_eq_iff Let_def)
  have "levels_ok ((indexHeader x')\<lparr>numEntries := n\<rparr>) m = levels_ok (indexHeader x) m" for m using hdr by (simp add: levels_ok_def)
  moreover have "(\<lambda>j. cellFn ((E(i := es)) j)) = (\<lambda>i. cellFn (E i))(i := cellFn es)" by (rule ext) simp
  then have "arena cap (x'\<lparr>indexHeader := (indexHeader x')\<lparr>numEntries := n\<rparr>\<rparr>) ch' (\<lambda>j. cellFn ((E(i := es)) j)) F'" using arena_header [OF A] by simp
  moreover have "fits cap (ch' j) ((E(i := es)) j) \<and> fingerprinted hash ((E(i := es)) j) \<and> (\<forall>c \<in> set ((E(i := es)) j). getPrimarySlotIdForHash (indexHeader x) (hash (fst (fst c))) = j)"
    if "j < length (pSlots x)" for j
  proof (cases "j = i")
    case True
    have "snd c = getFingerprintForHash (hash (fst (fst c))) \<and> getPrimarySlotIdForHash (indexHeader x) (hash (fst (fst c))) = i" if "c \<in> set es" for c
      using es [OF that] index_invD(3,4) [OF inv i', of c] i by auto
    then show ?thesis using True fit by (simp add: fingerprinted_def)
  next
    case False
    then show ?thesis using index_invD(2-4) [OF inv that] ch by (simp add: fingerprinted_def)
  qed
  moreover have "n = 0 \<longrightarrow> (\<forall>j < length (pSlots x). (E(i := es)) j = [])" using inv n by (simp add: index_inv_def)
  ultimately show ?thesis using inv hdr(6) by (simp add: index_inv_def route)
qed

subsection \<open>Insertion\<close>

text \<open>Adding an entry at the end of its chain, in its last slot or in a new one.\<close>

lemma insert_at_end:
  fixes k :: 'k
  assumes inv: "index_inv cap hash x ch E F" and cap: "0 < cap" "cap \<le> 20"
  defines "i \<equiv> getPrimarySlotIdForHash (indexHeader x) (hash k)" and "fp \<equiv> getFingerprintForHash (hash k)"
  defines "info \<equiv> ch i ! min (length (E i) div cap) (length (ch i) - 1)"
  shows "hasSlot x info \<and> (\<exists>x' ch' F'. (if slot_numEntries (slotHeader (slotAt x info)) < cap
      then index_insert hash k info (slot_numEntries (slotHeader (slotAt x info))) v fp x
      else insertToNewOvfSlot cap k0 hash k info v fp x) = Inr x'
    \<and> arena cap x' ch' ((\<lambda>i. cellFn (E i))(i := cellFn (E i @ [((k, v), fp)]))) F' \<and> (\<forall>i'. i' \<noteq> i \<longrightarrow> ch' i' = ch i')
    \<and> fits cap (ch' i) (E i @ [((k, v), fp)]) \<and> changes UNIV x x')"
proof -
  note K = key_chain [OF inv, where k = k, folded i_def] and A = index_invD(1) [OF inv]
  let ?m = "min (length (E i) div cap) (length (ch i) - 1)" and ?es = "E i" and ?new = "((k, v), fp)"
  have m: "?m < length (ch i)" using K(2) by (simp add: min_less_iff_disj)
  have H: "hasSlot x info" using chainD(1) [OF K(4) m] by (simp add: info_def)
  have count': "slot_numEntries (slotHeader (slotAt x info)) = min cap (length ?es - ?m * cap)" using entry_counts(1) [OF K(4) m cap(2)] by (simp add: info_def)
  have snoc: "(\<lambda>i. cellFn (E i))(i := (cellFn ?es)(length ?es := Some ?new)) = (\<lambda>i. cellFn (E i))(i := cellFn (?es @ [?new]))" by (simp add: cellFn_snoc)
  show ?thesis
  proof (cases "length ?es < length (ch i) * cap")
    case True
    then have "length ?es div cap < length (ch i)" using cap(1) by (simp add: div_less_iff_less_mult)
    then have m': "?m = length ?es div cap" by simp
    then have p: "slot_numEntries (slotHeader (slotAt x info)) = length ?es mod cap" "?m * cap + length ?es mod cap = length ?es"
      using count' cap(1) by (simp_all add: minus_div_mult_eq_mod less_imp_le)
    have "length ?es mod cap < cap" using cap(1) by simp
    from arena_cell(1) [OF A K(1) m this cap(2), of "(k, v)" fp] obtain x' where x': "putEntry info (length ?es mod cap) (k, v) fp x = Inr x'"
      "arena cap x' ch ((\<lambda>i. cellFn (E i))(i := (cellFn ?es)(length ?es := Some ?new))) F" "changes {info} x x'" unfolding p(2) by (auto simp: info_def)
    have "fits cap (ch i) (?es @ [?new])" using K(5) True by (auto simp: fits_def)
    then show ?thesis using H p(1) cap(1) x' changes_mono [OF x'(3), of UNIV] unfolding snoc by (auto simp: index_insert_def fp_def)
  next
    case False
    then have full: "length ?es = length (ch i) * cap" using K(5) by (simp add: fits_def)
    have m': "?m = length (ch i) - 1" "info = last (ch i)" using full cap(1) K(2) by (simp_all add: info_def last_conv_nth)
    have p: "slot_numEntries (slotHeader (slotAt x info)) = cap" unfolding count' m'(1) full using K(2) last_cell(2) [OF K(5,2)] by simp
    have "cellFn ?es g = None" if "length (ch i) * cap \<le> g" for g using that full by (simp add: cellFn_def)
    from arena_grow [OF A K(1) cap(2) this, of k0] obtain y z o' F' where y: "allocateAOSlot cap k0 x = Inr (y, o')" "setNextOvf (last (ch i)) (Some o') y = Inr z"
      "arena cap z (ch(i := ch i @ [OvfSlot o'])) (\<lambda>i. cellFn (E i)) F'" "changes (insert (OvfSlot o') (set (ch i))) x z" by blast
    define ch1 where "ch1 = ch(i := ch i @ [OvfSlot o'])"
    have ch1: "ch1 i ! length (ch i) = OvfSlot o'" "length (ch i) < length (ch1 i)" "i < length (pSlots z)" using changes_header(6) [OF y(4)] K(1) by (simp_all add: ch1_def)
    from arena_cell(1) [OF y(3) [folded ch1_def] ch1(3,2) cap, of "(k, v)" fp] obtain x' where x': "putEntry (OvfSlot o') 0 (k, v) fp z = Inr x'"
      "arena cap x' ch1 ((\<lambda>i. cellFn (E i))(i := (cellFn ?es)(length ?es := Some ?new))) F'" "changes {OvfSlot o'} z x'" by (auto simp: ch1(1) full)
    have "fits cap (ch i @ [OvfSlot o']) (?es @ [?new])" using full cap(1) by (simp add: fits_def)
    moreover have "changes UNIV x x'" by (rule changes_trans [OF y(4) x'(3)]) simp
    moreover have "insertToNewOvfSlot cap k0 hash k info v fp x = Inr x'" using y(1,2) x'(1) by (simp add: insertToNewOvfSlot_def index_insert_def fp_def m'(2))
    ultimately show ?thesis using H p x'(2) unfolding snoc by (intro conjI exI [of _ x'] exI [of _ ch1] exI [of _ F']) (simp_all add: ch1_def)
  qed
qed

lemma appendInternal_ok:
  fixes k :: 'k and vis :: "u64 \<Rightarrow> bool"
  assumes x: "index_holds cap hash x B" and cap: "0 < cap" "cap \<le> 20"
  defines "taken \<equiv> \<exists>v'. (k, v') \<in># B \<and> vis v'"
  shows "\<exists>x'. appendInternal cap k0 hash k v vis x = Some (Inr (x', \<not> taken)) \<and> index_holds cap hash x' (if taken then B else add_mset (k, v) B)
    \<and> numEntries (indexHeader x') = numEntries (indexHeader x) + (if taken then 0 else 1)"
proof -
  obtain ch E F where inv: "index_inv cap hash x ch E F" and B: "content E (length (pSlots x)) = B" using x by (auto simp: index_holds_def)
  let ?i = "getPrimarySlotIdForHash (indexHeader x) (hash k)" and ?fp = "getFingerprintForHash (hash k)"
  note K = key_chain [OF inv, where k = k]
  have le: "length (E ?i) \<le> length (ch ?i) * cap" using K(5) by (simp add: fits_def)
  from findEntry_index [OF inv cap, of k vis] show ?thesis
  proof (elim disjE exE conjE)
    fix g assume g: "g < length (E ?i)" "findEntry cap k ?fp vis x (PrimarySlot ?i) = Some (Inr (ch ?i ! (g div cap), Some (g mod cap)))"
      "vis (snd (fst (E ?i ! g)))" "(k, snd (fst (E ?i ! g))) \<in># content E (length (pSlots x))"
    have taken using g(3,4) B by (auto simp: taken_def)
    then show ?thesis using nth_cell(1) [OF K(4) cap(1) g(1) div_in_chain [OF g(1) le cap(1)]] g(2) x by (simp add: appendInternal_def Let_def)
  next
    let ?info = "ch ?i ! min (length (E ?i) div cap) (length (ch ?i) - 1)"
    assume "\<forall>v. (k, v) \<in># content E (length (pSlots x)) \<longrightarrow> \<not> vis v" and r: "findEntry cap k ?fp vis x (PrimarySlot ?i) = Some (Inr (?info, None))"
    then have no: "\<not> taken" using B by (auto simp: taken_def)
    from insert_at_end [OF inv cap, of k v k0] obtain x' ch' F' where H: "hasSlot x ?info" and ins: "(if slot_numEntries (slotHeader (slotAt x ?info)) < cap
        then index_insert hash k ?info (slot_numEntries (slotHeader (slotAt x ?info))) v ?fp x
        else insertToNewOvfSlot cap k0 hash k ?info v ?fp x) = Inr x'"
      and A: "arena cap x' ch' ((\<lambda>i. cellFn (E i))(?i := cellFn (E ?i @ [((k, v), ?fp)]))) F'" and ch': "\<forall>i'. i' \<noteq> ?i \<longrightarrow> ch' i' = ch i'"
      and fit: "fits cap (ch' ?i) (E ?i @ [((k, v), ?fp)])" and c: "changes UNIV x x'" by blast
    have "index_inv cap hash (countEntry x') ch' (E(?i := E ?i @ [((k, v), ?fp)])) F'"
      unfolding countEntry_def by (rule index_inv_chain [OF inv refl c A ch' fit]) auto
    moreover have "content (E(?i := E ?i @ [((k, v), ?fp)])) (length (pSlots x)) = add_mset (k, v) B"
      using content_set [OF K(1), of E "E ?i @ [((k, v), ?fp)]"] B by simp
    ultimately have "index_holds cap hash (countEntry x') (add_mset (k, v) B)" using changes_header(6) [OF c] unfolding index_holds_def by (auto simp: countEntry_def)
    moreover have "appendInternal cap k0 hash k v vis x = Some (Inr (countEntry x', True))"
      using r H ins by (auto simp: appendInternal_def Let_def split: if_splits)
    ultimately show ?thesis using no changes_header(5) [OF c] by (simp add: countEntry_def)
  qed
qed

subsection \<open>Deletion\<close>

text \<open>The last entry of the chain takes the place of the deleted one.\<close>

definition removeAt :: "nat \<Rightarrow> 'a list \<Rightarrow> 'a list" where
  "removeAt g es = butlast (es[g := last es])"

lemma removeAt_cells:
  assumes "g < length es"
  shows "cellFn (removeAt g es) = (if g = length es - 1 then (cellFn es)(g := None) else (cellFn es)(g := Some (last es), length es - 1 := None))"
  using assms by (auto simp: removeAt_def cellFn_def fun_eq_iff nth_butlast nth_list_update)

lemma removeAt_mset: "g < length es \<Longrightarrow> add_mset (es ! g) (mset (removeAt g es)) = mset es"
proof -
  assume g: "g < length es"
  then have ne: "es \<noteq> []" by auto
  have "es[g := last es] = removeAt g es @ [last es]"
    using g ne append_butlast_last_id [of "es[g := last es]"] by (auto simp: removeAt_def last_list_update)
  then have "add_mset (last es) (mset (removeAt g es)) = mset (es[g := last es])" by simp
  then show ?thesis using g ne mset_update [OF g, of "last es"] last_in_set [of es]
    by (metis add_mset_add_single add_mset_remove_trivial diff_union_swap insert_DiffM nth_mem nth_mem_mset)
qed

lemma removeAt_set: "g < length es \<Longrightarrow> c \<in> set (removeAt g es) \<Longrightarrow> c \<in> set es"
  using removeAt_mset [of g es] by (metis add_mset_add_single set_mset_mset union_iff)

lemma last_slot:
  assumes "slotChain cap x L (cellFn es)" "fits cap L es" "L \<noteq> []" "es \<noteq> []" "0 < cap" "cap \<le> 20"
  shows "(length es - 1) div cap = length L - 1" "slot_numEntries (slotHeader (slotAt x (last L))) = (length es - 1) mod cap + 1"
proof -
  note lc = last_cell [OF assms(2,3)]
  have b: "(length L - 1) * cap \<le> length es - 1" "length es - 1 < (length L - 1) * cap + cap"
    using assms(2-5) lc by (auto simp: fits_def)
  show d: "(length es - 1) div cap = length L - 1" using b by (intro div_nat_eqI) (simp_all add: mult.commute)
  have "length L - 1 < length L" using assms(3) by simp
  from entry_counts(1) [OF assms(1) this assms(6)] have "slot_numEntries (slotHeader (slotAt x (last L))) = min cap (length es - (length L - 1) * cap)"
    using assms(3) by (simp add: last_conv_nth)
  moreover have "(length es - 1) mod cap = length es - 1 - (length L - 1) * cap" using minus_div_mult_eq_mod [of "length es - 1" cap] unfolding d by simp
  ultimately show "slot_numEntries (slotHeader (slotAt x (last L))) = (length es - 1) mod cap + 1" using b assms(4) by (cases es) (auto simp: Suc_diff_le)
qed

lemma removeEntry_chain:
  fixes k :: 'k
  assumes inv: "index_inv cap hash x ch E F" and cap: "0 < cap" "cap \<le> 20"
  defines "i \<equiv> getPrimarySlotIdForHash (indexHeader x) (hash k)"
  assumes g: "g < length (E i)"
  shows "\<exists>x'. removeEntry (ch i ! (g div cap)) (g mod cap) (last (ch i)) x = Inr x' \<and> arena cap x' ch ((\<lambda>i. cellFn (E i))(i := cellFn (removeAt g (E i)))) F \<and> changes UNIV x x'"
proof -
  note K = key_chain [OF inv, where k = k, folded i_def] and A = index_invD(1) [OF inv]
  let ?es = "E i" and ?l = "length (E i) - 1"
  have ne: "?es \<noteq> []" using g by auto
  have le: "length ?es \<le> length (ch i) * cap" using K(5) by (simp add: fits_def)
  have l: "?l < length ?es" using ne by simp
  note gd = div_in_chain [OF g le cap(1)] and ld = div_in_chain [OF l le cap(1)]
  note ls = last_slot [OF K(4,5,2) ne cap]
  have last': "last (ch i) = ch i ! (?l div cap)" unfolding ls(1) using K(2) by (rule last_conv_nth)
  note lc = nth_cell [OF K(4) cap(1) l ld]
  have same: "ch i ! (?l div cap) = ch i ! (g div cap) \<longleftrightarrow> ?l div cap = g div cap" using K(4) gd ld by (auto simp: slotChain_def nth_eq_iff_index_eq)
  have eq: "ch i ! (?l div cap) = ch i ! (g div cap) \<and> g mod cap = ?l mod cap \<longleftrightarrow> g = ?l" unfolding same by (metis div_mult_mod_eq)
  have mods: "g mod cap < cap" "?l mod cap < cap" "g div cap * cap + g mod cap = g" "?l div cap * cap + ?l mod cap = ?l" using cap(1) by simp_all
  show ?thesis
  proof (cases "g = ?l")
    case True
    from arena_cell(2) [OF A K(1) gd mods(1) cap(2)] obtain x' where x': "invalidateEntry (ch i ! (g div cap)) (g mod cap) x = Inr x'"
      "arena cap x' ch ((\<lambda>i. cellFn (E i))(i := (cellFn ?es)(g := None))) F" "changes {ch i ! (g div cap)} x x'" by auto
    have "removeEntry (ch i ! (g div cap)) (g mod cap) (last (ch i)) x = Inr x'"
      using x'(1) lc(1) ls(2) True by (simp add: removeEntry_def last')
    then show ?thesis using x' True removeAt_cells [OF g] changes_mono [OF x'(3)] by auto
  next
    case False
    have e: "?es ! ?l = last ?es" using ne by (simp add: last_conv_nth)
    from arena_cell(1) [OF A K(1) gd mods(1) cap(2), of "fst (last ?es)" "snd (last ?es)"] obtain y where y: "putEntry (ch i ! (g div cap)) (g mod cap) (fst (last ?es)) (snd (last ?es)) x = Inr y"
      "arena cap y ch ((\<lambda>i. cellFn (E i))(i := (cellFn ?es)(g := Some (last ?es)))) F" "changes {ch i ! (g div cap)} x y" by auto
    have "i < length (pSlots y)" using changes_header(6) [OF y(3)] K(1) by simp
    from arena_cell(2) [OF y(2) this ld mods(2) cap(2)] obtain z where z: "invalidateEntry (ch i ! (?l div cap)) (?l mod cap) y = Inr z"
      "arena cap z ch ((\<lambda>i. cellFn (E i))(i := (cellFn ?es)(g := Some (last ?es), ?l := None))) F" "changes {ch i ! (?l div cap)} y z" by auto
    have "removeEntry (ch i ! (g div cap)) (g mod cap) (last (ch i)) x = Inr z"
      using y(1) z(1) lc ls(2) False eq e cap(2) by (auto simp: removeEntry_def last' Let_def)
    moreover have "changes UNIV x z" by (rule changes_trans [OF y(3) z(3)]) simp
    ultimately show ?thesis using z(2) False removeAt_cells [OF g] by auto
  qed
qed

lemma findToDelete_index:
  fixes k :: 'k
  assumes inv: "index_inv cap hash x ch E F" and cap: "0 < cap" "cap \<le> 20"
  defines "i \<equiv> getPrimarySlotIdForHash (indexHeader x) (hash k)" and "B \<equiv> content E (length (pSlots x))"
  shows "(\<exists>g. g < length (E i) \<and> findToDelete cap k (getFingerprintForHash (hash k)) x (PrimarySlot i) = Some (Inr (ch i ! (g div cap), Some (g mod cap))) \<and> fst (fst (E i ! g)) = k)
    \<or> (\<forall>v. (k, v) \<notin># B) \<and> (\<exists>info. findToDelete cap k (getFingerprintForHash (hash k)) x (PrimarySlot i) = Some (Inr (info, None)))"
proof -
  note K = key_chain [OF inv, where k = k, folded i_def B_def]
  have le: "length (E i) \<le> length (ch i) * cap" using K(5) by (simp add: fits_def)
  have m: "matches k (getFingerprintForHash (hash k)) (\<lambda>_. True) (E i ! g) \<longleftrightarrow> fst (fst (E i ! g)) = k" if "g < length (E i)" for g
    using K(7) nth_mem [OF that] by blast
  have "(\<exists>g. g < length (E i) \<and> matches k (getFingerprintForHash (hash k)) (\<lambda>_. True) (E i ! g) \<and> findToDelete cap k (getFingerprintForHash (hash k)) x (ch i ! 0) = Some (Inr (ch i ! (g div cap), Some (g mod cap))))
    \<or> (\<forall>g. 0 * cap \<le> g \<and> g < length (E i) \<longrightarrow> \<not> matches k (getFingerprintForHash (hash k)) (\<lambda>_. True) (E i ! g)) \<and> (\<exists>info. findToDelete cap k (getFingerprintForHash (hash k)) x (ch i ! 0) = Some (Inr (info, None)))"
    by (rule findToDelete_chain [OF K(4) cap(2,1) le]) (use K(2) in simp)
  then show ?thesis unfolding K(3)
  proof (elim disjE exE conjE)
    fix info assume no: "\<forall>g. 0 * cap \<le> g \<and> g < length (E i) \<longrightarrow> \<not> matches k (getFingerprintForHash (hash k)) (\<lambda>_. True) (E i ! g)"
      and r: "findToDelete cap k (getFingerprintForHash (hash k)) x (PrimarySlot i) = Some (Inr (info, None))"
    have "\<not> (\<exists>c \<in> set (E i). fst c = (k, v))" for v
    proof
      assume "\<exists>c \<in> set (E i). fst c = (k, v)"
      then obtain g where "g < length (E i)" "fst (E i ! g) = (k, v)" by (metis in_set_conv_nth)
      then show False using no m by fastforce
    qed
    then show ?thesis using K(6) r by blast
  next
    fix g assume g: "g < length (E i)" "matches k (getFingerprintForHash (hash k)) (\<lambda>_. True) (E i ! g)"
      and r: "findToDelete cap k (getFingerprintForHash (hash k)) x (PrimarySlot i) = Some (Inr (ch i ! (g div cap), Some (g mod cap)))"
    then show ?thesis using m [OF g(1)] by blast
  qed
qed

lemma deleteKey_ok:
  fixes k :: 'k
  assumes x: "index_holds cap hash x B" and cap: "0 < cap" "cap \<le> 20"
  shows "(\<forall>v. (k, v) \<notin># B) \<and> deleteKey cap hash k x = Some (Inr (x, False))
    \<or> (\<exists>v x'. (k, v) \<in># B \<and> deleteKey cap hash k x = Some (Inr (x', True)) \<and> index_holds cap hash x' (B - {#(k, v)#}) \<and> numEntries (indexHeader x') = numEntries (indexHeader x))"
proof -
  obtain ch E F where inv: "index_inv cap hash x ch E F" and B: "content E (length (pSlots x)) = B" using x by (auto simp: index_holds_def)
  show ?thesis
  proof (cases "numEntries (indexHeader x) = 0")
    case True
    then have "B = {#}" using inv B by (simp add: index_inv_def content_def)
    then show ?thesis using True by (simp add: deleteKey_def)
  next
    case False
    let ?i = "getPrimarySlotIdForHash (indexHeader x) (hash k)"
    note K = key_chain [OF inv, where k = k]
    from findToDelete_index [OF inv cap, of k] show ?thesis
    proof (elim disjE exE conjE)
      fix g assume g: "g < length (E ?i)" "fst (fst (E ?i ! g)) = k"
        and find: "findToDelete cap k (getFingerprintForHash (hash k)) x (PrimarySlot ?i) = Some (Inr (ch ?i ! (g div cap), Some (g mod cap)))"
      let ?es = "removeAt g (E ?i)" and ?E = "E(?i := removeAt g (E ?i))"
      have le: "length (E ?i) \<le> length (ch ?i) * cap" using K(5) by (simp add: fits_def)
      obtain v where key: "fst (E ?i ! g) = (k, v)" using g(2) by (cases "fst (E ?i ! g)") simp
      from removeEntry_chain [OF inv cap, of g k] g(1) obtain y where y: "removeEntry (ch ?i ! (g div cap)) (g mod cap) (last (ch ?i)) x = Inr y"
        "arena cap y ch ((\<lambda>i. cellFn (E i))(?i := cellFn ?es)) F" "changes UNIV x y" by blast
      have iy: "?i < length (pSlots y)" using changes_header(6) [OF y(3)] K(1) by simp
      have Cy: "slotChain cap y (ch ?i) (cellFn ?es)" using arenaD(3) [OF y(2) iy] by simp
      have len: "length ?es = length (E ?i) - 1" by (simp add: removeAt_def)
      have lesy: "length ?es \<le> length (ch ?i) * cap" using le len by simp
      have lastH: "hasSlot y (last (ch ?i))" using chainD(1) [OF Cy, of "length (ch ?i) - 1"] K(2) by (simp add: last_conv_nth)
      have empty: "slot_numEntries (slotHeader (slotAt y (last (ch ?i)))) = 0 \<longleftrightarrow> length ?es \<le> (length (ch ?i) - 1) * cap"
        using entry_counts(1) [OF Cy, of "length (ch ?i) - 1"] K(2) cap by (auto simp: last_conv_nth)
      obtain z ch' F' where z: "(if slot_numEntries (slotHeader (slotAt y (last (ch ?i)))) = 0 then reclaimOverflowSlots (PrimarySlot ?i) y else Some (Inr y)) = Some (Inr z)"
        "arena cap z ch' ((\<lambda>i. cellFn (E i))(?i := cellFn ?es)) F'" "\<forall>i'. i' \<noteq> ?i \<longrightarrow> ch' i' = ch i'" "fits cap (ch' ?i) ?es" "changes UNIV x z"
      proof (cases "slot_numEntries (slotHeader (slotAt y (last (ch ?i)))) = 0")
        case True
        from arena_trim [OF y(2) iy cap _ lesy, of 0] obtain z F' where "reclaimOverflowSlots (PrimarySlot ?i) y = Some (Inr z)"
          "arena cap z (ch(?i := take (neededSlots cap ?es) (ch ?i))) ((\<lambda>i. cellFn (E i))(?i := cellFn ?es)) F'" "changes (set (ch ?i)) y z" using K(3) by auto
        then show ?thesis using that [of z "ch(?i := take (neededSlots cap ?es) (ch ?i))" F'] True neededSlots(2) [OF cap(1) K(2) lesy] changes_trans [OF y(3), of "set (ch ?i)" z UNIV] by simp
      next
        case False
        then have "fits cap (ch ?i) ?es" using lesy empty by (simp add: fits_def not_le)
        then show ?thesis using that [of y ch F] False y by simp
      qed
      have "index_inv cap hash (z\<lparr>indexHeader := (indexHeader z)\<lparr>numEntries := numEntries (indexHeader z)\<rparr>\<rparr>) ch' ?E F'"
        using False changes_header(5) [OF z(5)] removeAt_set [OF g(1)] by (intro index_inv_chain [OF inv refl z(5,2,3,4)]) auto
      moreover have "content ?E (length (pSlots x)) = B - {#(k, v)#}"
      proof -
        have "mset (map fst (E ?i)) = add_mset (k, v) (mset (map fst ?es))" using arg_cong [OF removeAt_mset [OF g(1)], of "image_mset fst"] by (simp add: key)
        then have "content ?E (length (pSlots x)) + {#(k, v)#} = B" using content_set [OF K(1), of E ?es] B by simp
        then show ?thesis by (metis add_diff_cancel_right')
      qed
      ultimately have "index_holds cap hash z (B - {#(k, v)#})" using changes_header(6) [OF z(5)] unfolding index_holds_def by auto
      moreover have "(k, v) \<in># B" using K(6) nth_mem [OF g(1)] key B by blast
      moreover have "lastChainedSlot x (ch ?i ! (g div cap)) = Some (Inr (last (ch ?i)))" by (rule lastChainedSlot_chain [OF K(4) div_in_chain [OF g(1) le cap(1)]])
      then have "deleteKey cap hash k x = Some (Inr (z, True))"
        unfolding deleteKey_def Let_def find using False y(1) getSlot_in [OF lastH] z(1) by simp
      ultimately show ?thesis using changes_header(5) [OF z(5)] by blast
    qed (use False B in \<open>simp add: deleteKey_def Let_def\<close>)
  qed
qed

section \<open>Sequences of operations\<close>

datatype 'k index_op =
    OpAppend 'k u64 "u64 \<Rightarrow> bool"
  | OpAppendBuffer "'k slot_entry list" nat "u64 \<Rightarrow> bool"
  | OpLookup 'k "u64 \<Rightarrow> bool"
  | OpDelete 'k
  | OpReserve nat
  | OpClear

datatype index_outcome = Appended bool | AppendedEntries nat | Found "u64 option" | Deleted bool | NoOutcome

definition runOp :: "nat \<Rightarrow> 'k \<Rightarrow> ('k \<Rightarrow> u64) \<Rightarrow> nat \<Rightarrow> 'k index_op \<Rightarrow> 'k in_mem_hash_index \<Rightarrow> ('k in_mem_hash_index \<times> index_outcome) res option" where
  "runOp cap k0 hash slotsPerPage oper x =
     (case oper of
        OpAppend k v vis \<Rightarrow> bindP (index_append cap k0 hash k v vis x) (\<lambda>(x, b). Some (Inr (x, Appended b)))
      | OpAppendBuffer es n vis \<Rightarrow> bindP (index_appendBuffer cap k0 hash es n vis x) (\<lambda>(x, m). Some (Inr (x, AppendedEntries m)))
      | OpLookup k vis \<Rightarrow> bindP (index_lookup cap hash k vis x) (\<lambda>r. Some (Inr (x, Found r)))
      | OpDelete k \<Rightarrow> bindP (deleteKey cap hash k x) (\<lambda>(x, b). Some (Inr (x, Deleted b)))
      | OpReserve n \<Rightarrow> bindP (reserveSpaceForAppend cap k0 hash n x) (\<lambda>x. Some (Inr (x, NoOutcome)))
      | OpClear \<Rightarrow> Some (Inr (index_clear cap k0 slotsPerPage x, NoOutcome)))"

fun runOps :: "nat \<Rightarrow> 'k \<Rightarrow> ('k \<Rightarrow> u64) \<Rightarrow> nat \<Rightarrow> 'k index_op list \<Rightarrow> 'k in_mem_hash_index \<Rightarrow> ('k in_mem_hash_index \<times> index_outcome list) res option" where
  "runOps cap k0 hash slotsPerPage [] x = Some (Inr (x, []))"
| "runOps cap k0 hash slotsPerPage (oper # ops) x =
     bindP (runOp cap k0 hash slotsPerPage oper x) (\<lambda>(x, outcome).
     bindP (runOps cap k0 hash slotsPerPage ops x) (\<lambda>(x, outcomes). Some (Inr (x, outcome # outcomes))))"

text \<open>The entries an operation makes room for.\<close>

fun opSize :: "'k index_op \<Rightarrow> nat" where
  "opSize (OpAppend k v vis) = 1"
| "opSize (OpAppendBuffer es n vis) = length es"
| "opSize (OpReserve n) = n"
| "opSize (OpLookup k vis) = 0"
| "opSize (OpDelete k) = 0"
| "opSize OpClear = 0"

text \<open>The same operations on a multiset of entries. The entry that is found or deleted is one of those of the key.\<close>

definition visibleKey :: "'k \<Rightarrow> (u64 \<Rightarrow> bool) \<Rightarrow> 'k slot_entry multiset \<Rightarrow> bool" where
  "visibleKey k vis B \<longleftrightarrow> (\<exists>v. (k, v) \<in># B \<and> vis v)"

fun bagAppend :: "'k slot_entry list \<Rightarrow> (u64 \<Rightarrow> bool) \<Rightarrow> nat \<Rightarrow> 'k slot_entry multiset \<Rightarrow> 'k slot_entry multiset \<times> nat" where
  "bagAppend [] vis m B = (B, m)"
| "bagAppend ((k, v) # es) vis m B = (if visibleKey k vis B then (B, m) else bagAppend es vis (m + 1) (add_mset (k, v) B))"

fun bagOp :: "'k index_op \<Rightarrow> 'k slot_entry multiset \<Rightarrow> index_outcome \<Rightarrow> 'k slot_entry multiset \<Rightarrow> bool" where
  "bagOp (OpAppend k v vis) B r B' \<longleftrightarrow> r = Appended (\<not> visibleKey k vis B) \<and> B' = (if visibleKey k vis B then B else add_mset (k, v) B)"
| "bagOp (OpAppendBuffer es n vis) B r B' \<longleftrightarrow> (B', r) = map_prod id AppendedEntries (bagAppend (drop n es) vis 0 B)"
| "bagOp (OpLookup k vis) B r B' \<longleftrightarrow> B' = B \<and> (if visibleKey k vis B then \<exists>v. (k, v) \<in># B \<and> vis v \<and> r = Found (Some v) else r = Found None)"
| "bagOp (OpDelete k) B r B' \<longleftrightarrow> (if \<exists>v. (k, v) \<in># B then \<exists>v. (k, v) \<in># B \<and> B' = B - {#(k, v)#} \<and> r = Deleted True else B' = B \<and> r = Deleted False)"
| "bagOp (OpReserve n) B r B' \<longleftrightarrow> B' = B \<and> r = NoOutcome"
| "bagOp OpClear B r B' \<longleftrightarrow> B' = {#} \<and> r = NoOutcome"

fun bagOps :: "'k index_op list \<Rightarrow> 'k slot_entry multiset \<Rightarrow> index_outcome list \<Rightarrow> 'k slot_entry multiset \<Rightarrow> bool" where
  "bagOps [] B rs B' \<longleftrightarrow> rs = [] \<and> B' = B"
| "bagOps (oper # ops) B rs B' \<longleftrightarrow> (\<exists>r rs' C. rs = r # rs' \<and> bagOp oper B r C \<and> bagOps ops C rs' B')"

lemma appendEach_ok:
  assumes cap: "0 < cap" "cap \<le> 20"
  shows "index_holds cap hash x B \<Longrightarrow> \<exists>x'. appendEach cap k0 hash es vis m x = Some (Inr (x', snd (bagAppend es vis m B))) \<and> index_holds cap hash x' (fst (bagAppend es vis m B))
    \<and> numEntries (indexHeader x') \<le> numEntries (indexHeader x) + length es"
proof (induction es arbitrary: m x B)
  case (Cons e es)
  obtain k v where e: "e = (k, v)" by (cases e)
  from appendInternal_ok [OF Cons.prems cap, of k0 k v vis] obtain y where y: "appendInternal cap k0 hash k v vis x = Some (Inr (y, \<not> visibleKey k vis B))"
    "index_holds cap hash y (if visibleKey k vis B then B else add_mset (k, v) B)" "numEntries (indexHeader y) = numEntries (indexHeader x) + (if visibleKey k vis B then 0 else 1)"
    unfolding visibleKey_def by blast
  show ?case
  proof (cases "visibleKey k vis B")
    case True
    then show ?thesis using y by (simp add: e)
  next
    case False
    then show ?thesis using Cons.IH [of y "add_mset (k, v) B" "m + 1"] y by (auto simp: e)
  qed
qed simp

lemma unat_small: "n \<le> 2 ^ 30 \<Longrightarrow> unat (of_nat n :: u32) \<le> 2 ^ 30"
  by (simp add: unat_of_nat take_bit_nat_eq_self)

lemma reserve_ok:
  assumes "index_holds cap hash x B" "0 < cap" "cap \<le> 20" "n \<le> 2 ^ 30"
  shows "\<exists>x'. index_reserve cap k0 hash (of_nat n) x = Some (Inr x') \<and> index_holds cap hash x' B \<and> numEntries (indexHeader x') = numEntries (indexHeader x)"
  using index_reserve_ok [OF assms(1-3) unat_small [OF assms(4)]] .

lemma runOp_ok:
  assumes x: "index_holds cap hash x B" and cap: "0 < cap" "cap \<le> 20" and page: "2 \<le> slotsPerPage" "slotsPerPage < 2 ^ 31" and small: "numEntries (indexHeader x) + opSize oper \<le> 2 ^ 30"
  shows "\<exists>x' r B'. runOp cap k0 hash slotsPerPage oper x = Some (Inr (x', r)) \<and> bagOp oper B r B' \<and> index_holds cap hash x' B'
    \<and> numEntries (indexHeader x') \<le> numEntries (indexHeader x) + opSize oper"
proof (cases oper)
  case (OpAppend k v vis)
  then have "numEntries (indexHeader x) + 1 \<le> 2 ^ 30" using small by simp
  from reserve_ok [OF x cap this, of k0] obtain y where y: "index_reserve cap k0 hash (of_nat (numEntries (indexHeader x) + 1)) x = Some (Inr y)"
    "index_holds cap hash y B" "numEntries (indexHeader y) = numEntries (indexHeader x)" by blast
  from appendInternal_ok [OF y(2) cap, of k0 k v vis] obtain z where "appendInternal cap k0 hash k v vis y = Some (Inr (z, \<not> visibleKey k vis B))"
    "index_holds cap hash z (if visibleKey k vis B then B else add_mset (k, v) B)" "numEntries (indexHeader z) = numEntries (indexHeader y) + (if visibleKey k vis B then 0 else 1)"
    unfolding visibleKey_def by blast
  then show ?thesis using y(1,3) by (auto simp: OpAppend runOp_def index_append_def)
next
  case (OpAppendBuffer es n vis)
  then have "numEntries (indexHeader x) + length es - n \<le> 2 ^ 30" using small by simp
  from reserve_ok [OF x cap this, of k0] obtain y where y: "index_reserve cap k0 hash (of_nat (numEntries (indexHeader x) + length es - n)) x = Some (Inr y)"
    "index_holds cap hash y B" "numEntries (indexHeader y) = numEntries (indexHeader x)" by blast
  from appendEach_ok [OF cap y(2), of k0 "drop n es" vis 0] obtain z where z: "appendEach cap k0 hash (drop n es) vis 0 y = Some (Inr (z, snd (bagAppend (drop n es) vis 0 B)))"
    "index_holds cap hash z (fst (bagAppend (drop n es) vis 0 B))" "numEntries (indexHeader z) \<le> numEntries (indexHeader y) + length (drop n es)" by blast
  have "runOp cap k0 hash slotsPerPage oper x = Some (Inr (z, AppendedEntries (snd (bagAppend (drop n es) vis 0 B))))"
    using y(1) z(1) by (simp add: OpAppendBuffer runOp_def index_appendBuffer_def)
  moreover have "bagOp oper B (AppendedEntries (snd (bagAppend (drop n es) vis 0 B))) (fst (bagAppend (drop n es) vis 0 B))" by (simp add: OpAppendBuffer map_prod_def split_beta)
  ultimately show ?thesis using z(2,3) y(3) by (auto simp: OpAppendBuffer)
next
  case (OpLookup k vis)
  from index_lookup_ok [OF x cap, of k vis] obtain r where r: "index_lookup cap hash k vis x = Some (Inr r)"
    "case r of None \<Rightarrow> \<forall>v. (k, v) \<in># B \<longrightarrow> \<not> vis v | Some v \<Rightarrow> (k, v) \<in># B \<and> vis v" by blast
  then have "bagOp oper B (Found r) B" by (cases r) (auto simp: OpLookup visibleKey_def)
  then show ?thesis using r(1) x by (auto simp: OpLookup runOp_def)
next
  case (OpDelete k)
  from deleteKey_ok [OF x cap, of k] show ?thesis
  proof (elim disjE exE conjE)
    assume none: "\<forall>v. (k, v) \<notin># B" and d: "deleteKey cap hash k x = Some (Inr (x, False))"
    then have "bagOp oper B (Deleted False) B" by (simp add: OpDelete)
    moreover have "runOp cap k0 hash slotsPerPage oper x = Some (Inr (x, Deleted False))" using d by (simp add: OpDelete runOp_def)
    ultimately show ?thesis using x le_add1 by blast
  next
    fix v x' assume v: "(k, v) \<in># B" and d: "deleteKey cap hash k x = Some (Inr (x', True))" "index_holds cap hash x' (B - {#(k, v)#})" "numEntries (indexHeader x') = numEntries (indexHeader x)"
    then have "bagOp oper B (Deleted True) (B - {#(k, v)#})" by (auto simp: OpDelete)
    moreover have "runOp cap k0 hash slotsPerPage oper x = Some (Inr (x', Deleted True))" using d(1) by (simp add: OpDelete runOp_def)
    ultimately show ?thesis using d(2,3) le_add1 by metis
  qed
next
  case (OpReserve n)
  then have "numEntries (indexHeader x) + n \<le> 2 ^ 30" using small by simp
  from reserve_ok [OF x cap this, of k0] show ?thesis by (auto simp: OpReserve runOp_def reserveSpaceForAppend_def)
next
  case OpClear
  let ?x = "x\<lparr>indexHeader := HashIndexHeader_new, pSlots := [], oSlots := []\<rparr>"
  show ?thesis using fresh_index_ok(1) [OF page, of ?x cap hash k0] fresh_index_ok(2) [OF page, of ?x cap k0]
    by (simp add: OpClear runOp_def index_clear_def)
qed

lemma runOps_ok:
  assumes cap: "0 < cap" "cap \<le> 20" and page: "2 \<le> slotsPerPage" "slotsPerPage < 2 ^ 31"
  shows "index_holds cap hash x B \<Longrightarrow> numEntries (indexHeader x) + sum_list (map opSize ops) \<le> 2 ^ 30 \<Longrightarrow>
    \<exists>x' rs B'. runOps cap k0 hash slotsPerPage ops x = Some (Inr (x', rs)) \<and> bagOps ops B rs B' \<and> index_holds cap hash x' B'"
proof (induction ops arbitrary: x B)
  case (Cons oper ops)
  then have "numEntries (indexHeader x) + opSize oper \<le> 2 ^ 30" by simp
  from runOp_ok [OF Cons.prems(1) cap page this, of k0] obtain y r C where y: "runOp cap k0 hash slotsPerPage oper x = Some (Inr (y, r))" "bagOp oper B r C" "index_holds cap hash y C"
    "numEntries (indexHeader y) \<le> numEntries (indexHeader x) + opSize oper" by blast
  from Cons.IH [OF y(3)] Cons.prems(2) y(4) obtain z rs B' where "runOps cap k0 hash slotsPerPage ops y = Some (Inr (z, rs))" "bagOps ops C rs B'" "index_holds cap hash z B'" by fastforce
  then show ?case using y(1,2) by auto
qed simp

lemma runOps_new:
  assumes "0 < cap" "cap \<le> FINGERPRINT_CAPACITY" "2 \<le> slotsPerPage" "slotsPerPage < 2 ^ 31" "sum_list (map opSize ops) \<le> 2 ^ 30"
  shows "\<exists>x rs B. runOps cap k0 hash slotsPerPage ops (InMemHashIndex_new cap k0 slotsPerPage) = Some (Inr (x, rs)) \<and> bagOps ops {#} rs B \<and> index_holds cap hash x B"
proof -
  have "cap \<le> 20" using assms(2) by (simp add: FINGERPRINT_CAPACITY_def)
  from runOps_ok [OF assms(1) this assms(3,4) InMemHashIndex_new_ok(1) [OF assms(3,4), of cap hash k0], of ops] InMemHashIndex_new_ok(2) [OF assms(3,4), of cap k0] assms(5)
  show ?thesis by simp
qed

text \<open>
  C6. The in-memory hash index implements a multiset of entries: every sequence of appends, appends of buffers,
  lookups, deletions, reservations and clears that makes room for at most \<open>2 ^ 30\<close> entries ends without an
  assertion or access that fails, through all the splits of slots and the reuse of overflow slots it needs, and its
  results are those of the multiset: an append is refused exactly when a visible entry has the key, a lookup finds a
  visible entry of the key if there is one, and a deletion takes one entry of the key.
\<close>

theorem index_refines_multiset:
  assumes "0 < cap" "cap \<le> FINGERPRINT_CAPACITY" "2 \<le> slotsPerPage" "slotsPerPage < 2 ^ 31" "sum_list (map opSize ops) \<le> 2 ^ 30"
  shows "\<exists>x rs B. runOps cap k0 hash slotsPerPage ops (InMemHashIndex_new cap k0 slotsPerPage) = Some (Inr (x, rs)) \<and> bagOps ops {#} rs B"
  using runOps_new [OF assms] by blast

text \<open>Without entries that are invisible the index is a map, and its results are determined.\<close>

fun alwaysVisible :: "'k index_op \<Rightarrow> bool" where
  "alwaysVisible (OpAppend k v vis) \<longleftrightarrow> vis = (\<lambda>_. True)"
| "alwaysVisible (OpAppendBuffer es n vis) \<longleftrightarrow> vis = (\<lambda>_. True)"
| "alwaysVisible (OpLookup k vis) \<longleftrightarrow> vis = (\<lambda>_. True)"
| "alwaysVisible _ \<longleftrightarrow> True"

fun mapAppend :: "'k slot_entry list \<Rightarrow> nat \<Rightarrow> ('k \<rightharpoonup> u64) \<Rightarrow> ('k \<rightharpoonup> u64) \<times> nat" where
  "mapAppend [] m f = (f, m)"
| "mapAppend ((k, v) # es) m f = (if f k = None then mapAppend es (m + 1) (f(k \<mapsto> v)) else (f, m))"

fun mapOp :: "'k index_op \<Rightarrow> ('k \<rightharpoonup> u64) \<Rightarrow> ('k \<rightharpoonup> u64) \<times> index_outcome" where
  "mapOp (OpAppend k v vis) f = (if f k = None then (f(k \<mapsto> v), Appended True) else (f, Appended False))"
| "mapOp (OpAppendBuffer es n vis) f = map_prod id AppendedEntries (mapAppend (drop n es) 0 f)"
| "mapOp (OpLookup k vis) f = (f, Found (f k))"
| "mapOp (OpDelete k) f = (f(k := None), Deleted (f k \<noteq> None))"
| "mapOp (OpReserve n) f = (f, NoOutcome)"
| "mapOp OpClear f = (Map.empty, NoOutcome)"

fun mapOps :: "'k index_op list \<Rightarrow> ('k \<rightharpoonup> u64) \<Rightarrow> index_outcome list" where
  "mapOps [] f = []"
| "mapOps (oper # ops) f = (let (f, r) = mapOp oper f in r # mapOps ops f)"

definition bag_is_map :: "'k slot_entry multiset \<Rightarrow> ('k \<rightharpoonup> u64) \<Rightarrow> bool" where
  "bag_is_map B f \<longleftrightarrow> (\<forall>k v. count B (k, v) = (if f k = Some v then 1 else 0))"

lemma bag_is_map_mem: "bag_is_map B f \<Longrightarrow> (k, v) \<in># B \<longleftrightarrow> f k = Some v"
  by (simp add: bag_is_map_def count_greater_zero_iff [symmetric] del: count_greater_zero_iff)

lemma bag_is_map_visible: "bag_is_map B f \<Longrightarrow> visibleKey k (\<lambda>_. True) B \<longleftrightarrow> f k \<noteq> None"
  by (auto simp: visibleKey_def bag_is_map_mem)

lemma bag_is_map_steps:
  "bag_is_map {#} Map.empty" "bag_is_map B f \<Longrightarrow> f k = None \<Longrightarrow> bag_is_map (add_mset (k, v) B) (f(k \<mapsto> v))"
  "bag_is_map B f \<Longrightarrow> f k = Some v \<Longrightarrow> bag_is_map (B - {#(k, v)#}) (f(k := None))"
  by (auto simp: bag_is_map_def)

lemma bagAppend_map: "bag_is_map B f \<Longrightarrow> bag_is_map (fst (bagAppend es (\<lambda>_. True) m B)) (fst (mapAppend es m f)) \<and> snd (bagAppend es (\<lambda>_. True) m B) = snd (mapAppend es m f)"
proof (induction es arbitrary: B f m)
  case (Cons e es)
  obtain k v where e: "e = (k, v)" by (cases e)
  show ?case
  proof (cases "f k = None")
    case True
    then show ?thesis using Cons.IH [OF bag_is_map_steps(2) [OF Cons.prems True], of "m + 1" v] bag_is_map_visible [OF Cons.prems] by (simp add: e fun_upd_def)
  next
    case False
    then show ?thesis using Cons.prems bag_is_map_visible [OF Cons.prems] by (auto simp: e)
  qed
qed simp

lemma bagOp_map: "bag_is_map B f \<Longrightarrow> alwaysVisible oper \<Longrightarrow> bagOp oper B r B' \<Longrightarrow> snd (mapOp oper f) = r \<and> bag_is_map B' (fst (mapOp oper f))"
proof (cases oper)
  case (OpAppendBuffer es n vis)
  assume "bag_is_map B f" "alwaysVisible oper" "bagOp oper B r B'"
  then show ?thesis using bagAppend_map [of B f "drop n es" 0] by (auto simp: OpAppendBuffer map_prod_def split_beta)
qed (auto simp: bag_is_map_visible bag_is_map_mem bag_is_map_steps fun_upd_idem split: if_splits)

lemma bagOps_map: "bag_is_map B f \<Longrightarrow> \<forall>oper \<in> set ops. alwaysVisible oper \<Longrightarrow> bagOps ops B rs B' \<Longrightarrow> rs = mapOps ops f"
proof (induction ops arbitrary: B f rs)
  case (Cons oper ops)
  then obtain r rs' C where "rs = r # rs'" "bagOp oper B r C" "bagOps ops C rs' B'" by auto
  then show ?case using bagOp_map [of B f oper r C] Cons by (auto simp: Let_def split_beta)
qed simp

text \<open>
  C7. When every entry is visible the index is a map from keys to offsets: the results of every such sequence of
  operations are those of a map that an append extends unless it has the key, a lookup reads and a deletion shrinks,
  whatever the hash function does with the keys.
\<close>

theorem index_is_map:
  assumes "0 < cap" "cap \<le> FINGERPRINT_CAPACITY" "2 \<le> slotsPerPage" "slotsPerPage < 2 ^ 31" "sum_list (map opSize ops) \<le> 2 ^ 30" "\<forall>oper \<in> set ops. alwaysVisible oper"
  shows "\<exists>x. runOps cap k0 hash slotsPerPage ops (InMemHashIndex_new cap k0 slotsPerPage) = Some (Inr (x, mapOps ops Map.empty))"
proof -
  from runOps_new [OF assms(1-5)] obtain x rs B where
    "runOps cap k0 hash slotsPerPage ops (InMemHashIndex_new cap k0 slotsPerPage) = Some (Inr (x, rs))" "bagOps ops {#} rs B" by blast
  then show ?thesis using bagOps_map [OF bag_is_map_steps(1) assms(6)] by blast
qed

text \<open>Three entries in slots of one entry with a hash that sends all keys to one slot, so that the index splits and chains.\<close>

definition index_example :: "nat index_op list" where
  "index_example = [OpAppend 5 50 (\<lambda>_. True), OpAppend 7 70 (\<lambda>_. True), OpAppend 5 51 (\<lambda>_. True), OpAppend 9 90 (\<lambda>_. True),
     OpDelete 7, OpLookup 9 (\<lambda>_. True), OpLookup 7 (\<lambda>_. True)]"

lemma index_refines_multiset_witness:
  "\<exists>x rs B. runOps 1 0 (\<lambda>_. 0) 2 index_example (InMemHashIndex_new 1 0 2) = Some (Inr (x, rs)) \<and> bagOps index_example {#} rs B"
  by (rule index_refines_multiset) (simp_all add: FINGERPRINT_CAPACITY_def index_example_def)

lemma index_is_map_witness:
  "\<exists>x. runOps 1 0 (\<lambda>_. 0) 2 index_example (InMemHashIndex_new 1 0 2)
    = Some (Inr (x, [Appended True, Appended True, Appended False, Appended True, Deleted True, Found (Some 90), Found None]))"
  using index_is_map [of 1 2 index_example 0 "\<lambda>_. 0"] by (simp add: FINGERPRINT_CAPACITY_def index_example_def)

end
