(* ===== verification/Spec2Isabelle.thy ===== *)
theory Spec2Isabelle
  imports Null_Mask Serialization Byte_Streams Read_Programs Sel_Vector Version_Info Version_Store
    Transaction_Manager Checksum Wal_Records Wal Name_Map Property_Collection Sequence_Entry
    Catalog_Entries Catalog_Set Page_State Buffer_Manager File_Handle Free_Space Database_Header
    Shadow_File Log_Cut Checkpointer Checkpoint Snapshot Hash_Refinement
begin

text \<open>
  A verification development for the storage and transaction core of the graph database in
  \<^verbatim>\<open>src/src\<close>: what makes a committed transaction durable, visible to the right readers, and
  safe against a crash.

  \<^bold>\<open>The program.\<close> A transaction (\<^verbatim>\<open>transaction/\<close>) changes rows, whose versions are kept per
  chunk (\<^verbatim>\<open>storage/table/version_info.cpp\<close>), and the catalog, whose entries are chains of versions
  (\<^verbatim>\<open>catalog/catalog_set.cpp\<close>). It collects log records in a local log; committing appends them to
  the write-ahead log (\<^verbatim>\<open>storage/wal/\<close>). A checkpoint (\<^verbatim>\<open>storage/checkpointer.cpp\<close>) allocates
  pages (\<^verbatim>\<open>storage/page_manager.cpp\<close>), writes changed pages to a shadow file
  (\<^verbatim>\<open>storage/shadow_file.cpp\<close>), logs a checkpoint record and copies the shadow pages into the data
  file. Pages are cached in frames (\<^verbatim>\<open>storage/buffer_manager/\<close>, \<^verbatim>\<open>storage/file_handle.cpp\<close>). The
  next start replays the log or finishes the checkpoint (\<^verbatim>\<open>storage/wal/wal_replayer.cpp\<close>).

  \<^bold>\<open>Theories and the code they model.\<close>
  \<^item> \<open>Prelude\<close>: machine integers, errors, the result type and its sequencing.
  \<^item> \<open>Null_Mask\<close> (\<^verbatim>\<open>common/null_mask.cpp\<close>), \<open>Sel_Vector\<close> (\<^verbatim>\<open>common/data_chunk/sel_vector.cpp\<close>):
    bulk operations on bits agree with their meaning bit by bit; selected positions.
  \<^item> \<open>Serialization\<close>, \<open>Byte_Streams\<close>, \<open>Checksum\<close> (\<^verbatim>\<open>common/serializer\<close>,
    \<^verbatim>\<open>storage/wal/checksum_writer.cpp\<close>): round trips, for values, for the buffering streams (locales
    \<open>serializable\<close>, \<open>byte_writer\<close>, \<open>byte_reader\<close>) and for checksummed entries that fit the buffers.
  \<^item> \<open>Read_Programs\<close> (\<^verbatim>\<open>common/serializer/deserializer.h\<close>, \<^verbatim>\<open>buffered_file.cpp\<close>): a deserializer as the
    reads it makes, which can be run on a byte list and on the buffering readers of the log, and when both
    give the same (locales \<open>bounded_reader\<close>, \<open>ending_reader\<close>).
  \<^item> \<open>Version_Info\<close>, \<open>Version_Store\<close>: a scan selects exactly the rows visible to its transaction if no
    vector is without insertions; commit publishes and rollback hides; deletions survive a checkpoint.
  \<^item> \<open>Update_Info\<close>, \<open>Version_Chain\<close> (\<^verbatim>\<open>storage/table/update_info.cpp\<close>), \<open>Column_Chunk\<close>
    (\<^verbatim>\<open>storage/table/column_chunk.cpp\<close>): chains of updated values, what lookups and scans make of them
    (locales \<open>row_reader\<close>, \<open>segment_reader\<close>), and what the chains keep while transactions run.
  \<^item> \<open>Undo_Buffer\<close> (\<^verbatim>\<open>storage/undo_buffer.cpp\<close>): the records of a transaction as bytes, committed in
    order and rolled back in reverse (locale \<open>record_visitor\<close>); rolling back restores what others see,
    with the conditions on catalog statements and sequence requests stated there.
  \<^item> \<open>Snapshot\<close>: the transaction manager, the undo buffers, the update info and the column chunks
    together refine a reference of snapshots, for every sequence of transactions that update rows.
  \<^item> \<open>Hash_Index\<close>, \<open>Hash_Chains\<close>, \<open>Hash_Split\<close>, \<open>Hash_Refinement\<close>
    (\<^verbatim>\<open>storage/index/in_mem_hash_index.cpp\<close>): linear hashing with chains of overflow slots refines a
    multiset of entries, and a map when every entry is visible, for all sequences of operations that make
    room for at most \<open>2 ^ 30\<close> entries; that bound keeps the 32-bit slot counts and masks exact.
  \<^item> \<open>Transaction_Manager\<close> (\<^verbatim>\<open>transaction/transaction_manager.cpp\<close>, \<^verbatim>\<open>transaction_context.cpp\<close>): an
    invariant of all runs, and what a checkpoint request does while other threads run.
  \<^item> \<open>Name_Map\<close>, \<open>Property_Collection\<close>, \<open>Sequence_Entry\<close>, \<open>Catalog_Entries\<close>, \<open>Catalog_Set\<close>
    (\<^verbatim>\<open>catalog/\<close>): lookups by name and identifier, the exact values of sequences, commit and rollback of
    catalog changes that no other transaction disturbs, and storage of the versioned catalog.
  \<^item> \<open>Wal_Records\<close>, \<open>Wal\<close>, \<open>Log_Cut\<close> (\<^verbatim>\<open>storage/wal\<close>): records round trip up to the two fields of an
    alteration that the log does not hold (\<open>asLogged\<close>), committed transactions are replayed, and a log
    cut off in its last page is recovered to its last complete commit (locale \<open>record_log\<close>). The records
    go through the checksum writer and reader and the page buffers of the file readers.
  \<^item> \<open>Page_State\<close>, \<open>Buffer_Manager\<close>: the atomic word of a page, and one page under any interleaving of
    threads: pins are exclusive and when a page stays locked for good, caching is invisible, when an
    optimistic read is consistent.
  \<^item> \<open>File_Handle\<close>: page states, frame groups and memory of a file as it grows and shrinks.
  \<^item> \<open>Free_Space\<close> (\<^verbatim>\<open>storage/free_space_manager.cpp\<close>, \<^verbatim>\<open>page_manager.cpp\<close>,
    \<^verbatim>\<open>optimistic_allocator.cpp\<close>): the free lists refine an abstract allocator \<open>alloc_spec\<close> in which every
    page is used, free or waiting for the checkpoint.
  \<^item> \<open>Database_Header\<close>, \<open>Shadow_File\<close>, \<open>Checkpointer\<close>, \<open>Checkpoint\<close>: a checkpoint writes the pages it
    has recorded and nothing else, is read back, and is atomic under the crashes of \<open>checkpoint_crash\<close>.
\<close>

text \<open>
  \<^bold>\<open>Conventions.\<close> A class is a record, an operation a function on it with the source's name where
  that is free. An exception is \<open>Inl\<close>; where the state at the throw matters the state is returned with it.
  A failed assertion, a null dereference and an access out of range are errors too, so \<open>Inr\<close> in a
  conclusion excludes them. Words keep their width where wrap-around can matter. A loop that may not end
  is a \<^verbatim>\<open>partial_function (option)\<close>, where \<open>None\<close> is not returning; theorems about such loops conclude
  \<open>Some\<close>. No fuel is used. Threads are step functions on a shared state, a run is a list of steps.

  \<^bold>\<open>Parameters.\<close> The page size \<open>P\<close> and the vector capacity \<open>vc\<close> are constants of the build; the claims
  on whole checkpoints take 4096 where sizes matter. \<open>fresh\<close> is the content of uninitialised memory,
  \<open>alloc\<close> that of the buffers of the checksum writer and reader, which have the size of a page,
  \<open>build\<close> the version string, \<open>dbg\<close> whether debugging tags are written. Logical types, expressions and
  the less common catalog entries are type parameters with their serializers; the bytes and the checkpoint
  of the tables, and the effect \<open>app\<close> of replaying one record, are functions.

  \<^bold>\<open>Crashes.\<close> System calls succeed until the crash. Before a sync the shadow file is arbitrary; the log
  may lose a suffix; while pages are copied, pages are copied in order and one may be torn. The two
  claims on cut logs and crashed checkpoints, and the claim on durable commits, are for
  \<^verbatim>\<open>throwOnWalReplayFailure\<close> off. With it on, which is the default of
  \<^verbatim>\<open>main/database.h\<close>, recovery reports a torn record as an error. They are also for log records of at
  most the size of a page, since the checksum writer loses the beginning of longer ones, and for logs in
  which the torn record begins on the last page, since a read of the file reader that goes on into
  a last page that is cut short returns bytes of the page before.

  \<^bold>\<open>What the code does not do.\<close> Some claims state shortcomings: a page reloaded during an optimistic
  read passes its validation, an exhausted frame region leaves a page without a frame, a long checksummed
  entry loses its first piece, a refused begin leaves the session in manual mode, a failed rename leaves
  a tombstone, a failed advance of a sequence is not undone, an old version is not found by its
  identifier, an inverted short copy of null bits loses the flag, a checkpoint that waits for a
  transaction to leave keeps it from leaving, and a full eviction queue or an eviction in a file in memory
  leaves a page locked.


  \<^bold>\<open>Not modelled.\<close>
  \<^item> The eviction queue, the reservation of memory, the spiller and the memory manager: which page is tried
    and whether memory is granted are arbitrary in \<open>Buffer_Manager\<close>. The variant of the page state without
    virtual memory, the chained block index of \<^verbatim>\<open>ConcurrentVector\<close> and in-memory files are left out.
  \<^item> Tables and node groups, column chunks on disk, compression, indexes, the overflow file and disk
    arrays (\<^verbatim>\<open>storage/table\<close>, \<^verbatim>\<open>storage/index\<close>): the checkpoint of the tables and the handlers of
    inserted and deleted rows in an undo buffer are parameters.
  \<^item> Parser, binder, planner, optimizer, processor and functions, the programming interfaces and the
    extensions: query processing above the storage core.
  \<^item> The file systems, apart from positional reads and writes that succeed.
\<close>

end
